(* ===== verification/Prelude.thy ===== *)
theory Prelude
  imports Main "HOL-Library.Word" "HOL-Library.Finite_Map"
begin

text \<open>
  Shared vocabulary of the development: Go's byte strings, errors and fallible results, the
  WAMP values and invocations the handlers exchange with the router, decimal formatting, and
  the interface of the in-memory session tables that most components keep.
\<close>

section \<open>Basic types\<close>

text \<open>
  A Go \<open>string\<close> and a Go \<open>[]byte\<close> are both sequences of bytes, and a HOL character is a
  byte, so both are \<^typ>\<open>string\<close> here and the conversions between them are identities.
\<close>

type_synonym bytes = string
type_synonym u32 = "32 word"
type_synonym u64 = "64 word"

text \<open>
  Go errors. \<open>Errorf\<close> carries the message of an error made with \<open>fmt.Errorf\<close> or returned
  by code outside the repository, \<open>Wrapf\<close> is \<open>fmt.Errorf("text%w", err)\<close>, and the other
  constructors are the sentinel errors the code compares against.
\<close>

datatype go_error =
    Errorf string
  | Wrapf string go_error
  | ErrNotExist string
  | ErrPermission string
  | ErrFilePathEscapesHome
  | ErrEditConflict
  | ErrKeyExpired
  | ErrClosedPipe
  | ErrUnexpectedEOF
  | ErrEOF

type_synonym 'a result = "go_error + 'a"

text \<open>\<open>err.Error()\<close>: the message of an error.\<close>

primrec err_text :: "go_error \<Rightarrow> string" where
  "err_text (Errorf s) = s"
| "err_text (Wrapf s e) = s @ err_text e"
| "err_text (ErrNotExist s) = s @ '': no such file or directory''"
| "err_text (ErrPermission s) = s @ '': permission denied''"
| "err_text ErrFilePathEscapesHome = ''relative path escapes home directory''"
| "err_text ErrEditConflict = ''file changed on the device, patch could not be applied cleanly''"
| "err_text ErrKeyExpired = ''authentication key expired, please login again''"
| "err_text ErrClosedPipe = ''io: read/write on closed pipe''"
| "err_text ErrUnexpectedEOF = ''unexpected EOF''"
| "err_text ErrEOF = ''EOF''"

text \<open>\<open>if err != nil \{ return ..., err \}\<close>: go on with the value, or pass the error on.\<close>

definition try_result :: "'a result \<Rightarrow> ('a \<Rightarrow> 'b result) \<Rightarrow> 'b result" where
  "try_result r k = (case r of Inl e \<Rightarrow> Inl e | Inr v \<Rightarrow> k v)"

lemma try_result_simps [simp]:
  "try_result (Inl e) k = Inl e"
  "try_result (Inr v) k = k v"
  by (simp_all add: try_result_def)

lemma try_result_Inr_iff:
  "try_result r k = Inr b \<longleftrightarrow> (\<exists>a. r = Inr a \<and> k a = Inr b)"
  by (cases r) auto

text \<open>The run-time panics the code can run into, and the exit of the process by \<open>log.Fatal\<close>.\<close>

datatype go_panic = CloseOfClosedChannel | SendOnClosedChannel | NilDereference | IndexOutOfRange | FatalExit

section \<open>Decimal numbers\<close>

text \<open>\<open>fmt.Sprintf("%d", n)\<close> for a non-negative number.\<close>

definition digit_char :: "nat \<Rightarrow> char" where
  "digit_char d = char_of (48 + d)"

fun dec_nat :: "nat \<Rightarrow> string" where
  "dec_nat n = (if n < 10 then [digit_char n] else dec_nat (n div 10) @ [digit_char (n mod 10)])"

declare dec_nat.simps [simp del]

text \<open>Reading a decimal back, used to show that the formatting loses nothing.\<close>

definition dec_value :: "string \<Rightarrow> nat" where
  "dec_value s = foldl (\<lambda>a c. 10 * a + (of_char c - 48)) 0 s"

lemma of_char_digit: "d < 10 \<Longrightarrow> (of_char (digit_char d) :: nat) = 48 + d"
  by (simp add: digit_char_def)

lemma dec_value_dec_nat [simp]: "dec_value (dec_nat n) = n"
proof (induction n rule: dec_nat.induct)
  case (1 n)
  show ?case
  proof (cases "n < 10")
    case True
    then show ?thesis
      by (simp add: dec_nat.simps [of n] dec_value_def of_char_digit)
  next
    case False
    with 1 have "foldl (\<lambda>a c. 10 * a + (of_char c - 48)) 0 (dec_nat (n div 10)) = n div 10"
      by (simp add: dec_value_def)
    with False show ?thesis
      by (simp add: dec_nat.simps [of n] dec_value_def of_char_digit)
  qed
qed

definition dec_int :: "int \<Rightarrow> string" where
  "dec_int i = (if i < 0 then CHR ''-'' # dec_nat (nat (- i)) else dec_nat (nat i))"

lemma dec_nat_inject [simp]: "dec_nat m = dec_nat n \<longleftrightarrow> m = n"
  by (metis dec_value_dec_nat)

lemma dec_nat_not_Nil [simp]: "dec_nat n \<noteq> []"
  by (simp add: dec_nat.simps [of n])

definition is_digit :: "char \<Rightarrow> bool" where
  "is_digit c \<longleftrightarrow> 48 \<le> (of_char c :: nat) \<and> (of_char c :: nat) \<le> 57"

lemma dec_nat_digits: "c \<in> set (dec_nat n) \<Longrightarrow> is_digit c"
proof (induction n rule: dec_nat.induct)
  case (1 n)
  have d: "is_digit (digit_char k)" if "k < 10" for k using that by (simp add: is_digit_def of_char_digit)
  show ?case using 1 d by (cases "n < 10") (auto simp: dec_nat.simps [of n])
qed

text \<open>\<open>strconv.ParseUint(s, 10, 64)\<close>.\<close>

definition ParseUint :: "string \<Rightarrow> u64 result" where
  "ParseUint s = (if s = [] \<or> \<not> list_all is_digit s then Inl (Errorf (''parsing '' @ s @ '': invalid syntax''))
     else if dec_value s \<ge> 2 ^ 64 then Inl (Errorf (''parsing '' @ s @ '': value out of range''))
     else Inr (of_nat (dec_value s)))"

definition dec_u64 :: "u64 \<Rightarrow> string" where
  "dec_u64 w = dec_nat (unat w)"

lemma dec_u64_inject [simp]: "dec_u64 v = dec_u64 w \<longleftrightarrow> v = w"
  by (simp add: dec_u64_def word_unat_eq_iff)

section \<open>Signed integers\<close>

text \<open>The value of an \<open>int64\<close> or \<open>int\<close> after an operation that may overflow.\<close>

definition wrap64 :: "int \<Rightarrow> int" where
  "wrap64 x = (x + 2 ^ 63) mod 2 ^ 64 - 2 ^ 63"

lemma wrap64_id: "- (2 ^ 63) \<le> x \<Longrightarrow> x < 2 ^ 63 \<Longrightarrow> wrap64 x = x"
  by (simp add: wrap64_def)

section \<open>WAMP values, invocations and results\<close>

text \<open>
  The dynamically typed values the code puts into progress messages and results
  (\<open>[]any\{msgConnect, connID, ...\}\<close>).
\<close>

datatype wval =
    VStr string
  | VBytes bytes
  | VUInt u64
  | VInt int
  | VBool bool
  | VList "wval list"
  | VDict "(string \<times> wval) list"

text \<open>
  An invocation as a handler sees it. The accessors of xconn-go are not part of the
  repository, so an invocation carries what each accessor answers at each position:
  \<open>Inl\<close> the error the accessor returns, \<open>Inr\<close> the value. Nothing is assumed about how the
  answers at one position relate to each other. \<open>inv_ptr\<close> is the pointer identity, which
  the shell component uses as a map key.
\<close>

record invocation =
  inv_ptr :: nat
  inv_Caller :: u64
  inv_CallerAuthID :: string
  inv_Progress :: bool
  inv_Args :: "wval list"
  inv_ArgString :: "nat \<Rightarrow> string result"
  inv_ArgUInt64 :: "nat \<Rightarrow> u64 result"
  inv_ArgInt64 :: "nat \<Rightarrow> int result"
  inv_ArgBool :: "nat \<Rightarrow> bool result"
  inv_ArgBytes :: "nat \<Rightarrow> bytes result"
  inv_ArgList :: "nat \<Rightarrow> (string result) list result"
  inv_KwargUInt64 :: "string \<Rightarrow> u64 result"
  inv_KwargBytes :: "string \<Rightarrow> bytes result"
  inv_KwargStringOr :: "string \<Rightarrow> string \<Rightarrow> string"

datatype error_uri = ErrNoResult | ErrInvalidArgument | ErrOperationFailed | ErrNotAuthorized

text \<open>\<open>xconn.NewInvocationResult(args...)\<close> and \<open>xconn.NewInvocationError(uri, args...)\<close>.\<close>

datatype inv_result =
    InvocationResult "wval list"
  | InvocationError error_uri "wval list"

abbreviation no_result :: inv_result where
  "no_result \<equiv> InvocationError ErrNoResult []"

abbreviation invalid_argument :: "go_error \<Rightarrow> inv_result" where
  "invalid_argument e \<equiv> InvocationError ErrInvalidArgument [VStr (err_text e)]"

abbreviation operation_failed :: "go_error \<Rightarrow> inv_result" where
  "operation_failed e \<equiv> InvocationError ErrOperationFailed [VStr (err_text e)]"

text \<open>
  A concrete invocation over a list of positional arguments, for the examples: each accessor
  answers exactly for the argument of its own type.
\<close>

definition arg_error :: "nat \<Rightarrow> go_error" where
  "arg_error i = Errorf (''argument '' @ dec_nat i)"

definition sample_inv :: "nat \<Rightarrow> u64 \<Rightarrow> string \<Rightarrow> bool \<Rightarrow> wval list \<Rightarrow> invocation" where
  "sample_inv ptr caller authid progress args =
     \<lparr>inv_ptr = ptr, inv_Caller = caller, inv_CallerAuthID = authid, inv_Progress = progress,
      inv_Args = args,
      inv_ArgString = (\<lambda>i. if i < length args then (case args ! i of VStr s \<Rightarrow> Inr s | _ \<Rightarrow> Inl (arg_error i))
                            else Inl (arg_error i)),
      inv_ArgUInt64 = (\<lambda>i. if i < length args then (case args ! i of VUInt n \<Rightarrow> Inr n | _ \<Rightarrow> Inl (arg_error i))
                            else Inl (arg_error i)),
      inv_ArgInt64 = (\<lambda>i. if i < length args then (case args ! i of VInt n \<Rightarrow> Inr n | _ \<Rightarrow> Inl (arg_error i))
                            else Inl (arg_error i)),
      inv_ArgBool = (\<lambda>i. if i < length args then (case args ! i of VBool b \<Rightarrow> Inr b | _ \<Rightarrow> Inl (arg_error i))
                            else Inl (arg_error i)),
      inv_ArgBytes = (\<lambda>i. if i < length args then (case args ! i of VBytes b \<Rightarrow> Inr b | _ \<Rightarrow> Inl (arg_error i))
                            else Inl (arg_error i)),
      inv_ArgList = (\<lambda>i. Inl (arg_error i)),
      inv_KwargUInt64 = (\<lambda>k. Inl (Errorf k)),
      inv_KwargBytes = (\<lambda>k. Inl (Errorf k)),
      inv_KwargStringOr = (\<lambda>k d. d)\<rparr>"

lemma sample_inv_simps [simp]:
  "inv_Caller (sample_inv ptr caller authid progress args) = caller"
  "inv_ptr (sample_inv ptr caller authid progress args) = ptr"
  "inv_CallerAuthID (sample_inv ptr caller authid progress args) = authid"
  "inv_Progress (sample_inv ptr caller authid progress args) = progress"
  "inv_Args (sample_inv ptr caller authid progress args) = args"
  by (simp_all add: sample_inv_def)

section \<open>Session tables\<close>

text \<open>
  Almost every component keeps a mutex-protected map from some session key to its entry and
  touches it only through a lookup, a store and a remove. The contract of such a table, and
  what follows from it for any sequence of operations: the table behaves as a partial function.
\<close>

datatype ('k, 'v) table_op = OpStore 'k 'v | OpRemove 'k

fun map_op :: "('k \<rightharpoonup> 'v) \<Rightarrow> ('k, 'v) table_op \<Rightarrow> ('k \<rightharpoonup> 'v)" where
  "map_op m (OpStore k v) = m(k \<mapsto> v)"
| "map_op m (OpRemove k) = m(k := None)"

fun op_key :: "('k, 'v) table_op \<Rightarrow> 'k" where
  "op_key (OpStore k v) = k"
| "op_key (OpRemove k) = k"

lemma map_op_other: "op_key a \<noteq> k \<Longrightarrow> map_op m a k = m k"
  by (cases a) auto

lemma fold_map_op_other:
  "\<forall>a \<in> set ops. op_key a \<noteq> k \<Longrightarrow> foldl map_op m ops k = m k"
  by (induction ops arbitrary: m) (auto simp: map_op_other)

locale session_table =
  fixes lookup :: "'s \<Rightarrow> 'k \<Rightarrow> 'v option"
    and store :: "'k \<Rightarrow> 'v \<Rightarrow> 's \<Rightarrow> 's"
    and remove :: "'k \<Rightarrow> 's \<Rightarrow> 's"
  assumes lookup_store: "lookup (store k v s) k' = (if k' = k then Some v else lookup s k')"
    and lookup_remove: "lookup (remove k s) k' = (if k' = k then None else lookup s k')"
begin

fun table_step :: "'s \<Rightarrow> ('k, 'v) table_op \<Rightarrow> 's" where
  "table_step s (OpStore k v) = store k v s"
| "table_step s (OpRemove k) = remove k s"

lemma lookup_store_same: "lookup (store k v s) k = Some v"
  by (simp add: lookup_store)

lemma lookup_remove_same: "lookup (remove k s) k = None"
  by (simp add: lookup_remove)

lemma lookup_step: "lookup (table_step s a) = map_op (lookup s) a"
  by (cases a) (auto simp: lookup_store lookup_remove fun_eq_iff)

lemma lookup_run: "lookup (foldl table_step s ops) = foldl map_op (lookup s) ops"
  by (induction ops arbitrary: s) (simp_all add: lookup_step)

lemma lookup_run_frame:
  "\<forall>a \<in> set ops. op_key a \<noteq> k \<Longrightarrow> lookup (foldl table_step s ops) k = lookup s k"
  by (simp add: lookup_run fold_map_op_other)

lemma store_then_others:
  "\<forall>a \<in> set ops. op_key a \<noteq> k \<Longrightarrow> lookup (foldl table_step (store k v s) ops) k = Some v"
  by (simp add: lookup_run_frame lookup_store)

end

text \<open>
  Some tables can also drop every entry of one owner at once (the session that left).
\<close>

locale grouped_table = session_table lookup store remove
  for lookup :: "'s \<Rightarrow> 'k \<Rightarrow> 'v option"
    and store :: "'k \<Rightarrow> 'v \<Rightarrow> 's \<Rightarrow> 's"
    and remove :: "'k \<Rightarrow> 's \<Rightarrow> 's" +
  fixes owner :: "'s \<Rightarrow> 'k \<Rightarrow> 'o option"
    and drop_owner :: "'o \<Rightarrow> 's \<Rightarrow> 's"
  assumes lookup_drop:
    "lookup (drop_owner g s) k = (if owner s k = Some g then None else lookup s k)"
begin

lemma drop_owner_clears: "owner s k = Some g \<Longrightarrow> lookup (drop_owner g s) k = None"
  by (simp add: lookup_drop)

lemma drop_owner_keeps: "owner s k \<noteq> Some g \<Longrightarrow> lookup (drop_owner g s) k = lookup s k"
  by (simp add: lookup_drop)

lemma drop_owner_only_removes: "lookup (drop_owner g s) k = Some v \<Longrightarrow> lookup s k = Some v"
  by (simp add: lookup_drop split: if_splits)

end

end
