(* ===== verification/Encryption.thy ===== *)
theory Encryption
  imports Prelude
begin

text \<open>
  \<open>encryption.go\<close>, \<open>keymanager.go\<close>, the key exchange handler of \<open>deskconn.go\<close> and
  \<open>derivePortForwardKeys\<close> of \<open>portforward.go\<close>. The primitives (X25519, HKDF, ChaCha20-Poly1305)
  live in golang.org/x/crypto and are parameters, the fields of \<open>crypto\<close>; what \<open>rand.Read\<close> drew
  is an argument. \<open>crypto_ok\<close> states the documented behaviour of the primitives.
\<close>

section \<open>The primitives\<close>

record crypto =
  x25519 :: "bytes \<Rightarrow> bytes \<Rightarrow> bytes result"
  basepoint :: bytes
  hkdf_sha256 :: "bytes \<Rightarrow> bytes \<Rightarrow> nat \<Rightarrow> bytes result"
  aead_new :: "bytes \<Rightarrow> go_error option"
  aead_nonce_size :: nat
  aead_seal :: "bytes \<Rightarrow> bytes \<Rightarrow> bytes \<Rightarrow> bytes"
  aead_open :: "bytes \<Rightarrow> bytes \<Rightarrow> bytes \<Rightarrow> bytes result"

text \<open>
  What the packages document: Diffie-Hellman agreement and 32-byte outputs of X25519, HKDF
  yielding the requested key length, 32-byte ChaCha20-Poly1305 keys with 12-byte nonces and a
  16-byte tag, and opening being the inverse of sealing.
\<close>

definition dh_ok :: "crypto \<Rightarrow> bool" where
  "dh_ok cr \<longleftrightarrow>
     (\<forall>a b pa pb. x25519 cr a (basepoint cr) = Inr pa \<longrightarrow> x25519 cr b (basepoint cr) = Inr pb \<longrightarrow>
        x25519 cr a pb = x25519 cr b pa) \<and>
     (\<forall>a p s. x25519 cr a p = Inr s \<longrightarrow> length s = 32)"

definition hkdf_ok :: "crypto \<Rightarrow> bool" where
  "hkdf_ok cr \<longleftrightarrow> (\<forall>s i. \<exists>k. hkdf_sha256 cr s i 32 = Inr k \<and> length k = 32)"

definition aead_ok :: "crypto \<Rightarrow> bool" where
  "aead_ok cr \<longleftrightarrow>
     aead_nonce_size cr = 12 \<and>
     (\<forall>k. length k = 32 \<longrightarrow> aead_new cr k = None) \<and>
     (\<forall>k n p. length k = 32 \<longrightarrow> length n = 12 \<longrightarrow>
        aead_open cr k n (aead_seal cr k n p) = Inr p \<and>
        length (aead_seal cr k n p) = length p + 16)"

definition crypto_ok :: "crypto \<Rightarrow> bool" where
  "crypto_ok cr \<longleftrightarrow> dh_ok cr \<and> hkdf_ok cr \<and> aead_ok cr"

section \<open>Key pairs and shared secrets\<close>

definition CreateX25519KeyPair :: "crypto \<Rightarrow> bytes result \<Rightarrow> (bytes \<times> bytes) result" where
  "CreateX25519KeyPair cr rnd =
     (case rnd of
        Inl e \<Rightarrow> Inl (Wrapf ''failed to generate private key: '' e)
      | Inr privateKey \<Rightarrow>
          (case x25519 cr privateKey (basepoint cr) of
             Inl e \<Rightarrow> Inl (Wrapf ''failed to generate public key: '' e)
           | Inr publicKey \<Rightarrow> Inr (publicKey, privateKey)))"

definition AllZeros :: "bytes \<Rightarrow> bool" where
  "AllZeros b = (b = replicate (length b) (char_of (0::nat)))"

definition PerformKeyExchange :: "crypto \<Rightarrow> bytes \<Rightarrow> bytes \<Rightarrow> bytes result" where
  "PerformKeyExchange cr privateKey peerPublicKey =
     (if length privateKey \<noteq> 32
      then Inl (Errorf (''invalid private key length: '' @ dec_nat (length privateKey)))
      else if length peerPublicKey \<noteq> 32
      then Inl (Errorf (''invalid public key length: '' @ dec_nat (length peerPublicKey)))
      else case x25519 cr privateKey peerPublicKey of
             Inl e \<Rightarrow> Inl (Wrapf ''failed to compute shared secret: '' e)
           | Inr sharedSecret \<Rightarrow>
               if AllZeros sharedSecret
               then Inl (Errorf ''computed shared secret is weak (all zeros)'')
               else Inr sharedSecret)"

definition DeriveKeyHKDF :: "crypto \<Rightarrow> bytes \<Rightarrow> bytes \<Rightarrow> bytes result" where
  "DeriveKeyHKDF cr sharedSecret info =
     (case hkdf_sha256 cr sharedSecret info 32 of
        Inl e \<Rightarrow> Inl (Wrapf ''failed to derive key: '' e)
      | Inr key \<Rightarrow> Inr key)"

text \<open>Returns the server's public key, its send key and its receive key.\<close>

definition ServerKeyExchange ::
    "crypto \<Rightarrow> bytes result \<Rightarrow> bytes \<Rightarrow> (bytes \<times> bytes \<times> bytes) result" where
  "ServerKeyExchange cr rnd clientPublicKey =
     try_result (CreateX25519KeyPair cr rnd) (\<lambda>(serverPublicKey, serverPrivateKey).
     try_result (PerformKeyExchange cr serverPrivateKey clientPublicKey) (\<lambda>sharedSecret.
     try_result (DeriveKeyHKDF cr sharedSecret ''backendToFrontend'') (\<lambda>sendKey.
     try_result (DeriveKeyHKDF cr sharedSecret ''frontendToBackend'') (\<lambda>receiveKey.
     Inr (serverPublicKey, sendKey, receiveKey)))))"

text \<open>Returns the client's send key and its receive key.\<close>

definition ClientKeyExchangeKeys :: "crypto \<Rightarrow> bytes \<Rightarrow> bytes \<Rightarrow> (bytes \<times> bytes) result" where
  "ClientKeyExchangeKeys cr privateKey serverPublicKey =
     try_result (PerformKeyExchange cr privateKey serverPublicKey) (\<lambda>sharedSecret.
     try_result (DeriveKeyHKDF cr sharedSecret ''frontendToBackend'') (\<lambda>sendKey.
     try_result (DeriveKeyHKDF cr sharedSecret ''backendToFrontend'') (\<lambda>receiveKey.
     Inr (sendKey, receiveKey))))"

text \<open>
  \<open>portforward.go\<close>: the backend-to-frontend key first. The device binds the pair to
  (sendKey, receiveKey), the client to (receiveKey, sendKey).
\<close>

definition derivePortForwardKeys :: "crypto \<Rightarrow> bytes \<Rightarrow> bytes \<Rightarrow> (bytes \<times> bytes) result" where
  "derivePortForwardKeys cr privKey peerPubKey =
     try_result (PerformKeyExchange cr privKey peerPubKey) (\<lambda>sharedSecret.
     try_result (DeriveKeyHKDF cr sharedSecret ''backendToFrontend'') (\<lambda>b2f.
     try_result (DeriveKeyHKDF cr sharedSecret ''frontendToBackend'') (\<lambda>f2b.
     Inr (b2f, f2b))))"

section \<open>Payload encryption\<close>

text \<open>\<open>rnd\<close> is what \<open>rand.Read(nonce)\<close> drew.\<close>

definition EncryptChaCha20Poly1305 ::
    "crypto \<Rightarrow> bytes result \<Rightarrow> bytes \<Rightarrow> bytes \<Rightarrow> (bytes \<times> bytes) result" where
  "EncryptChaCha20Poly1305 cr rnd plaintext key =
     (case aead_new cr key of
        Some e \<Rightarrow> Inl (Wrapf ''failed to create ChaCha20-Poly1305 cipher: '' e)
      | None \<Rightarrow>
          (case rnd of
             Inl e \<Rightarrow> Inl (Wrapf ''failed to generate nonce: '' e)
           | Inr nonce \<Rightarrow> Inr (aead_seal cr key nonce plaintext, nonce)))"

definition DecryptChaCha20Poly1305 :: "crypto \<Rightarrow> bytes \<Rightarrow> bytes \<Rightarrow> bytes \<Rightarrow> bytes result" where
  "DecryptChaCha20Poly1305 cr ciphertext nonce key =
     (case aead_new cr key of
        Some e \<Rightarrow> Inl (Wrapf ''failed to create ChaCha20-Poly1305 cipher: '' e)
      | None \<Rightarrow>
          (case aead_open cr key nonce ciphertext of
             Inl e \<Rightarrow> Inl (Wrapf ''failed to decrypt: '' e)
           | Inr plaintext \<Rightarrow> Inr plaintext))"

definition EncryptPayload :: "crypto \<Rightarrow> bytes result \<Rightarrow> bytes \<Rightarrow> bytes \<Rightarrow> bytes result" where
  "EncryptPayload cr rnd plaintext key =
     try_result (EncryptChaCha20Poly1305 cr rnd plaintext key) (\<lambda>(ciphertext, nonce).
     Inr (nonce @ ciphertext))"

definition DecryptPayload :: "crypto \<Rightarrow> bytes \<Rightarrow> bytes \<Rightarrow> bytes result" where
  "DecryptPayload cr data key =
     (if length data < 12
      then Inl (Errorf (''payload too short: '' @ dec_nat (length data) @ '' bytes''))
      else DecryptChaCha20Poly1305 cr (drop 12 data) (take 12 data) key)"

section \<open>The per-session key table\<close>

record encryptionKeys =
  ek_sendKey :: bytes
  ek_receiveKey :: bytes

record keyManager =
  km_keys :: "u64 \<Rightarrow> encryptionKeys option"

definition newKeyManager :: keyManager where
  "newKeyManager = \<lparr>km_keys = (\<lambda>_. None)\<rparr>"

definition km_store :: "u64 \<Rightarrow> encryptionKeys \<Rightarrow> keyManager \<Rightarrow> keyManager" where
  "km_store sessionID enc k = k\<lparr>km_keys := (km_keys k)(sessionID := Some enc)\<rparr>"

definition km_fetch :: "keyManager \<Rightarrow> u64 \<Rightarrow> encryptionKeys option" where
  "km_fetch k sessionID = km_keys k sessionID"

definition km_delete :: "u64 \<Rightarrow> keyManager \<Rightarrow> keyManager" where
  "km_delete sessionID k = k\<lparr>km_keys := (km_keys k)(sessionID := None)\<rparr>"

interpretation km: session_table km_fetch km_store km_delete
  by unfold_locales (auto simp: km_fetch_def km_store_def km_delete_def)

text \<open>\<open>handleKeyExchange\<close> of \<open>deskconn.go\<close>.\<close>

definition handleKeyExchange ::
    "crypto \<Rightarrow> bytes result \<Rightarrow> invocation \<Rightarrow> keyManager \<Rightarrow> keyManager \<times> inv_result" where
  "handleKeyExchange cr rnd iv km =
     (case inv_ArgBytes iv 0 of
        Inl e \<Rightarrow> (km, invalid_argument e)
      | Inr clientPublicKey \<Rightarrow>
     (case CreateX25519KeyPair cr rnd of
        Inl e \<Rightarrow> (km, operation_failed e)
      | Inr (serverPublicKey, serverPrivateKey) \<Rightarrow>
     (case PerformKeyExchange cr serverPrivateKey clientPublicKey of
        Inl e \<Rightarrow> (km, operation_failed e)
      | Inr sharedSecret \<Rightarrow>
     (case DeriveKeyHKDF cr sharedSecret ''backendToFrontend'' of
        Inl e \<Rightarrow> (km, operation_failed e)
      | Inr sendKey \<Rightarrow>
     (case DeriveKeyHKDF cr sharedSecret ''frontendToBackend'' of
        Inl e \<Rightarrow> (km, operation_failed e)
      | Inr receiveKey \<Rightarrow>
          (km_store (inv_Caller iv) \<lparr>ek_sendKey = sendKey, ek_receiveKey = receiveKey\<rparr> km,
           InvocationResult [VBytes serverPublicKey]))))))"

section \<open>Encryption as an interface\<close>

text \<open>
  What the clients of the encryption layer rely on: in a ready context (working primitives and a
  key of the right length) sealing succeeds with any drawn nonce, and opening recovers exactly
  what was sealed.
\<close>

locale channel_cipher =
  fixes ready :: "'c \<Rightarrow> bool"
    and nonce_ok :: "'n \<Rightarrow> bool"
    and seal :: "'c \<Rightarrow> 'n \<Rightarrow> bytes \<Rightarrow> bytes result"
    and unseal :: "'c \<Rightarrow> bytes \<Rightarrow> bytes result"
    and overhead :: nat
  assumes seal_total: "ready c \<Longrightarrow> nonce_ok n \<Longrightarrow> \<exists>d. seal c n p = Inr d"
    and unseal_seal: "ready c \<Longrightarrow> nonce_ok n \<Longrightarrow> seal c n p = Inr d \<Longrightarrow> unseal c d = Inr p"
    and seal_length:
      "ready c \<Longrightarrow> nonce_ok n \<Longrightarrow> seal c n p = Inr d \<Longrightarrow> length d = length p + overhead"
begin

lemma seal_obtains:
  assumes "ready c" and "nonce_ok n"
  obtains d where "seal c n p = Inr d" "unseal c d = Inr p" "length d = length p + overhead"
  using seal_total [OF assms, of p] unseal_seal [OF assms] seal_length [OF assms] by blast

text \<open>Sealing is injective on plaintexts, whatever the nonces were.\<close>

lemma seal_inject:
  "ready c \<Longrightarrow> nonce_ok n \<Longrightarrow> nonce_ok n' \<Longrightarrow> seal c n p = Inr d \<Longrightarrow> seal c n' p' = Inr d \<Longrightarrow> p = p'"
  using unseal_seal [of c n p d] unseal_seal [of c n' p' d] by simp

text \<open>A list of messages sealed one by one opens, one by one, to the same list.\<close>

lemma unseal_all:
  assumes "ready c"
    and "list_all2 (\<lambda>(n, p) d. nonce_ok n \<and> seal c n p = Inr d) nps ds"
  shows "map (unseal c) ds = map (Inr \<circ> snd) nps"
  using assms(2) by (induction rule: list_all2_induct) (auto dest: unseal_seal [OF assms(1)])

end

abbreviation nonce_drawn :: "bytes result \<Rightarrow> bool" where
  "nonce_drawn rnd \<equiv> \<exists>n. rnd = Inr n \<and> length n = 12"

lemma EncryptPayload_Inr:
  "aead_ok cr \<Longrightarrow> length k = 32 \<Longrightarrow> length n = 12 \<Longrightarrow>
   EncryptPayload cr (Inr n) p k = Inr (n @ aead_seal cr k n p)"
  by (simp add: EncryptPayload_def EncryptChaCha20Poly1305_def aead_ok_def)

lemma DecryptPayload_append:
  "aead_ok cr \<Longrightarrow> length k = 32 \<Longrightarrow> length n = 12 \<Longrightarrow>
   DecryptPayload cr (n @ aead_seal cr k n p) k = Inr p"
  by (simp add: DecryptPayload_def DecryptChaCha20Poly1305_def aead_ok_def)

lemma aead_seal_length:
  "aead_ok cr \<Longrightarrow> length k = 32 \<Longrightarrow> length n = 12 \<Longrightarrow> length (aead_seal cr k n p) = length p + 16"
  by (simp add: aead_ok_def)

interpretation payload: channel_cipher
  "\<lambda>(cr, k). aead_ok cr \<and> length k = 32" nonce_drawn
  "\<lambda>(cr, k) rnd p. EncryptPayload cr rnd p k" "\<lambda>(cr, k) d. DecryptPayload cr d k" 28
  by unfold_locales
    (auto simp: EncryptPayload_Inr DecryptPayload_append aead_seal_length split: prod.splits)

lemma DecryptPayload_Encrypt:
  "aead_ok cr \<Longrightarrow> length k = 32 \<Longrightarrow> nonce_drawn rnd \<Longrightarrow> EncryptPayload cr rnd p k = Inr d \<Longrightarrow>
   DecryptPayload cr d k = Inr p"
  using payload.unseal_seal [of "(cr, k)" rnd p d] by simp

lemma EncryptPayload_length:
  "aead_ok cr \<Longrightarrow> length k = 32 \<Longrightarrow> nonce_drawn rnd \<Longrightarrow> EncryptPayload cr rnd p k = Inr d \<Longrightarrow>
   length d = length p + 28"
  using payload.seal_length [of "(cr, k)" rnd p d] by simp

lemma EncryptPayload_total:
  "aead_ok cr \<Longrightarrow> length k = 32 \<Longrightarrow> nonce_drawn rnd \<Longrightarrow> \<exists>d. EncryptPayload cr rnd p k = Inr d"
  using payload.seal_total [of "(cr, k)" rnd p] by simp

section \<open>Agreement of the derived keys\<close>

lemma CreateX25519KeyPair_Inr:
  "CreateX25519KeyPair cr rnd = Inr (pub, priv) \<longleftrightarrow> rnd = Inr priv \<and> x25519 cr priv (basepoint cr) = Inr pub"
  by (auto simp: CreateX25519KeyPair_def split: sum.splits)

lemma PerformKeyExchange_Inr:
  "PerformKeyExchange cr priv pub = Inr s \<longleftrightarrow>
     length priv = 32 \<and> length pub = 32 \<and> x25519 cr priv pub = Inr s \<and> \<not> AllZeros s"
  by (auto simp: PerformKeyExchange_def split: sum.splits)

lemma DeriveKeyHKDF_total:
  assumes "hkdf_ok cr"
  shows "\<exists>k. DeriveKeyHKDF cr s i = Inr k \<and> length k = 32"
proof -
  obtain k where "hkdf_sha256 cr s i 32 = Inr k" "length k = 32"
    using assms unfolding hkdf_ok_def by blast
  then show ?thesis by (simp add: DeriveKeyHKDF_def)
qed

lemma DeriveKeyHKDF_length:
  "hkdf_ok cr \<Longrightarrow> DeriveKeyHKDF cr s i = Inr k \<Longrightarrow> length k = 32"
  using DeriveKeyHKDF_total [of cr s i] by auto

text \<open>Two parties that hold each other's public keys compute the same shared secret.\<close>

lemma shared_secret_agrees:
  assumes "dh_ok cr" and "CreateX25519KeyPair cr rs = Inr (spub, spriv)"
    and "CreateX25519KeyPair cr rc = Inr (cpub, cpriv)"
    and "PerformKeyExchange cr spriv cpub = Inr s" and "length cpriv = 32"
  shows "PerformKeyExchange cr cpriv spub = Inr s"
proof -
  have pubs: "x25519 cr spriv (basepoint cr) = Inr spub" "x25519 cr cpriv (basepoint cr) = Inr cpub"
    using assms(2,3) by (simp_all add: CreateX25519KeyPair_Inr)
  have "length spub = 32"
    using assms(1) pubs(1) unfolding dh_ok_def by blast
  moreover have "x25519 cr cpriv spub = x25519 cr spriv cpub"
    using assms(1) pubs unfolding dh_ok_def by blast
  ultimately show ?thesis
    using assms(4,5) by (simp add: PerformKeyExchange_Inr)
qed

lemmas key_derivation_defs =
  ServerKeyExchange_def ClientKeyExchangeKeys_def derivePortForwardKeys_def

lemma ServerKeyExchange_Inr:
  "ServerKeyExchange cr rnd cpub = Inr (spub, sk, rk) \<longleftrightarrow>
     (\<exists>spriv s. CreateX25519KeyPair cr rnd = Inr (spub, spriv) \<and> PerformKeyExchange cr spriv cpub = Inr s \<and>
        DeriveKeyHKDF cr s ''backendToFrontend'' = Inr sk \<and>
        DeriveKeyHKDF cr s ''frontendToBackend'' = Inr rk)"
  by (auto simp: ServerKeyExchange_def try_result_Inr_iff split: prod.splits)

lemma derivePortForwardKeys_Inr:
  "derivePortForwardKeys cr priv pub = Inr (b2f, f2b) \<longleftrightarrow>
     (\<exists>s. PerformKeyExchange cr priv pub = Inr s \<and>
        DeriveKeyHKDF cr s ''backendToFrontend'' = Inr b2f \<and>
        DeriveKeyHKDF cr s ''frontendToBackend'' = Inr f2b)"
  by (auto simp: derivePortForwardKeys_def try_result_Inr_iff)

lemma derivePortForwardKeys_length:
  assumes "hkdf_ok cr" and "derivePortForwardKeys cr priv pub = Inr (b2f, f2b)"
  shows "length b2f = 32 \<and> length f2b = 32"
  using assms by (auto simp: derivePortForwardKeys_Inr dest: DeriveKeyHKDF_length)

section \<open>Example primitives\<close>

text \<open>
  A toy instance of the parameters, for the examples: addition of first bytes for X25519, a
  constant tag for the cipher. It satisfies the documented laws (and is of course not secure).
\<close>

definition toy_hd :: "bytes \<Rightarrow> nat" where
  "toy_hd b = (case b of [] \<Rightarrow> 0 | c # _ \<Rightarrow> of_char c)"

definition toy_crypto :: crypto where
  "toy_crypto = \<lparr>
     x25519 = (\<lambda>a p. Inr (replicate 32 (char_of (toy_hd a + toy_hd p)))),
     basepoint = replicate 32 (char_of (0::nat)),
     hkdf_sha256 = (\<lambda>s i n. Inr (replicate n (char_of (toy_hd s + toy_hd i)))),
     aead_new = (\<lambda>k. if length k = 32 then None else Some (Errorf ''bad key length'')),
     aead_nonce_size = 12,
     aead_seal = (\<lambda>k n p. p @ replicate 16 (hd k)),
     aead_open = (\<lambda>k n c. if drop (length c - 16) c = replicate 16 (hd k)
                           then Inr (take (length c - 16) c)
                           else Inl (Errorf ''message authentication failed''))\<rparr>"

lemma toy_hd_replicate [simp]: "0 < m \<Longrightarrow> toy_hd (replicate m c) = of_char c"
  by (cases m) (simp_all add: toy_hd_def)

lemma toy_hd_Cons [simp]: "toy_hd (c # b) = of_char c"
  by (simp add: toy_hd_def)

lemma toy_crypto_ok: "crypto_ok toy_crypto"
  by (auto simp: crypto_ok_def dh_ok_def hkdf_ok_def aead_ok_def toy_crypto_def
      mod_add_right_eq add.commute)

text \<open>Concrete values used by the examples of the components.\<close>

lemma toy_not_zeros: "\<not> AllZeros (replicate 32 (char_of (195::nat)))"
  by (simp add: AllZeros_def char_of_eq_iff)

lemma toy_keys:
  "derivePortForwardKeys toy_crypto (replicate 32 CHR ''a'') (replicate 32 CHR ''b'') =
     Inr (replicate 32 (char_of (293::nat)), replicate 32 (char_of (297::nat)))"
  using toy_not_zeros
  by (simp add: derivePortForwardKeys_def PerformKeyExchange_def DeriveKeyHKDF_def toy_crypto_def)


lemma toy_public: "CreateX25519KeyPair toy_crypto (Inr (replicate 32 CHR ''a'')) =
    Inr (replicate 32 CHR ''a'', replicate 32 CHR ''a'')"
  by (simp add: CreateX25519KeyPair_def toy_crypto_def char_of_eq_iff)

lemma toy_seal:
  "EncryptPayload toy_crypto (Inr (replicate 12 CHR ''n'')) ''hi'' (replicate 32 c) =
     Inr (replicate 12 CHR ''n'' @ ''hi'' @ replicate 16 c)"
  by (simp add: EncryptPayload_def EncryptChaCha20Poly1305_def toy_crypto_def)

section \<open>Properties\<close>

text \<open>
  With a key of the right length and a drawn nonce, encrypting never
  fails, the result is 28 bytes longer than the plaintext, and decrypting it under the same key
  gives the plaintext back.
\<close>

theorem payload_roundtrip:
  assumes "aead_ok cr" and "length key = 32" and "length nonce = 12"
  shows "\<exists>d. EncryptPayload cr (Inr nonce) plaintext key = Inr d \<and> length d = length plaintext + 28 \<and>
           DecryptPayload cr d key = Inr plaintext"
  using payload.seal_obtains [of "(cr, key)" "Inr nonce" plaintext] assms by auto

theorem payload_roundtrip_witness:
  "\<exists>d. EncryptPayload toy_crypto (Inr (replicate 12 CHR ''n'')) ''hello'' (replicate 32 CHR ''k'') = Inr d \<and>
     length d = length ''hello'' + 28 \<and> DecryptPayload toy_crypto d (replicate 32 CHR ''k'') = Inr ''hello''"
  by (rule payload_roundtrip) (use toy_crypto_ok in \<open>simp_all add: crypto_ok_def\<close>)

text \<open>
  Whenever the key exchange handler answers with a public key, it has
  stored keys for exactly the calling session, and a client that derives its keys from that public
  key gets the same pair crossed, both keys being 32 bytes long; every other session's keys are
  unchanged.
\<close>

theorem key_exchange_agrees:
  assumes "crypto_ok cr" and client: "CreateX25519KeyPair cr rc = Inr (cpub, cpriv)" "length cpriv = 32"
    and arg: "inv_ArgBytes iv 0 = Inr cpub"
    and answer: "handleKeyExchange cr rs iv km = (km', InvocationResult [VBytes spub])"
  shows "\<exists>enc. km_fetch km' (inv_Caller iv) = Some enc \<and>
           ClientKeyExchangeKeys cr cpriv spub = Inr (ek_receiveKey enc, ek_sendKey enc) \<and>
           length (ek_sendKey enc) = 32 \<and> length (ek_receiveKey enc) = 32 \<and>
           (\<forall>s. s = inv_Caller iv \<or> km_fetch km' s = km_fetch km s)"
proof -
  obtain spriv s sk rk where spair: "CreateX25519KeyPair cr rs = Inr (spub, spriv)"
    and s: "PerformKeyExchange cr spriv cpub = Inr s"
      "DeriveKeyHKDF cr s ''backendToFrontend'' = Inr sk" "DeriveKeyHKDF cr s ''frontendToBackend'' = Inr rk"
    and km': "km' = km_store (inv_Caller iv) \<lparr>ek_sendKey = sk, ek_receiveKey = rk\<rparr> km"
    using answer arg by (auto simp: handleKeyExchange_def split: sum.splits prod.splits)
  have ok: "dh_ok cr" "hkdf_ok cr" using assms(1) by (simp_all add: crypto_ok_def)
  have "PerformKeyExchange cr cpriv spub = Inr s"
    using ok(1) spair client(1) s(1) client(2) by (rule shared_secret_agrees)
  with s have "ClientKeyExchangeKeys cr cpriv spub = Inr (rk, sk)" by (simp add: ClientKeyExchangeKeys_def)
  with km' s ok(2) show ?thesis
    by (auto simp: km.lookup_store dest: DeriveKeyHKDF_length)
qed

theorem key_exchange_agrees_witness:
  "\<exists>km' spub enc.
     handleKeyExchange toy_crypto (Inr (replicate 32 CHR ''a''))
       (sample_inv 1 7 ''user'' False [VBytes (replicate 32 CHR ''b'')]) newKeyManager =
       (km', InvocationResult [VBytes spub]) \<and>
     km_fetch km' 7 = Some enc \<and>
     ClientKeyExchangeKeys toy_crypto (replicate 32 CHR ''b'') spub = Inr (ek_receiveKey enc, ek_sendKey enc)"
proof -
  let ?iv = "sample_inv 1 7 ''user'' False [VBytes (replicate 32 CHR ''b'')]"
  have "\<not> AllZeros (replicate 32 (char_of (195::nat)))" by (simp add: AllZeros_def char_of_eq_iff)
  then obtain km' spub where answer: "handleKeyExchange toy_crypto (Inr (replicate 32 CHR ''a'')) ?iv newKeyManager =
      (km', InvocationResult [VBytes spub])"
    by (auto simp: handleKeyExchange_def CreateX25519KeyPair_def PerformKeyExchange_def DeriveKeyHKDF_def
        toy_crypto_def sample_inv_def)
  have "CreateX25519KeyPair toy_crypto (Inr (replicate 32 CHR ''b'')) = Inr (replicate 32 CHR ''b'', replicate 32 CHR ''b'')"
    by (simp add: CreateX25519KeyPair_def toy_crypto_def char_of_eq_iff)
  from key_exchange_agrees [OF toy_crypto_ok this _ _ answer] answer show ?thesis
    by (fastforce simp: sample_inv_def)
qed

end
