(* ===== verification/Conn.thy ===== *)
theory Conn
  imports Encryption
begin

text \<open>
  The forwarded connection shared by port forwarding, reverse port forwarding and agent
  forwarding: \<open>portForwardConn\<close> of \<open>portforward.go\<close> (its close, its send sequence numbers and its
  receive reordering buffer), the network connections it wraps, and the reader goroutine that
  the three handlers start for it. Both kinds of objects are shared by pointer between the
  session tables and the goroutines, so they live in stores indexed by references.
\<close>

section \<open>Network connections\<close>

text \<open>
  A \<open>net.Conn\<close>: whether it is open, the bytes written to it so far, how many writes were made,
  and the environment's decision for each write (\<open>None\<close>: it succeeds; \<open>Some n\<close>: it fails after
  \<open>n\<close> bytes).
\<close>

record sock =
  sk_open :: bool
  sk_out :: bytes
  sk_writes :: nat
  sk_fault :: "nat \<Rightarrow> nat option"

definition new_sock :: sock where
  "new_sock = \<lparr>sk_open = True, sk_out = [], sk_writes = 0, sk_fault = (\<lambda>_. None)\<rparr>"

definition sock_write :: "sock \<Rightarrow> bytes \<Rightarrow> go_error option \<times> sock" where
  "sock_write s d =
     (if \<not> sk_open s then (Some (Errorf ''use of closed network connection''), s)
      else case sk_fault s (sk_writes s) of
             None \<Rightarrow> (None, s\<lparr>sk_writes := Suc (sk_writes s), sk_out := sk_out s @ d\<rparr>)
           | Some n \<Rightarrow> (Some (Errorf ''write failed''),
                        s\<lparr>sk_writes := Suc (sk_writes s), sk_out := sk_out s @ take n d\<rparr>))"

definition sock_close :: "sock \<Rightarrow> sock" where
  "sock_close s = s\<lparr>sk_open := False\<rparr>"

definition healthy :: "sock \<Rightarrow> bool" where
  "healthy s \<longleftrightarrow> sk_open s \<and> sk_fault s = (\<lambda>_. None)"

lemma sock_write_healthy:
  "healthy s \<Longrightarrow> sock_write s d = (None, s\<lparr>sk_writes := Suc (sk_writes s), sk_out := sk_out s @ d\<rparr>)"
  by (simp add: sock_write_def healthy_def)

lemma healthy_update [simp]: "healthy (s\<lparr>sk_writes := n, sk_out := d\<rparr>) = healthy s"
  by (simp add: healthy_def)

section \<open>The receive buffer\<close>

text \<open>
  The loop of \<open>deliver\<close>: while the next expected sequence number is buffered, write its chunk
  and drop it; a failed write leaves the loop with the chunk still buffered. The buffer is a
  finite map that shrinks in every round, so the loop ends. Results: the error, the socket, the
  next expected number and the buffer.
\<close>

lemma fcard_fmdrop_less: "fmlookup m k = Some v \<Longrightarrow> fcard (fmdom m |-| {|k|}) < fcard (fmdom m)"
  by (metis fcard_fminus1_less fmdomI)

function deliver_loop ::
    "sock \<Rightarrow> u64 \<Rightarrow> (u64, bytes) fmap \<Rightarrow> go_error option \<times> sock \<times> u64 \<times> (u64, bytes) fmap" where
  "deliver_loop s recvNext recvBuf =
     (case fmlookup recvBuf recvNext of
        None \<Rightarrow> (None, s, recvNext, recvBuf)
      | Some chunk \<Rightarrow>
          (case sock_write s chunk of
             (Some err, s') \<Rightarrow> (Some err, s', recvNext, recvBuf)
           | (None, s') \<Rightarrow> deliver_loop s' (recvNext + 1) (fmdrop recvNext recvBuf)))"
  by pat_completeness auto

termination deliver_loop
  by (relation "measure (\<lambda>(s, n, b). fcard (fmdom b))") (auto simp: fcard_fmdrop_less)

declare deliver_loop.simps [simp del]

text \<open>
  The loop writes exactly the maximal run of consecutively buffered chunks. \<open>f\<close> gives the chunk
  of each sequence number, \<open>S\<close> the numbers that have arrived.
\<close>

definition buffered :: "(nat \<Rightarrow> bytes) \<Rightarrow> nat set \<Rightarrow> nat \<Rightarrow> (u64, bytes) fmap \<Rightarrow> bool" where
  "buffered f S m b \<longleftrightarrow>
     (\<forall>s. m < s \<longrightarrow> s < 2 ^ 64 \<longrightarrow> fmlookup b (of_nat s) = (if s \<in> S then Some (f s) else None))"

lemma of_nat_u64_inject:
  "a < 2 ^ 64 \<Longrightarrow> b < 2 ^ 64 \<Longrightarrow> (of_nat a :: u64) = of_nat b \<longleftrightarrow> a = b"
  by (auto dest!: arg_cong [where f = unat] simp: unat_of_nat)

lemma buffered_drop:
  assumes "buffered f S m b" and "Suc m < 2 ^ 64"
  shows "buffered f S (Suc m) (fmdrop (of_nat (Suc m)) b)"
  unfolding buffered_def
proof (intro allI impI)
  fix s :: nat
  assume s: "Suc m < s" "s < 2 ^ 64"
  then have "(of_nat s :: u64) \<noteq> of_nat (Suc m)"
    using assms(2) of_nat_u64_inject [of s "Suc m"] by simp
  with assms(1) s show "fmlookup (fmdrop (of_nat (Suc m)) b) (of_nat s) = (if s \<in> S then Some (f s) else None)"
    by (simp add: buffered_def)
qed

lemma deliver_loop_run:
  assumes "healthy s" and "buffered f S m b" and "S \<subseteq> {..<2 ^ 64 - 1}" and "m < 2 ^ 64 - 1"
  shows "\<exists>m' s' b'. m \<le> m' \<and> m' < 2 ^ 64 - 1 \<and> {m<..m'} \<subseteq> S \<and> Suc m' \<notin> S \<and>
           deliver_loop s (of_nat (Suc m)) b = (None, s', of_nat (Suc m'), b') \<and>
           sk_out s' = sk_out s @ concat (map f [Suc m..<Suc m']) \<and>
           healthy s' \<and> buffered f S m' b'"
  using assms
proof (induction s "of_nat (Suc m) :: u64" b arbitrary: m rule: deliver_loop.induct)
  case (1 s b m)
  have look: "fmlookup b (of_nat (Suc m)) = (if Suc m \<in> S then Some (f (Suc m)) else None)"
    using 1 by (simp add: buffered_def del: of_nat_Suc)
  show ?case
  proof (cases "Suc m \<in> S")
    case False
    with look 1 show ?thesis
      by (intro exI [of _ m] exI [of _ s] exI [of _ b])
        (simp add: deliver_loop.simps [of s] del: of_nat_Suc upt_Suc)
  next
    case True
    let ?s = "s\<lparr>sk_writes := Suc (sk_writes s), sk_out := sk_out s @ f (Suc m)\<rparr>"
    let ?b = "fmdrop (of_nat (Suc m)) b"
    have bound: "Suc m < 2 ^ 64 - 1" using True 1 by blast
    have next_eq: "(of_nat (Suc m) :: u64) + 1 = of_nat (Suc (Suc m))" by simp
    have step: "deliver_loop s (of_nat (Suc m)) b = deliver_loop ?s (of_nat (Suc (Suc m))) ?b"
      using look True 1
      by (simp add: deliver_loop.simps [of s] sock_write_healthy add.commute del: of_nat_Suc)
        (simp add: add.commute)
    have "\<exists>m' s' b'. Suc m \<le> m' \<and> m' < 2 ^ 64 - 1 \<and> {Suc m<..m'} \<subseteq> S \<and> Suc m' \<notin> S \<and>
           deliver_loop ?s (of_nat (Suc (Suc m))) ?b = (None, s', of_nat (Suc m'), b') \<and>
           sk_out s' = sk_out ?s @ concat (map f [Suc (Suc m)..<Suc m']) \<and>
           healthy s' \<and> buffered f S m' b'"
    proof (rule 1(1))
      show "fmlookup b (of_nat (Suc m)) = Some (f (Suc m))" using look True by simp
      show "(None, ?s) = sock_write s (f (Suc m))" by (simp add: sock_write_healthy 1)
      show "healthy ?s" using 1 by simp
      show "buffered f S (Suc m) ?b" using 1 bound by (intro buffered_drop) auto
    qed (use 1 bound next_eq in auto)
    then obtain m' s' b' where *: "Suc m \<le> m'" "m' < 2 ^ 64 - 1" "{Suc m<..m'} \<subseteq> S" "Suc m' \<notin> S"
      "deliver_loop ?s (of_nat (Suc (Suc m))) ?b = (None, s', of_nat (Suc m'), b')"
      "sk_out s' = sk_out ?s @ concat (map f [Suc (Suc m)..<Suc m'])" "healthy s'" "buffered f S m' b'"
      by blast
    have "{m<..m'} = insert (Suc m) {Suc m<..m'}" using *(1) by auto
    moreover have "[Suc m..<Suc m'] = Suc m # [Suc (Suc m)..<Suc m']" using *(1) by (simp add: upt_conv_Cons)
    ultimately show ?thesis
      using * step True
      by (intro exI [of _ m'] exI [of _ s'] exI [of _ b']) (simp del: upt_Suc of_nat_Suc)
  qed
qed

section \<open>Forwarded connections\<close>

text \<open>
  \<open>portForwardConn\<close>: \<open>pf_conn\<close> is the reference of the wrapped connection, \<open>pf_done\<close> says that
  the \<open>done\<close> channel is closed (\<open>sync.Once\<close> makes closing it idempotent). The mutex and the wait
  group have no state of their own here: every operation below is one critical section.
\<close>

record portForwardConn =
  pf_conn :: nat
  pf_done :: bool
  pf_sendKey :: bytes
  pf_receiveKey :: bytes
  pf_sendSeq :: u64
  pf_recvNext :: u64
  pf_recvBuf :: "(u64, bytes) fmap"

definition newPortForwardConn :: "nat \<Rightarrow> bytes \<Rightarrow> bytes \<Rightarrow> portForwardConn" where
  "newPortForwardConn conn sendKey receiveKey =
     \<lparr>pf_conn = conn, pf_done = False, pf_sendKey = sendKey, pf_receiveKey = receiveKey,
      pf_sendSeq = 0, pf_recvNext = 0, pf_recvBuf = fmempty\<rparr>"

text \<open>
  The stores, the reader goroutines that were started and have not returned (connection,
  caller, connection id), and the progress messages sent so far: the caller whose invocation
  carried the message, and its arguments.
\<close>

record world =
  w_socks :: "nat \<Rightarrow> sock option"
  w_next_sock :: nat
  w_pfs :: "nat \<Rightarrow> portForwardConn option"
  w_next_pf :: nat
  w_readers :: "(nat \<times> u64 \<times> u64) list"
  w_sent :: "(u64 \<times> wval list) list"

definition alloc_sock :: "sock \<Rightarrow> ('a world_scheme) \<Rightarrow> nat \<times> ('a world_scheme)" where
  "alloc_sock k w =
     (w_next_sock w,
      w\<lparr>w_socks := (w_socks w)(w_next_sock w := Some k), w_next_sock := Suc (w_next_sock w)\<rparr>)"

definition alloc_pf :: "portForwardConn \<Rightarrow> ('a world_scheme) \<Rightarrow> nat \<times> ('a world_scheme)" where
  "alloc_pf c w =
     (w_next_pf w,
      w\<lparr>w_pfs := (w_pfs w)(w_next_pf w := Some c), w_next_pf := Suc (w_next_pf w)\<rparr>)"

definition start_reader :: "nat \<Rightarrow> u64 \<Rightarrow> u64 \<Rightarrow> ('a world_scheme) \<Rightarrow> ('a world_scheme)" where
  "start_reader p caller connID w = w\<lparr>w_readers := w_readers w @ [(p, caller, connID)]\<rparr>"

definition put_sock :: "nat \<Rightarrow> sock \<Rightarrow> ('a world_scheme) \<Rightarrow> ('a world_scheme)" where
  "put_sock r k w = w\<lparr>w_socks := (w_socks w)(r := Some k)\<rparr>"

definition put_pf :: "nat \<Rightarrow> portForwardConn \<Rightarrow> ('a world_scheme) \<Rightarrow> ('a world_scheme)" where
  "put_pf p c w = w\<lparr>w_pfs := (w_pfs w)(p := Some c)\<rparr>"

definition close_sock :: "nat \<Rightarrow> ('a world_scheme) \<Rightarrow> ('a world_scheme)" where
  "close_sock r w = (case w_socks w r of None \<Rightarrow> w | Some k \<Rightarrow> put_sock r (sock_close k) w)"

text \<open>\<open>(c *portForwardConn) close()\<close>. A reference that was never allocated cannot occur.\<close>

definition pf_close :: "nat \<Rightarrow> ('a world_scheme) \<Rightarrow> ('a world_scheme)" where
  "pf_close p w =
     (case w_pfs w p of
        None \<Rightarrow> w
      | Some c \<Rightarrow> if pf_done c then w
                  else close_sock (pf_conn c) (put_pf p (c\<lparr>pf_done := True\<rparr>) w))"

text \<open>\<open>nextSendSeq\<close>: an atomic add, so the first number is 1 and the counter wraps at 64 bits.\<close>

definition nextSendSeq :: "portForwardConn \<Rightarrow> u64 \<times> portForwardConn" where
  "nextSendSeq c = (pf_sendSeq c + 1, c\<lparr>pf_sendSeq := pf_sendSeq c + 1\<rparr>)"

text \<open>\<open>deliver\<close> on the connection's own fields, then on the stores.\<close>

definition deliver_pf ::
    "portForwardConn \<Rightarrow> sock \<Rightarrow> u64 \<Rightarrow> bytes \<Rightarrow> go_error option \<times> portForwardConn \<times> sock" where
  "deliver_pf c k seq plaintext =
     (let recvBuf = fmupd seq plaintext (pf_recvBuf c);
          recvNext = (if pf_recvNext c = 0 then 1 else pf_recvNext c)
      in case deliver_loop k recvNext recvBuf of
           (err, k', n', b') \<Rightarrow> (err, c\<lparr>pf_recvNext := n', pf_recvBuf := b'\<rparr>, k'))"

definition deliver ::
    "nat \<Rightarrow> u64 \<Rightarrow> bytes \<Rightarrow> ('a world_scheme) \<Rightarrow> go_error option \<times> ('a world_scheme)" where
  "deliver p seq plaintext w =
     (case w_pfs w p of
        None \<Rightarrow> (None, w)
      | Some c \<Rightarrow>
          (case w_socks w (pf_conn c) of
             None \<Rightarrow> (None, w)
           | Some k \<Rightarrow>
               (case deliver_pf c k seq plaintext of
                  (err, c', k') \<Rightarrow> (err, put_sock (pf_conn c) k' (put_pf p c' w)))))"

section \<open>Message types of the forwarding protocols\<close>

definition msgData :: string where "msgData = ''D''"
definition msgConnect :: string where "msgConnect = ''C''"
definition msgKeyExchange :: string where "msgKeyExchange = ''K''"
definition msgClose :: string where "msgClose = ''X''"
definition msgReady :: string where "msgReady = ''R''"

lemmas msg_defs = msgData_def msgConnect_def msgKeyExchange_def msgClose_def msgReady_def

lemma msg_distinct [simp]:
  "msgData \<noteq> msgConnect" "msgData \<noteq> msgKeyExchange" "msgData \<noteq> msgClose" "msgData \<noteq> msgReady"
  "msgConnect \<noteq> msgData" "msgConnect \<noteq> msgKeyExchange" "msgConnect \<noteq> msgClose" "msgConnect \<noteq> msgReady"
  "msgKeyExchange \<noteq> msgData" "msgKeyExchange \<noteq> msgConnect" "msgKeyExchange \<noteq> msgClose"
  "msgClose \<noteq> msgData" "msgClose \<noteq> msgConnect" "msgClose \<noteq> msgKeyExchange" "msgClose \<noteq> msgReady"
  by (simp_all add: msg_defs)

text \<open>
  \<open>inv.SendProgress(args, nil)\<close> on an invocation of \<open>caller\<close>: \<open>outcome\<close> is what the transport
  answers; a message is recorded when it was accepted.
\<close>

definition send_progress ::
    "(wval list \<Rightarrow> go_error option) \<Rightarrow> u64 \<Rightarrow> wval list \<Rightarrow> ('a world_scheme) \<Rightarrow>
     go_error option \<times> ('a world_scheme)" where
  "send_progress outcome caller args w =
     (case outcome args of
        Some e \<Rightarrow> (Some e, w)
      | None \<Rightarrow> (None, w\<lparr>w_sent := w_sent w @ [(caller, args)]\<rparr>))"

text \<open>
  One round of the reader goroutine: \<open>chunk\<close> is \<open>buf[:n]\<close> and \<open>rerr\<close> the error of \<open>conn.Read\<close>,
  \<open>rnd\<close> the drawn nonce. The result says whether the goroutine goes on. The three handlers run
  the same body, each over its own connection and invocation.
\<close>

definition reader_round ::
    "crypto \<Rightarrow> (wval list \<Rightarrow> go_error option) \<Rightarrow> u64 \<Rightarrow> u64 \<Rightarrow> nat \<Rightarrow> bytes result \<Rightarrow> bytes \<Rightarrow>
     go_error option \<Rightarrow> ('a world_scheme) \<Rightarrow> bool \<times> ('a world_scheme)" where
  "reader_round cr outcome caller connID p rnd chunk rerr w =
     (case w_pfs w p of
        None \<Rightarrow> (False, w)
      | Some c \<Rightarrow>
          (let after_data =
             (if chunk = [] then (True, w)
              else if pf_done c then (False, w)
              else case EncryptPayload cr rnd chunk (pf_sendKey c) of
                     Inl _ \<Rightarrow> (False, pf_close p w)
                   | Inr encrypted \<Rightarrow>
                       (case nextSendSeq c of
                          (seq, c') \<Rightarrow>
                            (case send_progress outcome caller
                                    [VStr msgData, VUInt connID, VUInt seq, VBytes encrypted]
                                    (put_pf p c' w) of
                               (Some _, w') \<Rightarrow> (False, pf_close p w')
                             | (None, w') \<Rightarrow> (True, w'))))
           in case after_data of
                (False, w') \<Rightarrow> (False, w')
              | (True, w') \<Rightarrow>
                  (if rerr = None then (True, w')
                   else (False, if pf_done c then w'
                                else snd (send_progress outcome caller
                                            [VStr msgClose, VUInt connID] w')))))"

section \<open>What the stores keep\<close>

lemma put_pf_simps [simp]:
  "w_pfs (put_pf p c w) = (w_pfs w)(p := Some c)"
  "w_socks (put_pf p c w) = w_socks w"
  "w_sent (put_pf p c w) = w_sent w"
  "w_next_pf (put_pf p c w) = w_next_pf w"
  "w_readers (put_pf p c w) = w_readers w"
  "w_next_sock (put_pf p c w) = w_next_sock w"
  "world.more (put_pf p c w) = world.more w"
  by (simp_all add: put_pf_def)

lemma put_sock_simps [simp]:
  "w_pfs (put_sock r k w) = w_pfs w"
  "w_socks (put_sock r k w) = (w_socks w)(r := Some k)"
  "w_sent (put_sock r k w) = w_sent w"
  "w_next_pf (put_sock r k w) = w_next_pf w"
  "w_readers (put_sock r k w) = w_readers w"
  "w_next_sock (put_sock r k w) = w_next_sock w"
  "world.more (put_sock r k w) = world.more w"
  by (simp_all add: put_sock_def)

lemma close_sock_simps [simp]:
  "w_pfs (close_sock r w) = w_pfs w"
  "w_sent (close_sock r w) = w_sent w"
  "w_next_pf (close_sock r w) = w_next_pf w"
  "w_readers (close_sock r w) = w_readers w"
  "w_next_sock (close_sock r w) = w_next_sock w"
  "world.more (close_sock r w) = world.more w"
  by (simp_all add: close_sock_def split: option.splits)

lemma close_sock_socks:
  "w_socks (close_sock r w) = (w_socks w)(r := map_option sock_close (w_socks w r))"
  by (auto simp: close_sock_def split: option.splits)

lemma pf_close_simps [simp]:
  "w_sent (pf_close p w) = w_sent w"
  "w_next_pf (pf_close p w) = w_next_pf w"
  "w_readers (pf_close p w) = w_readers w"
  "w_next_sock (pf_close p w) = w_next_sock w"
  "world.more (pf_close p w) = world.more w"
  by (simp_all add: pf_close_def split: option.splits)

lemma pf_close_pfs:
  "w_pfs (pf_close p w) q =
     (if q = p then map_option (\<lambda>c. c\<lparr>pf_done := True\<rparr>) (w_pfs w p) else w_pfs w q)"
  by (auto simp: pf_close_def split: option.splits)

lemma send_progress_simps [simp]:
  "w_pfs (snd (send_progress oc caller args w)) = w_pfs w"
  "w_socks (snd (send_progress oc caller args w)) = w_socks w"
  "w_next_pf (snd (send_progress oc caller args w)) = w_next_pf w"
  "w_readers (snd (send_progress oc caller args w)) = w_readers w"
  "w_next_sock (snd (send_progress oc caller args w)) = w_next_sock w"
  "world.more (snd (send_progress oc caller args w)) = world.more w"
  by (simp_all add: send_progress_def split: option.splits)

section \<open>In-order delivery\<close>

text \<open>
  The state of a receiver to which the sequence numbers \<open>S\<close> have been delivered: everything up
  to the first gap has been written, in order, and everything beyond the gap is buffered.
\<close>

definition recv_state ::
    "(nat \<Rightarrow> bytes) \<Rightarrow> nat set \<Rightarrow> bytes \<Rightarrow> portForwardConn \<Rightarrow> sock \<Rightarrow> bool" where
  "recv_state f S out0 c k \<longleftrightarrow>
     (\<exists>m. m < 2 ^ 64 - 1 \<and> {1..m} \<subseteq> S \<and> Suc m \<notin> S \<and>
        (pf_recvNext c = of_nat (Suc m) \<or> m = 0 \<and> pf_recvNext c = 0) \<and>
        sk_out k = out0 @ concat (map f [1..<Suc m]) \<and> healthy k \<and> buffered f S m (pf_recvBuf c))"

lemma recv_state_new:
  assumes "healthy k" and "pf_recvNext c = 0" and "pf_recvBuf c = fmempty"
  shows "recv_state f {} (sk_out k) c k"
  unfolding recv_state_def using assms by (intro exI [of _ 0]) (simp add: buffered_def)

lemma buffered_insert:
  assumes "buffered f S m b" and "s < 2 ^ 64"
  shows "buffered f (insert s S) m (fmupd (of_nat s) (f s) b)"
  unfolding buffered_def
proof (intro allI impI)
  fix x :: nat
  assume "m < x" "x < 2 ^ 64"
  then show "fmlookup (fmupd (of_nat s) (f s) b) (of_nat x) = (if x \<in> insert s S then Some (f x) else None)"
    using assms of_nat_u64_inject [of s x] by (auto simp: buffered_def)
qed

lemma word_Suc_nonzero: "Suc m < 2 ^ 64 \<Longrightarrow> (of_nat (Suc m) :: u64) \<noteq> 0"
  using of_nat_u64_inject [of "Suc m" 0] by simp

lemma deliver_pf_state:
  assumes st: "recv_state f S out0 c k" and S: "S \<subseteq> {1..<2 ^ 64 - 1}" and s: "1 \<le> s" "s < 2 ^ 64 - 1"
  shows "\<exists>c' k'. deliver_pf c k (of_nat s) (f s) = (None, c', k') \<and> recv_state f (insert s S) out0 c' k'"
proof -
  obtain m where m: "m < 2 ^ 64 - 1" "{1..m} \<subseteq> S" "Suc m \<notin> S"
      "pf_recvNext c = of_nat (Suc m) \<or> m = 0 \<and> pf_recvNext c = 0"
      "sk_out k = out0 @ concat (map f [1..<Suc m])" "healthy k" "buffered f S m (pf_recvBuf c)"
    using st unfolding recv_state_def by blast
  let ?b = "fmupd (of_nat s) (f s) (pf_recvBuf c)"
  have "buffered f (insert s S) m ?b"
    using m(7) s(2) by (intro buffered_insert) simp_all
  moreover have "insert s S \<subseteq> {..<2 ^ 64 - 1}" using S s by auto
  ultimately obtain m' k' b' where *: "m \<le> m'" "m' < 2 ^ 64 - 1" "{m<..m'} \<subseteq> insert s S"
      "Suc m' \<notin> insert s S" "deliver_loop k (of_nat (Suc m)) ?b = (None, k', of_nat (Suc m'), b')"
      "sk_out k' = sk_out k @ concat (map f [Suc m..<Suc m'])" "healthy k'"
      "buffered f (insert s S) m' b'"
    using deliver_loop_run [OF m(6) _ _ m(1), of f "insert s S" ?b] by blast
  have start: "(if pf_recvNext c = 0 then 1 else pf_recvNext c) = of_nat (Suc m)"
    using m(1,4) word_Suc_nonzero [of m] by auto
  have "{1..m'} = {1..m} \<union> {m<..m'}" using *(1) by auto
  moreover have "[1..<Suc m'] = [1..<Suc m] @ [Suc m..<Suc m']"
    using upt_add_eq_append [of 1 "Suc m" "m' - m"] *(1) by simp
  ultimately have "{1..m'} \<subseteq> insert s S" "sk_out k' = out0 @ concat (map f [1..<Suc m'])"
    using *(3,6) m(2,5) by (blast, simp del: upt_Suc)
  with * have "recv_state f (insert s S) out0
      (c\<lparr>pf_recvNext := of_nat (Suc m'), pf_recvBuf := b'\<rparr>) k'"
    unfolding recv_state_def by (intro exI [of _ m']) (simp del: upt_Suc of_nat_Suc)
  with *(5) start show ?thesis
    by (simp add: deliver_pf_def del: of_nat_Suc)
qed

text \<open>Delivering a list of numbered chunks one after the other.\<close>

fun deliver_list ::
    "portForwardConn \<Rightarrow> sock \<Rightarrow> (u64 \<times> bytes) list \<Rightarrow> portForwardConn \<times> sock" where
  "deliver_list c k [] = (c, k)"
| "deliver_list c k ((seq, chunk) # ds) =
     (case deliver_pf c k seq chunk of (_, c', k') \<Rightarrow> deliver_list c' k' ds)"

lemma deliver_list_state:
  assumes "recv_state f S out0 c k" and "S \<union> set xs \<subseteq> {1..<2 ^ 64 - 1}"
  shows "\<exists>c' k'. deliver_list c k (map (\<lambda>s. (of_nat s, f s)) xs) = (c', k') \<and>
           recv_state f (S \<union> set xs) out0 c' k'"
  using assms
proof (induction xs arbitrary: S c k)
  case Nil
  then show ?case by simp
next
  case (Cons x xs)
  obtain c1 k1 where 1: "deliver_pf c k (of_nat x) (f x) = (None, c1, k1)"
      "recv_state f (insert x S) out0 c1 k1"
    using deliver_pf_state [OF Cons.prems(1), of x] Cons.prems(2) by auto
  have "insert x S \<union> set xs \<subseteq> {1..<2 ^ 64 - 1}" using Cons.prems(2) by auto
  from Cons.IH [OF 1(2) this] 1(1) show ?case by simp
qed

lemma recv_state_complete:
  assumes "recv_state f {1..n} out0 c k"
  shows "sk_out k = out0 @ concat (map f [1..<Suc n])"
proof -
  obtain m where "{1..m} \<subseteq> {1..n}" "Suc m \<notin> {1..n}" "sk_out k = out0 @ concat (map f [1..<Suc m])"
    using assms unfolding recv_state_def by blast
  moreover have "m = n"
  proof (rule le_antisym)
    show "m \<le> n" using calculation(1) by (cases m) auto
    show "n \<le> m" using calculation(2) by simp
  qed
  ultimately show ?thesis by simp
qed

section \<open>Well-formed stores and frames\<close>

text \<open>
  References below the allocation counters, and only those, are allocated, and no two
  forwarded connections wrap the same network connection.
\<close>

definition world_wf :: "('a world_scheme) \<Rightarrow> bool" where
  "world_wf w \<longleftrightarrow>
     (\<forall>p. w_pfs w p \<noteq> None \<longleftrightarrow> p < w_next_pf w) \<and>
     (\<forall>r. w_socks w r \<noteq> None \<longleftrightarrow> r < w_next_sock w) \<and>
     (\<forall>p c. w_pfs w p = Some c \<longrightarrow> pf_conn c < w_next_sock w) \<and>
     (\<forall>p q c d. w_pfs w p = Some c \<longrightarrow> w_pfs w q = Some d \<longrightarrow> pf_conn c = pf_conn d \<longrightarrow> p = q)"

text \<open>
  A step that works on the forwarded connection \<open>p\<close> only: every other connection, its socket,
  the reader goroutines and the allocation state are as before, \<open>p\<close> still wraps the same
  socket, and once closed it stays closed.
\<close>

definition only_conn :: "nat \<Rightarrow> ('a world_scheme) \<Rightarrow> ('a world_scheme) \<Rightarrow> bool" where
  "only_conn p w w' \<longleftrightarrow>
     (\<forall>q. q \<noteq> p \<longrightarrow> w_pfs w' q = w_pfs w q) \<and>
     map_option pf_conn (w_pfs w' p) = map_option pf_conn (w_pfs w p) \<and>
     (\<forall>c. w_pfs w p = Some c \<longrightarrow> pf_done c \<longrightarrow> (\<exists>c'. w_pfs w' p = Some c' \<and> pf_done c')) \<and>
     (\<forall>r. map_option pf_conn (w_pfs w p) \<noteq> Some r \<longrightarrow> w_socks w' r = w_socks w r) \<and>
     (\<forall>r. w_socks w' r = None \<longleftrightarrow> w_socks w r = None) \<and>
     w_next_pf w' = w_next_pf w \<and> w_next_sock w' = w_next_sock w \<and>
     w_readers w' = w_readers w \<and> world.more w' = world.more w"

lemma only_conn_refl [simp, intro]: "only_conn p w w"
  by (simp add: only_conn_def)

lemma only_conn_trans: "only_conn p w1 w2 \<Longrightarrow> only_conn p w2 w3 \<Longrightarrow> only_conn p w1 w3"
  unfolding only_conn_def by (intro conjI) auto

lemma only_conn_wf: "only_conn p w w' \<Longrightarrow> world_wf w \<Longrightarrow> world_wf w'"
proof -
  assume oc: "only_conn p w w'" and wf: "world_wf w"
  have conn: "map_option pf_conn (w_pfs w' q) = map_option pf_conn (w_pfs w q)" for q
    using oc by (cases "q = p") (auto simp: only_conn_def)
  have inv: "w_pfs w' q = Some c \<Longrightarrow> \<exists>d. w_pfs w q = Some d \<and> pf_conn d = pf_conn c" for q c
    using conn [of q] by (cases "w_pfs w q") auto
  have dom: "w_pfs w' q \<noteq> None \<longleftrightarrow> w_pfs w q \<noteq> None" for q
    using conn [of q] by (cases "w_pfs w q"; cases "w_pfs w' q") auto
  show "world_wf w'"
    unfolding world_wf_def
  proof (intro conjI allI impI)
    show "w_pfs w' q \<noteq> None \<longleftrightarrow> q < w_next_pf w'" for q
      using dom wf oc by (simp add: world_wf_def only_conn_def)
    show "w_socks w' r \<noteq> None \<longleftrightarrow> r < w_next_sock w'" for r
      using wf oc by (simp add: world_wf_def only_conn_def)
    show "pf_conn c < w_next_sock w'" if "w_pfs w' q = Some c" for q c
      using inv [OF that] wf oc unfolding world_wf_def only_conn_def by metis
    show "q = q'" if "w_pfs w' q = Some c" "w_pfs w' q' = Some d" "pf_conn c = pf_conn d" for q q' c d
      using inv [OF that(1)] inv [OF that(2)] that(3) wf unfolding world_wf_def by metis
  qed
qed

lemma only_conn_put_pf:
  "w_pfs w p = Some c \<Longrightarrow> pf_conn c' = pf_conn c \<Longrightarrow> (pf_done c \<Longrightarrow> pf_done c') \<Longrightarrow>
   only_conn p w (put_pf p c' w)"
  by (auto simp: only_conn_def)

lemma only_conn_put_sock:
  "w_pfs w p = Some c \<Longrightarrow> w_socks w (pf_conn c) \<noteq> None \<Longrightarrow> only_conn p w (put_sock (pf_conn c) k w)"
  by (auto simp: only_conn_def)

lemma only_conn_close_sock:
  "w_pfs w p = Some c \<Longrightarrow> only_conn p w (close_sock (pf_conn c) w)"
  by (auto simp: only_conn_def close_sock_socks)

lemma only_conn_pf_close [simp, intro]: "only_conn p w (pf_close p w)"
proof (cases "w_pfs w p")
  case None
  then show ?thesis by (simp add: pf_close_def)
next
  case (Some c)
  have "only_conn p w (put_pf p (c\<lparr>pf_done := True\<rparr>) w)"
    using Some by (intro only_conn_put_pf) simp_all
  moreover have "only_conn p (put_pf p (c\<lparr>pf_done := True\<rparr>) w)
      (close_sock (pf_conn c) (put_pf p (c\<lparr>pf_done := True\<rparr>) w))"
    using only_conn_close_sock [of "put_pf p (c\<lparr>pf_done := True\<rparr>) w" p "c\<lparr>pf_done := True\<rparr>"] by simp
  ultimately show ?thesis
    using Some by (auto simp: pf_close_def intro: only_conn_trans)
qed

lemma only_conn_send [simp, intro]: "only_conn p w (snd (send_progress oc caller args w))"
  by (simp add: only_conn_def)

lemma send_progress_cases:
  "send_progress oc caller args w = (r, w') \<Longrightarrow>
     (r \<noteq> None \<and> w' = w) \<or> (r = None \<and> w' = w\<lparr>w_sent := w_sent w @ [(caller, args)]\<rparr>)"
  by (auto simp: send_progress_def split: option.splits)

lemma only_conn_sent [simp, intro]: "only_conn p w (w\<lparr>w_sent := l\<rparr>)"
  by (simp add: only_conn_def)

lemma deliver_only_conn:
  assumes "deliver p seq pt w = (err, w')"
  shows "only_conn p w w' \<and> w_sent w' = w_sent w"
proof (cases "w_pfs w p")
  case None
  with assms show ?thesis by (simp add: deliver_def)
next
  case pf: (Some c)
  show ?thesis
  proof (cases "w_socks w (pf_conn c)")
    case None
    with assms pf show ?thesis by (simp add: deliver_def)
  next
    case (Some k)
    obtain e c' k' where d: "deliver_pf c k seq pt = (e, c', k')" by (cases "deliver_pf c k seq pt")
    then have c': "pf_conn c' = pf_conn c" "pf_done c' = pf_done c"
      by (auto simp: deliver_pf_def Let_def split: prod.splits)
    have w': "w' = put_sock (pf_conn c) k' (put_pf p c' w)"
      using assms pf Some d by (simp add: deliver_def)
    have "only_conn p w (put_pf p c' w)" using pf c' by (intro only_conn_put_pf) simp_all
    moreover have "only_conn p (put_pf p c' w) (put_sock (pf_conn c) k' (put_pf p c' w))"
      using only_conn_put_sock [of "put_pf p c' w" p c'] c' Some by simp
    ultimately show ?thesis using w' by (auto intro: only_conn_trans)
  qed
qed

lemma nextSendSeq_simps:
  "nextSendSeq c = (seq, c') \<Longrightarrow> pf_conn c' = pf_conn c \<and> pf_done c' = pf_done c \<and> seq = pf_sendSeq c + 1"
  by (auto simp: nextSendSeq_def)

lemma only_conn_reader_round:
  assumes "reader_round cr oc caller connID p rnd chunk rerr w = (b, w')"
  shows "only_conn p w w'"
proof (cases "w_pfs w p")
  case None
  with assms show ?thesis by (simp add: reader_round_def)
next
  case (Some c)
  let ?c = "snd (nextSendSeq c)"
  have put: "only_conn p w (put_pf p ?c w)"
    using Some by (intro only_conn_put_pf) (simp_all add: nextSendSeq_def)
  have sent: "only_conn p w (pf_close p (put_pf p ?c w))"
    "only_conn p w ((put_pf p ?c w)\<lparr>w_sent := l\<rparr>)" for l
    by (rule only_conn_trans [OF put], simp)+
  have closed: "only_conn p w (snd (send_progress oc caller args ((put_pf p ?c w)\<lparr>w_sent := l\<rparr>)))" for l args
    by (rule only_conn_trans [OF sent(2) [of l]]) simp
  from assms Some put sent closed show ?thesis
    by (auto simp: reader_round_def Let_def nextSendSeq_def dest!: send_progress_cases
        split: if_splits sum.splits option.splits prod.splits bool.splits)
qed

lemma world_wf_pf: "world_wf w \<Longrightarrow> w_pfs w p \<noteq> None \<longleftrightarrow> p < w_next_pf w"
  and world_wf_sock: "world_wf w \<Longrightarrow> w_socks w r \<noteq> None \<longleftrightarrow> r < w_next_sock w"
  and world_wf_conn: "world_wf w \<Longrightarrow> w_pfs w p = Some c \<Longrightarrow> pf_conn c < w_next_sock w"
  and world_wf_inj: "world_wf w \<Longrightarrow> w_pfs w p = Some c \<Longrightarrow> w_pfs w q = Some d \<Longrightarrow> pf_conn c = pf_conn d \<Longrightarrow> p = q"
  unfolding world_wf_def by blast+

lemma world_wfI:
  assumes "\<And>p. w_pfs w p \<noteq> None \<longleftrightarrow> p < w_next_pf w"
    and "\<And>r. w_socks w r \<noteq> None \<longleftrightarrow> r < w_next_sock w"
    and "\<And>p c. w_pfs w p = Some c \<Longrightarrow> pf_conn c < w_next_sock w"
    and "\<And>p q c d. w_pfs w p = Some c \<Longrightarrow> w_pfs w q = Some d \<Longrightarrow> pf_conn c = pf_conn d \<Longrightarrow> p = q"
  shows "world_wf w"
  using assms unfolding world_wf_def by blast

lemma alloc_sock_simps:
  assumes "alloc_sock k w = (r, w')"
  shows "r = w_next_sock w" "w_socks w' = (w_socks w)(r := Some k)" "w_pfs w' = w_pfs w"
    "w_sent w' = w_sent w" "w_readers w' = w_readers w" "w_next_pf w' = w_next_pf w"
    "w_next_sock w' = Suc (w_next_sock w)" "world.more w' = world.more w"
  using assms by (auto simp: alloc_sock_def)

lemma alloc_pf_simps:
  assumes "alloc_pf c w = (p, w')"
  shows "p = w_next_pf w" "w_pfs w' = (w_pfs w)(p := Some c)" "w_socks w' = w_socks w"
    "w_sent w' = w_sent w" "w_readers w' = w_readers w" "w_next_pf w' = Suc (w_next_pf w)"
    "w_next_sock w' = w_next_sock w" "world.more w' = world.more w"
  using assms by (auto simp: alloc_pf_def)

lemma world_wf_alloc_sock:
  assumes "world_wf w" and "alloc_sock k w = (r, w')"
  shows "world_wf w'"
proof (rule world_wfI)
  note a = alloc_sock_simps [OF assms(2)]
  show "w_pfs w' p \<noteq> None \<longleftrightarrow> p < w_next_pf w'" for p
    using world_wf_pf [OF assms(1), of p] a by simp
  show "w_socks w' q \<noteq> None \<longleftrightarrow> q < w_next_sock w'" for q
    using world_wf_sock [OF assms(1), of q] a by (auto simp: less_Suc_eq)
  show "pf_conn c < w_next_sock w'" if "w_pfs w' p = Some c" for p c
    using world_wf_conn [OF assms(1), of p c] that a by simp
  show "p = q" if "w_pfs w' p = Some c" "w_pfs w' q = Some d" "pf_conn c = pf_conn d" for p q c d
    using world_wf_inj [OF assms(1), of p c q d] that a by simp
qed

lemma world_wf_alloc_pf:
  assumes "world_wf w" and "alloc_pf c w = (p, w')" and "pf_conn c < w_next_sock w"
    and fresh: "\<And>q d. w_pfs w q = Some d \<Longrightarrow> pf_conn d \<noteq> pf_conn c"
  shows "world_wf w'"
proof (rule world_wfI)
  note a = alloc_pf_simps [OF assms(2)]
  show "w_pfs w' q \<noteq> None \<longleftrightarrow> q < w_next_pf w'" for q
    using world_wf_pf [OF assms(1), of q] a by (auto simp: less_Suc_eq)
  show "w_socks w' r \<noteq> None \<longleftrightarrow> r < w_next_sock w'" for r
    using world_wf_sock [OF assms(1), of r] a by simp
  show "pf_conn d < w_next_sock w'" if "w_pfs w' q = Some d" for q d
    using world_wf_conn [OF assms(1), of q d] that a assms(3) by (simp split: if_splits)
  show "q = q'" if "w_pfs w' q = Some d" "w_pfs w' q' = Some d'" "pf_conn d = pf_conn d'" for q q' d d'
    using world_wf_inj [OF assms(1), of q d q' d'] fresh that a by (auto split: if_splits)
qed

end
