(* ===== verification/ConnTable.thy ===== *)
theory ConnTable
  imports Conn
begin

text \<open>
  What the three forwarding components (port forwarding, reverse forwarding, agent forwarding)
  have in common: each keeps a table from connection keys to forwarded connections, starts a
  reader goroutine per connection, and announces a connection to its caller in one message
  before it sends data on it. The invariant is stated for any table \<open>tab\<close> and any kind of
  announcing message, and its preservation is proved once per operation on the stores.
\<close>

section \<open>Announcements\<close>

definition announced :: "string \<Rightarrow> (u64 \<times> wval list) list \<Rightarrow> u64 \<Rightarrow> u64 \<Rightarrow> bool" where
  "announced t log caller connID \<longleftrightarrow>
     (\<exists>pub. (caller, [VStr t, VUInt connID, VBytes pub]) \<in> set log)"

text \<open>Every data message comes after an announcing message of the same connection.\<close>

definition data_announced :: "string \<Rightarrow> (u64 \<times> wval list) list \<Rightarrow> bool" where
  "data_announced t log \<longleftrightarrow>
     (\<forall>pre caller connID seq enc post.
        log = pre @ (caller, [VStr msgData, VUInt connID, VUInt seq, VBytes enc]) # post \<longrightarrow>
        announced t pre caller connID)"

lemma announced_append [simp]:
  "announced t (log @ l) c n \<longleftrightarrow> announced t log c n \<or> announced t l c n"
  by (auto simp: announced_def)

lemma announced_single [simp]: "announced t [(c, [VStr t, VUInt n, VBytes pub])] c n"
  by (auto simp: announced_def)

lemma data_announced_Nil [simp]: "data_announced t []"
  by (simp add: data_announced_def)

lemma data_announced_snoc:
  assumes "data_announced t log"
    and "\<And>seq enc n. snd m = [VStr msgData, VUInt n, VUInt seq, VBytes enc] \<Longrightarrow> announced t log (fst m) n"
  shows "data_announced t (log @ [m])"
  unfolding data_announced_def
proof (intro allI impI)
  fix pre caller connID seq enc post
  assume eq: "log @ [m] = pre @ (caller, [VStr msgData, VUInt connID, VUInt seq, VBytes enc]) # post"
  show "announced t pre caller connID"
  proof (cases post rule: rev_cases)
    case Nil
    with eq assms(2) show ?thesis by auto
  next
    case (snoc post' x)
    with eq have "log = pre @ (caller, [VStr msgData, VUInt connID, VUInt seq, VBytes enc]) # post'"
      by simp
    with assms(1) show ?thesis unfolding data_announced_def by blast
  qed
qed

lemma data_announced_append:
  assumes "data_announced t log"
    and "\<And>m seq enc n. m \<in> set l \<Longrightarrow> snd m = [VStr msgData, VUInt n, VUInt seq, VBytes enc] \<Longrightarrow>
           announced t log (fst m) n"
  shows "data_announced t (log @ l)"
  using assms
proof (induction l rule: rev_induct)
  case (snoc x xs)
  have "data_announced t ((log @ xs) @ [x])"
    by (rule data_announced_snoc) (use snoc in auto)
  then show ?case by simp
qed simp

section \<open>The invariant of a table of connections\<close>

text \<open>The references: every entry is allocated, and no connection has two entries.\<close>

definition conns_refs :: "('k \<Rightarrow> nat option) \<Rightarrow> ('a world_scheme) \<Rightarrow> bool" where
  "conns_refs tab w \<longleftrightarrow>
     world_wf w \<and>
     (\<forall>k p. tab k = Some p \<longrightarrow> p < w_next_pf w) \<and>
     (\<forall>k k' p. tab k = Some p \<longrightarrow> tab k' = Some p \<longrightarrow> k = k')"

text \<open>Together with the messages: what was sent, and what running readers may send.\<close>

definition conns_inv :: "string \<Rightarrow> ('k \<Rightarrow> nat option) \<Rightarrow> ('a world_scheme) \<Rightarrow> bool" where
  "conns_inv t tab w \<longleftrightarrow>
     conns_refs tab w \<and>
     (\<forall>(p, caller, conn) \<in> set (w_readers w). announced t (w_sent w) caller conn) \<and>
     data_announced t (w_sent w)"

lemma conns_refsD:
  assumes "conns_refs tab w"
  shows "world_wf w"
    and "tab k = Some p \<Longrightarrow> p < w_next_pf w"
    and "tab k = Some p \<Longrightarrow> tab k' = Some p \<Longrightarrow> k = k'"
  using assms unfolding conns_refs_def by (blast, blast, blast)

lemma conns_invD:
  assumes "conns_inv t tab w"
  shows "conns_refs tab w"
    and "(p, caller, conn) \<in> set (w_readers w) \<Longrightarrow> announced t (w_sent w) caller conn"
    and "data_announced t (w_sent w)"
  using assms unfolding conns_inv_def by (blast, fastforce, blast)

lemma world_wf_cong:
  "w_pfs w' = w_pfs w \<Longrightarrow> w_socks w' = w_socks w \<Longrightarrow> w_next_pf w' = w_next_pf w \<Longrightarrow>
   w_next_sock w' = w_next_sock w \<Longrightarrow> world_wf w' = world_wf w"
  by (simp add: world_wf_def)

text \<open>Nothing of the invariant depends on a component's own fields.\<close>

lemma conns_refs_cong:
  "w_pfs w' = w_pfs w \<Longrightarrow> w_socks w' = w_socks w \<Longrightarrow> w_next_pf w' = w_next_pf w \<Longrightarrow>
   w_next_sock w' = w_next_sock w \<Longrightarrow> conns_refs tab w' = conns_refs tab w"
  by (simp add: conns_refs_def world_wf_cong [of w' w])

lemma conns_inv_cong:
  "w_pfs w' = w_pfs w \<Longrightarrow> w_socks w' = w_socks w \<Longrightarrow> w_next_pf w' = w_next_pf w \<Longrightarrow>
   w_next_sock w' = w_next_sock w \<Longrightarrow> w_readers w' = w_readers w \<Longrightarrow> w_sent w' = w_sent w \<Longrightarrow>
   conns_inv t tab w' = conns_inv t tab w"
  by (simp add: conns_inv_def conns_refs_cong [of w' w])

lemma conns_refs_shrink:
  assumes "conns_refs tab w" and "\<And>k p. tab' k = Some p \<Longrightarrow> tab k = Some p"
  shows "conns_refs tab' w"
  using assms unfolding conns_refs_def by meson

lemma conns_inv_shrink:
  "conns_inv t tab w \<Longrightarrow> (\<And>k p. tab' k = Some p \<Longrightarrow> tab k = Some p) \<Longrightarrow> conns_inv t tab' w"
  unfolding conns_inv_def using conns_refs_shrink by blast

lemma conns_refs_only_conn: "conns_refs tab w \<Longrightarrow> only_conn p w w' \<Longrightarrow> conns_refs tab w'"
  using only_conn_wf [of p w w'] unfolding conns_refs_def only_conn_def by simp

lemma conns_inv_only_conn:
  assumes inv: "conns_inv t tab w" and oc: "only_conn p w w'" and sent: "w_sent w' = w_sent w @ l"
    and log: "data_announced t (w_sent w')"
  shows "conns_inv t tab w'"
proof -
  have "w_readers w' = w_readers w" using oc by (simp add: only_conn_def)
  with inv conns_refs_only_conn [OF _ oc, of tab] sent log show ?thesis
    unfolding conns_inv_def by auto
qed

lemma conns_inv_same_sent:
  "conns_inv t tab w \<Longrightarrow> only_conn p w w' \<Longrightarrow> w_sent w' = w_sent w \<Longrightarrow> conns_inv t tab w'"
  using conns_inv_only_conn [of t tab w p w' "[]"] conns_invD(3) by auto

lemma conns_refs_pf_close: "conns_refs tab w \<Longrightarrow> conns_refs tab (pf_close p w)"
  by (rule conns_refs_only_conn) auto

lemma conns_inv_pf_close: "conns_inv t tab w \<Longrightarrow> conns_inv t tab (pf_close p w)"
  by (rule conns_inv_same_sent [where p = p]) simp_all

lemma conns_inv_closes: "conns_inv t tab w \<Longrightarrow> conns_inv t tab (foldl (\<lambda>v p. pf_close p v) w ps)"
  by (induction ps arbitrary: w) (simp_all add: conns_inv_pf_close)

lemma conns_inv_send:
  assumes "conns_inv t tab w"
    and "\<And>seq enc n. args = [VStr msgData, VUInt n, VUInt seq, VBytes enc] \<Longrightarrow> announced t (w_sent w) caller n"
  shows "conns_inv t tab (snd (send_progress oc caller args w))"
proof (cases "oc args")
  case None
  have "data_announced t (w_sent w @ [(caller, args)])"
    using assms conns_invD(3) by (intro data_announced_snoc) auto
  then show ?thesis
    using conns_inv_only_conn [OF assms(1) only_conn_send [of _ w oc caller args], of "[(caller, args)]"] None
    by (simp add: send_progress_def)
qed (use assms in \<open>simp add: send_progress_def\<close>)

lemma conns_refs_start_reader: "conns_refs tab w \<Longrightarrow> conns_refs tab (start_reader p caller conn w)"
  by (simp add: conns_refs_def start_reader_def world_wf_def)

lemma conns_inv_start_reader:
  "conns_inv t tab w \<Longrightarrow> announced t (w_sent w) caller conn \<Longrightarrow> conns_inv t tab (start_reader p caller conn w)"
  unfolding conns_inv_def using conns_refs_start_reader [of tab w p caller conn]
  by (auto simp: start_reader_def)

text \<open>A new forwarded connection over a network connection that no other one wraps.\<close>

lemma conns_refs_alloc_sock:
  "conns_refs tab w \<Longrightarrow> alloc_sock k w = (r, w') \<Longrightarrow> conns_refs tab w'"
  using world_wf_alloc_sock [of w k r w'] alloc_sock_simps [of k w r w'] unfolding conns_refs_def by simp

lemma conns_inv_alloc_sock:
  "conns_inv t tab w \<Longrightarrow> alloc_sock k w = (r, w') \<Longrightarrow> conns_inv t tab w'"
  using conns_refs_alloc_sock [of tab w k r w'] alloc_sock_simps [of k w r w'] unfolding conns_inv_def by simp

lemma conns_refs_alloc_pf:
  assumes inv: "conns_refs tab w" and a: "alloc_pf c w = (p, w')" and "pf_conn c < w_next_sock w"
    and "\<And>q d. w_pfs w q = Some d \<Longrightarrow> pf_conn d \<noteq> pf_conn c"
    and tab': "\<And>k q. tab' k = Some q \<Longrightarrow> tab k = Some q \<or> k = key \<and> q = p"
  shows "conns_refs tab' w'"
proof -
  note a' = alloc_pf_simps [OF a]
  have wf: "world_wf w'" using conns_refsD(1) [OF inv] a assms(3,4) by (rule world_wf_alloc_pf)
  have old: "tab k = Some q \<Longrightarrow> q < p" for k q using conns_refsD(2) [OF inv, of k q] a'(1) by simp
  have "tab' k = Some q \<Longrightarrow> q < w_next_pf w'" for k q
    using tab' [of k q] old [of k q] a' by auto
  moreover have "tab' k = Some q \<Longrightarrow> tab' k' = Some q \<Longrightarrow> k = k'" for k k' q
    using tab' [of k q] tab' [of k' q] old [of k q] old [of k' q] conns_refsD(3) [OF inv, of k q k'] by auto
  ultimately show ?thesis
    using wf unfolding conns_refs_def by simp
qed

lemma conns_inv_alloc_pf:
  assumes "conns_inv t tab w" and "alloc_pf c w = (p, w')" and "pf_conn c < w_next_sock w"
    and "\<And>q d. w_pfs w q = Some d \<Longrightarrow> pf_conn d \<noteq> pf_conn c"
    and "\<And>k q. tab' k = Some q \<Longrightarrow> tab k = Some q \<or> k = key \<and> q = p"
  shows "conns_inv t tab' w'"
  using conns_refs_alloc_pf [OF conns_invD(1) [OF assms(1)] assms(2-5)] assms(1) alloc_pf_simps [OF assms(2)]
  unfolding conns_inv_def by simp

section \<open>Reader goroutines\<close>

text \<open>One round, and the goroutine's end.\<close>

definition reader_step ::
    "crypto \<Rightarrow> (wval list \<Rightarrow> go_error option) \<Rightarrow> u64 \<Rightarrow> u64 \<Rightarrow> nat \<Rightarrow> bytes result \<Rightarrow> bytes \<Rightarrow>
     go_error option \<Rightarrow> ('a world_scheme) \<Rightarrow> ('a world_scheme)" where
  "reader_step cr outcome callerID connID p rnd chunk rerr w =
     (case reader_round cr outcome callerID connID p rnd chunk rerr w of
        (True, w') \<Rightarrow> w'
      | (False, w') \<Rightarrow> w'\<lparr>w_readers := remove1 (p, callerID, connID) (w_readers w')\<rparr>)"

text \<open>What a round adds to the log: at most one data message, then at most one close.\<close>

lemma reader_round_sent:
  assumes "reader_round cr oc caller connID p rnd chunk rerr w = (b, w')"
  shows "\<exists>l. w_sent w' = w_sent w @ l \<and>
    (\<forall>m \<in> set l. fst m = caller \<and>
       (snd m = [VStr msgClose, VUInt connID] \<or>
        (\<exists>seq enc. snd m = [VStr msgData, VUInt connID, VUInt seq, VBytes enc])))"
  using assms
  by (auto simp: reader_round_def Let_def dest!: send_progress_cases
      simp: send_progress_def split: option.splits if_splits sum.splits prod.splits bool.splits)

lemma conns_refs_readers [simp]: "conns_refs tab (w\<lparr>w_readers := l\<rparr>) = conns_refs tab w"
  by (rule conns_refs_cong) simp_all

lemma conns_refs_reader:
  assumes "conns_refs tab w"
  shows "conns_refs tab (reader_step cr oc caller connID p rnd chunk rerr w)"
proof -
  obtain b w' where r: "reader_round cr oc caller connID p rnd chunk rerr w = (b, w')"
    by (cases "reader_round cr oc caller connID p rnd chunk rerr w")
  have "conns_refs tab w'" using assms only_conn_reader_round [OF r] by (rule conns_refs_only_conn)
  with r show ?thesis by (simp add: reader_step_def split: bool.split)
qed

lemma conns_inv_reader:
  assumes inv: "conns_inv t tab w" and running: "(p, caller, connID) \<in> set (w_readers w)"
  shows "conns_inv t tab (reader_step cr oc caller connID p rnd chunk rerr w)"
proof -
  obtain b w' where r: "reader_round cr oc caller connID p rnd chunk rerr w = (b, w')"
    by (cases "reader_round cr oc caller connID p rnd chunk rerr w")
  obtain l where l: "w_sent w' = w_sent w @ l"
    "\<forall>m \<in> set l. fst m = caller \<and> (snd m = [VStr msgClose, VUInt connID] \<or>
        (\<exists>seq enc. snd m = [VStr msgData, VUInt connID, VUInt seq, VBytes enc]))"
    using reader_round_sent [OF r] by blast
  have "announced t (w_sent w) caller connID" using inv running by (rule conns_invD)
  then have "data_announced t (w_sent w')"
    using l conns_invD(3) [OF inv] by (auto intro!: data_announced_append)
  with conns_inv_only_conn [OF inv only_conn_reader_round [OF r] l(1)]
  have "conns_inv t tab w'" by simp
  moreover from this have "conns_inv t tab (w'\<lparr>w_readers := remove1 (p, caller, connID) (w_readers w')\<rparr>)"
    unfolding conns_inv_def by (auto dest: set_remove1_subset [THEN subsetD])
  ultimately show ?thesis using r by (simp add: reader_step_def split: bool.split)
qed

lemma reader_step_more [simp]:
  "world.more (reader_step cr oc caller connID p rnd chunk rerr w) = world.more w"
proof -
  obtain b w' where r: "reader_round cr oc caller connID p rnd chunk rerr w = (b, w')"
    by (cases "reader_round cr oc caller connID p rnd chunk rerr w")
  then have "world.more w' = world.more w" using only_conn_reader_round unfolding only_conn_def by blast
  with r show ?thesis by (cases w') (simp add: reader_step_def split: bool.split)
qed

section \<open>Receiving data\<close>

text \<open>
  The data branch of the handlers, once the connection is found: sequence number and ciphertext
  are arguments 2 and 3; a write error closes the network connection.
\<close>

definition receive_data :: "crypto \<Rightarrow> invocation \<Rightarrow> nat \<Rightarrow> ('a world_scheme) \<Rightarrow> ('a world_scheme)" where
  "receive_data cr iv p w =
     (case w_pfs w p of
        None \<Rightarrow> w
      | Some pf \<Rightarrow>
     (case inv_ArgUInt64 iv 2 of
        Inl _ \<Rightarrow> w
      | Inr seq \<Rightarrow>
     (case inv_ArgBytes iv 3 of
        Inl _ \<Rightarrow> w
      | Inr encrypted \<Rightarrow>
     (case DecryptPayload cr encrypted (pf_receiveKey pf) of
        Inl _ \<Rightarrow> w
      | Inr plaintext \<Rightarrow>
     (case deliver p seq plaintext w of
        (None, w') \<Rightarrow> w'
      | (Some _, w') \<Rightarrow> close_sock (pf_conn pf) w')))))"

lemma receive_data_only_conn:
  "only_conn p w (receive_data cr iv p w) \<and> w_sent (receive_data cr iv p w) = w_sent w"
proof -
  have "only_conn p w w' \<and> w_sent w' = w_sent w \<and> only_conn p w (close_sock (pf_conn pf) w')"
    if d: "deliver p seq pt w = (e, w')" and pf: "w_pfs w p = Some pf" for pf seq pt e w'
  proof -
    have oc: "only_conn p w w'" "w_sent w' = w_sent w" using deliver_only_conn [OF d] by auto
    then obtain pf' where pf': "w_pfs w' p = Some pf'" "pf_conn pf' = pf_conn pf"
      using pf unfolding only_conn_def by (cases "w_pfs w' p") auto
    with only_conn_trans [OF oc(1) only_conn_close_sock [OF pf'(1)]] oc show ?thesis by simp
  qed
  then show ?thesis
    by (auto simp: receive_data_def split: option.split sum.split prod.split)
qed

lemma receive_data_more [simp]: "world.more (receive_data cr iv p w) = world.more w"
  using receive_data_only_conn unfolding only_conn_def by blast

lemma conns_refs_receive: "conns_refs tab w \<Longrightarrow> conns_refs tab (receive_data cr iv p w)"
  using conns_refs_only_conn receive_data_only_conn by blast

lemma conns_inv_receive: "conns_inv t tab w \<Longrightarrow> conns_inv t tab (receive_data cr iv p w)"
  using conns_inv_same_sent receive_data_only_conn by blast

section \<open>Connections that an operation does not work on\<close>

text \<open>What a holder of the reference \<open>q\<close> can observe: the connection and its network connection.\<close>

definition conn_view :: "('a world_scheme) \<Rightarrow> nat \<Rightarrow> (portForwardConn \<times> sock option) option" where
  "conn_view w q = map_option (\<lambda>d. (d, w_socks w (pf_conn d))) (w_pfs w q)"

lemma only_conn_view:
  assumes "world_wf w" and "only_conn p w w'" and "q \<noteq> p"
  shows "conn_view w' q = conn_view w q"
proof (cases "w_pfs w q")
  case None
  with assms show ?thesis by (simp add: conn_view_def only_conn_def)
next
  case (Some d)
  have "map_option pf_conn (w_pfs w p) \<noteq> Some (pf_conn d)"
    using world_wf_inj [OF assms(1) Some] assms(3) by auto
  with Some assms show ?thesis by (simp add: conn_view_def only_conn_def)
qed

lemma conn_view_cong: "w_pfs w' = w_pfs w \<Longrightarrow> w_socks w' = w_socks w \<Longrightarrow> conn_view w' q = conn_view w q"
  by (simp add: conn_view_def)

lemma conn_view_start_reader [simp]: "conn_view (start_reader p c n w) q = conn_view w q"
  by (simp add: conn_view_def start_reader_def)

lemma conn_view_send [simp]: "conn_view (snd (send_progress oc c args w)) q = conn_view w q"
  by (simp add: conn_view_def)

lemma world_wf_send [simp]: "world_wf (snd (send_progress oc c args w)) = world_wf w"
  by (rule world_wf_cong) simp_all

lemma conn_view_alloc_sock:
  assumes "world_wf w" and "alloc_sock k w = (r, w')"
  shows "conn_view w' q = conn_view w q"
proof (cases "w_pfs w q")
  case (Some d)
  then have "pf_conn d \<noteq> w_next_sock w" using world_wf_conn [OF assms(1) Some] by simp
  with Some alloc_sock_simps [OF assms(2)] show ?thesis by (simp add: conn_view_def)
qed (simp add: conn_view_def alloc_sock_simps [OF assms(2)])

lemma conn_view_alloc_pf:
  "q \<noteq> w_next_pf w \<Longrightarrow> alloc_pf c w = (p, w') \<Longrightarrow> conn_view w' q = conn_view w q"
  using alloc_pf_simps [of c w p w'] by (simp add: conn_view_def)

lemma conn_view_pf_close: "world_wf w \<Longrightarrow> q \<noteq> p \<Longrightarrow> conn_view (pf_close p w) q = conn_view w q"
  by (rule only_conn_view) auto

lemma conn_view_receive: "world_wf w \<Longrightarrow> q \<noteq> p \<Longrightarrow> conn_view (receive_data cr iv p w) q = conn_view w q"
  by (rule only_conn_view) (use receive_data_only_conn in auto)

lemma world_wf_close_sock [simp]: "world_wf (close_sock r w) = world_wf w"
  by (auto simp: world_wf_def close_sock_socks)

lemma conns_refs_close_sock [simp]: "conns_refs tab (close_sock r w) = conns_refs tab w"
  by (simp add: conns_refs_def)

lemma conns_inv_close_sock [simp]: "conns_inv t tab (close_sock r w) = conns_inv t tab w"
  by (simp add: conns_inv_def)

lemma conn_view_close_sock:
  "(\<And>d. w_pfs w q = Some d \<Longrightarrow> pf_conn d \<noteq> r) \<Longrightarrow> conn_view (close_sock r w) q = conn_view w q"
  by (cases "w_pfs w q") (auto simp: conn_view_def close_sock_socks)

lemma world_wf_pf_close: "world_wf w \<Longrightarrow> world_wf (pf_close p w)"
  using only_conn_wf [OF only_conn_pf_close] .

text \<open>Closing every connection of a list.\<close>

definition closed_conn :: "('a world_scheme) \<Rightarrow> nat \<Rightarrow> bool" where
  "closed_conn w p \<longleftrightarrow> (\<exists>d. w_pfs w p = Some d \<and> pf_done d)"

lemma closed_conn_pf_close: "closed_conn w p \<Longrightarrow> closed_conn (pf_close q w) p"
  by (auto simp: closed_conn_def pf_close_pfs)

lemma closes_view:
  "world_wf w \<Longrightarrow> q \<notin> set ps \<Longrightarrow> conn_view (foldl (\<lambda>v p. pf_close p v) w ps) q = conn_view w q"
  by (induction ps arbitrary: w) (simp_all add: conn_view_pf_close world_wf_pf_close)

lemma closes_closed:
  "w_pfs w p \<noteq> None \<Longrightarrow> p \<in> set ps \<or> closed_conn w p \<Longrightarrow>
   closed_conn (foldl (\<lambda>v p. pf_close p v) w ps) p"
proof (induction ps arbitrary: w)
  case (Cons q ps)
  have "w_pfs (pf_close q w) p \<noteq> None" using Cons.prems(1) by (auto simp: pf_close_pfs)
  moreover have "p \<in> set ps \<or> closed_conn (pf_close q w) p"
    using Cons.prems by (auto simp: closed_conn_pf_close) (auto simp: closed_conn_def pf_close_pfs)
  ultimately show ?case using Cons.IH by simp
qed simp

lemma closes_more [simp]: "world.more (foldl (\<lambda>v p. pf_close p v) w ps) = world.more w"
  by (induction ps arbitrary: w) simp_all

end
