(* ===== verification/PortForward.thy ===== *)
theory PortForward
  imports ConnTable
begin

text \<open>
  \<open>portforward.go\<close>: the device's table of forwarded connections, its handler for the
  port-forward call with the reader goroutines it starts, and the client's side of one forwarded
  connection (\<open>forwardConnection\<close>).
\<close>

section \<open>The table of connections\<close>

text \<open>\<open>portForwardSessions.conns\<close>: caller to connection id to the connection's reference.\<close>

type_synonym pf_table = "(u64, (u64, nat) fmap) fmap"

definition pfs_store :: "u64 \<Rightarrow> u64 \<Rightarrow> nat \<Rightarrow> pf_table \<Rightarrow> pf_table" where
  "pfs_store callerID connID c t =
     (let m = (case fmlookup t callerID of None \<Rightarrow> fmempty | Some m \<Rightarrow> m)
      in fmupd callerID (fmupd connID c m) t)"

definition pfs_fetch :: "pf_table \<Rightarrow> u64 \<Rightarrow> u64 \<Rightarrow> nat option" where
  "pfs_fetch t callerID connID =
     (case fmlookup t callerID of None \<Rightarrow> None | Some m \<Rightarrow> fmlookup m connID)"

definition pfs_remove :: "u64 \<Rightarrow> u64 \<Rightarrow> pf_table \<Rightarrow> pf_table" where
  "pfs_remove callerID connID t =
     (case fmlookup t callerID of
        None \<Rightarrow> t
      | Some m \<Rightarrow>
          (let m' = fmdrop connID m
           in if m' = fmempty then fmdrop callerID t else fmupd callerID m' t))"

text \<open>The caller's connections, in some order (Go leaves the order of a map iteration open).\<close>

definition pfs_of_caller :: "pf_table \<Rightarrow> u64 \<Rightarrow> nat list" where
  "pfs_of_caller t callerID =
     (case fmlookup t callerID of
        None \<Rightarrow> []
      | Some m \<Rightarrow> map (\<lambda>k. the (fmlookup m k)) (sorted_list_of_fset (fmdom m)))"

definition pfs_drop :: "u64 \<Rightarrow> pf_table \<Rightarrow> pf_table" where
  "pfs_drop callerID t = fmdrop callerID t"

interpretation pf_tab: grouped_table
  "\<lambda>t (caller, conn). pfs_fetch t caller conn" "\<lambda>(caller, conn) c. pfs_store caller conn c"
  "\<lambda>(caller, conn). pfs_remove caller conn" "\<lambda>t (caller, conn). Some caller" pfs_drop
proof unfold_locales
  show "(case k' of (caller, conn) \<Rightarrow> pfs_fetch ((case k of (caller, conn) \<Rightarrow> pfs_store caller conn) v s) caller conn) =
      (if k' = k then Some v else (case k' of (caller, conn) \<Rightarrow> pfs_fetch s caller conn))" for k k' v s
    by (cases k; cases k') (auto simp: pfs_store_def pfs_fetch_def Let_def split: option.splits)
  show "(case k' of (caller, conn) \<Rightarrow> pfs_fetch ((case k of (caller, conn) \<Rightarrow> pfs_remove caller conn) s) caller conn) =
      (if k' = k then None else (case k' of (caller, conn) \<Rightarrow> pfs_fetch s caller conn))" for k k' s
  proof (cases k; cases k')
    fix a b c d
    assume [simp]: "k = (a, b)" "k' = (c, d)"
    show ?thesis
    proof (cases "fmlookup s a")
      case None
      then show ?thesis by (auto simp: pfs_remove_def pfs_fetch_def split: option.splits)
    next
      case (Some m)
      have "fmdrop b m = fmempty \<Longrightarrow> x \<noteq> b \<Longrightarrow> fmlookup m x = None" for x
        by (metis fmempty_lookup fmlookup_drop)
      with Some show ?thesis
        by (auto simp: pfs_remove_def pfs_fetch_def Let_def split: option.splits)
    qed
  qed
  show "(case k of (caller, conn) \<Rightarrow> pfs_fetch (pfs_drop g s) caller conn) =
      (if (case k of (caller, conn) \<Rightarrow> Some caller) = Some g then None
       else (case k of (caller, conn) \<Rightarrow> pfs_fetch s caller conn))" for g s k
    by (cases k) (auto simp: pfs_drop_def pfs_fetch_def)
qed

section \<open>The handler on the device\<close>

record fwd = world +
  fwd_conns :: pf_table

text \<open>
  What the environment contributes to one invocation: the randomness of the key pair, the
  outcome of dialling a host and port, and the outcome of sending each progress message.
\<close>

record fwd_env =
  fe_rand :: "bytes result"
  fe_dial :: "string \<Rightarrow> string \<Rightarrow> sock result"
  fe_send :: "wval list \<Rightarrow> go_error option"

definition fwd_close_conn :: "u64 \<Rightarrow> u64 \<Rightarrow> ('a fwd_scheme) \<Rightarrow> ('a fwd_scheme)" where
  "fwd_close_conn callerID connID w =
     (let w1 = (case pfs_fetch (fwd_conns w) callerID connID of
                  None \<Rightarrow> w
                | Some p \<Rightarrow> pf_close p w)
      in w1\<lparr>fwd_conns := pfs_remove callerID connID (fwd_conns w1)\<rparr>)"

definition fwd_connect ::
    "crypto \<Rightarrow> fwd_env \<Rightarrow> invocation \<Rightarrow> u64 \<Rightarrow> ('a fwd_scheme) \<Rightarrow> ('a fwd_scheme) \<times> inv_result" where
  "fwd_connect cr env iv connID w =
     (let callerID = inv_Caller iv;
          refuse = snd (send_progress (fe_send env) callerID [VStr msgClose, VUInt connID] w)
      in case inv_ArgString iv 2 of
           Inl _ \<Rightarrow> (w, no_result)
         | Inr host \<Rightarrow>
      (case inv_ArgString iv 3 of
           Inl _ \<Rightarrow> (w, no_result)
         | Inr port \<Rightarrow>
      (case inv_ArgBytes iv 4 of
           Inl _ \<Rightarrow> (w, no_result)
         | Inr clientPubKey \<Rightarrow>
      (case CreateX25519KeyPair cr (fe_rand env) of
           Inl _ \<Rightarrow> (refuse, no_result)
         | Inr (serverPubKey, serverPrivKey) \<Rightarrow>
      (case derivePortForwardKeys cr serverPrivKey clientPubKey of
           Inl _ \<Rightarrow> (refuse, no_result)
         | Inr (sendKey, receiveKey) \<Rightarrow>
      (case fe_dial env host port of
           Inl _ \<Rightarrow> (refuse, no_result)
         | Inr tcpConn \<Rightarrow>
           (case alloc_sock tcpConn w of (r, w1) \<Rightarrow>
           (case alloc_pf (newPortForwardConn r sendKey receiveKey) w1 of (p, w2) \<Rightarrow>
           (let w3 = w2\<lparr>fwd_conns := pfs_store callerID connID p (fwd_conns w2)\<rparr>
            in case send_progress (fe_send env) callerID
                      [VStr msgKeyExchange, VUInt connID, VBytes serverPubKey] w3 of
                 (Some _, w4) \<Rightarrow>
                   (let w5 = pf_close p w4
                    in (w5\<lparr>fwd_conns := pfs_remove callerID connID (fwd_conns w5)\<rparr>, no_result))
               | (None, w4) \<Rightarrow> (start_reader p callerID connID w4, no_result))))))))))"

definition fwd_data ::
    "crypto \<Rightarrow> invocation \<Rightarrow> u64 \<Rightarrow> ('a fwd_scheme) \<Rightarrow> ('a fwd_scheme) \<times> inv_result" where
  "fwd_data cr iv connID w =
     (case pfs_fetch (fwd_conns w) (inv_Caller iv) connID of
        None \<Rightarrow> (w, no_result)
      | Some p \<Rightarrow> (receive_data cr iv p w, no_result))"

definition handlePortForward ::
    "crypto \<Rightarrow> fwd_env \<Rightarrow> invocation \<Rightarrow> ('a fwd_scheme) \<Rightarrow> ('a fwd_scheme) \<times> inv_result" where
  "handlePortForward cr env iv w =
     (let callerID = inv_Caller iv
      in if \<not> inv_Progress iv then
           (case inv_ArgUInt64 iv 0 of
              Inl _ \<Rightarrow> (w, InvocationResult [])
            | Inr connID \<Rightarrow> (fwd_close_conn callerID connID w, InvocationResult []))
         else
           (case inv_ArgString iv 0 of
              Inl _ \<Rightarrow> (w, no_result)
            | Inr msgType \<Rightarrow>
           (case inv_ArgUInt64 iv 1 of
              Inl _ \<Rightarrow> (w, no_result)
            | Inr connID \<Rightarrow>
                (if msgType = msgConnect then fwd_connect cr env iv connID w
                 else if msgType = msgData then fwd_data cr iv connID w
                 else if msgType = msgClose then (fwd_close_conn callerID connID w, no_result)
                 else (w, no_result)))))"

text \<open>\<open>deleteCaller\<close>: closes every connection of a caller that left and forgets them.\<close>

definition fwd_deleteCaller :: "u64 \<Rightarrow> ('a fwd_scheme) \<Rightarrow> ('a fwd_scheme)" where
  "fwd_deleteCaller callerID w =
     (let w1 = foldl (\<lambda>v p. pf_close p v) w (pfs_of_caller (fwd_conns w) callerID)
      in w1\<lparr>fwd_conns := pfs_drop callerID (fwd_conns w1)\<rparr>)"

section \<open>Steps of the device and their invariant\<close>

text \<open>
  What can happen on the device: an invocation of the handler with any arguments and any
  environment, a round of a reader goroutine that is running, or a caller's session ending.
\<close>

inductive fwd_step :: "crypto \<Rightarrow> fwd \<Rightarrow> fwd \<Rightarrow> bool" for cr :: crypto where
  handle: "fwd_step cr w (fst (handlePortForward cr env iv w))"
| read: "(p, caller, connID) \<in> set (w_readers w) \<Longrightarrow>
     fwd_step cr w (reader_step cr outcome caller connID p rnd chunk rerr w)"
| leave: "fwd_step cr w (fwd_deleteCaller caller w)"

definition fwd_init :: fwd where
  "fwd_init = \<lparr>w_socks = (\<lambda>_. None), w_next_sock = 0, w_pfs = (\<lambda>_. None), w_next_pf = 0,
     w_readers = [], w_sent = [], fwd_conns = fmempty\<rparr>"

inductive fwd_reachable :: "crypto \<Rightarrow> fwd \<Rightarrow> bool" for cr :: crypto where
  fwd_start: "fwd_reachable cr fwd_init"
| fwd_next: "fwd_reachable cr w \<Longrightarrow> fwd_step cr w w' \<Longrightarrow> fwd_reachable cr w'"

text \<open>The table as a function of both keys.\<close>

definition fwd_tab :: "('a fwd_scheme) \<Rightarrow> u64 \<times> u64 \<Rightarrow> nat option" where
  "fwd_tab w = (\<lambda>(caller, conn). pfs_fetch (fwd_conns w) caller conn)"

definition fwd_inv :: "('a fwd_scheme) \<Rightarrow> bool" where
  "fwd_inv w \<longleftrightarrow> conns_inv msgKeyExchange (fwd_tab w) w"

lemma pfs_fetch_remove:
  "pfs_fetch (pfs_remove c n t) c' n' = (if c' = c \<and> n' = n then None else pfs_fetch t c' n')"
  using pf_tab.lookup_remove [of "(c, n)" t "(c', n')"] by simp

lemma pfs_fetch_store:
  "pfs_fetch (pfs_store c n p t) c' n' = (if c' = c \<and> n' = n then Some p else pfs_fetch t c' n')"
  using pf_tab.lookup_store [of "(c, n)" p t "(c', n')"] by simp

lemma pfs_fetch_drop:
  "pfs_fetch (pfs_drop c t) c' n' = (if c' = c then None else pfs_fetch t c' n')"
  using pf_tab.lookup_drop [of c t "(c', n')"] by simp

lemma fwd_conns_more: "world.more w' = world.more w \<Longrightarrow> fwd_conns w' = fwd_conns w"
  by (cases w; cases w') simp

lemma fwd_conns_simps [simp]:
  "fwd_conns (pf_close p w) = fwd_conns w"
  "fwd_conns (receive_data cr iv p w) = fwd_conns w"
  "fwd_conns (snd (send_progress oc caller args w)) = fwd_conns w"
  "fwd_conns (reader_step cr oc caller connID p rnd chunk rerr w) = fwd_conns w"
  "fwd_conns (foldl (\<lambda>v p. pf_close p v) w ps) = fwd_conns w"
  "fwd_conns (start_reader p caller conn w) = fwd_conns w"
  by (rule fwd_conns_more, simp)+ (simp add: start_reader_def)

lemma fwd_conns_alloc:
  "alloc_sock k w = (r, w1) \<Longrightarrow> alloc_pf d w1 = (p, w2) \<Longrightarrow> fwd_conns w2 = fwd_conns w"
  by (rule fwd_conns_more) (simp add: alloc_sock_simps(8) alloc_pf_simps(8))

lemma conns_inv_fwd_conns [simp]: "conns_inv t tab (w\<lparr>fwd_conns := m\<rparr>) = conns_inv t tab w"
  by (rule conns_inv_cong) simp_all

lemma conn_view_fwd_conns [simp]: "conn_view (w\<lparr>fwd_conns := m\<rparr>) q = conn_view w q"
  by (rule conn_view_cong) simp_all

lemma fwd_inv_shrink:
  assumes "conns_inv msgKeyExchange (fwd_tab w) v"
    and "\<And>c n p. pfs_fetch m c n = Some p \<Longrightarrow> pfs_fetch (fwd_conns w) c n = Some p"
  shows "fwd_inv (v\<lparr>fwd_conns := m\<rparr>)"
proof -
  have "conns_inv msgKeyExchange (\<lambda>(c, n). pfs_fetch m c n) v"
    by (rule conns_inv_shrink [OF assms(1)]) (auto simp: fwd_tab_def assms(2))
  then show ?thesis by (simp add: fwd_inv_def fwd_tab_def)
qed

lemma fwd_inv_close_conn: "fwd_inv w \<Longrightarrow> fwd_inv (fwd_close_conn c n w)"
  unfolding fwd_close_conn_def Let_def
  by (rule fwd_inv_shrink [of w])
    (auto simp: fwd_inv_def conns_inv_pf_close pfs_fetch_remove split: option.splits if_splits)

lemma fwd_inv_data: "fwd_inv w \<Longrightarrow> fwd_inv (fst (fwd_data cr iv connID w))"
  by (simp add: fwd_data_def fwd_inv_def conns_inv_receive fwd_tab_def split: option.split)

lemma fwd_inv_new_conn:
  assumes inv: "fwd_inv w" and a: "alloc_sock k w = (r, w1)"
    and b: "alloc_pf (newPortForwardConn r sk rk) w1 = (p, w2)"
  shows "fwd_inv (w2\<lparr>fwd_conns := pfs_store caller connID p (fwd_conns w2)\<rparr>)"
proof -
  have wf: "world_wf w" using inv unfolding fwd_inv_def by (intro conns_refsD(1) [OF conns_invD(1)])
  have "conns_inv msgKeyExchange (\<lambda>(c, n). pfs_fetch (pfs_store caller connID p (fwd_conns w2)) c n) w2"
  proof (rule conns_inv_alloc_pf [OF _ b, where key = "(caller, connID)"])
    show "conns_inv msgKeyExchange (fwd_tab w) w1"
      using inv a unfolding fwd_inv_def by (rule conns_inv_alloc_sock)
    show "pf_conn (newPortForwardConn r sk rk) < w_next_sock w1"
      using alloc_sock_simps [OF a] by (simp add: newPortForwardConn_def)
    show "pf_conn d \<noteq> pf_conn (newPortForwardConn r sk rk)" if "w_pfs w1 q = Some d" for q d
      using world_wf_conn [OF wf, of q d] that alloc_sock_simps [OF a] by (simp add: newPortForwardConn_def)
    show "fwd_tab w k = Some q \<or> k = (caller, connID) \<and> q = p"
      if "(\<lambda>(c, n). pfs_fetch (pfs_store caller connID p (fwd_conns w2)) c n) k = Some q" for k q
      using that fwd_conns_alloc [OF a b]
      by (cases k) (auto simp: fwd_tab_def pfs_fetch_store split: if_splits)
  qed
  then show ?thesis by (simp add: fwd_inv_def fwd_tab_def)
qed

lemma fwd_inv_send:
  "fwd_inv w \<Longrightarrow> (\<And>seq enc n. args \<noteq> [VStr msgData, VUInt n, VUInt seq, VBytes enc]) \<Longrightarrow>
   fwd_inv (snd (send_progress oc caller args w))"
  by (auto simp: fwd_inv_def fwd_tab_def intro!: conns_inv_send)

lemma fwd_inv_connect: "fwd_inv w \<Longrightarrow> fwd_inv (fst (fwd_connect cr env iv connID w))"
proof -
  assume inv: "fwd_inv w"
  let ?caller = "inv_Caller iv"
  have refuse: "fwd_inv (snd (send_progress (fe_send env) ?caller [VStr msgClose, VUInt connID] w))"
    by (intro fwd_inv_send inv) simp
  have main: "fwd_inv (fst (case res of
        Some _ \<Rightarrow> ((pf_close p w4)\<lparr>fwd_conns := pfs_remove ?caller connID (fwd_conns (pf_close p w4))\<rparr>, no_result)
      | None \<Rightarrow> (start_reader p ?caller connID w4, no_result)))"
    if s: "send_progress (fe_send env) ?caller [VStr msgKeyExchange, VUInt connID, VBytes pub]
            (w2\<lparr>fwd_conns := pfs_store ?caller connID p (fwd_conns w2)\<rparr>) = (res, w4)"
      and b: "alloc_pf (newPortForwardConn r sk rk) w1 = (p, w2)" and a: "alloc_sock k w = (r, w1)"
    for pub k r w1 sk rk p w2 res w4
  proof -
    from fwd_inv_send [OF fwd_inv_new_conn [OF inv a b, of ?caller connID],
        of "[VStr msgKeyExchange, VUInt connID, VBytes pub]" "fe_send env" ?caller] s
    have inv4: "fwd_inv w4" by simp
    show ?thesis
    proof (cases res)
      case None
      with s have "announced msgKeyExchange (w_sent w4) ?caller connID"
        by (auto simp: send_progress_def split: option.splits)
      with inv4 None show ?thesis by (simp add: fwd_inv_def fwd_tab_def conns_inv_start_reader)
    next
      case (Some e)
      have "fwd_inv ((pf_close p w4)\<lparr>fwd_conns := pfs_remove ?caller connID (fwd_conns w4)\<rparr>)"
        by (rule fwd_inv_shrink [of w4]) (use inv4 in \<open>auto simp: fwd_inv_def conns_inv_pf_close pfs_fetch_remove split: if_splits\<close>)
      with Some show ?thesis by simp
    qed
  qed
  show ?thesis
    unfolding fwd_connect_def Let_def
    using inv refuse main by (simp add: Let_def split: sum.split prod.split del: fwd_conns_simps)
qed

lemma fwd_inv_handle: "fwd_inv w \<Longrightarrow> fwd_inv (fst (handlePortForward cr env iv w))"
  by (simp add: handlePortForward_def Let_def fwd_inv_close_conn fwd_inv_connect fwd_inv_data
      split: sum.split)

lemma fwd_inv_deleteCaller: "fwd_inv w \<Longrightarrow> fwd_inv (fwd_deleteCaller caller w)"
  unfolding fwd_deleteCaller_def Let_def
  by (rule fwd_inv_shrink [of w]) (auto simp: fwd_inv_def conns_inv_closes pfs_fetch_drop split: if_splits)

lemma fwd_inv_reader:
  "fwd_inv w \<Longrightarrow> (p, caller, connID) \<in> set (w_readers w) \<Longrightarrow>
   fwd_inv (reader_step cr oc caller connID p rnd chunk rerr w)"
  by (simp add: fwd_inv_def fwd_tab_def conns_inv_reader)

lemma fwd_inv_init: "fwd_inv fwd_init"
  by (simp add: fwd_inv_def conns_inv_def conns_refs_def fwd_tab_def fwd_init_def world_wf_def pfs_fetch_def)

lemma fwd_reachable_inv: "fwd_reachable cr w \<Longrightarrow> fwd_inv w"
proof (induction rule: fwd_reachable.induct)
  case (fwd_next w w')
  from fwd_next(2,3) show ?case
    by (cases rule: fwd_step.cases) (auto simp: fwd_inv_handle fwd_inv_reader fwd_inv_deleteCaller)
qed (rule fwd_inv_init)

section \<open>Callers do not disturb each other\<close>

text \<open>The entry of another caller, and what its connection looks like, after an operation.\<close>

definition undisturbed :: "u64 \<Rightarrow> u64 \<Rightarrow> nat \<Rightarrow> ('a fwd_scheme) \<Rightarrow> ('a fwd_scheme) \<Rightarrow> bool" where
  "undisturbed c n q w w' \<longleftrightarrow>
     pfs_fetch (fwd_conns w') c n = Some q \<and> conn_view w' q = conn_view w q"

lemma fwd_other_ref:
  assumes "fwd_inv w" and "pfs_fetch (fwd_conns w) c n = Some q"
    and "pfs_fetch (fwd_conns w) c' n' = Some p" and "c \<noteq> c'"
  shows "q \<noteq> p"
  using conns_refsD(3) [OF conns_invD(1) [OF assms(1) [unfolded fwd_inv_def]], of "(c, n)" q "(c', n')"] assms(2-)
  by (auto simp: fwd_tab_def)

lemma fwd_inv_wf: "fwd_inv w \<Longrightarrow> world_wf w"
  unfolding fwd_inv_def by (rule conns_refsD(1) [OF conns_invD(1)])

lemma undisturbed_close_conn:
  assumes "fwd_inv w" and "pfs_fetch (fwd_conns w) c n = Some q" and "c \<noteq> caller"
  shows "undisturbed c n q w (fwd_close_conn caller connID w)"
  using assms fwd_other_ref [OF assms(1,2) _ assms(3)]
  by (auto simp: undisturbed_def fwd_close_conn_def Let_def pfs_fetch_remove conn_view_pf_close
      fwd_inv_wf split: option.split)

lemma undisturbed_data:
  assumes "fwd_inv w" and "pfs_fetch (fwd_conns w) c n = Some q" and "c \<noteq> inv_Caller iv"
  shows "undisturbed c n q w (fst (fwd_data cr iv connID w))"
  using assms fwd_other_ref [OF assms(1,2) _ assms(3)]
  by (auto simp: undisturbed_def fwd_data_def conn_view_receive fwd_inv_wf split: option.split)

lemma undisturbed_connect:
  assumes inv: "fwd_inv w" and q: "pfs_fetch (fwd_conns w) c n = Some q" and c: "c \<noteq> inv_Caller iv"
  shows "undisturbed c n q w (fst (fwd_connect cr env iv connID w))"
proof -
  let ?caller = "inv_Caller iv"
  have refuse: "undisturbed c n q w (snd (send_progress oc ?caller args w))" for oc args
    using q by (simp add: undisturbed_def)
  have main: "undisturbed c n q w (fst (case res of
        Some _ \<Rightarrow> ((pf_close p w4)\<lparr>fwd_conns := pfs_remove ?caller connID (fwd_conns (pf_close p w4))\<rparr>, no_result)
      | None \<Rightarrow> (start_reader p ?caller connID w4, no_result)))"
    if s: "send_progress (fe_send env) ?caller [VStr msgKeyExchange, VUInt connID, VBytes pub]
            (w2\<lparr>fwd_conns := pfs_store ?caller connID p (fwd_conns w2)\<rparr>) = (res, w4)"
      and b: "alloc_pf (newPortForwardConn r sk rk) w1 = (p, w2)" and a: "alloc_sock k w = (r, w1)"
    for pub k r w1 sk rk p w2 res w4
  proof -
    let ?w3 = "w2\<lparr>fwd_conns := pfs_store ?caller connID p (fwd_conns w2)\<rparr>"
    have w4: "w4 = snd (send_progress (fe_send env) ?caller [VStr msgKeyExchange, VUInt connID, VBytes pub] ?w3)"
      using s by simp
    have "q < w_next_pf w"
      using conns_refsD(2) [OF conns_invD(1) [OF inv [unfolded fwd_inv_def]], of "(c, n)" q] q by (simp add: fwd_tab_def)
    then have qp: "q \<noteq> p" "q \<noteq> w_next_pf w1" using alloc_sock_simps [OF a] alloc_pf_simps [OF b] by auto
    have wf4: "world_wf w4"
      unfolding w4 world_wf_send by (rule fwd_inv_wf [OF fwd_inv_new_conn [OF inv a b]])
    have v4: "conn_view w4 q = conn_view w q"
      unfolding w4 using conn_view_alloc_sock [OF fwd_inv_wf [OF inv] a] conn_view_alloc_pf [OF qp(2) b]
      by simp
    have t4: "pfs_fetch (fwd_conns w4) c n = Some q"
      unfolding w4 using q c fwd_conns_alloc [OF a b] by (simp add: pfs_fetch_store)
    show ?thesis
      using v4 t4 c conn_view_pf_close [OF wf4 qp(1)]
      by (simp add: undisturbed_def pfs_fetch_remove split: option.split)
  qed
  have same: "undisturbed c n q w w" using q by (simp add: undisturbed_def)
  show ?thesis
    unfolding fwd_connect_def Let_def
    using same refuse main by (simp add: Let_def split: sum.split prod.split del: fwd_conns_simps)
qed

lemma undisturbed_handle:
  assumes "fwd_inv w" and "pfs_fetch (fwd_conns w) c n = Some q" and "c \<noteq> inv_Caller iv"
  shows "undisturbed c n q w (fst (handlePortForward cr env iv w))"
proof -
  have "undisturbed c n q w w" using assms(2) by (simp add: undisturbed_def)
  then show ?thesis
    using undisturbed_close_conn [OF assms] undisturbed_data [OF assms] undisturbed_connect [OF assms]
    by (simp add: handlePortForward_def Let_def split: sum.split)
qed

lemma pfs_of_caller_fetch:
  "p \<in> set (pfs_of_caller t c) \<longleftrightarrow> (\<exists>n. pfs_fetch t c n = Some p)"
proof (cases "fmlookup t c")
  case (Some m)
  have "set (sorted_list_of_fset (fmdom m)) = {k. fmlookup m k \<noteq> None}"
    by (auto simp: fmlookup_dom_iff)
  with Some show ?thesis by (force simp: pfs_of_caller_def pfs_fetch_def image_iff)
qed (simp add: pfs_of_caller_def pfs_fetch_def)

section \<open>Properties\<close>

text \<open>A device that accepted one connection of caller 7 and forwarded one chunk.\<close>

definition demo_env :: fwd_env where
  "demo_env = \<lparr>fe_rand = Inr (replicate 32 CHR ''a''), fe_dial = (\<lambda>h p. Inr new_sock),
     fe_send = (\<lambda>_. None)\<rparr>"

definition demo_connect :: invocation where
  "demo_connect = sample_inv 1 7 ''user'' True
     [VStr msgConnect, VUInt 1, VStr ''localhost'', VStr ''80'', VBytes (replicate 32 CHR ''b'')]"

definition demo_w1 :: fwd where
  "demo_w1 = fst (handlePortForward toy_crypto demo_env demo_connect fwd_init)"

definition demo_w2 :: fwd where
  "demo_w2 = reader_step toy_crypto (\<lambda>_. None) 7 1 0 (Inr (replicate 12 CHR ''n'')) ''hi'' None demo_w1"

lemma demo_w1_eq:
  "demo_w1 = \<lparr>w_socks = [0 \<mapsto> new_sock], w_next_sock = 1,
     w_pfs = [0 \<mapsto> newPortForwardConn 0 (replicate 32 (char_of (293::nat))) (replicate 32 (char_of (297::nat)))],
     w_next_pf = 1, w_readers = [(0, 7, 1)],
     w_sent = [(7, [VStr msgKeyExchange, VUInt 1, VBytes (replicate 32 CHR ''a'')])],
     fwd_conns = pfs_store 7 1 0 fmempty\<rparr>"
  by (simp add: demo_w1_def handlePortForward_def demo_connect_def sample_inv_def fwd_connect_def
      demo_env_def toy_public toy_keys fwd_init_def alloc_sock_def alloc_pf_def
      send_progress_def start_reader_def Let_def)

lemma demo_w2_sent:
  "w_sent demo_w2 = [(7, [VStr msgKeyExchange, VUInt 1, VBytes (replicate 32 CHR ''a'')])] @
     (7, [VStr msgData, VUInt 1, VUInt 1,
          VBytes (replicate 12 CHR ''n'' @ ''hi'' @ replicate 16 (char_of (293::nat)))]) # []"
  by (simp add: demo_w2_def demo_w1_eq reader_step_def reader_round_def newPortForwardConn_def
      toy_seal nextSendSeq_def send_progress_def)

lemma demo_reachable: "fwd_reachable toy_crypto demo_w1" "fwd_reachable toy_crypto demo_w2"
proof -
  show 1: "fwd_reachable toy_crypto demo_w1"
    unfolding demo_w1_def by (rule fwd_next [OF fwd_start handle])
  have "(0, 7, 1) \<in> set (w_readers demo_w1)" by (simp add: demo_w1_eq)
  from fwd_next [OF 1 read [OF this]] show "fwd_reachable toy_crypto demo_w2"
    unfolding demo_w2_def by blast
qed

text \<open>
  Property C18 (fwd_data_after_key): whatever the callers send and however handler invocations, reader
  rounds and session ends interleave, every data message the device sends for a connection comes
  after the key-exchange message of that connection.
\<close>

theorem fwd_data_after_key:
  assumes "fwd_reachable cr w"
    and "w_sent w = pre @ (caller, [VStr msgData, VUInt connID, VUInt seq, VBytes enc]) # post"
  shows "\<exists>pub. (caller, [VStr msgKeyExchange, VUInt connID, VBytes pub]) \<in> set pre"
  using conns_invD(3) [OF fwd_reachable_inv [OF assms(1), unfolded fwd_inv_def]] assms(2)
  unfolding data_announced_def announced_def by blast

theorem fwd_data_after_key_witness:
  "\<exists>pub. (7, [VStr msgKeyExchange, VUInt 1, VBytes pub]) \<in>
     set [(7 :: u64, [VStr msgKeyExchange, VUInt 1, VBytes (replicate 32 CHR ''a'')])]"
  by (rule fwd_data_after_key [OF demo_reachable(2) demo_w2_sent])

text \<open>
  No invocation of one caller, whatever its arguments, touches a
  connection of another caller: the table entry, the connection's keys, counters and buffer, and
  its network connection are the same afterwards.
\<close>

theorem fwd_caller_isolation:
  assumes "fwd_reachable cr w" and "pfs_fetch (fwd_conns w) c n = Some q" and "c \<noteq> inv_Caller iv"
  shows "pfs_fetch (fwd_conns (fst (handlePortForward cr env iv w))) c n = Some q \<and>
         conn_view (fst (handlePortForward cr env iv w)) q = conn_view w q"
  using undisturbed_handle [OF fwd_reachable_inv [OF assms(1)] assms(2,3)]
  unfolding undisturbed_def .

lemma demo_entry: "pfs_fetch (fwd_conns demo_w1) 7 1 = Some 0"
  by (simp add: demo_w1_eq pfs_fetch_store)

theorem fwd_caller_isolation_witness:
  "pfs_fetch (fwd_conns (fst (handlePortForward toy_crypto demo_env
       (sample_inv 2 8 ''other'' True [VStr msgClose, VUInt 1]) demo_w1))) 7 1 = Some 0 \<and>
   conn_view (fst (handlePortForward toy_crypto demo_env
       (sample_inv 2 8 ''other'' True [VStr msgClose, VUInt 1]) demo_w1)) 0 = conn_view demo_w1 0"
  by (rule fwd_caller_isolation [OF demo_reachable(1) demo_entry]) (simp add: sample_inv_def)

text \<open>
  When a caller's session ends, all its forwarded connections are
  closed and forgotten, and the connections of every other caller are left alone.
\<close>

theorem fwd_session_leave:
  assumes "fwd_reachable cr w" and "pfs_fetch (fwd_conns w) c n = Some q"
  shows "(if c = caller
          then pfs_fetch (fwd_conns (fwd_deleteCaller caller w)) c n = None \<and>
               closed_conn (fwd_deleteCaller caller w) q
          else pfs_fetch (fwd_conns (fwd_deleteCaller caller w)) c n = Some q \<and>
               conn_view (fwd_deleteCaller caller w) q = conn_view w q)"
proof -
  note inv = fwd_reachable_inv [OF assms(1)]
  have "q < w_next_pf w"
    using conns_refsD(2) [OF conns_invD(1) [OF inv [unfolded fwd_inv_def]], of "(c, n)" q] assms(2) by (simp add: fwd_tab_def)
  then have "w_pfs w q \<noteq> None" using world_wf_pf [OF fwd_inv_wf [OF inv]] by simp
  moreover have "q \<in> set (pfs_of_caller (fwd_conns w) caller) \<longleftrightarrow> c = caller"
    unfolding pfs_of_caller_fetch using assms(2) fwd_other_ref [OF inv assms(2), of caller] by blast
  ultimately have
    "c = caller \<Longrightarrow> closed_conn (foldl (\<lambda>v p. pf_close p v) w (pfs_of_caller (fwd_conns w) caller)) q"
    "c \<noteq> caller \<Longrightarrow> conn_view (foldl (\<lambda>v p. pf_close p v) w (pfs_of_caller (fwd_conns w) caller)) q = conn_view w q"
    using closes_closed [of w q] closes_view [OF fwd_inv_wf [OF inv], of q] by blast+
  then show ?thesis
    using assms(2) by (simp add: fwd_deleteCaller_def Let_def pfs_fetch_drop closed_conn_def)
qed

theorem fwd_session_leave_witness:
  "(if 7 = (7::u64)
    then pfs_fetch (fwd_conns (fwd_deleteCaller 7 demo_w1)) 7 1 = None \<and>
         closed_conn (fwd_deleteCaller 7 demo_w1) 0
    else pfs_fetch (fwd_conns (fwd_deleteCaller 7 demo_w1)) 7 1 = Some 0 \<and>
         conn_view (fwd_deleteCaller 7 demo_w1) 0 = conn_view demo_w1 0)"
  by (rule fwd_session_leave [OF demo_reachable(1) demo_entry])

end
