(* ===== verification/ForwardClient.thy ===== *)
theory ForwardClient
  imports PortForward
begin

text \<open>
  The client's side of one forwarded connection: \<open>forwardConnection\<close> of \<open>portforward.go\<close> with
  its three concurrent activities, the goroutine that reads the local connection, the progress
  sender and the progress receiver. Each is a function on the shared variables of the closure;
  an \<open>inductive\<close> relation interleaves them.
\<close>

section \<open>The closure's variables\<close>

text \<open>
  \<open>fc_done\<close> and \<open>fc_keyReady\<close> say that the channel is closed, \<open>fc_ctx\<close> that the caller's
  context is done; \<open>fc_calls\<close> lists what the progress sender returned so far.
\<close>

record fclient =
  fc_connID :: u64
  fc_stream :: portForwardConn
  fc_local :: sock
  fc_pub :: bytes
  fc_priv :: bytes
  fc_sendCh :: "bytes list"
  fc_done :: bool
  fc_ctx :: bool
  fc_keyReady :: bool
  fc_sendKey :: bytes
  fc_receiveKey :: bytes
  fc_keyExchanged :: bool
  fc_firstSent :: bool
  fc_calls :: "wval list list"

text \<open>The statements before the call; \<open>None\<close> is the early return (the deferred close runs).\<close>

definition fc_start ::
    "crypto \<Rightarrow> bytes result \<Rightarrow> sock \<Rightarrow> u64 \<Rightarrow> u64 \<times> fclient option" where
  "fc_start cr rnd localConn counter =
     (let connID = counter + 1
      in (connID,
          case CreateX25519KeyPair cr rnd of
            Inl _ \<Rightarrow> None
          | Inr (clientPubKey, clientPrivKey) \<Rightarrow>
              Some \<lparr>fc_connID = connID, fc_stream = newPortForwardConn 0 [] [], fc_local = localConn,
                fc_pub = clientPubKey, fc_priv = clientPrivKey, fc_sendCh = [], fc_done = False,
                fc_ctx = False, fc_keyReady = False, fc_sendKey = [], fc_receiveKey = [],
                fc_keyExchanged = False, fc_firstSent = False, fc_calls = []\<rparr>))"

definition fc_closeDone :: "fclient \<Rightarrow> fclient" where
  "fc_closeDone c =
     (if fc_done c then c else c\<lparr>fc_done := True, fc_local := sock_close (fc_local c)\<rparr>)"

section \<open>The three activities\<close>

text \<open>
  A round of the goroutine that reads the local connection. The send on the buffered channel
  of capacity 64 and the receive from \<open>done\<close> compete in a \<open>select\<close>; \<open>pick_done\<close> is the choice.
  \<open>None\<close>: the chosen branch is not ready. The flag says whether the goroutine goes on.
\<close>

definition fc_read ::
    "bool \<Rightarrow> bytes \<Rightarrow> go_error option \<Rightarrow> fclient \<Rightarrow> (bool \<times> fclient) option" where
  "fc_read pick_done chunk rerr c =
     (let after_chunk =
        (if chunk = [] then Some (True, c)
         else if pick_done then (if fc_done c then Some (False, c) else None)
         else if length (fc_sendCh c) < 64
         then Some (True, c\<lparr>fc_sendCh := fc_sendCh c @ [chunk]\<rparr>)
         else None)
      in case after_chunk of
           None \<Rightarrow> None
         | Some (False, c') \<Rightarrow> Some (False, c')
         | Some (True, c') \<Rightarrow>
             (if rerr = None then Some (True, c') else Some (False, fc_closeDone c')))"

text \<open>Which branch of a \<open>select\<close> fires.\<close>

datatype fc_branch = OnKey | OnDone | OnCtx | OnChunk

text \<open>
  What the progress sender returns: a message with the progress option, after which it is
  asked again, or a last one without it.
\<close>

datatype fc_progress = FcMore "wval list" | FcLast "wval list"

definition fc_last :: "fclient \<Rightarrow> fc_progress \<times> fclient" where
  "fc_last c = (FcLast [VUInt (fc_connID c)], c)"

text \<open>The second \<open>select\<close> of the sender.\<close>

definition fc_send_chunk ::
    "crypto \<Rightarrow> bytes result \<Rightarrow> fc_branch \<Rightarrow> fclient \<Rightarrow> (fc_progress \<times> fclient) option" where
  "fc_send_chunk cr rnd b c =
     (case b of
        OnCtx \<Rightarrow> if fc_ctx c then Some (fc_last (fc_closeDone c)) else None
      | OnDone \<Rightarrow> if fc_done c then Some (fc_last c) else None
      | OnChunk \<Rightarrow>
          (case fc_sendCh c of
             [] \<Rightarrow> None
           | chunk # rest \<Rightarrow>
               (let c1 = c\<lparr>fc_sendCh := rest\<rparr>
                in case EncryptPayload cr rnd chunk (fc_sendKey c1) of
                     Inl _ \<Rightarrow> Some (fc_last (fc_closeDone c1))
                   | Inr encrypted \<Rightarrow>
                       (case nextSendSeq (fc_stream c1) of
                          (seq, st) \<Rightarrow>
                            Some (FcMore [VStr msgData, VUInt (fc_connID c1), VUInt seq, VBytes encrypted],
                                  c1\<lparr>fc_stream := st\<rparr>))))
      | OnKey \<Rightarrow> None)"

definition fc_sender ::
    "crypto \<Rightarrow> bytes result \<Rightarrow> string \<Rightarrow> string \<Rightarrow> fc_branch \<Rightarrow> fc_branch \<Rightarrow> fclient \<Rightarrow>
     (fc_progress \<times> fclient) option" where
  "fc_sender cr rnd remoteHost remotePort b1 b2 c =
     (if \<not> fc_firstSent c then
        Some (FcMore [VStr msgConnect, VUInt (fc_connID c), VStr remoteHost, VStr remotePort,
                VBytes (fc_pub c)], c\<lparr>fc_firstSent := True\<rparr>)
      else if \<not> fc_keyExchanged c then
        (case b1 of
           OnKey \<Rightarrow> if fc_keyReady c
                    then fc_send_chunk cr rnd b2 (c\<lparr>fc_keyExchanged := True\<rparr>) else None
         | OnDone \<Rightarrow> if fc_done c then Some (fc_last c) else None
         | OnCtx \<Rightarrow> if fc_ctx c then Some (fc_last (fc_closeDone c)) else None
         | OnChunk \<Rightarrow> None)
      else fc_send_chunk cr rnd b2 c)"

text \<open>
  The progress receiver. \<open>r\<close> gives the arguments of a result through the same accessors as an
  invocation. Closing \<open>keyReady\<close> a second time panics.
\<close>

definition fc_receive_key :: "crypto \<Rightarrow> invocation \<Rightarrow> fclient \<Rightarrow> go_panic + fclient" where
  "fc_receive_key cr r c =
     (if length (inv_Args r) < 3 then Inr (fc_closeDone c)
      else case inv_ArgBytes r 2 of
        Inl _ \<Rightarrow> Inr (fc_closeDone c)
      | Inr serverPubKey \<Rightarrow>
          (case derivePortForwardKeys cr (fc_priv c) serverPubKey of
             Inl _ \<Rightarrow> Inr (fc_closeDone (c\<lparr>fc_receiveKey := [], fc_sendKey := []\<rparr>))
           | Inr (receiveKey, sendKey) \<Rightarrow>
               if fc_keyReady c then Inl CloseOfClosedChannel
               else Inr (c\<lparr>fc_receiveKey := receiveKey, fc_sendKey := sendKey, fc_keyReady := True\<rparr>)))"

definition fc_receive_data :: "crypto \<Rightarrow> invocation \<Rightarrow> fclient \<Rightarrow> fclient" where
  "fc_receive_data cr r c =
     (if length (inv_Args r) < 3 then c
      else case inv_ArgUInt64 r 2 of
        Inl _ \<Rightarrow> c
      | Inr seq \<Rightarrow>
     (case inv_ArgBytes r 3 of
        Inl _ \<Rightarrow> c
      | Inr encrypted \<Rightarrow>
     (case DecryptPayload cr encrypted (fc_receiveKey c) of
        Inl _ \<Rightarrow> c
      | Inr plaintext \<Rightarrow>
     (case deliver_pf (fc_stream c) (fc_local c) seq plaintext of
        (_, st, k) \<Rightarrow> c\<lparr>fc_stream := st, fc_local := k\<rparr>))))"

definition fc_receive :: "crypto \<Rightarrow> invocation \<Rightarrow> fclient \<Rightarrow> go_panic + fclient" where
  "fc_receive cr r c =
     (if inv_Args r = [] then Inr (fc_closeDone c)
      else case inv_ArgString r 0 of
        Inl _ \<Rightarrow> Inr c
      | Inr msgType \<Rightarrow>
          (if msgType = msgKeyExchange then fc_receive_key cr r c
           else if msgType = msgData then Inr (fc_receive_data cr r c)
           else if msgType = msgClose then Inr (fc_closeDone c)
           else Inr c))"

section \<open>Interleaving\<close>

text \<open>
  \<open>fc_calls\<close> is the history of the call's outgoing messages. A panic ends the run, so the
  relation has steps of the receiver only where it does not panic.
\<close>

definition fc_emit :: "fc_progress \<Rightarrow> fclient \<Rightarrow> fclient" where
  "fc_emit m c = c\<lparr>fc_calls := fc_calls c @ [case m of FcMore a \<Rightarrow> a | FcLast a \<Rightarrow> a]\<rparr>"

inductive fc_step :: "crypto \<Rightarrow> string \<Rightarrow> string \<Rightarrow> fclient \<Rightarrow> fclient \<Rightarrow> bool"
  for cr :: crypto and host port :: string where
  fc_reads: "fc_read pick chunk rerr c = Some (go_on, c') \<Longrightarrow> fc_step cr host port c c'"
| fc_sends: "fc_sender cr rnd host port b1 b2 c = Some (m, c') \<Longrightarrow>
     fc_step cr host port c (fc_emit m c')"
| fc_receives: "fc_receive cr r c = Inr c' \<Longrightarrow> fc_step cr host port c c'"
| fc_cancelled: "fc_step cr host port c (c\<lparr>fc_ctx := True\<rparr>)"
| fc_returns: "fc_step cr host port c (fc_closeDone c)"

inductive fc_reachable :: "crypto \<Rightarrow> string \<Rightarrow> string \<Rightarrow> fclient \<Rightarrow> bool"
  for cr :: crypto and host port :: string where
  fc_begin: "fc_start cr rnd k counter = (i, Some c) \<Longrightarrow> fc_reachable cr host port c"
| fc_next: "fc_reachable cr host port c \<Longrightarrow> fc_step cr host port c c' \<Longrightarrow> fc_reachable cr host port c'"

inductive_cases fc_stepE: "fc_step cr host port c c'"

section \<open>What the client sends\<close>

text \<open>The sequence number of an outgoing data message.\<close>

fun data_seq :: "wval list \<Rightarrow> u64 option" where
  "data_seq [VStr t, VUInt n, VUInt seq, VBytes enc] = (if t = msgData then Some seq else None)"
| "data_seq _ = None"

abbreviation data_seqs :: "wval list list \<Rightarrow> u64 list" where
  "data_seqs calls \<equiv> List.map_filter data_seq calls"

lemma map_filter_snoc [simp]:
  "List.map_filter f (xs @ [x]) = List.map_filter f xs @ (case f x of None \<Rightarrow> [] | Some y \<Rightarrow> [y])"
  by (simp add: List.map_filter_def split: option.split)

definition fc_inv :: "string \<Rightarrow> string \<Rightarrow> fclient \<Rightarrow> bool" where
  "fc_inv host port c \<longleftrightarrow>
     (fc_keyExchanged c \<longrightarrow> fc_keyReady c) \<and>
     (data_seqs (fc_calls c) \<noteq> [] \<longrightarrow> fc_keyReady c) \<and>
     (fc_firstSent c \<longleftrightarrow> fc_calls c \<noteq> []) \<and>
     (fc_calls c \<noteq> [] \<longrightarrow> hd (fc_calls c) =
        [VStr msgConnect, VUInt (fc_connID c), VStr host, VStr port, VBytes (fc_pub c)]) \<and>
     (\<exists>n. pf_sendSeq (fc_stream c) = of_nat n \<and> data_seqs (fc_calls c) = map of_nat [1..<Suc n])"

lemma fc_closeDone_simps [simp]:
  "fc_connID (fc_closeDone c) = fc_connID c" "fc_stream (fc_closeDone c) = fc_stream c"
  "fc_pub (fc_closeDone c) = fc_pub c" "fc_priv (fc_closeDone c) = fc_priv c"
  "fc_sendCh (fc_closeDone c) = fc_sendCh c" "fc_done (fc_closeDone c)"
  "fc_keyReady (fc_closeDone c) = fc_keyReady c" "fc_sendKey (fc_closeDone c) = fc_sendKey c"
  "fc_receiveKey (fc_closeDone c) = fc_receiveKey c"
  "fc_keyExchanged (fc_closeDone c) = fc_keyExchanged c"
  "fc_firstSent (fc_closeDone c) = fc_firstSent c" "fc_calls (fc_closeDone c) = fc_calls c"
  by (simp_all add: fc_closeDone_def)

text \<open>Steps that leave the sender's variables alone.\<close>

lemma fc_inv_frame:
  assumes "fc_inv host port c" and "fc_connID c' = fc_connID c" and "fc_pub c' = fc_pub c"
    and "pf_sendSeq (fc_stream c') = pf_sendSeq (fc_stream c)" and "fc_calls c' = fc_calls c"
    and "fc_firstSent c' = fc_firstSent c" and "fc_keyReady c \<Longrightarrow> fc_keyReady c'"
    and "fc_keyExchanged c' = fc_keyExchanged c"
  shows "fc_inv host port c'"
  using assms unfolding fc_inv_def by metis

lemma fc_inv_read: "fc_inv host port c \<Longrightarrow> fc_read pick chunk rerr c = Some (b, c') \<Longrightarrow> fc_inv host port c'"
  by (erule fc_inv_frame)
    (auto simp: fc_read_def Let_def split: if_splits bool.splits option.splits prod.splits)

lemma deliver_pf_simps:
  "deliver_pf c k seq pt = (e, c', k') \<Longrightarrow>
     pf_sendSeq c' = pf_sendSeq c \<and> pf_sendKey c' = pf_sendKey c \<and> pf_receiveKey c' = pf_receiveKey c"
  by (auto simp: deliver_pf_def Let_def split: prod.splits)

lemma fc_inv_delivered:
  "fc_inv host port c \<Longrightarrow> deliver_pf (fc_stream c) (fc_local c) seq pt = (e, st, k) \<Longrightarrow>
   fc_inv host port (c\<lparr>fc_stream := st, fc_local := k\<rparr>)"
  by (erule fc_inv_frame) (simp_all add: deliver_pf_simps)

lemma fc_inv_receive_data: "fc_inv host port c \<Longrightarrow> fc_inv host port (fc_receive_data cr r c)"
  by (auto simp: fc_receive_data_def fc_inv_delivered split: sum.split prod.split)

lemma fc_inv_receive: "fc_inv host port c \<Longrightarrow> fc_receive cr r c = Inr c' \<Longrightarrow> fc_inv host port c'"
  by (auto simp: fc_receive_def fc_receive_key_def fc_inv_receive_data elim: fc_inv_frame
      split: if_splits sum.splits prod.splits)

text \<open>The sender: a message that is not data and not the first, the connect message, or data.\<close>

lemma fc_inv_last:
  assumes "fc_inv host port c" and "fc_firstSent c" and "m = FcLast [VUInt n]"
  shows "fc_inv host port (fc_emit m c)"
  using assms unfolding fc_inv_def fc_emit_def by (auto simp: hd_append)

lemma fc_inv_closeDone: "fc_inv host port c \<Longrightarrow> fc_inv host port (fc_closeDone c)"
  by (erule fc_inv_frame) simp_all

lemma fc_inv_send_chunk:
  assumes inv: "fc_inv host port c" and first: "fc_firstSent c" and key: "fc_keyReady c"
    and s: "fc_send_chunk cr rnd b c = Some (m, c')"
  shows "fc_inv host port (fc_emit m c')"
proof (cases b)
  case OnKey
  with s show ?thesis by (simp add: fc_send_chunk_def)
next
  case OnDone
  with s inv first show ?thesis
    by (auto simp: fc_send_chunk_def fc_last_def fc_inv_last split: if_splits)
next
  case OnCtx
  with s inv first show ?thesis
    by (auto simp: fc_send_chunk_def fc_last_def fc_inv_closeDone intro!: fc_inv_last split: if_splits)
next
  case OnChunk
  then obtain chunk rest where ch: "fc_sendCh c = chunk # rest"
    using s by (auto simp: fc_send_chunk_def split: list.splits)
  let ?c1 = "c\<lparr>fc_sendCh := rest\<rparr>"
  have inv1: "fc_inv host port ?c1" using inv by (rule fc_inv_frame) simp_all
  show ?thesis
  proof (cases "EncryptPayload cr rnd chunk (fc_sendKey c)")
    case (Inl e)
    with s OnChunk ch first fc_inv_closeDone [OF inv1] show ?thesis
      by (auto simp: fc_send_chunk_def Let_def fc_last_def intro!: fc_inv_last)
  next
    case (Inr enc)
    with s OnChunk ch first key inv1 show ?thesis
      by (auto simp: fc_send_chunk_def Let_def nextSendSeq_def fc_inv_def fc_emit_def hd_append
          intro!: exI [of _ "Suc n" for n])
  qed
qed

lemma fc_inv_sender:
  assumes inv: "fc_inv host port c" and s: "fc_sender cr rnd host port b1 b2 c = Some (m, c')"
  shows "fc_inv host port (fc_emit m c')"
proof (cases "fc_firstSent c")
  case False
  then have calls: "fc_calls c = []" using inv by (simp add: fc_inv_def)
  obtain n where "pf_sendSeq (fc_stream c) = of_nat n" "data_seqs (fc_calls c) = map of_nat [1..<Suc n]"
    using inv unfolding fc_inv_def by blast
  with calls have "pf_sendSeq (fc_stream c) = 0"
    by (cases n) (simp_all add: List.map_filter_simps)
  with False calls inv s show ?thesis
    by (auto simp: fc_sender_def fc_inv_def fc_emit_def List.map_filter_simps intro!: exI [of _ 0])
next
  case first: True
  have chunk: "fc_inv host port (fc_emit m c')"
    if "fc_send_chunk cr rnd b2 (c\<lparr>fc_keyExchanged := True\<rparr>) = Some (m, c')" "fc_keyReady c"
    by (rule fc_inv_send_chunk [OF _ _ _ that(1)]) (use inv first that in \<open>simp_all add: fc_inv_def\<close>)
  show ?thesis
  proof (cases "fc_keyExchanged c")
    case True
    then have "c\<lparr>fc_keyExchanged := True\<rparr> = c" "fc_keyReady c" using inv by (simp_all add: fc_inv_def)
    with chunk True first s show ?thesis by (simp add: fc_sender_def)
  next
    case False
    with first s inv chunk show ?thesis
      by (auto simp: fc_sender_def fc_last_def fc_inv_closeDone intro!: fc_inv_last
          split: fc_branch.splits if_splits)
  qed
qed

lemma fc_inv_start: "fc_start cr rnd k counter = (i, Some c) \<Longrightarrow> fc_inv host port c"
  by (auto simp: fc_start_def Let_def fc_inv_def newPortForwardConn_def List.map_filter_simps
      split: sum.splits prod.splits intro!: exI [of _ 0])

lemma fc_reachable_inv: "fc_reachable cr host port c \<Longrightarrow> fc_inv host port c"
proof (induction rule: fc_reachable.induct)
  case (fc_next c c')
  then show ?case
    by (auto elim!: fc_stepE simp: fc_inv_closeDone
        intro: fc_inv_read fc_inv_sender fc_inv_receive elim: fc_inv_frame)
qed (rule fc_inv_start)

section \<open>Device and client together\<close>

text \<open>Consecutive rounds of a device's reader goroutine, with the nonces drawn; all sends succeed.\<close>

fun reader_rounds ::
    "crypto \<Rightarrow> u64 \<Rightarrow> u64 \<Rightarrow> nat \<Rightarrow> (bytes \<times> bytes) list \<Rightarrow> ('a world_scheme) \<Rightarrow> ('a world_scheme)" where
  "reader_rounds cr caller connID p [] w = w"
| "reader_rounds cr caller connID p ((nonce, chunk) # rs) w =
     reader_rounds cr caller connID p rs
       (snd (reader_round cr (\<lambda>_. None) caller connID p (Inr nonce) chunk None w))"

text \<open>The messages those rounds send.\<close>

fun data_msgs :: "crypto \<Rightarrow> bytes \<Rightarrow> u64 \<Rightarrow> u64 \<Rightarrow> (bytes \<times> bytes) list \<Rightarrow> wval list list" where
  "data_msgs cr key connID s [] = []"
| "data_msgs cr key connID s ((nonce, chunk) # rs) =
     [VStr msgData, VUInt connID, VUInt (s + 1), VBytes (nonce @ aead_seal cr key nonce chunk)]
       # data_msgs cr key connID (s + 1) rs"

definition chunks_ok :: "(bytes \<times> bytes) list \<Rightarrow> bool" where
  "chunks_ok rs \<longleftrightarrow> (\<forall>(nonce, chunk) \<in> set rs. length nonce = 12 \<and> chunk \<noteq> [])"

lemma reader_rounds_sent:
  assumes "aead_ok cr" and "length (pf_sendKey c) = 32" and "chunks_ok rs"
    and "w_pfs w p = Some (c\<lparr>pf_sendSeq := s\<rparr>)" and "\<not> pf_done c"
  shows "w_sent (reader_rounds cr caller connID p rs w) =
           w_sent w @ map (Pair caller) (data_msgs cr (pf_sendKey c) connID s rs)"
  using assms(3,4)
proof (induction rs arbitrary: w s)
  case Nil
  then show ?case by simp
next
  case (Cons r rs)
  obtain nonce chunk where r: "r = (nonce, chunk)" by (cases r)
  let ?c = "c\<lparr>pf_sendSeq := s + 1\<rparr>"
  let ?w = "snd (reader_round cr (\<lambda>_. None) caller connID p (Inr nonce) chunk None w)"
  have ok: "length nonce = 12" "chunk \<noteq> []" "chunks_ok rs" using Cons.prems r by (auto simp: chunks_ok_def)
  have "w_pfs ?w p = Some (c\<lparr>pf_sendSeq := s + 1\<rparr>)"
    and "w_sent ?w = w_sent w @ [(caller, [VStr msgData, VUInt connID, VUInt (s + 1),
           VBytes (nonce @ aead_seal cr (pf_sendKey c) nonce chunk)])]"
    using Cons.prems ok assms(1,2,5)
    by (simp_all add: reader_round_def EncryptPayload_Inr nextSendSeq_def send_progress_def)
  with Cons.IH [of ?w "s + 1"] ok(3) r show ?case by simp
qed

lemma length_data_msgs [simp]: "length (data_msgs cr key connID s rs) = length rs"
  by (induction rs arbitrary: s) auto

lemma nth_data_msgs:
  "i < length rs \<Longrightarrow> data_msgs cr key connID s rs ! i =
     [VStr msgData, VUInt connID, VUInt (s + of_nat (Suc i)),
      VBytes (fst (rs ! i) @ aead_seal cr key (fst (rs ! i)) (snd (rs ! i)))]"
proof (induction rs arbitrary: s i)
  case (Cons r rs)
  then show ?case by (cases r; cases i) (simp_all add: add.assoc)
qed simp

text \<open>A progress result that carries the given arguments.\<close>

abbreviation progress_result :: "wval list \<Rightarrow> invocation" where
  "progress_result args \<equiv> sample_inv 0 0 [] True args"

fun fc_receives :: "crypto \<Rightarrow> invocation list \<Rightarrow> fclient \<Rightarrow> go_panic + fclient" where
  "fc_receives cr [] c = Inr c"
| "fc_receives cr (r # rs) c =
     (case fc_receive cr r c of Inl e \<Rightarrow> Inl e | Inr c' \<Rightarrow> fc_receives cr rs c')"

lemma fc_receive_data_msg:
  assumes "aead_ok cr" and "length (fc_receiveKey d) = 32" and "length nonce = 12"
    and "deliver_pf (fc_stream d) (fc_local d) seq chunk = (e, st, k)"
  shows "fc_receive cr (progress_result [VStr msgData, VUInt connID, VUInt seq,
           VBytes (nonce @ aead_seal cr (fc_receiveKey d) nonce chunk)]) d =
         Inr (d\<lparr>fc_stream := st, fc_local := k\<rparr>)"
  using assms by (simp add: fc_receive_def fc_receive_data_def sample_inv_def DecryptPayload_append)

lemma fc_receives_data:
  assumes "aead_ok cr" and "length (fc_receiveKey d) = 32" and "chunks_ok rs" and "set xs \<subseteq> {..<length rs}"
  shows "fc_receives cr (map (\<lambda>i. progress_result (data_msgs cr (fc_receiveKey d) connID 0 rs ! i)) xs) d =
     (case deliver_list (fc_stream d) (fc_local d) (map (\<lambda>i. (of_nat (Suc i), snd (rs ! i))) xs) of
        (st, k) \<Rightarrow> Inr (d\<lparr>fc_stream := st, fc_local := k\<rparr>))"
  using assms(2,4)
proof (induction xs arbitrary: d)
  case (Cons x xs)
  obtain e st k where del: "deliver_pf (fc_stream d) (fc_local d) (of_nat (Suc x)) (snd (rs ! x)) = (e, st, k)"
    by (cases "deliver_pf (fc_stream d) (fc_local d) (of_nat (Suc x)) (snd (rs ! x))")
  have "rs ! x \<in> set rs" using Cons.prems by simp
  then have "length (fst (rs ! x)) = 12" using assms(3) by (auto simp: chunks_ok_def)
  with fc_receive_data_msg [OF assms(1) Cons.prems(1) _ del, of "fst (rs ! x)" connID]
    Cons.IH [of "d\<lparr>fc_stream := st, fc_local := k\<rparr>"] Cons.prems del
  show ?case by (simp add: nth_data_msgs del: of_nat_Suc)
qed simp

section \<open>Properties\<close>

text \<open>
  Property C1 (tunnel_delivers): what the device's reader goroutine reads from the remote connection in
  any number of rounds, encrypted, numbered and sent message by message, reaches the client's local
  connection as the same bytes in the same order, in whatever order and however often the transport
  delivers the messages, as long as each arrives at least once.
\<close>

theorem tunnel_delivers:
  assumes cr: "aead_ok cr"
    and dev: "w_pfs w p = Some c" "\<not> pf_done c" "pf_sendSeq c = 0" "length (pf_sendKey c) = 32"
    and rs: "chunks_ok rs" "length rs < 2 ^ 64 - 2"
    and msgs: "w_sent (reader_rounds cr caller connID p rs w) = w_sent w @ map (Pair caller) msgs"
    and xs: "set xs = {..<length rs}"
    and cli: "fc_receiveKey d = pf_sendKey c" "pf_recvNext (fc_stream d) = 0"
      "pf_recvBuf (fc_stream d) = fmempty" "healthy (fc_local d)"
  shows "\<exists>d'. fc_receives cr (map (\<lambda>i. progress_result (msgs ! i)) xs) d = Inr d' \<and>
           sk_out (fc_local d') = sk_out (fc_local d) @ concat (map snd rs)"
proof -
  have "w_sent (reader_rounds cr caller connID p rs w) =
      w_sent w @ map (Pair caller) (data_msgs cr (pf_sendKey c) connID 0 rs)"
    using reader_rounds_sent [OF cr dev(4) rs(1), where w = w and p = p and s = 0] dev by simp
  with msgs have m: "msgs = data_msgs cr (fc_receiveKey d) connID 0 rs"
    using cli(1) inj_map_eq_map [of "Pair caller"] by (simp add: inj_def)
  let ?f = "\<lambda>s. snd (rs ! (s - 1))" and ?ys = "map Suc xs"
  have ys: "map (\<lambda>i. (of_nat (Suc i) :: u64, snd (rs ! i))) xs = map (\<lambda>s. (of_nat s, ?f s)) ?ys"
    by (simp del: of_nat_Suc)
  have set_ys: "set ?ys = {1..length rs}" by (simp add: xs image_Suc_lessThan)
  obtain st k where d: "deliver_list (fc_stream d) (fc_local d) (map (\<lambda>s. (of_nat s, ?f s)) ?ys) = (st, k)"
    and st: "recv_state ?f ({} \<union> set ?ys) (sk_out (fc_local d)) st k"
  proof -
    have "{} \<union> set ?ys \<subseteq> {1..<2 ^ 64 - 1}" unfolding set_ys using rs(2) by auto
    from deliver_list_state [OF recv_state_new [OF cli(4,2,3), of ?f] this] that show thesis by blast
  qed
  have "sk_out k = sk_out (fc_local d) @ concat (map ?f [1..<Suc (length rs)])"
    using st set_ys by (intro recv_state_complete) simp
  also have "map ?f [1..<Suc (length rs)] = map snd rs"
    by (rule nth_equalityI) (simp_all del: upt_Suc)
  finally show ?thesis
    using fc_receives_data [OF cr _ rs(1), of d xs connID] dev(4) cli(1) xs m d [folded ys]
    by (simp del: of_nat_Suc)
qed

definition demo_client :: fclient where
  "demo_client = \<lparr>fc_connID = 1, fc_stream = newPortForwardConn 0 [] [], fc_local = new_sock,
     fc_pub = [], fc_priv = [], fc_sendCh = [], fc_done = False, fc_ctx = False, fc_keyReady = True,
     fc_sendKey = replicate 32 CHR ''s'', fc_receiveKey = replicate 32 CHR ''r'',
     fc_keyExchanged = False, fc_firstSent = True, fc_calls = []\<rparr>"

definition demo_world :: world where
  "demo_world = \<lparr>w_socks = [0 \<mapsto> new_sock], w_next_sock = 1,
     w_pfs = [0 \<mapsto> newPortForwardConn 0 (replicate 32 CHR ''r'') (replicate 32 CHR ''s'')],
     w_next_pf = 1, w_readers = [(0, 7, 1)], w_sent = []\<rparr>"

lemma demo_nonce: "length (replicate 12 CHR ''n'') = 12"
  by simp

theorem tunnel_delivers_witness:
  "\<exists>d'. fc_receives toy_crypto (map (\<lambda>i. progress_result
      (data_msgs toy_crypto (replicate 32 CHR ''r'') 1 0
         [(replicate 12 CHR ''n'', ''ab''), (replicate 12 CHR ''n'', ''cd'')] ! i)) [1, 0, 1]) demo_client = Inr d' \<and>
     sk_out (fc_local d') = ''abcd''"
proof -
  let ?rs = "[(replicate 12 CHR ''n'', ''ab''), (replicate 12 CHR ''n'', ''cd'')]"
  have ok: "aead_ok toy_crypto" using toy_crypto_ok by (simp add: crypto_ok_def)
  have rs: "chunks_ok ?rs" by (simp add: chunks_ok_def)
  have sent: "w_sent (reader_rounds toy_crypto 7 1 0 ?rs demo_world) =
      w_sent demo_world @ map (Pair 7) (data_msgs toy_crypto (replicate 32 CHR ''r'') 1 0 ?rs)"
    using reader_rounds_sent [OF ok, of "newPortForwardConn 0 (replicate 32 CHR ''r'') (replicate 32 CHR ''s'')"
        ?rs demo_world 0 0] rs
    by (simp add: demo_world_def newPortForwardConn_def)
  have "set [1, 0, 1] = {..<length ?rs}" by auto
  from tunnel_delivers [OF ok _ _ _ _ rs _ sent this, of
      "newPortForwardConn 0 (replicate 32 CHR ''r'') (replicate 32 CHR ''s'')" demo_client]
  show ?thesis
    by (simp add: demo_world_def demo_client_def newPortForwardConn_def healthy_def new_sock_def)
qed

text \<open>
  In every reachable state of the client's connection, under any
  interleaving, the first message it sends is the connect message with the target and its public key;
  data messages appear only after the key exchange has completed, and they are numbered 1, 2, 3, \<dots>
  without gaps.
\<close>

theorem forward_first_message:
  assumes "fc_reachable cr host port c"
  shows "(fc_calls c = [] \<or> hd (fc_calls c) =
            [VStr msgConnect, VUInt (fc_connID c), VStr host, VStr port, VBytes (fc_pub c)]) \<and>
         (fc_keyReady c \<or> data_seqs (fc_calls c) = []) \<and>
         (\<exists>n. data_seqs (fc_calls c) = map of_nat [1..<Suc n])"
  using fc_reachable_inv [OF assms] unfolding fc_inv_def by metis

lemma demo_start: "\<exists>i c. fc_start toy_crypto (Inr (replicate 32 CHR ''a'')) new_sock 0 = (i, Some c)"
  by (simp add: fc_start_def CreateX25519KeyPair_def toy_crypto_def Let_def)

theorem forward_first_message_witness:
  "\<exists>c. fc_reachable toy_crypto ''localhost'' ''80'' c \<and>
     (fc_calls c = [] \<or> hd (fc_calls c) =
            [VStr msgConnect, VUInt (fc_connID c), VStr ''localhost'', VStr ''80'', VBytes (fc_pub c)]) \<and>
     (fc_keyReady c \<or> data_seqs (fc_calls c) = []) \<and>
     (\<exists>n. data_seqs (fc_calls c) = map of_nat [1..<Suc n])"
  using demo_start forward_first_message fc_begin by meson

text \<open>
  A second key message, well formed like the first, makes the
  progress receiver close the already closed \<open>keyReady\<close> channel, which panics.
\<close>

theorem second_key_panics:
  assumes "fc_keyReady c" and "inv_ArgString r 0 = Inr msgKeyExchange" and "3 \<le> length (inv_Args r)"
    and "inv_ArgBytes r 2 = Inr pub" and "derivePortForwardKeys cr (fc_priv c) pub = Inr ks"
  shows "fc_receive cr r c = Inl CloseOfClosedChannel"
  using assms by (auto simp: fc_receive_def fc_receive_key_def split: prod.split)

theorem second_key_panics_witness:
  "fc_receive toy_crypto (progress_result [VStr msgKeyExchange, VUInt 1, VBytes (replicate 32 CHR ''b'')])
     (demo_client\<lparr>fc_priv := replicate 32 CHR ''a''\<rparr>) = Inl CloseOfClosedChannel"
proof -
  have "AllZeros (replicate 32 (char_of (195::nat))) = False"
    by (simp add: AllZeros_def char_of_eq_iff)
  then obtain ks where "derivePortForwardKeys toy_crypto (replicate 32 CHR ''a'') (replicate 32 CHR ''b'') = Inr ks"
    by (auto simp: derivePortForwardKeys_def PerformKeyExchange_def DeriveKeyHKDF_def toy_crypto_def)
  then show ?thesis
    by (intro second_key_panics) (simp_all add: demo_client_def sample_inv_def)
qed

text \<open>
  When the device accepts the connect message of a started client, the
  key message it answers with makes the client derive the same two keys, crossed: what one side
  sends with, the other receives with.
\<close>

theorem tunnel_keys_agree:
  assumes cr: "crypto_ok cr" and start: "fc_start cr rc k counter = (connID, Some d)" and "length (fc_priv d) = 32"
    and fresh: "pfs_fetch (fwd_conns w) caller connID = None" and send: "fe_send env = (\<lambda>_. None)"
    and w': "w' = fst (handlePortForward cr env (sample_inv ptr caller authid True
        [VStr msgConnect, VUInt connID, VStr host, VStr port, VBytes (fc_pub d)]) w)"
    and accepted: "pfs_fetch (fwd_conns w') caller connID = Some p"
  shows "\<exists>pub pf d'. last (w_sent w') = (caller, [VStr msgKeyExchange, VUInt connID, VBytes pub]) \<and>
     w_pfs w' p = Some pf \<and>
     fc_receive cr (progress_result [VStr msgKeyExchange, VUInt connID, VBytes pub]) d = Inr d' \<and>
     fc_receiveKey d' = pf_sendKey pf \<and> fc_sendKey d' = pf_receiveKey pf \<and>
     length (pf_sendKey pf) = 32 \<and> length (pf_receiveKey pf) = 32"
proof -
  have cpair: "CreateX25519KeyPair cr rc = Inr (fc_pub d, fc_priv d)" and ready: "\<not> fc_keyReady d"
    using start by (auto simp: fc_start_def Let_def split: sum.splits prod.splits)
  obtain spub spriv sk rk tcp where
    spair: "CreateX25519KeyPair cr (fe_rand env) = Inr (spub, spriv)" and
    keys: "derivePortForwardKeys cr spriv (fc_pub d) = Inr (sk, rk)" and
    dial: "fe_dial env host port = Inr tcp"
    using accepted fresh unfolding w'
    by (auto simp: handlePortForward_def sample_inv_def fwd_connect_def Let_def split: sum.splits prod.splits)
  have w'_eq: "last (w_sent w') = (caller, [VStr msgKeyExchange, VUInt connID, VBytes spub])"
    "pfs_fetch (fwd_conns w') caller connID = Some (w_next_pf w)"
    "w_pfs w' (w_next_pf w) = Some (newPortForwardConn (w_next_sock w) sk rk)"
    unfolding w' using spair keys dial send
    by (simp_all add: handlePortForward_def sample_inv_def fwd_connect_def Let_def alloc_sock_def
        alloc_pf_def send_progress_def start_reader_def pfs_fetch_store)
  obtain s where s: "PerformKeyExchange cr spriv (fc_pub d) = Inr s"
    "DeriveKeyHKDF cr s ''backendToFrontend'' = Inr sk" "DeriveKeyHKDF cr s ''frontendToBackend'' = Inr rk"
    using keys by (auto simp: derivePortForwardKeys_Inr)
  have "PerformKeyExchange cr (fc_priv d) spub = Inr s"
    using shared_secret_agrees [OF _ spair cpair s(1) assms(3)] cr by (simp add: crypto_ok_def)
  then have "derivePortForwardKeys cr (fc_priv d) spub = Inr (sk, rk)"
    using s by (simp add: derivePortForwardKeys_Inr)
  then have "fc_receive cr (progress_result [VStr msgKeyExchange, VUInt connID, VBytes spub]) d =
      Inr (d\<lparr>fc_receiveKey := sk, fc_sendKey := rk, fc_keyReady := True\<rparr>)"
    using ready by (simp add: fc_receive_def fc_receive_key_def sample_inv_def)
  moreover have "length sk = 32 \<and> length rk = 32"
    using cr derivePortForwardKeys_length [OF _ keys] by (simp add: crypto_ok_def)
  ultimately show ?thesis
    using w'_eq accepted by (auto simp: newPortForwardConn_def)
qed

text \<open>The connection of the example device, seen from the client that asked for it.\<close>

definition demo_asker :: fclient where
  "demo_asker = \<lparr>fc_connID = 1, fc_stream = newPortForwardConn 0 [] [], fc_local = new_sock,
     fc_pub = replicate 32 CHR ''b'', fc_priv = replicate 32 CHR ''b'', fc_sendCh = [], fc_done = False,
     fc_ctx = False, fc_keyReady = False, fc_sendKey = [], fc_receiveKey = [],
     fc_keyExchanged = False, fc_firstSent = False, fc_calls = []\<rparr>"

theorem tunnel_keys_agree_witness:
  "\<exists>pub pf d'. last (w_sent demo_w1) = (7, [VStr msgKeyExchange, VUInt 1, VBytes pub]) \<and>
     w_pfs demo_w1 0 = Some pf \<and>
     fc_receive toy_crypto (progress_result [VStr msgKeyExchange, VUInt 1, VBytes pub]) demo_asker = Inr d' \<and>
     fc_receiveKey d' = pf_sendKey pf \<and> fc_sendKey d' = pf_receiveKey pf \<and>
     length (pf_sendKey pf) = 32 \<and> length (pf_receiveKey pf) = 32"
proof (rule tunnel_keys_agree [OF toy_crypto_ok])
  show "fc_start toy_crypto (Inr (replicate 32 CHR ''b'')) new_sock 0 = (1, Some demo_asker)"
    by (simp add: fc_start_def CreateX25519KeyPair_def toy_crypto_def char_of_eq_iff demo_asker_def)
  show "demo_w1 = fst (handlePortForward toy_crypto demo_env (sample_inv 1 7 ''user'' True
      [VStr msgConnect, VUInt 1, VStr ''localhost'', VStr ''80'', VBytes (fc_pub demo_asker)]) fwd_init)"
    by (simp add: demo_w1_def demo_connect_def demo_asker_def)
qed (simp_all add: demo_asker_def fwd_init_def pfs_fetch_def demo_env_def demo_entry [unfolded pfs_fetch_def])

end
