(* ===== verification/Listeners.thy ===== *)
theory Listeners
  imports ConnTable
begin

text \<open>
  What the reverse-forwarding and agent-forwarding sessions share: a session owns a listener,
  the accepted connections that wait for the caller's public key (\<open>pending\<close>) and the forwarded
  connections (\<open>active\<close>). The session tables differ only in their key, a caller's session id or
  its authentication id, so the operations and the invariant are polymorphic in it.
\<close>

section \<open>Sessions and their tables\<close>

record reversePendingConn =
  rp_conn :: nat
  rp_serverPrivKey :: bytes

record lsession =
  ls_ln :: nat
  ls_pending :: "(u64, reversePendingConn) fmap"
  ls_active :: "(u64, nat) fmap"

type_synonym ('o, 'a) ls_table = "'o \<Rightarrow> 'a lsession_scheme option"

definition ls_storePending ::
    "'o \<Rightarrow> u64 \<Rightarrow> nat \<Rightarrow> bytes \<Rightarrow> ('o, 'a) ls_table \<Rightarrow> ('o, 'a) ls_table" where
  "ls_storePending owner connID conn serverPrivKey t =
     (case t owner of
        None \<Rightarrow> t
      | Some s \<Rightarrow> t(owner := Some (s\<lparr>ls_pending :=
          fmupd connID \<lparr>rp_conn = conn, rp_serverPrivKey = serverPrivKey\<rparr> (ls_pending s)\<rparr>)))"

definition ls_fetchPending :: "('o, 'a) ls_table \<Rightarrow> 'o \<times> u64 \<Rightarrow> reversePendingConn option" where
  "ls_fetchPending t k =
     (case t (fst k) of None \<Rightarrow> None | Some s \<Rightarrow> fmlookup (ls_pending s) (snd k))"

definition ls_activateConn :: "'o \<Rightarrow> u64 \<Rightarrow> nat \<Rightarrow> ('o, 'a) ls_table \<Rightarrow> ('o, 'a) ls_table" where
  "ls_activateConn owner connID pf t =
     (case t owner of
        None \<Rightarrow> t
      | Some s \<Rightarrow> t(owner := Some (s\<lparr>ls_pending := fmdrop connID (ls_pending s),
                                ls_active := fmupd connID pf (ls_active s)\<rparr>)))"

definition ls_fetchActive :: "('o, 'a) ls_table \<Rightarrow> 'o \<times> u64 \<Rightarrow> nat option" where
  "ls_fetchActive t k =
     (case t (fst k) of None \<Rightarrow> None | Some s \<Rightarrow> fmlookup (ls_active s) (snd k))"

definition ls_removeActive :: "'o \<Rightarrow> u64 \<Rightarrow> ('o, 'a) ls_table \<Rightarrow> ('o, 'a) ls_table" where
  "ls_removeActive owner connID t =
     (case t owner of
        None \<Rightarrow> t
      | Some s \<Rightarrow> t(owner := Some (s\<lparr>ls_active := fmdrop connID (ls_active s)\<rparr>)))"

text \<open>The entries \<open>close\<close> ranges over, in some order, and closing them.\<close>

definition fm_values :: "(u64, 'v) fmap \<Rightarrow> 'v list" where
  "fm_values m = map (\<lambda>k. the (fmlookup m k)) (sorted_list_of_fset (fmdom m))"

definition ls_close :: "'b lsession_scheme \<Rightarrow> ('a world_scheme) \<Rightarrow> ('a world_scheme)" where
  "ls_close s w =
     foldl (\<lambda>v pc. close_sock (rp_conn pc) v)
       (foldl (\<lambda>v p. pf_close p v) w (fm_values (ls_active s)))
       (fm_values (ls_pending s))"

lemma pf_closes_simps [simp]:
  "w_sent (foldl (\<lambda>v p. pf_close p v) w ps) = w_sent w"
  "w_readers (foldl (\<lambda>v p. pf_close p v) w ps) = w_readers w"
  by (induction ps arbitrary: w) simp_all

lemma close_socks_simps [simp]:
  "world.more (foldl (\<lambda>v pc. close_sock (rp_conn pc) v) w pcs) = world.more w"
  "w_sent (foldl (\<lambda>v pc. close_sock (rp_conn pc) v) w pcs) = w_sent w"
  "w_pfs (foldl (\<lambda>v pc. close_sock (rp_conn pc) v) w pcs) = w_pfs w"
  "w_readers (foldl (\<lambda>v pc. close_sock (rp_conn pc) v) w pcs) = w_readers w"
  by (induction pcs arbitrary: w) simp_all

lemma ls_close_simps [simp]:
  "world.more (ls_close s w) = world.more w"
  "w_sent (ls_close s w) = w_sent w"
  "w_readers (ls_close s w) = w_readers w"
  by (simp_all add: ls_close_def)

lemma set_fm_values: "v \<in> set (fm_values m) \<longleftrightarrow> (\<exists>k. fmlookup m k = Some v)"
proof -
  have "set (sorted_list_of_fset (fmdom m)) = {k. fmlookup m k \<noteq> None}"
    by (auto simp: fmlookup_dom_iff)
  then show ?thesis by (force simp: fm_values_def image_iff)
qed

section \<open>The life of a connection, as an interface\<close>

text \<open>
  A connection of an existing session is first pending, then active, then gone. The laws of the
  two lookups under the three operations and what follows for every order of operations: a
  connection that was activated is never pending again unless it is accepted anew.
\<close>

locale connection_stages =
  fixes exists_owner :: "'s \<Rightarrow> 'o \<Rightarrow> bool"
    and pend :: "'s \<Rightarrow> 'o \<times> u64 \<Rightarrow> 'p option"
    and act :: "'s \<Rightarrow> 'o \<times> u64 \<Rightarrow> 'c option"
    and accept :: "'o \<Rightarrow> u64 \<Rightarrow> 'p \<Rightarrow> 's \<Rightarrow> 's"
    and activate :: "'o \<Rightarrow> u64 \<Rightarrow> 'c \<Rightarrow> 's \<Rightarrow> 's"
    and retire :: "'o \<Rightarrow> u64 \<Rightarrow> 's \<Rightarrow> 's"
  assumes owner_accept: "exists_owner (accept o1 n p s) o2 = exists_owner s o2"
    and owner_activate: "exists_owner (activate o1 n c s) o2 = exists_owner s o2"
    and owner_retire: "exists_owner (retire o1 n s) o2 = exists_owner s o2"
    and pend_accept: "pend (accept o1 n p s) k = (if k = (o1, n) \<and> exists_owner s o1 then Some p else pend s k)"
    and act_accept: "act (accept o1 n p s) k = act s k"
    and pend_activate: "pend (activate o1 n c s) k = (if k = (o1, n) then None else pend s k)"
    and act_activate: "act (activate o1 n c s) k = (if k = (o1, n) \<and> exists_owner s o1 then Some c else act s k)"
    and pend_retire: "pend (retire o1 n s) k = pend s k"
    and act_retire: "act (retire o1 n s) k = (if k = (o1, n) then None else act s k)"
begin

lemma activated_not_pending: "pend (activate o1 n c s) (o1, n) = None"
  by (simp add: pend_activate)

lemma activate_accepted:
  "exists_owner s o1 \<Longrightarrow> act (activate o1 n c (accept o1 n p s)) (o1, n) = Some c"
  by (simp add: act_activate owner_accept)

lemma retired_gone: "act (retire o1 n (activate o1 n c s)) (o1, n) = None"
  "pend (retire o1 n (activate o1 n c s)) (o1, n) = None"
  by (simp_all add: act_retire pend_retire pend_activate)

lemma retire_keeps_pending: "pend s (o1, n) = Some p \<Longrightarrow> pend (retire o1 n s) (o1, n) = Some p"
  by (simp add: pend_retire)

end

interpretation stages: connection_stages
  "\<lambda>t owner. t owner \<noteq> None" ls_fetchPending ls_fetchActive
  "\<lambda>owner n pc. ls_storePending owner n (rp_conn pc) (rp_serverPrivKey pc)" ls_activateConn ls_removeActive
  by unfold_locales
    (auto simp: ls_fetchPending_def ls_fetchActive_def ls_storePending_def ls_activateConn_def
      ls_removeActive_def split: option.splits)

lemma fetchPending_storePending:
  "ls_fetchPending (ls_storePending owner n r priv t) k =
     (if k = (owner, n) \<and> t owner \<noteq> None then Some \<lparr>rp_conn = r, rp_serverPrivKey = priv\<rparr>
      else ls_fetchPending t k)"
  using stages.pend_accept [of owner n "\<lparr>rp_conn = r, rp_serverPrivKey = priv\<rparr>" t k] by simp

lemma fetchActive_storePending [simp]:
  "ls_fetchActive (ls_storePending owner n r priv t) k = ls_fetchActive t k"
  using stages.act_accept [of owner n "\<lparr>rp_conn = r, rp_serverPrivKey = priv\<rparr>" t k] by simp

lemma fetch_drop:
  "ls_fetchPending (t(owner := None)) k = (if fst k = owner then None else ls_fetchPending t k)"
  "ls_fetchActive (t(owner := None)) k = (if fst k = owner then None else ls_fetchActive t k)"
  by (simp_all add: ls_fetchPending_def ls_fetchActive_def)

section \<open>The invariant of a session table\<close>

text \<open>
  Every pending connection is over an allocated network connection that no forwarded connection
  wraps and no other pending entry uses.
\<close>

definition pend_ok :: "('k \<Rightarrow> reversePendingConn option) \<Rightarrow> ('a world_scheme) \<Rightarrow> bool" where
  "pend_ok P w \<longleftrightarrow>
     (\<forall>k pc. P k = Some pc \<longrightarrow> rp_conn pc < w_next_sock w) \<and>
     (\<forall>k pc p d. P k = Some pc \<longrightarrow> w_pfs w p = Some d \<longrightarrow> pf_conn d \<noteq> rp_conn pc) \<and>
     (\<forall>k k' pc pc'. P k = Some pc \<longrightarrow> P k' = Some pc' \<longrightarrow> rp_conn pc = rp_conn pc' \<longrightarrow> k = k')"

lemma pend_okD:
  assumes "pend_ok P w"
  shows "P k = Some pc \<Longrightarrow> rp_conn pc < w_next_sock w"
    and "P k = Some pc \<Longrightarrow> w_pfs w p = Some d \<Longrightarrow> pf_conn d \<noteq> rp_conn pc"
    and "P k = Some pc \<Longrightarrow> P k' = Some pc' \<Longrightarrow> rp_conn pc = rp_conn pc' \<Longrightarrow> k = k'"
  using assms unfolding pend_ok_def by blast+

lemma pend_okI:
  assumes "\<And>k pc. P k = Some pc \<Longrightarrow> rp_conn pc < w_next_sock w"
    and "\<And>k pc p d. P k = Some pc \<Longrightarrow> w_pfs w p = Some d \<Longrightarrow> pf_conn d \<noteq> rp_conn pc"
    and "\<And>k k' pc pc'. P k = Some pc \<Longrightarrow> P k' = Some pc' \<Longrightarrow> rp_conn pc = rp_conn pc' \<Longrightarrow> k = k'"
  shows "pend_ok P w"
  using assms unfolding pend_ok_def by blast

lemma pend_ok_shrink:
  assumes "pend_ok P w" and "\<And>k pc. P' k = Some pc \<Longrightarrow> P k = Some pc"
  shows "pend_ok P' w"
  by (rule pend_okI) (use pend_okD [OF assms(1)] assms(2) in metis)+

lemma pend_ok_cong:
  "w_pfs w' = w_pfs w \<Longrightarrow> w_next_sock w' = w_next_sock w \<Longrightarrow> pend_ok P w' = pend_ok P w"
  by (simp add: pend_ok_def)

lemma pend_ok_close_sock [simp]: "pend_ok P (close_sock r w) = pend_ok P w"
  by (rule pend_ok_cong) simp_all

lemma pend_ok_only_conn:
  assumes "pend_ok P w" and oc: "only_conn p w w'"
  shows "pend_ok P w'"
proof (rule pend_okI)
  have conn: "w_pfs w' q = Some d \<Longrightarrow> \<exists>d0. w_pfs w q = Some d0 \<and> pf_conn d0 = pf_conn d" for q d
    using oc unfolding only_conn_def by (cases "q = p"; cases "w_pfs w q") auto
  show "P k = Some pc \<Longrightarrow> w_pfs w' q = Some d \<Longrightarrow> pf_conn d \<noteq> rp_conn pc" for k pc q d
    using conn [of q d] pend_okD(2) [OF assms(1)] by metis
  show "P k = Some pc \<Longrightarrow> rp_conn pc < w_next_sock w'" for k pc
    using pend_okD(1) [OF assms(1), of k pc] oc by (simp add: only_conn_def)
qed (rule pend_okD(3) [OF assms(1)])

definition lst_refs :: "('o, 'b) ls_table \<Rightarrow> ('a world_scheme) \<Rightarrow> bool" where
  "lst_refs t w \<longleftrightarrow> conns_refs (ls_fetchActive t) w \<and> pend_ok (ls_fetchPending t) w"

lemma lst_refs_shrink:
  assumes "lst_refs t w" and "\<And>k p. ls_fetchActive t' k = Some p \<Longrightarrow> ls_fetchActive t k = Some p"
    and "\<And>k pc. ls_fetchPending t' k = Some pc \<Longrightarrow> ls_fetchPending t k = Some pc"
  shows "lst_refs t' w"
  using assms conns_refs_shrink pend_ok_shrink unfolding lst_refs_def by metis

lemma lst_refs_cong:
  "w_pfs w' = w_pfs w \<Longrightarrow> w_socks w' = w_socks w \<Longrightarrow> w_next_pf w' = w_next_pf w \<Longrightarrow>
   w_next_sock w' = w_next_sock w \<Longrightarrow> lst_refs t w' = lst_refs t w"
  by (simp add: lst_refs_def conns_refs_cong [of w' w] pend_ok_cong [of w' w])

lemma lst_refs_only_conn: "lst_refs t w \<Longrightarrow> only_conn p w w' \<Longrightarrow> lst_refs t w'"
  unfolding lst_refs_def using conns_refs_only_conn pend_ok_only_conn by blast

lemma lst_refs_close_sock [simp]: "lst_refs t (close_sock r w) = lst_refs t w"
  by (simp add: lst_refs_def)

lemma lst_refs_send: "lst_refs t w \<Longrightarrow> lst_refs t (snd (send_progress oc caller args w))"
  by (rule lst_refs_only_conn) auto

lemma lst_refs_receive: "lst_refs t w \<Longrightarrow> lst_refs t (receive_data cr iv p w)"
  using lst_refs_only_conn receive_data_only_conn by blast

lemma lst_refs_pf_close: "lst_refs t w \<Longrightarrow> lst_refs t (pf_close p w)"
  by (rule lst_refs_only_conn) auto

lemma lst_refs_pf_closes: "lst_refs t w \<Longrightarrow> lst_refs t (foldl (\<lambda>v p. pf_close p v) w ps)"
  by (induction ps arbitrary: w) (simp_all add: lst_refs_pf_close)

lemma lst_refs_close_socks: "lst_refs t w \<Longrightarrow> lst_refs t (foldl (\<lambda>v pc. close_sock (rp_conn pc) v) w pcs)"
  by (induction pcs arbitrary: w) simp_all

lemma lst_refs_close: "lst_refs t w \<Longrightarrow> lst_refs t (ls_close s w)"
  by (simp add: ls_close_def lst_refs_pf_closes lst_refs_close_socks)

lemma pend_ok_alloc_sock:
  assumes "pend_ok P w" and a: "alloc_sock k w = (r, w')"
  shows "pend_ok P w'"
proof (rule pend_okI)
  show "P j = Some pc \<Longrightarrow> rp_conn pc < w_next_sock w'" for j pc
    using pend_okD(1) [OF assms(1), of j pc] alloc_sock_simps(7) [OF a] by simp
  show "P j = Some pc \<Longrightarrow> w_pfs w' p = Some d \<Longrightarrow> pf_conn d \<noteq> rp_conn pc" for j pc p d
    using pend_okD(2) [OF assms(1), of j pc p d] alloc_sock_simps(3) [OF a] by simp
qed (rule pend_okD(3) [OF assms(1)])

lemma lst_refs_alloc_sock: "lst_refs t w \<Longrightarrow> alloc_sock k w = (r, w') \<Longrightarrow> lst_refs t w'"
  unfolding lst_refs_def using pend_ok_alloc_sock conns_refs_alloc_sock by blast

text \<open>An accepted connection becomes pending.\<close>

lemma lst_refs_accept:
  assumes "lst_refs t w" and a: "alloc_sock k w = (r, w')"
  shows "lst_refs (ls_storePending owner connID r priv t) w'"
proof -
  note a' = alloc_sock_simps [OF a]
  have refs: "conns_refs (ls_fetchActive t) w'" and pend: "pend_ok (ls_fetchPending t) w"
    and wf: "world_wf w"
    using assms(1) conns_refs_alloc_sock [OF _ a] conns_refsD(1) unfolding lst_refs_def by blast+
  have fresh: "ls_fetchPending t k' = Some pc \<Longrightarrow> rp_conn pc \<noteq> r" for k' pc
    using pend_okD(1) [OF pend, of k' pc] a' by auto
  have cases: "k = (owner, connID) \<and> rp_conn pc = r \<or> ls_fetchPending t k = Some pc"
    if "ls_fetchPending (ls_storePending owner connID r priv t) k = Some pc" for k pc
    using that by (auto simp: fetchPending_storePending split: if_splits)
  have "pend_ok (ls_fetchPending (ls_storePending owner connID r priv t)) w'"
  proof (rule pend_okI)
    fix k pc assume k: "ls_fetchPending (ls_storePending owner connID r priv t) k = Some pc"
    show "rp_conn pc < w_next_sock w'"
      using cases [OF k] pend_okD(1) [OF pend, of k pc] a' by auto
    show "pf_conn d \<noteq> rp_conn pc" if "w_pfs w' p = Some d" for p d
      using cases [OF k] that pend_okD(2) [OF pend, of k pc p d] world_wf_conn [OF wf, of p d] a' by auto
    fix k' pc' assume k': "ls_fetchPending (ls_storePending owner connID r priv t) k' = Some pc'"
      and eq: "rp_conn pc = rp_conn pc'"
    from cases [OF k] cases [OF k'] show "k = k'"
    proof (elim disjE)
      assume "ls_fetchPending t k = Some pc" "ls_fetchPending t k' = Some pc'"
      then show ?thesis using eq by (rule pend_okD(3) [OF pend])
    qed (use eq fresh in fastforce)+
  qed
  moreover have "ls_fetchActive (ls_storePending owner connID r priv t) = ls_fetchActive t"
    by (rule ext) simp
  ultimately show ?thesis using refs by (simp add: lst_refs_def)
qed

text \<open>A pending connection becomes a forwarded one.\<close>

lemma lst_refs_activate:
  assumes "lst_refs t w" and pc: "ls_fetchPending t (owner, connID) = Some pc"
    and a: "alloc_pf (newPortForwardConn (rp_conn pc) sk rk) w = (p, w')"
  shows "lst_refs (ls_activateConn owner connID p t) w'"
proof -
  note a' = alloc_pf_simps [OF a]
  have refs: "conns_refs (ls_fetchActive t) w" and pend: "pend_ok (ls_fetchPending t) w"
    using assms(1) unfolding lst_refs_def by blast+
  have "conns_refs (ls_fetchActive (ls_activateConn owner connID p t)) w'"
    by (rule conns_refs_alloc_pf [OF refs a, where key = "(owner, connID)"])
      (use pend_okD(1,2) [OF pend pc] in \<open>auto simp: newPortForwardConn_def stages.act_activate split: if_splits\<close>)
  moreover have "pend_ok (ls_fetchPending (ls_activateConn owner connID p t)) w'"
  proof (rule pend_okI)
    fix k q assume "ls_fetchPending (ls_activateConn owner connID p t) k = Some q"
    then have k: "k \<noteq> (owner, connID)" "ls_fetchPending t k = Some q"
      by (simp_all add: stages.pend_activate split: if_splits)
    show "rp_conn q < w_next_sock w'" using pend_okD(1) [OF pend k(2)] a' by simp
    show "pf_conn d \<noteq> rp_conn q" if "w_pfs w' j = Some d" for j d
      using that pend_okD(2) [OF pend k(2), of j d] pend_okD(3) [OF pend k(2) pc] k(1) a'
      by (auto simp: newPortForwardConn_def split: if_splits)
    show "k = k'" if "ls_fetchPending (ls_activateConn owner connID p t) k' = Some q'" "rp_conn q = rp_conn q'" for k' q'
      using that pend_okD(3) [OF pend k(2), of k' q'] by (simp add: stages.pend_activate split: if_splits)
  qed
  ultimately show ?thesis by (simp add: lst_refs_def)
qed


lemma conns_inv_close_socks:
  "conns_inv a tab w \<Longrightarrow> conns_inv a tab (foldl (\<lambda>v pc. close_sock (rp_conn pc) v) w pcs)"
  by (induction pcs arbitrary: w) simp_all

lemma conns_inv_ls_close: "conns_inv a tab w \<Longrightarrow> conns_inv a tab (ls_close s w)"
  by (simp add: ls_close_def conns_inv_closes conns_inv_close_socks)

section \<open>Closing a session\<close>

definition closed_sock :: "('a world_scheme) \<Rightarrow> nat \<Rightarrow> bool" where
  "closed_sock w r \<longleftrightarrow> (\<exists>k. w_socks w r = Some k \<and> \<not> sk_open k)"

lemma close_socks_closed:
  "w_socks w r \<noteq> None \<Longrightarrow> r \<in> rp_conn ` set pcs \<or> closed_sock w r \<Longrightarrow>
   closed_sock (foldl (\<lambda>v pc. close_sock (rp_conn pc) v) w pcs) r"
proof (induction pcs arbitrary: w)
  case (Cons pc pcs)
  have "w_socks (close_sock (rp_conn pc) w) r \<noteq> None" using Cons.prems(1) by (auto simp: close_sock_socks)
  moreover have "r \<in> rp_conn ` set pcs \<or> closed_sock (close_sock (rp_conn pc) w) r"
    using Cons.prems by (auto simp: closed_sock_def close_sock_socks sock_close_def)
  ultimately show ?case using Cons.IH by simp
qed simp

lemma close_socks_view:
  "(\<And>d pc. w_pfs w q = Some d \<Longrightarrow> pc \<in> set pcs \<Longrightarrow> pf_conn d \<noteq> rp_conn pc) \<Longrightarrow>
   conn_view (foldl (\<lambda>v pc. close_sock (rp_conn pc) v) w pcs) q = conn_view w q"
proof (induction pcs arbitrary: w)
  case (Cons pc pcs)
  have "conn_view (close_sock (rp_conn pc) w) q = conn_view w q"
    by (rule conn_view_close_sock) (use Cons.prems in auto)
  moreover have "conn_view (foldl (\<lambda>v pc. close_sock (rp_conn pc) v) (close_sock (rp_conn pc) w) pcs) q =
      conn_view (close_sock (rp_conn pc) w) q"
    by (rule Cons.IH) (use Cons.prems in auto)
  ultimately show ?case by simp
qed simp

lemma closed_conn_close_sock [simp]: "closed_conn (close_sock r w) p = closed_conn w p"
  by (simp add: closed_conn_def)

lemma closed_conn_close_socks [simp]:
  "closed_conn (foldl (\<lambda>v pc. close_sock (rp_conn pc) v) w pcs) p = closed_conn w p"
  by (simp add: closed_conn_def)

lemma pf_closes_socks: "w_socks w r \<noteq> None \<Longrightarrow> w_socks (foldl (\<lambda>v p. pf_close p v) w ps) r \<noteq> None"
proof (induction ps arbitrary: w)
  case (Cons p ps)
  have "w_socks (pf_close p w) r \<noteq> None"
    using only_conn_pf_close [of p w] Cons.prems by (simp add: only_conn_def)
  with Cons.IH show ?case by simp
qed simp

text \<open>
  Closing a session of the table closes all that belongs to it and touches nothing that belongs
  to another session.
\<close>

lemma ls_close_closes:
  assumes refs: "lst_refs t w" and s: "t owner = Some s"
  shows "ls_fetchActive t (owner, n) = Some p \<Longrightarrow> closed_conn (ls_close s w) p"
    and "ls_fetchPending t (owner, n) = Some pc \<Longrightarrow> closed_sock (ls_close s w) (rp_conn pc)"
proof -
  have conns: "conns_refs (ls_fetchActive t) w" and pend: "pend_ok (ls_fetchPending t) w" and wf: "world_wf w"
    using refs conns_refsD(1) unfolding lst_refs_def by blast+
  show "closed_conn (ls_close s w) p" if a: "ls_fetchActive t (owner, n) = Some p"
  proof -
    have "p \<in> set (fm_values (ls_active s))" using a s by (auto simp: ls_fetchActive_def set_fm_values)
    moreover have "w_pfs w p \<noteq> None" using conns_refsD(2) [OF conns a] world_wf_pf [OF wf] by simp
    ultimately show ?thesis by (simp add: ls_close_def closes_closed)
  qed
  show "closed_sock (ls_close s w) (rp_conn pc)" if a: "ls_fetchPending t (owner, n) = Some pc"
  proof -
    have "pc \<in> set (fm_values (ls_pending s))" using a s by (auto simp: ls_fetchPending_def set_fm_values)
    moreover have "w_socks w (rp_conn pc) \<noteq> None" using pend_okD(1) [OF pend a] world_wf_sock [OF wf] by simp
    ultimately show ?thesis
      unfolding ls_close_def using close_socks_closed pf_closes_socks by blast
  qed
qed

lemma ls_close_others:
  assumes refs: "lst_refs t w" and s: "t owner = Some s" and k: "ls_fetchActive t k = Some q" and "fst k \<noteq> owner"
  shows "conn_view (ls_close s w) q = conn_view w q"
proof -
  have conns: "conns_refs (ls_fetchActive t) w" and pend: "pend_ok (ls_fetchPending t) w"
    using refs unfolding lst_refs_def by blast+
  have "q \<notin> set (fm_values (ls_active s))"
  proof
    assume "q \<in> set (fm_values (ls_active s))"
    then obtain n where "ls_fetchActive t (owner, n) = Some q"
      using s by (auto simp: ls_fetchActive_def set_fm_values)
    with conns_refsD(3) [OF conns k] assms(4) show False by fastforce
  qed
  then have v: "conn_view (foldl (\<lambda>v p. pf_close p v) w (fm_values (ls_active s))) q = conn_view w q"
    by (rule closes_view [OF conns_refsD(1) [OF conns]])
  have pend': "pend_ok (ls_fetchPending t) (foldl (\<lambda>v p. pf_close p v) w (fm_values (ls_active s)))"
    using lst_refs_pf_closes [OF refs] unfolding lst_refs_def by blast
  have "conn_view (ls_close s w) q = conn_view (foldl (\<lambda>v p. pf_close p v) w (fm_values (ls_active s))) q"
    unfolding ls_close_def
  proof (rule close_socks_view)
    fix d pc assume d: "w_pfs (foldl (\<lambda>v p. pf_close p v) w (fm_values (ls_active s))) q = Some d"
      and "pc \<in> set (fm_values (ls_pending s))"
    then obtain n where "ls_fetchPending t (owner, n) = Some pc"
      using s by (auto simp: ls_fetchPending_def set_fm_values)
    from pend_okD(2) [OF pend' this d] show "pf_conn d \<noteq> rp_conn pc" .
  qed
  with v show ?thesis by simp
qed

end
