(* ===== verification/PortReverse.thy ===== *)
theory PortReverse
  imports Listeners
begin

text \<open>
  \<open>portreverse.go\<close>, the device: a caller's session with its listener, the accepted connections
  that wait for the caller's key (\<open>pending\<close>) and the forwarded ones (\<open>active\<close>), the accept
  goroutine and the handler of the reverse call.
\<close>

section \<open>Sessions\<close>

text \<open>
  \<open>portReverseCallerSession\<close> is the shared session record. A listener with its accept goroutine:
  whether it is open, whether the goroutine runs, for whom it accepts, and the goroutine's own
  connection counter.
\<close>

record rev_listener =
  rl_open :: bool
  rl_running :: bool
  rl_caller :: u64
  rl_counter :: u64

record rev = world +
  rev_sessions :: "(u64, unit) ls_table"
  rev_lns :: "nat \<Rightarrow> rev_listener option"
  rev_next_ln :: nat

definition newPortReverseCallerSession :: "nat \<Rightarrow> lsession" where
  "newPortReverseCallerSession ln = \<lparr>ls_ln = ln, ls_pending = fmempty, ls_active = fmempty\<rparr>"

definition close_ln :: "nat \<Rightarrow> ('a rev_scheme) \<Rightarrow> ('a rev_scheme)" where
  "close_ln l w = w\<lparr>rev_lns := (rev_lns w)(l := map_option (\<lambda>x. x\<lparr>rl_open := False\<rparr>) (rev_lns w l))\<rparr>"

definition stop_acceptor :: "nat \<Rightarrow> ('a rev_scheme) \<Rightarrow> ('a rev_scheme)" where
  "stop_acceptor l w = w\<lparr>rev_lns := (rev_lns w)(l := map_option (\<lambda>x. x\<lparr>rl_running := False\<rparr>) (rev_lns w l))\<rparr>"

definition rev_store :: "u64 \<Rightarrow> nat \<Rightarrow> ('a rev_scheme) \<Rightarrow> ('a rev_scheme)" where
  "rev_store callerID ln w =
     w\<lparr>rev_sessions := (rev_sessions w)(callerID := Some (newPortReverseCallerSession ln))\<rparr>"

definition rev_storePending ::
    "u64 \<Rightarrow> u64 \<Rightarrow> nat \<Rightarrow> bytes \<Rightarrow> ('a rev_scheme) \<Rightarrow> ('a rev_scheme)" where
  "rev_storePending callerID connID conn serverPrivKey w =
     w\<lparr>rev_sessions := ls_storePending callerID connID conn serverPrivKey (rev_sessions w)\<rparr>"

definition rev_fetchPending :: "('a rev_scheme) \<Rightarrow> u64 \<Rightarrow> u64 \<Rightarrow> reversePendingConn option" where
  "rev_fetchPending w callerID connID = ls_fetchPending (rev_sessions w) (callerID, connID)"

definition rev_activateConn :: "u64 \<Rightarrow> u64 \<Rightarrow> nat \<Rightarrow> ('a rev_scheme) \<Rightarrow> ('a rev_scheme)" where
  "rev_activateConn callerID connID pf w =
     w\<lparr>rev_sessions := ls_activateConn callerID connID pf (rev_sessions w)\<rparr>"

definition rev_fetchActive :: "('a rev_scheme) \<Rightarrow> u64 \<Rightarrow> u64 \<Rightarrow> nat option" where
  "rev_fetchActive w callerID connID = ls_fetchActive (rev_sessions w) (callerID, connID)"

definition rev_removeActive :: "u64 \<Rightarrow> u64 \<Rightarrow> ('a rev_scheme) \<Rightarrow> ('a rev_scheme)" where
  "rev_removeActive callerID connID w =
     w\<lparr>rev_sessions := ls_removeActive callerID connID (rev_sessions w)\<rparr>"

text \<open>\<open>stop\<close>: forget the session, then close its listener and all its connections.\<close>

definition rev_stop :: "u64 \<Rightarrow> ('a rev_scheme) \<Rightarrow> ('a rev_scheme)" where
  "rev_stop callerID w =
     (case rev_sessions w callerID of
        None \<Rightarrow> w
      | Some s \<Rightarrow>
          ls_close s (close_ln (ls_ln s) (w\<lparr>rev_sessions := (rev_sessions w)(callerID := None)\<rparr>)))"

section \<open>The accept goroutine\<close>

text \<open>
  One round: \<open>Accept\<close> fails once the listener is closed and the goroutine returns; otherwise
  the accepted connection gets the next id and a key pair, waits as pending and is announced.
\<close>

definition rev_accept_new ::
    "crypto \<Rightarrow> (wval list \<Rightarrow> go_error option) \<Rightarrow> bytes result \<Rightarrow> nat \<Rightarrow> u64 \<Rightarrow> u64 \<Rightarrow> nat \<Rightarrow>
     ('a rev_scheme) \<Rightarrow> ('a rev_scheme)" where
  "rev_accept_new cr outcome rnd l callerID connID conn w =
     (case CreateX25519KeyPair cr rnd of
        Inl _ \<Rightarrow> close_sock conn w
      | Inr (serverPubKey, serverPrivKey) \<Rightarrow>
          (case send_progress outcome callerID [VStr msgConnect, VUInt connID, VBytes serverPubKey]
                  (rev_storePending callerID connID conn serverPrivKey w) of
             (None, w') \<Rightarrow> w'
           | (Some _, w') \<Rightarrow>
               stop_acceptor l (rev_stop callerID (close_sock conn w'))))"

definition rev_accept ::
    "crypto \<Rightarrow> (wval list \<Rightarrow> go_error option) \<Rightarrow> bytes result \<Rightarrow> nat \<Rightarrow> sock result \<Rightarrow>
     ('a rev_scheme) \<Rightarrow> ('a rev_scheme)" where
  "rev_accept cr outcome rnd l accepted w =
     (case rev_lns w l of
        None \<Rightarrow> w
      | Some x \<Rightarrow>
          if \<not> rl_running x then w
          else if \<not> rl_open x then stop_acceptor l w
          else (case accepted of
                  Inl _ \<Rightarrow> stop_acceptor l w
                | Inr k \<Rightarrow>
                    (case alloc_sock k (w\<lparr>rev_lns := (rev_lns w)(l := Some (x\<lparr>rl_counter := rl_counter x + 1\<rparr>))\<rparr>) of
                       (conn, w1) \<Rightarrow>
                         rev_accept_new cr outcome rnd l (rl_caller x) (rl_counter x + 1) conn w1)))"

section \<open>The handler\<close>

text \<open>\<open>listen\<close> is the outcome of \<open>net.Listen\<close> on the requested port.\<close>

definition rev_listen ::
    "(wval list \<Rightarrow> go_error option) \<Rightarrow> go_error option \<Rightarrow> invocation \<Rightarrow> ('a rev_scheme) \<Rightarrow> ('a rev_scheme)" where
  "rev_listen outcome listen iv w =
     (case inv_ArgString iv 1 of
        Inl _ \<Rightarrow> w
      | Inr remotePort \<Rightarrow>
          (case listen of
             Some _ \<Rightarrow> snd (send_progress outcome (inv_Caller iv) [VStr msgClose, VUInt 0] w)
           | None \<Rightarrow>
               (let l = rev_next_ln w
                in rev_store (inv_Caller iv) l (w\<lparr>rev_next_ln := Suc l,
                     rev_lns := (rev_lns w)(l := Some \<lparr>rl_open = True, rl_running = True,
                       rl_caller = inv_Caller iv, rl_counter = 0\<rparr>)\<rparr>))))"

definition rev_key :: "crypto \<Rightarrow> invocation \<Rightarrow> ('a rev_scheme) \<Rightarrow> ('a rev_scheme)" where
  "rev_key cr iv w =
     (case inv_ArgUInt64 iv 1 of
        Inl _ \<Rightarrow> w
      | Inr connID \<Rightarrow>
     (case inv_ArgBytes iv 2 of
        Inl _ \<Rightarrow> w
      | Inr clientPubKey \<Rightarrow>
     (case rev_fetchPending w (inv_Caller iv) connID of
        None \<Rightarrow> w
      | Some pc \<Rightarrow>
     (case derivePortForwardKeys cr (rp_serverPrivKey pc) clientPubKey of
        Inl _ \<Rightarrow> close_sock (rp_conn pc) w
      | Inr (sendKey, receiveKey) \<Rightarrow>
          (case alloc_pf (newPortForwardConn (rp_conn pc) sendKey receiveKey) w of
             (p, w1) \<Rightarrow>
               start_reader p (inv_Caller iv) connID (rev_activateConn (inv_Caller iv) connID p w1))))))"

definition rev_data :: "crypto \<Rightarrow> invocation \<Rightarrow> ('a rev_scheme) \<Rightarrow> ('a rev_scheme)" where
  "rev_data cr iv w =
     (case inv_ArgUInt64 iv 1 of
        Inl _ \<Rightarrow> w
      | Inr connID \<Rightarrow>
     (case rev_fetchActive w (inv_Caller iv) connID of
        None \<Rightarrow> w
      | Some p \<Rightarrow> receive_data cr iv p w))"

definition rev_close :: "invocation \<Rightarrow> ('a rev_scheme) \<Rightarrow> ('a rev_scheme)" where
  "rev_close iv w =
     (case inv_ArgUInt64 iv 1 of
        Inl _ \<Rightarrow> w
      | Inr connID \<Rightarrow>
          rev_removeActive (inv_Caller iv) connID
            (case rev_fetchActive w (inv_Caller iv) connID of None \<Rightarrow> w | Some p \<Rightarrow> pf_close p w))"

definition handlePortReverse ::
    "crypto \<Rightarrow> (wval list \<Rightarrow> go_error option) \<Rightarrow> go_error option \<Rightarrow> invocation \<Rightarrow>
     ('a rev_scheme) \<Rightarrow> ('a rev_scheme) \<times> inv_result" where
  "handlePortReverse cr outcome listen iv w =
     (if \<not> inv_Progress iv then (rev_stop (inv_Caller iv) w, InvocationResult [])
      else case inv_ArgString iv 0 of
        Inl _ \<Rightarrow> (w, no_result)
      | Inr msgType \<Rightarrow>
          (if msgType = msgConnect then (rev_listen outcome listen iv w, no_result)
           else if msgType = msgKeyExchange then (rev_key cr iv w, no_result)
           else if msgType = msgData then (rev_data cr iv w, no_result)
           else if msgType = msgClose then (rev_close iv w, no_result)
           else (w, no_result)))"

section \<open>Steps of the device and their invariant\<close>

inductive rev_step :: "crypto \<Rightarrow> rev \<Rightarrow> rev \<Rightarrow> bool" for cr :: crypto where
  rev_handles: "rev_step cr w (fst (handlePortReverse cr outcome listen iv w))"
| rev_accepts: "rev_step cr w (rev_accept cr outcome rnd l accepted w)"
| rev_reads: "(p, caller, connID) \<in> set (w_readers w) \<Longrightarrow>
     rev_step cr w (reader_step cr outcome caller connID p rnd chunk rerr w)"
| rev_leaves: "rev_step cr w (rev_stop caller w)"

definition rev_init :: rev where
  "rev_init = \<lparr>w_socks = (\<lambda>_. None), w_next_sock = 0, w_pfs = (\<lambda>_. None), w_next_pf = 0,
     w_readers = [], w_sent = [], rev_sessions = (\<lambda>_. None), rev_lns = (\<lambda>_. None), rev_next_ln = 0\<rparr>"

inductive rev_reachable :: "crypto \<Rightarrow> rev \<Rightarrow> bool" for cr :: crypto where
  rev_start: "rev_reachable cr rev_init"
| rev_next: "rev_reachable cr w \<Longrightarrow> rev_step cr w w' \<Longrightarrow> rev_reachable cr w'"

text \<open>
  The references are in order, every pending connection has been announced to its caller, and
  the messages follow the protocol.
\<close>

definition rev_inv :: "('a rev_scheme) \<Rightarrow> bool" where
  "rev_inv w \<longleftrightarrow>
     lst_refs (rev_sessions w) w \<and> conns_inv msgConnect (ls_fetchActive (rev_sessions w)) w \<and>
     (\<forall>k pc. ls_fetchPending (rev_sessions w) k = Some pc \<longrightarrow> announced msgConnect (w_sent w) (fst k) (snd k))"

lemma rev_fields_more:
  assumes "world.more w' = world.more w"
  shows "rev_sessions w' = rev_sessions w" "rev_lns w' = rev_lns w" "rev_next_ln w' = rev_next_ln w"
  using assms by (cases w; cases w'; simp)+

lemma rev_sessions_simps [simp]:
  "rev_sessions (pf_close p w) = rev_sessions w"
  "rev_sessions (close_sock r w) = rev_sessions w"
  "rev_sessions (receive_data cr iv p w) = rev_sessions w"
  "rev_sessions (snd (send_progress oc caller args w)) = rev_sessions w"
  "rev_sessions (reader_step cr oc caller connID p rnd chunk rerr w) = rev_sessions w"
  "rev_sessions (ls_close s w) = rev_sessions w"
  "rev_sessions (start_reader p caller conn w) = rev_sessions w"
  "rev_sessions (close_ln l w) = rev_sessions w"
  "rev_sessions (stop_acceptor l w) = rev_sessions w"
  by (rule rev_fields_more(1), simp)+ (simp_all add: start_reader_def close_ln_def stop_acceptor_def)

lemma rev_world_cong:
  "lst_refs t (w\<lparr>rev_sessions := m\<rparr>) = lst_refs t w" "conns_inv a tab (w\<lparr>rev_sessions := m\<rparr>) = conns_inv a tab w"
  "lst_refs t (w\<lparr>rev_lns := ls\<rparr>) = lst_refs t w" "conns_inv a tab (w\<lparr>rev_lns := ls\<rparr>) = conns_inv a tab w"
  "lst_refs t (w\<lparr>rev_next_ln := n\<rparr>) = lst_refs t w" "conns_inv a tab (w\<lparr>rev_next_ln := n\<rparr>) = conns_inv a tab w"
  by (rule lst_refs_cong conns_inv_cong; simp)+

lemma rev_inv_lns [simp]: "rev_inv (close_ln l w) = rev_inv w" "rev_inv (stop_acceptor l w) = rev_inv w"
  by (simp_all add: rev_inv_def close_ln_def stop_acceptor_def rev_world_cong)

lemma rev_inv_next_ln [simp]: "rev_inv (w\<lparr>rev_next_ln := n, rev_lns := ls\<rparr>) = rev_inv w"
  by (simp add: rev_inv_def rev_world_cong)

lemma rev_inv_shrink:
  assumes inv: "rev_inv w" and "lst_refs (rev_sessions w) v" and "conns_inv msgConnect (ls_fetchActive (rev_sessions w)) v"
    and "set (w_sent w) \<subseteq> set (w_sent v)"
    and act: "\<And>k p. ls_fetchActive m k = Some p \<Longrightarrow> ls_fetchActive (rev_sessions w) k = Some p"
    and pend: "\<And>k pc. ls_fetchPending m k = Some pc \<Longrightarrow> ls_fetchPending (rev_sessions w) k = Some pc"
  shows "rev_inv (v\<lparr>rev_sessions := m\<rparr>)"
proof -
  have "lst_refs m v" using assms(2) act pend by (rule lst_refs_shrink)
  moreover have "conns_inv msgConnect (ls_fetchActive m) v" using assms(3) act by (rule conns_inv_shrink)
  moreover have "announced msgConnect (w_sent v) (fst k) (snd k)" if "ls_fetchPending m k = Some pc" for k pc
    using inv pend [OF that] assms(4) unfolding rev_inv_def announced_def by blast
  ultimately show ?thesis by (simp add: rev_inv_def rev_world_cong)
qed

lemma rev_inv_self: "rev_inv w \<Longrightarrow> lst_refs (rev_sessions w) w \<and> conns_inv msgConnect (ls_fetchActive (rev_sessions w)) w"
  by (simp add: rev_inv_def)

lemma rev_inv_table:
  assumes "rev_inv w"
    and "\<And>k p. ls_fetchActive m k = Some p \<Longrightarrow> ls_fetchActive (rev_sessions w) k = Some p"
    and "\<And>k pc. ls_fetchPending m k = Some pc \<Longrightarrow> ls_fetchPending (rev_sessions w) k = Some pc"
  shows "rev_inv (w\<lparr>rev_sessions := m\<rparr>)"
  by (rule rev_inv_shrink [OF assms(1)]) (use rev_inv_self [OF assms(1)] assms(2,3) in auto)

lemma rev_inv_ls_close: "rev_inv w \<Longrightarrow> rev_inv (ls_close s w)"
  by (simp add: rev_inv_def lst_refs_close conns_inv_ls_close)

lemma rev_inv_stop: "rev_inv w \<Longrightarrow> rev_inv (rev_stop caller w)"
  unfolding rev_stop_def
  by (auto split: option.split intro!: rev_inv_ls_close rev_inv_table simp: fetch_drop split: if_splits)

lemma rev_inv_only_conn:
  assumes "rev_inv w" and "only_conn p w w'" and "w_sent w' = w_sent w"
  shows "rev_inv w'"
proof -
  have "rev_sessions w' = rev_sessions w"
    using assms(2) by (intro rev_fields_more(1)) (simp add: only_conn_def)
  with assms lst_refs_only_conn [OF _ assms(2)] conns_inv_same_sent [OF _ assms(2,3)]
  show ?thesis by (auto simp: rev_inv_def)
qed

lemma rev_inv_close: "rev_inv w \<Longrightarrow> rev_inv (rev_close iv w)"
  unfolding rev_close_def rev_removeActive_def
  by (auto split: sum.split option.split intro!: rev_inv_table rev_inv_only_conn [OF _ only_conn_pf_close]
      simp: stages.act_retire stages.pend_retire split: if_splits)

lemma rev_inv_data: "rev_inv w \<Longrightarrow> rev_inv (rev_data cr iv w)"
  using rev_inv_only_conn [OF _ conjunct1 [OF receive_data_only_conn] conjunct2 [OF receive_data_only_conn], of w cr iv]
  by (simp add: rev_data_def split: sum.split option.split)

lemma fetch_new_session:
  "ls_fetchActive (t(owner := Some (newPortReverseCallerSession l))) k =
     (if fst k = owner then None else ls_fetchActive t k)"
  "ls_fetchPending (t(owner := Some (newPortReverseCallerSession l))) k =
     (if fst k = owner then None else ls_fetchPending t k)"
  by (simp_all add: ls_fetchActive_def ls_fetchPending_def newPortReverseCallerSession_def)

lemma rev_inv_store: "rev_inv w \<Longrightarrow> rev_inv (rev_store caller l w)"
  unfolding rev_store_def
  by (rule rev_inv_table) (auto simp: fetch_new_session split: if_splits)

lemma rev_inv_send:
  assumes "rev_inv w" and "\<And>seq enc n. args \<noteq> [VStr msgData, VUInt n, VUInt seq, VBytes enc]"
  shows "rev_inv (snd (send_progress oc caller args w))"
proof -
  have "set (w_sent w) \<subseteq> set (w_sent (snd (send_progress oc caller args w)))"
    by (auto simp: send_progress_def split: option.split)
  then have "announced msgConnect (w_sent (snd (send_progress oc caller args w))) c n"
    if "announced msgConnect (w_sent w) c n" for c n
    using that unfolding announced_def by blast
  moreover have "conns_inv msgConnect (ls_fetchActive (rev_sessions w)) (snd (send_progress oc caller args w))"
    by (rule conns_inv_send) (use assms in \<open>auto simp: rev_inv_def\<close>)
  ultimately show ?thesis
    using assms(1) by (simp add: rev_inv_def lst_refs_send)
qed

lemma rev_inv_listen: "rev_inv w \<Longrightarrow> rev_inv (rev_listen oc listen iv w)"
  unfolding rev_listen_def Let_def
  by (auto split: sum.split option.split intro!: rev_inv_send rev_inv_store)

lemma rev_inv_key: "rev_inv w \<Longrightarrow> rev_inv (rev_key cr iv w)"
proof -
  assume inv: "rev_inv w"
  let ?caller = "inv_Caller iv"
  have main: "rev_inv (start_reader p ?caller connID (rev_activateConn ?caller connID p w1))"
    if a: "alloc_pf (newPortForwardConn (rp_conn pc) sk rk) w = (p, w1)"
      and pc: "rev_fetchPending w ?caller connID = Some pc" for pc sk rk p w1 connID
  proof -
    let ?t = "rev_sessions w" and ?t' = "ls_activateConn ?caller connID p (rev_sessions w)"
    note pc' = pc [unfolded rev_fetchPending_def]
    have t: "rev_sessions w1 = ?t" using alloc_pf_simps(8) [OF a] by (rule rev_fields_more)
    have refs: "lst_refs ?t w" and conns: "conns_inv msgConnect (ls_fetchActive ?t) w"
      and ann: "announced msgConnect (w_sent w) ?caller connID"
      using inv pc' unfolding rev_inv_def by force+
    have "lst_refs ?t' w1" using refs pc' a by (rule lst_refs_activate)
    moreover have "conns_inv msgConnect (ls_fetchActive ?t') w1"
      by (rule conns_inv_alloc_pf [OF conns a, where key = "(?caller, connID)"])
        (use pend_okD(1,2) [OF refs [unfolded lst_refs_def, THEN conjunct2], of "(?caller, connID)" pc] pc'
          in \<open>auto simp: newPortForwardConn_def stages.act_activate split: if_splits\<close>)
    moreover have "ls_fetchPending ?t' k = Some q \<Longrightarrow> announced msgConnect (w_sent w1) (fst k) (snd k)" for k q
      using inv alloc_pf_simps(4) [OF a] unfolding rev_inv_def by (auto simp: stages.pend_activate split: if_splits)
    ultimately have "rev_inv (rev_activateConn ?caller connID p w1)"
      by (simp add: rev_inv_def rev_activateConn_def rev_world_cong t)
    then show ?thesis
      using ann alloc_pf_simps(4) [OF a] conns_refs_start_reader
      by (simp add: rev_inv_def conns_inv_start_reader rev_activateConn_def)
        (simp add: lst_refs_def start_reader_def pend_ok_def conns_refs_def world_wf_def)
  qed
  show ?thesis
    unfolding rev_key_def using inv main
    by (auto simp: rev_inv_def split: sum.split option.split prod.split)
qed

text \<open>
  The accepted connection: \<open>w1\<close> is the state with its socket allocated, \<open>w2\<close> with the entry.
\<close>

lemma rev_inv_alloc_sock:
  assumes inv: "rev_inv w" and a: "alloc_sock k w = (r, w1)"
  shows "rev_inv w1" and "rev_sessions w1 = rev_sessions w"
proof -
  show t: "rev_sessions w1 = rev_sessions w" using alloc_sock_simps(8) [OF a] by (rule rev_fields_more)
  have "lst_refs (rev_sessions w) w1" "conns_inv msgConnect (ls_fetchActive (rev_sessions w)) w1"
    using inv lst_refs_alloc_sock [OF _ a] conns_inv_alloc_sock [OF _ a] unfolding rev_inv_def by blast+
  then show "rev_inv w1"
    using inv alloc_sock_simps(4) [OF a] unfolding rev_inv_def t by simp
qed

lemma rev_inv_accept_new:
  assumes inv: "rev_inv w" and a: "alloc_sock k w = (conn, w1)"
  shows "rev_inv (rev_accept_new cr oc rnd l caller connID conn w1)"
proof (cases "CreateX25519KeyPair cr rnd")
  case (Inl e)
  have "rev_inv (close_sock conn w1)"
    using rev_inv_alloc_sock(1) [OF inv a] by (simp add: rev_inv_def)
  with Inl show ?thesis by (simp add: rev_accept_new_def)
next
  case (Inr kp)
  obtain pub priv where kp: "kp = (pub, priv)" by (cases kp)
  let ?t = "rev_sessions w" and ?t2 = "ls_storePending caller connID conn priv (rev_sessions w)"
  let ?w2 = "rev_storePending caller connID conn priv w1"
    and ?args = "[VStr msgConnect, VUInt connID, VBytes pub]"
  note inv1 = rev_inv_alloc_sock [OF inv a]
  have t2: "rev_sessions ?w2 = ?t2" using inv1(2) by (simp add: rev_storePending_def)
  have refs: "lst_refs ?t2 ?w2"
    using lst_refs_accept [OF conjunct1 [OF rev_inv_self [OF inv]] a, of caller connID priv]
    by (simp add: rev_storePending_def rev_world_cong)
  have act: "ls_fetchActive ?t2 = ls_fetchActive ?t" by (rule ext) simp
  have conns: "conns_inv msgConnect (ls_fetchActive ?t2) ?w2"
    using inv1 unfolding act by (simp add: rev_inv_def rev_storePending_def rev_world_cong)
  obtain res w3 where s: "send_progress oc caller ?args ?w2 = (res, w3)"
    by (cases "send_progress oc caller ?args ?w2")
  show ?thesis
  proof (cases res)
    case None
    with s have w3: "w3 = snd (send_progress oc caller ?args ?w2)" "w_sent w3 = w_sent w1 @ [(caller, ?args)]"
      by (auto simp: send_progress_def rev_storePending_def split: option.splits)
    have "lst_refs ?t2 w3" using refs unfolding w3(1) by (rule lst_refs_send)
    moreover have "conns_inv msgConnect (ls_fetchActive ?t2) w3"
      unfolding w3(1) using conns by (rule conns_inv_send) simp
    moreover have "announced msgConnect (w_sent w3) (fst q) (snd q)" if "ls_fetchPending ?t2 q = Some pc" for q pc
      using that inv alloc_sock_simps(4) [OF a] unfolding w3(2)
      by (auto simp: fetchPending_storePending rev_inv_def split: if_splits)
    ultimately have "rev_inv w3" using t2 w3(1) by (simp add: rev_inv_def)
    with Inr kp s None show ?thesis by (simp add: rev_accept_new_def)
  next
    case (Some e)
    with s have w3: "w3 = ?w2" by (auto simp: send_progress_def split: option.splits)
    have dropped: "rev_inv (rev_stop caller (close_sock conn ?w2))"
    proof (cases "?t caller")
      case None
      then have "?w2 = w1" using inv1(2) by (simp add: rev_storePending_def ls_storePending_def)
      then have "rev_inv (close_sock conn ?w2)" using inv1(1) by (simp add: rev_inv_def)
      then show ?thesis by (rule rev_inv_stop)
    next
      case (Some s0)
      have "rev_inv ((close_sock conn ?w2)\<lparr>rev_sessions := ?t2(caller := None)\<rparr>)"
        by (rule rev_inv_shrink [OF inv1(1)])
          (use inv1 conns act in \<open>auto simp: rev_inv_def rev_storePending_def rev_world_cong fetch_drop
             fetchPending_storePending split: if_splits\<close>)
      then show ?thesis
        using Some t2 by (auto simp: rev_stop_def ls_storePending_def intro: rev_inv_ls_close)
    qed
    with Inr kp s Some w3 show ?thesis by (simp add: rev_accept_new_def)
  qed
qed

lemma rev_inv_accept: "rev_inv w \<Longrightarrow> rev_inv (rev_accept cr oc rnd l accepted w)"
proof -
  assume inv: "rev_inv w"
  have "rev_inv (rev_accept_new cr oc rnd l caller connID conn w1)"
    if "alloc_sock k (w\<lparr>rev_lns := ls\<rparr>) = (conn, w1)" for k ls conn w1 caller connID
    by (rule rev_inv_accept_new [OF _ that]) (use inv in \<open>simp add: rev_inv_def rev_world_cong\<close>)
  with inv show ?thesis
    by (auto simp: rev_accept_def split: option.split sum.split prod.split)
qed

lemma rev_inv_handle: "rev_inv w \<Longrightarrow> rev_inv (fst (handlePortReverse cr oc listen iv w))"
  by (auto simp: handlePortReverse_def rev_inv_stop rev_inv_listen rev_inv_key rev_inv_data rev_inv_close
      split: sum.split)

lemma reader_step_sent: "set (w_sent w) \<subseteq> set (w_sent (reader_step cr oc caller connID p rnd chunk rerr w))"
proof -
  obtain b w' where r: "reader_round cr oc caller connID p rnd chunk rerr w = (b, w')"
    by (cases "reader_round cr oc caller connID p rnd chunk rerr w")
  from reader_round_sent [OF r] obtain l where "w_sent w' = w_sent w @ l" by blast
  with r show ?thesis by (auto simp: reader_step_def split: bool.split)
qed

lemma rev_inv_reader:
  assumes inv: "rev_inv w" and run: "(p, caller, connID) \<in> set (w_readers w)"
  shows "rev_inv (reader_step cr oc caller connID p rnd chunk rerr w)"
proof -
  let ?w' = "reader_step cr oc caller connID p rnd chunk rerr w"
  obtain b v where r: "reader_round cr oc caller connID p rnd chunk rerr w = (b, v)"
    by (cases "reader_round cr oc caller connID p rnd chunk rerr w")
  have "lst_refs (rev_sessions w) v"
    using inv lst_refs_only_conn [OF _ only_conn_reader_round [OF r]] unfolding rev_inv_def by blast
  then have "lst_refs (rev_sessions w) ?w'"
    using r lst_refs_cong [of "v\<lparr>w_readers := l\<rparr>" v for l] by (auto simp: reader_step_def split: bool.split)
  moreover have "conns_inv msgConnect (ls_fetchActive (rev_sessions w)) ?w'"
    using inv run unfolding rev_inv_def by (intro conns_inv_reader) auto
  moreover have "announced msgConnect (w_sent w) c n \<Longrightarrow> announced msgConnect (w_sent ?w') c n" for c n
    using reader_step_sent unfolding announced_def by blast
  ultimately show ?thesis using inv unfolding rev_inv_def by simp
qed

lemma rev_inv_init: "rev_inv rev_init"
  by (simp add: rev_inv_def rev_init_def lst_refs_def conns_inv_def conns_refs_def pend_ok_def world_wf_def
      ls_fetchActive_def ls_fetchPending_def)

lemma rev_reachable_inv: "rev_reachable cr w \<Longrightarrow> rev_inv w"
proof (induction rule: rev_reachable.induct)
  case (rev_next w w')
  from rev_next(2,3) show ?case
    by (cases rule: rev_step.cases) (auto simp: rev_inv_handle rev_inv_accept rev_inv_reader rev_inv_stop)
qed (rule rev_inv_init)

section \<open>Properties\<close>

text \<open>
  An example device: caller 7 asks for a listener, a connection is accepted and keyed, and one
  chunk is forwarded.
\<close>

definition demo_rev1 :: rev where
  "demo_rev1 = fst (handlePortReverse toy_crypto (\<lambda>_. None) None
     (sample_inv 1 7 ''user'' True [VStr msgConnect, VStr ''8080'']) rev_init)"

definition demo_rev2 :: rev where
  "demo_rev2 = rev_accept toy_crypto (\<lambda>_. None) (Inr (replicate 32 CHR ''a'')) 0 (Inr new_sock) demo_rev1"

definition demo_rev3 :: rev where
  "demo_rev3 = fst (handlePortReverse toy_crypto (\<lambda>_. None) None
     (sample_inv 1 7 ''user'' True [VStr msgKeyExchange, VUInt 1, VBytes (replicate 32 CHR ''b'')]) demo_rev2)"

definition demo_rev4 :: rev where
  "demo_rev4 = reader_step toy_crypto (\<lambda>_. None) 7 1 0 (Inr (replicate 12 CHR ''n'')) ''hi'' None demo_rev3"

lemma demo_rev_reachable:
  "rev_reachable toy_crypto demo_rev1" "rev_reachable toy_crypto demo_rev2" "rev_reachable toy_crypto demo_rev3"
  unfolding demo_rev1_def demo_rev2_def demo_rev3_def
  by (intro rev_next [OF _ rev_handles] rev_next [OF _ rev_accepts] rev_start)+

lemma demo_rev2_eq:
  "demo_rev2 = \<lparr>w_socks = [0 \<mapsto> new_sock], w_next_sock = 1, w_pfs = (\<lambda>_. None), w_next_pf = 0, w_readers = [],
     w_sent = [(7, [VStr msgConnect, VUInt 1, VBytes (replicate 32 CHR ''a'')])],
     rev_sessions = ls_storePending 7 1 0 (replicate 32 CHR ''a'') [7 \<mapsto> newPortReverseCallerSession 0],
     rev_lns = [0 \<mapsto> \<lparr>rl_open = True, rl_running = True, rl_caller = 7, rl_counter = 1\<rparr>], rev_next_ln = 1\<rparr>"
  by (simp add: demo_rev1_def demo_rev2_def handlePortReverse_def sample_inv_def rev_listen_def rev_init_def
      rev_accept_def rev_accept_new_def rev_store_def Let_def alloc_sock_def rev_storePending_def
      send_progress_def toy_public fun_eq_iff)

lemma demo_rev2_pending:
  "rev_fetchPending demo_rev2 7 1 = Some \<lparr>rp_conn = 0, rp_serverPrivKey = replicate 32 CHR ''a''\<rparr>"
  "rev_fetchActive demo_rev2 7 1 = None"
  by (simp_all add: demo_rev2_eq rev_fetchPending_def rev_fetchActive_def fetchPending_storePending)
    (simp add: ls_fetchActive_def newPortReverseCallerSession_def)

lemma demo_rev3_eq:
  "demo_rev3 = \<lparr>w_socks = [0 \<mapsto> new_sock], w_next_sock = 1,
     w_pfs = [0 \<mapsto> newPortForwardConn 0 (replicate 32 (char_of (293::nat))) (replicate 32 (char_of (297::nat)))],
     w_next_pf = 1, w_readers = [(0, 7, 1)],
     w_sent = [(7, [VStr msgConnect, VUInt 1, VBytes (replicate 32 CHR ''a'')])],
     rev_sessions = ls_activateConn 7 1 0 (rev_sessions demo_rev2),
     rev_lns = rev_lns demo_rev2, rev_next_ln = 1\<rparr>"
  using demo_rev2_pending(1)
  by (simp add: demo_rev3_def handlePortReverse_def sample_inv_def rev_key_def toy_keys alloc_pf_def
      start_reader_def rev_activateConn_def del: replicate_0) (simp add: demo_rev2_eq)

lemma demo_rev4_reachable: "rev_reachable toy_crypto demo_rev4"
proof -
  have "(0, 7, 1) \<in> set (w_readers demo_rev3)" by (simp add: demo_rev3_eq)
  from rev_next [OF demo_rev_reachable(3) rev_reads [OF this]] show ?thesis
    unfolding demo_rev4_def by blast
qed

lemma demo_rev4_sent:
  "w_sent demo_rev4 = [(7, [VStr msgConnect, VUInt 1, VBytes (replicate 32 CHR ''a'')])] @
     (7, [VStr msgData, VUInt 1, VUInt 1,
          VBytes (replicate 12 CHR ''n'' @ ''hi'' @ replicate 16 (char_of (293::nat)))]) # []"
  by (simp add: demo_rev4_def demo_rev3_eq reader_step_def reader_round_def newPortForwardConn_def
      toy_seal nextSendSeq_def send_progress_def)

text \<open>
  Whatever callers, accepted connections, reader rounds and session
  ends interleave, every data message the device sends for a reverse-forwarded connection comes
  after the message that announced the connection to the same caller with the device's public key.
\<close>

theorem rev_data_after_connect:
  assumes "rev_reachable cr w"
    and "w_sent w = pre @ (caller, [VStr msgData, VUInt connID, VUInt seq, VBytes enc]) # post"
  shows "\<exists>pub. (caller, [VStr msgConnect, VUInt connID, VBytes pub]) \<in> set pre"
  using rev_reachable_inv [OF assms(1)] assms(2)
  unfolding rev_inv_def conns_inv_def data_announced_def announced_def by blast

theorem rev_data_after_connect_witness:
  "\<exists>pub. (7, [VStr msgConnect, VUInt 1, VBytes pub]) \<in>
     set [(7 :: u64, [VStr msgConnect, VUInt 1, VBytes (replicate 32 CHR ''a'')])]"
  by (rule rev_data_after_connect [OF demo_rev4_reachable demo_rev4_sent])

text \<open>
  Stopping a caller's reverse session forgets all its connections, closes
  the forwarded and the pending ones, and leaves the connections of every other caller alone.
\<close>

theorem rev_session_end:
  assumes "rev_reachable cr w"
  shows "rev_fetchActive (rev_stop caller w) caller n = None \<and>
         rev_fetchPending (rev_stop caller w) caller n = None \<and>
         (\<forall>p. rev_fetchActive w caller n \<noteq> Some p \<or> closed_conn (rev_stop caller w) p) \<and>
         (\<forall>pc. rev_fetchPending w caller n \<noteq> Some pc \<or> closed_sock (rev_stop caller w) (rp_conn pc)) \<and>
         (\<forall>c q. c = caller \<or> rev_fetchActive w c n \<noteq> Some q \<or>
            rev_fetchActive (rev_stop caller w) c n = Some q \<and>
            conn_view (rev_stop caller w) q = conn_view w q)"
proof (cases "rev_sessions w caller")
  case None
  then show ?thesis
    by (auto simp: rev_stop_def rev_fetchActive_def rev_fetchPending_def ls_fetchActive_def ls_fetchPending_def)
next
  case (Some s)
  let ?v = "close_ln (ls_ln s) (w\<lparr>rev_sessions := (rev_sessions w)(caller := None)\<rparr>)"
  have refs: "lst_refs (rev_sessions w) ?v"
    using rev_reachable_inv [OF assms] by (simp add: rev_inv_def close_ln_def rev_world_cong)
  have stop: "rev_stop caller w = ls_close s ?v" using Some by (simp add: rev_stop_def)
  have view: "conn_view ?v q = conn_view w q" for q by (rule conn_view_cong) (simp_all add: close_ln_def)
  have "rev_sessions (rev_stop caller w) = (rev_sessions w)(caller := None)" by (simp add: stop)
  then show ?thesis
    using ls_close_closes [OF refs Some, of n] ls_close_others [OF refs Some] view
    by (auto simp: stop rev_fetchActive_def rev_fetchPending_def fetch_drop)
qed

theorem rev_session_end_witness:
  "closed_sock (rev_stop 7 demo_rev2) 0 \<and> rev_fetchPending (rev_stop 7 demo_rev2) 7 1 = None"
  using rev_session_end [OF demo_rev_reachable(2), of 7 1] demo_rev2_pending by simp

text \<open>
  A close message for a connection that is still pending
  changes nothing: the entry stays and the accepted connection stays open. The client sends exactly
  this message when it cannot reach its local port, so the remote peer is left hanging.
\<close>

theorem rev_close_ignores_pending:
  assumes "inv_Progress iv" and "inv_ArgString iv 0 = Inr msgClose" and "inv_ArgUInt64 iv 1 = Inr connID"
    and "rev_fetchPending w (inv_Caller iv) connID = Some pc" and "rev_fetchActive w (inv_Caller iv) connID = None"
  shows "rev_fetchPending (fst (handlePortReverse cr oc listen iv w)) (inv_Caller iv) connID = Some pc \<and>
         w_socks (fst (handlePortReverse cr oc listen iv w)) (rp_conn pc) = w_socks w (rp_conn pc)"
  using assms
  by (simp add: handlePortReverse_def rev_close_def rev_removeActive_def rev_fetchPending_def stages.pend_retire)

theorem rev_close_ignores_pending_witness:
  "w_socks (fst (handlePortReverse toy_crypto (\<lambda>_. None) None
     (sample_inv 1 7 ''user'' True [VStr msgClose, VUInt 1]) demo_rev2)) 0 = Some new_sock"
proof -
  let ?iv = "sample_inv 1 7 ''user'' True [VStr msgClose, VUInt 1]"
  have iv: "inv_ArgString ?iv 0 = Inr msgClose" "inv_ArgUInt64 ?iv 1 = Inr 1"
    by (simp_all add: sample_inv_def)
  from rev_close_ignores_pending [OF _ iv, of demo_rev2, of _ toy_crypto "\<lambda>_. None" None] demo_rev2_pending
  show ?thesis by simp (simp add: demo_rev2_eq)
qed

text \<open>
  A second listen request of a caller replaces its session without
  closing the old listener; no later stop of the caller reaches the old one, so its port stays bound
  and its accept goroutine keeps running.
\<close>

theorem rev_relisten_leaks:
  assumes "inv_Progress iv" and "inv_ArgString iv 0 = Inr msgConnect" and "inv_ArgString iv 1 = Inr port"
    and "rev_sessions w (inv_Caller iv) = Some s" and "rev_lns w (ls_ln s) = Some x" and "ls_ln s \<noteq> rev_next_ln w"
  shows "rev_lns (rev_stop (inv_Caller iv) (fst (handlePortReverse cr oc None iv w))) (ls_ln s) = Some x"
proof -
  have "rev_lns (ls_close s' v) = rev_lns v" for s' :: lsession and v :: "'a rev_scheme"
    by (rule rev_fields_more) simp
  with assms show ?thesis
    by (simp add: handlePortReverse_def rev_listen_def rev_store_def rev_stop_def close_ln_def
        newPortReverseCallerSession_def Let_def)
qed

theorem rev_relisten_leaks_witness:
  "rev_lns (rev_stop 7 (fst (handlePortReverse toy_crypto (\<lambda>_. None) None
     (sample_inv 1 7 ''user'' True [VStr msgConnect, VStr ''8080'']) demo_rev2))) 0 =
   Some \<lparr>rl_open = True, rl_running = True, rl_caller = 7, rl_counter = 1\<rparr>"
proof -
  let ?iv = "sample_inv 1 7 ''user'' True [VStr msgConnect, VStr ''8080'']"
  have iv: "inv_Caller ?iv = 7" "inv_Progress ?iv" "inv_ArgString ?iv 0 = Inr msgConnect"
    "inv_ArgString ?iv 1 = Inr ''8080''" by (simp_all add: sample_inv_def)
  obtain s where s: "rev_sessions demo_rev2 7 = Some s" "ls_ln s = 0"
    by (simp add: demo_rev2_eq ls_storePending_def newPortReverseCallerSession_def)
  have "rev_lns demo_rev2 (ls_ln s) = Some \<lparr>rl_open = True, rl_running = True, rl_caller = 7, rl_counter = 1\<rparr>"
    "ls_ln s \<noteq> rev_next_ln demo_rev2"
    unfolding s(2) by (simp_all add: demo_rev2_eq)
  from rev_relisten_leaks [OF iv(2,3,4) _ this, of toy_crypto "\<lambda>_. None"] s show ?thesis
    unfolding iv(1) by simp
qed

end
