(* ===== verification/ReverseClient.thy ===== *)
theory ReverseClient
  imports PortReverse
begin

text \<open>
  The client's side of reverse forwarding: \<open>ReverseLocalPort\<close> of \<open>portreverse.go\<close>. The progress
  receiver dials the local port for every announced connection and answers with a public key;
  everything the client sends goes through the channel \<open>outCh\<close> of capacity 64, which the
  progress sender drains.
\<close>

section \<open>The closure's variables\<close>

text \<open>
  \<open>rc_calls\<close> lists the progress messages handed to the call so far, \<open>rc_ended\<close> says that the last
  one was. Offers to \<open>outCh\<close> are also recorded in \<open>w_sent\<close> (a history; the code never reads it).
\<close>

record rclient = world +
  rc_localConns :: "(u64, nat) fmap"
  rc_outCh :: "wval list list"
  rc_done :: bool
  rc_ctx :: bool
  rc_firstSent :: bool
  rc_calls :: "wval list list"
  rc_ended :: bool

definition rc_start :: rclient where
  "rc_start = \<lparr>w_socks = (\<lambda>_. None), w_next_sock = 0, w_pfs = (\<lambda>_. None), w_next_pf = 0,
     w_readers = [], w_sent = [], rc_localConns = fmempty, rc_outCh = [], rc_done = False,
     rc_ctx = False, rc_firstSent = False, rc_calls = [], rc_ended = False\<rparr>"

definition rc_closeDone :: "rclient \<Rightarrow> rclient" where
  "rc_closeDone c = c\<lparr>rc_done := True\<rparr>"

text \<open>
  \<open>select \{ case outCh <- msg: case <-done: \}\<close>: \<open>to_done\<close> is the branch that fires; \<open>None\<close>
  when it is not ready, otherwise whether the message was queued.
\<close>

definition rc_offer :: "bool \<Rightarrow> wval list \<Rightarrow> rclient \<Rightarrow> (bool \<times> rclient) option" where
  "rc_offer to_done args c =
     (if to_done then (if rc_done c then Some (False, c) else None)
      else if length (rc_outCh c) < 64
      then Some (True, c\<lparr>rc_outCh := rc_outCh c @ [args], w_sent := w_sent c @ [(0, args)]\<rparr>)
      else None)"

section \<open>The progress sender\<close>

datatype rc_branch = RcCtx | RcDone | RcOut

definition rc_sender :: "string \<Rightarrow> rc_branch \<Rightarrow> rclient \<Rightarrow> rclient option" where
  "rc_sender remotePort b c =
     (if \<not> rc_firstSent c
      then Some (c\<lparr>rc_firstSent := True, rc_calls := rc_calls c @ [[VStr msgConnect, VStr remotePort]]\<rparr>)
      else case b of
        RcCtx \<Rightarrow> if rc_ctx c then Some ((rc_closeDone c)\<lparr>rc_ended := True\<rparr>) else None
      | RcDone \<Rightarrow> if rc_done c then Some (c\<lparr>rc_ended := True\<rparr>) else None
      | RcOut \<Rightarrow>
          (case rc_outCh c of
             [] \<Rightarrow> None
           | args # rest \<Rightarrow> Some (c\<lparr>rc_outCh := rest, rc_calls := rc_calls c @ [args]\<rparr>)))"

section \<open>The progress receiver\<close>

text \<open>A connection announced by the device: \<open>dial\<close> is the outcome of dialling the local port.\<close>

definition rc_refuse :: "bool \<Rightarrow> u64 \<Rightarrow> rclient \<Rightarrow> rclient option" where
  "rc_refuse to_done connID c = map_option snd (rc_offer to_done [VStr msgClose, VUInt connID] c)"

definition rc_connect ::
    "crypto \<Rightarrow> bytes result \<Rightarrow> sock result \<Rightarrow> bool \<Rightarrow> invocation \<Rightarrow> rclient \<Rightarrow> rclient option" where
  "rc_connect cr rnd dial to_done r c =
     (case inv_ArgUInt64 r 1 of
        Inl _ \<Rightarrow> Some c
      | Inr connID \<Rightarrow>
     (case inv_ArgBytes r 2 of
        Inl _ \<Rightarrow> Some c
      | Inr serverPubKey \<Rightarrow>
     (case dial of
        Inl _ \<Rightarrow> rc_refuse to_done connID c
      | Inr k \<Rightarrow>
     (case alloc_sock k c of (localConn, c1) \<Rightarrow>
     (case CreateX25519KeyPair cr rnd of
        Inl _ \<Rightarrow> rc_refuse to_done connID (close_sock localConn c1)
      | Inr (clientPubKey, clientPrivKey) \<Rightarrow>
     (case derivePortForwardKeys cr clientPrivKey serverPubKey of
        Inl _ \<Rightarrow> rc_refuse to_done connID (close_sock localConn c1)
      | Inr (receiveKey, sendKey) \<Rightarrow>
     (case alloc_pf (newPortForwardConn localConn sendKey receiveKey) c1 of (p, c2) \<Rightarrow>
       (let c3 = c2\<lparr>rc_localConns := fmupd connID p (rc_localConns c2)\<rparr>
        in case rc_offer to_done [VStr msgKeyExchange, VUInt connID, VBytes clientPubKey] c3 of
             None \<Rightarrow> None
           | Some (False, c4) \<Rightarrow> Some (pf_close p c4)
           | Some (True, c4) \<Rightarrow> Some (start_reader p 0 connID c4)))))))))"

definition rc_data :: "crypto \<Rightarrow> invocation \<Rightarrow> rclient \<Rightarrow> rclient" where
  "rc_data cr r c =
     (case inv_ArgUInt64 r 1 of
        Inl _ \<Rightarrow> c
      | Inr connID \<Rightarrow>
     (case fmlookup (rc_localConns c) connID of
        None \<Rightarrow> c
      | Some p \<Rightarrow>
     (case w_pfs c p of
        None \<Rightarrow> c
      | Some pf \<Rightarrow>
     (case inv_ArgUInt64 r 2 of
        Inl _ \<Rightarrow> c
      | Inr seq \<Rightarrow>
     (case inv_ArgBytes r 3 of
        Inl _ \<Rightarrow> c
      | Inr encrypted \<Rightarrow>
     (case DecryptPayload cr encrypted (pf_receiveKey pf) of
        Inl _ \<Rightarrow> c
      | Inr plaintext \<Rightarrow> snd (deliver p seq plaintext c)))))))"

definition rc_close :: "invocation \<Rightarrow> rclient \<Rightarrow> rclient" where
  "rc_close r c =
     (case inv_ArgUInt64 r 1 of
        Inl _ \<Rightarrow> c
      | Inr connID \<Rightarrow>
     (case fmlookup (rc_localConns c) connID of
        None \<Rightarrow> c
      | Some p \<Rightarrow> (pf_close p c)\<lparr>rc_localConns := fmdrop connID (rc_localConns c)\<rparr>))"

definition rc_receive ::
    "crypto \<Rightarrow> bytes result \<Rightarrow> sock result \<Rightarrow> bool \<Rightarrow> invocation \<Rightarrow> rclient \<Rightarrow> rclient option" where
  "rc_receive cr rnd dial to_done r c =
     (if inv_Args r = [] then Some (rc_closeDone c)
      else case inv_ArgString r 0 of
        Inl _ \<Rightarrow> Some c
      | Inr msgType \<Rightarrow>
          (if msgType = msgConnect then rc_connect cr rnd dial to_done r c
           else if msgType = msgData then Some (rc_data cr r c)
           else if msgType = msgClose then Some (rc_close r c)
           else Some c))"

section \<open>The reader goroutine of a connection\<close>

datatype rc_target = ToOut | ToDone | ToConnDone

text \<open>The goroutine's end: the deferred functions forget the connection.\<close>

definition rc_exit :: "nat \<Rightarrow> u64 \<Rightarrow> rclient \<Rightarrow> rclient" where
  "rc_exit p connID c =
     c\<lparr>rc_localConns := fmdrop connID (rc_localConns c), w_readers := remove1 (p, 0, connID) (w_readers c)\<rparr>"

definition rc_read_error :: "bool \<Rightarrow> nat \<Rightarrow> u64 \<Rightarrow> go_error option \<Rightarrow> rclient \<Rightarrow> rclient option" where
  "rc_read_error to_done p connID rerr c =
     (case rerr of
        None \<Rightarrow> Some c
      | Some _ \<Rightarrow>
          (case w_pfs c p of
             None \<Rightarrow> Some c
           | Some pf \<Rightarrow>
               if pf_done pf then Some (rc_exit p connID c)
               else map_option (rc_exit p connID) (rc_refuse to_done connID c)))"

definition rc_reader ::
    "crypto \<Rightarrow> bytes result \<Rightarrow> rc_target \<Rightarrow> bool \<Rightarrow> nat \<Rightarrow> u64 \<Rightarrow> bytes \<Rightarrow> go_error option \<Rightarrow>
     rclient \<Rightarrow> rclient option" where
  "rc_reader cr rnd target to_done p connID chunk rerr c =
     (case w_pfs c p of
        None \<Rightarrow> Some c
      | Some pf \<Rightarrow>
          if chunk = [] then rc_read_error to_done p connID rerr c
          else if pf_done pf then Some (rc_exit p connID c)
          else (case EncryptPayload cr rnd chunk (pf_sendKey pf) of
                  Inl _ \<Rightarrow> Some (rc_exit p connID (pf_close p c))
                | Inr encrypted \<Rightarrow>
                    (case nextSendSeq pf of (seq, pf') \<Rightarrow>
                    (let c1 = put_pf p pf' c
                     in case target of
                          ToDone \<Rightarrow> if rc_done c1 then Some (rc_exit p connID c1) else None
                        | ToConnDone \<Rightarrow> if pf_done pf' then Some (rc_exit p connID c1) else None
                        | ToOut \<Rightarrow>
                            (case rc_offer False [VStr msgData, VUInt connID, VUInt seq, VBytes encrypted] c1 of
                               None \<Rightarrow> None
                             | Some (_, c2) \<Rightarrow> rc_read_error to_done p connID rerr c2)))))"

text \<open>After the call: every remaining connection is closed.\<close>

definition rc_finish :: "rclient \<Rightarrow> rclient" where
  "rc_finish c = foldl (\<lambda>v p. pf_close p v) (rc_closeDone c) (fm_values (rc_localConns c))"

inductive rc_step :: "crypto \<Rightarrow> string \<Rightarrow> rclient \<Rightarrow> rclient \<Rightarrow> bool" for cr :: crypto and port :: string where
  rc_sends: "rc_sender port b c = Some c' \<Longrightarrow> rc_step cr port c c'"
| rc_receives: "rc_receive cr rnd dial to_done r c = Some c' \<Longrightarrow> rc_step cr port c c'"
| rc_reads: "(p, 0, connID) \<in> set (w_readers c) \<Longrightarrow>
     rc_reader cr rnd target to_done p connID chunk rerr c = Some c' \<Longrightarrow> rc_step cr port c c'"
| rc_cancelled: "rc_step cr port c (c\<lparr>rc_ctx := True\<rparr>)"
| rc_returns: "rc_step cr port c (rc_finish c)"

inductive rc_reachable :: "crypto \<Rightarrow> string \<Rightarrow> rclient \<Rightarrow> bool" for cr :: crypto and port :: string where
  rc_begin: "rc_reachable cr port rc_start"
| rc_next: "rc_reachable cr port c \<Longrightarrow> rc_step cr port c c' \<Longrightarrow> rc_reachable cr port c'"

section \<open>The invariant\<close>

text \<open>
  The messages handed to the call are, after the first one, exactly the offered ones in order, less
  those still queued. \<open>pr\<close> has the first message and what is done to the others on their way;
  the client of agent forwarding has the same invariant with another pair.
\<close>

definition rc_hist :: "wval list \<times> (wval list \<Rightarrow> wval list) \<Rightarrow> rclient \<Rightarrow> bool" where
  "rc_hist pr c \<longleftrightarrow>
     (\<exists>xs. rc_calls c = (if rc_firstSent c then [fst pr] else []) @ map (snd pr) xs \<and>
           map snd (w_sent c) = xs @ rc_outCh c \<and> (rc_firstSent c \<or> xs = [])) \<and>
     (\<forall>m \<in> set (w_sent c). fst m = 0)"

definition rc_inv :: "wval list \<times> (wval list \<Rightarrow> wval list) \<Rightarrow> rclient \<Rightarrow> bool" where
  "rc_inv pr c \<longleftrightarrow> conns_inv msgKeyExchange (fmlookup (rc_localConns c)) c \<and> rc_hist pr c"

lemma rc_invD:
  assumes "rc_inv pr c"
  shows "conns_inv msgKeyExchange (fmlookup (rc_localConns c)) c" and "rc_hist pr c"
  using assms unfolding rc_inv_def by blast+

lemma rc_fields_more:
  assumes "world.more c' = world.more c"
  shows "rc_localConns c' = rc_localConns c" "rc_outCh c' = rc_outCh c" "rc_done c' = rc_done c"
    "rc_ctx c' = rc_ctx c" "rc_firstSent c' = rc_firstSent c" "rc_calls c' = rc_calls c"
  using assms by (cases c; cases c'; simp)+

lemma rc_world_cong:
  "conns_inv t tab (c\<lparr>rc_localConns := m\<rparr>) = conns_inv t tab c"
  "conns_inv t tab (c\<lparr>rc_outCh := q\<rparr>) = conns_inv t tab c"
  "conns_inv t tab (c\<lparr>rc_done := b\<rparr>) = conns_inv t tab c"
  "conns_inv t tab (c\<lparr>rc_ctx := b\<rparr>) = conns_inv t tab c"
  "conns_inv t tab (c\<lparr>rc_firstSent := b\<rparr>) = conns_inv t tab c"
  "conns_inv t tab (c\<lparr>rc_calls := l\<rparr>) = conns_inv t tab c"
  "conns_inv t tab (c\<lparr>rc_ended := b\<rparr>) = conns_inv t tab c"
  by (rule conns_inv_cong; simp)+

lemma rc_hist_frame:
  "rc_hist pr c \<Longrightarrow> rc_calls c' = rc_calls c \<Longrightarrow> rc_firstSent c' = rc_firstSent c \<Longrightarrow>
   rc_outCh c' = rc_outCh c \<Longrightarrow> w_sent c' = w_sent c \<Longrightarrow> rc_hist pr c'"
  by (simp add: rc_hist_def)

lemma rc_inv_only_conn:
  assumes "rc_inv pr c" and "only_conn p c c'" and "w_sent c' = w_sent c"
  shows "rc_inv pr c'"
proof -
  have more: "world.more c' = world.more c" using assms(2) by (simp add: only_conn_def)
  have "rc_hist pr c'"
    by (rule rc_hist_frame [of pr c]) (use assms rc_fields_more [OF more] in \<open>simp_all add: rc_inv_def\<close>)
  then show ?thesis
    using conns_inv_same_sent [OF rc_invD(1) [OF assms(1)] assms(2,3)] rc_fields_more(1) [OF more]
    by (simp add: rc_inv_def)
qed

lemma rc_inv_offer:
  assumes inv: "rc_inv pr c" and off: "rc_offer to_done args c = Some (b, c')"
    and data: "\<And>seq enc n. args = [VStr msgData, VUInt n, VUInt seq, VBytes enc] \<Longrightarrow>
      announced msgKeyExchange (w_sent c) 0 n"
  shows "rc_inv pr c' \<and> w_pfs c' = w_pfs c \<and> w_readers c' = w_readers c \<and> rc_localConns c' = rc_localConns c \<and>
     (b \<longrightarrow> (0, args) \<in> set (w_sent c'))"
proof (cases to_done)
  case True
  with off inv show ?thesis by (auto simp: rc_offer_def split: if_splits)
next
  case False
  with off have c': "c' = c\<lparr>rc_outCh := rc_outCh c @ [args], w_sent := w_sent c @ [(0, args)]\<rparr>"
    by (auto simp: rc_offer_def split: if_splits)
  have "conns_inv msgKeyExchange (fmlookup (rc_localConns c)) (snd (send_progress (\<lambda>_. None) 0 args c))"
    by (rule conns_inv_send) (use inv data in \<open>auto simp: rc_inv_def\<close>)
  then have "conns_inv msgKeyExchange (fmlookup (rc_localConns c)) c'"
    by (subst conns_inv_cong [of c' "snd (send_progress (\<lambda>_. None) 0 args c)"]) (simp_all add: c' send_progress_def)
  moreover have "rc_hist pr c'"
    using inv unfolding c' rc_inv_def rc_hist_def by auto
  ultimately show ?thesis by (simp add: c' rc_inv_def)
qed

lemma rc_inv_refuse:
  assumes "rc_inv pr c" and "rc_refuse to_done connID c = Some c'"
  shows "rc_inv pr c'"
proof -
  obtain b where "rc_offer to_done [VStr msgClose, VUInt connID] c = Some (b, c')"
    using assms(2) by (auto simp: rc_refuse_def)
  from rc_inv_offer [OF assms(1) this] show ?thesis by simp
qed

lemma rc_inv_close_sock: "rc_inv pr c \<Longrightarrow> rc_inv pr (close_sock r c)"
proof -
  assume inv: "rc_inv pr c"
  have "rc_hist pr (close_sock r c)"
    by (rule rc_hist_frame [of pr c]) (use inv rc_fields_more [of "close_sock r c" c] in \<open>simp_all add: rc_inv_def\<close>)
  with inv rc_fields_more(1) [of "close_sock r c" c] show ?thesis by (simp add: rc_inv_def)
qed

lemma rc_inv_start_reader:
  assumes "rc_inv pr c" and "announced msgKeyExchange (w_sent c) 0 connID"
  shows "rc_inv pr (start_reader p 0 connID c)"
proof -
  have "rc_hist pr (start_reader p 0 connID c)"
    by (rule rc_hist_frame [of pr c]) (use assms in \<open>simp_all add: rc_inv_def start_reader_def\<close>)
  moreover have "rc_localConns (start_reader p 0 connID c) = rc_localConns c"
    by (simp add: start_reader_def)
  ultimately show ?thesis
    using conns_inv_start_reader [OF rc_invD(1) [OF assms(1)] assms(2)] by (simp add: rc_inv_def)
qed

lemma rc_inv_conns:
  assumes "rc_inv pr c" and "\<And>n p. fmlookup m n = Some p \<Longrightarrow> fmlookup (rc_localConns c) n = Some p"
  shows "rc_inv pr (c\<lparr>rc_localConns := m\<rparr>)"
  using conns_inv_shrink [of msgKeyExchange "fmlookup (rc_localConns c)" c "fmlookup m"] assms
  by (auto simp: rc_inv_def rc_world_cong rc_hist_def)

lemma rc_inv_new:
  assumes inv: "rc_inv pr c" and a: "alloc_sock k c = (r, c1)"
  shows "rc_inv pr c1"
    and "alloc_pf (newPortForwardConn r sk rk) c1 = (p, c2) \<Longrightarrow>
         rc_inv pr (c2\<lparr>rc_localConns := fmupd connID p (rc_localConns c2)\<rparr>)"
proof -
  note a' = alloc_sock_simps [OF a]
  have m1: "world.more c1 = world.more c" by (simp add: a')
  have conns1: "conns_inv msgKeyExchange (fmlookup (rc_localConns c)) c1"
    using rc_invD(1) [OF inv] a by (rule conns_inv_alloc_sock)
  have hist1: "rc_hist pr c1"
    by (rule rc_hist_frame [of pr c]) (use inv a' rc_fields_more [OF m1] in \<open>simp_all add: rc_inv_def\<close>)
  show inv1: "rc_inv pr c1" using conns1 hist1 rc_fields_more(1) [OF m1] by (simp add: rc_inv_def)
  assume b: "alloc_pf (newPortForwardConn r sk rk) c1 = (p, c2)"
  note b' = alloc_pf_simps [OF b]
  have m2: "world.more c2 = world.more c1" by (simp add: b')
  have wf: "world_wf c" using inv conns_refsD(1) [OF conns_invD(1)] unfolding rc_inv_def by blast
  have "conns_inv msgKeyExchange (fmlookup (fmupd connID p (rc_localConns c2))) c2"
  proof (rule conns_inv_alloc_pf [OF conns1 b, where key = connID])
    show "pf_conn (newPortForwardConn r sk rk) < w_next_sock c1" using a' by (simp add: newPortForwardConn_def)
    show "pf_conn d \<noteq> pf_conn (newPortForwardConn r sk rk)" if "w_pfs c1 q = Some d" for q d
      using world_wf_conn [OF wf, of q d] that a' by (simp add: newPortForwardConn_def)
    show "fmlookup (rc_localConns c) n = Some q \<or> n = connID \<and> q = p"
      if "fmlookup (fmupd connID p (rc_localConns c2)) n = Some q" for n q
      using that rc_fields_more(1) [OF m1] rc_fields_more(1) [OF m2] by (auto split: if_splits)
  qed
  moreover have "rc_hist pr c2"
    by (rule rc_hist_frame [OF hist1]) (use b' rc_fields_more [OF m2] in simp_all)
  ultimately show "rc_inv pr (c2\<lparr>rc_localConns := fmupd connID p (rc_localConns c2)\<rparr>)"
    by (simp add: rc_inv_def rc_world_cong rc_hist_def)
qed

text \<open>Every step keeps the invariant.\<close>

lemma rc_inv_sender:
  "rc_inv ([VStr msgConnect, VStr port], \<lambda>a. a) c \<Longrightarrow> rc_sender port b c = Some c' \<Longrightarrow> rc_inv ([VStr msgConnect, VStr port], \<lambda>a. a) c'"
  unfolding rc_inv_def rc_hist_def
  by (auto simp: rc_sender_def rc_closeDone_def rc_world_cong split: if_splits rc_branch.splits list.splits)

lemma rc_inv_connect:
  assumes inv: "rc_inv pr c" and step: "rc_connect cr rnd dial to_done r c = Some c'"
  shows "rc_inv pr c'"
proof (cases dial)
  case (Inl e)
  with step inv show ?thesis by (auto simp: rc_connect_def rc_inv_refuse split: sum.splits)
next
  case (Inr k)
  obtain lc c1 where a: "alloc_sock k c = (lc, c1)" by (cases "alloc_sock k c")
  note inv1 = rc_inv_new(1) [OF inv a]
  have main: "if q then rc_inv pr (start_reader p 0 connID c4) else rc_inv pr (pf_close p c4)"
    if b: "alloc_pf (newPortForwardConn lc sk rk) c1 = (p, c2)"
      and o: "rc_offer to_done [VStr msgKeyExchange, VUInt connID, VBytes pub]
           (c2\<lparr>rc_localConns := fmupd connID p (rc_localConns c2)\<rparr>) = Some (q, c4)" for sk rk p c2 connID pub q c4
  proof -
    have "rc_inv pr c4 \<and> (q \<longrightarrow> (0, [VStr msgKeyExchange, VUInt connID, VBytes pub]) \<in> set (w_sent c4))"
      using rc_inv_offer [OF rc_inv_new(2) [OF inv a b] o] by simp
    then show ?thesis
      using rc_inv_only_conn [OF _ only_conn_pf_close, of pr c4 p]
      by (auto simp: announced_def intro!: rc_inv_start_reader)
  qed
  show ?thesis
    using step Inr a inv rc_inv_refuse [OF rc_inv_close_sock [OF inv1]]
    by (auto simp: rc_connect_def Let_def dest: main split: sum.splits prod.splits option.splits bool.splits)
qed

lemma rc_inv_data: "rc_inv pr c \<Longrightarrow> rc_inv pr (rc_data cr r c)"
proof -
  assume inv: "rc_inv pr c"
  have "rc_inv pr (snd (deliver p seq pt c))" for p seq pt
    using rc_inv_only_conn [OF inv, of p] deliver_only_conn [of p seq pt c] by (cases "deliver p seq pt c") auto
  with inv show ?thesis by (auto simp: rc_data_def split: sum.split option.split)
qed

lemma rc_inv_drop:
  assumes "rc_inv pr c"
  shows "rc_inv pr (c\<lparr>rc_localConns := fmdrop n (rc_localConns c)\<rparr>)"
  using assms by (rule rc_inv_conns) (auto split: if_splits)

lemma rc_inv_close: "rc_inv pr c \<Longrightarrow> rc_inv pr (rc_close r c)"
proof -
  assume inv: "rc_inv pr c"
  have "rc_inv pr ((pf_close p c)\<lparr>rc_localConns := fmdrop n (rc_localConns c)\<rparr>)" for p n
    using rc_inv_drop [OF rc_inv_only_conn [OF inv only_conn_pf_close], of p n]
      rc_fields_more(1) [of "pf_close p c" c] by simp
  with inv show ?thesis by (auto simp: rc_close_def split: sum.split option.split)
qed

lemma rc_inv_flags: "rc_inv pr c \<Longrightarrow> rc_inv pr (rc_closeDone c) \<and> rc_inv pr (c\<lparr>rc_ctx := b\<rparr>)"
  by (simp add: rc_inv_def rc_closeDone_def rc_world_cong rc_hist_def)

lemma rc_inv_receive: "rc_inv pr c \<Longrightarrow> rc_receive cr rnd dial to_done r c = Some c' \<Longrightarrow> rc_inv pr c'"
  using rc_inv_flags [of pr c] rc_inv_data [of pr c cr r] rc_inv_close [of pr c r]
    rc_inv_connect [of pr c cr rnd dial to_done r c']
  by (auto simp: rc_receive_def split: if_splits sum.splits)

lemma rc_inv_exit: "rc_inv pr c \<Longrightarrow> rc_inv pr (rc_exit p connID c)"
proof -
  assume inv: "rc_inv pr c"
  let ?d = "c\<lparr>rc_localConns := fmdrop connID (rc_localConns c)\<rparr>"
  have "conns_inv msgKeyExchange (fmlookup (rc_localConns ?d)) ?d" using rc_inv_drop [OF inv] by (rule rc_invD)
  then have "conns_inv msgKeyExchange (fmlookup (rc_localConns ?d)) (?d\<lparr>w_readers := remove1 (p, 0, connID) (w_readers c)\<rparr>)"
    unfolding conns_inv_def by (auto dest: set_remove1_subset [THEN subsetD])
  then show ?thesis
    using rc_invD(2) [OF inv] by (simp add: rc_inv_def rc_exit_def rc_hist_def)
qed

lemma rc_inv_read_error:
  "rc_inv pr c \<Longrightarrow> rc_read_error to_done p connID rerr c = Some c' \<Longrightarrow> rc_inv pr c'"
  using rc_inv_refuse [of pr c to_done connID]
  by (auto simp: rc_read_error_def rc_inv_exit split: option.splits if_splits)

lemma rc_inv_reader:
  assumes inv: "rc_inv pr c" and run: "(p, 0, connID) \<in> set (w_readers c)"
    and step: "rc_reader cr rnd target to_done p connID chunk rerr c = Some c'"
  shows "rc_inv pr c'"
proof (cases "w_pfs c p")
  case None
  with step inv show ?thesis by (simp add: rc_reader_def)
next
  case (Some pf)
  obtain seq pf' where ns: "nextSendSeq pf = (seq, pf')" by (cases "nextSendSeq pf")
  have oc: "only_conn p c (put_pf p pf' c)"
    using Some nextSendSeq_simps [OF ns] by (intro only_conn_put_pf) simp_all
  have inv1: "rc_inv pr (put_pf p pf' c)" using inv oc by (rule rc_inv_only_conn) simp
  have "announced msgKeyExchange (w_sent c) 0 connID" using rc_invD(1) [OF inv] run by (rule conns_invD)
  then have off: "rc_inv pr c2" if "rc_offer False [VStr msgData, VUInt connID, VUInt seq, VBytes enc] (put_pf p pf' c) = Some (b, c2)"
    for enc b c2
    using rc_inv_offer [OF inv1 that] by auto
  have closed: "rc_inv pr (pf_close p c)" using inv only_conn_pf_close by (rule rc_inv_only_conn) simp
  show ?thesis
    using step Some ns inv inv1 off closed
    by (auto simp: rc_reader_def Let_def intro: rc_inv_exit rc_inv_read_error
        split: if_splits sum.splits rc_target.splits option.splits)
qed

lemma rc_inv_finish: "rc_inv pr c \<Longrightarrow> rc_inv pr (rc_finish c)"
proof -
  have "rc_inv pr c \<Longrightarrow> rc_inv pr (foldl (\<lambda>v p. pf_close p v) c ps)" for c ps
    by (induction ps arbitrary: c) (simp_all add: rc_inv_only_conn [OF _ only_conn_pf_close])
  then show "rc_inv pr c \<Longrightarrow> rc_inv pr (rc_finish c)"
    by (simp add: rc_finish_def rc_inv_flags)
qed

lemma rc_reachable_inv: "rc_reachable cr port c \<Longrightarrow> rc_inv ([VStr msgConnect, VStr port], \<lambda>a. a) c"
proof (induction rule: rc_reachable.induct)
  case rc_begin
  show ?case
    by (simp add: rc_inv_def rc_start_def rc_hist_def conns_inv_def conns_refs_def world_wf_def)
next
  case (rc_next c c')
  from rc_next(2,3) show ?case
    by (cases rule: rc_step.cases)
      (auto simp: rc_inv_flags rc_inv_finish intro: rc_inv_sender rc_inv_receive rc_inv_reader)
qed

text \<open>What the invariant says of the messages handed to the call.\<close>

lemma rc_inv_calls:
  assumes inv: "rc_inv pr c"
  obtains xs where "rc_calls c = (if rc_firstSent c then [fst pr] else []) @ map (snd pr) xs" "rc_firstSent c \<or> xs = []"
    "\<And>pre connID seq enc post. xs = pre @ [VStr msgData, VUInt connID, VUInt seq, VBytes enc] # post \<Longrightarrow>
       \<exists>pub. [VStr msgKeyExchange, VUInt connID, VBytes pub] \<in> set pre"
proof -
  from rc_invD(2) [OF inv] obtain xs where
    calls: "rc_calls c = (if rc_firstSent c then [fst pr] else []) @ map (snd pr) xs"
    and sent: "map snd (w_sent c) = xs @ rc_outCh c" and first: "rc_firstSent c \<or> xs = []"
    and zero: "\<forall>m \<in> set (w_sent c). fst m = 0"
    unfolding rc_hist_def by blast
  have "\<exists>pub. [VStr msgKeyExchange, VUInt connID, VBytes pub] \<in> set pre"
    if eq: "xs = pre @ [VStr msgData, VUInt connID, VUInt seq, VBytes enc] # post" for pre connID seq enc post
  proof -
    let ?i = "length pre" and ?log = "w_sent c"
    have len: "?i < length ?log" using arg_cong [OF sent, of length] eq by simp
    have "snd (?log ! ?i) = [VStr msgData, VUInt connID, VUInt seq, VBytes enc]"
      using len arg_cong [OF sent, of "\<lambda>l. l ! ?i"] eq by (simp add: nth_append)
    moreover have "fst (?log ! ?i) = 0" using zero len nth_mem by blast
    ultimately have "?log = take ?i ?log @ (0, [VStr msgData, VUInt connID, VUInt seq, VBytes enc]) # drop (Suc ?i) ?log"
      using id_take_nth_drop [OF len] by (metis prod.collapse)
    then have "announced msgKeyExchange (take ?i ?log) 0 connID"
      using conns_invD(3) [OF rc_invD(1) [OF inv]] unfolding data_announced_def by blast
    then obtain pub where "(0, [VStr msgKeyExchange, VUInt connID, VBytes pub]) \<in> set (take ?i ?log)"
      unfolding announced_def by blast
    then have "[VStr msgKeyExchange, VUInt connID, VBytes pub] \<in> set (map snd (take ?i ?log))" by force
    moreover have "map snd (take ?i ?log) = pre" using sent eq by (simp flip: take_map)
    ultimately show ?thesis by auto
  qed
  with calls first show thesis by (rule that)
qed

section \<open>Properties\<close>

text \<open>
  Whatever the device sends and however the goroutines interleave,
  the client's first message is the listen request, and every data message for a connection comes
  after the message with the client's public key for it.
\<close>

theorem reverse_client_protocol:
  assumes "rc_reachable cr port c" and "rc_calls c \<noteq> []"
  shows "hd (rc_calls c) = [VStr msgConnect, VStr port] \<and>
     (\<forall>pre connID seq enc post.
        tl (rc_calls c) \<noteq> pre @ [VStr msgData, VUInt connID, VUInt seq, VBytes enc] # post \<or>
        (\<exists>pub. [VStr msgKeyExchange, VUInt connID, VBytes pub] \<in> set pre))"
proof -
  note inv = rc_reachable_inv [OF assms(1)]
  obtain xs where
    calls: "rc_calls c = (if rc_firstSent c then [[VStr msgConnect, VStr port]] else []) @ xs" and first: "rc_firstSent c \<or> xs = []"
    and data: "\<And>pre connID seq enc post. xs = pre @ [VStr msgData, VUInt connID, VUInt seq, VBytes enc] # post \<Longrightarrow>
       \<exists>pub. [VStr msgKeyExchange, VUInt connID, VBytes pub] \<in> set pre"
    by (rule rc_inv_calls [OF inv, unfolded fst_conv snd_conv list.map_ident]) (rule that)
  have fs: "rc_firstSent c" using calls first assms(2) by (auto split: if_splits)
  with data show ?thesis using calls by auto
qed

theorem reverse_client_protocol_witness:
  "\<exists>c :: rclient. rc_calls c = [[VStr msgConnect, VStr ''80'']] \<and> hd (rc_calls c) = [VStr msgConnect, VStr ''80'']"
proof -
  let ?c = "rc_start\<lparr>rc_firstSent := True, rc_calls := [[VStr msgConnect, VStr ''80'']]\<rparr>"
  have "rc_sender ''80'' RcOut rc_start = Some ?c" by (simp add: rc_sender_def rc_start_def)
  then have "rc_reachable toy_crypto ''80'' ?c" by (rule rc_next [OF rc_begin rc_sends])
  from reverse_client_protocol [OF this] have "hd (rc_calls ?c) = [VStr msgConnect, VStr ''80'']" by simp
  then show ?thesis by - (intro exI [of _ ?c] conjI, simp_all)
qed

text \<open>
  When the client accepts a connection the device announced, it queues
  exactly the key message that makes the device derive the same two keys, crossed.
\<close>

theorem reverse_keys_agree:
  assumes cr: "crypto_ok cr" and dev: "CreateX25519KeyPair cr rs = Inr (spub, rp_serverPrivKey pc)"
    and pend: "rev_fetchPending w caller connID = Some pc"
    and cli: "CreateX25519KeyPair cr rc = Inr (cpub, cpriv)" "length (rp_serverPrivKey pc) = 32"
    and step: "rc_connect cr rc (Inr k) False (sample_inv 0 0 [] True [VStr msgConnect, VUInt connID, VBytes spub]) c = Some c'"
    and accepted: "fmlookup (rc_localConns c) connID = None" "fmlookup (rc_localConns c') connID = Some p"
    and w': "w' = fst (handlePortReverse cr oc listen
        (sample_inv ptr caller authid True [VStr msgKeyExchange, VUInt connID, VBytes cpub]) w)"
  shows "last (rc_outCh c') = [VStr msgKeyExchange, VUInt connID, VBytes cpub] \<and>
     (\<exists>pf q pf'. w_pfs c' p = Some pf \<and> rev_fetchActive w' caller connID = Some q \<and> w_pfs w' q = Some pf' \<and>
        pf_sendKey pf' = pf_receiveKey pf \<and> pf_receiveKey pf' = pf_sendKey pf)"
proof -
  obtain lc c1 where a: "alloc_sock k c = (lc, c1)" by (cases "alloc_sock k c")
  have m1: "rc_localConns (close_sock lc c1) = rc_localConns c"
    using alloc_sock_simps(8) [OF a] by (intro rc_fields_more(1)) simp
  have refuse: "rc_localConns v' = rc_localConns v" if "rc_refuse False n v = Some v'" for v v' n
    using that by (auto simp: rc_refuse_def rc_offer_def split: if_splits)
  obtain recv send where ckeys: "derivePortForwardKeys cr cpriv spub = Inr (recv, send)"
    using step a cli(1) accepted m1 by (auto simp: rc_connect_def sample_inv_def dest!: refuse split: sum.splits)
  let ?r = "w_next_pf c1"
  let ?pf = "newPortForwardConn lc send recv"
  have m2: "rc_localConns (snd (alloc_pf ?pf c1)) = rc_localConns c"
    using alloc_sock_simps(8) [OF a] by (intro rc_fields_more(1)) (simp add: alloc_pf_def)
  obtain och hist where c': "c' = start_reader ?r 0 connID ((snd (alloc_pf ?pf c1))\<lparr>
      rc_localConns := fmupd connID ?r (rc_localConns c), rc_outCh := och, w_sent := hist\<rparr>)"
    and out: "last (rc_outCh c') = [VStr msgKeyExchange, VUInt connID, VBytes cpub]"
    using step a cli(1) ckeys m2
    by (auto simp: rc_connect_def sample_inv_def alloc_pf_def rc_offer_def Let_def start_reader_def split: if_splits)
  have p: "p = ?r" "w_pfs c' ?r = Some ?pf"
    using accepted(2) unfolding c' by (simp_all add: start_reader_def alloc_pf_def)
  obtain s where s: "PerformKeyExchange cr cpriv spub = Inr s"
    "DeriveKeyHKDF cr s ''backendToFrontend'' = Inr recv" "DeriveKeyHKDF cr s ''frontendToBackend'' = Inr send"
    using ckeys by (auto simp: derivePortForwardKeys_Inr)
  have "PerformKeyExchange cr (rp_serverPrivKey pc) cpub = Inr s"
    using shared_secret_agrees [OF _ cli(1) dev s(1) cli(2)] cr by (simp add: crypto_ok_def)
  then have "derivePortForwardKeys cr (rp_serverPrivKey pc) cpub = Inr (recv, send)"
    using s by (simp add: derivePortForwardKeys_Inr)
  then have w'_eq: "w' = start_reader (w_next_pf w) caller connID (rev_activateConn caller connID (w_next_pf w)
      (snd (alloc_pf (newPortForwardConn (rp_conn pc) recv send) w)))"
    unfolding w' using pend by (simp add: handlePortReverse_def sample_inv_def rev_key_def alloc_pf_def)
  have "rev_sessions w caller \<noteq> None"
    using pend by (auto simp: rev_fetchPending_def ls_fetchPending_def split: option.splits)
  then have "rev_fetchActive w' caller connID = Some (w_next_pf w)"
    unfolding w'_eq by (simp add: rev_fetchActive_def rev_activateConn_def alloc_pf_def stages.act_activate)
  moreover have "w_pfs w' (w_next_pf w) = Some (newPortForwardConn (rp_conn pc) recv send)"
    unfolding w'_eq by (simp add: start_reader_def rev_activateConn_def alloc_pf_def)
  ultimately show ?thesis using out p by (simp add: newPortForwardConn_def)
qed

definition demo_rc :: rclient where
  "demo_rc = the (rc_connect toy_crypto (Inr (replicate 32 CHR ''b'')) (Inr new_sock) False
     (sample_inv 0 0 [] True [VStr msgConnect, VUInt 1, VBytes (replicate 32 CHR ''a'')]) rc_start)"

lemma toy_public_b: "CreateX25519KeyPair toy_crypto (Inr (replicate 32 CHR ''b'')) =
    Inr (replicate 32 CHR ''b'', replicate 32 CHR ''b'')"
  by (simp add: CreateX25519KeyPair_def toy_crypto_def char_of_eq_iff)

lemma toy_keys_ba: "\<exists>ks. derivePortForwardKeys toy_crypto (replicate 32 CHR ''b'') (replicate 32 CHR ''a'') = Inr ks"
  using toy_not_zeros
  by (simp add: derivePortForwardKeys_def PerformKeyExchange_def DeriveKeyHKDF_def toy_crypto_def)

theorem reverse_keys_agree_witness:
  "\<exists>pf q pf'. w_pfs demo_rc 0 = Some pf \<and> rev_fetchActive demo_rev3 7 1 = Some q \<and>
     w_pfs demo_rev3 q = Some pf' \<and> pf_sendKey pf' = pf_receiveKey pf \<and> pf_receiveKey pf' = pf_sendKey pf"
proof -
  obtain ks where ks: "derivePortForwardKeys toy_crypto (replicate 32 CHR ''b'') (replicate 32 CHR ''a'') = Inr ks"
    using toy_keys_ba by blast
  let ?iv = "sample_inv 0 0 [] True [VStr msgConnect, VUInt 1, VBytes (replicate 32 CHR ''a'')]"
  have args: "inv_ArgUInt64 ?iv 1 = Inr 1" "inv_ArgBytes ?iv 2 = Inr (replicate 32 CHR ''a'')"
    by (simp_all add: sample_inv_def)
  have step: "rc_connect toy_crypto (Inr (replicate 32 CHR ''b'')) (Inr new_sock) False ?iv rc_start = Some demo_rc"
    and conns: "fmlookup (rc_localConns demo_rc) 1 = Some 0"
    unfolding demo_rc_def using ks args
    by (cases ks; simp add: rc_connect_def toy_public_b rc_start_def alloc_sock_def alloc_pf_def rc_offer_def
        start_reader_def Let_def)+
  from reverse_keys_agree [OF toy_crypto_ok _ demo_rev2_pending(1) toy_public_b _ step _ conns, of "Inr (replicate 32 CHR ''a'')"
      demo_rev3 "\<lambda>_. None" None 1 "''user''"] toy_public
  show ?thesis by (simp add: demo_rev3_def rc_start_def)
qed

end
