(* ===== verification/AgentForward.thy ===== *)
theory AgentForward
  imports Listeners
begin

text \<open>
  \<open>agentforward.go\<close>, the device: one forwarding session per authentication id, with a private
  UNIX socket whose path outlives reconnects: a caller that comes back over a new transport takes
  the existing session over. The session tables and connections are those of \<open>Listeners\<close>.
\<close>

section \<open>State\<close>

text \<open>
  The table's sessions, with the socket path and its directory. The variables of a session that
  goroutines reach through the session pointer (the listener, the current invocation's caller)
  live in an object store; \<open>ls_ln\<close> is the reference. \<open>currentCallerID\<close> is always the caller of
  the current invocation \<open>inv\<close>, so \<open>ao_caller\<close> stands for both.
\<close>

record agent_session = lsession +
  as_sockPath :: string
  as_dir :: string

record agent_obj =
  ao_open :: bool
  ao_running :: bool
  ao_authID :: string
  ao_counter :: u64
  ao_caller :: u64

text \<open>
  \<open>ag_ids\<close> is the order in which a range over the map finds its keys (the code must not depend
  on it), \<open>ag_dirs\<close> the temporary directories that exist, \<open>ag_readers\<close> the running readers with
  connection, session object and connection id.
\<close>

record agent = world +
  ag_sessions :: "(string, \<lparr>as_sockPath :: string, as_dir :: string\<rparr>) ls_table"
  ag_ids :: "string list"
  ag_objs :: "nat \<Rightarrow> agent_obj option"
  ag_next_obj :: nat
  ag_dirs :: "string set"
  ag_readers :: "(nat \<times> nat \<times> u64) list"

section \<open>Operations on the sessions\<close>

definition ag_upd_obj :: "nat \<Rightarrow> (agent_obj \<Rightarrow> agent_obj) \<Rightarrow> ('a agent_scheme) \<Rightarrow> ('a agent_scheme)" where
  "ag_upd_obj l f w = w\<lparr>ag_objs := (ag_objs w)(l := map_option f (ag_objs w l))\<rparr>"

definition ag_currentCaller :: "('a agent_scheme) \<Rightarrow> nat \<Rightarrow> u64 option" where
  "ag_currentCaller w l = map_option ao_caller (ag_objs w l)"

definition ag_takeOver :: "nat \<Rightarrow> u64 \<Rightarrow> ('a agent_scheme) \<Rightarrow> ('a agent_scheme)" where
  "ag_takeOver l caller w = ag_upd_obj l (\<lambda>x. x\<lparr>ao_caller := caller\<rparr>) w"

definition ag_owns :: "('a agent_scheme) \<Rightarrow> u64 \<Rightarrow> string \<Rightarrow> bool" where
  "ag_owns w callerID authID =
     (case ag_sessions w authID of None \<Rightarrow> False | Some s \<Rightarrow> ag_currentCaller w (ls_ln s) = Some callerID)"

definition ag_store :: "string \<Rightarrow> agent_session \<Rightarrow> ('a agent_scheme) \<Rightarrow> ('a agent_scheme)" where
  "ag_store authID s w =
     w\<lparr>ag_sessions := (ag_sessions w)(authID := Some s), ag_ids := List.insert authID (ag_ids w)\<rparr>"

definition ag_fetch :: "('a agent_scheme) \<Rightarrow> string \<Rightarrow> agent_session option" where
  "ag_fetch w authID = ag_sessions w authID"

definition ag_storePending ::
    "string \<Rightarrow> u64 \<Rightarrow> nat \<Rightarrow> bytes \<Rightarrow> ('a agent_scheme) \<Rightarrow> ('a agent_scheme)" where
  "ag_storePending authID connID conn serverPrivKey w =
     w\<lparr>ag_sessions := ls_storePending authID connID conn serverPrivKey (ag_sessions w)\<rparr>"

definition ag_fetchPending :: "('a agent_scheme) \<Rightarrow> string \<Rightarrow> u64 \<Rightarrow> reversePendingConn option" where
  "ag_fetchPending w authID connID = ls_fetchPending (ag_sessions w) (authID, connID)"

definition ag_activateConn :: "string \<Rightarrow> u64 \<Rightarrow> nat \<Rightarrow> ('a agent_scheme) \<Rightarrow> ('a agent_scheme)" where
  "ag_activateConn authID connID pf w =
     w\<lparr>ag_sessions := ls_activateConn authID connID pf (ag_sessions w)\<rparr>"

definition ag_fetchActive :: "('a agent_scheme) \<Rightarrow> string \<Rightarrow> u64 \<Rightarrow> nat option" where
  "ag_fetchActive w authID connID = ls_fetchActive (ag_sessions w) (authID, connID)"

definition ag_removeActive :: "string \<Rightarrow> u64 \<Rightarrow> ('a agent_scheme) \<Rightarrow> ('a agent_scheme)" where
  "ag_removeActive authID connID w =
     w\<lparr>ag_sessions := ls_removeActive authID connID (ag_sessions w)\<rparr>"

definition ag_close :: "agent_session \<Rightarrow> ('a agent_scheme) \<Rightarrow> ('a agent_scheme)" where
  "ag_close s w =
     (let w1 = ls_close s (ag_upd_obj (ls_ln s) (\<lambda>x. x\<lparr>ao_open := False\<rparr>) w)
      in w1\<lparr>ag_dirs := ag_dirs w1 - {as_dir s}\<rparr>)"

text \<open>\<open>stop\<close>: the first session in the map's order that the caller owns, if any.\<close>

definition ag_stop :: "u64 \<Rightarrow> ('a agent_scheme) \<Rightarrow> ('a agent_scheme)" where
  "ag_stop callerID w =
     (case List.find (ag_owns w callerID) (ag_ids w) of
        None \<Rightarrow> w
      | Some authID \<Rightarrow>
          (case ag_sessions w authID of
             None \<Rightarrow> w
           | Some s \<Rightarrow> ag_close s (w\<lparr>ag_sessions := (ag_sessions w)(authID := None),
                                    ag_ids := remove1 authID (ag_ids w)\<rparr>)))"

definition ag_socketPath :: "('a agent_scheme) \<Rightarrow> u64 \<Rightarrow> string option" where
  "ag_socketPath w callerID =
     (case List.find (ag_owns w callerID) (ag_ids w) of
        None \<Rightarrow> None
      | Some authID \<Rightarrow> map_option as_sockPath (ag_sessions w authID))"

section \<open>The accept goroutine\<close>

definition ag_accept_new ::
    "crypto \<Rightarrow> (wval list \<Rightarrow> go_error option) \<Rightarrow> bytes result \<Rightarrow> agent_obj \<Rightarrow> u64 \<Rightarrow> nat \<Rightarrow>
     ('a agent_scheme) \<Rightarrow> ('a agent_scheme)" where
  "ag_accept_new cr outcome rnd x connID conn w =
     (case CreateX25519KeyPair cr rnd of
        Inl _ \<Rightarrow> close_sock conn w
      | Inr (serverPubKey, serverPrivKey) \<Rightarrow>
          (case send_progress outcome (ao_caller x) [VStr msgConnect, VUInt connID, VBytes serverPubKey]
                  (ag_storePending (ao_authID x) connID conn serverPrivKey w) of
             (None, w') \<Rightarrow> w'
           | (Some _, w') \<Rightarrow> close_sock conn w'))"

definition ag_accept ::
    "crypto \<Rightarrow> (wval list \<Rightarrow> go_error option) \<Rightarrow> bytes result \<Rightarrow> nat \<Rightarrow> sock result \<Rightarrow>
     ('a agent_scheme) \<Rightarrow> ('a agent_scheme)" where
  "ag_accept cr outcome rnd l accepted w =
     (case ag_objs w l of
        None \<Rightarrow> w
      | Some x \<Rightarrow>
          if \<not> ao_running x then w
          else if \<not> ao_open x then ag_upd_obj l (\<lambda>x. x\<lparr>ao_running := False\<rparr>) w
          else (case accepted of
                  Inl _ \<Rightarrow> ag_upd_obj l (\<lambda>x. x\<lparr>ao_running := False\<rparr>) w
                | Inr k \<Rightarrow>
                    (case alloc_sock k (ag_upd_obj l (\<lambda>x. x\<lparr>ao_counter := ao_counter x + 1\<rparr>) w) of
                       (conn, w1) \<Rightarrow> ag_accept_new cr outcome rnd x (ao_counter x + 1) conn w1)))"

section \<open>The handler\<close>

text \<open>The outcomes of the system calls that set the socket up.\<close>

record agent_env =
  ae_mkdir :: "string result"
  ae_chmod_dir :: "go_error option"
  ae_listen :: "go_error option"
  ae_chmod_sock :: "go_error option"
  ae_send :: "wval list \<Rightarrow> go_error option"

definition ag_setup :: "agent_env \<Rightarrow> invocation \<Rightarrow> ('a agent_scheme) \<Rightarrow> ('a agent_scheme)" where
  "ag_setup env iv w =
     (let callerID = inv_Caller iv;
          refuse = (\<lambda>v. snd (send_progress (ae_send env) callerID [VStr msgClose, VUInt 0] v))
      in case ae_mkdir env of
        Inl _ \<Rightarrow> refuse w
      | Inr dir \<Rightarrow>
          (let w1 = w\<lparr>ag_dirs := insert dir (ag_dirs w)\<rparr>;
               undo = w1\<lparr>ag_dirs := ag_dirs w1 - {dir}\<rparr>
           in if ae_chmod_dir env \<noteq> None then refuse undo
              else if ae_listen env \<noteq> None then refuse undo
              else if ae_chmod_sock env \<noteq> None then refuse undo
              else
                (let sockPath = dir @ ''/agent.sock'';
                     l = ag_next_obj w1;
                     w2 = w1\<lparr>ag_next_obj := Suc l,
                       ag_objs := (ag_objs w1)(l := Some \<lparr>ao_open = True, ao_running = False,
                         ao_authID = inv_CallerAuthID iv, ao_counter = 0, ao_caller = callerID\<rparr>)\<rparr>;
                     w3 = ag_store (inv_CallerAuthID iv)
                       \<lparr>ls_ln = l, ls_pending = fmempty, ls_active = fmempty,
                        as_sockPath = sockPath, as_dir = dir\<rparr> w2
                 in case send_progress (ae_send env) callerID [VStr msgReady, VStr sockPath] w3 of
                      (Some _, w4) \<Rightarrow> ag_stop callerID w4
                    | (None, w4) \<Rightarrow> ag_upd_obj l (\<lambda>x. x\<lparr>ao_running := True\<rparr>) w4)))"

definition ag_connect :: "agent_env \<Rightarrow> invocation \<Rightarrow> ('a agent_scheme) \<Rightarrow> ('a agent_scheme)" where
  "ag_connect env iv w =
     (case ag_fetch w (inv_CallerAuthID iv) of
        Some existing \<Rightarrow>
          (case send_progress (ae_send env) (inv_Caller iv) [VStr msgReady, VStr (as_sockPath existing)]
                  (ag_takeOver (ls_ln existing) (inv_Caller iv) w) of
             (Some _, w') \<Rightarrow> ag_stop (inv_Caller iv) w'
           | (None, w') \<Rightarrow> w')
      | None \<Rightarrow> ag_setup env iv w)"

definition ag_key :: "crypto \<Rightarrow> invocation \<Rightarrow> ('a agent_scheme) \<Rightarrow> ('a agent_scheme)" where
  "ag_key cr iv w =
     (case ag_fetch w (inv_CallerAuthID iv) of
        None \<Rightarrow> w
      | Some session \<Rightarrow>
     (case inv_ArgUInt64 iv 1 of
        Inl _ \<Rightarrow> w
      | Inr connID \<Rightarrow>
     (case inv_ArgBytes iv 2 of
        Inl _ \<Rightarrow> w
      | Inr clientPubKey \<Rightarrow>
     (case ag_fetchPending w (inv_CallerAuthID iv) connID of
        None \<Rightarrow> w
      | Some pc \<Rightarrow>
     (case derivePortForwardKeys cr (rp_serverPrivKey pc) clientPubKey of
        Inl _ \<Rightarrow> close_sock (rp_conn pc) w
      | Inr (sendKey, receiveKey) \<Rightarrow>
          (case alloc_pf (newPortForwardConn (rp_conn pc) sendKey receiveKey) w of
             (p, w1) \<Rightarrow>
               (ag_activateConn (inv_CallerAuthID iv) connID p w1)\<lparr>
                  ag_readers := ag_readers w @ [(p, ls_ln session, connID)]\<rparr>))))))"

definition ag_data :: "crypto \<Rightarrow> invocation \<Rightarrow> ('a agent_scheme) \<Rightarrow> ('a agent_scheme)" where
  "ag_data cr iv w =
     (case inv_ArgUInt64 iv 1 of
        Inl _ \<Rightarrow> w
      | Inr connID \<Rightarrow>
     (case ag_fetchActive w (inv_CallerAuthID iv) connID of
        None \<Rightarrow> w
      | Some p \<Rightarrow> receive_data cr iv p w))"

definition ag_close_conn :: "invocation \<Rightarrow> ('a agent_scheme) \<Rightarrow> ('a agent_scheme)" where
  "ag_close_conn iv w =
     (case inv_ArgUInt64 iv 1 of
        Inl _ \<Rightarrow> w
      | Inr connID \<Rightarrow>
          ag_removeActive (inv_CallerAuthID iv) connID
            (case ag_fetchActive w (inv_CallerAuthID iv) connID of None \<Rightarrow> w | Some p \<Rightarrow> pf_close p w))"

definition handleAgentForward ::
    "crypto \<Rightarrow> agent_env \<Rightarrow> invocation \<Rightarrow> ('a agent_scheme) \<Rightarrow> ('a agent_scheme) \<times> inv_result" where
  "handleAgentForward cr env iv w =
     (if \<not> inv_Progress iv then (ag_stop (inv_Caller iv) w, InvocationResult [])
      else case inv_ArgString iv 0 of
        Inl _ \<Rightarrow> (w, no_result)
      | Inr msgType \<Rightarrow>
          (if msgType = msgConnect then (ag_connect env iv w, no_result)
           else if msgType = msgKeyExchange then (ag_key cr iv w, no_result)
           else if msgType = msgData then (ag_data cr iv w, no_result)
           else if msgType = msgClose then (ag_close_conn iv w, no_result)
           else (w, no_result)))"

text \<open>A reader round sends through whatever invocation the session has at that moment.\<close>

definition ag_reader ::
    "crypto \<Rightarrow> (wval list \<Rightarrow> go_error option) \<Rightarrow> nat \<Rightarrow> nat \<Rightarrow> u64 \<Rightarrow> bytes result \<Rightarrow> bytes \<Rightarrow>
     go_error option \<Rightarrow> ('a agent_scheme) \<Rightarrow> ('a agent_scheme)" where
  "ag_reader cr outcome p l connID rnd chunk rerr w =
     (case ag_currentCaller w l of
        None \<Rightarrow> w
      | Some caller \<Rightarrow>
          (case reader_round cr outcome caller connID p rnd chunk rerr w of
             (True, w') \<Rightarrow> w'
           | (False, w') \<Rightarrow> w'\<lparr>ag_readers := remove1 (p, l, connID) (ag_readers w')\<rparr>))"

section \<open>Steps and the invariant\<close>

text \<open>
  The router gives every session one authentication id for its life (\<open>auth\<close>), and
  \<open>os.MkdirTemp\<close> returns a directory that did not exist.
\<close>

inductive ag_step :: "crypto \<Rightarrow> (u64 \<Rightarrow> string) \<Rightarrow> agent \<Rightarrow> agent \<Rightarrow> bool"
  for cr :: crypto and auth :: "u64 \<Rightarrow> string" where
  ag_handles: "inv_CallerAuthID iv = auth (inv_Caller iv) \<Longrightarrow> (\<And>d. ae_mkdir env = Inr d \<Longrightarrow> d \<notin> ag_dirs w) \<Longrightarrow>
     ag_step cr auth w (fst (handleAgentForward cr env iv w))"
| ag_accepts: "ag_step cr auth w (ag_accept cr outcome rnd l accepted w)"
| ag_reads: "(p, l, connID) \<in> set (ag_readers w) \<Longrightarrow>
     ag_step cr auth w (ag_reader cr outcome p l connID rnd chunk rerr w)"
| ag_leaves: "ag_step cr auth w (ag_stop caller w)"

definition ag_init :: agent where
  "ag_init = \<lparr>w_socks = (\<lambda>_. None), w_next_sock = 0, w_pfs = (\<lambda>_. None), w_next_pf = 0,
     w_readers = [], w_sent = [], ag_sessions = (\<lambda>_. None), ag_ids = [], ag_objs = (\<lambda>_. None),
     ag_next_obj = 0, ag_dirs = {}, ag_readers = []\<rparr>"

inductive ag_reachable :: "crypto \<Rightarrow> (u64 \<Rightarrow> string) \<Rightarrow> agent \<Rightarrow> bool"
  for cr :: crypto and auth :: "u64 \<Rightarrow> string" where
  ag_start: "ag_reachable cr auth ag_init"
| ag_next: "ag_reachable cr auth w \<Longrightarrow> ag_step cr auth w w' \<Longrightarrow> ag_reachable cr auth w'"

text \<open>
  The registry: the key order matches the table; each session has an open object of its own
  authentication id, driven by a caller of that id; the directories that exist are exactly the
  sessions' directories, one each. It depends on a session's identity only, not on its
  connections.
\<close>

definition sess_id :: "agent_session \<Rightarrow> nat \<times> string \<times> string" where
  "sess_id s = (ls_ln s, as_sockPath s, as_dir s)"

definition sess_ids :: "('a agent_scheme) \<Rightarrow> string \<Rightarrow> (nat \<times> string \<times> string) option" where
  "sess_ids w = (\<lambda>a. map_option sess_id (ag_sessions w a))"

definition ag_reg ::
    "(u64 \<Rightarrow> string) \<Rightarrow> string list \<Rightarrow> (nat \<Rightarrow> agent_obj option) \<Rightarrow> nat \<Rightarrow> string set \<Rightarrow>
     (string \<Rightarrow> (nat \<times> string \<times> string) option) \<Rightarrow> bool" where
  "ag_reg auth ids objs nxt dirs f \<longleftrightarrow>
     distinct ids \<and> (\<forall>a. a \<in> set ids \<longleftrightarrow> f a \<noteq> None) \<and>
     (\<forall>a l sock dir. f a = Some (l, sock, dir) \<longrightarrow>
        l < nxt \<and> dir \<in> dirs \<and> sock = dir @ ''/agent.sock'' \<and>
        (\<exists>x. objs l = Some x \<and> ao_authID x = a \<and> ao_open x \<and> auth (ao_caller x) = a)) \<and>
     (\<forall>d \<in> dirs. \<exists>a l sock. f a = Some (l, sock, d)) \<and>
     (\<forall>a b l l' sock sock' d. f a = Some (l, sock, d) \<longrightarrow> f b = Some (l', sock', d) \<longrightarrow> a = b)"

definition ag_inv :: "(u64 \<Rightarrow> string) \<Rightarrow> ('a agent_scheme) \<Rightarrow> bool" where
  "ag_inv auth w \<longleftrightarrow>
     lst_refs (ag_sessions w) w \<and>
     ag_reg auth (ag_ids w) (ag_objs w) (ag_next_obj w) (ag_dirs w) (sess_ids w)"

lemma ag_reg_obj:
  assumes "ag_reg auth ids objs nxt dirs f"
    and "\<And>x. objs l = Some x \<Longrightarrow> ao_authID (g x) = ao_authID x \<and> ao_open (g x) = ao_open x \<and>
           (auth (ao_caller (g x)) = ao_authID x \<or> ao_caller (g x) = ao_caller x)"
  shows "ag_reg auth ids (objs(l := map_option g (objs l))) nxt dirs f"
proof -
  have "\<exists>x'. (objs(l := map_option g (objs l))) l0 = Some x' \<and> ao_authID x' = a \<and> ao_open x' \<and> auth (ao_caller x') = a"
    if "objs l0 = Some x" "ao_authID x = a" "ao_open x" "auth (ao_caller x) = a" for l0 x a
    using that assms(2) [of x] by auto
  moreover have "l0 < nxt \<and> dir \<in> dirs \<and> sock = dir @ ''/agent.sock'' \<and>
      (\<exists>x. objs l0 = Some x \<and> ao_authID x = a \<and> ao_open x \<and> auth (ao_caller x) = a)"
    if "f a = Some (l0, sock, dir)" for a l0 sock dir
    using assms(1) that unfolding ag_reg_def by blast
  ultimately have "l0 < nxt \<and> dir \<in> dirs \<and> sock = dir @ ''/agent.sock'' \<and>
      (\<exists>x'. (objs(l := map_option g (objs l))) l0 = Some x' \<and> ao_authID x' = a \<and> ao_open x' \<and> auth (ao_caller x') = a)"
    if "f a = Some (l0, sock, dir)" for a l0 sock dir
    using that by blast
  with assms(1) show ?thesis unfolding ag_reg_def by blast
qed

lemma ag_reg_store:
  assumes reg: "ag_reg auth ids objs nxt dirs f" and "f a = None" and "dir \<notin> dirs" and "auth c = a"
  shows "ag_reg auth (List.insert a ids) (objs(nxt := Some \<lparr>ao_open = True, ao_running = r, ao_authID = a,
      ao_counter = 0, ao_caller = c\<rparr>)) (Suc nxt) (insert dir dirs) (f(a := Some (nxt, dir @ ''/agent.sock'', dir)))"
proof -
  have a: "a \<notin> set ids" and old: "f b = Some (l, sock, d) \<Longrightarrow> l < nxt \<and> d \<in> dirs \<and> sock = d @ ''/agent.sock'' \<and>
        (\<exists>x. objs l = Some x \<and> ao_authID x = b \<and> ao_open x \<and> auth (ao_caller x) = b)"
    and dirs: "d \<in> dirs \<Longrightarrow> \<exists>a l sock. f a = Some (l, sock, d)"
    and uniq: "f b = Some (l, sock, d) \<Longrightarrow> f b' = Some (l', sock', d) \<Longrightarrow> b = b'" for b b' l l' sock sock' d
    using reg assms(2) unfolding ag_reg_def by blast+
  let ?f = "f(a := Some (nxt, dir @ ''/agent.sock'', dir))"
  show ?thesis
    unfolding ag_reg_def
  proof (intro conjI allI impI ballI)
    show "distinct (List.insert a ids)" using reg by (simp add: ag_reg_def)
    show "b \<in> set (List.insert a ids) \<longleftrightarrow> ?f b \<noteq> None" for b using reg by (auto simp: ag_reg_def)
  next
    fix b l sock d assume "?f b = Some (l, sock, d)"
    then have "b = a \<and> l = nxt \<and> sock = dir @ ''/agent.sock'' \<and> d = dir \<or> b \<noteq> a \<and> f b = Some (l, sock, d)"
      by (auto split: if_splits)
    then show "l < Suc nxt" "d \<in> insert dir dirs" "sock = d @ ''/agent.sock''"
      "\<exists>x. (objs(nxt := Some \<lparr>ao_open = True, ao_running = r, ao_authID = a, ao_counter = 0, ao_caller = c\<rparr>)) l = Some x \<and>
         ao_authID x = b \<and> ao_open x \<and> auth (ao_caller x) = b"
      using old [of b l sock d] assms(4) by auto
  next
    fix d assume "d \<in> insert dir dirs"
    then show "\<exists>b l sock. ?f b = Some (l, sock, d)"
      using dirs [of d] assms(2) by (cases "d = dir") (auto, metis option.distinct(1))
  next
    fix b b' l l' sock sock' d assume "?f b = Some (l, sock, d)" "?f b' = Some (l', sock', d)"
    then show "b = b'"
      using uniq [of b l sock d b' l' sock'] old [of b l sock d] old [of b' l' sock' d] assms(3)
      by (auto split: if_splits)
  qed
qed

lemma ag_reg_drop:
  assumes reg: "ag_reg auth ids objs nxt dirs f" and fa: "f a = Some (l0, sock0, dir)"
  shows "ag_reg auth (remove1 a ids) (objs(l0 := map_option (\<lambda>x. x\<lparr>ao_open := False\<rparr>) (objs l0))) nxt (dirs - {dir}) (f(a := None))"
proof -
  have old: "f b = Some (l, sock, d) \<Longrightarrow> l < nxt \<and> d \<in> dirs \<and> sock = d @ ''/agent.sock'' \<and>
        (\<exists>x. objs l = Some x \<and> ao_authID x = b \<and> ao_open x \<and> auth (ao_caller x) = b)"
    and dirs: "d \<in> dirs \<Longrightarrow> \<exists>a l sock. f a = Some (l, sock, d)"
    and uniq: "f b = Some (l, sock, d) \<Longrightarrow> f b' = Some (l', sock', d) \<Longrightarrow> b = b'" for b b' l l' sock sock' d
    using reg unfolding ag_reg_def by blast+
  show ?thesis
    unfolding ag_reg_def
  proof (intro conjI allI impI ballI)
    show "distinct (remove1 a ids)" using reg by (simp add: ag_reg_def)
    show "b \<in> set (remove1 a ids) \<longleftrightarrow> (f(a := None)) b \<noteq> None" for b
      using reg by (auto simp: ag_reg_def)
  next
    fix b l sock d assume "(f(a := None)) b = Some (l, sock, d)"
    then have b: "b \<noteq> a" "f b = Some (l, sock, d)" by (auto split: if_splits)
    obtain x where x: "objs l = Some x" "ao_authID x = b" "ao_open x" "auth (ao_caller x) = b"
      using old [OF b(2)] by blast
    have "l \<noteq> l0" using old [OF fa] x b(1) by auto
    then show "\<exists>x. (objs(l0 := map_option (\<lambda>x. x\<lparr>ao_open := False\<rparr>) (objs l0))) l = Some x \<and>
        ao_authID x = b \<and> ao_open x \<and> auth (ao_caller x) = b" using x by auto
    show "l < nxt" "sock = d @ ''/agent.sock''" using old [OF b(2)] by simp_all
    have "d \<noteq> dir" using uniq [OF b(2), of a l0 sock0] fa b(1) by auto
    then show "d \<in> dirs - {dir}" using old [OF b(2)] by simp
  next
    fix d assume d: "d \<in> dirs - {dir}"
    then obtain b l sock where "f b = Some (l, sock, d)" using dirs by blast
    moreover have "b \<noteq> a" using calculation fa d by auto
    ultimately show "\<exists>b l sock. (f(a := None)) b = Some (l, sock, d)" by auto
  next
    fix b b' l l' sock sock' d assume "(f(a := None)) b = Some (l, sock, d)" "(f(a := None)) b' = Some (l', sock', d)"
    then show "b = b'" using uniq by (auto split: if_splits)
  qed
qed

section \<open>Preservation\<close>

lemma ag_fields_more:
  assumes "world.more w' = world.more w"
  shows "ag_sessions w' = ag_sessions w" "ag_ids w' = ag_ids w" "ag_objs w' = ag_objs w"
    "ag_next_obj w' = ag_next_obj w" "ag_dirs w' = ag_dirs w" "ag_readers w' = ag_readers w"
  using assms by (cases w; cases w'; simp)+

lemma ag_world_cong:
  "lst_refs t (w\<lparr>ag_sessions := m\<rparr>) = lst_refs t w" "lst_refs t (w\<lparr>ag_ids := i\<rparr>) = lst_refs t w"
  "lst_refs t (w\<lparr>ag_objs := ob\<rparr>) = lst_refs t w" "lst_refs t (w\<lparr>ag_next_obj := n\<rparr>) = lst_refs t w"
  "lst_refs t (w\<lparr>ag_dirs := d\<rparr>) = lst_refs t w" "lst_refs t (w\<lparr>ag_readers := rs\<rparr>) = lst_refs t w"
  by (rule lst_refs_cong; simp)+

text \<open>Steps on the stores only, and steps on the connections of the sessions only.\<close>

lemma ag_inv_store_step:
  assumes "ag_inv auth w" and "world.more w' = world.more w" and "lst_refs (ag_sessions w) w'"
  shows "ag_inv auth w'"
  using assms ag_fields_more [OF assms(2)] by (simp add: ag_inv_def sess_ids_def)

lemma ag_inv_only_conn: "ag_inv auth w \<Longrightarrow> only_conn p w w' \<Longrightarrow> ag_inv auth w'"
  by (rule ag_inv_store_step) (auto simp: ag_inv_def only_conn_def intro: lst_refs_only_conn)

lemma sess_ids_conns [simp]:
  "sess_ids (w\<lparr>ag_sessions := ls_storePending a n r pr (ag_sessions w)\<rparr>) = sess_ids w"
  "sess_ids (w\<lparr>ag_sessions := ls_activateConn a n p (ag_sessions w)\<rparr>) = sess_ids w"
  "sess_ids (w\<lparr>ag_sessions := ls_removeActive a n (ag_sessions w)\<rparr>) = sess_ids w"
  by (auto simp: sess_ids_def sess_id_def ls_storePending_def ls_activateConn_def ls_removeActive_def
      fun_eq_iff split: option.split)

lemma sess_ids_frame [simp]:
  "sess_ids (w\<lparr>ag_ids := i\<rparr>) = sess_ids w" "sess_ids (w\<lparr>ag_objs := ob\<rparr>) = sess_ids w"
  "sess_ids (w\<lparr>ag_next_obj := n\<rparr>) = sess_ids w" "sess_ids (w\<lparr>ag_dirs := d\<rparr>) = sess_ids w"
  "sess_ids (w\<lparr>ag_readers := rs\<rparr>) = sess_ids w"
  by (simp_all add: sess_ids_def)

lemma ag_inv_readers [simp]: "ag_inv auth (w\<lparr>ag_readers := rs\<rparr>) = ag_inv auth w"
  by (simp add: ag_inv_def ag_world_cong)

lemma ag_inv_close_sock [simp]: "ag_inv auth w \<Longrightarrow> ag_inv auth (close_sock r w)"
  by (rule ag_inv_store_step [of auth w]) (simp_all add: ag_inv_def)

lemma ag_inv_send: "ag_inv auth w \<Longrightarrow> ag_inv auth (snd (send_progress oc c args w))"
  by (rule ag_inv_only_conn) auto

lemma ag_inv_obj:
  assumes "ag_inv auth w"
    and "\<And>x. ag_objs w l = Some x \<Longrightarrow> ao_authID (g x) = ao_authID x \<and> ao_open (g x) = ao_open x \<and>
           (auth (ao_caller (g x)) = ao_authID x \<or> ao_caller (g x) = ao_caller x)"
  shows "ag_inv auth (ag_upd_obj l g w)"
  using assms ag_reg_obj [of auth "ag_ids w" "ag_objs w" _ _ _ l g] by (simp add: ag_inv_def ag_upd_obj_def ag_world_cong)

text \<open>With one authentication id per caller, the session a caller owns is the one of its id.\<close>

lemma ag_inv_session:
  assumes "ag_inv auth w" and "ag_sessions w a = Some s"
  shows "a \<in> set (ag_ids w)" and "as_dir s \<in> ag_dirs w" and "as_sockPath s = as_dir s @ ''/agent.sock''"
    and "ls_ln s < ag_next_obj w"
    and "\<exists>x. ag_objs w (ls_ln s) = Some x \<and> ao_authID x = a \<and> ao_open x \<and> auth (ao_caller x) = a"
proof -
  have "sess_ids w a = Some (ls_ln s, as_sockPath s, as_dir s)"
    using assms(2) by (simp add: sess_ids_def sess_id_def)
  then show "a \<in> set (ag_ids w)" "as_dir s \<in> ag_dirs w" "as_sockPath s = as_dir s @ ''/agent.sock''"
    "ls_ln s < ag_next_obj w" "\<exists>x. ag_objs w (ls_ln s) = Some x \<and> ao_authID x = a \<and> ao_open x \<and> auth (ao_caller x) = a"
    using assms(1) unfolding ag_inv_def ag_reg_def by blast+
qed

lemma ag_owns_auth: "ag_inv auth w \<Longrightarrow> ag_owns w c a \<Longrightarrow> a = auth c"
  using ag_inv_session(5) [of auth w a]
  by (fastforce simp: ag_owns_def ag_currentCaller_def split: option.splits)

lemma find_owner:
  assumes "ag_inv auth w"
  shows "List.find (ag_owns w c) (ag_ids w) = (if ag_owns w c (auth c) then Some (auth c) else None)"
proof (cases "ag_owns w c (auth c)")
  case True
  then have mem: "auth c \<in> set (ag_ids w)"
    using ag_inv_session(1) [OF assms] by (auto simp: ag_owns_def split: option.splits)
  have "List.find (ag_owns w c) xs = Some (auth c)" if "auth c \<in> set xs" for xs
    using that by (induction xs) (auto simp: True dest: ag_owns_auth [OF assms])
  with True mem show ?thesis by simp
next
  case False
  then have "List.find (ag_owns w c) xs = None" for xs
    using ag_owns_auth [OF assms, of c] by (auto simp: find_None_iff)
  with False show ?thesis by simp
qed

lemma ag_stop_eq:
  assumes "ag_inv auth w"
  shows "ag_stop c w =
     (if ag_owns w c (auth c)
      then ag_close (the (ag_sessions w (auth c)))
             (w\<lparr>ag_sessions := (ag_sessions w)(auth c := None), ag_ids := remove1 (auth c) (ag_ids w)\<rparr>)
      else w)"
  using find_owner [OF assms, of c] by (auto simp: ag_stop_def ag_owns_def split: option.splits)

lemma ag_inv_close:
  assumes inv: "ag_inv auth w" and s: "ag_sessions w a = Some s"
  shows "ag_inv auth (ag_close s (w\<lparr>ag_sessions := (ag_sessions w)(a := None), ag_ids := remove1 a (ag_ids w)\<rparr>))"
proof -
  let ?v = "ag_upd_obj (ls_ln s) (\<lambda>x. x\<lparr>ao_open := False\<rparr>)
      (w\<lparr>ag_sessions := (ag_sessions w)(a := None), ag_ids := remove1 a (ag_ids w)\<rparr>)"
  have fields: "ag_sessions (ls_close s ?v) = (ag_sessions w)(a := None)"
    "ag_ids (ls_close s ?v) = remove1 a (ag_ids w)" "ag_next_obj (ls_close s ?v) = ag_next_obj w"
    "ag_objs (ls_close s ?v) = (ag_objs w)(ls_ln s := map_option (\<lambda>x. x\<lparr>ao_open := False\<rparr>) (ag_objs w (ls_ln s)))"
    "ag_dirs (ls_close s ?v) = ag_dirs w"
    using ag_fields_more [of "ls_close s ?v" ?v] by (simp_all add: ag_upd_obj_def)
  have "lst_refs (ag_sessions w) ?v" using inv by (simp add: ag_inv_def ag_upd_obj_def ag_world_cong)
  then have "lst_refs (ag_sessions w) (ls_close s ?v)" by (rule lst_refs_close)
  then have refs: "lst_refs ((ag_sessions w)(a := None)) (ls_close s ?v)"
    by (rule lst_refs_shrink) (auto simp: fetch_drop split: if_splits)
  have "sess_ids w a = Some (ls_ln s, as_sockPath s, as_dir s)" using s by (simp add: sess_ids_def sess_id_def)
  from ag_reg_drop [OF conjunct2 [OF inv [unfolded ag_inv_def]] this]
  have "ag_reg auth (remove1 a (ag_ids w)) ((ag_objs w)(ls_ln s := map_option (\<lambda>x. x\<lparr>ao_open := False\<rparr>) (ag_objs w (ls_ln s))))
      (ag_next_obj w) (ag_dirs w - {as_dir s}) ((sess_ids w)(a := None))" .
  moreover have "sess_ids (ls_close s ?v) = (sess_ids w)(a := None)"
    by (auto simp: sess_ids_def fields fun_eq_iff)
  ultimately show ?thesis
    using refs by (simp add: ag_close_def Let_def ag_inv_def ag_world_cong fields)
qed

lemma ag_inv_stop: "ag_inv auth w \<Longrightarrow> ag_inv auth (ag_stop c w)"
  using ag_inv_close [of auth w "auth c"] by (auto simp: ag_stop_eq ag_owns_def split: option.splits)

lemma ag_inv_conns:
  assumes inv: "ag_inv auth w" and "lst_refs m w" and "sess_ids (w\<lparr>ag_sessions := m\<rparr>) = sess_ids w"
  shows "ag_inv auth (w\<lparr>ag_sessions := m\<rparr>)"
  using assms by (simp add: ag_inv_def ag_world_cong)

lemma ag_inv_removeActive: "ag_inv auth w \<Longrightarrow> ag_inv auth (ag_removeActive a n w)"
  unfolding ag_removeActive_def
proof (rule ag_inv_conns, assumption)
  assume "ag_inv auth w"
  then have "lst_refs (ag_sessions w) w" by (simp add: ag_inv_def)
  then show "lst_refs (ls_removeActive a n (ag_sessions w)) w"
    by (rule lst_refs_shrink) (auto simp: stages.act_retire stages.pend_retire split: if_splits)
qed simp

lemma ag_inv_close_conn: "ag_inv auth w \<Longrightarrow> ag_inv auth (ag_close_conn iv w)"
  using ag_inv_only_conn [OF _ only_conn_pf_close, of auth w]
  by (simp add: ag_close_conn_def ag_inv_removeActive split: sum.split option.split)

lemma ag_inv_data: "ag_inv auth w \<Longrightarrow> ag_inv auth (ag_data cr iv w)"
  using ag_inv_only_conn [OF _ conjunct1 [OF receive_data_only_conn], of auth w cr iv]
  by (simp add: ag_data_def split: sum.split option.split)

lemma ag_inv_key: "ag_inv auth w \<Longrightarrow> ag_inv auth (ag_key cr iv w)"
proof -
  assume inv: "ag_inv auth w"
  have "ag_inv auth (ag_activateConn a n p w1)"
    if b: "alloc_pf (newPortForwardConn (rp_conn pc) sk rk) w = (p, w1)" and pc: "ag_fetchPending w a n = Some pc"
    for a n p w1 pc sk rk
  proof -
    note more = alloc_pf_simps(8) [OF b]
    have "lst_refs (ag_sessions w) w" using inv by (simp add: ag_inv_def)
    from lst_refs_activate [OF this pc [unfolded ag_fetchPending_def] b]
    have refs: "lst_refs (ls_activateConn a n p (ag_sessions w1)) w1" by (simp add: ag_fields_more(1) [OF more])
    have "sess_ids (w1\<lparr>ag_sessions := ls_activateConn a n p (ag_sessions w1)\<rparr>) = sess_ids w"
      unfolding sess_ids_conns by (simp add: sess_ids_def ag_fields_more(1) [OF more])
    then show ?thesis
      using inv refs ag_fields_more [OF more]
      by (simp add: ag_inv_def ag_activateConn_def ag_world_cong)
  qed
  with inv show ?thesis
    by (auto simp: ag_key_def split: option.split sum.split prod.split)
qed

lemma ag_inv_accept_new:
  assumes inv: "ag_inv auth w" and a: "alloc_sock k w = (conn, w1)"
  shows "ag_inv auth (ag_accept_new cr oc rnd x connID conn w1)"
proof -
  note more = alloc_sock_simps(8) [OF a]
  have inv1: "ag_inv auth w1"
  proof (rule ag_inv_store_step [OF inv more])
    show "lst_refs (ag_sessions w) w1"
      by (rule lst_refs_alloc_sock [OF _ a]) (use inv in \<open>simp add: ag_inv_def\<close>)
  qed
  have "ag_inv auth (ag_storePending b n conn pr w1)" for b n pr
  proof -
    have "lst_refs (ls_storePending b n conn pr (ag_sessions w1)) w1"
      unfolding ag_fields_more(1) [OF more]
      by (rule lst_refs_accept [OF _ a]) (use inv in \<open>simp add: ag_inv_def\<close>)
    then show ?thesis
      unfolding ag_storePending_def by (rule ag_inv_conns [OF inv1]) simp
  qed
  then have "ag_inv auth (snd (send_progress oc c args (ag_storePending b n conn pr w1)))" for c args b n pr
    by (rule ag_inv_send)
  then have sent: "send_progress oc c args (ag_storePending b n conn pr w1) = (res, w') \<Longrightarrow> ag_inv auth w'" for c args b n pr res w'
    by (metis snd_conv)
  show ?thesis
    using ag_inv_close_sock [OF inv1] sent
    by (auto simp: ag_accept_new_def split: sum.split prod.split option.split intro: ag_inv_close_sock)
qed

lemma ag_inv_accept: "ag_inv auth w \<Longrightarrow> ag_inv auth (ag_accept cr oc rnd l accepted w)"
proof -
  assume inv: "ag_inv auth w"
  have "ag_inv auth (ag_upd_obj l (\<lambda>x. x\<lparr>ao_running := False\<rparr>) w)"
    and counted: "ag_inv auth (ag_upd_obj l (\<lambda>x. x\<lparr>ao_counter := ao_counter x + 1\<rparr>) w)"
    by (rule ag_inv_obj [OF inv]; simp)+
  with inv ag_inv_accept_new [OF counted] show ?thesis
    by (auto simp: ag_accept_def split: option.split sum.split prod.split)
qed

lemma ag_inv_reader: "ag_inv auth w \<Longrightarrow> ag_inv auth (ag_reader cr oc p l connID rnd chunk rerr w)"
proof -
  assume inv: "ag_inv auth w"
  have "ag_inv auth w'" if "reader_round cr oc caller connID p rnd chunk rerr w = (b, w')" for caller b w'
    using inv only_conn_reader_round [OF that] by (rule ag_inv_only_conn)
  with inv show ?thesis
    by (auto simp: ag_reader_def split: option.split prod.split bool.split)
qed

lemma ag_inv_send_cases:
  "ag_inv auth w \<Longrightarrow> send_progress oc c args w = (res, w') \<Longrightarrow> ag_inv auth w'"
  using ag_inv_send [of auth w oc c args] by simp

lemma ag_inv_new_session:
  assumes inv: "ag_inv auth w" and "ag_sessions w a = None" and "dir \<notin> ag_dirs w" and "auth c = a"
  shows "ag_inv auth (ag_store a \<lparr>ls_ln = ag_next_obj w, ls_pending = fmempty, ls_active = fmempty,
      as_sockPath = dir @ ''/agent.sock'', as_dir = dir\<rparr>
     (w\<lparr>ag_dirs := insert dir (ag_dirs w), ag_next_obj := Suc (ag_next_obj w),
        ag_objs := (ag_objs w)(ag_next_obj w := Some \<lparr>ao_open = True, ao_running = r, ao_authID = a,
          ao_counter = 0, ao_caller = c\<rparr>)\<rparr>))"
proof -
  let ?s = "\<lparr>ls_ln = ag_next_obj w, ls_pending = fmempty, ls_active = fmempty,
      as_sockPath = dir @ ''/agent.sock'', as_dir = dir\<rparr>"
  have "lst_refs (ag_sessions w) w" using inv by (simp add: ag_inv_def)
  then have "lst_refs ((ag_sessions w)(a := Some ?s)) w"
    by (rule lst_refs_shrink) (auto simp: ls_fetchActive_def ls_fetchPending_def split: if_splits)
  moreover have "sess_ids w a = None" using assms(2) by (simp add: sess_ids_def)
  from ag_reg_store [OF conjunct2 [OF inv [unfolded ag_inv_def]] this assms(3,4), of r]
  have "ag_reg auth (List.insert a (ag_ids w)) ((ag_objs w)(ag_next_obj w := Some \<lparr>ao_open = True, ao_running = r,
      ao_authID = a, ao_counter = 0, ao_caller = c\<rparr>)) (Suc (ag_next_obj w)) (insert dir (ag_dirs w))
      ((sess_ids w)(a := Some (ag_next_obj w, dir @ ''/agent.sock'', dir)))" .
  moreover have "sess_ids (w\<lparr>ag_sessions := (ag_sessions w)(a := Some ?s)\<rparr>) =
      (sess_ids w)(a := Some (ag_next_obj w, dir @ ''/agent.sock'', dir))"
    by (simp add: sess_ids_def sess_id_def fun_eq_iff)
  ultimately show ?thesis
    by (simp add: ag_inv_def ag_store_def ag_world_cong) (simp add: sess_ids_def)
qed

lemma ag_inv_dir_undone:
  "ag_inv auth w \<Longrightarrow> dir \<notin> ag_dirs w \<Longrightarrow> ag_inv auth (w\<lparr>ag_dirs := insert dir (ag_dirs w) - {dir}\<rparr>)"
  by simp

lemma ag_inv_setup:
  assumes inv: "ag_inv auth w" and none: "ag_sessions w (inv_CallerAuthID iv) = None"
    and dir: "\<And>d. ae_mkdir env = Inr d \<Longrightarrow> d \<notin> ag_dirs w" and auth: "inv_CallerAuthID iv = auth (inv_Caller iv)"
  shows "ag_inv auth (ag_setup env iv w)"
proof (cases "ae_mkdir env")
  case (Inl e)
  with inv show ?thesis by (simp add: ag_setup_def ag_inv_send)
next
  case (Inr d)
  let ?w3 = "ag_store (inv_CallerAuthID iv) \<lparr>ls_ln = ag_next_obj w, ls_pending = fmempty, ls_active = fmempty,
      as_sockPath = d @ ''/agent.sock'', as_dir = d\<rparr>
     (w\<lparr>ag_dirs := insert d (ag_dirs w), ag_next_obj := Suc (ag_next_obj w),
        ag_objs := (ag_objs w)(ag_next_obj w := Some \<lparr>ao_open = True, ao_running = False,
          ao_authID = inv_CallerAuthID iv, ao_counter = 0, ao_caller = inv_Caller iv\<rparr>)\<rparr>)"
  have d: "d \<notin> ag_dirs w" using dir Inr by blast
  have inv3: "ag_inv auth ?w3" using ag_inv_new_session [OF inv none d] auth by simp
  have undone: "w\<lparr>ag_dirs := ag_dirs w - {d}\<rparr> = w" using d by simp
  have started: "ag_inv auth (ag_upd_obj l (\<lambda>x. x\<lparr>ao_running := True\<rparr>) v)" if "ag_inv auth v" for l and v :: "'a agent_scheme"
    by (rule ag_inv_obj [OF that]) simp
  show ?thesis
    using Inr inv inv3 d
    by (auto simp: ag_setup_def Let_def ag_inv_send undone split: prod.split option.split
        intro: ag_inv_stop started ag_inv_send_cases)
qed

lemma ag_inv_connect:
  assumes inv: "ag_inv auth w"
    and dir: "\<And>d. ae_mkdir env = Inr d \<Longrightarrow> d \<notin> ag_dirs w" and auth: "inv_CallerAuthID iv = auth (inv_Caller iv)"
  shows "ag_inv auth (ag_connect env iv w)"
proof (cases "ag_sessions w (inv_CallerAuthID iv)")
  case None
  with ag_inv_setup [OF inv None dir auth] show ?thesis by (simp add: ag_connect_def ag_fetch_def)
next
  case (Some s)
  have "ag_inv auth (ag_takeOver (ls_ln s) (inv_Caller iv) w)"
    unfolding ag_takeOver_def by (rule ag_inv_obj [OF inv]) (use ag_inv_session(5) [OF inv Some] auth in auto)
  with Some show ?thesis
    by (auto simp: ag_connect_def ag_fetch_def split: prod.split option.split intro: ag_inv_stop ag_inv_send_cases)
qed

lemma ag_inv_handle:
  assumes "ag_inv auth w" and "\<And>d. ae_mkdir env = Inr d \<Longrightarrow> d \<notin> ag_dirs w" and "inv_CallerAuthID iv = auth (inv_Caller iv)"
  shows "ag_inv auth (fst (handleAgentForward cr env iv w))"
  using assms ag_inv_connect [OF assms]
  by (simp add: handleAgentForward_def ag_inv_stop ag_inv_key ag_inv_data ag_inv_close_conn split: sum.split)

lemma ag_inv_init: "ag_inv auth ag_init"
  by (simp add: ag_inv_def ag_init_def lst_refs_def conns_refs_def world_wf_def pend_ok_def ag_reg_def
      sess_ids_def ls_fetchActive_def ls_fetchPending_def)

lemma ag_reachable_inv: "ag_reachable cr auth w \<Longrightarrow> ag_inv auth w"
proof (induction rule: ag_reachable.induct)
  case (ag_next w w')
  from ag_next(2,3) show ?case
    by (cases rule: ag_step.cases) (auto simp: ag_inv_accept ag_inv_reader ag_inv_stop intro: ag_inv_handle)
qed (rule ag_inv_init)

section \<open>Identities do not disturb each other\<close>

definition ag_undisturbed :: "string \<Rightarrow> ('a agent_scheme) \<Rightarrow> ('a agent_scheme) \<Rightarrow> bool" where
  "ag_undisturbed a w w' \<longleftrightarrow>
     ag_sessions w' a = ag_sessions w a \<and>
     (\<forall>n q. ls_fetchActive (ag_sessions w) (a, n) = Some q \<longrightarrow> conn_view w' q = conn_view w q)"

lemma ag_undisturbedI:
  assumes "ag_sessions w' a = ag_sessions w a"
    and "\<And>n q. ls_fetchActive (ag_sessions w) (a, n) = Some q \<Longrightarrow> conn_view w' q = conn_view w q"
  shows "ag_undisturbed a w w'"
  using assms unfolding ag_undisturbed_def by blast

lemma ag_undisturbed_refl [simp]: "ag_undisturbed a w w"
  by (simp add: ag_undisturbed_def)

lemma ag_undisturbed_trans:
  assumes "ag_undisturbed a w v" and "ag_undisturbed a v u"
  shows "ag_undisturbed a w u"
proof -
  have "ls_fetchActive (ag_sessions v) (a, n) = ls_fetchActive (ag_sessions w) (a, n)" for n
    using assms(1) by (simp add: ag_undisturbed_def ls_fetchActive_def)
  with assms show ?thesis by (auto simp: ag_undisturbed_def)
qed

lemma conn_view_agent [simp]:
  "conn_view (w\<lparr>ag_sessions := m\<rparr>) q = conn_view w q" "conn_view (w\<lparr>ag_ids := i\<rparr>) q = conn_view w q"
  "conn_view (w\<lparr>ag_objs := ob\<rparr>) q = conn_view w q" "conn_view (w\<lparr>ag_next_obj := n\<rparr>) q = conn_view w q"
  "conn_view (w\<lparr>ag_dirs := d\<rparr>) q = conn_view w q" "conn_view (w\<lparr>ag_readers := rs\<rparr>) q = conn_view w q"
  by (rule conn_view_cong; simp)+

lemma ag_undisturbed_send: "ag_undisturbed a w (snd (send_progress oc c args w))"
  by (rule ag_undisturbedI) (simp_all add: ag_fields_more [of "snd (send_progress oc c args w)" w])

lemma ag_undisturbed_only_conn:
  assumes inv: "ag_inv auth w" and p: "ls_fetchActive (ag_sessions w) (b, m) = Some p" and "a \<noteq> b"
    and oc: "only_conn p w w'"
  shows "ag_undisturbed a w w'"
proof (rule ag_undisturbedI)
  have refs: "conns_refs (ls_fetchActive (ag_sessions w)) w"
    using inv by (simp add: ag_inv_def lst_refs_def)
  show "ag_sessions w' a = ag_sessions w a"
    using ag_fields_more(1) [of w' w] oc by (simp add: only_conn_def)
  fix n q assume q: "ls_fetchActive (ag_sessions w) (a, n) = Some q"
  have "q \<noteq> p" using conns_refsD(3) [OF refs q, of "(b, m)"] p assms(3) by auto
  with conns_refsD(1) [OF refs] oc show "conn_view w' q = conn_view w q" by (intro only_conn_view)
qed

lemma ag_undisturbed_obj: "ag_undisturbed a w (ag_upd_obj l f w)"
  by (rule ag_undisturbedI) (simp_all add: ag_upd_obj_def)

lemma ag_undisturbed_stop:
  assumes inv: "ag_inv auth w" and "a \<noteq> auth c"
  shows "ag_undisturbed a w (ag_stop c w)"
proof (cases "ag_owns w c (auth c)")
  case True
  then obtain s where s: "ag_sessions w (auth c) = Some s" by (auto simp: ag_owns_def split: option.splits)
  let ?v = "ag_upd_obj (ls_ln s) (\<lambda>x. x\<lparr>ao_open := False\<rparr>)
      (w\<lparr>ag_sessions := (ag_sessions w)(auth c := None), ag_ids := remove1 (auth c) (ag_ids w)\<rparr>)"
  have refs: "lst_refs (ag_sessions w) ?v" using inv by (simp add: ag_inv_def ag_upd_obj_def ag_world_cong)
  have stop: "ag_stop c w = (ls_close s ?v)\<lparr>ag_dirs := ag_dirs (ls_close s ?v) - {as_dir s}\<rparr>"
    using True s by (simp add: ag_stop_eq [OF inv] ag_close_def Let_def)
  show ?thesis
  proof (rule ag_undisturbedI)
    show "ag_sessions (ag_stop c w) a = ag_sessions w a"
      using ag_fields_more(1) [of "ls_close s ?v" ?v] assms(2) by (simp add: stop ag_upd_obj_def)
    fix n q assume "ls_fetchActive (ag_sessions w) (a, n) = Some q"
    from ls_close_others [OF refs s this] assms(2) show "conn_view (ag_stop c w) q = conn_view w q"
      by (simp add: stop) (simp add: ag_upd_obj_def)
  qed
qed (simp add: ag_stop_eq [OF inv])

lemma ag_undisturbed_table:
  "(m a = ag_sessions w a) \<Longrightarrow> ag_undisturbed a w (w\<lparr>ag_sessions := m\<rparr>)"
  by (rule ag_undisturbedI) simp_all

lemma ag_undisturbed_key:
  assumes inv: "ag_inv auth w" and "a \<noteq> inv_CallerAuthID iv"
  shows "ag_undisturbed a w (ag_key cr iv w)"
proof -
  let ?b = "inv_CallerAuthID iv"
  have refs: "conns_refs (ls_fetchActive (ag_sessions w)) w" and pend: "pend_ok (ls_fetchPending (ag_sessions w)) w"
    using inv by (simp_all add: ag_inv_def lst_refs_def)
  have bad: "ag_undisturbed a w (close_sock (rp_conn pc) w)" if "ag_fetchPending w ?b n = Some pc" for n pc
  proof (rule ag_undisturbedI)
    show "conn_view (close_sock (rp_conn pc) w) q = conn_view w q" for q
      by (rule conn_view_close_sock) (use that pend_okD(2) [OF pend, of "(?b, n)" pc q] in \<open>auto simp: ag_fetchPending_def\<close>)
  qed (simp add: ag_fields_more [of "close_sock (rp_conn pc) w" w])
  have good: "ag_undisturbed a w ((ag_activateConn ?b n p w1)\<lparr>ag_readers := rs\<rparr>)"
    if al: "alloc_pf d w = (p, w1)" for n p d w1 rs
  proof (rule ag_undisturbedI)
    show "ag_sessions ((ag_activateConn ?b n p w1)\<lparr>ag_readers := rs\<rparr>) a = ag_sessions w a"
      using ag_fields_more(1) [OF alloc_pf_simps(8) [OF al]] assms(2)
      by (simp add: ag_activateConn_def ls_activateConn_def split: option.split)
    fix m q assume "ls_fetchActive (ag_sessions w) (a, m) = Some q"
    then have "q \<noteq> w_next_pf w" using conns_refsD(2) [OF refs, of "(a, m)" q] by simp
    then show "conn_view ((ag_activateConn ?b n p w1)\<lparr>ag_readers := rs\<rparr>) q = conn_view w q"
      using conn_view_alloc_pf [OF _ al] by (simp add: ag_activateConn_def)
  qed
  show ?thesis
    using bad good by (auto simp: ag_key_def split: option.split sum.split prod.split)
qed

lemma ag_undisturbed_data:
  assumes "ag_inv auth w" and "a \<noteq> inv_CallerAuthID iv"
  shows "ag_undisturbed a w (ag_data cr iv w)"
  using ag_undisturbed_only_conn [OF assms(1) _ assms(2) conjunct1 [OF receive_data_only_conn]]
  by (auto simp: ag_data_def ag_fetchActive_def split: sum.split option.split)

lemma ag_undisturbed_remove:
  "a \<noteq> b \<Longrightarrow> ag_undisturbed a w (ag_removeActive b n w)"
  unfolding ag_removeActive_def
  by (rule ag_undisturbed_table) (simp add: ls_removeActive_def split: option.split)

lemma ag_undisturbed_close_conn:
  assumes "ag_inv auth w" and "a \<noteq> inv_CallerAuthID iv"
  shows "ag_undisturbed a w (ag_close_conn iv w)"
  using ag_undisturbed_only_conn [OF assms(1) _ assms(2) only_conn_pf_close]
  by (auto simp: ag_close_conn_def ag_fetchActive_def split: sum.split option.split
      intro: ag_undisturbed_trans [OF _ ag_undisturbed_remove [OF assms(2)]] ag_undisturbed_remove [OF assms(2)])

lemma ag_undisturbed_after:
  "ag_undisturbed a w v \<Longrightarrow> send_progress oc c args v = (res, v') \<Longrightarrow> ag_undisturbed a w v'"
  using ag_undisturbed_trans [OF _ ag_undisturbed_send, of a w v oc c args] by simp

lemma ag_undisturbed_setup:
  assumes inv: "ag_inv auth w" and none: "ag_sessions w (inv_CallerAuthID iv) = None"
    and dir: "\<And>d. ae_mkdir env = Inr d \<Longrightarrow> d \<notin> ag_dirs w" and auth: "inv_CallerAuthID iv = auth (inv_Caller iv)"
    and a: "a \<noteq> auth (inv_Caller iv)"
  shows "ag_undisturbed a w (ag_setup env iv w)"
proof (cases "ae_mkdir env")
  case (Inl e)
  then show ?thesis by (simp add: ag_setup_def ag_undisturbed_send)
next
  case (Inr d)
  let ?w3 = "ag_store (inv_CallerAuthID iv) \<lparr>ls_ln = ag_next_obj w, ls_pending = fmempty, ls_active = fmempty,
      as_sockPath = d @ ''/agent.sock'', as_dir = d\<rparr>
     (w\<lparr>ag_dirs := insert d (ag_dirs w), ag_next_obj := Suc (ag_next_obj w),
        ag_objs := (ag_objs w)(ag_next_obj w := Some \<lparr>ao_open = True, ao_running = False,
          ao_authID = inv_CallerAuthID iv, ao_counter = 0, ao_caller = inv_Caller iv\<rparr>)\<rparr>)"
  have d: "d \<notin> ag_dirs w" using dir Inr by blast
  have inv3: "ag_inv auth ?w3" using ag_inv_new_session [OF inv none d] auth by simp
  have und3: "ag_undisturbed a w ?w3"
    using a auth by (intro ag_undisturbedI) (simp_all add: ag_store_def)
  have undone: "w\<lparr>ag_dirs := ag_dirs w - {d}\<rparr> = w" using d by simp
  have "ag_undisturbed a w (ag_stop (inv_Caller iv) v)" "ag_undisturbed a w (ag_upd_obj l f v)"
    if "send_progress oc c args ?w3 = (res, v)" for oc c args res v l f
    using ag_undisturbed_after [OF und3 that] ag_undisturbed_stop [OF ag_inv_send_cases [OF inv3 that] a]
      ag_undisturbed_obj ag_undisturbed_trans by blast+
  then show ?thesis
    using Inr d
    by (auto simp: ag_setup_def Let_def ag_undisturbed_send undone split: prod.split option.split)
qed

lemma ag_undisturbed_connect:
  assumes inv: "ag_inv auth w"
    and dir: "\<And>d. ae_mkdir env = Inr d \<Longrightarrow> d \<notin> ag_dirs w" and auth: "inv_CallerAuthID iv = auth (inv_Caller iv)"
    and a: "a \<noteq> auth (inv_Caller iv)"
  shows "ag_undisturbed a w (ag_connect env iv w)"
proof (cases "ag_sessions w (inv_CallerAuthID iv)")
  case None
  with ag_undisturbed_setup [OF inv None dir auth a] show ?thesis by (simp add: ag_connect_def ag_fetch_def)
next
  case (Some s)
  let ?v = "ag_takeOver (ls_ln s) (inv_Caller iv) w"
  have inv': "ag_inv auth ?v"
    unfolding ag_takeOver_def by (rule ag_inv_obj [OF inv]) (use ag_inv_session(5) [OF inv Some] auth in auto)
  have und: "ag_undisturbed a w ?v" unfolding ag_takeOver_def by (rule ag_undisturbed_obj)
  have "ag_undisturbed a w v" "ag_undisturbed a w (ag_stop (inv_Caller iv) v)"
    if "send_progress oc c args ?v = (res, v)" for oc c args res v
    using ag_undisturbed_after [OF und that] ag_undisturbed_stop [OF ag_inv_send_cases [OF inv' that] a]
      ag_undisturbed_trans by blast+
  with Some show ?thesis
    by (auto simp: ag_connect_def ag_fetch_def split: prod.split option.split)
qed

section \<open>Properties\<close>


text \<open>An example: caller 7 of identity \<open>alice\<close> sets a session up, then comes back as caller 8.\<close>

definition demo_auth :: "u64 \<Rightarrow> string" where
  "demo_auth c = (if c = 9 then ''bob'' else ''alice'')"

definition demo_agent_env :: agent_env where
  "demo_agent_env = \<lparr>ae_mkdir = Inr ''/tmp/a'', ae_chmod_dir = None, ae_listen = None, ae_chmod_sock = None,
     ae_send = (\<lambda>_. None)\<rparr>"

definition demo_agent1 :: agent where
  "demo_agent1 = fst (handleAgentForward toy_crypto demo_agent_env
     (sample_inv 1 7 ''alice'' True [VStr msgConnect]) ag_init)"

lemma demo_agent_reachable: "ag_reachable toy_crypto demo_auth demo_agent1"
  unfolding demo_agent1_def
  by (rule ag_next [OF ag_start ag_handles]) (simp_all add: demo_auth_def ag_init_def)

lemma demo_agent1_eq:
  "demo_agent1 = ag_init\<lparr>w_sent := [(7, [VStr msgReady, VStr ''/tmp/a/agent.sock''])],
     ag_sessions := [''alice'' \<mapsto> \<lparr>ls_ln = 0, ls_pending = fmempty, ls_active = fmempty,
        as_sockPath = ''/tmp/a/agent.sock'', as_dir = ''/tmp/a''\<rparr>],
     ag_ids := [''alice''],
     ag_objs := [0 \<mapsto> \<lparr>ao_open = True, ao_running = True, ao_authID = ''alice'', ao_counter = 0, ao_caller = 7\<rparr>],
     ag_next_obj := 1, ag_dirs := {''/tmp/a''}\<rparr>"
proof -
  have "inv_ArgString (sample_inv 1 7 ''alice'' True [VStr msgConnect]) 0 = Inr msgConnect"
    by (simp add: sample_inv_def)
  then show ?thesis
    by (simp add: demo_agent1_def handleAgentForward_def ag_connect_def ag_fetch_def ag_setup_def
        demo_agent_env_def ag_init_def ag_store_def send_progress_def ag_upd_obj_def Let_def)
qed

lemma demo_agent1_fetch: "ag_fetch demo_agent1 ''alice'' = Some \<lparr>ls_ln = 0, ls_pending = fmempty,
    ls_active = fmempty, as_sockPath = ''/tmp/a/agent.sock'', as_dir = ''/tmp/a''\<rparr>"
  by (simp add: ag_fetch_def demo_agent1_eq)


text \<open>
  When an identity that has a session connects again over a new transport,
  the session with its listener, socket path and connections stays as it is; the new caller is told
  the same path and owns it from then on, and the end of any earlier transport of that identity no
  longer touches anything.
\<close>

theorem agent_reconnect:
  assumes "ag_reachable cr auth w" and "ag_fetch w (auth c) = Some s" and "inv_Progress iv"
    and "inv_ArgString iv 0 = Inr msgConnect" and "inv_Caller iv = c" and "inv_CallerAuthID iv = auth c"
    and "ae_send env = (\<lambda>_. None)"
  shows "ag_fetch (fst (handleAgentForward cr env iv w)) (auth c) = Some s \<and>
     ag_socketPath (fst (handleAgentForward cr env iv w)) c = Some (as_sockPath s) \<and>
     last (w_sent (fst (handleAgentForward cr env iv w))) = (c, [VStr msgReady, VStr (as_sockPath s)]) \<and>
     (\<forall>old. old = c \<or> auth old \<noteq> auth c \<or>
        ag_stop old (fst (handleAgentForward cr env iv w)) = fst (handleAgentForward cr env iv w))"
proof -
  note inv = ag_reachable_inv [OF assms(1)]
  let ?w' = "fst (handleAgentForward cr env iv w)"
  have s: "ag_sessions w (auth c) = Some s" using assms(2) by (simp add: ag_fetch_def)
  have eq: "?w' = (ag_takeOver (ls_ln s) c w)\<lparr>w_sent := w_sent w @ [(c, [VStr msgReady, VStr (as_sockPath s)])]\<rparr>"
    using assms(2-) by (simp add: handleAgentForward_def ag_connect_def send_progress_def ag_takeOver_def ag_upd_obj_def)
  have inv': "ag_inv auth ?w'"
  proof -
    have "ag_inv auth (ag_takeOver (ls_ln s) c w)"
      unfolding ag_takeOver_def by (rule ag_inv_obj [OF inv]) (use ag_inv_session(5) [OF inv s] in auto)
    from ag_inv_send [OF this, of "\<lambda>_. None" c "[VStr msgReady, VStr (as_sockPath s)]"] show ?thesis
      unfolding eq by (simp add: send_progress_def ag_takeOver_def ag_upd_obj_def)
  qed
  obtain x where "ag_objs w (ls_ln s) = Some x" using ag_inv_session(5) [OF inv s] by blast
  then have owns: "ag_owns ?w' d (auth c) \<longleftrightarrow> d = c" for d
    unfolding eq by (auto simp: ag_owns_def ag_currentCaller_def ag_takeOver_def ag_upd_obj_def s)
  have "ag_sessions ?w' = ag_sessions w" unfolding eq by (simp add: ag_takeOver_def ag_upd_obj_def)
  then show ?thesis
    using owns s find_owner [OF inv', of c] ag_stop_eq [OF inv']
    by (auto simp: ag_fetch_def ag_socketPath_def) (simp add: eq)
qed

theorem agent_reconnect_witness:
  "ag_stop 7 (fst (handleAgentForward toy_crypto demo_agent_env (sample_inv 2 8 ''alice'' True [VStr msgConnect]) demo_agent1))
     = fst (handleAgentForward toy_crypto demo_agent_env (sample_inv 2 8 ''alice'' True [VStr msgConnect]) demo_agent1)"
proof -
  let ?iv = "sample_inv 2 8 ''alice'' True [VStr msgConnect]"
  have a: "demo_auth 8 = ''alice''" "demo_auth 7 = ''alice''" by (simp_all add: demo_auth_def)
  have args: "inv_ArgString ?iv 0 = Inr msgConnect" "ae_send demo_agent_env = (\<lambda>_. None)"
    by (simp_all add: sample_inv_def demo_agent_env_def)
  have "\<forall>old. old = 8 \<or> demo_auth old \<noteq> demo_auth 8 \<or>
      ag_stop old (fst (handleAgentForward toy_crypto demo_agent_env ?iv demo_agent1)) =
        fst (handleAgentForward toy_crypto demo_agent_env ?iv demo_agent1)"
    by (rule agent_reconnect [OF demo_agent_reachable demo_agent1_fetch [folded a(1)] _ args(1) _ _ args(2),
          THEN conjunct2, THEN conjunct2, THEN conjunct2]) (simp_all add: a)
  from spec [OF this, of 7] show ?thesis using a by simp
qed

text \<open>
  When the caller that owns a session ends, the session is forgotten,
  its directory removed and all its connections closed, and every other identity's session is left
  as it is.
\<close>

theorem agent_session_end:
  assumes "ag_reachable cr auth w" and "ag_fetch w (auth c) = Some s" and "ag_socketPath w c \<noteq> None"
  shows "ag_fetch (ag_stop c w) (auth c) = None \<and> as_dir s \<notin> ag_dirs (ag_stop c w) \<and>
     (\<forall>p. ag_fetchActive w (auth c) n \<noteq> Some p \<or> closed_conn (ag_stop c w) p) \<and>
     (\<forall>pc. ag_fetchPending w (auth c) n \<noteq> Some pc \<or> closed_sock (ag_stop c w) (rp_conn pc)) \<and>
     (\<forall>a. a = auth c \<or> ag_undisturbed a w (ag_stop c w))"
proof -
  note inv = ag_reachable_inv [OF assms(1)]
  have s: "ag_sessions w (auth c) = Some s" using assms(2) by (simp add: ag_fetch_def)
  have owns: "ag_owns w c (auth c)"
    using assms(3) find_owner [OF inv, of c] by (auto simp: ag_socketPath_def split: if_splits)
  let ?v = "ag_upd_obj (ls_ln s) (\<lambda>x. x\<lparr>ao_open := False\<rparr>)
      (w\<lparr>ag_sessions := (ag_sessions w)(auth c := None), ag_ids := remove1 (auth c) (ag_ids w)\<rparr>)"
  have refs: "lst_refs (ag_sessions w) ?v" using inv by (simp add: ag_inv_def ag_upd_obj_def ag_world_cong)
  have stop: "ag_stop c w = (ls_close s ?v)\<lparr>ag_dirs := ag_dirs (ls_close s ?v) - {as_dir s}\<rparr>"
    using owns s by (simp add: ag_stop_eq [OF inv] ag_close_def Let_def)
  have "ag_fetch (ag_stop c w) (auth c) = None"
    using ag_fields_more(1) [of "ls_close s ?v" ?v] by (simp add: stop ag_fetch_def ag_upd_obj_def)
  then show ?thesis
    using ls_close_closes [OF refs s, of n] ag_undisturbed_stop [OF inv, of _ c, unfolded stop]
    by (auto simp: stop ag_fetchActive_def ag_fetchPending_def closed_conn_def closed_sock_def)
qed

theorem agent_session_end_witness:
  "ag_fetch (ag_stop 7 demo_agent1) ''alice'' = None \<and> ''/tmp/a'' \<notin> ag_dirs (ag_stop 7 demo_agent1)"
proof -
  have a: "demo_auth 7 = ''alice''" by (simp add: demo_auth_def)
  have "ag_socketPath demo_agent1 7 \<noteq> None"
    by (simp add: demo_agent1_eq ag_socketPath_def ag_owns_def ag_currentCaller_def)
  from agent_session_end [OF demo_agent_reachable demo_agent1_fetch [folded a] this] a show ?thesis by simp
qed

text \<open>
  No invocation by one identity changes another identity's session
  or any of its connections.
\<close>

theorem agent_identity_isolation:
  assumes "ag_reachable cr auth w" and "inv_CallerAuthID iv = auth (inv_Caller iv)"
    and "\<forall>d \<in> ag_dirs w. ae_mkdir env \<noteq> Inr d" and "a \<noteq> auth (inv_Caller iv)"
  shows "ag_fetch (fst (handleAgentForward cr env iv w)) a = ag_fetch w a \<and>
     (\<forall>n q. ag_fetchActive w a n \<noteq> Some q \<or>
        conn_view (fst (handleAgentForward cr env iv w)) q = conn_view w q)"
proof -
  note inv = ag_reachable_inv [OF assms(1)]
  have "a \<noteq> inv_CallerAuthID iv" "\<And>d. ae_mkdir env = Inr d \<Longrightarrow> d \<notin> ag_dirs w" using assms(2,3,4) by auto
  then have "ag_undisturbed a w (fst (handleAgentForward cr env iv w))"
    using ag_undisturbed_stop [OF inv assms(4)] ag_undisturbed_connect [OF inv _ assms(2,4)]
      ag_undisturbed_key [OF inv] ag_undisturbed_data [OF inv] ag_undisturbed_close_conn [OF inv]
    by (simp add: handleAgentForward_def split: sum.split)
  then show ?thesis by (auto simp: ag_undisturbed_def ag_fetch_def ag_fetchActive_def)
qed

theorem agent_identity_isolation_witness:
  "ag_fetch (fst (handleAgentForward toy_crypto demo_agent_env (sample_inv 2 9 ''bob'' True [VStr msgClose, VUInt 1])
     demo_agent1)) ''alice'' = ag_fetch demo_agent1 ''alice''"
proof -
  let ?env = "demo_agent_env\<lparr>ae_mkdir := Inl (Errorf ''no space'')\<rparr>"
  have same: "handleAgentForward toy_crypto demo_agent_env (sample_inv 2 9 ''bob'' True [VStr msgClose, VUInt 1]) w
      = handleAgentForward toy_crypto ?env (sample_inv 2 9 ''bob'' True [VStr msgClose, VUInt 1]) w" for w
    by (simp add: handleAgentForward_def sample_inv_def)
  show ?thesis
    unfolding same
    using agent_identity_isolation [OF demo_agent_reachable, of "sample_inv 2 9 ''bob'' True [VStr msgClose, VUInt 1]"
        ?env "''alice''"]
    by (simp add: demo_auth_def)
qed

end
