(* ===== verification/Auth.thy ===== *)
theory Auth
  imports Prelude
begin

text \<open>
  Access control of the device (\<open>src/auth.go\<close>, and the reading and writing of the credential
  files in \<open>src/helpers.go\<close>): the table of principals the router's authenticator consults,
  its update by the key-added and key-removed events, the copy of it kept on disk, and the
  credentials of the client.
\<close>

section \<open>Principals and the authenticator\<close>

record principal =
  AuthID :: string
  AuthorizedKeys :: "string list"
  AuthRole :: string

text \<open>
  A \<open>*CryptosignPrincipal\<close> may be nil, which is \<^const>\<open>None\<close> here. Two entries of the table
  never share a principal (the key of an entry is its principal's \<open>AuthID\<close>), so the table can
  hold the principals by value.
\<close>

type_synonym principal_ptr = "principal option"
type_synonym principal_table = "string \<rightharpoonup> principal_ptr"

definition ptr_deref :: "principal_ptr \<Rightarrow> go_panic + principal" where
  "ptr_deref p = (case p of None \<Rightarrow> Inl NilDereference | Some v \<Rightarrow> Inr v)"

text \<open>\<open>SetPrincipals\<close> builds a fresh table; the later of two principals with one id wins.\<close>

fun SetPrincipals_loop :: "principal_ptr list \<Rightarrow> principal_table \<Rightarrow> go_panic + principal_table" where
  "SetPrincipals_loop [] t = Inr t"
| "SetPrincipals_loop (None # ps) t = Inl NilDereference"
| "SetPrincipals_loop (Some p # ps) t = SetPrincipals_loop ps (t(AuthID p \<mapsto> Some p))"

definition SetPrincipals :: "principal_ptr list \<Rightarrow> go_panic + principal_table" where
  "SetPrincipals ps = SetPrincipals_loop ps Map.empty"

definition NewAuthenticator :: "principal_ptr list \<Rightarrow> go_panic + principal_table" where
  "NewAuthenticator ps = SetPrincipals ps"

definition RetrievePrincipal :: "principal_table \<Rightarrow> string \<Rightarrow> principal_ptr option" where
  "RetrievePrincipal t authid = t authid"

definition SetPrincipal :: "string \<Rightarrow> principal_ptr \<Rightarrow> principal_table \<Rightarrow> principal_table" where
  "SetPrincipal authid p t = t(authid \<mapsto> p)"

text \<open>The deletion inside \<open>handleRemoveKey\<close>.\<close>

definition DeletePrincipal :: "string \<Rightarrow> principal_table \<Rightarrow> principal_table" where
  "DeletePrincipal authid t = t(authid := None)"

interpretation principals: session_table RetrievePrincipal SetPrincipal DeletePrincipal
  by unfold_locales (auto simp: RetrievePrincipal_def SetPrincipal_def DeletePrincipal_def)

text \<open>
  An authentication request: of the cryptosign method with its own request type, of the
  cryptosign method with another type (which the type assertion rejects), or of another method.
\<close>

datatype auth_request =
    RequestCryptoSign string string
  | CryptoSignMismatch
  | RequestOther string

text \<open>
  \<open>Authenticate\<close>. The constructor of the library's response is the parameter \<open>newResponse\<close>; it
  gets the authentication id and the role.
\<close>

definition Authenticate ::
  "(string \<Rightarrow> string \<Rightarrow> 'r result) \<Rightarrow> principal_table \<Rightarrow> auth_request \<Rightarrow> go_panic + 'r result" where
  "Authenticate newResponse t req = (case req of
     RequestCryptoSign authid publicKey \<Rightarrow>
       (case t authid of
          None \<Rightarrow> Inr (Inl (Errorf (''unknown authid '' @ authid)))
        | Some None \<Rightarrow> Inl NilDereference
        | Some (Some p) \<Rightarrow>
            if publicKey \<in> set (AuthorizedKeys p) then Inr (newResponse authid (AuthRole p))
            else Inr (Inl (Errorf ''unknown publickey'')))
   | CryptoSignMismatch \<Rightarrow> Inr (Inl (Errorf ''invalid request''))
   | RequestOther m \<Rightarrow> Inr (Inl (Errorf (''unknown authentication method: '' @ m))))"

section \<open>The copy on disk\<close>

text \<open>
  The file \<open>principals.json\<close> as \<open>encoding/json\<close> sees it. An element may be \<open>null\<close>, which
  reads as a nil pointer. \<open>write_err\<close> is the error \<open>os.WriteFile\<close> answers with, if any, and
  \<open>cfg_err\<close> says that \<open>CfgDirectory\<close> fails, which ends the process.
\<close>

datatype principals_file =
    Unreadable go_error
  | Blank
  | Malformed go_error
  | Principals "principal_ptr list"

record auth_disk =
  principals_json :: principals_file
  write_err :: "go_error option"
  cfg_err :: bool

definition ReadPrincipalsFromFile :: "auth_disk \<Rightarrow> go_panic + principal_ptr list result" where
  "ReadPrincipalsFromFile d =
     (if cfg_err d then Inl FatalExit
      else Inr (case principals_json d of
                  Unreadable e \<Rightarrow> Inl e
                | Blank \<Rightarrow> Inr []
                | Malformed e \<Rightarrow> Inl e
                | Principals ps \<Rightarrow> Inr ps))"

definition WritePrincipalsToFile :: "principal_ptr list \<Rightarrow> auth_disk \<Rightarrow> go_panic + auth_disk" where
  "WritePrincipalsToFile ps d =
     (if cfg_err d then Inl FatalExit
      else case write_err d of Some e \<Rightarrow> Inr d
                             | None \<Rightarrow> Inr (d\<lparr>principals_json := Principals ps\<rparr>))"

section \<open>Key events\<close>

text \<open>
  An event of the cloud router: what the string accessor answers at each position, the number
  of arguments, and what marshalling the first argument and unmarshalling it as a
  \<open>map[string][]string\<close> gives, the pairs in the order the range loop visits them.
\<close>

record key_event =
  ev_ArgString :: "nat \<Rightarrow> string result"
  ev_nargs :: nat
  ev_removals :: "(string \<times> string list) list result"

definition arg_or_empty :: "string result \<Rightarrow> string" where
  "arg_or_empty r = (case r of Inl _ \<Rightarrow> '''' | Inr s \<Rightarrow> s)"

record authenticator =
  principalByAuthID :: principal_table
  disk :: auth_disk

text \<open>The loop of \<open>handleAddKey\<close> over the principals of the file, up to the first match.\<close>

fun append_to_first :: "string \<Rightarrow> string \<Rightarrow> principal_ptr list \<Rightarrow> go_panic + (principal_ptr list \<times> bool)" where
  "append_to_first authid k [] = Inr ([], False)"
| "append_to_first authid k (None # ps) = Inl NilDereference"
| "append_to_first authid k (Some p # ps) =
     (if AuthID p = authid
      then Inr (Some (p\<lparr>AuthorizedKeys := AuthorizedKeys p @ [k]\<rparr>) # ps, True)
      else case append_to_first authid k ps of
             Inl e \<Rightarrow> Inl e
           | Inr (qs, b) \<Rightarrow> Inr (Some p # qs, b))"

text \<open>The in-memory half of \<open>handleAddKey\<close>.\<close>

definition add_in_memory :: "string \<Rightarrow> string \<Rightarrow> principal_table \<Rightarrow> go_panic + principal_table" where
  "add_in_memory authid pubKey t = (case RetrievePrincipal t authid of
       None \<Rightarrow> Inr (SetPrincipal authid None t)
     | Some None \<Rightarrow> Inl NilDereference
     | Some (Some p) \<Rightarrow>
         Inr (SetPrincipal authid (Some (p\<lparr>AuthorizedKeys := AuthorizedKeys p @ [pubKey]\<rparr>)) t))"

definition add_in_file :: "string \<Rightarrow> string \<Rightarrow> string \<Rightarrow> auth_disk \<Rightarrow> go_panic + auth_disk" where
  "add_in_file authid pubKey authrole d = (case ReadPrincipalsFromFile d of
       Inl e \<Rightarrow> Inl e
     | Inr (Inl _) \<Rightarrow> Inr d
     | Inr (Inr ps) \<Rightarrow>
         (case append_to_first authid pubKey ps of
            Inl e \<Rightarrow> Inl e
          | Inr (qs, updated) \<Rightarrow>
              WritePrincipalsToFile
                (if updated then qs
                 else qs @ [Some \<lparr>AuthID = authid, AuthorizedKeys = [pubKey], AuthRole = authrole\<rparr>]) d))"

definition handleAddKey :: "key_event \<Rightarrow> authenticator \<Rightarrow> go_panic + authenticator" where
  "handleAddKey ev a =
     (let authid = arg_or_empty (ev_ArgString ev 0);
          pubKey = arg_or_empty (ev_ArgString ev 1);
          authrole = arg_or_empty (ev_ArgString ev 2)
      in case add_in_memory authid pubKey (principalByAuthID a) of
           Inl e \<Rightarrow> Inl e
         | Inr t \<Rightarrow> (case add_in_file authid pubKey authrole (disk a) of
             Inl e \<Rightarrow> Inl e
           | Inr d \<Rightarrow> Inr \<lparr>principalByAuthID = t, disk = d\<rparr>))"

text \<open>The inner loop of \<open>handleRemoveKey\<close> over the principals of the file.\<close>

fun set_first_keys :: "string \<Rightarrow> string list \<Rightarrow> principal_ptr list \<Rightarrow> go_panic + principal_ptr list" where
  "set_first_keys authid ks [] = Inr []"
| "set_first_keys authid ks (None # ps) = Inl NilDereference"
| "set_first_keys authid ks (Some p # ps) =
     (if AuthID p = authid then Inr (Some (p\<lparr>AuthorizedKeys := ks\<rparr>) # ps)
      else case set_first_keys authid ks ps of
             Inl e \<Rightarrow> Inl e
           | Inr qs \<Rightarrow> Inr (Some p # qs))"

text \<open>One pass of the outer loop: the table and the list that will be written back.\<close>

definition remove_keys ::
  "string \<Rightarrow> string list \<Rightarrow> principal_table \<Rightarrow> principal_ptr list
     \<Rightarrow> go_panic + (principal_table \<times> principal_ptr list)" where
  "remove_keys authid keysToRemove t ps = (case RetrievePrincipal t authid of
       None \<Rightarrow> Inr (t, ps)
     | Some None \<Rightarrow> Inl NilDereference
     | Some (Some p) \<Rightarrow>
         (let filtered = filter (\<lambda>k. k \<notin> set keysToRemove) (AuthorizedKeys p) in
          if filtered = [] then Inr (DeletePrincipal authid t, ps)
          else case set_first_keys authid filtered ps of
                 Inl e \<Rightarrow> Inl e
               | Inr qs \<Rightarrow> Inr (SetPrincipal authid (Some (p\<lparr>AuthorizedKeys := filtered\<rparr>)) t, qs)))"

fun remove_loop ::
  "(string \<times> string list) list \<Rightarrow> principal_table \<Rightarrow> principal_ptr list
     \<Rightarrow> go_panic + (principal_table \<times> principal_ptr list)" where
  "remove_loop [] t ps = Inr (t, ps)"
| "remove_loop ((authid, ks) # rs) t ps =
     (case remove_keys authid ks t ps of
        Inl e \<Rightarrow> Inl e
      | Inr (t', ps') \<Rightarrow> remove_loop rs t' ps')"

definition handleRemoveKey :: "key_event \<Rightarrow> authenticator \<Rightarrow> go_panic + authenticator" where
  "handleRemoveKey ev a =
     (if ev_nargs ev = 0 then Inl IndexOutOfRange
      else case ev_removals ev of
        Inl _ \<Rightarrow> Inr a
      | Inr rs \<Rightarrow>
          (case ReadPrincipalsFromFile (disk a) of
             Inl e \<Rightarrow> Inl e
           | Inr (Inl _) \<Rightarrow> Inr a
           | Inr (Inr ps) \<Rightarrow>
               (case remove_loop rs (principalByAuthID a) ps of
                  Inl e \<Rightarrow> Inl e
                | Inr (t, qs) \<Rightarrow>
                    (case WritePrincipalsToFile qs (disk a) of
                       Inl e \<Rightarrow> Inl e
                     | Inr d \<Rightarrow> Inr \<lparr>principalByAuthID = t, disk = d\<rparr>))))"

text \<open>
  The start of the daemon (\<open>cmd/deskconnd/main.go\<close>): the table is built from the file, a
  missing file counts as empty and any other error ends the process.
\<close>

definition start_authenticator :: "authenticator \<Rightarrow> go_panic + authenticator" where
  "start_authenticator a = (case ReadPrincipalsFromFile (disk a) of
       Inl e \<Rightarrow> Inl e
     | Inr (Inl (ErrNotExist _)) \<Rightarrow> Inr (a\<lparr>principalByAuthID := Map.empty\<rparr>)
     | Inr (Inl _) \<Rightarrow> Inl FatalExit
     | Inr (Inr ps) \<Rightarrow>
         (case NewAuthenticator ps of
            Inl e \<Rightarrow> Inl e
          | Inr t \<Rightarrow> Inr (a\<lparr>principalByAuthID := t\<rparr>)))"

datatype cloud_event = KeyAdded key_event | KeyRemoved key_event

fun handle_event :: "cloud_event \<Rightarrow> authenticator \<Rightarrow> go_panic + authenticator" where
  "handle_event (KeyAdded ev) a = handleAddKey ev a"
| "handle_event (KeyRemoved ev) a = handleRemoveKey ev a"

fun handle_events :: "cloud_event list \<Rightarrow> authenticator \<Rightarrow> go_panic + authenticator" where
  "handle_events [] a = Inr a"
| "handle_events (ev # evs) a = (case handle_event ev a of
     Inl e \<Rightarrow> Inl e
   | Inr a' \<Rightarrow> handle_events evs a')"

section \<open>The access list the events describe\<close>

text \<open>
  The contract: an access list maps each authentication id to its set of keys, an added key
  joins the set of its id, and removed keys leave it; an id with no key left is gone.
\<close>

type_synonym acl = "string \<rightharpoonup> string set"

definition acl_grant :: "string \<Rightarrow> string \<Rightarrow> acl \<Rightarrow> acl" where
  "acl_grant x k m = (case m x of None \<Rightarrow> m(x \<mapsto> {k}) | Some S \<Rightarrow> m(x \<mapsto> insert k S))"

definition acl_revoke :: "acl \<Rightarrow> string \<times> string list \<Rightarrow> acl" where
  "acl_revoke m r = (case m (fst r) of
     None \<Rightarrow> m
   | Some S \<Rightarrow> if S - set (snd r) = {} then m(fst r := None) else m(fst r \<mapsto> S - set (snd r)))"

definition granted_id :: "key_event \<Rightarrow> string" where
  "granted_id ev = arg_or_empty (ev_ArgString ev 0)"

definition removals :: "key_event \<Rightarrow> (string \<times> string list) list" where
  "removals ev = (case ev_removals ev of Inl _ \<Rightarrow> [] | Inr rs \<Rightarrow> rs)"

fun acl_step :: "acl \<Rightarrow> cloud_event \<Rightarrow> acl" where
  "acl_step m (KeyAdded ev) = acl_grant (granted_id ev) (arg_or_empty (ev_ArgString ev 1)) m"
| "acl_step m (KeyRemoved ev) = foldl acl_revoke m (removals ev)"

text \<open>What the in-memory table grants.\<close>

definition acl_of :: "principal_table \<Rightarrow> acl" where
  "acl_of t x = (case t x of Some (Some p) \<Rightarrow> Some (set (AuthorizedKeys p)) | _ \<Rightarrow> None)"

text \<open>
  The events the handlers can follow: a key is added only for an id that the list holds at that
  moment, and a removal event carries its argument.
\<close>

fun followable :: "acl \<Rightarrow> cloud_event list \<Rightarrow> bool" where
  "followable m [] \<longleftrightarrow> True"
| "followable m (KeyAdded ev # evs) \<longleftrightarrow>
     m (granted_id ev) \<noteq> None \<and> followable (acl_step m (KeyAdded ev)) evs"
| "followable m (KeyRemoved ev # evs) \<longleftrightarrow>
     ev_nargs ev > 0 \<and> followable (acl_step m (KeyRemoved ev)) evs"

text \<open>A table without nil principals, each stored under its own id.\<close>

definition table_ok :: "principal_table \<Rightarrow> bool" where
  "table_ok t \<longleftrightarrow> (\<forall>x p. t x = Some p \<longrightarrow> (\<exists>q. p = Some q \<and> AuthID q = x))"

text \<open>A disk on which the file can be read and written, holding no nil principal.\<close>

definition disk_ok :: "auth_disk \<Rightarrow> bool" where
  "disk_ok d \<longleftrightarrow> \<not> cfg_err d \<and> write_err d = None \<and>
     (principals_json d = Blank \<or> (\<exists>qs. principals_json d = Principals (map Some qs)))"

definition file_principals :: "auth_disk \<Rightarrow> principal list" where
  "file_principals d = (case principals_json d of Principals ps \<Rightarrow> map the ps | _ \<Rightarrow> [])"

lemma disk_ok_read: "disk_ok d \<Longrightarrow> ReadPrincipalsFromFile d = Inr (Inr (map Some (file_principals d)))"
  by (auto simp: disk_ok_def ReadPrincipalsFromFile_def file_principals_def comp_def)

lemma disk_ok_write:
  "disk_ok d \<Longrightarrow> WritePrincipalsToFile (map Some qs) d = Inr (d\<lparr>principals_json := Principals (map Some qs)\<rparr>)"
  by (auto simp: disk_ok_def WritePrincipalsToFile_def)

lemma disk_ok_upd [simp]: "disk_ok d \<Longrightarrow> disk_ok (d\<lparr>principals_json := Principals (map Some qs)\<rparr>)"
  by (auto simp: disk_ok_def)

lemma file_principals_upd [simp]: "file_principals (d\<lparr>principals_json := Principals (map Some qs)\<rparr>) = qs"
  by (simp add: file_principals_def comp_def)

text \<open>The file loops on lists without nil: an update of the first match.\<close>

fun upd_first :: "string \<Rightarrow> (principal \<Rightarrow> principal) \<Rightarrow> principal list \<Rightarrow> principal list" where
  "upd_first x f [] = []"
| "upd_first x f (p # ps) = (if AuthID p = x then f p # ps else p # upd_first x f ps)"

lemma append_to_first_Some:
  "append_to_first x k (map Some ps)
     = Inr (map Some (upd_first x (\<lambda>p. p\<lparr>AuthorizedKeys := AuthorizedKeys p @ [k]\<rparr>) ps), x \<in> AuthID ` set ps)"
  by (induction ps) (auto split: sum.splits)

lemma set_first_keys_Some:
  "set_first_keys x ks (map Some ps) = Inr (map Some (upd_first x (\<lambda>p. p\<lparr>AuthorizedKeys := ks\<rparr>) ps))"
  by (induction ps) auto

section \<open>The table follows the access list\<close>

lemma acl_of_upd [simp]: "acl_of (t(x \<mapsto> Some p)) = (acl_of t)(x \<mapsto> set (AuthorizedKeys p))"
  by (rule ext) (simp add: acl_of_def)

lemma acl_of_del [simp]: "acl_of (t(x := None)) = (acl_of t)(x := None)"
  by (rule ext) (simp add: acl_of_def)

lemma table_ok_upd [simp]: "table_ok t \<Longrightarrow> AuthID p = x \<Longrightarrow> table_ok (t(x \<mapsto> Some p))"
  by (simp add: table_ok_def)

lemma table_ok_del [simp]: "table_ok t \<Longrightarrow> table_ok (t(x := None))"
  by (simp add: table_ok_def)

lemma table_ok_cases:
  assumes "table_ok t"
  obtains "t x = None" "acl_of t x = None"
    | p where "t x = Some (Some p)" "AuthID p = x" "acl_of t x = Some (set (AuthorizedKeys p))"
  using assms by (cases "t x") (auto simp: table_ok_def acl_of_def)

lemma add_in_memory_ok:
  assumes "table_ok t" "acl_of t x \<noteq> None"
  shows "\<exists>t'. add_in_memory x k t = Inr t' \<and> table_ok t' \<and> acl_of t' = acl_grant x k (acl_of t)"
  using assms(1)
  by (rule table_ok_cases [of t x])
    (use assms in \<open>simp_all add: add_in_memory_def RetrievePrincipal_def SetPrincipal_def acl_grant_def\<close>)

lemma upd_first_id: "x \<notin> AuthID ` set ps \<Longrightarrow> upd_first x f ps = ps"
  by (induction ps) auto

lemma add_in_file_ok:
  assumes "disk_ok d"
  shows "\<exists>d'. add_in_file x k r d = Inr d' \<and> disk_ok d' \<and> file_principals d' =
           (if x \<in> AuthID ` set (file_principals d)
            then upd_first x (\<lambda>p. p\<lparr>AuthorizedKeys := AuthorizedKeys p @ [k]\<rparr>) (file_principals d)
            else file_principals d @ [\<lparr>AuthID = x, AuthorizedKeys = [k], AuthRole = r\<rparr>])"
proof (cases "x \<in> AuthID ` set (file_principals d)")
  case True
  with assms show ?thesis
    by (simp add: add_in_file_def disk_ok_read append_to_first_Some disk_ok_write)
next
  case False
  let ?qs = "file_principals d @ [\<lparr>AuthID = x, AuthorizedKeys = [k], AuthRole = r\<rparr>]"
  from False have "add_in_file x k r d = WritePrincipalsToFile (map Some ?qs) d"
    by (simp add: add_in_file_def disk_ok_read [OF assms] append_to_first_Some upd_first_id)
  with False disk_ok_write [OF assms, of ?qs] disk_ok_upd [OF assms, of ?qs]
    file_principals_upd [where qs = ?qs and d = d] show ?thesis
    by (metis (no_types))
qed

lemma filter_empty_iff: "filter (\<lambda>k. k \<notin> set ks) xs = [] \<longleftrightarrow> set xs - set ks = {}"
  by (auto simp: filter_empty_conv)

lemma set_filter_minus: "set (filter (\<lambda>k. k \<notin> set ks) xs) = set xs - set ks"
  by auto

lemma remove_keys_ok:
  assumes "table_ok t"
  shows "\<exists>t' qs'. remove_keys x ks t (map Some qs) = Inr (t', map Some qs') \<and> table_ok t' \<and>
           acl_of t' = acl_revoke (acl_of t) (x, ks)"
  using assms
proof (rule table_ok_cases [of t x])
  assume "t x = None" "acl_of t x = None"
  with assms show ?thesis
    by (auto simp: remove_keys_def RetrievePrincipal_def acl_revoke_def)
next
  fix p assume p: "t x = Some (Some p)" "AuthID p = x" "acl_of t x = Some (set (AuthorizedKeys p))"
  let ?f = "filter (\<lambda>k. k \<notin> set ks) (AuthorizedKeys p)"
  show ?thesis
  proof (cases "?f = []")
    case True
    with p have "remove_keys x ks t (map Some qs) = Inr (t(x := None), map Some qs)"
      by (simp add: remove_keys_def RetrievePrincipal_def DeletePrincipal_def del: filter_empty_conv)
    moreover have "acl_revoke (acl_of t) (x, ks) = (acl_of t)(x := None)"
      using True p unfolding filter_empty_iff by (simp add: acl_revoke_def)
    ultimately show ?thesis using assms by (metis acl_of_del table_ok_del)
  next
    case False
    let ?t = "t(x \<mapsto> Some (p\<lparr>AuthorizedKeys := ?f\<rparr>))"
    from False p have "remove_keys x ks t (map Some qs)
        = Inr (?t, map Some (upd_first x (\<lambda>p. p\<lparr>AuthorizedKeys := ?f\<rparr>) qs))"
      by (simp add: remove_keys_def RetrievePrincipal_def SetPrincipal_def set_first_keys_Some Let_def
            del: filter_empty_conv)
    moreover have "acl_revoke (acl_of t) (x, ks) = acl_of ?t"
      using False p unfolding filter_empty_iff by (auto simp: acl_revoke_def set_diff_eq)
    moreover have "table_ok ?t" using assms p by simp
    ultimately show ?thesis by metis
  qed
qed

lemma remove_loop_ok:
  assumes "table_ok t"
  shows "\<exists>t' qs'. remove_loop rs t (map Some qs) = Inr (t', map Some qs') \<and> table_ok t' \<and>
           acl_of t' = foldl acl_revoke (acl_of t) rs"
  using assms
proof (induction rs arbitrary: t qs)
  case Nil
  then show ?case by auto
next
  case (Cons r rs)
  obtain x ks where r: "r = (x, ks)" by (cases r)
  from remove_keys_ok [OF Cons.prems, of x ks qs] obtain t1 qs1 where
    "remove_keys x ks t (map Some qs) = Inr (t1, map Some qs1)" "table_ok t1"
    "acl_of t1 = acl_revoke (acl_of t) (x, ks)" by blast
  with Cons.IH [of t1 qs1] r show ?case by auto
qed

definition auth_ok :: "authenticator \<Rightarrow> bool" where
  "auth_ok a \<longleftrightarrow> table_ok (principalByAuthID a) \<and> disk_ok (disk a)"

abbreviation access :: "authenticator \<Rightarrow> acl" where
  "access a \<equiv> acl_of (principalByAuthID a)"

lemma handle_event_ok:
  assumes "auth_ok a" "followable (access a) (ev # evs)"
  shows "\<exists>a'. handle_event ev a = Inr a' \<and> auth_ok a' \<and> access a' = acl_step (access a) ev \<and>
           followable (access a') evs"
proof (cases ev)
  case (KeyAdded e)
  let ?x = "arg_or_empty (ev_ArgString e 0)" and ?k = "arg_or_empty (ev_ArgString e 1)"
  from assms KeyAdded have "access a ?x \<noteq> None" by (simp add: granted_id_def)
  with assms obtain t where t: "add_in_memory ?x ?k (principalByAuthID a) = Inr t" "table_ok t"
    "acl_of t = acl_grant ?x ?k (access a)"
    using add_in_memory_ok [of "principalByAuthID a" ?x ?k] by (auto simp: auth_ok_def)
  obtain d where "add_in_file ?x ?k (arg_or_empty (ev_ArgString e 2)) (disk a) = Inr d" "disk_ok d"
    using add_in_file_ok assms(1) auth_ok_def by blast
  with t have "handle_event ev a = Inr \<lparr>principalByAuthID = t, disk = d\<rparr>"
      "auth_ok \<lparr>principalByAuthID = t, disk = d\<rparr>"
    using KeyAdded by (simp_all add: handleAddKey_def auth_ok_def)
  with t assms(2) KeyAdded show ?thesis by (simp add: granted_id_def)
next
  case (KeyRemoved e)
  with assms have n: "ev_nargs e \<noteq> 0" by simp
  note rd = disk_ok_read [of "disk a"]
  show ?thesis
  proof (cases "ev_removals e")
    case (Inl err)
    with assms KeyRemoved n show ?thesis by (simp add: handleRemoveKey_def removals_def)
  next
    case (Inr rs)
    obtain t qs where t: "remove_loop rs (principalByAuthID a) (map Some (file_principals (disk a)))
        = Inr (t, map Some qs)" "table_ok t" "acl_of t = foldl acl_revoke (access a) rs"
      using remove_loop_ok assms(1) auth_ok_def by blast
    let ?a = "\<lparr>principalByAuthID = t, disk = (disk a)\<lparr>principals_json := Principals (map Some qs)\<rparr>\<rparr>"
    from t n assms(1) KeyRemoved Inr have "handle_event ev a = Inr ?a" "auth_ok ?a"
      by (simp_all add: handleRemoveKey_def auth_ok_def disk_ok_read disk_ok_write)
    with t assms(2) KeyRemoved Inr show ?thesis by (simp add: removals_def)
  qed
qed

lemma handle_events_ok:
  assumes "auth_ok a" "followable (access a) evs"
  shows "\<exists>a'. handle_events evs a = Inr a' \<and> auth_ok a' \<and> access a' = foldl acl_step (access a) evs"
  using assms
proof (induction evs arbitrary: a)
  case Nil
  then show ?case by simp
next
  case (Cons ev evs)
  from handle_event_ok [OF Cons.prems] obtain a1 where
    "handle_event ev a = Inr a1" "auth_ok a1" "access a1 = acl_step (access a) ev"
    "followable (access a1) evs" by blast
  with Cons.IH [of a1] show ?case by simp
qed

lemma Authenticate_acl:
  assumes "table_ok t"
  shows "\<exists>role. Authenticate nr t (RequestCryptoSign x k) =
     Inr (if \<exists>S. acl_of t x = Some S \<and> k \<in> S then nr x role
          else Inl (Errorf (if acl_of t x = None then ''unknown authid '' @ x else ''unknown publickey'')))"
  using assms by (rule table_ok_cases [of t x]) (auto simp: Authenticate_def)

section \<open>The file follows the table\<close>

definition table_of :: "principal list \<Rightarrow> principal_table" where
  "table_of qs = map_of (map (\<lambda>p. (AuthID p, Some p)) qs)"

lemma table_of_simps [simp]:
  "table_of [] = Map.empty"
  "table_of (p # qs) = (table_of qs)(AuthID p \<mapsto> Some p)"
  by (simp_all add: table_of_def)

lemma table_of_None: "table_of qs x = None \<longleftrightarrow> x \<notin> AuthID ` set qs"
  by (induction qs) auto

lemma SetPrincipals_loop_Some:
  "distinct (map AuthID qs) \<Longrightarrow> SetPrincipals_loop (map Some qs) t = Inr (t ++ table_of qs)"
proof (induction qs arbitrary: t)
  case (Cons p qs)
  then have "table_of qs (AuthID p) = None" by (simp add: table_of_None)
  with Cons show ?case by (auto simp: map_add_def fun_eq_iff split: option.splits)
qed simp

lemma SetPrincipals_Some:
  "distinct (map AuthID qs) \<Longrightarrow> SetPrincipals (map Some qs) = Inr (table_of qs)"
  by (simp add: SetPrincipals_def SetPrincipals_loop_Some)

text \<open>The file is readable, lists every id once, and holds exactly the table in memory.\<close>

definition auth_sync :: "authenticator \<Rightarrow> bool" where
  "auth_sync a \<longleftrightarrow> disk_ok (disk a) \<and> distinct (map AuthID (file_principals (disk a))) \<and>
     principalByAuthID a = table_of (file_principals (disk a))"

lemma table_ok_table_of: "table_ok (table_of qs)"
  by (induction qs) (auto simp: table_ok_def)

lemma auth_sync_ok: "auth_sync a \<Longrightarrow> auth_ok a"
  by (simp add: auth_sync_def auth_ok_def table_ok_table_of)

lemma start_sync: "auth_sync a \<Longrightarrow> start_authenticator a = Inr a"
  by (simp add: auth_sync_def start_authenticator_def disk_ok_read NewAuthenticator_def SetPrincipals_Some)

lemma upd_first_ids: "(\<And>p. AuthID (f p) = AuthID p) \<Longrightarrow> map AuthID (upd_first x f qs) = map AuthID qs"
  by (induction qs) auto

lemma table_of_upd_first:
  "(\<And>p. AuthID (f p) = AuthID p) \<Longrightarrow> table_of qs x = Some (Some p) \<Longrightarrow> AuthID p = x \<Longrightarrow>
   table_of (upd_first x f qs) = (table_of qs)(x \<mapsto> Some (f p))"
  by (induction qs) (auto simp: fun_upd_twist split: if_splits)

fun revoke_keeps :: "acl \<Rightarrow> (string \<times> string list) list \<Rightarrow> bool" where
  "revoke_keeps m [] \<longleftrightarrow> True"
| "revoke_keeps m (r # rs) \<longleftrightarrow>
     (case m (fst r) of None \<Rightarrow> True | Some S \<Rightarrow> S - set (snd r) \<noteq> {}) \<and> revoke_keeps (acl_revoke m r) rs"

text \<open>Every removal leaves each id it names at least one key.\<close>

fun leaves_keys :: "acl \<Rightarrow> cloud_event list \<Rightarrow> bool" where
  "leaves_keys m [] \<longleftrightarrow> True"
| "leaves_keys m (KeyAdded ev # evs) \<longleftrightarrow> leaves_keys (acl_step m (KeyAdded ev)) evs"
| "leaves_keys m (KeyRemoved ev # evs) \<longleftrightarrow>
     revoke_keeps m (removals ev) \<and> leaves_keys (acl_step m (KeyRemoved ev)) evs"

lemma remove_loop_sync:
  assumes "distinct (map AuthID qs)" "revoke_keeps (acl_of (table_of qs)) rs"
  shows "\<exists>qs'. remove_loop rs (table_of qs) (map Some qs) = Inr (table_of qs', map Some qs') \<and>
           distinct (map AuthID qs')"
  using assms
proof (induction rs arbitrary: qs)
  case (Cons r rs)
  obtain x ks where r: "r = (x, ks)" by (cases r)
  show ?case using table_ok_table_of [of qs]
  proof (rule table_ok_cases [of "table_of qs" x])
    assume "table_of qs x = None" "acl_of (table_of qs) x = None"
    with Cons r show ?thesis
      by (simp add: remove_keys_def RetrievePrincipal_def acl_revoke_def)
  next
    fix p assume p: "table_of qs x = Some (Some p)" "AuthID p = x"
      "acl_of (table_of qs) x = Some (set (AuthorizedKeys p))"
    let ?f = "filter (\<lambda>k. k \<notin> set ks) (AuthorizedKeys p)"
    let ?qs = "upd_first x (\<lambda>p. p\<lparr>AuthorizedKeys := ?f\<rparr>) qs"
    have ne: "set (AuthorizedKeys p) - set ks \<noteq> {}"
      using Cons.prems(2) p r by simp
    then have "?f \<noteq> []" using filter_empty_iff by metis
    then have "remove_keys x ks (table_of qs) (map Some qs) = Inr (table_of ?qs, map Some ?qs)"
      using p by (simp add: remove_keys_def RetrievePrincipal_def SetPrincipal_def set_first_keys_Some
          Let_def table_of_upd_first del: filter_empty_conv)
    moreover have "acl_of (table_of ?qs) = acl_revoke (acl_of (table_of qs)) r"
      using p r ne by (auto simp: table_of_upd_first acl_revoke_def set_diff_eq)
    ultimately show ?thesis
      using Cons.IH [of ?qs] Cons.prems r by (simp add: upd_first_ids)
  qed
qed auto

lemma handle_event_sync:
  assumes "auth_sync a" "followable (access a) (ev # evs)" "leaves_keys (access a) (ev # evs)"
  shows "\<exists>a'. handle_event ev a = Inr a' \<and> auth_sync a'"
proof (cases ev)
  case (KeyAdded e)
  let ?x = "arg_or_empty (ev_ArgString e 0)" and ?k = "arg_or_empty (ev_ArgString e 1)"
  let ?r = "arg_or_empty (ev_ArgString e 2)" and ?qs = "file_principals (disk a)"
  let ?f = "\<lambda>p. p\<lparr>AuthorizedKeys := AuthorizedKeys p @ [?k]\<rparr>"
  from assms(1) have t: "principalByAuthID a = table_of ?qs" "disk_ok (disk a)" "distinct (map AuthID ?qs)"
    by (simp_all add: auth_sync_def)
  show ?thesis using table_ok_table_of [of ?qs]
  proof (rule table_ok_cases [of "table_of ?qs" ?x])
    assume "table_of ?qs ?x = None" "acl_of (table_of ?qs) ?x = None"
    with assms KeyAdded t show ?thesis by (simp add: granted_id_def)
  next
    fix p assume p: "table_of ?qs ?x = Some (Some p)" "AuthID p = ?x"
    then have mem: "?x \<in> AuthID ` set ?qs" using table_of_None [of ?qs ?x] by auto
    obtain d where d: "add_in_file ?x ?k ?r (disk a) = Inr d" "disk_ok d" "file_principals d = upd_first ?x ?f ?qs"
      using add_in_file_ok [OF t(2), of ?x ?k ?r] mem by auto
    have "handle_event ev a = Inr \<lparr>principalByAuthID = (table_of ?qs)(?x \<mapsto> Some (?f p)), disk = d\<rparr>"
      using KeyAdded p d t
      by (simp add: handleAddKey_def add_in_memory_def RetrievePrincipal_def SetPrincipal_def)
    moreover have "auth_sync \<lparr>principalByAuthID = (table_of ?qs)(?x \<mapsto> Some (?f p)), disk = d\<rparr>"
      using d t p by (simp add: auth_sync_def upd_first_ids table_of_upd_first)
    ultimately show ?thesis by blast
  qed
next
  case (KeyRemoved e)
  with assms have n: "ev_nargs e \<noteq> 0" by simp
  show ?thesis
  proof (cases "ev_removals e")
    case (Inl err)
    with assms KeyRemoved n show ?thesis by (simp add: handleRemoveKey_def)
  next
    case (Inr rs)
    let ?qs = "file_principals (disk a)"
    from assms(1) have t: "principalByAuthID a = table_of ?qs" "disk_ok (disk a)" "distinct (map AuthID ?qs)"
      by (simp_all add: auth_sync_def)
    from assms(3) KeyRemoved Inr t have "revoke_keeps (acl_of (table_of ?qs)) rs"
      by (simp add: removals_def)
    with remove_loop_sync [OF t(3)] obtain qs where qs:
      "remove_loop rs (table_of ?qs) (map Some ?qs) = Inr (table_of qs, map Some qs)"
      "distinct (map AuthID qs)" by blast
    let ?a = "\<lparr>principalByAuthID = table_of qs, disk = (disk a)\<lparr>principals_json := Principals (map Some qs)\<rparr>\<rparr>"
    from qs n t KeyRemoved Inr have "handle_event ev a = Inr ?a"
      by (simp add: handleRemoveKey_def disk_ok_read disk_ok_write)
    moreover have "auth_sync ?a" using qs t by (simp add: auth_sync_def)
    ultimately show ?thesis by blast
  qed
qed

lemma handle_events_sync:
  assumes "auth_sync a" "followable (access a) evs" "leaves_keys (access a) evs"
  shows "\<exists>a'. handle_events evs a = Inr a' \<and> auth_sync a'"
  using assms
proof (induction evs arbitrary: a)
  case (Cons ev evs)
  from handle_event_sync [OF Cons.prems] handle_event_ok [OF auth_sync_ok [OF Cons.prems(1)] Cons.prems(2)]
  obtain a1 where a1: "handle_event ev a = Inr a1" "auth_sync a1" "access a1 = acl_step (access a) ev"
    "followable (access a1) evs" by auto
  moreover have "leaves_keys (access a1) evs"
    using Cons.prems(3) a1(3) by (cases ev) simp_all
  ultimately show ?case using Cons.IH [of a1] by auto
qed simp

section \<open>Properties\<close>


text \<open>A concrete authenticator for the examples: two users, one of them with two keys.\<close>

definition demo_users :: "principal list" where
  "demo_users = [\<lparr>AuthID = ''alice'', AuthorizedKeys = [''k1'', ''k2''], AuthRole = ''admin''\<rparr>,
                 \<lparr>AuthID = ''bob'', AuthorizedKeys = [''k3''], AuthRole = ''member''\<rparr>]"

definition demo_auth :: authenticator where
  "demo_auth = \<lparr>principalByAuthID = table_of demo_users,
     disk = \<lparr>principals_json = Principals (map Some demo_users), write_err = None, cfg_err = False\<rparr>\<rparr>"

definition add_event :: "string \<Rightarrow> string \<Rightarrow> string \<Rightarrow> key_event" where
  "add_event x k r = \<lparr>ev_ArgString = (\<lambda>i. if i = 0 then Inr x else if i = 1 then Inr k
      else if i = 2 then Inr r else Inl (Errorf ''index'')), ev_nargs = 3, ev_removals = Inl (Errorf ''json'')\<rparr>"

definition remove_event :: "(string \<times> string list) list \<Rightarrow> key_event" where
  "remove_event rs = \<lparr>ev_ArgString = (\<lambda>i. Inl (Errorf ''type'')), ev_nargs = 1, ev_removals = Inr rs\<rparr>"

lemma demo_sync: "auth_sync demo_auth"
  by (simp add: auth_sync_def demo_auth_def disk_ok_def file_principals_def demo_users_def
      exI [of _ demo_users])

lemma demo_access: "access demo_auth = [''alice'' \<mapsto> {''k1'', ''k2''}, ''bob'' \<mapsto> {''k3''}]"
  by (simp add: demo_auth_def demo_users_def acl_of_def fun_eq_iff)

lemmas demo_event_simps = add_event_def remove_event_def granted_id_def removals_def arg_or_empty_def
  acl_grant_def acl_revoke_def demo_access


text \<open>As long as keys are added to known ids and every removal
  leaves the ids it names a key, the file follows the table: restarting the daemon after any such
  sequence of events rebuilds exactly the table in memory.\<close>

theorem restart_same_access:
  assumes "auth_sync a" "followable (access a) evs" "leaves_keys (access a) evs"
  shows "\<exists>a'. handle_events evs a = Inr a' \<and> start_authenticator a' = Inr a'"
  using handle_events_sync [OF assms] start_sync by blast

lemma restart_same_access_witness:
  "\<exists>a'. handle_events [KeyAdded (add_event ''bob'' ''k5'' ''member''), KeyRemoved (remove_event [(''alice'', [''k1'']), (''bob'', [''k3''])])] demo_auth = Inr a' \<and>
     start_authenticator a' = Inr a'"
  by (rule restart_same_access [OF demo_sync]) (auto simp: demo_event_simps)

text \<open>Removing the last keys of an id refuses that id at once,
  but the file is written back with the keys still in it, so after a restart of the daemon every
  removed key is accepted again.\<close>

theorem revoked_key_returns:
  assumes "auth_sync a" "principalByAuthID a x = Some (Some p)" "set (AuthorizedKeys p) \<subseteq> set ks"
    "ev_nargs ev > 0" "ev_removals ev = Inr [(x, ks)]"
  shows "\<exists>a' a''. handleRemoveKey ev a = Inr a' \<and>
    (\<forall>k. Authenticate nr (principalByAuthID a') (RequestCryptoSign x k)
           = Inr (Inl (Errorf (''unknown authid '' @ x)))) \<and>
    start_authenticator a' = Inr a'' \<and>
    (\<forall>k \<in> set (AuthorizedKeys p). Authenticate nr (principalByAuthID a'') (RequestCryptoSign x k)
           = Inr (nr x (AuthRole p)))"
proof -
  let ?qs = "file_principals (disk a)" and ?t = "principalByAuthID a"
  let ?a = "\<lparr>principalByAuthID = ?t(x := None), disk = (disk a)\<lparr>principals_json := Principals (map Some ?qs)\<rparr>\<rparr>"
  have f: "filter (\<lambda>k. k \<notin> set ks) (AuthorizedKeys p) = []"
    using assms(3) by (simp add: filter_empty_iff)
  have d: "disk_ok (disk a)" "distinct (map AuthID ?qs)" "?t = table_of ?qs"
    using assms(1) by (simp_all add: auth_sync_def)
  have h: "handleRemoveKey ev a = Inr ?a"
    using assms f d by (simp add: handleRemoveKey_def disk_ok_read disk_ok_write remove_keys_def
        RetrievePrincipal_def DeletePrincipal_def del: filter_empty_conv)
  have s: "start_authenticator ?a = Inr (?a\<lparr>principalByAuthID := ?t\<rparr>)"
    using d by (simp add: start_authenticator_def disk_ok_read NewAuthenticator_def SetPrincipals_Some)
  show ?thesis
    by (rule exI [of _ ?a], rule exI [of _ "?a\<lparr>principalByAuthID := ?t\<rparr>"])
      (use h s assms(2) in \<open>simp add: Authenticate_def\<close>)
qed

lemma revoked_key_returns_witness:
  "\<exists>a' a''. handleRemoveKey (remove_event [(''bob'', [''k3''])]) demo_auth = Inr a' \<and>
    Authenticate (\<lambda>x r. Inr (x, r)) (principalByAuthID a') (RequestCryptoSign ''bob'' ''k3'')
      = Inr (Inl (Errorf ''unknown authid bob'')) \<and>
    start_authenticator a' = Inr a'' \<and>
    Authenticate (\<lambda>x r. Inr (x, r)) (principalByAuthID a'') (RequestCryptoSign ''bob'' ''k3'')
      = Inr (Inr (''bob'', ''member''))"
  using revoked_key_returns [OF demo_sync, of "''bob''"
      "\<lparr>AuthID = ''bob'', AuthorizedKeys = [''k3''], AuthRole = ''member''\<rparr>" "[''k3'']"
      "remove_event [(''bob'', [''k3''])]" "\<lambda>x r. Inr (x, r)"]
  by (auto simp: demo_auth_def demo_users_def remove_event_def)

text \<open>A key added for an id the table does not hold is
  stored as a nil principal: from then on every cryptosign request of that id, and every further
  key event naming it, panics, until a restart reads the key from the file.\<close>

lemma new_id_breaks_authenticator:
  assumes "auth_sync a" "ev_ArgString ev 0 = Inr x" "ev_ArgString ev 1 = Inr k"
    "ev_ArgString ev 2 = Inr r" "principalByAuthID a x = None"
  shows "\<exists>a' a''. handleAddKey ev a = Inr a' \<and>
    (\<forall>k'. Authenticate nr (principalByAuthID a') (RequestCryptoSign x k') = Inl NilDereference) \<and>
    (\<forall>ev'. ev_ArgString ev' 0 = Inr x \<longrightarrow> handleAddKey ev' a' = Inl NilDereference) \<and>
    start_authenticator a' = Inr a'' \<and>
    Authenticate nr (principalByAuthID a'') (RequestCryptoSign x k) = Inr (nr x r)"
proof -
  let ?qs = "file_principals (disk a)" and ?t = "principalByAuthID a"
  let ?new = "\<lparr>AuthID = x, AuthorizedKeys = [k], AuthRole = r\<rparr>"
  have d: "disk_ok (disk a)" "distinct (map AuthID ?qs)" "?t = table_of ?qs"
    using assms(1) by (simp_all add: auth_sync_def)
  have x: "x \<notin> AuthID ` set ?qs" using assms(5) d(3) table_of_None by metis
  obtain d' where d': "add_in_file x k r (disk a) = Inr d'" "disk_ok d'" "file_principals d' = ?qs @ [?new]"
    using add_in_file_ok [OF d(1), of x k r] x by auto
  let ?a = "\<lparr>principalByAuthID = ?t(x \<mapsto> None), disk = d'\<rparr>"
  have h: "handleAddKey ev a = Inr ?a"
    using assms d' by (simp add: handleAddKey_def add_in_memory_def arg_or_empty_def
        RetrievePrincipal_def SetPrincipal_def)
  have "distinct (map AuthID (?qs @ [?new]))" using d(2) x by auto
  then have s: "start_authenticator ?a = Inr (?a\<lparr>principalByAuthID := table_of (?qs @ [?new])\<rparr>)"
    using d' disk_ok_read [OF d'(2)] SetPrincipals_Some [of "?qs @ [?new]"]
    by (simp add: start_authenticator_def NewAuthenticator_def)
  have "table_of (?qs @ [?new]) x = Some (Some ?new)"
    using x table_of_None [of ?qs x] by (auto simp: table_of_def map_add_def)
  then show ?thesis
    by (intro exI [of _ ?a] exI [of _ "?a\<lparr>principalByAuthID := table_of (?qs @ [?new])\<rparr>"])
      (use h s in \<open>simp add: Authenticate_def handleAddKey_def add_in_memory_def arg_or_empty_def RetrievePrincipal_def\<close>)
qed

lemma new_id_breaks_authenticator_witness:
  "\<exists>a' a''. handleAddKey (add_event ''carol'' ''k9'' ''member'') demo_auth = Inr a' \<and>
    Authenticate (\<lambda>x r. Inr (x, r)) (principalByAuthID a') (RequestCryptoSign ''carol'' ''k9'') = Inl NilDereference \<and>
    start_authenticator a' = Inr a'' \<and>
    Authenticate (\<lambda>x r. Inr (x, r)) (principalByAuthID a'') (RequestCryptoSign ''carol'' ''k9'')
      = Inr (Inr (''carol'', ''member''))"
  using new_id_breaks_authenticator [OF demo_sync, of "add_event ''carol'' ''k9'' ''member''"
      "''carol''" "''k9''" "''member''" "\<lambda>x r. Inr (x, r)"]
  by (auto simp: demo_auth_def demo_users_def add_event_def)

end
