(* ===== verification/GoPath.thy ===== *)
theory GoPath
  imports Prelude
begin

text \<open>
  The string and path functions of Go's standard library the file components use
  (\<open>strings.Split\<close>, \<open>strings.TrimSpace\<close>, \<open>strings.HasPrefix\<close>, \<open>strings.Contains\<close>, \<open>sort.Search\<close> and
  \<open>path/filepath\<close> on Unix), and what the components need to know about them: a cleaned path
  is a list of proper components, and \<open>filepath.Rel\<close> decides the prefix relation on them.
\<close>

section \<open>Strings\<close>

text \<open>\<open>strings.Split(s, sep)\<close> for a separator of one byte, and \<open>strings.Join\<close>.\<close>

fun split_on :: "char \<Rightarrow> string \<Rightarrow> string list" where
  "split_on c [] = [[]]"
| "split_on c (x # xs) =
     (if x = c then [] # split_on c xs
      else case split_on c xs of [] \<Rightarrow> [[x]] | w # ws \<Rightarrow> (x # w) # ws)"

fun join_with :: "char \<Rightarrow> string list \<Rightarrow> string" where
  "join_with c [] = []"
| "join_with c [w] = w"
| "join_with c (w # v # ws) = w @ c # join_with c (v # ws)"

lemma split_on_not_Nil [simp]: "split_on c s \<noteq> []"
  by (cases s) (auto split: list.splits)

lemma split_on_no_sep: "c \<notin> set w \<Longrightarrow> split_on c w = [w]"
  by (induction w) auto

lemma split_on_append: "c \<notin> set w \<Longrightarrow> split_on c (w @ c # s) = w # split_on c s"
  by (induction w) auto

lemma split_on_append_sep: "split_on c (s @ c # t) = split_on c s @ split_on c t"
proof (induction s)
  case (Cons x s)
  then show ?case by (cases "split_on c s") auto
qed simp

lemma split_on_join:
  "ws \<noteq> [] \<Longrightarrow> \<forall>w \<in> set ws. c \<notin> set w \<Longrightarrow> split_on c (join_with c ws) = ws"
  by (induction ws rule: join_with.induct) (auto simp: split_on_append split_on_no_sep)

lemma join_split: "join_with c (split_on c s) = s"
proof (induction s)
  case (Cons x s)
  show ?case
  proof (cases "split_on c s")
    case (Cons w ws)
    with Cons.IH show ?thesis by (cases ws) auto
  qed simp
qed simp

lemma split_on_no_sep_in: "w \<in> set (split_on c s) \<Longrightarrow> c \<notin> set w"
proof (induction s arbitrary: w)
  case (Cons x s)
  show ?case
  proof (cases "split_on c s")
    case Nil
    then show ?thesis by simp
  next
    case (Cons v vs)
    with Cons.prems Cons.IH show ?thesis by (auto split: if_splits)
  qed
qed simp

text \<open>\<open>strings.HasPrefix\<close>, \<open>strings.TrimPrefix\<close> and \<open>strings.Contains\<close>.\<close>

fun has_prefix :: "string \<Rightarrow> string \<Rightarrow> bool" where
  "has_prefix s [] \<longleftrightarrow> True"
| "has_prefix [] (p # ps) \<longleftrightarrow> False"
| "has_prefix (x # xs) (p # ps) \<longleftrightarrow> x = p \<and> has_prefix xs ps"

lemma has_prefix_iff: "has_prefix s p \<longleftrightarrow> (\<exists>t. s = p @ t)"
  by (induction s p rule: has_prefix.induct) auto

lemma has_prefix_append [simp]: "has_prefix (p @ s) p"
  by (auto simp: has_prefix_iff)

fun contains :: "string \<Rightarrow> string \<Rightarrow> bool" where
  "contains [] p \<longleftrightarrow> p = []"
| "contains (x # xs) p \<longleftrightarrow> has_prefix (x # xs) p \<or> contains xs p"

text \<open>
  \<open>strings.TrimSpace\<close>: the white space of Unicode in its UTF-8 encoding, cut at both ends.
\<close>

definition utf8_spaces :: "string list" where
  "utf8_spaces = map (map char_of)
     ([[9], [10], [11], [12], [13], [32], [0xC2, 0x85], [0xC2, 0xA0], [0xE1, 0x9A, 0x80],
       [0xE2, 0x80, 0x80], [0xE2, 0x80, 0x81], [0xE2, 0x80, 0x82], [0xE2, 0x80, 0x83], [0xE2, 0x80, 0x84],
       [0xE2, 0x80, 0x85], [0xE2, 0x80, 0x86], [0xE2, 0x80, 0x87], [0xE2, 0x80, 0x88], [0xE2, 0x80, 0x89],
       [0xE2, 0x80, 0x8A], [0xE2, 0x80, 0xA8], [0xE2, 0x80, 0xA9], [0xE2, 0x80, 0xAF], [0xE2, 0x81, 0x9F],
       [0xE3, 0x80, 0x80]] :: nat list list)"

function trim_left :: "string list \<Rightarrow> string \<Rightarrow> string" where
  "trim_left sp s = (case find (\<lambda>p. p \<noteq> [] \<and> has_prefix s p) sp of
     None \<Rightarrow> s
   | Some p \<Rightarrow> trim_left sp (drop (length p) s))"
  by pat_completeness auto
termination trim_left
  by (relation "measure (length \<circ> snd)") (auto simp: find_Some_iff has_prefix_iff)

declare trim_left.simps [simp del]

definition TrimSpace :: "string \<Rightarrow> string" where
  "TrimSpace s = rev (trim_left (map rev utf8_spaces) (rev (trim_left utf8_spaces s)))"

section \<open>Binary search\<close>

text \<open>\<open>sort.Search(n, f)\<close>: the loop over the bounds of the remaining interval.\<close>

function search_loop :: "(nat \<Rightarrow> bool) \<Rightarrow> nat \<Rightarrow> nat \<Rightarrow> nat" where
  "search_loop f i j = (if i < j
     then (let h = (i + j) div 2 in if f h then search_loop f i h else search_loop f (h + 1) j)
     else i)"
  by pat_completeness auto
termination search_loop
  by (relation "measure (\<lambda>(f, i, j). j - i)") auto

declare search_loop.simps [simp del]

definition sort_Search :: "nat \<Rightarrow> (nat \<Rightarrow> bool) \<Rightarrow> nat" where
  "sort_Search n f = search_loop f 0 n"

lemma search_loop_spec:
  assumes "\<forall>k. k < i \<longrightarrow> \<not> f k" "\<forall>k. j \<le> k \<and> k < n \<longrightarrow> f k" "i \<le> j" "j \<le> n"
    "\<forall>k l. k \<le> l \<and> l < n \<and> f k \<longrightarrow> f l"
  shows "search_loop f i j \<le> n \<and> (\<forall>k < search_loop f i j. \<not> f k) \<and>
    (\<forall>k. search_loop f i j \<le> k \<and> k < n \<longrightarrow> f k)"
  using assms
proof (induction f i j rule: search_loop.induct)
  case (1 f i j)
  show ?case
  proof (cases "i < j")
    case False
    then have "search_loop f i j = i" by (simp add: search_loop.simps [of f i j])
    with "1.prems" False show ?thesis by simp
  next
    case True
    define h where "h = (i + j) div 2"
    have h: "i \<le> h" "h < j" using True by (auto simp: h_def)
    show ?thesis
    proof (cases "f h")
      case True
      have eq: "search_loop f i j = search_loop f i h"
        using \<open>i < j\<close> True by (simp add: search_loop.simps [of f i j] Let_def h_def)
      have fh: "\<forall>k. h \<le> k \<and> k < n \<longrightarrow> f k" using "1.prems"(5) True by blast
      have "h \<le> n" using h(2) "1.prems"(4) by linarith
      from 1(1) [OF \<open>i < j\<close> h_def True "1.prems"(1) fh h(1) this "1.prems"(5)]
      show ?thesis unfolding eq .
    next
      case False
      have eq: "search_loop f i j = search_loop f (h + 1) j"
        using \<open>i < j\<close> False by (simp add: search_loop.simps [of f i j] Let_def h_def)
      have hn: "h < n" using h(2) "1.prems"(4) by linarith
      have nf: "\<forall>k < h + 1. \<not> f k"
      proof (intro allI impI notI)
        fix k assume "k < h + 1" "f k"
        then have "k \<le> h \<and> h < n \<and> f k" using hn by linarith
        with "1.prems"(5) False show False by blast
      qed
      have "h + 1 \<le> j" using h(2) by linarith
      from 1(2) [OF \<open>i < j\<close> h_def False nf "1.prems"(2) this "1.prems"(4,5)]
      show ?thesis unfolding eq .
    qed
  qed
qed

lemma sort_Search_spec:
  assumes "\<forall>k l. k \<le> l \<and> l < n \<and> f k \<longrightarrow> f l"
  shows "sort_Search n f \<le> n" "\<And>k. k < sort_Search n f \<Longrightarrow> \<not> f k"
    "\<And>k. sort_Search n f \<le> k \<Longrightarrow> k < n \<Longrightarrow> f k"
proof -
  have "search_loop f 0 n \<le> n \<and> (\<forall>k < search_loop f 0 n. \<not> f k) \<and>
      (\<forall>k. search_loop f 0 n \<le> k \<and> k < n \<longrightarrow> f k)"
    by (rule search_loop_spec [OF _ _ _ _ assms]) auto
  then show "sort_Search n f \<le> n" "\<And>k. k < sort_Search n f \<Longrightarrow> \<not> f k"
    "\<And>k. sort_Search n f \<le> k \<Longrightarrow> k < n \<Longrightarrow> f k"
    unfolding sort_Search_def by blast+
qed

section \<open>Paths\<close>

abbreviation "sep \<equiv> CHR ''/''"

definition IsAbs :: "string \<Rightarrow> bool" where
  "IsAbs s \<longleftrightarrow> has_prefix s ''/''"

text \<open>
  \<open>filepath.Clean\<close>: empty and \<open>.\<close> components go, \<open>..\<close> removes the component before it; it
  disappears at the root and stays at the front of a relative path. The stack is reversed.
\<close>

definition clean_step :: "bool \<Rightarrow> string list \<Rightarrow> string \<Rightarrow> string list" where
  "clean_step rooted st c =
     (if c = [] \<or> c = ''.'' then st
      else if c = ''..'' then
        (case st of [] \<Rightarrow> (if rooted then [] else [''..''])
         | t # ts \<Rightarrow> if t = ''..'' then ''..'' # st else ts)
      else c # st)"

definition clean_comps :: "bool \<Rightarrow> string list \<Rightarrow> string list" where
  "clean_comps rooted cs = rev (foldl (clean_step rooted) [] cs)"

text \<open>The components of a path after cleaning, and the path spelled from them.\<close>

definition comps :: "string \<Rightarrow> string list" where
  "comps s = clean_comps (IsAbs s) (split_on sep s)"

definition spell :: "bool \<Rightarrow> string list \<Rightarrow> string" where
  "spell rooted cs = (if rooted then sep # join_with sep cs
     else if cs = [] then ''.'' else join_with sep cs)"

definition Clean :: "string \<Rightarrow> string" where
  "Clean s = spell (IsAbs s) (comps s)"

definition Join :: "string \<Rightarrow> string \<Rightarrow> string" where
  "Join a b = (if a \<noteq> [] then Clean (a @ ''/'' @ b) else if b \<noteq> [] then Clean b else [])"

text \<open>\<open>filepath.Dir\<close>, \<open>filepath.Base\<close> and \<open>filepath.Ext\<close>.\<close>

definition Dir :: "string \<Rightarrow> string" where
  "Dir s = Clean (rev (dropWhile (\<lambda>c. c \<noteq> sep) (rev s)))"

definition Base :: "string \<Rightarrow> string" where
  "Base s = (if s = [] then ''.''
     else let t = rev (dropWhile (\<lambda>c. c = sep) (rev s));
              b = rev (takeWhile (\<lambda>c. c \<noteq> sep) (rev t))
          in if b = [] then ''/'' else b)"

definition Ext :: "string \<Rightarrow> string" where
  "Ext s = (let b = takeWhile (\<lambda>c. c \<noteq> sep) (rev s) in
     if CHR ''.'' \<in> set b then CHR ''.'' # rev (takeWhile (\<lambda>c. c \<noteq> CHR ''.'') b) else [])"

text \<open>
  \<open>filepath.Rel\<close>: the elements of a cleaned path (none for the root), the common prefix
  stripped, a \<open>..\<close> for every element of the base that is left.
\<close>

definition elements :: "string \<Rightarrow> string list" where
  "elements p = (if p = [] \<or> p = ''/'' then [] else split_on sep (if IsAbs p then tl p else p))"

fun strip_common :: "string list \<Rightarrow> string list \<Rightarrow> string list \<times> string list" where
  "strip_common (b # bs) (t # ts) = (if b = t then strip_common bs ts else (b # bs, t # ts))"
| "strip_common bs ts = (bs, ts)"

definition Rel :: "string \<Rightarrow> string \<Rightarrow> string result" where
  "Rel basepath targpath =
     (let base = Clean basepath; targ = Clean targpath;
          err = Inl (Errorf (''Rel: can't make '' @ targpath @ '' relative to '' @ basepath))
      in if targ = base then Inr ''.''
         else let base = (if base = ''.'' then '''' else base)
         in if IsAbs base \<noteq> IsAbs targ then err
         else case strip_common (elements base) (elements targ) of
                (bs, ts) \<Rightarrow>
                  if bs \<noteq> [] \<and> ts \<noteq> [] \<and> hd bs = ''..'' then err
                  else Inr (join_with sep (replicate (length bs) ''..'' @ ts)))"

section \<open>Cleaned paths\<close>

definition good_comp :: "string \<Rightarrow> bool" where
  "good_comp c \<longleftrightarrow> c \<noteq> [] \<and> c \<noteq> ''.'' \<and> c \<noteq> ''..'' \<and> sep \<notin> set c"

definition clean_list :: "bool \<Rightarrow> string list \<Rightarrow> bool" where
  "clean_list r cs \<longleftrightarrow> (\<exists>n g. cs = replicate n ''..'' @ g \<and> (\<forall>c \<in> set g. good_comp c) \<and> (r \<longrightarrow> n = 0))"

lemma clean_list_rooted: "clean_list True cs \<longleftrightarrow> (\<forall>c \<in> set cs. good_comp c)"
  by (auto simp: clean_list_def)

lemma clean_list_mem:
  assumes "clean_list r cs" "c \<in> set cs"
  shows "c \<noteq> [] \<and> sep \<notin> set c"
proof -
  from assms consider "c = ''..''" | "good_comp c"
    unfolding clean_list_def by (metis Un_iff in_set_replicate set_append)
  then show ?thesis by cases (auto simp: good_comp_def)
qed

lemma clean_list_sep: "clean_list r cs \<Longrightarrow> c \<in> set cs \<Longrightarrow> sep \<notin> set c"
  by (simp add: clean_list_mem)

lemma clean_list_Nil [simp]: "clean_list r []"
  by (simp add: clean_list_def)

lemma clean_step_list:
  assumes "clean_list r (rev st)" "sep \<notin> set c"
  shows "clean_list r (rev (clean_step r st c))"
proof -
  from assms(1) obtain n g where g: "rev st = replicate n ''..'' @ g" "\<forall>c \<in> set g. good_comp c" "r \<longrightarrow> n = 0"
    by (auto simp: clean_list_def)
  from g(1) have st: "st = rev g @ replicate n ''..''" by (simp add: rev_swap)
  consider "c = [] \<or> c = ''.''" | "c = ''..''" "g = []" | h t where "c = ''..''" "g = t @ [h]" | "good_comp c"
    using assms(2) by (cases g rule: rev_cases) (auto simp: good_comp_def)
  then show ?thesis
  proof cases
    case 1
    with assms show ?thesis by (auto simp: clean_step_def)
  next
    case 2
    show ?thesis
    proof (cases n)
      case 0
      then have "rev (clean_step r st c) = (if r then [] else replicate 1 ''..'' @ [])"
        using 2 st by (simp add: clean_step_def)
      moreover have "clean_list r (if r then [] else replicate 1 ''..'' @ [])"
        unfolding clean_list_def
        by (rule exI [of _ "if r then 0 else 1"], rule exI [of _ "[]"]) simp
      ultimately show ?thesis by (simp only:)
    next
      case (Suc m)
      then have "rev (clean_step r st c) = replicate (Suc n) ''..'' @ []"
        using 2 st by (simp add: clean_step_def replicate_append_same)
      moreover have "\<not> r" using g(3) Suc by auto
      ultimately show ?thesis unfolding clean_list_def
        by (intro exI [of _ "Suc n"] exI [of _ "[]"]) simp
    qed
  next
    case 3
    then have "good_comp h" using g(2) by simp
    then have "rev (clean_step r st c) = replicate n ''..'' @ t"
      using 3 st by (simp add: clean_step_def good_comp_def)
    then show ?thesis using g 3 by (auto simp: clean_list_def)
  next
    case 4
    then have "rev (clean_step r st c) = replicate n ''..'' @ (g @ [c])"
      using st by (simp add: clean_step_def good_comp_def)
    then show ?thesis using g 4 unfolding clean_list_def
      by (intro exI [of _ n] exI [of _ "g @ [c]"]) simp
  qed
qed

lemma clean_foldl_list:
  "clean_list r (rev st) \<Longrightarrow> \<forall>c \<in> set cs. sep \<notin> set c \<Longrightarrow> clean_list r (rev (foldl (clean_step r) st cs))"
  by (induction cs arbitrary: st) (auto simp: clean_step_list)

lemma comps_clean: "clean_list (IsAbs s) (comps s)"
  unfolding comps_def clean_comps_def
  by (rule clean_foldl_list) (auto dest: split_on_no_sep_in)

lemma foldl_clean_good:
  "\<forall>c \<in> set g. good_comp c \<Longrightarrow> foldl (clean_step r) st g = rev g @ st"
  by (induction g arbitrary: st) (auto simp: clean_step_def good_comp_def)

lemma foldl_clean_dots: "foldl (clean_step False) (replicate m ''..'') (replicate n ''..'') = replicate (m + n) ''..''"
proof (induction n arbitrary: m)
  case (Suc n)
  have "clean_step False (replicate m ''..'') ''..'' = replicate (Suc m) ''..''"
    by (cases m) (auto simp: clean_step_def)
  then show ?case using Suc [of "Suc m"] by simp
qed simp

lemma clean_comps_id:
  assumes "clean_list r cs"
  shows "clean_comps r cs = cs"
proof -
  from assms obtain n g where g: "cs = replicate n ''..'' @ g" "\<forall>c \<in> set g. good_comp c" "r \<longrightarrow> n = 0"
    by (auto simp: clean_list_def)
  have "foldl (clean_step r) [] (replicate n ''..'') = replicate n ''..''"
    using foldl_clean_dots [of 0 n] g(3) by (cases r) auto
  with g show ?thesis by (simp add: clean_comps_def foldl_clean_good)
qed

lemma clean_comps_cons_empty: "clean_comps r ([] # cs) = clean_comps r cs"
  by (simp add: clean_comps_def clean_step_def)

lemma clean_list_join_not_abs:
  assumes "clean_list r cs"
  shows "\<not> IsAbs (join_with sep cs)"
proof (cases cs)
  case (Cons c cs')
  from assms have "c \<noteq> [] \<and> sep \<notin> set c"
    using clean_list_mem by (metis Cons list.set_intros(1))
  then obtain x w where "c = x # w" "x \<noteq> sep" by (cases c) auto
  then show ?thesis unfolding Cons by (cases cs') (auto simp: IsAbs_def)
qed (simp add: IsAbs_def)

lemma spell_abs: "clean_list r cs \<Longrightarrow> IsAbs (spell r cs) = r"
  using clean_list_join_not_abs [of r cs] by (auto simp: spell_def IsAbs_def)

lemma comps_spell:
  assumes "clean_list r cs"
  shows "comps (spell r cs) = cs"
proof -
  have sp: "split_on sep (join_with sep cs) = cs" if "cs \<noteq> []"
    using that assms clean_list_sep by (intro split_on_join) auto
  have "clean_comps r (split_on sep (spell r cs)) = cs"
  proof (cases "cs = []")
    case True
    then show ?thesis by (auto simp: spell_def clean_comps_def clean_step_def)
  next
    case False
    then show ?thesis
      using sp clean_comps_id [OF assms] by (cases r) (simp_all add: spell_def clean_comps_cons_empty)
  qed
  with spell_abs [OF assms] show ?thesis by (simp add: comps_def)
qed

lemma IsAbs_Clean [simp]: "IsAbs (Clean s) = IsAbs s"
  by (simp add: Clean_def spell_abs comps_clean)

lemma comps_Clean [simp]: "comps (Clean s) = comps s"
  by (simp add: Clean_def comps_spell comps_clean)

lemma Clean_Clean [simp]: "Clean (Clean s) = Clean s"
  by (simp add: Clean_def [of "Clean s"]) (simp add: Clean_def)

lemma Clean_eq_iff: "Clean s = Clean t \<longleftrightarrow> IsAbs s = IsAbs t \<and> comps s = comps t"
proof
  assume "Clean s = Clean t"
  then have "IsAbs (Clean s) = IsAbs (Clean t)" "comps (Clean s) = comps (Clean t)" by simp_all
  then show "IsAbs s = IsAbs t \<and> comps s = comps t" by simp
qed (simp add: Clean_def)

lemma elements_Clean:
  assumes "IsAbs s"
  shows "elements (Clean s) = comps s"
proof (cases "comps s = []")
  case True
  with assms show ?thesis by (simp add: Clean_def spell_def elements_def)
next
  case False
  have j: "join_with sep (comps s) \<noteq> []"
  proof
    assume "join_with sep (comps s) = []"
    then have "split_on sep (join_with sep (comps s)) = [[]]" by simp
    moreover have "split_on sep (join_with sep (comps s)) = comps s"
      using False comps_clean [of s] clean_list_sep by (intro split_on_join) auto
    ultimately have "[] \<in> set (comps s)" by simp
    with comps_clean [of s] assms show False by (simp add: clean_list_rooted) (auto simp: good_comp_def)
  qed
  have "split_on sep (join_with sep (comps s)) = comps s"
    using False comps_clean [of s] clean_list_sep by (intro split_on_join) auto
  with j assms show ?thesis by (simp add: Clean_def spell_def elements_def IsAbs_def)
qed

section \<open>Containment\<close>

text \<open>The lexical prefix relation \<open>path is below dir\<close> on components.\<close>

definition below :: "string \<Rightarrow> string \<Rightarrow> bool" where
  "below dir p \<longleftrightarrow> IsAbs p \<and> take (length (comps dir)) (comps p) = comps dir"

lemma strip_common_spec:
  "strip_common bs ts = (b, t) \<Longrightarrow>
     \<exists>p. bs = p @ b \<and> ts = p @ t \<and> (b = [] \<or> t = [] \<or> hd b \<noteq> hd t)"
  by (induction bs ts rule: strip_common.induct) (auto split: if_splits)

lemma strip_common_prefix:
  assumes "strip_common bs ts = (b, t)"
  shows "b = [] \<longleftrightarrow> take (length bs) ts = bs"
proof -
  from strip_common_spec [OF assms] obtain p where p: "bs = p @ b" "ts = p @ t" "b = [] \<or> t = [] \<or> hd b \<noteq> hd t"
    by blast
  then show ?thesis by (cases b; cases t) auto
qed

lemma dotdot_prefix: "sep \<notin> set w \<Longrightarrow> has_prefix (w @ sep # s) ''../'' \<Longrightarrow> w = ''..''"
  by (cases w; cases "tl w"; cases "tl (tl w)") auto

lemma dotdot_prefix_short: "sep \<notin> set w \<Longrightarrow> \<not> has_prefix w ''../''"
  by (auto simp: has_prefix_iff)

text \<open>The test the file operations make on the relative path.\<close>

definition escapes :: "string \<Rightarrow> bool" where
  "escapes rel \<longleftrightarrow> rel = ''..'' \<or> has_prefix rel ''../''"

lemma escapes_up: "escapes (join_with sep (''..'' # cs))"
  by (cases cs) (auto simp: escapes_def)

lemma not_escapes_down:
  assumes "\<forall>c \<in> set cs. good_comp c"
  shows "\<not> escapes (join_with sep cs)"
proof (cases cs)
  case Nil
  then show ?thesis by (simp add: escapes_def)
next
  case (Cons w ws)
  with assms have w: "w \<noteq> ''..''" "sep \<notin> set w" by (auto simp: good_comp_def)
  show ?thesis
  proof (cases ws)
    case Nil
    with Cons w dotdot_prefix_short show ?thesis by (simp add: escapes_def)
  next
    case (Cons v vs)
    have "sep \<in> set (w @ sep # join_with sep (v # vs))" "sep \<notin> set ''..''" by simp_all
    then have "w @ sep # join_with sep (v # vs) \<noteq> ''..''" by metis
    with \<open>cs = w # ws\<close> Cons w dotdot_prefix show ?thesis by (auto simp: escapes_def)
  qed
qed

lemma Rel_below:
  assumes "IsAbs home" "IsAbs p"
  shows "\<exists>rel. Rel home p = Inr rel \<and> (escapes rel \<longleftrightarrow> \<not> below home p)"
proof (cases "Clean p = Clean home")
  case True
  then have "comps p = comps home" by (metis comps_Clean)
  with True assms show ?thesis by (simp add: Rel_def Let_def escapes_def below_def)
next
  case False
  obtain b t where bt: "strip_common (comps home) (comps p) = (b, t)" by force
  from strip_common_spec [OF bt] obtain q where q: "comps home = q @ b" "comps p = q @ t" by blast
  from comps_clean [of home] comps_clean [of p] assms q
  have good: "\<forall>c \<in> set b. good_comp c" "\<forall>c \<in> set t. good_comp c"
    by (auto simp: clean_list_rooted)
  have nd: "Clean home \<noteq> ''.''" using IsAbs_Clean [of home] assms by (auto simp: IsAbs_def)
  have hd: "\<not> (b \<noteq> [] \<and> t \<noteq> [] \<and> hd b = ''..'')"
    using good(1) by (cases b) (auto simp: good_comp_def)
  have rel: "Rel home p = Inr (join_with sep (replicate (length b) ''..'' @ t))"
    using False assms nd hd bt by (simp add: Rel_def Let_def elements_Clean)
  have "escapes (join_with sep (replicate (length b) ''..'' @ t)) \<longleftrightarrow> b \<noteq> []"
    using escapes_up not_escapes_down [OF good(2)] by (cases b) auto
  with rel strip_common_prefix [OF bt] assms show ?thesis by (simp add: below_def)
qed

end
