(* ===== verification/FileSystem.thy ===== *)
theory FileSystem
  imports GoPath "HOL-Library.List_Lexorder" "HOL-Library.Char_ord"
begin

text \<open>
  The file system as the functions of package \<open>os\<close> show it to the file components: a table from
  absolute component lists to nodes, path resolution through symbolic links, and the calls
  \<open>Lstat\<close>, \<open>Stat\<close>, \<open>ReadDir\<close>, \<open>ReadFile\<close>, \<open>WriteFile\<close>, \<open>OpenFile\<close>, \<open>MkdirAll\<close>, \<open>Rename\<close> and
  \<open>RemoveAll\<close>. The process may access every node; permission bits are carried, not enforced.
\<close>

section \<open>Nodes and resolution\<close>

datatype inode_kind = Regular bytes | Directory | SymlinkTo string | Special

record inode =
  kind :: inode_kind
  perm :: "12 word"
  mtime :: nat

record fs =
  nodes :: "(string list \<times> inode) list"
  cwd :: "string list"
  umask :: "12 word"
  clock :: nat

definition node_at :: "fs \<Rightarrow> string list \<Rightarrow> inode option" where
  "node_at m p = map_of (nodes m) p"

definition put_node :: "string list \<Rightarrow> inode \<Rightarrow> fs \<Rightarrow> fs" where
  "put_node p nd m = m\<lparr>nodes := (p, nd) # filter (\<lambda>e. fst e \<noteq> p) (nodes m)\<rparr>"

definition is_dir :: "inode \<Rightarrow> bool" where
  "is_dir nd \<longleftrightarrow> kind nd = Directory"

definition is_regular :: "inode \<Rightarrow> bool" where
  "is_regular nd = (case kind nd of Regular _ \<Rightarrow> True | _ \<Rightarrow> False)"

definition is_symlink :: "inode \<Rightarrow> bool" where
  "is_symlink nd = (case kind nd of SymlinkTo _ \<Rightarrow> True | _ \<Rightarrow> False)"

definition node_size :: "inode \<Rightarrow> nat" where
  "node_size nd = (case kind nd of Regular b \<Rightarrow> length b | SymlinkTo t \<Rightarrow> length t | _ \<Rightarrow> 0)"

text \<open>
  Resolution of the remaining components below a directory. A symbolic link in the middle is
  always followed, one at the end only on demand; after 40 links the kernel gives up. A missing
  last component is no error here, the calls decide what it means.
\<close>

definition ErrLoop :: go_error where
  "ErrLoop = Errorf ''too many levels of symbolic links''"

definition ErrNotDir :: go_error where
  "ErrNotDir = Errorf ''not a directory''"

definition ErrIsDir :: go_error where
  "ErrIsDir = Errorf ''is a directory''"

function walk :: "fs \<Rightarrow> bool \<Rightarrow> nat \<Rightarrow> string list \<Rightarrow> string list \<Rightarrow> string list result" where
  "walk m follow n cur [] = Inr cur"
| "walk m follow n cur (c # cs) =
     (if c = [] \<or> c = ''.'' then walk m follow n cur cs
      else if c = ''..'' then walk m follow n (butlast cur) cs
      else case node_at m (cur @ [c]) of
        None \<Rightarrow> if cs = [] then Inr (cur @ [c]) else Inl (ErrNotExist [])
      | Some nd \<Rightarrow> (case kind nd of
          SymlinkTo t \<Rightarrow>
            if cs = [] \<and> \<not> follow then Inr (cur @ [c])
            else (case n of 0 \<Rightarrow> Inl ErrLoop
              | Suc k \<Rightarrow> walk m follow k (if IsAbs t then [] else cur) (split_on sep t @ cs))
        | Directory \<Rightarrow> walk m follow n (cur @ [c]) cs
        | _ \<Rightarrow> if cs = [] then Inr (cur @ [c]) else Inl ErrNotDir))"
  by pat_completeness auto
termination walk
  by (relation "measures [\<lambda>(m, follow, n, cur, cs). n, \<lambda>(m, follow, n, cur, cs). length cs]") auto

definition resolve :: "fs \<Rightarrow> bool \<Rightarrow> string \<Rightarrow> string list result" where
  "resolve m follow p = walk m follow 40 (if IsAbs p then [] else cwd m) (split_on sep p)"

text \<open>Errors of package \<open>os\<close> name the operation and the path (\<open>PathError\<close>).\<close>

fun path_error :: "string \<Rightarrow> string \<Rightarrow> go_error \<Rightarrow> go_error" where
  "path_error op p (ErrNotExist s) = ErrNotExist (op @ '' '' @ p)"
| "path_error op p e = Wrapf (op @ '' '' @ p @ '': '') e"

definition os_IsNotExist :: "go_error \<Rightarrow> bool" where
  "os_IsNotExist e = (case e of ErrNotExist _ \<Rightarrow> True | _ \<Rightarrow> False)"

section \<open>Reading\<close>

text \<open>\<open>os.Lstat\<close> and \<open>os.Stat\<close>: the resolved place and its node.\<close>

definition stat_at :: "bool \<Rightarrow> string \<Rightarrow> fs \<Rightarrow> string \<Rightarrow> (string list \<times> inode) result" where
  "stat_at follow op m p = (case resolve m follow p of
     Inl e \<Rightarrow> Inl (path_error op p e)
   | Inr q \<Rightarrow> (case node_at m q of
       None \<Rightarrow> Inl (ErrNotExist (op @ '' '' @ p))
     | Some nd \<Rightarrow> Inr (q, nd)))"

definition os_Lstat :: "fs \<Rightarrow> string \<Rightarrow> (string list \<times> inode) result" where
  "os_Lstat m p = stat_at False ''lstat'' m p"

definition os_Stat :: "fs \<Rightarrow> string \<Rightarrow> (string list \<times> inode) result" where
  "os_Stat m p = stat_at True ''stat'' m p"

definition children :: "fs \<Rightarrow> string list \<Rightarrow> string list" where
  "children m q = sort (remdups (map last (filter (\<lambda>p. p \<noteq> [] \<and> butlast p = q) (map fst (nodes m)))))"

text \<open>\<open>os.ReadDir\<close>: the entries in the order of their names, each with the kind \<open>Lstat\<close> gives.\<close>

definition os_ReadDir :: "fs \<Rightarrow> string \<Rightarrow> (string \<times> inode) list result" where
  "os_ReadDir m p = (case stat_at True ''open'' m p of
     Inl e \<Rightarrow> Inl e
   | Inr (q, nd) \<Rightarrow>
       if is_dir nd then Inr (map (\<lambda>n. (n, the (node_at m (q @ [n])))) (children m q))
       else Inl (path_error ''readdirent'' p ErrNotDir))"

text \<open>Reading an open file: a directory opens and then fails to read; other nodes read as empty.\<close>

definition read_node :: "string \<Rightarrow> inode \<Rightarrow> bytes result" where
  "read_node p nd = (case kind nd of
     Regular b \<Rightarrow> Inr b
   | Directory \<Rightarrow> Inl (path_error ''read'' p ErrIsDir)
   | _ \<Rightarrow> Inr [])"

definition os_ReadFile :: "fs \<Rightarrow> string \<Rightarrow> bytes result" where
  "os_ReadFile m p = (case stat_at True ''open'' m p of
     Inl e \<Rightarrow> Inl e | Inr (q, nd) \<Rightarrow> read_node p nd)"

definition os_Readlink :: "fs \<Rightarrow> string \<Rightarrow> string result" where
  "os_Readlink m p = (case stat_at False ''readlink'' m p of
     Inl e \<Rightarrow> Inl e
   | Inr (q, nd) \<Rightarrow> (case kind nd of SymlinkTo t \<Rightarrow> Inr t
                      | _ \<Rightarrow> Inl (path_error ''readlink'' p (Errorf ''invalid argument''))))"

section \<open>Writing\<close>

text \<open>
  \<open>os.OpenFile\<close> with \<open>O_CREATE | O_WRONLY | O_TRUNC\<close>: the place the descriptor refers to. A link
  at the end is followed, so a dangling link creates its target.
\<close>

definition open_trunc :: "fs \<Rightarrow> string \<Rightarrow> 12 word \<Rightarrow> (fs \<times> string list) result" where
  "open_trunc m p mode = (case resolve m True p of
     Inl e \<Rightarrow> Inl (path_error ''open'' p e)
   | Inr q \<Rightarrow> (case node_at m q of
       None \<Rightarrow> Inr (put_node q \<lparr>kind = Regular [], perm = and mode (not (umask m)), mtime = clock m\<rparr> m, q)
     | Some nd \<Rightarrow> (case kind nd of
         Regular _ \<Rightarrow> Inr (put_node q (nd\<lparr>kind := Regular [], mtime := clock m\<rparr>) m, q)
       | Directory \<Rightarrow> Inl (path_error ''open'' p ErrIsDir)
       | _ \<Rightarrow> Inr (m, q))))"

text \<open>Writing all of a file's content through the descriptor.\<close>

definition write_at :: "string list \<Rightarrow> bytes \<Rightarrow> fs \<Rightarrow> fs" where
  "write_at q b m = (case node_at m q of
     Some nd \<Rightarrow> (case kind nd of
       Regular _ \<Rightarrow> put_node q (nd\<lparr>kind := Regular b, mtime := clock m\<rparr>) m
     | _ \<Rightarrow> m)
   | None \<Rightarrow> m)"

definition os_WriteFile :: "fs \<Rightarrow> string \<Rightarrow> bytes \<Rightarrow> 12 word \<Rightarrow> fs \<times> go_error option" where
  "os_WriteFile m p b mode = (case open_trunc m p mode of
     Inl e \<Rightarrow> (m, Some e)
   | Inr (m', q) \<Rightarrow> (write_at q b m', None))"

text \<open>\<open>os.Mkdir\<close>, and \<open>os.MkdirAll\<close> which makes the prefixes of the path one after the other.\<close>

definition os_Mkdir :: "fs \<Rightarrow> string \<Rightarrow> 12 word \<Rightarrow> fs \<times> go_error option" where
  "os_Mkdir m p mode = (case resolve m False p of
     Inl e \<Rightarrow> (m, Some (path_error ''mkdir'' p e))
   | Inr q \<Rightarrow> (case node_at m q of
       Some nd \<Rightarrow> (m, Some (path_error ''mkdir'' p (Errorf ''file exists'')))
     | None \<Rightarrow> (put_node q \<lparr>kind = Directory, perm = and mode (not (umask m)), mtime = clock m\<rparr> m, None)))"

fun mkdir_steps :: "12 word \<Rightarrow> fs \<Rightarrow> string list \<Rightarrow> fs \<times> go_error option" where
  "mkdir_steps mode m [] = (m, None)"
| "mkdir_steps mode m (p # ps) = (case os_Stat m p of
     Inr (q, nd) \<Rightarrow> if is_dir nd then mkdir_steps mode m ps
                    else (m, Some (path_error ''mkdir'' p ErrNotDir))
   | Inl _ \<Rightarrow> (case os_Mkdir m p mode of
       (m', None) \<Rightarrow> mkdir_steps mode m' ps
     | (m', Some e) \<Rightarrow> (m', Some e)))"

definition prefixes :: "string \<Rightarrow> string list" where
  "prefixes p = map (\<lambda>k. spell (IsAbs p) (take (Suc k) (comps p))) [0 ..< length (comps p)]"

definition os_MkdirAll :: "fs \<Rightarrow> string \<Rightarrow> 12 word \<Rightarrow> fs \<times> go_error option" where
  "os_MkdirAll m p mode = mkdir_steps mode m (prefixes p)"

text \<open>\<open>os.RemoveAll\<close>: the node and everything below it; nothing to remove is no error.\<close>

definition subtree :: "string list \<Rightarrow> string list \<Rightarrow> bool" where
  "subtree q p \<longleftrightarrow> take (length q) p = q"

definition drop_subtree :: "string list \<Rightarrow> fs \<Rightarrow> fs" where
  "drop_subtree q m = m\<lparr>nodes := filter (\<lambda>e. \<not> subtree q (fst e)) (nodes m)\<rparr>"

definition os_RemoveAll :: "fs \<Rightarrow> string \<Rightarrow> fs \<times> go_error option" where
  "os_RemoveAll m p = (case resolve m False p of
     Inl e \<Rightarrow> if os_IsNotExist e then (m, None) else (m, Some (path_error ''unlinkat'' p e))
   | Inr q \<Rightarrow> if q = [] then (m, Some (path_error ''unlinkat'' p (Errorf ''device or resource busy'')))
              else (drop_subtree q m, None))"

text \<open>
  \<open>os.Rename\<close>: package \<open>os\<close> refuses a new name that is a directory (other than the same node under
  another name); the kernel refuses to move a directory below itself or over a file.
\<close>

definition move_subtree :: "string list \<Rightarrow> string list \<Rightarrow> fs \<Rightarrow> fs" where
  "move_subtree a b m = m\<lparr>nodes := map (\<lambda>e. if subtree a (fst e) then (b @ drop (length a) (fst e), snd e) else e)
     (filter (\<lambda>e. \<not> subtree b (fst e)) (nodes m))\<rparr>"

definition link_error :: "string \<Rightarrow> string \<Rightarrow> go_error \<Rightarrow> go_error" where
  "link_error a b e = (case e of
     ErrNotExist _ \<Rightarrow> ErrNotExist (''rename '' @ a @ '' '' @ b)
   | _ \<Rightarrow> Wrapf (''rename '' @ a @ '' '' @ b @ '': '') e)"

definition kernel_rename :: "fs \<Rightarrow> string \<Rightarrow> string \<Rightarrow> fs \<times> go_error option" where
  "kernel_rename m old new = (case resolve m False old of
     Inl e \<Rightarrow> (m, Some (link_error old new e))
   | Inr a \<Rightarrow> (case node_at m a of
       None \<Rightarrow> (m, Some (link_error old new (ErrNotExist [])))
     | Some nd \<Rightarrow> (case resolve m False new of
         Inl e \<Rightarrow> (m, Some (link_error old new e))
       | Inr b \<Rightarrow>
           if a = b then (m, None)
           else if subtree a b then (m, Some (link_error old new (Errorf ''invalid argument'')))
           else if is_dir nd \<and> node_at m b \<noteq> None then (m, Some (link_error old new ErrNotDir))
           else (move_subtree a b m, None))))"

definition os_Rename :: "fs \<Rightarrow> string \<Rightarrow> string \<Rightarrow> fs \<times> go_error option" where
  "os_Rename m old new = (case os_Lstat m new of
     Inl _ \<Rightarrow> kernel_rename m old new
   | Inr (b, nd) \<Rightarrow>
       if is_dir nd then
         (case os_Lstat m old of
            Inl e \<Rightarrow> (m, Some (link_error old new e))
          | Inr (a, _) \<Rightarrow> if new = old \<or> a \<noteq> b then (m, Some (link_error old new (Errorf ''file exists'')))
                          else kernel_rename m old new)
       else kernel_rename m old new)"

section \<open>What the calls change\<close>

lemma node_at_put [simp]: "node_at (put_node p nd m) q = (if q = p then Some nd else node_at m q)"
proof -
  have "map_of (filter (\<lambda>e. fst e \<noteq> p) xs) q = map_of xs q" if "q \<noteq> p" for xs :: "(string list \<times> inode) list"
    using that by (induction xs) auto
  then show ?thesis by (simp add: node_at_def put_node_def)
qed

lemma put_node_same [simp]: "cwd (put_node p nd m) = cwd m" "umask (put_node p nd m) = umask m"
    "clock (put_node p nd m) = clock m"
  by (simp_all add: put_node_def)

lemma map_of_filter_fst: "map_of (filter (\<lambda>e. P (fst e)) xs) q = (if P q then map_of xs q else None)"
  by (induction xs) auto

lemma node_at_drop [simp]: "node_at (drop_subtree a m) q = (if subtree a q then None else node_at m q)"
  using map_of_filter_fst [of "\<lambda>p. \<not> subtree a p" "nodes m" q] by (simp add: node_at_def drop_subtree_def)

lemma subtree_refl [simp]: "subtree a a"
  by (simp add: subtree_def)

lemma subtree_append [simp]: "subtree a (a @ s)"
  by (simp add: subtree_def)

lemma subtree_iff: "subtree a q \<longleftrightarrow> (\<exists>s. q = a @ s)"
  by (auto simp: subtree_def) (metis append_take_drop_id)

lemma subtree_trans: "subtree a b \<Longrightarrow> subtree b c \<Longrightarrow> subtree a c"
  by (auto simp: subtree_iff)

text \<open>The move of a subtree: the nodes below \<open>a\<close> are found below \<open>b\<close>, everything else stays.\<close>

lemma node_at_move_frame:
  assumes "\<not> subtree a q" "\<not> subtree b q"
  shows "node_at (move_subtree a b m) q = node_at m q"
proof -
  let ?f = "\<lambda>e :: string list \<times> inode. if subtree a (fst e) then (b @ drop (length a) (fst e), snd e) else e"
  have "map_of (map ?f (filter (\<lambda>e. \<not> subtree b (fst e)) xs)) q = map_of xs q" for xs
  proof (induction xs)
    case (Cons e xs)
    have "fst e \<noteq> q" if "subtree a (fst e)" using that assms(1) by auto
    moreover have "b @ drop (length a) (fst e) \<noteq> q" using assms(2) by auto
    ultimately show ?case using Cons assms by (cases e) auto
  qed simp
  then show ?thesis by (simp add: node_at_def move_subtree_def)
qed

lemma node_at_move_target:
  assumes "\<not> subtree b a" "\<not> subtree a b"
  shows "node_at (move_subtree a b m) (b @ s) = node_at m (a @ s)"
proof -
  let ?f = "\<lambda>e :: string list \<times> inode. if subtree a (fst e) then (b @ drop (length a) (fst e), snd e) else e"
  have nb: "\<not> subtree b (a @ s)"
    using assms by (metis append_eq_append_conv2 subtree_iff)
  have "map_of (map ?f (filter (\<lambda>e. \<not> subtree b (fst e)) xs)) (b @ s) = map_of xs (a @ s)" for xs
  proof (induction xs)
    case (Cons e xs)
    obtain p nd where e: "e = (p, nd)" by (cases e)
    consider "subtree b p" | "\<not> subtree b p" "subtree a p" | "\<not> subtree b p" "\<not> subtree a p" by blast
    then show ?case
    proof cases
      case 1
      then have "p \<noteq> a @ s" using nb by auto
      with 1 Cons e show ?thesis by simp
    next
      case 2
      then obtain t where "p = a @ t" by (auto simp: subtree_iff)
      with 2 Cons e show ?thesis by simp
    next
      case 3
      then have "p \<noteq> b @ s" "p \<noteq> a @ s" by auto
      with 3 Cons e show ?thesis by simp
    qed
  qed simp
  then show ?thesis by (simp add: node_at_def move_subtree_def)
qed

lemma node_at_move_source:
  assumes "\<not> subtree b a" "\<not> subtree a b"
  shows "node_at (move_subtree a b m) (a @ s) = None"
proof -
  let ?f = "\<lambda>e :: string list \<times> inode. if subtree a (fst e) then (b @ drop (length a) (fst e), snd e) else e"
  have "\<forall>t. b @ t \<noteq> a @ s"
    using assms by (metis append_eq_append_conv2 subtree_iff)
  then have ne: "b @ t \<noteq> a @ s" "a @ s \<noteq> b @ t" for t by metis+
  then have "map_of (map ?f (filter (\<lambda>e. \<not> subtree b (fst e)) xs)) (a @ s) = None" for xs
    by (induction xs) auto
  then show ?thesis by (simp add: node_at_def move_subtree_def)
qed

section \<open>File systems without symbolic links\<close>

definition fs_ok :: "fs \<Rightarrow> bool" where
  "fs_ok m \<longleftrightarrow> (\<forall>e \<in> set (nodes m). \<not> is_symlink (snd e) \<and> (\<forall>c \<in> set (fst e). good_comp c))"

lemma fs_ok_at: "fs_ok m \<Longrightarrow> node_at m q = Some nd \<Longrightarrow> \<not> is_symlink nd"
  by (force simp: fs_ok_def node_at_def dest: map_of_SomeD)

lemma fs_ok_names: "fs_ok m \<Longrightarrow> node_at m q = Some nd \<Longrightarrow> c \<in> set q \<Longrightarrow> good_comp c"
  by (force simp: fs_ok_def node_at_def dest: map_of_SomeD)

lemma fs_ok_put [simp]:
  "fs_ok m \<Longrightarrow> \<not> is_symlink nd \<Longrightarrow> \<forall>c \<in> set q. good_comp c \<Longrightarrow> fs_ok (put_node q nd m)"
  by (auto simp: fs_ok_def put_node_def)

lemma fs_ok_drop [simp]: "fs_ok m \<Longrightarrow> fs_ok (drop_subtree q m)"
  by (auto simp: fs_ok_def drop_subtree_def)

lemma fs_ok_move [simp]:
  "fs_ok m \<Longrightarrow> \<forall>c \<in> set b. good_comp c \<Longrightarrow> fs_ok (move_subtree a b m)"
  by (auto simp: fs_ok_def move_subtree_def) (fastforce dest: in_set_dropD)

lemma children_good: "fs_ok m \<Longrightarrow> n \<in> set (children m q) \<Longrightarrow> good_comp n"
  by (auto simp: children_def fs_ok_def)

lemma children_node: "n \<in> set (children m q) \<Longrightarrow> \<exists>nd. node_at m (q @ [n]) = Some nd"
proof -
  assume "n \<in> set (children m q)"
  then obtain p nd where p: "(p, nd) \<in> set (nodes m)" "p \<noteq> []" "butlast p = q" "last p = n"
    by (auto simp: children_def)
  then have "p = q @ [n]" by (metis append_butlast_last_id)
  with p(1) show ?thesis
    by (metis (no_types) fst_conv image_eqI map_of_eq_None_iff node_at_def not_None_eq)
qed

lemma walk_fs_ok:
  "fs_ok m \<Longrightarrow> walk m follow n cur cs = Inr q \<Longrightarrow> \<forall>c \<in> set cs. c = [] \<or> good_comp c \<Longrightarrow>
     q = cur @ filter (\<lambda>c. c \<noteq> []) cs"
proof (induction cs arbitrary: cur)
  case (Cons c cs)
  show ?case
  proof (cases "c = []")
    case True
    with Cons show ?thesis by simp
  next
    case False
    with Cons.prems(3) have c: "c \<noteq> []" "c \<noteq> ''.''" "c \<noteq> ''..''" by (auto simp: good_comp_def)
    show ?thesis
    proof (cases "node_at m (cur @ [c])")
      case None
      with c Cons.prems show ?thesis by (simp split: if_splits)
    next
      case (Some nd)
      with fs_ok_at [OF Cons.prems(1) Some] c Cons.prems Cons.IH [of "cur @ [c]"] show ?thesis
        by (auto simp: is_symlink_def split: inode_kind.splits if_splits)
    qed
  qed
qed simp

definition clean_abs :: "string \<Rightarrow> bool" where
  "clean_abs p \<longleftrightarrow> IsAbs p \<and> Clean p = p"

lemma clean_abs_Clean [simp]: "IsAbs p \<Longrightarrow> clean_abs (Clean p)"
  by (simp add: clean_abs_def)

lemma clean_abs_good: "clean_abs p \<Longrightarrow> c \<in> set (comps p) \<Longrightarrow> good_comp c"
  using comps_clean [of p] by (simp add: clean_abs_def clean_list_rooted)

lemma clean_abs_spell:
  assumes "clean_abs p"
  shows "p = sep # join_with sep (comps p)"
  using assms unfolding clean_abs_def by (metis Clean_def spell_def)

lemma split_clean_shape:
  assumes "clean_abs p"
  shows "split_on sep p = [] # (if comps p = [] then [[]] else comps p)"
proof -
  obtain cs where cs: "cs = comps p" "p = sep # join_with sep cs" using clean_abs_spell [OF assms] by blast
  have "split_on sep p = [] # split_on sep (join_with sep cs)" unfolding cs(2) by simp
  moreover have "split_on sep (join_with sep cs) = cs" if "cs \<noteq> []"
    using that clean_abs_good [OF assms] cs(1) by (intro split_on_join) (auto simp: good_comp_def)
  ultimately show ?thesis using cs(1) by (cases "cs = []") auto
qed

lemma split_clean_abs:
  assumes "clean_abs p"
  shows "filter (\<lambda>c. c \<noteq> []) (split_on sep p) = comps p" "\<forall>c \<in> set (split_on sep p). c = [] \<or> good_comp c"
proof -
  have good: "\<forall>c \<in> set (comps p). good_comp c" using clean_abs_good [OF assms] by blast
  then have "filter (\<lambda>c. c \<noteq> []) (comps p) = comps p"
    by (auto simp: filter_id_conv good_comp_def)
  with good show "filter (\<lambda>c. c \<noteq> []) (split_on sep p) = comps p"
    "\<forall>c \<in> set (split_on sep p). c = [] \<or> good_comp c"
    by (auto simp: split_clean_shape [OF assms])
qed

lemma resolve_fs_ok:
  assumes "fs_ok m" "clean_abs p" "resolve m follow p = Inr q"
  shows "q = comps p"
proof -
  have "IsAbs p" using assms(2) by (simp add: clean_abs_def)
  then have "walk m follow 40 [] (split_on sep p) = Inr q" using assms(3) by (simp add: resolve_def)
  from walk_fs_ok [OF assms(1) this split_clean_abs(2) [OF assms(2)]]
  show ?thesis by (simp add: split_clean_abs(1) [OF assms(2)])
qed

lemma stat_fs_ok:
  assumes "fs_ok m" "clean_abs p" "stat_at follow op m p = Inr (q, nd)"
  shows "q = comps p" "node_at m (comps p) = Some nd" "\<not> is_symlink nd"
  using assms resolve_fs_ok [OF assms(1,2)] fs_ok_at [OF assms(1)]
  by (auto simp: stat_at_def split: sum.splits option.splits)

text \<open>Resolution succeeds when every proper prefix is a directory.\<close>

definition dir_at :: "fs \<Rightarrow> string list \<Rightarrow> bool" where
  "dir_at m q \<longleftrightarrow> (\<exists>nd. node_at m q = Some nd \<and> is_dir nd)"

definition dirs_to :: "fs \<Rightarrow> string list \<Rightarrow> bool" where
  "dirs_to m q \<longleftrightarrow> (\<forall>k < length q. dir_at m (take k q))"

lemma walk_dirs:
  "fs_ok m \<Longrightarrow> \<forall>c \<in> set cs. good_comp c \<Longrightarrow> \<forall>k. 0 < k \<and> k < length cs \<longrightarrow> dir_at m (cur @ take k cs) \<Longrightarrow>
   walk m follow n cur cs = Inr (cur @ cs)"
proof (induction cs arbitrary: cur)
  case (Cons c cs)
  have c: "c \<noteq> []" "c \<noteq> ''.''" "c \<noteq> ''..''" using Cons.prems(2) by (auto simp: good_comp_def)
  show ?case
  proof (cases cs)
    case Nil
    with c fs_ok_at [OF Cons.prems(1), of "cur @ [c]"] show ?thesis
      by (auto simp: is_symlink_def split: option.splits inode_kind.splits)
  next
    case (Cons d ds)
    have "dir_at m (cur @ [c])"
      using Cons.prems(3) [rule_format, of 1] Cons by simp
    then have step: "walk m follow n cur (c # cs) = walk m follow n (cur @ [c]) cs"
      using c by (auto simp: dir_at_def is_dir_def)
    have "\<forall>k. 0 < k \<and> k < length cs \<longrightarrow> dir_at m ((cur @ [c]) @ take k cs)"
      using Cons.prems(3) by (metis One_nat_def add.commute append.assoc append_Cons append_Nil length_Cons
          less_add_same_cancel2 list.size(4) nat_add_left_cancel_less plus_1_eq_Suc take_Suc_Cons zero_less_Suc)
    with Cons.IH [OF Cons.prems(1)] Cons.prems(2) step show ?thesis by simp
  qed
qed simp

lemma resolve_dirs:
  assumes "fs_ok m" "clean_abs p" "dirs_to m (comps p)"
  shows "resolve m follow p = Inr (comps p)"
proof -
  have abs: "IsAbs p" using assms(2) by (simp add: clean_abs_def)
  have "walk m follow 40 [] (comps p) = Inr (comps p)"
    using walk_dirs [OF assms(1), of "comps p" "[]"] clean_abs_good [OF assms(2)] assms(3)
    by (auto simp: dirs_to_def)
  with abs show ?thesis by (simp add: resolve_def split_clean_shape [OF assms(2)])
qed

lemma stat_dirs:
  assumes "fs_ok m" "clean_abs p" "dirs_to m (comps p)"
  shows "stat_at follow op m p = (case node_at m (comps p) of
    None \<Rightarrow> Inl (ErrNotExist (op @ '' '' @ p)) | Some nd \<Rightarrow> Inr (comps p, nd))"
  by (simp add: stat_at_def resolve_dirs [OF assms])

lemma dirs_to_snoc: "dirs_to m (q @ [c]) \<longleftrightarrow> dirs_to m q \<and> dir_at m q"
  by (auto simp: dirs_to_def less_Suc_eq)

section \<open>Changes confined to a directory\<close>

definition confined :: "string list \<Rightarrow> fs \<Rightarrow> fs \<Rightarrow> bool" where
  "confined h m m' \<longleftrightarrow> fs_ok m' \<and> cwd m' = cwd m \<and> (\<forall>q. \<not> subtree h q \<longrightarrow> node_at m' q = node_at m q)"

lemma confined_refl [simp]: "fs_ok m \<Longrightarrow> confined h m m"
  by (simp add: confined_def)

lemma confined_trans: "confined h m m' \<Longrightarrow> confined h m' m'' \<Longrightarrow> confined h m m''"
  by (simp add: confined_def)

lemma confined_put:
  "fs_ok m \<Longrightarrow> \<not> is_symlink nd \<Longrightarrow> subtree h q \<Longrightarrow> \<forall>c \<in> set q. good_comp c \<Longrightarrow> confined h m (put_node q nd m)"
  by (auto simp: confined_def)

lemma confined_drop: "fs_ok m \<Longrightarrow> subtree h q \<Longrightarrow> confined h m (drop_subtree q m)"
proof -
  assume "fs_ok m" "subtree h q"
  moreover have "cwd (drop_subtree q m) = cwd m" by (simp add: drop_subtree_def)
  ultimately show ?thesis by (auto simp: confined_def dest: subtree_trans)
qed

lemma open_trunc_confined:
  assumes "fs_ok m" "clean_abs p" "subtree h (comps p)" "open_trunc m p mode = Inr (m', q)"
  shows "confined h m m'" "q = comps p"
  using assms resolve_fs_ok [OF assms(1,2)] clean_abs_good [OF assms(2)]
  by (auto simp: open_trunc_def is_symlink_def intro!: confined_put split: sum.splits option.splits inode_kind.splits)

lemma write_at_confined: "fs_ok m \<Longrightarrow> subtree h q \<Longrightarrow> confined h m (write_at q b m)"
  using fs_ok_names [of m q]
  by (auto simp: write_at_def is_symlink_def intro!: confined_put split: option.splits inode_kind.splits)

lemma WriteFile_confined:
  assumes "fs_ok m" "clean_abs p" "subtree h (comps p)"
  shows "confined h m (fst (os_WriteFile m p b mode))"
proof (cases "open_trunc m p mode")
  case (Inr r)
  then obtain m' q where r: "open_trunc m p mode = Inr (m', q)" by (cases r) auto
  from open_trunc_confined [OF assms r] have c: "confined h m m'" "q = comps p" .
  then have "confined h m' (write_at q b m')" using assms(3) by (intro write_at_confined) (auto simp: confined_def)
  with c r show ?thesis by (auto simp: os_WriteFile_def intro: confined_trans)
qed (use assms in \<open>simp add: os_WriteFile_def\<close>)

lemma RemoveAll_confined:
  assumes "fs_ok m" "clean_abs p" "subtree h (comps p)"
  shows "confined h m (fst (os_RemoveAll m p))"
  using assms resolve_fs_ok [OF assms(1,2)]
  by (auto simp: os_RemoveAll_def intro!: confined_drop split: sum.splits)

lemma Mkdir_confined:
  assumes "fs_ok m" "clean_abs p" "subtree h (comps p)"
  shows "confined h m (fst (os_Mkdir m p mode))"
  using assms resolve_fs_ok [OF assms(1,2)] clean_abs_good [OF assms(2)]
  by (auto simp: os_Mkdir_def is_symlink_def intro!: confined_put split: sum.splits option.splits)

lemma move_confined:
  assumes a: "fs_ok m" "subtree h a" "subtree h b" "\<forall>c \<in> set b. good_comp c"
  shows "confined h m (move_subtree a b m)"
proof -
  have "node_at (move_subtree a b m) q = node_at m q" if "\<not> subtree h q" for q
    by (rule node_at_move_frame) (use a that subtree_trans in blast)+
  moreover have "cwd (move_subtree a b m) = cwd m" by (simp add: move_subtree_def)
  ultimately show ?thesis using a by (simp add: confined_def)
qed

lemma Rename_confined:
  assumes "fs_ok m" "clean_abs p" "subtree h (comps p)" "clean_abs r" "subtree h (comps r)"
  shows "confined h m (fst (os_Rename m p r))"
proof -
  have "confined h m (fst (kernel_rename m p r))"
    using assms resolve_fs_ok [OF assms(1,2)] resolve_fs_ok [OF assms(1,4)] clean_abs_good [OF assms(4)]
    by (auto simp: kernel_rename_def intro!: move_confined split: sum.splits option.splits)
  then show ?thesis using assms(1) by (auto simp: os_Rename_def split: sum.splits)
qed

lemma Mkdir_dirs:
  "\<exists>nd. node_at m q = Some nd \<and> is_dir nd \<Longrightarrow>
   \<exists>nd. node_at (fst (os_Mkdir m p mode)) q = Some nd \<and> is_dir nd"
  by (cases "resolve m False p") (auto simp: os_Mkdir_def split: option.splits)

lemma mkdir_steps_confined:
  assumes "fs_ok m" "\<forall>p \<in> set ps. clean_abs p \<and> (subtree h (comps p) \<or> subtree (comps p) h)"
    "\<forall>q. subtree q h \<longrightarrow> (\<exists>nd. node_at m q = Some nd \<and> is_dir nd)"
  shows "confined h m (fst (mkdir_steps mode m ps))"
  using assms
proof (induction ps arbitrary: m)
  case (Cons p ps)
  have p: "clean_abs p" using Cons.prems by simp
  show ?case
  proof (cases "os_Stat m p")
    case (Inr r)
    with Cons show ?thesis by (cases r) auto
  next
    case (Inl e)
    show ?thesis
    proof (cases "subtree h (comps p)")
      case True
      obtain m1 r where m1: "os_Mkdir m p mode = (m1, r)" by (cases "os_Mkdir m p mode")
      from Mkdir_confined [OF Cons.prems(1) p True, of mode] m1 have c: "confined h m m1" by simp
      have dirs: "\<forall>q. subtree q h \<longrightarrow> (\<exists>nd. node_at m1 q = Some nd \<and> is_dir nd)"
        using Mkdir_dirs [of m _ p mode] m1 Cons.prems(3) by simp
      have "confined h m1 (fst (mkdir_steps mode m1 ps))"
        by (rule Cons.IH) (use c Cons.prems dirs in \<open>auto simp: confined_def\<close>)
      with c Inl m1 show ?thesis by (auto intro: confined_trans split: option.splits)
    next
      case False
      then have "subtree (comps p) h" using Cons.prems(2) by auto
      with Cons.prems(3) have n: "node_at m (comps p) \<noteq> None" by force
      then have "os_Mkdir m p mode = (m, snd (os_Mkdir m p mode)) \<and> snd (os_Mkdir m p mode) \<noteq> None"
        using resolve_fs_ok [OF Cons.prems(1) p]
        by (auto simp: os_Mkdir_def split: sum.splits option.splits)
      with Inl Cons.prems(1) show ?thesis by (auto split: option.splits prod.splits)
    qed
  qed
qed simp

section \<open>Joining a name\<close>

lemma Join_good:
  assumes "clean_abs p" "good_comp c"
  shows "clean_abs (Join p c)" "comps (Join p c) = comps p @ [c]"
proof -
  have p: "IsAbs p" "p \<noteq> []" using assms(1) by (auto simp: clean_abs_def IsAbs_def)
  then have abs: "IsAbs (p @ sep # c)" by (cases p) (auto simp: IsAbs_def)
  have j: "Join p c = Clean (p @ sep # c)" using p by (simp add: Join_def)
  show "clean_abs (Join p c)" using abs by (simp add: j)
  have "split_on sep (p @ sep # c) = split_on sep p @ [c]"
    using assms(2) by (simp add: split_on_append_sep split_on_no_sep good_comp_def)
  then have "comps (p @ sep # c) = comps p @ [c]"
    using abs p assms(2) by (simp add: comps_def clean_comps_def clean_step_def good_comp_def)
  then show "comps (Join p c) = comps p @ [c]" by (simp add: j)
qed

lemma Join_slash: "clean_abs p \<Longrightarrow> clean_abs (Join p ''/'') \<and> comps (Join p ''/'') = comps p"
proof -
  assume "clean_abs p"
  then have p: "IsAbs p" "p \<noteq> []" by (auto simp: clean_abs_def IsAbs_def)
  then have abs: "IsAbs (p @ ''//'')" by (cases p) (auto simp: IsAbs_def)
  have j: "Join p ''/'' = Clean (p @ ''//'')" using p by (simp add: Join_def)
  have "split_on sep (p @ ''//'') = split_on sep p @ [[], []]"
    using split_on_append_sep [of sep p "''/''"] by simp
  then have "comps (p @ ''//'') = comps p" using abs p by (simp add: comps_def clean_comps_def clean_step_def)
  with abs show ?thesis by (simp add: j)
qed

lemma Base_last: "w \<noteq> [] \<Longrightarrow> sep \<notin> set w \<Longrightarrow> Base (q @ sep # w) = w"
proof -
  assume w: "w \<noteq> []" "sep \<notin> set w"
  have dw: "dropWhile (\<lambda>c. c = sep) (rev w @ x) = rev w @ x" for x
    using w by (cases "rev w") auto
  have tw: "takeWhile (\<lambda>c. c \<noteq> sep) (rev w @ sep # rev q) = rev w"
    using w by (subst takeWhile_append2) auto
  show ?thesis using w by (simp add: Base_def Let_def dw tw)
qed

lemma join_with_last: "cs \<noteq> [] \<Longrightarrow> \<exists>q. sep # join_with sep cs = q @ sep # last cs"
proof (induction cs rule: join_with.induct)
  case (3 c w v ws)
  then obtain q where "c # join_with c (v # ws) = q @ c # last (v # ws)"
    by (metis list.distinct(1))
  then have "c # join_with c (w # v # ws) = (c # w @ q) @ c # last (w # v # ws)" by simp
  then show ?case by blast
qed auto

lemma Base_clean:
  assumes "clean_abs p"
  shows "Base p = (if comps p = [] then ''/'' else last (comps p))"
proof -
  obtain cs where cs: "cs = comps p" "p = sep # join_with sep cs"
    using clean_abs_spell [OF assms] by blast
  show ?thesis
  proof (cases "cs = []")
    case True
    then have "p = ''/''" unfolding cs(2) by simp
    then have "Base p = ''/''" by (simp add: Base_def)
    then show ?thesis unfolding cs(1) [symmetric] using True by simp
  next
    case False
    then obtain q where q: "p = q @ sep # last cs" using join_with_last cs(2) by blast
    have "good_comp (last cs)"
      by (rule clean_abs_good [OF assms]) (use False in \<open>simp flip: cs(1)\<close>)
    then have "Base p = last cs" by (subst q) (auto intro: Base_last simp: good_comp_def)
    then show ?thesis unfolding cs(1) [symmetric] using False by simp
  qed
qed

text \<open>The place a source gets inside an existing directory.\<close>

lemma Join_Base:
  assumes "clean_abs d" "clean_abs p"
  shows "clean_abs (Join d (Base p))" "subtree (comps d) (comps (Join d (Base p)))"
proof -
  have good: "good_comp (last (comps p))" if "comps p \<noteq> []"
    using clean_abs_good [OF assms(2)] that by simp
  show "clean_abs (Join d (Base p))" "subtree (comps d) (comps (Join d (Base p)))"
    using Join_good [OF assms(1) good] Join_slash [OF assms(1)]
    by (auto simp: Base_clean [OF assms(2)])
qed

end
