(* ===== verification/FileOps.thy ===== *)
theory FileOps
  imports FileSystem Encryption
begin

text \<open>
  The file operations of the device (\<open>src/fileexplorer.go\<close>: \<open>Rename\<close>, \<open>Delete\<close>, \<open>Copy\<close>, \<open>Edit\<close>, their
  handlers and the resolution of paths; \<open>resolvePath\<close> and \<open>resolveAndStatPath\<close> of
  \<open>src/remotepath.go\<close>). The home directory \<open>home\<close> is what \<open>os.UserHomeDir\<close> answers.
\<close>

section \<open>Resolution of paths\<close>

definition resolvePath :: "string result \<Rightarrow> string \<Rightarrow> string result" where
  "resolvePath home remotePath =
     (if IsAbs remotePath then Inr (Clean remotePath)
      else case home of Inl e \<Rightarrow> Inl e | Inr homeDir \<Rightarrow> Inr (Clean (Join homeDir remotePath)))"

definition resolveAndStatPath ::
  "string result \<Rightarrow> fs \<Rightarrow> string \<Rightarrow> inv_result + (string \<times> inode)" where
  "resolveAndStatPath home m remotePath = (case resolvePath home remotePath of
     Inl e \<Rightarrow> Inl (operation_failed e)
   | Inr p \<Rightarrow> (case os_Lstat m p of
       Inl e \<Rightarrow> if os_IsNotExist e
                 then Inl (InvocationError ErrInvalidArgument [VStr (remotePath @ '': no such file or directory'')])
                 else Inl (operation_failed e)
     | Inr (_, nd) \<Rightarrow> Inr (p, nd)))"

definition resolveBrowsePath :: "string \<Rightarrow> string \<Rightarrow> string result" where
  "resolveBrowsePath homeDir pathArg =
     (if pathArg = [] then Inr (Clean homeDir)
      else if IsAbs pathArg then Inr (Clean pathArg)
      else let resolvedPath = Clean (Join homeDir pathArg) in
           case Rel homeDir resolvedPath of
             Inl e \<Rightarrow> Inl e
           | Inr rel \<Rightarrow> if rel = ''..'' \<or> has_prefix rel ''../'' then Inl ErrFilePathEscapesHome
                        else Inr resolvedPath)"

definition resolveOperationPath :: "string \<Rightarrow> string \<Rightarrow> string result" where
  "resolveOperationPath homeDir pathArg =
     (if pathArg = [] then Inl (Errorf ''path cannot be empty'')
      else let resolved = (if IsAbs pathArg then Clean pathArg else Clean (Join homeDir pathArg)) in
           case Rel homeDir resolved of
             Inl e \<Rightarrow> Inl e
           | Inr rel \<Rightarrow> if rel = ''..'' \<or> has_prefix rel ''../'' then Inl ErrFilePathEscapesHome
                        else Inr resolved)"

section \<open>The operations\<close>

type_synonym fs_outcome = "fs \<times> go_error option"

definition home_error :: "go_error \<Rightarrow> go_error" where
  "home_error e = Wrapf ''failed to get home dir: '' e"

definition fs_Rename :: "string result \<Rightarrow> fs \<Rightarrow> string \<Rightarrow> string \<Rightarrow> fs_outcome" where
  "fs_Rename home m oldPath newPath = (case home of
     Inl e \<Rightarrow> (m, Some (home_error e))
   | Inr homeDir \<Rightarrow> (case resolveOperationPath homeDir oldPath of
       Inl e \<Rightarrow> (m, Some e)
     | Inr resolvedOld \<Rightarrow> (case resolveOperationPath homeDir newPath of
         Inl e \<Rightarrow> (m, Some e)
       | Inr resolvedNew \<Rightarrow>
           (let dst = (case os_Lstat m resolvedNew of
                         Inr (_, nd) \<Rightarrow> if is_dir nd then Join resolvedNew (Base resolvedOld) else resolvedNew
                       | Inl _ \<Rightarrow> resolvedNew)
            in os_Rename m resolvedOld dst))))"

definition fs_Delete :: "string result \<Rightarrow> fs \<Rightarrow> string \<Rightarrow> fs_outcome" where
  "fs_Delete home m path = (case home of
     Inl e \<Rightarrow> (m, Some (home_error e))
   | Inr homeDir \<Rightarrow> (case resolveOperationPath homeDir path of
       Inl e \<Rightarrow> (m, Some e)
     | Inr resolved \<Rightarrow>
         if Clean resolved = Clean homeDir then (m, Some (Errorf ''cannot delete home directory''))
         else (case os_Lstat m resolved of
           Inl e \<Rightarrow> (m, Some e)
         | Inr _ \<Rightarrow> os_RemoveAll m resolved)))"

text \<open>
  \<open>copyFile\<close>: the source is opened, the destination opened and truncated, and only then the
  content read; the descriptor of the source refers to the node found first.
\<close>

definition copyFile :: "fs \<Rightarrow> string \<Rightarrow> string \<Rightarrow> fs_outcome" where
  "copyFile m src dst = (case os_Stat m src of
     Inl e \<Rightarrow> (m, Some e)
   | Inr (_, srcInfo) \<Rightarrow> (case stat_at True ''open'' m src of
       Inl e \<Rightarrow> (m, Some e)
     | Inr (q, _) \<Rightarrow> (case open_trunc m dst (perm srcInfo) of
         Inl e \<Rightarrow> (m, Some e)
       | Inr (m1, d) \<Rightarrow> (case node_at m1 q of
           None \<Rightarrow> (m1, None)
         | Some nd \<Rightarrow> (case read_node src nd of
             Inl e \<Rightarrow> (m1, Some e)
           | Inr b \<Rightarrow> (write_at d b m1, None))))))"

text \<open>
  \<open>copyDir\<close> and its loop over the entries. \<open>None\<close> says that the given recursion depth did not
  suffice.
\<close>

fun copy_entries ::
  "(fs \<Rightarrow> string \<Rightarrow> string \<Rightarrow> fs_outcome option) \<Rightarrow> fs \<Rightarrow> string \<Rightarrow> string \<Rightarrow> (string \<times> inode) list
     \<Rightarrow> fs_outcome option" where
  "copy_entries copy_dir m src dst [] = Some (m, None)"
| "copy_entries copy_dir m src dst ((name, nd) # es) =
     (case (if is_dir nd then copy_dir m (Join src name) (Join dst name)
            else Some (copyFile m (Join src name) (Join dst name))) of
        None \<Rightarrow> None
      | Some (m', Some e) \<Rightarrow> Some (m', Some e)
      | Some (m', None) \<Rightarrow> copy_entries copy_dir m' src dst es)"

fun copyDir :: "nat \<Rightarrow> fs \<Rightarrow> string \<Rightarrow> string \<Rightarrow> fs_outcome option" where
  "copyDir 0 m src dst = None"
| "copyDir (Suc n) m src dst = (case os_Stat m src of
     Inl e \<Rightarrow> Some (m, Some e)
   | Inr (_, srcInfo) \<Rightarrow> (case os_MkdirAll m dst (perm srcInfo) of
       (m1, Some e) \<Rightarrow> Some (m1, Some e)
     | (m1, None) \<Rightarrow> (case os_ReadDir m1 src of
         Inl e \<Rightarrow> Some (m1, Some e)
       | Inr entries \<Rightarrow> copy_entries (copyDir n) m1 src dst entries)))"

definition fs_Copy :: "nat \<Rightarrow> string result \<Rightarrow> fs \<Rightarrow> string \<Rightarrow> string \<Rightarrow> fs_outcome option" where
  "fs_Copy fuel home m srcPath dstPath = (case home of
     Inl e \<Rightarrow> Some (m, Some (home_error e))
   | Inr homeDir \<Rightarrow> (case resolveOperationPath homeDir srcPath of
       Inl e \<Rightarrow> Some (m, Some e)
     | Inr resolvedSrc \<Rightarrow> (case resolveOperationPath homeDir dstPath of
         Inl e \<Rightarrow> Some (m, Some e)
       | Inr resolvedDst0 \<Rightarrow> (case os_Lstat m resolvedSrc of
           Inl e \<Rightarrow> Some (m, Some e)
         | Inr (_, srcInfo) \<Rightarrow>
             (let resolvedDst = (case os_Lstat m resolvedDst0 of
                    Inr (_, nd) \<Rightarrow> if is_dir nd then Join resolvedDst0 (Base resolvedSrc) else resolvedDst0
                  | Inl _ \<Rightarrow> resolvedDst0)
              in if is_dir srcInfo then
                   (let srcClean = Clean resolvedSrc; dstClean = Clean resolvedDst in
                    if dstClean = srcClean \<or> has_prefix dstClean (srcClean @ ''/'')
                    then Some (m, Some (Errorf ''cannot copy a directory into itself''))
                    else copyDir fuel m resolvedSrc resolvedDst)
                 else Some (copyFile m resolvedSrc resolvedDst))))))"

text \<open>
  \<open>Edit\<close>. Parsing and applying a patch is the library's work: \<open>parsed\<close> is the answer of
  \<open>PatchFromText\<close>, and a parsed patch is the function \<open>PatchApply\<close> gives for it, the new text and
  for every hunk whether it applied.
\<close>

type_synonym patch = "string \<Rightarrow> string \<times> bool list"

definition isBinaryContent :: "bytes \<Rightarrow> bool" where
  "isBinaryContent content = (char_of (0::nat) \<in> set (take 8000 content))"

definition fs_Edit ::
  "(string \<Rightarrow> patch result) \<Rightarrow> string result \<Rightarrow> fs \<Rightarrow> string \<Rightarrow> string \<Rightarrow> fs_outcome" where
  "fs_Edit PatchFromText home m pathArg patchText = (case home of
     Inl e \<Rightarrow> (m, Some (home_error e))
   | Inr homeDir \<Rightarrow> (case resolveOperationPath homeDir pathArg of
       Inl e \<Rightarrow> (m, Some e)
     | Inr resolved \<Rightarrow> (case os_Lstat m resolved of
         Inl e \<Rightarrow> (m, Some e)
       | Inr (_, info) \<Rightarrow>
           if is_dir info then (m, Some (Errorf (pathArg @ '': is a directory'')))
           else (case os_ReadFile m resolved of
             Inl e \<Rightarrow> (m, Some e)
           | Inr original \<Rightarrow>
               if isBinaryContent original
               then (m, Some (Errorf (pathArg @ '': binary file, editing is not supported'')))
               else (case PatchFromText patchText of
                 Inl e \<Rightarrow> (m, Some (Wrapf ''invalid patch: '' e))
               | Inr apply \<Rightarrow>
                   (let (patched, applied) = apply original in
                    if False \<in> set applied then (m, Some ErrEditConflict)
                    else os_WriteFile m resolved patched (perm info)))))))"

section \<open>The handlers\<close>

fun is_not_exist :: "go_error \<Rightarrow> bool" where
  "is_not_exist (Wrapf _ e) = is_not_exist e"
| "is_not_exist (ErrNotExist _) = True"
| "is_not_exist _ = False"

fun is_escape :: "go_error \<Rightarrow> bool" where
  "is_escape (Wrapf _ e) = is_escape e"
| "is_escape ErrFilePathEscapesHome = True"
| "is_escape _ = False"

definition no_keys_result :: inv_result where
  "no_keys_result = InvocationError ErrInvalidArgument [VStr ''no session keys found, call key exchange first'']"

definition file_error :: "go_error \<Rightarrow> inv_result" where
  "file_error e = (if is_escape e \<or> is_not_exist e then invalid_argument e else operation_failed e)"

text \<open>
  What every encrypted handler starts with: the keys of the calling session, the decrypted
  argument, and its JSON object read into the handler's argument record. \<open>json.Unmarshal\<close> into
  that record is the parameter \<open>unmarshal\<close>.
\<close>

definition open_request ::
  "crypto \<Rightarrow> keyManager \<Rightarrow> (bytes \<Rightarrow> 'a result) \<Rightarrow> invocation \<Rightarrow> inv_result + (encryptionKeys \<times> 'a)" where
  "open_request cr km unmarshal iv = (case km_fetch km (inv_Caller iv) of
     None \<Rightarrow> Inl no_keys_result
   | Some enc \<Rightarrow> (case inv_ArgBytes iv 0 of
       Inl e \<Rightarrow> Inl (invalid_argument e)
     | Inr encrypted \<Rightarrow> (case DecryptPayload cr encrypted (ek_receiveKey enc) of
         Inl e \<Rightarrow> Inl (invalid_argument e)
       | Inr plaintext \<Rightarrow> (case unmarshal plaintext of
           Inl e \<Rightarrow> Inl (invalid_argument e)
         | Inr args \<Rightarrow> Inr (enc, args)))))"

text \<open>The encrypted answer; \<open>rnd\<close> is the nonce drawn for it.\<close>

definition seal_result :: "crypto \<Rightarrow> bytes result \<Rightarrow> encryptionKeys \<Rightarrow> bytes \<Rightarrow> inv_result" where
  "seal_result cr rnd enc plain = (case EncryptPayload cr rnd plain (ek_sendKey enc) of
     Inl e \<Rightarrow> operation_failed e
   | Inr encrypted \<Rightarrow> InvocationResult [VBytes encrypted])"

definition ok_json :: bytes where
  "ok_json = map char_of ([123, 34, 111, 107, 34, 58, 116, 114, 117, 101, 125] :: nat list)"

definition file_reply :: "crypto \<Rightarrow> bytes result \<Rightarrow> encryptionKeys \<Rightarrow> fs_outcome \<Rightarrow> fs \<times> inv_result" where
  "file_reply cr rnd enc r = (fst r, case snd r of
     Some e \<Rightarrow> file_error e
   | None \<Rightarrow> seal_result cr rnd enc ok_json)"

definition handleFileRename ::
  "crypto \<Rightarrow> bytes result \<Rightarrow> keyManager \<Rightarrow> (bytes \<Rightarrow> (string \<times> string) result) \<Rightarrow> string result \<Rightarrow>
   invocation \<Rightarrow> fs \<Rightarrow> fs \<times> inv_result" where
  "handleFileRename cr rnd km unmarshal home iv m = (case open_request cr km unmarshal iv of
     Inl r \<Rightarrow> (m, r)
   | Inr (enc, oldPath, newPath) \<Rightarrow> file_reply cr rnd enc (fs_Rename home m oldPath newPath))"

definition handleFileDelete ::
  "crypto \<Rightarrow> bytes result \<Rightarrow> keyManager \<Rightarrow> (bytes \<Rightarrow> string result) \<Rightarrow> string result \<Rightarrow>
   invocation \<Rightarrow> fs \<Rightarrow> fs \<times> inv_result" where
  "handleFileDelete cr rnd km unmarshal home iv m = (case open_request cr km unmarshal iv of
     Inl r \<Rightarrow> (m, r)
   | Inr (enc, path) \<Rightarrow> file_reply cr rnd enc (fs_Delete home m path))"

definition handleFileEdit ::
  "crypto \<Rightarrow> bytes result \<Rightarrow> keyManager \<Rightarrow> (bytes \<Rightarrow> (string \<times> string) result) \<Rightarrow> (string \<Rightarrow> patch result) \<Rightarrow>
   string result \<Rightarrow> invocation \<Rightarrow> fs \<Rightarrow> fs \<times> inv_result" where
  "handleFileEdit cr rnd km unmarshal PatchFromText home iv m = (case open_request cr km unmarshal iv of
     Inl r \<Rightarrow> (m, r)
   | Inr (enc, path, patch) \<Rightarrow> file_reply cr rnd enc (fs_Edit PatchFromText home m path patch))"

definition handleFileCopy ::
  "crypto \<Rightarrow> bytes result \<Rightarrow> keyManager \<Rightarrow> (bytes \<Rightarrow> (string \<times> string) result) \<Rightarrow> nat \<Rightarrow>
   string result \<Rightarrow> invocation \<Rightarrow> fs \<Rightarrow> (fs \<times> inv_result) option" where
  "handleFileCopy cr rnd km unmarshal fuel home iv m = (case open_request cr km unmarshal iv of
     Inl r \<Rightarrow> Some (m, r)
   | Inr (enc, src, dst) \<Rightarrow> map_option (file_reply cr rnd enc) (fs_Copy fuel home m src dst))"

section \<open>Containment\<close>

lemma below_subtree: "below d p \<longleftrightarrow> IsAbs p \<and> subtree (comps d) (comps p)"
  by (simp add: below_def subtree_def)

lemma IsAbs_Join: "IsAbs d \<Longrightarrow> IsAbs (Join d p)"
  using IsAbs_Clean [of "d @ ''/'' @ p"] by (cases d) (auto simp: Join_def IsAbs_def)

lemma resolveOperationPath_eq:
  assumes "IsAbs homeDir"
  shows "resolveOperationPath homeDir p =
    (if p = [] then Inl (Errorf ''path cannot be empty'')
     else let r = Clean (if IsAbs p then p else Join homeDir p) in
          if below homeDir r then Inr r else Inl ErrFilePathEscapesHome)"
proof -
  define r where "r = Clean (if IsAbs p then p else Join homeDir p)"
  then have "IsAbs r" using IsAbs_Join [OF assms] by simp
  from Rel_below [OF assms this] obtain rel where "Rel homeDir r = Inr rel" "escapes rel \<longleftrightarrow> \<not> below homeDir r"
    by blast
  moreover have "(if IsAbs p then Clean p else Clean (Join homeDir p)) = r" by (simp add: r_def)
  ultimately show ?thesis
    unfolding resolveOperationPath_def r_def [symmetric] Let_def by (simp add: escapes_def)
qed

lemma resolveOperationPath_inside:
  assumes "IsAbs homeDir" "resolveOperationPath homeDir p = Inr r"
  shows "clean_abs r" "subtree (comps homeDir) (comps r)"
  using assms(2)
  by (auto simp: resolveOperationPath_eq [OF assms(1)] Let_def below_subtree clean_abs_def split: if_splits)

lemma copyFile_confined:
  assumes "fs_ok m" "clean_abs d" "subtree h (comps d)"
  shows "confined h m (fst (copyFile m s d))"
proof -
  have w: "confined h m (write_at q b m1)" if "open_trunc m d mode = Inr (m1, q)" for m1 q b mode
  proof -
    from open_trunc_confined [OF assms that] have c: "confined h m m1" "q = comps d" .
    then have "confined h m1 (write_at q b m1)"
      using assms(3) by (intro write_at_confined) (auto simp: confined_def)
    with c(1) show ?thesis by (rule confined_trans)
  qed
  show ?thesis
    using open_trunc_confined(1) [OF assms] w assms(1)
    by (auto simp: copyFile_def split: sum.splits option.splits)
qed

lemma ReadDir_entries:
  assumes "fs_ok m" "clean_abs p" "os_ReadDir m p = Inr es" "(name, nd) \<in> set es"
  shows "good_comp name" "node_at m (comps p @ [name]) = Some nd"
proof -
  from assms(3,4) obtain q nd0 where q: "stat_at True ''open'' m p = Inr (q, nd0)"
    "es = map (\<lambda>n. (n, the (node_at m (q @ [n])))) (children m q)"
    by (auto simp: os_ReadDir_def split: sum.splits if_splits)
  then have "q = comps p" using stat_fs_ok [OF assms(1,2)] by blast
  with q(2) assms(4) have c: "name \<in> set (children m (comps p))" "nd = the (node_at m (comps p @ [name]))"
    by auto
  show "good_comp name" by (rule children_good [OF assms(1) c(1)])
  show "node_at m (comps p @ [name]) = Some nd" using children_node [OF c(1)] c(2) by auto
qed

definition home_dirs :: "string list \<Rightarrow> fs \<Rightarrow> bool" where
  "home_dirs h m \<longleftrightarrow> (\<forall>q. subtree q h \<longrightarrow> (\<exists>nd. node_at m q = Some nd \<and> is_dir nd))"

lemma prefixes_clean:
  assumes "clean_abs d" "p \<in> set (prefixes d)"
  shows "\<exists>k. clean_abs p \<and> comps p = take (Suc k) (comps d)"
proof -
  from assms obtain k where k: "p = spell True (take (Suc k) (comps d))"
    by (auto simp: prefixes_def clean_abs_def)
  have cl: "clean_list True (take (Suc k) (comps d))"
    using clean_abs_good [OF assms(1)] by (auto simp: clean_list_rooted dest: in_set_takeD)
  have "IsAbs p" "comps p = take (Suc k) (comps d)"
    unfolding k using spell_abs [OF cl] comps_spell [OF cl] by simp_all
  moreover from this have "Clean p = p" unfolding Clean_def by (simp add: k)
  ultimately show ?thesis unfolding clean_abs_def by blast
qed

lemma subtree_take: "subtree h p \<Longrightarrow> subtree h (take k p) \<or> subtree (take k p) h"
proof (cases "length h \<le> k")
  case False
  assume "subtree h p"
  then have h: "take (length h) p = h" by (simp add: subtree_def)
  from False have k: "min k (length h) = k" by simp
  have "take k p = take k (take (length h) p)" unfolding take_take k ..
  with h have "take k p = take k h" by simp
  moreover have "subtree (take k h) h" using subtree_append [of "take k h" "drop k h"] by simp
  ultimately show ?thesis by simp
qed (simp add: subtree_def)

lemma MkdirAll_confined:
  assumes "fs_ok m" "clean_abs d" "subtree h (comps d)" "home_dirs h m"
  shows "confined h m (fst (os_MkdirAll m d mode))"
  unfolding os_MkdirAll_def
proof (rule mkdir_steps_confined [OF assms(1)])
  show "\<forall>p \<in> set (prefixes d). clean_abs p \<and> (subtree h (comps p) \<or> subtree (comps p) h)"
    using prefixes_clean [OF assms(2)] subtree_take [OF assms(3)] by fastforce
qed (use assms(4) in \<open>simp add: home_dirs_def\<close>)

text \<open>Directories stay directories through everything a copy does.\<close>

definition keeps_dirs :: "fs \<Rightarrow> fs \<Rightarrow> bool" where
  "keeps_dirs m m' \<longleftrightarrow> (\<forall>q nd. node_at m q = Some nd \<and> is_dir nd \<longrightarrow> (\<exists>nd'. node_at m' q = Some nd' \<and> is_dir nd'))"

lemma keeps_dirs_refl [simp]: "keeps_dirs m m"
  by (simp add: keeps_dirs_def)

lemma keeps_dirs_trans: "keeps_dirs m m1 \<Longrightarrow> keeps_dirs m1 m2 \<Longrightarrow> keeps_dirs m m2"
  unfolding keeps_dirs_def by meson

lemma keeps_dirs_home: "keeps_dirs m m' \<Longrightarrow> home_dirs h m \<Longrightarrow> home_dirs h m'"
  unfolding keeps_dirs_def home_dirs_def by meson

lemma open_trunc_keeps_dirs: "open_trunc m p mode = Inr (m', q) \<Longrightarrow> keeps_dirs m m'"
  by (auto simp: open_trunc_def keeps_dirs_def is_dir_def split: sum.splits option.splits inode_kind.splits if_splits)

lemma write_at_keeps_dirs: "keeps_dirs m (write_at q b m)"
  by (auto simp: write_at_def keeps_dirs_def is_dir_def split: option.splits inode_kind.splits)

lemma copyFile_keeps_dirs: "keeps_dirs m (fst (copyFile m s d))"
  using open_trunc_keeps_dirs keeps_dirs_trans [OF open_trunc_keeps_dirs write_at_keeps_dirs]
  by (fastforce simp: copyFile_def split: sum.splits option.splits prod.splits)

lemma mkdir_steps_keeps_dirs: "keeps_dirs m (fst (mkdir_steps mode m ps))"
proof (induction ps arbitrary: m)
  case (Cons p ps)
  obtain m1 r where m1: "os_Mkdir m p mode = (m1, r)" by (cases "os_Mkdir m p mode")
  have "keeps_dirs m m1" using Mkdir_dirs [of m _ p mode] m1 by (auto simp: keeps_dirs_def)
  then have "keeps_dirs m (fst (mkdir_steps mode m1 ps))" using Cons.IH keeps_dirs_trans by blast
  with Cons.IH [of m] \<open>keeps_dirs m m1\<close> m1 show ?case
    by (auto split: sum.splits option.splits)
qed simp

lemma copy_entries_confined:
  assumes "\<And>m s d r. fs_ok m \<Longrightarrow> clean_abs s \<Longrightarrow> clean_abs d \<Longrightarrow> subtree h (comps d) \<Longrightarrow> home_dirs h m \<Longrightarrow>
      f m s d = Some r \<Longrightarrow> confined h m (fst r) \<and> keeps_dirs m (fst r)"
    "fs_ok m" "clean_abs s" "clean_abs d" "subtree h (comps d)" "home_dirs h m"
    "\<forall>(name, nd) \<in> set es. good_comp name" "copy_entries f m s d es = Some r"
  shows "confined h m (fst r) \<and> keeps_dirs m (fst r)"
  using assms(2-)
proof (induction es arbitrary: m r)
  case (Cons e es)
  obtain name nd where e: "e = (name, nd)" by (cases e)
  then have n: "good_comp name" using Cons.prems(6) by simp
  note s = Join_good [OF Cons.prems(2) n] and d = Join_good [OF Cons.prems(3) n]
  have dh: "subtree h (comps (Join d name))"
    using d(2) Cons.prems(4) subtree_trans [OF _ subtree_append] by metis
  obtain r1 where r1: "(if is_dir nd then f m (Join s name) (Join d name)
       else Some (copyFile m (Join s name) (Join d name))) = Some r1"
    using Cons.prems(7) e by (auto split: option.splits)
  have c1: "confined h m (fst r1) \<and> keeps_dirs m (fst r1)"
  proof (cases "is_dir nd")
    case True
    with assms(1) [OF Cons.prems(1) s(1) d(1) dh Cons.prems(5)] r1 show ?thesis by simp
  next
    case False
    with r1 copyFile_confined [OF Cons.prems(1) d(1) dh] copyFile_keeps_dirs show ?thesis by auto
  qed
  obtain m1 o1 where m1: "r1 = (m1, o1)" by (cases r1)
  show ?case
  proof (cases o1)
    case None
    then have "copy_entries f m1 s d es = Some r" using Cons.prems(7) e r1 m1 by simp
    moreover have "fs_ok m1" "home_dirs h m1"
      using c1 m1 keeps_dirs_home Cons.prems(5) by (auto simp: confined_def)
    ultimately have "confined h m1 (fst r) \<and> keeps_dirs m1 (fst r)"
      using Cons.IH [of m1 r] Cons.prems by simp
    with c1 m1 show ?thesis using confined_trans keeps_dirs_trans by fastforce
  next
    case (Some err)
    with Cons.prems(7) e r1 m1 c1 show ?thesis by simp
  qed
qed auto

lemma copyDir_confined:
  "fs_ok m \<Longrightarrow> clean_abs s \<Longrightarrow> clean_abs d \<Longrightarrow> subtree h (comps d) \<Longrightarrow> home_dirs h m \<Longrightarrow>
   copyDir n m s d = Some r \<Longrightarrow> confined h m (fst r) \<and> keeps_dirs m (fst r)"
proof (induction n arbitrary: m s d r)
  case (Suc n)
  show ?case
  proof (cases "os_Stat m s")
    case (Inl e)
    with Suc.prems show ?thesis by auto
  next
    case (Inr x)
    then obtain q info where st: "os_Stat m s = Inr (q, info)" by (cases x) auto
    obtain m1 o1 where mk: "os_MkdirAll m d (perm info) = (m1, o1)" by (cases "os_MkdirAll m d (perm info)")
    have c1: "confined h m m1" "keeps_dirs m m1"
      using MkdirAll_confined [OF Suc.prems(1,3,4,5), of "perm info"] mk
        mkdir_steps_keeps_dirs [of m "perm info" "prefixes d"] by (simp_all add: os_MkdirAll_def)
    then have ok1: "fs_ok m1" "home_dirs h m1"
      using keeps_dirs_home Suc.prems(5) by (auto simp: confined_def)
    show ?thesis
    proof (cases "o1 = None \<and> (\<exists>es. os_ReadDir m1 s = Inr es)")
      case True
      then obtain es where es: "os_ReadDir m1 s = Inr es" by blast
      then have good: "\<forall>(name, nd) \<in> set es. good_comp name"
        using ReadDir_entries [OF ok1(1) Suc.prems(2)] by blast
      have "copy_entries (copyDir n) m1 s d es = Some r" using Suc.prems(6) st mk True es by simp
      have "confined h m1 (fst r) \<and> keeps_dirs m1 (fst r)"
      proof (rule copy_entries_confined)
        show "confined h m (fst r) \<and> keeps_dirs m (fst r)" if "fs_ok m" "clean_abs s" "clean_abs d"
          "subtree h (comps d)" "home_dirs h m" "copyDir n m s d = Some r" for m s d r
          by (rule Suc.IH [OF that])
      qed (fact ok1 Suc.prems(2,3,4) good \<open>copy_entries (copyDir n) m1 s d es = Some r\<close>)+
      with c1 show ?thesis using confined_trans keeps_dirs_trans by blast
    next
      case False
      then have "fst r = m1"
        using Suc.prems(6) st mk by (cases o1) (simp_all split: sum.splits, auto)
      with c1 show ?thesis by simp
    qed
  qed
qed simp

section \<open>Operations and their results\<close>

text \<open>The four operations, and one run of any of them.\<close>

datatype file_op =
    OpRename string string
  | OpDelete string
  | OpCopy string string
  | OpEdit string string

fun run_op :: "(string \<Rightarrow> patch result) \<Rightarrow> nat \<Rightarrow> string result \<Rightarrow> fs \<Rightarrow> file_op \<Rightarrow> fs_outcome option" where
  "run_op pf fuel home m (OpRename a b) = Some (fs_Rename home m a b)"
| "run_op pf fuel home m (OpDelete p) = Some (fs_Delete home m p)"
| "run_op pf fuel home m (OpCopy a b) = fs_Copy fuel home m a b"
| "run_op pf fuel home m (OpEdit p t) = Some (fs_Edit pf home m p t)"

lemma dst_inside:
  assumes "clean_abs a" "clean_abs b" "subtree h (comps b)"
  shows "clean_abs (if c then Join b (Base a) else b)" "subtree h (comps (if c then Join b (Base a) else b))"
  using Join_Base [OF assms(2,1)] assms(2,3) subtree_trans by auto

lemma Rename_op_confined:
  assumes "IsAbs homeDir" "fs_ok m"
  shows "confined (comps homeDir) m (fst (fs_Rename (Inr homeDir) m a b))"
proof -
  note inside = resolveOperationPath_inside [OF assms(1)]
  have "confined (comps homeDir) m (fst (os_Rename m ra (if c then Join rb (Base ra) else rb)))"
    if "resolveOperationPath homeDir a = Inr ra" "resolveOperationPath homeDir b = Inr rb" for ra rb c
    by (rule Rename_confined [OF assms(2) inside [OF that(1)]])
      (rule dst_inside [OF inside(1) [OF that(1)] inside [OF that(2)]])+
  from this [of _ _ True] this [of _ _ False] show ?thesis
    using assms(2) by (auto simp: fs_Rename_def split: sum.splits)
qed

lemma Copy_op_confined:
  assumes "IsAbs homeDir" "fs_ok m" "home_dirs (comps homeDir) m" "fs_Copy fuel (Inr homeDir) m a b = Some r"
  shows "confined (comps homeDir) m (fst r)"
proof -
  note inside = resolveOperationPath_inside [OF assms(1)]
  have f: "confined (comps homeDir) m (fst (copyFile m ra (if c then Join rb (Base ra) else rb)))"
    if "resolveOperationPath homeDir a = Inr ra" "resolveOperationPath homeDir b = Inr rb" for ra rb c
    by (rule copyFile_confined [OF assms(2)])
      (rule dst_inside [OF inside(1) [OF that(1)] inside [OF that(2)]])+
  have d: "confined (comps homeDir) m (fst r)"
    if "resolveOperationPath homeDir a = Inr ra" "resolveOperationPath homeDir b = Inr rb"
      "copyDir fuel m ra (if c then Join rb (Base ra) else rb) = Some r" for ra rb c
    using copyDir_confined [OF assms(2) inside(1) [OF that(1)] dst_inside [OF inside(1) [OF that(1)] inside [OF that(2)]]
        assms(3) that(3)] by blast
  show ?thesis
    using assms(2,4) f [of _ _ True] f [of _ _ False] d [of _ _ True] d [of _ _ False]
    by (auto simp: fs_Copy_def Let_def split: sum.splits if_splits)
qed

lemma Edit_op_confined:
  assumes "IsAbs homeDir" "fs_ok m"
  shows "confined (comps homeDir) m (fst (fs_Edit pf (Inr homeDir) m p t))"
proof -
  note inside = resolveOperationPath_inside [OF assms(1)]
  have "confined (comps homeDir) m (fst (os_WriteFile m r b mode))" if "resolveOperationPath homeDir p = Inr r" for r b mode
    by (rule WriteFile_confined [OF assms(2) inside [OF that]])
  then show ?thesis using assms(2) by (auto simp: fs_Edit_def Let_def split: sum.splits prod.splits)
qed

lemma Delete_op_confined:
  assumes "IsAbs homeDir" "fs_ok m"
  shows "confined (comps homeDir) m (fst (fs_Delete (Inr homeDir) m p))"
  using RemoveAll_confined [OF assms(2) resolveOperationPath_inside [OF assms(1)]] assms(2)
  by (auto simp: fs_Delete_def split: sum.splits)


text \<open>A small file system for the examples.\<close>

definition demo_dir :: inode where
  "demo_dir = \<lparr>kind = Directory, perm = 493, mtime = 0\<rparr>"

definition demo_file :: "bytes \<Rightarrow> inode" where
  "demo_file b = \<lparr>kind = Regular b, perm = 420, mtime = 0\<rparr>"

definition demo_fs :: fs where
  "demo_fs = \<lparr>nodes = [([], demo_dir), ([''etc''], demo_dir), ([''etc'', ''pw''], demo_file ''secret''),
      ([''h''], demo_dir), ([''h'', ''a''], demo_file ''one''), ([''h'', ''d''], demo_dir),
      ([''h'', ''d'', ''b''], demo_file ''two'')], cwd = [], umask = 18, clock = 5\<rparr>"

lemma demo_nodes:
  "node_at demo_fs q = (if q = [] \<or> q = [''etc''] \<or> q = [''h''] \<or> q = [''h'', ''d''] then Some demo_dir
    else if q = [''etc'', ''pw''] then Some (demo_file ''secret'')
    else if q = [''h'', ''a''] then Some (demo_file ''one'')
    else if q = [''h'', ''d'', ''b''] then Some (demo_file ''two'') else None)"
  by (simp add: node_at_def demo_fs_def)

lemma demo_fs_ok: "fs_ok demo_fs"
  by (simp add: fs_ok_def demo_fs_def demo_dir_def demo_file_def is_symlink_def good_comp_def)

lemma comps_h: "comps ''/h'' = [''h'']" "IsAbs ''/h''"
  by (simp_all add: comps_def IsAbs_def clean_comps_def clean_step_def)

lemma demo_home: "home_dirs [''h''] demo_fs"
  by (auto simp: home_dirs_def subtree_def take_Cons demo_fs_def node_at_def demo_dir_def is_dir_def
      split: nat.splits if_splits)

lemma demo_delete: "fs_Delete (Inr ''/h'') demo_fs ''d/../a'' = (drop_subtree [''h'', ''a''] demo_fs, None)"
  by (simp add: fs_Delete_def resolveOperationPath_def IsAbs_def Join_def Clean_def comps_def clean_comps_def
      clean_step_def spell_def Rel_def elements_def Let_def os_Lstat_def stat_at_def resolve_def demo_fs_def
      demo_dir_def demo_file_def os_RemoveAll_def node_at_def)


text \<open>
  For an absolute home directory and a non-empty argument the test on
  the relative path accepts exactly the paths whose cleaned components extend those of the home
  directory; all others are refused with the escape error.
\<close>

theorem operation_path_exact:
  assumes "IsAbs homeDir" "p \<noteq> []" "r = Clean (if IsAbs p then p else Join homeDir p)"
  shows "resolveOperationPath homeDir p =
    (if subtree (comps homeDir) (comps r) then Inr r else Inl ErrFilePathEscapesHome)"
  using assms IsAbs_Join [OF assms(1)]
  by (simp add: resolveOperationPath_eq [OF assms(1)] Let_def below_subtree)

lemma operation_path_exact_witness:
  "resolveOperationPath ''/h'' ''/h/../etc'' = Inl ErrFilePathEscapesHome \<and>
   resolveOperationPath ''/h'' ''d/..'' = Inr ''/h''"
proof -
  have a: "Clean ''/h/../etc'' = ''/etc''" "comps ''/etc'' = [''etc'']"
    by (simp_all add: Clean_def comps_def clean_comps_def clean_step_def IsAbs_def spell_def)
  have b: "Clean (Join ''/h'' ''d/..'') = ''/h''"
    by (simp add: Join_def Clean_def comps_def clean_comps_def clean_step_def IsAbs_def spell_def)
  show ?thesis
    using operation_path_exact [OF comps_h(2), of "''/h/../etc''" "''/etc''"]
      operation_path_exact [OF comps_h(2), of "''d/..''" "''/h''"] a b
    by (simp add: comps_h subtree_def) (simp add: IsAbs_def)
qed

text \<open>
  A deletion that succeeds removes the named node with everything below it
  and nothing else, and the node existed and was not the home directory; a deletion that fails
  changes nothing.
\<close>

theorem delete_exact:
  assumes "fs_ok m" "IsAbs homeDir" "resolveOperationPath homeDir p = Inr r"
    and "fs_Delete (Inr homeDir) m p = (m', err)"
  shows "if err = None
    then comps r \<noteq> comps homeDir \<and> node_at m (comps r) \<noteq> None \<and>
      (\<forall>q. node_at m' q = (if subtree (comps r) q then None else node_at m q))
    else m' = m"
proof -
  note r = resolveOperationPath_inside [OF assms(2,3)]
  have home: "Clean r \<noteq> Clean homeDir \<longleftrightarrow> comps r \<noteq> comps homeDir"
    unfolding Clean_eq_iff using r(1) assms(2) by (simp add: clean_abs_def)
  show ?thesis
    using assms(3,4) home resolve_fs_ok [OF assms(1) r(1)] stat_fs_ok(2) [OF assms(1) r(1)]
    by (auto simp: fs_Delete_def os_RemoveAll_def os_Lstat_def stat_at_def
        split: if_splits sum.splits option.splits)
qed

lemma delete_exact_witness:
  "\<exists>m'. fs_Delete (Inr ''/h'') demo_fs ''d/../a'' = (m', None) \<and> node_at m' [''h'', ''a''] = None \<and>
     node_at m' [''h'', ''d'', ''b''] = Some (demo_file ''two'')"
proof -
  have r: "resolveOperationPath ''/h'' ''d/../a'' = Inr ''/h/a''" "comps ''/h/a'' = [''h'', ''a'']"
    by (simp_all add: resolveOperationPath_def IsAbs_def Join_def Clean_def comps_def clean_comps_def
        clean_step_def spell_def Rel_def elements_def Let_def)
  from delete_exact [OF demo_fs_ok comps_h(2) r(1) demo_delete]
  have "node_at (drop_subtree [''h'', ''a''] demo_fs) q = (if subtree [''h'', ''a''] q then None else node_at demo_fs q)" for q
    by (simp add: r(2))
  from this [of "[''h'', ''d'', ''b'']"] this [of "[''h'', ''a'']"] demo_delete show ?thesis
    by (simp add: subtree_def) (simp add: demo_fs_def node_at_def)
qed

lemma copyFile_regular:
  assumes "fs_ok m" "clean_abs s" "clean_abs d" "dirs_to m (comps s)" "dirs_to m (comps d)"
    and "node_at m (comps s) = Some nd" "kind nd = Regular b"
    and "\<not> dir_at m (comps d)" "\<forall>x. node_at m (comps d) = Some x \<longrightarrow> is_regular x"
  shows "\<exists>m' nd'. copyFile m s d = (m', None) \<and> node_at m' (comps d) = Some nd' \<and>
    kind nd' = Regular (if comps d = comps s then [] else b) \<and>
    perm nd' = (case node_at m (comps d) of Some x \<Rightarrow> perm x | None \<Rightarrow> and (perm nd) (not (umask m))) \<and>
    (\<forall>q. q \<noteq> comps d \<longrightarrow> node_at m' q = node_at m q)"
proof (cases "node_at m (comps d)")
  case None
  with assms(6) have "comps d \<noteq> comps s" by auto
  with None show ?thesis using assms
    by (auto simp: copyFile_def os_Stat_def stat_dirs [OF assms(1,2,4)] open_trunc_def
        resolve_dirs [OF assms(1,3,5)] read_node_def write_at_def)
next
  case (Some x)
  then obtain c where c: "kind x = Regular c"
    using assms(9) by (auto simp: is_regular_def split: inode_kind.splits)
  show ?thesis
  proof (cases "comps d = comps s")
    case True
    with Some c show ?thesis using assms
      by (auto simp: copyFile_def os_Stat_def stat_dirs [OF assms(1,2,4)] open_trunc_def
          resolve_dirs [OF assms(1,3,5)] read_node_def write_at_def)
  next
    case False
    with Some c show ?thesis using assms
      by (auto simp: copyFile_def os_Stat_def stat_dirs [OF assms(1,2,4)] open_trunc_def
          resolve_dirs [OF assms(1,3,5)] read_node_def write_at_def)
  qed
qed

text \<open>
  Copying a regular file to its own path succeeds and leaves the
  file empty, because the destination is truncated before the source is read.
\<close>

theorem copy_onto_itself_erases:
  assumes "fs_ok m" "IsAbs homeDir" "resolveOperationPath homeDir p = Inr r" "dirs_to m (comps r)"
    and "node_at m (comps r) = Some nd" "is_regular nd"
  shows "\<exists>m' nd'. fs_Copy fuel (Inr homeDir) m p p = Some (m', None) \<and>
    node_at m' (comps r) = Some nd' \<and> kind nd' = Regular []"
proof -
  note r = resolveOperationPath_inside [OF assms(2,3)]
  from assms(6) obtain b where b: "kind nd = Regular b" by (auto simp: is_regular_def split: inode_kind.splits)
  then have nd: "\<not> is_dir nd" by (simp add: is_dir_def)
  have "fs_Copy fuel (Inr homeDir) m p p = Some (copyFile m r r)"
    using assms(3,5) nd
    by (simp add: fs_Copy_def os_Lstat_def stat_dirs [OF assms(1) r(1) assms(4)])
  then show ?thesis
    using copyFile_regular [OF assms(1) r(1) r(1) assms(4,4,5) b] nd assms(5,6)
    by (auto simp: dir_at_def)
qed

lemma copy_onto_itself_erases_witness:
  "\<exists>m' nd'. fs_Copy 1 (Inr ''/h'') demo_fs ''a'' ''a'' = Some (m', None) \<and>
    node_at m' [''h'', ''a''] = Some nd' \<and> kind nd' = Regular [] \<and>
    node_at demo_fs [''h'', ''a''] = Some (demo_file ''one'')"
proof -
  have r: "resolveOperationPath ''/h'' ''a'' = Inr ''/h/a''" "comps ''/h/a'' = [''h'', ''a'']"
    by (simp_all add: resolveOperationPath_def IsAbs_def Join_def Clean_def comps_def clean_comps_def
        clean_step_def spell_def Rel_def elements_def Let_def)
  have d: "dirs_to demo_fs [''h'', ''a'']"
    by (auto simp: dirs_to_def take_Cons demo_fs_def node_at_def demo_dir_def dir_at_def is_dir_def split: nat.splits)
  have n: "node_at demo_fs [''h'', ''a''] = Some (demo_file ''one'')"
    by (simp add: demo_fs_def node_at_def)
  show ?thesis
    using copy_onto_itself_erases [OF demo_fs_ok comps_h(2) r(1), of "demo_file ''one''" 1] d n r(2)
    by (simp add: is_regular_def demo_file_def)
qed

text \<open>
  Containment is decided on the path alone. A symbolic link below the
  home directory to a text file anywhere passes the test, and an edit through it rewrites the
  file the link leads to.
\<close>

theorem edit_follows_link:
  assumes "resolveOperationPath homeDir p = Inr r"
    and "os_Lstat m r = Inr (l, lnd)" "kind lnd = SymlinkTo t"
    and "resolve m True r = Inr q" "node_at m q = Some nd" "kind nd = Regular b" "\<not> isBinaryContent b"
    and "PatchFromText pt = Inr f" "f b = (b', oks)" "False \<notin> set oks"
  shows "\<exists>m' nd'. fs_Edit PatchFromText (Inr homeDir) m p pt = (m', None) \<and>
    node_at m' q = Some nd' \<and> kind nd' = Regular b'"
  using assms
  by (simp add: fs_Edit_def os_ReadFile_def stat_at_def read_node_def os_WriteFile_def open_trunc_def
      write_at_def is_dir_def)

definition demo_link_fs :: fs where
  "demo_link_fs = demo_fs\<lparr>nodes := ([''h'', ''ln''], \<lparr>kind = SymlinkTo ''/etc/pw'', perm = 511, mtime = 0\<rparr>) # nodes demo_fs\<rparr>"

lemma edit_follows_link_witness:
  "\<exists>m' nd'. fs_Edit (\<lambda>_. Inr (\<lambda>s. (''hacked'', [True]))) (Inr ''/h'') demo_link_fs ''ln'' ''@@'' = (m', None) \<and>
    node_at m' [''etc'', ''pw''] = Some nd' \<and> kind nd' = Regular ''hacked'' \<and> \<not> subtree [''h''] [''etc'', ''pw'']"
proof -
  have r: "resolveOperationPath ''/h'' ''ln'' = Inr ''/h/ln''"
    by (simp add: resolveOperationPath_def IsAbs_def Join_def Clean_def comps_def clean_comps_def
        clean_step_def spell_def Rel_def elements_def Let_def)
  have l: "os_Lstat demo_link_fs ''/h/ln'' = Inr ([''h'', ''ln''], \<lparr>kind = SymlinkTo ''/etc/pw'', perm = 511, mtime = 0\<rparr>)"
    by (simp add: os_Lstat_def stat_at_def resolve_def IsAbs_def demo_link_fs_def demo_fs_def node_at_def
        demo_dir_def demo_file_def)
  have q: "resolve demo_link_fs True ''/h/ln'' = Inr [''etc'', ''pw'']"
    by (simp add: resolve_def IsAbs_def demo_link_fs_def demo_fs_def node_at_def demo_dir_def demo_file_def
        eval_nat_numeral)
  have n: "node_at demo_link_fs [''etc'', ''pw''] = Some (demo_file ''secret'')"
    by (simp add: demo_link_fs_def demo_fs_def node_at_def)
  show ?thesis
    using edit_follows_link [OF r l _ q n, of "''/etc/pw''" "''secret''" "\<lambda>_. Inr (\<lambda>s. (''hacked'', [True]))"
        "''@@''" "\<lambda>s. (''hacked'', [True])" "''hacked''" "[True]"]
    by (simp add: demo_file_def isBinaryContent_def subtree_def char_of_eq_iff)
qed

end
