(* ===== verification/FileCopy.thy ===== *)
theory FileCopy
  imports FileOps
begin

text \<open>
  What a successful rename and the recursive copy of a directory do to the file system
  (\<open>Rename\<close>, \<open>Copy\<close>, \<open>copyDir\<close> of \<open>src/fileexplorer.go\<close>): the moved or copied tree arrives
  unchanged, nothing else is touched, and the recursion ends.
\<close>

section \<open>Renaming\<close>

lemma walk_prefix_dirs:
  "fs_ok m \<Longrightarrow> \<forall>c \<in> set cs. good_comp c \<Longrightarrow> walk m follow n cur cs = Inr q \<Longrightarrow>
   0 < k \<Longrightarrow> k < length cs \<Longrightarrow> dir_at m (cur @ take k cs)"
proof (induction cs arbitrary: cur k)
  case (Cons c cs)
  have c: "c \<noteq> []" "c \<noteq> ''.''" "c \<noteq> ''..''" using Cons.prems(2) by (auto simp: good_comp_def)
  have ne: "cs \<noteq> []" using Cons.prems(4,5) by auto
  then obtain nd where nd: "node_at m (cur @ [c]) = Some nd" "is_dir nd" "walk m follow n (cur @ [c]) cs = Inr q"
    using c Cons.prems(3) fs_ok_at [OF Cons.prems(1), of "cur @ [c]"]
    by (auto simp: is_dir_def is_symlink_def split: option.splits inode_kind.splits if_splits)
  show ?case
  proof (cases "k = 1")
    case True
    with nd show ?thesis by (auto simp: dir_at_def)
  next
    case False
    then obtain j where j: "k = Suc j" "0 < j" using Cons.prems(4) by (cases k) auto
    with Cons.IH [OF Cons.prems(1) _ nd(3), of j] Cons.prems(2,5) show ?thesis by simp
  qed
qed simp

lemma resolve_prefix_dirs:
  assumes "fs_ok m" "clean_abs p" "resolve m follow p = Inr q" "dir_at m []"
  shows "dirs_to m (comps p)"
proof -
  have "walk m follow 40 [] (comps p) = Inr q" if "comps p \<noteq> []"
    using assms(2,3) that by (simp add: resolve_def split_clean_shape clean_abs_def)
  with walk_prefix_dirs [OF assms(1), of "comps p" follow 40 "[]" q] clean_abs_good [OF assms(2)] assms(4)
  show ?thesis unfolding dirs_to_def by (metis append_Nil gr_zeroI length_0_conv not_less_zero take_0)
qed

lemma dirs_to_prefix: "dirs_to m p \<Longrightarrow> subtree b p \<Longrightarrow> b \<noteq> p \<Longrightarrow> dir_at m b"
proof -
  assume a: "dirs_to m p" "subtree b p" "b \<noteq> p"
  then have "take (length b) p = b" "length b < length p"
    by (auto simp: subtree_iff)
  with a(1) show ?thesis unfolding dirs_to_def by metis
qed

text \<open>The destination of a rename or copy: inside an existing directory, else the path itself.\<close>

definition destination :: "fs \<Rightarrow> string \<Rightarrow> string \<Rightarrow> string list" where
  "destination m src dst = comps (if dir_at m (comps dst) then Join dst (Base src) else dst)"

lemma kernel_rename_moves:
  assumes "fs_ok m" "dir_at m []" "clean_abs a" "clean_abs b" "\<not> dir_at m (comps b) \<or> comps b = comps a"
    "kernel_rename m a b = (m', None)"
  shows "if comps b = comps a then m' = m
    else (\<forall>t. node_at m' (comps b @ t) = node_at m (comps a @ t)) \<and> (\<forall>t. node_at m' (comps a @ t) = None) \<and>
      (\<forall>q. \<not> subtree (comps a) q \<and> \<not> subtree (comps b) q \<longrightarrow> node_at m' q = node_at m q)"
proof -
  from assms(6) obtain x y where xy: "resolve m False a = Inr x" "resolve m False b = Inr y"
    and k: "if x = y then m' = m else \<not> subtree x y \<and> m' = move_subtree x y m"
    by (auto simp: kernel_rename_def split: sum.splits option.splits if_splits)
  have eq: "x = comps a" "y = comps b"
    using resolve_fs_ok [OF assms(1)] assms(3,4) xy by blast+
  have "\<not> subtree (comps b) (comps a)" if "comps b \<noteq> comps a"
    using dirs_to_prefix [OF resolve_prefix_dirs [OF assms(1,3) xy(1) assms(2)]] assms(5) that by blast
  with k eq show ?thesis
    by (auto simp: node_at_move_target node_at_move_source node_at_move_frame)
qed

text \<open>
  A rename that succeeds moves the whole tree below the old path to the new
  one, or into it when the new path is a directory: every node is found at its new place, nothing
  is left at the old one, and all other nodes are as before.
\<close>

theorem rename_moves:
  assumes "fs_ok m" "dir_at m []" "IsAbs homeDir"
    and "resolveOperationPath homeDir old = Inr a" "resolveOperationPath homeDir new = Inr b"
    and "fs_Rename (Inr homeDir) m old new = (m', None)" "d = destination m a b"
  shows "if d = comps a then m' = m
    else (\<forall>t. node_at m' (d @ t) = node_at m (comps a @ t)) \<and> (\<forall>t. node_at m' (comps a @ t) = None) \<and>
      (\<forall>q. \<not> subtree (comps a) q \<and> \<not> subtree d q \<longrightarrow> node_at m' q = node_at m q)"
proof -
  note a = resolveOperationPath_inside [OF assms(3,4)] and b = resolveOperationPath_inside [OF assms(3,5)]
  let ?dst = "if dir_at m (comps b) then Join b (Base a) else b"
  have dst: "clean_abs ?dst" using Join_Base(1) [OF b(1) a(1)] b(1) by simp
  have d: "d = comps ?dst" by (simp add: assms(7) destination_def)
  have L: "os_Lstat m p = Inr (q, nd) \<Longrightarrow> q = comps p \<and> node_at m (comps p) = Some nd" if "clean_abs p" for p q nd
    using stat_fs_ok [OF assms(1) that] unfolding os_Lstat_def by blast
  have lstat_dir: "(\<exists>q nd. os_Lstat m p = Inr (q, nd) \<and> is_dir nd) \<longleftrightarrow> dir_at m (comps p)"
    if "clean_abs p" "resolve m False p = Inr r" for p r
    using resolve_fs_ok [OF assms(1) that] that(2)
    by (auto simp: os_Lstat_def stat_at_def dir_at_def split: option.splits)
  have res: "\<exists>r. resolve m False b = Inr r"
  proof (cases "os_Lstat m b")
    case (Inl e)
    then have "kernel_rename m a b = (m', None) \<or> os_Rename m a b = (m', None)"
      using assms(4-6) by (auto simp: fs_Rename_def)
    then have "kernel_rename m a b = (m', None)" using Inl by (auto simp: os_Rename_def)
    then show ?thesis by (auto simp: kernel_rename_def split: sum.splits option.splits)
  next
    case (Inr x)
    then show ?thesis by (auto simp: os_Lstat_def stat_at_def split: sum.splits)
  qed
  then obtain r where r: "resolve m False b = Inr r" by blast
  have ren: "os_Rename m a ?dst = (m', None)"
    using assms(4-6) lstat_dir [OF b(1) r] L [OF b(1)]
    by (auto simp: fs_Rename_def dir_at_def split: sum.splits)
  have "kernel_rename m a ?dst = (m', None) \<and> (\<not> dir_at m (comps ?dst) \<or> comps ?dst = comps a)"
  proof (cases "os_Lstat m ?dst")
    case (Inl e)
    with ren have k: "kernel_rename m a ?dst = (m', None)" by (simp add: os_Rename_def)
    then obtain y where y: "resolve m False ?dst = Inr y"
      by (auto simp: kernel_rename_def split: sum.splits option.splits if_splits)
    then have "\<not> dir_at m (comps ?dst)" using lstat_dir [OF dst y] Inl by auto
    with k show ?thesis by blast
  next
    case (Inr x)
    then obtain q nd where x: "os_Lstat m ?dst = Inr (q, nd)" by (cases x) auto
    show ?thesis
    proof (cases "is_dir nd")
      case False
      with x ren L [OF dst x] show ?thesis by (auto simp: os_Rename_def dir_at_def)
    next
      case True
      with x ren obtain q' where "os_Lstat m a = Inr (q', the (node_at m (comps a)))" "q' = q"
        using L [OF a(1)] by (auto simp: os_Rename_def split: sum.splits if_splits)
      then have "comps ?dst = comps a" using L [OF a(1)] L [OF dst x] by auto
      with x ren True show ?thesis by (auto simp: os_Rename_def split: sum.splits if_splits)
    qed
  qed
  with kernel_rename_moves [OF assms(1,2) a(1) dst] d show ?thesis by metis
qed

lemma demo_rename: "fs_Rename (Inr ''/h'') demo_fs ''a'' ''d'' = (move_subtree [''h'', ''a''] [''h'', ''d'', ''a''] demo_fs, None)"
  by (simp add: fs_Rename_def resolveOperationPath_def IsAbs_def Join_def Clean_def comps_def clean_comps_def
      clean_step_def spell_def Rel_def elements_def Let_def os_Lstat_def stat_at_def resolve_def demo_fs_def
      demo_dir_def demo_file_def node_at_def is_dir_def Base_def os_Rename_def kernel_rename_def subtree_def)

lemma rename_moves_witness:
  "\<exists>m'. fs_Rename (Inr ''/h'') demo_fs ''a'' ''d'' = (m', None) \<and>
     node_at m' [''h'', ''d'', ''a''] = Some (demo_file ''one'') \<and> node_at m' [''h'', ''a''] = None"
proof -
  have r: "resolveOperationPath ''/h'' ''a'' = Inr ''/h/a''" "resolveOperationPath ''/h'' ''d'' = Inr ''/h/d''"
      "comps ''/h/a'' = [''h'', ''a'']" "comps ''/h/d'' = [''h'', ''d'']"
    by (simp_all add: resolveOperationPath_def IsAbs_def Join_def Clean_def comps_def clean_comps_def
        clean_step_def spell_def Rel_def elements_def Let_def)
  have root: "dir_at demo_fs []" "dir_at demo_fs [''h'', ''d'']"
    by (simp_all add: dir_at_def demo_fs_def node_at_def demo_dir_def is_dir_def)
  have "Join ''/h/d'' (Base ''/h/a'') = ''/h/d/a''" "comps ''/h/d/a'' = [''h'', ''d'', ''a'']"
    by (simp_all add: Join_def Base_def Clean_def comps_def clean_comps_def clean_step_def spell_def IsAbs_def Let_def)
  then have "destination demo_fs ''/h/a'' ''/h/d'' = [''h'', ''d'', ''a'']"
    using root(2) by (simp add: destination_def r)
  from rename_moves [OF demo_fs_ok root(1) comps_h(2) r(1,2) demo_rename refl] this
  have "\<forall>t. node_at (move_subtree [''h'', ''a''] [''h'', ''d'', ''a''] demo_fs) ([''h'', ''d'', ''a''] @ t) = node_at demo_fs ([''h'', ''a''] @ t)"
    "\<forall>t. node_at (move_subtree [''h'', ''a''] [''h'', ''d'', ''a''] demo_fs) ([''h'', ''a''] @ t) = None"
    by (simp_all add: r)
  from spec [OF this(1), of "[]"] spec [OF this(2), of "[]"] demo_rename show ?thesis
    by (simp add: demo_fs_def node_at_def)
qed

section \<open>Copying a directory\<close>

lemma take_comps_clean:
  assumes "clean_abs d"
  shows "comps (spell True (take k (comps d))) = take k (comps d)" "clean_abs (spell True (take k (comps d)))"
proof -
  have cl: "clean_list True (take k (comps d))"
    using clean_abs_good [OF assms] by (auto simp: clean_list_rooted dest: in_set_takeD)
  show c: "comps (spell True (take k (comps d))) = take k (comps d)" by (rule comps_spell [OF cl])
  have "IsAbs (spell True (take k (comps d)))" using spell_abs [OF cl] by simp
  then show "clean_abs (spell True (take k (comps d)))" by (simp add: clean_abs_def Clean_def c)
qed

lemma prefixes_snoc:
  assumes "clean_abs d" "comps d \<noteq> []"
  shows "\<exists>ps. prefixes d = ps @ [d] \<and> (\<forall>p \<in> set ps. clean_abs p \<and> (\<exists>k < length (comps d). comps p = take k (comps d)))"
proof -
  let ?f = "\<lambda>k. spell True (take (Suc k) (comps d))"
  obtain n where n: "length (comps d) = Suc n" using assms(2) by (cases "comps d") auto
  have "IsAbs d" using assms(1) by (simp add: clean_abs_def)
  then have p: "prefixes d = map ?f [0 ..< n] @ [?f n]" by (simp add: prefixes_def n)
  have "?f n = d" using clean_abs_spell [OF assms(1)] by (simp add: n spell_def)
  moreover have "\<forall>p \<in> set (map ?f [0 ..< n]). clean_abs p \<and> (\<exists>k < length (comps d). comps p = take k (comps d))"
    using take_comps_clean [OF assms(1)] n by fastforce
  ultimately show ?thesis using p by metis
qed

lemma mkdir_steps_dirs:
  "fs_ok m \<Longrightarrow> \<forall>p \<in> set ps. clean_abs p \<and> dirs_to m (comps p) \<and> dir_at m (comps p) \<Longrightarrow>
   mkdir_steps mode m (ps @ qs) = mkdir_steps mode m qs"
proof (induction ps)
  case (Cons p ps)
  then obtain nd where "os_Stat m p = Inr (comps p, nd)" "is_dir nd"
    unfolding os_Stat_def by (auto simp: stat_dirs dir_at_def)
  with Cons show ?case by simp
qed simp

lemma MkdirAll_new:
  assumes "fs_ok m" "clean_abs d" "dirs_to m (comps d)" "node_at m (comps d) = None" "comps d \<noteq> []"
  shows "os_MkdirAll m d mode
    = (put_node (comps d) \<lparr>kind = Directory, perm = and mode (not (umask m)), mtime = clock m\<rparr> m, None)"
proof -
  obtain ps where ps: "prefixes d = ps @ [d]"
    "\<forall>p \<in> set ps. clean_abs p \<and> (\<exists>k < length (comps d). comps p = take k (comps d))"
    using prefixes_snoc [OF assms(2,5)] by blast
  have "\<forall>p \<in> set ps. clean_abs p \<and> dirs_to m (comps p) \<and> dir_at m (comps p)"
  proof
    fix p assume "p \<in> set ps"
    with ps(2) obtain k where k: "clean_abs p" "k < length (comps d)" "comps p = take k (comps d)" by blast
    have "dir_at m (take j (take k (comps d)))" for j
      using assms(3) k(2) unfolding dirs_to_def take_take by (metis min.strict_coboundedI2)
    with k show "clean_abs p \<and> dirs_to m (comps p) \<and> dir_at m (comps p)"
      unfolding dirs_to_def by (metis nle_le take_all_iff)
  qed
  from mkdir_steps_dirs [OF assms(1) this]
  show ?thesis
    by (simp add: os_MkdirAll_def ps(1) os_Stat_def stat_dirs [OF assms(1-3)] assms(4) os_Mkdir_def
        resolve_dirs [OF assms(1-3)])
qed

text \<open>
  A copied node: same kind and content, the permissions masked, the time of the copy. Below an
  empty destination the copy of a tree has exactly the copied nodes of the tree.
\<close>

definition copied :: "fs \<Rightarrow> inode \<Rightarrow> inode" where
  "copied m nd = nd\<lparr>perm := and (perm nd) (not (umask m)), mtime := clock m\<rparr>"

definition tree_copied :: "fs \<Rightarrow> string list \<Rightarrow> string list \<Rightarrow> fs \<Rightarrow> bool" where
  "tree_copied m s d m' \<longleftrightarrow>
     (\<forall>t. node_at m' (d @ t) = map_option (copied m) (node_at m (s @ t))) \<and>
     (\<forall>q. \<not> subtree d q \<longrightarrow> node_at m' q = node_at m q)"

text \<open>A source tree of files and directories only, in which every ancestor is a directory.\<close>

definition plain_tree :: "fs \<Rightarrow> string list \<Rightarrow> bool" where
  "plain_tree m s \<longleftrightarrow> (\<forall>t nd. node_at m (s @ t) = Some nd \<longrightarrow> is_dir nd \<or> is_regular nd) \<and>
     (\<forall>t u. u \<noteq> [] \<and> node_at m (s @ t @ u) \<noteq> None \<longrightarrow> dir_at m (s @ t))"

definition tree_depth :: "fs \<Rightarrow> string list \<Rightarrow> nat \<Rightarrow> bool" where
  "tree_depth m s n \<longleftrightarrow> (\<forall>t. node_at m (s @ t) \<noteq> None \<longrightarrow> length t < n)"

text \<open>The state in the middle of the loop: the entries \<open>done\<close> have been copied.\<close>

definition partly_copied :: "fs \<Rightarrow> string list \<Rightarrow> string list \<Rightarrow> string set \<Rightarrow> fs \<Rightarrow> bool" where
  "partly_copied m s d D m' \<longleftrightarrow> fs_ok m' \<and> umask m' = umask m \<and> clock m' = clock m \<and>
     node_at m' d = map_option (copied m) (node_at m s) \<and>
     (\<forall>c t. node_at m' (d @ c # t) = (if c \<in> D then map_option (copied m) (node_at m (s @ c # t)) else None)) \<and>
     (\<forall>q. \<not> subtree d q \<longrightarrow> node_at m' q = node_at m q)"

lemma copied_simps [simp]:
  "kind (copied m nd) = kind nd" "is_dir (copied m nd) = is_dir nd" "is_regular (copied m nd) = is_regular nd"
  "is_symlink (copied m nd) = is_symlink nd"
  by (simp_all add: copied_def is_dir_def is_regular_def is_symlink_def)

lemma put_node_ok_meta: "umask (write_at q b m) = umask m" "clock (write_at q b m) = clock m"
  by (auto simp: write_at_def split: option.splits inode_kind.splits)

lemma copyFile_fresh:
  assumes "fs_ok m" "clean_abs s" "clean_abs d" "dirs_to m (comps s)" "dirs_to m (comps d)"
    and "node_at m (comps s) = Some nd" "is_regular nd" "node_at m (comps d) = None"
  shows "\<exists>m'. copyFile m s d = (m', None) \<and> fs_ok m' \<and> umask m' = umask m \<and> clock m' = clock m \<and>
    (\<forall>q. node_at m' q = (if q = comps d then Some (copied m nd) else node_at m q))"
proof -
  obtain b where b: "kind nd = Regular b" using assms(7) by (auto simp: is_regular_def split: inode_kind.splits)
  have ne: "comps d \<noteq> comps s" using assms(6,8) by auto
  let ?n = "\<lparr>kind = Regular b, perm = and (perm nd) (not (umask m)), mtime = clock m\<rparr>"
  let ?m1 = "put_node (comps d) (?n\<lparr>kind := Regular []\<rparr>) m"
  have c: "copyFile m s d = (put_node (comps d) ?n ?m1, None)"
    using assms b ne
    by (simp add: copyFile_def os_Stat_def stat_dirs [OF assms(1,2,4)] open_trunc_def
        resolve_dirs [OF assms(1,3,5)] read_node_def write_at_def)
  have good: "\<forall>c \<in> set (comps d). good_comp c" using clean_abs_good [OF assms(3)] by blast
  have "copied m nd = ?n" using b by (cases nd) (simp add: copied_def)
  moreover have "fs_ok (put_node (comps d) ?n ?m1)"
    using assms(1) good by (intro fs_ok_put) (auto simp: is_symlink_def)
  ultimately show ?thesis using c by auto
qed

definition copy_ready :: "fs \<Rightarrow> string \<Rightarrow> string \<Rightarrow> nat \<Rightarrow> bool" where
  "copy_ready m s d n \<longleftrightarrow> fs_ok m \<and> clean_abs s \<and> clean_abs d \<and> dirs_to m (comps s) \<and> dirs_to m (comps d) \<and>
     dir_at m (comps s) \<and> \<not> subtree (comps s) (comps d) \<and> \<not> subtree (comps d) (comps s) \<and>
     plain_tree m (comps s) \<and> tree_depth m (comps s) n \<and> (\<forall>t. node_at m (comps d @ t) = None)"

definition copy_done :: "fs \<Rightarrow> string \<Rightarrow> string \<Rightarrow> fs \<Rightarrow> bool" where
  "copy_done m s d m' \<longleftrightarrow> tree_copied m (comps s) (comps d) m' \<and> fs_ok m' \<and> umask m' = umask m \<and> clock m' = clock m"

lemma disjoint_below:
  "\<not> subtree s d \<Longrightarrow> \<not> subtree d s \<Longrightarrow> \<not> subtree d (s @ t)"
  by (auto simp: subtree_iff append_eq_append_conv2)

lemma disjoint_extend:
  "\<not> subtree s d \<Longrightarrow> \<not> subtree d s \<Longrightarrow> \<not> subtree (s @ [c]) (d @ [c'])"
proof
  assume a: "\<not> subtree s d" "\<not> subtree d s" "subtree (s @ [c]) (d @ [c'])"
  then have "subtree s (d @ [c'])" using subtree_trans subtree_append by blast
  with disjoint_below [OF a(2,1)] show False by blast
qed

lemma partly_source:
  assumes "partly_copied m s d D m'" "\<not> subtree s d" "\<not> subtree d s"
  shows "node_at m' (s @ t) = node_at m (s @ t)"
  using assms disjoint_below [OF assms(2,3)] by (simp add: partly_copied_def)

lemma partly_dirs:
  assumes "partly_copied m s d D m'" "\<not> subtree d q" "dirs_to m q"
  shows "dirs_to m' q"
proof -
  have "\<not> subtree d (take k q)" for k
    using assms(2) subtree_trans [of d "take k q" q] subtree_append [of "take k q" "drop k q"] by auto
  with assms show ?thesis by (simp add: dirs_to_def partly_copied_def dir_at_def)
qed

lemma partly_insert:
  assumes "partly_copied m s d D m1" "c \<notin> D" "fs_ok m2" "umask m2 = umask m" "clock m2 = clock m"
    and new: "\<forall>t. node_at m2 (d @ c # t) = map_option (copied m) (node_at m (s @ c # t))"
    and same: "\<forall>q. \<not> subtree (d @ [c]) q \<longrightarrow> node_at m2 q = node_at m1 q"
  shows "partly_copied m s d (insert c D) m2"
proof -
  have "\<not> subtree (d @ [c]) (d @ c' # t)" if "c' \<noteq> c" for c' t
    using that by (auto simp: subtree_iff)
  then have other: "node_at m2 (d @ c' # t) = node_at m1 (d @ c' # t)" if "c' \<noteq> c" for c' t
    using same that by blast
  have "\<not> subtree (d @ [c]) q" if "\<not> subtree d q" for q
    using that subtree_trans [of d "d @ [c]" q] by auto
  moreover have "node_at m2 d = map_option (copied m) (node_at m s)"
    using assms(1) same by (auto simp: partly_copied_def subtree_iff)
  moreover have "node_at m2 (d @ c' # t) =
      (if c' \<in> insert c D then map_option (copied m) (node_at m (s @ c' # t)) else None)" for c' t
    using assms(1) new other [of c' t] by (cases "c' = c") (simp_all add: partly_copied_def)
  moreover have "node_at m2 q = node_at m q" if "\<not> subtree d q" for q
    using assms(1) same calculation(1) [OF that] that by (simp add: partly_copied_def)
  ultimately show ?thesis
    using assms(3-5) unfolding partly_copied_def by (intro conjI allI impI)
qed

lemma copied_meta: "umask m' = umask m \<Longrightarrow> clock m' = clock m \<Longrightarrow> copied m' = copied m"
  by (simp add: copied_def fun_eq_iff)

lemma plain_tree_sub:
  assumes "plain_tree m s" "\<forall>t. node_at m' (s @ t) = node_at m (s @ t)"
  shows "plain_tree m' (s @ [c])"
proof -
  have "is_dir nd \<or> is_regular nd" if "node_at m' ((s @ [c]) @ t) = Some nd" for t nd
    using that assms unfolding plain_tree_def by (metis append.assoc)
  moreover have "dir_at m' ((s @ [c]) @ t)" if "u \<noteq> []" "node_at m' ((s @ [c]) @ t @ u) \<noteq> None" for t u
  proof -
    have "node_at m (s @ (c # t) @ u) \<noteq> None" using that(2) assms(2) by (metis append.assoc append_Cons append_Nil)
    then have "dir_at m (s @ c # t)" using assms(1) that(1) unfolding plain_tree_def by blast
    then show ?thesis using assms(2) by (simp add: dir_at_def)
  qed
  ultimately show ?thesis unfolding plain_tree_def by blast
qed

lemma copy_entries_tree:
  assumes ready: "copy_ready m s d (Suc n)"
    and rec: "\<And>m' s' d'. copy_ready m' s' d' n \<Longrightarrow> \<exists>m''. f m' s' d' = Some (m'', None) \<and> copy_done m' s' d' m''"
    and "partly_copied m (comps s) (comps d) D m'" "distinct (map fst es)" "fst ` set es \<inter> D = {}"
    and "\<forall>(c, nd) \<in> set es. node_at m (comps s @ [c]) = Some nd \<and> good_comp c"
  shows "\<exists>m''. copy_entries f m' s d es = Some (m'', None) \<and>
    partly_copied m (comps s) (comps d) (D \<union> fst ` set es) m''"
  using assms(3-)
proof (induction es arbitrary: m' D)
  case (Cons e es)
  obtain c nd where e: "e = (c, nd)" by (cases e)
  let ?S = "comps s" and ?D = "comps d"
  have rd: "fs_ok m" "clean_abs s" "clean_abs d" "dirs_to m ?S" "dir_at m ?S" "\<not> subtree ?S ?D" "\<not> subtree ?D ?S"
    "plain_tree m ?S" "tree_depth m ?S (Suc n)" "dirs_to m ?D"
    using ready by (simp_all add: copy_ready_def)
  have c: "node_at m (?S @ [c]) = Some nd" "good_comp c" "c \<notin> D" using Cons.prems e by auto
  note s' = Join_good [OF rd(2) c(2)] and d' = Join_good [OF rd(3) c(2)]
  note src = partly_source [OF Cons.prems(1) rd(6,7)]
  have meta: "fs_ok m'" "umask m' = umask m" "clock m' = clock m" "dir_at m' ?D"
    using Cons.prems(1) rd(5) by (auto simp: partly_copied_def dir_at_def)
  have dS: "dirs_to m' (comps (Join s c))"
    using partly_dirs [OF Cons.prems(1) rd(7,4)] rd(5) src [of "[]"] by (simp add: s' dirs_to_snoc dir_at_def)
  have "dirs_to m' ?D"
    unfolding dirs_to_def
  proof (intro allI impI)
    fix k assume k: "k < length ?D"
    then have "\<not> subtree ?D (take k ?D)" by (simp add: subtree_def)
    then have "node_at m' (take k ?D) = node_at m (take k ?D)" using Cons.prems(1) by (simp add: partly_copied_def)
    then show "dir_at m' (take k ?D)" using rd(10) k by (simp add: dirs_to_def dir_at_def)
  qed
  then have dD: "dirs_to m' (comps (Join d c))" using meta(4) by (simp add: d' dirs_to_snoc)
  have free: "node_at m' (?D @ c # t) = None" for t using Cons.prems(1) c(3) by (simp add: partly_copied_def)
  have nS: "node_at m' (comps (Join s c)) = Some nd" using src [of "[c]"] c(1) by (simp add: s')
  have kinds: "is_dir nd \<or> is_regular nd" using rd(8) c(1) by (auto simp: plain_tree_def)
  obtain m2 where m2: "(if is_dir nd then f m' (Join s c) (Join d c) else Some (copyFile m' (Join s c) (Join d c)))
      = Some (m2, None)" "partly_copied m ?S ?D (insert c D) m2"
  proof (cases "is_dir nd")
    case True
    have "copy_ready m' (Join s c) (Join d c) n"
      unfolding copy_ready_def
    proof (intro conjI allI)
      show "\<not> subtree (comps (Join s c)) (comps (Join d c))" "\<not> subtree (comps (Join d c)) (comps (Join s c))"
        using disjoint_extend rd(6,7) by (auto simp: s' d')
      show "plain_tree m' (comps (Join s c))" using plain_tree_sub [OF rd(8)] src by (simp add: s')
      show "tree_depth m' (comps (Join s c)) n"
        using rd(9) src [of "c # _"] by (force simp: tree_depth_def s')
      show "node_at m' (comps (Join d c) @ t) = None" for t using free by (simp add: d')
      show "dir_at m' (comps (Join s c))" using nS True by (simp add: dir_at_def)
    qed (fact meta(1) s'(1) d'(1) dS dD)+
    from rec [OF this] obtain m2 where r: "f m' (Join s c) (Join d c) = Some (m2, None)"
      "copy_done m' (Join s c) (Join d c) m2" by blast
    have "partly_copied m ?S ?D (insert c D) m2"
    proof (rule partly_insert [OF Cons.prems(1) c(3)])
      show "fs_ok m2" "umask m2 = umask m" "clock m2 = clock m"
        using r(2) meta by (simp_all add: copy_done_def)
      show "\<forall>t. node_at m2 (?D @ c # t) = map_option (copied m) (node_at m (?S @ c # t))"
        using r(2) src [of "c # _"] copied_meta [OF meta(2,3)] by (simp add: copy_done_def tree_copied_def s' d')
      show "\<forall>q. \<not> subtree (?D @ [c]) q \<longrightarrow> node_at m2 q = node_at m' q"
        using r(2) by (simp add: copy_done_def tree_copied_def d')
    qed
    with r True that show ?thesis by simp
  next
    case False
    then have reg: "is_regular nd" using kinds by simp
    have "node_at m' (comps (Join d c)) = None" using free [of "[]"] by (simp add: d')
    from copyFile_fresh [OF meta(1) s'(1) d'(1) dS dD nS reg this]
    obtain m2 where r: "copyFile m' (Join s c) (Join d c) = (m2, None)" "fs_ok m2" "umask m2 = umask m'"
      "clock m2 = clock m'" "\<forall>q. node_at m2 q = (if q = comps (Join d c) then Some (copied m' nd) else node_at m' q)"
      by blast
    have "partly_copied m ?S ?D (insert c D) m2"
    proof (rule partly_insert [OF Cons.prems(1) c(3) r(2)])
      show "umask m2 = umask m" "clock m2 = clock m" using r meta by simp_all
      have leaf: "node_at m (?S @ c # t) = None" if "t \<noteq> []" for t
      proof (rule ccontr)
        assume "node_at m (?S @ c # t) \<noteq> None"
        then have "node_at m (?S @ [c] @ t) \<noteq> None" by simp
        then have "dir_at m (?S @ [c])" using rd(8) that unfolding plain_tree_def by blast
        with c(1) False show False by (simp add: dir_at_def)
      qed
      show "\<forall>t. node_at m2 (?D @ c # t) = map_option (copied m) (node_at m (?S @ c # t))"
      proof
        fix t show "node_at m2 (?D @ c # t) = map_option (copied m) (node_at m (?S @ c # t))"
          using r(5) c(1) leaf [of t] free [of t] copied_meta [OF meta(2,3)] by (cases t) (auto simp: d')
      qed
      show "\<forall>q. \<not> subtree (?D @ [c]) q \<longrightarrow> node_at m2 q = node_at m' q"
        using r(5) by (auto simp: d')
    qed
    with r(1) False that show ?thesis by simp
  qed
  have "fst ` set es \<inter> insert c D = {}" using Cons.prems(2,3) e by auto
  with Cons.IH [OF m2(2)] Cons.prems(2,4) e obtain m3 where
    "copy_entries f m2 s d es = Some (m3, None)" "partly_copied m ?S ?D (insert c D \<union> fst ` set es) m3"
    by auto
  with m2(1) e show ?case by (auto simp: insert_commute)
qed auto

lemma children_distinct: "distinct (children m q)"
  by (simp add: children_def)

lemma children_iff: "fs_ok m \<Longrightarrow> c \<in> set (children m q) \<longleftrightarrow> node_at m (q @ [c]) \<noteq> None"
proof
  assume "node_at m (q @ [c]) \<noteq> None"
  then obtain nd where "(q @ [c], nd) \<in> set (nodes m)" by (auto simp: node_at_def dest: map_of_SomeD)
  then have "c \<in> last ` {p \<in> fst ` set (nodes m). p \<noteq> [] \<and> butlast p = q}"
    by (intro image_eqI [of _ _ "q @ [c]"]) force+
  then show "c \<in> set (children m q)" by (auto simp: children_def)
qed (auto dest: children_node)

lemma copyDir_tree:
  "copy_ready m s d n \<Longrightarrow> \<exists>m'. copyDir n m s d = Some (m', None) \<and> copy_done m s d m'"
proof (induction n arbitrary: m s d)
  case 0
  then have "\<forall>t. node_at m (comps s @ t) = None" by (auto simp: copy_ready_def tree_depth_def)
  from spec [OF this, of "[]"] 0 show ?case by (simp add: copy_ready_def dir_at_def)
next
  case (Suc n)
  let ?S = "comps s" and ?D = "comps d"
  have rd: "fs_ok m" "clean_abs s" "clean_abs d" "dirs_to m ?S" "\<not> subtree ?S ?D" "\<not> subtree ?D ?S" "dirs_to m ?D"
    using Suc.prems by (simp_all add: copy_ready_def)
  have free: "node_at m (?D @ t) = None" for t using Suc.prems by (simp add: copy_ready_def)
  obtain nd where nd: "node_at m ?S = Some nd" "is_dir nd" using Suc.prems by (auto simp: copy_ready_def dir_at_def)
  have ne: "?D \<noteq> []" using rd(6) by (auto simp: subtree_def)
  let ?dn = "\<lparr>kind = Directory, perm = and (perm nd) (not (umask m)), mtime = clock m\<rparr>"
  let ?m1 = "put_node ?D ?dn m"
  have dn: "?dn = copied m nd" using nd(2) by (cases nd) (simp add: copied_def is_dir_def)
  have mk: "os_MkdirAll m d (perm nd) = (?m1, None)"
    using MkdirAll_new [OF rd(1,3,7) _ ne] free [of "[]"] by simp
  have ok1: "fs_ok ?m1" using rd(1) clean_abs_good [OF rd(3)] by (intro fs_ok_put) (auto simp: is_symlink_def)
  have part: "partly_copied m ?S ?D {} ?m1"
    using ok1 free nd(1) dn rd(5) by (auto simp: partly_copied_def)
  note src = partly_source [OF part rd(5,6)]
  let ?es = "map (\<lambda>c. (c, the (node_at ?m1 (?S @ [c])))) (children ?m1 ?S)"
  have "stat_at True ''open'' ?m1 s = Inr (?S, nd)"
    using stat_dirs [OF ok1 rd(2) partly_dirs [OF part rd(6,4)]] src [of "[]"] nd(1) by simp
  then have rdd: "os_ReadDir ?m1 s = Inr ?es" using nd(2) by (simp add: os_ReadDir_def)
  have es: "\<forall>(c, x) \<in> set ?es. node_at m (?S @ [c]) = Some x \<and> good_comp c"
    using children_node [of _ ?m1 ?S] children_good [OF ok1] src by fastforce
  have d: "distinct (map fst ?es)" by (simp add: comp_def children_distinct)
  obtain m2 where m2: "copy_entries (copyDir n) ?m1 s d ?es = Some (m2, None)"
    "partly_copied m ?S ?D ({} \<union> fst ` set ?es) m2"
    using copy_entries_tree [OF Suc.prems Suc.IH part d _ es] by auto
  have names: "fst ` set ?es = set (children ?m1 ?S)" by force
  have "copyDir (Suc n) m s d = Some (m2, None)"
    using nd mk rdd m2(1) by (simp add: os_Stat_def stat_dirs [OF rd(1,2,4)])
  moreover have "copy_done m s d m2"
    unfolding copy_done_def tree_copied_def
  proof (intro conjI allI)
    show "fs_ok m2" "umask m2 = umask m" "clock m2 = clock m" using m2(2) by (simp_all add: partly_copied_def)
    fix q show "\<not> subtree ?D q \<longrightarrow> node_at m2 q = node_at m q" using m2(2) by (simp add: partly_copied_def)
  next
    fix t show "node_at m2 (?D @ t) = map_option (copied m) (node_at m (?S @ t))"
    proof (cases t)
      case Nil
      with m2(2) show ?thesis by (simp add: partly_copied_def)
    next
      case (Cons c u)
      show ?thesis
      proof (cases "c \<in> set (children ?m1 ?S)")
        case True
        with Cons m2(2) names show ?thesis by (simp add: partly_copied_def)
      next
        case False
        then have "node_at m (?S @ [c]) = None" using children_iff [OF ok1] src by metis
        moreover have "node_at m (?S @ [c] @ u) = None" if "u \<noteq> []"
        proof (rule ccontr)
          assume "node_at m (?S @ [c] @ u) \<noteq> None"
          then have "dir_at m (?S @ [c])"
            using Suc.prems that unfolding copy_ready_def plain_tree_def by blast
          with calculation show False by (simp add: dir_at_def)
        qed
        ultimately have "node_at m (?S @ c # u) = None" by (cases u) auto
        with False Cons m2(2) names show ?thesis by (simp add: partly_copied_def)
      qed
    qed
  qed
  ultimately show ?case by blast
qed

lemma below_by_prefix:
  assumes "clean_abs e" "clean_abs a" "comps a \<noteq> []" "has_prefix e (a @ ''/'')"
  shows "subtree (comps a) (comps e)"
proof -
  from assms(4) obtain r where r: "e = a @ sep # r" by (auto simp: has_prefix_iff)
  have "split_on sep e = split_on sep a @ split_on sep r" unfolding r by (rule split_on_append_sep)
  then have "[] # (if comps e = [] then [[]] else comps e) = [] # comps a @ split_on sep r"
    using assms(3) by (simp add: split_clean_shape [OF assms(1)] split_clean_shape [OF assms(2)])
  moreover have "comps e \<noteq> []"
  proof
    assume "comps e = []"
    with calculation have "comps a = [[]]"
      using split_on_not_Nil [of sep r] assms(3) by (cases "comps a") auto
    with clean_abs_good [OF assms(2), of "[]"] show False by (simp add: good_comp_def)
  qed
  ultimately show ?thesis by simp
qed

text \<open>
  Property C22 (copy_directory_exact): copying a directory of files and directories to a free place
  outside it succeeds, with a recursion depth of the tree's height: every node of the tree is
  found below the destination with its kind and content, there is nothing else below it, and
  no other node has changed.
\<close>

theorem copy_directory_exact:
  assumes "IsAbs homeDir" "resolveOperationPath homeDir src = Inr a" "resolveOperationPath homeDir dst = Inr b"
    and "e = (if dir_at m (comps b) then Join b (Base a) else b)" "copy_ready m a e n"
  shows "\<exists>m'. fs_Copy n (Inr homeDir) m src dst = Some (m', None) \<and> tree_copied m (comps a) (comps e) m'"
proof -
  note a = resolveOperationPath_inside(1) [OF assms(1,2)] and b = resolveOperationPath_inside(1) [OF assms(1,3)]
  have rd: "fs_ok m" "dirs_to m (comps a)" "dir_at m (comps a)" "dirs_to m (comps e)"
    "\<not> subtree (comps a) (comps e)" "clean_abs e"
    using assms(5) by (simp_all add: copy_ready_def)
  obtain x where x: "os_Lstat m a = Inr (comps a, x)" "is_dir x"
    using rd(3) by (auto simp: os_Lstat_def stat_dirs [OF rd(1) a rd(2)] dir_at_def)
  have e: "(case os_Lstat m b of Inr (_, nd) \<Rightarrow> if is_dir nd then Join b (Base a) else b | Inl _ \<Rightarrow> b) = e"
  proof (cases "os_Lstat m b")
    case (Inr y)
    then obtain q nd where y: "os_Lstat m b = Inr (q, nd)" by (cases y) auto
    then have "node_at m (comps b) = Some nd" using stat_fs_ok [OF rd(1) b] unfolding os_Lstat_def by blast
    with y assms(4) show ?thesis by (auto simp: dir_at_def)
  next
    case (Inl err)
    have "\<not> dir_at m (comps b)"
    proof
      assume d: "dir_at m (comps b)"
      then have "subtree (comps b) (comps e)" using Join_Base(2) [OF b a] assms(4) by simp
      then obtain t where t: "comps e = comps b @ t" by (auto simp: subtree_iff)
      have "dirs_to m (comps b)"
        unfolding dirs_to_def
      proof (intro allI impI)
        fix k assume k: "k < length (comps b)"
        then have "k < length (comps e)" by (simp add: t)
        then have "dir_at m (take k (comps e))" using rd(4) unfolding dirs_to_def by blast
        with k show "dir_at m (take k (comps b))" by (simp add: t)
      qed
      with Inl d show False by (auto simp: os_Lstat_def stat_dirs [OF rd(1) b] dir_at_def)
    qed
    with Inl assms(4) show ?thesis by simp
  qed
  have ne: "comps a \<noteq> []" using rd(5) by (auto simp: subtree_def)
  have "Clean e = e" "Clean a = a" using rd(6) a by (simp_all add: clean_abs_def)
  moreover have "e \<noteq> a" using rd(5) by auto
  moreover have "\<not> has_prefix e (a @ ''/'')" using below_by_prefix [OF rd(6) a ne] rd(5) by blast
  ultimately have "fs_Copy n (Inr homeDir) m src dst = copyDir n m a e"
    using assms(2,3) x e by (simp add: fs_Copy_def Let_def)
  with copyDir_tree [OF assms(5)] show ?thesis by (auto simp: copy_done_def)
qed

lemma demo_copy_ready: "copy_ready demo_fs ''/h/d'' ''/h/c'' 2"
proof -
  have c: "comps ''/h/d'' = [''h'', ''d'']" "comps ''/h/c'' = [''h'', ''c'']" "clean_abs ''/h/d''" "clean_abs ''/h/c''"
    by (simp_all add: comps_def clean_comps_def clean_step_def IsAbs_def clean_abs_def Clean_def spell_def)
  have "dirs_to demo_fs [''h'', x]" for x
    by (auto simp: dirs_to_def take_Cons dir_at_def demo_nodes demo_dir_def is_dir_def split: nat.splits)
  moreover have "plain_tree demo_fs [''h'', ''d'']"
    by (auto simp: plain_tree_def demo_nodes demo_dir_def demo_file_def is_dir_def is_regular_def dir_at_def
        append_eq_Cons_conv split: if_splits)
  moreover have "tree_depth demo_fs [''h'', ''d''] 2"
    by (auto simp: tree_depth_def demo_nodes split: if_splits)
  ultimately show ?thesis
    using demo_fs_ok by (simp add: copy_ready_def c subtree_def demo_nodes dir_at_def demo_dir_def is_dir_def)
qed

lemma copy_directory_exact_witness:
  "\<exists>m'. fs_Copy 2 (Inr ''/h'') demo_fs ''d'' ''c'' = Some (m', None) \<and>
    map_option kind (node_at m' [''h'', ''c'', ''b'']) = Some (Regular ''two'') \<and>
    node_at m' [''h'', ''a''] = Some (demo_file ''one'')"
proof -
  have r: "resolveOperationPath ''/h'' ''d'' = Inr ''/h/d''" "resolveOperationPath ''/h'' ''c'' = Inr ''/h/c''"
    "comps ''/h/d'' = [''h'', ''d'']" "comps ''/h/c'' = [''h'', ''c'']"
    by (simp_all add: resolveOperationPath_def IsAbs_def Join_def Clean_def comps_def clean_comps_def
        clean_step_def spell_def Rel_def elements_def Let_def)
  have "''/h/c'' = (if dir_at demo_fs (comps ''/h/c'') then Join ''/h/c'' (Base ''/h/d'') else ''/h/c'')"
    by (simp add: r dir_at_def demo_nodes)
  from copy_directory_exact [OF comps_h(2) r(1,2) this demo_copy_ready] obtain m' where
    m: "fs_Copy 2 (Inr ''/h'') demo_fs ''d'' ''c'' = Some (m', None)" "tree_copied demo_fs [''h'', ''d''] [''h'', ''c''] m'"
    by (auto simp: r)
  from m(2) have "node_at m' ([''h'', ''c''] @ [''b'']) = map_option (copied demo_fs) (node_at demo_fs ([''h'', ''d''] @ [''b'']))"
    "node_at m' [''h'', ''a''] = node_at demo_fs [''h'', ''a'']"
    unfolding tree_copied_def by (blast, simp add: subtree_def)
  with m(1) show ?thesis by (simp add: demo_nodes demo_file_def)
qed

end
