(* ===== verification/Browse.thy ===== *)
theory Browse
  imports FileOps "HOL-Library.Multiset"
begin

text \<open>
  The directory browser of the device (\<open>Browse\<close> of \<open>src/fileexplorer.go\<close>): the listing, its order
  and its pages with opaque cursors, and the handler. What the image decoders, \<open>ffmpeg\<close>,
  \<open>encoding/base64\<close>, \<open>strings.ToLower\<close> and \<open>sort.Slice\<close> give is in the record \<open>browse_env\<close>.
\<close>

section \<open>Entries\<close>

record FileEntry =
  fe_Name :: string
  fe_Path :: string
  fe_Type :: string
  fe_Mode :: string
  fe_Size :: int
  fe_Hidden :: bool
  fe_ModTime :: nat
  fe_IsDir :: bool
  fe_IsSymlink :: bool
  fe_LinkTarget :: string
  fe_ItemCount :: "nat option"
  fe_Thumbnail :: string

record FileBrowseResult =
  fr_Path :: string
  fr_HomePath :: string
  fr_ParentPath :: string
  fr_Type :: string
  fr_Mode :: string
  fr_Size :: int
  fr_ModTime :: nat
  fr_IsDir :: bool
  fr_IsSymlink :: bool
  fr_LinkTarget :: string
  fr_Entries :: "FileEntry list"
  fr_NextCursor :: string
  fr_HasMore :: bool

record browse_env =
  be_home :: "string result"
  be_mode_string :: "inode \<Rightarrow> string"
  be_size :: "inode \<Rightarrow> int"
  be_lower :: "string \<Rightarrow> string"
  be_sort :: "(FileEntry \<Rightarrow> FileEntry \<Rightarrow> bool) \<Rightarrow> FileEntry list \<Rightarrow> FileEntry list"
  be_thumbnail :: "fs \<Rightarrow> string \<Rightarrow> string"
  be_video_thumbnail :: "fs \<Rightarrow> string \<Rightarrow> string"
  be_b64encode :: "string \<Rightarrow> string"
  be_b64decode :: "string \<Rightarrow> string result"

definition fileTypeFromInfo :: "inode \<Rightarrow> string" where
  "fileTypeFromInfo info = (case kind info of
     Directory \<Rightarrow> ''directory'' | Regular _ \<Rightarrow> ''file'' | SymlinkTo _ \<Rightarrow> ''symlink'' | Special \<Rightarrow> ''other'')"

text \<open>\<open>Readlink\<close> when the node is a link; an error leaves the target empty.\<close>

definition link_target :: "fs \<Rightarrow> string \<Rightarrow> inode \<Rightarrow> string" where
  "link_target m path info =
     (if is_symlink info then (case os_Readlink m path of Inl _ \<Rightarrow> '''' | Inr t \<Rightarrow> t) else '''')"

definition buildFileEntry :: "browse_env \<Rightarrow> fs \<Rightarrow> string \<Rightarrow> inode \<Rightarrow> FileEntry" where
  "buildFileEntry env m path info =
     \<lparr>fe_Name = Base path, fe_Path = path, fe_Type = fileTypeFromInfo info,
      fe_Mode = be_mode_string env info, fe_Size = be_size env info,
      fe_Hidden = has_prefix (Base path) ''.'', fe_ModTime = mtime info, fe_IsDir = is_dir info,
      fe_IsSymlink = is_symlink info, fe_LinkTarget = link_target m path info,
      fe_ItemCount = None, fe_Thumbnail = ''''\<rparr>"

definition buildFileBrowseResult :: "browse_env \<Rightarrow> fs \<Rightarrow> string \<Rightarrow> string \<Rightarrow> inode \<Rightarrow> FileBrowseResult" where
  "buildFileBrowseResult env m homeDir path info =
     \<lparr>fr_Path = path, fr_HomePath = Clean homeDir,
      fr_ParentPath = (let cleanPath = Clean path; parentPath = Dir cleanPath
                       in if parentPath \<noteq> cleanPath then parentPath else ''''),
      fr_Type = fileTypeFromInfo info, fr_Mode = be_mode_string env info, fr_Size = be_size env info,
      fr_ModTime = mtime info, fr_IsDir = is_dir info, fr_IsSymlink = is_symlink info,
      fr_LinkTarget = link_target m path info, fr_Entries = [], fr_NextCursor = '''', fr_HasMore = False\<rparr>"

section \<open>The order of a listing\<close>

text \<open>The comparison given to \<open>sort.Slice\<close>, and the cursor key that is to order in the same way.\<close>

definition entry_less :: "browse_env \<Rightarrow> FileEntry \<Rightarrow> FileEntry \<Rightarrow> bool" where
  "entry_less env a b =
     (if fe_IsDir a \<noteq> fe_IsDir b then fe_IsDir a
      else be_lower env (fe_Name a) < be_lower env (fe_Name b))"

definition fileEntrySortKey :: "browse_env \<Rightarrow> FileEntry \<Rightarrow> string" where
  "fileEntrySortKey env e =
     (if fe_IsDir e then ''0'' else ''1'') @ char_of (0::nat) # be_lower env (fe_Name e)"

definition encodeBrowseCursor :: "browse_env \<Rightarrow> string \<Rightarrow> string" where
  "encodeBrowseCursor env key = be_b64encode env key"

definition decodeBrowseCursor :: "browse_env \<Rightarrow> string \<Rightarrow> string result" where
  "decodeBrowseCursor env cursor = be_b64decode env cursor"

section \<open>Thumbnails\<close>

definition isImageFile :: "browse_env \<Rightarrow> string \<Rightarrow> bool" where
  "isImageFile env name = (be_lower env (Ext name) \<in> {''.jpg'', ''.jpeg'', ''.png'', ''.gif''})"

definition isVideoFile :: "browse_env \<Rightarrow> string \<Rightarrow> bool" where
  "isVideoFile env name = (be_lower env (Ext name) \<in>
     {''.mp4'', ''.webm'', ''.mov'', ''.avi'', ''.mkv'', ''.ogv'', ''.flv'', ''.wmv''})"

definition maxThumbnailSourceSize :: int where
  "maxThumbnailSourceSize = 20 * 1024 * 1024"

text \<open>The goroutines each fill the field of one entry, so the result is entry by entry.\<close>

definition add_thumbnail :: "browse_env \<Rightarrow> fs \<Rightarrow> FileEntry \<Rightarrow> FileEntry" where
  "add_thumbnail env m e =
     (if fe_IsDir e \<or> fe_IsSymlink e then e
      else if isImageFile env (fe_Name e) \<and> fe_Size e \<le> maxThumbnailSourceSize
      then e\<lparr>fe_Thumbnail := be_thumbnail env m (fe_Path e)\<rparr>
      else if isVideoFile env (fe_Name e)
      then e\<lparr>fe_Thumbnail := be_video_thumbnail env m (fe_Path e)\<rparr>
      else e)"

definition generateThumbnails :: "browse_env \<Rightarrow> fs \<Rightarrow> FileEntry list \<Rightarrow> FileEntry list" where
  "generateThumbnails env m page = map (add_thumbnail env m) page"

text \<open>
  \<open>scaledImage\<close>: the size of the thumbnail and, for every pixel of it, the pixel of the source it
  is taken from. An image is its bounds and its colour function.
\<close>

record 'c image =
  im_minX :: int
  im_minY :: int
  im_w :: int
  im_h :: int
  im_at :: "int \<Rightarrow> int \<Rightarrow> 'c"

definition scaled_size :: "int \<Rightarrow> int \<Rightarrow> int \<Rightarrow> int \<times> int" where
  "scaled_size srcW srcH maxDim =
     (let (dstW, dstH) = (if srcW > srcH then (maxDim, srcH * maxDim div srcW)
                          else (srcW * maxDim div srcH, maxDim))
      in (max 1 dstW, max 1 dstH))"

definition scaledImage :: "'c image \<Rightarrow> int \<Rightarrow> 'c image" where
  "scaledImage src maxDim =
     (if im_w src \<le> maxDim \<and> im_h src \<le> maxDim then src
      else let (dstW, dstH) = scaled_size (im_w src) (im_h src) maxDim in
        \<lparr>im_minX = 0, im_minY = 0, im_w = dstW, im_h = dstH,
         im_at = (\<lambda>x y. im_at src (im_minX src + x * im_w src div dstW) (im_minY src + y * im_h src div dstH))\<rparr>)"

section \<open>Browsing\<close>

definition list_entry :: "browse_env \<Rightarrow> fs \<Rightarrow> string \<Rightarrow> string \<Rightarrow> FileEntry result" where
  "list_entry env m dir name =
     (let entryPath = Join dir name in
      case os_Lstat m entryPath of
        Inl e \<Rightarrow> Inl e
      | Inr (_, info) \<Rightarrow>
          (let fe = buildFileEntry env m entryPath info in
           Inr (if fe_IsDir fe then
                  (case os_ReadDir m entryPath of Inl _ \<Rightarrow> fe | Inr sub \<Rightarrow> fe\<lparr>fe_ItemCount := Some (length sub)\<rparr>)
                else fe)))"

fun list_entries :: "browse_env \<Rightarrow> fs \<Rightarrow> string \<Rightarrow> string list \<Rightarrow> FileEntry list result" where
  "list_entries env m dir [] = Inr []"
| "list_entries env m dir (n # ns) =
     try_result (list_entry env m dir n) (\<lambda>fe. try_result (list_entries env m dir ns) (\<lambda>fes. Inr (fe # fes)))"

text \<open>
  The page of a sorted listing: \<open>start + limit\<close> is computed on 64-bit integers, and slicing with
  an end before the start panics.
\<close>

definition browse_page ::
  "browse_env \<Rightarrow> fs \<Rightarrow> FileBrowseResult \<Rightarrow> FileEntry list \<Rightarrow> nat \<Rightarrow> 64 word \<Rightarrow> go_panic + FileBrowseResult" where
  "browse_page env m result all start limit =
     (let sum = sint (word_of_nat start + limit);
          hasMore = (sint limit > 0 \<and> sum < int (length all));
          end = (if hasMore then sum else int (length all))
      in if end < int start then Inl IndexOutOfRange
         else let page = generateThumbnails env m (take (nat end - start) (drop start all)) in
           Inr (result\<lparr>fr_Entries := page, fr_HasMore := hasMore,
                 fr_NextCursor := (if hasMore then encodeBrowseCursor env (fileEntrySortKey env (last page)) else '''')\<rparr>))"

definition browse_start :: "browse_env \<Rightarrow> FileEntry list \<Rightarrow> string \<Rightarrow> nat result" where
  "browse_start env all cursor =
     (if cursor = [] then Inr 0
      else case decodeBrowseCursor env cursor of
        Inl e \<Rightarrow> Inl (Wrapf ''invalid cursor: '' e)
      | Inr cursorKey \<Rightarrow>
          Inr (sort_Search (length all) (\<lambda>i. cursorKey < fileEntrySortKey env (all ! i))))"

definition Browse_op ::
  "browse_env \<Rightarrow> fs \<Rightarrow> string \<Rightarrow> string \<Rightarrow> 64 word \<Rightarrow> go_panic + FileBrowseResult result" where
  "Browse_op env m pathArg cursor limit = (case be_home env of
     Inl e \<Rightarrow> Inr (Inl (home_error e))
   | Inr homeDir \<Rightarrow> (case resolveBrowsePath homeDir pathArg of
       Inl e \<Rightarrow> Inr (Inl e)
     | Inr resolvedPath \<Rightarrow> (case os_Lstat m resolvedPath of
         Inl e \<Rightarrow> Inr (Inl e)
       | Inr (_, info) \<Rightarrow>
           (let result = buildFileBrowseResult env m homeDir resolvedPath info in
            if \<not> is_dir info then Inr (Inr result)
            else case os_ReadDir m resolvedPath of
              Inl e \<Rightarrow> Inr (Inl e)
            | Inr entries \<Rightarrow> (case list_entries env m resolvedPath (map fst entries) of
                Inl e \<Rightarrow> Inr (Inl e)
              | Inr unsorted \<Rightarrow>
                  (let all = be_sort env (entry_less env) unsorted in
                   case browse_start env all cursor of
                     Inl e \<Rightarrow> Inr (Inl e)
                   | Inr start \<Rightarrow> (case browse_page env m result all start limit of
                       Inl p \<Rightarrow> Inl p
                     | Inr r \<Rightarrow> Inr (Inr r))))))))"

text \<open>
  \<open>handleFileBrowse\<close> of \<open>src/deskconn.go\<close>. Reading the argument object and writing the result
  are \<open>encoding/json\<close>: \<open>unmarshal\<close> and \<open>marshal\<close>.
\<close>

definition handleFileBrowse ::
  "crypto \<Rightarrow> bytes result \<Rightarrow> keyManager \<Rightarrow> (bytes \<Rightarrow> (string \<times> string \<times> 64 word) result) \<Rightarrow>
   (FileBrowseResult \<Rightarrow> bytes result) \<Rightarrow> browse_env \<Rightarrow> invocation \<Rightarrow> fs \<Rightarrow> go_panic + inv_result" where
  "handleFileBrowse cr rnd km unmarshal marshal env iv m = (case open_request cr km unmarshal iv of
     Inl r \<Rightarrow> Inr r
   | Inr (enc, path, cursor, limit) \<Rightarrow> (case Browse_op env m path cursor limit of
       Inl p \<Rightarrow> Inl p
     | Inr (Inl e) \<Rightarrow> Inr (file_error e)
     | Inr (Inr result) \<Rightarrow> Inr (case marshal result of
         Inl e \<Rightarrow> operation_failed e
       | Inr resultBytes \<Rightarrow> seal_result cr rnd enc resultBytes)))"

section \<open>The order of the keys\<close>

lemma key_less_iff: "fileEntrySortKey env a < fileEntrySortKey env b \<longleftrightarrow> entry_less env a b"
  by (auto simp: fileEntrySortKey_def entry_less_def less_char_def)

definition sort_ok :: "browse_env \<Rightarrow> bool" where
  "sort_ok env \<longleftrightarrow> (\<forall>xs. mset (be_sort env (entry_less env) xs) = mset xs \<and>
     sorted_wrt (\<lambda>a b. \<not> entry_less env b a) (be_sort env (entry_less env) xs))"

definition base64_ok :: "browse_env \<Rightarrow> bool" where
  "base64_ok env \<longleftrightarrow> (\<forall>k. be_b64decode env (be_b64encode env k) = Inr k \<and> (k \<noteq> [] \<longrightarrow> be_b64encode env k \<noteq> []))"

abbreviation keys_of :: "browse_env \<Rightarrow> FileEntry list \<Rightarrow> string list" where
  "keys_of env es \<equiv> map (fileEntrySortKey env) es"

lemma sorted_keys:
  assumes "sort_ok env"
  shows "sorted (keys_of env (be_sort env (entry_less env) xs))"
  using assms unfolding sort_ok_def sorted_map key_less_iff [symmetric] not_less by blast

lemma key_not_Nil [simp]: "fileEntrySortKey env e \<noteq> []"
  by (simp add: fileEntrySortKey_def)

text \<open>The cursor of a page resumes right behind the entries with the same key.\<close>

lemma browse_start_at:
  assumes "base64_ok env" "sorted (keys_of env all)" "k \<noteq> []"
  shows "\<exists>st. browse_start env all (encodeBrowseCursor env k) = Inr st \<and> st \<le> length all \<and>
    (\<forall>i < st. fileEntrySortKey env (all ! i) \<le> k) \<and>
    (\<forall>i. st \<le> i \<and> i < length all \<longrightarrow> k < fileEntrySortKey env (all ! i))"
proof -
  let ?f = "\<lambda>i. k < fileEntrySortKey env (all ! i)"
  have mono: "\<forall>i j. i \<le> j \<and> j < length all \<and> ?f i \<longrightarrow> ?f j"
  proof (intro allI impI)
    fix i j assume a: "i \<le> j \<and> j < length all \<and> ?f i"
    then have "keys_of env all ! i \<le> keys_of env all ! j"
      using assms(2) by (intro sorted_nth_mono) auto
    with a show "?f j" by (auto intro: less_le_trans)
  qed
  note S = sort_Search_spec [OF mono]
  have "browse_start env all (encodeBrowseCursor env k) = Inr (sort_Search (length all) ?f)"
    using assms(1,3) by (simp add: browse_start_def base64_ok_def encodeBrowseCursor_def decodeBrowseCursor_def)
  with S show ?thesis by (metis not_le)
qed

lemma browse_start_next:
  assumes "base64_ok env" "sorted_wrt (<) (keys_of env all)" "j < length all"
  shows "browse_start env all (encodeBrowseCursor env (fileEntrySortKey env (all ! j))) = Inr (Suc j)"
proof -
  have inc: "fileEntrySortKey env (all ! i) < fileEntrySortKey env (all ! l)" if "i < l" "l < length all" for i l
    using sorted_wrt_nth_less [OF assms(2), of i l] that by simp
  have "sorted (keys_of env all)" by (rule sorted_wrt_mono_rel [OF _ assms(2)]) simp
  from browse_start_at [OF assms(1) this key_not_Nil, of env "all ! j"]
  obtain st where st: "browse_start env all (encodeBrowseCursor env (fileEntrySortKey env (all ! j))) = Inr st"
    "st \<le> length all" "\<forall>i < st. fileEntrySortKey env (all ! i) \<le> fileEntrySortKey env (all ! j)"
    "\<forall>i. st \<le> i \<and> i < length all \<longrightarrow> fileEntrySortKey env (all ! j) < fileEntrySortKey env (all ! i)"
    by blast
  have "\<not> st \<le> j" using st(4) assms(3) by blast
  moreover have "\<not> Suc j < st"
  proof
    assume s: "Suc j < st"
    then have "fileEntrySortKey env (all ! Suc j) \<le> fileEntrySortKey env (all ! j)" using st(3) by blast
    moreover have "fileEntrySortKey env (all ! j) < fileEntrySortKey env (all ! Suc j)"
      using s st(2) by (intro inc) auto
    ultimately show False by simp
  qed
  ultimately have "st = Suc j" by simp
  with st(1) show ?thesis by simp
qed

text \<open>A page when the sum does not overflow.\<close>

lemma sint_sum:
  assumes "0 < sint limit" "int st + sint limit < 2 ^ 63"
  shows "sint (word_of_nat st + (limit :: 64 word)) = int st + sint limit"
proof -
  have "word_of_nat st + limit = (word_of_int (int st + sint limit) :: 64 word)"
    by simp
  then have "sint (word_of_nat st + limit) = sint (word_of_int (int st + sint limit) :: 64 word)"
    by (simp only:)
  also have "\<dots> = int st + sint limit"
    unfolding sint_sbintrunc' by (rule signed_take_bit_int_eq_self) (use assms in auto)
  finally show ?thesis .
qed

lemma browse_page_ok:
  assumes "0 < sint limit" "int (length all) + sint limit < 2 ^ 63" "st \<le> length all"
  shows "browse_page env m r all st limit = Inr (let n = nat (sint limit);
      page = generateThumbnails env m (take n (drop st all)); more = (st + n < length all) in
    r\<lparr>fr_Entries := page, fr_HasMore := more,
      fr_NextCursor := (if more then encodeBrowseCursor env (fileEntrySortKey env (last page)) else '''')\<rparr>)"
proof -
  have sum: "sint (word_of_nat st + limit) = int st + sint limit"
    using assms by (intro sint_sum) linarith+
  have more: "int st + sint limit < int (length all) \<longleftrightarrow> st + nat (sint limit) < length all"
    using assms(1) by linarith
  show ?thesis
  proof (cases "st + nat (sint limit) < length all")
    case True
    then have "nat (int st + sint limit) - st = nat (sint limit)" using assms(1) by linarith
    with True assms show ?thesis by (simp add: browse_page_def sum more Let_def)
  next
    case False
    then have "take (nat (sint limit)) (drop st all) = take (length all - st) (drop st all)" by simp
    with False assms show ?thesis by (simp add: browse_page_def sum more Let_def)
  qed
qed

lemma sort_key_thumbnail [simp]: "fileEntrySortKey env (add_thumbnail env m e) = fileEntrySortKey env e"
  by (simp add: add_thumbnail_def fileEntrySortKey_def)

section \<open>Paging through a directory\<close>

text \<open>What a browse of an existing directory does before it cuts the page.\<close>

definition listed :: "browse_env \<Rightarrow> fs \<Rightarrow> string \<Rightarrow> FileEntry list \<Rightarrow> FileBrowseResult \<Rightarrow> bool" where
  "listed env m pathArg all result \<longleftrightarrow> (\<exists>homeDir p q info entries unsorted.
     be_home env = Inr homeDir \<and> resolveBrowsePath homeDir pathArg = Inr p \<and> os_Lstat m p = Inr (q, info) \<and>
     is_dir info \<and> os_ReadDir m p = Inr entries \<and> list_entries env m p (map fst entries) = Inr unsorted \<and>
     all = be_sort env (entry_less env) unsorted \<and> result = buildFileBrowseResult env m homeDir p info)"

lemma Browse_listed:
  assumes "listed env m pathArg all result"
  shows "Browse_op env m pathArg cursor limit = (case browse_start env all cursor of
     Inl e \<Rightarrow> Inr (Inl e)
   | Inr st \<Rightarrow> (case browse_page env m result all st limit of Inl p \<Rightarrow> Inl p | Inr r \<Rightarrow> Inr (Inr r)))"
  using assms unfolding listed_def Browse_op_def by (auto simp: Let_def)

text \<open>A client that follows the cursors until there is no more page.\<close>

fun browse_all :: "nat \<Rightarrow> browse_env \<Rightarrow> fs \<Rightarrow> string \<Rightarrow> string \<Rightarrow> 64 word \<Rightarrow> FileEntry list option" where
  "browse_all 0 env m pathArg cursor limit = None"
| "browse_all (Suc k) env m pathArg cursor limit = (case Browse_op env m pathArg cursor limit of
     Inr (Inr r) \<Rightarrow>
       if fr_HasMore r then map_option (\<lambda>es. fr_Entries r @ es) (browse_all k env m pathArg (fr_NextCursor r) limit)
       else Some (fr_Entries r)
   | _ \<Rightarrow> None)"

lemma browse_all_from:
  assumes "listed env m pathArg all result" "base64_ok env" "sorted_wrt (<) (keys_of env all)"
    and "0 < sint limit" "int (length all) + sint limit < 2 ^ 63"
  shows "st \<le> length all \<Longrightarrow> browse_start env all cursor = Inr st \<Longrightarrow> length all - st < k \<Longrightarrow>
    browse_all k env m pathArg cursor limit = Some (generateThumbnails env m (drop st all))"
proof (induction k arbitrary: st cursor)
  case (Suc k)
  let ?n = "nat (sint limit)"
  let ?page = "generateThumbnails env m (take ?n (drop st all))"
  note page = browse_page_ok [OF assms(4,5) Suc.prems(1), of env m result]
  show ?case
  proof (cases "st + ?n < length all")
    case False
    with Suc.prems(2) page show ?thesis
      by (simp add: Browse_listed [OF assms(1)] Let_def generateThumbnails_def)
  next
    case True
    have n: "0 < ?n" using assms(4) by simp
    define j where "j = st + ?n - 1"
    have j: "Suc j = st + ?n" "j < length all" using True n by (simp_all add: j_def)
    have "last (take ?n (drop st all)) = all ! j"
      using True n by (simp add: last_conv_nth j_def min_def)
    then have "fileEntrySortKey env (last ?page) = fileEntrySortKey env (all ! j)"
      using True n by (simp add: generateThumbnails_def last_map)
    then have next_start: "browse_start env all (encodeBrowseCursor env (fileEntrySortKey env (last ?page))) = Inr (st + ?n)"
      using browse_start_next [OF assms(2,3) j(2)] j(1) by simp
    have "browse_all k env m pathArg (encodeBrowseCursor env (fileEntrySortKey env (last ?page))) limit
        = Some (generateThumbnails env m (drop (st + ?n) all))"
      by (rule Suc.IH [OF _ next_start]) (use True n Suc.prems(3) in linarith)+
    moreover have "generateThumbnails env m (drop st all) = ?page @ generateThumbnails env m (drop (st + ?n) all)"
      unfolding generateThumbnails_def map_append [symmetric] by (metis append_take_drop_id drop_drop add.commute)
    ultimately show ?thesis
      using True Suc.prems(2) page by (simp add: Browse_listed [OF assms(1)] Let_def)
  qed
qed simp

text \<open>
  Property C34 (browse_pages_complete): when no two names of a directory are equal up to case, a client
  that follows the cursors with any positive limit receives every entry of the listing exactly
  once, in the listing's order, in a finite number of pages.
\<close>

theorem browse_pages_complete:
  assumes "listed env m pathArg all result" "sort_ok env" "base64_ok env" "distinct (keys_of env all)"
    and "0 < sint limit" "int (length all) + sint limit < 2 ^ 63" "length all < k"
  shows "browse_all k env m pathArg '''' limit = Some (generateThumbnails env m all) \<and> sorted (keys_of env all)"
proof -
  have s: "sorted (keys_of env all)" using assms(1) sorted_keys [OF assms(2)] by (auto simp: listed_def)
  with assms(4) have "sorted_wrt (<) (keys_of env all)" by (simp add: strict_sorted_iff)
  from browse_all_from [OF assms(1,3) this assms(5,6), of 0 "''''" k] assms(7) s show ?thesis
    by (simp add: browse_start_def)
qed

text \<open>
  With a cursor that skips at least one entry, the largest limit
  overflows the end of the page and the slice panics.
\<close>

theorem browse_limit_panics:
  assumes "listed env m pathArg all result" "sort_ok env" "base64_ok env" "all \<noteq> []"
    and "fileEntrySortKey env (hd all) \<le> key" "key \<noteq> []" "length all < 2 ^ 62"
  shows "Browse_op env m pathArg (encodeBrowseCursor env key) (2 ^ 63 - 1) = Inl IndexOutOfRange"
proof -
  have s: "sorted (keys_of env all)" using assms(1) sorted_keys [OF assms(2)] by (auto simp: listed_def)
  obtain st where st: "browse_start env all (encodeBrowseCursor env key) = Inr st" "st \<le> length all"
    "\<forall>i. st \<le> i \<and> i < length all \<longrightarrow> key < fileEntrySortKey env (all ! i)"
    using browse_start_at [OF assms(3) s assms(6)] by blast
  have "st \<noteq> 0"
    using st(3) assms(4,5) by (metis hd_conv_nth le0 length_greater_0_conv not_le)
  then have st1: "1 \<le> st" "st < 2 ^ 62" using st(2) assms(7) by simp_all
  have max: "sint (2 ^ 63 - 1 :: 64 word) = 2 ^ 63 - 1" by simp
  have "sint (word_of_nat st + (2 ^ 63 - 1) :: 64 word) = int st - 1 - 2 ^ 63"
  proof -
    have "(word_of_nat st + (2 ^ 63 - 1) :: 64 word) = word_of_int (int st + (2 ^ 63 - 1))" by simp
    then have "sint (word_of_nat st + (2 ^ 63 - 1) :: 64 word)
        = sint (word_of_int (int st + (2 ^ 63 - 1)) :: 64 word)" by (rule arg_cong)
    also have "\<dots> = (int st + (2 ^ 63 - 1) + 2 ^ (LENGTH(64) - 1)) mod 2 ^ LENGTH(64) - 2 ^ (LENGTH(64) - 1)"
      by (rule int_word_sint)
    also have "(int st + (2 ^ 63 - 1) + 2 ^ (LENGTH(64) - 1)) mod 2 ^ LENGTH(64) = ((int st - 1) + 2 ^ 64) mod 2 ^ 64"
      by (simp add: algebra_simps)
    also have "\<dots> = int st - 1"
      using st1 by (simp only: mod_add_self2) (simp add: mod_pos_pos_trivial)
    finally show ?thesis by simp
  qed
  then have "browse_page env m result all st (2 ^ 63 - 1) = Inl IndexOutOfRange"
    using st1 max by (simp add: browse_page_def Let_def)
  with st(1) show ?thesis by (simp add: Browse_listed [OF assms(1)])
qed

lemma browse_all_behind:
  assumes "listed env m pathArg all result" "base64_ok env" "sorted (keys_of env all)"
    and "0 < sint limit" "int (length all) + sint limit < 2 ^ 63"
  shows "st \<le> length all \<Longrightarrow> browse_start env all cursor = Inr st \<Longrightarrow>
    browse_all k env m pathArg cursor limit = Some es \<Longrightarrow> set es \<subseteq> set (generateThumbnails env m (drop st all))"
proof (induction k arbitrary: st cursor es)
  case (Suc k)
  let ?n = "nat (sint limit)"
  let ?page = "generateThumbnails env m (take ?n (drop st all))"
  note page = browse_page_ok [OF assms(4,5) Suc.prems(1), of env m result]
  have sub: "set ?page \<subseteq> set (generateThumbnails env m (drop st all))"
    unfolding generateThumbnails_def by (auto dest: in_set_takeD)
  show ?case
  proof (cases "st + ?n < length all")
    case False
    with Suc.prems(2,3) page sub show ?thesis
      by (simp add: Browse_listed [OF assms(1)] Let_def)
  next
    case True
    have n: "0 < ?n" using assms(4) by simp
    define j where "j = st + ?n - 1"
    have "last (take ?n (drop st all)) = all ! j"
      using True n by (simp add: last_conv_nth j_def min_def)
    then have key: "fileEntrySortKey env (last ?page) = fileEntrySortKey env (all ! j)"
      using True n by (simp add: generateThumbnails_def last_map)
    obtain st' where st': "browse_start env all (encodeBrowseCursor env (fileEntrySortKey env (last ?page))) = Inr st'"
      "st' \<le> length all"
      "\<forall>i. st' \<le> i \<and> i < length all \<longrightarrow> fileEntrySortKey env (last ?page) < fileEntrySortKey env (all ! i)"
      using browse_start_at [OF assms(2,3) key_not_Nil, of env "last ?page"] by blast
    have "\<not> st' \<le> j" using st'(3) key True n by (auto simp: j_def)
    then have "st \<le> st'" using n by (simp add: j_def)
    then have "set (drop st' all) \<subseteq> set (drop st all)" by (rule set_drop_subset_set_drop)
    then have behind: "set (generateThumbnails env m (drop st' all)) \<subseteq> set (generateThumbnails env m (drop st all))"
      unfolding generateThumbnails_def by auto
    obtain es' where "browse_all k env m pathArg (encodeBrowseCursor env (fileEntrySortKey env (last ?page))) limit = Some es'"
      "es = ?page @ es'"
      using Suc.prems(2,3) page True by (auto simp: Browse_listed [OF assms(1)] Let_def)
    with Suc.IH [OF st'(2,1)] behind sub show ?thesis by auto
  qed
qed simp

text \<open>
  An entry whose name equals, up to case, that of the last entry
  of a page and that is not on the page appears on none of the following pages.
\<close>

theorem browse_skips_equal_names:
  assumes "listed env m pathArg all result" "sort_ok env" "base64_ok env"
    and "0 < sint limit" "int (length all) + sint limit < 2 ^ 63"
    and "Browse_op env m pathArg '''' limit = Inr (Inr r)" "fr_HasMore r"
    and "browse_all k env m pathArg (fr_NextCursor r) limit = Some es" "e \<in> set es"
  shows "fileEntrySortKey env e \<noteq> fileEntrySortKey env (last (fr_Entries r))"
proof -
  have s: "sorted (keys_of env all)" using assms(1) sorted_keys [OF assms(2)] by (auto simp: listed_def)
  from assms(6) browse_page_ok [OF assms(4,5), of 0 env m result]
  have r: "fr_HasMore r \<Longrightarrow> fr_NextCursor r = encodeBrowseCursor env (fileEntrySortKey env (last (fr_Entries r)))"
    by (auto simp: Browse_listed [OF assms(1)] browse_start_def Let_def)
  obtain st where st: "browse_start env all (fr_NextCursor r) = Inr st" "st \<le> length all"
    "\<forall>i. st \<le> i \<and> i < length all \<longrightarrow> fileEntrySortKey env (last (fr_Entries r)) < fileEntrySortKey env (all ! i)"
    using browse_start_at [OF assms(3) s key_not_Nil, of env "last (fr_Entries r)"] r [OF assms(7)] by auto
  have "e \<in> set (generateThumbnails env m (drop st all))"
    using browse_all_behind [OF assms(1,3) s assms(4,5) st(2,1) assms(8)] assms(9) by blast
  then obtain x where x: "e = add_thumbnail env m x" "x \<in> set (drop st all)"
    unfolding generateThumbnails_def by auto
  from x(2) obtain i where "i < length (drop st all)" "drop st all ! i = x"
    unfolding in_set_conv_nth by blast
  with x(1) st(2,3) have "fileEntrySortKey env (last (fr_Entries r)) < fileEntrySortKey env e" by auto
  then show ?thesis by auto
qed

lemma scaled_size_bounds:
  assumes "0 < w" "0 < h" "0 < maxDim" "scaled_size w h maxDim = (dw, dh)"
  shows "1 \<le> dw \<and> dw \<le> maxDim \<and> 1 \<le> dh \<and> dh \<le> maxDim"
proof -
  have div_le: "a * maxDim div b \<le> maxDim" if "0 < a" "a \<le> b" for a b :: int
  proof -
    have "a * maxDim div b \<le> b * maxDim div b" using that assms(3) by (intro zdiv_mono1) auto
    then show ?thesis using that by simp
  qed
  show ?thesis
    using assms div_le [of h w] div_le [of w h] by (auto simp: scaled_size_def Let_def split: if_splits)
qed

lemma pixel_bound: "0 \<le> x \<Longrightarrow> x < (d :: int) \<Longrightarrow> 0 < s \<Longrightarrow> 0 \<le> x * s div d \<and> x * s div d < s"
proof -
  assume a: "0 \<le> x" "x < d" "0 < s"
  then have xs: "x * s < d * s" by (intro mult_strict_right_mono) auto
  have "x * s div d < s"
  proof (rule ccontr)
    assume "\<not> x * s div d < s"
    then have "d * s \<le> d * (x * s div d)" using a by (intro mult_left_mono) auto
    moreover have "d * (x * s div d) \<le> x * s"
      using a mult_div_mod_eq [of d "x * s"] pos_mod_sign [of d "x * s"] by linarith
    ultimately show False using xs by simp
  qed
  with a show ?thesis by (simp add: pos_imp_zdiv_nonneg_iff)
qed

text \<open>
  Property C37 (scaled_image_bounds): a thumbnail is at least one and at most \<open>maxDim\<close> pixels wide and high,
  and each of its pixels is taken from inside the source image.
\<close>

theorem scaled_image_bounds:
  assumes "0 < im_w src" "0 < im_h src" "0 < maxDim"
  shows "let t = scaledImage src maxDim in 1 \<le> im_w t \<and> im_w t \<le> maxDim \<and> 1 \<le> im_h t \<and> im_h t \<le> maxDim \<and>
    (\<forall>x y. 0 \<le> x \<longrightarrow> x < im_w t \<longrightarrow> 0 \<le> y \<longrightarrow> y < im_h t \<longrightarrow>
      (\<exists>dx dy. 0 \<le> dx \<and> dx < im_w src \<and> 0 \<le> dy \<and> dy < im_h src \<and>
         im_at t (im_minX t + x) (im_minY t + y) = im_at src (im_minX src + dx) (im_minY src + dy)))"
proof (cases "im_w src \<le> maxDim \<and> im_h src \<le> maxDim")
  case True
  with assms show ?thesis by (auto simp: scaledImage_def Let_def)
next
  case False
  obtain dw dh where d: "scaled_size (im_w src) (im_h src) maxDim = (dw, dh)" by force
  note bounds = scaled_size_bounds [OF assms d]
  have "\<exists>dx dy. 0 \<le> dx \<and> dx < im_w src \<and> 0 \<le> dy \<and> dy < im_h src \<and>
      im_at src (im_minX src + x * im_w src div dw) (im_minY src + y * im_h src div dh)
        = im_at src (im_minX src + dx) (im_minY src + dy)"
    if "0 \<le> x" "x < dw" "0 \<le> y" "y < dh" for x y
    using pixel_bound [OF that(1,2) assms(1)] pixel_bound [OF that(3,4) assms(2)] by blast
  moreover have "scaledImage src maxDim = \<lparr>im_minX = 0, im_minY = 0, im_w = dw, im_h = dh,
      im_at = (\<lambda>x y. im_at src (im_minX src + x * im_w src div dw) (im_minY src + y * im_h src div dh))\<rparr>"
    using False by (auto simp: scaledImage_def d)
  ultimately show ?thesis using bounds by (simp add: Let_def)
qed

lemma scaled_image_bounds_witness:
  "im_w (scaledImage \<lparr>im_minX = 0, im_minY = 0, im_w = 320, im_h = 2, im_at = (\<lambda>x y. x)\<rparr> 160) = 160 \<and>
   1 \<le> im_h (scaledImage \<lparr>im_minX = 0, im_minY = 0, im_w = 320, im_h = 2, im_at = (\<lambda>x y. x)\<rparr> 160)"
  using scaled_image_bounds [of "\<lparr>im_minX = 0, im_minY = 0, im_w = 320, im_h = 2, im_at = (\<lambda>x y :: int. x)\<rparr>" 160]
  by (simp add: scaledImage_def scaled_size_def Let_def)

section \<open>Examples\<close>

text \<open>
  An environment for the examples: base64 replaced by a tagged copy, insertion sort, lower case for
  the letter \<open>B\<close> only.
\<close>

definition demo_lower :: "string \<Rightarrow> string" where
  "demo_lower s = map (\<lambda>c. if c = CHR ''B'' then CHR ''b'' else c) s"

definition demo_env :: browse_env where
  "demo_env = \<lparr>be_home = Inr ''/h'', be_mode_string = (\<lambda>_. ''''), be_size = (\<lambda>nd. int (node_size nd)),
     be_lower = demo_lower,
     be_sort = (\<lambda>_. sort_key (\<lambda>e. (if fe_IsDir e then ''0'' else ''1'') @ char_of (0::nat) # demo_lower (fe_Name e))),
     be_thumbnail = (\<lambda>_ _. ''''), be_video_thumbnail = (\<lambda>_ _. ''''),
     be_b64encode = (\<lambda>s. CHR ''='' # s), be_b64decode = (\<lambda>s. Inr (tl s))\<rparr>"

lemma demo_key: "fileEntrySortKey demo_env = (\<lambda>e. (if fe_IsDir e then ''0'' else ''1'') @ char_of (0::nat) # demo_lower (fe_Name e))"
  by (rule ext) (simp add: fileEntrySortKey_def demo_env_def)

lemma demo_sort: "be_sort demo_env l xs = sort_key (fileEntrySortKey demo_env) xs"
  by (simp add: demo_key) (simp add: demo_env_def)

lemma demo_sort_ok: "sort_ok demo_env"
  using sorted_sort_key [of "fileEntrySortKey demo_env"]
  by (simp add: sort_ok_def demo_sort sorted_map not_less flip: key_less_iff)

lemma demo_base64_ok: "base64_ok demo_env"
  by (simp add: base64_ok_def demo_env_def)

definition demo_entry :: "string \<Rightarrow> bool \<Rightarrow> int \<Rightarrow> nat option \<Rightarrow> FileEntry" where
  "demo_entry n d sz ic = \<lparr>fe_Name = n, fe_Path = ''/h/'' @ n, fe_Type = (if d then ''directory'' else ''file''),
     fe_Mode = '''', fe_Size = sz, fe_Hidden = False, fe_ModTime = 0, fe_IsDir = d, fe_IsSymlink = False,
     fe_LinkTarget = '''', fe_ItemCount = ic, fe_Thumbnail = ''''\<rparr>"

definition demo_result :: FileBrowseResult where
  "demo_result = buildFileBrowseResult demo_env demo_fs ''/h'' ''/h'' demo_dir"

lemma sort_two: "sort_key f [x, y] = (if f x \<le> f y then [x, y] else [y, x])"
  by (simp add: insort_key.simps)

lemma demo_children: "children demo_fs [''h''] = [''a'', ''d'']" "children demo_fs [''h'', ''d''] = [''b'']"
  by (simp_all add: children_def demo_fs_def)

lemma demo_resolve: "resolveBrowsePath ''/h'' '''' = Inr ''/h''"
  by (simp add: resolveBrowsePath_def Clean_def comps_def clean_comps_def clean_step_def IsAbs_def spell_def)

lemma demo_readdir: "os_ReadDir demo_fs ''/h'' = Inr [(''a'', demo_file ''one''), (''d'', demo_dir)]"
  "os_ReadDir demo_fs ''/h/d'' = Inr [(''b'', demo_file ''two'')]"
  by (simp_all add: os_ReadDir_def stat_at_def resolve_def IsAbs_def demo_nodes demo_children demo_dir_def
      is_dir_def)

lemma demo_listed: "listed demo_env demo_fs '''' [demo_entry ''d'' True 0 (Some 1), demo_entry ''a'' False 3 None] demo_result"
proof -
  have j: "Join ''/h'' ''a'' = ''/h/a''" "Join ''/h'' ''d'' = ''/h/d''" "Base ''/h/a'' = ''a''" "Base ''/h/d'' = ''d''"
    by (simp_all add: Join_def Clean_def comps_def clean_comps_def clean_step_def IsAbs_def spell_def Base_def Let_def)
  have st: "os_Lstat demo_fs ''/h'' = Inr ([''h''], demo_dir)" "os_Lstat demo_fs ''/h/a'' = Inr ([''h'', ''a''], demo_file ''one'')"
    "os_Lstat demo_fs ''/h/d'' = Inr ([''h'', ''d''], demo_dir)"
    by (simp_all add: os_Lstat_def stat_at_def resolve_def IsAbs_def demo_nodes demo_dir_def demo_file_def)
  have "list_entries demo_env demo_fs ''/h'' [''a'', ''d''] = Inr [demo_entry ''a'' False 3 None, demo_entry ''d'' True 0 (Some 1)]"
    by (simp add: list_entry_def j st Let_def buildFileEntry_def demo_readdir fileTypeFromInfo_def link_target_def
        is_symlink_def is_dir_def demo_entry_def)
      (simp add: demo_env_def demo_dir_def demo_file_def node_size_def is_dir_def is_symlink_def)
  moreover have "be_sort demo_env (entry_less demo_env) [demo_entry ''a'' False 3 None, demo_entry ''d'' True 0 (Some 1)]
      = [demo_entry ''d'' True 0 (Some 1), demo_entry ''a'' False 3 None]"
    by (simp add: demo_sort sort_two demo_key demo_entry_def)
  moreover have "be_home demo_env = Inr ''/h''" by (simp add: demo_env_def)
  moreover have "is_dir demo_dir" by (simp add: demo_dir_def is_dir_def)
  ultimately show ?thesis
    unfolding listed_def demo_result_def using demo_resolve st(1) demo_readdir(1) by fastforce
qed

lemma demo_distinct: "distinct (keys_of demo_env [demo_entry ''d'' True 0 (Some 1), demo_entry ''a'' False 3 None])"
  by (simp add: demo_key demo_entry_def)

lemma browse_pages_complete_witness:
  "browse_all 3 demo_env demo_fs '''' '''' 1 =
     Some (generateThumbnails demo_env demo_fs [demo_entry ''d'' True 0 (Some 1), demo_entry ''a'' False 3 None])"
  using browse_pages_complete [OF demo_listed demo_sort_ok demo_base64_ok demo_distinct, of 1 3] by simp

lemma browse_limit_panics_witness:
  "Browse_op demo_env demo_fs '''' (encodeBrowseCursor demo_env (fileEntrySortKey demo_env (demo_entry ''d'' True 0 (Some 1)))) (2 ^ 63 - 1)
     = Inl IndexOutOfRange"
  using browse_limit_panics [OF demo_listed demo_sort_ok demo_base64_ok, of "fileEntrySortKey demo_env (demo_entry ''d'' True 0 (Some 1))"]
  by simp

text \<open>A directory in which two names differ in case only.\<close>

definition demo_case_fs :: fs where
  "demo_case_fs = \<lparr>nodes = [([], demo_dir), ([''h''], demo_dir), ([''h'', ''B''], demo_file ''x''),
      ([''h'', ''b''], demo_file ''y''), ([''h'', ''c''], demo_file ''z'')], cwd = [], umask = 18, clock = 5\<rparr>"

abbreviation "demo_case_all \<equiv> [demo_entry ''B'' False 1 None, demo_entry ''b'' False 1 None, demo_entry ''c'' False 1 None]"

lemma sort_three: "sort_key f [x, y, z] = insort_key f x (insort_key f y [z])"
  by simp

lemma demo_case_listed: "listed demo_env demo_case_fs '''' demo_case_all (buildFileBrowseResult demo_env demo_case_fs ''/h'' ''/h'' demo_dir)"
proof -
  have n: "node_at demo_case_fs q = (if q = [] \<or> q = [''h''] then Some demo_dir
      else if q = [''h'', ''B''] then Some (demo_file ''x'') else if q = [''h'', ''b''] then Some (demo_file ''y'')
      else if q = [''h'', ''c''] then Some (demo_file ''z'') else None)" for q
    by (simp add: node_at_def demo_case_fs_def)
  have j: "Join ''/h'' ''B'' = ''/h/B''" "Join ''/h'' ''b'' = ''/h/b''" "Join ''/h'' ''c'' = ''/h/c''"
      "Base ''/h/B'' = ''B''" "Base ''/h/b'' = ''b''" "Base ''/h/c'' = ''c''"
    by (simp_all add: Join_def Clean_def comps_def clean_comps_def clean_step_def IsAbs_def spell_def Base_def Let_def)
  have st: "os_Lstat demo_case_fs ''/h'' = Inr ([''h''], demo_dir)"
    "os_Lstat demo_case_fs ''/h/B'' = Inr ([''h'', ''B''], demo_file ''x'')"
    "os_Lstat demo_case_fs ''/h/b'' = Inr ([''h'', ''b''], demo_file ''y'')"
    "os_Lstat demo_case_fs ''/h/c'' = Inr ([''h'', ''c''], demo_file ''z'')"
    by (simp_all add: os_Lstat_def stat_at_def resolve_def IsAbs_def n demo_dir_def demo_file_def)
  have c: "children demo_case_fs [''h''] = [''B'', ''b'', ''c'']"
    by (simp add: children_def demo_case_fs_def)
  have r: "os_ReadDir demo_case_fs ''/h'' = Inr [(''B'', demo_file ''x''), (''b'', demo_file ''y''), (''c'', demo_file ''z'')]"
    by (simp add: os_ReadDir_def stat_at_def resolve_def IsAbs_def n c demo_dir_def is_dir_def)
  have "list_entries demo_env demo_case_fs ''/h'' [''B'', ''b'', ''c''] = Inr demo_case_all"
    by (simp add: list_entry_def j st Let_def buildFileEntry_def fileTypeFromInfo_def link_target_def
        is_symlink_def is_dir_def demo_entry_def)
      (simp add: demo_env_def demo_dir_def demo_file_def node_size_def is_dir_def is_symlink_def)
  moreover have "be_sort demo_env (entry_less demo_env) demo_case_all = demo_case_all"
    by (simp only: demo_sort sort_three) (simp add: demo_key demo_entry_def demo_lower_def)
  moreover have "be_home demo_env = Inr ''/h''" by (simp add: demo_env_def)
  moreover have "is_dir demo_dir" by (simp add: demo_dir_def is_dir_def)
  ultimately show ?thesis
    unfolding listed_def using demo_resolve st(1) r by fastforce
qed

lemma demo_case_sorted: "sorted (keys_of demo_env demo_case_all)"
  by (simp add: demo_key demo_entry_def demo_lower_def)

lemma browse_skips_equal_names_witness:
  "\<exists>r. Browse_op demo_env demo_case_fs '''' '''' 1 = Inr (Inr r) \<and> fr_HasMore r \<and>
     fileEntrySortKey demo_env (last (fr_Entries r)) = fileEntrySortKey demo_env (demo_entry ''b'' False 1 None) \<and>
     browse_all 1 demo_env demo_case_fs '''' (fr_NextCursor r) 1 = Some [demo_entry ''c'' False 1 None] \<and>
     fileEntrySortKey demo_env (demo_entry ''c'' False 1 None) \<noteq> fileEntrySortKey demo_env (last (fr_Entries r))"
proof -
  have th: "add_thumbnail demo_env demo_case_fs (demo_entry x False 1 None) = demo_entry x False 1 None" for x
    by (simp add: add_thumbnail_def demo_entry_def) (simp add: demo_env_def)
  define r where "r = (buildFileBrowseResult demo_env demo_case_fs ''/h'' ''/h'' demo_dir)
    \<lparr>fr_Entries := [demo_entry ''B'' False 1 None], fr_HasMore := True,
     fr_NextCursor := encodeBrowseCursor demo_env (fileEntrySortKey demo_env (demo_entry ''B'' False 1 None))\<rparr>"
  note page = browse_page_ok [of 1 demo_case_all _ demo_env demo_case_fs]
  have r: "Browse_op demo_env demo_case_fs '''' '''' 1 = Inr (Inr r)"
    by (simp add: Browse_listed [OF demo_case_listed] browse_start_def page Let_def generateThumbnails_def th r_def)
  have key: "fileEntrySortKey demo_env (demo_entry ''B'' False 1 None) = fileEntrySortKey demo_env (demo_entry ''b'' False 1 None)"
    "fileEntrySortKey demo_env (demo_entry ''B'' False 1 None) < fileEntrySortKey demo_env (demo_entry ''c'' False 1 None)"
    by (simp_all add: demo_key demo_entry_def demo_lower_def)
  obtain st where st: "browse_start demo_env demo_case_all (fr_NextCursor r) = Inr st" "st \<le> 3"
    "\<forall>i < st. fileEntrySortKey demo_env (demo_case_all ! i) \<le> fileEntrySortKey demo_env (demo_entry ''B'' False 1 None)"
    "\<forall>i. st \<le> i \<and> i < 3 \<longrightarrow> fileEntrySortKey demo_env (demo_entry ''B'' False 1 None) < fileEntrySortKey demo_env (demo_case_all ! i)"
    using browse_start_at [OF demo_base64_ok demo_case_sorted key_not_Nil, of demo_env "demo_entry ''B'' False 1 None"]
    by (auto simp: r_def)
  have "st = 2"
    using st(2) spec [OF st(3), of 2] spec [OF st(4), of 0] spec [OF st(4), of 1] key
    by (cases "st = 0"; cases "st = 1"; cases "st = 2") auto
  with st(1) have all: "browse_all 1 demo_env demo_case_fs '''' (fr_NextCursor r) 1 = Some [demo_entry ''c'' False 1 None]"
    by (simp add: Browse_listed [OF demo_case_listed] page Let_def generateThumbnails_def th numeral_eq_Suc)
  have more: "fr_HasMore r" "fr_Entries r = [demo_entry ''B'' False 1 None]" by (simp_all add: r_def)
  from browse_skips_equal_names [OF demo_case_listed demo_sort_ok demo_base64_ok _ _ r more(1) all]
  show ?thesis using r more all key(1) by auto
qed

end
