(* ===== verification/Frames.thy ===== *)
theory Frames
  imports Encryption
begin

text \<open>
  The framing of QUIC file-transfer streams (\<open>src/quictransfer.go\<close>): length-prefixed frames, the
  encrypted messages in them, and the copying of a byte range as a sequence of encrypted frames.
\<close>

section \<open>Byte streams\<close>

text \<open>
  The writing end of a stream: what has been written, and for every call of \<open>Write\<close> the error it
  answers with, if any. The reading end: the bytes still to come and the error behind them
  (\<open>io.EOF\<close> when the peer has closed its side).
\<close>

record sink =
  sk_data :: bytes
  sk_count :: nat
  sk_fail :: "nat \<Rightarrow> go_error option"

record source =
  sr_data :: bytes
  sr_end :: go_error

definition sink_write :: "sink \<Rightarrow> bytes \<Rightarrow> sink \<times> go_error option" where
  "sink_write w b = (case sk_fail w (sk_count w) of
     Some e \<Rightarrow> (w\<lparr>sk_count := Suc (sk_count w)\<rparr>, Some e)
   | None \<Rightarrow> (w\<lparr>sk_data := sk_data w @ b, sk_count := Suc (sk_count w)\<rparr>, None))"

text \<open>\<open>io.ReadFull\<close>: the bytes read, the error and the rest of the stream.\<close>

definition read_full :: "nat \<Rightarrow> source \<Rightarrow> bytes \<times> go_error option \<times> source" where
  "read_full n r = (let d = sr_data r in
     (take n d,
      if n \<le> length d then None
      else Some (if d \<noteq> [] \<and> sr_end r = ErrEOF then ErrUnexpectedEOF else sr_end r),
      r\<lparr>sr_data := drop n d\<rparr>))"

section \<open>Frames\<close>

definition maxMsgSize :: nat where
  "maxMsgSize = 2 ^ 20"

text \<open>\<open>binary.BigEndian.PutUint32\<close> and \<open>Uint32\<close>.\<close>

definition put_u32 :: "u32 \<Rightarrow> bytes" where
  "put_u32 n = map (\<lambda>s. char_of (unat (drop_bit s n) mod 256)) [24, 16, 8, 0]"

definition get_u32 :: "bytes \<Rightarrow> u32" where
  "get_u32 b = foldl (\<lambda>a c. a * 256 + of_nat (of_char c)) 0 b"

definition writeFrame :: "sink \<Rightarrow> bytes \<Rightarrow> sink \<times> go_error option" where
  "writeFrame w data = (case sink_write w (put_u32 (of_nat (length data))) of
     (w', Some e) \<Rightarrow> (w', Some e)
   | (w', None) \<Rightarrow> sink_write w' data)"

definition readFrame :: "source \<Rightarrow> source \<times> bytes result" where
  "readFrame r = (case read_full 4 r of
     (_, Some e, r') \<Rightarrow> (r', Inl e)
   | (b, None, r') \<Rightarrow>
       (let n = unat (get_u32 b) in
        if n > maxMsgSize then (r', Inl (Errorf (''message too large: '' @ dec_nat n @ '' bytes'')))
        else case read_full n r' of
          (_, Some e, r'') \<Rightarrow> (r'', Inl e)
        | (buf, None, r'') \<Rightarrow> (r'', Inr buf)))"

text \<open>Messages; \<open>marshal\<close> and \<open>unmarshal\<close> are \<open>encoding/json\<close> on the message's type.\<close>

definition writeMsg :: "('a \<Rightarrow> bytes result) \<Rightarrow> sink \<Rightarrow> 'a \<Rightarrow> sink \<times> go_error option" where
  "writeMsg marshal w v = (case marshal v of Inl e \<Rightarrow> (w, Some e) | Inr b \<Rightarrow> writeFrame w b)"

definition readMsg :: "(bytes \<Rightarrow> 'a result) \<Rightarrow> source \<Rightarrow> source \<times> 'a result" where
  "readMsg unmarshal r = (case readFrame r of
     (r', Inl e) \<Rightarrow> (r', Inl e) | (r', Inr buf) \<Rightarrow> (r', unmarshal buf))"

definition writeEncryptedMsg ::
  "crypto \<Rightarrow> bytes result \<Rightarrow> ('a \<Rightarrow> bytes result) \<Rightarrow> sink \<Rightarrow> 'a \<Rightarrow> bytes \<Rightarrow> sink \<times> go_error option" where
  "writeEncryptedMsg cr rnd marshal w v key = (case marshal v of
     Inl e \<Rightarrow> (w, Some e)
   | Inr plaintext \<Rightarrow> (case EncryptPayload cr rnd plaintext key of
       Inl e \<Rightarrow> (w, Some e)
     | Inr ciphertext \<Rightarrow> writeFrame w ciphertext))"

definition readEncryptedMsg :: "crypto \<Rightarrow> (bytes \<Rightarrow> 'a result) \<Rightarrow> source \<Rightarrow> bytes \<Rightarrow> source \<times> 'a result" where
  "readEncryptedMsg cr unmarshal r key = (case readFrame r of
     (r', Inl e) \<Rightarrow> (r', Inl e)
   | (r', Inr ciphertext) \<Rightarrow> (case DecryptPayload cr ciphertext key of
       Inl e \<Rightarrow> (r', Inl e)
     | Inr plaintext \<Rightarrow> (r', unmarshal plaintext)))"

section \<open>Encrypted byte ranges\<close>

definition encChunkSize :: int where
  "encChunkSize = 1000000"

text \<open>
  \<open>copyEncrypted\<close>: one round of the loop reads, encrypts and writes a chunk and answers the error
  that ends the copy or the new count of bytes; \<open>rnd k\<close> is the nonce drawn in round \<open>k\<close>. The
  progress display is left out.
\<close>

definition copyEncrypted_round ::
  "crypto \<Rightarrow> bytes result \<Rightarrow> bytes \<Rightarrow> int \<Rightarrow> int \<Rightarrow> sink \<Rightarrow> source \<Rightarrow> sink \<times> source \<times> int result" where
  "copyEncrypted_round cr rnd key n written dst src =
     (let toRead = (if n - written < encChunkSize then n - written else encChunkSize) in
      case read_full (nat toRead) src of (b, rerr, src') \<Rightarrow>
        (case (if b = [] then (dst, Inr written)
               else case EncryptPayload cr rnd b key of
                 Inl e \<Rightarrow> (dst, Inl e)
               | Inr ciphertext \<Rightarrow> (case writeFrame dst ciphertext of
                   (dst', Some e) \<Rightarrow> (dst', Inl e)
                 | (dst', None) \<Rightarrow> (dst', Inr (written + int (length b))))) of
           (dst', Inl e) \<Rightarrow> (dst', src', Inl e)
         | (dst', Inr written') \<Rightarrow>
             (case rerr of Some e \<Rightarrow> (dst', src', Inl e) | None \<Rightarrow> (dst', src', Inr written'))))"

lemma copyEncrypted_round_progress:
  assumes "written < n" "copyEncrypted_round cr rnd key n written dst src = (dst', src', Inr w)"
  shows "written < w"
proof -
  obtain b rerr s where r: "read_full (nat (if n - written < encChunkSize then n - written else encChunkSize)) src = (b, rerr, s)"
    by (metis prod_cases3)
  show ?thesis
  proof (cases rerr)
    case None
    with r have "length b = nat (if n - written < encChunkSize then n - written else encChunkSize)"
      by (auto simp: read_full_def Let_def split: if_splits)
    then have "b \<noteq> []" using assms(1) by (auto simp: encChunkSize_def split: if_splits)
    with assms(2) r None show ?thesis
      by (auto simp: copyEncrypted_round_def Let_def split: sum.splits option.splits prod.splits if_splits)
  next
    case (Some e)
    with assms(2) r show ?thesis
      by (auto simp: copyEncrypted_round_def Let_def split: sum.splits option.splits prod.splits if_splits)
  qed
qed

function copyEncrypted_loop ::
  "crypto \<Rightarrow> (nat \<Rightarrow> bytes result) \<Rightarrow> bytes \<Rightarrow> int \<Rightarrow> nat \<Rightarrow> int \<Rightarrow> sink \<Rightarrow> source \<Rightarrow> sink \<times> source \<times> go_error option" where
  "copyEncrypted_loop cr rnd key n k written dst src =
     (if \<not> written < n then (dst, src, None)
      else case copyEncrypted_round cr (rnd k) key n written dst src of
        (dst', src', Inl e) \<Rightarrow> (dst', src', Some e)
      | (dst', src', Inr written') \<Rightarrow> copyEncrypted_loop cr rnd key n (Suc k) written' dst' src')"
  by pat_completeness auto
termination copyEncrypted_loop
  by (relation "measure (\<lambda>(cr, rnd, key, n, k, written, dst, src). nat (n - written))")
    (auto dest: copyEncrypted_round_progress [OF _ sym])

definition copyEncrypted ::
  "crypto \<Rightarrow> (nat \<Rightarrow> bytes result) \<Rightarrow> sink \<Rightarrow> source \<Rightarrow> int \<Rightarrow> bytes \<Rightarrow> sink \<times> source \<times> go_error option" where
  "copyEncrypted cr rnd dst src n key = copyEncrypted_loop cr rnd key n 0 0 dst src"

text \<open>
  \<open>copyDecrypted\<close>: the destination is any writer, given by what \<open>Write\<close> does to it and answers.
\<close>

function copyDecrypted_loop ::
  "crypto \<Rightarrow> ('w \<Rightarrow> bytes \<Rightarrow> 'w \<times> int \<times> go_error option) \<Rightarrow> bytes \<Rightarrow> int \<Rightarrow> int \<Rightarrow> 'w \<Rightarrow> source \<Rightarrow>
   'w \<times> source \<times> go_error option" where
  "copyDecrypted_loop cr wr key n written dst src =
     (if \<not> written < n then (dst, src, None)
      else case readFrame src of
        (src', Inl e) \<Rightarrow> (dst, src', Some e)
      | (src', Inr ciphertext) \<Rightarrow>
          (case DecryptPayload cr ciphertext key of
             Inl e \<Rightarrow> (dst, src', Some e)
           | Inr plaintext \<Rightarrow>
               (case wr dst plaintext of (dst', wn, werr) \<Rightarrow>
                  (case werr of
                     Some e \<Rightarrow> (dst', src', Some e)
                   | None \<Rightarrow> copyDecrypted_loop cr wr key n (written + wn) dst' src'))))"
  by pat_completeness auto

lemma readFrame_shorter: "readFrame r = (r', Inr b) \<Longrightarrow> length (sr_data r') < length (sr_data r)"
  by (auto simp: readFrame_def read_full_def Let_def split: if_splits)

termination copyDecrypted_loop
  by (relation "measure (\<lambda>(cr, wr, key, n, written, dst, src). length (sr_data src))")
    (auto dest: readFrame_shorter [OF sym])

definition copyDecrypted ::
  "crypto \<Rightarrow> ('w \<Rightarrow> bytes \<Rightarrow> 'w \<times> int \<times> go_error option) \<Rightarrow> 'w \<Rightarrow> source \<Rightarrow> int \<Rightarrow> bytes \<Rightarrow>
   'w \<times> source \<times> go_error option" where
  "copyDecrypted cr wr dst src n key = copyDecrypted_loop cr wr key n 0 dst src"

declare copyEncrypted_loop.simps [simp del] copyDecrypted_loop.simps [simp del]


section \<open>Frames are read back\<close>

lemma bytes_of_u32: "(m::nat) < 2 ^ 32 \<Longrightarrow>
  ((m div 2 ^ 24 mod 256 * 256 + m div 2 ^ 16 mod 256) * 256 + m div 2 ^ 8 mod 256) * 256 + m mod 256 = m"
proof -
  assume "m < 2 ^ 32"
  then have "m div 2 ^ 24 mod 256 = m div 2 ^ 24" by (intro mod_less) simp
  moreover have "m div 2 ^ 24 * 256 + m div 2 ^ 16 mod 256 = m div 2 ^ 16"
    using div_mult_mod_eq [of "m div 2 ^ 16" 256] by (simp add: div_mult2_eq [symmetric])
  moreover have "m div 2 ^ 16 * 256 + m div 2 ^ 8 mod 256 = m div 2 ^ 8"
    using div_mult_mod_eq [of "m div 2 ^ 8" 256] by (simp add: div_mult2_eq [symmetric])
  moreover have "m div 2 ^ 8 * 256 + m mod 256 = m"
    using div_mult_mod_eq [of m 256] by simp
  ultimately show ?thesis by presburger
qed

lemma get_put_u32 [simp]: "get_u32 (put_u32 n) = n"
proof -
  have n: "n = of_nat (unat n)" by simp
  have "get_u32 (put_u32 n) = of_nat (((unat n div 2 ^ 24 mod 256 * 256 + unat n div 2 ^ 16 mod 256) * 256
      + unat n div 2 ^ 8 mod 256) * 256 + unat n mod 256)"
    by (simp add: get_u32_def put_u32_def unat_div flip: drop_bit_eq_div)
      (simp add: drop_bit_eq_div unat_div)
  also have "\<dots> = of_nat (unat n)"
    using unsigned_less [of n, where ?'a = nat] by (subst bytes_of_u32) simp_all
  finally show ?thesis by simp
qed

lemma length_put_u32 [simp]: "length (put_u32 n) = 4"
  by (simp add: put_u32_def)

text \<open>What a frame is on the wire.\<close>

definition frame :: "bytes \<Rightarrow> bytes" where
  "frame data = put_u32 (of_nat (length data)) @ data"

lemma read_full_prefix:
  "length d = n \<Longrightarrow> read_full n \<lparr>sr_data = d @ rest, sr_end = e\<rparr> = (d, None, \<lparr>sr_data = rest, sr_end = e\<rparr>)"
  by (simp add: read_full_def Let_def)

lemma writeFrame_reliable:
  "sk_fail w = (\<lambda>_. None) \<Longrightarrow>
   writeFrame w data = (w\<lparr>sk_data := sk_data w @ frame data, sk_count := sk_count w + 2\<rparr>, None)"
  by (simp add: writeFrame_def sink_write_def frame_def)

text \<open>The length field is the length modulo \<open>2 ^ 32\<close>, and what the reader makes of it.\<close>

lemma readFrame_frame:
  assumes "n = length data mod 2 ^ 32" "n \<le> maxMsgSize"
  shows "readFrame \<lparr>sr_data = frame data @ rest, sr_end = e\<rparr> =
    (\<lparr>sr_data = drop n data @ rest, sr_end = e\<rparr>, Inr (take n data))"
proof -
  have "n \<le> length data" using assms(1) by simp
  then have d: "data @ rest = take n data @ drop n data @ rest" and l: "length (take n data) = n" by simp_all
  have u: "unat (of_nat (length data) :: u32) = n"
    using assms(1) by (simp add: unat_of_nat)
  show ?thesis
    unfolding readFrame_def frame_def append_assoc read_full_prefix [OF length_put_u32]
    using assms(2) by (simp add: u Let_def) (subst d, simp add: read_full_prefix [OF l])
qed

lemma readFrame_exact:
  assumes "length data \<le> maxMsgSize"
  shows "readFrame \<lparr>sr_data = frame data @ rest, sr_end = e\<rparr> = (\<lparr>sr_data = rest, sr_end = e\<rparr>, Inr data)"
proof -
  have "length data mod 2 ^ 32 = length data" using assms by (simp add: maxMsgSize_def)
  with readFrame_frame [of "length data" data rest e] assms show ?thesis by simp
qed

lemma readFrame_too_large:
  assumes "maxMsgSize < length data" "length data < 2 ^ 32"
  shows "readFrame \<lparr>sr_data = frame data @ rest, sr_end = e\<rparr> =
    (\<lparr>sr_data = data @ rest, sr_end = e\<rparr>,
     Inl (Errorf (''message too large: '' @ dec_nat (length data) @ '' bytes'')))"
proof -
  have u: "unat (of_nat (length data) :: u32) = length data"
    using assms(2) by (simp add: unat_of_nat)
  show ?thesis
    unfolding readFrame_def frame_def append_assoc read_full_prefix [OF length_put_u32]
    using assms(1) by (simp add: u Let_def)
qed


section \<open>A byte range is copied exactly\<close>

text \<open>
  \<open>io.NewSectionReader\<close> over a file's bytes and \<open>io.NewOffsetWriter\<close> into one (offsets are
  \<open>int64\<close> values). A write past the end fills the gap with zero bytes.
\<close>

definition negative_offset :: go_error where
  "negative_offset = Errorf ''negative offset''"

definition section_source :: "bytes \<Rightarrow> int \<Rightarrow> int \<Rightarrow> source" where
  "section_source b off n =
     (if off < 0 then \<lparr>sr_data = [], sr_end = (if off < off + n then negative_offset else ErrEOF)\<rparr>
      else \<lparr>sr_data = take (nat n) (drop (nat off) b), sr_end = ErrEOF\<rparr>)"

definition patch_at :: "nat \<Rightarrow> bytes \<Rightarrow> bytes \<Rightarrow> bytes" where
  "patch_at off p b = (if p = [] then b
     else take off (b @ replicate (off - length b) (char_of (0::nat))) @ p @ drop (off + length p) b)"

definition offset_write :: "bytes \<times> int \<Rightarrow> bytes \<Rightarrow> (bytes \<times> int) \<times> int \<times> go_error option" where
  "offset_write w p = (case w of (b, off) \<Rightarrow>
     if off < 0 then (w, 0, Some negative_offset)
     else ((patch_at (nat off) p b, off + int (length p)), int (length p), None))"

text \<open>
  What the copy needs of its destination: every write is taken whole, and the writes add up.
\<close>

locale stream_writer =
  fixes ready :: "'w \<Rightarrow> bool"
    and wr :: "'w \<Rightarrow> bytes \<Rightarrow> 'w \<times> int \<times> go_error option"
    and after :: "'w \<Rightarrow> bytes \<Rightarrow> 'w"
  assumes wr_whole: "ready w \<Longrightarrow> wr w p = (after w p, int (length p), None)"
    and ready_after: "ready w \<Longrightarrow> ready (after w p)"
    and after_nil: "ready w \<Longrightarrow> after w [] = w"
    and after_append: "ready w \<Longrightarrow> after (after w p) q = after w (p @ q)"


lemma patch_at_append:
  "patch_at (off + length p) q (patch_at off p b) = patch_at off (p @ q) b"
proof (cases "p = [] \<or> q = []")
  case True
  then show ?thesis by (auto simp: patch_at_def)
next
  case False
  have l: "length (take off (b @ replicate (off - length b) c)) = off" for c
    by simp
  show ?thesis
    using False by (simp add: patch_at_def l del: length_take take_append) (simp add: ac_simps)
qed

interpretation offset: stream_writer
  "\<lambda>w. 0 \<le> snd w" offset_write "\<lambda>w p. (patch_at (nat (snd w)) p (fst w), snd w + int (length p))"
  by unfold_locales
    (auto simp: offset_write_def patch_at_append [symmetric] nat_add_distrib split: prod.splits,
     simp add: patch_at_def)

text \<open>The frames of a copy: ciphertexts small enough to be read, which open to the chunks.\<close>

definition carries :: "crypto \<Rightarrow> bytes \<Rightarrow> bytes list \<Rightarrow> bytes \<Rightarrow> bool" where
  "carries cr key cts d \<longleftrightarrow> (\<exists>ps. list_all2 (\<lambda>c p. length c \<le> maxMsgSize \<and> DecryptPayload cr c key = Inr p) cts ps \<and>
     [] \<notin> set ps \<and> concat ps = d)"

lemma carries_Nil [simp]: "carries cr key [] []"
  by (simp add: carries_def)

lemma carries_Cons:
  "length c \<le> maxMsgSize \<Longrightarrow> DecryptPayload cr c key = Inr p \<Longrightarrow> p \<noteq> [] \<Longrightarrow> carries cr key cts d \<Longrightarrow>
   carries cr key (c # cts) (p @ d)"
  unfolding carries_def by (elim exE conjE, rule exI [of _ "p # _"]) auto

definition nonces_drawn :: "(nat \<Rightarrow> bytes result) \<Rightarrow> bool" where
  "nonces_drawn rnd \<longleftrightarrow> (\<forall>k. nonce_drawn (rnd k))"

lemma copyEncrypted_round_ok:
  assumes "aead_ok cr" "length key = 32" "nonce_drawn rnd" "sk_fail dst = (\<lambda>_. None)"
    and "int (length d) = n - written" "written < n"
    and "m = (if length d < 1000000 then length d else 1000000)"
  shows "\<exists>c. length c \<le> maxMsgSize \<and> DecryptPayload cr c key = Inr (take m d) \<and>
    copyEncrypted_round cr rnd key n written dst \<lparr>sr_data = d @ rest, sr_end = e\<rparr> =
      (dst\<lparr>sk_data := sk_data dst @ frame c, sk_count := sk_count dst + 2\<rparr>,
       \<lparr>sr_data = drop m d @ rest, sr_end = e\<rparr>, Inr (written + int m))"
proof -
  obtain c where c: "EncryptPayload cr rnd (take m d) key = Inr c"
    using EncryptPayload_total [OF assms(1-3)] by blast
  have m: "nat (if n - written < encChunkSize then n - written else encChunkSize) = m" "m \<le> length d" "0 < m"
    using assms(5-7) by (auto simp: encChunkSize_def)
  have r: "read_full m \<lparr>sr_data = d @ rest, sr_end = e\<rparr> = (take m d, None, \<lparr>sr_data = drop m d @ rest, sr_end = e\<rparr>)"
    using m by (simp add: read_full_def Let_def)
  have ne: "take m d \<noteq> []" using m by auto
  have "length c \<le> maxMsgSize"
    using EncryptPayload_length [OF assms(1-3) c] assms(7) by (auto simp: maxMsgSize_def)
  moreover have "DecryptPayload cr c key = Inr (take m d)"
    by (rule DecryptPayload_Encrypt [OF assms(1-3) c])
  ultimately show ?thesis
    using ne m(2) by (intro exI [of _ c])
      (simp add: copyEncrypted_round_def m(1) r c writeFrame_reliable [OF assms(4)] Let_def)
qed

lemma copyEncrypted_loop_ok:
  assumes "aead_ok cr" "length key = 32" "nonces_drawn rnd"
  shows "sk_fail dst = (\<lambda>_. None) \<Longrightarrow> int (length d) = n - written \<Longrightarrow>
    \<exists>cts. carries cr key cts d \<and>
      copyEncrypted_loop cr rnd key n k written dst \<lparr>sr_data = d @ rest, sr_end = e\<rparr> =
        (dst\<lparr>sk_data := sk_data dst @ concat (map frame cts), sk_count := sk_count dst + 2 * length cts\<rparr>,
         \<lparr>sr_data = rest, sr_end = e\<rparr>, None)"
proof (induction "length d" arbitrary: d k written dst rule: less_induct)
  case less
  show ?case
  proof (cases "d = []")
    case True
    then show ?thesis using less.prems by (intro exI [of _ "[]"]) (simp add: copyEncrypted_loop.simps)
  next
    case False
    define m where "m = (if length d < 1000000 then length d else 1000000)"
    have m: "0 < m" "m \<le> length d" "int (length (drop m d)) = n - (written + int m)" "written < n"
      using False less.prems(2) by (auto simp: m_def simp flip: length_greater_0_conv)
    have nd: "nonce_drawn (rnd k)" using assms(3) by (simp add: nonces_drawn_def)
    from copyEncrypted_round_ok [OF assms(1,2) nd less.prems m(4) m_def, of rest e]
    obtain c where c: "length c \<le> maxMsgSize" "DecryptPayload cr c key = Inr (take m d)"
      "copyEncrypted_round cr (rnd k) key n written dst \<lparr>sr_data = d @ rest, sr_end = e\<rparr> =
        (dst\<lparr>sk_data := sk_data dst @ frame c, sk_count := sk_count dst + 2\<rparr>,
         \<lparr>sr_data = drop m d @ rest, sr_end = e\<rparr>, Inr (written + int m))"
      by (elim exE conjE) (rule that)
    define dst' where "dst' = dst\<lparr>sk_data := sk_data dst @ frame c, sk_count := sk_count dst + 2\<rparr>"
    have "length (drop m d) < length d" "sk_fail dst' = (\<lambda>_. None)"
      using m False less.prems(1) by (simp_all add: dst'_def)
    from less.hyps [OF this m(3), of "Suc k"] obtain cts where cts: "carries cr key cts (drop m d)"
      "copyEncrypted_loop cr rnd key n (Suc k) (written + int m) dst' \<lparr>sr_data = drop m d @ rest, sr_end = e\<rparr> =
        (dst'\<lparr>sk_data := sk_data dst' @ concat (map frame cts), sk_count := sk_count dst' + 2 * length cts\<rparr>,
         \<lparr>sr_data = rest, sr_end = e\<rparr>, None)"
      by blast
    have "carries cr key (c # cts) d"
      using carries_Cons [OF c(1,2) _ cts(1)] m False by simp
    moreover have "copyEncrypted_loop cr rnd key n k written dst \<lparr>sr_data = d @ rest, sr_end = e\<rparr> =
        (dst\<lparr>sk_data := sk_data dst @ concat (map frame (c # cts)), sk_count := sk_count dst + 2 * length (c # cts)\<rparr>,
         \<lparr>sr_data = rest, sr_end = e\<rparr>, None)"
      by (subst copyEncrypted_loop.simps) (use m(4) c(3) cts(2) in \<open>simp add: dst'_def\<close>)
    ultimately show ?thesis by blast
  qed
qed

lemma copyEncrypted_ok:
  assumes "aead_ok cr" "length key = 32" "nonces_drawn rnd" "sk_fail dst = (\<lambda>_. None)"
    and "int (length d) = n"
  obtains cts where "carries cr key cts d"
    "copyEncrypted cr rnd dst \<lparr>sr_data = d @ rest, sr_end = e\<rparr> n key =
      (dst\<lparr>sk_data := sk_data dst @ concat (map frame cts), sk_count := sk_count dst + 2 * length cts\<rparr>,
       \<lparr>sr_data = rest, sr_end = e\<rparr>, None)"
  using copyEncrypted_loop_ok [OF assms(1-4), of d n 0 0 rest e] assms(5)
  unfolding copyEncrypted_def by auto


context stream_writer
begin

lemma copyDecrypted_loop_ok:
  assumes "list_all2 (\<lambda>c p. length c \<le> maxMsgSize \<and> DecryptPayload cr c key = Inr p) cts ps" "[] \<notin> set ps"
    and "ready w" "int (length (concat ps)) = n - written"
  shows "copyDecrypted_loop cr wr key n written w \<lparr>sr_data = concat (map frame cts) @ rest, sr_end = e\<rparr> =
    (after w (concat ps), \<lparr>sr_data = rest, sr_end = e\<rparr>, None)"
  using assms
proof (induction arbitrary: w written rule: list_all2_induct)
  case Nil
  then show ?case by (simp add: copyDecrypted_loop.simps after_nil)
next
  case (Cons c cts p ps)
  have less: "written < n" using Cons.prems by (cases p) auto
  have "copyDecrypted_loop cr wr key n (written + int (length p)) (after w p)
      \<lparr>sr_data = concat (map frame cts) @ rest, sr_end = e\<rparr> =
    (after (after w p) (concat ps), \<lparr>sr_data = rest, sr_end = e\<rparr>, None)"
    by (rule Cons.IH) (use Cons.prems ready_after in auto)
  then show ?case
    by (subst copyDecrypted_loop.simps)
      (use Cons.hyps Cons.prems less in \<open>simp add: readFrame_exact wr_whole after_append\<close>)
qed

lemma copyDecrypted_ok:
  assumes "carries cr key cts d" "ready w" "int (length d) = n"
  shows "copyDecrypted cr wr w \<lparr>sr_data = concat (map frame cts) @ rest, sr_end = e\<rparr> n key =
    (after w d, \<lparr>sr_data = rest, sr_end = e\<rparr>, None)"
proof -
  obtain ps where "list_all2 (\<lambda>c p. length c \<le> maxMsgSize \<and> DecryptPayload cr c key = Inr p) cts ps"
    "[] \<notin> set ps" "concat ps = d"
    using assms(1) unfolding carries_def by blast
  with copyDecrypted_loop_ok [of cr key cts ps w n 0] assms(2,3) show ?thesis
    by (simp add: copyDecrypted_def)
qed

end

text \<open>Reading a range after a patch.\<close>

lemma patch_at_length: "off + length p \<le> length b \<Longrightarrow> length (patch_at off p b) = length b"
  by (auto simp: patch_at_def)

lemma patch_at_nth:
  "off + length p \<le> length b \<Longrightarrow> i < length b \<Longrightarrow>
   patch_at off p b ! i = (if off \<le> i \<and> i < off + length p then p ! (i - off) else b ! i)"
  by (auto simp: patch_at_def nth_append)

section \<open>Properties\<close>

text \<open>
  Property C36 (frame_roundtrip): a message of at most 1 MiB that one side frames onto a working
  stream is what the other side reads, and the reader leaves the rest of the stream untouched.
\<close>

theorem frame_roundtrip:
  assumes "sk_fail w = (\<lambda>_. None)" "length data \<le> maxMsgSize"
  shows "\<exists>wire. writeFrame w data = (w\<lparr>sk_data := sk_data w @ wire, sk_count := sk_count w + 2\<rparr>, None) \<and>
    readFrame \<lparr>sr_data = wire @ rest, sr_end = e\<rparr> = (\<lparr>sr_data = rest, sr_end = e\<rparr>, Inr data)"
  using writeFrame_reliable [OF assms(1)] readFrame_exact [OF assms(2)] by blast

lemma maxMsgSize_value: "maxMsgSize = 1048576"
  by (simp add: maxMsgSize_def)

definition empty_sink :: sink where
  "empty_sink = \<lparr>sk_data = [], sk_count = 0, sk_fail = (\<lambda>_. None)\<rparr>"

theorem frame_roundtrip_witness:
  "\<exists>wire. writeFrame empty_sink ''hi'' = (empty_sink\<lparr>sk_data := wire, sk_count := 2\<rparr>, None) \<and>
    readFrame \<lparr>sr_data = wire @ ''x'', sr_end = ErrEOF\<rparr> = (\<lparr>sr_data = ''x'', sr_end = ErrEOF\<rparr>, Inr ''hi'')"
  using frame_roundtrip [of empty_sink "''hi''" "''x''" ErrEOF]
  by (simp add: empty_sink_def maxMsgSize_value numeral_2_eq_2)

text \<open>
  The writer does not know the reader's limit. A message of more
  than 1 MiB is written without an error, and the reader then refuses it, with its bytes still on
  the stream where the next frame should start.
\<close>

theorem frame_too_large:
  assumes "sk_fail w = (\<lambda>_. None)" "maxMsgSize < length data" "length data < 2 ^ 32"
  shows "\<exists>wire. writeFrame w data = (w\<lparr>sk_data := sk_data w @ wire, sk_count := sk_count w + 2\<rparr>, None) \<and>
    readFrame \<lparr>sr_data = wire @ rest, sr_end = e\<rparr> =
      (\<lparr>sr_data = data @ rest, sr_end = e\<rparr>,
       Inl (Errorf (''message too large: '' @ dec_nat (length data) @ '' bytes'')))"
  using writeFrame_reliable [OF assms(1)] readFrame_too_large [OF assms(2,3)] by blast

theorem frame_too_large_witness:
  "\<exists>wire. writeFrame empty_sink (replicate 1048577 CHR ''a'') = (empty_sink\<lparr>sk_data := wire, sk_count := 2\<rparr>, None) \<and>
    (\<exists>m. snd (readFrame \<lparr>sr_data = wire, sr_end = ErrEOF\<rparr>) = Inl (Errorf m))"
proof -
  have "sk_fail empty_sink = (\<lambda>_. None)" "maxMsgSize < length (replicate 1048577 CHR ''a'')"
    "length (replicate 1048577 CHR ''a'') < 2 ^ 32"
    by (simp_all add: empty_sink_def maxMsgSize_value)
  from frame_too_large [OF this, of "[]" ErrEOF] show ?thesis
  proof (elim exE conjE, intro exI conjI)
    fix wire
    assume "writeFrame empty_sink (replicate 1048577 CHR ''a'') =
      (empty_sink\<lparr>sk_data := sk_data empty_sink @ wire, sk_count := sk_count empty_sink + 2\<rparr>, None)"
    then show "writeFrame empty_sink (replicate 1048577 CHR ''a'') =
      (empty_sink\<lparr>sk_data := wire, sk_count := 2\<rparr>, None)"
      by (simp add: empty_sink_def numeral_2_eq_2)
  qed simp
qed

text \<open>
  Property C30 (stream_copy_exact): a byte range sent with \<open>copyEncrypted\<close> from a section of one
  file and received with \<open>copyDecrypted\<close> into an offset of another puts exactly those bytes
  there, with no error on either side, and consumes exactly the frames that were sent.
\<close>

theorem stream_copy_exact:
  assumes "aead_ok cr" "length key = 32" "nonces_drawn rnd" "sk_fail w = (\<lambda>_. None)"
    and "0 \<le> off" "0 \<le> n" "off + n \<le> int (length b)" "0 \<le> at"
  shows "\<exists>wire j. copyEncrypted cr rnd w (section_source b off n) n key =
      (w\<lparr>sk_data := sk_data w @ wire, sk_count := j\<rparr>, \<lparr>sr_data = [], sr_end = ErrEOF\<rparr>, None) \<and>
    copyDecrypted cr offset_write (dest, at) \<lparr>sr_data = wire @ rest, sr_end = e\<rparr> n key =
      ((patch_at (nat at) (take (nat n) (drop (nat off) b)) dest, at + n), \<lparr>sr_data = rest, sr_end = e\<rparr>, None)"
proof -
  define d where "d = take (nat n) (drop (nat off) b)"
  have l: "int (length d) = n" using assms(5-7) by (auto simp: d_def)
  obtain cts where cts: "carries cr key cts d"
    "copyEncrypted cr rnd w \<lparr>sr_data = d @ [], sr_end = ErrEOF\<rparr> n key =
      (w\<lparr>sk_data := sk_data w @ concat (map frame cts), sk_count := sk_count w + 2 * length cts\<rparr>,
       \<lparr>sr_data = [], sr_end = ErrEOF\<rparr>, None)"
    using copyEncrypted_ok [OF assms(1-4) l, of "[]" ErrEOF] by blast
  have "copyDecrypted cr offset_write (dest, at) \<lparr>sr_data = concat (map frame cts) @ rest, sr_end = e\<rparr> n key =
      ((patch_at (nat at) d dest, at + n), \<lparr>sr_data = rest, sr_end = e\<rparr>, None)"
    using offset.copyDecrypted_ok [OF cts(1) _ l, of "(dest, at)" rest e] assms(8) l by simp
  then show ?thesis
    using cts(2) assms(5) by (auto simp: section_source_def d_def)
qed


theorem stream_copy_exact_witness:
  "\<exists>wire j. copyEncrypted toy_crypto (\<lambda>_. Inr (replicate 12 CHR ''n'')) empty_sink (section_source ''abcdef'' 2 3) 3
      (replicate 32 CHR ''k'') = (empty_sink\<lparr>sk_data := wire, sk_count := j\<rparr>, \<lparr>sr_data = [], sr_end = ErrEOF\<rparr>, None) \<and>
    copyDecrypted toy_crypto offset_write (''........'', 4) \<lparr>sr_data = wire, sr_end = ErrEOF\<rparr> 3 (replicate 32 CHR ''k'') =
      ((''....cde.'', 7), \<lparr>sr_data = [], sr_end = ErrEOF\<rparr>, None)"
  using stream_copy_exact [of toy_crypto "replicate 32 CHR ''k''" "\<lambda>_. Inr (replicate 12 CHR ''n'')" empty_sink 2 3
      "''abcdef''" 4 "''........''" "[]" ErrEOF] toy_crypto_ok
  by (simp add: crypto_ok_def nonces_drawn_def patch_at_def)
    (simp add: empty_sink_def)

end
