(* ===== verification/FileTransfer.thy ===== *)
theory FileTransfer
  imports FileCopy Frames "HOL-Library.Multiset"
begin

text \<open>
  The transport-independent part of file transfers (\<open>src/filetransfer.go\<close>): the request and
  response messages, the manifest of a source, the work queue of byte ranges, the layout of the
  destination, the pool of chunk workers and the two orchestrators. Integers of Go type \<open>int64\<close> are
  integers here, with the wrap-around of additions written out.
\<close>

section \<open>Messages and work items\<close>

definition parallelChunkSize :: int where
  "parallelChunkSize = 4 * 1024 * 1024"

definition parallelStreamWorkers :: int where
  "parallelStreamWorkers = 4"

definition maxStreamWorkers :: int where
  "maxStreamWorkers = 64"

definition effectiveWorkers :: "int \<Rightarrow> int" where
  "effectiveWorkers n =
     (if n \<le> 0 then parallelStreamWorkers else if n > maxStreamWorkers then maxStreamWorkers else n)"

datatype fsOp = fsOpList | fsOpRead | fsOpInit | fsOpWrite | fsOpOther string

record transferManifestEntry =
  me_RelPath :: string
  me_Size :: int
  me_Mode :: u32
  me_IsDir :: bool

record fsRequest =
  rq_Op :: fsOp
  rq_Path :: string
  rq_Recursive :: bool
  rq_RelPath :: string
  rq_Offset :: int
  rq_Length :: int
  rq_Entries :: "transferManifestEntry list"
  rq_SourceIsDir :: bool
  rq_TargetIsDirHint :: bool

record fsResponse =
  rs_OK :: bool
  rs_Err :: string
  rs_Entries :: "transferManifestEntry list"

record transferChunk =
  ch_RelPath :: string
  ch_Offset :: int
  ch_Length :: int

section \<open>The manifest of a source\<close>

text \<open>
  The walk over the source in the order of the names; \<open>None\<close> says that the given depth did not
  suffice. The size the system reports for a directory is not modelled (it is 0 here); nothing
  reads it.
\<close>

definition manifest_entry :: "string \<Rightarrow> string \<Rightarrow> inode \<Rightarrow> transferManifestEntry" where
  "manifest_entry basePath p info = \<lparr>
     me_RelPath = (case Rel basePath p of Inl _ \<Rightarrow> [] | Inr r \<Rightarrow> r),
     me_Size = int (node_size info),
     me_Mode = ucast (and (perm info) 0x1FF),
     me_IsDir = is_dir info\<rparr>"

fun manifest_all ::
  "(string \<Rightarrow> transferManifestEntry list result option) \<Rightarrow> string \<Rightarrow> (string \<times> inode) list
     \<Rightarrow> transferManifestEntry list result option" where
  "manifest_all step p [] = Some (Inr [])"
| "manifest_all step p ((n, nd) # es) = (case step (Join p n) of
     None \<Rightarrow> None
   | Some (Inl e) \<Rightarrow> Some (Inl e)
   | Some (Inr xs) \<Rightarrow> (case manifest_all step p es of
       None \<Rightarrow> None
     | Some (Inl e) \<Rightarrow> Some (Inl e)
     | Some (Inr ys) \<Rightarrow> Some (Inr (xs @ ys))))"

fun manifest_walk :: "nat \<Rightarrow> fs \<Rightarrow> string \<Rightarrow> string \<Rightarrow> transferManifestEntry list result option" where
  "manifest_walk 0 m basePath p = None"
| "manifest_walk (Suc k) m basePath p = (case os_Lstat m p of
     Inl e \<Rightarrow> Some (Inl e)
   | Inr (_, info) \<Rightarrow>
       (if \<not> is_dir info then Some (Inr [manifest_entry basePath p info])
        else case os_ReadDir m p of
          Inl e \<Rightarrow> Some (Inl e)
        | Inr dirEntries \<Rightarrow> (case manifest_all (manifest_walk k m basePath) p dirEntries of
            Some (Inr xs) \<Rightarrow> Some (Inr (manifest_entry basePath p info # xs))
          | r \<Rightarrow> r)))"

definition buildManifest :: "nat \<Rightarrow> fs \<Rightarrow> string \<Rightarrow> bool \<Rightarrow> transferManifestEntry list result option" where
  "buildManifest fuel m rootPath recursive = (case os_Lstat m rootPath of
     Inl e \<Rightarrow> Some (Inl e)
   | Inr (_, info) \<Rightarrow>
       if is_dir info \<and> \<not> recursive then Some (Inl (Errorf (rootPath @ '': is a directory, use -r flag'')))
       else manifest_walk fuel m (Dir rootPath) rootPath)"

section \<open>The work queue\<close>

text \<open>The loop over one entry may not end: then it has no value.\<close>

partial_function (option) chunk_loop :: "string \<Rightarrow> int \<Rightarrow> int \<Rightarrow> transferChunk list option" where
  "chunk_loop rel sz off =
     (if off < sz then
        (let len = (if wrap64 (off + parallelChunkSize) > sz then wrap64 (sz - off) else parallelChunkSize)
         in Option.bind (chunk_loop rel sz (wrap64 (off + parallelChunkSize)))
              (\<lambda>rest. Some (\<lparr>ch_RelPath = rel, ch_Offset = off, ch_Length = len\<rparr> # rest)))
      else Some [])"

fun planChunks :: "transferManifestEntry list \<Rightarrow> transferChunk list option" where
  "planChunks [] = Some []"
| "planChunks (e # es) =
     (if me_IsDir e \<or> me_Size e = 0 then planChunks es
      else Option.bind (chunk_loop (me_RelPath e) (me_Size e) 0)
        (\<lambda>cs. Option.bind (planChunks es) (\<lambda>rest. Some (cs @ rest))))"

definition totalSize :: "transferManifestEntry list \<Rightarrow> int" where
  "totalSize entries = foldl (\<lambda>t e. if me_IsDir e then t else wrap64 (t + me_Size e)) 0 entries"

section \<open>The layout of the destination\<close>

definition isRootDir :: "fs \<Rightarrow> string \<Rightarrow> bool \<Rightarrow> bool \<Rightarrow> bool" where
  "isRootDir m root sourceIsDir targetIsDirHint =
     (if sourceIsDir \<or> targetIsDirHint then True
      else case os_Lstat m root of Inl _ \<Rightarrow> False | Inr (_, info) \<Rightarrow> is_dir info)"

definition TrimPrefix :: "string \<Rightarrow> string \<Rightarrow> string" where
  "TrimPrefix s p = (if has_prefix s p then drop (length p) s else s)"

definition resolveDestPath :: "string \<Rightarrow> bool \<Rightarrow> string \<Rightarrow> string \<Rightarrow> string" where
  "resolveDestPath root rootIsDir sourceRoot relPath =
     (if rootIsDir then Join root relPath else Clean (root @ TrimPrefix relPath sourceRoot))"

text \<open>
  The mode bits a Go \<open>FileMode\<close> hands to the system: the nine permission bits, and its bits 23, 22
  and 20 for set-user-id, set-group-id and sticky.
\<close>

definition syscallMode :: "u32 \<Rightarrow> 12 word" where
  "syscallMode w = or (ucast (and w 0x1FF))
     (or (if bit w 23 then 0x800 else 0) (or (if bit w 22 then 0x400 else 0) (if bit w 20 then 0x200 else 0)))"

definition os_IsPermission :: "go_error \<Rightarrow> bool" where
  "os_IsPermission e = (case e of ErrPermission _ \<Rightarrow> True | _ \<Rightarrow> False)"

definition os_Remove :: "fs \<Rightarrow> string \<Rightarrow> fs \<times> go_error option" where
  "os_Remove m p = (case os_Lstat m p of
     Inl e \<Rightarrow> (m, Some e)
   | Inr (q, info) \<Rightarrow>
       if q = [] \<or> is_dir info \<and> children m q \<noteq> []
       then (m, Some (path_error ''remove'' p (Errorf ''directory not empty'')))
       else (drop_subtree q m, None))"

text \<open>\<open>f.Truncate\<close> on an open descriptor: a regular file is cut or filled with zero bytes.\<close>

definition file_truncate :: "string \<Rightarrow> string list \<Rightarrow> int \<Rightarrow> fs \<Rightarrow> fs \<times> go_error option" where
  "file_truncate p q n m = (case node_at m q of
     None \<Rightarrow> (m, None)
   | Some nd \<Rightarrow> (case kind nd of
       Regular b \<Rightarrow>
         if n < 0 then (m, Some (path_error ''truncate'' p (Errorf ''invalid argument'')))
         else (write_at q (take (nat n) b @ replicate (nat n - length b) (char_of (0::nat))) m, None)
     | _ \<Rightarrow> (m, Some (path_error ''truncate'' p (Errorf ''invalid argument'')))))"

definition materialize_dir :: "fs \<Rightarrow> transferManifestEntry \<Rightarrow> string \<Rightarrow> fs \<times> go_error option" where
  "materialize_dir m e dest =
     os_MkdirAll m dest (syscallMode (or (if me_Mode e = 0 then 0x1ED else me_Mode e) 0x1C0))"

definition materialize_file :: "fs \<Rightarrow> transferManifestEntry \<Rightarrow> string \<Rightarrow> fs \<times> go_error option" where
  "materialize_file m e dest = (case os_MkdirAll m (Dir dest) (syscallMode 0x1ED) of
     (m1, Some err) \<Rightarrow> (m1, Some err)
   | (m1, None) \<Rightarrow>
       (let mode = syscallMode (if me_Mode e = 0 then 0x180 else me_Mode e);
            opened = (case open_trunc m1 dest mode of
              Inl err \<Rightarrow>
                (if os_IsPermission err then
                   (case os_Remove m1 dest of
                      (m2, None) \<Rightarrow> (m2, open_trunc m2 dest mode)
                    | (m2, Some _) \<Rightarrow> (m2, Inl err))
                 else (m1, Inl err))
            | Inr r \<Rightarrow> (m1, Inr r))
        in case opened of
             (m2, Inl err) \<Rightarrow> (m2, Some err)
           | (_, Inr (m3, q)) \<Rightarrow> file_truncate dest q (me_Size e) m3))"

fun materialize_all ::
  "string \<Rightarrow> bool \<Rightarrow> string \<Rightarrow> fs \<Rightarrow> transferManifestEntry list \<Rightarrow> fs \<times> go_error option" where
  "materialize_all root rootIsDir sourceRoot m [] = (m, None)"
| "materialize_all root rootIsDir sourceRoot m (e # es) =
     (let dest = resolveDestPath root rootIsDir sourceRoot (me_RelPath e)
      in case (if me_IsDir e then materialize_dir m e dest else materialize_file m e dest) of
           (m', Some err) \<Rightarrow> (m', Some err)
         | (m', None) \<Rightarrow> materialize_all root rootIsDir sourceRoot m' es)"

definition materializeTargets ::
  "transferManifestEntry list \<Rightarrow> string \<Rightarrow> bool \<Rightarrow> fs \<Rightarrow> fs \<times> go_error option" where
  "materializeTargets entries root rootIsDir m =
     materialize_all root rootIsDir (case entries of [] \<Rightarrow> [] | e # _ \<Rightarrow> me_RelPath e) m entries"


section \<open>The work queue covers a file exactly\<close>

declare chunk_loop.simps [code del]

definition max_plannable :: int where
  "max_plannable = 2 ^ 63 - 4194304"

definition chunk_in :: "int \<Rightarrow> int \<Rightarrow> transferChunk \<Rightarrow> bool" where
  "chunk_in lo hi c \<longleftrightarrow> lo \<le> ch_Offset c \<and> 0 < ch_Length c \<and> ch_Length c \<le> parallelChunkSize \<and>
     ch_Offset c + ch_Length c \<le> hi"

definition before :: "transferChunk \<Rightarrow> transferChunk \<Rightarrow> bool" where
  "before a b \<longleftrightarrow> ch_Offset a + ch_Length a \<le> ch_Offset b"

definition holds_byte :: "transferChunk \<Rightarrow> int \<Rightarrow> bool" where
  "holds_byte c i \<longleftrightarrow> ch_Offset c \<le> i \<and> i < ch_Offset c + ch_Length c"

definition tiles :: "string \<Rightarrow> int \<Rightarrow> int \<Rightarrow> transferChunk list \<Rightarrow> bool" where
  "tiles rel lo hi cs \<longleftrightarrow> (\<forall>c \<in> set cs. ch_RelPath c = rel \<and> chunk_in lo hi c) \<and> sorted_wrt before cs \<and>
     (\<forall>i. lo \<le> i \<and> i < hi \<longrightarrow> (\<exists>c \<in> set cs. holds_byte c i))"

lemma tiles_Cons:
  assumes "lo + len \<le> hi" "0 < len" "len \<le> parallelChunkSize" "tiles rel (lo + len) hi cs"
  shows "tiles rel lo hi (\<lparr>ch_RelPath = rel, ch_Offset = lo, ch_Length = len\<rparr> # cs)"
  using assms unfolding tiles_def
  by (auto simp: chunk_in_def before_def holds_byte_def) (metis linorder_not_le)

lemma chunk_loop_tiles:
  "0 \<le> off \<Longrightarrow> off \<le> sz \<Longrightarrow> sz \<le> max_plannable \<Longrightarrow> \<exists>cs. chunk_loop rel sz off = Some cs \<and> tiles rel off sz cs"
proof (induction "nat (sz - off)" arbitrary: off rule: less_induct)
  case less
  show ?case
  proof (cases "off < sz")
    case False
    with less.prems show ?thesis
      by (subst chunk_loop.simps) (auto simp: tiles_def)
  next
    case True
    have w: "wrap64 (off + parallelChunkSize) = off + parallelChunkSize" "wrap64 (sz - off) = sz - off"
      using True less.prems by (auto intro!: wrap64_id simp: parallelChunkSize_def max_plannable_def)
    show ?thesis
    proof (cases "off + parallelChunkSize > sz")
      case True
      then have "chunk_loop rel sz (off + parallelChunkSize) = Some []"
        by (subst chunk_loop.simps) simp
      moreover have "tiles rel (off + (sz - off)) sz []" by (simp add: tiles_def)
      ultimately show ?thesis
        using True \<open>off < sz\<close> tiles_Cons [of off "sz - off" sz rel "[]"]
        by (subst chunk_loop.simps) (simp add: w)
    next
      case False
      have "nat (sz - (off + parallelChunkSize)) < nat (sz - off)"
        using True by (simp add: parallelChunkSize_def)
      from less.hyps [OF this] False less.prems obtain cs
        where cs: "chunk_loop rel sz (off + parallelChunkSize) = Some cs" "tiles rel (off + parallelChunkSize) sz cs"
        by (auto simp: parallelChunkSize_def)
      have "tiles rel off sz (\<lparr>ch_RelPath = rel, ch_Offset = off, ch_Length = parallelChunkSize\<rparr> # cs)"
        by (rule tiles_Cons) (use False cs(2) in \<open>simp_all add: parallelChunkSize_def\<close>)
      then show ?thesis
        using True False cs(1) by (subst chunk_loop.simps) (simp add: w)
    qed
  qed
qed

text \<open>Above that size the offset wraps around before it reaches the end, and the loop goes on forever.\<close>

definition stuck_at :: "int \<Rightarrow> int \<Rightarrow> bool" where
  "stuck_at sz off \<longleftrightarrow> max_plannable < sz \<and> off mod 4194304 = 0 \<and> - (2 ^ 63) \<le> off \<and> off < 2 ^ 63"

lemma stuck_next: "stuck_at sz off \<Longrightarrow> off < sz \<and> stuck_at sz (wrap64 (off + parallelChunkSize))"
proof -
  assume s: "stuck_at sz off"
  then obtain k where k: "off = 4194304 * k" unfolding stuck_at_def by auto
  with s have b: "- 2199023255552 \<le> k" "k < 2199023255552" "max_plannable < sz"
    by (auto simp: stuck_at_def)
  then have "off < sz" by (simp add: k max_plannable_def)
  moreover have "stuck_at sz (wrap64 (off + parallelChunkSize))"
  proof (cases "k = 2199023255551")
    case True
    then show ?thesis using b(3) by (simp add: k wrap64_def parallelChunkSize_def stuck_at_def)
  next
    case False
    then have "wrap64 (off + parallelChunkSize) = 4194304 * (k + 1)"
      using b by (simp add: wrap64_id k parallelChunkSize_def)
    then show ?thesis using False b by (simp add: stuck_at_def)
  qed
  ultimately show ?thesis by simp
qed

lemma chunk_loop_stuck:
  assumes "stuck_at sz off"
  shows "chunk_loop rel sz off = None"
proof (cases "chunk_loop rel sz off")
  case (Some cs)
  have "\<not> stuck_at sz off"
  proof (rule chunk_loop.raw_induct [of "\<lambda>rel sz off cs. \<not> stuck_at sz off", OF _ Some])
    fix f :: "string \<Rightarrow> int \<Rightarrow> int \<Rightarrow> transferChunk list option" and r s k cs
    assume "\<And>x s' k' cs'. f x s' k' = Some cs' \<Longrightarrow> \<not> stuck_at s' k'"
    moreover assume "(if k < s then let len = if s < wrap64 (k + parallelChunkSize) then wrap64 (s - k) else parallelChunkSize
         in Option.bind (f r s (wrap64 (k + parallelChunkSize)))
              (\<lambda>rest. Some (\<lparr>ch_RelPath = r, ch_Offset = k, ch_Length = len\<rparr> # rest)) else Some []) = Some cs"
    ultimately show "\<not> stuck_at s k"
      by (auto simp: Let_def Option.bind_eq_Some_conv split: if_splits dest: stuck_next)
  qed
  with assms show ?thesis by simp
qed


definition plannable :: "transferManifestEntry list \<Rightarrow> bool" where
  "plannable entries \<longleftrightarrow> distinct (map me_RelPath entries) \<and>
     (\<forall>e \<in> set entries. 0 \<le> me_Size e \<and> me_Size e \<le> max_plannable)"

definition file_span :: "transferManifestEntry \<Rightarrow> int" where
  "file_span e = (if me_IsDir e then 0 else me_Size e)"

definition chunks_of :: "string \<Rightarrow> transferChunk list \<Rightarrow> transferChunk list" where
  "chunks_of rel cs = filter (\<lambda>c. ch_RelPath c = rel) cs"

lemma tiles_all: "tiles rel lo hi cs \<Longrightarrow> chunks_of rel cs = cs"
  by (auto simp: tiles_def chunks_of_def filter_id_conv)

lemma tiles_other: "tiles rel lo hi cs \<Longrightarrow> rel' \<noteq> rel \<Longrightarrow> chunks_of rel' cs = []"
  by (auto simp: tiles_def chunks_of_def filter_empty_conv)

lemma chunks_of_append [simp]: "chunks_of rel (xs @ ys) = chunks_of rel xs @ chunks_of rel ys"
  by (simp add: chunks_of_def)

lemma planChunks_step:
  assumes "0 \<le> me_Size e" "me_Size e \<le> max_plannable" "planChunks es = Some rest"
  shows "\<exists>cs. planChunks (e # es) = Some (cs @ rest) \<and> tiles (me_RelPath e) 0 (file_span e) cs"
proof (cases "me_IsDir e \<or> me_Size e = 0")
  case True
  then have "tiles (me_RelPath e) 0 (file_span e) []" by (auto simp: tiles_def file_span_def)
  with True assms(3) show ?thesis by auto
next
  case False
  with chunk_loop_tiles [of 0 "me_Size e" "me_RelPath e"] assms show ?thesis
    by (auto simp: file_span_def)
qed

lemma planChunks_tiles:
  "plannable entries \<Longrightarrow> \<exists>cs. planChunks entries = Some cs \<and>
     (\<forall>e \<in> set entries. tiles (me_RelPath e) 0 (file_span e) (chunks_of (me_RelPath e) cs)) \<and>
     (\<forall>rel. rel \<notin> me_RelPath ` set entries \<longrightarrow> chunks_of rel cs = [])"
proof (induction entries)
  case Nil
  then show ?case by (simp add: chunks_of_def)
next
  case (Cons e es)
  then obtain rest where rest: "planChunks es = Some rest"
    "\<forall>e \<in> set es. tiles (me_RelPath e) 0 (file_span e) (chunks_of (me_RelPath e) rest)"
    "\<forall>rel. rel \<notin> me_RelPath ` set es \<longrightarrow> chunks_of rel rest = []"
    by (auto simp: plannable_def)
  have e: "0 \<le> me_Size e" "me_Size e \<le> max_plannable" "me_RelPath e \<notin> me_RelPath ` set es"
    using Cons.prems by (simp_all add: plannable_def)
  from planChunks_step [OF e(1,2) rest(1)] obtain cs
    where cs: "planChunks (e # es) = Some (cs @ rest)" "tiles (me_RelPath e) 0 (file_span e) cs" by blast
  have "tiles (me_RelPath x) 0 (file_span x) (chunks_of (me_RelPath x) (cs @ rest))" if "x \<in> set (e # es)" for x
  proof (cases "x = e")
    case True
    with rest(3) e(3) cs(2) show ?thesis by (simp add: tiles_all)
  next
    case False
    then have "x \<in> set es" using that by simp
    moreover from this have "me_RelPath x \<noteq> me_RelPath e" using e(3) by (metis imageI)
    ultimately have "x \<in> set es" "me_RelPath x \<noteq> me_RelPath e" .
    with rest(2) tiles_other [OF cs(2)] show ?thesis by simp
  qed
  moreover have "chunks_of rel (cs @ rest) = []" if "rel \<notin> me_RelPath ` set (e # es)" for rel
    using that rest(3) tiles_other [OF cs(2)] by simp
  ultimately show ?case using cs(1) by blast
qed

text \<open>Writing the bytes of a chunk into the pre-sized file.\<close>

definition put_chunk :: "bytes \<Rightarrow> bytes \<Rightarrow> transferChunk \<Rightarrow> bytes" where
  "put_chunk b acc c =
     patch_at (nat (ch_Offset c)) (take (nat (ch_Length c)) (drop (nat (ch_Offset c)) b)) acc"

lemma put_chunk_nth:
  assumes "chunk_in 0 (int (length b)) c" "length acc = length b"
  shows "length (put_chunk b acc c) = length b"
    "i < length b \<Longrightarrow> put_chunk b acc c ! i = (if holds_byte c (int i) then b ! i else acc ! i)"
proof -
  obtain k l where kl: "ch_Offset c = int k" "ch_Length c = int l"
    using assms(1) by (metis chunk_in_def nonneg_int_cases order_less_imp_le)
  with assms have "k + l \<le> length acc" by (auto simp: chunk_in_def)
  with kl assms(2) show "length (put_chunk b acc c) = length b"
    by (simp add: put_chunk_def patch_at_length)
  show "put_chunk b acc c ! i = (if holds_byte c (int i) then b ! i else acc ! i)" if "i < length b"
    using \<open>k + l \<le> length acc\<close> that assms(2) kl
    by (auto simp: put_chunk_def patch_at_nth holds_byte_def)
qed

lemma put_chunks_nth:
  "\<forall>c \<in> set cs. chunk_in 0 (int (length b)) c \<Longrightarrow> length acc = length b \<Longrightarrow>
   length (foldl (put_chunk b) acc cs) = length b \<and>
   (\<forall>i < length b. foldl (put_chunk b) acc cs ! i =
      (if \<exists>c \<in> set cs. holds_byte c (int i) then b ! i else acc ! i))"
proof (induction cs arbitrary: acc)
  case (Cons c cs)
  then show ?case using put_chunk_nth [of b c acc] by simp
qed simp

lemma tiles_rebuild:
  assumes "tiles rel 0 (int (length b)) cs" "set cs' = set cs" "length acc = length b"
  shows "foldl (put_chunk b) acc cs' = b"
proof -
  have "length (foldl (put_chunk b) acc cs') = length b \<and>
   (\<forall>i < length b. foldl (put_chunk b) acc cs' ! i = (if \<exists>c \<in> set cs'. holds_byte c (int i) then b ! i else acc ! i))"
    by (rule put_chunks_nth) (use assms in \<open>auto simp: tiles_def\<close>)
  with assms show ?thesis by (intro nth_equalityI) (auto simp: tiles_def)
qed


section \<open>The pool of workers\<close>

text \<open>
  A worker opens its stream (\<open>Starting\<close>), waits on the job channel, works on a chunk, and returns
  when the channel is closed or with an error, which it offers to \<open>errCh\<close> before it cancels. The
  channel of jobs has no buffer, so a job passes from the feeding loop to a waiting worker in one
  step. The completed and the failed chunks are recorded for the statements below.
\<close>

datatype worker = Starting | Waiting | Busy transferChunk | Failing | Gone

record pool =
  pl_todo :: "transferChunk list"
  pl_closed :: bool
  pl_cancelled :: bool
  pl_workers :: "worker list"
  pl_errs :: "go_error list"
  pl_done :: "transferChunk list"
  pl_failed :: "transferChunk list"

definition poolWorkers :: "nat \<Rightarrow> int \<Rightarrow> nat" where
  "poolWorkers chunks workers =
     (let w = (if workers < 1 then 1 else workers) in if w > int chunks then chunks else nat w)"

definition start_pool :: "transferChunk list \<Rightarrow> int \<Rightarrow> pool" where
  "start_pool chunks workers = \<lparr>pl_todo = chunks, pl_closed = False, pl_cancelled = False,
     pl_workers = replicate (poolWorkers (length chunks) workers) Starting,
     pl_errs = [], pl_done = [], pl_failed = []\<rparr>"

definition set_worker :: "nat \<Rightarrow> worker \<Rightarrow> pool \<Rightarrow> pool" where
  "set_worker i w p = p\<lparr>pl_workers := (pl_workers p)[i := w]\<rparr>"

definition offer_err :: "go_error \<Rightarrow> pool \<Rightarrow> pool" where
  "offer_err e p = (if length (pl_errs p) < length (pl_workers p) then p\<lparr>pl_errs := pl_errs p @ [e]\<rparr> else p)"

definition worker_at :: "pool \<Rightarrow> nat \<Rightarrow> worker \<Rightarrow> bool" where
  "worker_at p i w \<longleftrightarrow> i < length (pl_workers p) \<and> pl_workers p ! i = w"

inductive pool_step :: "pool \<Rightarrow> pool \<Rightarrow> bool" where
  opened: "worker_at p i Starting \<Longrightarrow> pool_step p (set_worker i Waiting p)"
| not_opened: "worker_at p i Starting \<Longrightarrow> pool_step p (offer_err e (set_worker i Failing p))"
| job_taken: "worker_at p i Waiting \<Longrightarrow> \<not> pl_closed p \<Longrightarrow> pl_todo p = c # cs \<Longrightarrow>
    pool_step p (set_worker i (Busy c) (p\<lparr>pl_todo := cs\<rparr>))"
| job_ok: "worker_at p i (Busy c) \<Longrightarrow> pool_step p (set_worker i Waiting (p\<lparr>pl_done := pl_done p @ [c]\<rparr>))"
| job_err: "worker_at p i (Busy c) \<Longrightarrow>
    pool_step p (offer_err e (set_worker i Failing (p\<lparr>pl_failed := pl_failed p @ [c]\<rparr>)))"
| cancels: "worker_at p i Failing \<Longrightarrow> pool_step p (set_worker i Gone (p\<lparr>pl_cancelled := True\<rparr>))"
| jobs_closed: "\<not> pl_closed p \<Longrightarrow> pl_todo p = [] \<or> pl_cancelled p \<Longrightarrow> pool_step p (p\<lparr>pl_closed := True\<rparr>)"
| leaves: "worker_at p i Waiting \<Longrightarrow> pl_closed p \<Longrightarrow> pool_step p (set_worker i Gone p)"

definition pool_finished :: "pool \<Rightarrow> bool" where
  "pool_finished p \<longleftrightarrow> pl_closed p \<and> (\<forall>w \<in> set (pl_workers p). w = Gone)"

text \<open>What \<open>runChunkWorkers\<close> returns once the workers are done.\<close>

definition pool_result :: "pool \<Rightarrow> go_error option" where
  "pool_result p = (case pl_errs p of [] \<Rightarrow> None | e # _ \<Rightarrow> Some e)"

subsection \<open>Every job is accounted for\<close>

fun job_of :: "worker \<Rightarrow> transferChunk multiset" where
  "job_of (Busy c) = {#c#}"
| "job_of _ = {#}"

definition jobs_held :: "pool \<Rightarrow> transferChunk multiset" where
  "jobs_held p = (\<Sum>w \<in># mset (pl_workers p). job_of w)"

lemma jobs_held_set:
  "worker_at p i w \<Longrightarrow> jobs_held (set_worker i w' p) + job_of w = jobs_held p + job_of w'"
proof -
  assume "worker_at p i w"
  then obtain us vs where "pl_workers p = us @ w # vs" "i = length us"
    unfolding worker_at_def by (metis id_take_nth_drop length_take min.absorb2 min.commute order_less_imp_le)
  then show ?thesis by (simp add: jobs_held_def set_worker_def)
qed

lemma jobs_held_offer [simp]: "jobs_held (offer_err e p) = jobs_held p"
  by (simp add: jobs_held_def offer_err_def)

lemma set_worker_simps [simp]:
  "pl_todo (set_worker i w p) = pl_todo p" "pl_closed (set_worker i w p) = pl_closed p"
  "pl_cancelled (set_worker i w p) = pl_cancelled p" "pl_errs (set_worker i w p) = pl_errs p"
  "pl_done (set_worker i w p) = pl_done p" "pl_failed (set_worker i w p) = pl_failed p"
  "pl_workers (set_worker i w p) = (pl_workers p)[i := w]"
  by (simp_all add: set_worker_def)

lemma offer_err_simps [simp]:
  "pl_todo (offer_err e p) = pl_todo p" "pl_closed (offer_err e p) = pl_closed p"
  "pl_cancelled (offer_err e p) = pl_cancelled p" "pl_workers (offer_err e p) = pl_workers p"
  "pl_done (offer_err e p) = pl_done p" "pl_failed (offer_err e p) = pl_failed p"
  by (simp_all add: offer_err_def)

lemma offer_err_some: "pl_workers p \<noteq> [] \<Longrightarrow> pl_errs (offer_err e p) \<noteq> []"
  by (auto simp: offer_err_def)

lemma jobs_held_update [simp]:
  "jobs_held (p\<lparr>pl_todo := t\<rparr>) = jobs_held p" "jobs_held (p\<lparr>pl_done := d\<rparr>) = jobs_held p"
  "jobs_held (p\<lparr>pl_failed := d\<rparr>) = jobs_held p" "jobs_held (p\<lparr>pl_cancelled := b\<rparr>) = jobs_held p"
  "jobs_held (p\<lparr>pl_closed := b\<rparr>) = jobs_held p"
  by (simp_all add: jobs_held_def)

lemma worker_at_update [simp]:
  "worker_at (p\<lparr>pl_todo := t\<rparr>) i w = worker_at p i w" "worker_at (p\<lparr>pl_done := d\<rparr>) i w = worker_at p i w"
  "worker_at (p\<lparr>pl_failed := d\<rparr>) i w = worker_at p i w" "worker_at (p\<lparr>pl_cancelled := b\<rparr>) i w = worker_at p i w"
  by (simp_all add: worker_at_def)

lemma worker_at_mem: "worker_at p i w \<Longrightarrow> w \<in> set (pl_workers p)"
  by (auto simp: worker_at_def)

lemma pool_jobs_kept:
  "pool_step p p' \<Longrightarrow> mset (pl_todo p') + jobs_held p' + mset (pl_done p') + mset (pl_failed p') =
     mset (pl_todo p) + jobs_held p + mset (pl_done p) + mset (pl_failed p)"
proof (induction rule: pool_step.induct)
  case (opened p i)
  with jobs_held_set [of p i Starting Waiting] show ?case by simp
next
  case (not_opened p i e)
  with jobs_held_set [of p i Starting Failing] show ?case by simp
next
  case (job_taken p i c cs)
  with jobs_held_set [of "p\<lparr>pl_todo := cs\<rparr>" i Waiting "Busy c"] show ?case by simp
next
  case (job_ok p i c)
  with jobs_held_set [of "p\<lparr>pl_done := pl_done p @ [c]\<rparr>" i "Busy c" Waiting] show ?case by simp
next
  case (job_err p i c e)
  with jobs_held_set [of "p\<lparr>pl_failed := pl_failed p @ [c]\<rparr>" i "Busy c" Failing] show ?case by simp
next
  case (cancels p i)
  with jobs_held_set [of "p\<lparr>pl_cancelled := True\<rparr>" i Failing Gone] show ?case by simp
next
  case (leaves p i)
  with jobs_held_set [of p i Waiting Gone] show ?case by simp
qed simp

definition pool_flags :: "pool \<Rightarrow> bool" where
  "pool_flags p \<longleftrightarrow> pl_workers p \<noteq> [] \<and>
     (pl_cancelled p \<or> pl_failed p \<noteq> [] \<or> Failing \<in> set (pl_workers p) \<longrightarrow> pl_errs p \<noteq> []) \<and>
     (pl_errs p \<noteq> [] \<longrightarrow> pl_cancelled p \<or> Failing \<in> set (pl_workers p)) \<and>
     (pl_closed p \<longrightarrow> pl_todo p = [] \<or> pl_cancelled p) \<and>
     (Gone \<in> set (pl_workers p) \<longrightarrow> pl_closed p \<or> pl_cancelled p)"

lemma update_keeps:
  "worker_at p i w \<Longrightarrow> v \<noteq> w \<Longrightarrow> v \<in> set (pl_workers p) \<Longrightarrow> v \<in> set ((pl_workers p)[i := w'])"
  unfolding worker_at_def by (auto simp: in_set_conv_nth nth_list_update)

lemma update_adds: "worker_at p i w \<Longrightarrow> w' \<in> set ((pl_workers p)[i := w'])"
  by (auto simp: worker_at_def set_update_memI)

lemma update_mem: "v \<in> set ((pl_workers p)[i := w']) \<Longrightarrow> v = w' \<or> v \<in> set (pl_workers p)"
  by (auto dest: set_update_subset_insert [THEN subsetD])

lemma pool_flags_step: "pool_step p p' \<Longrightarrow> pool_flags p \<Longrightarrow> pool_flags p'"
  by (induction rule: pool_step.induct)
    (auto simp: pool_flags_def offer_err_some dest: update_mem worker_at_mem intro: update_keeps update_adds)

lemma pool_flags_start: "chunks \<noteq> [] \<Longrightarrow> pool_flags (start_pool chunks n)"
  by (auto simp: pool_flags_def start_pool_def poolWorkers_def Let_def)

abbreviation pool_run :: "pool \<Rightarrow> pool \<Rightarrow> bool" where
  "pool_run \<equiv> pool_step\<^sup>*\<^sup>*"

lemma pool_flags_run: "pool_run p p' \<Longrightarrow> pool_flags p \<Longrightarrow> pool_flags p'"
  by (induction rule: rtranclp_induct) (auto intro: pool_flags_step)

lemma pool_jobs_run:
  "pool_run p p' \<Longrightarrow> mset (pl_todo p') + jobs_held p' + mset (pl_done p') + mset (pl_failed p') =
     mset (pl_todo p) + jobs_held p + mset (pl_done p) + mset (pl_failed p)"
  by (induction rule: rtranclp_induct) (auto dest: pool_jobs_kept)

lemma jobs_held_idle: "\<forall>w \<in> set (pl_workers p). job_of w = {#} \<Longrightarrow> jobs_held p = {#}"
  by (simp add: jobs_held_def)

lemma start_pool_jobs:
  "mset (pl_todo (start_pool cs n)) + jobs_held (start_pool cs n) + mset (pl_done (start_pool cs n)) +
     mset (pl_failed (start_pool cs n)) = mset cs"
proof -
  have "jobs_held (start_pool cs n) = {#}" by (rule jobs_held_idle) (simp add: start_pool_def)
  then show ?thesis by (simp add: start_pool_def)
qed

subsection \<open>The pool always finishes\<close>

fun worker_work :: "worker \<Rightarrow> nat" where
  "worker_work Starting = 3"
| "worker_work Waiting = 2"
| "worker_work (Busy c) = 4"
| "worker_work Failing = 1"
| "worker_work Gone = 0"

definition pool_work :: "pool \<Rightarrow> nat" where
  "pool_work p = 3 * length (pl_todo p) + sum_list (map worker_work (pl_workers p)) + (if pl_closed p then 0 else 1)"

lemma work_set:
  "worker_at p i w \<Longrightarrow> sum_list (map worker_work ((pl_workers p)[i := w'])) + worker_work w =
     sum_list (map worker_work (pl_workers p)) + worker_work w'"
proof -
  assume "worker_at p i w"
  then obtain us vs where "pl_workers p = us @ w # vs" "i = length us"
    unfolding worker_at_def by (metis id_take_nth_drop length_take min.absorb2 min.commute order_less_imp_le)
  then show ?thesis by simp
qed

lemma pool_work_decreases: "pool_step p p' \<Longrightarrow> pool_work p' < pool_work p"
proof (induction rule: pool_step.induct)
  case (opened p i)
  with work_set [of p i Starting Waiting] show ?case by (simp add: pool_work_def)
next
  case (not_opened p i e)
  with work_set [of p i Starting Failing] show ?case by (simp add: pool_work_def)
next
  case (job_taken p i c cs)
  with work_set [of p i Waiting "Busy c"] show ?case by (simp add: pool_work_def)
next
  case (job_ok p i c)
  with work_set [of p i "Busy c" Waiting] show ?case by (simp add: pool_work_def)
next
  case (job_err p i c e)
  with work_set [of p i "Busy c" Failing] show ?case by (simp add: pool_work_def)
next
  case (cancels p i)
  with work_set [of p i Failing Gone] show ?case by (simp add: pool_work_def)
next
  case (leaves p i)
  with work_set [of p i Waiting Gone] show ?case by (simp add: pool_work_def)
qed (simp add: pool_work_def)

lemma pool_not_stuck:
  assumes "pool_flags p" "\<not> pool_finished p"
  shows "\<exists>p'. pool_step p p'"
proof (cases "\<forall>w \<in> set (pl_workers p). w = Gone")
  case True
  then have "Gone \<in> set (pl_workers p)" using assms(1) by (cases "pl_workers p") (auto simp: pool_flags_def)
  then have "\<not> pl_closed p" "pl_cancelled p"
    using assms True by (auto simp: pool_finished_def pool_flags_def)
  then show ?thesis by (blast intro: jobs_closed)
next
  case False
  then obtain i where i: "i < length (pl_workers p)" "pl_workers p ! i \<noteq> Gone"
    by (metis in_set_conv_nth)
  then consider "worker_at p i Starting" | "worker_at p i Waiting" | c where "worker_at p i (Busy c)" | "worker_at p i Failing"
    unfolding worker_at_def by (cases "pl_workers p ! i") auto
  then show ?thesis
  proof cases
    case 2
    then show ?thesis
      by (cases "pl_closed p"; cases "pl_todo p") (blast intro: leaves jobs_closed job_taken)+
  qed (blast intro: opened job_ok cancels)+
qed

lemma pool_reaches_finish:
  "pool_flags p \<Longrightarrow> \<exists>p'. pool_run p p' \<and> pool_finished p'"
proof (induction "pool_work p" arbitrary: p rule: less_induct)
  case less
  show ?case
  proof (cases "pool_finished p")
    case False
    with pool_not_stuck less.prems obtain q where q: "pool_step p q" by blast
    from less.hyps [OF pool_work_decreases [OF q] pool_flags_step [OF q less.prems]] q
    show ?thesis by (meson converse_rtranclp_into_rtranclp)
  qed auto
qed

lemma pool_run_bound: "(pool_step ^^ n) p p' \<Longrightarrow> n + pool_work p' \<le> pool_work p"
  by (induction n arbitrary: p') (fastforce dest: pool_work_decreases)+


section \<open>Progress display\<close>

text \<open>
  The counters of a transfer and the lines printed (bytes done, total, nanoseconds since the
  start). An update is one atomic step here: the compare-and-swap lets one of several workers that
  read the same \<open>lastPrint\<close> print. Times are in nanoseconds.
\<close>

definition progressPrintInterval :: int where
  "progressPrintInterval = 100 * 1000 * 1000"

record transferProgress =
  tp_name :: string
  tp_total :: int
  tp_start :: int
  tp_done :: int
  tp_lastPrint :: int
  tp_lines :: "(int \<times> int \<times> int) list"

definition newTransferProgress :: "string \<Rightarrow> int \<Rightarrow> int \<Rightarrow> transferProgress" where
  "newTransferProgress nm n now = \<lparr>tp_name = nm, tp_total = n, tp_start = now, tp_done = 0,
     tp_lastPrint = now, tp_lines = [(0, n, 0)]\<rparr>"

definition progress_add :: "int \<Rightarrow> int \<Rightarrow> transferProgress \<Rightarrow> transferProgress" where
  "progress_add n now p0 =
     (let p = p0\<lparr>tp_done := wrap64 (tp_done p0 + n)\<rparr>
      in if now - tp_lastPrint p < progressPrintInterval then p
         else p\<lparr>tp_lastPrint := now, tp_lines := tp_lines p @ [(tp_done p, tp_total p, now - tp_start p)]\<rparr>)"

definition progress_finish :: "go_error option \<Rightarrow> int \<Rightarrow> transferProgress \<Rightarrow> transferProgress" where
  "progress_finish err now p =
     p\<lparr>tp_lines := tp_lines p @ [((case err of None \<Rightarrow> tp_total p | Some _ \<Rightarrow> tp_done p), tp_total p, now - tp_start p)]\<rparr>"

section \<open>The orchestrators\<close>

text \<open>
  \<open>listFn\<close> and \<open>initFn\<close> are the one-shot requests; \<open>run\<close> is \<open>runChunkWorkers\<close> on the workers the
  transport builds, with its effect on the local file system. \<open>None\<close>: the call does not return.
\<close>

definition downloadFiles ::
  "(fsRequest \<Rightarrow> fsResponse result) \<Rightarrow>
   (string \<Rightarrow> bool \<Rightarrow> transferChunk list \<Rightarrow> int \<Rightarrow> fs \<Rightarrow> fs \<times> go_error option) \<Rightarrow>
   string \<Rightarrow> string \<Rightarrow> bool \<Rightarrow> int \<Rightarrow> fs \<Rightarrow> (fs \<times> go_error option) option" where
  "downloadFiles listFn run remotePath localPath recursive numWorkers m =
     (case listFn \<lparr>rq_Op = fsOpList, rq_Path = remotePath, rq_Recursive = recursive, rq_RelPath = [],
          rq_Offset = 0, rq_Length = 0, rq_Entries = [], rq_SourceIsDir = False, rq_TargetIsDirHint = False\<rparr> of
        Inl e \<Rightarrow> Some (m, Some e)
      | Inr resp \<Rightarrow> (case rs_Entries resp of
          [] \<Rightarrow> Some (m, Some (Errorf (remotePath @ '': no such file or directory'')))
        | first # rest \<Rightarrow>
            (let entries = first # rest;
                 localIsDir = isRootDir m localPath (me_IsDir first) False
             in case materializeTargets entries localPath localIsDir m of
                  (m1, Some e) \<Rightarrow> Some (m1, Some e)
                | (m1, None) \<Rightarrow> (case planChunks entries of
                    None \<Rightarrow> None
                  | Some chunks \<Rightarrow>
                      if totalSize entries = 0 then Some (m1, None)
                      else Some (run (me_RelPath first) localIsDir chunks (effectiveWorkers numWorkers) m1)))))"

definition uploadFiles ::
  "nat \<Rightarrow> (fsRequest \<Rightarrow> 'r \<Rightarrow> 'r \<times> fsResponse result) \<Rightarrow>
   (bool \<Rightarrow> bool \<Rightarrow> transferChunk list \<Rightarrow> int \<Rightarrow> 'r \<Rightarrow> 'r \<times> go_error option) \<Rightarrow>
   string \<Rightarrow> string \<Rightarrow> bool \<Rightarrow> int \<Rightarrow> fs \<Rightarrow> 'r \<Rightarrow> ('r \<times> go_error option) option" where
  "uploadFiles fuel initFn run localPath remotePath recursive numWorkers m r =
     (case buildManifest fuel m localPath recursive of
        None \<Rightarrow> None
      | Some (Inl e) \<Rightarrow> Some (r, Some e)
      | Some (Inr entries) \<Rightarrow>
          (let sourceIsDir = me_IsDir (hd entries);
               targetIsDirHint = (remotePath \<noteq> [] \<and> last remotePath = sep \<or> Base remotePath = ''.'' \<or> Base remotePath = ''..'')
           in case initFn \<lparr>rq_Op = fsOpInit, rq_Path = remotePath, rq_Recursive = False, rq_RelPath = [],
                  rq_Offset = 0, rq_Length = 0, rq_Entries = entries, rq_SourceIsDir = sourceIsDir,
                  rq_TargetIsDirHint = targetIsDirHint\<rparr> r of
                (r1, Inl e) \<Rightarrow> Some (r1, Some e)
              | (r1, Inr _) \<Rightarrow> (case planChunks entries of
                  None \<Rightarrow> None
                | Some chunks \<Rightarrow>
                    if totalSize entries = 0 then Some (r1, None)
                    else Some (run sourceIsDir targetIsDirHint chunks (effectiveWorkers numWorkers) r1))))"


section \<open>Properties\<close>

text \<open>
  Property C28 (chunks_rebuild_file): for a manifest with distinct names and sizes up to
  \<open>2 ^ 63 - 4 MiB\<close> the plan exists; the byte ranges of a file lie inside it, do not overlap and hold
  at most 4 MiB each, and writing them into the pre-sized file, in whatever order they were
  completed, gives exactly the content of the source.
\<close>

theorem chunks_rebuild_file:
  assumes "plannable entries" "e \<in> set entries" "\<not> me_IsDir e" "me_Size e = int (length b)"
  shows "\<exists>cs. planChunks entries = Some cs \<and> sorted_wrt before (chunks_of (me_RelPath e) cs) \<and>
    (\<forall>c \<in> set (chunks_of (me_RelPath e) cs). chunk_in 0 (me_Size e) c) \<and>
    (\<forall>cs'. mset cs' = mset cs \<longrightarrow>
       foldl (put_chunk b) (replicate (length b) (char_of (0::nat))) (chunks_of (me_RelPath e) cs') = b)"
proof -
  from planChunks_tiles [OF assms(1)] obtain cs where cs: "planChunks entries = Some cs"
    "tiles (me_RelPath e) 0 (int (length b)) (chunks_of (me_RelPath e) cs)"
    using assms(2-4) by (auto simp: file_span_def)
  have "foldl (put_chunk b) (replicate (length b) (char_of (0::nat))) (chunks_of (me_RelPath e) cs') = b"
    if "mset cs' = mset cs" for cs'
  proof (rule tiles_rebuild [OF cs(2)])
    show "set (chunks_of (me_RelPath e) cs') = set (chunks_of (me_RelPath e) cs)"
      using mset_eq_setD [OF that] by (auto simp: chunks_of_def)
  qed simp
  with cs assms(4) show ?thesis by (auto simp: tiles_def)
qed

definition demo_entry :: "string \<Rightarrow> int \<Rightarrow> transferManifestEntry" where
  "demo_entry rel n = \<lparr>me_RelPath = rel, me_Size = n, me_Mode = 0, me_IsDir = False\<rparr>"

theorem chunks_rebuild_file_witness:
  "\<exists>cs. planChunks [demo_entry ''x'' 5, demo_entry ''y'' 3] = Some cs \<and>
    foldl (put_chunk ''abc'') (replicate 3 (char_of (0::nat))) (chunks_of ''y'' (rev cs)) = ''abc''"
  using chunks_rebuild_file [of "[demo_entry ''x'' 5, demo_entry ''y'' 3]" "demo_entry ''y'' 3" "''abc''"]
  by (auto simp: plannable_def demo_entry_def max_plannable_def numeral_eq_Suc)

text \<open>
  An entry whose announced size exceeds
  \<open>2 ^ 63 - 4 MiB\<close> makes the planning loop run forever, since its offset overflows to a negative
  number before it reaches the size; the manifest is the peer's, and a download that got as far as
  planning it does not return.
\<close>

theorem huge_entry_never_planned:
  assumes "e \<in> set entries" "\<not> me_IsDir e" "me_Size e > 2 ^ 63 - parallelChunkSize"
  shows "planChunks entries = None"
  using assms(1)
proof (induction entries)
  case (Cons x xs)
  have "chunk_loop (me_RelPath e) (me_Size e) 0 = None"
    using assms(3) by (intro chunk_loop_stuck) (simp add: stuck_at_def max_plannable_def parallelChunkSize_def)
  moreover have "me_Size e \<noteq> 0" using assms(3) by (simp add: parallelChunkSize_def)
  ultimately show ?case using Cons assms(2) by (auto split: bind_splits)
qed simp

theorem huge_entry_never_planned_witness:
  "planChunks [demo_entry ''x'' 5, demo_entry ''y'' (2 ^ 63 - 1)] = None"
  using huge_entry_never_planned [of "demo_entry ''y'' (2 ^ 63 - 1)" "[demo_entry ''x'' 5, demo_entry ''y'' (2 ^ 63 - 1)]"]
  by (simp add: demo_entry_def parallelChunkSize_def)

text \<open>
  Property C29 (chunks_transferred_once): when the pool is done every chunk was completed once,
  failed once, or was never handed out; and when the pool reports success every chunk has been
  completed exactly once.
\<close>

theorem chunks_transferred_once:
  assumes "chunks \<noteq> []" "pool_run (start_pool chunks n) p" "pool_finished p"
  shows "mset chunks = mset (pl_done p) + mset (pl_failed p) + mset (pl_todo p) \<and>
    (pool_result p = None \<longrightarrow> mset (pl_done p) = mset chunks)"
proof
  have "jobs_held p = {#}" by (rule jobs_held_idle) (use assms(3) in \<open>auto simp: pool_finished_def\<close>)
  with pool_jobs_run [OF assms(2), unfolded start_pool_jobs]
  show eq: "mset chunks = mset (pl_done p) + mset (pl_failed p) + mset (pl_todo p)"
    by (simp add: ac_simps)
  have "pool_flags p" using pool_flags_run [OF assms(2)] pool_flags_start [OF assms(1)] by simp
  with eq assms(3) show "pool_result p = None \<longrightarrow> mset (pl_done p) = mset chunks"
    by (auto simp: pool_flags_def pool_result_def pool_finished_def split: list.splits)
qed

text \<open>
  Property C35 (workers_always_finish): from every state a run of the pool can reach it can reach
  its end, and no run is longer than three steps per chunk and per worker and one more, whatever
  streams or jobs fail.
\<close>

theorem workers_always_finish:
  assumes "chunks \<noteq> []" "(pool_step ^^ k) (start_pool chunks n) p"
  shows "(\<exists>p'. pool_run p p' \<and> pool_finished p') \<and>
    k \<le> 3 * length chunks + 3 * poolWorkers (length chunks) n + 1"
proof
  have "pool_run (start_pool chunks n) p" using assms(2) by (rule relpowp_imp_rtranclp)
  then show "\<exists>p'. pool_run p p' \<and> pool_finished p'"
    using pool_reaches_finish pool_flags_run pool_flags_start [OF assms(1)] by blast
  show "k \<le> 3 * length chunks + 3 * poolWorkers (length chunks) n + 1"
    using pool_run_bound [OF assms(2)]
    by (simp add: pool_work_def start_pool_def map_replicate_const sum_list_replicate)
qed

definition demo_chunk :: transferChunk where
  "demo_chunk = \<lparr>ch_RelPath = ''y'', ch_Offset = 0, ch_Length = 3\<rparr>"

text \<open>One chunk, one worker: it opens its stream, takes the chunk, completes it and leaves.\<close>

lemma demo_pool_run:
  "pool_run (start_pool [demo_chunk] 4)
     \<lparr>pl_todo = [], pl_closed = True, pl_cancelled = False, pl_workers = [Gone], pl_errs = [],
      pl_done = [demo_chunk], pl_failed = []\<rparr>"
proof -
  let ?p = "\<lambda>t c w d. \<lparr>pl_todo = t, pl_closed = c, pl_cancelled = False, pl_workers = [w], pl_errs = [],
      pl_done = d, pl_failed = []\<rparr>"
  have "pool_step (?p [demo_chunk] False Starting []) (?p [demo_chunk] False Waiting [])"
    using opened [of "?p [demo_chunk] False Starting []" 0] by (simp add: worker_at_def set_worker_def)
  moreover have "pool_step (?p [demo_chunk] False Waiting []) (?p [] False (Busy demo_chunk) [])"
    using job_taken [of "?p [demo_chunk] False Waiting []" 0] by (simp add: worker_at_def set_worker_def)
  moreover have "pool_step (?p [] False (Busy demo_chunk) []) (?p [] False Waiting [demo_chunk])"
    using job_ok [of "?p [] False (Busy demo_chunk) []" 0] by (simp add: worker_at_def set_worker_def)
  moreover have "pool_step (?p [] False Waiting [demo_chunk]) (?p [] True Waiting [demo_chunk])"
    using jobs_closed [of "?p [] False Waiting [demo_chunk]"] by simp
  moreover have "pool_step (?p [] True Waiting [demo_chunk]) (?p [] True Gone [demo_chunk])"
    using leaves [of "?p [] True Waiting [demo_chunk]" 0] by (simp add: worker_at_def set_worker_def)
  moreover have "start_pool [demo_chunk] 4 = ?p [demo_chunk] False Starting []"
    by (simp add: start_pool_def poolWorkers_def)
  ultimately show ?thesis by (simp add: converse_rtranclp_into_rtranclp)
qed

theorem chunks_transferred_once_witness:
  "mset [demo_chunk] = mset [demo_chunk] + mset [] + mset []"
  using chunks_transferred_once [OF _ demo_pool_run] by (simp add: pool_finished_def)

theorem workers_always_finish_witness:
  "\<exists>p'. pool_run (start_pool [demo_chunk] 4) p' \<and> pool_finished p'"
  using workers_always_finish [of "[demo_chunk]" 0 4 "start_pool [demo_chunk] 4"] by auto

end
