(* ===== verification/QuicTransfer.thy ===== *)
theory QuicTransfer
  imports FileTransfer
begin

text \<open>
  File transfers over QUIC streams (\<open>src/quictransfer.go\<close>): the key exchange on a stream, the
  device's handling of a stream with its one-shot and its read and write requests, and the client's
  side of each. A stream is the bytes one side will still read and the bytes it has written.
\<close>

section \<open>Messages as JSON\<close>

text \<open>
  \<open>encoding/json\<close> on the messages of the protocol. Decoding fills a variable that may already hold
  a value: a field whose key does not occur in the text keeps its old value. The marshalled form
  omits the empty fields marked \<open>omitempty\<close>.
\<close>

record routingFrame =
  rf_Realm :: string
  rf_Op :: fsOp
  rf_Path :: string
  rf_Recursive :: bool

record codec =
  enc_route :: "routingFrame \<Rightarrow> bytes result"
  enc_req :: "fsRequest \<Rightarrow> bytes result"
  dec_req :: "fsRequest \<Rightarrow> bytes \<Rightarrow> fsRequest result"
  enc_resp :: "fsResponse \<Rightarrow> bytes result"
  dec_resp :: "fsResponse \<Rightarrow> bytes \<Rightarrow> fsResponse result"
  enc_key :: "bytes \<Rightarrow> bytes result"
  dec_key :: "bytes \<Rightarrow> bytes result"
  dec_relay :: "bytes \<Rightarrow> string result"

definition zero_req :: fsRequest where
  "zero_req = \<lparr>rq_Op = fsOpOther [], rq_Path = [], rq_Recursive = False, rq_RelPath = [], rq_Offset = 0,
     rq_Length = 0, rq_Entries = [], rq_SourceIsDir = False, rq_TargetIsDirHint = False\<rparr>"

definition zero_resp :: fsResponse where
  "zero_resp = \<lparr>rs_OK = False, rs_Err = [], rs_Entries = []\<rparr>"

text \<open>A request decoded over an older one.\<close>

definition overlay :: "fsRequest \<Rightarrow> fsRequest \<Rightarrow> fsRequest" where
  "overlay r old = \<lparr>
     rq_Op = rq_Op r,
     rq_Path = (if rq_Path r = [] then rq_Path old else rq_Path r),
     rq_Recursive = (rq_Recursive r \<or> rq_Recursive old),
     rq_RelPath = (if rq_RelPath r = [] then rq_RelPath old else rq_RelPath r),
     rq_Offset = (if rq_Offset r = 0 then rq_Offset old else rq_Offset r),
     rq_Length = (if rq_Length r = 0 then rq_Length old else rq_Length r),
     rq_Entries = (if rq_Entries r = [] then rq_Entries old else rq_Entries r),
     rq_SourceIsDir = (rq_SourceIsDir r \<or> rq_SourceIsDir old),
     rq_TargetIsDirHint = (rq_TargetIsDirHint r \<or> rq_TargetIsDirHint old)\<rparr>"

section \<open>The key exchange on a stream\<close>

definition quicClientKeyExchange ::
  "codec \<Rightarrow> crypto \<Rightarrow> bytes result \<Rightarrow> source \<Rightarrow> sink \<Rightarrow> source \<times> sink \<times> (bytes \<times> bytes) result" where
  "quicClientKeyExchange cd cr rnd src snk = (case CreateX25519KeyPair cr rnd of
     Inl e \<Rightarrow> (src, snk, Inl e)
   | Inr (publicKey, privateKey) \<Rightarrow> (case writeMsg (enc_key cd) snk publicKey of
       (snk1, Some e) \<Rightarrow> (src, snk1, Inl e)
     | (snk1, None) \<Rightarrow> (case readFrame src of
         (src1, Inl e) \<Rightarrow> (src1, snk1, Inl e)
       | (src1, Inr fr) \<Rightarrow>
           (src1, snk1,
            case dec_relay cd fr of
              Inr (c # msg) \<Rightarrow> Inl (Errorf (c # msg))
            | _ \<Rightarrow> (case dec_key cd fr of
                Inl e \<Rightarrow> Inl e
              | Inr peerKey \<Rightarrow>
                  if length peerKey \<noteq> 32
                  then Inl (Errorf (''invalid peer public key length: '' @ dec_nat (length peerKey)))
                  else ClientKeyExchangeKeys cr privateKey peerKey)))))"

definition quicServerKeyExchange ::
  "codec \<Rightarrow> crypto \<Rightarrow> bytes result \<Rightarrow> source \<Rightarrow> sink \<Rightarrow> source \<times> sink \<times> (bytes \<times> bytes) result" where
  "quicServerKeyExchange cd cr rnd src snk = (case readMsg (dec_key cd) src of
     (src1, Inl e) \<Rightarrow> (src1, snk, Inl e)
   | (src1, Inr clientKey) \<Rightarrow>
       if length clientKey \<noteq> 32
       then (src1, snk, Inl (Errorf (''invalid client public key length: '' @ dec_nat (length clientKey))))
       else (case ServerKeyExchange cr rnd clientKey of
         Inl e \<Rightarrow> (src1, snk, Inl e)
       | Inr (publicKey, sendKey, receiveKey) \<Rightarrow> (case writeMsg (enc_key cd) snk publicKey of
           (snk1, Some e) \<Rightarrow> (src1, snk1, Inl e)
         | (snk1, None) \<Rightarrow> (src1, snk1, Inr (sendKey, receiveKey)))))"

section \<open>Files under the requests\<close>

definition remoteRootAndBase :: "string result \<Rightarrow> string \<Rightarrow> (string \<times> string) result" where
  "remoteRootAndBase home rootArg = (case resolvePath home rootArg of
     Inl e \<Rightarrow> Inl e | Inr root \<Rightarrow> Inr (root, Dir root))"

text \<open>\<open>os.Open\<close>, and a section of the open file.\<close>

definition os_Open :: "fs \<Rightarrow> string \<Rightarrow> (string list \<times> inode) result" where
  "os_Open m p = stat_at True ''open'' m p"

definition file_section :: "string \<Rightarrow> inode \<Rightarrow> int \<Rightarrow> int \<Rightarrow> source" where
  "file_section p nd off n = (case read_node p nd of
     Inr b \<Rightarrow> section_source b off n
   | Inl e \<Rightarrow> \<lparr>sr_data = [], sr_end = (if n > 0 then e else ErrEOF)\<rparr>)"

text \<open>\<open>os.OpenFile\<close> with \<open>O_WRONLY\<close>: the file must exist and must not be a directory.\<close>

definition open_write :: "fs \<Rightarrow> string \<Rightarrow> string list result" where
  "open_write m p = (case stat_at True ''open'' m p of
     Inl e \<Rightarrow> Inl e
   | Inr (q, nd) \<Rightarrow> if is_dir nd then Inl (path_error ''open'' p ErrIsDir) else Inr q)"

text \<open>Writing through an \<open>OffsetWriter\<close> on that descriptor.\<close>

definition file_put :: "string list \<Rightarrow> nat \<Rightarrow> bytes \<Rightarrow> fs \<Rightarrow> fs" where
  "file_put q off p m = (case node_at m q of
     Some nd \<Rightarrow> (case kind nd of
       Regular b \<Rightarrow> if p = [] then m else write_at q (patch_at off p b) m
     | _ \<Rightarrow> m)
   | None \<Rightarrow> m)"

definition file_write :: "string list \<Rightarrow> fs \<times> int \<Rightarrow> bytes \<Rightarrow> (fs \<times> int) \<times> int \<times> go_error option" where
  "file_write q w p = (case w of (m, off) \<Rightarrow>
     if off < 0 then (w, 0, Some negative_offset)
     else ((file_put q (nat off) p m, off + int (length p)), int (length p), None))"

section \<open>The device's side of a stream\<close>

definition err_response :: "go_error \<Rightarrow> fsResponse" where
  "err_response e = \<lparr>rs_OK = False, rs_Err = err_text e, rs_Entries = []\<rparr>"

definition ok_response :: "transferManifestEntry list \<Rightarrow> fsResponse" where
  "ok_response entries = \<lparr>rs_OK = True, rs_Err = [], rs_Entries = entries\<rparr>"

definition reply :: "codec \<Rightarrow> crypto \<Rightarrow> bytes result \<Rightarrow> sink \<Rightarrow> fsResponse \<Rightarrow> bytes \<Rightarrow> sink \<times> go_error option" where
  "reply cd cr rnd snk resp key = writeEncryptedMsg cr rnd (enc_resp cd) snk resp key"

definition quicServeList ::
  "codec \<Rightarrow> crypto \<Rightarrow> bytes result \<Rightarrow> nat \<Rightarrow> string result \<Rightarrow> fs \<Rightarrow> fsRequest \<Rightarrow> bytes \<Rightarrow> sink \<Rightarrow> sink option" where
  "quicServeList cd cr rnd fuel home m req sendKey snk = (case remoteRootAndBase home (rq_Path req) of
     Inl e \<Rightarrow> Some (fst (reply cd cr rnd snk (err_response e) sendKey))
   | Inr (resolvedRoot, _) \<Rightarrow> (case buildManifest fuel m resolvedRoot (rq_Recursive req) of
       None \<Rightarrow> None
     | Some (Inl e) \<Rightarrow> Some (fst (reply cd cr rnd snk (err_response e) sendKey))
     | Some (Inr entries) \<Rightarrow> Some (fst (reply cd cr rnd snk (ok_response entries) sendKey))))"

definition quicServeReadOnce ::
  "codec \<Rightarrow> crypto \<Rightarrow> (nat \<Rightarrow> bytes result) \<Rightarrow> string result \<Rightarrow> fs \<Rightarrow> fsRequest \<Rightarrow> bytes \<Rightarrow> sink
     \<Rightarrow> sink \<times> go_error option" where
  "quicServeReadOnce cd cr rnd home m req sendKey snk = (case remoteRootAndBase home (rq_Path req) of
     Inl e \<Rightarrow> reply cd cr (rnd 0) snk (err_response e) sendKey
   | Inr (_, basePath) \<Rightarrow>
       (let absPath = Join basePath (rq_RelPath req)
        in case os_Open m absPath of
          Inl e \<Rightarrow> reply cd cr (rnd 0) snk (err_response e) sendKey
        | Inr (q, nd) \<Rightarrow> (case reply cd cr (rnd 0) snk (ok_response []) sendKey of
            (snk1, Some e) \<Rightarrow> (snk1, Some e)
          | (snk1, None) \<Rightarrow>
              (case copyEncrypted cr (\<lambda>k. rnd (Suc k)) snk1 (file_section absPath nd (rq_Offset req) (rq_Length req))
                  (rq_Length req) sendKey of
                 (snk2, _, r) \<Rightarrow> (snk2, r)))))"

definition quicServeInit ::
  "codec \<Rightarrow> crypto \<Rightarrow> bytes result \<Rightarrow> string result \<Rightarrow> fs \<Rightarrow> fsRequest \<Rightarrow> bytes \<Rightarrow> sink \<Rightarrow> fs \<times> sink" where
  "quicServeInit cd cr rnd home m req sendKey snk = (case remoteRootAndBase home (rq_Path req) of
     Inl e \<Rightarrow> (m, fst (reply cd cr rnd snk (err_response e) sendKey))
   | Inr (resolvedRoot, _) \<Rightarrow>
       (let rootIsDir = isRootDir m resolvedRoot (rq_SourceIsDir req) (rq_TargetIsDirHint req)
        in case materializeTargets (rq_Entries req) resolvedRoot rootIsDir m of
          (m1, Some e) \<Rightarrow> (m1, fst (reply cd cr rnd snk (err_response e) sendKey))
        | (m1, None) \<Rightarrow> (m1, fst (reply cd cr rnd snk (ok_response []) sendKey))))"

definition quicServeWriteOnce ::
  "codec \<Rightarrow> crypto \<Rightarrow> (nat \<Rightarrow> bytes result) \<Rightarrow> string result \<Rightarrow> fs \<Rightarrow> fsRequest \<Rightarrow> bytes \<Rightarrow> bytes \<Rightarrow> source \<Rightarrow> sink
     \<Rightarrow> fs \<times> source \<times> sink \<times> go_error option" where
  "quicServeWriteOnce cd cr rnd home m req sendKey receiveKey src snk = (case remoteRootAndBase home (rq_Path req) of
     Inl e \<Rightarrow> (case reply cd cr (rnd 0) snk (err_response e) sendKey of (snk1, r) \<Rightarrow> (m, src, snk1, r))
   | Inr (resolvedRoot, _) \<Rightarrow>
       (let rootIsDir = isRootDir m resolvedRoot (rq_SourceIsDir req) (rq_TargetIsDirHint req);
            dest = resolveDestPath resolvedRoot rootIsDir (rq_RelPath req) (rq_RelPath req)
        in case open_write m dest of
          Inl e \<Rightarrow> (case reply cd cr (rnd 0) snk (err_response e) sendKey of (snk1, r) \<Rightarrow> (m, src, snk1, r))
        | Inr q \<Rightarrow> (case reply cd cr (rnd 0) snk (ok_response []) sendKey of
            (snk1, Some e) \<Rightarrow> (m, src, snk1, Some e)
          | (snk1, None) \<Rightarrow>
              (case copyDecrypted cr (file_write q) (m, rq_Offset req) src (rq_Length req) receiveKey of
                 ((m1, _), src1, Some e) \<Rightarrow> (m1, src1, snk1, Some e)
               | ((m1, _), src1, None) \<Rightarrow>
                   (case reply cd cr (rnd 1) snk1 (ok_response []) sendKey of (snk2, r) \<Rightarrow> (m1, src1, snk2, r))))))"


text \<open>
  The session: one request served, then the next one read \<open>into the same variable\<close>. \<open>rnd k\<close> are the
  nonces drawn while the \<open>k\<close>-th request is served.
\<close>

lemma copyDecrypted_loop_source:
  "copyDecrypted_loop cr wr key n written w src = (w', src', r) \<Longrightarrow> length (sr_data src') \<le> length (sr_data src)"
proof (induction cr wr key n written w src rule: copyDecrypted_loop.induct)
  case (1 cr wr key n written w src)
  show ?case
  proof (cases "written < n")
    case False
    with "1.prems" show ?thesis by (simp add: copyDecrypted_loop.simps)
  next
    case True
    have e: "length (sr_data s) \<le> length (sr_data src)" if "readFrame src = (s, x)" for s x
      using that by (auto simp: readFrame_def read_full_def Let_def split: if_splits)
    show ?thesis
      using True "1.prems" "1.IH" e
      by (subst (asm) copyDecrypted_loop.simps)
        (fastforce split: if_splits prod.splits sum.splits option.splits)
  qed
qed

definition serve_step ::
  "codec \<Rightarrow> crypto \<Rightarrow> (nat \<Rightarrow> bytes result) \<Rightarrow> string result \<Rightarrow> fs \<Rightarrow> fsRequest \<Rightarrow> bytes \<Rightarrow> bytes \<Rightarrow> source \<Rightarrow> sink
     \<Rightarrow> fs \<times> source \<times> sink \<times> bool" where
  "serve_step cd cr rnd home m req sendKey receiveKey src snk = (case rq_Op req of
     fsOpRead \<Rightarrow> (case quicServeReadOnce cd cr rnd home m req sendKey snk of (snk1, r) \<Rightarrow> (m, src, snk1, r = None))
   | fsOpWrite \<Rightarrow> (case quicServeWriteOnce cd cr rnd home m req sendKey receiveKey src snk of
       (m1, src1, snk1, r) \<Rightarrow> (m1, src1, snk1, r = None))
   | _ \<Rightarrow> (m, src, snk, False))"

lemma serve_step_source:
  "serve_step cd cr rnd home m req sk rk src snk = (m', src', snk', b) \<Longrightarrow> length (sr_data src') \<le> length (sr_data src)"
  by (auto simp: serve_step_def quicServeWriteOnce_def copyDecrypted_def Let_def
      split: fsOp.splits prod.splits sum.splits option.splits dest: copyDecrypted_loop_source)

lemma readEncryptedMsg_shorter:
  "readEncryptedMsg cr dec src key = (src', Inr v) \<Longrightarrow> length (sr_data src') < length (sr_data src)"
  by (auto simp: readEncryptedMsg_def dest: readFrame_shorter split: prod.splits sum.splits)

function quicServeSession ::
  "codec \<Rightarrow> crypto \<Rightarrow> (nat \<Rightarrow> nat \<Rightarrow> bytes result) \<Rightarrow> string result \<Rightarrow> nat \<Rightarrow> fs \<Rightarrow> fsRequest \<Rightarrow> bytes \<Rightarrow> bytes
     \<Rightarrow> source \<Rightarrow> sink \<Rightarrow> fs \<times> source \<times> sink" where
  "quicServeSession cd cr rnd home k m req sendKey receiveKey src snk =
     (case serve_step cd cr (rnd k) home m req sendKey receiveKey src snk of
        (m1, src1, snk1, False) \<Rightarrow> (m1, src1, snk1)
      | (m1, src1, snk1, True) \<Rightarrow>
          (case readEncryptedMsg cr (dec_req cd req) src1 receiveKey of
             (src2, Inl _) \<Rightarrow> (m1, src2, snk1)
           | (src2, Inr req') \<Rightarrow> quicServeSession cd cr rnd home (Suc k) m1 req' sendKey receiveKey src2 snk1))"
  by pat_completeness auto
termination quicServeSession
  by (relation "measure (\<lambda>(cd, cr, rnd, home, k, m, req, sk, rk, src, snk). length (sr_data src))")
    (auto dest!: serve_step_source [OF sym] readEncryptedMsg_shorter [OF sym])

declare quicServeSession.simps [simp del]

text \<open>
  \<open>HandleQUICStream\<close>: the routing frame is read and discarded, the keys are agreed on, and the first
  request decides. \<open>rnd0\<close> is the private key drawn. \<open>None\<close>: the depth of the walk did not suffice.
\<close>

definition HandleQUICStream ::
  "codec \<Rightarrow> crypto \<Rightarrow> bytes result \<Rightarrow> (nat \<Rightarrow> nat \<Rightarrow> bytes result) \<Rightarrow> nat \<Rightarrow> string result \<Rightarrow> fs \<Rightarrow> source \<Rightarrow> sink
     \<Rightarrow> (fs \<times> sink) option" where
  "HandleQUICStream cd cr rnd0 rnd fuel home m src snk = (case readMsg (dec_req cd zero_req) src of
     (_, Inl _) \<Rightarrow> Some (m, snk)
   | (src1, Inr _) \<Rightarrow> (case quicServerKeyExchange cd cr rnd0 src1 snk of
       (_, snk1, Inl _) \<Rightarrow> Some (m, snk1)
     | (src2, snk1, Inr (sendKey, receiveKey)) \<Rightarrow>
         (case readEncryptedMsg cr (dec_req cd zero_req) src2 receiveKey of
            (_, Inl _) \<Rightarrow> Some (m, snk1)
          | (src3, Inr req) \<Rightarrow> (case rq_Op req of
              fsOpList \<Rightarrow> map_option (Pair m) (quicServeList cd cr (rnd 0 0) fuel home m req sendKey snk1)
            | fsOpInit \<Rightarrow> Some (quicServeInit cd cr (rnd 0 0) home m req sendKey snk1)
            | fsOpRead \<Rightarrow> (case quicServeSession cd cr rnd home 0 m req sendKey receiveKey src3 snk1 of
                (m1, _, snk2) \<Rightarrow> Some (m1, snk2))
            | fsOpWrite \<Rightarrow> (case quicServeSession cd cr rnd home 0 m req sendKey receiveKey src3 snk1 of
                (m1, _, snk2) \<Rightarrow> Some (m1, snk2))
            | fsOpOther _ \<Rightarrow> Some (m, snk1)))))"

section \<open>The client's side\<close>

text \<open>
  The client's functions work on the stream \<open>OpenStream\<close> gave (or its error): the bytes the device
  has sent and will send, and what the client writes.
\<close>

definition responseErr :: "fsResponse \<Rightarrow> go_error" where
  "responseErr resp = (if rs_Err resp \<noteq> [] then Errorf (rs_Err resp) else Errorf ''remote operation failed'')"

definition quicRequest ::
  "codec \<Rightarrow> crypto \<Rightarrow> bytes result \<Rightarrow> bytes result \<Rightarrow> (source \<times> sink) result \<Rightarrow> string \<Rightarrow> fsRequest
     \<Rightarrow> (source \<times> sink) option \<times> fsResponse result" where
  "quicRequest cd cr rnd0 rnd stream realm req = (case stream of
     Inl e \<Rightarrow> (None, Inl e)
   | Inr (src, snk) \<Rightarrow> (case writeMsg (enc_route cd) snk
         \<lparr>rf_Realm = realm, rf_Op = rq_Op req, rf_Path = rq_Path req, rf_Recursive = rq_Recursive req\<rparr> of
       (snk1, Some e) \<Rightarrow> (Some (src, snk1), Inl e)
     | (snk1, None) \<Rightarrow> (case quicClientKeyExchange cd cr rnd0 src snk1 of
         (src1, snk2, Inl e) \<Rightarrow> (Some (src1, snk2), Inl e)
       | (src1, snk2, Inr (sendKey, receiveKey)) \<Rightarrow> (case writeEncryptedMsg cr rnd (enc_req cd) snk2 req sendKey of
           (snk3, Some e) \<Rightarrow> (Some (src1, snk3), Inl e)
         | (snk3, None) \<Rightarrow> (case readEncryptedMsg cr (dec_resp cd zero_resp) src1 receiveKey of
             (src2, Inl e) \<Rightarrow> (Some (src2, snk3), Inl e)
           | (src2, Inr resp) \<Rightarrow>
               (Some (src2, snk3), if rs_OK resp then Inr resp else Inl (responseErr resp)))))))"


definition read_request :: "string \<Rightarrow> transferChunk \<Rightarrow> fsRequest" where
  "read_request rootArg chunk = zero_req\<lparr>rq_Op := fsOpRead, rq_Path := rootArg, rq_RelPath := ch_RelPath chunk,
     rq_Offset := ch_Offset chunk, rq_Length := ch_Length chunk\<rparr>"

definition write_request :: "string \<Rightarrow> transferChunk \<Rightarrow> bool \<Rightarrow> bool \<Rightarrow> fsRequest" where
  "write_request rootArg chunk sourceIsDir targetIsDirHint = zero_req\<lparr>rq_Op := fsOpWrite, rq_Path := rootArg,
     rq_RelPath := ch_RelPath chunk, rq_Offset := ch_Offset chunk, rq_Length := ch_Length chunk,
     rq_SourceIsDir := sourceIsDir, rq_TargetIsDirHint := targetIsDirHint\<rparr>"

definition quicReadOneChunk ::
  "codec \<Rightarrow> crypto \<Rightarrow> bytes result \<Rightarrow> bytes \<Rightarrow> bytes \<Rightarrow> string \<Rightarrow> transferChunk \<Rightarrow> string \<Rightarrow> bool \<Rightarrow> string
     \<Rightarrow> fs \<Rightarrow> source \<Rightarrow> sink \<Rightarrow> fs \<times> source \<times> sink \<times> go_error option" where
  "quicReadOneChunk cd cr rnd sendKey receiveKey rootArg chunk localPath localIsDir sourceRoot m src snk =
     (case writeEncryptedMsg cr rnd (enc_req cd) snk (read_request rootArg chunk) sendKey of
        (snk1, Some e) \<Rightarrow> (m, src, snk1, Some e)
      | (snk1, None) \<Rightarrow> (case readEncryptedMsg cr (dec_resp cd zero_resp) src receiveKey of
          (src1, Inl e) \<Rightarrow> (m, src1, snk1, Some e)
        | (src1, Inr resp) \<Rightarrow>
            if \<not> rs_OK resp then (m, src1, snk1, Some (responseErr resp))
            else (case open_write m (resolveDestPath localPath localIsDir sourceRoot (ch_RelPath chunk)) of
              Inl e \<Rightarrow> (m, src1, snk1, Some e)
            | Inr q \<Rightarrow> (case copyDecrypted cr (file_write q) (m, ch_Offset chunk) src1 (ch_Length chunk) receiveKey of
                ((m1, _), src2, r) \<Rightarrow> (m1, src2, snk1, r)))))"

definition quicWriteOneChunk ::
  "codec \<Rightarrow> crypto \<Rightarrow> (nat \<Rightarrow> bytes result) \<Rightarrow> bytes \<Rightarrow> bytes \<Rightarrow> string \<Rightarrow> transferChunk \<Rightarrow> string \<Rightarrow> bool \<Rightarrow> bool
     \<Rightarrow> fs \<Rightarrow> source \<Rightarrow> sink \<Rightarrow> source \<times> sink \<times> go_error option" where
  "quicWriteOneChunk cd cr rnd sendKey receiveKey rootArg chunk localBase sourceIsDir targetIsDirHint m src snk =
     (case writeEncryptedMsg cr (rnd 0) (enc_req cd) snk (write_request rootArg chunk sourceIsDir targetIsDirHint) sendKey of
        (snk1, Some e) \<Rightarrow> (src, snk1, Some e)
      | (snk1, None) \<Rightarrow> (case readEncryptedMsg cr (dec_resp cd zero_resp) src receiveKey of
          (src1, Inl e) \<Rightarrow> (src1, snk1, Some e)
        | (src1, Inr ack) \<Rightarrow>
            if \<not> rs_OK ack then (src1, snk1, Some (responseErr ack))
            else (let absLocal = Join localBase (ch_RelPath chunk) in
              case os_Open m absLocal of
                Inl e \<Rightarrow> (src1, snk1, Some e)
              | Inr (q, nd) \<Rightarrow> (case copyEncrypted cr (\<lambda>k. rnd (Suc k)) snk1
                    (file_section absLocal nd (ch_Offset chunk) (ch_Length chunk)) (ch_Length chunk) sendKey of
                  (snk2, _, Some e) \<Rightarrow> (src1, snk2, Some e)
                | (snk2, _, None) \<Rightarrow> (case readEncryptedMsg cr (dec_resp cd zero_resp) src1 receiveKey of
                    (src2, Inl e) \<Rightarrow> (src2, snk2, Some e)
                  | (src2, Inr final) \<Rightarrow>
                      (src2, snk2, if rs_OK final then None else Some (responseErr final)))))))"

text \<open>
  A worker's stream: opened, routed and keyed, then reused for the jobs the worker gets, in their
  order. \<open>rnd k\<close> are the nonces of its \<open>k\<close>-th job.
\<close>

definition worker_open ::
  "codec \<Rightarrow> crypto \<Rightarrow> bytes result \<Rightarrow> fsOp \<Rightarrow> (source \<times> sink) result \<Rightarrow> string \<Rightarrow> string
     \<Rightarrow> (source \<times> sink \<times> bytes \<times> bytes) result" where
  "worker_open cd cr rnd0 op stream realm rootArg = (case stream of
     Inl e \<Rightarrow> Inl e
   | Inr (src, snk) \<Rightarrow> (case writeMsg (enc_route cd) snk
         \<lparr>rf_Realm = realm, rf_Op = op, rf_Path = rootArg, rf_Recursive = False\<rparr> of
       (_, Some e) \<Rightarrow> Inl e
     | (snk1, None) \<Rightarrow> (case quicClientKeyExchange cd cr rnd0 src snk1 of
         (_, _, Inl e) \<Rightarrow> Inl e
       | (src1, snk2, Inr (sendKey, receiveKey)) \<Rightarrow> Inr (src1, snk2, sendKey, receiveKey))))"

fun read_jobs ::
  "codec \<Rightarrow> crypto \<Rightarrow> (nat \<Rightarrow> bytes result) \<Rightarrow> bytes \<Rightarrow> bytes \<Rightarrow> string \<Rightarrow> string \<Rightarrow> bool \<Rightarrow> string \<Rightarrow> nat
     \<Rightarrow> transferChunk list \<Rightarrow> fs \<Rightarrow> source \<Rightarrow> sink \<Rightarrow> fs \<times> source \<times> sink \<times> go_error option" where
  "read_jobs cd cr rnd sk rk rootArg localPath localIsDir sourceRoot k [] m src snk = (m, src, snk, None)"
| "read_jobs cd cr rnd sk rk rootArg localPath localIsDir sourceRoot k (c # cs) m src snk =
     (case quicReadOneChunk cd cr (rnd k) sk rk rootArg c localPath localIsDir sourceRoot m src snk of
        (m1, src1, snk1, Some e) \<Rightarrow> (m1, src1, snk1, Some e)
      | (m1, src1, snk1, None) \<Rightarrow>
          read_jobs cd cr rnd sk rk rootArg localPath localIsDir sourceRoot (Suc k) cs m1 src1 snk1)"

definition quicReadWorker ::
  "codec \<Rightarrow> crypto \<Rightarrow> bytes result \<Rightarrow> (nat \<Rightarrow> bytes result) \<Rightarrow> (source \<times> sink) result \<Rightarrow> string \<Rightarrow> string
     \<Rightarrow> transferChunk list \<Rightarrow> string \<Rightarrow> bool \<Rightarrow> string \<Rightarrow> fs \<Rightarrow> fs \<times> go_error option" where
  "quicReadWorker cd cr rnd0 rnd stream realm rootArg jobs localPath localIsDir sourceRoot m =
     (case worker_open cd cr rnd0 fsOpRead stream realm rootArg of
        Inl e \<Rightarrow> (m, Some e)
      | Inr (src, snk, sendKey, receiveKey) \<Rightarrow>
          (case read_jobs cd cr rnd sendKey receiveKey rootArg localPath localIsDir sourceRoot 0 jobs m src snk of
             (m1, _, _, r) \<Rightarrow> (m1, r)))"

fun write_jobs ::
  "codec \<Rightarrow> crypto \<Rightarrow> (nat \<Rightarrow> nat \<Rightarrow> bytes result) \<Rightarrow> bytes \<Rightarrow> bytes \<Rightarrow> string \<Rightarrow> string \<Rightarrow> bool \<Rightarrow> bool \<Rightarrow> nat
     \<Rightarrow> transferChunk list \<Rightarrow> fs \<Rightarrow> source \<Rightarrow> sink \<Rightarrow> source \<times> sink \<times> go_error option" where
  "write_jobs cd cr rnd sk rk rootArg localBase sourceIsDir hint k [] m src snk = (src, snk, None)"
| "write_jobs cd cr rnd sk rk rootArg localBase sourceIsDir hint k (c # cs) m src snk =
     (case quicWriteOneChunk cd cr (rnd k) sk rk rootArg c localBase sourceIsDir hint m src snk of
        (src1, snk1, Some e) \<Rightarrow> (src1, snk1, Some e)
      | (src1, snk1, None) \<Rightarrow> write_jobs cd cr rnd sk rk rootArg localBase sourceIsDir hint (Suc k) cs m src1 snk1)"

definition quicWriteWorker ::
  "codec \<Rightarrow> crypto \<Rightarrow> bytes result \<Rightarrow> (nat \<Rightarrow> nat \<Rightarrow> bytes result) \<Rightarrow> (source \<times> sink) result \<Rightarrow> string \<Rightarrow> string
     \<Rightarrow> transferChunk list \<Rightarrow> string \<Rightarrow> bool \<Rightarrow> bool \<Rightarrow> fs \<Rightarrow> sink option \<times> go_error option" where
  "quicWriteWorker cd cr rnd0 rnd stream realm rootArg jobs localBase sourceIsDir targetIsDirHint m =
     (case worker_open cd cr rnd0 fsOpWrite stream realm rootArg of
        Inl e \<Rightarrow> (None, Some e)
      | Inr (src, snk, sendKey, receiveKey) \<Rightarrow>
          (case write_jobs cd cr rnd sendKey receiveKey rootArg localBase sourceIsDir targetIsDirHint 0 jobs m src snk of
             (_, snk1, r) \<Rightarrow> (Some snk1, r)))"


definition DownloadFilesQUIC ::
  "codec \<Rightarrow> crypto \<Rightarrow> bytes result \<Rightarrow> bytes result \<Rightarrow> (source \<times> sink) result \<Rightarrow> string \<Rightarrow>
   (string \<Rightarrow> bool \<Rightarrow> transferChunk list \<Rightarrow> int \<Rightarrow> fs \<Rightarrow> fs \<times> go_error option) \<Rightarrow>
   string \<Rightarrow> string \<Rightarrow> bool \<Rightarrow> int \<Rightarrow> fs \<Rightarrow> (fs \<times> go_error option) option" where
  "DownloadFilesQUIC cd cr rnd0 rnd stream realm run remotePath localPath recursive numWorkers m =
     downloadFiles (\<lambda>req. snd (quicRequest cd cr rnd0 rnd stream realm req)) run
       remotePath localPath recursive numWorkers m"

section \<open>Streams that work\<close>

definition appended :: "sink \<Rightarrow> bytes \<Rightarrow> sink \<Rightarrow> bool" where
  "appended snk wire snk' \<longleftrightarrow> sk_fail snk' = sk_fail snk \<and> sk_data snk' = sk_data snk @ wire"

definition reliable :: "sink \<Rightarrow> bool" where
  "reliable snk \<longleftrightarrow> sk_fail snk = (\<lambda>_. None)"

lemma appended_reliable: "appended snk w snk' \<Longrightarrow> reliable snk \<Longrightarrow> reliable snk'"
  by (simp add: appended_def reliable_def)

lemma appended_trans: "appended s v s' \<Longrightarrow> appended s' w s'' \<Longrightarrow> appended s (v @ w) s''"
  by (simp add: appended_def)

definition key_ready :: "crypto \<Rightarrow> bytes \<Rightarrow> bool" where
  "key_ready cr key \<longleftrightarrow> aead_ok cr \<and> length key = 32"

text \<open>A message that survives its encoding and fits into a frame when it is encrypted.\<close>

definition sendable :: "('a \<Rightarrow> bytes result) \<Rightarrow> (bytes \<Rightarrow> 'b result) \<Rightarrow> 'a \<Rightarrow> 'b \<Rightarrow> bool" where
  "sendable enc dec v v' \<longleftrightarrow> (\<exists>b. enc v = Inr b \<and> length b + 28 \<le> maxMsgSize \<and> dec b = Inr v')"

lemma encrypted_msg:
  assumes "key_ready cr key" "nonce_drawn rnd" "reliable snk" "sendable enc dec v v'"
  obtains wire snk' where "writeEncryptedMsg cr rnd enc snk v key = (snk', None)" "appended snk wire snk'"
    "\<And>rest e. readEncryptedMsg cr dec \<lparr>sr_data = wire @ rest, sr_end = e\<rparr> key = (\<lparr>sr_data = rest, sr_end = e\<rparr>, Inr v')"
proof -
  obtain b where b: "enc v = Inr b" "length b + 28 \<le> maxMsgSize" "dec b = Inr v'"
    using assms(4) by (auto simp: sendable_def)
  have k: "aead_ok cr" "length key = 32" using assms(1) by (simp_all add: key_ready_def)
  obtain c where c: "EncryptPayload cr rnd b key = Inr c"
    using EncryptPayload_total [OF k assms(2)] by blast
  note l = EncryptPayload_length [OF k assms(2) c] and d = DecryptPayload_Encrypt [OF k assms(2) c]
  have w: "writeEncryptedMsg cr rnd enc snk v key =
      (snk\<lparr>sk_data := sk_data snk @ frame c, sk_count := sk_count snk + 2\<rparr>, None)"
    using assms(3) by (simp add: writeEncryptedMsg_def b(1) c writeFrame_reliable reliable_def)
  have r: "readEncryptedMsg cr dec \<lparr>sr_data = frame c @ rest, sr_end = e\<rparr> key = (\<lparr>sr_data = rest, sr_end = e\<rparr>, Inr v')"
    for rest e
    using readFrame_exact [of c rest e] b l by (simp add: readEncryptedMsg_def d)
  show thesis
    by (rule that [OF w _ r]) (simp add: appended_def)
qed

interpretation fw: stream_writer
  "\<lambda>w. 0 \<le> snd w" "file_write q" "\<lambda>w p. (file_put q (nat (snd w)) p (fst w), snd w + int (length p))" for q
proof
  fix w :: "fs \<times> int" and p r :: bytes
  obtain m off where w: "w = (m, off)" by (cases w)
  assume "0 \<le> snd w"
  then show "file_write q w p = ((file_put q (nat (snd w)) p (fst w), snd w + int (length p)), int (length p), None)"
    "0 \<le> snd (file_put q (nat (snd w)) p (fst w), snd w + int (length p))"
    "(file_put q (nat (snd w)) [] (fst w), snd w + int (length ([]::bytes))) = w"
    by (auto simp: w file_write_def file_put_def split: option.splits inode_kind.splits)
  have "put_node q nd (put_node q nd' m) = put_node q nd m" for nd nd'
    by (simp add: put_node_def)
  then have "file_put q (k + length p) r (file_put q k p m) = file_put q k (p @ r) m" for k
    by (auto simp: file_put_def write_at_def patch_at_append split: option.splits inode_kind.splits)
  then show "(file_put q (nat (snd (file_put q (nat (snd w)) p (fst w), snd w + int (length p)))) r
        (fst (file_put q (nat (snd w)) p (fst w), snd w + int (length p))),
      snd (file_put q (nat (snd w)) p (fst w), snd w + int (length p)) + int (length r)) =
    (file_put q (nat (snd w)) (p @ r) (fst w), snd w + int (length (p @ r)))"
    using \<open>0 \<le> snd w\<close> by (simp add: w nat_add_distrib)
qed


section \<open>One range over the wire\<close>

definition byte_range :: "bytes \<Rightarrow> int \<Rightarrow> int \<Rightarrow> bytes" where
  "byte_range b off n = take (nat n) (drop (nat off) b)"

definition in_range :: "bytes \<Rightarrow> int \<Rightarrow> int \<Rightarrow> bool" where
  "in_range b off n \<longleftrightarrow> 0 \<le> off \<and> 0 \<le> n \<and> off + n \<le> int (length b)"

lemma byte_range_length: "in_range b off n \<Longrightarrow> int (length (byte_range b off n)) = n"
  by (auto simp: in_range_def byte_range_def)

lemma range_frames:
  assumes "key_ready cr key" "nonces_drawn rnd" "reliable snk" "in_range b off n"
  obtains wire snk' src' where
    "copyEncrypted cr rnd snk (section_source b off n) n key = (snk', src', None)" "appended snk wire snk'"
    "\<And>q m at rest e. 0 \<le> at \<Longrightarrow>
       copyDecrypted cr (file_write q) (m, at) \<lparr>sr_data = wire @ rest, sr_end = e\<rparr> n key =
         ((file_put q (nat at) (byte_range b off n) m, at + n), \<lparr>sr_data = rest, sr_end = e\<rparr>, None)"
proof -
  have k: "aead_ok cr" "length key = 32" using assms(1) by (simp_all add: key_ready_def)
  have f: "sk_fail snk = (\<lambda>_. None)" using assms(3) by (simp add: reliable_def)
  note l = byte_range_length [OF assms(4)]
  obtain cts where cts: "carries cr key cts (byte_range b off n)"
    "copyEncrypted cr rnd snk \<lparr>sr_data = byte_range b off n @ [], sr_end = ErrEOF\<rparr> n key =
      (snk\<lparr>sk_data := sk_data snk @ concat (map frame cts), sk_count := sk_count snk + 2 * length cts\<rparr>,
       \<lparr>sr_data = [], sr_end = ErrEOF\<rparr>, None)"
    using copyEncrypted_ok [OF k assms(2) f l, of "[]" ErrEOF] by blast
  have s: "section_source b off n = \<lparr>sr_data = byte_range b off n @ [], sr_end = ErrEOF\<rparr>"
    using assms(4) by (simp add: section_source_def byte_range_def in_range_def)
  show thesis
  proof (rule that [of _ _ "concat (map frame cts)"])
    show "copyEncrypted cr rnd snk (section_source b off n) n key =
      (snk\<lparr>sk_data := sk_data snk @ concat (map frame cts), sk_count := sk_count snk + 2 * length cts\<rparr>,
       \<lparr>sr_data = [], sr_end = ErrEOF\<rparr>, None)"
      using cts(2) by (simp add: s)
    show "copyDecrypted cr (file_write q) (m, at) \<lparr>sr_data = concat (map frame cts) @ rest, sr_end = e\<rparr> n key =
         ((file_put q (nat at) (byte_range b off n) m, at + n), \<lparr>sr_data = rest, sr_end = e\<rparr>, None)" if "0 \<le> at" for q m at rest e
      using fw.copyDecrypted_ok [OF cts(1) _ l, of "(m, at)" q rest e] that l by simp
  qed (simp add: appended_def)
qed

text \<open>A file the device finds under a request's root and relative path.\<close>

definition can_read :: "string result \<Rightarrow> fs \<Rightarrow> string \<Rightarrow> string \<Rightarrow> bytes \<Rightarrow> bool" where
  "can_read home m rootArg rel b \<longleftrightarrow> (\<exists>root base q nd. remoteRootAndBase home rootArg = Inr (root, base) \<and>
     os_Open m (Join base rel) = Inr (q, nd) \<and> kind nd = Regular b)"

definition ok_sendable :: "codec \<Rightarrow> bool" where
  "ok_sendable cd \<longleftrightarrow> sendable (enc_resp cd) (dec_resp cd zero_resp) (ok_response []) (ok_response [])"

text \<open>The answer to a read request, and what a client makes of it.\<close>

lemma serve_read:
  assumes "key_ready cr sk" "nonces_drawn rnd" "reliable snk" "ok_sendable cd"
    and "rq_Op req = fsOpRead" "can_read home m (rq_Path req) (rq_RelPath req) b"
    and "in_range b (rq_Offset req) (rq_Length req)"
  obtains w1 w2 snk' where "\<And>src rk. serve_step cd cr rnd home m req sk rk src snk = (m, src, snk', True)"
    "appended snk (w1 @ w2) snk'"
    "\<And>rest e. readEncryptedMsg cr (dec_resp cd zero_resp) \<lparr>sr_data = w1 @ rest, sr_end = e\<rparr> sk =
       (\<lparr>sr_data = rest, sr_end = e\<rparr>, Inr (ok_response []))"
    "\<And>q m at rest e. 0 \<le> at \<Longrightarrow>
       copyDecrypted cr (file_write q) (m, at) \<lparr>sr_data = w2 @ rest, sr_end = e\<rparr> (rq_Length req) sk =
         ((file_put q (nat at) (byte_range b (rq_Offset req) (rq_Length req)) m, at + rq_Length req),
          \<lparr>sr_data = rest, sr_end = e\<rparr>, None)"
proof -
  obtain root base q nd where f: "remoteRootAndBase home (rq_Path req) = Inr (root, base)"
    "os_Open m (Join base (rq_RelPath req)) = Inr (q, nd)" "kind nd = Regular b"
    using assms(6) unfolding can_read_def by blast
  have n: "nonce_drawn (rnd 0)" "nonces_drawn (\<lambda>k. rnd (Suc k))"
    using assms(2) by (simp_all add: nonces_drawn_def)
  obtain w1 snk1 where w1: "writeEncryptedMsg cr (rnd 0) (enc_resp cd) snk (ok_response []) sk = (snk1, None)"
    "appended snk w1 snk1"
    "\<And>rest e. readEncryptedMsg cr (dec_resp cd zero_resp) \<lparr>sr_data = w1 @ rest, sr_end = e\<rparr> sk =
       (\<lparr>sr_data = rest, sr_end = e\<rparr>, Inr (ok_response []))"
    using encrypted_msg [OF assms(1) n(1) assms(3)] assms(4) unfolding ok_sendable_def by metis
  have r1: "reliable snk1" by (rule appended_reliable [OF w1(2) assms(3)])
  obtain w2 snk2 src2 where w2:
    "copyEncrypted cr (\<lambda>k. rnd (Suc k)) snk1 (section_source b (rq_Offset req) (rq_Length req)) (rq_Length req) sk = (snk2, src2, None)"
    "appended snk1 w2 snk2"
    "\<And>q m at rest e. 0 \<le> at \<Longrightarrow>
       copyDecrypted cr (file_write q) (m, at) \<lparr>sr_data = w2 @ rest, sr_end = e\<rparr> (rq_Length req) sk =
         ((file_put q (nat at) (byte_range b (rq_Offset req) (rq_Length req)) m, at + rq_Length req),
          \<lparr>sr_data = rest, sr_end = e\<rparr>, None)"
    by (rule range_frames [OF assms(1) n(2) r1 assms(7)]) blast
  have "serve_step cd cr rnd home m req sk rk src snk = (m, src, snk2, True)" for src rk
    using assms(5) f w1(1) w2(1)
    by (simp add: serve_step_def quicServeReadOnce_def reply_def file_section_def read_node_def Let_def)
  from that [OF this appended_trans [OF w1(2) w2(2)] w1(3) w2(3)] show thesis .
qed


section \<open>Writing file contents keeps the shape of the file system\<close>

definition shape :: "fs \<Rightarrow> string list \<Rightarrow> inode_kind option" where
  "shape m q = map_option (\<lambda>nd. case kind nd of Regular _ \<Rightarrow> Regular [] | k \<Rightarrow> k) (node_at m q)"

definition same_shape :: "fs \<Rightarrow> fs \<Rightarrow> bool" where
  "same_shape m m' \<longleftrightarrow> cwd m' = cwd m \<and> (\<forall>q. shape m' q = shape m q)"

lemma shape_cases:
  assumes "same_shape m m'"
  shows "node_at m q = None \<and> node_at m' q = None \<or>
    (\<exists>nd nd'. node_at m q = Some nd \<and> node_at m' q = Some nd' \<and>
       (kind nd' = kind nd \<or> (\<exists>b b'. kind nd = Regular b \<and> kind nd' = Regular b')))"
proof -
  have "shape m' q = shape m q" using assms by (simp add: same_shape_def)
  then show ?thesis
    by (cases "node_at m q"; cases "node_at m' q") (auto simp: shape_def split: inode_kind.splits)
qed

lemma walk_same_shape: "same_shape m m' \<Longrightarrow> walk m' follow n cur cs = walk m follow n cur cs"
proof (induction m follow n cur cs rule: walk.induct)
  case (2 m follow n cur c cs)
  consider "c = [] \<or> c = ''.'' \<or> c = ''..''" | "c \<noteq> []" "c \<noteq> ''.''" "c \<noteq> ''..''" by blast
  then show ?case
  proof cases
    case 2
    note c = this
    from shape_cases [OF "2.prems", of "cur @ [c]"] consider
        "node_at m (cur @ [c]) = None" "node_at m' (cur @ [c]) = None"
      | nd nd' where "node_at m (cur @ [c]) = Some nd" "node_at m' (cur @ [c]) = Some nd'" "kind nd' = kind nd"
      | nd nd' b b' where "node_at m (cur @ [c]) = Some nd" "node_at m' (cur @ [c]) = Some nd'"
          "kind nd = Regular b" "kind nd' = Regular b'"
      by (elim disjE exE conjE) metis+
    then show ?thesis
    proof cases
      case 2
      show ?thesis
      proof (cases "kind nd")
        case (SymlinkTo t)
        have "walk m' follow k (if IsAbs t then [] else cur) (split_on sep t @ cs) =
            walk m follow k (if IsAbs t then [] else cur) (split_on sep t @ cs)"
          if "\<not> (cs = [] \<and> \<not> follow)" "n = Suc k" for k
          using "2.IH"(4) [OF _ _ 2(1) SymlinkTo that] "2.prems" c by simp
        with 2 c SymlinkTo show ?thesis by (auto split: nat.splits)
      next
        case Directory
        have "walk m' follow n (cur @ [c]) cs = walk m follow n (cur @ [c]) cs"
          using "2.IH"(3) [OF _ _ 2(1) Directory] "2.prems" c by simp
        with 2 c Directory show ?thesis by simp
      qed (use 2 c in simp_all)
    qed (use c in simp_all)
  qed (use 2 in auto)
qed simp

lemma open_write_same_shape: "same_shape m m' \<Longrightarrow> open_write m' p = open_write m p"
proof -
  assume s: "same_shape m m'"
  then have r: "resolve m' True p = resolve m True p"
    by (simp add: resolve_def walk_same_shape) (simp add: same_shape_def)
  show ?thesis
  proof (cases "resolve m True p")
    case (Inr q)
    with r shape_cases [OF s, of q] show ?thesis
      by (auto simp: open_write_def stat_at_def is_dir_def)
  qed (use r in \<open>simp add: open_write_def stat_at_def\<close>)
qed

lemma file_put_same_shape: "same_shape m (file_put q off p m)"
  by (auto simp: same_shape_def shape_def file_put_def write_at_def split: option.splits inode_kind.splits)


section \<open>A session of read jobs\<close>

definition json_ok :: "codec \<Rightarrow> fsRequest \<Rightarrow> bool" where
  "json_ok cd r \<longleftrightarrow> (\<exists>b. enc_req cd r = Inr b \<and> length b + 28 \<le> maxMsgSize \<and>
     (\<forall>old. dec_req cd old b = Inr (overlay r old)))"

text \<open>
  The offsets the device uses for a list of jobs: a request with offset 0 leaves the field out, and
  the device's variable still holds the offset of the request before.
\<close>

fun effective :: "int \<Rightarrow> transferChunk list \<Rightarrow> transferChunk list" where
  "effective old [] = []"
| "effective old (c # cs) =
     (let off = (if ch_Offset c = 0 then old else ch_Offset c) in c\<lparr>ch_Offset := off\<rparr> # effective off cs)"

lemma overlay_read:
  "ch_RelPath c \<noteq> [] \<Longrightarrow> ch_Length c \<noteq> 0 \<Longrightarrow>
   overlay (read_request root c) (read_request root p) =
     read_request root (c\<lparr>ch_Offset := if ch_Offset c = 0 then ch_Offset p else ch_Offset c\<rparr>)"
  by (simp add: overlay_def read_request_def zero_req_def)

lemma overlay_zero: "overlay (read_request root c) zero_req = read_request root c"
  by (simp add: overlay_def read_request_def zero_req_def)

text \<open>A job both sides can do: the device finds the file, the client has its destination.\<close>

definition job_ready ::
  "codec \<Rightarrow> string result \<Rightarrow> fs \<Rightarrow> string \<Rightarrow> (string \<Rightarrow> bytes) \<Rightarrow> (string \<Rightarrow> string) \<Rightarrow> (string \<Rightarrow> string list)
     \<Rightarrow> fs \<Rightarrow> transferChunk \<Rightarrow> bool" where
  "job_ready cd home m root content dest place ml c \<longleftrightarrow> json_ok cd (read_request root c) \<and> ch_RelPath c \<noteq> [] \<and>
     0 < ch_Length c \<and> 0 \<le> ch_Offset c \<and> can_read home m root (ch_RelPath c) (content (ch_RelPath c)) \<and>
     open_write ml (dest (ch_RelPath c)) = Inr (place (ch_RelPath c))"

text \<open>What a job does to the client's files when the device reads at offset \<open>off\<close>.\<close>

definition landed :: "(string \<Rightarrow> bytes) \<Rightarrow> (string \<Rightarrow> string list) \<Rightarrow> fs \<Rightarrow> transferChunk \<times> transferChunk \<Rightarrow> fs" where
  "landed content place m cc = (case cc of (c, c') \<Rightarrow>
     file_put (place (ch_RelPath c)) (nat (ch_Offset c))
       (byte_range (content (ch_RelPath c)) (ch_Offset c') (ch_Length c')) m)"

lemma job_ready_shape: "same_shape ml ml' \<Longrightarrow> job_ready cd home m root content dest place ml' c = job_ready cd home m root content dest place ml c"
  by (simp add: job_ready_def open_write_same_shape)

lemma landed_shape: "same_shape m (landed content place m cc)"
  by (cases cc) (simp add: landed_def file_put_same_shape)

lemma read_one:
  assumes "key_ready cr kc" "nonce_drawn rnd" "reliable snk" "json_ok cd (read_request root c)" "0 \<le> ch_Offset c"
    and "open_write ml (resolveDestPath lp ld sr (ch_RelPath c)) = Inr q"
    and "\<And>rest e. readEncryptedMsg cr (dec_resp cd zero_resp) \<lparr>sr_data = w1 @ rest, sr_end = e\<rparr> ks =
       (\<lparr>sr_data = rest, sr_end = e\<rparr>, Inr (ok_response []))"
    and "\<And>q m at rest e. 0 \<le> at \<Longrightarrow>
       copyDecrypted cr (file_write q) (m, at) \<lparr>sr_data = w2 @ rest, sr_end = e\<rparr> (ch_Length c) ks =
         ((file_put q (nat at) d m, at + ch_Length c), \<lparr>sr_data = rest, sr_end = e\<rparr>, None)"
  obtains w0 snk' where
    "\<And>rest e. quicReadOneChunk cd cr rnd kc ks root c lp ld sr ml \<lparr>sr_data = w1 @ w2 @ rest, sr_end = e\<rparr> snk =
       (file_put q (nat (ch_Offset c)) d ml, \<lparr>sr_data = rest, sr_end = e\<rparr>, snk', None)"
    "appended snk w0 snk'"
    "\<And>old rest e. readEncryptedMsg cr (dec_req cd old) \<lparr>sr_data = w0 @ rest, sr_end = e\<rparr> kc =
       (\<lparr>sr_data = rest, sr_end = e\<rparr>, Inr (overlay (read_request root c) old))"
proof -
  obtain b where b: "enc_req cd (read_request root c) = Inr b" "length b + 28 \<le> maxMsgSize"
    "\<And>old. dec_req cd old b = Inr (overlay (read_request root c) old)"
    using assms(4) by (auto simp: json_ok_def)
  have k: "aead_ok cr" "length kc = 32" using assms(1) by (simp_all add: key_ready_def)
  obtain ct where ct: "EncryptPayload cr rnd b kc = Inr ct"
    using EncryptPayload_total [OF k assms(2)] by blast
  note l = EncryptPayload_length [OF k assms(2) ct] and dc = DecryptPayload_Encrypt [OF k assms(2) ct]
  let ?snk = "snk\<lparr>sk_data := sk_data snk @ frame ct, sk_count := sk_count snk + 2\<rparr>"
  have w: "writeEncryptedMsg cr rnd (enc_req cd) snk (read_request root c) kc = (?snk, None)"
    using assms(3) by (simp add: writeEncryptedMsg_def b(1) ct writeFrame_reliable reliable_def)
  show thesis
  proof (rule that [of ?snk "frame ct"])
    show "readEncryptedMsg cr (dec_req cd old) \<lparr>sr_data = frame ct @ rest, sr_end = e\<rparr> kc =
       (\<lparr>sr_data = rest, sr_end = e\<rparr>, Inr (overlay (read_request root c) old))" for old rest e
      using readFrame_exact [of ct rest e] b l by (simp add: readEncryptedMsg_def dc)
    show "quicReadOneChunk cd cr rnd kc ks root c lp ld sr ml \<lparr>sr_data = w1 @ w2 @ rest, sr_end = e\<rparr> snk =
       (file_put q (nat (ch_Offset c)) d ml, \<lparr>sr_data = rest, sr_end = e\<rparr>, ?snk, None)" for rest e
      using w assms(5-8) by (simp add: quicReadOneChunk_def ok_response_def)
  qed (simp add: appended_def)
qed

lemma one_exchange:
  assumes "key_ready cr kc" "key_ready cr ks" "nonces_drawn rs" "nonce_drawn rc" "ok_sendable cd"
    and "reliable snkS" "reliable snkC" "job_ready cd home m root content (resolveDestPath lp ld sr) place ml c"
    and "in_range (content (ch_RelPath c)) off (ch_Length c)"
  obtains w0 down snkS' snkC' where
    "\<And>src. serve_step cd cr rs home m (read_request root (c\<lparr>ch_Offset := off\<rparr>)) ks kc src snkS = (m, src, snkS', True)"
    "appended snkS down snkS'"
    "\<And>rest e. quicReadOneChunk cd cr rc kc ks root c lp ld sr ml \<lparr>sr_data = down @ rest, sr_end = e\<rparr> snkC =
       (landed content place ml (c, c\<lparr>ch_Offset := off\<rparr>), \<lparr>sr_data = rest, sr_end = e\<rparr>, snkC', None)"
    "appended snkC w0 snkC'"
    "\<And>old rest e. readEncryptedMsg cr (dec_req cd old) \<lparr>sr_data = w0 @ rest, sr_end = e\<rparr> kc =
       (\<lparr>sr_data = rest, sr_end = e\<rparr>, Inr (overlay (read_request root c) old))"
proof -
  let ?req = "read_request root (c\<lparr>ch_Offset := off\<rparr>)"
  have req: "rq_Op ?req = fsOpRead" "rq_Path ?req = root" "rq_RelPath ?req = ch_RelPath c" "rq_Offset ?req = off"
    "rq_Length ?req = ch_Length c"
    by (simp_all add: read_request_def)
  have c: "json_ok cd (read_request root c)" "0 \<le> ch_Offset c"
    "can_read home m root (ch_RelPath c) (content (ch_RelPath c))"
    "open_write ml (resolveDestPath lp ld sr (ch_RelPath c)) = Inr (place (ch_RelPath c))"
    using assms(8) by (simp_all add: job_ready_def)
  note sr = serve_read [OF assms(2,3,6,5), of ?req home m "content (ch_RelPath c)", unfolded req, OF refl c(3) assms(9)]
  show thesis
  proof (rule sr)
    fix w1 w2 snkS'
    assume s: "\<And>src rk. serve_step cd cr rs home m ?req ks rk src snkS = (m, src, snkS', True)"
      "appended snkS (w1 @ w2) snkS'"
      "\<And>rest e. readEncryptedMsg cr (dec_resp cd zero_resp) \<lparr>sr_data = w1 @ rest, sr_end = e\<rparr> ks =
         (\<lparr>sr_data = rest, sr_end = e\<rparr>, Inr (ok_response []))"
      "\<And>q m at rest e. 0 \<le> at \<Longrightarrow>
         copyDecrypted cr (file_write q) (m, at) \<lparr>sr_data = w2 @ rest, sr_end = e\<rparr> (ch_Length c) ks =
           ((file_put q (nat at) (byte_range (content (ch_RelPath c)) off (ch_Length c)) m, at + ch_Length c),
            \<lparr>sr_data = rest, sr_end = e\<rparr>, None)"
    show thesis
    proof (rule read_one [OF assms(1,4,7) c(1,2,4) s(3,4)])
      fix w0 snk'
      assume r: "\<And>rest e. quicReadOneChunk cd cr rc kc ks root c lp ld sr ml \<lparr>sr_data = w1 @ w2 @ rest, sr_end = e\<rparr> snkC =
         (file_put (place (ch_RelPath c)) (nat (ch_Offset c)) (byte_range (content (ch_RelPath c)) off (ch_Length c)) ml,
          \<lparr>sr_data = rest, sr_end = e\<rparr>, snk', None)"
        "appended snkC w0 snk'"
        "\<And>old rest e. readEncryptedMsg cr (dec_req cd old) \<lparr>sr_data = w0 @ rest, sr_end = e\<rparr> kc =
           (\<lparr>sr_data = rest, sr_end = e\<rparr>, Inr (overlay (read_request root c) old))"
      show thesis
        by (rule that [OF s(1,2) _ r(2,3)]) (simp add: r(1) landed_def)
    qed
  qed
qed

text \<open>
  The device serves a session, the client does a list of jobs on the same stream; \<open>up\<close> are the
  requests after the first, \<open>down\<close> is all the device sends.
\<close>

lemma session_of_jobs:
  assumes keys: "key_ready cr kc" "key_ready cr ks" and nonces: "\<And>k. nonces_drawn (rs k)" "\<And>j. nonce_drawn (rc j)"
    and ok: "ok_sendable cd"
  shows "reliable snkS \<Longrightarrow> reliable snkC \<Longrightarrow>
    \<forall>x \<in> set (c # cs). job_ready cd home m root content (resolveDestPath lp ld sr) place ml x \<Longrightarrow>
    \<forall>x \<in> set (c\<lparr>ch_Offset := off\<rparr> # effective off cs).
       in_range (content (ch_RelPath x)) (ch_Offset x) (ch_Length x) \<Longrightarrow>
    \<exists>w0 up down srcS snkS' snkC'.
      (\<forall>old rest e. readEncryptedMsg cr (dec_req cd old) \<lparr>sr_data = w0 @ rest, sr_end = e\<rparr> kc =
         (\<lparr>sr_data = rest, sr_end = e\<rparr>, Inr (overlay (read_request root c) old))) \<and>
      quicServeSession cd cr rs home k m (read_request root (c\<lparr>ch_Offset := off\<rparr>)) ks kc
        \<lparr>sr_data = up, sr_end = ErrEOF\<rparr> snkS = (m, srcS, snkS') \<and> appended snkS down snkS' \<and>
      read_jobs cd cr rc kc ks root lp ld sr j (c # cs) ml \<lparr>sr_data = down, sr_end = ErrEOF\<rparr> snkC =
        (foldl (landed content place) ml (zip (c # cs) (c\<lparr>ch_Offset := off\<rparr> # effective off cs)),
         \<lparr>sr_data = [], sr_end = ErrEOF\<rparr>, snkC', None) \<and>
      appended snkC (w0 @ up) snkC'"
proof (induction cs arbitrary: c off k j ml snkS snkC)
  case Nil
  have pre: "job_ready cd home m root content (resolveDestPath lp ld sr) place ml c"
    "in_range (content (ch_RelPath c)) off (ch_Length c)" using Nil.prems by simp_all
  show ?case
  proof (rule one_exchange [OF keys nonces(1) nonces(2) ok Nil.prems(1,2) pre, of k j])
    fix w0 down snkS' snkC'
    assume x: "\<And>src. serve_step cd cr (rs k) home m (read_request root (c\<lparr>ch_Offset := off\<rparr>)) ks kc src snkS = (m, src, snkS', True)"
      "appended snkS down snkS'"
      "\<And>rest e. quicReadOneChunk cd cr (rc j) kc ks root c lp ld sr ml \<lparr>sr_data = down @ rest, sr_end = e\<rparr> snkC =
         (landed content place ml (c, c\<lparr>ch_Offset := off\<rparr>), \<lparr>sr_data = rest, sr_end = e\<rparr>, snkC', None)"
      "appended snkC w0 snkC'"
      "\<And>old rest e. readEncryptedMsg cr (dec_req cd old) \<lparr>sr_data = w0 @ rest, sr_end = e\<rparr> kc =
         (\<lparr>sr_data = rest, sr_end = e\<rparr>, Inr (overlay (read_request root c) old))"
    have "quicServeSession cd cr rs home k m (read_request root (c\<lparr>ch_Offset := off\<rparr>)) ks kc
        \<lparr>sr_data = [], sr_end = ErrEOF\<rparr> snkS = (m, \<lparr>sr_data = [], sr_end = ErrEOF\<rparr>, snkS')"
      by (subst quicServeSession.simps) (simp add: x(1) readEncryptedMsg_def readFrame_def read_full_def Let_def)
    with x(2,4,5) x(3) [of "[]" ErrEOF] show ?case
      by (intro exI [of _ w0] exI [of _ "[]"] exI [of _ down]) auto
  qed
next
  case (Cons c2 cs)
  define off2 where "off2 = (if ch_Offset c2 = 0 then off else ch_Offset c2)"
  have pre: "job_ready cd home m root content (resolveDestPath lp ld sr) place ml c"
    "in_range (content (ch_RelPath c)) off (ch_Length c)" using Cons.prems by simp_all
  show ?case
  proof (rule one_exchange [OF keys nonces(1) nonces(2) ok Cons.prems(1,2) pre, of k j])
    fix w0 down snkS1 snkC1
    assume x: "\<And>src. serve_step cd cr (rs k) home m (read_request root (c\<lparr>ch_Offset := off\<rparr>)) ks kc src snkS = (m, src, snkS1, True)"
      "appended snkS down snkS1"
      "\<And>rest e. quicReadOneChunk cd cr (rc j) kc ks root c lp ld sr ml \<lparr>sr_data = down @ rest, sr_end = e\<rparr> snkC =
         (landed content place ml (c, c\<lparr>ch_Offset := off\<rparr>), \<lparr>sr_data = rest, sr_end = e\<rparr>, snkC1, None)"
      "appended snkC w0 snkC1"
      "\<And>old rest e. readEncryptedMsg cr (dec_req cd old) \<lparr>sr_data = w0 @ rest, sr_end = e\<rparr> kc =
         (\<lparr>sr_data = rest, sr_end = e\<rparr>, Inr (overlay (read_request root c) old))"
    let ?ml = "landed content place ml (c, c\<lparr>ch_Offset := off\<rparr>)"
    have r: "reliable snkS1" "reliable snkC1"
      using appended_reliable [OF x(2) Cons.prems(1)] appended_reliable [OF x(4) Cons.prems(2)] by simp_all
    have "\<forall>x \<in> set (c2 # cs). job_ready cd home m root content (resolveDestPath lp ld sr) place ?ml x"
      using Cons.prems(3) by (simp add: job_ready_shape [OF landed_shape])
    moreover have "\<forall>x \<in> set (c2\<lparr>ch_Offset := off2\<rparr> # effective off2 cs).
       in_range (content (ch_RelPath x)) (ch_Offset x) (ch_Length x)"
      using Cons.prems(4) by (simp add: off2_def Let_def)
    ultimately obtain w1 up down' srcS snkS' snkC' where y:
      "\<And>old rest e. readEncryptedMsg cr (dec_req cd old) \<lparr>sr_data = w1 @ rest, sr_end = e\<rparr> kc =
         (\<lparr>sr_data = rest, sr_end = e\<rparr>, Inr (overlay (read_request root c2) old))"
      "quicServeSession cd cr rs home (Suc k) m (read_request root (c2\<lparr>ch_Offset := off2\<rparr>)) ks kc
        \<lparr>sr_data = up, sr_end = ErrEOF\<rparr> snkS1 = (m, srcS, snkS')" "appended snkS1 down' snkS'"
      "read_jobs cd cr rc kc ks root lp ld sr (Suc j) (c2 # cs) ?ml \<lparr>sr_data = down', sr_end = ErrEOF\<rparr> snkC1 =
        (foldl (landed content place) ?ml (zip (c2 # cs) (c2\<lparr>ch_Offset := off2\<rparr> # effective off2 cs)),
         \<lparr>sr_data = [], sr_end = ErrEOF\<rparr>, snkC', None)"
      "appended snkC1 (w1 @ up) snkC'"
      using Cons.IH [OF r, of c2 ?ml off2 "Suc k" "Suc j"] by blast
    have c2: "ch_RelPath c2 \<noteq> []" "ch_Length c2 \<noteq> 0" using Cons.prems(3) by (auto simp: job_ready_def)
    have ov: "overlay (read_request root c2) (read_request root (c\<lparr>ch_Offset := off\<rparr>)) =
        read_request root (c2\<lparr>ch_Offset := off2\<rparr>)"
      by (subst overlay_read [OF c2]) (simp add: off2_def)
    have "quicServeSession cd cr rs home k m (read_request root (c\<lparr>ch_Offset := off\<rparr>)) ks kc
        \<lparr>sr_data = w1 @ up, sr_end = ErrEOF\<rparr> snkS = (m, srcS, snkS')"
      by (subst quicServeSession.simps) (simp add: x(1) y(1,2) ov)
    moreover have "read_jobs cd cr rc kc ks root lp ld sr j (c # c2 # cs) ml
        \<lparr>sr_data = down @ down', sr_end = ErrEOF\<rparr> snkC =
        (foldl (landed content place) ml (zip (c # c2 # cs) (c\<lparr>ch_Offset := off\<rparr> # effective off (c2 # cs))),
         \<lparr>sr_data = [], sr_end = ErrEOF\<rparr>, snkC', None)"
      using y(4) by (subst read_jobs.simps(2)) (simp add: x(3) off2_def Let_def)
    ultimately show ?case
      using x(5) appended_trans [OF x(2) y(3)] appended_trans [OF x(4) y(5)] by blast
  qed
qed


section \<open>What the jobs leave in the client's files\<close>

lemma effective_id:
  "successively (\<lambda>a b. ch_Offset b \<noteq> 0 \<or> ch_Offset a = 0) (c # cs) \<Longrightarrow> effective (ch_Offset c) cs = cs"
proof (induction cs arbitrary: c)
  case (Cons d ds)
  then have "ch_Offset d \<noteq> 0 \<or> ch_Offset c = 0" "effective (ch_Offset d) ds = ds" by auto
  then show ?case by (cases d) (auto simp: Let_def)
qed simp

lemma landed_other: "q \<noteq> place (ch_RelPath (fst cc)) \<Longrightarrow> node_at (landed content place m cc) q = node_at m q"
  by (cases cc) (auto simp: landed_def file_put_def write_at_def split: option.splits inode_kind.splits)

lemma file_put_kind:
  "node_at m q = Some nd \<Longrightarrow> kind nd = Regular b \<Longrightarrow>
   \<exists>nd'. node_at (file_put q off p m) q = Some nd' \<and> kind nd' = Regular (patch_at off p b)"
  by (auto simp: file_put_def write_at_def patch_at_def)

lemma landed_file:
  "\<forall>c \<in> set cs. ch_RelPath c = rel \<Longrightarrow> node_at m (place rel) = Some nd \<Longrightarrow> kind nd = Regular acc \<Longrightarrow>
   \<exists>nd'. node_at (foldl (landed content place) m (zip cs cs)) (place rel) = Some nd' \<and>
     kind nd' = Regular (foldl (put_chunk (content rel)) acc cs)"
proof (induction cs arbitrary: m nd acc)
  case (Cons c cs)
  from Cons.prems have l: "landed content place m (c, c) =
      file_put (place rel) (nat (ch_Offset c)) (byte_range (content rel) (ch_Offset c) (ch_Length c)) m"
    by (simp add: landed_def)
  obtain nd' where "node_at (landed content place m (c, c)) (place rel) = Some nd'"
    "kind nd' = Regular (put_chunk (content rel) acc c)"
    using file_put_kind [OF Cons.prems(2,3)] unfolding l put_chunk_def byte_range_def by blast
  from Cons.IH [OF _ this] Cons.prems(1) show ?case by simp
qed auto

lemma landed_others:
  "\<forall>cc \<in> set ccs. q \<noteq> place (ch_RelPath (fst cc)) \<Longrightarrow> node_at (foldl (landed content place) m ccs) q = node_at m q"
  by (induction ccs arbitrary: m) (auto simp: landed_other)

text \<open>The chunks of one file's plan come in the order of their offsets.\<close>

lemma tiles_effective:
  assumes "tiles rel 0 n (c # cs)" "0 < n"
  shows "ch_Offset c = 0" "effective 0 cs = cs" "\<forall>x \<in> set cs. 0 < ch_Offset x"
proof -
  obtain x where x: "x \<in> set (c # cs)" "holds_byte x 0"
    using assms unfolding tiles_def by (metis order_refl)
  have le: "0 \<le> ch_Offset c" "0 < ch_Length c" using assms(1) by (auto simp: tiles_def chunk_in_def)
  show pos: "\<forall>x \<in> set cs. 0 < ch_Offset x"
    using assms(1) le unfolding tiles_def before_def by fastforce
  with x show c0: "ch_Offset c = 0"
    using assms(1) by (auto simp: holds_byte_def tiles_def chunk_in_def)
  have "successively (\<lambda>a b. ch_Offset b \<noteq> 0 \<or> ch_Offset a = 0) (d # ds)" if "\<forall>x \<in> set ds. 0 < ch_Offset x" for d ds
    using that by (induction ds arbitrary: d) auto
  from effective_id [OF this [OF pos, of c]] c0 show "effective 0 cs = cs" by simp
qed

definition jobs_ready ::
  "codec \<Rightarrow> string result \<Rightarrow> fs \<Rightarrow> string \<Rightarrow> (string \<Rightarrow> bytes) \<Rightarrow> (string \<Rightarrow> string) \<Rightarrow> (string \<Rightarrow> string list)
     \<Rightarrow> fs \<Rightarrow> transferChunk list \<Rightarrow> bool" where
  "jobs_ready cd home m root content dest place ml cs \<longleftrightarrow>
     ok_sendable cd \<and> (\<forall>c \<in> set cs. job_ready cd home m root content dest place ml c)"

section \<open>Properties\<close>

text \<open>
  Property C3 (quic_file_arrives): a worker that gets all the chunks of one file in the order of
  the plan, over a stream on which both sides hold the session keys, ends without an error with
  exactly the device's content in its pre-sized destination; no other file of the client and no
  file of the device changes.
\<close>

theorem quic_file_arrives:
  assumes "key_ready cr kc" "key_ready cr ks" "\<And>k. nonces_drawn (rs k)" "\<And>j. nonce_drawn (rc j)"
    and "reliable snkS" "reliable snkC"
    and "plannable [e]" "\<not> me_IsDir e" "me_Size e = int (length b)" "b \<noteq> []"
    and "planChunks [e] = Some (c # cs)"
    and "jobs_ready cd home m root (\<lambda>_. b) (resolveDestPath lp ld sr) (\<lambda>_. q) ml (c # cs)"
    and "node_at ml q = Some nd" "kind nd = Regular (replicate (length b) (char_of (0::nat)))"
  shows "\<exists>w0 up down srcS snkS' snkC' ml' nd'.
      readEncryptedMsg cr (dec_req cd zero_req) \<lparr>sr_data = w0, sr_end = ErrEOF\<rparr> kc =
        (\<lparr>sr_data = [], sr_end = ErrEOF\<rparr>, Inr (read_request root c)) \<and>
      quicServeSession cd cr rs home 0 m (read_request root c) ks kc \<lparr>sr_data = up, sr_end = ErrEOF\<rparr> snkS =
        (m, srcS, snkS') \<and>
      appended snkS down snkS' \<and> appended snkC (w0 @ up) snkC' \<and>
      read_jobs cd cr rc kc ks root lp ld sr 0 (c # cs) ml \<lparr>sr_data = down, sr_end = ErrEOF\<rparr> snkC =
        (ml', \<lparr>sr_data = [], sr_end = ErrEOF\<rparr>, snkC', None) \<and>
      node_at ml' q = Some nd' \<and> kind nd' = Regular b \<and> (\<forall>p. p \<noteq> q \<longrightarrow> node_at ml' p = node_at ml p)"
proof -
  obtain cs' where cs': "planChunks [e] = Some cs'"
    "tiles (me_RelPath e) 0 (file_span e) (chunks_of (me_RelPath e) cs')"
    "\<forall>rel. rel \<noteq> me_RelPath e \<longrightarrow> chunks_of rel cs' = []"
    using planChunks_tiles [OF assms(7)] by auto
  have eq: "cs' = c # cs" using cs'(1) assms(11) by simp
  have rel: "\<forall>x \<in> set (c # cs). ch_RelPath x = me_RelPath e"
    using cs'(3) unfolding eq chunks_of_def filter_empty_conv by blast
  then have "chunks_of (me_RelPath e) (c # cs) = c # cs" by (auto simp: chunks_of_def filter_id_conv)
  then have t: "tiles (me_RelPath e) 0 (int (length b)) (c # cs)"
    using cs'(2) assms(8,9) by (simp add: eq file_span_def)
  have eff: "ch_Offset c = 0" "effective 0 cs = cs" using tiles_effective [OF t] assms(10) by auto
  have c0: "c\<lparr>ch_Offset := 0\<rparr> = c" using eff(1) by (cases c) simp
  have rng: "\<forall>x \<in> set (c\<lparr>ch_Offset := 0\<rparr> # effective 0 cs). in_range b (ch_Offset x) (ch_Length x)"
    using t by (auto simp: c0 eff tiles_def chunk_in_def in_range_def)
  have jobs: "\<forall>x \<in> set (c # cs). job_ready cd home m root (\<lambda>_. b) (resolveDestPath lp ld sr) (\<lambda>_. q) ml x"
    and ok: "ok_sendable cd" using assms(12) unfolding jobs_ready_def by blast+
  obtain w0 up down srcS snkS' snkC' where s:
    "\<And>old rest e. readEncryptedMsg cr (dec_req cd old) \<lparr>sr_data = w0 @ rest, sr_end = e\<rparr> kc =
       (\<lparr>sr_data = rest, sr_end = e\<rparr>, Inr (overlay (read_request root c) old))"
    "quicServeSession cd cr rs home 0 m (read_request root c) ks kc \<lparr>sr_data = up, sr_end = ErrEOF\<rparr> snkS =
       (m, srcS, snkS')" "appended snkS down snkS'"
    "read_jobs cd cr rc kc ks root lp ld sr 0 (c # cs) ml \<lparr>sr_data = down, sr_end = ErrEOF\<rparr> snkC =
       (foldl (landed (\<lambda>_. b) (\<lambda>_. q)) ml (zip (c # cs) (c # cs)), \<lparr>sr_data = [], sr_end = ErrEOF\<rparr>, snkC', None)"
    "appended snkC (w0 @ up) snkC'"
    using session_of_jobs [where rs = rs and rc = rc and k = 0 and j = 0, OF assms(1-4) ok assms(5,6) jobs rng] unfolding c0 eff by blast
  define ml' where "ml' = foldl (landed (\<lambda>_. b) (\<lambda>_. q)) ml (zip (c # cs) (c # cs))"
  have "\<exists>nd'. node_at ml' q = Some nd' \<and> kind nd' = Regular b"
    using landed_file [OF rel, of ml "\<lambda>_. q" nd "replicate (length b) (char_of (0::nat))" "\<lambda>_. b"] assms(13,14)
      tiles_rebuild [OF t refl, of "replicate (length b) (char_of (0::nat))"]
    unfolding ml'_def by simp
  moreover have "\<forall>p. p \<noteq> q \<longrightarrow> node_at ml' p = node_at ml p"
    unfolding ml'_def by (intro allI impI landed_others) simp
  moreover have "readEncryptedMsg cr (dec_req cd zero_req) \<lparr>sr_data = w0, sr_end = ErrEOF\<rparr> kc =
      (\<lparr>sr_data = [], sr_end = ErrEOF\<rparr>, Inr (read_request root c))"
    using s(1) [of zero_req "[]" ErrEOF] by (simp add: overlay_zero)
  ultimately show ?thesis using s(2-5) unfolding ml'_def [symmetric] by blast
qed


text \<open>
  A worker whose stream has served a chunk at an offset
  other than 0 next asks for the first chunk of another file. The request omits the offset 0, the
  device decodes it over the request before, and sends the bytes at the old offset: the client
  writes them to the start of the other file, and neither side reports an error.
\<close>

theorem quic_offset_carried_over:
  assumes "key_ready cr kc" "key_ready cr ks" "\<And>k. nonces_drawn (rs k)" "\<And>j. nonce_drawn (rc j)"
    and "reliable snkS" "reliable snkC"
    and "jobs_ready cd home m root content (resolveDestPath lp ld sr) place ml [c, c2]"
    and "0 < ch_Offset c" "ch_Offset c2 = 0"
    and "in_range (content (ch_RelPath c)) (ch_Offset c) (ch_Length c)"
    and "in_range (content (ch_RelPath c2)) (ch_Offset c) (ch_Length c2)"
  shows "\<exists>w0 up down srcS snkS' snkC'.
      readEncryptedMsg cr (dec_req cd zero_req) \<lparr>sr_data = w0, sr_end = ErrEOF\<rparr> kc =
        (\<lparr>sr_data = [], sr_end = ErrEOF\<rparr>, Inr (read_request root c)) \<and>
      quicServeSession cd cr rs home 0 m (read_request root c) ks kc \<lparr>sr_data = up, sr_end = ErrEOF\<rparr> snkS =
        (m, srcS, snkS') \<and>
      appended snkS down snkS' \<and> appended snkC (w0 @ up) snkC' \<and>
      read_jobs cd cr rc kc ks root lp ld sr 0 [c, c2] ml \<lparr>sr_data = down, sr_end = ErrEOF\<rparr> snkC =
        (file_put (place (ch_RelPath c2)) 0 (byte_range (content (ch_RelPath c2)) (ch_Offset c) (ch_Length c2))
          (file_put (place (ch_RelPath c)) (nat (ch_Offset c))
            (byte_range (content (ch_RelPath c)) (ch_Offset c) (ch_Length c)) ml),
         \<lparr>sr_data = [], sr_end = ErrEOF\<rparr>, snkC', None)"
proof -
  have jobs: "\<forall>x \<in> set [c, c2]. job_ready cd home m root content (resolveDestPath lp ld sr) place ml x"
    and ok: "ok_sendable cd" using assms(7) unfolding jobs_ready_def by blast+
  have c: "c\<lparr>ch_Offset := ch_Offset c\<rparr> = c" by (cases c) simp
  have rng: "\<forall>x \<in> set (c\<lparr>ch_Offset := ch_Offset c\<rparr> # effective (ch_Offset c) [c2]).
      in_range (content (ch_RelPath x)) (ch_Offset x) (ch_Length x)"
    using assms(9-11) by (simp add: Let_def)
  obtain w0 up down srcS snkS' snkC' where s:
    "\<And>old rest e. readEncryptedMsg cr (dec_req cd old) \<lparr>sr_data = w0 @ rest, sr_end = e\<rparr> kc =
       (\<lparr>sr_data = rest, sr_end = e\<rparr>, Inr (overlay (read_request root c) old))"
    "quicServeSession cd cr rs home 0 m (read_request root c) ks kc \<lparr>sr_data = up, sr_end = ErrEOF\<rparr> snkS =
       (m, srcS, snkS')" "appended snkS down snkS'"
    "read_jobs cd cr rc kc ks root lp ld sr 0 [c, c2] ml \<lparr>sr_data = down, sr_end = ErrEOF\<rparr> snkC =
       (foldl (landed content place) ml (zip [c, c2] (c # effective (ch_Offset c) [c2])), \<lparr>sr_data = [], sr_end = ErrEOF\<rparr>, snkC', None)"
    "appended snkC (w0 @ up) snkC'"
    using session_of_jobs [where rs = rs and rc = rc and k = 0 and j = 0, OF assms(1-4) ok assms(5,6) jobs rng]
    unfolding c by blast
  have fold: "foldl (landed content place) ml (zip [c, c2] (c # effective (ch_Offset c) [c2])) =
      file_put (place (ch_RelPath c2)) 0 (byte_range (content (ch_RelPath c2)) (ch_Offset c) (ch_Length c2))
          (file_put (place (ch_RelPath c)) (nat (ch_Offset c))
            (byte_range (content (ch_RelPath c)) (ch_Offset c) (ch_Length c)) ml)"
    using assms(9) by (simp add: landed_def Let_def)
  have "readEncryptedMsg cr (dec_req cd zero_req) \<lparr>sr_data = w0, sr_end = ErrEOF\<rparr> kc =
      (\<lparr>sr_data = [], sr_end = ErrEOF\<rparr>, Inr (read_request root c))"
    using s(1) [of zero_req "[]" ErrEOF] by (simp add: overlay_zero)
  with s(2,3,5) s(4) [unfolded fold] show ?thesis by blast
qed

text \<open>
  The device answers a list request with the whole
  manifest in one message. When that message passes the reader's limit of 1 MiB (about ten thousand
  files), the device has sent it without an error and the client's request fails.
\<close>

theorem quic_large_manifest_fails:
  assumes "key_ready cr ks" "nonce_drawn rnd" "reliable snk"
    and "remoteRootAndBase home (rq_Path req) = Inr (root, base)"
    and "buildManifest fuel m root (rq_Recursive req) = Some (Inr entries)"
    and "enc_resp cd (ok_response entries) = Inr b" "maxMsgSize < length b + 28" "length b + 28 < 2 ^ 32"
  shows "\<exists>wire snk'. quicServeList cd cr rnd fuel home m req ks snk = Some snk' \<and> appended snk wire snk' \<and>
    snd (readEncryptedMsg cr (dec_resp cd zero_resp) \<lparr>sr_data = wire @ rest, sr_end = e\<rparr> ks) =
      Inl (Errorf (''message too large: '' @ dec_nat (length b + 28) @ '' bytes''))"
proof -
  have k: "aead_ok cr" "length ks = 32" using assms(1) by (simp_all add: key_ready_def)
  obtain ct where ct: "EncryptPayload cr rnd b ks = Inr ct"
    using EncryptPayload_total [OF k assms(2)] by blast
  note l = EncryptPayload_length [OF k assms(2) ct]
  let ?snk = "snk\<lparr>sk_data := sk_data snk @ frame ct, sk_count := sk_count snk + 2\<rparr>"
  have "quicServeList cd cr rnd fuel home m req ks snk = Some ?snk"
    using assms(3-6) ct
    by (simp add: quicServeList_def reply_def writeEncryptedMsg_def writeFrame_reliable reliable_def)
  moreover have "readEncryptedMsg cr (dec_resp cd zero_resp) \<lparr>sr_data = frame ct @ rest, sr_end = e\<rparr> ks =
      (\<lparr>sr_data = ct @ rest, sr_end = e\<rparr>, Inl (Errorf (''message too large: '' @ dec_nat (length b + 28) @ '' bytes'')))"
    using readFrame_too_large [of ct rest e] assms(7,8) l by (simp add: readEncryptedMsg_def)
  ultimately show ?thesis
    by (intro exI [of _ "frame ct"] exI [of _ ?snk]) (simp add: appended_def)
qed


section \<open>Examples\<close>

definition demo_key :: bytes where
  "demo_key = replicate 32 CHR ''k''"

definition demo_nonce :: "bytes result" where
  "demo_nonce = Inr (replicate 12 CHR ''n'')"

definition demo_job :: "string \<Rightarrow> int \<Rightarrow> int \<Rightarrow> transferChunk" where
  "demo_job rel off n = \<lparr>ch_RelPath = rel, ch_Offset = off, ch_Length = n\<rparr>"

lemma demo_job_sel [simp]:
  "ch_RelPath (demo_job r a b) = r" "ch_Offset (demo_job r a b) = a" "ch_Length (demo_job r a b) = b"
  by (simp_all add: demo_job_def)

text \<open>A codec that knows three requests and two responses.\<close>

definition demo_reqs :: "fsRequest list" where
  "demo_reqs = [read_request ''/h'' (demo_job ''h/a'' 1 2), read_request ''/h'' (demo_job ''h/d/b'' 0 2),
     read_request ''/h'' (demo_job ''h/a'' 0 3)]"

definition demo_codec :: codec where
  "demo_codec = \<lparr>enc_route = (\<lambda>_. Inr []),
     enc_req = (\<lambda>r. Inr (if r = demo_reqs ! 0 then ''0'' else if r = demo_reqs ! 1 then ''1'' else ''2'')),
     dec_req = (\<lambda>old b. Inr (overlay (demo_reqs ! (if b = ''0'' then 0 else if b = ''1'' then 1 else 2)) old)),
     enc_resp = (\<lambda>r. Inr (if rs_Entries r = [] then ''o'' else replicate 1048576 CHR ''x'')),
     dec_resp = (\<lambda>old b. Inr (ok_response [])),
     enc_key = Inr, dec_key = Inr, dec_relay = (\<lambda>_. Inl ErrEOF)\<rparr>"

lemma demo_key_ready: "key_ready toy_crypto demo_key"
  using toy_crypto_ok by (simp add: key_ready_def demo_key_def crypto_ok_def)

lemma demo_nonces: "nonces_drawn (\<lambda>_. demo_nonce)" "nonce_drawn demo_nonce"
  by (simp_all add: nonces_drawn_def demo_nonce_def)

lemma demo_sink: "reliable empty_sink"
  by (simp add: reliable_def empty_sink_def)

lemma demo_codec_ok: "ok_sendable demo_codec"
  by (simp add: ok_sendable_def sendable_def demo_codec_def ok_response_def maxMsgSize_value)

lemma demo_json:
  "json_ok demo_codec (read_request ''/h'' (demo_job ''h/a'' 1 2))"
  "json_ok demo_codec (read_request ''/h'' (demo_job ''h/d/b'' 0 2))"
  "json_ok demo_codec (read_request ''/h'' (demo_job ''h/a'' 0 3))"
  by (simp_all add: json_ok_def demo_codec_def demo_reqs_def maxMsgSize_value read_request_def demo_job_def zero_req_def)

lemma demo_root: "remoteRootAndBase (Inr ''/h'') ''/h'' = Inr (''/h'', ''/'')"
  by (simp add: remoteRootAndBase_def resolvePath_def IsAbs_def Clean_def comps_def clean_comps_def clean_step_def
      spell_def Dir_def)

lemma demo_joins: "Join ''/'' ''h/a'' = ''/h/a''" "Join ''/'' ''h/d/b'' = ''/h/d/b''"
  by (simp_all add: Join_def IsAbs_def Clean_def comps_def clean_comps_def clean_step_def spell_def)

lemma demo_stats:
  "stat_at True op demo_fs ''/h/a'' = Inr ([''h'', ''a''], demo_file ''one'')"
  "stat_at True op demo_fs ''/h/d/b'' = Inr ([''h'', ''d'', ''b''], demo_file ''two'')"
  by (simp_all add: stat_at_def resolve_def IsAbs_def demo_nodes demo_dir_def demo_file_def)

definition demo_content :: "string \<Rightarrow> bytes" where
  "demo_content rel = (if rel = ''h/a'' then ''one'' else ''two'')"

definition demo_place :: "string \<Rightarrow> string list" where
  "demo_place rel = (if rel = ''h/a'' then [''h'', ''a''] else [''h'', ''d'', ''b''])"

lemma demo_file_simps: "kind (demo_file b) = Regular b" "\<not> is_dir (demo_file b)"
  by (simp_all add: demo_file_def is_dir_def)

lemma demo_jobs:
  "jobs_ready demo_codec (Inr ''/h'') demo_fs ''/h'' demo_content (resolveDestPath ''/'' True []) demo_place demo_fs
     [demo_job ''h/a'' 1 2, demo_job ''h/d/b'' 0 2]"
  using demo_codec_ok demo_json
  by (simp add: jobs_ready_def job_ready_def can_read_def demo_root demo_joins demo_stats os_Open_def open_write_def
      resolveDestPath_def demo_content_def demo_place_def demo_file_simps)

text \<open>The first two bytes of \<open>two\<close> arrive as \<open>wo\<close>.\<close>

theorem quic_offset_carried_over_witness:
  "\<exists>down snkC'. snd (read_jobs demo_codec toy_crypto (\<lambda>_. demo_nonce) demo_key demo_key ''/h'' ''/'' True [] 0
     [demo_job ''h/a'' 1 2, demo_job ''h/d/b'' 0 2] demo_fs \<lparr>sr_data = down, sr_end = ErrEOF\<rparr> empty_sink) =
       (\<lparr>sr_data = [], sr_end = ErrEOF\<rparr>, snkC', None) \<and>
   map_option kind (node_at (fst (read_jobs demo_codec toy_crypto (\<lambda>_. demo_nonce) demo_key demo_key ''/h'' ''/'' True [] 0
     [demo_job ''h/a'' 1 2, demo_job ''h/d/b'' 0 2] demo_fs \<lparr>sr_data = down, sr_end = ErrEOF\<rparr> empty_sink))
     [''h'', ''d'', ''b'']) = Some (Regular ''woo'')"
proof -
  have o: "0 < ch_Offset (demo_job ''h/a'' 1 2)" "ch_Offset (demo_job ''h/d/b'' 0 2) = 0"
    "in_range (demo_content (ch_RelPath (demo_job ''h/a'' 1 2))) (ch_Offset (demo_job ''h/a'' 1 2)) (ch_Length (demo_job ''h/a'' 1 2))"
    "in_range (demo_content (ch_RelPath (demo_job ''h/d/b'' 0 2))) (ch_Offset (demo_job ''h/a'' 1 2)) (ch_Length (demo_job ''h/d/b'' 0 2))"
    by (simp_all add: demo_job_def demo_content_def in_range_def)
  have f: "map_option kind (node_at (file_put (demo_place ''h/d/b'') 0 (byte_range (demo_content ''h/d/b'') 1 2)
      (file_put (demo_place ''h/a'') (nat 1) (byte_range (demo_content ''h/a'') 1 2) demo_fs)) [''h'', ''d'', ''b'']) =
      Some (Regular ''woo'')"
    by (simp add: file_put_def write_at_def demo_place_def demo_content_def byte_range_def patch_at_def demo_nodes
        demo_file_simps)
  obtain down snkC' where eq: "read_jobs demo_codec toy_crypto (\<lambda>_. demo_nonce) demo_key demo_key ''/h'' ''/'' True [] 0
      [demo_job ''h/a'' 1 2, demo_job ''h/d/b'' 0 2] demo_fs \<lparr>sr_data = down, sr_end = ErrEOF\<rparr> empty_sink =
      (file_put (demo_place ''h/d/b'') 0 (byte_range (demo_content ''h/d/b'') 1 2)
        (file_put (demo_place ''h/a'') (nat 1) (byte_range (demo_content ''h/a'') 1 2) demo_fs),
       \<lparr>sr_data = [], sr_end = ErrEOF\<rparr>, snkC', None)"
    using quic_offset_carried_over [OF demo_key_ready demo_key_ready demo_nonces demo_sink demo_sink demo_jobs o,
      unfolded demo_job_sel] by blast
  show ?thesis
    by (rule exI [of _ down], rule exI [of _ snkC']) (simp only: eq fst_conv snd_conv f simp_thms)
qed

text \<open>A pre-sized file of three bytes that receives the content \<open>one\<close>.\<close>

definition demo_local :: fs where
  "demo_local = put_node [''h'', ''a''] (demo_file (replicate 3 (char_of (0::nat)))) demo_fs"

lemma demo_local_stat: "stat_at True op demo_local ''/h/a'' = Inr ([''h'', ''a''], demo_file (replicate 3 (char_of (0::nat))))"
  by (simp add: stat_at_def resolve_def IsAbs_def demo_local_def demo_nodes demo_dir_def demo_file_def)

theorem quic_file_arrives_witness:
  "\<exists>down snkC' ml' nd'. read_jobs demo_codec toy_crypto (\<lambda>_. demo_nonce) demo_key demo_key ''/h'' ''/'' True [] 0
     [demo_job ''h/a'' 0 3] demo_local \<lparr>sr_data = down, sr_end = ErrEOF\<rparr> empty_sink =
       (ml', \<lparr>sr_data = [], sr_end = ErrEOF\<rparr>, snkC', None) \<and>
     node_at ml' [''h'', ''a''] = Some nd' \<and> kind nd' = Regular ''one''"
proof -
  have plan: "planChunks [demo_entry ''h/a'' 3] = Some [demo_job ''h/a'' 0 3]"
  proof -
    have "chunk_loop ''h/a'' 3 4194304 = Some []" by (subst chunk_loop.simps) simp
    then have "chunk_loop ''h/a'' 3 0 = Some [demo_job ''h/a'' 0 3]"
      by (subst chunk_loop.simps) (simp add: wrap64_def parallelChunkSize_def demo_job_def)
    then show ?thesis by (simp add: demo_entry_def)
  qed
  have e: "plannable [demo_entry ''h/a'' 3]" "\<not> me_IsDir (demo_entry ''h/a'' 3)"
    "me_Size (demo_entry ''h/a'' 3) = int (length ''one'')" "''one'' \<noteq> []"
    by (simp_all add: plannable_def demo_entry_def max_plannable_def)
  have jobs: "jobs_ready demo_codec (Inr ''/h'') demo_fs ''/h'' (\<lambda>_. ''one'') (resolveDestPath ''/'' True [])
      (\<lambda>_. [''h'', ''a'']) demo_local [demo_job ''h/a'' 0 3]"
    using demo_codec_ok demo_json
    by (simp add: jobs_ready_def job_ready_def can_read_def demo_root demo_joins demo_stats demo_local_stat os_Open_def
        open_write_def resolveDestPath_def demo_file_simps)
  have nd: "node_at demo_local [''h'', ''a''] = Some (demo_file (replicate 3 (char_of (0::nat))))"
    "kind (demo_file (replicate 3 (char_of (0::nat)))) = Regular (replicate (length ''one'') (char_of (0::nat)))"
    by (simp_all add: demo_local_def demo_file_simps numeral_3_eq_3)
  from quic_file_arrives [OF demo_key_ready demo_key_ready demo_nonces demo_sink demo_sink e plan jobs nd]
  show ?thesis by blast
qed

lemma demo_walk: "buildManifest 1 demo_fs ''/h/a'' False = Some (Inr [manifest_entry ''/h'' ''/h/a'' (demo_file ''one'')])"
proof -
  have "os_Lstat demo_fs ''/h/a'' = Inr ([''h'', ''a''], demo_file ''one'')"
    by (simp add: os_Lstat_def stat_at_def resolve_def IsAbs_def demo_nodes demo_dir_def demo_file_def)
  moreover have "Dir ''/h/a'' = ''/h''"
    by (simp add: Dir_def IsAbs_def Clean_def comps_def clean_comps_def clean_step_def spell_def)
  ultimately show ?thesis by (simp add: buildManifest_def demo_file_simps)
qed

theorem quic_large_manifest_fails_witness:
  "\<exists>wire snk'. quicServeList demo_codec toy_crypto demo_nonce 1 (Inr ''/h'') demo_fs
      (zero_req\<lparr>rq_Op := fsOpList, rq_Path := ''/h/a''\<rparr>) demo_key empty_sink = Some snk' \<and>
    appended empty_sink wire snk' \<and>
    snd (readEncryptedMsg toy_crypto (dec_resp demo_codec zero_resp) \<lparr>sr_data = wire @ [], sr_end = ErrEOF\<rparr> demo_key) =
      Inl (Errorf (''message too large: '' @ dec_nat (length (replicate 1048576 CHR ''x'') + 28) @ '' bytes''))"
proof (rule quic_large_manifest_fails [OF demo_key_ready demo_nonces(2) demo_sink])
  show "remoteRootAndBase (Inr ''/h'') (rq_Path (zero_req\<lparr>rq_Op := fsOpList, rq_Path := ''/h/a''\<rparr>)) = Inr (''/h/a'', ''/h'')"
    by (simp add: zero_req_def remoteRootAndBase_def resolvePath_def IsAbs_def Clean_def comps_def clean_comps_def
        clean_step_def spell_def Dir_def)
  show "buildManifest 1 demo_fs ''/h/a'' (rq_Recursive (zero_req\<lparr>rq_Op := fsOpList, rq_Path := ''/h/a''\<rparr>)) =
      Some (Inr [manifest_entry ''/h'' ''/h/a'' (demo_file ''one'')])"
    using demo_walk by (simp add: zero_req_def)
  show "enc_resp demo_codec (ok_response [manifest_entry ''/h'' ''/h/a'' (demo_file ''one'')]) =
      Inr (replicate 1048576 CHR ''x'')"
    by (simp add: demo_codec_def ok_response_def)
qed (simp_all add: maxMsgSize_value)

end
