(* ===== verification/P2PTransfer.thy ===== *)
theory P2PTransfer
  imports QuicTransfer
begin

text \<open>
  File transfers over WebRTC data channels (\<open>src/filestreamchannel.go\<close>,
  \<open>src/filestreamencryption.go\<close>, \<open>src/filetransferp2p.go\<close>): the encrypted envelopes, the key
  exchange on a channel, the device's handling of a channel and the client's workers.
\<close>

section \<open>Data channels\<close>

text \<open>
  A channel keeps messages apart and in order. The sending end records what was sent; the \<open>k\<close>-th
  call may fail, or find the channel closed. Waiting for buffer space changes no message and is
  left out.
\<close>

datatype dc_msg = TextMsg (dc_data: bytes) | BinMsg (dc_data: bytes)

record outbox =
  ob_sent :: "dc_msg list"
  ob_count :: nat
  ob_fail :: "nat \<Rightarrow> go_error option"
  ob_closed :: "nat \<Rightarrow> bool"

definition channel_send :: "outbox \<Rightarrow> dc_msg \<Rightarrow> outbox \<times> go_error option" where
  "channel_send ob msg = (case ob_fail ob (ob_count ob) of
     Some e \<Rightarrow> (ob\<lparr>ob_count := Suc (ob_count ob)\<rparr>, Some e)
   | None \<Rightarrow> (ob\<lparr>ob_sent := ob_sent ob @ [msg], ob_count := Suc (ob_count ob)\<rparr>, None))"

text \<open>
  The receiving end: the handler sorts the messages that decrypt into two queues, controls and
  data, each in the order of arrival; a full data queue delays the handler. \<open>recvPriority\<close> takes
  the next value; when none will come it answers the end: the channel closed, or time out.
\<close>

definition recvPriority :: "'a list \<Rightarrow> go_error \<Rightarrow> ('a \<times> 'a list) result" where
  "recvPriority q stop = (case q of [] \<Rightarrow> Inl stop | v # vs \<Rightarrow> Inr (v, vs))"

section \<open>Envelopes\<close>

definition p2pMsgControl :: char where
  "p2pMsgControl = char_of (0::nat)"

definition p2pMsgData :: char where
  "p2pMsgData = char_of (1::nat)"

definition fileStreamChunkSize :: nat where
  "fileStreamChunkSize = 65024"

definition sendEncryptedEnvelope ::
  "crypto \<Rightarrow> bytes result \<Rightarrow> outbox \<Rightarrow> char \<Rightarrow> bytes \<Rightarrow> bytes \<Rightarrow> outbox \<times> go_error option" where
  "sendEncryptedEnvelope cr rnd ob k plaintext key = (case EncryptPayload cr rnd plaintext key of
     Inl e \<Rightarrow> (ob, Some e)
   | Inr ciphertext \<Rightarrow> channel_send ob (BinMsg (k # ciphertext)))"

definition sendEncryptedJSON ::
  "crypto \<Rightarrow> bytes result \<Rightarrow> ('a \<Rightarrow> bytes result) \<Rightarrow> outbox \<Rightarrow> 'a \<Rightarrow> bytes \<Rightarrow> outbox \<times> go_error option" where
  "sendEncryptedJSON cr rnd marshal ob v key = (case marshal v of
     Inl e \<Rightarrow> (ob, Some e)
   | Inr plaintext \<Rightarrow> sendEncryptedEnvelope cr rnd ob p2pMsgControl plaintext key)"

definition decryptEnvelope :: "crypto \<Rightarrow> bytes \<Rightarrow> bytes \<Rightarrow> (char \<times> bytes) result" where
  "decryptEnvelope cr data key = (case data of
     [] \<Rightarrow> Inl (Errorf ''empty message'')
   | k # body \<Rightarrow> (case DecryptPayload cr body key of
       Inl e \<Rightarrow> Inl e
     | Inr plaintext \<Rightarrow> Inr (k, plaintext)))"

text \<open>\<open>sendEncryptedBytes\<close>; \<open>rnd k\<close> is the nonce of the \<open>k\<close>-th piece.\<close>

function sendEncryptedBytes ::
  "crypto \<Rightarrow> (nat \<Rightarrow> bytes result) \<Rightarrow> nat \<Rightarrow> outbox \<Rightarrow> bytes \<Rightarrow> bytes \<Rightarrow> outbox \<times> go_error option" where
  "sendEncryptedBytes cr rnd k ob data key =
     (if data = [] then (ob, None)
      else if ob_closed ob (ob_count ob) then (ob, Some ErrClosedPipe)
      else (let n = min fileStreamChunkSize (length data)
            in case sendEncryptedEnvelope cr (rnd k) ob p2pMsgData (take n data) key of
                 (ob', Some e) \<Rightarrow> (ob', Some e)
               | (ob', None) \<Rightarrow> sendEncryptedBytes cr rnd (Suc k) ob' (drop n data) key))"
  by pat_completeness auto
termination sendEncryptedBytes
  by (relation "measure (\<lambda>(cr, rnd, k, ob, data, key). length data)") (auto simp: fileStreamChunkSize_def)

declare sendEncryptedBytes.simps [simp del]

text \<open>The two queues a handler fills from the messages of a channel.\<close>

definition controls :: "crypto \<Rightarrow> bytes \<Rightarrow> (bytes \<Rightarrow> 'a result) \<Rightarrow> dc_msg list \<Rightarrow> 'a list" where
  "controls cr key dec msgs = List.map_filter (\<lambda>msg. case decryptEnvelope cr (dc_data msg) key of
     Inl _ \<Rightarrow> None
   | Inr (k, plaintext) \<Rightarrow>
       if k = p2pMsgControl then (case dec plaintext of Inl _ \<Rightarrow> None | Inr v \<Rightarrow> Some v) else None) msgs"

definition datas :: "crypto \<Rightarrow> bytes \<Rightarrow> dc_msg list \<Rightarrow> bytes list" where
  "datas cr key msgs = List.map_filter (\<lambda>msg. case decryptEnvelope cr (dc_data msg) key of
     Inl _ \<Rightarrow> None
   | Inr (k, plaintext) \<Rightarrow> if k = p2pMsgData then Some plaintext else None) msgs"

section \<open>The key exchange on a channel\<close>

definition sendWebRTCJSON :: "('a \<Rightarrow> bytes result) \<Rightarrow> outbox \<Rightarrow> 'a \<Rightarrow> outbox \<times> go_error option" where
  "sendWebRTCJSON marshal ob v = (case marshal v of Inl e \<Rightarrow> (ob, Some e) | Inr b \<Rightarrow> channel_send ob (TextMsg b))"

definition p2pServerKeyExchange ::
  "codec \<Rightarrow> crypto \<Rightarrow> bytes result \<Rightarrow> outbox \<Rightarrow> bytes \<Rightarrow> outbox \<times> (bytes \<times> bytes) result" where
  "p2pServerKeyExchange cd cr rnd ob firstMessage = (case dec_key cd firstMessage of
     Inl e \<Rightarrow> (ob, Inl e)
   | Inr clientKey \<Rightarrow>
       if length clientKey \<noteq> 32
       then (ob, Inl (Errorf (''invalid client public key length: '' @ dec_nat (length clientKey))))
       else (case ServerKeyExchange cr rnd clientKey of
         Inl e \<Rightarrow> (ob, Inl e)
       | Inr (publicKey, sendKey, receiveKey) \<Rightarrow> (case sendWebRTCJSON (enc_key cd) ob publicKey of
           (ob1, Some e) \<Rightarrow> (ob1, Inl e)
         | (ob1, None) \<Rightarrow> (ob1, Inr (sendKey, receiveKey)))))"

text \<open>The client takes the first text message that decodes; \<open>inbox\<close> is what the device sends.\<close>

fun peer_keys :: "codec \<Rightarrow> dc_msg list \<Rightarrow> bytes list" where
  "peer_keys cd [] = []"
| "peer_keys cd (BinMsg b # msgs) = peer_keys cd msgs"
| "peer_keys cd (TextMsg b # msgs) = (case dec_key cd b of
     Inl _ \<Rightarrow> peer_keys cd msgs | Inr k \<Rightarrow> k # peer_keys cd msgs)"

definition p2pClientKeyExchange ::
  "codec \<Rightarrow> crypto \<Rightarrow> bytes result \<Rightarrow> outbox \<Rightarrow> dc_msg list \<Rightarrow> go_error \<Rightarrow> outbox \<times> (bytes \<times> bytes) result" where
  "p2pClientKeyExchange cd cr rnd ob inbox stop = (case CreateX25519KeyPair cr rnd of
     Inl e \<Rightarrow> (ob, Inl e)
   | Inr (publicKey, privateKey) \<Rightarrow> (case sendWebRTCJSON (enc_key cd) ob publicKey of
       (ob1, Some e) \<Rightarrow> (ob1, Inl e)
     | (ob1, None) \<Rightarrow>
         (ob1,
          case recvPriority (peer_keys cd inbox) stop of
            Inl e \<Rightarrow> Inl e
          | Inr (peerKey, _) \<Rightarrow>
              if length peerKey \<noteq> 32
              then Inl (Errorf (''invalid peer public key length: '' @ dec_nat (length peerKey)))
              else ClientKeyExchangeKeys cr privateKey peerKey)))"


section \<open>Byte ranges over a channel\<close>

text \<open>
  The sending loop of \<open>serveWebRTCReadOnce\<close>: \<open>data\<close> are the bytes the file still has behind the
  position, \<open>rerr\<close> is what reading answers when they are used up. \<open>rnd k\<close> are the nonces of the
  \<open>k\<close>-th read.
\<close>

function send_range ::
  "crypto \<Rightarrow> (nat \<Rightarrow> nat \<Rightarrow> bytes result) \<Rightarrow> nat \<Rightarrow> outbox \<Rightarrow> bytes \<Rightarrow> go_error \<Rightarrow> int \<Rightarrow> bytes \<Rightarrow> outbox \<times> go_error option" where
  "send_range cr rnd k ob data rerr remaining key =
     (if \<not> remaining > 0 then (ob, None)
      else (let n = min (nat (min (int fileStreamChunkSize) remaining)) (length data)
            in if n = 0 then (ob, if rerr = ErrEOF then None else Some rerr)
               else case sendEncryptedBytes cr (rnd k) 0 ob (take n data) key of
                      (ob', Some e) \<Rightarrow> (ob', Some e)
                    | (ob', None) \<Rightarrow> send_range cr rnd (Suc k) ob' (drop n data) rerr (remaining - int n) key))"
  by pat_completeness auto
termination send_range
  by (relation "measure (\<lambda>(cr, rnd, k, ob, data, rerr, remaining, key). length data)") auto

declare send_range.simps [simp del]

text \<open>
  The receiving loop of both sides: the destination is a writer, \<open>stop\<close> is the
  error when no data comes any more, after so many bytes.
\<close>

fun recv_range ::
  "('w \<Rightarrow> bytes \<Rightarrow> 'w \<times> int \<times> go_error option) \<Rightarrow> int \<Rightarrow> int \<Rightarrow> 'w \<Rightarrow> bytes list \<Rightarrow> (int \<Rightarrow> go_error)
     \<Rightarrow> 'w \<times> bytes list \<times> go_error option" where
  "recv_range wr received n w [] stop = (w, [], if received < n then Some (stop received) else None)"
| "recv_range wr received n w (d # ds) stop =
     (if \<not> received < n then (w, d # ds, None)
      else case wr w d of
        (w', k, Some e) \<Rightarrow> (w', ds, Some e)
      | (w', k, None) \<Rightarrow> recv_range wr (received + k) n w' ds stop)"

section \<open>The device's side of a channel\<close>

definition p2p_reply :: "codec \<Rightarrow> crypto \<Rightarrow> bytes result \<Rightarrow> outbox \<Rightarrow> fsResponse \<Rightarrow> bytes \<Rightarrow> outbox \<times> go_error option" where
  "p2p_reply cd cr rnd ob resp key = sendEncryptedJSON cr rnd (enc_resp cd) ob resp key"

definition serveWebRTCList ::
  "codec \<Rightarrow> crypto \<Rightarrow> bytes result \<Rightarrow> nat \<Rightarrow> string result \<Rightarrow> fs \<Rightarrow> fsRequest \<Rightarrow> bytes \<Rightarrow> outbox \<Rightarrow> outbox option" where
  "serveWebRTCList cd cr rnd fuel home m req sendKey ob = (case remoteRootAndBase home (rq_Path req) of
     Inl e \<Rightarrow> Some (fst (p2p_reply cd cr rnd ob (err_response e) sendKey))
   | Inr (resolvedRoot, _) \<Rightarrow> (case buildManifest fuel m resolvedRoot (rq_Recursive req) of
       None \<Rightarrow> None
     | Some (Inl e) \<Rightarrow> Some (fst (p2p_reply cd cr rnd ob (err_response e) sendKey))
     | Some (Inr entries) \<Rightarrow> Some (fst (p2p_reply cd cr rnd ob (ok_response entries) sendKey))))"

definition serveWebRTCInit ::
  "codec \<Rightarrow> crypto \<Rightarrow> bytes result \<Rightarrow> string result \<Rightarrow> fs \<Rightarrow> fsRequest \<Rightarrow> bytes \<Rightarrow> outbox \<Rightarrow> fs \<times> outbox" where
  "serveWebRTCInit cd cr rnd home m req sendKey ob = (case remoteRootAndBase home (rq_Path req) of
     Inl e \<Rightarrow> (m, fst (p2p_reply cd cr rnd ob (err_response e) sendKey))
   | Inr (resolvedRoot, _) \<Rightarrow>
       (let rootIsDir = isRootDir m resolvedRoot (rq_SourceIsDir req) (rq_TargetIsDirHint req)
        in case materializeTargets (rq_Entries req) resolvedRoot rootIsDir m of
          (m1, Some e) \<Rightarrow> (m1, fst (p2p_reply cd cr rnd ob (err_response e) sendKey))
        | (m1, None) \<Rightarrow> (m1, fst (p2p_reply cd cr rnd ob (ok_response []) sendKey))))"

text \<open>
  The bytes behind the position of a request: it seeks only to a positive offset. Reading a
  directory fails.
\<close>

definition file_rest :: "string \<Rightarrow> inode \<Rightarrow> int \<Rightarrow> bytes \<times> go_error" where
  "file_rest p nd off = (case read_node p nd of
     Inr b \<Rightarrow> (drop (nat off) b, ErrEOF) | Inl e \<Rightarrow> ([], e))"

definition serveWebRTCReadOnce ::
  "codec \<Rightarrow> crypto \<Rightarrow> (nat \<Rightarrow> nat \<Rightarrow> bytes result) \<Rightarrow> string result \<Rightarrow> fs \<Rightarrow> fsRequest \<Rightarrow> bytes \<Rightarrow> outbox
     \<Rightarrow> outbox \<times> go_error option" where
  "serveWebRTCReadOnce cd cr rnd home m req sendKey ob = (case remoteRootAndBase home (rq_Path req) of
     Inl e \<Rightarrow> (fst (p2p_reply cd cr (rnd 0 0) ob (err_response e) sendKey), None)
   | Inr (_, basePath) \<Rightarrow>
       (let absPath = Join basePath (rq_RelPath req)
        in case os_Open m absPath of
          Inl e \<Rightarrow> (fst (p2p_reply cd cr (rnd 0 0) ob (err_response e) sendKey), None)
        | Inr (q, nd) \<Rightarrow> (case p2p_reply cd cr (rnd 0 0) ob (ok_response []) sendKey of
            (ob1, Some e) \<Rightarrow> (ob1, Some e)
          | (ob1, None) \<Rightarrow> (case file_rest absPath nd (rq_Offset req) of
              (data, rerr) \<Rightarrow> send_range cr rnd 1 ob1 data rerr (rq_Length req) sendKey))))"

definition serveWebRTCWriteOnce ::
  "codec \<Rightarrow> crypto \<Rightarrow> (nat \<Rightarrow> bytes result) \<Rightarrow> string result \<Rightarrow> fs \<Rightarrow> fsRequest \<Rightarrow> bytes \<Rightarrow> bytes list \<Rightarrow> go_error \<Rightarrow> outbox
     \<Rightarrow> fs \<times> bytes list \<times> outbox \<times> go_error option" where
  "serveWebRTCWriteOnce cd cr rnd home m req sendKey ds stop ob = (case remoteRootAndBase home (rq_Path req) of
     Inl e \<Rightarrow> (m, ds, fst (p2p_reply cd cr (rnd 0) ob (err_response e) sendKey), None)
   | Inr (resolvedRoot, _) \<Rightarrow>
       (let rootIsDir = isRootDir m resolvedRoot (rq_SourceIsDir req) (rq_TargetIsDirHint req);
            dest = resolveDestPath resolvedRoot rootIsDir (rq_RelPath req) (rq_RelPath req)
        in case open_write m dest of
          Inl e \<Rightarrow> (m, ds, fst (p2p_reply cd cr (rnd 0) ob (err_response e) sendKey), None)
        | Inr q \<Rightarrow> (case p2p_reply cd cr (rnd 0) ob (ok_response []) sendKey of
            (ob1, Some e) \<Rightarrow> (m, ds, ob1, Some e)
          | (ob1, None) \<Rightarrow> (case recv_range (file_write q) 0 (rq_Length req) (m, rq_Offset req) ds (\<lambda>_. stop) of
              ((m1, _), ds1, Some e) \<Rightarrow> (m1, ds1, ob1, Some e)
            | ((m1, _), ds1, None) \<Rightarrow> (case p2p_reply cd cr (rnd 1) ob1 (ok_response []) sendKey of
                (ob2, r) \<Rightarrow> (m1, ds1, ob2, r))))))"

text \<open>The session over the queue of requests; \<open>rnd k\<close> are the nonces of the \<open>k\<close>-th request.\<close>

fun serveFileStreamSession ::
  "codec \<Rightarrow> crypto \<Rightarrow> (nat \<Rightarrow> nat \<Rightarrow> nat \<Rightarrow> bytes result) \<Rightarrow> string result \<Rightarrow> nat \<Rightarrow> fs \<Rightarrow> fsRequest \<Rightarrow> bytes
     \<Rightarrow> fsRequest list \<Rightarrow> bytes list \<Rightarrow> go_error \<Rightarrow> outbox \<Rightarrow> fs \<times> outbox" where
  "serveFileStreamSession cd cr rnd home k m req sendKey reqs ds stop ob =
     (case (case rq_Op req of
         fsOpRead \<Rightarrow> (case serveWebRTCReadOnce cd cr (rnd k) home m req sendKey ob of
           (ob1, r) \<Rightarrow> (m, ds, ob1, r = None))
       | fsOpWrite \<Rightarrow> (case serveWebRTCWriteOnce cd cr (rnd k 0) home m req sendKey ds stop ob of
           (m1, ds1, ob1, r) \<Rightarrow> (m1, ds1, ob1, r = None))
       | _ \<Rightarrow> (m, ds, ob, False)) of
        (m1, ds1, ob1, False) \<Rightarrow> (m1, ob1)
      | (m1, ds1, ob1, True) \<Rightarrow> (case reqs of
          [] \<Rightarrow> (m1, ob1)
        | req' # reqs' \<Rightarrow> serveFileStreamSession cd cr rnd home (Suc k) m1 req' sendKey reqs' ds1 stop ob1))"

declare serveFileStreamSession.simps [simp del]

definition serveFileStreamChannel ::
  "codec \<Rightarrow> crypto \<Rightarrow> bytes result \<Rightarrow> (nat \<Rightarrow> nat \<Rightarrow> nat \<Rightarrow> bytes result) \<Rightarrow> nat \<Rightarrow> string result \<Rightarrow> fs \<Rightarrow> bytes
     \<Rightarrow> dc_msg list \<Rightarrow> go_error \<Rightarrow> outbox \<Rightarrow> (fs \<times> outbox) option" where
  "serveFileStreamChannel cd cr rnd0 rnd fuel home m firstMessage inbox stop ob =
     (case p2pServerKeyExchange cd cr rnd0 ob firstMessage of
        (ob1, Inl _) \<Rightarrow> Some (m, ob1)
      | (ob1, Inr (sendKey, receiveKey)) \<Rightarrow>
          (let reqs = controls cr receiveKey (dec_req cd zero_req) inbox; ds = datas cr receiveKey inbox
           in case recvPriority reqs stop of
             Inl _ \<Rightarrow> Some (m, ob1)
           | Inr (req, reqs') \<Rightarrow> (case rq_Op req of
               fsOpList \<Rightarrow> map_option (Pair m) (serveWebRTCList cd cr (rnd 0 0 0) fuel home m req sendKey ob1)
             | fsOpInit \<Rightarrow> Some (serveWebRTCInit cd cr (rnd 0 0 0) home m req sendKey ob1)
             | fsOpRead \<Rightarrow> Some (serveFileStreamSession cd cr rnd home 0 m req sendKey reqs' ds stop ob1)
             | fsOpWrite \<Rightarrow> Some (serveFileStreamSession cd cr rnd home 0 m req sendKey reqs' ds stop ob1)
             | fsOpOther _ \<Rightarrow> Some (m, ob1))))"

section \<open>The client's side\<close>

definition p2pRequest ::
  "codec \<Rightarrow> crypto \<Rightarrow> bytes result \<Rightarrow> bytes result \<Rightarrow> outbox result \<Rightarrow> dc_msg list \<Rightarrow> go_error \<Rightarrow> fsRequest
     \<Rightarrow> outbox option \<times> fsResponse result" where
  "p2pRequest cd cr rnd0 rnd channel inbox stop req = (case channel of
     Inl e \<Rightarrow> (None, Inl e)
   | Inr ob \<Rightarrow> (case p2pClientKeyExchange cd cr rnd0 ob inbox stop of
       (ob1, Inl e) \<Rightarrow> (Some ob1, Inl e)
     | (ob1, Inr (sendKey, receiveKey)) \<Rightarrow> (case sendEncryptedJSON cr rnd (enc_req cd) ob1 req sendKey of
         (ob2, Some e) \<Rightarrow> (Some ob2, Inl e)
       | (ob2, None) \<Rightarrow>
           (Some ob2,
            case recvPriority (controls cr receiveKey (dec_resp cd zero_resp) inbox) stop of
              Inl e \<Rightarrow> Inl e
            | Inr (resp, _) \<Rightarrow> if rs_OK resp then Inr resp else Inl (responseErr resp)))))"

definition p2pReadOneChunk ::
  "codec \<Rightarrow> crypto \<Rightarrow> bytes result \<Rightarrow> bytes \<Rightarrow> string \<Rightarrow> transferChunk \<Rightarrow> string \<Rightarrow> bool \<Rightarrow> string
     \<Rightarrow> fs \<Rightarrow> fsResponse list \<Rightarrow> bytes list \<Rightarrow> go_error \<Rightarrow> outbox
     \<Rightarrow> fs \<times> fsResponse list \<times> bytes list \<times> outbox \<times> go_error option" where
  "p2pReadOneChunk cd cr rnd sendKey rootArg chunk localPath localIsDir sourceRoot m acks ds stop ob =
     (case sendEncryptedJSON cr rnd (enc_req cd) ob (read_request rootArg chunk) sendKey of
        (ob1, Some e) \<Rightarrow> (m, acks, ds, ob1, Some e)
      | (ob1, None) \<Rightarrow> (case recvPriority acks stop of
          Inl e \<Rightarrow> (m, acks, ds, ob1, Some e)
        | Inr (ack, acks1) \<Rightarrow>
            if \<not> rs_OK ack then (m, acks1, ds, ob1, Some (responseErr ack))
            else (case open_write m (resolveDestPath localPath localIsDir sourceRoot (ch_RelPath chunk)) of
              Inl e \<Rightarrow> (m, acks1, ds, ob1, Some e)
            | Inr q \<Rightarrow> (case recv_range (file_write q) 0 (ch_Length chunk) (m, ch_Offset chunk) ds
                (\<lambda>r. Wrapf (''receiving chunk data ('' @ dec_nat (nat r) @ ''/'' @ dec_nat (nat (ch_Length chunk)) @ '' bytes): '') stop) of
                ((m1, _), ds1, r) \<Rightarrow> (m1, acks1, ds1, ob1, r)))))"

definition p2pWriteOneChunk ::
  "codec \<Rightarrow> crypto \<Rightarrow> (nat \<Rightarrow> nat \<Rightarrow> bytes result) \<Rightarrow> bytes \<Rightarrow> string \<Rightarrow> transferChunk \<Rightarrow> string \<Rightarrow> bool \<Rightarrow> bool
     \<Rightarrow> fs \<Rightarrow> fsResponse list \<Rightarrow> go_error \<Rightarrow> outbox \<Rightarrow> fsResponse list \<times> outbox \<times> go_error option" where
  "p2pWriteOneChunk cd cr rnd sendKey rootArg chunk localBase sourceIsDir targetIsDirHint m acks stop ob =
     (case sendEncryptedJSON cr (rnd 0 0) (enc_req cd) ob (write_request rootArg chunk sourceIsDir targetIsDirHint) sendKey of
        (ob1, Some e) \<Rightarrow> (acks, ob1, Some e)
      | (ob1, None) \<Rightarrow> (case recvPriority acks stop of
          Inl e \<Rightarrow> (acks, ob1, Some e)
        | Inr (ack, acks1) \<Rightarrow>
            if \<not> rs_OK ack then (acks1, ob1, Some (responseErr ack))
            else (let absLocal = Join localBase (ch_RelPath chunk) in
              case os_Open m absLocal of
                Inl e \<Rightarrow> (acks1, ob1, Some e)
              | Inr (q, nd) \<Rightarrow>
                  (let section = file_section absLocal nd (ch_Offset chunk) (ch_Length chunk)
                   in case send_range cr rnd 1 ob1 (sr_data section) (sr_end section)
                        (int (length (sr_data section)) + 1) sendKey of
                     (ob2, Some e) \<Rightarrow> (acks1, ob2, Some e)
                   | (ob2, None) \<Rightarrow> (case recvPriority acks1 stop of
                       Inl e \<Rightarrow> (acks1, ob2, Some e)
                     | Inr (final, acks2) \<Rightarrow>
                         (acks2, ob2, if rs_OK final then None else Some (responseErr final)))))))"

fun p2p_read_jobs ::
  "codec \<Rightarrow> crypto \<Rightarrow> (nat \<Rightarrow> bytes result) \<Rightarrow> bytes \<Rightarrow> string \<Rightarrow> string \<Rightarrow> bool \<Rightarrow> string \<Rightarrow> nat
     \<Rightarrow> transferChunk list \<Rightarrow> fs \<Rightarrow> fsResponse list \<Rightarrow> bytes list \<Rightarrow> go_error \<Rightarrow> outbox
     \<Rightarrow> fs \<times> outbox \<times> go_error option" where
  "p2p_read_jobs cd cr rnd sk rootArg localPath localIsDir sourceRoot k [] m acks ds stop ob = (m, ob, None)"
| "p2p_read_jobs cd cr rnd sk rootArg localPath localIsDir sourceRoot k (c # cs) m acks ds stop ob =
     (case p2pReadOneChunk cd cr (rnd k) sk rootArg c localPath localIsDir sourceRoot m acks ds stop ob of
        (m1, acks1, ds1, ob1, Some e) \<Rightarrow> (m1, ob1, Some e)
      | (m1, acks1, ds1, ob1, None) \<Rightarrow>
          p2p_read_jobs cd cr rnd sk rootArg localPath localIsDir sourceRoot (Suc k) cs m1 acks1 ds1 stop ob1)"

definition p2pReadWorker ::
  "codec \<Rightarrow> crypto \<Rightarrow> bytes result \<Rightarrow> (nat \<Rightarrow> bytes result) \<Rightarrow> outbox result \<Rightarrow> dc_msg list \<Rightarrow> go_error \<Rightarrow> string
     \<Rightarrow> transferChunk list \<Rightarrow> string \<Rightarrow> bool \<Rightarrow> string \<Rightarrow> fs \<Rightarrow> fs \<times> go_error option" where
  "p2pReadWorker cd cr rnd0 rnd channel inbox stop rootArg jobs localPath localIsDir sourceRoot m = (case channel of
     Inl e \<Rightarrow> (m, Some e)
   | Inr ob \<Rightarrow> (case p2pClientKeyExchange cd cr rnd0 ob inbox stop of
       (_, Inl e) \<Rightarrow> (m, Some e)
     | (ob1, Inr (sendKey, receiveKey)) \<Rightarrow>
         (case p2p_read_jobs cd cr rnd sendKey rootArg localPath localIsDir sourceRoot 0 jobs m
             (controls cr receiveKey (dec_resp cd zero_resp) inbox) (datas cr receiveKey inbox) stop ob1 of
            (m1, _, r) \<Rightarrow> (m1, r))))"

fun p2p_write_jobs ::
  "codec \<Rightarrow> crypto \<Rightarrow> (nat \<Rightarrow> nat \<Rightarrow> nat \<Rightarrow> bytes result) \<Rightarrow> bytes \<Rightarrow> string \<Rightarrow> string \<Rightarrow> bool \<Rightarrow> bool \<Rightarrow> nat
     \<Rightarrow> transferChunk list \<Rightarrow> fs \<Rightarrow> fsResponse list \<Rightarrow> go_error \<Rightarrow> outbox \<Rightarrow> outbox \<times> go_error option" where
  "p2p_write_jobs cd cr rnd sk rootArg localBase sourceIsDir hint k [] m acks stop ob = (ob, None)"
| "p2p_write_jobs cd cr rnd sk rootArg localBase sourceIsDir hint k (c # cs) m acks stop ob =
     (case p2pWriteOneChunk cd cr (rnd k) sk rootArg c localBase sourceIsDir hint m acks stop ob of
        (acks1, ob1, Some e) \<Rightarrow> (ob1, Some e)
      | (acks1, ob1, None) \<Rightarrow> p2p_write_jobs cd cr rnd sk rootArg localBase sourceIsDir hint (Suc k) cs m acks1 stop ob1)"

definition p2pWriteWorker ::
  "codec \<Rightarrow> crypto \<Rightarrow> bytes result \<Rightarrow> (nat \<Rightarrow> nat \<Rightarrow> nat \<Rightarrow> bytes result) \<Rightarrow> outbox result \<Rightarrow> dc_msg list \<Rightarrow> go_error
     \<Rightarrow> string \<Rightarrow> transferChunk list \<Rightarrow> string \<Rightarrow> bool \<Rightarrow> bool \<Rightarrow> fs \<Rightarrow> outbox option \<times> go_error option" where
  "p2pWriteWorker cd cr rnd0 rnd channel inbox stop rootArg jobs localBase sourceIsDir targetIsDirHint m = (case channel of
     Inl e \<Rightarrow> (None, Some e)
   | Inr ob \<Rightarrow> (case p2pClientKeyExchange cd cr rnd0 ob inbox stop of
       (ob1, Inl e) \<Rightarrow> (Some ob1, Some e)
     | (ob1, Inr (sendKey, receiveKey)) \<Rightarrow>
         (case p2p_write_jobs cd cr rnd sendKey rootArg localBase sourceIsDir targetIsDirHint 0 jobs m
             (controls cr receiveKey (dec_resp cd zero_resp) inbox) stop ob1 of
            (ob2, r) \<Rightarrow> (Some ob2, r))))"

definition DownloadFilesP2P ::
  "codec \<Rightarrow> crypto \<Rightarrow> bytes result \<Rightarrow> bytes result \<Rightarrow> outbox result \<Rightarrow> dc_msg list \<Rightarrow> go_error \<Rightarrow>
   (string \<Rightarrow> bool \<Rightarrow> transferChunk list \<Rightarrow> int \<Rightarrow> fs \<Rightarrow> fs \<times> go_error option) \<Rightarrow>
   string \<Rightarrow> string \<Rightarrow> bool \<Rightarrow> int \<Rightarrow> fs \<Rightarrow> (fs \<times> go_error option) option" where
  "DownloadFilesP2P cd cr rnd0 rnd channel inbox stop run remotePath localPath recursive numWorkers m =
     downloadFiles (\<lambda>req. snd (p2pRequest cd cr rnd0 rnd channel inbox stop req)) run
       remotePath localPath recursive numWorkers m"


section \<open>Channels that work\<close>

definition ob_reliable :: "outbox \<Rightarrow> bool" where
  "ob_reliable ob \<longleftrightarrow> ob_fail ob = (\<lambda>_. None) \<and> ob_closed ob = (\<lambda>_. False)"

definition sent_more :: "outbox \<Rightarrow> dc_msg list \<Rightarrow> outbox \<Rightarrow> bool" where
  "sent_more ob ms ob' \<longleftrightarrow> ob_fail ob' = ob_fail ob \<and> ob_closed ob' = ob_closed ob \<and> ob_sent ob' = ob_sent ob @ ms"

lemma sent_more_reliable: "sent_more ob ms ob' \<Longrightarrow> ob_reliable ob \<Longrightarrow> ob_reliable ob'"
  by (simp add: sent_more_def ob_reliable_def)

lemma sent_more_trans: "sent_more ob ms ob' \<Longrightarrow> sent_more ob' ns ob'' \<Longrightarrow> sent_more ob (ms @ ns) ob''"
  by (simp add: sent_more_def)

lemma sent_more_refl [simp]: "sent_more ob [] ob"
  by (simp add: sent_more_def)

lemma envelope_sent:
  assumes "key_ready cr key" "nonce_drawn rnd" "ob_reliable ob"
  obtains msg ob' where "sendEncryptedEnvelope cr rnd ob k p key = (ob', None)" "sent_more ob [msg] ob'"
    "decryptEnvelope cr (dc_data msg) key = Inr (k, p)"
proof -
  have kk: "aead_ok cr" "length key = 32" using assms(1) by (simp_all add: key_ready_def)
  obtain c where c: "EncryptPayload cr rnd p key = Inr c"
    using EncryptPayload_total [OF kk assms(2)] by blast
  note d = DecryptPayload_Encrypt [OF kk assms(2) c]
  show thesis
  proof (rule that [of _ "BinMsg (k # c)"])
    show "sendEncryptedEnvelope cr rnd ob k p key =
        (ob\<lparr>ob_sent := ob_sent ob @ [BinMsg (k # c)], ob_count := Suc (ob_count ob)\<rparr>, None)"
      using assms(3) by (simp add: sendEncryptedEnvelope_def c channel_send_def ob_reliable_def)
  qed (simp_all add: sent_more_def decryptEnvelope_def d)
qed

definition data_msgs :: "crypto \<Rightarrow> bytes \<Rightarrow> dc_msg list \<Rightarrow> bytes list \<Rightarrow> bool" where
  "data_msgs cr key ms ps \<longleftrightarrow>
     list_all2 (\<lambda>msg p. decryptEnvelope cr (dc_data msg) key = Inr (p2pMsgData, p) \<and> p \<noteq> []) ms ps"

lemma kinds_differ [simp]: "p2pMsgData \<noteq> p2pMsgControl" "p2pMsgControl \<noteq> p2pMsgData"
  by (simp_all add: p2pMsgControl_def p2pMsgData_def)

lemma queue_append [simp]:
  "controls cr key dec (ms @ ns) = controls cr key dec ms @ controls cr key dec ns"
  "datas cr key (ms @ ns) = datas cr key ms @ datas cr key ns"
  by (simp_all add: controls_def datas_def List.map_filter_def)

lemma data_msgs_queues:
  assumes "data_msgs cr key ms ps"
  shows "controls cr key dec ms = []" "datas cr key ms = ps"
  using assms unfolding data_msgs_def
  by (induction rule: list_all2_induct) (simp_all add: controls_def datas_def List.map_filter_def)

lemma control_queues:
  assumes "decryptEnvelope cr (dc_data msg) key = Inr (p2pMsgControl, b)" "dec b = Inr v"
  shows "controls cr key dec [msg] = [v]" "datas cr key [msg] = []"
  using assms by (simp_all add: controls_def datas_def List.map_filter_def)

lemma data_msgs_append: "data_msgs cr key ms ps \<Longrightarrow> data_msgs cr key ns qs \<Longrightarrow> data_msgs cr key (ms @ ns) (ps @ qs)"
  by (simp add: data_msgs_def list_all2_appendI)

lemma sendEncryptedBytes_ok:
  assumes "key_ready cr key" "nonces_drawn rnd"
  shows "ob_reliable ob \<Longrightarrow> \<exists>ms ps ob'. sendEncryptedBytes cr rnd k ob d key = (ob', None) \<and> sent_more ob ms ob' \<and>
    data_msgs cr key ms ps \<and> concat ps = d"
proof (induction "length d" arbitrary: d k ob rule: less_induct)
  case less
  show ?case
  proof (cases "d = []")
    case True
    then show ?thesis
      by (intro exI [of _ "[]"] exI [of _ ob]) (simp add: sendEncryptedBytes.simps data_msgs_def)
  next
    case False
    define n where "n = min fileStreamChunkSize (length d)"
    have n: "0 < n" "length (drop n d) < length d" "take n d \<noteq> []"
      using False by (auto simp: n_def fileStreamChunkSize_def)
    have nd: "nonce_drawn (rnd k)" using assms(2) by (simp add: nonces_drawn_def)
    obtain msg ob1 where m: "sendEncryptedEnvelope cr (rnd k) ob p2pMsgData (take n d) key = (ob1, None)"
      "sent_more ob [msg] ob1" "decryptEnvelope cr (dc_data msg) key = Inr (p2pMsgData, take n d)"
      by (rule envelope_sent [OF assms(1) nd less.prems])
    from less.hyps [OF n(2) sent_more_reliable [OF m(2) less.prems], of "Suc k"] obtain ms ps ob2 where r:
      "sendEncryptedBytes cr rnd (Suc k) ob1 (drop n d) key = (ob2, None)" "sent_more ob1 ms ob2"
      "data_msgs cr key ms ps" "concat ps = drop n d" by blast
    have "sendEncryptedBytes cr rnd k ob d key = (ob2, None)"
      using False less.prems m(1) r(1)
      by (subst sendEncryptedBytes.simps) (simp add: ob_reliable_def Let_def flip: n_def)
    moreover have "data_msgs cr key (msg # ms) (take n d # ps)"
      using m(3) n(3) r(3) by (simp add: data_msgs_def)
    ultimately show ?thesis
      using sent_more_trans [OF m(2) r(2)] r(4)
      by (intro exI [of _ "msg # ms"] exI [of _ "take n d # ps"] exI [of _ ob2]) simp
  qed
qed

lemma send_range_ok:
  assumes "key_ready cr key" "\<And>k. nonces_drawn (rnd k)"
  shows "ob_reliable ob \<Longrightarrow> \<exists>ms ps ob'. send_range cr rnd k ob (d @ rst) rerr (int (length d)) key = (ob', None) \<and>
    sent_more ob ms ob' \<and> data_msgs cr key ms ps \<and> concat ps = d"
proof (induction "length d" arbitrary: d k ob rule: less_induct)
  case less
  show ?case
  proof (cases "d = []")
    case True
    then show ?thesis
      by (intro exI [of _ "[]"] exI [of _ ob]) (simp add: send_range.simps data_msgs_def)
  next
    case False
    define n where "n = min fileStreamChunkSize (length d)"
    have n: "0 < n" "n \<le> length d" "length (drop n d) < length d"
      using False by (auto simp: n_def fileStreamChunkSize_def)
    have m: "min (int fileStreamChunkSize) (int (length d)) = int n" "min n (length d + length rst) = n"
      by (auto simp: n_def)
    obtain ms1 ps1 ob1 where s: "sendEncryptedBytes cr (rnd k) 0 ob (take n d) key = (ob1, None)" "sent_more ob ms1 ob1"
      "data_msgs cr key ms1 ps1" "concat ps1 = take n d"
      using sendEncryptedBytes_ok [OF assms less.prems] by blast
    from less.hyps [OF n(3) sent_more_reliable [OF s(2) less.prems], of "Suc k"] obtain ms2 ps2 ob2 where r:
      "send_range cr rnd (Suc k) ob1 (drop n d @ rst) rerr (int (length (drop n d))) key = (ob2, None)"
      "sent_more ob1 ms2 ob2" "data_msgs cr key ms2 ps2" "concat ps2 = drop n d" by blast
    have "send_range cr rnd k ob (d @ rst) rerr (int (length d)) key = (ob2, None)"
      using False n s(1) r(1)
      by (subst send_range.simps) (simp add: m Let_def of_nat_diff)
    then show ?thesis
      using sent_more_trans [OF s(2) r(2)] data_msgs_append [OF s(3) r(3)] s(4) r(4)
      by (intro exI [of _ "ms1 @ ms2"] exI [of _ "ps1 @ ps2"] exI [of _ ob2]) simp
  qed
qed

context stream_writer
begin

lemma recv_range_ok:
  "ready w \<Longrightarrow> [] \<notin> set ps \<Longrightarrow> int (length (concat ps)) = n - received \<Longrightarrow>
   recv_range wr received n w (ps @ rest) stop = (after w (concat ps), rest, None)"
proof (induction ps arbitrary: w received)
  case Nil
  then show ?case by (cases rest) (simp_all add: after_nil)
next
  case (Cons p ps)
  have "received < n" using Cons.prems(2,3) by (cases p) auto
  moreover have "recv_range wr (received + int (length p)) n (after w p) (ps @ rest) stop =
      (after (after w p) (concat ps), rest, None)"
    by (rule Cons.IH) (use Cons.prems ready_after in auto)
  ultimately show ?case using Cons.prems by (simp add: wr_whole after_append)
qed

end


section \<open>A session of read jobs\<close>

lemma p2p_serve_read:
  assumes "key_ready cr ks" "\<And>k. nonces_drawn (rnd k)" "ob_reliable ob" "ok_sendable cd"
    and "can_read home m (rq_Path req) (rq_RelPath req) b" "in_range b (rq_Offset req) (rq_Length req)"
  obtains m0 ms ps ob' where "serveWebRTCReadOnce cd cr rnd home m req ks ob = (ob', None)"
    "sent_more ob (m0 # ms) ob'" "controls cr ks (dec_resp cd zero_resp) (m0 # ms) = [ok_response []]"
    "datas cr ks (m0 # ms) = ps" "[] \<notin> set ps" "concat ps = byte_range b (rq_Offset req) (rq_Length req)"
proof -
  obtain root base q nd where f: "remoteRootAndBase home (rq_Path req) = Inr (root, base)"
    "os_Open m (Join base (rq_RelPath req)) = Inr (q, nd)" "kind nd = Regular b"
    using assms(5) unfolding can_read_def by blast
  obtain jb where jb: "enc_resp cd (ok_response []) = Inr jb" "dec_resp cd zero_resp jb = Inr (ok_response [])"
    using assms(4) by (auto simp: ok_sendable_def sendable_def)
  have nd: "nonce_drawn (rnd 0 0)" using assms(2) by (simp add: nonces_drawn_def)
  obtain m0 ob1 where m0: "sendEncryptedEnvelope cr (rnd 0 0) ob p2pMsgControl jb ks = (ob1, None)"
    "sent_more ob [m0] ob1" "decryptEnvelope cr (dc_data m0) ks = Inr (p2pMsgControl, jb)"
    by (rule envelope_sent [OF assms(1) nd assms(3)])
  let ?d = "byte_range b (rq_Offset req) (rq_Length req)"
  have l: "int (length ?d) = rq_Length req" by (rule byte_range_length [OF assms(6)])
  have split: "drop (nat (rq_Offset req)) b = ?d @ drop (nat (rq_Length req)) (drop (nat (rq_Offset req)) b)"
    by (simp add: byte_range_def del: drop_drop)
  obtain ms ps ob2 where s: "send_range cr rnd 1 ob1 (drop (nat (rq_Offset req)) b) ErrEOF (rq_Length req) ks = (ob2, None)"
    "sent_more ob1 ms ob2" "data_msgs cr ks ms ps" "concat ps = ?d"
    using send_range_ok [where rnd = rnd, OF assms(1,2) sent_more_reliable [OF m0(2) assms(3)], of 1 ?d
        "drop (nat (rq_Length req)) (drop (nat (rq_Offset req)) b)" ErrEOF] l split by metis
  have "serveWebRTCReadOnce cd cr rnd home m req ks ob = (ob2, None)"
    using f m0(1) s(1) jb(1)
    by (simp add: serveWebRTCReadOnce_def p2p_reply_def sendEncryptedJSON_def file_rest_def read_node_def Let_def)
  moreover have "[] \<notin> set ps"
    using s(3) unfolding data_msgs_def by (auto simp: list_all2_conv_all_nth in_set_conv_nth)
  moreover have "controls cr ks (dec_resp cd zero_resp) (m0 # ms) = [ok_response []]" "datas cr ks (m0 # ms) = ps"
    using queue_append(1) [of cr ks "dec_resp cd zero_resp" "[m0]" ms] queue_append(2) [of cr ks "[m0]" ms]
      control_queues [where dec = "dec_resp cd zero_resp", OF m0(3) jb(2)] data_msgs_queues [OF s(3)] by simp_all
  ultimately show thesis
    using that [of ob2 m0 ms ps] sent_more_trans [OF m0(2) s(2)] s(4) by simp
qed

lemma p2p_read_one:
  assumes "key_ready cr kc" "nonce_drawn rnd" "ob_reliable ob"
    and "job_ready cd home m root content (resolveDestPath lp ld sr) place ml c"
    and "[] \<notin> set ps" "concat ps = byte_range (content (ch_RelPath c)) (ch_Offset c) (ch_Length c)"
    and "in_range (content (ch_RelPath c)) (ch_Offset c) (ch_Length c)"
  obtains msg ob' where
    "\<And>acks ds. p2pReadOneChunk cd cr rnd kc root c lp ld sr ml (ok_response [] # acks) (ps @ ds) stop ob =
       (landed content place ml (c, c), acks, ds, ob', None)"
    "sent_more ob [msg] ob'" "controls cr kc (dec_req cd zero_req) [msg] = [read_request root c]"
proof -
  have c: "json_ok cd (read_request root c)" "0 \<le> ch_Offset c"
    "open_write ml (resolveDestPath lp ld sr (ch_RelPath c)) = Inr (place (ch_RelPath c))"
    using assms(4) by (simp_all add: job_ready_def)
  obtain jb where jb: "enc_req cd (read_request root c) = Inr jb"
    "dec_req cd zero_req jb = Inr (overlay (read_request root c) zero_req)"
    using c(1) by (auto simp: json_ok_def)
  obtain msg ob1 where m0: "sendEncryptedEnvelope cr rnd ob p2pMsgControl jb kc = (ob1, None)"
    "sent_more ob [msg] ob1" "decryptEnvelope cr (dc_data msg) kc = Inr (p2pMsgControl, jb)"
    by (rule envelope_sent [OF assms(1,2,3)])
  have l: "int (length (concat ps)) = ch_Length c" using byte_range_length [OF assms(7)] assms(6) by simp
  show thesis
  proof (rule that [OF _ m0(2)])
    show "controls cr kc (dec_req cd zero_req) [msg] = [read_request root c]"
      using control_queues(1) [where dec = "dec_req cd zero_req", OF m0(3) jb(2)] by (simp add: overlay_zero)
    show "p2pReadOneChunk cd cr rnd kc root c lp ld sr ml (ok_response [] # acks) (ps @ ds) stop ob =
       (landed content place ml (c, c), acks, ds, ob1, None)" for acks ds
      using fw.recv_range_ok [of "(ml, ch_Offset c)" ps "ch_Length c" 0 "place (ch_RelPath c)" ds] assms(5,6) c jb(1) m0(1) l
      by (simp add: p2pReadOneChunk_def sendEncryptedJSON_def recvPriority_def ok_response_def landed_def)
  qed
qed

lemma p2p_exchange:
  assumes "key_ready cr kc" "key_ready cr ks" "\<And>i. nonces_drawn (rs i)" "nonce_drawn rc" "ok_sendable cd"
    and "ob_reliable obS" "ob_reliable obC"
    and "job_ready cd home m root content (resolveDestPath lp ld sr) place ml c \<and>
      in_range (content (ch_RelPath c)) (ch_Offset c) (ch_Length c)"
  obtains down ps obS' msg obC' where
    "\<And>i rnd reqs. rnd i = rs \<Longrightarrow> serveFileStreamSession cd cr rnd home i m (read_request root c) ks reqs [] stop obS =
       (case reqs of [] \<Rightarrow> (m, obS') | r # rest \<Rightarrow> serveFileStreamSession cd cr rnd home (Suc i) m r ks rest [] stop obS')"
    "sent_more obS down obS'" "controls cr ks (dec_resp cd zero_resp) down = [ok_response []]" "datas cr ks down = ps"
    "\<And>acks ds. p2pReadOneChunk cd cr rc kc root c lp ld sr ml (ok_response [] # acks) (ps @ ds) stop obC =
       (landed content place ml (c, c), acks, ds, obC', None)"
    "sent_more obC [msg] obC'" "controls cr kc (dec_req cd zero_req) [msg] = [read_request root c]"
proof -
  have pre: "job_ready cd home m root content (resolveDestPath lp ld sr) place ml c"
    "in_range (content (ch_RelPath c)) (ch_Offset c) (ch_Length c)"
    and cr: "can_read home m (rq_Path (read_request root c)) (rq_RelPath (read_request root c)) (content (ch_RelPath c))"
    using assms(8) by (simp_all add: job_ready_def read_request_def)
  have rq: "rq_Op (read_request root c) = fsOpRead" "rq_Offset (read_request root c) = ch_Offset c"
    "rq_Length (read_request root c) = ch_Length c" by (simp_all add: read_request_def)
  obtain m0 ms ps obS1 where s: "serveWebRTCReadOnce cd cr rs home m (read_request root c) ks obS = (obS1, None)"
    "sent_more obS (m0 # ms) obS1" "controls cr ks (dec_resp cd zero_resp) (m0 # ms) = [ok_response []]"
    "datas cr ks (m0 # ms) = ps" "[] \<notin> set ps"
    "concat ps = byte_range (content (ch_RelPath c)) (ch_Offset c) (ch_Length c)"
    by (rule p2p_serve_read [where rnd = rs, OF assms(2,3,6,5) cr, unfolded rq, OF pre(2)]) blast
  obtain msg obC1 where r: "\<And>acks ds. p2pReadOneChunk cd cr rc kc root c lp ld sr ml (ok_response [] # acks) (ps @ ds) stop obC =
       (landed content place ml (c, c), acks, ds, obC1, None)"
    "sent_more obC [msg] obC1" "controls cr kc (dec_req cd zero_req) [msg] = [read_request root c]"
    by (rule p2p_read_one [OF assms(1,4,7) pre(1) s(5,6) pre(2)]) blast
  show thesis
    by (rule that [OF _ s(2,3,4) r]) (simp add: serveFileStreamSession.simps rq s(1))
qed

lemma p2p_session_of_jobs:
  assumes keys: "key_ready cr kc" "key_ready cr ks" and nonces: "\<And>k i. nonces_drawn (rs k i)" "\<And>j. nonce_drawn (rc j)"
    and ok: "ok_sendable cd"
  shows "ob_reliable obS \<Longrightarrow> ob_reliable obC \<Longrightarrow>
    \<forall>x \<in> set (c # cs). job_ready cd home m root content (resolveDestPath lp ld sr) place ml x \<and>
       in_range (content (ch_RelPath x)) (ch_Offset x) (ch_Length x) \<Longrightarrow>
    \<exists>up down obS' obC'.
      serveFileStreamSession cd cr rs home k m (read_request root c) ks (map (read_request root) cs) [] stop obS = (m, obS') \<and>
      sent_more obS down obS' \<and>
      p2p_read_jobs cd cr rc kc root lp ld sr j (c # cs) ml (controls cr ks (dec_resp cd zero_resp) down)
        (datas cr ks down) stop obC =
        (foldl (landed content place) ml (zip (c # cs) (c # cs)), obC', None) \<and>
      sent_more obC up obC' \<and> controls cr kc (dec_req cd zero_req) up = map (read_request root) (c # cs)"
proof (induction cs arbitrary: c k j ml obS obC)
  case Nil
  then have pre: "job_ready cd home m root content (resolveDestPath lp ld sr) place ml c \<and>
    in_range (content (ch_RelPath c)) (ch_Offset c) (ch_Length c)" by simp
  obtain down ps obS' msg obC' where x:
    "\<And>i rnd reqs. rnd i = rs k \<Longrightarrow> serveFileStreamSession cd cr rnd home i m (read_request root c) ks reqs [] stop obS =
       (case reqs of [] \<Rightarrow> (m, obS') | r # rest \<Rightarrow> serveFileStreamSession cd cr rnd home (Suc i) m r ks rest [] stop obS')"
    "sent_more obS down obS'" "controls cr ks (dec_resp cd zero_resp) down = [ok_response []]" "datas cr ks down = ps"
    "\<And>acks ds. p2pReadOneChunk cd cr (rc j) kc root c lp ld sr ml (ok_response [] # acks) (ps @ ds) stop obC =
       (landed content place ml (c, c), acks, ds, obC', None)"
    "sent_more obC [msg] obC'" "controls cr kc (dec_req cd zero_req) [msg] = [read_request root c]"
    by (rule p2p_exchange [where rs = "rs k" and rc = "rc j", OF keys nonces ok Nil.prems(1,2) pre]) blast
  have "p2p_read_jobs cd cr rc kc root lp ld sr j [c] ml (controls cr ks (dec_resp cd zero_resp) down)
        (datas cr ks down) stop obC = (foldl (landed content place) ml (zip [c] [c]), obC', None)"
    using x(5) [of "[]" "[]"] by (simp add: x(3,4))
  moreover have "serveFileStreamSession cd cr rs home k m (read_request root c) ks (map (read_request root) []) [] stop obS = (m, obS')"
    by (simp add: x(1) [where rnd = rs and i = k])
  ultimately show ?case using x(2,6,7) by (intro exI [of _ "[msg]"] exI [of _ down]) simp
next
  case (Cons c2 cs)
  then have pre: "job_ready cd home m root content (resolveDestPath lp ld sr) place ml c \<and>
    in_range (content (ch_RelPath c)) (ch_Offset c) (ch_Length c)" by simp
  obtain down1 ps obS1 msg obC1 where x:
    "\<And>i rnd reqs. rnd i = rs k \<Longrightarrow> serveFileStreamSession cd cr rnd home i m (read_request root c) ks reqs [] stop obS =
       (case reqs of [] \<Rightarrow> (m, obS1) | r # rest \<Rightarrow> serveFileStreamSession cd cr rnd home (Suc i) m r ks rest [] stop obS1)"
    "sent_more obS down1 obS1" "controls cr ks (dec_resp cd zero_resp) down1 = [ok_response []]" "datas cr ks down1 = ps"
    "\<And>acks ds. p2pReadOneChunk cd cr (rc j) kc root c lp ld sr ml (ok_response [] # acks) (ps @ ds) stop obC =
       (landed content place ml (c, c), acks, ds, obC1, None)"
    "sent_more obC [msg] obC1" "controls cr kc (dec_req cd zero_req) [msg] = [read_request root c]"
    by (rule p2p_exchange [where rs = "rs k" and rc = "rc j", OF keys nonces ok Cons.prems(1,2) pre]) blast
  let ?ml = "landed content place ml (c, c)"
  have "\<forall>x \<in> set (c2 # cs). job_ready cd home m root content (resolveDestPath lp ld sr) place ?ml x \<and>
       in_range (content (ch_RelPath x)) (ch_Offset x) (ch_Length x)"
    using Cons.prems(3) by (simp add: job_ready_shape [OF landed_shape])
  from Cons.IH [OF sent_more_reliable [OF x(2) Cons.prems(1)] sent_more_reliable [OF x(6) Cons.prems(2)] this, of "Suc k" "Suc j"]
  obtain up down obS2 obC2 where ih:
    "serveFileStreamSession cd cr rs home (Suc k) m (read_request root c2) ks (map (read_request root) cs) [] stop obS1 = (m, obS2)"
    "sent_more obS1 down obS2"
    "p2p_read_jobs cd cr rc kc root lp ld sr (Suc j) (c2 # cs) ?ml (controls cr ks (dec_resp cd zero_resp) down)
        (datas cr ks down) stop obC1 = (foldl (landed content place) ?ml (zip (c2 # cs) (c2 # cs)), obC2, None)"
    "sent_more obC1 up obC2" "controls cr kc (dec_req cd zero_req) up = map (read_request root) (c2 # cs)"
    by blast
  have "serveFileStreamSession cd cr rs home k m (read_request root c) ks (map (read_request root) (c2 # cs)) [] stop obS = (m, obS2)"
    by (simp add: x(1) [where rnd = rs and i = k] ih(1))
  moreover have "p2p_read_jobs cd cr rc kc root lp ld sr j (c # c2 # cs) ml
      (controls cr ks (dec_resp cd zero_resp) (down1 @ down)) (datas cr ks (down1 @ down)) stop obC =
      (foldl (landed content place) ml (zip (c # c2 # cs) (c # c2 # cs)), obC2, None)"
    using ih(3) unfolding queue_append x(3,4) by (subst p2p_read_jobs.simps(2)) (simp add: x(5))
  moreover have "controls cr kc (dec_req cd zero_req) ([msg] @ up) = map (read_request root) (c # c2 # cs)"
    unfolding queue_append x(7) ih(5) by simp
  ultimately show ?case
    using sent_more_trans [OF x(2) ih(2)] sent_more_trans [OF x(6) ih(4)] by blast
qed


section \<open>Whole files\<close>

lemma landed_mixed:
  assumes "\<forall>c \<in> set cs. ch_RelPath c \<noteq> rel \<longrightarrow> place (ch_RelPath c) \<noteq> place rel"
    and "node_at m (place rel) = Some nd" "kind nd = Regular acc"
  shows "\<exists>nd'. node_at (foldl (landed content place) m (zip cs cs)) (place rel) = Some nd' \<and>
     kind nd' = Regular (foldl (put_chunk (content rel)) acc (chunks_of rel cs))"
  using assms
proof (induction cs arbitrary: m nd acc)
  case Nil
  then show ?case by (simp add: chunks_of_def)
next
  case (Cons c cs)
  show ?case
  proof (cases "ch_RelPath c = rel")
    case True
    then have "landed content place m (c, c) =
        file_put (place rel) (nat (ch_Offset c)) (byte_range (content rel) (ch_Offset c) (ch_Length c)) m"
      by (simp add: landed_def)
    then obtain nd' where "node_at (landed content place m (c, c)) (place rel) = Some nd'"
      "kind nd' = Regular (put_chunk (content rel) acc c)"
      using file_put_kind [OF Cons.prems(2,3)] unfolding put_chunk_def byte_range_def by metis
    from Cons.IH [OF _ this] Cons.prems(1) True show ?thesis by (simp add: chunks_of_def)
  next
    case False
    then have "node_at (landed content place m (c, c)) (place rel) = Some nd"
      using Cons.prems(1,2) landed_other [of "place rel" place "(c, c)"] by auto
    from Cons.IH [OF _ this Cons.prems(3)] Cons.prems(1) False show ?thesis by (simp add: chunks_of_def)
  qed
qed

text \<open>Every chunk of a plan belongs to a file of the manifest and lies within it.\<close>

lemma planned_chunk:
  assumes "plannable entries" "planChunks entries = Some plan" "x \<in> set plan"
  shows "\<exists>e \<in> set entries. \<not> me_IsDir e \<and> ch_RelPath x = me_RelPath e \<and> chunk_in 0 (me_Size e) x"
proof -
  obtain plan' where p: "planChunks entries = Some plan'"
    "\<forall>e \<in> set entries. tiles (me_RelPath e) 0 (file_span e) (chunks_of (me_RelPath e) plan')"
    "\<forall>rel. rel \<notin> me_RelPath ` set entries \<longrightarrow> chunks_of rel plan' = []"
    using planChunks_tiles [OF assms(1)] by blast
  have xs: "x \<in> set (chunks_of (ch_RelPath x) plan)" using assms(3) by (simp add: chunks_of_def)
  then have "ch_RelPath x \<in> me_RelPath ` set entries" using p(1,3) assms(2) by fastforce
  then obtain e where e: "e \<in> set entries" "ch_RelPath x = me_RelPath e" by blast
  with p(1,2) assms(2) have "tiles (me_RelPath e) 0 (file_span e) (chunks_of (me_RelPath e) plan)" by auto
  with xs e(2) have "chunk_in 0 (file_span e) x" by (auto simp: tiles_def)
  moreover from this have "\<not> me_IsDir e" by (auto simp: chunk_in_def file_span_def)
  ultimately show ?thesis using e by (auto simp: file_span_def)
qed

definition presized :: "fs \<Rightarrow> (string \<Rightarrow> string list) \<Rightarrow> transferManifestEntry \<Rightarrow> bool" where
  "presized ml place e \<longleftrightarrow> (\<exists>nd. node_at ml (place (me_RelPath e)) = Some nd \<and>
     kind nd = Regular (replicate (nat (me_Size e)) (char_of (0::nat))))"

text \<open>
  A worker that gets the chunks of a whole manifest over one data
  channel, in any order and with several files mixed, ends without an error with every file of the
  manifest holding exactly the device's content and everything else unchanged. Each request is decoded into a fresh variable
  here, so no offset is carried over.
\<close>

lemma p2p_files_arrive:
  assumes "key_ready cr kc" "key_ready cr ks" "\<And>k i. nonces_drawn (rs k i)" "\<And>j. nonce_drawn (rc j)"
    and "ob_reliable obS" "ob_reliable obC"
    and "plannable entries" "planChunks entries = Some plan" "mset (c # cs) = mset plan"
    and "jobs_ready cd home m root content (resolveDestPath lp ld sr) place ml (c # cs)"
    and "\<forall>e \<in> set entries. \<not> me_IsDir e \<longrightarrow>
      me_Size e = int (length (content (me_RelPath e))) \<and> presized ml place e"
    and "inj_on place (me_RelPath ` {e \<in> set entries. \<not> me_IsDir e})"
  shows "\<exists>up down obS' obC' ml'.
      controls cr kc (dec_req cd zero_req) up = map (read_request root) (c # cs) \<and> sent_more obC up obC' \<and>
      serveFileStreamSession cd cr rs home 0 m (read_request root c) ks (map (read_request root) cs) [] stop obS = (m, obS') \<and>
      sent_more obS down obS' \<and>
      p2p_read_jobs cd cr rc kc root lp ld sr 0 (c # cs) ml (controls cr ks (dec_resp cd zero_resp) down)
        (datas cr ks down) stop obC = (ml', obC', None) \<and>
      (\<forall>e \<in> set entries. \<not> me_IsDir e \<longrightarrow> (\<exists>nd. node_at ml' (place (me_RelPath e)) = Some nd \<and>
         kind nd = Regular (content (me_RelPath e)))) \<and>
      (\<forall>q. q \<notin> (\<lambda>e. place (me_RelPath e)) ` {e \<in> set entries. \<not> me_IsDir e} \<longrightarrow> node_at ml' q = node_at ml q)"
proof -
  obtain plan' where p: "planChunks entries = Some plan'"
    "\<forall>e \<in> set entries. tiles (me_RelPath e) 0 (file_span e) (chunks_of (me_RelPath e) plan')"
    "\<forall>rel. rel \<notin> me_RelPath ` set entries \<longrightarrow> chunks_of rel plan' = []"
    using planChunks_tiles [OF assms(7)] by blast
  have sets: "set (c # cs) = set plan" by (rule mset_eq_setD [OF assms(9)])
  have t: "tiles (me_RelPath e) 0 (int (length (content (me_RelPath e)))) (chunks_of (me_RelPath e) plan)"
    if "e \<in> set entries" "\<not> me_IsDir e" for e
    using p(1,2) assms(8,11) that by (auto simp: file_span_def)
  note rel = planned_chunk [OF assms(7,8)]
  have "in_range (content (ch_RelPath x)) (ch_Offset x) (ch_Length x)" if "x \<in> set (c # cs)" for x
    using rel [of x] that assms(11) unfolding sets by (auto simp: chunk_in_def in_range_def)
  with assms(10) have jobs: "\<forall>x \<in> set (c # cs). job_ready cd home m root content (resolveDestPath lp ld sr) place ml x \<and>
       in_range (content (ch_RelPath x)) (ch_Offset x) (ch_Length x)" and ok: "ok_sendable cd"
    unfolding jobs_ready_def by blast+
  define ml' where "ml' = foldl (landed content place) ml (zip (c # cs) (c # cs))"
  have files: "\<exists>nd. node_at ml' (place (me_RelPath e)) = Some nd \<and> kind nd = Regular (content (me_RelPath e))"
    if mem: "e \<in> set entries" "\<not> me_IsDir e" for e
  proof -
    have "\<forall>x \<in> set (c # cs). ch_RelPath x \<noteq> me_RelPath e \<longrightarrow> place (ch_RelPath x) \<noteq> place (me_RelPath e)"
    proof (intro ballI impI notI)
      fix x
      assume x: "x \<in> set (c # cs)" "ch_RelPath x \<noteq> me_RelPath e" "place (ch_RelPath x) = place (me_RelPath e)"
      obtain e' where "e' \<in> set entries" "\<not> me_IsDir e'" "ch_RelPath x = me_RelPath e'" using rel x(1) unfolding sets by blast
      with x(2,3) inj_onD [OF assms(12), of "ch_RelPath x" "me_RelPath e"] mem show False by auto
    qed
    moreover obtain nd where "node_at ml (place (me_RelPath e)) = Some nd"
      "kind nd = Regular (replicate (length (content (me_RelPath e))) (char_of (0::nat)))"
      using bspec [OF assms(11) mem(1)] mem(2) by (auto simp: presized_def)
    moreover have "foldl (put_chunk (content (me_RelPath e))) (replicate (length (content (me_RelPath e))) (char_of (0::nat)))
        (chunks_of (me_RelPath e) (c # cs)) = content (me_RelPath e)"
      by (rule tiles_rebuild [OF t [OF mem]]) (use sets in \<open>auto simp: chunks_of_def\<close>)
    ultimately show ?thesis using landed_mixed unfolding ml'_def by metis
  qed
  have others: "node_at ml' q = node_at ml q"
    if q: "q \<notin> (\<lambda>e. place (me_RelPath e)) ` {e \<in> set entries. \<not> me_IsDir e}" for q
    unfolding ml'_def
  proof (rule landed_others, rule ballI)
    fix cc
    assume "cc \<in> set (zip (c # cs) (c # cs))"
    then have "fst cc \<in> set plan" unfolding sets [symmetric] by (metis prod.collapse set_zip_leftD)
    from rel [OF this] q show "q \<noteq> place (ch_RelPath (fst cc))" by auto
  qed
  obtain up down obS' obC' where
    "serveFileStreamSession cd cr rs home 0 m (read_request root c) ks (map (read_request root) cs) [] stop obS = (m, obS')"
    "sent_more obS down obS'"
    "p2p_read_jobs cd cr rc kc root lp ld sr 0 (c # cs) ml (controls cr ks (dec_resp cd zero_resp) down)
        (datas cr ks down) stop obC = (ml', obC', None)"
    "sent_more obC up obC'" "controls cr kc (dec_req cd zero_req) up = map (read_request root) (c # cs)"
    using p2p_session_of_jobs [where rs = rs and rc = rc and k = 0 and j = 0, OF assms(1-4) ok assms(5,6) jobs]
    unfolding ml'_def by blast
  with files others show ?thesis by blast
qed

section \<open>Example\<close>

definition demo_box :: outbox where
  "demo_box = \<lparr>ob_sent = [], ob_count = 0, ob_fail = (\<lambda>_. None), ob_closed = (\<lambda>_. False)\<rparr>"

lemma demo_box_ok: "ob_reliable demo_box"
  by (simp add: demo_box_def ob_reliable_def)

lemma demo_plan: "planChunks [demo_entry ''h/a'' 3] = Some [demo_job ''h/a'' 0 3]"
proof -
  have "chunk_loop ''h/a'' 3 4194304 = Some []" by (subst chunk_loop.simps) simp
  then have "chunk_loop ''h/a'' 3 0 = Some [demo_job ''h/a'' 0 3]"
    by (subst chunk_loop.simps) (simp add: wrap64_def parallelChunkSize_def demo_job_def)
  then show ?thesis by (simp add: demo_entry_def)
qed

lemma p2p_files_arrive_witness:
  "\<exists>down obC' ml' nd. p2p_read_jobs demo_codec toy_crypto (\<lambda>_. demo_nonce) demo_key ''/h'' ''/'' True [] 0
     [demo_job ''h/a'' 0 3] demo_local (controls toy_crypto demo_key (dec_resp demo_codec zero_resp) down)
       (datas toy_crypto demo_key down) ErrClosedPipe demo_box = (ml', obC', None) \<and>
     node_at ml' [''h'', ''a''] = Some nd \<and> kind nd = Regular ''one''"
proof -
  have e: "plannable [demo_entry ''h/a'' 3]" "inj_on demo_place (me_RelPath ` {e \<in> set [demo_entry ''h/a'' 3]. \<not> me_IsDir e})"
    "\<forall>e \<in> set [demo_entry ''h/a'' 3]. \<not> me_IsDir e \<longrightarrow> me_Size e = int (length (demo_content (me_RelPath e))) \<and>
       presized demo_local demo_place e"
    by (auto simp: plannable_def demo_entry_def max_plannable_def demo_content_def presized_def demo_place_def
        demo_local_def demo_file_simps inj_on_def)
  have jobs: "jobs_ready demo_codec (Inr ''/h'') demo_fs ''/h'' demo_content (resolveDestPath ''/'' True [])
      demo_place demo_local [demo_job ''h/a'' 0 3]"
    using demo_codec_ok demo_json
    by (simp add: jobs_ready_def job_ready_def can_read_def demo_root demo_joins demo_stats demo_local_stat os_Open_def
        open_write_def resolveDestPath_def demo_file_simps demo_content_def demo_place_def)
  from p2p_files_arrive [where rs = "\<lambda>_ _ _. demo_nonce" and rc = "\<lambda>_. demo_nonce" and stop = ErrClosedPipe,
      OF demo_key_ready demo_key_ready demo_nonces demo_box_ok demo_box_ok e(1) demo_plan refl jobs e(3,2)]
  obtain down obC' ml' where
    "p2p_read_jobs demo_codec toy_crypto (\<lambda>_. demo_nonce) demo_key ''/h'' ''/'' True [] 0
     [demo_job ''h/a'' 0 3] demo_local (controls toy_crypto demo_key (dec_resp demo_codec zero_resp) down)
       (datas toy_crypto demo_key down) ErrClosedPipe demo_box = (ml', obC', None)"
    "\<forall>e \<in> set [demo_entry ''h/a'' 3]. \<not> me_IsDir e \<longrightarrow> (\<exists>nd. node_at ml' (demo_place (me_RelPath e)) = Some nd \<and>
       kind nd = Regular (demo_content (me_RelPath e)))"
    by blast
  then show ?thesis by (auto simp: demo_entry_def demo_place_def demo_content_def)
qed

end
