(* ===== verification/Layout.thy ===== *)
theory Layout
  imports FileTransfer
begin

text \<open>
  Where a transfer puts its files (\<open>resolveDestPath\<close> and \<open>materializeTargets\<close> of
  \<open>src/filetransfer.go\<close>): the names in a manifest the walk produced stay below the destination,
  those in a manifest a peer made up need not.
\<close>

section \<open>Names relative to the parent of the root\<close>

lemma join_with_snoc: "cs \<noteq> [] \<Longrightarrow> join_with c (cs @ [d]) = join_with c cs @ c # d"
  by (induction c cs rule: join_with.induct) auto

lemma spell_snoc:
  "clean_abs p \<Longrightarrow> comps p = cs @ [d] \<Longrightarrow> p = (if cs = [] then [] else sep # join_with sep cs) @ sep # d"
  using clean_abs_spell [of p] join_with_snoc [of cs sep d] by auto

lemma drop_name: "sep \<notin> set d \<Longrightarrow> dropWhile (\<lambda>c. c \<noteq> sep) (rev (q @ sep # d)) = sep # rev q"
  unfolding rev_append by (simp, subst dropWhile_append2) auto

lemma Dir_clean:
  assumes "clean_abs p" "comps p = cs @ [d]"
  shows "clean_abs (Dir p)" "comps (Dir p) = cs"
proof -
  have good: "\<forall>c \<in> set (cs @ [d]). good_comp c" using clean_abs_good [OF assms(1)] assms(2) by simp
  let ?q = "if cs = [] then [] else sep # join_with sep cs"
  have nd: "sep \<notin> set d" using good by (simp add: good_comp_def)
  have dir: "Dir p = Clean (?q @ [sep])"
    by (subst spell_snoc [OF assms]) (simp only: Dir_def drop_name [OF nd], simp)
  have abs: "IsAbs (?q @ [sep])" by (simp add: IsAbs_def)
  show "clean_abs (Dir p)" using abs by (simp add: dir)
  have "clean_list True cs" using good by (simp add: clean_list_rooted)
  have "comps (?q @ [sep]) = cs"
  proof (cases "cs = []")
    case True
    then show ?thesis by (simp add: comps_def clean_comps_def clean_step_def)
  next
    case False
    have s: "split_on sep (join_with sep cs) = cs"
      using good False by (intro split_on_join) (auto simp: good_comp_def)
    have "split_on sep (?q @ [sep]) = [] # cs @ [[]]"
      using False s by (simp add: split_on_append_sep [where t = "[]"])
    then show ?thesis
      using abs clean_comps_id [of True cs] \<open>clean_list True cs\<close> False
      by (simp add: comps_def clean_comps_def clean_step_def)
  qed
  then show "comps (Dir p) = cs" by (simp add: dir)
qed


lemma strip_common_append: "strip_common cs (cs @ ds) = ([], ds)"
  by (induction cs) (auto simp: neq_Nil_conv intro: strip_common.simps)

lemma Rel_down:
  assumes "clean_abs b" "clean_abs p" "comps p = comps b @ ds" "ds \<noteq> []"
  shows "Rel b p = Inr (join_with sep ds)"
proof -
  have abs: "IsAbs b" "IsAbs p" using assms(1,2) by (simp_all add: clean_abs_def)
  have "Clean p \<noteq> Clean b" using assms(3,4) by (metis append_self_conv comps_Clean)
  moreover have "Clean b \<noteq> ''.''" using IsAbs_Clean [of b] abs by (auto simp: IsAbs_def)
  ultimately show ?thesis
    using abs by (simp add: Rel_def Let_def elements_Clean assms(3) strip_common_append)
qed

lemma comps_names: "clean_abs p \<Longrightarrow> cs \<noteq> [] \<Longrightarrow> \<forall>c \<in> set cs. good_comp c \<Longrightarrow>
   comps (p @ sep # join_with sep cs) = comps p @ cs"
proof -
  assume p: "clean_abs p" and cs: "cs \<noteq> []" "\<forall>c \<in> set cs. good_comp c"
  have abs: "IsAbs p" "IsAbs (p @ sep # join_with sep cs)"
    using p by (auto simp: clean_abs_def IsAbs_def has_prefix_iff)
  have s: "split_on sep (join_with sep cs) = cs"
    using cs by (intro split_on_join) (auto simp: good_comp_def)
  have "clean_list True (comps p @ cs)"
    using clean_abs_good [OF p] cs by (auto simp: clean_list_rooted)
  then have id: "clean_comps True (comps p @ cs) = comps p @ cs" by (rule clean_comps_id)
  have "split_on sep (p @ sep # join_with sep cs) = [] # (if comps p = [] then [[]] else comps p) @ cs"
    unfolding split_on_append_sep s by (simp add: split_clean_shape [OF p])
  with abs id show ?thesis
    by (cases "comps p = []") (simp_all add: comps_def [of "p @ sep # join_with sep cs"] clean_comps_cons_empty)
qed

lemma Join_names:
  assumes "clean_abs p" "cs \<noteq> []" "\<forall>c \<in> set cs. good_comp c"
  shows "clean_abs (Join p (join_with sep cs))" "comps (Join p (join_with sep cs)) = comps p @ cs"
proof -
  have "p \<noteq> []" "IsAbs p" using assms(1) by (auto simp: clean_abs_def IsAbs_def)
  then have j: "Join p (join_with sep cs) = Clean (p @ sep # join_with sep cs)" by (simp add: Join_def)
  have "IsAbs (p @ sep # join_with sep cs)" using \<open>IsAbs p\<close> by (auto simp: IsAbs_def has_prefix_iff)
  then show "clean_abs (Join p (join_with sep cs))" by (simp add: j)
  show "comps (Join p (join_with sep cs)) = comps p @ cs"
    using comps_names [OF assms] by (simp add: j)
qed

section \<open>Destinations\<close>

text \<open>A name as the walk produces it: the root's name and the names below it.\<close>

definition walked :: "string \<Rightarrow> string \<Rightarrow> bool" where
  "walked nm rel \<longleftrightarrow> good_comp nm \<and> (\<exists>cs. rel = join_with sep (nm # cs) \<and> (\<forall>c \<in> set cs. good_comp c))"

lemma has_prefix_drop: "has_prefix (p @ s) p \<and> drop (length p) (p @ s) = s"
  by simp

text \<open>
  Below a destination that is a directory an entry lands at its name; otherwise the root's own
  name is replaced by the destination.
\<close>

lemma dest_walked:
  assumes "clean_abs root" "good_comp nm" "\<forall>c \<in> set cs. good_comp c"
  shows "clean_abs (resolveDestPath root isdir nm (join_with sep (nm # cs)))"
    "comps (resolveDestPath root isdir nm (join_with sep (nm # cs))) = comps root @ (if isdir then nm # cs else cs)"
proof -
  have "clean_abs (resolveDestPath root isdir nm (join_with sep (nm # cs))) \<and>
    comps (resolveDestPath root isdir nm (join_with sep (nm # cs))) = comps root @ (if isdir then nm # cs else cs)"
  proof (cases isdir)
    case True
    then show ?thesis
      using Join_names [OF assms(1), of "nm # cs"] assms(2,3) by (simp add: resolveDestPath_def)
  next
    case False
    show ?thesis
    proof (cases cs)
      case Nil
      have "TrimPrefix nm nm = []"
        using has_prefix_drop [of nm "[]"] unfolding TrimPrefix_def append_Nil2 by auto
      then show ?thesis using False Nil assms(1) by (simp add: resolveDestPath_def clean_abs_def)
    next
      case (Cons c cs')
      have "TrimPrefix (nm @ sep # join_with sep cs) nm = sep # join_with sep cs"
        using has_prefix_drop [of nm "sep # join_with sep cs"] unfolding TrimPrefix_def by auto
      moreover have "join_with sep (nm # cs) = nm @ sep # join_with sep cs" using Cons by simp
      moreover have "IsAbs (root @ sep # join_with sep cs)"
        using assms(1) by (auto simp: clean_abs_def IsAbs_def has_prefix_iff)
      ultimately show ?thesis
        using False Cons comps_names [OF assms(1), of cs] assms(3) by (simp add: resolveDestPath_def)
    qed
  qed
  then show "clean_abs (resolveDestPath root isdir nm (join_with sep (nm # cs)))"
    "comps (resolveDestPath root isdir nm (join_with sep (nm # cs))) = comps root @ (if isdir then nm # cs else cs)"
    by simp_all
qed


section \<open>Materialising below a directory\<close>

lemma open_trunc_no_permission: "open_trunc m p mode = Inl e \<Longrightarrow> \<not> os_IsPermission e"
proof -
  have "\<not> os_IsPermission (path_error op p e)" for op p e
    by (cases e) (auto simp: os_IsPermission_def)
  then show "open_trunc m p mode = Inl e \<Longrightarrow> \<not> os_IsPermission e"
    by (auto simp: open_trunc_def split: sum.splits option.splits inode_kind.splits)
qed

lemma file_truncate_confined:
  "fs_ok m \<Longrightarrow> subtree h q \<Longrightarrow> confined h m (fst (file_truncate p q n m)) \<and> keeps_dirs m (fst (file_truncate p q n m))"
  using write_at_confined write_at_keeps_dirs
  by (auto simp: file_truncate_def split: option.splits inode_kind.splits)

lemma MkdirAll_confined_dirs:
  assumes "fs_ok m" "clean_abs d" "subtree h (comps d)" "home_dirs h m"
  shows "confined h m (fst (os_MkdirAll m d mode)) \<and> keeps_dirs m (fst (os_MkdirAll m d mode))"
  using MkdirAll_confined [OF assms, of mode] mkdir_steps_keeps_dirs [of m mode "prefixes d"]
  by (simp add: os_MkdirAll_def)

lemma materialize_file_confined:
  assumes "fs_ok m" "clean_abs d" "comps d = h @ cs @ [c]" "home_dirs h m"
  shows "confined h m (fst (materialize_file m e d)) \<and> keeps_dirs m (fst (materialize_file m e d))"
proof -
  have dir: "clean_abs (Dir d)" "subtree h (comps (Dir d))"
    using Dir_clean [OF assms(2), of "h @ cs" c] assms(3) by simp_all
  obtain m1 r where mk: "os_MkdirAll m (Dir d) (syscallMode 0x1ED) = (m1, r)"
    by (cases "os_MkdirAll m (Dir d) (syscallMode 0x1ED)")
  have c1: "confined h m m1" "keeps_dirs m m1"
    using MkdirAll_confined_dirs [OF assms(1) dir assms(4), of "syscallMode 0x1ED"] mk by simp_all
  show ?thesis
  proof (cases r)
    case (Some err)
    with mk c1 show ?thesis by (simp add: materialize_file_def)
  next
    case None
    let ?mode = "syscallMode (if me_Mode e = 0 then 0x180 else me_Mode e)"
    show ?thesis
    proof (cases "open_trunc m1 d ?mode")
      case (Inl err)
      with mk None c1 open_trunc_no_permission [OF Inl] show ?thesis by (simp add: materialize_file_def Let_def)
    next
      case (Inr x)
      then obtain m2 q where o: "open_trunc m1 d ?mode = Inr (m2, q)" by (cases x) auto
      have ok1: "fs_ok m1" using c1 by (simp add: confined_def)
      have sub: "subtree h (comps d)" using assms(3) by simp
      note c2 = open_trunc_confined [OF ok1 assms(2) sub o]
      have "confined h m2 (fst (file_truncate d q (me_Size e) m2)) \<and> keeps_dirs m2 (fst (file_truncate d q (me_Size e) m2))"
        by (rule file_truncate_confined) (use c2 sub in \<open>auto simp: confined_def\<close>)
      then have "confined h m (fst (file_truncate d q (me_Size e) m2)) \<and> keeps_dirs m (fst (file_truncate d q (me_Size e) m2))"
        using c1 c2(1) open_trunc_keeps_dirs [OF o] confined_trans keeps_dirs_trans by blast
      then show ?thesis using mk None o by (simp add: materialize_file_def Let_def)
    qed
  qed
qed

lemma materialize_all_confined:
  assumes "clean_abs root" "good_comp nm"
  shows "\<forall>e \<in> set es. walked nm (me_RelPath e) \<Longrightarrow> fs_ok m \<Longrightarrow> home_dirs (comps root) m \<Longrightarrow>
    confined (comps root) m (fst (materialize_all root True nm m es))"
proof (induction es arbitrary: m)
  case Nil
  then show ?case by simp
next
  case (Cons e es)
  obtain cs where cs: "me_RelPath e = join_with sep (nm # cs)" "\<forall>c \<in> set cs. good_comp c"
    using Cons.prems(1) by (auto simp: walked_def)
  let ?d = "resolveDestPath root True nm (me_RelPath e)"
  have d: "clean_abs ?d" "comps ?d = comps root @ nm # cs"
    using dest_walked [OF assms cs(2), of True] by (simp_all add: cs(1))
  obtain m1 r where m1: "(if me_IsDir e then materialize_dir m e ?d else materialize_file m e ?d) = (m1, r)"
    by (cases "if me_IsDir e then materialize_dir m e ?d else materialize_file m e ?d")
  have "confined (comps root) m m1 \<and> keeps_dirs m m1"
  proof (cases "me_IsDir e")
    case True
    with m1 MkdirAll_confined_dirs [OF Cons.prems(2) d(1) _ Cons.prems(3)] d(2) show ?thesis
      by (simp add: materialize_dir_def) (metis fst_conv)
  next
    case False
    have "comps ?d = comps root @ butlast (nm # cs) @ [last (nm # cs)]" using d(2) by simp
    from materialize_file_confined [OF Cons.prems(2) d(1) this Cons.prems(3), of e] m1 False show ?thesis by simp
  qed
  then have c: "confined (comps root) m m1" "fs_ok m1" "home_dirs (comps root) m1"
    using keeps_dirs_home Cons.prems(3) by (auto simp: confined_def)
  show ?case
  proof (cases r)
    case None
    with m1 have "materialize_all root True nm m (e # es) = materialize_all root True nm m1 es"
      by (simp add: Let_def)
    with confined_trans [OF c(1)] Cons.IH [OF _ c(2,3)] Cons.prems(1) show ?thesis by simp
  next
    case (Some err)
    with m1 c(1) show ?thesis by (simp add: Let_def)
  qed
qed

section \<open>The names of a manifest\<close>

lemma manifest_all_entries:
  "manifest_all f p es = Some (Inr xs) \<Longrightarrow> x \<in> set xs \<Longrightarrow>
   \<exists>n nd ys. (n, nd) \<in> set es \<and> f (Join p n) = Some (Inr ys) \<and> x \<in> set ys"
proof (induction es arbitrary: xs)
  case (Cons e es)
  then show ?case by (cases e) (fastforce split: option.splits sum.splits)
qed simp

lemma manifest_walk_names:
  assumes "fs_ok m" "clean_abs root" "comps root = cs @ [nm]"
  shows "manifest_walk k m (Dir root) p = Some (Inr es) \<Longrightarrow> clean_abs p \<Longrightarrow> comps p = comps root @ ds \<Longrightarrow>
    e \<in> set es \<Longrightarrow> walked nm (me_RelPath e)"
proof (induction k arbitrary: p es e ds)
  case (Suc k)
  have good: "\<forall>c \<in> set (cs @ [nm] @ ds). good_comp c"
    using clean_abs_good [OF Suc.prems(2)] Suc.prems(3) assms(3) by simp
  note b = Dir_clean [OF assms(2,3)]
  have here: "walked nm (me_RelPath (manifest_entry (Dir root) p info))" for info
  proof -
    have "Rel (Dir root) p = Inr (join_with sep (nm # ds))"
      by (rule Rel_down [OF b(1) Suc.prems(2)]) (simp_all add: b(2) Suc.prems(3) assms(3))
    with good show ?thesis by (auto simp: manifest_entry_def walked_def)
  qed
  obtain q info where st: "os_Lstat m p = Inr (q, info)"
    using Suc.prems(1) by (auto split: sum.splits)
  show ?case
  proof (cases "is_dir info")
    case False
    with st Suc.prems(1,4) here show ?thesis by auto
  next
    case True
    obtain dirEntries where rd: "os_ReadDir m p = Inr dirEntries"
      using Suc.prems(1) st True by (auto split: sum.splits)
    obtain xs where xs: "manifest_all (manifest_walk k m (Dir root)) p dirEntries = Some (Inr xs)"
      "es = manifest_entry (Dir root) p info # xs"
      using Suc.prems(1) st True rd by (auto split: option.splits sum.splits)
    show ?thesis
    proof (cases "e \<in> set xs")
      case False
      with xs(2) Suc.prems(4) here show ?thesis by auto
    next
      case True
      from manifest_all_entries [OF xs(1) this] obtain n nd ys
        where n: "(n, nd) \<in> set dirEntries" "manifest_walk k m (Dir root) (Join p n) = Some (Inr ys)" "e \<in> set ys"
        by blast
      have "good_comp n" using ReadDir_entries(1) [OF assms(1) Suc.prems(2) rd] n(1) by blast
      note j = Join_good [OF Suc.prems(2) this]
      show ?thesis
        by (rule Suc.IH [OF n(2) j(1) _ n(3), of "ds @ [n]"]) (simp add: j(2) Suc.prems(3))
    qed
  qed
qed simp


lemma buildManifest_names:
  assumes "fs_ok m" "clean_abs root" "comps root = cs @ [nm]"
    and "buildManifest k m root recursive = Some (Inr es)" "e \<in> set es"
  shows "walked nm (me_RelPath e)"
proof -
  have "manifest_walk k m (Dir root) root = Some (Inr es)"
    using assms(4) by (auto simp: buildManifest_def split: sum.splits if_splits)
  from manifest_walk_names [OF assms(1-3) this assms(2) _ assms(5), of "[]"] show ?thesis by simp
qed

lemma materialize_all_root: "materialize_all root True s m es = materialize_all root True s' m es"
  by (induction es arbitrary: m) (simp_all add: resolveDestPath_def Let_def split: option.splits prod.splits)

section \<open>Properties\<close>

text \<open>
  The names a device's walk puts into a manifest lead the
  creation of directories and files only to places below the destination directory; nothing else
  of the receiving file system changes, even when creating fails in between.
\<close>

theorem download_stays_inside:
  assumes "fs_ok md" "clean_abs root" "root \<noteq> ''/''" "buildManifest k md root recursive = Some (Inr es)"
    and "fs_ok ml" "clean_abs lp" "home_dirs (comps lp) ml"
  shows "confined (comps lp) ml (fst (materializeTargets es lp True ml))"
proof -
  have "comps root \<noteq> []" using clean_abs_spell [OF assms(2)] assms(3) by auto
  then obtain cs nm where r: "comps root = cs @ [nm]" by (metis rev_exhaust)
  have nm: "good_comp nm" using clean_abs_good [OF assms(2), of nm] r by simp
  have "\<forall>e \<in> set es. walked nm (me_RelPath e)"
    using buildManifest_names [OF assms(1,2) r assms(4)] by blast
  from materialize_all_confined [OF assms(6) nm this assms(5,7)] show ?thesis
    unfolding materializeTargets_def by (subst materialize_all_root) 
qed

lemma comps_up:
  assumes "clean_abs root" "comps root = ds @ [d]" "good_comp x"
  shows "clean_abs (Join root (''../'' @ x))" "comps (Join root (''../'' @ x)) = ds @ [x]"
proof -
  have "root \<noteq> []" "IsAbs root" using assms(1) by (auto simp: clean_abs_def IsAbs_def)
  then have j: "Join root (''../'' @ x) = Clean (root @ sep # ''../'' @ x)" by (simp add: Join_def)
  have abs: "IsAbs (root @ sep # ''../'' @ x)" using \<open>IsAbs root\<close> by (auto simp: IsAbs_def has_prefix_iff)
  show "clean_abs (Join root (''../'' @ x))" unfolding j by (rule clean_abs_Clean [OF abs])
  have good: "\<forall>c \<in> set (ds @ [d]). good_comp c" using clean_abs_good [OF assms(1)] assms(2) by simp
  have x: "sep \<notin> set x" "x \<noteq> []" "x \<noteq> ''.''" "x \<noteq> ''..''" using assms(3) by (auto simp: good_comp_def)
  have "split_on sep (root @ sep # ''../'' @ x) = ([] # ds @ [d]) @ [''..'', x]"
    unfolding split_on_append_sep split_clean_shape [OF assms(1)] assms(2)
    using split_on_append [of sep "''..''" x] split_on_no_sep [OF x(1)] by simp
  moreover have "foldl (clean_step True) [] ([] # ds @ [d]) = rev (ds @ [d])"
  proof -
    have "rev (foldl (clean_step True) [] (ds @ [d])) = ds @ [d]"
      using clean_comps_id [of True "ds @ [d]"] good by (simp only: clean_comps_def clean_list_rooted)
    then have "foldl (clean_step True) [] (ds @ [d]) = rev (ds @ [d])" by (metis rev_rev_ident)
    moreover have "clean_step True [] [] = []" by (simp add: clean_step_def)
    ultimately show ?thesis by (simp only: append_Cons foldl_Cons)
  qed
  ultimately have "comps (root @ sep # ''../'' @ x) = ds @ [x]"
    using abs x good unfolding comps_def clean_comps_def
    by (simp add: clean_step_def good_comp_def)
  then show "comps (Join root (''../'' @ x)) = ds @ [x]" unfolding j comps_Clean .
qed

text \<open>
  Nothing checks the names of a manifest that comes from the
  peer. A single entry named \<open>../x\<close> makes the receiver create, or truncate, the file \<open>x\<close> next to
  the destination directory, without an error.
\<close>

theorem hostile_name_escapes:
  assumes "fs_ok m" "clean_abs root" "comps root = ds @ [d]" "home_dirs (comps root) m"
    and "good_comp x" "x \<noteq> d" "\<not> dir_at m (ds @ [x])" "node_at m (ds @ [x]) = None \<or> (\<exists>nd. node_at m (ds @ [x]) = Some nd \<and> is_regular nd)"
    and "me_RelPath e = ''../'' @ x" "\<not> me_IsDir e" "0 \<le> me_Size e"
  shows "\<not> subtree (comps root) (ds @ [x]) \<and>
    (\<exists>m' nd. materializeTargets [e] root True m = (m', None) \<and> node_at m' (ds @ [x]) = Some nd \<and>
       kind nd = Regular (replicate (nat (me_Size e)) (char_of (0::nat))))"
proof
  show "\<not> subtree (comps root) (ds @ [x])" using assms(3,6) by (auto simp: subtree_iff)
  define dp where "dp = Join root (''../'' @ x)"
  note u = comps_up [OF assms(2,3,5), folded dp_def]
  have dest: "resolveDestPath root True s (me_RelPath e) = dp" for s
    by (simp only: resolveDestPath_def assms(9) dp_def if_True)
  have dirs: "dirs_to m (ds @ [x])"
  proof -
    have "dir_at m (take j ds)" for j
      using assms(3,4) unfolding home_dirs_def dir_at_def subtree_iff by (metis append.assoc append_take_drop_id)
    then show ?thesis unfolding dirs_to_def by (metis less_Suc_eq_le length_append_singleton take_append diff_is_0_eq take_0 append_Nil2)
  qed
  note D = Dir_clean [OF u(1,2)]
  have "os_MkdirAll m (Dir dp) mode = (m, None)" for mode
  proof -
    have "clean_abs p \<and> dirs_to m (comps p) \<and> dir_at m (comps p)" if p: "p \<in> set (prefixes (Dir dp))" for p
    proof -
      obtain k where k: "clean_abs p" "comps p = take (Suc k) ds"
        using prefixes_clean [OF D(1) p] D(2) by auto
      have da: "dir_at m (take j ds)" for j
        using assms(3,4) unfolding home_dirs_def dir_at_def subtree_iff by (metis append.assoc append_take_drop_id)
      then have "dirs_to m (take (Suc k) ds)" unfolding dirs_to_def take_take by blast
      with k da show ?thesis by simp
    qed
    then show ?thesis
      using mkdir_steps_dirs [OF assms(1), of "prefixes (Dir dp)" mode "[]"] by (simp add: os_MkdirAll_def)
  qed
  moreover have "resolve m True dp = Inr (ds @ [x])"
    using resolve_dirs [OF assms(1) u(1)] dirs by (simp add: u(2))
  note made = calculation this
  show "\<exists>m' nd. materializeTargets [e] root True m = (m', None) \<and> node_at m' (ds @ [x]) = Some nd \<and>
       kind nd = Regular (replicate (nat (me_Size e)) (char_of (0::nat)))"
  proof (cases "node_at m (ds @ [x])")
    case None
    with assms(10,11) made show ?thesis
      by (simp add: materializeTargets_def dest materialize_file_def open_trunc_def Let_def
          file_truncate_def write_at_def)
  next
    case (Some nd)
    then obtain b where "kind nd = Regular b" using assms(8) by (auto simp: is_regular_def split: inode_kind.splits)
    with Some assms(10,11) made show ?thesis
      by (simp add: materializeTargets_def dest materialize_file_def open_trunc_def Let_def
          file_truncate_def write_at_def)
  qed
qed


lemma h_clean: "clean_abs ''/h''"
  by (simp add: clean_abs_def comps_h Clean_def spell_def)

theorem download_stays_inside_witness:
  "\<exists>es. es \<noteq> [] \<and> confined [''h''] demo_fs (fst (materializeTargets es ''/h'' True demo_fs))"
proof -
  have st: "os_Lstat demo_fs ''/h/a'' = Inr ([''h'', ''a''], demo_file ''one'')"
    by (simp add: os_Lstat_def stat_at_def resolve_def IsAbs_def demo_nodes demo_dir_def demo_file_def)
  have d: "\<not> is_dir (demo_file ''one'')" by (simp add: is_dir_def demo_file_def)
  have bm: "buildManifest 1 demo_fs ''/h/a'' False =
      Some (Inr [manifest_entry (Dir ''/h/a'') ''/h/a'' (demo_file ''one'')])"
    by (simp add: buildManifest_def st d)
  have c: "clean_abs ''/h/a''" "''/h/a'' \<noteq> ''/''"
    by (simp_all add: clean_abs_def IsAbs_def Clean_def comps_def clean_comps_def clean_step_def spell_def)
  have home: "home_dirs (comps ''/h'') demo_fs" using demo_home by (simp add: comps_h)
  from download_stays_inside [OF demo_fs_ok c bm demo_fs_ok h_clean home]
  show ?thesis unfolding comps_h by blast
qed

theorem hostile_name_escapes_witness:
  "\<exists>m'. materializeTargets [demo_entry ''../x'' 3] ''/h'' True demo_fs = (m', None) \<and> node_at m' [''x''] \<noteq> None \<and>
     node_at demo_fs [''x''] = None"
proof -
  have a: "comps ''/h'' = [] @ [''h'']" "home_dirs (comps ''/h'') demo_fs" "good_comp ''x''" "''x'' \<noteq> ''h''"
    "\<not> dir_at demo_fs ([] @ [''x''])"
    "node_at demo_fs ([] @ [''x'']) = None \<or> (\<exists>nd. node_at demo_fs ([] @ [''x'']) = Some nd \<and> is_regular nd)"
    "me_RelPath (demo_entry ''../x'' 3) = ''../'' @ ''x''" "\<not> me_IsDir (demo_entry ''../x'' 3)"
    "0 \<le> me_Size (demo_entry ''../x'' 3)"
    using demo_home by (simp_all add: comps_h good_comp_def dir_at_def demo_nodes demo_entry_def)
  have "node_at demo_fs [''x''] = None" by (simp add: demo_nodes)
  with hostile_name_escapes [OF demo_fs_ok h_clean a] show ?thesis unfolding append_Nil by auto
qed

end
