(* ===== verification/Trees.thy ===== *)
theory Trees
  imports FileCopy
begin

text \<open>
  The nodes below a directory in the order in which a walk meets them (\<open>filepath.WalkDir\<close> and the
  recursive walks of the sources), as paths relative to the directory, and the paths they have.
\<close>

section \<open>The nodes of a tree in the order of the walk\<close>

fun tree_list :: "nat \<Rightarrow> fs \<Rightarrow> string list \<Rightarrow> string list list" where
  "tree_list 0 m q = []"
| "tree_list (Suc k) m q = [] # (if dir_at m q
     then concat (map (\<lambda>c. map (Cons c) (tree_list k m (q @ [c]))) (children m q)) else [])"

lemma path_of:
  assumes "\<forall>c \<in> set q. good_comp c"
  shows "clean_abs (spell True q)" "comps (spell True q) = q"
proof -
  have cl: "clean_list True q" using assms by (simp add: clean_list_rooted)
  show "comps (spell True q) = q" by (rule comps_spell [OF cl])
  then show "clean_abs (spell True q)" using spell_abs [OF cl] by (simp add: clean_abs_def Clean_def)
qed

lemma path_unique: "clean_abs p \<Longrightarrow> p = spell True (comps p)"
  using clean_abs_spell by (simp add: spell_def)

lemma Join_path:
  assumes "\<forall>c \<in> set q. good_comp c" "good_comp n"
  shows "Join (spell True q) n = spell True (q @ [n])"
  using path_unique [OF Join_good(1) [OF path_of(1) [OF assms(1)] assms(2)]]
    Join_good(2) [OF path_of(1) [OF assms(1)] assms(2)] by (simp add: path_of(2) [OF assms(1)])

text \<open>What a plain tree gives for a child.\<close>

definition tree_ok :: "fs \<Rightarrow> string list \<Rightarrow> nat \<Rightarrow> bool" where
  "tree_ok m q n \<longleftrightarrow> fs_ok m \<and> dirs_to m q \<and> node_at m q \<noteq> None \<and> plain_tree m q \<and> tree_depth m q n"

lemma tree_ok_child:
  assumes "tree_ok m q (Suc n)" "c \<in> set (children m q)"
  shows "tree_ok m (q @ [c]) n"
proof -
  have n: "node_at m (q @ [c]) \<noteq> None" using children_node [OF assms(2)] by auto
  have "dir_at m q"
    using assms(1) n unfolding tree_ok_def plain_tree_def by (metis append_Nil append_Nil2 not_Cons_self2)
  moreover have "plain_tree m (q @ [c])"
    using assms(1) unfolding tree_ok_def plain_tree_def by (metis append.assoc)
  moreover have "tree_depth m (q @ [c]) n"
    using assms(1) unfolding tree_ok_def tree_depth_def
    by (metis append.assoc append_Cons append_Nil length_Cons Suc_less_eq)
  ultimately show ?thesis using assms(1) n by (simp add: tree_ok_def dirs_to_snoc)
qed

lemma tree_ok_0: "\<not> tree_ok m q 0"
proof
  assume h: "tree_ok m q 0"
  then have "node_at m (q @ []) \<noteq> None" by (simp add: tree_ok_def)
  with h show False unfolding tree_ok_def tree_depth_def by blast
qed

lemma tree_ok_good: "tree_ok m q n \<Longrightarrow> c \<in> set q \<Longrightarrow> good_comp c"
  unfolding tree_ok_def using fs_ok_names by blast

lemma tree_list_set:
  "tree_ok m q n \<Longrightarrow> t \<in> set (tree_list n m q) \<longleftrightarrow> node_at m (q @ t) \<noteq> None"
proof (induction n arbitrary: q t)
  case 0
  then show ?case by (simp add: tree_ok_0)
next
  case (Suc n)
  show ?case
  proof (cases t)
    case Nil
    with Suc.prems show ?thesis by (auto simp: tree_ok_def)
  next
    case (Cons c u)
    have ci: "c \<in> set (children m q) \<longleftrightarrow> node_at m (q @ [c]) \<noteq> None"
      using Suc.prems by (intro children_iff) (simp add: tree_ok_def)
    have up: "dir_at m q \<and> node_at m (q @ [c]) \<noteq> None" if n: "node_at m (q @ c # u) \<noteq> None"
    proof -
      have pt: "\<And>t u. u \<noteq> [] \<Longrightarrow> node_at m (q @ t @ u) \<noteq> None \<Longrightarrow> dir_at m (q @ t)"
        using Suc.prems unfolding tree_ok_def plain_tree_def by blast
      have "dir_at m q" using pt [of "c # u" "[]"] n by simp
      moreover have "node_at m (q @ [c]) \<noteq> None"
        using pt [of u "[c]"] n by (cases "u = []") (auto simp: dir_at_def)
      ultimately show ?thesis by simp
    qed
    have "t \<in> set (tree_list (Suc n) m q) \<longleftrightarrow> dir_at m q \<and> c \<in> set (children m q) \<and> u \<in> set (tree_list n m (q @ [c]))"
      using Cons by auto
    with Suc.IH [OF tree_ok_child [OF Suc.prems], of c u] ci up Cons show ?thesis by auto
  qed
qed

lemma distinct_tagged:
  "distinct xs \<Longrightarrow> (\<And>c. distinct (f c)) \<Longrightarrow> distinct (concat (map (\<lambda>c. map (Cons c) (f c)) xs))"
  by (induction xs) (auto simp: distinct_map inj_on_def)

lemma tree_list_distinct: "distinct (tree_list n m q)"
proof (induction n arbitrary: q)
  case (Suc n)
  have "distinct (concat (map (\<lambda>c. map (Cons c) (tree_list n m (q @ [c]))) (children m q)))"
    by (rule distinct_tagged [OF children_distinct Suc])
  then show ?case by auto
qed simp


end
