(* ===== verification/TreeTransfer.thy ===== *)
theory TreeTransfer
  imports Layout P2PTransfer Trees
begin

text \<open>
  The download of a whole directory: the manifest of a tree is complete and names parents before
  what they hold, materialising it creates the tree with empty contents, and the chunks fill in the
  contents (\<open>buildManifest\<close>, \<open>materializeTargets\<close> of \<open>src/filetransfer.go\<close> with the data-channel
  transport).
\<close>

section \<open>The manifest of a tree\<close>

definition tree_entry :: "fs \<Rightarrow> string \<Rightarrow> string list \<Rightarrow> transferManifestEntry" where
  "tree_entry m b q = manifest_entry b (spell True q) (the (node_at m q))"

lemma manifest_all_map:
  "\<forall>(n, nd) \<in> set es. f (Join p n) = Some (Inr (g n)) \<Longrightarrow>
   manifest_all f p es = Some (Inr (concat (map (g \<circ> fst) es)))"
  by (induction es) auto

lemma manifest_walk_tree:
  "tree_ok m q n \<Longrightarrow> manifest_walk n m b (spell True q) = Some (Inr (map (\<lambda>t. tree_entry m b (q @ t)) (tree_list n m q)))"
proof (induction n arbitrary: q)
  case 0
  then show ?case by (simp add: tree_ok_0)
next
  case (Suc n)
  have ok: "fs_ok m" "dirs_to m q" using Suc.prems by (simp_all add: tree_ok_def)
  have good: "\<forall>c \<in> set q. good_comp c" using tree_ok_good [OF Suc.prems] by blast
  note path = path_of [OF good]
  obtain nd where nd: "node_at m q = Some nd" using Suc.prems by (auto simp: tree_ok_def)
  have st: "stat_at follow op m (spell True q) = Inr (q, nd)" for follow op
    using stat_dirs [OF ok(1) path(1)] ok(2) nd by (simp add: path(2))
  have e: "manifest_entry b (spell True q) nd = tree_entry m b (q @ [])" using nd by (simp add: tree_entry_def)
  show ?case
  proof (cases "is_dir nd")
    case False
    with st nd e show ?thesis by (simp add: os_Lstat_def dir_at_def)
  next
    case True
    let ?es = "map (\<lambda>c. (c, the (node_at m (q @ [c])))) (children m q)"
    let ?g = "\<lambda>c. map (\<lambda>t. tree_entry m b (q @ c # t)) (tree_list n m (q @ [c]))"
    have rd: "os_ReadDir m (spell True q) = Inr ?es" using st True by (simp add: os_ReadDir_def)
    have "\<forall>(c, x) \<in> set ?es. manifest_walk n m b (Join (spell True q) c) = Some (Inr (?g c))"
    proof (clarsimp)
      fix c assume c: "c \<in> set (children m q)"
      have "good_comp c" by (rule children_good [OF ok(1) c])
      with Suc.IH [OF tree_ok_child [OF Suc.prems c]] Join_path [OF good]
      show "manifest_walk n m b (Join (spell True q) c) = Some (Inr (?g c))" by simp
    qed
    from manifest_all_map [OF this]
    have all: "manifest_all (manifest_walk n m b) (spell True q) ?es = Some (Inr (concat (map ?g (children m q))))"
      by (simp add: comp_def)
    have "map (\<lambda>t. tree_entry m b (q @ t)) (tree_list (Suc n) m q) =
        tree_entry m b (q @ []) # concat (map ?g (children m q))"
      using nd True by (simp add: dir_at_def map_concat comp_def)
    with st True rd all e show ?thesis by (simp add: os_Lstat_def)
  qed
qed

text \<open>Every path comes after its prefixes; \<open>S\<close> are the paths already met.\<close>

fun parents_first :: "string list set \<Rightarrow> string list list \<Rightarrow> bool" where
  "parents_first S [] = True"
| "parents_first S (t # ts) = ((\<forall>j < length t. take j t \<in> S) \<and> parents_first (insert t S) ts)"

lemma parents_first_mono: "parents_first S ts \<Longrightarrow> S \<subseteq> S' \<Longrightarrow> parents_first S' ts"
proof (induction ts arbitrary: S S')
  case (Cons t ts)
  then show ?case using Cons.IH [of "insert t S" "insert t S'"] by auto
qed simp

lemma parents_first_append: "parents_first S xs \<Longrightarrow> parents_first S ys \<Longrightarrow> parents_first S (xs @ ys)"
proof (induction xs arbitrary: S)
  case (Cons x xs)
  then show ?case using parents_first_mono [of S ys "insert x S"] by auto
qed simp

lemma parents_first_tagged: "parents_first S ts \<Longrightarrow> parents_first (insert [] (Cons c ` S)) (map (Cons c) ts)"
proof (induction ts arbitrary: S)
  case (Cons t ts)
  have "take j (c # t) \<in> insert [] (Cons c ` S)" if "j < length (c # t)" for j
    using that Cons.prems by (cases j) auto
  moreover have "parents_first (insert (c # t) (insert [] (Cons c ` S))) (map (Cons c) ts)"
    using Cons.IH [of "insert t S"] Cons.prems by (auto elim: parents_first_mono)
  ultimately show ?case by simp
qed simp

lemma tree_list_parents: "parents_first {} (tree_list n m q)"
proof (induction n arbitrary: q)
  case (Suc n)
  have "parents_first {[]} (map (Cons c) (tree_list n m (q @ [c])))" for c
    using parents_first_tagged [OF Suc.IH [of "q @ [c]"], of c] by simp
  then have "parents_first {[]} (concat (map (\<lambda>c. map (Cons c) (tree_list n m (q @ [c]))) xs))" for xs
    by (induction xs) (auto intro: parents_first_append)
  then show ?case by auto
qed simp


section \<open>Materialising a tree\<close>

definition skeleton :: "inode_kind \<Rightarrow> inode_kind" where
  "skeleton k = (case k of Regular b \<Rightarrow> Regular (replicate (length b) (char_of (0::nat))) | _ \<Rightarrow> k)"

text \<open>
  The state between two entries: the paths \<open>S\<close> of the tree at \<open>s\<close> of \<open>md\<close> exist below \<open>D\<close> with the
  right kind, nothing else has changed against \<open>m\<close>.
\<close>

definition built :: "fs \<Rightarrow> string list \<Rightarrow> fs \<Rightarrow> string list \<Rightarrow> string list set \<Rightarrow> fs \<Rightarrow> bool" where
  "built md s m D S m' \<longleftrightarrow> fs_ok m' \<and>
     (\<forall>t \<in> S. map_option kind (node_at m' (D @ t)) = map_option (skeleton \<circ> kind) (node_at md (s @ t))) \<and>
     (\<forall>q. (\<forall>t \<in> S. q \<noteq> D @ t) \<longrightarrow> node_at m' q = node_at m q)"

lemma built_dirs:
  assumes "built md s m D S m'" "plain_tree md s" "node_at md (s @ t) \<noteq> None" "\<forall>j < length t. take j t \<in> S"
    and "dirs_to m D"
  shows "dirs_to m' (D @ t)"
  unfolding dirs_to_def
proof (intro allI impI)
  fix k assume k: "k < length (D @ t)"
  show "dir_at m' (take k (D @ t))"
  proof (cases "k < length D")
    case True
    then have eq: "take k (D @ t) = take k D" "length (take k D) < length D" by simp_all
    then have "\<forall>u \<in> S. take k D \<noteq> D @ u" by (auto dest: arg_cong [where f = length])
    then have "node_at m' (take k D) = node_at m (take k D)" using assms(1) unfolding built_def by blast
    moreover have "dir_at m (take k D)" using assms(5) True unfolding dirs_to_def by blast
    ultimately show ?thesis unfolding eq(1) by (simp add: dir_at_def)
  next
    case False
    define j where "j = k - length D"
    have j: "j < length t" "take k (D @ t) = D @ take j t" using False k by (auto simp: j_def)
    have "dir_at md (s @ take j t)"
      using assms(2,3) j(1) unfolding plain_tree_def by (metis append_take_drop_id drop_eq_Nil linorder_not_le)
    then obtain nd where nd: "node_at md (s @ take j t) = Some nd" "kind nd = Directory"
      by (auto simp: dir_at_def is_dir_def)
    have "take j t \<in> S" using assms(4) j(1) by blast
    with assms(1) nd have "map_option kind (node_at m' (D @ take j t)) = Some Directory"
      unfolding built_def by (fastforce simp: skeleton_def)
    then show ?thesis unfolding j(2) by (auto simp: dir_at_def is_dir_def)
  qed
qed

lemma MkdirAll_exists:
  assumes "fs_ok m" "clean_abs d" "dirs_to m (comps d)" "dir_at m (comps d)"
  shows "os_MkdirAll m d mode = (m, None)"
proof -
  have "clean_abs p \<and> dirs_to m (comps p) \<and> dir_at m (comps p)" if p: "p \<in> set (prefixes d)" for p
  proof -
    obtain k where k: "clean_abs p" "comps p = take (Suc k) (comps d)"
      using prefixes_clean [OF assms(2) p] by blast
    have da: "dir_at m (take j (comps d))" for j
      using assms(3,4) unfolding dirs_to_def by (metis linorder_not_less take_all)
    then have "dirs_to m (take (Suc k) (comps d))" unfolding dirs_to_def take_take by blast
    with k da show ?thesis by simp
  qed
  then show ?thesis
    using mkdir_steps_dirs [OF assms(1), of "prefixes d" mode "[]"] by (simp add: os_MkdirAll_def)
qed

lemma materialize_dir_new:
  assumes "fs_ok m" "clean_abs d" "dirs_to m (comps d)" "node_at m (comps d) = None" "comps d \<noteq> []"
  shows "\<exists>nd. materialize_dir m e d = (put_node (comps d) nd m, None) \<and> kind nd = Directory"
  using MkdirAll_new [OF assms, of "syscallMode (or (if me_Mode e = 0 then 0x1ED else me_Mode e) 0x1C0)"]
  unfolding materialize_dir_def by (metis inode.select_convs(1))

lemma materialize_file_new:
  assumes "fs_ok m" "clean_abs d" "comps d = q @ [c]" "dirs_to m (q @ [c])" "node_at m (q @ [c]) = None" "0 \<le> me_Size e"
  shows "\<exists>nd m'. materialize_file m e d = (m', None) \<and> kind nd = Regular (replicate (nat (me_Size e)) (char_of (0::nat))) \<and>
    fs_ok m' \<and> (\<forall>p. node_at m' p = (if p = q @ [c] then Some nd else node_at m p))"
proof -
  note D = Dir_clean [OF assms(2,3)]
  have dq: "dirs_to m q" "dir_at m q" using assms(4) by (simp_all add: dirs_to_snoc)
  have mk: "os_MkdirAll m (Dir d) mode = (m, None)" for mode
    by (rule MkdirAll_exists [OF assms(1) D(1)]) (simp_all add: D(2) dq)
  have rs: "resolve m True d = Inr (q @ [c])"
    using resolve_dirs [OF assms(1,2)] assms(3,4) by simp
  define mode where "mode = syscallMode (if me_Mode e = 0 then 0x180 else me_Mode e)"
  define nd where "nd = \<lparr>kind = Regular [], perm = and mode (not (umask m)), mtime = clock m\<rparr>"
  have ot: "open_trunc m d mode = Inr (put_node (q @ [c]) nd m, q @ [c])"
    using rs assms(5) by (simp add: open_trunc_def nd_def)
  have ft: "file_truncate d (q @ [c]) (me_Size e) (put_node (q @ [c]) nd m) =
      (put_node (q @ [c]) (nd\<lparr>kind := Regular (replicate (nat (me_Size e)) (char_of (0::nat)))\<rparr>) (put_node (q @ [c]) nd m), None)"
    using assms(6) by (simp add: file_truncate_def write_at_def nd_def)
  have good: "\<forall>x \<in> set (q @ [c]). good_comp x" using clean_abs_good [OF assms(2)] assms(3) by simp
  let ?nd = "nd\<lparr>kind := Regular (replicate (nat (me_Size e)) (char_of (0::nat)))\<rparr>"
  let ?m' = "put_node (q @ [c]) ?nd (put_node (q @ [c]) nd m)"
  have "materialize_file m e d = (?m', None)"
    using mk ot ft by (simp add: materialize_file_def Let_def flip: mode_def)
  moreover have "fs_ok ?m'"
    using assms(1) good by (intro fs_ok_put) (auto simp: is_symlink_def nd_def)
  ultimately show ?thesis by (intro exI [of _ ?nd] exI [of _ ?m']) simp
qed


text \<open>The names the walk gives to the nodes of the tree at \<open>root\<close>, and where they go.\<close>

lemma tree_entry_fields:
  assumes "clean_abs root" "comps root = cs @ [nm]" "\<forall>c \<in> set t. good_comp c" "node_at m (comps root @ t) = Some nd"
  shows "me_RelPath (tree_entry m (Dir root) (comps root @ t)) = join_with sep (nm # t)"
    "me_Size (tree_entry m (Dir root) (comps root @ t)) = int (node_size nd)"
    "me_IsDir (tree_entry m (Dir root) (comps root @ t)) = is_dir nd"
proof -
  note D = Dir_clean [OF assms(1,2)]
  have good: "\<forall>c \<in> set (comps root @ t). good_comp c" using clean_abs_good [OF assms(1)] assms(3) by auto
  have "Rel (Dir root) (spell True (comps root @ t)) = Inr (join_with sep (nm # t))"
    by (rule Rel_down [OF D(1) path_of(1) [OF good]]) (use path_of(2) [OF good] D(2) assms(2) in simp_all)
  then show "me_RelPath (tree_entry m (Dir root) (comps root @ t)) = join_with sep (nm # t)"
    by (simp add: tree_entry_def manifest_entry_def)
  show "me_Size (tree_entry m (Dir root) (comps root @ t)) = int (node_size nd)"
    "me_IsDir (tree_entry m (Dir root) (comps root @ t)) = is_dir nd"
    by (simp_all add: tree_entry_def manifest_entry_def assms(4))
qed

lemma built_step:
  assumes "built md s m D S m0" "t \<notin> S" "node_at md (s @ t) = Some nd" "fs_ok m'"
    and "\<forall>q. node_at m' q = (if q = D @ t then Some nd' else node_at m0 q)" "kind nd' = skeleton (kind nd)"
  shows "built md s m D (insert t S) m'"
  using assms unfolding built_def by auto

lemma materialize_tree:
  assumes src: "clean_abs root" "comps root = cs @ [nm]" "fs_ok md" "plain_tree md (comps root)"
    and dst: "clean_abs lp" "dirs_to m (comps lp @ [nm])" "\<forall>t. node_at m (comps lp @ nm # t) = None"
  shows "parents_first S ts \<Longrightarrow> distinct ts \<Longrightarrow> \<forall>t \<in> set ts. t \<notin> S \<and> node_at md (comps root @ t) \<noteq> None \<Longrightarrow>
    built md (comps root) m (comps lp @ [nm]) S m0 \<Longrightarrow>
    \<exists>m'. materialize_all lp True sr m0 (map (\<lambda>t. tree_entry md (Dir root) (comps root @ t)) ts) = (m', None) \<and>
      built md (comps root) m (comps lp @ [nm]) (S \<union> set ts) m'"
proof (induction ts arbitrary: S m0)
  case (Cons t ts)
  let ?e = "tree_entry md (Dir root) (comps root @ t)"
  let ?D = "comps lp @ [nm]"
  define d where "d = resolveDestPath lp True sr (me_RelPath ?e)"
  obtain nd where nd: "node_at md (comps root @ t) = Some nd" using Cons.prems(3) by auto
  have gn: "good_comp nm" using clean_abs_good [OF src(1)] src(2) by simp
  have gt: "\<forall>c \<in> set t. good_comp c" using fs_ok_names [OF src(3) nd] by auto
  note f = tree_entry_fields [OF src(1,2) gt nd]
  have "resolveDestPath lp True sr (me_RelPath ?e) = resolveDestPath lp True nm (join_with sep (nm # t))"
    by (simp add: f(1) resolveDestPath_def)
  with dest_walked [OF dst(1) gn gt, of True] have d: "clean_abs d" "comps d = ?D @ t" by (simp_all add: d_def)
  have ok0: "fs_ok m0" using Cons.prems(4) by (simp add: built_def)
  have dirs: "dirs_to m0 (?D @ t)"
    by (rule built_dirs [OF Cons.prems(4) src(4) _ _ dst(2)]) (use nd Cons.prems(1) in auto)
  have "\<forall>u \<in> S. ?D @ t \<noteq> ?D @ u" using Cons.prems(3) by auto
  then have none: "node_at m0 (?D @ t) = None"
    using Cons.prems(4) dst(3) unfolding built_def by (metis append.assoc append_Cons append_Nil)
  have "\<exists>m1 nd'. (if me_IsDir ?e then materialize_dir m0 ?e d else materialize_file m0 ?e d) = (m1, None) \<and> fs_ok m1 \<and>
      (\<forall>q. node_at m1 q = (if q = ?D @ t then Some nd' else node_at m0 q)) \<and> kind nd' = skeleton (kind nd)"
  proof (cases "is_dir nd")
    case True
    have "dirs_to m0 (comps d)" "node_at m0 (comps d) = None" "comps d \<noteq> []" using dirs none by (simp_all add: d(2))
    from materialize_dir_new [OF ok0 d(1) this, of ?e] obtain nd' where
      n: "materialize_dir m0 ?e d = (put_node (comps d) nd' m0, None)" "kind nd' = Directory" by blast
    have "fs_ok (put_node (comps d) nd' m0)"
      using ok0 n(2) clean_abs_good [OF d(1)] by (intro fs_ok_put) (auto simp: is_symlink_def)
    moreover have "kind nd = Directory" using True by (simp add: is_dir_def)
    ultimately show ?thesis using n True f(3) by (auto simp: skeleton_def d(2))
  next
    case False
    obtain b where b: "kind nd = Regular b"
    proof -
      have "is_regular nd" using src(4) nd False unfolding plain_tree_def by blast
      with that show thesis by (auto simp: is_regular_def split: inode_kind.splits)
    qed
    define q c where "q = butlast (?D @ t)" "c = last (?D @ t)"
    have qc: "?D @ t = q @ [c]" unfolding q_c_def by (rule append_butlast_last_id [symmetric]) simp
    from materialize_file_new [OF ok0 d(1) d(2)[unfolded qc] dirs[unfolded qc] none[unfolded qc], of ?e] f(2)
    obtain nd' m1 where "materialize_file m0 ?e d = (m1, None)" "fs_ok m1"
      "kind nd' = Regular (replicate (nat (me_Size ?e)) (char_of (0::nat)))"
      "\<forall>p. node_at m1 p = (if p = q @ [c] then Some nd' else node_at m0 p)" by auto
    moreover have "nat (me_Size ?e) = length b" using f(2) b by (simp add: node_size_def)
    ultimately show ?thesis unfolding qc using False f(3) b by (auto simp: skeleton_def)
  qed
  then obtain m1 nd' where m1: "(if me_IsDir ?e then materialize_dir m0 ?e d else materialize_file m0 ?e d) = (m1, None)"
    "fs_ok m1" "\<forall>q. node_at m1 q = (if q = ?D @ t then Some nd' else node_at m0 q)" "kind nd' = skeleton (kind nd)"
    by blast
  have "built md (comps root) m ?D (insert t S) m1"
    by (rule built_step [OF Cons.prems(4) _ nd m1(2,3,4)]) (use Cons.prems(3) in simp)
  from Cons.IH [OF _ _ _ this] Cons.prems(1-3) m1(1) show ?case by (auto simp: Let_def simp flip: d_def)
qed simp


section \<open>The whole download\<close>

text \<open>A tree the transfer can carry: files and directories only, no file above what can be planned.\<close>

definition tree_source :: "fs \<Rightarrow> string \<Rightarrow> nat \<Rightarrow> bool" where
  "tree_source m root n \<longleftrightarrow> clean_abs root \<and> root \<noteq> ''/'' \<and> tree_ok m (comps root) n \<and>
     (\<forall>t nd. node_at m (comps root @ t) = Some nd \<longrightarrow> int (node_size nd) \<le> max_plannable)"

text \<open>A destination directory with no node of that name, in a clean file system.\<close>

definition tree_target :: "fs \<Rightarrow> string \<Rightarrow> string \<Rightarrow> bool" where
  "tree_target m lp nm \<longleftrightarrow> fs_ok m \<and> clean_abs lp \<and> dirs_to m (comps lp @ [nm]) \<and>
     (\<forall>t. node_at m (comps lp @ nm # t) = None)"

definition tree_arrived :: "fs \<Rightarrow> string list \<Rightarrow> fs \<Rightarrow> string list \<Rightarrow> fs \<Rightarrow> bool" where
  "tree_arrived md s m D m' \<longleftrightarrow>
     (\<forall>t. map_option kind (node_at m' (D @ t)) = map_option kind (node_at md (s @ t))) \<and>
     (\<forall>q. \<not> subtree D q \<longrightarrow> node_at m' q = node_at m q)"

definition tree_content :: "fs \<Rightarrow> string list \<Rightarrow> string \<Rightarrow> bytes" where
  "tree_content m s rel = (case node_at m (s @ tl (split_on sep rel)) of
     Some nd \<Rightarrow> (case kind nd of Regular b \<Rightarrow> b | _ \<Rightarrow> []) | None \<Rightarrow> [])"

lemma split_walked: "\<forall>c \<in> set (nm # t). good_comp c \<Longrightarrow> split_on sep (join_with sep (nm # t)) = nm # t"
  by (rule split_on_join) (auto simp: good_comp_def)

lemma tree_dirs:
  assumes "dirs_to m q" "plain_tree m q" "node_at m (q @ t) \<noteq> None"
  shows "dirs_to m (q @ t)"
  unfolding dirs_to_def
proof (intro allI impI)
  fix k assume k: "k < length (q @ t)"
  show "dir_at m (take k (q @ t))"
  proof (cases "k < length q")
    case True
    with assms(1) show ?thesis by (simp add: dirs_to_def)
  next
    case False
    with k have "drop (k - length q) t \<noteq> []" by simp
    with assms(2,3) have "dir_at m (q @ take (k - length q) t)"
      unfolding plain_tree_def by (metis append_take_drop_id)
    with False show ?thesis by simp
  qed
qed

definition tree_manifest :: "fs \<Rightarrow> string \<Rightarrow> nat \<Rightarrow> transferManifestEntry list" where
  "tree_manifest m root n = map (\<lambda>t. tree_entry m (Dir root) (comps root @ t)) (tree_list n m (comps root))"

lemma buildManifest_tree:
  assumes "tree_source m root n"
  shows "buildManifest n m root True = Some (Inr (tree_manifest m root n))"
proof -
  have ok: "tree_ok m (comps root) n" and c: "clean_abs root" using assms by (simp_all add: tree_source_def)
  have "fs_ok m" "dirs_to m (comps root)" "node_at m (comps root) \<noteq> None" using ok by (simp_all add: tree_ok_def)
  then obtain nd where "os_Lstat m root = Inr (comps root, nd)" using stat_dirs [OF _ c] by (auto simp: os_Lstat_def)
  with manifest_walk_tree [OF ok, of "Dir root"] show ?thesis
    by (simp add: buildManifest_def tree_manifest_def path_unique [OF c, symmetric])
qed


lemma tree_manifest_entries:
  assumes "tree_source m root n" "comps root = cs @ [nm]" "e \<in> set (tree_manifest m root n)"
  obtains t nd where "node_at m (comps root @ t) = Some nd" "\<forall>c \<in> set (nm # t). good_comp c"
    "me_RelPath e = join_with sep (nm # t)" "me_Size e = int (node_size nd)" "me_IsDir e = is_dir nd"
proof -
  have ok: "tree_ok m (comps root) n" "clean_abs root" using assms(1) by (simp_all add: tree_source_def)
  obtain t where t: "t \<in> set (tree_list n m (comps root))" "e = tree_entry m (Dir root) (comps root @ t)"
    using assms(3) by (auto simp: tree_manifest_def)
  obtain nd where nd: "node_at m (comps root @ t) = Some nd" using tree_list_set [OF ok(1)] t(1) by blast
  have g: "\<forall>c \<in> set (comps root @ t). good_comp c" using fs_ok_names [OF _ nd] ok(1) by (auto simp: tree_ok_def)
  then have "\<forall>c \<in> set t. good_comp c" "\<forall>c \<in> set (nm # t). good_comp c" using assms(2) by auto
  with tree_entry_fields [OF ok(2) assms(2) this(1) nd] nd t(2) show ?thesis using that by simp
qed

lemma tree_manifest_mem:
  assumes "tree_source m root n" "comps root = cs @ [nm]" "node_at m (comps root @ t) = Some nd"
  shows "\<exists>e \<in> set (tree_manifest m root n). me_RelPath e = join_with sep (nm # t) \<and> me_IsDir e = is_dir nd"
proof -
  have ok: "tree_ok m (comps root) n" "clean_abs root" using assms(1) by (simp_all add: tree_source_def)
  have t: "t \<in> set (tree_list n m (comps root))" using tree_list_set [OF ok(1)] assms(3) by simp
  have "\<forall>c \<in> set t. good_comp c" using fs_ok_names [OF _ assms(3)] ok(1) by (auto simp: tree_ok_def)
  from tree_entry_fields(1,3) [OF ok(2) assms(2) this assms(3)] t show ?thesis by (auto simp: tree_manifest_def)
qed

lemma tree_manifest_plannable:
  assumes "tree_source m root n"
  shows "plannable (tree_manifest m root n)"
proof -
  have ok: "tree_ok m (comps root) n" "clean_abs root" using assms by (simp_all add: tree_source_def)
  have "comps root \<noteq> []" using clean_abs_spell [OF ok(2)] assms by (auto simp: tree_source_def)
  then obtain cs nm where r: "comps root = cs @ [nm]" by (metis rev_exhaust)
  have rel: "\<forall>c \<in> set (nm # t). good_comp c"
    "me_RelPath (tree_entry m (Dir root) (comps root @ t)) = join_with sep (nm # t)"
    if t: "t \<in> set (tree_list n m (comps root))" for t
  proof -
    obtain nd where nd: "node_at m (comps root @ t) = Some nd" using tree_list_set [OF ok(1)] t by blast
    have "\<forall>c \<in> set (comps root @ t). good_comp c" using fs_ok_names [OF _ nd] ok(1) by (auto simp: tree_ok_def)
    then have "\<forall>c \<in> set t. good_comp c" and g: "\<forall>c \<in> set (nm # t). good_comp c" using r by auto
    from tree_entry_fields(1) [OF ok(2) r this(1) nd]
    show "me_RelPath (tree_entry m (Dir root) (comps root @ t)) = join_with sep (nm # t)" .
    show "\<forall>c \<in> set (nm # t). good_comp c" by (rule g)
  qed
  have "inj_on (\<lambda>t. me_RelPath (tree_entry m (Dir root) (comps root @ t))) (set (tree_list n m (comps root)))"
  proof (rule inj_onI)
    fix t u assume "t \<in> set (tree_list n m (comps root))" "u \<in> set (tree_list n m (comps root))"
      "me_RelPath (tree_entry m (Dir root) (comps root @ t)) = me_RelPath (tree_entry m (Dir root) (comps root @ u))"
    then have "join_with sep (nm # t) = join_with sep (nm # u)" "\<forall>c \<in> set (nm # t). good_comp c" "\<forall>c \<in> set (nm # u). good_comp c"
      using rel by auto
    then have "nm # t = nm # u" using split_walked by metis
    then show "t = u" by simp
  qed
  then have "distinct (map me_RelPath (tree_manifest m root n))"
    by (simp add: tree_manifest_def distinct_map tree_list_distinct comp_def)
  moreover have "0 \<le> me_Size e \<and> me_Size e \<le> max_plannable" if "e \<in> set (tree_manifest m root n)" for e
    using tree_manifest_entries [OF assms r that] assms unfolding tree_source_def by (metis of_nat_0_le_iff)
  ultimately show ?thesis by (simp add: plannable_def)
qed

lemma materializeTargets_tree:
  assumes "tree_source md root n" "comps root = cs @ [nm]" "tree_target ml lp nm"
  shows "\<exists>m1. materializeTargets (tree_manifest md root n) lp True ml = (m1, None) \<and>
    built md (comps root) ml (comps lp @ [nm]) {t. node_at md (comps root @ t) \<noteq> None} m1"
proof -
  have ok: "tree_ok md (comps root) n" "clean_abs root" using assms(1) by (simp_all add: tree_source_def)
  have pl: "fs_ok md" "plain_tree md (comps root)" using ok(1) by (simp_all add: tree_ok_def)
  have tg: "clean_abs lp" "dirs_to ml (comps lp @ [nm])" "\<forall>t. node_at ml (comps lp @ nm # t) = None" "fs_ok ml"
    using assms(3) by (simp_all add: tree_target_def)
  have start: "built md (comps root) ml (comps lp @ [nm]) {} ml" using tg(4) by (simp add: built_def)
  have all: "\<forall>t \<in> set (tree_list n md (comps root)). t \<notin> {} \<and> node_at md (comps root @ t) \<noteq> None"
    using tree_list_set [OF ok(1)] by blast
  have "{} \<union> set (tree_list n md (comps root)) = {t. node_at md (comps root @ t) \<noteq> None}"
    using tree_list_set [OF ok(1)] by auto
  with materialize_tree [OF ok(2) assms(2) pl tg(1-3) tree_list_parents tree_list_distinct all start]
  show ?thesis by (simp add: materializeTargets_def tree_manifest_def)
qed


text \<open>After materialising, every chunk can be read at the device and written at the client.\<close>

lemma tree_job_ready:
  assumes "tree_source md root n" "comps root = cs @ [nm]" "tree_target ml lp nm"
    and "built md (comps root) ml (comps lp @ [nm]) {t. node_at md (comps root @ t) \<noteq> None} m1"
    and "resolvePath home rootArg = Inr root"
    and "e \<in> set (tree_manifest md root n)" "\<not> me_IsDir e" "ch_RelPath x = me_RelPath e" "chunk_in 0 (me_Size e) x"
    and "json_ok cd (read_request rootArg x)"
  shows "job_ready cd home md rootArg (tree_content md (comps root)) (resolveDestPath lp True sr)
    (\<lambda>rel. comps lp @ split_on sep rel) m1 x"
proof -
  have ok: "tree_ok md (comps root) n" "clean_abs root" using assms(1) by (simp_all add: tree_source_def)
  have pl: "fs_ok md" "plain_tree md (comps root)" "dirs_to md (comps root)" using ok(1) by (simp_all add: tree_ok_def)
  obtain t nd where t: "node_at md (comps root @ t) = Some nd" "\<forall>c \<in> set (nm # t). good_comp c"
    "me_RelPath e = join_with sep (nm # t)" "me_IsDir e = is_dir nd"
    by (rule tree_manifest_entries [OF assms(1,2,6)])
  obtain b where b: "kind nd = Regular b"
  proof -
    have "is_regular nd" using pl(2) t(1,4) assms(7) unfolding plain_tree_def by blast
    with that show thesis by (auto simp: is_regular_def split: inode_kind.splits)
  qed
  have sp: "split_on sep (me_RelPath e) = nm # t" unfolding t(3) by (rule split_walked [OF t(2)])
  have "good_comp nm" "\<forall>c \<in> set t. good_comp c" using t(2) by simp_all
  note Dr = Dir_clean [OF ok(2) assms(2)]
  have rd: "comps (Join (Dir root) (me_RelPath e)) = comps root @ t" "clean_abs (Join (Dir root) (me_RelPath e))"
    unfolding t(3) using Join_names [OF Dr(1) _ t(2)] by (simp_all add: Dr(2) assms(2))
  have "dirs_to md (comps root @ t)" by (rule tree_dirs [OF pl(3,2)]) (simp add: t(1))
  with stat_dirs [OF pl(1) rd(2)] t(1)
  have "os_Open md (Join (Dir root) (me_RelPath e)) = Inr (comps root @ t, nd)" by (simp add: os_Open_def rd(1))
  moreover have "tree_content md (comps root) (me_RelPath e) = b" by (simp add: tree_content_def sp t(1) b)
  ultimately have read: "can_read home md rootArg (me_RelPath e) (tree_content md (comps root) (me_RelPath e))"
    using b by (simp add: can_read_def remoteRootAndBase_def assms(5))
  have tg: "clean_abs lp" "dirs_to ml (comps lp @ [nm])" using assms(3) by (simp_all add: tree_target_def)
  define d where "d = resolveDestPath lp True sr (me_RelPath e)"
  have "d = resolveDestPath lp True nm (join_with sep (nm # t))" by (simp add: d_def t(3) resolveDestPath_def)
  with dest_walked [OF tg(1) \<open>good_comp nm\<close> \<open>\<forall>c \<in> set t. good_comp c\<close>, of True]
  have d: "clean_abs d" "comps d = (comps lp @ [nm]) @ t" by simp_all
  have "node_at md (comps root @ take j t) \<noteq> None" if "j < length t" for j
  proof -
    have "drop j t \<noteq> []" using that by simp
    then have "dir_at md (comps root @ take j t)"
      using pl(2) t(1) unfolding plain_tree_def by (metis append_take_drop_id option.distinct(1))
    then show ?thesis by (auto simp: dir_at_def)
  qed
  then have "dirs_to m1 (comps d)" unfolding d(2)
    by (intro built_dirs [OF assms(4) pl(2) _ _ tg(2)]) (auto simp: t(1))
  moreover have "map_option kind (node_at m1 (comps d)) = Some (skeleton (Regular b))"
  proof -
    have "t \<in> {t. node_at md (comps root @ t) \<noteq> None}" using t(1) by simp
    with assms(4) have "map_option kind (node_at m1 ((comps lp @ [nm]) @ t)) =
        map_option (skeleton \<circ> kind) (node_at md (comps root @ t))" unfolding built_def by blast
    then show ?thesis unfolding d(2) t(1) by (simp add: b)
  qed
  then obtain nd1 where "node_at m1 (comps d) = Some nd1" "kind nd1 = skeleton (Regular b)" by auto
  moreover have "fs_ok m1" using assms(4) by (simp add: built_def)
  ultimately have "open_write m1 d = Inr (comps d)"
    using stat_dirs [OF _ d(1)] by (simp add: open_write_def is_dir_def skeleton_def)
  then have "open_write m1 (resolveDestPath lp True sr (me_RelPath e)) = Inr (comps lp @ split_on sep (me_RelPath e))"
    unfolding d_def [symmetric] sp by (simp add: d(2))
  moreover have "me_RelPath e \<noteq> []" unfolding t(3) using \<open>good_comp nm\<close> by (cases t) (auto simp: good_comp_def)
  ultimately show ?thesis using assms(8-10) read by (simp add: job_ready_def chunk_in_def)
qed


lemma tree_presized:
  assumes "tree_source md root n" "comps root = cs @ [nm]"
    and "built md (comps root) ml (comps lp @ [nm]) {t. node_at md (comps root @ t) \<noteq> None} m1"
    and "e \<in> set (tree_manifest md root n)" "\<not> me_IsDir e"
  shows "me_Size e = int (length (tree_content md (comps root) (me_RelPath e))) \<and>
    presized m1 (\<lambda>rel. comps lp @ split_on sep rel) e"
proof -
  have ok: "tree_ok md (comps root) n" using assms(1) by (simp add: tree_source_def)
  have pl: "plain_tree md (comps root)" using ok by (simp add: tree_ok_def)
  obtain t nd where t: "node_at md (comps root @ t) = Some nd" "\<forall>c \<in> set (nm # t). good_comp c"
    "me_RelPath e = join_with sep (nm # t)" "me_Size e = int (node_size nd)" "me_IsDir e = is_dir nd"
    by (rule tree_manifest_entries [OF assms(1,2,4)])
  obtain b where b: "kind nd = Regular b"
  proof -
    have "is_regular nd" using pl t(1,5) assms(5) unfolding plain_tree_def by blast
    with that show thesis by (auto simp: is_regular_def split: inode_kind.splits)
  qed
  have sp: "split_on sep (me_RelPath e) = nm # t" unfolding t(3) by (rule split_walked [OF t(2)])
  have "tree_content md (comps root) (me_RelPath e) = b" by (simp add: tree_content_def sp t(1) b)
  moreover have "map_option kind (node_at m1 ((comps lp @ [nm]) @ t)) = Some (skeleton (Regular b))"
  proof -
    have "t \<in> {t. node_at md (comps root @ t) \<noteq> None}" using t(1) by simp
    with assms(3) have "map_option kind (node_at m1 ((comps lp @ [nm]) @ t)) =
        map_option (skeleton \<circ> kind) (node_at md (comps root @ t))" unfolding built_def by blast
    then show ?thesis unfolding t(1) by (simp add: b)
  qed
  ultimately show ?thesis by (auto simp: t(4) node_size_def b presized_def sp skeleton_def)
qed

lemma tree_places_inj:
  assumes "tree_source md root n" "comps root = cs @ [nm]"
  shows "inj_on (\<lambda>rel. comps lp @ split_on sep rel) (me_RelPath ` {e \<in> set (tree_manifest md root n). P e})"
proof (rule inj_onI)
  fix r r' assume "comps lp @ split_on sep r = comps lp @ split_on sep r'"
  then have "split_on sep r = split_on sep r'" by (rule same_append_eq [THEN iffD1])
  from arg_cong [OF this, of "join_with sep"] show "r = r'" unfolding join_split .
qed

text \<open>Filling in the contents of a materialised tree completes it.\<close>

lemma tree_filled:
  assumes "tree_source md root n" "comps root = cs @ [nm]" "tree_target ml lp nm"
    and "built md (comps root) ml (comps lp @ [nm]) {t. node_at md (comps root @ t) \<noteq> None} m1"
    and files: "\<forall>e \<in> set (tree_manifest md root n). \<not> me_IsDir e \<longrightarrow> (\<exists>nd. node_at m2 (comps lp @ split_on sep (me_RelPath e)) = Some nd \<and>
         kind nd = Regular (tree_content md (comps root) (me_RelPath e)))"
    and rest: "\<forall>q. q \<notin> (\<lambda>e. comps lp @ split_on sep (me_RelPath e)) ` {e \<in> set (tree_manifest md root n). \<not> me_IsDir e} \<longrightarrow>
         node_at m2 q = node_at m1 q"
  shows "tree_arrived md (comps root) ml (comps lp @ [nm]) m2"
proof -
  have ok: "tree_ok md (comps root) n" using assms(1) by (simp add: tree_source_def)
  have pl: "fs_ok md" "plain_tree md (comps root)" using ok by (simp_all add: tree_ok_def)
  have places: "\<exists>t nd. comps lp @ split_on sep (me_RelPath e) = (comps lp @ [nm]) @ t \<and>
      node_at md (comps root @ t) = Some nd \<and> me_IsDir e = is_dir nd"
    if e: "e \<in> set (tree_manifest md root n)" for e
  proof -
    obtain t nd where t: "node_at md (comps root @ t) = Some nd" "\<forall>c \<in> set (nm # t). good_comp c"
      "me_RelPath e = join_with sep (nm # t)" "me_IsDir e = is_dir nd"
      by (rule tree_manifest_entries [OF assms(1,2) e])
    show ?thesis unfolding t(3) split_walked [OF t(2)] using t(1,4) by auto
  qed
  have "map_option kind (node_at m2 ((comps lp @ [nm]) @ t)) = map_option kind (node_at md (comps root @ t))" for t
  proof (cases "\<exists>nd. node_at md (comps root @ t) = Some nd \<and> \<not> is_dir nd")
    case True
    then obtain nd where nd: "node_at md (comps root @ t) = Some nd" "\<not> is_dir nd" by blast
    then have "is_regular nd" using pl(2) unfolding plain_tree_def by blast
    then obtain b where b: "kind nd = Regular b" by (auto simp: is_regular_def split: inode_kind.splits)
    have g: "\<forall>c \<in> set (nm # t). good_comp c" using fs_ok_names [OF pl(1) nd(1)] assms(2) by auto
    obtain e where e: "e \<in> set (tree_manifest md root n)" "me_RelPath e = join_with sep (nm # t)" "\<not> me_IsDir e"
      using tree_manifest_mem [OF assms(1,2) nd(1)] nd(2) by auto
    have sp: "split_on sep (me_RelPath e) = nm # t" unfolding e(2) by (rule split_walked [OF g])
    have "tree_content md (comps root) (me_RelPath e) = b" by (simp add: tree_content_def sp nd(1) b)
    with mp [OF bspec [OF files e(1)] e(3)] sp have "\<exists>nd. node_at m2 (comps lp @ nm # t) = Some nd \<and> kind nd = Regular b" by simp
    then show ?thesis using b nd(1) by auto
  next
    case False
    have "(comps lp @ [nm]) @ t \<notin> (\<lambda>e. comps lp @ split_on sep (me_RelPath e)) ` {e \<in> set (tree_manifest md root n). \<not> me_IsDir e}"
      using places False by fastforce
    with rest have eq: "node_at m2 ((comps lp @ [nm]) @ t) = node_at m1 ((comps lp @ [nm]) @ t)" by blast
    show ?thesis
    proof (cases "node_at md (comps root @ t)")
      case None
      then have "\<forall>u \<in> {t. node_at md (comps root @ t) \<noteq> None}. (comps lp @ [nm]) @ t \<noteq> (comps lp @ [nm]) @ u" by auto
      then have "node_at m1 ((comps lp @ [nm]) @ t) = node_at ml ((comps lp @ [nm]) @ t)"
        using assms(4) unfolding built_def by blast
      then show ?thesis unfolding eq using assms(3) None by (simp add: tree_target_def)
    next
      case (Some nd)
      then have "t \<in> {t. node_at md (comps root @ t) \<noteq> None}" by simp
      with assms(4) have "map_option kind (node_at m1 ((comps lp @ [nm]) @ t)) = map_option (skeleton \<circ> kind) (node_at md (comps root @ t))"
        unfolding built_def by blast
      moreover have "kind nd = Directory" using False Some by (simp add: is_dir_def)
      ultimately show ?thesis unfolding eq using Some by (simp add: skeleton_def)
    qed
  qed
  moreover have "node_at m2 q = node_at ml q" if q: "\<not> subtree (comps lp @ [nm]) q" for q
  proof -
    have "q \<notin> (\<lambda>e. comps lp @ split_on sep (me_RelPath e)) ` {e \<in> set (tree_manifest md root n). \<not> me_IsDir e}"
      using places q unfolding subtree_iff by fastforce
    moreover have "\<forall>u \<in> {t. node_at md (comps root @ t) \<noteq> None}. q \<noteq> (comps lp @ [nm]) @ u"
      using q unfolding subtree_iff by blast
    ultimately show ?thesis using rest assms(4) unfolding built_def by metis
  qed
  ultimately show ?thesis unfolding tree_arrived_def by blast
qed


section \<open>Property\<close>

text \<open>
  Property C2 (p2p_directory_arrives): a recursive download of a directory. The walk over the device's tree
  ends within its height and lists it completely, creating it below the destination succeeds, the
  work queue is finite, and a worker that gets its chunks in any order over one data channel ends
  without an error with exactly the device's tree at the destination, the rest of the file system
  unchanged.
\<close>

theorem p2p_directory_arrives:
  assumes "key_ready cr kc" "key_ready cr ks" "\<And>k i. nonces_drawn (rs k i)" "\<And>j. nonce_drawn (rc j)"
    and "ob_reliable obS" "ob_reliable obC" "ok_sendable cd" "resolvePath home rootArg = Inr root"
    and "tree_source md root n" "comps root = pre @ [nm]" "tree_target ml lp nm"
  shows "\<exists>entries plan m1. buildManifest n md root True = Some (Inr entries) \<and>
    materializeTargets entries lp True ml = (m1, None) \<and> planChunks entries = Some plan \<and>
    (plan = [] \<longrightarrow> tree_arrived md (comps root) ml (comps lp @ [nm]) m1) \<and>
    (\<forall>c cs. mset (c # cs) = mset plan \<and> (\<forall>x \<in> set plan. json_ok cd (read_request rootArg x)) \<longrightarrow>
      (\<exists>up down obS' obC' m2.
        controls cr kc (dec_req cd zero_req) up = map (read_request rootArg) (c # cs) \<and> sent_more obC up obC' \<and>
        serveFileStreamSession cd cr rs home 0 md (read_request rootArg c) ks (map (read_request rootArg) cs) [] stop obS = (md, obS') \<and>
        sent_more obS down obS' \<and>
        p2p_read_jobs cd cr rc kc rootArg lp True sr 0 (c # cs) m1 (controls cr ks (dec_resp cd zero_resp) down)
          (datas cr ks down) stop obC = (m2, obC', None) \<and>
        tree_arrived md (comps root) ml (comps lp @ [nm]) m2))"
proof -
  let ?es = "tree_manifest md root n" and ?place = "\<lambda>rel. comps lp @ split_on sep rel"
  note man = buildManifest_tree [OF assms(9)]
  obtain m1 where m1: "materializeTargets ?es lp True ml = (m1, None)"
    "built md (comps root) ml (comps lp @ [nm]) {t. node_at md (comps root @ t) \<noteq> None} m1"
    using materializeTargets_tree [OF assms(9-11)] by blast
  note pl = tree_manifest_plannable [OF assms(9)]
  obtain plan where plan: "planChunks ?es = Some plan"
    "\<forall>e \<in> set ?es. tiles (me_RelPath e) 0 (file_span e) (chunks_of (me_RelPath e) plan)"
    using planChunks_tiles [OF pl] by blast
  have pre: "\<forall>e \<in> set ?es. \<not> me_IsDir e \<longrightarrow>
      me_Size e = int (length (tree_content md (comps root) (me_RelPath e))) \<and> presized m1 ?place e"
    using tree_presized [OF assms(9,10) m1(2)] by blast
  have fill: "tree_arrived md (comps root) ml (comps lp @ [nm]) m2"
    if "\<forall>e \<in> set ?es. \<not> me_IsDir e \<longrightarrow> (\<exists>nd. node_at m2 (?place (me_RelPath e)) = Some nd \<and>
         kind nd = Regular (tree_content md (comps root) (me_RelPath e)))"
      "\<forall>q. q \<notin> (\<lambda>e. ?place (me_RelPath e)) ` {e \<in> set ?es. \<not> me_IsDir e} \<longrightarrow> node_at m2 q = node_at m1 q" for m2
    by (rule tree_filled [OF assms(9-11) m1(2) that])
  have empty: "tree_arrived md (comps root) ml (comps lp @ [nm]) m1" if p: "plan = []"
  proof (rule fill)
    show "\<forall>e \<in> set ?es. \<not> me_IsDir e \<longrightarrow> (\<exists>nd. node_at m1 (?place (me_RelPath e)) = Some nd \<and>
         kind nd = Regular (tree_content md (comps root) (me_RelPath e)))"
    proof (intro ballI impI)
      fix e assume e: "e \<in> set ?es" "\<not> me_IsDir e"
      then have "me_Size e \<le> 0" using plan(2) p by (fastforce simp: tiles_def chunks_of_def file_span_def)
      with pre e show "\<exists>nd. node_at m1 (?place (me_RelPath e)) = Some nd \<and>
          kind nd = Regular (tree_content md (comps root) (me_RelPath e))" by (auto simp: presized_def)
    qed
  qed simp
  have run: "\<exists>up down obS' obC' m2.
        controls cr kc (dec_req cd zero_req) up = map (read_request rootArg) (c # cs) \<and> sent_more obC up obC' \<and>
        serveFileStreamSession cd cr rs home 0 md (read_request rootArg c) ks (map (read_request rootArg) cs) [] stop obS = (md, obS') \<and>
        sent_more obS down obS' \<and>
        p2p_read_jobs cd cr rc kc rootArg lp True sr 0 (c # cs) m1 (controls cr ks (dec_resp cd zero_resp) down)
          (datas cr ks down) stop obC = (m2, obC', None) \<and>
        tree_arrived md (comps root) ml (comps lp @ [nm]) m2"
    if c: "mset (c # cs) = mset plan" "\<forall>x \<in> set plan. json_ok cd (read_request rootArg x)" for c cs
  proof -
    have sets: "set (c # cs) = set plan" by (rule mset_eq_setD [OF c(1)])
    have "job_ready cd home md rootArg (tree_content md (comps root)) (resolveDestPath lp True sr) ?place m1 x"
      if x: "x \<in> set (c # cs)" for x
    proof -
      have x': "x \<in> set plan" using x unfolding sets .
      from planned_chunk [OF pl plan(1) this] obtain e where
        "e \<in> set ?es" "\<not> me_IsDir e" "ch_RelPath x = me_RelPath e" "chunk_in 0 (me_Size e) x" by blast
      from tree_job_ready [OF assms(9-11) m1(2) assms(8) this bspec [OF c(2) x']] show ?thesis .
    qed
    with assms(7) have jobs: "jobs_ready cd home md rootArg (tree_content md (comps root)) (resolveDestPath lp True sr) ?place m1 (c # cs)"
      by (simp add: jobs_ready_def)
    obtain up down obS' obC' m2 where
      "controls cr kc (dec_req cd zero_req) up = map (read_request rootArg) (c # cs)" "sent_more obC up obC'"
      "serveFileStreamSession cd cr rs home 0 md (read_request rootArg c) ks (map (read_request rootArg) cs) [] stop obS = (md, obS')"
      "sent_more obS down obS'"
      "p2p_read_jobs cd cr rc kc rootArg lp True sr 0 (c # cs) m1 (controls cr ks (dec_resp cd zero_resp) down)
          (datas cr ks down) stop obC = (m2, obC', None)"
      "\<forall>e \<in> set ?es. \<not> me_IsDir e \<longrightarrow> (\<exists>nd. node_at m2 (?place (me_RelPath e)) = Some nd \<and>
         kind nd = Regular (tree_content md (comps root) (me_RelPath e)))"
      "\<forall>q. q \<notin> (\<lambda>e. ?place (me_RelPath e)) ` {e \<in> set ?es. \<not> me_IsDir e} \<longrightarrow> node_at m2 q = node_at m1 q"
      using p2p_files_arrive [where rs = rs and rc = rc, OF assms(1-6) pl plan(1) c(1) jobs pre tree_places_inj [OF assms(9,10)]]
      by blast
    with fill [of m2] show ?thesis by blast
  qed
  show ?thesis using man m1(1) plan(1) empty run by blast
qed


section \<open>Example\<close>

lemma demo_tree_comps: "comps ''/h/d'' = [''h''] @ [''d'']" "comps ''/etc'' = [''etc'']"
  by (simp_all add: comps_def clean_comps_def clean_step_def)

lemma demo_tree_clean: "clean_abs ''/h/d''" "clean_abs ''/etc''" "resolvePath (Inr ''/h'') ''/h/d'' = Inr ''/h/d''"
  by (simp_all add: clean_abs_def IsAbs_def Clean_def comps_def clean_comps_def clean_step_def spell_def resolvePath_def)

lemma demo_tree_source: "tree_source demo_fs ''/h/d'' 2"
  using demo_copy_ready
  by (auto simp: tree_source_def tree_ok_def copy_ready_def demo_tree_clean demo_tree_comps demo_nodes dir_at_def
      max_plannable_def node_size_def demo_dir_def demo_file_def)

lemma demo_tree_target: "tree_target demo_fs ''/etc'' ''d''"
  using demo_fs_ok
  by (auto simp: tree_target_def demo_tree_clean demo_tree_comps demo_nodes dirs_to_def take_Cons dir_at_def demo_dir_def
      is_dir_def split: nat.splits)

lemma demo_tree_list: "tree_list 2 demo_fs [''h'', ''d''] = [[], [''b'']]"
proof -
  have "children demo_fs [''h'', ''d''] = [''b'']" by (simp add: children_def demo_fs_def)
  moreover have "dir_at demo_fs [''h'', ''d'']" "\<not> dir_at demo_fs [''h'', ''d'', ''b'']"
    by (simp_all add: dir_at_def demo_nodes demo_dir_def demo_file_def is_dir_def)
  ultimately show ?thesis by (simp add: numeral_2_eq_2)
qed

lemma demo_tree_plan: "planChunks (tree_manifest demo_fs ''/h/d'' 2) = Some [demo_job ''d/b'' 0 3]"
proof -
  have n: "node_at demo_fs (comps ''/h/d'' @ []) = Some demo_dir" "node_at demo_fs (comps ''/h/d'' @ [''b'']) = Some (demo_file ''two'')"
    by (simp_all add: demo_tree_comps demo_nodes)
  have "\<forall>c \<in> set [''b'']. good_comp c" "\<forall>c \<in> set ([] :: string list). good_comp c" by (simp_all add: good_comp_def)
  note f = tree_entry_fields [OF demo_tree_clean(1) demo_tree_comps(1) this(2) n(1)]
    and g = tree_entry_fields [OF demo_tree_clean(1) demo_tree_comps(1) this(1) n(2)]
  have "tree_manifest demo_fs ''/h/d'' 2 = [tree_entry demo_fs (Dir ''/h/d'') (comps ''/h/d'' @ []),
      tree_entry demo_fs (Dir ''/h/d'') (comps ''/h/d'' @ [''b''])]"
    using demo_tree_list by (simp add: tree_manifest_def demo_tree_comps)
  moreover have "chunk_loop ''d/b'' 3 0 = Some [demo_job ''d/b'' 0 3]"
  proof -
    have "chunk_loop ''d/b'' 3 4194304 = Some []" by (subst chunk_loop.simps) simp
    then show ?thesis by (subst chunk_loop.simps) (simp add: wrap64_def parallelChunkSize_def demo_job_def)
  qed
  ultimately show ?thesis using f(3) g by (simp add: node_size_def demo_file_def demo_dir_def is_dir_def)
qed

definition tree_codec :: codec where
  "tree_codec = demo_codec\<lparr>enc_req := \<lambda>_. Inr [],
     dec_req := \<lambda>old _. Inr (overlay (read_request ''/h/d'' (demo_job ''d/b'' 0 3)) old)\<rparr>"

lemma tree_codec_ok: "ok_sendable tree_codec" "json_ok tree_codec (read_request ''/h/d'' (demo_job ''d/b'' 0 3))"
  using demo_codec_ok by (simp_all add: ok_sendable_def tree_codec_def json_ok_def maxMsgSize_value)

theorem p2p_directory_arrives_witness:
  "\<exists>entries m1 down obC' m2.
     buildManifest 2 demo_fs ''/h/d'' True = Some (Inr entries) \<and> materializeTargets entries ''/etc'' True demo_fs = (m1, None) \<and>
     p2p_read_jobs tree_codec toy_crypto (\<lambda>_. demo_nonce) demo_key ''/h/d'' ''/etc'' True [] 0
       [demo_job ''d/b'' 0 3] m1 (controls toy_crypto demo_key (dec_resp tree_codec zero_resp) down)
       (datas toy_crypto demo_key down) ErrClosedPipe demo_box = (m2, obC', None) \<and>
     map_option kind (node_at m2 [''etc'', ''d'', ''b'']) = Some (Regular ''two'') \<and>
     map_option kind (node_at m2 [''etc'', ''d'']) = Some Directory \<and>
     node_at m2 [''etc'', ''pw''] = node_at demo_fs [''etc'', ''pw'']"
proof -
  note all = p2p_directory_arrives [where rs = "\<lambda>_ _ _. demo_nonce" and rc = "\<lambda>_. demo_nonce" and stop = ErrClosedPipe
      and sr = "[]", OF demo_key_ready demo_key_ready demo_nonces demo_box_ok demo_box_ok tree_codec_ok(1)
      demo_tree_clean(3) demo_tree_source demo_tree_comps(1) demo_tree_target]
  then obtain entries plan m1 where m: "buildManifest 2 demo_fs ''/h/d'' True = Some (Inr entries)"
    "materializeTargets entries ''/etc'' True demo_fs = (m1, None)" "planChunks entries = Some plan"
    and run: "\<And>c cs. mset (c # cs) = mset plan \<Longrightarrow> \<forall>x \<in> set plan. json_ok tree_codec (read_request ''/h/d'' x) \<Longrightarrow>
      \<exists>down obC' m2. p2p_read_jobs tree_codec toy_crypto (\<lambda>_. demo_nonce) demo_key ''/h/d'' ''/etc'' True [] 0
        (c # cs) m1 (controls toy_crypto demo_key (dec_resp tree_codec zero_resp) down)
          (datas toy_crypto demo_key down) ErrClosedPipe demo_box = (m2, obC', None) \<and>
        tree_arrived demo_fs (comps ''/h/d'') demo_fs (comps ''/etc'' @ [''d'']) m2"
    by metis
  have "plan = [demo_job ''d/b'' 0 3]" using m(1,3) demo_tree_plan buildManifest_tree [OF demo_tree_source] by simp
  with run [of "demo_job ''d/b'' 0 3" "[]"] tree_codec_ok(2) obtain down obC' m2 where
    "p2p_read_jobs tree_codec toy_crypto (\<lambda>_. demo_nonce) demo_key ''/h/d'' ''/etc'' True [] 0
        [demo_job ''d/b'' 0 3] m1 (controls toy_crypto demo_key (dec_resp tree_codec zero_resp) down)
          (datas toy_crypto demo_key down) ErrClosedPipe demo_box = (m2, obC', None)"
    and a: "tree_arrived demo_fs (comps ''/h/d'') demo_fs (comps ''/etc'' @ [''d'']) m2"
    by auto
  moreover have "map_option kind (node_at m2 ((comps ''/etc'' @ [''d'']) @ t)) = map_option kind (node_at demo_fs (comps ''/h/d'' @ t))"
    "\<not> subtree (comps ''/etc'' @ [''d'']) q \<Longrightarrow> node_at m2 q = node_at demo_fs q" for t q
    using a unfolding tree_arrived_def by blast+
  note b = this(1) [of "[''b'']"] this(1) [of "[]"] this(2) [of "[''etc'', ''pw'']"]
  have "map_option kind (node_at m2 [''etc'', ''d'', ''b'']) = Some (Regular ''two'')"
    "map_option kind (node_at m2 [''etc'', ''d'']) = Some Directory" "node_at m2 [''etc'', ''pw''] = node_at demo_fs [''etc'', ''pw'']"
    using b by (simp_all add: demo_tree_comps demo_nodes demo_file_def demo_dir_def subtree_def)
  ultimately show ?thesis using m(1,2) by blast
qed

end
