(* ===== verification/Sessions.thy ===== *)
theory Sessions
  imports Prelude "HOL-Library.Finite_Map" "HOL-Library.Multiset"
begin

text \<open>
  The daemon's connections to remote devices (\<open>ClientSessions\<close> of \<open>src/types.go\<close>): one entry per
  realm, its replacement when a direct connection succeeds or a lost one is re-established, and the
  subscriptions of long-running calls that want to follow such a replacement.

  A session is a number. The entries (\<open>*deviceSession\<close>) are shared by pointer between the table and
  the goroutines, so they live in a store indexed by numbers, and so do the channels of the
  subscriptions. Every critical section of the mutex is one step; a goroutine, and a call between
  two of its critical sections, is a \<open>thread\<close> that says what it does next. What the network
  answers is an input of the step.
\<close>

section \<open>State\<close>

text \<open>
  A subscription's channel, made with one place: what is in the buffer, what its reader has taken
  out, and whether it was closed.
\<close>

record upgrade_chan =
  uc_buf :: "nat option list"
  uc_taken :: "nat option list"
  uc_closed :: bool

text \<open>\<open>ds_cancelled\<close> says whether the entry's context has been cancelled.\<close>

record deviceSession =
  ds_session :: nat
  ds_webrtcSession :: "nat option"
  ds_connectedAt :: int
  ds_cancelled :: bool
  ds_upgradeSubs :: "nat list"

text \<open>
  \<open>ClientSessions\<close> with the stores, the sessions that were told to leave, and a flag that a send
  hit a closed channel (a panic) or a full one (the goroutine hangs).
\<close>

record clientSessions =
  cs_sessions :: "(string, nat) fmap"
  cs_disconnected :: "string set"
  cs_loggedIn :: bool
  cs_entries :: "nat \<Rightarrow> deviceSession"
  cs_nextEntry :: nat
  cs_chans :: "nat \<Rightarrow> upgrade_chan"
  cs_nextChan :: nat
  cs_left :: "nat list"
  cs_broken :: bool

definition new_chan :: upgrade_chan where
  "new_chan = \<lparr>uc_buf = [], uc_taken = [], uc_closed = False\<rparr>"

definition no_entry :: deviceSession where
  "no_entry = \<lparr>ds_session = 0, ds_webrtcSession = None, ds_connectedAt = 0, ds_cancelled = True, ds_upgradeSubs = []\<rparr>"

definition NewClientSessions :: clientSessions where
  "NewClientSessions = \<lparr>cs_sessions = fmempty, cs_disconnected = {}, cs_loggedIn = False,
     cs_entries = (\<lambda>_. no_entry), cs_nextEntry = 0, cs_chans = (\<lambda>_. new_chan), cs_nextChan = 0,
     cs_left = [], cs_broken = False\<rparr>"

section \<open>Entries and subscriptions\<close>

text \<open>\<open>ds.cancel()\<close> and \<open>session.Leave()\<close>.\<close>

definition cancel :: "nat \<Rightarrow> clientSessions \<Rightarrow> clientSessions" where
  "cancel e s = s\<lparr>cs_entries := (cs_entries s)(e := (cs_entries s e)\<lparr>ds_cancelled := True\<rparr>)\<rparr>"

definition leave :: "nat \<Rightarrow> clientSessions \<Rightarrow> clientSessions" where
  "leave q s = s\<lparr>cs_left := cs_left s @ [q]\<rparr>"

definition subscribeUpgrade :: "nat \<Rightarrow> clientSessions \<Rightarrow> nat \<times> clientSessions" where
  "subscribeUpgrade e s =
     (let c = cs_nextChan s; ds = cs_entries s e
      in (c, s\<lparr>cs_chans := (cs_chans s)(c := new_chan), cs_nextChan := c + 1,
               cs_entries := (cs_entries s)(e := ds\<lparr>ds_upgradeSubs := ds_upgradeSubs ds @ [c]\<rparr>)\<rparr>))"

text \<open>\<open>ch <- newSession; close(ch)\<close> on a channel with one place.\<close>

definition send_and_close :: "nat option \<Rightarrow> nat \<Rightarrow> clientSessions \<Rightarrow> clientSessions" where
  "send_and_close v c s =
     (let ch = cs_chans s c
      in if uc_closed ch \<or> uc_buf ch \<noteq> [] then s\<lparr>cs_broken := True\<rparr>
         else s\<lparr>cs_chans := (cs_chans s)(c := ch\<lparr>uc_buf := [v], uc_closed := True\<rparr>)\<rparr>)"

definition notifyReplaced :: "nat \<Rightarrow> nat option \<Rightarrow> clientSessions \<Rightarrow> clientSessions" where
  "notifyReplaced e newSession s =
     (let ds = cs_entries s e
      in fold (send_and_close newSession) (ds_upgradeSubs ds)
           (s\<lparr>cs_entries := (cs_entries s)(e := ds\<lparr>ds_upgradeSubs := []\<rparr>)\<rparr>))"

text \<open>The reader of a subscription.\<close>

definition take_upgrade :: "nat \<Rightarrow> clientSessions \<Rightarrow> clientSessions" where
  "take_upgrade c s = (let ch = cs_chans s c in
     case uc_buf ch of [] \<Rightarrow> s
     | v # vs \<Rightarrow> s\<lparr>cs_chans := (cs_chans s)(c := ch\<lparr>uc_buf := vs, uc_taken := uc_taken ch @ [v]\<rparr>)\<rparr>)"

section \<open>The critical sections\<close>

definition isDisconnected :: "clientSessions \<Rightarrow> string \<Rightarrow> bool" where
  "isDisconnected s realm = (realm \<in> cs_disconnected s)"

definition SessionByRealm :: "clientSessions \<Rightarrow> string \<Rightarrow> nat option" where
  "SessionByRealm s realm = map_option (\<lambda>e. ds_session (cs_entries s e)) (fmlookup (cs_sessions s) realm)"

text \<open>The context of a realm: whether it exists, and whether it is cancelled.\<close>

definition SessionContext :: "clientSessions \<Rightarrow> string \<Rightarrow> bool option" where
  "SessionContext s realm = map_option (\<lambda>e. ds_cancelled (cs_entries s e)) (fmlookup (cs_sessions s) realm)"

definition DeviceSessions :: "clientSessions \<Rightarrow> (string, int) fmap" where
  "DeviceSessions s = fmmap (\<lambda>e. ds_connectedAt (cs_entries s e)) (cs_sessions s)"

text \<open>\<open>old.cancel()\<close> if there is one, then the new entry; the old one is the result.\<close>

definition install :: "string \<Rightarrow> nat \<Rightarrow> nat option \<Rightarrow> int \<Rightarrow> clientSessions \<Rightarrow> nat option \<times> clientSessions" where
  "install realm q webrtc now s =
     (let old = fmlookup (cs_sessions s) realm;
          s1 = (case old of None \<Rightarrow> s | Some e \<Rightarrow> cancel e s);
          n = cs_nextEntry s1
      in (old, s1\<lparr>cs_sessions := fmupd realm n (cs_sessions s1), cs_nextEntry := n + 1,
            cs_entries := (cs_entries s1)(n := \<lparr>ds_session = q, ds_webrtcSession = webrtc, ds_connectedAt = now,
              ds_cancelled = False, ds_upgradeSubs = []\<rparr>)\<rparr>))"

definition DeleteDeviceSession :: "string \<Rightarrow> clientSessions \<Rightarrow> clientSessions" where
  "DeleteDeviceSession realm s = (case fmlookup (cs_sessions s) realm of
     None \<Rightarrow> s
   | Some e \<Rightarrow> (cancel e s)\<lparr>cs_sessions := fmdrop realm (cs_sessions s)\<rparr>)"

definition Disconnect :: "string \<Rightarrow> clientSessions \<Rightarrow> clientSessions" where
  "Disconnect realm s =
     (let s1 = s\<lparr>cs_disconnected := insert realm (cs_disconnected s)\<rparr>
      in case fmlookup (cs_sessions s) realm of
           None \<Rightarrow> s1
         | Some e \<Rightarrow> leave (ds_session (cs_entries s e)) ((cancel e s1)\<lparr>cs_sessions := fmdrop realm (cs_sessions s)\<rparr>))"

definition Login :: "clientSessions \<Rightarrow> clientSessions" where
  "Login s = s\<lparr>cs_loggedIn := True\<rparr>"

section \<open>Goroutines\<close>

text \<open>
  What a goroutine, or a call in progress, does next. \<open>Connecting\<close> is \<open>connectAndUpgrade\<close> waiting for
  the QUIC connection, \<open>Installed\<close> and \<open>Subscribing\<close> its remaining parts, \<open>Upgrading\<close> is
  \<open>upgradeToWebRTC\<close> waiting for the direct connection, \<open>Upgraded\<close> its check, \<open>Storing\<close> a call of
  \<open>StoreDeviceSession\<close>, \<open>Notifying\<close> its second half, \<open>Watching\<close> to \<open>Dialing\<close> are \<open>reconnectLoop\<close>, and
  \<open>Ending\<close> is the second half of \<open>DisconnectAll\<close> and \<open>Logout\<close>.
\<close>

datatype thread =
  Connecting string "nat option" bool
| Installed "nat option" bool nat nat string
| Subscribing bool nat nat string
| Upgrading nat string
| Upgraded nat string
| Storing nat "nat option" string "thread list"
| Notifying nat "nat option" "thread list"
| Watching nat string
| Looping string
| LoopCheck string
| Deleting string
| Dialing string
| Ending "nat list"

text \<open>What the network answers: a failure, or a session at a time.\<close>

datatype answer = Failed | Session nat int

definition connect_install ::
  "string \<Rightarrow> nat option \<Rightarrow> bool \<Rightarrow> nat \<Rightarrow> int \<Rightarrow> clientSessions \<Rightarrow> clientSessions \<times> thread list" where
  "connect_install realm stale sub q now s =
     (let s1 = s\<lparr>cs_disconnected := cs_disconnected s - {realm}\<rparr>
      in case install realm q None now s1 of (_, s2) \<Rightarrow> (s2, [Installed stale sub (cs_nextEntry s) q realm]))"

fun run :: "thread \<Rightarrow> answer \<Rightarrow> clientSessions \<Rightarrow> clientSessions \<times> thread list" where
  "run (Connecting realm stale sub) Failed s =
     (s, case stale of None \<Rightarrow> [] | Some e \<Rightarrow> [Notifying e None []])"
| "run (Connecting realm stale sub) (Session q now) s = connect_install realm stale sub q now s"
| "run (Installed stale sub e q realm) _ s =
     (case stale of None \<Rightarrow> s | Some old \<Rightarrow> notifyReplaced old (Some q) s, [Subscribing sub e q realm])"
| "run (Subscribing sub e q realm) _ s =
     (if sub then snd (subscribeUpgrade e s) else s, [Upgrading q realm])"
| "run (Upgrading q realm) Failed s = (s, [Watching q realm])"
| "run (Upgrading q realm) (Session w now) s = (s, [Upgraded w realm])"
| "run (Upgraded w realm) _ s =
     (if isDisconnected s realm then (leave w s, []) else (s, [Storing w (Some w) realm [Watching w realm]]))"
| "run (Storing q webrtc realm next) (Session _ now) s = (case install realm q webrtc now s of
     (None, s1) \<Rightarrow> (s1, next) | (Some old, s1) \<Rightarrow> (s1, [Notifying old (Some q) next]))"
| "run (Storing q webrtc realm next) Failed s = (s, [Storing q webrtc realm next])"
| "run (Notifying e v next) _ s = (notifyReplaced e v s, next)"
| "run (Watching q realm) _ s = (s, if isDisconnected s realm then [] else [Looping realm])"
| "run (Looping realm) _ s = (s, if cs_loggedIn s then [LoopCheck realm] else [])"
| "run (LoopCheck realm) _ s = (s, if isDisconnected s realm then [] else [Deleting realm])"
| "run (Deleting realm) _ s = (DeleteDeviceSession realm s, [Dialing realm])"
| "run (Dialing realm) Failed s = (s, [Looping realm])"
| "run (Dialing realm) (Session q now) s = (s, [Storing q None realm [Upgrading q realm]])"
| "run (Ending es) _ s = (fold (\<lambda>e. leave (ds_session (cs_entries s e)) \<circ> cancel e) es s, [])"


text \<open>
  The calls from outside. \<open>ensureDeviceSession\<close> either returns a session with the caller's subscription,
  or goes on as a \<open>Connecting\<close> thread; \<open>connected\<close> is the state of the sessions' transports. The
  entries that \<open>DisconnectAll\<close> and \<open>Logout\<close> take out of the table are ended one after the other; Go
  fixes no order for them.
\<close>

definition ensureDeviceSession ::
  "(nat \<Rightarrow> bool) \<Rightarrow> string \<Rightarrow> bool \<Rightarrow> clientSessions \<Rightarrow> (nat \<times> nat option) option \<times> clientSessions \<times> thread list" where
  "ensureDeviceSession connected realm sub s =
     (let s1 = s\<lparr>cs_disconnected := cs_disconnected s - {realm}\<rparr>
      in case fmlookup (cs_sessions s1) realm of
           None \<Rightarrow> (None, s1, [Connecting realm None sub])
         | Some e \<Rightarrow>
             (let q = ds_session (cs_entries s1 e)
              in if connected q then
                   (if sub then (case subscribeUpgrade e s1 of (c, s2) \<Rightarrow> (Some (q, Some c), s2, []))
                    else (Some (q, None), s1, []))
                 else (None, (cancel e s1)\<lparr>cs_sessions := fmdrop realm (cs_sessions s1)\<rparr>,
                       [Connecting realm (Some e) sub])))"

definition DisconnectAll :: "clientSessions \<Rightarrow> clientSessions \<times> thread list" where
  "DisconnectAll s = (s\<lparr>cs_disconnected := cs_disconnected s \<union> fset (fmdom (cs_sessions s)), cs_sessions := fmempty\<rparr>,
     [Ending (sorted_list_of_set (fset (fmran (cs_sessions s))))])"

definition Logout :: "clientSessions \<Rightarrow> clientSessions \<times> thread list" where
  "Logout s = (s\<lparr>cs_loggedIn := False, cs_sessions := fmempty\<rparr>,
     [Ending (sorted_list_of_set (fset (fmran (cs_sessions s))))])"

type_synonym config = "clientSessions \<times> thread multiset"

inductive cs_step :: "config \<Rightarrow> config \<Rightarrow> bool" where
  thread: "run t a s = (s', ts) \<Longrightarrow> cs_step (s, add_mset t T) (s', mset ts + T)"
| ensure: "ensureDeviceSession connected realm sub s = (r, s', ts) \<Longrightarrow> cs_step (s, T) (s', mset ts + T)"
| delete: "cs_step (s, T) (DeleteDeviceSession realm s, T)"
| disconnect: "cs_step (s, T) (Disconnect realm s, T)"
| disconnect_all: "DisconnectAll s = (s', ts) \<Longrightarrow> cs_step (s, T) (s', mset ts + T)"
| login: "cs_step (s, T) (Login s, T)"
| logout: "Logout s = (s', ts) \<Longrightarrow> cs_step (s, T) (s', mset ts + T)"
| take: "cs_step (s, T) (take_upgrade c s, T)"

abbreviation cs_reach :: "config \<Rightarrow> bool" where
  "cs_reach \<equiv> cs_step\<^sup>*\<^sup>* (NewClientSessions, {#})"

section \<open>Contexts\<close>

abbreviation current :: "clientSessions \<Rightarrow> nat \<Rightarrow> bool" where
  "current s e \<equiv> \<exists>realm. fmlookup (cs_sessions s) realm = Some e"

fun ends :: "thread \<Rightarrow> nat set" where
  "ends (Ending es) = set es"
| "ends (Storing q w realm next) = (\<Union>t \<in> set next. ends t)"
| "ends (Notifying e v next) = (\<Union>t \<in> set next. ends t)"
| "ends _ = {}"

text \<open>The entries a thread is going to notify.\<close>

fun targets :: "thread \<Rightarrow> nat set" where
  "targets (Connecting realm stale sub) = set_option stale"
| "targets (Installed stale sub e q realm) = set_option stale"
| "targets (Storing q w realm next) = (\<Union>t \<in> set next. targets t)"
| "targets (Notifying e v next) = insert e (\<Union>t \<in> set next. targets t)"
| "targets _ = {}"

definition pending :: "(thread \<Rightarrow> nat set) \<Rightarrow> thread multiset \<Rightarrow> nat set" where
  "pending f T = (\<Union>t \<in> set_mset T. f t)"

lemma pending_simps [simp]:
  "pending f {#} = {}" "pending f (add_mset t T) = f t \<union> pending f T" "pending f (T + U) = pending f T \<union> pending f U"
  "pending f (mset ts) = (\<Union>t \<in> set ts. f t)"
  by (auto simp: pending_def)

definition entries_ok :: "clientSessions \<Rightarrow> nat set \<Rightarrow> nat set \<Rightarrow> bool" where
  "entries_ok s E N \<longleftrightarrow>
     (\<forall>e. current s e \<longrightarrow> e < cs_nextEntry s \<and> \<not> ds_cancelled (cs_entries s e)) \<and>
     (\<forall>e. \<not> ds_cancelled (cs_entries s e) \<longrightarrow> current s e \<or> e \<in> E) \<and>
     (\<forall>r r' e. fmlookup (cs_sessions s) r = Some e \<longrightarrow> fmlookup (cs_sessions s) r' = Some e \<longrightarrow> r = r') \<and>
     (\<forall>e \<in> E. e < cs_nextEntry s \<and> \<not> current s e) \<and>
     (\<forall>e \<in> N. e < cs_nextEntry s \<and> ds_cancelled (cs_entries s e))"

lemma entries_ok_new: "entries_ok NewClientSessions {} {}"
  by (simp add: entries_ok_def NewClientSessions_def no_entry_def)

lemma entries_ok_sub: "entries_ok s E N \<Longrightarrow> N' \<subseteq> N \<Longrightarrow> entries_ok s E N'"
  by (auto simp: entries_ok_def)


definition same_table :: "clientSessions \<Rightarrow> clientSessions \<Rightarrow> bool" where
  "same_table s s' \<longleftrightarrow> cs_sessions s' = cs_sessions s \<and> cs_nextEntry s' = cs_nextEntry s \<and>
     (\<forall>e. ds_cancelled (cs_entries s' e) = ds_cancelled (cs_entries s e))"

lemma entries_ok_same: "same_table s s' \<Longrightarrow> entries_ok s E N \<Longrightarrow> entries_ok s' E N"
  by (simp add: same_table_def entries_ok_def)

lemma same_table_trans: "same_table s s' \<Longrightarrow> same_table s' s'' \<Longrightarrow> same_table s s''"
  by (simp add: same_table_def)

lemma same_table_simple [simp]:
  "same_table s s" "same_table s (leave q s)" "same_table s (snd (subscribeUpgrade e s))" "same_table s (Login s)"
  "same_table s (take_upgrade c s)" "same_table s (s\<lparr>cs_disconnected := D\<rparr>)" "same_table s (send_and_close v c s)"
  by (simp_all add: same_table_def leave_def subscribeUpgrade_def Login_def take_upgrade_def send_and_close_def Let_def
      split: list.split)

lemma same_table_sends: "same_table s (fold (send_and_close v) cs s)"
proof (induction cs arbitrary: s)
  case (Cons c cs)
  show ?case using same_table_trans [OF same_table_simple(7) Cons.IH] by simp
qed simp

lemma same_table_notify [simp]: "same_table s (notifyReplaced e v s)"
proof -
  have "same_table s (s\<lparr>cs_entries := (cs_entries s)(e := (cs_entries s e)\<lparr>ds_upgradeSubs := []\<rparr>)\<rparr>)"
    by (simp add: same_table_def)
  from same_table_trans [OF this same_table_sends] show ?thesis by (simp add: notifyReplaced_def Let_def)
qed

lemma install_effect:
  assumes "install realm q w now s = (old, s')"
  shows "old = fmlookup (cs_sessions s) realm" "cs_sessions s' = fmupd realm (cs_nextEntry s) (cs_sessions s)"
    "cs_nextEntry s' = Suc (cs_nextEntry s)" "cs_chans s' = cs_chans s" "cs_broken s' = cs_broken s"
    "cs_nextChan s' = cs_nextChan s" "cs_disconnected s' = cs_disconnected s"
    "cs_entries s' e = (if e = cs_nextEntry s then \<lparr>ds_session = q, ds_webrtcSession = w, ds_connectedAt = now,
       ds_cancelled = False, ds_upgradeSubs = []\<rparr>
     else if old = Some e then (cs_entries s e)\<lparr>ds_cancelled := True\<rparr> else cs_entries s e)"
  using assms by (auto simp: install_def Let_def cancel_def split: option.splits)

lemma entries_okD:
  assumes "entries_ok s E N"
  shows "fmlookup (cs_sessions s) r = Some e \<Longrightarrow> e < cs_nextEntry s"
    "fmlookup (cs_sessions s) r = Some e \<Longrightarrow> \<not> ds_cancelled (cs_entries s e)"
    "\<not> ds_cancelled (cs_entries s e) \<Longrightarrow> current s e \<or> e \<in> E"
    "fmlookup (cs_sessions s) r = Some e \<Longrightarrow> fmlookup (cs_sessions s) r' = Some e \<Longrightarrow> r = r'"
    "e \<in> E \<Longrightarrow> e < cs_nextEntry s \<and> \<not> current s e"
    "e \<in> N \<Longrightarrow> e < cs_nextEntry s \<and> ds_cancelled (cs_entries s e)"
  using assms unfolding entries_ok_def by blast+

lemma entries_ok_install:
  assumes ok: "entries_ok s E N" and i: "install realm q w now s = (old, s')"
  shows "entries_ok s' E (N \<union> set_option old)"
proof -
  note d = entries_okD [OF ok] and e = install_effect [OF i]
  have cur: "current s' x \<longleftrightarrow> x = cs_nextEntry s \<or> (\<exists>r. r \<noteq> realm \<and> fmlookup (cs_sessions s) r = Some x)" for x
    unfolding e(2) by auto
  have old: "x < cs_nextEntry s" if "old = Some x" for x using that d(1) e(1) by simp
  have "\<forall>x. current s' x \<longrightarrow> x < cs_nextEntry s' \<and> \<not> ds_cancelled (cs_entries s' x)"
  proof (intro allI impI)
    fix x assume "current s' x"
    then consider "x = cs_nextEntry s" | r where "r \<noteq> realm" "fmlookup (cs_sessions s) r = Some x" unfolding cur by blast
    then show "x < cs_nextEntry s' \<and> \<not> ds_cancelled (cs_entries s' x)"
    proof cases
      case 1
      then show ?thesis by (simp add: e(3,8))
    next
      case 2
      then have "old \<noteq> Some x" using d(4) [of r x realm] e(1) by auto
      with d(1,2) [OF 2(2)] show ?thesis by (simp add: e(3,8))
    qed
  qed
  moreover have "\<forall>x. \<not> ds_cancelled (cs_entries s' x) \<longrightarrow> current s' x \<or> x \<in> E"
  proof (intro allI impI)
    fix x assume a: "\<not> ds_cancelled (cs_entries s' x)"
    show "current s' x \<or> x \<in> E"
    proof (cases "x = cs_nextEntry s")
      case False
      with a have "old \<noteq> Some x" "\<not> ds_cancelled (cs_entries s x)" by (auto simp: e(8) split: if_splits)
      with d(3) [of x] e(1) show ?thesis unfolding cur by auto
    qed (simp add: cur)
  qed
  moreover have "\<forall>r r' x. fmlookup (cs_sessions s') r = Some x \<longrightarrow> fmlookup (cs_sessions s') r' = Some x \<longrightarrow> r = r'"
  proof (intro allI impI)
    fix r r' x
    assume a: "fmlookup (cs_sessions s') r = Some x" "fmlookup (cs_sessions s') r' = Some x"
    show "r = r'"
    proof (cases "r = realm \<or> r' = realm")
      case True
      then have "x = cs_nextEntry s" using a unfolding e(2) by auto
      with a show ?thesis unfolding e(2) using d(1) by (metis fmupd_lookup less_irrefl)
    next
      case False
      with a show ?thesis unfolding e(2) using d(4) by (metis fmupd_lookup)
    qed
  qed
  moreover have "\<forall>x \<in> E. x < cs_nextEntry s' \<and> \<not> current s' x"
    unfolding cur e(3) using d(5) by fastforce
  moreover have "\<forall>x \<in> N \<union> set_option old. x < cs_nextEntry s' \<and> ds_cancelled (cs_entries s' x)"
    unfolding e(3,8) using d(6) old by fastforce
  ultimately show ?thesis unfolding entries_ok_def by blast
qed

lemma entries_ok_evict:
  assumes "entries_ok s E N" "fmlookup (cs_sessions s) realm = Some e"
  shows "entries_ok ((cancel e s)\<lparr>cs_sessions := fmdrop realm (cs_sessions s)\<rparr>) E (insert e N)"
  (is "entries_ok ?s E _")
proof -
  note d = entries_okD [OF assms(1)]
  have cur: "current ?s x \<longleftrightarrow> (\<exists>r. r \<noteq> realm \<and> fmlookup (cs_sessions s) r = Some x)" for x by auto
  have "\<forall>x. current ?s x \<longrightarrow> x < cs_nextEntry ?s \<and> \<not> ds_cancelled (cs_entries ?s x)"
  proof (intro allI impI)
    fix x assume "current ?s x"
    then obtain r where r: "r \<noteq> realm" "fmlookup (cs_sessions s) r = Some x" unfolding cur by blast
    then have "x \<noteq> e" using d(4) [of r x realm] assms(2) by auto
    with d(1,2) [OF r(2)] show "x < cs_nextEntry ?s \<and> \<not> ds_cancelled (cs_entries ?s x)" by (simp add: cancel_def)
  qed
  moreover have "\<forall>x. \<not> ds_cancelled (cs_entries ?s x) \<longrightarrow> current ?s x \<or> x \<in> E"
  proof (intro allI impI)
    fix x assume "\<not> ds_cancelled (cs_entries ?s x)"
    then have "x \<noteq> e" "\<not> ds_cancelled (cs_entries s x)" by (auto simp: cancel_def split: if_splits)
    moreover from this(1) have "fmlookup (cs_sessions s) realm \<noteq> Some x" using assms(2) by simp
    ultimately show "current ?s x \<or> x \<in> E" using d(3) [of x] unfolding cur by auto
  qed
  moreover have "\<forall>r r' x. fmlookup (cs_sessions ?s) r = Some x \<longrightarrow> fmlookup (cs_sessions ?s) r' = Some x \<longrightarrow> r = r'"
  proof (intro allI impI)
    fix r r' x assume "fmlookup (cs_sessions ?s) r = Some x" "fmlookup (cs_sessions ?s) r' = Some x"
    then show "r = r'" using d(4) [of r x r'] by (simp split: if_splits)
  qed
  moreover have "\<forall>x \<in> E. x < cs_nextEntry ?s \<and> \<not> current ?s x"
    unfolding cur using d(5) by (fastforce simp: cancel_def)
  moreover have "\<forall>x \<in> insert e N. x < cs_nextEntry ?s \<and> ds_cancelled (cs_entries ?s x)"
    using d(6) d(1) [OF assms(2)] by (simp add: cancel_def)
  ultimately show ?thesis unfolding entries_ok_def by blast
qed

lemma entries_ok_take_all:
  assumes "entries_ok s E N"
  shows "entries_ok (s\<lparr>cs_sessions := fmempty\<rparr>) (E \<union> fset (fmran (cs_sessions s))) N"
  using assms unfolding entries_ok_def by (simp add: fmlookup_ran_iff) blast


lemma cancel_all:
  "cs_sessions (fold (\<lambda>e. leave (ds_session (f e)) \<circ> cancel e) es s) = cs_sessions s \<and>
   cs_nextEntry (fold (\<lambda>e. leave (ds_session (f e)) \<circ> cancel e) es s) = cs_nextEntry s \<and>
   (\<forall>e. ds_cancelled (cs_entries (fold (\<lambda>e. leave (ds_session (f e)) \<circ> cancel e) es s) e) =
      (e \<in> set es \<or> ds_cancelled (cs_entries s e)))"
proof (induction es arbitrary: s)
  case (Cons c es)
  then show ?case by (auto simp: leave_def cancel_def)
qed simp

lemma entries_ok_end:
  assumes "entries_ok s (set es \<union> E) N"
  shows "entries_ok (fold (\<lambda>e. leave (ds_session (f e)) \<circ> cancel e) es s) E N"
  using assms cancel_all [of f es s] unfolding entries_ok_def by (simp, blast)


lemma entries_ok_insert: "entries_ok s E (insert x N) \<Longrightarrow> entries_ok s E N"
  by (erule entries_ok_sub) blast

lemmas entries_ok_simple = same_table_simple [THEN entries_ok_same] same_table_notify [THEN entries_ok_same]

lemma entries_ok_notified: "entries_ok s E (insert x N) \<Longrightarrow> entries_ok (notifyReplaced x v s) E N"
  by (rule entries_ok_same [OF same_table_notify entries_ok_insert])

lemma entries_ok_delete: "entries_ok s E N \<Longrightarrow> entries_ok (DeleteDeviceSession realm s) E N"
  using entries_ok_evict [THEN entries_ok_insert] by (auto simp: DeleteDeviceSession_def split: option.split)

lemma run_entries:
  assumes "entries_ok s (ends t \<union> E) (targets t \<union> N)" "run t a s = (s', ts)"
  shows "entries_ok s' ((\<Union>t \<in> set ts. ends t) \<union> E) ((\<Union>t \<in> set ts. targets t) \<union> N)"
  using assms
proof (cases "(t, a, s)" rule: run.cases)
  case (2 realm stale sub q now s0)
  let ?s1 = "s\<lparr>cs_disconnected := cs_disconnected s - {realm}\<rparr>"
  have ok: "entries_ok ?s1 (ends t \<union> E) (targets t \<union> N)"
    by (rule entries_ok_same [OF _ assms(1)]) simp
  obtain old s2 where i: "install realm q None now ?s1 = (old, s2)" by (cases "install realm q None now ?s1")
  from entries_ok_install [OF ok i] have "entries_ok s2 (ends t \<union> E) (targets t \<union> N)"
    by (rule entries_ok_sub) blast
  with 2 i assms(2) show ?thesis by (auto simp: connect_install_def)
next
  case (8 q w realm nxt q' now s0)
  obtain old s2 where i: "install realm q w now s = (old, s2)" by (cases "install realm q w now s")
  from entries_ok_install [OF assms(1) i]
  have "entries_ok s2 (ends t \<union> E) (set_option old \<union> (targets t \<union> N))" by (simp only: Un_commute Un_assoc Un_left_commute)
  with 8 i assms(2) show ?thesis by (cases old) auto
next
  case (17 es a0 s0)
  with assms entries_ok_end [of s es E N "cs_entries s"] show ?thesis by (auto simp: Let_def)
qed (auto intro: entries_ok_simple entries_ok_delete entries_ok_notified split: option.splits if_splits)


lemma ensure_entries:
  assumes "entries_ok s E N" "ensureDeviceSession connected realm sub s = (r, s', ts)"
  shows "entries_ok s' ((\<Union>t \<in> set ts. ends t) \<union> E) ((\<Union>t \<in> set ts. targets t) \<union> N)"
proof -
  define s1 where "s1 = s\<lparr>cs_disconnected := cs_disconnected s - {realm}\<rparr>"
  have ok: "entries_ok s1 E N" unfolding s1_def by (rule entries_ok_simple(6) [OF assms(1)])
  show ?thesis
  proof (cases "fmlookup (cs_sessions s1) realm")
    case None
    with assms(2) ok show ?thesis by (auto simp: ensureDeviceSession_def Let_def simp flip: s1_def)
  next
    case (Some e)
    note ev = entries_ok_evict [OF ok Some] and su = entries_ok_simple(3) [OF ok, of e]
    show ?thesis
    proof (cases "connected (ds_session (cs_entries s1 e))")
      case True
      with assms(2) ok su Some show ?thesis
        by (cases "subscribeUpgrade e s1")
          (auto simp: ensureDeviceSession_def Let_def simp flip: s1_def split: if_splits)
    next
      case False
      with assms(2) ev Some show ?thesis by (auto simp: ensureDeviceSession_def Let_def simp flip: s1_def)
    qed
  qed
qed

abbreviation config_ok :: "config \<Rightarrow> bool" where
  "config_ok k \<equiv> entries_ok (fst k) (pending ends (snd k)) (pending targets (snd k))"

lemma take_all_entries:
  assumes "entries_ok s E N" "s' = s\<lparr>cs_sessions := fmempty\<rparr>"
  shows "entries_ok s' (set (sorted_list_of_set (fset (fmran (cs_sessions s)))) \<union> E) N"
  using entries_ok_take_all [OF assms(1)] unfolding assms(2) by (simp add: Un_commute)

lemma step_entries: "cs_step k k' \<Longrightarrow> config_ok k \<Longrightarrow> config_ok k'"
proof (induction rule: cs_step.induct)
  case (thread t a s s' ts T)
  then show ?case using run_entries [of s t _ _ a s' ts] by simp
next
  case (ensure connected realm sub s r s' ts T)
  from ensure_entries [OF _ this(1)] this(2) show ?case by simp
next
  case (disconnect s T realm)
  show ?case
  proof (cases "fmlookup (cs_sessions s) realm")
    case None
    with disconnect show ?thesis by (simp add: Disconnect_def Let_def entries_ok_simple)
  next
    case (Some e)
    let ?s1 = "s\<lparr>cs_disconnected := insert realm (cs_disconnected s)\<rparr>"
    have "entries_ok ?s1 (pending ends T) (pending targets T)" using disconnect by (simp add: entries_ok_simple)
    from entries_ok_evict [OF this, of realm e, THEN entries_ok_insert] Some
    have "entries_ok ((cancel e ?s1)\<lparr>cs_sessions := fmdrop realm (cs_sessions s)\<rparr>) (pending ends T) (pending targets T)"
      by simp
    from entries_ok_simple(2) [OF this] Some show ?thesis by (simp add: Disconnect_def Let_def)
  qed
next
  case (disconnect_all s s' ts T)
  have "entries_ok (s\<lparr>cs_disconnected := cs_disconnected s \<union> fset (fmdom (cs_sessions s))\<rparr>) (pending ends T) (pending targets T)"
    using disconnect_all(2) by (simp add: entries_ok_simple)
  from take_all_entries [OF this refl] disconnect_all(1) show ?case
    by (auto simp: DisconnectAll_def)
next
  case (logout s s' ts T)
  have "same_table s (s\<lparr>cs_loggedIn := False\<rparr>)" by (simp add: same_table_def)
  from entries_ok_same [OF this] logout(2) have "entries_ok (s\<lparr>cs_loggedIn := False\<rparr>) (pending ends T) (pending targets T)" by simp
  from take_all_entries [OF this refl] logout(1) show ?case by (auto simp: Logout_def)
qed (simp_all add: entries_ok_delete entries_ok_simple)

lemma reach_entries: "cs_reach k \<Longrightarrow> config_ok k"
  by (induction rule: rtranclp_induct) (use entries_ok_new step_entries in auto)


section \<open>Channels\<close>

definition chans_ok :: "clientSessions \<Rightarrow> bool" where
  "chans_ok s \<longleftrightarrow> \<not> cs_broken s \<and>
     (\<forall>e. distinct (ds_upgradeSubs (cs_entries s e)) \<and>
        (\<forall>c \<in> set (ds_upgradeSubs (cs_entries s e)). c < cs_nextChan s \<and> cs_chans s c = new_chan)) \<and>
     (\<forall>e e' c. c \<in> set (ds_upgradeSubs (cs_entries s e)) \<longrightarrow> c \<in> set (ds_upgradeSubs (cs_entries s e')) \<longrightarrow> e = e') \<and>
     (\<forall>c < cs_nextChan s. cs_chans s c = new_chan \<or>
        uc_closed (cs_chans s c) \<and> length (uc_taken (cs_chans s c) @ uc_buf (cs_chans s c)) = 1)"

lemma sends:
  "distinct cs \<Longrightarrow> \<forall>c \<in> set cs. cs_chans s c = new_chan \<Longrightarrow>
   fold (send_and_close v) cs s = s\<lparr>cs_chans := (\<lambda>c. if c \<in> set cs then \<lparr>uc_buf = [v], uc_taken = [], uc_closed = True\<rparr>
     else cs_chans s c)\<rparr>"
proof (induction cs arbitrary: s)
  case (Cons c cs)
  let ?s1 = "s\<lparr>cs_chans := (cs_chans s)(c := \<lparr>uc_buf = [v], uc_taken = [], uc_closed = True\<rparr>)\<rparr>"
  have "send_and_close v c s = ?s1" using Cons.prems(2) by (simp add: send_and_close_def Let_def new_chan_def)
  moreover have "\<forall>d \<in> set cs. cs_chans ?s1 d = new_chan" using Cons.prems by auto
  ultimately show ?case using Cons.IH [of ?s1] Cons.prems(1) by (auto simp: fun_eq_iff)
qed simp

lemma chans_okD:
  assumes "chans_ok s"
  shows "\<not> cs_broken s" "distinct (ds_upgradeSubs (cs_entries s e))"
    "c \<in> set (ds_upgradeSubs (cs_entries s e)) \<Longrightarrow> c < cs_nextChan s"
    "c \<in> set (ds_upgradeSubs (cs_entries s e)) \<Longrightarrow> cs_chans s c = new_chan"
    "c \<in> set (ds_upgradeSubs (cs_entries s e)) \<Longrightarrow> c \<in> set (ds_upgradeSubs (cs_entries s e')) \<Longrightarrow> e = e'"
    "c < cs_nextChan s \<Longrightarrow> cs_chans s c = new_chan \<or>
        uc_closed (cs_chans s c) \<and> length (uc_taken (cs_chans s c) @ uc_buf (cs_chans s c)) = 1"
  using assms unfolding chans_ok_def by blast+

lemma notify_effect:
  assumes "chans_ok s"
  shows "notifyReplaced e v s = s\<lparr>cs_entries := (cs_entries s)(e := (cs_entries s e)\<lparr>ds_upgradeSubs := []\<rparr>),
     cs_chans := (\<lambda>c. if c \<in> set (ds_upgradeSubs (cs_entries s e)) then \<lparr>uc_buf = [v], uc_taken = [], uc_closed = True\<rparr>
       else cs_chans s c)\<rparr>"
  using chans_okD(2,4) [OF assms] by (simp add: notifyReplaced_def Let_def sends cong: if_cong)

lemma chans_ok_notify:
  assumes "chans_ok s"
  shows "chans_ok (notifyReplaced e v s)"
  using assms unfolding notify_effect [OF assms] chans_ok_def by (auto split: if_splits)

lemma chans_ok_subscribe:
  assumes "chans_ok s"
  shows "chans_ok (snd (subscribeUpgrade e s))"
proof -
  note d = chans_okD [OF assms]
  have n: "cs_nextChan s \<notin> set (ds_upgradeSubs (cs_entries s x))" for x using d(3) by blast
  let ?s = "snd (subscribeUpgrade e s)"
  have f: "ds_upgradeSubs (cs_entries ?s x) = ds_upgradeSubs (cs_entries s x) @ (if x = e then [cs_nextChan s] else [])"
    "cs_chans ?s = (cs_chans s)(cs_nextChan s := new_chan)" "cs_nextChan ?s = Suc (cs_nextChan s)" "cs_broken ?s = cs_broken s" for x
    by (simp_all add: subscribeUpgrade_def Let_def)
  have "\<forall>c < cs_nextChan ?s. cs_chans ?s c = new_chan \<or> uc_closed (cs_chans ?s c) \<and>
      length (uc_taken (cs_chans ?s c) @ uc_buf (cs_chans ?s c)) = 1"
    unfolding f using d(6) by (auto simp: less_Suc_eq)
  moreover have "\<forall>x. distinct (ds_upgradeSubs (cs_entries ?s x)) \<and>
        (\<forall>c \<in> set (ds_upgradeSubs (cs_entries ?s x)). c < cs_nextChan ?s \<and> cs_chans ?s c = new_chan)"
    unfolding f using d(2,3,4) n by (auto simp: less_Suc_eq)
  moreover have "\<forall>x x' c. c \<in> set (ds_upgradeSubs (cs_entries ?s x)) \<longrightarrow> c \<in> set (ds_upgradeSubs (cs_entries ?s x')) \<longrightarrow> x = x'"
    unfolding f using d(5) n by (auto split: if_splits)
  ultimately show ?thesis using d(1) unfolding chans_ok_def f(4) by blast
qed

lemma chans_ok_take: "chans_ok s \<Longrightarrow> chans_ok (take_upgrade c s)"
  unfolding chans_ok_def take_upgrade_def Let_def by (auto simp: new_chan_def split: list.split)

text \<open>Changes that touch neither channels nor subscriptions.\<close>

definition same_subs :: "clientSessions \<Rightarrow> clientSessions \<Rightarrow> bool" where
  "same_subs s s' \<longleftrightarrow> cs_chans s' = cs_chans s \<and> cs_nextChan s' = cs_nextChan s \<and> cs_broken s' = cs_broken s \<and>
     (\<forall>e. ds_upgradeSubs (cs_entries s' e) = ds_upgradeSubs (cs_entries s e) \<or> ds_upgradeSubs (cs_entries s' e) = [])"

lemma chans_ok_same: "same_subs s s' \<Longrightarrow> chans_ok s \<Longrightarrow> chans_ok s'"
  unfolding same_subs_def chans_ok_def by (metis distinct.simps(1) empty_iff empty_set)

lemma same_subs_simple [simp]:
  "same_subs s s" "same_subs s (leave q s)" "same_subs s (cancel e s)" "same_subs s (Login s)"
  "same_subs s (s\<lparr>cs_disconnected := D\<rparr>)" "same_subs s (s\<lparr>cs_sessions := S\<rparr>)" "same_subs s (s\<lparr>cs_loggedIn := l\<rparr>)"
  "same_subs s (snd (install realm q w now s))"
  by (auto simp: same_subs_def leave_def cancel_def Login_def install_def Let_def split: option.split)

lemma same_subs_trans: "same_subs s s' \<Longrightarrow> same_subs s' s'' \<Longrightarrow> same_subs s s''"
  unfolding same_subs_def by metis

lemma same_subs_evict [simp]: "same_subs s ((cancel e s)\<lparr>cs_sessions := S\<rparr>)" "same_subs s (DeleteDeviceSession realm s)"
  by (simp_all add: DeleteDeviceSession_def same_subs_def cancel_def split: option.split)

lemma same_subs_cancels: "same_subs s (fold (\<lambda>e. leave (ds_session (f e)) \<circ> cancel e) es s)"
proof (induction es arbitrary: s)
  case (Cons e es)
  have "same_subs s ((leave (ds_session (f e)) \<circ> cancel e) s)" by (simp add: same_subs_def cancel_def leave_def)
  from same_subs_trans [OF this Cons.IH] show ?case by simp
qed simp


lemma chans_ok_simple:
  assumes "chans_ok s"
  shows "chans_ok (leave q s)" "chans_ok (Login s)" "chans_ok (DeleteDeviceSession realm s)"
    "chans_ok (snd (install realm q w now s))" "chans_ok (s\<lparr>cs_disconnected := D\<rparr>)" "chans_ok (s\<lparr>cs_sessions := S\<rparr>)"
    "chans_ok ((cancel e s)\<lparr>cs_sessions := S\<rparr>)"
    "chans_ok (fold (\<lambda>e. leave (ds_session (f e)) \<circ> cancel e) es s)"
  by (rule chans_ok_same [OF _ assms], simp add: same_subs_cancels)+

lemma run_chans:
  assumes "chans_ok s" "run t a s = (s', ts)"
  shows "chans_ok s'"
proof (cases "(t, a, s)" rule: run.cases)
  case (2 realm stale sub q now s0)
  let ?s1 = "s\<lparr>cs_disconnected := cs_disconnected s - {realm}\<rparr>"
  from chans_ok_simple(4) [OF chans_ok_simple(5) [OF assms(1)], of realm q None now "cs_disconnected s - {realm}"]
  show ?thesis using 2 assms(2) by (cases "install realm q None now ?s1") (auto simp: connect_install_def)
next
  case (8 q w realm nxt q' now s0)
  from chans_ok_simple(4) [OF assms(1), of realm q w now] show ?thesis
    using 8 assms(2) by (cases "install realm q w now s") (auto split: option.splits)
next
  case (17 es a0 s0)
  with assms show ?thesis by (auto simp: chans_ok_simple)
qed (use assms in \<open>auto simp: chans_ok_simple chans_ok_notify chans_ok_subscribe split: option.splits if_splits\<close>)

lemma ensure_chans:
  assumes "chans_ok s" "ensureDeviceSession connected realm sub s = (r, s', ts)"
  shows "chans_ok s'"
proof -
  define s1 where "s1 = s\<lparr>cs_disconnected := cs_disconnected s - {realm}\<rparr>"
  have ok: "chans_ok s1" unfolding s1_def by (rule chans_ok_simple(5) [OF assms(1)])
  have sub: "chans_ok s2" if "subscribeUpgrade e s1 = (c, s2)" for e c s2
    using chans_ok_subscribe [OF ok, of e] that by simp
  show ?thesis using assms(2) ok sub
    by (auto simp: ensureDeviceSession_def Let_def chans_ok_simple simp flip: s1_def
        split: option.splits if_splits prod.splits)
qed

lemma step_chans: "cs_step k k' \<Longrightarrow> chans_ok (fst k) \<Longrightarrow> chans_ok (fst k')"
proof (induction rule: cs_step.induct)
  case (disconnect s T realm)
  let ?s1 = "s\<lparr>cs_disconnected := insert realm (cs_disconnected s)\<rparr>"
  have "chans_ok ?s1" using disconnect by (simp add: chans_ok_simple)
  then show ?case using chans_ok_simple(1) [OF chans_ok_simple(7)]
    by (fastforce simp: Disconnect_def Let_def split: option.split)
next
  case (logout s s' ts T)
  have "same_subs s (s\<lparr>cs_loggedIn := False, cs_sessions := fmempty\<rparr>)" by (simp add: same_subs_def)
  from chans_ok_same [OF this] logout show ?case by (auto simp: Logout_def)
next
  case (disconnect_all s s' ts T)
  have "same_subs s (s\<lparr>cs_disconnected := D, cs_sessions := fmempty\<rparr>)" for D by (simp add: same_subs_def)
  from chans_ok_same [OF this] disconnect_all show ?case by (auto simp: DisconnectAll_def)
qed (auto simp: chans_ok_simple chans_ok_take intro: run_chans ensure_chans)

lemma chans_ok_new: "chans_ok NewClientSessions"
  by (simp add: chans_ok_def NewClientSessions_def no_entry_def)

lemma reach_chans: "cs_reach k \<Longrightarrow> chans_ok (fst k)"
  by (induction rule: rtranclp_induct) (use chans_ok_new step_chans in auto)


section \<open>Entries nobody will notify\<close>

definition forgotten :: "nat \<Rightarrow> nat \<Rightarrow> clientSessions \<Rightarrow> nat set \<Rightarrow> bool" where
  "forgotten e c s N \<longleftrightarrow> c \<in> set (ds_upgradeSubs (cs_entries s e)) \<and> \<not> current s e \<and> e < cs_nextEntry s \<and> e \<notin> N"

lemma sends_entries: "cs_entries (fold (send_and_close v) cs s) = cs_entries s"
  by (induction cs arbitrary: s) (simp_all add: send_and_close_def Let_def)

lemma notify_entries:
  "cs_entries (notifyReplaced x v s) = (cs_entries s)(x := (cs_entries s x)\<lparr>ds_upgradeSubs := []\<rparr>)"
  by (simp add: notifyReplaced_def Let_def sends_entries)

lemma notify_table: "cs_sessions (notifyReplaced x v s) = cs_sessions s" "cs_nextEntry (notifyReplaced x v s) = cs_nextEntry s"
  using same_table_notify [of s x v] by (simp_all add: same_table_def)

lemma forgotten_notify: "forgotten e c s (insert x N) \<Longrightarrow> forgotten e c (notifyReplaced x v s) N"
  by (simp add: forgotten_def notify_entries notify_table)

lemma forgotten_install:
  assumes "forgotten e c s N" "install realm q w now s = (old, s')"
  shows "forgotten e c s' (N \<union> set_option old)"
proof -
  note i = install_effect [OF assms(2)]
  have f: "c \<in> set (ds_upgradeSubs (cs_entries s e))" "\<And>r. fmlookup (cs_sessions s) r \<noteq> Some e" "e < cs_nextEntry s" "e \<notin> N"
    using assms(1) by (auto simp: forgotten_def)
  have "old \<noteq> Some e" using f(2) i(1) by simp
  with f show ?thesis by (auto simp: forgotten_def i(2,3,8))
qed

lemma forgotten_evict:
  assumes "forgotten e c s N" "fmlookup (cs_sessions s) realm = Some x"
  shows "forgotten e c ((cancel x s)\<lparr>cs_sessions := fmdrop realm (cs_sessions s)\<rparr>) (insert x N)"
  using assms by (auto simp: forgotten_def cancel_def split: if_splits)

lemma forgotten_sub: "forgotten e c s N \<Longrightarrow> N' \<subseteq> N \<Longrightarrow> forgotten e c s N'"
  by (auto simp: forgotten_def)

lemma forgotten_simple:
  assumes "forgotten e c s N"
  shows "forgotten e c (leave q s) N" "forgotten e c (Login s) N" "forgotten e c (s\<lparr>cs_disconnected := D\<rparr>) N"
    "forgotten e c (snd (subscribeUpgrade x s)) N" "forgotten e c (take_upgrade d s) N"
    "forgotten e c (s\<lparr>cs_sessions := fmempty\<rparr>) N" "forgotten e c (DeleteDeviceSession realm s) N"
    "forgotten e c (s\<lparr>cs_loggedIn := l\<rparr>) N"
proof -
  show "forgotten e c (DeleteDeviceSession realm s) N"
  proof (cases "fmlookup (cs_sessions s) realm")
    case (Some x)
    from forgotten_sub [OF forgotten_evict [OF assms Some], of N] Some show ?thesis
      by (auto simp: DeleteDeviceSession_def)
  qed (simp add: DeleteDeviceSession_def assms)
  have "cs_entries (take_upgrade d s) = cs_entries s" "cs_sessions (take_upgrade d s) = cs_sessions s"
    "cs_nextEntry (take_upgrade d s) = cs_nextEntry s"
    by (simp_all add: take_upgrade_def Let_def split: list.split)
  then show "forgotten e c (take_upgrade d s) N" using assms by (simp add: forgotten_def)
  show "forgotten e c (snd (subscribeUpgrade x s)) N"
    using assms by (auto simp: forgotten_def subscribeUpgrade_def Let_def)
qed (use assms in \<open>simp_all add: forgotten_def leave_def Login_def\<close>)

lemma forgotten_cancels:
  "forgotten e c s N \<Longrightarrow> forgotten e c (fold (\<lambda>x. leave (ds_session (f x)) \<circ> cancel x) es s) N"
proof (induction es arbitrary: s)
  case (Cons x es)
  have "forgotten e c ((leave (ds_session (f x)) \<circ> cancel x) s) N"
    using Cons.prems by (auto simp: forgotten_def leave_def cancel_def)
  from Cons.IH [OF this] show ?case by simp
qed simp

lemma run_forgotten:
  assumes "forgotten e c s (targets t \<union> N)" "run t a s = (s', ts)"
  shows "forgotten e c s' ((\<Union>t \<in> set ts. targets t) \<union> N)"
  using assms
proof (cases "(t, a, s)" rule: run.cases)
  case (2 realm stale sub q now s0)
  let ?s1 = "s\<lparr>cs_disconnected := cs_disconnected s - {realm}\<rparr>"
  obtain old s2 where i: "install realm q None now ?s1 = (old, s2)" by (cases "install realm q None now ?s1")
  from forgotten_install [OF forgotten_simple(3) [OF assms(1)] i] have "forgotten e c s2 (targets t \<union> N)"
    by (rule forgotten_sub) blast
  with 2 i assms(2) show ?thesis by (auto simp: connect_install_def)
next
  case (3 stale sub x q realm a0 s0)
  with assms show ?thesis by (cases stale) (auto intro: forgotten_notify)
next
  case (8 q w realm nxt q' now s0)
  obtain old s2 where i: "install realm q w now s = (old, s2)" by (cases "install realm q w now s")
  from forgotten_install [OF assms(1) i]
  have "forgotten e c s2 (set_option old \<union> (targets t \<union> N))" by (simp only: Un_commute Un_assoc Un_left_commute)
  with 8 i assms(2) show ?thesis by (cases old) auto
next
  case (10 x v nxt a0 s0)
  with assms show ?thesis by (auto intro: forgotten_notify)
next
  case (17 es a0 s0)
  with assms show ?thesis by (auto simp: forgotten_cancels)
qed (auto simp: forgotten_simple split: option.splits if_splits)


lemma ensure_forgotten:
  assumes "forgotten e c s N" "ensureDeviceSession connected realm sub s = (r, s', ts)"
  shows "forgotten e c s' ((\<Union>t \<in> set ts. targets t) \<union> N)"
proof -
  define s1 where "s1 = s\<lparr>cs_disconnected := cs_disconnected s - {realm}\<rparr>"
  have f: "forgotten e c s1 N" unfolding s1_def by (rule forgotten_simple(3) [OF assms(1)])
  show ?thesis
  proof (cases "fmlookup (cs_sessions s1) realm")
    case None
    with assms(2) f show ?thesis by (auto simp: ensureDeviceSession_def Let_def simp flip: s1_def)
  next
    case (Some x)
    note ev = forgotten_evict [OF f Some] and su = forgotten_simple(4) [OF f, of x]
    show ?thesis
    proof (cases "connected (ds_session (cs_entries s1 x))")
      case True
      with assms(2) f su Some show ?thesis
        by (cases "subscribeUpgrade x s1") (auto simp: ensureDeviceSession_def Let_def simp flip: s1_def split: if_splits)
    next
      case False
      with assms(2) ev Some show ?thesis by (auto simp: ensureDeviceSession_def Let_def simp flip: s1_def)
    qed
  qed
qed

lemma step_forgotten:
  "cs_step k k' \<Longrightarrow> forgotten e c (fst k) (pending targets (snd k)) \<Longrightarrow> forgotten e c (fst k') (pending targets (snd k'))"
proof (induction rule: cs_step.induct)
  case (thread t a s s' ts T)
  then show ?case using run_forgotten [of e c s t _ a s' ts] by simp
next
  case (ensure connected realm sub s r s' ts T)
  from ensure_forgotten [OF _ this(1)] this(2) show ?case by simp
next
  case (disconnect s T realm)
  let ?s1 = "s\<lparr>cs_disconnected := insert realm (cs_disconnected s)\<rparr>"
  have f: "forgotten e c ?s1 (pending targets T)" using disconnect by (simp add: forgotten_simple)
  show ?case
  proof (cases "fmlookup (cs_sessions s) realm")
    case None
    with f show ?thesis by (simp add: Disconnect_def Let_def)
  next
    case (Some x)
    have "forgotten e c ((cancel x ?s1)\<lparr>cs_sessions := fmdrop realm (cs_sessions s)\<rparr>) (pending targets T)"
      using forgotten_sub [OF forgotten_evict [OF f], of realm x "pending targets T"] Some by auto
    from forgotten_simple(1) [OF this] Some show ?thesis by (simp add: Disconnect_def Let_def)
  qed
next
  case (disconnect_all s s' ts T)
  from forgotten_simple(6) [OF forgotten_simple(3) [OF disconnect_all(2)]] disconnect_all(1) show ?case
    by (auto simp: DisconnectAll_def)
next
  case (logout s s' ts T)
  from forgotten_simple(6) [OF forgotten_simple(8) [OF logout(2)]] logout(1) show ?case by (auto simp: Logout_def)
qed (simp_all add: forgotten_simple)

section \<open>Subscribers of an entry that is about to be notified\<close>

definition told :: "nat \<Rightarrow> nat \<Rightarrow> clientSessions \<Rightarrow> bool" where
  "told e c s \<longleftrightarrow> e < cs_nextEntry s \<and> c < cs_nextChan s \<and>
     (c \<in> set (ds_upgradeSubs (cs_entries s e)) \<or> uc_closed (cs_chans s c))"

lemma told_simple:
  assumes "told e c s"
  shows "told e c (leave q s)" "told e c (cancel x s)" "told e c (Login s)" "told e c (s\<lparr>cs_disconnected := D\<rparr>)"
    "told e c (s\<lparr>cs_sessions := S\<rparr>)" "told e c (s\<lparr>cs_loggedIn := l\<rparr>)" "told e c (DeleteDeviceSession realm s)"
    "told e c (snd (install realm q w now s))" "told e c (snd (subscribeUpgrade x s))" "told e c (take_upgrade d s)"
proof -
  show "told e c (snd (install realm q w now s))"
    using assms by (auto simp: told_def install_def Let_def cancel_def split: option.split)
  show "told e c (take_upgrade d s)"
    using assms by (auto simp: told_def take_upgrade_def Let_def split: list.split)
  show "told e c (snd (subscribeUpgrade x s))"
    using assms by (auto simp: told_def subscribeUpgrade_def Let_def)
  show "told e c (DeleteDeviceSession realm s)"
    using assms by (auto simp: told_def DeleteDeviceSession_def cancel_def split: option.split)
  show "told e c (cancel x s)" using assms by (auto simp: told_def cancel_def)
qed (use assms in \<open>simp_all add: told_def leave_def Login_def\<close>)

lemma told_evict: "told e c s \<Longrightarrow> told e c ((cancel x s)\<lparr>cs_sessions := S\<rparr>)"
  by (rule told_simple(5) [OF told_simple(2)])

lemma told_cancels: "told e c s \<Longrightarrow> told e c (fold (\<lambda>x. leave (ds_session (f x)) \<circ> cancel x) es s)"
  by (induction es arbitrary: s) (simp_all add: told_simple)

lemma told_notify: "chans_ok s \<Longrightarrow> told e c s \<Longrightarrow> told e c (notifyReplaced x v s)"
  by (auto simp: told_def notify_effect)

lemma run_told:
  assumes "chans_ok s" "told e c s" "run t a s = (s', ts)"
  shows "told e c s'"
proof (cases "(t, a, s)" rule: run.cases)
  case (2 realm stale sub q now s0)
  let ?s1 = "s\<lparr>cs_disconnected := cs_disconnected s - {realm}\<rparr>"
  from told_simple(8) [OF told_simple(4) [OF assms(2)], of realm q None now "cs_disconnected s - {realm}"]
  show ?thesis using 2 assms(3) by (cases "install realm q None now ?s1") (auto simp: connect_install_def)
next
  case (8 q w realm nxt q' now s0)
  from told_simple(8) [OF assms(2), of realm q w now] show ?thesis
    using 8 assms(3) by (cases "install realm q w now s") (auto split: option.splits)
next
  case (17 es a0 s0)
  with assms show ?thesis by (auto simp: told_cancels)
qed (use assms in \<open>auto simp: told_simple told_notify split: option.splits if_splits\<close>)

lemma step_told: "cs_step k k' \<Longrightarrow> chans_ok (fst k) \<Longrightarrow> told e c (fst k) \<Longrightarrow> told e c (fst k')"
proof (induction rule: cs_step.induct)
  case (ensure connected realm sub s r s' ts T)
  define s1 where "s1 = s\<lparr>cs_disconnected := cs_disconnected s - {realm}\<rparr>"
  have t: "told e c s1" unfolding s1_def using told_simple(4) ensure(3) by simp
  have sub: "told e c s2" if "subscribeUpgrade x s1 = (d, s2)" for x d s2
    using told_simple(9) [OF t, of x] that by simp
  show ?case using ensure(1) t sub
    by (auto simp: ensureDeviceSession_def Let_def told_evict simp flip: s1_def
        split: option.splits if_splits prod.splits)
next
  case (disconnect s T realm)
  then have "told e c (s\<lparr>cs_disconnected := insert realm (cs_disconnected s)\<rparr>)" by (simp add: told_simple)
  then show ?case by (auto simp: Disconnect_def Let_def told_simple told_evict split: option.split)
qed (auto simp: told_simple DisconnectAll_def Logout_def intro: run_told)

lemma steps_told: "cs_step\<^sup>*\<^sup>* k k' \<Longrightarrow> chans_ok (fst k) \<Longrightarrow> told e c (fst k) \<Longrightarrow> told e c (fst k')"
proof (induction rule: rtranclp_induct)
  case (step k' k'')
  have "chans_ok (fst k')" using step.hyps(1) step.prems(1) by (induction rule: rtranclp_induct) (auto intro: step_chans)
  with step show ?case using step_told by blast
qed


section \<open>Properties\<close>


text \<open>
  Property C27 (subscribers_told_once): in every reachable state no notification has panicked or hung;
  a subscription's channel carries at most one value and is closed exactly when it got one; and
  notifying an entry hands the new session to each of its subscribers and closes their channels.
\<close>

theorem subscribers_told_once:
  assumes "cs_reach (s, T)"
  shows "\<not> cs_broken s \<and>
    (\<forall>c < cs_nextChan s. length (uc_taken (cs_chans s c) @ uc_buf (cs_chans s c)) = (if uc_closed (cs_chans s c) then 1 else 0)) \<and>
    (\<forall>e v. \<forall>c \<in> set (ds_upgradeSubs (cs_entries s e)).
       cs_chans (notifyReplaced e v s) c = \<lparr>uc_buf = [v], uc_taken = [], uc_closed = True\<rparr>)"
proof -
  have ok: "chans_ok s" using reach_chans [OF assms] by simp
  note d = chans_okD [OF ok]
  have "length (uc_taken (cs_chans s c) @ uc_buf (cs_chans s c)) = (if uc_closed (cs_chans s c) then 1 else 0)"
    if "c < cs_nextChan s" for c using d(6) [OF that] by (auto simp: new_chan_def)
  then show ?thesis using d(1) by (simp add: notify_effect [OF ok])
qed

text \<open>
  When \<open>StoreDeviceSession\<close> replaces an entry, the realm's
  session is the new one and the old context is cancelled; and once the second half of the call has
  run, however much happened in between, every channel that was subscribed to the old entry has
  received exactly one value and is closed.
\<close>

theorem upgrade_reaches_subscribers:
  assumes "cs_reach (s, add_mset (Storing q w realm next) T)" "fmlookup (cs_sessions s) realm = Some e"
    and "run (Storing q w realm next) (Session i now) s = (s1, ts)"
    and "cs_step\<^sup>*\<^sup>* (s1, mset ts + T) (s2, add_mset (Notifying e (Some q) next) T2)"
    and "run (Notifying e (Some q) next) a s2 = (s3, ts')"
    and "c \<in> set (ds_upgradeSubs (cs_entries s e))"
  shows "ts = [Notifying e (Some q) next] \<and> SessionByRealm s1 realm = Some q \<and> ds_cancelled (cs_entries s1 e) \<and>
    uc_closed (cs_chans s3 c) \<and> length (uc_taken (cs_chans s3 c) @ uc_buf (cs_chans s3 c)) = 1"
proof -
  obtain old s' where i: "install realm q w now s = (old, s')" by (cases "install realm q w now s")
  note f = install_effect [OF i]
  have ok: "chans_ok s" "entries_ok s (pending ends (add_mset (Storing q w realm next) T)) (pending targets (add_mset (Storing q w realm next) T))"
    using reach_chans [OF assms(1)] reach_entries [OF assms(1)] by simp_all
  have old: "old = Some e" using f(1) assms(2) by simp
  with assms(3) i have s1: "s1 = s'" "ts = [Notifying e (Some q) next]" by auto
  have en: "e < cs_nextEntry s" by (rule entries_okD(1) [OF ok(2) assms(2)])
  have r1: "cs_reach (s1, mset ts + T)" by (rule rtranclp.rtrancl_into_rtrancl [OF assms(1) cs_step.thread [OF assms(3)]])
  have "told e c s" using chans_okD(3) [OF ok(1) assms(6)] en assms(6) by (simp add: told_def)
  from told_simple(8) [OF this, of realm q w now] have "told e c s1" using i s1 by simp
  with steps_told [OF assms(4)] reach_chans [OF r1] have t2: "told e c s2" by simp
  have "cs_reach (s2, add_mset (Notifying e (Some q) next) T2)" using r1 assms(4) by (rule rtranclp_trans)
  note ok2 = reach_chans [OF this, simplified]
  have s3: "s3 = notifyReplaced e (Some q) s2" using assms(5) by simp
  have "told e c s3" "chans_ok s3" unfolding s3 by (rule told_notify [OF ok2 t2], rule chans_ok_notify [OF ok2])
  moreover have "c \<notin> set (ds_upgradeSubs (cs_entries s3 e))" by (simp add: s3 notify_entries)
  ultimately have "uc_closed (cs_chans s3 c)" "c < cs_nextChan s3" by (simp_all add: told_def)
  with chans_okD(6) [OF \<open>chans_ok s3\<close>, of c]
  have "uc_closed (cs_chans s3 c) \<and> length (uc_taken (cs_chans s3 c) @ uc_buf (cs_chans s3 c)) = 1"
    by (auto simp: new_chan_def)
  moreover have "SessionByRealm s1 realm = Some q" by (simp add: SessionByRealm_def s1 f)
  moreover have "ds_cancelled (cs_entries s1 e)" using en old by (simp add: s1 f)
  ultimately show ?thesis using s1(2) by blast
qed

text \<open>
  The reconnect loop deletes the lost entry before it stores
  the new session, so \<open>StoreDeviceSession\<close> finds nothing to replace: whatever happens from there on, a
  caller that subscribed to the lost entry is never told, although the comments of \<open>StoreDeviceSession\<close>
  and \<open>EnsureDeviceSessionWithUpgrade\<close> promise it.
\<close>

theorem reconnect_forgets_subscribers:
  assumes "cs_reach (s, add_mset (Deleting realm) T)" "fmlookup (cs_sessions s) realm = Some e"
    and "c \<in> set (ds_upgradeSubs (cs_entries s e))"
    and "run (Deleting realm) a s = (s1, ts)" "cs_step\<^sup>*\<^sup>* (s1, mset ts + T) (s2, T2)"
  shows "uc_buf (cs_chans s2 c) = [] \<and> \<not> uc_closed (cs_chans s2 c)"
proof -
  have ok: "entries_ok s (pending ends T) (pending targets T)" using reach_entries [OF assms(1)] by simp
  note d = entries_okD [OF ok]
  have s1: "s1 = (cancel e s)\<lparr>cs_sessions := fmdrop realm (cs_sessions s)\<rparr>" "ts = [Dialing realm]"
    using assms(2,4) by (auto simp: DeleteDeviceSession_def)
  have "e \<notin> pending targets T" using d(2) [OF assms(2)] d(6) by blast
  moreover have "\<not> current s1 e"
  proof
    assume "current s1 e"
    then obtain r where "fmlookup (cs_sessions s1) r = Some e" by blast
    then have "r \<noteq> realm" "fmlookup (cs_sessions s) r = Some e" by (simp_all add: s1 split: if_splits)
    with d(4) [OF this(2) assms(2)] show False by blast
  qed
  ultimately have "forgotten e c s1 (pending targets (mset ts + T))"
    using assms(3) d(1) [OF assms(2)] by (simp add: forgotten_def s1 cancel_def)
  with assms(5) have f: "forgotten e c s2 (pending targets T2)"
  proof (induction "(s2, T2)" arbitrary: s2 T2 rule: rtranclp_induct)
    case (step k)
    then show ?case using step_forgotten [of k "(s2, T2)" e c] by (cases k) auto
  qed simp
  have "cs_reach (s2, T2)"
    using rtranclp.rtrancl_into_rtrancl [OF assms(1) cs_step.thread [OF assms(4)]] assms(5) by (rule rtranclp_trans)
  moreover have "c \<in> set (ds_upgradeSubs (cs_entries s2 e))" using f by (simp add: forgotten_def)
  ultimately have "cs_chans s2 c = new_chan" using chans_okD(4) reach_chans by fastforce
  then show ?thesis by (simp add: new_chan_def)
qed


section \<open>Example\<close>

text \<open>A run in which one thread goes on at a time.\<close>

fun chain :: "answer list \<Rightarrow> clientSessions \<times> thread list \<Rightarrow> clientSessions \<times> thread list" where
  "chain (a # as) (s, [t]) = chain as (run t a s)"
| "chain _ k = k"

lemma chain_steps: "cs_step\<^sup>*\<^sup>* (s, mset ts) (fst (chain as (s, ts)), mset (snd (chain as (s, ts))))"
proof (induction as "(s, ts)" arbitrary: s ts rule: chain.induct)
  case (1 a as s t)
  obtain s' ts' where r: "run t a s = (s', ts')" by (cases "run t a s")
  from cs_step.thread [OF this, of "{#}"] have "cs_step (s, mset [t]) (s', mset ts')" by simp
  from converse_rtranclp_into_rtranclp [of cs_step, OF this] 1 r show ?case by simp
qed auto

text \<open>A shell call over QUIC that subscribes, before and after its connection is lost.\<close>

definition demo_call :: "clientSessions \<times> thread list" where
  "demo_call = snd (ensureDeviceSession (\<lambda>_. False) ''r'' True (Login NewClientSessions))"

lemma demo_call_reach: "cs_reach (fst (chain as demo_call), mset (snd (chain as demo_call)))"
proof -
  obtain s ts where d: "demo_call = (s, ts)" by (cases demo_call)
  then have "ensureDeviceSession (\<lambda>_. False) ''r'' True (Login NewClientSessions) =
      (fst (ensureDeviceSession (\<lambda>_. False) ''r'' True (Login NewClientSessions)), s, ts)"
    by (metis demo_call_def prod.collapse)
  from cs_step.ensure [OF this, of "{#}"] have "cs_step (Login NewClientSessions, {#}) (s, mset ts)" by simp
  then have "cs_reach (s, mset ts)"
    using cs_step.login [of NewClientSessions "{#}"] by (meson converse_rtranclp_into_rtranclp rtranclp.rtrancl_refl)
  then show ?thesis using chain_steps [of s ts as] unfolding d by (rule rtranclp_trans)
qed

definition demo_lost :: "clientSessions \<times> thread list" where
  "demo_lost = chain [Session 1 10, Failed, Failed, Failed, Failed, Failed, Failed] demo_call"

definition demo_upgraded :: "clientSessions \<times> thread list" where
  "demo_upgraded = chain [Session 1 10, Failed, Failed, Session 5 12, Failed] demo_call"

lemmas demo_simps = ensureDeviceSession_def Let_def subscribeUpgrade_def Login_def NewClientSessions_def
  connect_install_def install_def cancel_def isDisconnected_def DeleteDeviceSession_def send_and_close_def
  notifyReplaced_def new_chan_def SessionByRealm_def SessionContext_def

lemma demo_lost_facts:
  "snd demo_lost = [Deleting ''r'']" "fmlookup (cs_sessions (fst demo_lost)) ''r'' = Some 0"
  "ds_upgradeSubs (cs_entries (fst demo_lost) 0) = [0]"
  by (simp_all add: demo_lost_def demo_call_def demo_simps)

lemma demo_upgraded_facts:
  "snd demo_upgraded = [Storing 5 (Some 5) ''r'' [Watching 5 ''r'']]" "fmlookup (cs_sessions (fst demo_upgraded)) ''r'' = Some 0"
  "ds_upgradeSubs (cs_entries (fst demo_upgraded) 0) = [0]"
  by (simp_all add: demo_upgraded_def demo_call_def demo_simps)



theorem subscribers_told_once_witness:
  "cs_chans (notifyReplaced 0 (Some 5) (fst demo_upgraded)) 0 = \<lparr>uc_buf = [Some 5], uc_taken = [], uc_closed = True\<rparr>"
  using subscribers_told_once [OF demo_call_reach [of "[Session 1 10, Failed, Failed, Session 5 12, Failed]", folded demo_upgraded_def]]
    demo_upgraded_facts(3) by simp

theorem upgrade_reaches_subscribers_witness:
  "\<exists>s1 s3. run (Storing 5 (Some 5) ''r'' [Watching 5 ''r'']) (Session 0 20) (fst demo_upgraded) = (s1, [Notifying 0 (Some 5) [Watching 5 ''r'']]) \<and>
     s3 = notifyReplaced 0 (Some 5) s1 \<and> SessionByRealm s1 ''r'' = Some 5 \<and> uc_closed (cs_chans s3 0)"
proof -
  have "cs_reach (fst demo_upgraded, {#Storing 5 (Some 5) ''r'' [Watching 5 ''r'']#})"
    using demo_call_reach [of "[Session 1 10, Failed, Failed, Session 5 12, Failed]", folded demo_upgraded_def]
    by (simp add: demo_upgraded_facts)
  note reach = this
  obtain s1 ts where r: "run (Storing 5 (Some 5) ''r'' [Watching 5 ''r'']) (Session 0 20) (fst demo_upgraded) = (s1, ts)"
    by (cases "run (Storing 5 (Some 5) ''r'' [Watching 5 ''r'']) (Session 0 20) (fst demo_upgraded)")
  have "ts = [Notifying 0 (Some 5) [Watching 5 ''r'']]"
    using r demo_upgraded_facts(2) by (auto simp: install_def Let_def)
  then have s: "cs_step\<^sup>*\<^sup>* (s1, mset ts + {#}) (s1, add_mset (Notifying 0 (Some 5) [Watching 5 ''r'']) {#})" by simp
  have n: "run (Notifying 0 (Some 5) [Watching 5 ''r'']) Failed s1 = (notifyReplaced 0 (Some 5) s1, [Watching 5 ''r''])" by simp
  have c: "0 \<in> set (ds_upgradeSubs (cs_entries (fst demo_upgraded) 0))" by (simp add: demo_upgraded_facts)
  from upgrade_reaches_subscribers [OF reach demo_upgraded_facts(2) r s n c] r show ?thesis by blast
qed

theorem reconnect_forgets_subscribers_witness:
  "\<exists>s2 T2. cs_reach (s2, T2) \<and> SessionByRealm s2 ''r'' = Some 2 \<and> uc_buf (cs_chans s2 0) = [] \<and> \<not> uc_closed (cs_chans s2 0)"
proof -
  define k where "k = chain [Session 2 20, Session 0 21] (DeleteDeviceSession ''r'' (fst demo_lost), [Dialing ''r''])"
  have reach: "cs_reach (fst demo_lost, add_mset (Deleting ''r'') {#})"
    using demo_call_reach [of "[Session 1 10, Failed, Failed, Failed, Failed, Failed, Failed]", folded demo_lost_def]
    by (simp add: demo_lost_facts)
  have r: "run (Deleting ''r'') Failed (fst demo_lost) = (DeleteDeviceSession ''r'' (fst demo_lost), [Dialing ''r''])" by simp
  have s: "cs_step\<^sup>*\<^sup>* (DeleteDeviceSession ''r'' (fst demo_lost), mset [Dialing ''r''] + {#}) (fst k, mset (snd k))"
    using chain_steps [of "DeleteDeviceSession ''r'' (fst demo_lost)" "[Dialing ''r'']" "[Session 2 20, Session 0 21]"]
    unfolding k_def [symmetric] by simp
  have c: "0 \<in> set (ds_upgradeSubs (cs_entries (fst demo_lost) 0))" by (simp add: demo_lost_facts)
  have "cs_step (fst demo_lost, add_mset (Deleting ''r'') {#}) (DeleteDeviceSession ''r'' (fst demo_lost), mset [Dialing ''r''] + {#})"
    by (rule cs_step.thread [OF r])
  with reach have "cs_reach (DeleteDeviceSession ''r'' (fst demo_lost), mset [Dialing ''r''] + {#})"
    by (rule rtranclp.rtrancl_into_rtrancl)
  then have "cs_reach (fst k, mset (snd k))" using s by (rule rtranclp_trans)
  moreover have "SessionByRealm (fst k) ''r'' = Some 2"
    using demo_lost_facts(2) by (simp add: k_def SessionByRealm_def DeleteDeviceSession_def install_def Let_def cancel_def)
  ultimately show ?thesis using reconnect_forgets_subscribers [OF reach demo_lost_facts(2) c r s] by blast
qed

end
