(* ===== verification/Base64.thy ===== *)
theory Base64
  imports Prelude
begin

text \<open>
  The standard base64 encoding with padding (\<open>base64.StdEncoding\<close> of Go's library), with which the
  index hands out the positions of its cursors.
\<close>

definition b64_alphabet :: string where
  "b64_alphabet = ''ABCDEFGHIJKLMNOPQRSTUVWXYZabcdefghijklmnopqrstuvwxyz0123456789+/''"

definition b64_char :: "nat \<Rightarrow> char" where
  "b64_char n = b64_alphabet ! n"

definition b64_value :: "char \<Rightarrow> nat option" where
  "b64_value c = map_of (zip b64_alphabet [0..<64]) c"

fun b64_encode :: "string \<Rightarrow> string" where
  "b64_encode [] = []"
| "b64_encode [a] = (let x = of_char a in
     [b64_char (x div 4), b64_char (x mod 4 * 16), CHR ''='', CHR ''=''])"
| "b64_encode [a, b] = (let x = of_char a; y = of_char b in
     [b64_char (x div 4), b64_char (x mod 4 * 16 + y div 16), b64_char (y mod 16 * 4), CHR ''=''])"
| "b64_encode (a # b # c # rest) = (let x = of_char a; y = of_char b; z = of_char c in
     [b64_char (x div 4), b64_char (x mod 4 * 16 + y div 16), b64_char (y mod 16 * 4 + z div 64), b64_char (z mod 64)]
       @ b64_encode rest)"

text \<open>The decoder skips line breaks and takes the padding at the end only.\<close>

definition b64_error :: go_error where
  "b64_error = Errorf ''illegal base64 data''"

fun b64_quads :: "string \<Rightarrow> string result" where
  "b64_quads [] = Inr []"
| "b64_quads (a # b # c # d # rest) = (case (b64_value a, b64_value b) of
     (Some u, Some v) \<Rightarrow>
       (if d = CHR ''='' then
          (if rest \<noteq> [] then Inl b64_error
           else if c = CHR ''='' then Inr [char_of (u * 4 + v div 16)]
           else (case b64_value c of None \<Rightarrow> Inl b64_error
             | Some w \<Rightarrow> Inr [char_of (u * 4 + v div 16), char_of (v mod 16 * 16 + w div 4)]))
        else (case (b64_value c, b64_value d) of
            (Some w, Some t) \<Rightarrow> try_result (b64_quads rest) (\<lambda>r.
               Inr (char_of (u * 4 + v div 16) # char_of (v mod 16 * 16 + w div 4) # char_of (w mod 4 * 64 + t) # r))
          | _ \<Rightarrow> Inl b64_error))
   | _ \<Rightarrow> Inl b64_error)"
| "b64_quads _ = Inl b64_error"

definition b64_decode :: "string \<Rightarrow> string result" where
  "b64_decode s = b64_quads (filter (\<lambda>c. c \<noteq> char_of (10::nat) \<and> c \<noteq> char_of (13::nat)) s)"

lemma b64_length: "length b64_alphabet = 64"
  by (simp add: b64_alphabet_def)

lemma b64_distinct: "distinct b64_alphabet"
  by (simp add: b64_alphabet_def)

lemma b64_value_char [simp]: "n < 64 \<Longrightarrow> b64_value (b64_char n) = Some n"
  unfolding b64_value_def b64_char_def
  by (rule map_of_is_SomeI) (auto simp: b64_length b64_distinct set_zip)

lemma b64_char_plain:
  assumes "n < 64"
  shows "b64_char n \<noteq> CHR ''=''" "b64_char n \<noteq> char_of (10::nat)" "b64_char n \<noteq> char_of (13::nat)"
proof -
  have "b64_char n \<in> set b64_alphabet" using assms by (simp add: b64_char_def b64_length)
  then show "b64_char n \<noteq> CHR ''=''" "b64_char n \<noteq> char_of (10::nat)" "b64_char n \<noteq> char_of (13::nat)"
    by (auto simp: b64_alphabet_def char_of_def)
qed

lemma char_of_value: "of_char c = (n::nat) \<Longrightarrow> char_of n = c"
  by auto

text \<open>The bits of a group, put together again.\<close>

lemma regroup:
  "(x::nat) div 4 * 4 + (x mod 4 * 16 + y div 16) div 16 = x" if "y < 256" for x y :: nat
  using that by (simp add: div_add1_eq [of "x mod 4 * 16" "y div 16" 16] )

lemma regroup2:
  "(x mod 4 * 16 + y div 16) mod 16 * 16 + (y mod 16 * 4 + z div 64) div 4 = y" if "y < 256" "z < 256" for x y z :: nat
proof -
  have "(x mod 4 * 16 + y div 16) mod 16 = y div 16" using that by simp
  moreover have "(y mod 16 * 4 + z div 64) div 4 = y mod 16" using that by (simp add: div_add1_eq)
  ultimately show ?thesis by simp
qed

lemma regroup3: "(y mod 16 * 4 + z div 64) mod 4 * 64 + z mod 64 = z" if "z < 256" for y z :: nat
proof -
  have "(y mod 16 * 4 + z div 64) mod 4 = z div 64" using that by simp
  then show ?thesis by simp
qed

lemma sextets:
  "(x::nat) < 256 \<Longrightarrow> x div 4 < 64" "y < 256 \<Longrightarrow> (x::nat) mod 4 * 16 + y div 16 < 64"
  "z < 256 \<Longrightarrow> (y::nat) mod 16 * 4 + z div 64 < 64" "(z::nat) mod 64 < 64"
  "(x::nat) mod 4 * 16 < 64" "(y::nat) mod 16 * 4 < 64"
  by (auto simp: less_mult_imp_div_less)

lemma quads_encode: "b64_quads (b64_encode s) = Inr s"
proof (induction s rule: b64_encode.induct)
  case (2 a)
  show ?case using regroup [of 0 "of_char a"] by (simp add: Let_def sextets)
next
  case (3 a b)
  show ?case using regroup [of "of_char b" "of_char a"] regroup2 [of "of_char b" 0 "of_char a"]
    by (simp add: Let_def sextets b64_char_plain)
next
  case (4 a b c rest)
  then show ?case
    using regroup [of "of_char b" "of_char a"] regroup2 [of "of_char b" "of_char c" "of_char a"]
      regroup3 [of "of_char c" "of_char b"]
    by (simp add: Let_def sextets b64_char_plain)
qed simp

lemma encode_plain: "filter (\<lambda>c. c \<noteq> char_of (10::nat) \<and> c \<noteq> char_of (13::nat)) (b64_encode s) = b64_encode s"
  by (induction s rule: b64_encode.induct) (simp_all add: Let_def sextets b64_char_plain, simp_all add: char_of_def)

lemma b64_roundtrip [simp]: "b64_decode (b64_encode s) = Inr s"
  by (simp only: b64_decode_def encode_plain quads_encode)

lemma b64_encode_empty [simp]: "b64_encode s = [] \<longleftrightarrow> s = []"
  by (cases s rule: b64_encode.cases) (simp_all add: Let_def)

end
