(* ===== verification/IndexDB.thy ===== *)
theory IndexDB
  imports FileSystem Base64 "HOL-Library.AList" "HOL-Library.Multiset"
begin

text \<open>
  The tables of the file index (\<open>src/indexdb.go\<close>): one bucket of entries per category, an order
  bucket beside it whose keys sort the newest file first, and the thumbnails. The store itself,
  bbolt, is not part of the repository: what its buckets answer is the record \<open>bolt\<close>, and
  \<open>bolt_ok\<close> is what its documentation promises.
\<close>

section \<open>The store\<close>

text \<open>
  The content of a bucket in the order in which \<open>ForEach\<close> and a cursor go through it (\<open>None\<close>: there is
  no such bucket), writing and deleting a key, creating a bucket, and whether a transaction
  commits.
\<close>

record 'tx bolt =
  bb_pairs :: "'tx \<Rightarrow> bytes \<Rightarrow> (bytes \<times> bytes) list option"
  bb_put :: "bytes \<Rightarrow> bytes \<Rightarrow> bytes \<Rightarrow> 'tx \<Rightarrow> 'tx result"
  bb_delete :: "bytes \<Rightarrow> bytes \<Rightarrow> 'tx \<Rightarrow> 'tx result"
  bb_create :: "bytes \<Rightarrow> 'tx \<Rightarrow> 'tx result"
  bb_commit :: "'tx \<Rightarrow> go_error option"

text \<open>\<open>Bucket.Get\<close> and \<open>DB.Update\<close>: an error, of the function or of the commit, rolls back.\<close>

definition bucket_get :: "'tx bolt \<Rightarrow> 'tx \<Rightarrow> bytes \<Rightarrow> bytes \<Rightarrow> bytes option" where
  "bucket_get B tx b k = (case bb_pairs B tx b of None \<Rightarrow> None | Some ps \<Rightarrow> map_of ps k)"

definition db_update :: "'tx bolt \<Rightarrow> ('tx \<Rightarrow> 'tx result) \<Rightarrow> 'tx \<Rightarrow> 'tx \<times> go_error option" where
  "db_update B f db = (case f db of
     Inl e \<Rightarrow> (db, Some e)
   | Inr tx \<Rightarrow> (case bb_commit B tx of Some e \<Rightarrow> (db, Some e) | None \<Rightarrow> (tx, None)))"

text \<open>A call whose error is ignored.\<close>

definition attempt :: "('tx \<Rightarrow> 'tx result) \<Rightarrow> 'tx \<Rightarrow> 'tx" where
  "attempt f tx = (case f tx of Inl _ \<Rightarrow> tx | Inr tx' \<Rightarrow> tx')"

section \<open>UTF-8\<close>

text \<open>\<open>utf8.Valid\<close>: the bytes are whole UTF-8 sequences, the shortest for their code points.\<close>

definition utf8_in :: "nat \<Rightarrow> nat \<Rightarrow> char \<Rightarrow> bool" where
  "utf8_in lo hi c \<longleftrightarrow> lo \<le> of_char c \<and> of_char c \<le> hi"

fun utf8_tail :: "nat \<Rightarrow> bytes \<Rightarrow> bytes option" where
  "utf8_tail 0 bs = Some bs"
| "utf8_tail (Suc n) [] = None"
| "utf8_tail (Suc n) (b # bs) = (if utf8_in 128 191 b then utf8_tail n bs else None)"

text \<open>The bounds of the second byte of a sequence and how many follow it.\<close>

definition utf8_lead :: "char \<Rightarrow> (nat \<times> nat \<times> nat) option" where
  "utf8_lead c =
     (if utf8_in 194 223 c then Some (128, 191, 0)
      else if utf8_in 224 224 c then Some (160, 191, 1)
      else if utf8_in 237 237 c then Some (128, 159, 1)
      else if utf8_in 225 239 c then Some (128, 191, 1)
      else if utf8_in 240 240 c then Some (144, 191, 2)
      else if utf8_in 241 243 c then Some (128, 191, 2)
      else if utf8_in 244 244 c then Some (128, 143, 2)
      else None)"

lemma utf8_tail_length: "utf8_tail n bs = Some cs \<Longrightarrow> length cs \<le> length bs"
  by (induction n bs rule: utf8_tail.induct) (auto split: if_splits)

function valid_utf8 :: "bytes \<Rightarrow> bool" where
  "valid_utf8 [] = True"
| "valid_utf8 (b # bs) = (if utf8_in 0 127 b then valid_utf8 bs
     else case (utf8_lead b, bs) of
       (Some (lo, hi, n), c # cs) \<Rightarrow> utf8_in lo hi c \<and> (case utf8_tail n cs of None \<Rightarrow> False | Some ds \<Rightarrow> valid_utf8 ds)
     | _ \<Rightarrow> False)"
  by pat_completeness auto

termination valid_utf8
  by (relation "measure length") (auto dest!: utf8_tail_length)

section \<open>Entries and keys\<close>

text \<open>\<open>IndexEntry\<close>; the modification time in nanoseconds since 1970.\<close>

record IndexEntry =
  ie_Path :: string
  ie_Name :: string
  ie_Category :: string
  ie_Size :: int
  ie_ModTime :: int
  ie_Thumbnail :: string

text \<open>What \<open>encoding/json\<close> gives for an entry.\<close>

record entry_codec =
  enc_entry :: "IndexEntry \<Rightarrow> bytes result"
  dec_entry :: "bytes \<Rightarrow> IndexEntry result"

definition buckets :: "bytes list" where
  "buckets = [''images'', ''videos'', ''pdfs'', ''texts'', ''documents'']"

definition bucketForCategory :: "string \<Rightarrow> bytes option" where
  "bucketForCategory cat = (if cat \<in> set buckets then Some cat else None)"

definition orderBucketName :: "bytes \<Rightarrow> bytes" where
  "orderBucketName category = category @ ''_order''"

abbreviation bucketThumbnails :: bytes where
  "bucketThumbnails \<equiv> ''thumbnails''"

abbreviation bucketMeta :: bytes where
  "bucketMeta \<equiv> ''meta''"

definition allBuckets :: "bytes list" where
  "allBuckets = buckets @ [bucketThumbnails, bucketMeta] @ map orderBucketName buckets"

text \<open>\<open>binary.BigEndian.PutUint64\<close> for a number that fits.\<close>

fun big_endian :: "nat \<Rightarrow> nat \<Rightarrow> bytes" where
  "big_endian 0 n = []"
| "big_endian (Suc k) n = big_endian k (n div 256) @ [char_of (n mod 256)]"

definition mtimeKey :: "int \<Rightarrow> bytes" where
  "mtimeKey modTime =
     (let inverted = wrap64 ((2 ^ 63 - 1) - wrap64 modTime)
      in big_endian 8 (nat (if inverted < 0 then 0 else inverted)))"

definition orderKey :: "IndexEntry \<Rightarrow> bytes" where
  "orderKey entry = mtimeKey (ie_ModTime entry) @ ie_Path entry"

section \<open>Operations\<close>

definition readEntry :: "'tx bolt \<Rightarrow> entry_codec \<Rightarrow> 'tx \<Rightarrow> bytes \<Rightarrow> string \<Rightarrow> IndexEntry option" where
  "readEntry B cd tx bucket path = (case bucket_get B tx bucket path of
     None \<Rightarrow> None
   | Some v \<Rightarrow> (case dec_entry cd v of Inl _ \<Rightarrow> None | Inr e \<Rightarrow> Some e))"

definition updateEntry :: "'tx bolt \<Rightarrow> entry_codec \<Rightarrow> bytes \<Rightarrow> IndexEntry \<Rightarrow> 'tx \<Rightarrow> 'tx result" where
  "updateEntry B cd bucket entry tx =
     try_result (enc_entry cd entry) (\<lambda>data. bb_put B bucket (ie_Path entry) data tx)"

definition put_entry :: "'tx bolt \<Rightarrow> entry_codec \<Rightarrow> bytes \<Rightarrow> IndexEntry \<Rightarrow> 'tx \<Rightarrow> 'tx result" where
  "put_entry B cd bucket entry tx =
     try_result (case readEntry B cd tx bucket (ie_Path entry) of
         None \<Rightarrow> Inr tx
       | Some old \<Rightarrow> bb_delete B (orderBucketName bucket) (orderKey old) tx)
       (\<lambda>tx1. try_result (bb_put B (orderBucketName bucket) (orderKey entry) (ie_Path entry) tx1)
         (updateEntry B cd bucket entry))"

definition addEntry :: "'tx bolt \<Rightarrow> entry_codec \<Rightarrow> IndexEntry \<Rightarrow> 'tx \<Rightarrow> 'tx \<times> go_error option" where
  "addEntry B cd entry db = (case bucketForCategory (ie_Category entry) of
     None \<Rightarrow> (db, None)
   | Some bucket \<Rightarrow> db_update B (put_entry B cd bucket (entry\<lparr>ie_Thumbnail := ''''\<rparr>)) db)"

definition addThumbnail :: "'tx bolt \<Rightarrow> string \<Rightarrow> string \<Rightarrow> 'tx \<Rightarrow> 'tx \<times> go_error option" where
  "addThumbnail B path thumb db = db_update B (bb_put B bucketThumbnails path thumb) db"

definition delete_from :: "'tx bolt \<Rightarrow> entry_codec \<Rightarrow> string \<Rightarrow> bytes \<Rightarrow> 'tx \<Rightarrow> 'tx" where
  "delete_from B cd path bname tx =
     attempt (bb_delete B bname path)
       (case readEntry B cd tx bname path of
          None \<Rightarrow> tx
        | Some old \<Rightarrow> attempt (bb_delete B (orderBucketName bname) (orderKey old)) tx)"

definition deleteEntry :: "'tx bolt \<Rightarrow> entry_codec \<Rightarrow> string \<Rightarrow> 'tx \<Rightarrow> 'tx" where
  "deleteEntry B cd path tx =
     attempt (bb_delete B bucketThumbnails path) (fold (delete_from B cd path) buckets tx)"

definition removeEntry :: "'tx bolt \<Rightarrow> entry_codec \<Rightarrow> string \<Rightarrow> 'tx \<Rightarrow> 'tx" where
  "removeEntry B cd path db = fst (db_update B (\<lambda>tx. Inr (deleteEntry B cd path tx)) db)"

text \<open>Equal up to the second: \<open>Unix()\<close> rounds down.\<close>

definition isEntryUpToDate :: "'tx bolt \<Rightarrow> entry_codec \<Rightarrow> 'tx \<Rightarrow> string \<Rightarrow> int \<Rightarrow> string \<Rightarrow> bool" where
  "isEntryUpToDate B cd db path modTime category = (case bucketForCategory category of
     None \<Rightarrow> False
   | Some bucket \<Rightarrow> (case readEntry B cd db bucket path of
       None \<Rightarrow> False
     | Some e \<Rightarrow> ie_ModTime e div 10 ^ 9 = modTime div 10 ^ 9))"

definition gone :: "fs \<Rightarrow> string \<Rightarrow> bool" where
  "gone m p = (case os_Lstat m p of Inl e \<Rightarrow> os_IsNotExist e | Inr _ \<Rightarrow> False)"

definition bucket_keys :: "'tx bolt \<Rightarrow> 'tx \<Rightarrow> bytes \<Rightarrow> bytes list" where
  "bucket_keys B tx b = (case bb_pairs B tx b of None \<Rightarrow> [] | Some ps \<Rightarrow> map fst ps)"

definition collectStaleKeys :: "'tx bolt \<Rightarrow> fs \<Rightarrow> 'tx \<Rightarrow> bytes list" where
  "collectStaleKeys B m tx = filter (gone m) (concat (map (bucket_keys B tx) buckets))"

definition deleteKeys :: "'tx bolt \<Rightarrow> entry_codec \<Rightarrow> bytes list \<Rightarrow> 'tx \<Rightarrow> 'tx" where
  "deleteKeys B cd keys tx = fold (deleteEntry B cd) keys tx"

definition removeStaleEntries :: "'tx bolt \<Rightarrow> entry_codec \<Rightarrow> fs \<Rightarrow> 'tx \<Rightarrow> 'tx" where
  "removeStaleEntries B cd m db =
     (let stale = collectStaleKeys B m db
      in if stale = [] then db else fst (db_update B (\<lambda>tx. Inr (deleteKeys B cd stale tx)) db))"

section \<open>Opening\<close>

definition initBuckets :: "'tx bolt \<Rightarrow> 'tx \<Rightarrow> 'tx result" where
  "initBuckets B tx = foldl (\<lambda>r name. try_result r (bb_create B name)) (Inr tx) allBuckets"

definition index_pair :: "'tx bolt \<Rightarrow> entry_codec \<Rightarrow> bytes \<Rightarrow> bytes \<Rightarrow> 'tx \<Rightarrow> 'tx result" where
  "index_pair B cd bname v tx = (case dec_entry cd v of
     Inl _ \<Rightarrow> Inr tx
   | Inr e \<Rightarrow> bb_put B (orderBucketName bname) (orderKey e) (ie_Path e) tx)"

definition index_bucket :: "'tx bolt \<Rightarrow> entry_codec \<Rightarrow> bytes \<Rightarrow> 'tx \<Rightarrow> 'tx result" where
  "index_bucket B cd bname tx =
     (if bucket_keys B tx (orderBucketName bname) \<noteq> [] then Inr tx
      else foldl (\<lambda>r v. try_result r (index_pair B cd bname v)) (Inr tx)
        (case bb_pairs B tx bname of None \<Rightarrow> [] | Some ps \<Rightarrow> map snd ps))"

definition ensureOrderIndexes :: "'tx bolt \<Rightarrow> entry_codec \<Rightarrow> 'tx \<Rightarrow> 'tx \<times> go_error option" where
  "ensureOrderIndexes B cd db =
     db_update B (\<lambda>tx. foldl (\<lambda>r bname. try_result r (index_bucket B cd bname)) (Inr tx) buckets) db"

definition newIndexDB :: "'tx bolt \<Rightarrow> entry_codec \<Rightarrow> 'tx result \<Rightarrow> 'tx result" where
  "newIndexDB B cd opened = try_result opened (\<lambda>db. case db_update B (initBuckets B) db of
     (_, Some e) \<Rightarrow> Inl e
   | (db1, None) \<Rightarrow> (case ensureOrderIndexes B cd db1 of
       (_, Some e) \<Rightarrow> Inl e
     | (db2, None) \<Rightarrow> Inr db2))"

definition isIndexingComplete :: "'tx bolt \<Rightarrow> 'tx \<Rightarrow> bool" where
  "isIndexingComplete B db = (bucket_get B db bucketMeta ''status'' = Some ''ready'')"

definition markIndexingComplete :: "'tx bolt \<Rightarrow> 'tx \<Rightarrow> 'tx \<times> go_error option" where
  "markIndexingComplete B db = db_update B (bb_put B bucketMeta ''status'' ''ready'') db"

section \<open>Queries\<close>

text \<open>
  \<open>orderCursor\<close>: the pair the cursor of a category stands at, and the pairs it has still to visit.
\<close>

record orderCursor =
  oc_key :: bytes
  oc_val :: bytes
  oc_rest :: "(bytes \<times> bytes) list"

type_synonym cursors = "(bytes \<times> orderCursor) list"

fun cursor_at :: "(bytes \<times> bytes) list \<Rightarrow> orderCursor option" where
  "cursor_at [] = None"
| "cursor_at ((k, v) # ps) = Some \<lparr>oc_key = k, oc_val = v, oc_rest = ps\<rparr>"

text \<open>
  One cursor is opened per category, at the key the caller's cursor names or at the first pair,
  and kept if there is a pair.
\<close>

definition open_cursor :: "'tx bolt \<Rightarrow> 'tx \<Rightarrow> (string \<rightharpoonup> string) \<Rightarrow> bytes \<Rightarrow> orderCursor option result" where
  "open_cursor B tx cursor bname = (case bb_pairs B tx (orderBucketName bname) of
     None \<Rightarrow> Inr None
   | Some ps \<Rightarrow> (case cursor bname of
       None \<Rightarrow> Inr (cursor_at ps)
     | Some pos \<Rightarrow> (if pos = [] then Inr (cursor_at ps)
         else try_result (b64_decode pos) (\<lambda>lastKey. Inr (cursor_at (dropWhile (\<lambda>(k, _). k < lastKey) ps))))))"

fun open_cursors :: "'tx bolt \<Rightarrow> 'tx \<Rightarrow> (string \<rightharpoonup> string) \<Rightarrow> bytes list \<Rightarrow> cursors \<Rightarrow> cursors result" where
  "open_cursors B tx cursor [] cs = Inr cs"
| "open_cursors B tx cursor (b # bs) cs =
     try_result (open_cursor B tx cursor b) (\<lambda>oc.
       open_cursors B tx cursor bs (case oc of None \<Rightarrow> cs | Some c \<Rightarrow> AList.update b c cs))"

text \<open>
  The category whose key is the least. Go visits the map of cursors in no fixed order, which
  matters only between equal keys; here the first of them is taken.
\<close>

fun best_of :: "cursors \<Rightarrow> (bytes \<times> orderCursor) option" where
  "best_of [] = None"
| "best_of (c # cs) = (case best_of cs of
     None \<Rightarrow> Some c
   | Some d \<Rightarrow> if oc_key (snd d) < oc_key (snd c) then Some d else Some c)"

fun advance :: "bytes \<Rightarrow> cursors \<Rightarrow> cursors" where
  "advance cat [] = []"
| "advance cat ((c, oc) # cs) =
     (if c = cat then (case cursor_at (oc_rest oc) of None \<Rightarrow> cs | Some oc' \<Rightarrow> (c, oc') # cs)
      else (c, oc) # advance cat cs)"

definition left_over :: "cursors \<Rightarrow> nat" where
  "left_over cs = sum_list (map (\<lambda>(_, oc). Suc (length (oc_rest oc))) cs)"

lemma best_of_mem: "best_of cs = Some c \<Longrightarrow> c \<in> set cs"
  by (induction cs arbitrary: c) (auto split: option.splits if_splits)

lemma advance_less: "cat \<in> fst ` set cs \<Longrightarrow> left_over (advance cat cs) < left_over cs"
proof (induction cs)
  case (Cons c cs)
  obtain n oc where c: "c = (n, oc)" by (cases c)
  with Cons show ?case by (cases "oc_rest oc" rule: cursor_at.cases) (auto simp: left_over_def)
qed simp

text \<open>The loop: at most \<open>limit\<close> entries, and each round visits one pair.\<close>

function query_loop ::
  "(bytes \<Rightarrow> bytes \<Rightarrow> IndexEntry option) \<Rightarrow> nat \<Rightarrow> cursors \<Rightarrow> IndexEntry list \<times> cursors" where
  "query_loop read limit cs = (if limit = 0 then ([], cs)
     else (case best_of cs of
       None \<Rightarrow> ([], cs)
     | Some (cat, oc) \<Rightarrow> (case read cat (oc_val oc) of
         None \<Rightarrow> query_loop read limit (advance cat cs)
       | Some e \<Rightarrow> (case query_loop read (limit - 1) (advance cat cs) of (es, cs') \<Rightarrow> (e # es, cs')))))"
  by pat_completeness auto

termination query_loop
proof (relation "measure (\<lambda>(_, _, cs). left_over cs)")
  fix read :: "bytes \<Rightarrow> bytes \<Rightarrow> IndexEntry option" and limit :: nat and cs x cat oc
  assume "best_of cs = Some x" "(cat, oc) = x"
  then have "cat \<in> fst ` set cs" by (metis best_of_mem fst_conv imageI)
  from advance_less [OF this]
  show "((read, limit, advance cat cs), read, limit, cs) \<in> measure (\<lambda>(_, _, cs). left_over cs)"
    "((read, limit - 1, advance cat cs), read, limit, cs) \<in> measure (\<lambda>(_, _, cs). left_over cs)" by simp_all
qed simp

declare query_loop.simps [simp del]

text \<open>An entry as a query shows it, with its thumbnail.\<close>

definition with_thumbnail :: "'tx bolt \<Rightarrow> 'tx \<Rightarrow> bytes \<Rightarrow> IndexEntry \<Rightarrow> IndexEntry" where
  "with_thumbnail B tx path e = (case bucket_get B tx bucketThumbnails path of
     Some thumb \<Rightarrow> if thumb \<noteq> [] then e\<lparr>ie_Thumbnail := thumb\<rparr> else e
   | None \<Rightarrow> e)"

definition shown_entry :: "'tx bolt \<Rightarrow> entry_codec \<Rightarrow> 'tx \<Rightarrow> bytes \<Rightarrow> bytes \<Rightarrow> IndexEntry option" where
  "shown_entry B cd tx cat path = map_option (with_thumbnail B tx path) (readEntry B cd tx cat path)"

definition queryEntries ::
  "'tx bolt \<Rightarrow> entry_codec \<Rightarrow> 'tx \<Rightarrow> bytes list \<Rightarrow> (string \<rightharpoonup> string) \<Rightarrow> nat
     \<Rightarrow> (IndexEntry list \<times> (string \<times> string) list \<times> bool) result" where
  "queryEntries B cd tx targetBuckets cursor limit =
     try_result (open_cursors B tx cursor targetBuckets []) (\<lambda>cs.
       case query_loop (shown_entry B cd tx) limit cs of (entries, rest) \<Rightarrow>
         Inr (entries, map (\<lambda>(cat, oc). (cat, b64_encode (oc_key oc))) rest, rest \<noteq> []))"

section \<open>The query of the service\<close>

datatype index_status = Indexing | Ready

record IndexQueryResult =
  iq_Status :: index_status
  iq_Entries :: "IndexEntry list"
  iq_NextCursor :: "(string \<times> string) list"
  iq_HasMore :: bool

abbreviation defaultIndexLimit :: int where
  "defaultIndexLimit \<equiv> 100"

abbreviation maxIndexLimit :: int where
  "maxIndexLimit \<equiv> 500"

definition effective_limit :: "int \<Rightarrow> nat" where
  "effective_limit limit = nat (if limit \<le> 0 \<or> limit > maxIndexLimit then defaultIndexLimit else limit)"

definition target_buckets :: "string list \<Rightarrow> bytes list" where
  "target_buckets categories =
     (let ts = List.map_filter bucketForCategory categories in if ts = [] then buckets else ts)"

definition Query :: "'tx bolt \<Rightarrow> entry_codec \<Rightarrow> bool \<Rightarrow> 'tx \<Rightarrow> string list \<Rightarrow> (string \<rightharpoonup> string) \<Rightarrow> int
    \<Rightarrow> IndexQueryResult result" where
  "Query B cd ready tx categories cursor limit =
     (if \<not> ready then Inr \<lparr>iq_Status = Indexing, iq_Entries = [], iq_NextCursor = [], iq_HasMore = False\<rparr>
      else try_result (queryEntries B cd tx (target_buckets categories) cursor (effective_limit limit))
        (\<lambda>(entries, nextCursor, hasMore).
          Inr \<lparr>iq_Status = Ready, iq_Entries = entries,
               iq_NextCursor = (if hasMore then nextCursor else []), iq_HasMore = hasMore\<rparr>))"

end
