(* ===== verification/Index.thy ===== *)
theory Index
  imports IndexDB
begin

text \<open>
  The file index is consistent: the order bucket of a category lists exactly its entries, whatever
  is added, removed or pruned, and so a query gives the newest entries first.
\<close>

section \<open>What the libraries promise\<close>

text \<open>
  A bucket lists its keys in byte order, each once; a successful write changes one key of one
  bucket; deleting a key of an existing bucket succeeds; creating a bucket adds an empty one or
  leaves the existing one.
\<close>

definition bolt_ok :: "'tx bolt \<Rightarrow> bool" where
  "bolt_ok B \<longleftrightarrow>
     (\<forall>tx b ps. bb_pairs B tx b = Some ps \<longrightarrow> sorted_wrt (<) (map fst ps)) \<and>
     (\<forall>b k v tx tx'. bb_put B b k v tx = Inr tx' \<longrightarrow> bb_pairs B tx b \<noteq> None \<and> bb_pairs B tx' b \<noteq> None \<and>
        bucket_get B tx' b = (bucket_get B tx b)(k \<mapsto> v) \<and> (\<forall>c. c \<noteq> b \<longrightarrow> bb_pairs B tx' c = bb_pairs B tx c)) \<and>
     (\<forall>b k tx. bb_pairs B tx b \<noteq> None \<longrightarrow> (\<exists>tx'. bb_delete B b k tx = Inr tx' \<and> bb_pairs B tx' b \<noteq> None \<and>
        bucket_get B tx' b = (bucket_get B tx b)(k := None) \<and> (\<forall>c. c \<noteq> b \<longrightarrow> bb_pairs B tx' c = bb_pairs B tx c))) \<and>
     (\<forall>b tx tx'. bb_create B b tx = Inr tx' \<longrightarrow>
        bb_pairs B tx' b = Some (case bb_pairs B tx b of None \<Rightarrow> [] | Some ps \<Rightarrow> ps) \<and>
        (\<forall>c. c \<noteq> b \<longrightarrow> bb_pairs B tx' c = bb_pairs B tx c))"

lemma bolt_sorted: "bolt_ok B \<Longrightarrow> bb_pairs B tx b = Some ps \<Longrightarrow> sorted_wrt (<) (map fst ps)"
  by (simp add: bolt_ok_def)

lemma bolt_put:
  assumes "bolt_ok B" "bb_put B b k v tx = Inr tx'"
  shows "bucket_get B tx' b = (bucket_get B tx b)(k \<mapsto> v)" "c \<noteq> b \<Longrightarrow> bucket_get B tx' c = bucket_get B tx c"
    "bb_pairs B tx' c = None \<longleftrightarrow> bb_pairs B tx c = None"
proof -
  have "bb_pairs B tx b \<noteq> None \<and> bb_pairs B tx' b \<noteq> None \<and> bucket_get B tx' b = (bucket_get B tx b)(k \<mapsto> v) \<and>
    (\<forall>c. c \<noteq> b \<longrightarrow> bb_pairs B tx' c = bb_pairs B tx c)"
    using assms(1) [unfolded bolt_ok_def, THEN conjunct2, THEN conjunct1] assms(2) by simp
  then have p: "bb_pairs B tx b \<noteq> None" "bb_pairs B tx' b \<noteq> None" "bucket_get B tx' b = (bucket_get B tx b)(k \<mapsto> v)"
    "\<And>c. c \<noteq> b \<Longrightarrow> bb_pairs B tx' c = bb_pairs B tx c"
    by simp_all
  from p(3) show "bucket_get B tx' b = (bucket_get B tx b)(k \<mapsto> v)" .
  show "bucket_get B tx' c = bucket_get B tx c" if "c \<noteq> b" using p(4) [OF that] by (simp add: bucket_get_def fun_eq_iff)
  from p show "bb_pairs B tx' c = None \<longleftrightarrow> bb_pairs B tx c = None" by (cases "c = b") auto
qed

lemma bolt_delete:
  assumes "bolt_ok B" "bb_pairs B tx b \<noteq> None"
  shows "\<exists>tx'. bb_delete B b k tx = Inr tx' \<and> bucket_get B tx' b = (bucket_get B tx b)(k := None) \<and>
    (\<forall>c. c \<noteq> b \<longrightarrow> bucket_get B tx' c = bucket_get B tx c) \<and> (\<forall>c. bb_pairs B tx' c = None \<longleftrightarrow> bb_pairs B tx c = None)"
proof -
  obtain tx' where p: "bb_delete B b k tx = Inr tx'" "bb_pairs B tx' b \<noteq> None"
    "bucket_get B tx' b = (bucket_get B tx b)(k := None)" "\<forall>c. c \<noteq> b \<longrightarrow> bb_pairs B tx' c = bb_pairs B tx c"
    using assms(1) [unfolded bolt_ok_def, THEN conjunct2, THEN conjunct2, THEN conjunct1] assms(2) by blast
  have "bucket_get B tx' c = bucket_get B tx c" if "c \<noteq> b" for c using p(4) that by (simp add: bucket_get_def fun_eq_iff)
  moreover have "bb_pairs B tx' c = None \<longleftrightarrow> bb_pairs B tx c = None" for c using p(2,4) assms(2) by (cases "c = b") auto
  ultimately show ?thesis using p(1,3) by blast
qed

text \<open>
  JSON brings an entry back whose texts are UTF-8. It does not bring back any other: \<open>encoding/json\<close>
  replaces what is not UTF-8 by U+FFFD, and the names of files are arbitrary bytes.
\<close>

definition entry_utf8 :: "IndexEntry \<Rightarrow> bool" where
  "entry_utf8 e \<longleftrightarrow> valid_utf8 (ie_Path e) \<and> valid_utf8 (ie_Name e) \<and> valid_utf8 (ie_Category e)"

definition codec_ok :: "entry_codec \<Rightarrow> bool" where
  "codec_ok cd \<longleftrightarrow>
     (\<forall>e b. entry_utf8 e \<longrightarrow> valid_utf8 (ie_Thumbnail e) \<longrightarrow> enc_entry cd e = Inr b \<longrightarrow> dec_entry cd b = Inr e)"

section \<open>Names and keys\<close>

lemma bucket_names:
  "cat \<in> set buckets \<Longrightarrow> cat' \<in> set buckets \<Longrightarrow> orderBucketName cat \<noteq> cat'"
  "cat \<in> set buckets \<Longrightarrow> orderBucketName cat \<noteq> bucketThumbnails" "cat \<in> set buckets \<Longrightarrow> cat \<noteq> bucketThumbnails"
  "cat \<in> set buckets \<Longrightarrow> orderBucketName cat \<noteq> bucketMeta" "cat \<in> set buckets \<Longrightarrow> cat \<noteq> bucketMeta"
  "orderBucketName cat = orderBucketName cat' \<longleftrightarrow> cat = cat'"
  by (auto simp: buckets_def orderBucketName_def)

lemma big_endian_length [simp]: "length (big_endian k n) = k"
  by (induction k arbitrary: n) auto

lemma mtimeKey_length [simp]: "length (mtimeKey t) = 8"
  by (simp add: mtimeKey_def Let_def)

lemma orderKey_path: "orderKey e = orderKey e' \<Longrightarrow> ie_Path e = ie_Path e'"
  unfolding orderKey_def by (metis append_eq_append_conv mtimeKey_length)

section \<open>Consistency\<close>

definition category_ok :: "'tx bolt \<Rightarrow> entry_codec \<Rightarrow> 'tx \<Rightarrow> bytes \<Rightarrow> bool" where
  "category_ok B cd tx cat \<longleftrightarrow>
     (\<forall>p v. bucket_get B tx cat p = Some v \<longrightarrow> (\<exists>e. dec_entry cd v = Inr e \<and> ie_Path e = p)) \<and>
     (\<forall>k p. bucket_get B tx (orderBucketName cat) k = Some p \<longleftrightarrow>
        (\<exists>v e. bucket_get B tx cat p = Some v \<and> dec_entry cd v = Inr e \<and> k = orderKey e))"

definition index_ok :: "'tx bolt \<Rightarrow> entry_codec \<Rightarrow> 'tx \<Rightarrow> bool" where
  "index_ok B cd tx \<longleftrightarrow> (\<forall>b \<in> set allBuckets. bb_pairs B tx b \<noteq> None) \<and> (\<forall>cat \<in> set buckets. category_ok B cd tx cat)"

lemma category_ok_frame:
  "category_ok B cd tx cat \<Longrightarrow> bucket_get B tx' cat = bucket_get B tx cat \<Longrightarrow>
   bucket_get B tx' (orderBucketName cat) = bucket_get B tx (orderBucketName cat) \<Longrightarrow> category_ok B cd tx' cat"
  by (simp add: category_ok_def)

lemma category_ok_readEntry:
  "category_ok B cd tx cat \<Longrightarrow> readEntry B cd tx cat p = Some e \<longleftrightarrow> (\<exists>v. bucket_get B tx cat p = Some v \<and> dec_entry cd v = Inr e)"
  "category_ok B cd tx cat \<Longrightarrow> readEntry B cd tx cat p = None \<longleftrightarrow> bucket_get B tx cat p = None"
  unfolding category_ok_def readEntry_def by (fastforce split: option.splits sum.splits)+


text \<open>An entry is replaced by, or added with, its new data.\<close>

lemma category_ok_put:
  assumes ok: "category_ok B cd tx cat" and dec: "dec_entry cd data = Inr e"
    and get: "bucket_get B tx' cat = (bucket_get B tx cat)(ie_Path e \<mapsto> data)"
    and order: "bucket_get B tx' (orderBucketName cat) =
      (case readEntry B cd tx cat (ie_Path e) of None \<Rightarrow> bucket_get B tx (orderBucketName cat)
       | Some old \<Rightarrow> (bucket_get B tx (orderBucketName cat))(orderKey old := None))(orderKey e \<mapsto> ie_Path e)"
  shows "category_ok B cd tx' cat"
proof -
  note ok' = ok [unfolded category_ok_def]
  have "\<exists>e. dec_entry cd v = Inr e \<and> ie_Path e = p" if "bucket_get B tx' cat p = Some v" for p v
    using that ok' dec by (auto simp: get split: if_splits)
  moreover have "bucket_get B tx' (orderBucketName cat) k = Some p \<longleftrightarrow>
      (\<exists>v e. bucket_get B tx' cat p = Some v \<and> dec_entry cd v = Inr e \<and> k = orderKey e)" for k p
  proof (cases "p = ie_Path e")
    case True
    have "bucket_get B tx' (orderBucketName cat) k \<noteq> Some p" if k: "k \<noteq> orderKey e"
    proof (cases "readEntry B cd tx cat (ie_Path e)")
      case None
      then have "bucket_get B tx cat p = None" using category_ok_readEntry(2) [OF ok] True by simp
      with None ok' k show ?thesis by (simp add: order)
    next
      case (Some old)
      then obtain v where "bucket_get B tx cat (ie_Path e) = Some v" "dec_entry cd v = Inr old"
        using category_ok_readEntry(1) [OF ok] by blast
      with Some ok' show ?thesis by (auto simp: order k True)
    qed
    with True dec show ?thesis by (auto simp: get order)
  next
    case False
    have "bucket_get B tx' (orderBucketName cat) k = Some p \<longleftrightarrow> bucket_get B tx (orderBucketName cat) k = Some p"
    proof -
      have a: "bucket_get B tx (orderBucketName cat) (orderKey e) \<noteq> Some p"
      proof
        assume "bucket_get B tx (orderBucketName cat) (orderKey e) = Some p"
        then obtain v e' where "bucket_get B tx cat p = Some v" "dec_entry cd v = Inr e'" "orderKey e = orderKey e'"
          using ok' by blast
        with ok' have "ie_Path e' = p" by fastforce
        with orderKey_path [OF \<open>orderKey e = orderKey e'\<close>] False show False by simp
      qed
      have b: "bucket_get B tx (orderBucketName cat) (orderKey old) \<noteq> Some p"
        if "readEntry B cd tx cat (ie_Path e) = Some old" for old
      proof -
        from that obtain v where "bucket_get B tx cat (ie_Path e) = Some v" "dec_entry cd v = Inr old"
          using category_ok_readEntry(1) [OF ok] by blast
        then have "bucket_get B tx (orderBucketName cat) (orderKey old) = Some (ie_Path e)" using ok' by blast
        with False show ?thesis by simp
      qed
      show ?thesis using False a b by (cases "readEntry B cd tx cat (ie_Path e)") (auto simp: order)
    qed
    with False ok' show ?thesis by (simp add: get)
  qed
  ultimately show ?thesis unfolding category_ok_def by blast
qed

lemma category_ok_remove:
  assumes ok: "category_ok B cd tx cat"
    and get: "bucket_get B tx' cat = (bucket_get B tx cat)(p := None)"
    and order: "bucket_get B tx' (orderBucketName cat) =
      (case readEntry B cd tx cat p of None \<Rightarrow> bucket_get B tx (orderBucketName cat)
       | Some old \<Rightarrow> (bucket_get B tx (orderBucketName cat))(orderKey old := None))"
  shows "category_ok B cd tx' cat"
proof -
  note ok' = ok [unfolded category_ok_def]
  have "\<exists>e. dec_entry cd v = Inr e \<and> ie_Path e = q" if "bucket_get B tx' cat q = Some v" for q v
    using that ok' by (auto simp: get split: if_splits)
  moreover have "bucket_get B tx' (orderBucketName cat) k = Some q \<longleftrightarrow>
      (\<exists>v e. bucket_get B tx' cat q = Some v \<and> dec_entry cd v = Inr e \<and> k = orderKey e)" for k q
  proof (cases "readEntry B cd tx cat p")
    case None
    then have "bucket_get B tx cat p = None" using category_ok_readEntry(2) [OF ok] by simp
    with None ok' show ?thesis by (auto simp: get order)
  next
    case (Some old)
    then obtain v where v: "bucket_get B tx cat p = Some v" "dec_entry cd v = Inr old"
      using category_ok_readEntry(1) [OF ok] by blast
    then have o: "bucket_get B tx (orderBucketName cat) (orderKey old) = Some p" using ok' by blast
    show ?thesis
    proof (cases "q = p")
      case True
      with v ok' show ?thesis by (auto simp: get order Some)
    next
      case False
      with o have "bucket_get B tx' (orderBucketName cat) k = Some q \<longleftrightarrow> bucket_get B tx (orderBucketName cat) k = Some q"
        by (auto simp: order Some)
      with False ok' show ?thesis by (simp add: get)
    qed
  qed
  ultimately show ?thesis unfolding category_ok_def by blast
qed

lemma put_entry_ok:
  assumes B: "bolt_ok B" "codec_ok cd" and ok: "index_ok B cd tx" and cat: "cat \<in> set buckets"
    and utf8: "entry_utf8 e" "valid_utf8 (ie_Thumbnail e)" and put: "put_entry B cd cat e tx = Inr tx'"
  shows "index_ok B cd tx'" "bucket_get B tx' bucketThumbnails = bucket_get B tx bucketThumbnails"
    "cat' \<in> set buckets \<Longrightarrow> readEntry B cd tx' cat' p = (if cat' = cat \<and> p = ie_Path e then Some e else readEntry B cd tx cat' p)"
proof -
  let ?o = "orderBucketName cat"
  have c: "category_ok B cd tx cat" and ex: "bb_pairs B tx b \<noteq> None" if "b \<in> set allBuckets" for b
    using ok cat that by (auto simp: index_ok_def)
  have o: "?o \<in> set allBuckets" using cat by (auto simp: allBuckets_def)
  obtain tx1 tx2 data where s: "(case readEntry B cd tx cat (ie_Path e) of None \<Rightarrow> Inr tx
       | Some old \<Rightarrow> bb_delete B ?o (orderKey old) tx) = Inr tx1"
    "bb_put B ?o (orderKey e) (ie_Path e) tx1 = Inr tx2" "enc_entry cd e = Inr data" "bb_put B cat (ie_Path e) data tx2 = Inr tx'"
    using put by (auto simp: put_entry_def updateEntry_def try_result_Inr_iff)
  have t1: "bucket_get B tx1 ?o = (case readEntry B cd tx cat (ie_Path e) of None \<Rightarrow> bucket_get B tx ?o
       | Some old \<Rightarrow> (bucket_get B tx ?o)(orderKey old := None))"
    "\<And>b. b \<noteq> ?o \<Longrightarrow> bucket_get B tx1 b = bucket_get B tx b" "\<And>b. bb_pairs B tx1 b = None \<longleftrightarrow> bb_pairs B tx b = None"
  proof (atomize (full), cases "readEntry B cd tx cat (ie_Path e)")
    case (Some old)
    from bolt_delete [OF B(1) ex [OF o], of "orderKey old"] s(1) Some
    show "(bucket_get B tx1 ?o = (case readEntry B cd tx cat (ie_Path e) of None \<Rightarrow> bucket_get B tx ?o
       | Some old \<Rightarrow> (bucket_get B tx ?o)(orderKey old := None))) \<and>
     (\<forall>b. b \<noteq> ?o \<longrightarrow> bucket_get B tx1 b = bucket_get B tx b) \<and> (\<forall>b. (bb_pairs B tx1 b = None) = (bb_pairs B tx b = None))"
      by auto
  qed (use s(1) in simp)
  note t2 = bolt_put [OF B(1) s(2)] and t3 = bolt_put [OF B(1) s(4)]
  have ne: "?o \<noteq> cat" using bucket_names(1) [OF cat cat] .
  have dec: "dec_entry cd data = Inr e" using B(2) s(3) utf8 by (simp add: codec_ok_def)
  have "category_ok B cd tx' cat"
  proof (rule category_ok_put [OF c [OF o] dec])
    show "bucket_get B tx' cat = (bucket_get B tx cat)(ie_Path e \<mapsto> data)"
      using t1(2) [of cat] t2(2) [of cat] t3(1) ne by simp
    show "bucket_get B tx' ?o = (case readEntry B cd tx cat (ie_Path e) of None \<Rightarrow> bucket_get B tx ?o
       | Some old \<Rightarrow> (bucket_get B tx ?o)(orderKey old := None))(orderKey e \<mapsto> ie_Path e)"
      using t1(1) t2(1) t3(2) [of ?o] ne by simp
  qed
  moreover have same: "bucket_get B tx' b = bucket_get B tx b" if "b \<noteq> cat" "b \<noteq> ?o" for b
    using t1(2) t2(2) t3(2) that by simp
  moreover have "category_ok B cd tx' cat'" if n: "cat' \<in> set buckets" "cat' \<noteq> cat" for cat'
  proof (rule category_ok_frame)
    show "category_ok B cd tx cat'" using ok n(1) by (simp add: index_ok_def)
    show "bucket_get B tx' cat' = bucket_get B tx cat'" using same n bucket_names(1) [OF cat n(1)] by blast
    show "bucket_get B tx' (orderBucketName cat') = bucket_get B tx (orderBucketName cat')"
      using same n bucket_names(1) [OF n(1) cat] bucket_names(6) by metis
  qed
  moreover have "bb_pairs B tx' b \<noteq> None" if "b \<in> set allBuckets" for b
    using ex [OF that] t1(3) [of b] t2(3) [of b] t3(3) [of b] by simp
  ultimately show "index_ok B cd tx'" unfolding index_ok_def by metis
  show "bucket_get B tx' bucketThumbnails = bucket_get B tx bucketThumbnails"
    using same bucket_names(2,3) [OF cat] by metis
  show "readEntry B cd tx' cat' p = (if cat' = cat \<and> p = ie_Path e then Some e else readEntry B cd tx cat' p)"
    if n: "cat' \<in> set buckets"
  proof (cases "cat' = cat")
    case True
    have "bucket_get B tx' cat = (bucket_get B tx cat)(ie_Path e \<mapsto> data)"
      using t1(2) [of cat] t2(2) [of cat] t3(1) ne by simp
    with dec True show ?thesis by (simp add: readEntry_def)
  next
    case False
    then have "bucket_get B tx' cat' = bucket_get B tx cat'" using same n bucket_names(1) [OF cat n] by blast
    with False show ?thesis by (simp add: readEntry_def)
  qed
qed


lemma delete_from_ok:
  assumes B: "bolt_ok B" and ok: "index_ok B cd tx" and cat: "cat \<in> set buckets"
  shows "index_ok B cd (delete_from B cd p cat tx) \<and> bucket_get B (delete_from B cd p cat tx) cat = (bucket_get B tx cat)(p := None) \<and>
    (\<forall>b. b \<noteq> cat \<longrightarrow> b \<noteq> orderBucketName cat \<longrightarrow> bucket_get B (delete_from B cd p cat tx) b = bucket_get B tx b)"
proof -
  let ?o = "orderBucketName cat"
  have c: "category_ok B cd tx cat" and ex: "bb_pairs B tx b \<noteq> None" if "b \<in> set allBuckets" for b
    using ok cat that by (auto simp: index_ok_def)
  have o: "?o \<in> set allBuckets" "cat \<in> set allBuckets" using cat by (auto simp: allBuckets_def)
  have ne: "?o \<noteq> cat" using bucket_names(1) [OF cat cat] .
  define tx1 where "tx1 = (case readEntry B cd tx cat p of None \<Rightarrow> tx | Some old \<Rightarrow> attempt (bb_delete B ?o (orderKey old)) tx)"
  have t1: "bucket_get B tx1 ?o = (case readEntry B cd tx cat p of None \<Rightarrow> bucket_get B tx ?o
       | Some old \<Rightarrow> (bucket_get B tx ?o)(orderKey old := None)) \<and>
    (\<forall>b. b \<noteq> ?o \<longrightarrow> bucket_get B tx1 b = bucket_get B tx b) \<and> (\<forall>b. bb_pairs B tx1 b = None \<longleftrightarrow> bb_pairs B tx b = None)"
  proof (cases "readEntry B cd tx cat p")
    case (Some old)
    obtain tx' where t: "bb_delete B ?o (orderKey old) tx = Inr tx'" "bucket_get B tx' ?o = (bucket_get B tx ?o)(orderKey old := None)"
      "\<And>c. c \<noteq> ?o \<Longrightarrow> bucket_get B tx' c = bucket_get B tx c" "\<And>c. bb_pairs B tx' c = None \<longleftrightarrow> bb_pairs B tx c = None"
      using bolt_delete [OF B ex [OF o(1)], of "orderKey old"] by auto
    have "tx1 = tx'" by (simp add: tx1_def attempt_def Some t(1))
    with t Some show ?thesis by simp
  qed (simp add: tx1_def)
  have ex1: "bb_pairs B tx1 cat \<noteq> None" using t1 ex [OF o(2)] by simp
  obtain tx' where t2: "bb_delete B cat p tx1 = Inr tx'"
    "bucket_get B tx' cat = (bucket_get B tx1 cat)(p := None)" "\<And>c. c \<noteq> cat \<Longrightarrow> bucket_get B tx' c = bucket_get B tx1 c"
    "\<And>c. bb_pairs B tx' c = None \<longleftrightarrow> bb_pairs B tx1 c = None" using bolt_delete [OF B ex1, of p] by auto
  have d: "delete_from B cd p cat tx = tx'" using t2(1) by (simp add: delete_from_def attempt_def flip: tx1_def)
  have get: "bucket_get B tx' cat = (bucket_get B tx cat)(p := None)" using t1 t2(2) ne by auto
  have same: "bucket_get B tx' b = bucket_get B tx b" if "b \<noteq> cat" "b \<noteq> ?o" for b
    using t1 t2(3) that by simp
  have "category_ok B cd tx' cat"
    by (rule category_ok_remove [OF c [OF o(1)] get]) (use t1 t2(3) [of ?o] ne in simp)
  moreover have "category_ok B cd tx' cat'" if n: "cat' \<in> set buckets" "cat' \<noteq> cat" for cat'
  proof (rule category_ok_frame)
    show "category_ok B cd tx cat'" using ok n(1) by (simp add: index_ok_def)
    show "bucket_get B tx' cat' = bucket_get B tx cat'" using same n bucket_names(1) [OF cat n(1)] by blast
    show "bucket_get B tx' (orderBucketName cat') = bucket_get B tx (orderBucketName cat')"
      using same n bucket_names(1) [OF n(1) cat] bucket_names(6) by metis
  qed
  moreover have "bb_pairs B tx' b \<noteq> None" if "b \<in> set allBuckets" for b
    using ex [OF that] t1 t2(4) [of b] by simp
  ultimately have "index_ok B cd tx'" unfolding index_ok_def by metis
  with get same show ?thesis unfolding d by blast
qed

lemma delete_all_ok:
  assumes "bolt_ok B"
  shows "set cats \<subseteq> set buckets \<Longrightarrow> index_ok B cd tx \<Longrightarrow> index_ok B cd (fold (delete_from B cd p) cats tx) \<and>
    (\<forall>cat \<in> set buckets. bucket_get B (fold (delete_from B cd p) cats tx) cat =
       (if cat \<in> set cats then (bucket_get B tx cat)(p := None) else bucket_get B tx cat))"
proof (induction cats arbitrary: tx)
  case (Cons c cats)
  have c: "c \<in> set buckets" using Cons.prems(1) by simp
  note d = delete_from_ok [OF assms Cons.prems(2) c, of p]
  have ih: "index_ok B cd (fold (delete_from B cd p) cats (delete_from B cd p c tx)) \<and>
    (\<forall>cat \<in> set buckets. bucket_get B (fold (delete_from B cd p) cats (delete_from B cd p c tx)) cat =
       (if cat \<in> set cats then (bucket_get B (delete_from B cd p c tx) cat)(p := None) else bucket_get B (delete_from B cd p c tx) cat))"
    using Cons.IH [of "delete_from B cd p c tx"] Cons.prems(1) d by auto
  have "bucket_get B (delete_from B cd p c tx) cat = (if cat = c then (bucket_get B tx c)(p := None) else bucket_get B tx cat)"
    if "cat \<in> set buckets" for cat
    using d bucket_names(1) [OF c that] by auto
  with ih show ?case by auto
qed simp

lemma index_ok_meta:
  assumes "index_ok B cd tx" "b \<in> {bucketThumbnails, bucketMeta}"
    and "\<And>c. c \<noteq> b \<Longrightarrow> bucket_get B tx' c = bucket_get B tx c" "\<And>c. bb_pairs B tx' c = None \<longleftrightarrow> bb_pairs B tx c = None"
  shows "index_ok B cd tx'"
proof -
  have "category_ok B cd tx' cat" if cat: "cat \<in> set buckets" for cat
    by (rule category_ok_frame [of B cd tx])
      (use assms cat bucket_names(2-5) [OF cat] in \<open>auto simp: index_ok_def\<close>)
  moreover have "bb_pairs B tx' c \<noteq> None" if "c \<in> set allBuckets" for c
    using assms(1,4) that by (simp add: index_ok_def)
  ultimately show ?thesis by (simp add: index_ok_def)
qed

lemma deleteEntry_ok:
  assumes "bolt_ok B" "index_ok B cd tx"
  shows "index_ok B cd (deleteEntry B cd p tx) \<and>
    (\<forall>cat \<in> set buckets. bucket_get B (deleteEntry B cd p tx) cat = (bucket_get B tx cat)(p := None))"
proof -
  let ?t = "fold (delete_from B cd p) buckets tx"
  have d: "index_ok B cd ?t" "\<forall>cat \<in> set buckets. bucket_get B ?t cat = (bucket_get B tx cat)(p := None)"
    using delete_all_ok [OF assms(1) subset_refl assms(2), of p] by auto
  have ex: "bb_pairs B ?t bucketThumbnails \<noteq> None" using d(1) by (simp add: index_ok_def allBuckets_def)
  obtain tx' where t: "bb_delete B bucketThumbnails p ?t = Inr tx'"
    "\<And>c. c \<noteq> bucketThumbnails \<Longrightarrow> bucket_get B tx' c = bucket_get B ?t c"
    "\<And>c. bb_pairs B tx' c = None \<longleftrightarrow> bb_pairs B ?t c = None" using bolt_delete [OF assms(1) ex, of p] by auto
  have "deleteEntry B cd p tx = tx'" by (simp add: deleteEntry_def attempt_def t(1))
  moreover have "index_ok B cd tx'" by (rule index_ok_meta [OF d(1) _ t(2,3)]) simp_all
  moreover have "bucket_get B tx' cat = (bucket_get B tx cat)(p := None)" if "cat \<in> set buckets" for cat
    using t(2) bucket_names(3) [OF that] d(2) that by simp
  ultimately show ?thesis by blast
qed

lemma deleteKeys_ok:
  assumes "bolt_ok B"
  shows "index_ok B cd tx \<Longrightarrow> index_ok B cd (deleteKeys B cd ks tx) \<and>
    (\<forall>cat \<in> set buckets. \<forall>p. bucket_get B (deleteKeys B cd ks tx) cat p = (if p \<in> set ks then None else bucket_get B tx cat p))"
proof (induction ks arbitrary: tx)
  case (Cons k ks)
  note d = deleteEntry_ok [OF assms Cons.prems, of k]
  from Cons.IH [of "deleteEntry B cd k tx"] d show ?case by (auto simp: deleteKeys_def)
qed (simp add: deleteKeys_def)


section \<open>Opening\<close>

text \<open>
  What an existing database may look like: every entry is stored under its own path, and the order
  bucket of a category is right, or empty, or missing, as in databases written before there were
  order buckets.
\<close>

definition openable :: "'tx bolt \<Rightarrow> entry_codec \<Rightarrow> 'tx \<Rightarrow> bool" where
  "openable B cd tx \<longleftrightarrow> (\<forall>cat \<in> set buckets.
     (\<forall>p v. bucket_get B tx cat p = Some v \<longrightarrow> (\<exists>e. dec_entry cd v = Inr e \<and> ie_Path e = p)) \<and>
     (bucket_get B tx (orderBucketName cat) = Map.empty \<or> category_ok B cd tx cat))"

lemma bolt_create:
  assumes "bolt_ok B" "bb_create B b tx = Inr tx'"
  shows "bucket_get B tx' = bucket_get B tx" "bb_pairs B tx' b \<noteq> None" "bb_pairs B tx c \<noteq> None \<Longrightarrow> bb_pairs B tx' c \<noteq> None"
proof -
  have p: "bb_pairs B tx' b = Some (case bb_pairs B tx b of None \<Rightarrow> [] | Some ps \<Rightarrow> ps)"
    "\<forall>c. c \<noteq> b \<longrightarrow> bb_pairs B tx' c = bb_pairs B tx c"
    using assms(1) [unfolded bolt_ok_def, THEN conjunct2, THEN conjunct2, THEN conjunct2] assms(2) by blast+
  have "bucket_get B tx' c k = bucket_get B tx c k" for c k
    using p by (cases "c = b") (auto simp: bucket_get_def split: option.split)
  then show "bucket_get B tx' = bucket_get B tx" by (simp add: fun_eq_iff)
  show "bb_pairs B tx' b \<noteq> None" using p(1) by simp
  show "bb_pairs B tx c \<noteq> None \<Longrightarrow> bb_pairs B tx' c \<noteq> None" using p by (cases "c = b") auto
qed

lemma creates:
  assumes "bolt_ok B"
  shows "foldl (\<lambda>r name. try_result r (bb_create B name)) (Inr tx) names = Inr tx' \<Longrightarrow>
    bucket_get B tx' = bucket_get B tx \<and> (\<forall>b \<in> set names. bb_pairs B tx' b \<noteq> None)"
proof (induction names arbitrary: tx' rule: rev_induct)
  case (snoc n names)
  then obtain tx1 where t: "foldl (\<lambda>r name. try_result r (bb_create B name)) (Inr tx) names = Inr tx1"
    "bb_create B n tx1 = Inr tx'" by (auto simp: try_result_Inr_iff)
  note c = bolt_create [OF assms t(2)]
  from snoc.IH [OF t(1)] c show ?case by auto
qed simp

lemma index_pairs:
  assumes "bolt_ok B"
  shows "foldl (\<lambda>r v. try_result r (index_pair B cd cat v)) (Inr tx) vs = Inr tx' \<Longrightarrow>
    bucket_get B tx (orderBucketName cat) = Map.empty \<Longrightarrow>
    (\<forall>k p. bucket_get B tx' (orderBucketName cat) k = Some p \<longleftrightarrow>
       (\<exists>v \<in> set vs. \<exists>e. dec_entry cd v = Inr e \<and> k = orderKey e \<and> p = ie_Path e)) \<and>
    (\<forall>b. b \<noteq> orderBucketName cat \<longrightarrow> bucket_get B tx' b = bucket_get B tx b) \<and>
    (\<forall>b. bb_pairs B tx' b = None \<longleftrightarrow> bb_pairs B tx b = None)"
proof (induction vs arbitrary: tx' rule: rev_induct)
  case (snoc v vs)
  from snoc.prems(1) obtain tx1 where t: "foldl (\<lambda>r v. try_result r (index_pair B cd cat v)) (Inr tx) vs = Inr tx1"
    "index_pair B cd cat v tx1 = Inr tx'" by (auto simp: try_result_Inr_iff)
  note ih = snoc.IH [OF t(1) snoc.prems(2)]
  show ?case
  proof (cases "dec_entry cd v")
    case (Inl err)
    with t(2) ih show ?thesis by (auto simp: index_pair_def)
  next
    case (Inr e)
    with t(2) have "bb_put B (orderBucketName cat) (orderKey e) (ie_Path e) tx1 = Inr tx'" by (simp add: index_pair_def)
    note p = bolt_put [OF assms this]
    have "bucket_get B tx' (orderBucketName cat) k = Some q \<longleftrightarrow>
       (\<exists>w \<in> set (vs @ [v]). \<exists>e. dec_entry cd w = Inr e \<and> k = orderKey e \<and> q = ie_Path e)" for k q
    proof (cases "k = orderKey e")
      case True
      have "q = ie_Path e" if "w \<in> set vs" "dec_entry cd w = Inr e'" "orderKey e = orderKey e'" "q = ie_Path e'" for w e'
        using orderKey_path [OF that(3)] that(4) by simp
      with Inr True show ?thesis by (auto simp: p(1))
    next
      case False
      with Inr ih show ?thesis by (auto simp: p(1))
    qed
    with ih p show ?thesis by simp
  qed
qed simp

lemma map_of_values: "sorted_wrt (<) (map fst (ps :: (bytes \<times> bytes) list)) \<Longrightarrow> v \<in> snd ` set ps \<longleftrightarrow> (\<exists>p. map_of ps p = Some v)"
proof -
  assume "sorted_wrt (<) (map fst ps)"
  then have "distinct (map fst ps)" by (simp add: strict_sorted_iff)
  then show ?thesis by force
qed

lemma index_bucket_ok:
  assumes B: "bolt_ok B" and step: "index_bucket B cd cat tx = Inr tx'"
    and ok: "\<forall>p v. bucket_get B tx cat p = Some v \<longrightarrow> (\<exists>e. dec_entry cd v = Inr e \<and> ie_Path e = p)"
    "bucket_get B tx (orderBucketName cat) = Map.empty \<or> category_ok B cd tx cat"
    and ex: "bb_pairs B tx cat \<noteq> None" "bb_pairs B tx (orderBucketName cat) \<noteq> None" and cat: "cat \<in> set buckets"
  shows "category_ok B cd tx' cat" "b \<noteq> orderBucketName cat \<Longrightarrow> bucket_get B tx' b = bucket_get B tx b"
    "bb_pairs B tx' b = None \<longleftrightarrow> bb_pairs B tx b = None"
proof -
  obtain ps os where p: "bb_pairs B tx cat = Some ps" "bb_pairs B tx (orderBucketName cat) = Some os" using ex by auto
  have "category_ok B cd tx' cat \<and> (b \<noteq> orderBucketName cat \<longrightarrow> bucket_get B tx' b = bucket_get B tx b) \<and>
    (bb_pairs B tx' b = None \<longleftrightarrow> bb_pairs B tx b = None)" for b
  proof (cases "os = []")
    case False
    then have "tx' = tx" using step p(2) by (simp add: index_bucket_def bucket_keys_def)
    moreover have "bucket_get B tx (orderBucketName cat) \<noteq> Map.empty"
      using False p(2) by (cases os) (auto simp: bucket_get_def fun_eq_iff)
    ultimately show ?thesis using ok(2) by simp
  next
    case True
    then have run: "foldl (\<lambda>r v. try_result r (index_pair B cd cat v)) (Inr tx) (map snd ps) = Inr tx'"
      using step p by (simp add: index_bucket_def bucket_keys_def)
    have e: "bucket_get B tx (orderBucketName cat) = Map.empty" using True p(2) by (simp add: bucket_get_def fun_eq_iff)
    note i = index_pairs [OF B run e]
    have same: "bucket_get B tx' cat = bucket_get B tx cat" using i bucket_names(1) [OF cat cat] by metis
    have get: "bucket_get B tx cat = map_of ps" by (simp add: bucket_get_def p(1) fun_eq_iff)
    have "bucket_get B tx' (orderBucketName cat) k = Some q \<longleftrightarrow>
        (\<exists>v e. bucket_get B tx' cat q = Some v \<and> dec_entry cd v = Inr e \<and> k = orderKey e)" for k q
    proof -
      have "bucket_get B tx' (orderBucketName cat) k = Some q \<longleftrightarrow>
          (\<exists>v \<in> snd ` set ps. \<exists>e. dec_entry cd v = Inr e \<and> k = orderKey e \<and> q = ie_Path e)"
        using i by simp
      also have "\<dots> \<longleftrightarrow> (\<exists>p v e. map_of ps p = Some v \<and> dec_entry cd v = Inr e \<and> k = orderKey e \<and> q = ie_Path e)"
        using map_of_values [OF bolt_sorted [OF B p(1)]] by blast
      also have "\<dots> \<longleftrightarrow> (\<exists>v e. map_of ps q = Some v \<and> dec_entry cd v = Inr e \<and> k = orderKey e)"
        using ok(1) unfolding get by (metis sum.inject(2))
      finally show ?thesis by (simp only: same get)
    qed
    with ok(1) have "category_ok B cd tx' cat" by (simp add: category_ok_def same)
    with i show ?thesis by blast
  qed
  then show "category_ok B cd tx' cat" "b \<noteq> orderBucketName cat \<Longrightarrow> bucket_get B tx' b = bucket_get B tx b"
    "bb_pairs B tx' b = None \<longleftrightarrow> bb_pairs B tx b = None" by blast+
qed


lemma foldl_try_Inl: "foldl (\<lambda>r x. try_result r (f x)) (Inl e) xs = Inl e"
  by (induction xs) auto

definition raw_ok :: "'tx bolt \<Rightarrow> entry_codec \<Rightarrow> 'tx \<Rightarrow> bytes \<Rightarrow> bool" where
  "raw_ok B cd tx cat \<longleftrightarrow> (\<forall>p v. bucket_get B tx cat p = Some v \<longrightarrow> (\<exists>e. dec_entry cd v = Inr e \<and> ie_Path e = p)) \<and>
     (bucket_get B tx (orderBucketName cat) = Map.empty \<or> category_ok B cd tx cat)"

lemma raw_ok_frame:
  "raw_ok B cd tx cat \<Longrightarrow> bucket_get B tx' cat = bucket_get B tx cat \<Longrightarrow>
   bucket_get B tx' (orderBucketName cat) = bucket_get B tx (orderBucketName cat) \<Longrightarrow> raw_ok B cd tx' cat"
  using category_ok_frame [of B cd tx cat tx'] by (auto simp: raw_ok_def)

lemma index_buckets_ok:
  assumes B: "bolt_ok B"
  shows "foldl (\<lambda>r bname. try_result r (index_bucket B cd bname)) (Inr tx) cats = Inr tx' \<Longrightarrow>
    set cats \<subseteq> set buckets \<Longrightarrow> \<forall>b \<in> set allBuckets. bb_pairs B tx b \<noteq> None \<Longrightarrow>
    \<forall>cat \<in> set buckets. raw_ok B cd tx cat \<and> (cat \<notin> set cats \<longrightarrow> category_ok B cd tx cat) \<Longrightarrow> index_ok B cd tx'"
proof (induction cats arbitrary: tx)
  case Nil
  then show ?case by (auto simp: index_ok_def)
next
  case (Cons c cats)
  obtain tx1 where t: "index_bucket B cd c tx = Inr tx1"
    using Cons.prems(1) by (cases "index_bucket B cd c tx") (auto simp: foldl_try_Inl)
  have c: "c \<in> set buckets" "c \<in> set allBuckets" "orderBucketName c \<in> set allBuckets"
    using Cons.prems(2) by (auto simp: allBuckets_def)
  have raw: "raw_ok B cd tx c" using Cons.prems(4) c(1) by blast
  note i = index_bucket_ok [OF B t raw [unfolded raw_ok_def, THEN conjunct1] raw [unfolded raw_ok_def, THEN conjunct2]
      bspec [OF Cons.prems(3) c(2)] bspec [OF Cons.prems(3) c(3)] c(1)]
  have same: "bucket_get B tx1 cat = bucket_get B tx cat \<and> (cat \<noteq> c \<longrightarrow> bucket_get B tx1 (orderBucketName cat) = bucket_get B tx (orderBucketName cat))"
    if "cat \<in> set buckets" for cat
    using i(2) bucket_names(1) [OF c(1) that] bucket_names(6) by metis
  show ?case
  proof (rule Cons.IH)
    show "foldl (\<lambda>r bname. try_result r (index_bucket B cd bname)) (Inr tx1) cats = Inr tx'" using Cons.prems(1) t by simp
    show "set cats \<subseteq> set buckets" using Cons.prems(2) by simp
    show "\<forall>b \<in> set allBuckets. bb_pairs B tx1 b \<noteq> None" using Cons.prems(3) i(3) by blast
    show "\<forall>cat \<in> set buckets. raw_ok B cd tx1 cat \<and> (cat \<notin> set cats \<longrightarrow> category_ok B cd tx1 cat)"
    proof (intro ballI)
      fix cat assume cat: "cat \<in> set buckets"
      show "raw_ok B cd tx1 cat \<and> (cat \<notin> set cats \<longrightarrow> category_ok B cd tx1 cat)"
      proof (cases "cat = c")
        case True
        with i(1) show ?thesis by (auto simp: raw_ok_def category_ok_def)
      next
        case False
        with same [OF cat] Cons.prems(4) cat show ?thesis
          using raw_ok_frame [of B cd tx cat tx1] category_ok_frame [of B cd tx cat tx1] by auto
      qed
    qed
  qed
qed

lemma newIndexDB_ok:
  assumes B: "bolt_ok B" and start: "openable B cd db0" and new: "newIndexDB B cd (Inr db0) = Inr db"
  shows "index_ok B cd db"
proof -
  obtain db1 where s: "db_update B (initBuckets B) db0 = (db1, None)" "ensureOrderIndexes B cd db1 = (db, None)"
    using new by (auto simp: newIndexDB_def split: prod.splits option.splits)
  have i: "initBuckets B db0 = Inr db1"
    using s(1) by (auto simp: db_update_def split: sum.splits option.splits)
  note c = creates [OF B i [unfolded initBuckets_def]]
  have "foldl (\<lambda>r bname. try_result r (index_bucket B cd bname)) (Inr db1) buckets = Inr db"
    using s(2) by (auto simp: ensureOrderIndexes_def db_update_def split: sum.splits option.splits)
  then show ?thesis
  proof (rule index_buckets_ok [OF B])
    show "\<forall>b \<in> set allBuckets. bb_pairs B db1 b \<noteq> None" using c by blast
    have "raw_ok B cd db1 cat" if cat: "cat \<in> set buckets" for cat
    proof (rule raw_ok_frame)
      show "raw_ok B cd db0 cat" using start cat unfolding openable_def raw_ok_def by blast
    qed (use c in simp_all)
    then show "\<forall>cat \<in> set buckets. raw_ok B cd db1 cat \<and> (cat \<notin> set buckets \<longrightarrow> category_ok B cd db1 cat)" by blast
  qed simp
qed

section \<open>Operations\<close>

datatype index_op = Add IndexEntry | Thumb string string | Remove string | Prune fs | Complete

fun index_step :: "'tx bolt \<Rightarrow> entry_codec \<Rightarrow> 'tx \<Rightarrow> index_op \<Rightarrow> 'tx" where
  "index_step B cd db (Add e) = fst (addEntry B cd e db)"
| "index_step B cd db (Thumb p t) = fst (addThumbnail B p t db)"
| "index_step B cd db (Remove p) = removeEntry B cd p db"
| "index_step B cd db (Prune m) = removeStaleEntries B cd m db"
| "index_step B cd db Complete = fst (markIndexingComplete B db)"

lemma db_update_cases:
  "fst (db_update B f db) = db \<or> (\<exists>tx. f db = Inr tx \<and> fst (db_update B f db) = tx)"
  by (auto simp: db_update_def split: sum.split option.split)

lemma put_meta_ok:
  assumes "bolt_ok B" "index_ok B cd db" "b \<in> {bucketThumbnails, bucketMeta}"
  shows "index_ok B cd (fst (db_update B (bb_put B b k v) db))"
proof -
  consider "fst (db_update B (bb_put B b k v) db) = db" | tx where "bb_put B b k v db = Inr tx" "fst (db_update B (bb_put B b k v) db) = tx"
    using db_update_cases [of B "bb_put B b k v" db] by blast
  then show ?thesis
  proof cases
    case (2 tx)
    note p = bolt_put [OF assms(1) 2(1)]
    have "index_ok B cd tx" by (rule index_ok_meta [OF assms(2,3) p(2,3)])
    with 2(2) show ?thesis by simp
  qed (simp add: assms(2))
qed

lemma index_step_ok:
  assumes B: "bolt_ok B" "codec_ok cd" and ok: "index_ok B cd db" and utf8: "\<And>e. a = Add e \<Longrightarrow> entry_utf8 e"
  shows "index_ok B cd (index_step B cd db a)"
proof (cases a)
  case (Add e)
  show ?thesis
  proof (cases "ie_Category e \<in> set buckets")
    case True
    let ?f = "put_entry B cd (ie_Category e) (e\<lparr>ie_Thumbnail := ''''\<rparr>)"
    have s: "index_step B cd db a = fst (db_update B ?f db)"
      using True by (simp add: Add addEntry_def bucketForCategory_def)
    show ?thesis
      using db_update_cases [of B ?f db] put_entry_ok(1) [OF B ok True, of "e\<lparr>ie_Thumbnail := ''''\<rparr>"] ok utf8 [OF Add]
      unfolding s by (fastforce simp: entry_utf8_def)
  qed (simp add: Add addEntry_def bucketForCategory_def ok)
next
  case (Remove p)
  have "index_ok B cd (deleteEntry B cd p db)" using deleteEntry_ok [OF B(1) ok] by blast
  with ok show ?thesis
    using db_update_cases [of B "\<lambda>tx. Inr (deleteEntry B cd p tx)" db] by (auto simp: Remove removeEntry_def)
next
  case (Prune m)
  have "index_ok B cd (deleteKeys B cd ks db)" for ks using deleteKeys_ok [OF B(1) ok] by blast
  with ok show ?thesis
    using db_update_cases [of B "\<lambda>tx. Inr (deleteKeys B cd (collectStaleKeys B m db) tx)" db]
    by (auto simp: Prune removeStaleEntries_def Let_def)
qed (simp_all add: addThumbnail_def markIndexingComplete_def put_meta_ok [OF B(1) ok])

lemma index_run_ok:
  assumes "bolt_ok B" "codec_ok cd"
  shows "index_ok B cd db \<Longrightarrow> (\<And>e. Add e \<in> set ops \<Longrightarrow> entry_utf8 e) \<Longrightarrow> index_ok B cd (foldl (index_step B cd) db ops)"
  by (induction ops arbitrary: db) (simp_all add: index_step_ok [OF assms])


section \<open>The abstract index\<close>

text \<open>What the index promises: a map from categories and paths to entries.\<close>

definition contents :: "'tx bolt \<Rightarrow> entry_codec \<Rightarrow> 'tx \<Rightarrow> bytes \<times> string \<Rightarrow> IndexEntry option" where
  "contents B cd tx = (\<lambda>(c, p). if c \<in> set buckets then readEntry B cd tx c p else None)"

fun spec_step :: "(bytes \<times> string \<Rightarrow> IndexEntry option) \<Rightarrow> index_op \<Rightarrow> bytes \<times> string \<Rightarrow> IndexEntry option" where
  "spec_step m (Add e) = (if ie_Category e \<in> set buckets
     then m((ie_Category e, ie_Path e) \<mapsto> e\<lparr>ie_Thumbnail := ''''\<rparr>) else m)"
| "spec_step m (Remove p) = (\<lambda>(c, q). if q = p then None else m (c, q))"
| "spec_step m (Prune fs) = (\<lambda>(c, q). if gone fs q then None else m (c, q))"
| "spec_step m (Thumb p t) = m"
| "spec_step m Complete = m"

lemma readEntry_cong: "bucket_get B tx' c = bucket_get B tx c \<Longrightarrow> readEntry B cd tx' c p = readEntry B cd tx c p"
  by (simp add: readEntry_def)

lemma readEntry_at: "bucket_get B tx' c p = bucket_get B tx c p \<Longrightarrow> readEntry B cd tx' c p = readEntry B cd tx c p"
  by (simp add: readEntry_def)

lemma contents_meta:
  assumes "bolt_ok B" "bb_put B b k v tx = Inr tx'" "b \<in> {bucketThumbnails, bucketMeta}"
  shows "contents B cd tx' = contents B cd tx"
proof -
  have "readEntry B cd tx' c p = readEntry B cd tx c p" if "c \<in> set buckets" for c p
    by (rule readEntry_cong, rule bolt_put(2) [OF assms(1,2)]) (use assms(3) bucket_names(3,5) [OF that] in auto)
  then show ?thesis by (auto simp: contents_def fun_eq_iff)
qed

lemma contents_remove:
  assumes "\<forall>c \<in> set buckets. \<forall>p. bucket_get B tx' c p = (if p \<in> K then None else bucket_get B tx c p)"
  shows "contents B cd tx' = (\<lambda>(c, p). if p \<in> K then None else contents B cd tx (c, p))"
proof -
  have "readEntry B cd tx' c p = (if p \<in> K then None else readEntry B cd tx c p)" if "c \<in> set buckets" for c p
    using assms that by (simp add: readEntry_def)
  then show ?thesis by (auto simp: contents_def fun_eq_iff)
qed

lemma collectStaleKeys_set:
  assumes "contents B cd tx (c, p) = Some e" "gone m p"
  shows "p \<in> set (collectStaleKeys B m tx)"
proof -
  obtain v where "c \<in> set buckets" "bucket_get B tx c p = Some v"
    using assms(1) by (auto simp: contents_def readEntry_def split: if_splits option.splits)
  then have "p \<in> set (bucket_keys B tx c)"
    by (force simp: bucket_get_def bucket_keys_def dest: map_of_SomeD split: option.splits)
  with assms(2) \<open>c \<in> set buckets\<close> show ?thesis by (auto simp: collectStaleKeys_def)
qed

lemma stale_gone: "p \<in> set (collectStaleKeys B m tx) \<Longrightarrow> gone m p"
  by (simp add: collectStaleKeys_def)

lemma db_update_Inr:
  "f db = Inr tx \<Longrightarrow> fst (db_update B f db) = (if bb_commit B tx = None then tx else db)"
  by (simp add: db_update_def split: option.split)

lemma contents_step:
  assumes B: "bolt_ok B" "codec_ok cd" and ok: "index_ok B cd db" and utf8: "\<And>e. a = Add e \<Longrightarrow> entry_utf8 e"
  shows "contents B cd (index_step B cd db a) = spec_step (contents B cd db) a \<or> index_step B cd db a = db"
proof (cases a)
  case (Add e)
  show ?thesis
  proof (cases "ie_Category e \<in> set buckets")
    case True
    let ?e = "e\<lparr>ie_Thumbnail := ''''\<rparr>"
    let ?f = "put_entry B cd (ie_Category e) ?e"
    have s: "index_step B cd db a = fst (db_update B ?f db)"
      using True by (simp add: Add addEntry_def bucketForCategory_def)
    have "contents B cd tx = spec_step (contents B cd db) a" if t: "?f db = Inr tx" for tx
      using put_entry_ok(3) [OF B ok True _ _ t] utf8 [OF Add] True
      by (auto simp: contents_def Add fun_eq_iff entry_utf8_def)
    then show ?thesis using db_update_cases [of B ?f db] unfolding s by metis
  qed (simp add: Add addEntry_def bucketForCategory_def)
next
  case (Thumb p t)
  show ?thesis
    using db_update_cases [of B "bb_put B bucketThumbnails p t" db] contents_meta [OF B(1), of bucketThumbnails p t db]
    by (auto simp: Thumb addThumbnail_def)
next
  case (Remove p)
  have "contents B cd (deleteEntry B cd p db) = (\<lambda>(c, q). if q \<in> {p} then None else contents B cd db (c, q))"
    by (rule contents_remove) (use deleteEntry_ok [OF B(1) ok, of p] in auto)
  then show ?thesis by (auto simp: Remove removeEntry_def db_update_Inr [OF refl] fun_eq_iff)
next
  case (Prune m)
  let ?ks = "collectStaleKeys B m db"
  have "contents B cd (deleteKeys B cd ?ks db) = (\<lambda>(c, q). if q \<in> set ?ks then None else contents B cd db (c, q))"
    by (rule contents_remove) (use deleteKeys_ok [OF B(1) ok, of ?ks] in auto)
  also have "\<dots> = spec_step (contents B cd db) a"
    using collectStaleKeys_set [of B cd db _ _ _ m] stale_gone by (fastforce simp: Prune fun_eq_iff)
  finally show ?thesis by (auto simp: Prune removeStaleEntries_def Let_def db_update_Inr [OF refl])
next
  case Complete
  show ?thesis
    using db_update_cases [of B "bb_put B bucketMeta ''status'' ''ready''" db] contents_meta [OF B(1), of bucketMeta "''status''" "''ready''" db]
    by (auto simp: Complete markIndexingComplete_def)
qed


lemma add_reported:
  assumes B: "bolt_ok B" "codec_ok cd" and ok: "index_ok B cd db" and e: "entry_utf8 e"
    and add: "addEntry B cd e db = (tx, None)"
  shows "contents B cd tx = spec_step (contents B cd db) (Add e)"
proof (cases "ie_Category e \<in> set buckets")
  case True
  with add have "put_entry B cd (ie_Category e) (e\<lparr>ie_Thumbnail := ''''\<rparr>) db = Inr tx"
    by (auto simp: addEntry_def bucketForCategory_def db_update_def split: sum.splits option.splits)
  from put_entry_ok(3) [OF B ok True _ _ this] e True show ?thesis
    by (auto simp: contents_def fun_eq_iff entry_utf8_def)
qed (use add in \<open>simp add: addEntry_def bucketForCategory_def\<close>)

end
