(* ===== verification/IndexQuery.thy ===== *)
theory IndexQuery
  imports Index
begin

text \<open>
  What a query of the index returns: the newest entries first, page by page within a category, and
  what goes wrong when a query runs over several categories.
\<close>

section \<open>Keys and times\<close>

lemma snoc_less: "length xs = length ys \<Longrightarrow> xs @ [a] < ys @ [b] \<longleftrightarrow> xs < ys \<or> xs = ys \<and> a < (b :: char)"
  by (induction xs ys rule: list_induct2) auto

lemma append_less: "length xs = length ys \<Longrightarrow> xs < (ys :: bytes) \<Longrightarrow> xs @ as < ys @ bs"
  by (induction xs ys rule: list_induct2) auto

lemma char_less: "(char_of (m::nat) :: char) < char_of n \<longleftrightarrow> m mod 256 < n mod 256"
  by (simp add: less_char_def)

lemma big_endian_less: "m < n \<Longrightarrow> n < 256 ^ k \<Longrightarrow> big_endian k m < big_endian k n"
proof (induction k arbitrary: m n)
  case (Suc k)
  have "n div 256 < 256 ^ k" using Suc.prems(2) by (simp add: less_mult_imp_div_less mult.commute)
  moreover have "m div 256 < n div 256 \<or> m div 256 = n div 256 \<and> m mod 256 < n mod 256"
    using Suc.prems(1) by (metis div_le_mono div_mult_mod_eq le_neq_implies_less less_or_eq_imp_le nat_add_left_cancel_less)
  ultimately show ?case using Suc.IH by (auto simp: snoc_less char_less)
qed simp

lemma mtimeKey_less:
  assumes "0 \<le> s" "s < t" "t < 2 ^ 63"
  shows "mtimeKey t < mtimeKey s"
proof -
  have w: "wrap64 s = s" "wrap64 t = t" "wrap64 (2 ^ 63 - 1 - s) = 2 ^ 63 - 1 - s" "wrap64 (2 ^ 63 - 1 - t) = 2 ^ 63 - 1 - t"
    using assms by (simp_all add: wrap64_id)
  have "nat (2 ^ 63 - 1 - t) < nat (2 ^ 63 - 1 - s)" using assms by simp
  moreover have "nat (2 ^ 63 - 1 - s) < 256 ^ 8" using assms by simp
  ultimately have "big_endian 8 (nat (2 ^ 63 - 1 - t)) < big_endian 8 (nat (2 ^ 63 - 1 - s))" by (rule big_endian_less)
  moreover have "\<not> 2 ^ 63 - 1 - s < 0" "\<not> 2 ^ 63 - 1 - t < 0" using assms by linarith+
  ultimately show ?thesis by (simp only: mtimeKey_def Let_def w if_False)
qed

lemma mtimeKey_old:
  assumes "- (2 ^ 63) \<le> t" "t < 0"
  shows "mtimeKey t = mtimeKey (2 ^ 63 - 1)"
proof -
  define x where "x = 2 ^ 63 - 1 - t"
  have x: "2 ^ 63 \<le> x" "x < 2 ^ 64" using assms by (simp_all add: x_def)
  have "(x + 2 ^ 63) mod 2 ^ 64 = (x - 2 ^ 63 + 2 ^ 64) mod 2 ^ 64" by (simp add: algebra_simps)
  also have "\<dots> = (x - 2 ^ 63) mod 2 ^ 64" by (rule mod_add_self2)
  also have "\<dots> = x - 2 ^ 63" using x by (intro mod_pos_pos_trivial) simp_all
  finally have "wrap64 x < 0" using x by (simp add: wrap64_def)
  moreover have "wrap64 t = t" "wrap64 (2 ^ 63 - 1) = 2 ^ 63 - 1" "wrap64 (0 :: int) = 0"
    using assms by (simp_all add: wrap64_id)
  moreover have "2 ^ 63 - 1 - (2 ^ 63 - 1) = (0 :: int)" by simp
  ultimately show ?thesis unfolding x_def mtimeKey_def Let_def by (simp only: if_True if_False nat_0 less_irrefl)
qed


section \<open>The merge\<close>

definition pairs_of :: "orderCursor \<Rightarrow> (bytes \<times> bytes) list" where
  "pairs_of oc = (oc_key oc, oc_val oc) # oc_rest oc"

definition visits :: "cursors \<Rightarrow> (bytes \<times> bytes \<times> bytes) list" where
  "visits cs = concat (map (\<lambda>(c, oc). map (\<lambda>(k, v). (k, c, v)) (pairs_of oc)) cs)"

definition cursors_ok :: "cursors \<Rightarrow> bool" where
  "cursors_ok cs \<longleftrightarrow> distinct (map fst cs) \<and> (\<forall>c \<in> set cs. sorted_wrt (<) (map fst (pairs_of (snd c))))"

lemma visits_simps [simp]:
  "visits [] = []" "visits ((c, oc) # cs) = map (\<lambda>(k, v). (k, c, v)) (pairs_of oc) @ visits cs"
  by (simp_all add: visits_def)

lemma cursors_ok_Cons:
  "cursors_ok ((c, oc) # cs) \<longleftrightarrow> c \<notin> fst ` set cs \<and> sorted_wrt (<) (map fst (pairs_of oc)) \<and> cursors_ok cs"
  by (auto simp: cursors_ok_def)

lemma cursor_at_Some: "cursor_at ps = Some oc \<longleftrightarrow> ps = pairs_of oc"
  by (cases ps rule: cursor_at.cases) (auto simp: pairs_of_def)

lemma cursor_at_None: "cursor_at ps = None \<longleftrightarrow> ps = []"
  by (cases ps rule: cursor_at.cases) auto

lemma pairs_of_ex: "(\<exists>oc. ps = pairs_of oc) \<longleftrightarrow> ps \<noteq> []"
  by (cases "cursor_at ps") (auto simp: cursor_at_None cursor_at_Some pairs_of_def)

lemma in_set_nonempty: "x \<in> set xs \<Longrightarrow> xs \<noteq> []"
  by auto

lemma pairs_of_le: "sorted_wrt (<) (map fst (pairs_of oc)) \<Longrightarrow> (k, v) \<in> set (pairs_of oc) \<Longrightarrow> oc_key oc \<le> k"
  by (fastforce simp: pairs_of_def)

lemma best_of_None: "best_of cs = None \<longleftrightarrow> cs = []"
  by (cases cs) (auto split: option.split)

lemma best_of_le: "best_of cs = Some d \<Longrightarrow> c \<in> set cs \<Longrightarrow> oc_key (snd d) \<le> oc_key (snd c)"
  by (induction cs arbitrary: d) (fastforce split: option.splits if_splits simp: best_of_None)+

lemma best_of_visits:
  "cursors_ok cs \<Longrightarrow> best_of cs = Some (cat, oc) \<Longrightarrow> (k, c, v) \<in> set (visits cs) \<Longrightarrow> oc_key oc \<le> k"
  using best_of_le [of cs "(cat, oc)"] pairs_of_le order_trans
  by (fastforce simp: visits_def cursors_ok_def)

lemma advance_ok:
  "cursors_ok cs \<Longrightarrow> (cat, oc) \<in> set cs \<Longrightarrow> cursors_ok (advance cat cs) \<and>
     mset (visits cs) = add_mset (oc_key oc, cat, oc_val oc) (mset (visits (advance cat cs))) \<and>
     fst ` set (advance cat cs) \<subseteq> fst ` set cs"
proof (induction cs)
  case (Cons d cs)
  obtain c oc' where d: "d = (c, oc')" by (cases d)
  note ok = Cons.prems(1) [unfolded d cursors_ok_Cons]
  show ?case
  proof (cases "c = cat")
    case True
    have oc: "oc' = oc" using Cons.prems(2) ok True unfolding d by force
    show ?thesis
    proof (cases "cursor_at (oc_rest oc)")
      case None
      with True oc ok show ?thesis by (auto simp: d cursor_at_None pairs_of_def)
    next
      case (Some n)
      then have "oc_rest oc = pairs_of n" by (simp add: cursor_at_Some)
      with Some True oc ok show ?thesis by (auto simp: d cursors_ok_Cons pairs_of_def [of oc])
    qed
  next
    case False
    with Cons ok show ?thesis by (auto simp: d cursors_ok_Cons)
  qed
qed simp

lemma query_loop_sorted:
  assumes "cursors_ok cs" "\<forall>(k, c, v) \<in> set (visits cs). rd c v = Some (g c v)"
  shows "\<exists>L cs'. query_loop rd n cs = (map (\<lambda>(k, c, v). g c v) (take n L), cs') \<and> sorted (map fst L) \<and>
    mset L = mset (visits cs) \<and> cursors_ok cs' \<and> mset (visits cs') = mset (drop n L)"
  using assms
proof (induction rd n cs rule: query_loop.induct)
  case (1 rd n cs)
  have stop: "\<exists>L. mset L = mset (visits cs) \<and> sorted (map fst L)"
    by (rule exI [of _ "sort_key fst (visits cs)"]) simp
  show ?case
  proof (cases "n = 0 \<or> best_of cs = None")
    case True
    then have q: "query_loop rd n cs = ([], cs)" by (subst query_loop.simps) auto
    obtain L where "mset L = mset (visits cs)" "sorted (map fst L)" using stop by blast
    with q True "1.prems"(1) show ?thesis by (intro exI [of _ L] exI [of _ cs]) (auto simp: best_of_None)
  next
    case False
    then obtain cat oc where b: "best_of cs = Some (cat, oc)" and n: "n \<noteq> 0" by auto
    note a = advance_ok [OF "1.prems"(1) best_of_mem [OF b]]
    let ?x = "(oc_key oc, cat, oc_val oc)"
    have vs: "set (visits cs) = insert ?x (set (visits (advance cat cs)))" using a by (metis set_mset_add_mset_insert set_mset_mset)
    have r: "rd cat (oc_val oc) = Some (g cat (oc_val oc))" using "1.prems"(2) vs by auto
    obtain L cs' where ih: "query_loop rd (n - 1) (advance cat cs) = (map (\<lambda>(k, c, v). g c v) (take (n - 1) L), cs')"
      "sorted (map fst L)" "mset L = mset (visits (advance cat cs))" "cursors_ok cs'" "mset (visits cs') = mset (drop (n - 1) L)"
      using "1.IH"(2) [OF n b refl r] a "1.prems"(2) vs by auto
    have "query_loop rd n cs = (map (\<lambda>(k, c, v). g c v) (take n (?x # L)), cs')"
      using n by (subst query_loop.simps) (simp add: b r ih(1) [simplified] take_Cons')
    moreover have "sorted (map fst (?x # L))"
    proof -
      have "oc_key oc \<le> fst y" if "y \<in> set L" for y
      proof -
        from that have "y \<in> set (visits cs)" using ih(3) vs by (metis insertI2 set_mset_mset)
        then show ?thesis using best_of_visits [OF "1.prems"(1) b, of "fst y" "fst (snd y)" "snd (snd y)"] by simp
      qed
      with ih(2) show ?thesis by simp
    qed
    moreover have "mset (?x # L) = mset (visits cs)" using a ih(3) by simp
    moreover have "mset (visits cs') = mset (drop n (?x # L))" using ih(5) n by (simp add: drop_Cons')
    ultimately show ?thesis using ih(4) by blast
  qed
qed


section \<open>One page\<close>

text \<open>The key at which the caller's cursor resumes a category.\<close>

definition start_key :: "(string \<rightharpoonup> string) \<Rightarrow> bytes \<Rightarrow> bytes result" where
  "start_key cursor c = (case cursor c of None \<Rightarrow> Inr [] | Some pos \<Rightarrow> if pos = [] then Inr [] else b64_decode pos)"

definition order_pairs :: "'tx bolt \<Rightarrow> 'tx \<Rightarrow> bytes \<Rightarrow> (bytes \<times> bytes) list" where
  "order_pairs B tx c = (case bb_pairs B tx (orderBucketName c) of None \<Rightarrow> [] | Some ps \<Rightarrow> ps)"

lemma dropWhile_less: "sorted_wrt (<) (map fst ps) \<Longrightarrow> dropWhile (\<lambda>(k, _). k < (K :: bytes)) ps = filter (\<lambda>p. K \<le> fst p) ps"
proof (induction ps)
  case (Cons p ps)
  show ?case
  proof (cases "fst p < K")
    case True
    with Cons show ?thesis by (auto simp: case_prod_beta)
  next
    case False
    with Cons.prems have "filter (\<lambda>p. K \<le> fst p) ps = ps" by (fastforce intro!: filter_True simp: case_prod_beta)
    with False show ?thesis by (auto simp: case_prod_beta)
  qed
qed simp

lemma open_cursor_start:
  assumes "bolt_ok B" "start_key cursor c = Inr K"
  shows "open_cursor B tx cursor c = Inr (cursor_at (filter (\<lambda>p. K \<le> fst p) (order_pairs B tx c)))"
proof (cases "bb_pairs B tx (orderBucketName c)")
  case (Some ps)
  have least: "\<And>k :: bytes. [] \<le> k" by (metis Nil_less_Cons list.exhaust order.order_iff_strict)
  show ?thesis
    using assms(2) dropWhile_less [OF bolt_sorted [OF assms(1) Some]]
    by (auto simp: open_cursor_def order_pairs_def Some start_key_def least try_result_def split: option.splits if_splits)
qed (simp add: open_cursor_def order_pairs_def)

lemma open_cursors_start:
  assumes B: "bolt_ok B"
  shows "distinct (map fst cs) \<Longrightarrow> \<forall>c \<in> set bs. start_key cursor c = Inr (K c) \<Longrightarrow>
    \<exists>cs'. open_cursors B tx cursor bs cs = Inr cs' \<and> distinct (map fst cs') \<and>
      map_of cs' = (\<lambda>c. if c \<in> set bs \<and> filter (\<lambda>p. K c \<le> fst p) (order_pairs B tx c) \<noteq> []
        then cursor_at (filter (\<lambda>p. K c \<le> fst p) (order_pairs B tx c)) else map_of cs c)"
proof (induction bs arbitrary: cs)
  case (Cons b bs)
  let ?r = "\<lambda>c. filter (\<lambda>p. K c \<le> fst p) (order_pairs B tx c)"
  define cs1 where "cs1 = (case cursor_at (?r b) of None \<Rightarrow> cs | Some c \<Rightarrow> AList.update b c cs)"
  have d: "distinct (map fst cs1)" using Cons.prems(1) by (simp add: cs1_def distinct_update split: option.split)
  have m: "map_of cs1 = (\<lambda>c. if c = b \<and> ?r b \<noteq> [] then cursor_at (?r b) else map_of cs c)"
    by (auto simp: cs1_def update_conv fun_eq_iff cursor_at_None split: option.split)
  have o: "open_cursors B tx cursor (b # bs) cs = open_cursors B tx cursor bs cs1"
    using Cons.prems(2) by (simp add: open_cursor_start [OF B] cs1_def)
  obtain cs' where "open_cursors B tx cursor bs cs1 = Inr cs'" "distinct (map fst cs')"
    "map_of cs' = (\<lambda>c. if c \<in> set bs \<and> ?r c \<noteq> [] then cursor_at (?r c) else map_of cs1 c)"
    using Cons.IH [OF d] Cons.prems(2) by auto
  then show ?case unfolding o by (intro exI [of _ cs']) (auto simp: m fun_eq_iff)
qed simp

lemma opened_visits:
  assumes B: "bolt_ok B" and start: "\<forall>c \<in> set bs. start_key cursor c = Inr (K c)"
  shows "\<exists>cs. open_cursors B tx cursor bs [] = Inr cs \<and> cursors_ok cs \<and>
    set (visits cs) = {(k, c, v). c \<in> set bs \<and> (k, v) \<in> set (order_pairs B tx c) \<and> K c \<le> k}"
proof -
  let ?r = "\<lambda>c. filter (\<lambda>p. K c \<le> fst p) (order_pairs B tx c)"
  obtain cs where cs: "open_cursors B tx cursor bs [] = Inr cs" "distinct (map fst cs)"
    "map_of cs = (\<lambda>c. if c \<in> set bs \<and> ?r c \<noteq> [] then cursor_at (?r c) else None)"
    using open_cursors_start [OF B _ start, of "[]" tx] by (auto simp: fun_eq_iff)
  have mem: "(c, oc) \<in> set cs \<longleftrightarrow> c \<in> set bs \<and> ?r c = pairs_of oc" for c oc
  proof -
    have "(c, oc) \<in> set cs \<longleftrightarrow> map_of cs c = Some oc" using cs(2) by simp
    also have "\<dots> \<longleftrightarrow> c \<in> set bs \<and> ?r c = pairs_of oc" by (auto simp: cs(3) cursor_at_Some pairs_of_def)
    finally show ?thesis .
  qed
  have "sorted_wrt (<) (map fst (?r c))" for c
  proof -
    have "sorted_wrt (<) (map fst (order_pairs B tx c))"
      using bolt_sorted [OF B] by (auto simp: order_pairs_def split: option.split)
    then show ?thesis by (auto simp: sorted_wrt_map intro: sorted_wrt_filter)
  qed
  then have "sorted_wrt (<) (map fst (pairs_of oc))" if "(c, oc) \<in> set cs" for c oc using that mem by metis
  with cs(2) have "cursors_ok cs" by (auto simp: cursors_ok_def)
  moreover have "(k, c, v) \<in> set (visits cs) \<longleftrightarrow> c \<in> set bs \<and> (k, v) \<in> set (order_pairs B tx c) \<and> K c \<le> k" for k c v
  proof -
    have "(k, c, v) \<in> set (visits cs) \<longleftrightarrow> (\<exists>oc. (c, oc) \<in> set cs \<and> (k, v) \<in> set (pairs_of oc))"
      by (force simp: visits_def)
    also have "\<dots> \<longleftrightarrow> (\<exists>oc. c \<in> set bs \<and> ?r c = pairs_of oc \<and> (k, v) \<in> set (?r c))"
      by (rule ex_cong1) (simp only: mem conj_assoc cong: conj_cong)
    also have "\<dots> \<longleftrightarrow> c \<in> set bs \<and> (\<exists>oc. ?r c = pairs_of oc) \<and> (k, v) \<in> set (?r c)" by blast
    also have "\<dots> \<longleftrightarrow> c \<in> set bs \<and> (k, v) \<in> set (?r c)"
      unfolding pairs_of_ex by (rule conj_cong [OF refl], rule iffI, erule conjunct2, rule conjI, erule in_set_nonempty)
    finally show ?thesis by auto
  qed
  ultimately show ?thesis using cs(1) by (intro exI [of _ cs]) auto
qed


text \<open>The entries of the target categories from where the cursor resumes.\<close>

definition pending ::
  "'tx bolt \<Rightarrow> entry_codec \<Rightarrow> 'tx \<Rightarrow> bytes list \<Rightarrow> (bytes \<Rightarrow> bytes) \<Rightarrow> (bytes \<times> IndexEntry) set" where
  "pending B cd tx bs K = {(c, e). c \<in> set bs \<and> readEntry B cd tx c (ie_Path e) = Some e \<and> K c \<le> orderKey e}"

lemma order_pairs_entry:
  assumes B: "bolt_ok B" and ok: "category_ok B cd tx c"
  shows "(k, v) \<in> set (order_pairs B tx c) \<longleftrightarrow> (\<exists>e. readEntry B cd tx c v = Some e \<and> ie_Path e = v \<and> k = orderKey e)"
proof -
  have "(k, v) \<in> set (order_pairs B tx c) \<longleftrightarrow> bucket_get B tx (orderBucketName c) k = Some v"
  proof (cases "bb_pairs B tx (orderBucketName c)")
    case (Some ps)
    have "distinct (map fst ps)" using bolt_sorted [OF B Some] by (metis strict_sorted_iff)
    with Some show ?thesis by (simp add: order_pairs_def bucket_get_def)
  qed (simp add: order_pairs_def bucket_get_def)
  also have "\<dots> \<longleftrightarrow> (\<exists>d e. bucket_get B tx c v = Some d \<and> dec_entry cd d = Inr e \<and> k = orderKey e)"
    using ok by (simp add: category_ok_def)
  also have "\<dots> \<longleftrightarrow> (\<exists>e. readEntry B cd tx c v = Some e \<and> ie_Path e = v \<and> k = orderKey e)"
    unfolding category_ok_readEntry(1) [OF ok] using ok [unfolded category_ok_def, THEN conjunct1] by fastforce
  finally show ?thesis .
qed

definition shown :: "'tx bolt \<Rightarrow> 'tx \<Rightarrow> bytes \<times> IndexEntry \<Rightarrow> IndexEntry" where
  "shown B tx = (\<lambda>(c, e). with_thumbnail B tx (ie_Path e) e)"

definition resume_at :: "bytes \<times> IndexEntry \<Rightarrow> string \<times> string" where
  "resume_at = (\<lambda>(c, e). (c, b64_encode (orderKey e)))"

lemma distinct_visits: "cursors_ok cs \<Longrightarrow> distinct (visits cs)"
proof (induction cs)
  case (Cons d cs)
  obtain c oc where d: "d = (c, oc)" by (cases d)
  note ok = Cons.prems [unfolded d cursors_ok_Cons]
  have "distinct (map (\<lambda>(k, v). (k, c, v)) (pairs_of oc))"
    using ok by (auto simp: distinct_map strict_sorted_iff inj_on_def)
  moreover have "(k, c, v) \<notin> set (visits cs)" for k v using ok by (force simp: visits_def)
  ultimately show ?case using Cons.IH ok by (auto simp: d)
qed simp

lemma first_in_sorted:
  "sorted (map fst L) \<Longrightarrow> (k0, c, v0) \<in> set L \<Longrightarrow> (\<And>k v. (k, c, v) \<in> set L \<Longrightarrow> k0 \<le> k) \<Longrightarrow>
   map_of (map (\<lambda>(k, c, v). (c, f (k :: bytes))) L) c = Some (f k0)"
proof (induction L)
  case (Cons x L)
  obtain k c' v where x: "x = (k, c', v)" by (cases x)
  show ?case
  proof (cases "c' = c")
    case True
    then have "k0 \<le> k" using Cons.prems(3) [of k v] by (simp add: x)
    moreover have "k \<le> k0" using Cons.prems(1,2) by (auto simp: x)
    ultimately show ?thesis using True by (simp add: x)
  next
    case False
    with Cons show ?thesis by (auto simp: x)
  qed
qed simp

lemma first_of_sorted:
  assumes "sorted (map fst L)" "cursors_ok cs" "mset (visits cs) = mset L"
  shows "map_of (map (\<lambda>(c, oc). (c, f (oc_key oc))) cs) = map_of (map (\<lambda>(k, c, v). (c, f (k :: bytes))) L)"
proof
  fix c
  have L: "set L = set (visits cs)" using assms(3) by (metis set_mset_mset)
  have f: "map_of (map (\<lambda>(c, oc). (c, f (oc_key oc))) cs) c = map_option (f \<circ> oc_key) (map_of cs c)"
    by (induction cs) auto
  show "map_of (map (\<lambda>(c, oc). (c, f (oc_key oc))) cs) c = map_of (map (\<lambda>(k, c, v). (c, f k)) L) c"
  proof (cases "map_of cs c")
    case None
    then have "c \<notin> fst ` set cs" by (simp add: map_of_eq_None_iff)
    then have "(k, c, v) \<notin> set L" for k v by (force simp: visits_def L)
    then have "map_of (map (\<lambda>(k, c, v). (c, f k)) L) c = None" by (force simp: map_of_eq_None_iff)
    with None f show ?thesis by simp
  next
    case (Some oc)
    then have oc: "(c, oc) \<in> set cs" by (rule map_of_SomeD)
    then have "(oc_key oc, c, oc_val oc) \<in> set L" by (force simp: L visits_def pairs_of_def)
    moreover have "oc_key oc \<le> k" if kv: "(k, c, v) \<in> set L" for k v
    proof -
      obtain oc' where "(c, oc') \<in> set cs" "(k, v) \<in> set (pairs_of oc')" using kv by (force simp: L visits_def)
      moreover have "oc' = oc"
        using calculation(1) oc assms(2) by (metis cursors_ok_def map_of_eq_Some_iff option.inject)
      moreover have "sorted_wrt (<) (map fst (pairs_of oc))" using assms(2) oc by (auto simp: cursors_ok_def)
      ultimately show ?thesis using pairs_of_le by blast
    qed
    ultimately have "map_of (map (\<lambda>(k, c, v). (c, f k)) L) c = Some (f (oc_key oc))" by (rule first_in_sorted [OF assms(1)])
    with Some f show ?thesis by simp
  qed
qed

lemma query_page:
  assumes B: "bolt_ok B" and ok: "index_ok B cd tx" and bs: "set bs \<subseteq> set buckets"
    and start: "\<forall>c \<in> set bs. start_key cursor c = Inr (K c)"
  shows "\<exists>L next. queryEntries B cd tx bs cursor n = Inr (map (shown B tx) (take n L), next, n < length L) \<and>
    distinct L \<and> set L = pending B cd tx bs K \<and> sorted (map (\<lambda>(c, e). orderKey e) L) \<and>
    map_of next = map_of (map resume_at (drop n L))"
proof -
  obtain cs where cs: "open_cursors B tx cursor bs [] = Inr cs" "cursors_ok cs"
    "set (visits cs) = {(k, c, v). c \<in> set bs \<and> (k, v) \<in> set (order_pairs B tx c) \<and> K c \<le> k}"
    using opened_visits [OF B start] by blast
  define g where "g = (\<lambda>c v. the (readEntry B cd tx c v))"
  have cat: "category_ok B cd tx c" if "c \<in> set bs" for c using ok bs that by (auto simp: index_ok_def)
  have e: "readEntry B cd tx c v = Some (g c v) \<and> ie_Path (g c v) = v \<and> k = orderKey (g c v)"
    if "(k, c, v) \<in> set (visits cs)" for k c v
    using that order_pairs_entry [OF B cat] by (auto simp: cs(3) g_def)
  have "\<forall>(k, c, v) \<in> set (visits cs). shown_entry B cd tx c v = Some (shown B tx (c, g c v))"
    using e by (auto simp: shown_entry_def shown_def)
  from query_loop_sorted [OF cs(2) this, of n] obtain M rest where
    M: "query_loop (shown_entry B cd tx) n cs = (map (\<lambda>(k, c, v). shown B tx (c, g c v)) (take n M), rest)"
    "sorted (map fst M)" "mset M = mset (visits cs)" "cursors_ok rest" "mset (visits rest) = mset (drop n M)"
    by blast
  have setM: "set M = set (visits cs)" using M(3) by (metis set_mset_mset)
  let ?f = "\<lambda>(k, c, v). (c, g c v)"
  have "distinct M" using distinct_visits [OF cs(2)] M(3) by (metis mset_eq_imp_distinct_iff)
  have "inj_on ?f (set M)"
  proof (rule inj_onI)
    fix x y assume x: "x \<in> set M" and y: "y \<in> set M" and xy: "?f x = ?f y"
    obtain k c v k' c' v' where n: "x = (k, c, v)" "y = (k', c', v')" by (metis prod_cases3)
    have "ie_Path (g c v) = v \<and> k = orderKey (g c v)" "ie_Path (g c' v') = v' \<and> k' = orderKey (g c' v')"
      using e x y unfolding n setM by blast+
    moreover have "c = c' \<and> g c v = g c' v'" using xy unfolding n prod.case prod.inject .
    ultimately show "x = y" unfolding n by metis
  qed
  show ?thesis
  proof (intro exI conjI)
    show "distinct (map ?f M)" using \<open>distinct M\<close> \<open>inj_on ?f (set M)\<close> by (simp add: distinct_map)
    show "queryEntries B cd tx bs cursor n = Inr (map (shown B tx) (take n (map ?f M)),
        map (\<lambda>(c, oc). (c, b64_encode (oc_key oc))) rest, n < length (map ?f M))"
    proof -
      have "visits rest = [] \<longleftrightarrow> drop n M = []" using M(5) by (metis mset_zero_iff)
      moreover have "visits rest = [] \<longleftrightarrow> rest = []" by (cases rest) (auto simp: pairs_of_def)
      ultimately have "rest \<noteq> [] \<longleftrightarrow> n < length M" by auto
      then show ?thesis by (simp add: queryEntries_def cs(1) M(1) take_map case_prod_beta comp_def)
    qed
    show "set (map ?f M) = pending B cd tx bs K"
    proof -
      have "(c, e) \<in> ?f ` set M \<longleftrightarrow> (c, e) \<in> pending B cd tx bs K" for c e
      proof
        assume "(c, e) \<in> ?f ` set M"
        then obtain k v where v: "(k, c, v) \<in> set (visits cs)" "e = g c v" unfolding setM by auto
        with e [OF v(1)] cs(3) show "(c, e) \<in> pending B cd tx bs K" by (auto simp: pending_def)
      next
        assume p: "(c, e) \<in> pending B cd tx bs K"
        then have "(orderKey e, ie_Path e) \<in> set (order_pairs B tx c)"
          using order_pairs_entry [OF B cat] by (auto simp: pending_def)
        with p have m: "(orderKey e, c, ie_Path e) \<in> set (visits cs)" by (simp add: cs(3) pending_def)
        moreover have "e = g c (ie_Path e)" using p by (simp add: g_def pending_def)
        ultimately show "(c, e) \<in> ?f ` set M" unfolding setM by force
      qed
      then show ?thesis by (simp only: set_map set_eq_iff split_paired_All) blast
    qed
    have o: "map (\<lambda>(c, e). orderKey e) (map ?f M) = map fst M" using e setM by (fastforce simp: comp_def)
    show "sorted (map (\<lambda>(c, e). orderKey e) (map ?f M))" unfolding o by (rule M(2))
    have "map resume_at (drop n (map ?f M)) = map (\<lambda>(k, c, v). (c, b64_encode k)) (drop n M)"
      using e setM by (auto simp: drop_map resume_at_def dest!: in_set_dropD)
    moreover have "sorted (map fst (drop n M))" using M(2) by (simp add: sorted_wrt_drop flip: drop_map)
    ultimately show "map_of (map (\<lambda>(c, oc). (c, b64_encode (oc_key oc))) rest) = map_of (map resume_at (drop n (map ?f M)))"
      using first_of_sorted [OF _ M(4,5), of b64_encode] by simp
  qed
qed


section \<open>Page after page\<close>

lemma effective_limit_pos: "0 < effective_limit limit" "effective_limit limit \<le> 500"
  by (auto simp: effective_limit_def)

lemma target_buckets_sub: "set (target_buckets cats) \<subseteq> set buckets"
  by (auto simp: target_buckets_def Let_def List.map_filter_def bucketForCategory_def split: if_splits)

lemma target_buckets_in: "set cats \<subseteq> set buckets \<Longrightarrow> cats \<noteq> [] \<Longrightarrow> target_buckets cats = cats"
proof -
  assume a: "set cats \<subseteq> set buckets" "cats \<noteq> []"
  from a(1) have "List.map_filter bucketForCategory cats = cats"
    by (induction cats) (auto simp: List.map_filter_simps bucketForCategory_def)
  with a show ?thesis by (simp add: target_buckets_def)
qed

lemma query_result:
  assumes B: "bolt_ok B" and ok: "index_ok B cd tx"
    and start: "\<forall>c \<in> set (target_buckets cats). start_key cursor c = Inr (K c)"
  shows "\<exists>L r. Query B cd True tx cats cursor limit = Inr r \<and>
    iq_Entries r = map (shown B tx) (take (effective_limit limit) L) \<and> (iq_HasMore r \<longleftrightarrow> effective_limit limit < length L) \<and>
    map_of (iq_NextCursor r) = map_of (map resume_at (drop (effective_limit limit) L)) \<and>
    distinct L \<and> set L = pending B cd tx (target_buckets cats) K \<and> sorted (map (\<lambda>(c, e). orderKey e) L)"
proof -
  let ?n = "effective_limit limit"
  obtain L nxt where q: "queryEntries B cd tx (target_buckets cats) cursor ?n
      = Inr (map (shown B tx) (take ?n L), nxt, ?n < length L)" "map_of nxt = map_of (map resume_at (drop ?n L))"
    "distinct L" "set L = pending B cd tx (target_buckets cats) K" "sorted (map (\<lambda>(c, e). orderKey e) L)"
    using query_page [OF B ok target_buckets_sub start] by blast
  then show ?thesis by (intro exI [of _ L]) (auto simp: Query_def)
qed

text \<open>A client that asks for page after page, with the cursor the last one named.\<close>

fun pages :: "'tx bolt \<Rightarrow> entry_codec \<Rightarrow> 'tx \<Rightarrow> string list \<Rightarrow> int \<Rightarrow> nat \<Rightarrow> (string \<rightharpoonup> string) \<Rightarrow> IndexEntry list list" where
  "pages B cd tx cats limit 0 cursor = []"
| "pages B cd tx cats limit (Suc fuel) cursor = (case Query B cd True tx cats cursor limit of
     Inl _ \<Rightarrow> []
   | Inr r \<Rightarrow> iq_Entries r #
       (if iq_HasMore r then pages B cd tx cats limit fuel (map_of (iq_NextCursor r)) else []))"

lemma pending_unique:
  "(c, e) \<in> pending B cd tx bs K \<Longrightarrow> (c, e') \<in> pending B cd tx bs K' \<Longrightarrow> orderKey e = orderKey e' \<Longrightarrow> e = e'"
  using orderKey_path [of e e'] by (auto simp: pending_def)

lemma pending_sorted_unique:
  assumes "sorted (map (\<lambda>(c, e). orderKey e) L)" "sorted (map (\<lambda>(c, e). orderKey e) L')" "distinct L" "distinct L'"
    "set L = set L'" "set L \<subseteq> pending B cd tx bs K" "fst ` set L \<subseteq> {c}"
  shows "L = L'"
proof -
  have i: "inj_on (\<lambda>(c, e). orderKey e) (set L)"
  proof (rule inj_onI)
    fix x y assume x: "x \<in> set L" and y: "y \<in> set L" and e: "(\<lambda>(c, e). orderKey e) x = (\<lambda>(c, e). orderKey e) y"
    have xy: "x = (c, snd x)" "y = (c, snd y)" using assms(7) x y by (auto simp: image_subset_iff prod_eq_iff)
    have "snd x = snd y" using x y assms(6) e xy pending_unique [of c "snd x" B cd tx bs K "snd y" K] by (metis (no_types, lifting) prod.case subsetD)
    with xy show "x = y" by metis
  qed
  have "map (\<lambda>(c, e). orderKey e) L = map (\<lambda>(c, e). orderKey e) L'"
  proof (rule sorted_distinct_set_unique)
    show "distinct (map (\<lambda>(c, e). orderKey e) L)" using assms(3) i by (simp add: distinct_map)
    show "distinct (map (\<lambda>(c, e). orderKey e) L')" using assms(4,5) i by (simp add: distinct_map)
    show "set (map (\<lambda>(c, e). orderKey e) L) = set (map (\<lambda>(c, e). orderKey e) L')" using assms(5) by simp
  qed (use assms(1,2) in auto)
  then show ?thesis using map_inj_on [of "\<lambda>(c, e). orderKey e" L L'] i assms(5) by simp
qed


text \<open>Within a single category the pages continue each other.\<close>

lemma start_key_resume:
  "map_of (map resume_at L) c = Some pos \<Longrightarrow> cursor c = Some pos \<Longrightarrow>
   \<exists>e. (c, e) \<in> set L \<and> start_key cursor c = Inr (orderKey e)"
proof -
  assume m: "map_of (map resume_at L) c = Some pos" and cur: "cursor c = Some pos"
  from map_of_SomeD [OF m] obtain e where e: "(c, e) \<in> set L" "pos = b64_encode (orderKey e)"
    by (auto simp: resume_at_def)
  have "length (orderKey e) \<noteq> 0" by (simp add: orderKey_def)
  then have "orderKey e \<noteq> []" by simp
  with e cur show ?thesis by (auto simp: start_key_def)
qed

lemma in_set_drop: "x \<in> set (drop m L) \<longleftrightarrow> (\<exists>j. m \<le> j \<and> j < length L \<and> x = L ! j)"
proof
  assume "x \<in> set (drop m L)"
  then obtain i where "i < length L - m" "x = L ! (m + i)" by (auto simp: in_set_conv_nth)
  then show "\<exists>j. m \<le> j \<and> j < length L \<and> x = L ! j" by (intro exI [of _ "m + i"]) auto
next
  assume "\<exists>j. m \<le> j \<and> j < length L \<and> x = L ! j"
  then obtain j where "m \<le> j" "j < length L" "x = L ! j" by blast
  then have "j - m < length (drop m L)" "x = drop m L ! (j - m)" by auto
  then show "x \<in> set (drop m L)" by (metis nth_mem)
qed

lemma bytes_least: "[] \<le> (k :: bytes)"
  by (metis Nil_less_Cons list.exhaust order.order_iff_strict)

lemma pending_from:
  assumes L: "distinct L" "set L = pending B cd tx [c] (\<lambda>_. [])" "sorted (map (\<lambda>(c, e). orderKey e) L)" and m: "m < length L"
  shows "pending B cd tx [c] (\<lambda>_. orderKey (snd (L ! m))) = set (drop m L)" (is "?P = _")
proof (rule set_eqI)
  fix x
  let ?e = "snd (L ! m)"
  have le: "orderKey (snd (L ! i)) \<le> orderKey (snd (L ! j))" if "i \<le> j" "j < length L" for i j
    using sorted_nth_mono [OF L(3) that(1)] that by (simp add: case_prod_beta)
  have pair: "y = (c, snd y)" if "y \<in> set L" for y using that unfolding L(2) by (auto simp: pending_def)
  have "x \<in> ?P \<longleftrightarrow> x \<in> set L \<and> orderKey ?e \<le> orderKey (snd x)"
    unfolding L(2) by (auto simp: pending_def bytes_least)
  also have "\<dots> \<longleftrightarrow> x \<in> set (drop m L)"
  proof
    assume x: "x \<in> set L \<and> orderKey ?e \<le> orderKey (snd x)"
    then obtain j where j: "j < length L" "x = L ! j" by (auto simp: in_set_conv_nth)
    have "m \<le> j"
    proof (rule ccontr)
      assume mj: "\<not> m \<le> j"
      then have "orderKey (snd x) = orderKey ?e" using le [of j m] m x j by simp
      then have "snd x = ?e"
        using pending_unique [of c "snd x" B cd tx "[c]" "\<lambda>_. []" ?e] pair nth_mem [OF m] x unfolding L(2) by metis
      then have "L ! j = L ! m" using pair [of x] pair [OF nth_mem [OF m]] x j(2) by metis
      with L(1) j(1) m mj show False by (simp add: nth_eq_iff_index_eq)
    qed
    with j show "x \<in> set (drop m L)" unfolding in_set_drop by blast
  qed (use le m in \<open>auto simp: in_set_drop\<close>)
  finally show "x \<in> ?P \<longleftrightarrow> x \<in> set (drop m L)" .
qed

lemma one_category_page:
  assumes B: "bolt_ok B" and ok: "index_ok B cd tx" and c: "c \<in> set buckets"
    and L: "distinct L" "set L = pending B cd tx [c] (\<lambda>_. [])" "sorted (map (\<lambda>(c, e). orderKey e) L)"
    and m: "m < length L \<or> m = 0"
    and cursor: "cursor = (if m = 0 then Map.empty else map_of (map resume_at (drop m L)))"
  shows "\<exists>r. Query B cd True tx [c] cursor limit = Inr r \<and>
    iq_Entries r = map (shown B tx) (take (effective_limit limit) (drop m L)) \<and>
    (iq_HasMore r \<longleftrightarrow> m + effective_limit limit < length L) \<and>
    map_of (iq_NextCursor r) = map_of (map resume_at (drop (m + effective_limit limit) L))"
proof -
  have t: "target_buckets [c] = [c]" using c by (simp add: target_buckets_in)
  have "\<exists>K. start_key cursor c = Inr K \<and> pending B cd tx [c] (\<lambda>_. K) = set (drop m L)"
  proof (cases "m = 0")
    case True
    with cursor L(2) show ?thesis by (simp add: start_key_def)
  next
    case False
    with m have ml: "m < length L" by simp
    let ?e = "snd (L ! m)"
    have "L ! m = (c, ?e)" using nth_mem [OF ml] unfolding L(2) by (auto simp: pending_def)
    then have "drop m L = (c, ?e) # drop (Suc m) L" using Cons_nth_drop_Suc [OF ml] by simp
    then have "cursor c = Some (b64_encode (orderKey ?e))"
      using False by (simp add: cursor resume_at_def)
    moreover have "orderKey ?e \<noteq> []" by (metis append_is_Nil_conv list.size(3) mtimeKey_length orderKey_def zero_neq_numeral)
    ultimately have "start_key cursor c = Inr (orderKey ?e)" by (simp add: start_key_def)
    with pending_from [OF L ml] show ?thesis by blast
  qed
  then obtain K where K: "start_key cursor c = Inr K" "pending B cd tx [c] (\<lambda>_. K) = set (drop m L)" by blast
  obtain M r where q: "Query B cd True tx [c] cursor limit = Inr r"
    "iq_Entries r = map (shown B tx) (take (effective_limit limit) M)" "iq_HasMore r \<longleftrightarrow> effective_limit limit < length M"
    "map_of (iq_NextCursor r) = map_of (map resume_at (drop (effective_limit limit) M))"
    "distinct M" "set M = pending B cd tx [c] (\<lambda>_. K)" "sorted (map (\<lambda>(c, e). orderKey e) M)"
    using query_result [OF B ok, of "[c]" cursor "\<lambda>_. K" limit] K(1) unfolding t by auto
  have "M = drop m L"
  proof (rule pending_sorted_unique [OF q(7) _ q(5)])
    show "sorted (map (\<lambda>(c, e). orderKey e) (drop m L))" using L(3) by (simp add: sorted_wrt_drop flip: drop_map)
    show "fst ` set M \<subseteq> {c}" unfolding q(6) by (auto simp: pending_def)
  qed (use L(1) q(6) K(2) in auto)
  with q(1-4) show ?thesis by (intro exI [of _ r]) (auto simp: add.commute)
qed


lemma one_category_pages:
  assumes B: "bolt_ok B" and ok: "index_ok B cd tx" and c: "c \<in> set buckets"
    and L: "distinct L" "set L = pending B cd tx [c] (\<lambda>_. [])" "sorted (map (\<lambda>(c, e). orderKey e) L)"
  shows "m < length L \<or> m = 0 \<Longrightarrow> cursor = (if m = 0 then Map.empty else map_of (map resume_at (drop m L))) \<Longrightarrow>
    concat (pages B cd tx [c] limit fuel cursor) = map (shown B tx) (take (fuel * effective_limit limit) (drop m L))"
proof (induction fuel arbitrary: m cursor)
  case (Suc fuel)
  let ?n = "effective_limit limit"
  obtain r where r: "Query B cd True tx [c] cursor limit = Inr r"
    "iq_Entries r = map (shown B tx) (take ?n (drop m L))" "iq_HasMore r \<longleftrightarrow> m + ?n < length L"
    "map_of (iq_NextCursor r) = map_of (map resume_at (drop (m + ?n) L))"
    using one_category_page [OF B ok c L Suc.prems] by blast
  show ?case
  proof (cases "m + ?n < length L")
    case True
    have "concat (pages B cd tx [c] limit fuel (map_of (iq_NextCursor r)))
        = map (shown B tx) (take (fuel * ?n) (drop (m + ?n) L))"
      by (rule Suc.IH) (use True r(4) effective_limit_pos(1) [of limit] in auto)
    with True r show ?thesis by (simp add: take_add add.commute flip: map_append)
  next
    case False
    with r show ?thesis by simp
  qed
qed simp

lemma pages_everything:
  assumes B: "bolt_ok B" and ok: "index_ok B cd tx" and c: "c \<in> set buckets"
    and fuel: "card {e. readEntry B cd tx c (ie_Path e) = Some e} \<le> fuel"
  shows "\<exists>L. distinct L \<and> set L = {e. readEntry B cd tx c (ie_Path e) = Some e} \<and> sorted (map orderKey L) \<and>
    concat (pages B cd tx [c] limit fuel Map.empty) = map (\<lambda>e. with_thumbnail B tx (ie_Path e) e) L"
proof -
  have t: "target_buckets [c] = [c]" using c by (simp add: target_buckets_in)
  obtain L r where L: "distinct L" "set L = pending B cd tx [c] (\<lambda>_. [])" "sorted (map (\<lambda>(c, e). orderKey e) L)"
    using query_result [OF B ok, of "[c]" Map.empty "\<lambda>_. []" limit] unfolding t by (auto simp: start_key_def)
  have P: "pending B cd tx [c] (\<lambda>_. []) = Pair c ` {e. readEntry B cd tx c (ie_Path e) = Some e}"
    by (auto simp: pending_def bytes_least)
  have i: "inj_on snd (set L)" unfolding L(2) P by (auto simp: inj_on_def)
  have s: "snd ` set L = {e. readEntry B cd tx c (ie_Path e) = Some e}" unfolding L(2) P by force
  have len: "length L \<le> fuel * effective_limit limit"
  proof -
    have "length L = card (snd ` set L)" using L(1) i by (simp add: card_image distinct_card)
    also have "\<dots> \<le> fuel * 1" using fuel s by simp
    also have "\<dots> \<le> fuel * effective_limit limit" using effective_limit_pos(1) [of limit] by (intro mult_le_mono2) simp
    finally show ?thesis .
  qed
  have "concat (pages B cd tx [c] limit fuel Map.empty) = map (shown B tx) (take (fuel * effective_limit limit) (drop 0 L))"
    by (rule one_category_pages [OF B ok c L]) simp_all
  also have "\<dots> = map (\<lambda>e. with_thumbnail B tx (ie_Path e) e) (map snd L)" using len by (simp add: shown_def case_prod_beta)
  finally have q: "concat (pages B cd tx [c] limit fuel Map.empty) = map (\<lambda>e. with_thumbnail B tx (ie_Path e) e) (map snd L)" .
  have "map orderKey (map snd L) = map (\<lambda>(c, e). orderKey e) L" by (simp add: case_prod_beta comp_def)
  with L(3) have "sorted (map orderKey (map snd L))" by (simp only:)
  moreover have "distinct (map snd L)" using L(1) i by (simp add: distinct_map)
  moreover have "set (map snd L) = {e. readEntry B cd tx c (ie_Path e) = Some e}" using s by simp
  ultimately show ?thesis using q by blast
qed

section \<open>Two categories\<close>

lemma split_sorted:
  "sorted (map f L) \<Longrightarrow> (\<And>x y. x \<in> set L \<Longrightarrow> y \<in> set L \<Longrightarrow> P x \<Longrightarrow> \<not> P y \<Longrightarrow> f x < (f y :: bytes)) \<Longrightarrow>
   L = filter P L @ filter (\<lambda>x. \<not> P x) L"
proof (induction L)
  case (Cons a L)
  show ?case
  proof (cases "P a")
    case True
    with Cons show ?thesis by auto
  next
    case False
    have "\<not> P x" if "x \<in> set L" for x using Cons.prems(1) Cons.prems(2) [of x a] False that by fastforce
    then have "filter P L = []" by simp
    with False Cons show ?thesis by auto
  qed
qed simp

text \<open>
  The newer category fills a page exactly: nothing says that it is exhausted, so that the next page
  begins with it again.
\<close>

definition fills_page :: "'tx bolt \<Rightarrow> entry_codec \<Rightarrow> 'tx \<Rightarrow> bytes \<Rightarrow> bytes \<Rightarrow> nat \<Rightarrow> bool" where
  "fills_page B cd tx b a n \<longleftrightarrow> a \<in> set buckets \<and> b \<in> set buckets \<and> a \<noteq> b \<and>
     card {e. readEntry B cd tx b (ie_Path e) = Some e} = n \<and>
     (\<exists>e. readEntry B cd tx a (ie_Path e) = Some e) \<and>
     (\<forall>e e'. readEntry B cd tx b (ie_Path e) = Some e \<longrightarrow> readEntry B cd tx a (ie_Path e') = Some e' \<longrightarrow> orderKey e < orderKey e')"

definition misses_none :: "'tx bolt \<Rightarrow> entry_codec \<Rightarrow> 'tx \<Rightarrow> bytes \<Rightarrow> bytes \<Rightarrow> (string \<rightharpoonup> string) \<Rightarrow> bool" where
  "misses_none B cd tx b a cursor \<longleftrightarrow> start_key cursor b = Inr [] \<and>
     (\<exists>K. start_key cursor a = Inr K \<and> (\<forall>e. readEntry B cd tx a (ie_Path e) = Some e \<longrightarrow> K \<le> orderKey e))"

lemma two_category_page:
  assumes B: "bolt_ok B" and ok: "index_ok B cd tx" and f: "fills_page B cd tx b a (effective_limit limit)"
    and cursor: "misses_none B cd tx b a cursor"
  shows "\<exists>L r. Query B cd True tx [a, b] cursor limit = Inr r \<and>
      iq_Entries r = map (shown B tx) (filter (\<lambda>x. fst x = b) L) \<and> (iq_HasMore r \<longleftrightarrow> effective_limit limit < length L) \<and>
      map_of (iq_NextCursor r) = map_of (map resume_at (filter (\<lambda>x. fst x \<noteq> b) L)) \<and>
      distinct L \<and> set L = {(c, e). c \<in> {a, b} \<and> readEntry B cd tx c (ie_Path e) = Some e} \<and>
      sorted (map (\<lambda>(c, e). orderKey e) L) \<and> length (filter (\<lambda>x. fst x = b) L) = effective_limit limit"
proof -
  let ?n = "effective_limit limit" and ?E = "\<lambda>c. {e. readEntry B cd tx c (ie_Path e) = Some e}"
  note ab = f [unfolded fills_page_def]
  have t: "target_buckets [a, b] = [a, b]" using ab by (simp add: target_buckets_in)
  obtain K where k: "start_key cursor b = Inr []" "start_key cursor a = Inr K" "\<forall>e. readEntry B cd tx a (ie_Path e) = Some e \<longrightarrow> K \<le> orderKey e"
    using cursor by (auto simp: misses_none_def)
  have P: "pending B cd tx [a, b] ((\<lambda>_. [])(a := K)) = {(c, e). c \<in> {a, b} \<and> readEntry B cd tx c (ie_Path e) = Some e}"
    using k(3) ab by (auto simp: pending_def bytes_least)
  have st: "\<forall>c \<in> set (target_buckets [a, b]). start_key cursor c = Inr (((\<lambda>_. [])(a := K)) c)" using k(1,2) ab by (auto simp: t)
  obtain L r where L: "Query B cd True tx [a, b] cursor limit = Inr r" "iq_Entries r = map (shown B tx) (take ?n L)"
    "iq_HasMore r \<longleftrightarrow> ?n < length L" "map_of (iq_NextCursor r) = map_of (map resume_at (drop ?n L))"
    "distinct L" "set L = {(c, e). c \<in> {a, b} \<and> readEntry B cd tx c (ie_Path e) = Some e}" "sorted (map (\<lambda>(c, e). orderKey e) L)"
    using query_result [OF B ok st, of limit] unfolding t P by blast
  have split: "L = filter (\<lambda>x. fst x = b) L @ filter (\<lambda>x. fst x \<noteq> b) L"
    by (rule split_sorted [OF L(7)]) (use L(6) ab in auto)
  have len: "length (filter (\<lambda>x. fst x = b) L) = ?n"
  proof -
    have "set (filter (\<lambda>x. fst x = b) L) = Pair b ` ?E b" using L(6) by auto
    then have "card (Pair b ` ?E b) = length (filter (\<lambda>x. fst x = b) L)" using L(5) by (metis distinct_card distinct_filter)
    with ab show ?thesis by (simp add: card_image inj_on_def)
  qed
  with split have tk: "take ?n L = filter (\<lambda>x. fst x = b) L" and dr: "drop ?n L = filter (\<lambda>x. fst x \<noteq> b) L"
    by (metis append_eq_conv_conj)+
  show ?thesis
    by (intro exI [of _ L] exI [of _ r] conjI) (fact L(1) L(2) [unfolded tk] L(3) L(4) [unfolded dr] L(5-7) len)+
qed

lemma repeated_page:
  assumes B: "bolt_ok B" and ok: "index_ok B cd tx" and f: "fills_page B cd tx b a (effective_limit limit)"
  shows "\<exists>P. set P = (\<lambda>e. with_thumbnail B tx (ie_Path e) e) ` {e. readEntry B cd tx b (ie_Path e) = Some e} \<and>
    (\<forall>cursor. misses_none B cd tx b a cursor \<longrightarrow>
      (\<exists>r. Query B cd True tx [a, b] cursor limit = Inr r \<and> iq_Entries r = P \<and> iq_HasMore r \<and>
        misses_none B cd tx b a (map_of (iq_NextCursor r))))"
proof -
  have z: "misses_none B cd tx b a Map.empty" by (simp add: misses_none_def start_key_def bytes_least)
  obtain L0 where L0: "distinct L0" "set L0 = {(c, e). c \<in> {a, b} \<and> readEntry B cd tx c (ie_Path e) = Some e}"
    "sorted (map (\<lambda>(c, e). orderKey e) L0)"
    using two_category_page [OF B ok f z] by blast
  define M where "M = filter (\<lambda>x. fst x = b) L0"
  have "\<exists>r. Query B cd True tx [a, b] cursor limit = Inr r \<and> iq_Entries r = map (shown B tx) M \<and> iq_HasMore r \<and>
        misses_none B cd tx b a (map_of (iq_NextCursor r))" if c: "misses_none B cd tx b a cursor" for cursor
  proof -
    obtain L r where L: "Query B cd True tx [a, b] cursor limit = Inr r"
      "iq_Entries r = map (shown B tx) (filter (\<lambda>x. fst x = b) L)" "iq_HasMore r \<longleftrightarrow> effective_limit limit < length L"
      "map_of (iq_NextCursor r) = map_of (map resume_at (filter (\<lambda>x. fst x \<noteq> b) L))"
      "distinct L" "set L = {(c, e). c \<in> {a, b} \<and> readEntry B cd tx c (ie_Path e) = Some e}"
      "sorted (map (\<lambda>(c, e). orderKey e) L)" "length (filter (\<lambda>x. fst x = b) L) = effective_limit limit"
      using two_category_page [OF B ok f c] by blast
    let ?A = "filter (\<lambda>x. fst x \<noteq> b) L"
    obtain e0 where e0: "readEntry B cd tx a (ie_Path e0) = Some e0" "a \<noteq> b" using f by (auto simp: fills_page_def)
    have setA: "set ?A = {(a, e) |e. readEntry B cd tx a (ie_Path e) = Some e}" using L(6) e0(2) by auto
    have sortedA: "sorted (map (\<lambda>(c, e). orderKey e) ?A)" using L(7) by (rule sorted_filter)
    obtain x xs where A: "?A = (a, x) # xs" using setA e0(1) by (cases ?A) auto
    have "length ?A \<noteq> 0" using A by simp
    then have "iq_HasMore r" using L(3,8) sum_length_filter_compl [of "\<lambda>x. fst x = b" L] by linarith
    moreover have "filter (\<lambda>x. fst x = b) L = M" unfolding M_def
      by (rule pending_sorted_unique [where B = B and cd = cd and tx = tx and bs = "[b]" and K = "\<lambda>_. []" and c = b])
        (use L(5-7) L0 in \<open>auto simp: sorted_filter pending_def bytes_least\<close>)
    moreover have "misses_none B cd tx b a (map_of (iq_NextCursor r))"
    proof -
      have "map_of (iq_NextCursor r) a = Some (b64_encode (orderKey x))" unfolding L(4) A by (simp add: resume_at_def)
      moreover have "orderKey x \<noteq> []" by (metis append_is_Nil_conv list.size(3) mtimeKey_length orderKey_def zero_neq_numeral)
      ultimately have "start_key (map_of (iq_NextCursor r)) a = Inr (orderKey x)" by (simp add: start_key_def)
      moreover have "map_of (iq_NextCursor r) b = None" unfolding L(4) by (auto simp: map_of_eq_None_iff resume_at_def)
      moreover have "orderKey x \<le> orderKey e" if "readEntry B cd tx a (ie_Path e) = Some e" for e
      proof -
        have "(a, e) \<in> set ((a, x) # xs)" using that setA A by auto
        with sortedA A show ?thesis by auto
      qed
      ultimately show ?thesis by (simp add: misses_none_def start_key_def)
    qed
    ultimately show ?thesis using L(1,2) by blast
  qed
  moreover have "set (map (shown B tx) M) = (\<lambda>e. with_thumbnail B tx (ie_Path e) e) ` {e. readEntry B cd tx b (ie_Path e) = Some e}"
    using L0(2) by (force simp: M_def shown_def)
  ultimately show ?thesis by blast
qed

lemma pages_repeat:
  assumes "\<And>cursor. I cursor \<Longrightarrow> \<exists>r. Query B cd True tx cats cursor limit = Inr r \<and> iq_Entries r = P \<and> iq_HasMore r \<and> I (map_of (iq_NextCursor r))"
  shows "I cursor \<Longrightarrow> pages B cd tx cats limit fuel cursor = replicate fuel P"
proof (induction fuel arbitrary: cursor)
  case (Suc fuel)
  with assms [OF Suc.prems] show ?case by auto
qed simp


section \<open>An instance of the libraries\<close>

type_synonym demo_tx = "bytes \<rightharpoonup> (bytes \<times> bytes) list"

definition demo_sorted :: "(bytes \<times> bytes) list \<Rightarrow> (bytes \<times> bytes) list" where
  "demo_sorted al = map (\<lambda>k. (k, the (map_of al k))) (sort (remdups (map fst al)))"

definition demo_change :: "bytes \<Rightarrow> ((bytes \<times> bytes) list \<Rightarrow> (bytes \<times> bytes) list) \<Rightarrow> demo_tx \<Rightarrow> demo_tx result" where
  "demo_change b f tx = (case tx b of None \<Rightarrow> Inl (Errorf ''bucket not found'') | Some al \<Rightarrow> Inr (tx(b \<mapsto> f al)))"

definition demo_bolt :: "demo_tx bolt" where
  "demo_bolt = \<lparr>bb_pairs = \<lambda>tx b. map_option demo_sorted (tx b),
     bb_put = \<lambda>b k v. demo_change b ((#) (k, v)),
     bb_delete = \<lambda>b k. demo_change b (filter (\<lambda>p. fst p \<noteq> k)),
     bb_create = \<lambda>b tx. Inr (case tx b of None \<Rightarrow> tx(b \<mapsto> []) | Some _ \<Rightarrow> tx),
     bb_commit = \<lambda>_. None\<rparr>"

lemma demo_sorted_get: "map_of (demo_sorted al) k = map_of al k"
proof -
  have "map_of (map (\<lambda>k. (k, the (map_of al k))) ks) k = (if k \<in> set ks then Some (the (map_of al k)) else None)" for ks
    by (induction ks) auto
  then have "map_of (demo_sorted al) k = (if k \<in> fst ` set al then Some (the (map_of al k)) else None)"
    by (simp add: demo_sorted_def)
  then show ?thesis using map_of_eq_None_iff [of al k] by (cases "map_of al k") (auto simp: image_iff)
qed

lemma demo_bolt_get: "bucket_get demo_bolt tx b k = (case tx b of None \<Rightarrow> None | Some al \<Rightarrow> map_of al k)"
  by (simp add: bucket_get_def demo_bolt_def demo_sorted_get split: option.split)

lemma demo_bolt_ok: "bolt_ok demo_bolt"
proof -
  have f: "map_of (filter (\<lambda>p. fst p \<noteq> k) al) = (map_of al)(k := None)" for k :: bytes and al :: "(bytes \<times> bytes) list"
    by (induction al) (auto simp: fun_eq_iff)
  have s: "sorted_wrt (<) (map fst (demo_sorted al))" for al
    by (simp add: demo_sorted_def comp_def strict_sorted_iff)
  show ?thesis unfolding bolt_ok_def
  proof (intro conjI allI impI)
    fix tx b ps assume "bb_pairs demo_bolt tx b = Some ps"
    then show "sorted_wrt (<) (map fst ps)" using s by (auto simp: demo_bolt_def)
  next
    fix b k v and tx tx' :: demo_tx assume "bb_put demo_bolt b k v tx = Inr tx'"
    then obtain al where al: "tx b = Some al" "tx' = tx(b \<mapsto> (k, v) # al)"
      by (auto simp: demo_bolt_def demo_change_def split: option.splits)
    show "bb_pairs demo_bolt tx b \<noteq> None" "bb_pairs demo_bolt tx' b \<noteq> None"
      "bucket_get demo_bolt tx' b = (bucket_get demo_bolt tx b)(k \<mapsto> v)"
      using al by (simp_all add: fun_eq_iff demo_bolt_get) (simp_all add: demo_bolt_def)
    show "bb_pairs demo_bolt tx' c = bb_pairs demo_bolt tx c" if "c \<noteq> b" for c using al that by (simp add: demo_bolt_def)
  next
    fix b k and tx :: demo_tx assume "bb_pairs demo_bolt tx b \<noteq> None"
    then obtain al where al: "tx b = Some al" by (auto simp: demo_bolt_def)
    show "\<exists>tx'. bb_delete demo_bolt b k tx = Inr tx' \<and> bb_pairs demo_bolt tx' b \<noteq> None \<and>
        bucket_get demo_bolt tx' b = (bucket_get demo_bolt tx b)(k := None) \<and>
        (\<forall>c. c \<noteq> b \<longrightarrow> bb_pairs demo_bolt tx' c = bb_pairs demo_bolt tx c)"
      by (intro exI [of _ "tx(b \<mapsto> filter (\<lambda>p. fst p \<noteq> k) al)"] conjI)
        (simp_all add: fun_eq_iff demo_bolt_get al f, simp_all add: demo_bolt_def demo_change_def al)
  next
    fix b and tx tx' :: demo_tx assume c: "bb_create demo_bolt b tx = Inr tx'"
    show "bb_pairs demo_bolt tx' b = Some (case bb_pairs demo_bolt tx b of None \<Rightarrow> [] | Some ps \<Rightarrow> ps)"
      using c by (auto simp: demo_bolt_def demo_sorted_def split: option.splits)
    show "bb_pairs demo_bolt tx' c = bb_pairs demo_bolt tx c" if "c \<noteq> b" for c
      using c that by (auto simp: demo_bolt_def split: option.splits)
  qed
qed

text \<open>Three pictures, a video, and a codec that knows them.\<close>

definition demo_entry :: "string \<Rightarrow> string \<Rightarrow> int \<Rightarrow> IndexEntry" where
  "demo_entry cat p t = \<lparr>ie_Path = p, ie_Name = p, ie_Category = cat, ie_Size = 1, ie_ModTime = t, ie_Thumbnail = ''''\<rparr>"

definition demo_entries :: "IndexEntry list" where
  "demo_entries = [demo_entry ''images'' ''/a'' 1, demo_entry ''images'' ''/b'' 2, demo_entry ''images'' ''/a'' 3,
     demo_entry ''videos'' ''/v'' 9]"

definition demo_entry_codec :: entry_codec where
  "demo_entry_codec = \<lparr>enc_entry = \<lambda>e. (case List.find (\<lambda>i. demo_entries ! i = e) [0..<4] of
       None \<Rightarrow> Inl (Errorf ''json'') | Some i \<Rightarrow> Inr (replicate i CHR ''x'')),
     dec_entry = \<lambda>b. if length b < 4 then Inr (demo_entries ! length b) else Inl (Errorf ''json'')\<rparr>"

lemma demo_entry_codec_ok: "codec_ok demo_entry_codec"
proof -
  have "dec_entry demo_entry_codec b = Inr e" if "enc_entry demo_entry_codec e = Inr b" for e b
  proof -
    from that obtain i where "List.find (\<lambda>i. demo_entries ! i = e) [0..<4] = Some i" "b = replicate i CHR ''x''"
      by (auto simp: demo_entry_codec_def split: option.splits)
    then show ?thesis by (auto simp: demo_entry_codec_def find_Some_iff)
  qed
  then show ?thesis by (simp add: codec_ok_def)
qed


section \<open>Properties\<close>

text \<open>The states an index that was opened gets into.\<close>

definition reachable_index :: "'tx bolt \<Rightarrow> entry_codec \<Rightarrow> 'tx \<Rightarrow> bool" where
  "reachable_index B cd tx \<longleftrightarrow> (\<exists>db0 db ops. openable B cd db0 \<and> newIndexDB B cd (Inr db0) = Inr db \<and>
     (\<forall>e. Add e \<in> set ops \<longrightarrow> entry_utf8 e) \<and> tx = foldl (index_step B cd) db ops)"

lemma reachable_ok:
  assumes "bolt_ok B" "codec_ok cd" "reachable_index B cd tx"
  shows "index_ok B cd tx"
  using assms(3) newIndexDB_ok [OF assms(1)] index_run_ok [OF assms(1,2)] unfolding reachable_index_def by metis

text \<open>A database that holds one picture and a newer video.\<close>

abbreviation demo_picture :: IndexEntry where
  "demo_picture \<equiv> demo_entry ''images'' ''/a'' 3"

abbreviation demo_video :: IndexEntry where
  "demo_video \<equiv> demo_entry ''videos'' ''/v'' 9"

definition demo_db :: demo_tx where
  "demo_db b = (if b = ''images'' then Some [(''/a'', ''xx'')] else if b = ''videos'' then Some [(''/v'', ''xxx'')]
     else if b = ''images_order'' then Some [(orderKey demo_picture, ''/a'')]
     else if b = ''videos_order'' then Some [(orderKey demo_video, ''/v'')]
     else if b \<in> set allBuckets then Some [] else None)"

lemma demo_db_get:
  "bucket_get demo_bolt demo_db ''images'' = [''/a'' \<mapsto> ''xx'']" "bucket_get demo_bolt demo_db ''videos'' = [''/v'' \<mapsto> ''xxx'']"
  "bucket_get demo_bolt demo_db ''images_order'' = [orderKey demo_picture \<mapsto> ''/a'']"
  "bucket_get demo_bolt demo_db ''videos_order'' = [orderKey demo_video \<mapsto> ''/v'']"
  "b \<notin> {''images'', ''videos'', ''images_order'', ''videos_order''} \<Longrightarrow> bucket_get demo_bolt demo_db b = Map.empty"
  by (simp_all add: fun_eq_iff demo_bolt_get demo_db_def)

lemma demo_decode: "dec_entry demo_entry_codec ''xx'' = Inr demo_picture" "dec_entry demo_entry_codec ''xxx'' = Inr demo_video"
  by (simp_all add: demo_entry_codec_def demo_entries_def)

lemma demo_read:
  "readEntry demo_bolt demo_entry_codec demo_db ''images'' p = (if p = ''/a'' then Some demo_picture else None)"
  "readEntry demo_bolt demo_entry_codec demo_db ''videos'' p = (if p = ''/v'' then Some demo_video else None)"
  by (simp_all add: readEntry_def demo_db_get demo_decode)

lemma demo_openable: "openable demo_bolt demo_entry_codec demo_db"
proof -
  have "category_ok demo_bolt demo_entry_codec demo_db cat" if "cat \<in> set buckets" for cat
    using that by (auto simp: buckets_def category_ok_def orderBucketName_def demo_db_get demo_decode demo_entry_def split: if_splits)
  then show ?thesis by (simp add: openable_def category_ok_def)
qed

lemma demo_new: "newIndexDB demo_bolt demo_entry_codec (Inr demo_db) = Inr demo_db"
proof -
  have c: "bb_create demo_bolt b demo_db = Inr demo_db" if "b \<in> set allBuckets" for b
    using that by (auto simp: demo_bolt_def demo_db_def)
  have "foldl (\<lambda>r name. try_result r (bb_create demo_bolt name)) (Inr demo_db) bs = Inr demo_db" if "set bs \<subseteq> set allBuckets" for bs
    using that by (induction bs) (auto simp: c)
  then have i: "initBuckets demo_bolt demo_db = Inr demo_db" by (simp add: initBuckets_def)
  have e: "index_bucket demo_bolt demo_entry_codec b demo_db = Inr demo_db" if "b \<in> set buckets" for b
    using that by (auto simp: index_bucket_def bucket_keys_def demo_bolt_def demo_db_def buckets_def orderBucketName_def demo_sorted_def)
  have "foldl (\<lambda>r b. try_result r (index_bucket demo_bolt demo_entry_codec b)) (Inr demo_db) bs = Inr demo_db" if "set bs \<subseteq> set buckets" for bs
    using that by (induction bs) (auto simp: e)
  then have "ensureOrderIndexes demo_bolt demo_entry_codec demo_db = (demo_db, None)"
    by (simp add: ensureOrderIndexes_def db_update_def demo_bolt_def)
  with i show ?thesis by (simp add: newIndexDB_def db_update_def demo_bolt_def)
qed

lemma demo_index_reachable:
  "(\<And>e. Add e \<in> set ops \<Longrightarrow> e \<in> set demo_entries) \<Longrightarrow>
   reachable_index demo_bolt demo_entry_codec (foldl (index_step demo_bolt demo_entry_codec) demo_db ops)"
proof -
  assume a: "\<And>e. Add e \<in> set ops \<Longrightarrow> e \<in> set demo_entries"
  have "entry_utf8 e" if "e \<in> set demo_entries" for e
    using that by (auto simp: demo_entries_def demo_entry_def entry_utf8_def utf8_in_def)
  with a demo_openable demo_new show ?thesis unfolding reachable_index_def by blast
qed

lemma demo_times: "readEntry demo_bolt demo_entry_codec tx c p = Some e \<Longrightarrow> e \<in> set demo_entries"
proof -
  have "length demo_entries = 4" by (simp add: demo_entries_def)
  then have "n < 4 \<Longrightarrow> demo_entries ! n \<in> set demo_entries" for n using nth_mem [of n demo_entries] by simp
  then show "readEntry demo_bolt demo_entry_codec tx c p = Some e \<Longrightarrow> e \<in> set demo_entries"
    by (auto simp: readEntry_def demo_entry_codec_def split: option.splits if_splits)
qed

text \<open>
  Property C7 (index_consistent): in every state of an index that was opened, whatever has been
  added, pruned and removed since, the order bucket of a category lists exactly the entries of
  the category, each once, under its own time and path: no entry is missed by a query and no
  stale key is left behind. The entries added must have UTF-8 texts, see \<open>codec_ok\<close>.
\<close>

lemma index_consistent:
  assumes "bolt_ok B" "codec_ok cd" "reachable_index B cd tx" "c \<in> set buckets"
  shows "distinct (map fst (order_pairs B tx c)) \<and>
    set (order_pairs B tx c) = {(orderKey e, ie_Path e) |e. readEntry B cd tx c (ie_Path e) = Some e} \<and>
    (\<forall>p e. readEntry B cd tx c p = Some e \<longrightarrow> ie_Path e = p)"
proof -
  have ok: "category_ok B cd tx c" using reachable_ok [OF assms(1-3)] assms(4) by (simp add: index_ok_def)
  have "distinct (map fst (order_pairs B tx c))"
    using bolt_sorted [OF assms(1), of tx "orderBucketName c"] by (auto simp: order_pairs_def strict_sorted_iff split: option.split)
  moreover have "ie_Path e = p" if "readEntry B cd tx c p = Some e" for p e
    using that ok [unfolded category_ok_def, THEN conjunct1] unfolding category_ok_readEntry(1) [OF ok] by force
  moreover have "(k, v) \<in> set (order_pairs B tx c) \<longleftrightarrow> (k, v) \<in> {(orderKey e, ie_Path e) |e. readEntry B cd tx c (ie_Path e) = Some e}" for k v
    unfolding order_pairs_entry [OF assms(1) ok] by blast
  ultimately show ?thesis by (simp only: set_eq_iff split_paired_All) blast
qed

lemma index_consistent_witness:
  "let tx = foldl (index_step demo_bolt demo_entry_codec) demo_db [Add (demo_entries ! 0), Add (demo_entries ! 1), Remove ''/a''] in
   set (order_pairs demo_bolt tx ''images'') =
     {(orderKey e, ie_Path e) |e. readEntry demo_bolt demo_entry_codec tx ''images'' (ie_Path e) = Some e}"
  unfolding Let_def
  by (rule index_consistent [OF demo_bolt_ok demo_entry_codec_ok demo_index_reachable, THEN conjunct2, THEN conjunct1])
    (auto simp: buckets_def demo_entries_def)

text \<open>
  Property C25 (index_refines_map): the index is a map from categories and paths to entries. Adding
  an entry (its thumbnail is kept apart) replaces the one at its path in its category, removing a
  path removes it from every category, and pruning removes exactly the paths that are gone from
  the disk; each happens completely or, when the transaction fails, not at all, and an addition
  that reports no error happened.
\<close>

lemma index_refines_map:
  assumes "bolt_ok B" "codec_ok cd" "reachable_index B cd tx" "\<forall>e. a = Add e \<longrightarrow> entry_utf8 e"
  shows "(contents B cd (index_step B cd tx a) = spec_step (contents B cd tx) a \<or> index_step B cd tx a = tx) \<and>
    (\<forall>e. a = Add e \<and> snd (addEntry B cd e tx) = None \<longrightarrow> contents B cd (index_step B cd tx a) = spec_step (contents B cd tx) a)"
proof -
  note ok = reachable_ok [OF assms(1-3)]
  have "contents B cd (fst (addEntry B cd e tx)) = spec_step (contents B cd tx) (Add e)"
    if "a = Add e" "snd (addEntry B cd e tx) = None" for e
    by (rule add_reported [OF assms(1,2) ok]) (use that assms(4) in \<open>auto simp: prod_eq_iff\<close>)
  with contents_step [OF assms(1,2) ok] assms(4) show ?thesis by auto
qed

lemma index_refines_map_witness:
  "contents demo_bolt demo_entry_codec (index_step demo_bolt demo_entry_codec demo_db (Remove ''/a'')) =
     spec_step (contents demo_bolt demo_entry_codec demo_db) (Remove ''/a'') \<or>
   index_step demo_bolt demo_entry_codec demo_db (Remove ''/a'') = demo_db"
  using index_refines_map [OF demo_bolt_ok demo_entry_codec_ok, of demo_db "Remove ''/a''"] demo_index_reachable [of "[]"] by simp

text \<open>
  A query without a cursor gives the entries of the categories it
  names (of all, when it names none that exists), newest first, as many as fit the limit, which
  is 100 unless the caller asks for one between 1 and 500, and says whether there are more. The
  times are between 1970 and 2262.
\<close>

lemma query_newest_first:
  assumes "bolt_ok B" "codec_ok cd" "reachable_index B cd tx"
    and times: "\<forall>c p e. readEntry B cd tx c p = Some e \<longrightarrow> 0 \<le> ie_ModTime e \<and> ie_ModTime e < 2 ^ 63"
  shows "\<exists>L r. Query B cd True tx categories Map.empty limit = Inr r \<and> distinct L \<and>
    set L = {(c, e). c \<in> set (target_buckets categories) \<and> readEntry B cd tx c (ie_Path e) = Some e} \<and>
    sorted_wrt (\<lambda>(_, e) (_, e'). ie_ModTime e' \<le> ie_ModTime e) L \<and>
    iq_Entries r = map (\<lambda>(_, e). with_thumbnail B tx (ie_Path e) e) (take (effective_limit limit) L) \<and>
    (iq_HasMore r \<longleftrightarrow> effective_limit limit < length L) \<and> 0 < effective_limit limit \<and> effective_limit limit \<le> 500"
proof -
  obtain L r where L: "Query B cd True tx categories Map.empty limit = Inr r"
    "iq_Entries r = map (shown B tx) (take (effective_limit limit) L)" "iq_HasMore r \<longleftrightarrow> effective_limit limit < length L"
    "distinct L" "set L = pending B cd tx (target_buckets categories) (\<lambda>_. [])" "sorted (map (\<lambda>(c, e). orderKey e) L)"
    using query_result [OF assms(1) reachable_ok [OF assms(1-3)], of categories Map.empty "\<lambda>_. []" limit] by (auto simp: start_key_def)
  have newer: "ie_ModTime e' \<le> ie_ModTime e" if "(c, e) \<in> set L" "(c', e') \<in> set L" "orderKey e \<le> orderKey e'" for c e c' e'
  proof (rule ccontr)
    assume "\<not> ie_ModTime e' \<le> ie_ModTime e"
    then have "mtimeKey (ie_ModTime e') < mtimeKey (ie_ModTime e)"
      using times that(1,2) L(5) by (intro mtimeKey_less) (auto simp: pending_def)
    then have "orderKey e' < orderKey e" unfolding orderKey_def by (intro append_less) simp_all
    with that(3) show False by simp
  qed
  have "sorted_wrt (\<lambda>x y. (\<lambda>(c, e). orderKey e) x \<le> (\<lambda>(c, e). orderKey e) y) L" using L(6) by (simp add: sorted_wrt_map)
  then have "sorted_wrt (\<lambda>(_, e) (_, e'). ie_ModTime e' \<le> ie_ModTime e) L"
    by (rule sorted_wrt_mono_rel [rotated]) (use newer in auto)
  moreover have "set L = {(c, e). c \<in> set (target_buckets categories) \<and> readEntry B cd tx c (ie_Path e) = Some e}"
    using L(5) by (auto simp: pending_def bytes_least)
  ultimately show ?thesis using L(1-4) effective_limit_pos [of limit] by (intro exI [of _ L] exI [of _ r]) (auto simp: shown_def)
qed

lemma query_newest_first_witness:
  "\<exists>r. Query demo_bolt demo_entry_codec True demo_db [] Map.empty 0 = Inr r \<and> length (iq_Entries r) \<le> 500"
proof -
  have "\<forall>c p e. readEntry demo_bolt demo_entry_codec demo_db c p = Some e \<longrightarrow> 0 \<le> ie_ModTime e \<and> ie_ModTime e < 2 ^ 63"
    using demo_times [of demo_db] by (fastforce simp: demo_entries_def demo_entry_def)
  with query_newest_first [OF demo_bolt_ok demo_entry_codec_ok, of demo_db "[]" 0] demo_index_reachable [of "[]"] show ?thesis by force
qed

text \<open>
  Property C19 (index_pages_complete): a client that pages through one category, with the cursor the
  last page named, until there is no more, sees every entry of the category exactly once, in
  order, as long as nothing changes meanwhile; as many pages as there are entries are enough.
\<close>

lemma index_pages_complete:
  assumes "bolt_ok B" "codec_ok cd" "reachable_index B cd tx" "c \<in> set buckets"
    and "card {e. readEntry B cd tx c (ie_Path e) = Some e} \<le> fuel"
  shows "\<exists>L. distinct L \<and> set L = {e. readEntry B cd tx c (ie_Path e) = Some e} \<and> sorted (map orderKey L) \<and>
    concat (pages B cd tx [c] limit fuel Map.empty) = map (\<lambda>e. with_thumbnail B tx (ie_Path e) e) L"
  by (rule pages_everything [OF assms(1) reachable_ok [OF assms(1-3)] assms(4,5)])

lemma index_pages_complete_witness:
  "\<exists>L. distinct L \<and> set L = {demo_picture} \<and>
    concat (pages demo_bolt demo_entry_codec demo_db [''images''] 1 4 Map.empty) =
      map (\<lambda>e. with_thumbnail demo_bolt demo_db (ie_Path e) e) L"
proof -
  have r: "reachable_index demo_bolt demo_entry_codec demo_db" using demo_index_reachable [of "[]"] by simp
  have e: "{e. readEntry demo_bolt demo_entry_codec demo_db ''images'' (ie_Path e) = Some e} = {demo_picture}"
    by (auto simp: demo_read demo_entry_def)
  show ?thesis
    using index_pages_complete [OF demo_bolt_ok demo_entry_codec_ok r, of "''images''" 4 1, unfolded e] by (auto simp: buckets_def)
qed

text \<open>
  Paging through two categories may never end and never show one of
  them. When the entries of one category fill a page exactly and are newer than those of the
  other, the cursor of the page does not name the first category, as it is exhausted, and a
  category that is not named is read from its start: every further page is the same.
\<close>

lemma index_pages_stuck:
  assumes "bolt_ok B" "codec_ok cd" "reachable_index B cd tx" "fills_page B cd tx b a (effective_limit limit)"
  shows "\<exists>P. set P = (\<lambda>e. with_thumbnail B tx (ie_Path e) e) ` {e. readEntry B cd tx b (ie_Path e) = Some e} \<and>
    (\<forall>fuel. pages B cd tx [a, b] limit fuel Map.empty = replicate fuel P)"
proof -
  obtain P where P: "set P = (\<lambda>e. with_thumbnail B tx (ie_Path e) e) ` {e. readEntry B cd tx b (ie_Path e) = Some e}"
    "\<And>cursor. misses_none B cd tx b a cursor \<Longrightarrow> \<exists>r. Query B cd True tx [a, b] cursor limit = Inr r \<and> iq_Entries r = P \<and> iq_HasMore r \<and>
        misses_none B cd tx b a (map_of (iq_NextCursor r))"
    using repeated_page [OF assms(1) reachable_ok [OF assms(1-3)] assms(4)] by blast
  have "misses_none B cd tx b a Map.empty" by (simp add: misses_none_def start_key_def bytes_least)
  with pages_repeat [of "misses_none B cd tx b a", OF P(2)] P(1) show ?thesis by blast
qed

lemma index_pages_stuck_witness:
  "\<exists>P. set P = {demo_video} \<and>
    (\<forall>fuel. pages demo_bolt demo_entry_codec demo_db [''images'', ''videos''] 1 fuel Map.empty = replicate fuel P)"
proof -
  have r: "reachable_index demo_bolt demo_entry_codec demo_db" using demo_index_reachable [of "[]"] by simp
  have e: "{e. readEntry demo_bolt demo_entry_codec demo_db ''videos'' (ie_Path e) = Some e} = {demo_video}"
    by (auto simp: demo_read demo_entry_def)
  have "mtimeKey 9 < mtimeKey 3" by (rule mtimeKey_less) simp_all
  then have "orderKey demo_video < orderKey demo_picture" by (simp add: orderKey_def demo_entry_def append_less)
  moreover have "(\<exists>e. readEntry demo_bolt demo_entry_codec demo_db ''images'' (ie_Path e) = Some e)"
    by (rule exI [of _ demo_picture]) (simp add: demo_read demo_entry_def)
  ultimately have f: "fills_page demo_bolt demo_entry_codec demo_db ''videos'' ''images'' (effective_limit 1)"
    using e by (simp add: fills_page_def demo_read buckets_def effective_limit_def)
  have "with_thumbnail demo_bolt demo_db (ie_Path demo_video) demo_video = demo_video"
    by (simp add: with_thumbnail_def demo_db_get)
  with index_pages_stuck [OF demo_bolt_ok demo_entry_codec_ok r f] show ?thesis unfolding e by auto
qed

text \<open>
  The order key holds the time as its distance to the year 2262,
  which does not fit for a file from before 1970, when it becomes the least key of all: such a
  file is listed before every other one, though later times have lesser keys in general.
\<close>

lemma old_files_are_newest:
  assumes "- (2 ^ 63) \<le> t" "t < 0" "0 \<le> s" "s < 2 ^ 63 - 1"
  shows "mtimeKey t < mtimeKey s \<and> (\<forall>s'. s < s' \<and> s' < 2 ^ 63 \<longrightarrow> mtimeKey s' < mtimeKey s)"
proof (intro conjI allI impI)
  show "mtimeKey t < mtimeKey s"
    unfolding mtimeKey_old [OF assms(1,2)] by (rule mtimeKey_less) (use assms in simp_all)
  show "mtimeKey s' < mtimeKey s" if "s < s' \<and> s' < 2 ^ 63" for s' by (rule mtimeKey_less) (use assms that in simp_all)
qed

lemma old_files_are_newest_witness: "mtimeKey (- 1) < mtimeKey 1700000000000000000"
  by (rule old_files_are_newest [THEN conjunct1]) simp_all

end
