(* ===== verification/IndexService.thy ===== *)
theory IndexService
  imports IndexQuery Trees
begin

text \<open>
  The index service (\<open>src/fileindex.go\<close>): which files it indexes, the first run, the
  synchronisation after a restart, the events of the watcher, and \<open>handleIndexQuery\<close> of
  \<open>src/deskconn.go\<close>. Case mapping and the thumbnails are parameters; a context that is cancelled
  cuts a walk after some of its files.
\<close>

section \<open>Categories and walks\<close>

record index_env =
  xe_lower :: "string \<Rightarrow> string"
  xe_thumb :: "fs \<Rightarrow> string \<Rightarrow> string"
  xe_video_thumb :: "fs \<Rightarrow> string \<Rightarrow> string"

definition fileCategory :: "index_env \<Rightarrow> string \<Rightarrow> string" where
  "fileCategory env name = (let x = xe_lower env (Ext name) in
     if x \<in> {''.jpg'', ''.jpeg'', ''.png'', ''.gif'', ''.bmp'', ''.webp'', ''.ico'', ''.tiff'', ''.tif'', ''.heic'', ''.heif''}
       then ''images''
     else if x \<in> {''.mp4'', ''.webm'', ''.mov'', ''.avi'', ''.mkv'', ''.ogv'', ''.flv'', ''.wmv'', ''.m4v'', ''.3gp''}
       then ''videos''
     else if x = ''.pdf'' then ''pdfs''
     else if x \<in> {''.txt'', ''.md'', ''.log'', ''.csv'', ''.json'', ''.yaml'', ''.yml'', ''.toml'', ''.ini'', ''.cfg'',
         ''.xml'', ''.html'', ''.htm'', ''.rst''} then ''texts''
     else if x \<in> {''.doc'', ''.docx'', ''.odt'', ''.rtf'', ''.xls'', ''.xlsx'', ''.ods'', ''.ppt'', ''.pptx'', ''.odp'',
         ''.pages'', ''.numbers'', ''.key'', ''.epub''} then ''documents''
     else '''')"

definition index_folders :: "string list" where
  "index_folders = [''Desktop'', ''Downloads'', ''Documents'', ''Pictures'', ''Videos'']"

definition indexRoots :: "fs \<Rightarrow> string \<Rightarrow> string list" where
  "indexRoots m homeDir = filter (\<lambda>p. case os_Stat m p of Inl _ \<Rightarrow> False | Inr _ \<Rightarrow> True)
     (map (Join homeDir) index_folders)"

abbreviation hidden :: "string \<Rightarrow> bool" where
  "hidden name \<equiv> has_prefix name ''.''"

definition file_entry :: "index_env \<Rightarrow> string \<Rightarrow> string \<Rightarrow> inode \<Rightarrow> IndexEntry" where
  "file_entry env path name info = \<lparr>ie_Path = path, ie_Name = name, ie_Category = fileCategory env name,
     ie_Size = int (node_size info), ie_ModTime = int (mtime info), ie_Thumbnail = ''''\<rparr>"

text \<open>
  \<open>walkFileEntries\<close>: the entries the callback gets, in the order of \<open>filepath.WalkDir\<close>, which does not
  follow links; what cannot be read is skipped. \<open>None\<close> says that the given depth did not suffice.
\<close>

fun concat_opt :: "'a list option list \<Rightarrow> 'a list option" where
  "concat_opt [] = Some []"
| "concat_opt (x # xs) = (case x of None \<Rightarrow> None | Some a \<Rightarrow> map_option ((@) a) (concat_opt xs))"

fun walk_entries :: "nat \<Rightarrow> index_env \<Rightarrow> fs \<Rightarrow> string \<Rightarrow> string \<Rightarrow> inode \<Rightarrow> IndexEntry list option" where
  "walk_entries 0 env m path name info = None"
| "walk_entries (Suc k) env m path name info =
     (if is_dir info then
        (if hidden name then Some []
         else case os_ReadDir m path of
           Inl _ \<Rightarrow> Some []
         | Inr des \<Rightarrow> concat_opt (map (\<lambda>(n, nd). walk_entries k env m (Join path n) n nd) des))
      else Some (if hidden name \<or> fileCategory env name = '''' then [] else [file_entry env path name info]))"

definition walkFileEntries :: "nat \<Rightarrow> index_env \<Rightarrow> fs \<Rightarrow> string list \<Rightarrow> IndexEntry list option" where
  "walkFileEntries fuel env m roots = concat_opt (map (\<lambda>root. case os_Lstat m root of
     Inl _ \<Rightarrow> Some []
   | Inr (_, info) \<Rightarrow> walk_entries fuel env m root (Base root) info) roots)"

fun walk_dir_paths :: "nat \<Rightarrow> fs \<Rightarrow> string \<Rightarrow> string \<Rightarrow> inode \<Rightarrow> string list option" where
  "walk_dir_paths 0 m path name info = None"
| "walk_dir_paths (Suc k) m path name info =
     (if \<not> is_dir info \<or> hidden name then Some []
      else case os_ReadDir m path of
        Inl _ \<Rightarrow> Some [path]
      | Inr des \<Rightarrow> map_option ((#) path) (concat_opt (map (\<lambda>(n, nd). walk_dir_paths k m (Join path n) n nd) des)))"

definition walkDirs :: "nat \<Rightarrow> fs \<Rightarrow> string list \<Rightarrow> string list option" where
  "walkDirs fuel m roots = concat_opt (map (\<lambda>root. case os_Lstat m root of
     Inl _ \<Rightarrow> Some []
   | Inr (_, info) \<Rightarrow> walk_dir_paths fuel m root (Base root) info) roots)"

section \<open>The service\<close>

text \<open>The database and \<open>ready\<close>.\<close>

record 'tx index_service =
  is_db :: 'tx
  is_ready :: bool

definition store_thumb :: "'tx bolt \<Rightarrow> string \<Rightarrow> string \<Rightarrow> 'tx \<Rightarrow> 'tx" where
  "store_thumb B path thumb db = (if thumb \<noteq> [] then fst (addThumbnail B path thumb db) else db)"

definition storeThumbnailSlow :: "'tx bolt \<Rightarrow> index_env \<Rightarrow> fs \<Rightarrow> string \<Rightarrow> string \<Rightarrow> int \<Rightarrow> 'tx \<Rightarrow> 'tx" where
  "storeThumbnailSlow B env m path category sz db =
     (if category = ''images'' \<and> sz \<le> 20 * 1024 * 1024 then store_thumb B path (xe_thumb env m path) db
      else if category = ''videos'' then store_thumb B path (xe_video_thumb env m path) db
      else db)"

definition index_file :: "'tx bolt \<Rightarrow> entry_codec \<Rightarrow> index_env \<Rightarrow> fs \<Rightarrow> IndexEntry \<Rightarrow> 'tx \<Rightarrow> 'tx" where
  "index_file B cd env m e db =
     storeThumbnailSlow B env m (ie_Path e) (ie_Category e) (ie_Size e) (fst (addEntry B cd e db))"

text \<open>The files a walk gets to before its context is cancelled; \<open>None\<close>: it is not.\<close>

definition visited :: "nat option \<Rightarrow> 'a list \<Rightarrow> 'a list" where
  "visited cancelled es = (case cancelled of None \<Rightarrow> es | Some k \<Rightarrow> take k es)"

definition runIndexer ::
  "'tx bolt \<Rightarrow> entry_codec \<Rightarrow> index_env \<Rightarrow> nat \<Rightarrow> fs \<Rightarrow> string \<Rightarrow> nat option \<Rightarrow> 'tx index_service \<Rightarrow> 'tx index_service option" where
  "runIndexer B cd env fuel m homeDir cancelled s =
     (if indexRoots m homeDir = [] then Some (s\<lparr>is_ready := True\<rparr>)
      else map_option (\<lambda>es.
        let db1 = fold (index_file B cd env m) (visited cancelled es) (is_db s)
        in if cancelled = None then \<lparr>is_db = fst (markIndexingComplete B db1), is_ready = True\<rparr>
           else s\<lparr>is_db := db1\<rparr>) (walkFileEntries fuel env m (indexRoots m homeDir)))"

definition sync_file :: "'tx bolt \<Rightarrow> entry_codec \<Rightarrow> index_env \<Rightarrow> fs \<Rightarrow> IndexEntry \<Rightarrow> 'tx \<Rightarrow> 'tx" where
  "sync_file B cd env m e db =
     (if isEntryUpToDate B cd db (ie_Path e) (ie_ModTime e) (ie_Category e) then db else index_file B cd env m e db)"

definition runSync ::
  "'tx bolt \<Rightarrow> entry_codec \<Rightarrow> index_env \<Rightarrow> nat \<Rightarrow> fs \<Rightarrow> string \<Rightarrow> nat option \<Rightarrow> 'tx index_service \<Rightarrow> 'tx index_service option" where
  "runSync B cd env fuel m homeDir cancelled s = map_option (\<lambda>es.
     let db1 = fold (sync_file B cd env m) (visited cancelled es) (is_db s)
     in s\<lparr>is_db := (if cancelled = None then removeStaleEntries B cd m db1 else db1)\<rparr>)
     (walkFileEntries fuel env m (indexRoots m homeDir))"

definition NewIndexService :: "'tx bolt \<Rightarrow> entry_codec \<Rightarrow> string result \<Rightarrow> 'tx result \<Rightarrow> go_error option \<Rightarrow> (string \<times> 'tx index_service) result" where
  "NewIndexService B cd homeDir opened watcher =
     try_result homeDir (\<lambda>h. try_result (newIndexDB B cd opened) (\<lambda>db. case watcher of
       Some e \<Rightarrow> Inl e
     | None \<Rightarrow> Inr (h, \<lparr>is_db = db, is_ready = isIndexingComplete B db\<rparr>)))"

definition Start ::
  "'tx bolt \<Rightarrow> entry_codec \<Rightarrow> index_env \<Rightarrow> nat \<Rightarrow> fs \<Rightarrow> string \<Rightarrow> nat option \<Rightarrow> 'tx index_service \<Rightarrow> 'tx index_service option" where
  "Start B cd env fuel m homeDir cancelled s =
     (if \<not> is_ready s then runIndexer B cd env fuel m homeDir cancelled s else runSync B cd env fuel m homeDir cancelled s)"

section \<open>Events of the watcher\<close>

datatype watch_op = OpCreate | OpWrite | OpRemove | OpRename | OpChmod

text \<open>The new database and the directory to watch, if the event is about one.\<close>

definition handleWatchEvent ::
  "'tx bolt \<Rightarrow> entry_codec \<Rightarrow> index_env \<Rightarrow> fs \<Rightarrow> string \<Rightarrow> watch_op list \<Rightarrow> 'tx \<Rightarrow> 'tx \<times> string option" where
  "handleWatchEvent B cd env m path ops db =
     (let name = Base path in
      if hidden name then (db, None)
      else if OpRemove \<in> set ops \<or> OpRename \<in> set ops then (removeEntry B cd path db, None)
      else if OpCreate \<notin> set ops \<and> OpWrite \<notin> set ops then (db, None)
      else case os_Lstat m path of
        Inl _ \<Rightarrow> (db, None)
      | Inr (_, info) \<Rightarrow>
          if is_dir info then (db, Some path)
          else let category = fileCategory env name in
            if category = '''' then (db, None)
            else (case addEntry B cd (file_entry env path name info) db of
              (db1, Some _) \<Rightarrow> (db1, None)
            | (db1, None) \<Rightarrow> (storeThumbnailSlow B env m path category (int (node_size info)) db1, None)))"

section \<open>The handler\<close>

definition handleIndexQuery ::
  "crypto \<Rightarrow> bytes result \<Rightarrow> keyManager \<Rightarrow> (bytes \<Rightarrow> (string list \<times> (string \<times> string) list \<times> int) result) \<Rightarrow>
   (IndexQueryResult \<Rightarrow> bytes result) \<Rightarrow> 'tx bolt \<Rightarrow> entry_codec \<Rightarrow> 'tx index_service option \<Rightarrow> invocation \<Rightarrow> inv_result" where
  "handleIndexQuery cr rnd km unmarshal marshal B cd indexer iv = (case indexer of
     None \<Rightarrow> operation_failed (Errorf ''index service unavailable'')
   | Some s \<Rightarrow> (case open_request cr km unmarshal iv of
       Inl r \<Rightarrow> r
     | Inr (enc, categories, cursor, limit) \<Rightarrow>
         (case Query B cd (is_ready s) (is_db s) categories (map_of cursor) limit of
           Inl e \<Rightarrow> operation_failed e
         | Inr result \<Rightarrow> (case marshal result of
             Inl e \<Rightarrow> operation_failed e
           | Inr resultBytes \<Rightarrow> seal_result cr rnd enc resultBytes))))"


section \<open>What a walk finds\<close>

definition visible_at :: "index_env \<Rightarrow> fs \<Rightarrow> string list \<Rightarrow> string list \<Rightarrow> IndexEntry \<Rightarrow> bool" where
  "visible_at env m q t e \<longleftrightarrow> (\<exists>nd. node_at m (q @ t) = Some nd \<and> \<not> is_dir nd \<and> (\<forall>c \<in> set (last q # t). \<not> hidden c) \<and>
     fileCategory env (last (q @ t)) \<noteq> '''' \<and> e = file_entry env (spell True (q @ t)) (last (q @ t)) nd)"

lemma concat_opt_map:
  "(\<And>x. x \<in> set xs \<Longrightarrow> \<exists>ys. f x = Some ys \<and> set ys = g x) \<Longrightarrow> \<exists>ys. concat_opt (map f xs) = Some ys \<and> set ys = (\<Union>x \<in> set xs. g x)"
proof (induction xs)
  case (Cons x xs)
  obtain ys where "f x = Some ys" "set ys = g x" using Cons.prems [of x] by auto
  moreover obtain zs where "concat_opt (map f xs) = Some zs" "set zs = (\<Union>x \<in> set xs. g x)" using Cons by auto
  ultimately show ?case by auto
qed simp

lemma walk_entries_tree:
  "tree_ok m q n \<Longrightarrow> q \<noteq> [] \<Longrightarrow> node_at m q = Some nd \<Longrightarrow>
   \<exists>es. walk_entries n env m (spell True q) (last q) nd = Some es \<and> set es = {e. \<exists>t. visible_at env m q t e}"
proof (induction n arbitrary: q nd)
  case 0
  then show ?case by (simp add: tree_ok_0)
next
  case (Suc n)
  have ok: "fs_ok m" "dirs_to m q" using Suc.prems by (simp_all add: tree_ok_def)
  have good: "\<forall>c \<in> set q. good_comp c" using tree_ok_good [OF Suc.prems(1)] by blast
  have below: "dir_at m q" if "node_at m (q @ t) \<noteq> None" "t \<noteq> []" for t
    using Suc.prems(1) that unfolding tree_ok_def plain_tree_def by (metis append_Nil append_Nil2)
  have st: "stat_at follow op m (spell True q) = Inr (q, nd)" for follow op
    using stat_dirs [OF ok(1) path_of(1) [OF good]] ok(2) Suc.prems(3) by (simp add: path_of(2) [OF good])
  consider "\<not> is_dir nd" | "is_dir nd" "hidden (last q)" | "is_dir nd" "\<not> hidden (last q)" by blast
  then show ?case
  proof cases
    case 1
    note leaf = this
    then have "t = []" if "node_at m (q @ t) \<noteq> None" for t using below [OF that] Suc.prems(3) by (auto simp: dir_at_def)
    then have "visible_at env m q t e \<longleftrightarrow> t = [] \<and> \<not> hidden (last q) \<and> fileCategory env (last q) \<noteq> '''' \<and>
        e = file_entry env (spell True q) (last q) nd" for t e
      using leaf Suc.prems(3) by (cases t) (auto simp: visible_at_def)
    with leaf show ?thesis by simp
  next
    case 2
    then show ?thesis by (simp add: visible_at_def)
  next
    case 3
    note dir = this
    let ?es = "map (\<lambda>c. (c, the (node_at m (q @ [c])))) (children m q)"
    have rd: "os_ReadDir m (spell True q) = Inr ?es" using st dir(1) by (simp add: os_ReadDir_def)
    have "\<exists>es. walk_entries n env m (Join (spell True q) c) c (the (node_at m (q @ [c]))) = Some es \<and>
        set es = {e. \<exists>t. visible_at env m (q @ [c]) t e}" if c: "c \<in> set (children m q)" for c
    proof -
      obtain nd' where "node_at m (q @ [c]) = Some nd'" using children_node [OF c] by auto
      with Suc.IH [OF tree_ok_child [OF Suc.prems(1) c]] Join_path [OF good children_good [OF ok(1) c]]
      show ?thesis by auto
    qed
    then obtain es where es: "concat_opt (map (\<lambda>c. walk_entries n env m (Join (spell True q) c) c (the (node_at m (q @ [c])))) (children m q)) = Some es"
      "set es = (\<Union>c \<in> set (children m q). {e. \<exists>t. visible_at env m (q @ [c]) t e})"
      using concat_opt_map [of "children m q" "\<lambda>c. walk_entries n env m (Join (spell True q) c) c (the (node_at m (q @ [c])))"
          "\<lambda>c. {e. \<exists>t. visible_at env m (q @ [c]) t e}"] by blast
    have sub: "visible_at env m q (c # t) e \<longleftrightarrow> visible_at env m (q @ [c]) t e" for c t e
      using dir(2) by (auto simp: visible_at_def)
    have "visible_at env m q t e \<longleftrightarrow> (\<exists>c u. t = c # u \<and> c \<in> set (children m q) \<and> visible_at env m (q @ [c]) u e)" for t e
    proof (cases t)
      case Nil
      with dir(1) Suc.prems(3) show ?thesis by (auto simp: visible_at_def)
    next
      case (Cons c u)
      have "c \<in> set (children m q)" if v: "visible_at env m q t e"
      proof -
        have n: "node_at m (q @ [c] @ u) \<noteq> None" using v by (auto simp: visible_at_def Cons)
        have pt: "\<And>t u. u \<noteq> [] \<Longrightarrow> node_at m (q @ t @ u) \<noteq> None \<Longrightarrow> dir_at m (q @ t)"
          using Suc.prems(1) unfolding tree_ok_def plain_tree_def by blast
        have "node_at m (q @ [c]) \<noteq> None"
          using pt [of u "[c]"] n by (cases "u = []") (auto simp: dir_at_def)
        then show ?thesis using children_iff [OF ok(1)] by simp
      qed
      with Cons sub show ?thesis by auto
    qed
    then have "{e. \<exists>t. visible_at env m q t e} = set es" unfolding es(2) by blast
    with dir rd es(1) show ?thesis by (simp add: comp_def)
  qed
qed


section \<open>Synchronisation\<close>

lemma store_thumb_ok:
  assumes "bolt_ok B" "index_ok B cd db"
  shows "index_ok B cd (store_thumb B p t db) \<and> contents B cd (store_thumb B p t db) = contents B cd db"
  using put_meta_ok [OF assms, of bucketThumbnails p t] db_update_cases [of B "bb_put B bucketThumbnails p t" db]
    contents_meta [OF assms(1), of bucketThumbnails p t db]
    assms(2) by (auto simp: store_thumb_def addThumbnail_def)

lemma storeThumbnailSlow_ok:
  assumes "bolt_ok B" "index_ok B cd db"
  shows "index_ok B cd (storeThumbnailSlow B env m p c n db) \<and> contents B cd (storeThumbnailSlow B env m p c n db) = contents B cd db"
  using store_thumb_ok [OF assms] assms(2) by (simp add: storeThumbnailSlow_def)

text \<open>The entries a walk may give, and that they can be written.\<close>

definition writable :: "'tx bolt \<Rightarrow> entry_codec \<Rightarrow> IndexEntry set \<Rightarrow> bool" where
  "writable B cd E \<longleftrightarrow> (\<forall>tx. bb_commit B tx = None) \<and>
     (\<forall>e \<in> E. entry_utf8 e \<and> (\<forall>tx. index_ok B cd tx \<longrightarrow> snd (addEntry B cd e tx) = None))"

definition recorded :: "'tx bolt \<Rightarrow> entry_codec \<Rightarrow> 'tx \<Rightarrow> IndexEntry \<Rightarrow> bool" where
  "recorded B cd tx e \<longleftrightarrow>
     (\<exists>e'. contents B cd tx (ie_Category e, ie_Path e) = Some e' \<and> ie_ModTime e' div 10 ^ 9 = ie_ModTime e div 10 ^ 9)"

lemma sync_file_ok:
  assumes B: "bolt_ok B" "codec_ok cd" and ok: "index_ok B cd db" and w: "writable B cd E" "e \<in> E"
    and e: "ie_Category e \<in> set buckets" "ie_Thumbnail e = ''''"
  shows "index_ok B cd (sync_file B cd env m e db) \<and> recorded B cd (sync_file B cd env m e db) e \<and>
    (contents B cd (sync_file B cd env m e db) = contents B cd db \<or>
     contents B cd (sync_file B cd env m e db) = (contents B cd db)((ie_Category e, ie_Path e) \<mapsto> e))"
proof (cases "isEntryUpToDate B cd db (ie_Path e) (ie_ModTime e) (ie_Category e)")
  case True
  then have "recorded B cd db e"
    using e(1) by (auto simp: isEntryUpToDate_def bucketForCategory_def recorded_def contents_def split: option.splits)
  with True ok show ?thesis by (simp add: sync_file_def)
next
  case False
  define db1 where "db1 = fst (addEntry B cd e db)"
  have u: "entry_utf8 e" and a: "addEntry B cd e db = (db1, None)"
    using w ok by (auto simp: writable_def db1_def prod_eq_iff)
  have "index_ok B cd db1" using index_step_ok [OF B ok, of "Add e"] u a by simp
  moreover have "contents B cd db1 = (contents B cd db)((ie_Category e, ie_Path e) \<mapsto> e)"
  proof -
    have "e\<lparr>ie_Thumbnail := ''''\<rparr> = e" using e(2) by (cases e) simp
    with add_reported [OF B ok u a] e(1) show ?thesis by simp
  qed
  moreover have "sync_file B cd env m e db = storeThumbnailSlow B env m (ie_Path e) (ie_Category e) (ie_Size e) db1"
    using False by (simp add: sync_file_def index_file_def db1_def)
  ultimately show ?thesis using storeThumbnailSlow_ok [OF B(1), of cd db1] by (auto simp: recorded_def)
qed

lemma sync_files_ok:
  assumes B: "bolt_ok B" "codec_ok cd" and w: "writable B cd E"
    and E: "\<And>e. e \<in> E \<Longrightarrow> ie_Category e \<in> set buckets \<and> ie_Thumbnail e = ''''"
    and inj: "\<And>e e'. e \<in> E \<Longrightarrow> e' \<in> E \<Longrightarrow> ie_Path e = ie_Path e' \<Longrightarrow> e = e'"
  shows "index_ok B cd db \<Longrightarrow> set es \<subseteq> E \<Longrightarrow> index_ok B cd (fold (sync_file B cd env m) es db) \<and>
    (\<forall>e \<in> E. e \<in> set es \<or> recorded B cd db e \<longrightarrow> recorded B cd (fold (sync_file B cd env m) es db) e) \<and>
    (\<forall>c p e. contents B cd (fold (sync_file B cd env m) es db) (c, p) = Some e \<longrightarrow>
       contents B cd db (c, p) = Some e \<or> e \<in> set es \<and> p = ie_Path e)"
proof (induction es arbitrary: db)
  case (Cons x es)
  define db1 where "db1 = sync_file B cd env m x db"
  have x: "x \<in> E" using Cons.prems(2) by simp
  have s: "index_ok B cd db1" "recorded B cd db1 x"
    "contents B cd db1 = contents B cd db \<or> contents B cd db1 = (contents B cd db)((ie_Category x, ie_Path x) \<mapsto> x)"
    using sync_file_ok [OF B Cons.prems(1) w x] E [OF x] unfolding db1_def by blast+
  have keep: "recorded B cd db1 e" if e: "e \<in> E" "recorded B cd db e" for e
  proof (cases "ie_Path e = ie_Path x")
    case True
    with inj [OF e(1) x] s(2) show ?thesis by simp
  next
    case False
    with s(3) e(2) show ?thesis by (auto simp: recorded_def)
  qed
  have ih: "index_ok B cd (fold (sync_file B cd env m) es db1)"
    "\<forall>e \<in> E. e \<in> set es \<or> recorded B cd db1 e \<longrightarrow> recorded B cd (fold (sync_file B cd env m) es db1) e"
    "\<And>c p e. contents B cd (fold (sync_file B cd env m) es db1) (c, p) = Some e \<Longrightarrow>
       contents B cd db1 (c, p) = Some e \<or> e \<in> set es \<and> p = ie_Path e"
    using Cons.IH [OF s(1)] Cons.prems(2) by auto
  have c1: "contents B cd db (c, p) = Some e \<or> e = x \<and> p = ie_Path x" if "contents B cd db1 (c, p) = Some e" for c p e
    using s(3) that by (auto split: if_splits)
  have f: "fold (sync_file B cd env m) (x # es) db = fold (sync_file B cd env m) es db1" by (simp add: db1_def)
  show ?case unfolding f
  proof (intro conjI ballI allI impI)
    fix e assume e: "e \<in> E" "e \<in> set (x # es) \<or> recorded B cd db e"
    then have "e \<in> set es \<or> recorded B cd db1 e" using keep s(2) by auto
    with ih(2) e(1) show "recorded B cd (fold (sync_file B cd env m) es db1) e" by blast
  next
    fix c p e assume "contents B cd (fold (sync_file B cd env m) es db1) (c, p) = Some e"
    with ih(3) c1 show "contents B cd db (c, p) = Some e \<or> e \<in> set (x # es) \<and> p = ie_Path e" by fastforce
  qed (rule ih(1))
qed simp

lemma prune_ok:
  assumes B: "bolt_ok B" "codec_ok cd" and ok: "index_ok B cd db" and w: "writable B cd E"
  shows "contents B cd (removeStaleEntries B cd m db) = (\<lambda>(c, p). if gone m p then None else contents B cd db (c, p))"
proof -
  have "contents B cd (removeStaleEntries B cd m db) = spec_step (contents B cd db) (Prune m) \<or> removeStaleEntries B cd m db = db"
    using contents_step [OF B ok, of "Prune m"] by simp
  moreover have "contents B cd db = spec_step (contents B cd db) (Prune m)" if "removeStaleEntries B cd m db = db"
  proof -
    let ?ks = "collectStaleKeys B m db"
    have d: "deleteKeys B cd ?ks db = db"
      using that w by (simp add: removeStaleEntries_def Let_def db_update_Inr [OF refl] writable_def deleteKeys_def split: if_splits)
    have "contents B cd (deleteKeys B cd ?ks db) = (\<lambda>(c, q). if q \<in> set ?ks then None else contents B cd db (c, q))"
      by (rule contents_remove) (use deleteKeys_ok [OF B(1) ok, of ?ks] in auto)
    also have "\<dots> = spec_step (contents B cd db) (Prune m)"
      using collectStaleKeys_set [of B cd db _ _ _ m] stale_gone by (fastforce simp: fun_eq_iff)
    finally show ?thesis unfolding d .
  qed
  ultimately have "contents B cd (removeStaleEntries B cd m db) = spec_step (contents B cd db) (Prune m)" by metis
  then show ?thesis by simp
qed


text \<open>The files the service is to index.\<close>

definition to_index :: "index_env \<Rightarrow> fs \<Rightarrow> string \<Rightarrow> IndexEntry set" where
  "to_index env m homeDir = {e. \<exists>nm \<in> set index_folders. \<exists>t. visible_at env m (comps homeDir @ [nm]) t e}"

definition folders_ok :: "fs \<Rightarrow> string \<Rightarrow> nat \<Rightarrow> bool" where
  "folders_ok m homeDir n \<longleftrightarrow> fs_ok m \<and> clean_abs homeDir \<and>
     (\<forall>nm \<in> set index_folders. \<forall>t. node_at m (comps homeDir @ [nm] @ t) \<noteq> None \<longrightarrow> tree_ok m (comps homeDir @ [nm]) n)"

lemma folders_good: "nm \<in> set index_folders \<Longrightarrow> good_comp nm"
  by (auto simp: index_folders_def good_comp_def)

lemma tree_place:
  assumes t: "tree_ok m q n" and nd: "node_at m (q @ t) = Some nd"
  shows "os_Lstat m (spell True (q @ t)) = Inr (q @ t, nd)" "os_Stat m (spell True (q @ t)) = Inr (q @ t, nd)"
proof -
  have pt: "\<And>t u. u \<noteq> [] \<Longrightarrow> node_at m (q @ t @ u) \<noteq> None \<Longrightarrow> dir_at m (q @ t)"
    using t unfolding tree_ok_def plain_tree_def by blast
  have dirs: "node_at m (q @ t) \<noteq> None \<Longrightarrow> dirs_to m (q @ t)" for t
  proof (induction t rule: rev_induct)
    case Nil
    then show ?case using t by (simp add: tree_ok_def)
  next
    case (snoc c t)
    have "dir_at m (q @ t)" using pt [of "[c]" t] snoc.prems by simp
    with snoc.IH show ?case using dirs_to_snoc [of m "q @ t" c] by (auto simp: dir_at_def)
  qed
  have ok: "fs_ok m" using t by (simp add: tree_ok_def)
  have good: "\<forall>c \<in> set (q @ t). good_comp c" using fs_ok_names [OF ok nd] by blast
  note p = path_of [OF good]
  show "os_Lstat m (spell True (q @ t)) = Inr (q @ t, nd)" "os_Stat m (spell True (q @ t)) = Inr (q @ t, nd)"
    using stat_dirs [OF ok p(1)] dirs [of t] nd by (simp_all add: p(2) os_Lstat_def os_Stat_def)
qed

lemma folder_path:
  assumes "clean_abs homeDir" "good_comp nm"
  shows "Join homeDir nm = spell True (comps homeDir @ [nm])"
  using Join_path [of "comps homeDir" nm] clean_abs_good [OF assms(1)] assms(2) path_unique [OF assms(1)] by simp

lemma walkFileEntries_all:
  assumes "folders_ok m homeDir n"
  shows "\<exists>es. walkFileEntries n env m (indexRoots m homeDir) = Some es \<and> set es = to_index env m homeDir"
proof -
  note ok = assms [unfolded folders_ok_def]
  let ?q = "\<lambda>nm. comps homeDir @ [nm]"
  have "\<exists>es. (case os_Lstat m root of Inl _ \<Rightarrow> Some [] | Inr (_, info) \<Rightarrow> walk_entries n env m root (Base root) info) = Some es \<and>
      set es = {e. \<exists>t. visible_at env m (comps root) t e}" if root: "root \<in> set (indexRoots m homeDir)" for root
  proof -
    obtain nm where nm: "nm \<in> set index_folders" "root = Join homeDir nm" "\<exists>x. os_Stat m root = Inr x"
      using root by (auto simp: indexRoots_def split: sum.splits)
    have r: "root = spell True (?q nm)" using nm(2) folder_path ok folders_good [OF nm(1)] by simp
    have good: "\<forall>c \<in> set (?q nm). good_comp c" using clean_abs_good ok folders_good [OF nm(1)] by auto
    have c: "comps root = ?q nm" using path_of(2) [OF good] r by simp
    obtain qq nd where st: "resolve m True root = Inr qq" "node_at m qq = Some nd"
      using nm(3) by (auto simp: os_Stat_def stat_at_def split: sum.splits option.splits)
    have "qq = ?q nm" using resolve_fs_ok [of m root True qq] ok path_of(1) [OF good] st(1) r c by simp
    with st(2) ok nm(1) have t: "tree_ok m (?q nm) n" "node_at m (?q nm @ []) = Some nd" by (auto dest!: bspec [of _ _ nm] spec [of _ "[]"])
    have "Base root = nm" using Base_clean [OF path_of(1) [OF good]] c by (simp add: r)
    then show ?thesis
      using tree_place(1) [OF t] walk_entries_tree [OF t(1), of nd env] t(2) r c by simp
  qed
  then have "\<exists>es. concat_opt (map (\<lambda>root. case os_Lstat m root of Inl _ \<Rightarrow> Some []
       | Inr (_, info) \<Rightarrow> walk_entries n env m root (Base root) info) (indexRoots m homeDir)) = Some es \<and>
     set es = (\<Union>root \<in> set (indexRoots m homeDir). {e. \<exists>t. visible_at env m (comps root) t e})"
    by (rule concat_opt_map)
  then obtain es where es: "walkFileEntries n env m (indexRoots m homeDir) = Some es"
    "set es = (\<Union>root \<in> set (indexRoots m homeDir). {e. \<exists>t. visible_at env m (comps root) t e})"
    unfolding walkFileEntries_def by blast
  have comps_root: "comps (Join homeDir nm) = ?q nm" if "nm \<in> set index_folders" for nm
  proof -
    have "\<forall>c \<in> set (?q nm). good_comp c" using clean_abs_good ok folders_good [OF that] by auto
    from path_of(2) [OF this] folder_path [of homeDir nm] ok folders_good [OF that] show ?thesis by simp
  qed
  have "Join homeDir nm \<in> set (indexRoots m homeDir)"
    if "nm \<in> set index_folders" "visible_at env m (?q nm) t e" for nm t e
  proof -
    have v: "node_at m (?q nm @ t) \<noteq> None" using that(2) by (auto simp: visible_at_def)
    then have tr: "tree_ok m (?q nm) n" using ok that(1) by auto
    then obtain nd where "node_at m (?q nm @ []) = Some nd" by (auto simp: tree_ok_def)
    from tree_place(2) [OF tr this] folder_path [of homeDir nm] ok folders_good [OF that(1)]
    have "os_Stat m (Join homeDir nm) = Inr (?q nm, nd)" by simp
    with that(1) show ?thesis by (simp add: indexRoots_def)
  qed
  then have "set es = to_index env m homeDir"
    unfolding es(2) to_index_def using comps_root by (fastforce simp: indexRoots_def)
  with es(1) show ?thesis by blast
qed


lemma fileCategory_cases: "fileCategory env n = '''' \<or> fileCategory env n \<in> set buckets"
  by (simp add: fileCategory_def Let_def buckets_def)

lemma to_index_entry:
  assumes f: "folders_ok m homeDir n" and e: "e \<in> to_index env m homeDir"
  shows "ie_Category e \<in> set buckets \<and> ie_Thumbnail e = '''' \<and> \<not> gone m (ie_Path e)"
    "e' \<in> to_index env m homeDir \<Longrightarrow> ie_Path e = ie_Path e' \<Longrightarrow> e = e'"
proof -
  have place: "\<exists>p nd. (\<forall>c \<in> set p. good_comp c) \<and> node_at m p = Some nd \<and> \<not> gone m (spell True p) \<and>
      fileCategory env (last p) \<noteq> '''' \<and> e = file_entry env (spell True p) (last p) nd"
    if e: "e \<in> to_index env m homeDir" for e
  proof -
    obtain nm t where nm: "nm \<in> set index_folders" "visible_at env m (comps homeDir @ [nm]) t e"
      using e by (auto simp: to_index_def)
    then obtain nd where nd: "node_at m ((comps homeDir @ [nm]) @ t) = Some nd" by (auto simp: visible_at_def)
    with f nm(1) have tr: "tree_ok m (comps homeDir @ [nm]) n" by (auto simp: folders_ok_def)
    have "\<forall>c \<in> set ((comps homeDir @ [nm]) @ t). good_comp c"
      using fs_ok_names [OF _ nd] f by (auto simp: folders_ok_def)
    with tree_place(1) [OF tr nd] nm(2) nd show ?thesis
      by (intro exI [of _ "(comps homeDir @ [nm]) @ t"] exI [of _ nd]) (auto simp: visible_at_def gone_def)
  qed
  show "ie_Category e \<in> set buckets \<and> ie_Thumbnail e = '''' \<and> \<not> gone m (ie_Path e)"
  proof -
    obtain p nd where "\<not> gone m (spell True p)" "fileCategory env (last p) \<noteq> ''''" "e = file_entry env (spell True p) (last p) nd"
      using place [OF e] by blast
    with fileCategory_cases [of env "last p"] show ?thesis by (simp add: file_entry_def)
  qed
  show "e = e'" if e2: "e' \<in> to_index env m homeDir" and same: "ie_Path e = ie_Path e'"
  proof -
    obtain p nd where p: "\<forall>c \<in> set p. good_comp c" "node_at m p = Some nd" "e = file_entry env (spell True p) (last p) nd"
      using place [OF e] by (elim exE conjE) (rule that)
    obtain p' nd' where p': "\<forall>c \<in> set p'. good_comp c" "node_at m p' = Some nd'" "e' = file_entry env (spell True p') (last p') nd'"
      using place [OF e2] by (elim exE conjE) (rule that)
    have "spell True p = spell True p'" using same by (simp add: file_entry_def p(3) p'(3))
    then have "comps (spell True p) = comps (spell True p')" by (rule arg_cong)
    then have pp: "p = p'" unfolding path_of(2) [OF p(1)] path_of(2) [OF p'(1)] .
    have "nd = nd'" using p(2) p'(2) unfolding pp by simp
    then show ?thesis unfolding p(3) p'(3) pp by simp
  qed
qed

section \<open>Properties\<close>

text \<open>
  Property C26 (sync_reconciles): the synchronisation after a restart brings the index into agreement
  with the disk. Every file below the five folders that is not hidden, in no hidden directory and
  of a known category is in the index with its modification second; nothing in the index is gone
  from the disk; and nothing came in that is not such a file. The disk stands still meanwhile and
  has no links below the folders, and the writes succeed.
\<close>

lemma sync_reconciles:
  assumes "bolt_ok B" "codec_ok cd" "reachable_index B cd (is_db s)"
    and "folders_ok m homeDir fuel" "writable B cd (to_index env m homeDir)"
  shows "\<exists>s'. runSync B cd env fuel m homeDir None s = Some s' \<and>
    (\<forall>e \<in> to_index env m homeDir. recorded B cd (is_db s') e) \<and>
    (\<forall>c p e. contents B cd (is_db s') (c, p) = Some e \<longrightarrow> \<not> gone m p \<and>
       (contents B cd (is_db s) (c, p) = Some e \<or> e \<in> to_index env m homeDir))"
proof -
  let ?E = "to_index env m homeDir"
  obtain es where es: "walkFileEntries fuel env m (indexRoots m homeDir) = Some es" "set es = ?E"
    using walkFileEntries_all [OF assms(4)] by blast
  define db1 where "db1 = fold (sync_file B cd env m) es (is_db s)"
  have f: "index_ok B cd db1" "\<forall>e \<in> ?E. e \<in> set es \<or> recorded B cd (is_db s) e \<longrightarrow> recorded B cd db1 e"
    "\<forall>c p e. contents B cd db1 (c, p) = Some e \<longrightarrow> contents B cd (is_db s) (c, p) = Some e \<or> e \<in> set es \<and> p = ie_Path e"
    using sync_files_ok [OF assms(1,2,5) _ _ reachable_ok [OF assms(1-3)], of es env m] to_index_entry [OF assms(4)] es(2)
    unfolding db1_def by blast+
  have c: "contents B cd (removeStaleEntries B cd m db1) = (\<lambda>(c, p). if gone m p then None else contents B cd db1 (c, p))"
    by (rule prune_ok [OF assms(1,2) f(1) assms(5)])
  have "runSync B cd env fuel m homeDir None s = Some (s\<lparr>is_db := removeStaleEntries B cd m db1\<rparr>)"
    by (simp add: runSync_def es(1) visited_def db1_def)
  moreover have "recorded B cd (removeStaleEntries B cd m db1) e" if "e \<in> ?E" for e
    using f(2) es(2) to_index_entry(1) [OF assms(4) that] that by (auto simp: recorded_def c)
  moreover have "\<not> gone m p \<and> (contents B cd (is_db s) (c, p) = Some e \<or> e \<in> ?E)"
    if "contents B cd (removeStaleEntries B cd m db1) (c, p) = Some e" for c p e
    using that f(3) es(2) by (auto simp: c split: if_splits)
  ultimately show ?thesis by auto
qed

text \<open>One picture on an otherwise empty disk.\<close>

definition sync_node :: inode where
  "sync_node = \<lparr>kind = Regular ''x'', perm = 0x1A4, mtime = 5\<rparr>"

definition sync_dir :: inode where
  "sync_dir = \<lparr>kind = Directory, perm = 0x1ED, mtime = 5\<rparr>"

definition sync_fs :: fs where
  "sync_fs = \<lparr>nodes = [([], sync_dir), ([''h''], sync_dir), ([''h'', ''Pictures''], sync_dir),
     ([''h'', ''Pictures'', ''a.png''], sync_node)], cwd = [], umask = 18, clock = 5\<rparr>"

definition sync_env :: index_env where
  "sync_env = \<lparr>xe_lower = \<lambda>s. s, xe_thumb = \<lambda>_ _. [], xe_video_thumb = \<lambda>_ _. []\<rparr>"

definition sync_entry :: IndexEntry where
  "sync_entry = file_entry sync_env ''/h/Pictures/a.png'' ''a.png'' sync_node"

definition sync_codec :: entry_codec where
  "sync_codec = \<lparr>enc_entry = \<lambda>e. if e = sync_entry then Inr ''x'' else Inl (Errorf ''json''),
     dec_entry = \<lambda>b. if b = ''x'' then Inr sync_entry else Inl (Errorf ''json'')\<rparr>"

lemma sync_node_at: "node_at sync_fs p = (if p \<in> {[], [''h''], [''h'', ''Pictures'']} then Some sync_dir
    else if p = [''h'', ''Pictures'', ''a.png''] then Some sync_node else None)"
  by (auto simp: node_at_def sync_fs_def)

lemma sync_place: "node_at sync_fs (comps ''/h'' @ nm # t) \<noteq> None \<longleftrightarrow> nm = ''Pictures'' \<and> t \<in> {[], [''a.png'']}"
  by (auto simp: sync_node_at comps_def clean_comps_def clean_step_def IsAbs_def)

lemma sync_folders: "folders_ok sync_fs ''/h'' 2"
proof -
  have ok: "fs_ok sync_fs"
    by (auto simp: fs_ok_def sync_fs_def is_symlink_def sync_dir_def sync_node_def good_comp_def)
  have h: "clean_abs ''/h''" "comps ''/h'' = [''h'']"
    by (simp_all add: clean_abs_def Clean_def spell_def comps_def clean_comps_def clean_step_def IsAbs_def)
  have "tree_ok sync_fs [''h'', ''Pictures''] 2"
    using ok by (auto simp: tree_ok_def dirs_to_def dir_at_def plain_tree_def tree_depth_def sync_node_at is_dir_def is_regular_def
        sync_dir_def sync_node_def less_Suc_eq append_eq_Cons_conv numeral_2_eq_2 split: if_splits)
  with ok h sync_place show ?thesis by (auto simp: folders_ok_def)
qed

lemma sync_to_index: "to_index sync_env sync_fs ''/h'' = {sync_entry}"
proof -
  have h: "comps ''/h'' = [''h'']" by (simp add: comps_def clean_comps_def clean_step_def IsAbs_def)
  have "visible_at sync_env sync_fs (comps ''/h'' @ [nm]) t e \<longleftrightarrow> nm = ''Pictures'' \<and> t = [''a.png''] \<and> e = sync_entry" for nm t e
  proof -
    have "node_at sync_fs ((comps ''/h'' @ [nm]) @ t) \<noteq> None \<longleftrightarrow> nm = ''Pictures'' \<and> t \<in> {[], [''a.png'']}"
      using sync_place by simp
    then show ?thesis
      by (auto simp: visible_at_def h sync_node_at is_dir_def sync_dir_def sync_node_def sync_entry_def fileCategory_def
          Let_def Ext_def sync_env_def spell_def)
  qed
  then show ?thesis by (auto simp: to_index_def index_folders_def)
qed

lemma demo_put: "bb_pairs demo_bolt tx b \<noteq> None \<Longrightarrow> \<exists>tx'. bb_put demo_bolt b k v tx = Inr tx'"
  by (auto simp: demo_bolt_def demo_change_def)

lemma demo_add:
  assumes ok: "index_ok demo_bolt cd tx" and c: "ie_Category e \<in> set buckets" and enc: "enc_entry cd (e\<lparr>ie_Thumbnail := ''''\<rparr>) = Inr d"
  shows "snd (addEntry demo_bolt cd e tx) = None"
proof -
  let ?e = "e\<lparr>ie_Thumbnail := ''''\<rparr>" and ?o = "orderBucketName (ie_Category e)"
  have ex: "bb_pairs demo_bolt tx ?o \<noteq> None" "bb_pairs demo_bolt tx (ie_Category e) \<noteq> None"
    using ok c by (auto simp: index_ok_def allBuckets_def)
  obtain tx1 where t1: "(case readEntry demo_bolt cd tx (ie_Category e) (ie_Path ?e) of None \<Rightarrow> Inr tx
     | Some old \<Rightarrow> bb_delete demo_bolt ?o (orderKey old) tx) = Inr tx1" "\<forall>b. bb_pairs demo_bolt tx1 b = None \<longleftrightarrow> bb_pairs demo_bolt tx b = None"
  proof (cases "readEntry demo_bolt cd tx (ie_Category e) (ie_Path ?e)")
    case (Some old)
    from bolt_delete [OF demo_bolt_ok ex(1), of "orderKey old"] Some that show ?thesis by auto
  qed (use that in auto)
  have "bb_pairs demo_bolt tx1 ?o \<noteq> None" using t1(2) ex(1) by simp
  then obtain tx2 where t2: "bb_put demo_bolt ?o (orderKey ?e) (ie_Path ?e) tx1 = Inr tx2" using demo_put by blast
  have "bb_pairs demo_bolt tx2 (ie_Category e) \<noteq> None" using bolt_put(3) [OF demo_bolt_ok t2, of "ie_Category e"] t1(2) ex(2) by simp
  then obtain tx3 where t3: "bb_put demo_bolt (ie_Category e) (ie_Path ?e) d tx2 = Inr tx3" using demo_put by blast
  have "put_entry demo_bolt cd (ie_Category e) ?e tx = Inr tx3"
    using t1(1) t2 t3 enc by (simp add: put_entry_def updateEntry_def)
  then show ?thesis using c by (simp add: addEntry_def bucketForCategory_def db_update_def demo_bolt_def)
qed

definition sync_db :: demo_tx where
  "sync_db b = (if b \<in> set allBuckets then Some [] else None)"

lemma sync_db_get: "bucket_get demo_bolt sync_db b = Map.empty"
  by (simp add: fun_eq_iff demo_bolt_get sync_db_def)

lemma sync_reachable: "reachable_index demo_bolt sync_codec sync_db"
proof -
  have o: "openable demo_bolt sync_codec sync_db" by (simp add: openable_def sync_db_get)
  have c: "bb_create demo_bolt b sync_db = Inr sync_db" if "b \<in> set allBuckets" for b
    using that by (simp add: demo_bolt_def sync_db_def)
  have "foldl (\<lambda>r name. try_result r (bb_create demo_bolt name)) (Inr sync_db) bs = Inr sync_db" if "set bs \<subseteq> set allBuckets" for bs
    using that by (induction bs) (auto simp: c)
  then have i: "initBuckets demo_bolt sync_db = Inr sync_db" by (simp add: initBuckets_def)
  have p: "bb_pairs demo_bolt sync_db b = None \<or> bb_pairs demo_bolt sync_db b = Some []" for b
    by (simp add: demo_bolt_def sync_db_def demo_sorted_def)
  have e: "index_bucket demo_bolt sync_codec b sync_db = Inr sync_db" for b
    using p [of b] p [of "orderBucketName b"] by (auto simp: index_bucket_def bucket_keys_def)
  have "foldl (\<lambda>r b. try_result r (index_bucket demo_bolt sync_codec b)) (Inr sync_db) bs = Inr sync_db" for bs
    by (induction bs) (simp_all add: e)
  then have "ensureOrderIndexes demo_bolt sync_codec sync_db = (sync_db, None)"
    by (simp add: ensureOrderIndexes_def db_update_def demo_bolt_def)
  with i have "newIndexDB demo_bolt sync_codec (Inr sync_db) = Inr sync_db"
    by (simp add: newIndexDB_def db_update_def demo_bolt_def)
  with o show ?thesis unfolding reachable_index_def by (metis empty_iff foldl_Nil list.set(1))
qed

lemma sync_codec_ok: "codec_ok sync_codec"
  by (auto simp: codec_ok_def sync_codec_def split: if_splits)

lemma sync_writable: "writable demo_bolt sync_codec {sync_entry}"
proof -
  have f: "ie_Category sync_entry = ''images''" "sync_entry\<lparr>ie_Thumbnail := ''''\<rparr> = sync_entry" "entry_utf8 sync_entry"
    by (simp_all add: sync_entry_def file_entry_def fileCategory_def Let_def Ext_def sync_env_def entry_utf8_def utf8_in_def)
  have "snd (addEntry demo_bolt sync_codec sync_entry tx) = None" if "index_ok demo_bolt sync_codec tx" for tx
    by (rule demo_add [OF that, of _ "''x''"]) (use f in \<open>simp_all add: buckets_def sync_codec_def\<close>)
  with f(3) show ?thesis by (simp add: writable_def demo_bolt_def)
qed

lemma sync_reconciles_witness:
  "\<exists>s'. runSync demo_bolt sync_codec sync_env 2 sync_fs ''/h'' None \<lparr>is_db = sync_db, is_ready = True\<rparr> = Some s' \<and>
    recorded demo_bolt sync_codec (is_db s') sync_entry"
proof -
  have "reachable_index demo_bolt sync_codec (is_db \<lparr>is_db = sync_db, is_ready = True\<rparr>)" by (simp add: sync_reachable)
  from sync_reconciles [OF demo_bolt_ok sync_codec_ok this sync_folders, of sync_env] sync_writable
  show ?thesis unfolding sync_to_index by auto
qed

text \<open>
  When a directory is moved, the index does not follow. The
  watcher reports the old name as renamed and the new one as created; the first removes no entry
  below the old name, the second only begins to watch the directory and adds none of its files,
  so the index keeps naming files that are gone until the next restart.
\<close>

lemma moved_directory_missed:
  assumes "bolt_ok B" "codec_ok cd" "reachable_index B cd db" "os_Lstat m new = Inr (q, nd)" "is_dir nd"
  shows "(let db1 = fst (handleWatchEvent B cd env m old [OpRename] db);
              (db2, watch) = handleWatchEvent B cd env m new [OpCreate] db1
          in (\<forall>c p. p \<noteq> old \<longrightarrow> contents B cd db2 (c, p) = contents B cd db (c, p)) \<and> watch \<in> {None, Some new})"
proof -
  define db1 where "db1 = fst (handleWatchEvent B cd env m old [OpRename] db)"
  have "contents B cd (removeEntry B cd old db) = spec_step (contents B cd db) (Remove old) \<or> removeEntry B cd old db = db"
    using contents_step [OF assms(1,2) reachable_ok [OF assms(1-3)], of "Remove old"] by simp
  then have "contents B cd db1 (c, p) = contents B cd db (c, p)" if "p \<noteq> old" for c p
    using that by (auto simp: db1_def handleWatchEvent_def Let_def)
  moreover have "fst (handleWatchEvent B cd env m new [OpCreate] db1) = db1 \<and>
      snd (handleWatchEvent B cd env m new [OpCreate] db1) \<in> {None, Some new}"
    using assms(4,5) by (simp add: handleWatchEvent_def Let_def)
  ultimately show ?thesis by (simp add: case_prod_beta flip: db1_def)
qed

end
