(* ===== verification/Shell.thy ===== *)
theory Shell
  imports Encryption GoPath
begin

text \<open>
  The remote shell (\<open>src/shell.go\<close>): the tables of a device's shells, the handlers of the \<open>shell\<close> and
  \<open>exec\<close> procedures with the key exchange and the migration of a shell to another session, and the
  goroutine that sends a shell's output. A handler call is one step, as is a read of the output.
\<close>

section \<open>State\<close>

text \<open>
  A pty (\<open>*os.File\<close>): the process behind it, what was written to it, its size, and whether it is
  open. A pty and the \<open>ptySession\<close> made with it share the number that stands for their pointers.
\<close>

record pty_file =
  pt_pid :: nat
  pt_input :: bytes
  pt_size :: "(int \<times> int) option"
  pt_open :: bool

record ptySession =
  ps_inv :: nat
  ps_sendKey :: bytes
  ps_authID :: string

record migrationToken =
  mt_value :: string
  mt_issuedAt :: int

record interactiveShellSession =
  sh_ptmx :: "(string, nat) fmap"
  sh_sessions :: "(string, nat) fmap"
  sh_migrationTokens :: "(string, migrationToken) fmap"
  sh_encKeys :: "(string, encryptionKeys) fmap"
  sh_invShellIDs :: "(nat, string) fmap"
  sh_pids :: "(string, nat) fmap"

text \<open>
  With the objects behind the pointers, the progress results sent so far (by invocation; no
  arguments end the output), and the output readers that run: the pty and the shell ID they were
  started with.
\<close>

record shell_world = interactiveShellSession +
  sh_files :: "nat \<Rightarrow> pty_file"
  sh_ps :: "nat \<Rightarrow> ptySession"
  sh_next :: nat
  sh_sent :: "(nat \<times> wval list) list"
  sh_readers :: "(nat \<times> string) list"

text \<open>
  What the environment answers during a call: random bytes, the time in nanoseconds, the working
  directory of a process, the home directory, starting a command (in a directory, with an agent
  socket or none) on a new pty, a failing write, which of several invocations of a shell the
  iteration over a map meets first.
\<close>

record shell_env =
  se_keypair :: "bytes result"
  se_token :: "bytes result"
  se_nonce :: "bytes result"
  se_now :: int
  se_cwd :: "nat \<Rightarrow> string result"
  se_home :: "string result"
  se_agentSock :: "u64 \<Rightarrow> string option"
  se_start :: "string \<Rightarrow> string \<Rightarrow> string list \<Rightarrow> nat result"
  se_write :: "go_error option"
  se_pick :: "nat list \<Rightarrow> nat"

definition sh_send :: "nat \<Rightarrow> wval list \<Rightarrow> shell_world \<Rightarrow> shell_world" where
  "sh_send ptr args w = w\<lparr>sh_sent := sh_sent w @ [(ptr, args)]\<rparr>"

definition newInteractiveShellSession :: shell_world where
  "newInteractiveShellSession = \<lparr>sh_ptmx = fmempty, sh_sessions = fmempty, sh_migrationTokens = fmempty,
     sh_encKeys = fmempty, sh_invShellIDs = fmempty, sh_pids = fmempty,
     sh_files = (\<lambda>_. \<lparr>pt_pid = 0, pt_input = [], pt_size = None, pt_open = False\<rparr>),
     sh_ps = (\<lambda>_. \<lparr>ps_inv = 0, ps_sendKey = [], ps_authID = []\<rparr>), sh_next = 0, sh_sent = [], sh_readers = []\<rparr>"

section \<open>Shell IDs\<close>

text \<open>The loop over \<open>i = 1, 2, ...\<close>; the table is finite, so a free ID is found.\<close>

function shell_id_from :: "(string, nat) fmap \<Rightarrow> u64 \<Rightarrow> nat \<Rightarrow> string" where
  "shell_id_from t caller i =
     (if fmlookup t (dec_u64 caller @ dec_nat i) = None then dec_u64 caller @ dec_nat i
      else shell_id_from t caller (Suc i))"
  by pat_completeness auto

lemma taken_ids_finite: "finite {j. i \<le> j \<and> fmlookup t (dec_u64 caller @ dec_nat j) \<noteq> None}"
proof (rule finite_imageD)
  show "finite ((\<lambda>j. dec_u64 caller @ dec_nat j) ` {j. i \<le> j \<and> fmlookup t (dec_u64 caller @ dec_nat j) \<noteq> None})"
    by (rule finite_subset [of _ "fset (fmdom t)"]) (auto simp: fmlookup_dom_iff)
qed (simp add: inj_on_def)

termination shell_id_from
proof (relation "measure (\<lambda>(t, caller, i). card {j. i \<le> j \<and> fmlookup t (dec_u64 caller @ dec_nat j) \<noteq> None})")
  fix t caller i assume taken: "fmlookup t (dec_u64 caller @ dec_nat i) \<noteq> None"
  let ?S = "\<lambda>i. {j. i \<le> j \<and> fmlookup t (dec_u64 caller @ dec_nat j) \<noteq> None}"
  have "i \<in> ?S i - ?S (Suc i)" "?S (Suc i) \<subseteq> ?S i" using taken by auto
  then have "?S (Suc i) \<subset> ?S i" by blast
  from psubset_card_mono [OF taken_ids_finite this]
  show "((t, caller, Suc i), t, caller, i) \<in> measure (\<lambda>(t, caller, i). card {j. i \<le> j \<and> fmlookup t (dec_u64 caller @ dec_nat j) \<noteq> None})"
    by simp
qed simp

declare shell_id_from.simps [simp del]

definition generateShellID :: "(string, nat) fmap \<Rightarrow> u64 \<Rightarrow> string" where
  "generateShellID t caller = (if fmlookup t (dec_u64 caller) = None then dec_u64 caller else shell_id_from t caller 1)"

definition shellIDForInv :: "shell_world \<Rightarrow> invocation \<Rightarrow> string" where
  "shellIDForInv w iv = (case fmlookup (sh_invShellIDs w) (inv_ptr iv) of
     Some shellID \<Rightarrow> shellID | None \<Rightarrow> dec_u64 (inv_Caller iv))"

section \<open>Key exchange and migration tokens\<close>

definition setupEncryption ::
  "crypto \<Rightarrow> shell_env \<Rightarrow> invocation \<Rightarrow> bytes \<Rightarrow> string \<Rightarrow> bool \<Rightarrow> shell_world \<Rightarrow> shell_world \<times> (inv_result + encryptionKeys)" where
  "setupEncryption cr env iv clientPublicKey shellID embedShellID w =
     (case ServerKeyExchange cr (se_keypair env) clientPublicKey of
        Inl e \<Rightarrow> (w, Inl (operation_failed e))
      | Inr (serverPublicKey, sendKey, receiveKey) \<Rightarrow>
          let enc = \<lparr>ek_sendKey = sendKey, ek_receiveKey = receiveKey\<rparr>;
              keyData = ''KEY:'' @ serverPublicKey @ (if embedShellID then shellID else [])
          in (sh_send (inv_ptr iv) [VBytes keyData] (w\<lparr>sh_encKeys := fmupd shellID enc (sh_encKeys w)\<rparr>), Inr enc))"

definition hex_encode :: "bytes \<Rightarrow> string" where
  "hex_encode bs = concat (map (\<lambda>c. let n = of_char c :: nat in [''0123456789abcdef'' ! (n div 16), ''0123456789abcdef'' ! (n mod 16)]) bs)"

definition sendMigrationToken :: "crypto \<Rightarrow> shell_env \<Rightarrow> invocation \<Rightarrow> string \<Rightarrow> bytes \<Rightarrow> shell_world \<Rightarrow> shell_world" where
  "sendMigrationToken cr env iv shellID sendKey w = (case se_token env of
     Inl _ \<Rightarrow> w
   | Inr tokenBytes \<Rightarrow> (let token = hex_encode tokenBytes in
       case EncryptPayload cr (se_nonce env) token sendKey of
         Inl _ \<Rightarrow> w
       | Inr encToken \<Rightarrow> sh_send (inv_ptr iv) [VBytes (''MIGRATE:'' @ encToken)]
           (w\<lparr>sh_migrationTokens := fmupd shellID \<lparr>mt_value = token, mt_issuedAt = se_now env\<rparr> (sh_migrationTokens w)\<rparr>)))"

section \<open>Starting and ending a shell\<close>

definition close_pty :: "nat \<Rightarrow> shell_world \<Rightarrow> shell_world" where
  "close_pty f w = w\<lparr>sh_files := (sh_files w)(f := (sh_files w f)\<lparr>pt_open := False\<rparr>)\<rparr>"

definition cleanupShell :: "string \<Rightarrow> invocation \<Rightarrow> shell_world \<Rightarrow> shell_world" where
  "cleanupShell shellID iv w =
     (let w1 = (case fmlookup (sh_ptmx w) shellID of
          Some stored \<Rightarrow> (close_pty stored w)\<lparr>sh_ptmx := fmdrop shellID (sh_ptmx w)\<rparr>
        | None \<Rightarrow> w)
      in w1\<lparr>sh_sessions := fmdrop shellID (sh_sessions w1),
            sh_migrationTokens := fmdrop shellID (sh_migrationTokens w1),
            sh_encKeys := fmdrop shellID (sh_encKeys w1),
            sh_invShellIDs := fmdrop (inv_ptr iv) (sh_invShellIDs w1),
            sh_pids := fmdrop shellID (sh_pids w1)\<rparr>)"

definition cwdForShell :: "shell_env \<Rightarrow> shell_world \<Rightarrow> string \<Rightarrow> string result" where
  "cwdForShell env w shellID = (case fmlookup (sh_pids w) shellID of
     None \<Rightarrow> Inl (Errorf (''no such shell: '' @ shellID))
   | Some pid \<Rightarrow> se_cwd env pid)"

definition resolveStartDir :: "shell_env \<Rightarrow> invocation \<Rightarrow> shell_world \<Rightarrow> string result" where
  "resolveStartDir env iv w =
     (let prevShellID = inv_KwargStringOr iv ''prev-shell'' [];
          home = (case se_home env of Inl e \<Rightarrow> Inl (Wrapf ''failed to get home dir: '' e) | Inr h \<Rightarrow> Inr h)
      in if prevShellID \<noteq> [] then (case cwdForShell env w prevShellID of Inr dir \<Rightarrow> Inr dir | Inl _ \<Rightarrow> home) else home)"

definition startPtySession ::
  "shell_env \<Rightarrow> invocation \<Rightarrow> bytes \<Rightarrow> string \<Rightarrow> string \<Rightarrow> string list \<Rightarrow> shell_world \<Rightarrow> shell_world \<times> nat result" where
  "startPtySession env iv sendKey shellID agentSockPath command w = (case resolveStartDir env iv w of
     Inl e \<Rightarrow> (w, Inl e)
   | Inr dir \<Rightarrow> (case se_start env dir agentSockPath command of
       Inl e \<Rightarrow> (w, Inl (Wrapf ''failed to start PTY: '' e))
     | Inr pid \<Rightarrow> (let f = sh_next w in
         (w\<lparr>sh_files := (sh_files w)(f := \<lparr>pt_pid = pid, pt_input = [], pt_size = None, pt_open = True\<rparr>),
            sh_ps := (sh_ps w)(f := \<lparr>ps_inv = inv_ptr iv, ps_sendKey = sendKey, ps_authID = inv_CallerAuthID iv\<rparr>),
            sh_next := Suc f,
            sh_ptmx := fmupd shellID f (sh_ptmx w),
            sh_sessions := fmupd shellID f (sh_sessions w),
            sh_invShellIDs := fmupd (inv_ptr iv) shellID (sh_invShellIDs w),
            sh_pids := fmupd shellID pid (sh_pids w),
            sh_readers := (f, shellID) # sh_readers w\<rparr>, Inr f))))"

section \<open>The output of a shell\<close>

text \<open>
  What the reader does when its loop ends: the entries under the ID it was started with go, the
  pty is closed if it is the one under that ID.
\<close>

definition output_ends :: "nat \<Rightarrow> string \<Rightarrow> shell_world \<Rightarrow> shell_world" where
  "output_ends f shellID w =
     (let w1 = w\<lparr>sh_ptmx := fmdrop shellID (sh_ptmx w), sh_sessions := fmdrop shellID (sh_sessions w),
                 sh_encKeys := fmdrop shellID (sh_encKeys w), sh_pids := fmdrop shellID (sh_pids w),
                 sh_readers := remove1 (f, shellID) (sh_readers w)\<rparr>
      in if fmlookup (sh_ptmx w) shellID = Some f then close_pty f w1 else w1)"

text \<open>One round of the reader: the bytes it read, and whether the read failed.\<close>

definition output_round ::
  "crypto \<Rightarrow> bytes result \<Rightarrow> nat \<Rightarrow> string \<Rightarrow> bytes \<Rightarrow> bool \<Rightarrow> shell_world \<Rightarrow> shell_world" where
  "output_round cr rnd f shellID chunk failed w =
     (let ptr = ps_inv (sh_ps w f); sendKey = ps_sendKey (sh_ps w f)
      in if chunk \<noteq> [] then
           (case EncryptPayload cr rnd chunk sendKey of
              Inl _ \<Rightarrow> output_ends f shellID (sh_send ptr [] w)
            | Inr encrypted \<Rightarrow> (let w1 = sh_send ptr [VBytes encrypted] w
                in if failed then output_ends f shellID (sh_send ptr [] w1) else w1))
         else if failed then output_ends f shellID (sh_send ptr [] w) else w)"

section \<open>Messages\<close>

text \<open>\<open>bytes.Index\<close>.\<close>

fun find_sub :: "bytes \<Rightarrow> bytes \<Rightarrow> nat option" where
  "find_sub [] p = (if p = [] then Some 0 else None)"
| "find_sub (x # xs) p = (if has_prefix (x # xs) p then Some 0 else map_option Suc (find_sub xs p))"

definition decryptProgress ::
  "crypto \<Rightarrow> bytes \<Rightarrow> string \<Rightarrow> encryptionKeys option \<Rightarrow> shell_world \<Rightarrow> inv_result + (bytes \<times> string \<times> encryptionKeys)" where
  "decryptProgress cr payload shellID enc w =
     (let direct = (case enc of None \<Rightarrow> None | Some en \<Rightarrow> (case DecryptPayload cr payload (ek_receiveKey en) of
            Inl _ \<Rightarrow> None | Inr pt \<Rightarrow> Some (pt, shellID, en)));
          prefixID = takeWhile (\<lambda>c. c \<noteq> CHR '':'') payload;
          stripped = drop (Suc (length prefixID)) payload;
          routed = (if CHR '':'' \<in> set payload \<and> prefixID \<noteq> [] then
            (case fmlookup (sh_encKeys w) prefixID of
               None \<Rightarrow> None
             | Some en \<Rightarrow> (case DecryptPayload cr stripped (ek_receiveKey en) of
                 Inl _ \<Rightarrow> None | Inr pt \<Rightarrow> Some (pt, prefixID, en)))
            else None)
      in case direct of Some r \<Rightarrow> Inr r
       | None \<Rightarrow> (case routed of Some r \<Rightarrow> Inr r
         | None \<Rightarrow> Inl (if enc = None then InvocationError ErrInvalidArgument [VStr ''missing encryption key'']
             else InvocationError ErrOperationFailed [VStr ''failed to decrypt''])))"

text \<open>
  \<open>fmt.Sscanf\<close> with \<open>SIZE:%d:%d\<close> on a text that begins with \<open>SIZE:\<close>. White space before a number
  is skipped, a line break is not; a number that does not fit 64 bits is an error. The result is
  given when both numbers were read.
\<close>

definition blanks :: "string list" where
  "blanks = filter (\<lambda>s. s \<noteq> [char_of (10::nat)]) utf8_spaces"

definition scan_int :: "bytes \<Rightarrow> (int \<times> bytes) option" where
  "scan_int s =
     (let t = trim_left blanks s;
          sgn = (case t of c # _ \<Rightarrow> if c = CHR ''-'' \<or> c = CHR ''+'' then [c] else [] | [] \<Rightarrow> []);
          ds = takeWhile is_digit (drop (length sgn) t);
          v = (if sgn = ''-'' then - int (dec_value ds) else int (dec_value ds))
      in if ds = [] \<or> v < - (2 ^ 63) \<or> 2 ^ 63 \<le> v then None
         else Some (v, drop (length sgn + length ds) t))"

definition scan_size :: "bytes \<Rightarrow> (int \<times> int) option" where
  "scan_size payload = (case scan_int (drop 5 payload) of
     Some (cols, CHR '':'' # rest) \<Rightarrow> map_option (\<lambda>(rows, _). (cols, rows)) (scan_int rest)
   | _ \<Rightarrow> None)"

definition set_size :: "nat \<Rightarrow> int \<Rightarrow> int \<Rightarrow> shell_world \<Rightarrow> shell_world" where
  "set_size f cols rows w = (if pt_open (sh_files w f)
     then w\<lparr>sh_files := (sh_files w)(f := (sh_files w f)\<lparr>pt_size := Some (cols, rows)\<rparr>)\<rparr> else w)"

text \<open>A closed pty, and the \<open>nil\<close> one (\<open>None\<close>), refuse a write.\<close>

definition write_pty :: "shell_env \<Rightarrow> nat option \<Rightarrow> bytes \<Rightarrow> shell_world \<Rightarrow> shell_world \<times> inv_result" where
  "write_pty env f payload w = (case f of
     None \<Rightarrow> (w, operation_failed (Errorf ''invalid argument''))
   | Some r \<Rightarrow>
       if \<not> pt_open (sh_files w r) then (w, operation_failed (Errorf ''file already closed''))
       else (case se_write env of
         Some e \<Rightarrow> (w, operation_failed e)
       | None \<Rightarrow> (w\<lparr>sh_files := (sh_files w)(r := (sh_files w r)\<lparr>pt_input := pt_input (sh_files w r) @ payload\<rparr>)\<rparr>, no_result)))"


section \<open>The handlers\<close>

text \<open>
  What both handlers do first with a progressive message: a message with a public key begins a new
  shell; any other is decrypted with the keys of its shell. The result is the payload, the shell,
  its keys and its pty. \<open>with_token\<close>: the shell handler also issues a migration token.
\<close>

definition open_message ::
  "crypto \<Rightarrow> shell_env \<Rightarrow> bool \<Rightarrow> invocation \<Rightarrow> shell_world
     \<Rightarrow> shell_world \<times> (inv_result + (bytes \<times> string \<times> encryptionKeys \<times> nat option))" where
  "open_message cr env with_token iv w = (case inv_ArgBytes iv 0 of
     Inl e \<Rightarrow> (w, Inl (invalid_argument e))
   | Inr payload \<Rightarrow> (case find_sub payload '':KEY:'' of
       Some keyIdx \<Rightarrow>
         (let shellID = generateShellID (sh_ptmx w) (inv_Caller iv);
              w1 = w\<lparr>sh_invShellIDs := fmupd (inv_ptr iv) shellID (sh_invShellIDs w)\<rparr>
          in case setupEncryption cr env iv (drop (keyIdx + 5) payload) shellID (shellID \<noteq> dec_u64 (inv_Caller iv)) w1 of
               (w2, Inl r) \<Rightarrow> (w2, Inl r)
             | (w2, Inr enc) \<Rightarrow> (if with_token then sendMigrationToken cr env iv shellID (ek_sendKey enc) w2 else w2,
                 Inr (take keyIdx payload, shellID, enc, None)))
     | None \<Rightarrow>
         (let shellID = shellIDForInv w iv
          in case decryptProgress cr payload shellID (fmlookup (sh_encKeys w) shellID) w of
               Inl r \<Rightarrow> (w, Inl r)
             | Inr (pt, resolved, enc) \<Rightarrow> (w, Inr (pt, resolved, enc, fmlookup (sh_ptmx w) resolved)))))"

definition migrationTokenTTL :: int where
  "migrationTokenTTL = 30 * 10 ^ 9"

definition valid_token :: "crypto \<Rightarrow> shell_env \<Rightarrow> invocation \<Rightarrow> encryptionKeys \<Rightarrow> migrationToken option \<Rightarrow> bool" where
  "valid_token cr env iv oldEnc expectedToken = (case (inv_KwargBytes iv ''migrate'', expectedToken) of
     (Inr encMigrate, Some tok) \<Rightarrow> se_now env - mt_issuedAt tok \<le> migrationTokenTTL \<and>
       (case DecryptPayload cr encMigrate (ek_sendKey oldEnc) of
          Inl _ \<Rightarrow> False | Inr plaintext \<Rightarrow> plaintext = mt_value tok)
   | _ \<Rightarrow> False)"

text \<open>The session named by \<open>session-id\<close>, if it is there, becomes the shell of this invocation.\<close>

definition forget_inv :: "shell_env \<Rightarrow> string \<Rightarrow> (nat, string) fmap \<Rightarrow> (nat, string) fmap" where
  "forget_inv env shellID t =
     (let ptrs = sorted_list_of_fset (ffilter (\<lambda>k. fmlookup t k = Some shellID) (fmdom t))
      in if ptrs = [] then t else fmdrop (se_pick env ptrs) t)"

definition migrate_shell ::
  "crypto \<Rightarrow> shell_env \<Rightarrow> invocation \<Rightarrow> encryptionKeys \<Rightarrow> string \<Rightarrow> shell_world \<Rightarrow> inv_result + (shell_world \<times> nat option)" where
  "migrate_shell cr env iv enc shellID w = (case inv_KwargUInt64 iv ''session-id'' of
     Inl _ \<Rightarrow> Inr (w, None)
   | Inr oldSessionID \<Rightarrow> (let oldShellID = dec_u64 oldSessionID in
       case (fmlookup (sh_ptmx w) oldShellID, fmlookup (sh_sessions w) oldShellID, fmlookup (sh_encKeys w) oldShellID) of
         (Some oldPtmx, Some oldPS, Some oldEnc) \<Rightarrow>
           if \<not> valid_token cr env iv oldEnc (fmlookup (sh_migrationTokens w) oldShellID) \<or>
              ps_authID (sh_ps w oldPS) = [] \<or> ps_authID (sh_ps w oldPS) \<noteq> inv_CallerAuthID iv
           then Inl (InvocationError ErrNotAuthorized [VStr ''invalid migration token''])
           else Inr (sh_send (ps_inv (sh_ps w oldPS)) []
             (w\<lparr>sh_migrationTokens := fmdrop oldShellID (sh_migrationTokens w),
                sh_ps := (sh_ps w)(oldPS := (sh_ps w oldPS)\<lparr>ps_inv := inv_ptr iv, ps_sendKey := ek_sendKey enc\<rparr>),
                sh_ptmx := fmupd shellID oldPtmx (fmdrop oldShellID (sh_ptmx w)),
                sh_sessions := fmupd shellID oldPS (fmdrop oldShellID (sh_sessions w)),
                sh_encKeys := fmdrop oldShellID (sh_encKeys w),
                sh_invShellIDs := fmupd (inv_ptr iv) shellID (forget_inv env oldShellID (sh_invShellIDs w))\<rparr>), Some oldPtmx)
       | _ \<Rightarrow> Inr (w, None)))"

definition agentSockForCaller :: "shell_env \<Rightarrow> u64 \<Rightarrow> string" where
  "agentSockForCaller env callerID = (case se_agentSock env callerID of None \<Rightarrow> [] | Some path \<Rightarrow> path)"

definition valid_size :: "int \<Rightarrow> int \<Rightarrow> bool" where
  "valid_size cols rows \<longleftrightarrow> \<not> (cols < 0 \<or> cols > 65535 \<or> rows < 0 \<or> rows > 65535)"

text \<open>The pty of the message, or a new one with the given command.\<close>

definition pty_or_start ::
  "shell_env \<Rightarrow> invocation \<Rightarrow> encryptionKeys \<Rightarrow> string \<Rightarrow> string \<Rightarrow> string list \<Rightarrow> nat option \<Rightarrow> shell_world \<Rightarrow> shell_world \<times> nat result" where
  "pty_or_start env iv enc shellID sock command f w = (case f of
     Some r \<Rightarrow> (w, Inr r)
   | None \<Rightarrow> startPtySession env iv (ek_sendKey enc) shellID sock command w)"

definition size_message ::
  "shell_env \<Rightarrow> invocation \<Rightarrow> encryptionKeys \<Rightarrow> string \<Rightarrow> string \<Rightarrow> string list \<Rightarrow> int \<Rightarrow> int \<Rightarrow> nat option \<Rightarrow> shell_world
     \<Rightarrow> shell_world \<times> inv_result" where
  "size_message env iv enc shellID sock command cols rows f w =
     (case pty_or_start env iv enc shellID sock command f w of
        (w1, Inl e) \<Rightarrow> (w1, operation_failed e)
      | (w1, Inr r) \<Rightarrow> (set_size r cols rows w1, no_result))"

definition last_message :: "invocation \<Rightarrow> shell_world \<Rightarrow> shell_world \<times> inv_result" where
  "last_message iv w =
     (let shellID = (case inv_ArgString iv 0 of Inr s \<Rightarrow> if s \<noteq> [] then s else shellIDForInv w iv | Inl _ \<Rightarrow> shellIDForInv w iv)
      in (cleanupShell shellID iv w, InvocationResult []))"

definition handleShell :: "crypto \<Rightarrow> shell_env \<Rightarrow> invocation \<Rightarrow> shell_world \<Rightarrow> shell_world \<times> inv_result" where
  "handleShell cr env iv w =
     (if \<not> inv_Progress iv then last_message iv w
      else case open_message cr env True iv w of
        (w1, Inl r) \<Rightarrow> (w1, r)
      | (w1, Inr (payload, shellID, enc, f)) \<Rightarrow> (let sock = agentSockForCaller env (inv_Caller iv) in
          if has_prefix payload ''SIZE:'' then
            (case scan_size payload of
               None \<Rightarrow> (w1, no_result)
             | Some (cols, rows) \<Rightarrow>
                 if \<not> valid_size cols rows then (w1, InvocationError ErrInvalidArgument [VStr ''invalid size''])
                 else (case (if f = None then migrate_shell cr env iv enc shellID w1 else Inr (w1, f)) of
                     Inl r \<Rightarrow> (w1, r)
                   | Inr (w2, f2) \<Rightarrow> size_message env iv enc shellID sock [''bash''] cols rows f2 w2))
          else (case pty_or_start env iv enc shellID sock [''bash''] f w1 of
              (w2, Inl e) \<Rightarrow> (w2, operation_failed e)
            | (w2, Inr r) \<Rightarrow> write_pty env (Some r) payload w2)))"

text \<open>The arguments of \<open>exec\<close> after the command; slicing an empty list panics.\<close>

definition exec_command :: "string result list \<Rightarrow> go_panic + string list" where
  "exec_command l = (if l = [] then Inl IndexOutOfRange
     else Inr (map (\<lambda>a. case a of Inl _ \<Rightarrow> [] | Inr s \<Rightarrow> s) l))"

definition handleExec :: "crypto \<Rightarrow> shell_env \<Rightarrow> invocation \<Rightarrow> shell_world \<Rightarrow> shell_world \<times> (go_panic + inv_result)" where
  "handleExec cr env iv w =
     (if \<not> inv_Progress iv then map_prod id Inr (last_message iv w)
      else case open_message cr env False iv w of
        (w1, Inl r) \<Rightarrow> (w1, Inr r)
      | (w1, Inr (payload, shellID, enc, f)) \<Rightarrow>
          if has_prefix payload ''SIZE:'' then
            (case inv_ArgList iv 1 of
               Inl e \<Rightarrow> (w1, Inr (invalid_argument e))
             | Inr commandWithArgs \<Rightarrow> (case exec_command commandWithArgs of
                 Inl p \<Rightarrow> (w1, Inl p)
               | Inr command \<Rightarrow> (case scan_size payload of
                   None \<Rightarrow> (w1, Inr no_result)
                 | Some (cols, rows) \<Rightarrow>
                     if \<not> valid_size cols rows then (w1, Inr (InvocationError ErrInvalidArgument [VStr ''invalid size'']))
                     else map_prod id Inr (size_message env iv enc shellID [] command cols rows f w1))))
          else map_prod id Inr (write_pty env f payload w1))"

text \<open>\<open>fg\<close>: the foreground process group of the pty; \<open>pgid\<close>: the group of the shell.\<close>

definition isBusy :: "(nat \<Rightarrow> int result) \<Rightarrow> (nat \<Rightarrow> int result) \<Rightarrow> string \<Rightarrow> shell_world \<Rightarrow> bool result" where
  "isBusy fg pgid shellID w = (case (fmlookup (sh_ptmx w) shellID, fmlookup (sh_pids w) shellID) of
     (Some ptmx, Some pid) \<Rightarrow> try_result (fg ptmx) (\<lambda>fgpgid. case pgid pid of
         Inl e \<Rightarrow> Inl (Wrapf ''failed to get shell pgid: '' e) | Inr shellPgid \<Rightarrow> Inr (fgpgid \<noteq> shellPgid))
   | _ \<Rightarrow> Inl (Errorf (''no such shell: '' @ shellID)))"

definition handleShellIsBusy :: "(nat \<Rightarrow> int result) \<Rightarrow> (nat \<Rightarrow> int result) \<Rightarrow> invocation \<Rightarrow> shell_world \<Rightarrow> inv_result" where
  "handleShellIsBusy fg pgid iv w = (case inv_ArgString iv 0 of
     Inl e \<Rightarrow> invalid_argument e
   | Inr shellID \<Rightarrow> (case isBusy fg pgid shellID w of
       Inl _ \<Rightarrow> InvocationResult [VBool False] | Inr busy \<Rightarrow> InvocationResult [VBool busy]))"


section \<open>Runs\<close>

text \<open>Calls of the two handlers, with any answers of the environment, and reads of running readers.\<close>

inductive shell_step :: "crypto \<Rightarrow> shell_world \<Rightarrow> shell_world \<Rightarrow> bool" for cr where
  step_shell: "shell_step cr w (fst (handleShell cr env iv w))"
| step_exec: "shell_step cr w (fst (handleExec cr env iv w))"
| step_output: "(f, shellID) \<in> set (sh_readers w) \<Longrightarrow> shell_step cr w (output_round cr rnd f shellID chunk failed w)"

inductive shell_reachable :: "crypto \<Rightarrow> shell_world \<Rightarrow> bool" for cr where
  shell_start: "shell_reachable cr newInteractiveShellSession"
| shell_more: "shell_reachable cr w \<Longrightarrow> shell_step cr w w' \<Longrightarrow> shell_reachable cr w'"

text \<open>
  The pty and the session of a shell are listed together, no pty is listed twice, every listed
  one is open and has keys.
\<close>

definition shell_inv :: "shell_world \<Rightarrow> bool" where
  "shell_inv w \<longleftrightarrow> sh_sessions w = sh_ptmx w \<and>
     (\<forall>a b f. fmlookup (sh_ptmx w) a = Some f \<longrightarrow> fmlookup (sh_ptmx w) b = Some f \<longrightarrow> a = b) \<and>
     (\<forall>a f. fmlookup (sh_ptmx w) a = Some f \<longrightarrow> f < sh_next w \<and> pt_open (sh_files w f) \<and> fmlookup (sh_encKeys w) a \<noteq> None)"

lemma shell_id_from_free: "fmlookup t (shell_id_from t caller i) = None"
  by (induction t caller i rule: shell_id_from.induct) (subst shell_id_from.simps, simp)

lemma generateShellID_free: "fmlookup t (generateShellID t caller) = None"
  by (simp add: generateShellID_def shell_id_from_free)

text \<open>What opening a message leaves as it was.\<close>

definition same_shells :: "shell_world \<Rightarrow> shell_world \<Rightarrow> bool" where
  "same_shells w w' \<longleftrightarrow> sh_ptmx w' = sh_ptmx w \<and> sh_sessions w' = sh_sessions w \<and> sh_files w' = sh_files w \<and>
     sh_ps w' = sh_ps w \<and> sh_next w' = sh_next w \<and> sh_readers w' = sh_readers w \<and> sh_pids w' = sh_pids w \<and>
     (\<forall>a. fmlookup (sh_ptmx w) a \<noteq> None \<longrightarrow> fmlookup (sh_encKeys w') a = fmlookup (sh_encKeys w) a \<and>
        fmlookup (sh_migrationTokens w') a = fmlookup (sh_migrationTokens w) a)"

lemma same_shells_refl [simp]: "same_shells w w"
  by (simp add: same_shells_def)

lemma same_shells_inv: "same_shells w w' \<Longrightarrow> shell_inv w \<Longrightarrow> shell_inv w'"
  unfolding same_shells_def shell_inv_def by (metis option.distinct(1))

lemma sh_send_simps [simp]:
  "sh_ptmx (sh_send p a w) = sh_ptmx w" "sh_sessions (sh_send p a w) = sh_sessions w" "sh_encKeys (sh_send p a w) = sh_encKeys w"
  "sh_migrationTokens (sh_send p a w) = sh_migrationTokens w" "sh_invShellIDs (sh_send p a w) = sh_invShellIDs w"
  "sh_pids (sh_send p a w) = sh_pids w" "sh_files (sh_send p a w) = sh_files w" "sh_ps (sh_send p a w) = sh_ps w"
  "sh_next (sh_send p a w) = sh_next w" "sh_readers (sh_send p a w) = sh_readers w" "sh_sent (sh_send p a w) = sh_sent w @ [(p, a)]"
  by (simp_all add: sh_send_def)

lemma open_message_same:
  assumes "open_message cr env tok iv w = (w1, res)"
  shows "same_shells w w1"
proof -
  have key: "same_shells w w2" if "setupEncryption cr env iv pub sid emb w1 = (w2, r)" "same_shells w w1" "fmlookup (sh_ptmx w) sid = None"
    for sid pub emb w1 w2 r
    using that by (auto simp: setupEncryption_def same_shells_def Let_def split: sum.splits prod.splits)
  have token: "same_shells w (sendMigrationToken cr env iv sid k w1)" if "same_shells w w1" "fmlookup (sh_ptmx w) sid = None" for sid k w1
    using that by (auto simp: sendMigrationToken_def same_shells_def Let_def split: sum.splits)
  have base: "same_shells w (w\<lparr>sh_invShellIDs := x\<rparr>)" for x by (simp add: same_shells_def)
  show ?thesis using assms
    by (auto simp: open_message_def Let_def generateShellID_free split: sum.splits option.splits prod.splits if_splits
        intro!: token dest!: key [OF _ base generateShellID_free])
qed

lemma decryptProgress_Inr:
  "decryptProgress cr payload shellID enc w = Inr (pt, sid, en) \<longleftrightarrow>
     (enc = Some en \<and> sid = shellID \<and> DecryptPayload cr payload (ek_receiveKey en) = Inr pt) \<or>
     ((\<forall>e. enc = Some e \<longrightarrow> (\<exists>x. DecryptPayload cr payload (ek_receiveKey e) = Inl x)) \<and>
      sid \<noteq> [] \<and> CHR '':'' \<in> set payload \<and> sid = takeWhile (\<lambda>c. c \<noteq> CHR '':'') payload \<and> fmlookup (sh_encKeys w) sid = Some en \<and>
      DecryptPayload cr (drop (Suc (length sid)) payload) (ek_receiveKey en) = Inr pt)"
  by (auto simp: decryptProgress_def Let_def split: option.splits sum.splits if_splits)

lemma open_message_Inr:
  assumes "open_message cr env tok iv w = (w1, Inr (payload, sid, enc, f))"
  shows "fmlookup (sh_encKeys w1) sid = Some enc" "f = fmlookup (sh_ptmx w) sid"
    "f \<noteq> None \<Longrightarrow> \<exists>raw c. inv_ArgBytes iv 0 = Inr raw \<and> c \<in> {raw, drop (Suc (length sid)) raw} \<and>
       fmlookup (sh_encKeys w) sid = Some enc \<and> DecryptPayload cr c (ek_receiveKey enc) = Inr payload"
proof -
  obtain raw where raw: "inv_ArgBytes iv 0 = Inr raw" using assms by (auto simp: open_message_def split: sum.splits)
  show "fmlookup (sh_encKeys w1) sid = Some enc" "f = fmlookup (sh_ptmx w) sid"
    "f \<noteq> None \<Longrightarrow> \<exists>raw c. inv_ArgBytes iv 0 = Inr raw \<and> c \<in> {raw, drop (Suc (length sid)) raw} \<and>
       fmlookup (sh_encKeys w) sid = Some enc \<and> DecryptPayload cr c (ek_receiveKey enc) = Inr payload"
  proof (atomize (full), cases "find_sub raw '':KEY:''")
    case (Some k)
    let ?sid = "generateShellID (sh_ptmx w) (inv_Caller iv)"
    have "sid = ?sid" "f = None"
      using assms raw Some by (auto simp: open_message_def Let_def split: sum.splits prod.splits)
    moreover have "fmlookup (sh_encKeys w1) ?sid = Some enc"
      using assms raw Some
      by (auto simp: open_message_def setupEncryption_def sendMigrationToken_def Let_def split: sum.splits prod.splits if_splits)
    ultimately show "fmlookup (sh_encKeys w1) sid = Some enc \<and> f = fmlookup (sh_ptmx w) sid \<and>
      (f \<noteq> None \<longrightarrow> (\<exists>raw c. inv_ArgBytes iv 0 = Inr raw \<and> c \<in> {raw, drop (Suc (length sid)) raw} \<and>
       fmlookup (sh_encKeys w) sid = Some enc \<and> DecryptPayload cr c (ek_receiveKey enc) = Inr payload))"
      by (simp add: generateShellID_free)
  next
    case None
    let ?s = "shellIDForInv w iv"
    have d: "decryptProgress cr raw ?s (fmlookup (sh_encKeys w) ?s) w = Inr (payload, sid, enc)" and o: "w1 = w" "f = fmlookup (sh_ptmx w) sid"
      using assms raw None by (auto simp: open_message_def Let_def split: sum.splits prod.splits)
    have "fmlookup (sh_encKeys w) sid = Some enc \<and> (\<exists>c \<in> {raw, drop (Suc (length sid)) raw}. DecryptPayload cr c (ek_receiveKey enc) = Inr payload)"
      using d unfolding decryptProgress_Inr by auto
    with raw o show "fmlookup (sh_encKeys w1) sid = Some enc \<and> f = fmlookup (sh_ptmx w) sid \<and>
      (f \<noteq> None \<longrightarrow> (\<exists>raw c. inv_ArgBytes iv 0 = Inr raw \<and> c \<in> {raw, drop (Suc (length sid)) raw} \<and>
       fmlookup (sh_encKeys w) sid = Some enc \<and> DecryptPayload cr c (ek_receiveKey enc) = Inr payload))" by blast
  qed
qed


text \<open>What a call leaves as it was when it writes to no shell and moves none.\<close>

definition shells_kept :: "shell_world \<Rightarrow> shell_world \<Rightarrow> bool" where
  "shells_kept w w' \<longleftrightarrow> sh_next w \<le> sh_next w' \<and>
     (\<forall>f < sh_next w. pt_input (sh_files w' f) = pt_input (sh_files w f) \<and> sh_ps w' f = sh_ps w f) \<and>
     (\<forall>a f. fmlookup (sh_ptmx w) a = Some f \<longrightarrow> fmlookup (sh_ptmx w') a = Some f)"

lemma shells_kept_refl [simp]: "shells_kept w w"
  by (simp add: shells_kept_def)

lemma shells_kept_trans: "shells_kept w w1 \<Longrightarrow> shells_kept w1 w2 \<Longrightarrow> shells_kept w w2"
  unfolding shells_kept_def by (metis order_trans order_less_le_trans)

lemma same_shells_kept: "same_shells w w' \<Longrightarrow> shells_kept w w'"
  by (simp add: same_shells_def shells_kept_def)

lemma set_size_kept: "shells_kept w (set_size f c r w)"
  by (simp add: set_size_def shells_kept_def)

lemma set_size_ps [simp]: "sh_ps (set_size f c r w) = sh_ps w"
  by (simp add: set_size_def)

lemma set_size_inv: "shell_inv w \<Longrightarrow> shell_inv (set_size f c r w)"
  by (auto simp: set_size_def shell_inv_def)

lemma start_effect:
  assumes "startPtySession env iv k sid sock cmd w = (w', r)" "fmlookup (sh_ptmx w) sid = None"
  shows "shells_kept w w'" "shell_inv w \<Longrightarrow> fmlookup (sh_encKeys w) sid \<noteq> None \<Longrightarrow> shell_inv w'"
    "r = Inr g \<Longrightarrow> fmlookup (sh_ptmx w') sid = Some g \<and> sh_next w \<le> g \<and> pt_input (sh_files w' g) = [] \<and> pt_open (sh_files w' g) \<and>
       sh_ps w' g = \<lparr>ps_inv = inv_ptr iv, ps_sendKey = k, ps_authID = inv_CallerAuthID iv\<rparr>"
proof -
  have s: "w' = w \<and> (\<exists>e. r = Inl e) \<or> (\<exists>pid. let f = sh_next w in
      w' = w\<lparr>sh_files := (sh_files w)(f := \<lparr>pt_pid = pid, pt_input = [], pt_size = None, pt_open = True\<rparr>),
            sh_ps := (sh_ps w)(f := \<lparr>ps_inv = inv_ptr iv, ps_sendKey = k, ps_authID = inv_CallerAuthID iv\<rparr>),
            sh_next := Suc f, sh_ptmx := fmupd sid f (sh_ptmx w), sh_sessions := fmupd sid f (sh_sessions w),
            sh_invShellIDs := fmupd (inv_ptr iv) sid (sh_invShellIDs w), sh_pids := fmupd sid pid (sh_pids w),
            sh_readers := (f, sid) # sh_readers w\<rparr> \<and> r = Inr f)"
    using assms(1) by (auto simp: startPtySession_def Let_def split: sum.splits)
  then show "shells_kept w w'" using assms(2) by (auto simp: Let_def shells_kept_def)
  show "shell_inv w'" if i: "shell_inv w" "fmlookup (sh_encKeys w) sid \<noteq> None"
  proof (cases "w' = w")
    case False
    have lt: "f < sh_next w" if "fmlookup (sh_ptmx w) a = Some f" for a f using i(1) that unfolding shell_inv_def by blast
    from False s i lt show ?thesis unfolding Let_def shell_inv_def by (fastforce split: if_splits)
  qed (use i in simp)
  show "r = Inr g \<Longrightarrow> fmlookup (sh_ptmx w') sid = Some g \<and> sh_next w \<le> g \<and> pt_input (sh_files w' g) = [] \<and> pt_open (sh_files w' g) \<and>
       sh_ps w' g = \<lparr>ps_inv = inv_ptr iv, ps_sendKey = k, ps_authID = inv_CallerAuthID iv\<rparr>"
    using s by (auto simp: Let_def)
qed

lemma pty_or_start_effect:
  assumes "pty_or_start env iv enc sid sock cmd f w = (w', r)" "f = fmlookup (sh_ptmx w) sid"
  shows "shells_kept w w'" "shell_inv w \<Longrightarrow> fmlookup (sh_encKeys w) sid \<noteq> None \<Longrightarrow> shell_inv w'"
    "r = Inr g \<Longrightarrow> f = Some g \<and> w' = w \<or> f = None \<and> sh_next w \<le> g \<and> fmlookup (sh_ptmx w') sid = Some g"
  using assms start_effect [of env iv "ek_sendKey enc" sid sock cmd w w' r]
  by (auto simp: pty_or_start_def split: option.splits)

lemma size_message_effect:
  assumes "f = fmlookup (sh_ptmx w) sid"
  shows "shells_kept w (fst (size_message env iv enc sid sock cmd c r f w))"
    "shell_inv w \<Longrightarrow> fmlookup (sh_encKeys w) sid \<noteq> None \<Longrightarrow> shell_inv (fst (size_message env iv enc sid sock cmd c r f w))"
proof -
  obtain w1 x where p: "pty_or_start env iv enc sid sock cmd f w = (w1, x)" by fastforce
  note e = pty_or_start_effect [OF p assms]
  have "fst (size_message env iv enc sid sock cmd c r f w) = (case x of Inl _ \<Rightarrow> w1 | Inr g \<Rightarrow> set_size g c r w1)"
    by (simp add: size_message_def p split: sum.split)
  with e(1,2) show "shells_kept w (fst (size_message env iv enc sid sock cmd c r f w))"
    "shell_inv w \<Longrightarrow> fmlookup (sh_encKeys w) sid \<noteq> None \<Longrightarrow> shell_inv (fst (size_message env iv enc sid sock cmd c r f w))"
    using shells_kept_trans [OF e(1) set_size_kept] set_size_inv by (auto split: sum.split)
qed

lemma write_pty_inv: "shell_inv w \<Longrightarrow> shell_inv (fst (write_pty env f p w))"
  by (auto simp: write_pty_def shell_inv_def split: option.split)

lemma write_pty_cases:
  "fst (write_pty env f p w) = w \<or> (\<exists>r. f = Some r \<and> fst (write_pty env f p w) =
     w\<lparr>sh_files := (sh_files w)(r := (sh_files w r)\<lparr>pt_input := pt_input (sh_files w r) @ p\<rparr>)\<rparr>)"
  by (auto simp: write_pty_def split: option.split)

text \<open>The conditions of a migration and what it changes.\<close>

definition may_migrate :: "crypto \<Rightarrow> shell_env \<Rightarrow> invocation \<Rightarrow> shell_world \<Rightarrow> string \<Rightarrow> nat \<Rightarrow> bool" where
  "may_migrate cr env iv w old f \<longleftrightarrow> fmlookup (sh_ptmx w) old = Some f \<and>
     (\<exists>enc tok blob. fmlookup (sh_encKeys w) old = Some enc \<and> fmlookup (sh_migrationTokens w) old = Some tok \<and>
        se_now env - mt_issuedAt tok \<le> migrationTokenTTL \<and> inv_KwargBytes iv ''migrate'' = Inr blob \<and>
        DecryptPayload cr blob (ek_sendKey enc) = Inr (mt_value tok)) \<and>
     ps_authID (sh_ps w f) \<noteq> [] \<and> ps_authID (sh_ps w f) = inv_CallerAuthID iv"

lemma valid_token_iff:
  "valid_token cr env iv e t \<longleftrightarrow> (\<exists>blob tok. inv_KwargBytes iv ''migrate'' = Inr blob \<and> t = Some tok \<and>
     se_now env - mt_issuedAt tok \<le> migrationTokenTTL \<and> DecryptPayload cr blob (ek_sendKey e) = Inr (mt_value tok))"
proof -
  have "(case x of Inl _ \<Rightarrow> False | Inr p \<Rightarrow> p = v) \<longleftrightarrow> x = Inr v" for x :: "bytes result" and v by (cases x) auto
  then show ?thesis by (cases "inv_KwargBytes iv ''migrate''"; cases t) (simp_all add: valid_token_def)
qed

lemma migrate_effect:
  assumes "migrate_shell cr env iv enc sid w = Inr (w', f)" "shell_inv w" "fmlookup (sh_ptmx w) sid = None"
  shows "w' = w \<and> f = None \<or> (\<exists>old r. may_migrate cr env iv w old r \<and> f = Some r \<and> old \<noteq> sid \<and> fmlookup (sh_ptmx w') sid = Some r \<and>
      sh_files w' = sh_files w \<and> sh_next w' = sh_next w \<and> fmlookup (sh_migrationTokens w') old = None \<and>
      sh_ps w' = (sh_ps w)(r := \<lparr>ps_inv = inv_ptr iv, ps_sendKey = ek_sendKey enc, ps_authID = inv_CallerAuthID iv\<rparr>) \<and>
      (\<forall>a. a \<noteq> old \<longrightarrow> a \<noteq> sid \<longrightarrow> fmlookup (sh_ptmx w') a = fmlookup (sh_ptmx w) a) \<and> fmlookup (sh_ptmx w') old = None \<and>
      (fmlookup (sh_encKeys w) sid \<noteq> None \<longrightarrow> shell_inv w' \<and> fmlookup (sh_encKeys w') sid = fmlookup (sh_encKeys w) sid))"
proof (cases "w' = w \<and> f = None")
  case False
  obtain os where os: "inv_KwargUInt64 iv ''session-id'' = Inr os"
    using assms(1) False by (auto simp: migrate_shell_def split: sum.splits)
  let ?old = "dec_u64 os"
  have ss: "sh_sessions w = sh_ptmx w" using assms(2) by (simp add: shell_inv_def)
  obtain r oe where r: "fmlookup (sh_ptmx w) ?old = Some r" "fmlookup (sh_encKeys w) ?old = Some oe"
    using assms(1) False by (auto simp: migrate_shell_def os Let_def ss split: option.splits)
  have v: "valid_token cr env iv oe (fmlookup (sh_migrationTokens w) ?old)" "ps_authID (sh_ps w r) \<noteq> []"
    "ps_authID (sh_ps w r) = inv_CallerAuthID iv"
    using assms(1) r by (auto simp: migrate_shell_def os Let_def ss split: if_splits)
  have w': "f = Some r" "w' = sh_send (ps_inv (sh_ps w r)) []
             (w\<lparr>sh_migrationTokens := fmdrop ?old (sh_migrationTokens w),
                sh_ps := (sh_ps w)(r := (sh_ps w r)\<lparr>ps_inv := inv_ptr iv, ps_sendKey := ek_sendKey enc\<rparr>),
                sh_ptmx := fmupd sid r (fmdrop ?old (sh_ptmx w)), sh_sessions := fmupd sid r (fmdrop ?old (sh_sessions w)),
                sh_encKeys := fmdrop ?old (sh_encKeys w),
                sh_invShellIDs := fmupd (inv_ptr iv) sid (forget_inv env ?old (sh_invShellIDs w))\<rparr>)"
    using assms(1) r v by (auto simp: migrate_shell_def os Let_def ss split: if_splits)
  have ne: "?old \<noteq> sid" using r(1) assms(3) by auto
  have m: "may_migrate cr env iv w ?old r"
    using v r by (auto simp: may_migrate_def valid_token_iff)
  have ps: "(sh_ps w r)\<lparr>ps_inv := inv_ptr iv, ps_sendKey := ek_sendKey enc\<rparr> =
      \<lparr>ps_inv = inv_ptr iv, ps_sendKey = ek_sendKey enc, ps_authID = inv_CallerAuthID iv\<rparr>"
    using v(3) by (cases "sh_ps w r") simp
  have inj: "a = ?old" if "fmlookup (sh_ptmx w) a = Some r" for a using assms(2) r(1) that unfolding shell_inv_def by blast
  have "shell_inv w'" if "fmlookup (sh_encKeys w) sid \<noteq> None"
    using assms(2) that inj ne r(1) unfolding w' shell_inv_def by (auto split: if_splits)
  with m ne ps show ?thesis by (intro disjI2 exI [of _ ?old] exI [of _ r]) (simp add: w')
qed simp


section \<open>What a message can do\<close>

text \<open>The message was written to the shell it was encrypted for.\<close>

definition typed :: "crypto \<Rightarrow> invocation \<Rightarrow> shell_world \<Rightarrow> shell_world \<Rightarrow> nat \<Rightarrow> bool" where
  "typed cr iv w w' f \<longleftrightarrow> (\<exists>sid enc raw c pt. fmlookup (sh_ptmx w) sid = Some f \<and> fmlookup (sh_encKeys w) sid = Some enc \<and>
     inv_ArgBytes iv 0 = Inr raw \<and> c \<in> {raw, drop (Suc (length sid)) raw} \<and>
     DecryptPayload cr c (ek_receiveKey enc) = Inr pt \<and> pt_input (sh_files w' f) = pt_input (sh_files w f) @ pt)"

text \<open>Nothing but that, and an authorised migration, happens to the shells there are.\<close>

definition shells_guarded :: "crypto \<Rightarrow> shell_env \<Rightarrow> invocation \<Rightarrow> shell_world \<Rightarrow> shell_world \<Rightarrow> bool" where
  "shells_guarded cr env iv w w' \<longleftrightarrow> (\<forall>f < sh_next w.
     (pt_input (sh_files w' f) = pt_input (sh_files w f) \<or> typed cr iv w w' f) \<and>
     (sh_ps w' f = sh_ps w f \<or> (\<exists>old. may_migrate cr env iv w old f) \<and> ps_inv (sh_ps w' f) = inv_ptr iv \<and>
        ps_authID (sh_ps w' f) = ps_authID (sh_ps w f))) \<and>
   (\<forall>a f. fmlookup (sh_ptmx w) a = Some f \<longrightarrow> fmlookup (sh_ptmx w') a = Some f \<or> may_migrate cr env iv w a f)"

lemma kept_guarded: "shells_kept w w' \<Longrightarrow> shells_guarded cr env iv w w'"
  by (simp add: shells_kept_def shells_guarded_def)

lemma written_guarded:
  assumes o: "open_message cr env tok iv w = (w1, Inr (p, sid, enc, f))" and k: "shells_kept w1 w2" and i: "shell_inv w"
    and r: "f = Some r \<and> w2 = w1 \<or> f = None \<and> sh_next w1 \<le> r"
  shows "shells_guarded cr env iv w (fst (write_pty e (Some r) p w2))"
proof -
  note s = open_message_same [OF o]
  have k2: "shells_kept w w2" using shells_kept_trans [OF same_shells_kept [OF s] k] .
  consider "fst (write_pty e (Some r) p w2) = w2"
    | "fst (write_pty e (Some r) p w2) = w2\<lparr>sh_files := (sh_files w2)(r := (sh_files w2 r)\<lparr>pt_input := pt_input (sh_files w2 r) @ p\<rparr>)\<rparr>"
    using write_pty_cases [of e "Some r" p w2] by auto
  then show ?thesis
  proof cases
    case 1
    with kept_guarded [OF k2] show ?thesis by simp
  next
    case 2
    show ?thesis
    proof (cases "f = None")
      case True
      with r s have "sh_next w \<le> r" by (simp add: same_shells_def)
      with k2 show ?thesis unfolding 2 by (auto simp: shells_guarded_def shells_kept_def)
    next
      case False
      with r have f: "f = Some r" "w2 = w1" by auto
      obtain raw c where c: "inv_ArgBytes iv 0 = Inr raw" "c \<in> {raw, drop (Suc (length sid)) raw}"
        "fmlookup (sh_encKeys w) sid = Some enc" "DecryptPayload cr c (ek_receiveKey enc) = Inr p"
        using open_message_Inr(3) [OF o] False by blast
      have p: "fmlookup (sh_ptmx w) sid = Some r" using open_message_Inr(2) [OF o] f(1) by simp
      have "typed cr iv w (fst (write_pty e (Some r) p w2)) r"
        unfolding typed_def 2 by (intro exI [of _ sid] exI [of _ enc] exI [of _ raw] exI [of _ c] exI [of _ p])
          (use c p s f(2) in \<open>simp add: same_shells_def\<close>)
      with k2 show ?thesis by (auto simp: shells_guarded_def shells_kept_def 2)
    qed
  qed
qed

lemma same_shells_may_migrate:
  assumes "same_shells w w1" "may_migrate cr env iv w1 old f"
  shows "may_migrate cr env iv w old f"
proof -
  have "fmlookup (sh_ptmx w) old = Some f" using assms by (simp add: same_shells_def may_migrate_def)
  then have eq: "fmlookup (sh_encKeys w1) old = fmlookup (sh_encKeys w) old"
    "fmlookup (sh_migrationTokens w1) old = fmlookup (sh_migrationTokens w) old" "sh_ps w1 = sh_ps w" "sh_ptmx w1 = sh_ptmx w"
    using assms(1) by (auto simp: same_shells_def)
  show ?thesis using assms(2) unfolding may_migrate_def eq .
qed

lemma handleShell_effect:
  assumes i: "shell_inv w" and p: "inv_Progress iv"
  shows "shells_guarded cr env iv w (fst (handleShell cr env iv w)) \<and> shell_inv (fst (handleShell cr env iv w))"
proof (cases "open_message cr env True iv w")
  case (Pair w1 res)
  note s = open_message_same [OF Pair]
  have i1: "shell_inv w1" by (rule same_shells_inv [OF s i])
  note g1 = kept_guarded [OF same_shells_kept [OF s]]
  show ?thesis
  proof (cases res)
    case (Inl r)
    with Pair p g1 i1 show ?thesis by (simp add: handleShell_def)
  next
    case (Inr x)
    obtain pay sid enc f where x: "x = (pay, sid, enc, f)" by (cases x)
    note o = Pair [unfolded Inr x]
    have e: "fmlookup (sh_encKeys w1) sid = Some enc" "f = fmlookup (sh_ptmx w1) sid"
      using open_message_Inr(1,2) [OF o] s by (auto simp: same_shells_def)
    let ?sock = "agentSockForCaller env (inv_Caller iv)"
    show ?thesis
    proof (cases "has_prefix pay ''SIZE:''")
      case False
      obtain w2 y where ps: "pty_or_start env iv enc sid ?sock [''bash''] f w1 = (w2, y)" by fastforce
      note pe = pty_or_start_effect [OF ps e(2)]
      have h: "fst (handleShell cr env iv w) = (case y of Inl _ \<Rightarrow> w2 | Inr r \<Rightarrow> fst (write_pty env (Some r) pay w2))"
        using p o False ps by (simp add: handleShell_def split: sum.split)
      show ?thesis
      proof (cases y)
        case (Inl er)
        with h shells_kept_trans [OF same_shells_kept [OF s] pe(1)] pe(2) i1 e(1) show ?thesis by (simp add: kept_guarded)
      next
        case (Inr r)
        have "f = Some r \<and> w2 = w1 \<or> f = None \<and> sh_next w1 \<le> r" using pe(3) [OF Inr] by auto
        from written_guarded [OF o pe(1) i this] h Inr write_pty_inv pe(2) [OF i1] e(1) show ?thesis by simp
      qed
    next
      case True
      show ?thesis
      proof (cases "case scan_size pay of None \<Rightarrow> False | Some (c, r) \<Rightarrow> valid_size c r")
        case False
        with True p o g1 i1 show ?thesis by (auto simp: handleShell_def split: option.splits)
      next
        case v: True
        then obtain c r where cr: "scan_size pay = Some (c, r)" "valid_size c r" by (auto split: option.splits)
        define res2 where "res2 = (if f = None then migrate_shell cr env iv enc sid w1 else Inr (w1, f))"
        have h: "fst (handleShell cr env iv w) = (case res2 of Inl _ \<Rightarrow> w1
            | Inr (w2, f2) \<Rightarrow> fst (size_message env iv enc sid ?sock [''bash''] c r f2 w2))"
          using p o True cr by (simp add: handleShell_def res2_def split: sum.split prod.split)
        show ?thesis
        proof (cases res2)
          case (Inl er)
          with h g1 i1 show ?thesis by simp
        next
          case (Inr y)
          obtain w2 f2 where y: "y = (w2, f2)" by (cases y)
          consider "w2 = w1" "f2 = f" | "f = None" "migrate_shell cr env iv enc sid w1 = Inr (w2, f2)"
            using Inr y by (auto simp: res2_def split: if_splits)
          then show ?thesis
          proof cases
            case 1
            note sm = size_message_effect [OF e(2), of env iv enc ?sock "[''bash'']" c r]
            from shells_kept_trans [OF same_shells_kept [OF s] sm(1)] sm(2) [OF i1] e(1) h Inr y 1
            show ?thesis by (simp add: kept_guarded)
          next
            case 2
            have n: "fmlookup (sh_ptmx w1) sid = None" using 2(1) e(2) by simp
            from migrate_effect [OF 2(2) i1 n] consider (none) "w2 = w1 \<and> f2 = None" | (moved) old g where
              "may_migrate cr env iv w1 old g" "f2 = Some g" "old \<noteq> sid" "fmlookup (sh_ptmx w2) sid = Some g"
              "sh_files w2 = sh_files w1" "sh_next w2 = sh_next w1"
              "sh_ps w2 = (sh_ps w1)(g := \<lparr>ps_inv = inv_ptr iv, ps_sendKey = ek_sendKey enc, ps_authID = inv_CallerAuthID iv\<rparr>)"
              "\<forall>a. a \<noteq> old \<longrightarrow> a \<noteq> sid \<longrightarrow> fmlookup (sh_ptmx w2) a = fmlookup (sh_ptmx w1) a" "shell_inv w2"
              "fmlookup (sh_encKeys w2) sid \<noteq> None"
              using e(1) by auto
            then show ?thesis
            proof cases
              case none
              note sm = size_message_effect [OF e(2), of env iv enc ?sock "[''bash'']" c r]
              from shells_kept_trans [OF same_shells_kept [OF s] sm(1)] sm(2) [OF i1] e(1) h Inr y none 2(1)
              show ?thesis by (simp add: kept_guarded)
            next
              case moved
              note mm = same_shells_may_migrate [OF s moved(1)]
              have sm: "size_message env iv enc sid ?sock [''bash''] c r f2 w2 = (set_size g c r w2, no_result)"
                by (simp add: size_message_def pty_or_start_def moved(2))
              have w': "fst (handleShell cr env iv w) = set_size g c r w2" using h Inr y sm by simp
              have sn: "fmlookup (sh_ptmx w) sid = None" "sh_ptmx w1 = sh_ptmx w" "sh_files w1 = sh_files w" "sh_ps w1 = sh_ps w" "sh_next w1 = sh_next w"
                using n s by (simp_all add: same_shells_def)
              have inj: "a = old" if "fmlookup (sh_ptmx w) a = Some g" for a
                using i mm that unfolding shell_inv_def may_migrate_def by blast
              have k: "shells_kept w2 (set_size g c r w2)" by (rule set_size_kept)
              have "shells_guarded cr env iv w (set_size g c r w2)"
                unfolding shells_guarded_def
              proof (intro conjI allI impI)
                fix h assume "h < sh_next w"
                then have hh: "pt_input (sh_files (set_size g c r w2) h) = pt_input (sh_files w h)" "sh_ps (set_size g c r w2) h = sh_ps w2 h"
                  using k moved(5,6) sn by (auto simp: shells_kept_def)
                show "pt_input (sh_files (set_size g c r w2) h) = pt_input (sh_files w h) \<or> typed cr iv w (set_size g c r w2) h" using hh by simp
                show "sh_ps (set_size g c r w2) h = sh_ps w h \<or> (\<exists>old. may_migrate cr env iv w old h) \<and>
                   ps_inv (sh_ps (set_size g c r w2) h) = inv_ptr iv \<and> ps_authID (sh_ps (set_size g c r w2) h) = ps_authID (sh_ps w h)"
                  using mm by (cases "h = g") (auto simp: hh moved(7) sn may_migrate_def)
              next
                fix a h assume a: "fmlookup (sh_ptmx w) a = Some h"
                show "fmlookup (sh_ptmx (set_size g c r w2)) a = Some h \<or> may_migrate cr env iv w a h"
                proof (cases "a = old")
                  case True
                  with a mm have "h = g" unfolding may_migrate_def by simp
                  with mm True show ?thesis by simp
                next
                  case False
                  then have "fmlookup (sh_ptmx w2) a = Some h" using a sn moved(8) by auto
                  with k show ?thesis by (simp add: shells_kept_def)
                qed
              qed
              with w' set_size_inv [OF moved(9)] show ?thesis by simp
            qed
          qed
        qed
      qed
    qed
  qed
qed


lemma handleExec_effect:
  assumes i: "shell_inv w" and p: "inv_Progress iv"
  shows "shells_guarded cr env iv w (fst (handleExec cr env iv w)) \<and> shell_inv (fst (handleExec cr env iv w)) \<and>
    (\<forall>f < sh_next w. sh_ps (fst (handleExec cr env iv w)) f = sh_ps w f)"
proof (cases "open_message cr env False iv w")
  case (Pair w1 res)
  note s = open_message_same [OF Pair]
  have i1: "shell_inv w1" by (rule same_shells_inv [OF s i])
  note k1 = same_shells_kept [OF s]
  show ?thesis
  proof (cases res)
    case (Inl r)
    with Pair p k1 i1 kept_guarded [OF k1] show ?thesis by (simp add: handleExec_def shells_kept_def)
  next
    case (Inr x)
    obtain pay sid enc f where x: "x = (pay, sid, enc, f)" by (cases x)
    note o = Pair [unfolded Inr x]
    have e: "fmlookup (sh_encKeys w1) sid = Some enc" "f = fmlookup (sh_ptmx w1) sid"
      using open_message_Inr(1,2) [OF o] s by (auto simp: same_shells_def)
    consider "fst (handleExec cr env iv w) = w1"
      | cmd c r where "fst (handleExec cr env iv w) = fst (size_message env iv enc sid [] cmd c r f w1)"
      | "fst (handleExec cr env iv w) = fst (write_pty env f pay w1)"
    proof -
      have x: "fst (handleExec cr env iv w) = (if has_prefix pay ''SIZE:'' then (case inv_ArgList iv 1 of Inl _ \<Rightarrow> w1
          | Inr l \<Rightarrow> (case exec_command l of Inl _ \<Rightarrow> w1 | Inr cmd \<Rightarrow> (case scan_size pay of None \<Rightarrow> w1
            | Some (c, r) \<Rightarrow> if valid_size c r then fst (size_message env iv enc sid [] cmd c r f w1) else w1)))
          else fst (write_pty env f pay w1))"
        by (simp add: handleExec_def p o split: sum.split option.split prod.split)
      show thesis
      proof (cases "has_prefix pay ''SIZE:''")
        case True
        have "fst (handleExec cr env iv w) = w1 \<or>
            (\<exists>cmd c r. fst (handleExec cr env iv w) = fst (size_message env iv enc sid [] cmd c r f w1))"
          unfolding x using True by (simp split: sum.split option.split prod.split) blast
        with that(1,2) show thesis by blast
      qed (use x that(3) in simp)
    qed
    then show ?thesis
    proof cases
      case 1
      with k1 i1 kept_guarded [OF k1] show ?thesis by (simp add: shells_kept_def)
    next
      case (2 cmd c r)
      note sm = size_message_effect [OF e(2), of env iv enc "[]" cmd c r]
      note k = shells_kept_trans [OF k1 sm(1)]
      show ?thesis unfolding 2 using k kept_guarded [OF k] sm(2) [OF i1] e(1) by (simp add: shells_kept_def)
    next
      case 3
      have "sh_ps (fst (write_pty env f pay w1)) = sh_ps w"
        using s by (auto simp: write_pty_def same_shells_def split: option.split)
      moreover have "shells_guarded cr env iv w (fst (write_pty env f pay w1))"
      proof (cases f)
        case None
        with kept_guarded [OF k1] show ?thesis by (simp add: write_pty_def)
      next
        case (Some r)
        from written_guarded [OF o shells_kept_refl i, of r] Some show ?thesis by simp
      qed
      ultimately show ?thesis unfolding 3 using write_pty_inv [OF i1] by simp
    qed
  qed
qed

lemma cleanup_inv: "shell_inv w \<Longrightarrow> shell_inv (cleanupShell sid iv w)"
proof -
  assume i: "shell_inv w"
  have "fmlookup (sh_ptmx w) sid = None \<Longrightarrow> fmdrop sid (sh_ptmx w) = sh_ptmx w"
    by (rule fmap_ext) auto
  with i show ?thesis unfolding shell_inv_def cleanupShell_def Let_def close_pty_def
    by (cases "fmlookup (sh_ptmx w) sid") (auto split: if_splits)
qed

lemma last_message_inv: "shell_inv w \<Longrightarrow> shell_inv (fst (last_message iv w))"
  by (simp add: last_message_def Let_def cleanup_inv)

lemma sh_send_inv [simp]: "shell_inv (sh_send p a w) \<longleftrightarrow> shell_inv w"
  by (simp add: shell_inv_def)

lemma output_ends_inv: "shell_inv w \<Longrightarrow> shell_inv (output_ends f sid w)"
  unfolding shell_inv_def output_ends_def Let_def close_pty_def by (auto split: if_splits)

lemma output_round_inv: "shell_inv w \<Longrightarrow> shell_inv (output_round cr rnd f sid chunk failed w)"
  by (simp add: output_round_def Let_def output_ends_inv split: sum.split)

lemma shell_reachable_inv: "shell_reachable cr w \<Longrightarrow> shell_inv w"
proof (induction rule: shell_reachable.induct)
  case shell_start
  show ?case by (simp add: shell_inv_def newInteractiveShellSession_def)
next
  case (shell_more w w')
  from shell_more.hyps(2) shell_more.IH show ?case
  proof cases
    case (step_shell env iv)
    show ?thesis
    proof (cases "inv_Progress iv")
      case True
      with handleShell_effect [OF shell_more.IH] step_shell show ?thesis by blast
    next
      case False
      with last_message_inv [OF shell_more.IH] step_shell show ?thesis by (simp add: handleShell_def)
    qed
  next
    case (step_exec env iv)
    show ?thesis
    proof (cases "inv_Progress iv")
      case True
      with handleExec_effect [OF shell_more.IH] step_exec show ?thesis by blast
    next
      case False
      with last_message_inv [OF shell_more.IH] step_exec show ?thesis by (simp add: handleExec_def)
    qed
  qed (simp add: output_round_inv)
qed


section \<open>Properties\<close>

text \<open>
  Property C23 (shell_guarded): in every reachable state a progressive call of \<open>shell\<close> or \<open>exec\<close>
  changes the input of an existing pty only by appending the decryption of its own message under
  the key of the shell that has this pty, and leaves every shell under its ID and its output where
  it went, except that \<open>shell\<close> moves a shell when the caller, authenticated by the same non-empty
  auth ID, presents that shell's migration token, encrypted under its key, within 30 seconds of its
  issue. \<open>exec\<close> moves none.
\<close>

theorem shell_guarded:
  assumes "shell_reachable cr w" and "inv_Progress iv"
  shows "shells_guarded cr env iv w (fst (handleShell cr env iv w)) \<and>
    shells_guarded cr env iv w (fst (handleExec cr env iv w)) \<and>
    (\<forall>f \<in> {0..<sh_next w}. sh_ps (fst (handleExec cr env iv w)) f = sh_ps w f)"
  using handleShell_effect [OF shell_reachable_inv [OF assms(1)] assms(2)]
    handleExec_effect [OF shell_reachable_inv [OF assms(1)] assms(2)] by simp

text \<open>An environment in which commands start, for the examples.\<close>

definition sample_shell_env :: shell_env where
  "sample_shell_env = \<lparr>se_keypair = Inr (replicate 32 CHR ''a''), se_token = Inr ''t'', se_nonce = Inr (replicate 12 CHR ''n''),
     se_now = 0, se_cwd = (\<lambda>_. Inl (Errorf ''no such process'')), se_home = Inr ''/home/u'', se_agentSock = (\<lambda>_. None),
     se_start = (\<lambda>_ _ _. Inr 100), se_write = None, se_pick = hd\<rparr>"

text \<open>The state after the first message of a client, and its next message.\<close>

definition sample_first :: invocation where
  "sample_first = sample_inv 1 7 ''u'' True [VBytes (''SIZE:80:24:KEY:'' @ replicate 32 CHR ''b'')]"

definition sample_open :: shell_world where
  "sample_open = fst (handleShell toy_crypto sample_shell_env sample_first newInteractiveShellSession)"

lemma sample_open_reachable: "shell_reachable toy_crypto sample_open"
  unfolding sample_open_def by (rule shell_more [OF shell_start step_shell])

theorem shell_guarded_witness:
  "shells_guarded toy_crypto sample_shell_env (sample_inv 1 7 ''u'' True [VBytes ''ls'']) sample_open
     (fst (handleShell toy_crypto sample_shell_env (sample_inv 1 7 ''u'' True [VBytes ''ls'']) sample_open))"
  by (rule shell_guarded [THEN conjunct1]) (simp_all add: sample_open_reachable)



text \<open>
  When a shell was moved to a new ID and a new shell was then
  started under the old one, the end of the moved shell's process (its output reader still has the
  old ID) leaves the moved shell listed and its pty open, and removes the entries of the new shell,
  whose pty stays open.
\<close>

theorem migrated_shell_exit:
  assumes "shell_inv w" and "fmlookup (sh_ptmx w) sid = None" and "inv_KwargUInt64 iv ''session-id'' = Inr os"
    and moved: "migrate_shell cr env iv enc sid w = Inr (w1, Some f)"
    and started: "startPtySession env2 iv2 k (dec_u64 os) sock cmd w1 = (w2, Inr g)"
  shows "let w3 = output_round cr rnd f (dec_u64 os) [] True w2 in
    fmlookup (sh_ptmx w3) sid = Some f \<and> pt_open (sh_files w3 f) \<and>
    fmlookup (sh_ptmx w2) (dec_u64 os) = Some g \<and> fmlookup (sh_ptmx w3) (dec_u64 os) = None \<and> pt_open (sh_files w3 g)"
proof -
  have ss: "sh_sessions w = sh_ptmx w" using assms(1) by (simp add: shell_inv_def)
  obtain oe where r: "fmlookup (sh_ptmx w) (dec_u64 os) = Some f" "fmlookup (sh_encKeys w) (dec_u64 os) = Some oe"
    using moved by (auto simp: migrate_shell_def assms(3) Let_def ss split: option.splits if_splits)
  have w1: "sh_ptmx w1 = fmupd sid f (fmdrop (dec_u64 os) (sh_ptmx w))" "sh_files w1 = sh_files w" "sh_next w1 = sh_next w"
    using moved r by (auto simp: migrate_shell_def assms(3) Let_def ss split: if_splits)
  have f: "f < sh_next w" "pt_open (sh_files w f)" "dec_u64 os \<noteq> sid"
    using assms(1,2) r(1) unfolding shell_inv_def by auto
  have n: "fmlookup (sh_ptmx w1) (dec_u64 os) = None" using f(3) by (simp add: w1)
  have "g = sh_next w" "pt_open (sh_files w2 g)" "pt_open (sh_files w2 f)" "sh_ptmx w2 = fmupd (dec_u64 os) g (sh_ptmx w1)"
    using started f(1,2) by (auto simp: startPtySession_def Let_def w1 split: sum.splits)
  then show ?thesis using f w1(1) by (simp add: Let_def output_round_def output_ends_def)
qed

text \<open>Shell \<open>5\<close>, its token, and a call that moves it to ID \<open>9\<close>.\<close>

definition sample_shells :: shell_world where
  "sample_shells = newInteractiveShellSession\<lparr>sh_ptmx := fmupd ''5'' 0 fmempty, sh_sessions := fmupd ''5'' 0 fmempty,
     sh_migrationTokens := fmupd ''5'' \<lparr>mt_value = ''hi'', mt_issuedAt = 0\<rparr> fmempty,
     sh_encKeys := fmupd ''5'' \<lparr>ek_sendKey = replicate 32 CHR ''s'', ek_receiveKey = replicate 32 CHR ''r''\<rparr> fmempty,
     sh_files := (\<lambda>_. \<lparr>pt_pid = 100, pt_input = [], pt_size = None, pt_open = True\<rparr>),
     sh_ps := (\<lambda>_. \<lparr>ps_inv = 1, ps_sendKey = replicate 32 CHR ''s'', ps_authID = ''u''\<rparr>), sh_next := 1,
     sh_readers := [(0, ''5'')]\<rparr>"

definition sample_move :: invocation where
  "sample_move = (sample_inv 2 9 ''u'' True [])\<lparr>inv_KwargUInt64 := (\<lambda>_. Inr 5),
     inv_KwargBytes := (\<lambda>_. Inr (replicate 12 CHR ''n'' @ ''hi'' @ replicate 16 CHR ''s''))\<rparr>"

lemma sample_moved:
  "\<exists>w1. migrate_shell toy_crypto sample_shell_env sample_move enc ''9'' sample_shells = Inr (w1, Some 0)"
proof -
  have "DecryptPayload toy_crypto (replicate 12 CHR ''n'' @ ''hi'' @ replicate 16 CHR ''s'') (replicate 32 CHR ''s'') = Inr ''hi''"
    using DecryptPayload_Encrypt [OF _ _ _ toy_seal, of "CHR ''s''"] toy_crypto_ok by (simp add: crypto_ok_def)
  moreover have "dec_u64 5 = ''5''" by (simp add: dec_u64_def dec_nat.simps digit_char_def char_of_eq_iff)
  ultimately show ?thesis
    by (simp add: migrate_shell_def sample_move_def sample_shells_def valid_token_def sample_shell_env_def
        newInteractiveShellSession_def migrationTokenTTL_def Let_def)
qed

theorem migrated_shell_exit_witness:
  "\<exists>w1 w2 g. migrate_shell toy_crypto sample_shell_env sample_move \<lparr>ek_sendKey = [], ek_receiveKey = []\<rparr> ''9'' sample_shells = Inr (w1, Some 0) \<and>
     startPtySession sample_shell_env (sample_inv 3 5 ''u'' True []) [] (dec_u64 5) [] [''bash''] w1 = (w2, Inr g) \<and>
     fmlookup (sh_ptmx (output_round toy_crypto (Inr []) 0 (dec_u64 5) [] True w2)) (dec_u64 5) = None"
proof -
  obtain w1 where m: "migrate_shell toy_crypto sample_shell_env sample_move \<lparr>ek_sendKey = [], ek_receiveKey = []\<rparr> ''9'' sample_shells = Inr (w1, Some 0)"
    using sample_moved by blast
  obtain w2 g where s: "startPtySession sample_shell_env (sample_inv 3 5 ''u'' True []) [] (dec_u64 5) [] [''bash''] w1 = (w2, Inr g)"
    by (simp add: startPtySession_def resolveStartDir_def sample_shell_env_def sample_inv_def Let_def)
  have i: "shell_inv sample_shells" "fmlookup (sh_ptmx sample_shells) ''9'' = None"
    by (simp_all add: shell_inv_def sample_shells_def newInteractiveShellSession_def)
  have "inv_KwargUInt64 sample_move ''session-id'' = Inr 5" by (simp add: sample_move_def)
  from migrated_shell_exit [OF i this m s, where rnd = "Inr []"] m s show ?thesis by (auto simp: Let_def)
qed

end
