(* ===== verification/ShellClient.thy ===== *)
theory ShellClient
  imports Shell
begin

text \<open>
  The client of a remote shell (\<open>StartInteractiveCommand\<close> of \<open>src/shell.go\<close>) and the two ends
  together: a shell is opened with agreed keys, what is typed reaches its pty and what the pty
  prints reaches the terminal. The terminal itself and its modes are left out.
\<close>

section \<open>The client\<close>

record shell_client =
  sc_publicKey :: bytes
  sc_privateKey :: bytes
  sc_sendKey :: bytes
  sc_receiveKey :: bytes
  sc_shellID :: string
  sc_ready :: bool

definition withShellPrefix :: "shell_client \<Rightarrow> bytes \<Rightarrow> bytes" where
  "withShellPrefix c payload = (if sc_shellID c = [] then payload else sc_shellID c @ '':'' @ payload)"

definition progress_args :: "string \<Rightarrow> bytes \<Rightarrow> wval list \<Rightarrow> wval list" where
  "progress_args realm payload more_args = (if realm = [] then [] else [VStr realm]) @ VBytes payload # more_args"

definition size_text :: "nat \<Rightarrow> nat \<Rightarrow> string" where
  "size_text width height = ''SIZE:'' @ dec_nat width @ '':'' @ dec_nat height"

text \<open>\<open>window\<close> is what \<open>term.GetSize\<close> answers.\<close>

definition buildSizeProgress ::
  "crypto \<Rightarrow> bytes result \<Rightarrow> string \<Rightarrow> string list \<Rightarrow> (nat \<times> nat) result \<Rightarrow> bool \<Rightarrow> shell_client \<Rightarrow> wval list option" where
  "buildSizeProgress cr rnd realm args window firstMsg c = (case window of
     Inl _ \<Rightarrow> None
   | Inr (width, height) \<Rightarrow>
       (if firstMsg then Some (progress_args realm (size_text width height @ '':KEY:'' @ sc_publicKey c) [VList (map VStr args)])
        else (case EncryptPayload cr rnd (size_text width height) (sc_sendKey c) of
          Inl _ \<Rightarrow> None
        | Inr encrypted \<Rightarrow> Some (progress_args realm (withShellPrefix c encrypted) [VList (map VStr args)]))))"

definition input_progress :: "crypto \<Rightarrow> bytes result \<Rightarrow> string \<Rightarrow> bytes \<Rightarrow> shell_client \<Rightarrow> wval list option" where
  "input_progress cr rnd realm chunk c = (case EncryptPayload cr rnd chunk (sc_sendKey c) of
     Inl _ \<Rightarrow> None | Inr encrypted \<Rightarrow> Some (progress_args realm (withShellPrefix c encrypted) []))"

definition final_progress :: "shell_client \<Rightarrow> wval list" where
  "final_progress c = (if sc_shellID c \<noteq> [] then [VStr (sc_shellID c)] else [])"

text \<open>
  What the receiver of progress results does: end the call, stop reading the terminal, hand a
  migration token to the local proxy, or print. The argument is what \<open>ArgBytes\<close> gives, or \<open>None\<close>
  for a result without arguments.
\<close>

datatype client_action = SendFinal "wval list" | Ignore | StopInput | Relay bytes | Print bytes

definition client_receive ::
  "crypto \<Rightarrow> string \<Rightarrow> bytes result option \<Rightarrow> shell_client \<Rightarrow> shell_client \<times> client_action" where
  "client_receive cr realm res c = (case res of
     None \<Rightarrow> (c, SendFinal (final_progress c))
   | Some (Inl _) \<Rightarrow> (c, Ignore)
   | Some (Inr data) \<Rightarrow>
       if has_prefix data ''KEY:'' then
         (let rest = drop 4 data;
              c1 = (if length rest > 32 then c\<lparr>sc_shellID := drop 32 rest\<rparr> else c)
          in case ClientKeyExchangeKeys cr (sc_privateKey c) (if length rest > 32 then take 32 rest else rest) of
               Inl _ \<Rightarrow> (c1\<lparr>sc_sendKey := [], sc_receiveKey := []\<rparr>, StopInput)
             | Inr (sendKey, receiveKey) \<Rightarrow> (c1\<lparr>sc_sendKey := sendKey, sc_receiveKey := receiveKey, sc_ready := True\<rparr>, Ignore))
       else if has_prefix data ''MIGRATE:'' then (c, if realm \<noteq> [] then Relay (drop 8 data) else Ignore)
       else (case DecryptPayload cr data (sc_receiveKey c) of Inl _ \<Rightarrow> (c, Ignore) | Inr plaintext \<Rightarrow> (c, Print plaintext)))"

section \<open>Texts\<close>

lemma digit_facts: "\<not> is_digit CHR '':''" "\<not> is_digit CHR ''-''" "\<not> is_digit CHR ''+''" "\<not> is_digit CHR ''K''"
  by (simp_all add: is_digit_def)

lemma trim_digit:
  assumes "is_digit c"
  shows "trim_left blanks (c # s) = c # s"
proof -
  have "48 \<le> (of_char c :: nat)" "(of_char c :: nat) \<le> 57" using assms by (simp_all add: is_digit_def)
  moreover have "(of_char (hd p) :: nat) \<notin> {48..57} \<and> p \<noteq> []" if "p \<in> set blanks" for p
    using that by (auto simp: blanks_def utf8_spaces_def)
  ultimately have "\<not> has_prefix (c # s) p" if "p \<in> set blanks" for p
    using that by (cases p) fastforce+
  then have "find (\<lambda>p. p \<noteq> [] \<and> has_prefix (c # s) p) blanks = None"
    unfolding find_None_iff by blast
  then show ?thesis by (subst trim_left.simps) simp
qed

lemma takeWhile_digits:
  "\<forall>c \<in> set ds. is_digit c \<Longrightarrow> rest = [] \<or> \<not> is_digit (hd rest) \<Longrightarrow> takeWhile is_digit (ds @ rest) = ds"
  by (cases rest) (auto simp: takeWhile_append)

lemma scan_dec:
  assumes "n < 2 ^ 63" "rest = [] \<or> \<not> is_digit (hd rest)"
  shows "scan_int (dec_nat n @ rest) = Some (int n, rest)"
proof -
  obtain c ds where c: "dec_nat n = c # ds" by (cases "dec_nat n") auto
  have d: "is_digit c" using dec_nat_digits [of c n] c by simp
  have t: "trim_left blanks (dec_nat n @ rest) = dec_nat n @ rest" unfolding c using trim_digit [OF d] by simp
  have "c \<noteq> CHR ''-''" "c \<noteq> CHR ''+''" using d digit_facts by auto
  then have s: "(case dec_nat n @ rest of c # _ \<Rightarrow> if c = CHR ''-'' \<or> c = CHR ''+'' then [c] else [] | [] \<Rightarrow> []) = []"
    by (simp add: c)
  have "takeWhile is_digit (dec_nat n @ rest) = dec_nat n"
    by (rule takeWhile_digits) (use dec_nat_digits assms(2) in auto)
  then show ?thesis using assms(1) unfolding scan_int_def Let_def t s by simp
qed

lemma scan_size_text: "w < 2 ^ 63 \<Longrightarrow> h < 2 ^ 63 \<Longrightarrow> scan_size (size_text w h) = Some (int w, int h)"
  using scan_dec [of w "'':'' @ dec_nat h"] scan_dec [of h "[]"] digit_facts(1)
  by (simp add: scan_size_def size_text_def)


lemma find_sub_digits:
  "\<forall>c \<in> set ds. is_digit c \<Longrightarrow> find_sub (ds @ xs) '':KEY:'' = map_option (\<lambda>k. length ds + k) (find_sub xs '':KEY:'')"
proof (induction ds)
  case (Cons d ds)
  then have "d \<noteq> CHR '':''" using digit_facts by auto
  with Cons show ?case by (cases "find_sub xs '':KEY:''") auto
next
  case Nil
  show ?case by (cases "find_sub xs '':KEY:''") simp_all
qed

lemma find_sub_colon:
  assumes "is_digit d"
  shows "find_sub (CHR '':'' # d # xs) '':KEY:'' = map_option Suc (find_sub (d # xs) '':KEY:'')"
proof -
  have "d \<noteq> CHR ''K''" using assms digit_facts by auto
  then show ?thesis by simp
qed

lemma find_key:
  "find_sub (size_text w h @ '':KEY:'' @ pub) '':KEY:'' = Some (length (size_text w h))"
proof -
  have d: "\<forall>c \<in> set (dec_nat n). is_digit c" for n using dec_nat_digits by blast
  obtain a as where a: "dec_nat w = a # as" by (cases "dec_nat w") auto
  obtain b bs where b: "dec_nat h = b # bs" by (cases "dec_nat h") auto
  have k: "find_sub ('':KEY:'' @ pub) '':KEY:'' = Some 0" by simp
  have "find_sub (dec_nat h @ '':KEY:'' @ pub) '':KEY:'' = Some (length (dec_nat h))"
    unfolding find_sub_digits [OF d] k by simp
  then have "find_sub (CHR '':'' # dec_nat h @ '':KEY:'' @ pub) '':KEY:'' = Some (Suc (length (dec_nat h)))"
    unfolding b append_Cons using d [of h] b by (subst find_sub_colon) simp_all
  then have "find_sub (dec_nat w @ CHR '':'' # dec_nat h @ '':KEY:'' @ pub) '':KEY:'' = Some (length (dec_nat w) + Suc (length (dec_nat h)))"
    unfolding find_sub_digits [OF d] by simp
  then have "find_sub (CHR '':'' # dec_nat w @ CHR '':'' # dec_nat h @ '':KEY:'' @ pub) '':KEY:'' = Some (Suc (length (dec_nat w) + Suc (length (dec_nat h))))"
    unfolding a append_Cons using d [of w] a by (subst find_sub_colon) simp_all
  then show ?thesis by (simp add: size_text_def)
qed

section \<open>The two ends\<close>

text \<open>The client \<open>c\<close> holds the keys of the shell \<open>sid\<close> with pty \<open>f\<close>, and its output goes to them.\<close>

definition connected :: "shell_client \<Rightarrow> shell_world \<Rightarrow> string \<Rightarrow> nat \<Rightarrow> bool" where
  "connected c w sid f \<longleftrightarrow> fmlookup (sh_ptmx w) sid = Some f \<and> pt_open (sh_files w f) \<and>
     fmlookup (sh_encKeys w) sid = Some \<lparr>ek_sendKey = sc_receiveKey c, ek_receiveKey = sc_sendKey c\<rparr> \<and>
     ps_sendKey (sh_ps w f) = sc_receiveKey c \<and> length (sc_sendKey c) = 32 \<and> length (sc_receiveKey c) = 32 \<and>
     sc_ready c \<and> sc_shellID c \<in> {[], sid}"

lemma client_keys:
  assumes cr: "crypto_ok cr" and c: "CreateX25519KeyPair cr rc = Inr (pub, priv)" "length priv = 32"
    and s: "ServerKeyExchange cr rs pub = Inr (spk, sk, rk)"
  shows "ClientKeyExchangeKeys cr priv spk = Inr (rk, sk)" "length spk = 32" "length sk = 32" "length rk = 32"
proof -
  have ok: "dh_ok cr" "hkdf_ok cr" using cr by (simp_all add: crypto_ok_def)
  obtain spriv sec where x: "CreateX25519KeyPair cr rs = Inr (spk, spriv)" "PerformKeyExchange cr spriv pub = Inr sec"
    "DeriveKeyHKDF cr sec ''backendToFrontend'' = Inr sk" "DeriveKeyHKDF cr sec ''frontendToBackend'' = Inr rk"
    using s unfolding ServerKeyExchange_Inr by blast
  have p: "PerformKeyExchange cr priv spk = Inr sec" by (rule shared_secret_agrees [OF ok(1) x(1) c(1) x(2) c(2)])
  then show "ClientKeyExchangeKeys cr priv spk = Inr (rk, sk)" by (simp add: ClientKeyExchangeKeys_def x)
  show "length spk = 32" using p by (simp add: PerformKeyExchange_Inr)
  show "length sk = 32" "length rk = 32" using DeriveKeyHKDF_length [OF ok(2)] x(3,4) by blast+
qed

lemma shell_id_digits:
  "generateShellID t caller \<noteq> [] \<and> (\<forall>c \<in> set (generateShellID t caller). is_digit c)"
proof -
  have "shell_id_from t caller i \<noteq> [] \<and> (\<forall>c \<in> set (shell_id_from t caller i). is_digit c)" for i
    by (induction t caller i rule: shell_id_from.induct)
      (subst (1 2) shell_id_from.simps, auto simp: dec_u64_def dest: dec_nat_digits)
  then show ?thesis by (auto simp: generateShellID_def dec_u64_def dest: dec_nat_digits)
qed

lemma generateShellID_nonempty [simp]: "generateShellID t caller \<noteq> []"
  using shell_id_digits by blast

text \<open>What opening the first message of a client does: its key exchange, answered with \<open>key_answer\<close>.\<close>

definition key_answer :: "bytes \<Rightarrow> string \<Rightarrow> u64 \<Rightarrow> bytes" where
  "key_answer spk sid caller = ''KEY:'' @ spk @ (if sid \<noteq> dec_u64 caller then sid else [])"

lemma first_message:
  assumes "inv_ArgBytes iv 0 = Inr (size_text width height @ '':KEY:'' @ pub)"
    and s: "ServerKeyExchange cr (se_keypair env) pub = Inr (spk, sk, rk)" and sid: "sid = generateShellID (sh_ptmx w) (inv_Caller iv)"
  shows "\<exists>w1. open_message cr env True iv w = (w1, Inr (size_text width height, sid, \<lparr>ek_sendKey = sk, ek_receiveKey = rk\<rparr>, None)) \<and>
    sh_ptmx w1 = sh_ptmx w \<and> sh_next w1 = sh_next w \<and> sh_pids w1 = sh_pids w \<and>
    fmlookup (sh_encKeys w1) sid = Some \<lparr>ek_sendKey = sk, ek_receiveKey = rk\<rparr> \<and>
    (inv_ptr iv, [VBytes (key_answer spk sid (inv_Caller iv))]) \<in> set (sh_sent w1)"
proof -
  let ?payload = "size_text width height @ '':KEY:'' @ pub"
  define w2 where "w2 = sh_send (inv_ptr iv) [VBytes (key_answer spk sid (inv_Caller iv))]
    (w\<lparr>sh_invShellIDs := fmupd (inv_ptr iv) sid (sh_invShellIDs w), sh_encKeys := fmupd sid \<lparr>ek_sendKey = sk, ek_receiveKey = rk\<rparr> (sh_encKeys w)\<rparr>)"
  define w3 where "w3 = sendMigrationToken cr env iv sid sk w2"
  have cut: "take (length (size_text width height)) ?payload = size_text width height"
    "drop (length (size_text width height) + 5) ?payload = pub" by simp_all
  have "open_message cr env True iv w = (w3, Inr (size_text width height, sid, \<lparr>ek_sendKey = sk, ek_receiveKey = rk\<rparr>, None))"
    unfolding open_message_def assms(1) sum.case find_key option.case cut
    by (simp add: Let_def setupEncryption_def s w3_def w2_def sid key_answer_def)
  moreover have "set (sh_sent w2) \<subseteq> set (sh_sent w3)" "sh_ptmx w3 = sh_ptmx w2" "sh_next w3 = sh_next w2" "sh_pids w3 = sh_pids w2"
    "sh_encKeys w3 = sh_encKeys w2" by (auto simp: w3_def sendMigrationToken_def Let_def split: sum.split)
  ultimately show ?thesis by (intro exI [of _ w3]) (auto simp: w2_def)
qed

lemma resolveStartDir_pids:
  assumes "sh_pids w1 = sh_pids w"
  shows "resolveStartDir env iv w1 = resolveStartDir env iv w"
proof -
  have "cwdForShell env w1 = cwdForShell env w" by (rule ext) (simp add: cwdForShell_def assms)
  then show ?thesis by (simp only: resolveStartDir_def)
qed

lemma client_takes_key:
  assumes "ClientKeyExchangeKeys cr (sc_privateKey c) spk = Inr (rk, sk)" "length spk = 32" "sc_shellID c = []" "sid \<noteq> []"
  shows "fst (client_receive cr [] (Some (Inr (key_answer spk sid caller))) c) =
    c\<lparr>sc_shellID := (if sid \<noteq> dec_u64 caller then sid else []), sc_sendKey := rk, sc_receiveKey := sk, sc_ready := True\<rparr>"
  using assms by (simp add: client_receive_def key_answer_def Let_def)

text \<open>What is decrypted for a message of a connected client.\<close>

lemma routed_message:
  assumes cr: "aead_ok cr" and con: "connected c w sid f"
    and sent: "EncryptPayload cr rnd chunk (sc_sendKey c) = Inr d" "nonce_drawn rnd"
    and route: "if sc_shellID c = [] then shellIDForInv w iv = sid
      else CHR '':'' \<notin> set sid \<and> (\<forall>e. fmlookup (sh_encKeys w) (shellIDForInv w iv) = Some e \<longrightarrow>
        (\<exists>x. DecryptPayload cr (withShellPrefix c d) (ek_receiveKey e) = Inl x))"
  shows "decryptProgress cr (withShellPrefix c d) (shellIDForInv w iv) (fmlookup (sh_encKeys w) (shellIDForInv w iv)) w =
    Inr (chunk, sid, \<lparr>ek_sendKey = sc_receiveKey c, ek_receiveKey = sc_sendKey c\<rparr>)"
proof -
  have d: "DecryptPayload cr d (sc_sendKey c) = Inr chunk"
    using DecryptPayload_Encrypt [OF cr _ sent(2,1)] con by (simp add: connected_def)
  have k: "fmlookup (sh_encKeys w) sid = Some \<lparr>ek_sendKey = sc_receiveKey c, ek_receiveKey = sc_sendKey c\<rparr>"
    using con by (simp add: connected_def)
  show ?thesis
  proof (cases "sc_shellID c = []")
    case True
    with route d k show ?thesis unfolding decryptProgress_Inr by (simp add: withShellPrefix_def)
  next
    case False
    then have s: "sc_shellID c = sid" using con by (simp add: connected_def)
    have p: "withShellPrefix c d = sid @ CHR '':'' # d" using False s by (simp add: withShellPrefix_def)
    have t: "takeWhile (\<lambda>c. c \<noteq> CHR '':'') (sid @ CHR '':'' # d) = sid"
      using route False by (subst takeWhile_append2) auto
    show ?thesis unfolding decryptProgress_Inr p t using route False k d s p by simp
  qed
qed

section \<open>Properties\<close>

text \<open>
  The first message of a client that asks for no migration starts a
  shell under a free ID, sized as the client's window and with an empty input; its invocation gets
  the output, and the client that reads the key answer holds the same keys as the device. What is
  needed is that the key exchange, finding the start directory and starting the command succeed.
\<close>

theorem shell_opens:
  assumes cr: "crypto_ok cr" and c: "CreateX25519KeyPair cr rc = Inr (sc_publicKey c, sc_privateKey c)" "length (sc_privateKey c) = 32"
      "sc_shellID c = []"
    and first: "buildSizeProgress cr rnd [] args (Inr (width, height)) True c = Some (VBytes payload # more_args)"
      "width \<le> 65535" "height \<le> 65535"
    and iv: "inv_Progress iv" "inv_ArgBytes iv 0 = Inr payload" "inv_KwargUInt64 iv ''session-id'' = Inl e0"
    and env: "ServerKeyExchange cr (se_keypair env) (sc_publicKey c) = Inr (spk, sk, rk)" "resolveStartDir env iv w = Inr dir"
      "se_start env dir (agentSockForCaller env (inv_Caller iv)) [''bash''] = Inr pid"
  shows "\<exists>w' key. handleShell cr env iv w = (w', no_result) \<and> (inv_ptr iv, [VBytes key]) \<in> set (sh_sent w') \<and>
    connected (fst (client_receive cr [] (Some (Inr key)) c)) w' (generateShellID (sh_ptmx w) (inv_Caller iv)) (sh_next w) \<and>
    ps_inv (sh_ps w' (sh_next w)) = inv_ptr iv \<and>
    pt_size (sh_files w' (sh_next w)) = Some (int width, int height) \<and> pt_input (sh_files w' (sh_next w)) = []"
proof -
  define sid where "sid = generateShellID (sh_ptmx w) (inv_Caller iv)"
  define enc where "enc = \<lparr>ek_sendKey = sk, ek_receiveKey = rk\<rparr>"
  define key where "key = key_answer spk sid (inv_Caller iv)"
  have sid: "fmlookup (sh_ptmx w) sid = None" "sid \<noteq> []" by (simp_all add: sid_def generateShellID_free)
  note k = client_keys [OF cr c(1,2) env(1)]
  have pay: "payload = size_text width height @ '':KEY:'' @ sc_publicKey c"
    using first(1) by (auto simp: buildSizeProgress_def progress_args_def)
  obtain w1 where w1: "open_message cr env True iv w = (w1, Inr (size_text width height, sid, enc, None))"
    "sh_ptmx w1 = sh_ptmx w" "sh_next w1 = sh_next w" "sh_pids w1 = sh_pids w" "fmlookup (sh_encKeys w1) sid = Some enc"
    "(inv_ptr iv, [VBytes key]) \<in> set (sh_sent w1)"
    using first_message [OF iv(2) [unfolded pay] env(1) sid_def] unfolding enc_def key_def by blast
  have size: "has_prefix (size_text width height) ''SIZE:''" "scan_size (size_text width height) = Some (int width, int height)"
    "valid_size (int width) (int height)"
    using first(2,3) scan_size_text [of width height] by (simp_all add: size_text_def valid_size_def)
  obtain w2 where st: "startPtySession env iv sk sid (agentSockForCaller env (inv_Caller iv)) [''bash''] w1 = (w2, Inr (sh_next w))"
    "sh_sent w2 = sh_sent w1" "sh_encKeys w2 = sh_encKeys w1"
    using env(2,3) w1(3) resolveStartDir_pids [OF w1(4), of env iv] by (simp add: startPtySession_def Let_def)
  note e = start_effect(3) [OF st(1) sid(1) [folded w1(2)], of "sh_next w"]
  have h: "handleShell cr env iv w = (set_size (sh_next w) (int width) (int height) w2, no_result)"
    using iv size st(1) by (simp add: handleShell_def w1(1) migrate_shell_def size_message_def pty_or_start_def enc_def Let_def)
  note t = client_takes_key [OF k(1,2) c(3) sid(2), of "inv_Caller iv", folded key_def]
  show ?thesis
    unfolding h using e k(3,4) w1(5,6) st(2,3) t
    by (intro exI [of _ "set_size (sh_next w) (int width) (int height) w2"] exI [of _ key])
      (simp add: connected_def set_size_def sid_def enc_def)
qed

definition sample_client :: shell_client where
  "sample_client = \<lparr>sc_publicKey = replicate 32 CHR ''a'', sc_privateKey = replicate 32 CHR ''a'', sc_sendKey = replicate 32 CHR ''r'',
     sc_receiveKey = replicate 32 CHR ''s'', sc_shellID = [], sc_ready = True\<rparr>"

theorem shell_opens_witness:
  "\<exists>w' key. handleShell toy_crypto sample_shell_env
      (sample_inv 1 7 ''u'' True [VBytes (size_text 80 24 @ '':KEY:'' @ replicate 32 CHR ''a'')]) newInteractiveShellSession = (w', no_result) \<and>
     (1, [VBytes key]) \<in> set (sh_sent w') \<and>
     connected (fst (client_receive toy_crypto [] (Some (Inr key)) sample_client)) w' (generateShellID fmempty 7) 0"
proof -
  let ?iv = "sample_inv 1 7 ''u'' True [VBytes (size_text 80 24 @ '':KEY:'' @ replicate 32 CHR ''a'')]"
  have c: "CreateX25519KeyPair toy_crypto (Inr (replicate 32 CHR ''a'')) = Inr (sc_publicKey sample_client, sc_privateKey sample_client)"
    by (simp add: sample_client_def toy_public)
  have "\<not> AllZeros (replicate 32 (char_of (194::nat)))" by (simp add: AllZeros_def char_of_eq_iff)
  then have p: "PerformKeyExchange toy_crypto (replicate 32 CHR ''a'') (replicate 32 CHR ''a'') = Inr (replicate 32 (char_of (194::nat)))"
    by (simp add: PerformKeyExchange_def toy_crypto_def)
  have d: "DeriveKeyHKDF toy_crypto x i = Inr (replicate 32 (char_of (toy_hd x + toy_hd i)))" for x i
    by (simp add: DeriveKeyHKDF_def toy_crypto_def)
  have "\<exists>k. ServerKeyExchange toy_crypto (se_keypair sample_shell_env) (sc_publicKey sample_client) = Inr k"
    by (simp add: ServerKeyExchange_def sample_shell_env_def sample_client_def toy_public p d)
  then obtain spk sk rk where s: "ServerKeyExchange toy_crypto (se_keypair sample_shell_env) (sc_publicKey sample_client) = Inr (spk, sk, rk)"
    by auto
  from shell_opens [OF toy_crypto_ok c _ _ _ _ _ _ _ _ s, of "Inr []" "[]" 80 24 "size_text 80 24 @ '':KEY:'' @ replicate 32 CHR ''a''" "[VList []]"
      ?iv "Errorf ''session-id''" newInteractiveShellSession "''/home/u''" 100]
  show ?thesis
    by (fastforce simp: sample_client_def buildSizeProgress_def progress_args_def sample_inv_def resolveStartDir_def sample_shell_env_def
        newInteractiveShellSession_def)
qed

text \<open>
  Property C24 (shell_roundtrip): what a connected client types is appended to the input of its
  shell, and what the shell then prints is printed by the client, if neither looks like a protocol
  message: the typed chunk does not begin with \<open>SIZE:\<close>, its message does not contain \<open>:KEY:\<close>, and
  the encrypted output does not begin with \<open>KEY:\<close> or \<open>MIGRATE:\<close>. A client with a shell ID is served
  if the key of its invocation's own shell does not open the message.
\<close>

theorem shell_roundtrip:
  assumes "aead_ok cr" and con: "connected c w sid f"
    and typed: "EncryptPayload cr rnd chunk (sc_sendKey c) = Inr d" "nonce_drawn rnd"
      "\<not> has_prefix chunk ''SIZE:''" "find_sub (withShellPrefix c d) '':KEY:'' = None"
    and iv: "inv_Progress iv" "input_progress cr rnd [] chunk c = Some [VBytes payload]" "inv_ArgBytes iv 0 = Inr payload"
    and route: "if sc_shellID c = [] then shellIDForInv w iv = sid
      else CHR '':'' \<notin> set sid \<and> (\<forall>e. fmlookup (sh_encKeys w) (shellIDForInv w iv) = Some e \<longrightarrow>
        (\<exists>x. DecryptPayload cr (withShellPrefix c d) (ek_receiveKey e) = Inl x))"
    and "se_write env = None"
    and out: "reply \<noteq> []" "EncryptPayload cr rnd2 reply (sc_receiveKey c) = Inr blob" "nonce_drawn rnd2"
      "\<not> has_prefix blob ''KEY:''" "\<not> has_prefix blob ''MIGRATE:''"
  shows "\<exists>w1. handleShell cr env iv w = (w1, no_result) \<and> pt_input (sh_files w1 f) = pt_input (sh_files w f) @ chunk \<and>
    output_round cr rnd2 f shellID reply False w1 = sh_send (ps_inv (sh_ps w f)) [VBytes blob] w1 \<and>
    client_receive cr realm (Some (Inr blob)) c = (c, Print reply) \<and> connected c (sh_send (ps_inv (sh_ps w f)) [VBytes blob] w1) sid f"
proof -
  define w1 where "w1 = w\<lparr>sh_files := (sh_files w)(f := (sh_files w f)\<lparr>pt_input := pt_input (sh_files w f) @ chunk\<rparr>)\<rparr>"
  have p: "payload = withShellPrefix c d" using iv(2) typed(1) by (simp add: input_progress_def progress_args_def)
  have f: "fmlookup (sh_ptmx w) sid = Some f" "pt_open (sh_files w f)" "ps_sendKey (sh_ps w f) = sc_receiveKey c"
    "length (sc_receiveKey c) = 32" using con by (simp_all add: connected_def)
  have o: "open_message cr env True iv w = (w, Inr (chunk, sid, \<lparr>ek_sendKey = sc_receiveKey c, ek_receiveKey = sc_sendKey c\<rparr>, Some f))"
    using typed(4) routed_message [OF assms(1) con typed(1,2) route] f(1) by (simp add: open_message_def iv(3) p)
  have "handleShell cr env iv w = (w1, no_result)"
    using iv(1) typed(3) f(2) assms(11) by (simp add: handleShell_def o pty_or_start_def write_pty_def w1_def)
  moreover have "pt_input (sh_files w1 f) = pt_input (sh_files w f) @ chunk" "sh_ps w1 = sh_ps w"
    by (simp_all add: w1_def)
  moreover have "client_receive cr realm (Some (Inr blob)) c = (c, Print reply)"
    using out DecryptPayload_Encrypt [OF assms(1) f(4) out(3,2)] by (simp add: client_receive_def)
  moreover have "connected c (sh_send (ps_inv (sh_ps w f)) [VBytes blob] w1) sid f"
    using con by (simp add: connected_def w1_def)
  ultimately show ?thesis using out(1,2) f(3) by (intro exI [of _ w1]) (simp add: output_round_def)
qed

lemma sample_connected: "connected sample_client sample_shells ''5'' 0"
  by (simp add: connected_def sample_client_def sample_shells_def newInteractiveShellSession_def)

definition sample_cipher :: "char \<Rightarrow> bytes" where
  "sample_cipher k = replicate 12 CHR ''n'' @ ''hi'' @ replicate 16 k"

definition sample_typed :: invocation where
  "sample_typed = sample_inv 1 5 ''u'' True [VBytes (sample_cipher CHR ''r'')]"

theorem shell_roundtrip_witness:
  "\<exists>w1. handleShell toy_crypto sample_shell_env sample_typed sample_shells = (w1, no_result) \<and>
     pt_input (sh_files w1 0) = pt_input (sh_files sample_shells 0) @ ''hi'' \<and>
     client_receive toy_crypto [] (Some (Inr (sample_cipher CHR ''s''))) sample_client = (sample_client, Print ''hi'')"
proof -
  have p: "withShellPrefix sample_client d = d" "sc_shellID sample_client = []" "sc_sendKey sample_client = replicate 32 CHR ''r''"
    "sc_receiveKey sample_client = replicate 32 CHR ''s''" for d by (simp_all add: withShellPrefix_def sample_client_def)
  have i: "shellIDForInv sample_shells sample_typed = ''5''"
    by (simp add: shellIDForInv_def sample_shells_def newInteractiveShellSession_def dec_u64_def dec_nat.simps digit_char_def char_of_eq_iff sample_typed_def)
  have no_key: "find_sub (withShellPrefix sample_client (sample_cipher CHR ''r'')) '':KEY:'' = None"
    unfolding p(1) by (simp add: numeral_nat sample_cipher_def)
  define rnd :: "bytes result" where "rnd = Inr (replicate 12 CHR ''n'')"
  have typed: "EncryptPayload toy_crypto rnd ''hi'' (sc_sendKey sample_client) = Inr (sample_cipher CHR ''r'')"
    and out: "EncryptPayload toy_crypto rnd ''hi'' (sc_receiveKey sample_client) = Inr (sample_cipher CHR ''s'')"
    unfolding p(3,4) rnd_def sample_cipher_def by (rule toy_seal)+
  have t: "input_progress toy_crypto rnd [] ''hi'' sample_client = Some [VBytes (sample_cipher CHR ''r'')]"
    unfolding input_progress_def typed progress_args_def by (simp add: p(1))
  have route: "if sc_shellID sample_client = [] then shellIDForInv sample_shells sample_typed = ''5''
      else CHR '':'' \<notin> set ''5'' \<and> (\<forall>e. fmlookup (sh_encKeys sample_shells) (shellIDForInv sample_shells sample_typed) = Some e \<longrightarrow>
        (\<exists>x. DecryptPayload toy_crypto (withShellPrefix sample_client (sample_cipher CHR ''r'')) (ek_receiveKey e) = Inl x))"
    unfolding p(2) i by simp
  have arg: "inv_ArgBytes sample_typed 0 = Inr (sample_cipher CHR ''r'')" "inv_Progress sample_typed"
    by (simp_all add: sample_inv_def sample_typed_def)
  have e: "aead_ok toy_crypto" "se_write sample_shell_env = None" using toy_crypto_ok by (simp_all add: crypto_ok_def sample_shell_env_def)
  have n: "nonce_drawn rnd" "\<not> has_prefix ''hi'' ''SIZE:''" "''hi'' \<noteq> []" by (simp_all add: rnd_def)
  have b: "\<not> has_prefix (sample_cipher CHR ''s'') ''KEY:''" "\<not> has_prefix (sample_cipher CHR ''s'') ''MIGRATE:''"
    by (simp_all add: numeral_nat sample_cipher_def)
  note x = shell_roundtrip [OF e(1) sample_connected typed n(1,2) no_key arg(2) t arg(1) route e(2) n(3) out n(1) b]
  show ?thesis using x [of "[]" "[]"] by blast
qed

end
