(* ===== verification/Logs.thy ===== *)
theory Logs
  imports GoPath
begin

text \<open>
  Streaming of logs (\<open>src/logs.go\<close>): the table of streams with the handler of the \<open>logs\<close> procedure,
  the tail of a log file, and the journal.
\<close>

section \<open>Sessions\<close>

text \<open>The channel \<open>stop\<close> of a session is closed or not.\<close>

record logSession =
  ls_callerID :: u64
  ls_stopped :: bool

datatype log_source =
    FileLogs string bool int
  | JournalLogs string bool int string

text \<open>
  The table, the sessions behind its pointers, the streaming goroutines that run (session, stream
  ID, invocation, what they stream) and the progress results sent so far, by invocation.
\<close>

record logSessions =
  lg_sess :: "(u64, nat) fmap"
  lg_objs :: "nat \<Rightarrow> logSession"
  lg_next :: nat
  lg_streams :: "(nat \<times> u64 \<times> nat \<times> log_source) list"
  lg_sent :: "(nat \<times> wval list) list"

definition newLogSessions :: logSessions where
  "newLogSessions = \<lparr>lg_sess = fmempty, lg_objs = (\<lambda>_. \<lparr>ls_callerID = 0, ls_stopped = False\<rparr>), lg_next = 0,
     lg_streams = [], lg_sent = []\<rparr>"

definition newLogSession :: "u64 \<Rightarrow> logSessions \<Rightarrow> logSessions \<times> nat" where
  "newLogSession callerID w =
     (w\<lparr>lg_objs := (lg_objs w)(lg_next w := \<lparr>ls_callerID = callerID, ls_stopped = False\<rparr>), lg_next := Suc (lg_next w)\<rparr>, lg_next w)"

definition log_kill :: "nat \<Rightarrow> logSessions \<Rightarrow> logSessions" where
  "log_kill r w = w\<lparr>lg_objs := (lg_objs w)(r := (lg_objs w r)\<lparr>ls_stopped := True\<rparr>)\<rparr>"

definition log_send :: "nat \<Rightarrow> wval list \<Rightarrow> logSessions \<Rightarrow> logSessions" where
  "log_send ptr args w = w\<lparr>lg_sent := lg_sent w @ [(ptr, args)]\<rparr>"

definition deleteIfSame :: "u64 \<Rightarrow> nat \<Rightarrow> logSessions \<Rightarrow> logSessions" where
  "deleteIfSame streamID r w =
     (if fmlookup (lg_sess w) streamID = Some r then w\<lparr>lg_sess := fmdrop streamID (lg_sess w)\<rparr> else w)"

definition log_replace :: "u64 \<Rightarrow> nat \<Rightarrow> logSessions \<Rightarrow> logSessions \<times> nat option" where
  "log_replace streamID r w = (w\<lparr>lg_sess := fmupd streamID r (lg_sess w)\<rparr>, fmlookup (lg_sess w) streamID)"

definition killAndDelete :: "u64 \<Rightarrow> logSessions \<Rightarrow> logSessions" where
  "killAndDelete streamID w =
     (let w1 = w\<lparr>lg_sess := fmdrop streamID (lg_sess w)\<rparr>
      in case fmlookup (lg_sess w) streamID of None \<Rightarrow> w1 | Some r \<Rightarrow> log_kill r w1)"

definition killAndDeleteByCaller :: "u64 \<Rightarrow> logSessions \<Rightarrow> logSessions" where
  "killAndDeleteByCaller callerID w =
     (let mine = (\<lambda>streamID. case fmlookup (lg_sess w) streamID of
            None \<Rightarrow> False | Some r \<Rightarrow> ls_callerID (lg_objs w r) = callerID);
          toKill = fmran (fmfilter mine (lg_sess w))
      in w\<lparr>lg_sess := fmfilter (\<lambda>streamID. \<not> mine streamID) (lg_sess w),
           lg_objs := (\<lambda>r. if r |\<in>| toKill then (lg_objs w r)\<lparr>ls_stopped := True\<rparr> else lg_objs w r)\<rparr>)"

section \<open>The handler\<close>

text \<open>
  The parameters: quoting a string (\<open>%q\<close>), \<open>time.ParseDuration\<close> (nanoseconds), the time so long before now in the format
  \<open>RFC3339Nano\<close>, the time stamp of a journal entry in microseconds, formatted, and
  \<open>json.Unmarshal\<close> into a map of strings.
\<close>

record log_env =
  le_Quote :: "string \<Rightarrow> string"
  le_ParseDuration :: "string \<Rightarrow> int result"
  le_ago :: "int \<Rightarrow> string"
  le_stamp :: "int \<Rightarrow> string"
  le_Unmarshal :: "bytes \<Rightarrow> (string, string) fmap result"

definition string_arg :: "string result \<Rightarrow> string" where
  "string_arg r = (case r of Inl _ \<Rightarrow> [] | Inr s \<Rightarrow> s)"

definition log_start_stream :: "u64 \<Rightarrow> invocation \<Rightarrow> log_source \<Rightarrow> logSessions \<Rightarrow> logSessions" where
  "log_start_stream streamID iv src w =
     (let (w1, r) = newLogSession (inv_Caller iv) w;
          (w2, old) = log_replace streamID r w1;
          w3 = (case old of None \<Rightarrow> w2 | Some o1 \<Rightarrow> log_kill o1 w2)
      in w3\<lparr>lg_streams := (r, streamID, inv_ptr iv, src) # lg_streams w3\<rparr>)"

definition handleLogs :: "log_env \<Rightarrow> invocation \<Rightarrow> logSessions \<Rightarrow> logSessions \<times> inv_result" where
  "handleLogs env iv w =
     (if \<not> inv_Progress iv then
        (case inv_ArgUInt64 iv 0 of
           Inl _ \<Rightarrow> (killAndDeleteByCaller (inv_Caller iv) w, InvocationResult [])
         | Inr streamID \<Rightarrow> (killAndDelete streamID w, InvocationResult []))
      else
        (let source = string_arg (inv_ArgString iv 0);
             follow = (case inv_ArgBool iv 1 of Inl _ \<Rightarrow> False | Inr b \<Rightarrow> b);
             tailN = (case inv_ArgInt64 iv 2 of Inl _ \<Rightarrow> -1 | Inr n \<Rightarrow> n);
             since = string_arg (inv_ArgString iv 3)
         in case (if since = [] then Inr 0 else le_ParseDuration env since) of
              Inl e \<Rightarrow> (w, InvocationError ErrInvalidArgument [VStr (''invalid since value '' @ le_Quote env since @ '': '' @ err_text e)])
            | Inr _ \<Rightarrow>
                (let streamID = (case inv_ArgUInt64 iv 4 of Inl _ \<Rightarrow> inv_Caller iv | Inr s \<Rightarrow> s);
                     src = (if has_prefix source ''/'' then FileLogs source follow tailN else JournalLogs source follow tailN since)
                 in (log_start_stream streamID iv src w, no_result))))"

text \<open>
  What both streaming functions do when they return: the session is forgotten, and the end of the
  output sent, if nobody stopped it.
\<close>

definition stream_ends :: "nat \<Rightarrow> u64 \<Rightarrow> nat \<Rightarrow> log_source \<Rightarrow> logSessions \<Rightarrow> logSessions" where
  "stream_ends r streamID ptr src w =
     (let w1 = (deleteIfSame streamID r w)\<lparr>lg_streams := remove1 (r, streamID, ptr, src) (lg_streams w)\<rparr>
      in if ls_stopped (lg_objs w r) then w1 else log_send ptr [] w1)"

section \<open>The last lines of a file\<close>

abbreviation newline :: char where
  "newline \<equiv> CHR 0x0A"

text \<open>
  The inner loop, over \<open>i\<close> from \<open>nr - 1\<close> down to 0: the index of the \<open>n\<close>-th line break, and how
  many were found.
\<close>

fun scan_back :: "bytes \<Rightarrow> int \<Rightarrow> nat \<Rightarrow> int \<Rightarrow> nat option \<times> int" where
  "scan_back buf n 0 linesFound = (None, linesFound)"
| "scan_back buf n (Suc i) linesFound =
     (if buf ! i = newline
      then (if linesFound + 1 = n then (Some i, linesFound + 1) else scan_back buf n i (linesFound + 1))
      else scan_back buf n i linesFound)"

text \<open>\<open>read_at pos len\<close> is the answer of \<open>ReadAt\<close>: the bytes, and whether it failed.\<close>

function last_lines_loop :: "(nat \<Rightarrow> nat \<Rightarrow> bytes \<times> bool) \<Rightarrow> int \<Rightarrow> int \<Rightarrow> nat \<Rightarrow> nat" where
  "last_lines_loop read_at n linesFound pos =
     (if pos = 0 then 0
      else let readSize = min 4096 pos; pos1 = pos - readSize; (buf, failed) = read_at pos1 readSize
        in if failed \<and> buf = [] then 0
           else case scan_back buf n (length buf) linesFound of
               (Some i, _) \<Rightarrow> pos1 + i + 1
             | (None, found) \<Rightarrow> last_lines_loop read_at n found pos1)"
  by pat_completeness auto

termination by (relation "measure (\<lambda>(_, _, _, pos). pos)") auto

declare last_lines_loop.simps [simp del]

definition nthLineFromEnd ::
  "go_error option \<Rightarrow> nat result \<Rightarrow> (nat \<Rightarrow> nat \<Rightarrow> bytes \<times> bool) \<Rightarrow> int \<Rightarrow> nat result" where
  "nthLineFromEnd opened stat read_at n = (case opened of
     Some e \<Rightarrow> Inl e
   | None \<Rightarrow> (case stat of
       Inl _ \<Rightarrow> Inr 0
     | Inr sz \<Rightarrow> if sz = 0 then Inr 0
         else Inr (last_lines_loop read_at n 0 (if read_at (sz - 1) 1 = ([newline], False) then sz - 1 else sz))))"

section \<open>Streaming a file\<close>

text \<open>
  The answers of the file: opening it, twice, its size, \<open>ReadAt\<close>, seeking to the end and to an
  offset, and watching it.
\<close>

record log_file =
  lf_open :: "go_error option"
  lf_open2 :: "go_error option"
  lf_stat :: "nat result"
  lf_read_at :: "nat \<Rightarrow> nat \<Rightarrow> bytes \<times> bool"
  lf_end :: "nat result"
  lf_seek :: "nat \<Rightarrow> bool"
  lf_watch :: bool

datatype read_end = ReadMore | ReadEOF | ReadFailed
datatype log_wait = WaitStopped | WaitEvent | WaitGone

text \<open>
  One round of a reading loop: whether the session is stopped, what a read at a position answers,
  and how the wait for a change of the file ends.
\<close>

record log_round =
  lr_stop :: bool
  lr_read :: "nat \<Rightarrow> bytes \<times> read_end"
  lr_wait :: log_wait

definition log_start :: "log_file \<Rightarrow> bool \<Rightarrow> int \<Rightarrow> nat option" where
  "log_start lf follow tailN =
     (if tailN < 0 \<and> follow then (case lf_end lf of Inl _ \<Rightarrow> None | Inr pos \<Rightarrow> Some pos)
      else (case nthLineFromEnd (lf_open2 lf) (lf_stat lf) (lf_read_at lf) (if tailN < 0 then 10 else tailN) of
          Inl _ \<Rightarrow> Some 0
        | Inr offset \<Rightarrow> Some (if lf_seek lf offset then offset else 0)))"

abbreviation no_entries :: bytes where
  "no_entries \<equiv> ''-- No entries --'' @ [newline]"

definition error_line :: "string \<Rightarrow> bytes" where
  "error_line text = ''error: '' @ text @ [newline]"

text \<open>
  The loops, for the rounds given: what is sent, and whether the function has returned.
\<close>

fun plain_loop :: "log_round list \<Rightarrow> nat \<Rightarrow> bool \<Rightarrow> bytes list \<times> bool" where
  "plain_loop [] pos sent = ([], False)"
| "plain_loop (m # ms) pos sent =
     (if lr_stop m then ([], True)
      else let (buf, r) = lr_read m pos; out = (if buf = [] then [] else [buf]); sent1 = (sent \<or> buf \<noteq> [])
        in if r \<noteq> ReadMore then (out @ (if sent1 then [] else [no_entries]), True)
           else (let (rest, ended) = plain_loop ms (pos + length buf) sent1 in (out @ rest, ended)))"

fun follow_loop :: "log_round list \<Rightarrow> nat \<Rightarrow> bytes list \<times> bool" where
  "follow_loop [] pos = ([], False)"
| "follow_loop (m # ms) pos =
     (let (buf, r) = lr_read m pos
      in if buf \<noteq> [] then (let (rest, ended) = follow_loop ms (pos + length buf) in (buf # rest, ended))
         else if r = ReadFailed then ([], True)
         else if lr_wait m = WaitEvent then follow_loop ms pos
         else ([], True))"

definition streamFileLogs :: "log_file \<Rightarrow> bool \<Rightarrow> int \<Rightarrow> log_round list \<Rightarrow> bytes list \<times> bool" where
  "streamFileLogs lf follow tailN ms = (case lf_open lf of
     Some e \<Rightarrow> ([error_line (err_text e)], True)
   | None \<Rightarrow> (case log_start lf follow tailN of
       None \<Rightarrow> ([], True)
     | Some pos \<Rightarrow> if \<not> follow then plain_loop ms pos False
         else if \<not> lf_watch lf then ([], True)
         else follow_loop ms pos))"

section \<open>The journal\<close>

definition log_field :: "(string, string) fmap \<Rightarrow> string \<Rightarrow> string" where
  "log_field flds k = (case fmlookup flds k of None \<Rightarrow> [] | Some v \<Rightarrow> v)"

fun first_timestamp :: "(string, string) fmap \<Rightarrow> string list \<Rightarrow> u64" where
  "first_timestamp flds [] = 0"
| "first_timestamp flds (key # keys) =
     (let raw = log_field flds key
      in if raw = [] then first_timestamp flds keys
         else (case ParseUint raw of Inl _ \<Rightarrow> first_timestamp flds keys | Inr ts \<Rightarrow> ts))"

definition parseJournalTimestamp :: "(string, string) fmap \<Rightarrow> u64" where
  "parseJournalTimestamp flds = first_timestamp flds [''__REALTIME_TIMESTAMP'', ''_SOURCE_REALTIME_TIMESTAMP'']"

definition parseJournalctlEntry :: "log_env \<Rightarrow> bytes \<Rightarrow> (u64 \<times> (string, string) fmap) result" where
  "parseJournalctlEntry env line = try_result (le_Unmarshal env line) (\<lambda>flds. Inr (parseJournalTimestamp flds, flds))"

definition formatEntry :: "log_env \<Rightarrow> u64 \<Rightarrow> (string, string) fmap \<Rightarrow> string" where
  "formatEntry env tsUsec flds =
     (let hostname = log_field flds ''_HOSTNAME'';
          ident = (if log_field flds ''SYSLOG_IDENTIFIER'' = [] then log_field flds ''_COMM'' else log_field flds ''SYSLOG_IDENTIFIER'');
          pid = log_field flds ''_PID'';
          msg = log_field flds ''MESSAGE'';
          tsStr = le_stamp env (sint tsUsec)
      in if pid \<noteq> [] then tsStr @ '' '' @ hostname @ '' '' @ ident @ ''['' @ pid @ '']: '' @ msg @ [newline]
         else if ident \<noteq> [] then tsStr @ '' '' @ hostname @ '' '' @ ident @ '': '' @ msg @ [newline]
         else tsStr @ '' '' @ hostname @ '': '' @ msg @ [newline])"

definition parseSinceDuration :: "log_env \<Rightarrow> string \<Rightarrow> int" where
  "parseSinceDuration env since = (case le_ParseDuration env since of Inl _ \<Rightarrow> 0 | Inr d \<Rightarrow> d)"

definition has_suffix :: "string \<Rightarrow> string \<Rightarrow> bool" where
  "has_suffix s suf \<longleftrightarrow> has_prefix (rev s) (rev suf)"

definition journalctlArgs :: "log_env \<Rightarrow> string \<Rightarrow> bool \<Rightarrow> int \<Rightarrow> string \<Rightarrow> string list" where
  "journalctlArgs env service follow tailN since =
     [''--no-pager'', ''--output=json''] @
     (if service = [] then [] else [''--unit='' @ (if has_suffix service ''.service'' then service else service @ ''.service'')]) @
     (if since \<noteq> [] then [''--since='' @ le_ago env (parseSinceDuration env since)]
      else if follow then
        (if tailN > 0 then [''--lines='' @ dec_int tailN] else [''--since='' @ le_ago env 0])
      else [''--lines='' @ dec_int (if tailN < 0 then 10 else tailN)]) @
     (if follow then [''--follow''] else [])"

text \<open>
  What \<open>journalctl\<close> does: its pipe, its start, the lines of its output (with whether the stream is
  cancelled by then), an error of the scanner, its exit, its standard error, and whether the
  stream is cancelled when it has ended.
\<close>

record journal_run =
  jr_pipe :: "go_error option"
  jr_start :: "go_error option"
  jr_lines :: "(bool \<times> bytes) list"
  jr_scanErr :: "go_error option"
  jr_waitErr :: "go_error option"
  jr_stderr :: bytes
  jr_cancelled :: bool

text \<open>The messages of the scanning loop, whether there were any, and whether it was cancelled.\<close>

fun journal_loop :: "log_env \<Rightarrow> (bool \<times> bytes) list \<Rightarrow> bytes list \<times> bool" where
  "journal_loop env [] = ([], False)"
| "journal_loop env ((cancelled, raw) # ls) =
     (if cancelled then ([], True)
      else let line = TrimSpace raw in if line = [] then journal_loop env ls
      else (case parseJournalctlEntry env line of
          Inl _ \<Rightarrow> journal_loop env ls
        | Inr (tsUsec, flds) \<Rightarrow>
            (let (rest, c) = journal_loop env ls in (formatEntry env tsUsec flds # rest, c))))"

definition journal_end :: "journal_run \<Rightarrow> bool \<Rightarrow> bytes list" where
  "journal_end j sent =
     (let from_stderr = [error_line (TrimSpace (jr_stderr j))]
      in if jr_cancelled j then []
         else case jr_scanErr j of
           Some e \<Rightarrow> if jr_stderr j \<noteq> [] then from_stderr else [error_line (err_text e)]
         | None \<Rightarrow>
             if \<not> sent then
               (if jr_stderr j \<noteq> [] then from_stderr
                else case jr_waitErr j of Some e \<Rightarrow> [error_line (err_text e)] | None \<Rightarrow> [no_entries])
             else if jr_waitErr j \<noteq> None \<and> jr_stderr j \<noteq> [] then from_stderr
             else [])"

definition streamJournalLogs :: "log_env \<Rightarrow> journal_run \<Rightarrow> bytes list" where
  "streamJournalLogs env j = (case jr_pipe j of
     Some e \<Rightarrow> [error_line (err_text e)]
   | None \<Rightarrow> (case jr_start j of
       Some e \<Rightarrow> [error_line (err_text e)]
     | None \<Rightarrow> (let (out, cancelled) = journal_loop env (jr_lines j)
         in if cancelled then out else out @ journal_end j (out \<noteq> []))))"

section \<open>The client\<close>

definition logs_request :: "log_env \<Rightarrow> string \<Rightarrow> string \<Rightarrow> bool \<Rightarrow> int \<Rightarrow> string \<Rightarrow> wval list result" where
  "logs_request env realm source follow tailN since =
     (case (if since = [] then Inr 0 else le_ParseDuration env since) of
        Inl e \<Rightarrow> Inl (Wrapf (''invalid since value '' @ le_Quote env since @ '': '') e)
      | Inr _ \<Rightarrow> Inr [VStr realm, VStr source, VBool follow, VInt tailN, VStr since])"

datatype logs_action = LogsDone | LogsIgnore | LogsPrint bytes

definition logs_receive :: "bytes result option \<Rightarrow> logs_action" where
  "logs_receive res = (case res of None \<Rightarrow> LogsDone | Some (Inl _) \<Rightarrow> LogsIgnore | Some (Inr data) \<Rightarrow> LogsPrint data)"

section \<open>The last lines, by their specification\<close>

text \<open>A file as its lines; each but perhaps the last ends with a line break.\<close>

fun lines_of :: "bytes \<Rightarrow> bytes list" where
  "lines_of [] = []"
| "lines_of (c # cs) = (if c = newline then [c] # lines_of cs
     else case lines_of cs of [] \<Rightarrow> [[c]] | l # ls \<Rightarrow> (c # l) # ls)"

definition breaks :: "bytes \<Rightarrow> nat" where
  "breaks s = length (filter (\<lambda>c. c = newline) s)"

lemma breaks_simps [simp]:
  "breaks [] = 0" "breaks (c # s) = (if c = newline then Suc (breaks s) else breaks s)" "breaks (s @ t) = breaks s + breaks t"
  by (simp_all add: breaks_def)

lemma concat_lines_of [simp]: "concat (lines_of s) = s"
  by (induction s) (auto split: list.split)

lemma lines_of_Nil [simp]: "lines_of s = [] \<longleftrightarrow> s = []"
  by (cases s) (auto split: list.split)

lemma lines_of_break: "lines_of (a @ newline # b) = lines_of (a @ [newline]) @ lines_of b"
  by (induction a) (auto split: list.split)

lemma length_lines_of: "length (lines_of s) = breaks s + (if s = [] \<or> last s = newline then 0 else 1)"
proof (induction s)
  case (Cons c cs)
  then show ?case by (cases "lines_of cs") (auto split: list.split)
qed simp

text \<open>The body of a file: without the line break at its end.\<close>

definition body :: "bytes \<Rightarrow> bytes" where
  "body s = (if s \<noteq> [] \<and> last s = newline then butlast s else s)"

lemma body_length: "s \<noteq> [] \<Longrightarrow> length (lines_of s) = breaks (body s) + 1"
proof (cases s rule: rev_cases)
  case (snoc t c)
  then show ?thesis by (auto simp: body_def length_lines_of)
qed simp

text \<open>Scanning a block from its end for the \<open>n\<close>-th line break.\<close>

lemma scan_back_spec:
  assumes "k \<le> length buf"
  shows "(case scan_back buf n k found of
     (Some i, _) \<Rightarrow> i < k \<and> buf ! i = newline \<and> found + int (breaks (drop (Suc i) (take k buf))) + 1 = n
   | (None, found1) \<Rightarrow> found1 = found + int (breaks (take k buf)) \<and> (found < n \<longrightarrow> found1 < n))"
  using assms
proof (induction k arbitrary: found)
  case (Suc k)
  have t: "take (Suc k) buf = take k buf @ [buf ! k]" using Suc.prems by (simp add: take_Suc_conv_app_nth)
  have d: "i < k \<Longrightarrow> drop (Suc i) (take (Suc k) buf) = drop (Suc i) (take k buf) @ [buf ! k]" for i
    unfolding t using Suc.prems by simp
  have d2: "drop (Suc k) (take (Suc k) buf) = []" by simp
  note ih = Suc.IH [of "found + 1"] Suc.IH [of found]
  show ?case
  proof (cases "buf ! k = newline")
    case False
    with ih(2) Suc.prems show ?thesis by (auto simp: t d split: prod.splits option.splits)
  next
    case True
    show ?thesis
    proof (cases "found + 1 = n")
      case True
      with \<open>buf ! k = newline\<close> show ?thesis by (simp add: d2)
    next
      case False
      with True ih(1) Suc.prems show ?thesis by (auto simp: t d split: prod.splits option.splits)
    qed
  qed
qed simp


definition static_read :: "bytes \<Rightarrow> nat \<Rightarrow> nat \<Rightarrow> bytes \<times> bool" where
  "static_read c pos len = (take len (drop pos c), False)"

lemma last_lines_loop_spec:
  assumes "found < n" "pos \<le> e" "e \<le> length c" "found = int (breaks (drop pos (take e c)))"
  shows "let r = last_lines_loop (static_read c) n found pos in
    (r = 0 \<and> int (breaks (take e c)) < n) \<or>
    (0 < r \<and> r \<le> e \<and> c ! (r - 1) = newline \<and> int (breaks (drop r (take e c))) + 1 = n)"
  using assms
proof (induction "static_read c" n found pos rule: last_lines_loop.induct)
  case (1 n found pos)
  show ?case
  proof (cases "pos = 0")
    case True
    with "1.prems" show ?thesis by (simp add: last_lines_loop.simps)
  next
    case False
    define k where "k = min 4096 pos"
    define p where "p = pos - k"
    have k: "0 < k" "k \<le> pos" "p + k = pos" using False by (auto simp: k_def p_def)
    define buf where "buf = take k (drop p c)"
    have len: "length buf = k" using k "1.prems" by (simp add: buf_def p_def)
    have split: "drop p (take e c) = buf @ drop pos (take e c)"
    proof -
      have "take k (drop p (take e c)) = buf" using k "1.prems" by (simp add: buf_def drop_take min_def)
      moreover have "drop k (drop p (take e c)) = drop pos (take e c)" using k by (simp add: add.commute)
      ultimately show ?thesis by (metis append_take_drop_id)
    qed
    have r: "static_read c p k = (buf, False)" by (simp add: static_read_def buf_def)
    have unf: "last_lines_loop (static_read c) n found pos = (case scan_back buf n k found of
        (Some i, _) \<Rightarrow> p + i + 1 | (None, found1) \<Rightarrow> last_lines_loop (static_read c) n found1 p)"
      using False by (subst last_lines_loop.simps) (simp add: Let_def k_def [symmetric] r [unfolded p_def] len, simp only: p_def)
    obtain x found1 where sb: "scan_back buf n k found = (x, found1)" by fastforce
    note spec = scan_back_spec [where k = k and buf = buf and n = n and found = found, unfolded sb]
    show ?thesis
    proof (cases x)
      case None
      have f: "found1 = int (breaks (drop p (take e c)))" "found1 < n"
        using spec None len "1.prems" by (auto simp: split)
      have "let r = last_lines_loop (static_read c) n found1 p in
        (r = 0 \<and> int (breaks (take e c)) < n) \<or>
        (0 < r \<and> r \<le> e \<and> c ! (r - 1) = newline \<and> int (breaks (drop r (take e c))) + 1 = n)"
        by (rule "1.hyps" [OF False k_def p_def r [symmetric] refl]) (use f None sb len k "1.prems" in auto)
      then show ?thesis by (simp add: unf sb None)
    next
      case (Some i)
      have i: "i < k" "buf ! i = newline" "found + int (breaks (drop (Suc i) buf)) + 1 = n" using spec Some len by auto
      have "drop (p + i + 1) (take e c) = drop (Suc i) buf @ drop pos (take e c)"
      proof -
        have "drop (p + i + 1) (take e c) = drop (Suc i) (drop p (take e c))" by (simp add: add.commute)
        then show ?thesis using i(1) len by (simp add: split)
      qed
      moreover have "c ! (p + i) = newline" using i(1,2) k "1.prems" by (simp add: buf_def)
      moreover have "p + i + 1 \<le> e" using i(1) k "1.prems" by simp
      moreover have "last_lines_loop (static_read c) n found pos = Suc (p + i)" by (simp add: unf sb Some)
      ultimately show ?thesis using i(3) "1.prems"(4) by simp
    qed
  qed
qed

lemma last_lines_zero: "last_lines_loop rd 0 found pos = 0" if "0 \<le> found"
proof -
  have sb: "\<exists>f. scan_back buf 0 k found = (None, f) \<and> 0 \<le> f" if "0 \<le> found" for buf k found
    using that by (induction k arbitrary: found) auto
  show ?thesis using that
  proof (induction rd "0 :: int" found pos rule: last_lines_loop.induct)
    case (1 rd found pos)
    obtain buf failed where r: "rd (pos - min 4096 pos) (min 4096 pos) = (buf, failed)" by fastforce
    obtain f where f: "scan_back buf 0 (length buf) found = (None, f)" "0 \<le> f" using sb [OF "1.prems"] by blast
    show ?case
    proof (cases "pos = 0 \<or> failed \<and> buf = []")
      case True
      with r show ?thesis by (subst last_lines_loop.simps) (auto simp: Let_def)
    next
      case False
      have "last_lines_loop rd 0 f (pos - min 4096 pos) = 0"
        by (rule "1.hyps" [OF _ refl refl r [symmetric] refl]) (use False f in auto)
      with False r f show ?thesis by (subst last_lines_loop.simps) (simp add: Let_def)
    qed
  qed
qed


text \<open>What follows a line break that is not the end of the file.\<close>

lemma lines_after:
  assumes "0 < r" "r \<le> length (body c)" "c ! (r - 1) = newline"
  shows "lines_of c = lines_of (take r c) @ lines_of (drop r c)"
    "length (lines_of (drop r c)) = breaks (drop r (body c)) + 1"
proof -
  have le: "length (body c) \<le> length c" by (simp add: body_def)
  have "take r c = take (r - 1) c @ [newline]"
    using assms le by (cases r) (simp_all add: take_Suc_conv_app_nth)
  then have "c = take (r - 1) c @ newline # drop r c"
    by (metis append.assoc append_Cons append_Nil append_take_drop_id)
  with lines_of_break [of "take (r - 1) c" "drop r c"] \<open>take r c = _\<close>
  show "lines_of c = lines_of (take r c) @ lines_of (drop r c)" by metis
  have ne: "drop r c \<noteq> []"
  proof
    assume "drop r c = []"
    then have r: "r = length c" "length (body c) = length c" "c \<noteq> []" using assms(1,2) le by auto
    then have "last c = newline" using assms(3) by (simp add: last_conv_nth)
    with r show False by (cases c) (auto simp: body_def split: if_splits)
  qed
  have "body (drop r c) = drop r (body c)"
  proof (cases "last c = newline")
    case True
    with ne assms(2) show ?thesis by (auto simp: body_def drop_butlast)
  next
    case False
    with ne show ?thesis by (auto simp: body_def)
  qed
  with body_length [OF ne] show "length (lines_of (drop r c)) = breaks (drop r (body c)) + 1" by simp
qed

lemma nthLineFromEnd_static:
  "c \<noteq> [] \<Longrightarrow> nthLineFromEnd None (Inr (length c)) (static_read c) n =
     Inr (last_lines_loop (static_read c) n 0 (length (body c)))"
proof -
  assume c: "c \<noteq> []"
  have "take 1 (drop (length c - 1) c) = [last c]"
    using c by (cases c rule: rev_cases) simp_all
  then have "static_read c (length c - 1) 1 = ([newline], False) \<longleftrightarrow> last c = newline"
    by (simp add: static_read_def)
  then show ?thesis using c by (simp add: nthLineFromEnd_def body_def)
qed

lemma last_lines:
  assumes "1 \<le> n"
  shows "\<exists>off. nthLineFromEnd None (Inr (length c)) (static_read c) n = Inr off \<and> off \<le> length c \<and>
    drop off c = concat (drop (length (lines_of c) - nat n) (lines_of c))"
proof (cases "c = []")
  case True
  then show ?thesis by (simp add: nthLineFromEnd_def)
next
  case False
  define e where "e = length (body c)"
  have e: "e \<le> length c" "take e c = body c" by (auto simp: e_def body_def butlast_conv_take)
  have z: "breaks (drop e (body c)) = 0" by (simp add: e_def)
  define r where "r = last_lines_loop (static_read c) n 0 e"
  have off: "nthLineFromEnd None (Inr (length c)) (static_read c) n = Inr r"
    using nthLineFromEnd_static [OF False] by (simp add: r_def e_def)
  consider (few) "r = 0" "int (breaks (body c)) < n"
    | (found) "0 < r" "r \<le> e" "c ! (r - 1) = newline" "int (breaks (drop r (body c))) + 1 = n"
    using last_lines_loop_spec [of 0 n e e c] assms e z by (auto simp: Let_def r_def)
  then show ?thesis
  proof cases
    case few
    then have "length (lines_of c) \<le> nat n" using body_length [OF False] by simp
    with few off show ?thesis by simp
  next
    case found
    note l = lines_after [OF found(1) found(2) [unfolded e_def] found(3)]
    have "length (lines_of (drop r c)) = nat n" using l(2) found(4) by simp
    then have "drop (length (lines_of c) - nat n) (lines_of c) = lines_of (drop r c)" unfolding l(1) by simp
    then show ?thesis using off found(2) e(1) by simp
  qed
qed

section \<open>A complete stream\<close>

text \<open>The file of content \<open>c\<close>, and a round that reads it while nobody stops the stream.\<close>

definition static_file :: "bytes \<Rightarrow> log_file" where
  "static_file c = \<lparr>lf_open = None, lf_open2 = None, lf_stat = Inr (length c), lf_read_at = static_read c,
     lf_end = Inr (length c), lf_seek = (\<lambda>_. True), lf_watch = True\<rparr>"

definition static_round :: "bytes \<Rightarrow> log_round" where
  "static_round c = \<lparr>lr_stop = False,
     lr_read = (\<lambda>pos. if pos < length c then (take 4096 (drop pos c), ReadMore) else ([], ReadEOF)), lr_wait = WaitEvent\<rparr>"

lemma plain_loop_static:
  assumes "pos \<le> length c" "length c - pos < k"
  shows "\<exists>out. plain_loop (replicate k (static_round c)) pos sent = (out, True) \<and>
    concat out = (if drop pos c = [] \<and> \<not> sent then no_entries else drop pos c) \<and>
    (\<forall>b \<in> set out. b \<noteq> [] \<and> length b \<le> 4096)"
  using assms
proof (induction k arbitrary: pos sent)
  case (Suc k)
  show ?case
  proof (cases "pos < length c")
    case False
    then show ?thesis by (simp add: static_round_def)
  next
    case True
    define b where "b = take 4096 (drop pos c)"
    have b: "b \<noteq> []" "length b = min 4096 (length c - pos)" "length b \<le> 4096" using True by (simp_all add: b_def)
    have d: "drop pos c = b @ drop (pos + length b) c"
    proof -
      have "drop (length b) (drop pos c) = drop 4096 (drop pos c)" using b(2) by (simp add: min_def)
      then show ?thesis by (metis append_take_drop_id b_def drop_drop add.commute)
    qed
    have "0 < length b" using b(1) by simp
    then have p: "pos + length b \<le> length c" "length c - (pos + length b) < k" using Suc.prems True b(2) by linarith+
    obtain out where out: "plain_loop (replicate k (static_round c)) (pos + length b) True = (out, True)"
      "concat out = drop (pos + length b) c" "\<forall>b \<in> set out. b \<noteq> [] \<and> length b \<le> 4096"
      using Suc.IH [OF p, of True] by auto
    have r: "lr_read (static_round c) pos = (b, ReadMore)" "\<not> lr_stop (static_round c)"
      using True by (simp_all add: static_round_def b_def)
    have "plain_loop (replicate (Suc k) (static_round c)) pos sent = (b # out, True)"
      using r b(1) out(1) by (simp add: Let_def)
    moreover have "drop pos c \<noteq> []" using True by simp
    ultimately show ?thesis using out b d by (intro exI [of _ "b # out"]) auto
  qed
qed simp


lemma plain_stream:
  assumes "1 \<le> (if tailN < 0 then 10 else tailN)" "length c < k"
  shows "\<exists>out. streamFileLogs (static_file c) False tailN (replicate k (static_round c)) = (out, True) \<and>
    concat out = (if c = [] then no_entries
      else concat (drop (length (lines_of c) - nat (if tailN < 0 then 10 else tailN)) (lines_of c)))"
proof -
  let ?n = "if tailN < 0 then 10 else tailN"
  obtain off where off: "nthLineFromEnd None (Inr (length c)) (static_read c) ?n = Inr off" "off \<le> length c"
    "drop off c = concat (drop (length (lines_of c) - nat ?n) (lines_of c))"
    using last_lines [OF assms(1), of c] by blast
  have st: "streamFileLogs (static_file c) False tailN ms = plain_loop ms off False" for ms
    using off(1) by (simp add: streamFileLogs_def static_file_def log_start_def)
  have e: "drop off c = [] \<longleftrightarrow> c = []"
  proof
    assume "drop off c = []"
    then have "drop (length (lines_of c) - nat ?n) (lines_of c) = [] \<or> (\<exists>l \<in> set (lines_of c). l = [])"
      unfolding off(3) by (metis concat_eq_Nil_conv in_set_dropD last_in_set)
    moreover have "l \<noteq> []" if "l \<in> set (lines_of s)" for l s
      using that by (induction s arbitrary: l) (auto split: list.splits if_splits)
    ultimately have l: "length (lines_of c) \<le> length (lines_of c) - nat ?n" by auto
    have "1 \<le> nat ?n" using assms(1) by (simp split: if_splits)
    with l have "length (lines_of c) = 0" by linarith
    then show "c = []" by simp
  qed simp
  have "length c - off < k" using assms(2) by simp
  from plain_loop_static [OF off(2) this, of False]
  obtain out where out: "plain_loop (replicate k (static_round c)) off False = (out, True)"
    "concat out = (if drop off c = [] \<and> \<not> False then no_entries else drop off c)" by blast
  have "concat out = (if c = [] \<and> \<not> False then no_entries
      else concat (drop (length (lines_of c) - nat ?n) (lines_of c)))"
    using out(2) unfolding e unfolding off(3) .
  then show ?thesis using st out(1) by (intro exI [of _ out]) (simp only: not_False_eq_True simp_thms)
qed

section \<open>The journal\<close>

definition shown :: "log_env \<Rightarrow> bytes \<Rightarrow> bytes list" where
  "shown env raw = (if TrimSpace raw = [] then [] else case parseJournalctlEntry env (TrimSpace raw) of
     Inl _ \<Rightarrow> [] | Inr (ts, flds) \<Rightarrow> [formatEntry env ts flds])"

lemma journal_loop_shown:
  "journal_loop env (map (Pair False) ls) = (concat (map (shown env) ls), False)"
  by (induction ls) (auto simp: shown_def Let_def split: sum.split)

lemma journal_loop_cancelled:
  "journal_loop env (map (Pair False) ls @ (True, l) # ls') = (concat (map (shown env) ls), True)"
  by (induction ls) (auto simp: shown_def Let_def split: sum.split)


section \<open>Runs\<close>

text \<open>
  Calls of the handler, messages and ends of running streams, and the end of a caller's session.
\<close>

inductive log_step :: "log_env \<Rightarrow> logSessions \<Rightarrow> logSessions \<Rightarrow> bool" for env where
  step_logs: "log_step env w (fst (handleLogs env iv w))"
| step_line: "(r, streamID, ptr, src) \<in> set (lg_streams w) \<Longrightarrow> log_step env w (log_send ptr [VBytes b] w)"
| step_ends: "(r, streamID, ptr, src) \<in> set (lg_streams w) \<Longrightarrow> log_step env w (stream_ends r streamID ptr src w)"
| step_leave: "log_step env w (killAndDeleteByCaller callerID w)"

inductive log_reachable :: "log_env \<Rightarrow> logSessions \<Rightarrow> bool" for env where
  log_start_state: "log_reachable env newLogSessions"
| log_more: "log_reachable env w \<Longrightarrow> log_step env w w' \<Longrightarrow> log_reachable env w'"

text \<open>
  The listed sessions are those of the running streams that nobody stopped, under their stream IDs.
\<close>

definition log_inv :: "logSessions \<Rightarrow> bool" where
  "log_inv w \<longleftrightarrow>
     (\<forall>s r. fmlookup (lg_sess w) s = Some r \<longrightarrow> \<not> ls_stopped (lg_objs w r) \<and> (\<exists>ptr src. (r, s, ptr, src) \<in> set (lg_streams w))) \<and>
     (\<forall>r s ptr src. (r, s, ptr, src) \<in> set (lg_streams w) \<longrightarrow>
        r < lg_next w \<and> (\<not> ls_stopped (lg_objs w r) \<longrightarrow> fmlookup (lg_sess w) s = Some r)) \<and>
     distinct (map fst (lg_streams w))"

lemma log_send_inv: "log_inv (log_send ptr args v) = log_inv v"
  by (simp add: log_send_def log_inv_def)

lemma log_inv_unique:
  assumes "log_inv w" "fmlookup (lg_sess w) s = Some r" "fmlookup (lg_sess w) s' = Some r"
  shows "s = s'"
proof -
  obtain a b a' b' where "(r, s, a, b) \<in> set (lg_streams w)" "(r, s', a', b') \<in> set (lg_streams w)"
    using assms unfolding log_inv_def by blast
  moreover have "distinct (map fst (lg_streams w))" using assms(1) by (simp add: log_inv_def)
  ultimately have "(s, a, b) = (s', a', b')" by (intro eq_key_imp_eq_value)
  then show ?thesis by simp
qed

lemma log_invD:
  assumes "log_inv w"
  shows "fmlookup (lg_sess w) s = Some r \<Longrightarrow> \<not> ls_stopped (lg_objs w r)"
    "fmlookup (lg_sess w) s = Some r \<Longrightarrow> \<exists>ptr src. (r, s, ptr, src) \<in> set (lg_streams w)"
    "(r, s, ptr, src) \<in> set (lg_streams w) \<Longrightarrow> r < lg_next w"
    "(r, s, ptr, src) \<in> set (lg_streams w) \<Longrightarrow> \<not> ls_stopped (lg_objs w r) \<Longrightarrow> fmlookup (lg_sess w) s = Some r"
    "distinct (map fst (lg_streams w))"
  using assms unfolding log_inv_def by blast+

lemma log_invI:
  assumes "\<And>s r. fmlookup (lg_sess w) s = Some r \<Longrightarrow> \<not> ls_stopped (lg_objs w r) \<and> (\<exists>ptr src. (r, s, ptr, src) \<in> set (lg_streams w))"
    and "\<And>r s ptr src. (r, s, ptr, src) \<in> set (lg_streams w) \<Longrightarrow>
        r < lg_next w \<and> (\<not> ls_stopped (lg_objs w r) \<longrightarrow> fmlookup (lg_sess w) s = Some r)"
    and "distinct (map fst (lg_streams w))"
  shows "log_inv w"
  using assms unfolding log_inv_def by blast

lemma log_inv_lt: "log_inv w \<Longrightarrow> fmlookup (lg_sess w) s = Some r \<Longrightarrow> r < lg_next w"
  using log_invD(2,3) by blast

text \<open>Stopping the sessions \<open>K\<close> and taking their entries from the table.\<close>

lemma log_inv_stop:
  assumes i: "log_inv w"
    and same: "lg_streams w' = lg_streams w" "lg_next w' = lg_next w"
    and stop: "\<And>r. ls_stopped (lg_objs w' r) \<longleftrightarrow> ls_stopped (lg_objs w r) \<or> r \<in> K"
    and tab: "\<And>s. fmlookup (lg_sess w') s = (case fmlookup (lg_sess w) s of None \<Rightarrow> None | Some r \<Rightarrow> if r \<in> K then None else Some r)"
  shows "log_inv w'"
proof (rule log_invI)
  fix s r assume "fmlookup (lg_sess w') s = Some r"
  then have "fmlookup (lg_sess w) s = Some r" "r \<notin> K" by (auto simp: tab split: option.splits if_splits)
  with log_invD(1,2) [OF i] show "\<not> ls_stopped (lg_objs w' r) \<and> (\<exists>ptr src. (r, s, ptr, src) \<in> set (lg_streams w'))"
    by (simp add: stop same)
next
  fix r s ptr src assume "(r, s, ptr, src) \<in> set (lg_streams w')"
  with log_invD(3,4) [OF i] show "r < lg_next w' \<and> (\<not> ls_stopped (lg_objs w' r) \<longrightarrow> fmlookup (lg_sess w') s = Some r)"
    by (simp add: stop tab same)
qed (use log_invD(5) [OF i] same in simp)

lemma killAndDelete_inv:
  assumes i: "log_inv w"
  shows "log_inv (killAndDelete s w)"
proof (rule log_inv_stop [OF i, where K = "{r. fmlookup (lg_sess w) s = Some r}"])
  fix s'
  show "fmlookup (lg_sess (killAndDelete s w)) s' = (case fmlookup (lg_sess w) s' of
      None \<Rightarrow> None | Some r \<Rightarrow> if r \<in> {r. fmlookup (lg_sess w) s = Some r} then None else Some r)"
    using log_inv_unique [OF i, of s' _ s]
    by (auto simp: killAndDelete_def log_kill_def Let_def split: option.split)
qed (auto simp: killAndDelete_def log_kill_def Let_def split: option.split)

lemma fmran_fmfilter: "r |\<in>| fmran (fmfilter P m) \<longleftrightarrow> (\<exists>s. P s \<and> fmlookup m s = Some r)"
  unfolding fmlookup_ran_iff by auto

lemma killAndDeleteByCaller_objs:
  "ls_stopped (lg_objs (killAndDeleteByCaller c w) r) \<longleftrightarrow>
     ls_stopped (lg_objs w r) \<or> ls_callerID (lg_objs w r) = c \<and> (\<exists>s. fmlookup (lg_sess w) s = Some r)"
  "ls_callerID (lg_objs (killAndDeleteByCaller c w) r) = ls_callerID (lg_objs w r)"
  "fmlookup (lg_sess (killAndDeleteByCaller c w)) s = (case fmlookup (lg_sess w) s of
     None \<Rightarrow> None | Some r \<Rightarrow> if ls_callerID (lg_objs w r) = c then None else Some r)"
  "lg_streams (killAndDeleteByCaller c w) = lg_streams w" "lg_next (killAndDeleteByCaller c w) = lg_next w"
  by (auto simp: killAndDeleteByCaller_def Let_def fmran_fmfilter simp del: fmfilter_ran split: option.splits if_splits)

lemma killAndDeleteByCaller_inv:
  assumes i: "log_inv w"
  shows "log_inv (killAndDeleteByCaller c w)"
  by (rule log_inv_stop [OF i, where K = "{r. ls_callerID (lg_objs w r) = c \<and> (\<exists>s. fmlookup (lg_sess w) s = Some r)}"])
    (auto simp: killAndDeleteByCaller_objs split: option.split)

text \<open>A new stream takes the place of the one with its ID.\<close>

lemma fmupd_fmdrop [simp]: "fmupd s r (fmdrop s m) = fmupd s r m"
  by (rule fmap_ext) simp

lemma log_start_stream_eq:
  assumes "fmlookup (lg_sess w) s \<noteq> Some (lg_next w)"
  shows "log_start_stream s iv src w = (let w1 = killAndDelete s w; r = lg_next w in
     w1\<lparr>lg_objs := (lg_objs w1)(r := \<lparr>ls_callerID = inv_Caller iv, ls_stopped = False\<rparr>),
        lg_next := Suc r, lg_sess := fmupd s r (lg_sess w1), lg_streams := (r, s, inv_ptr iv, src) # lg_streams w1\<rparr>)"
  using assms by (cases "fmlookup (lg_sess w) s")
    (simp_all add: log_start_stream_def newLogSession_def log_replace_def killAndDelete_def log_kill_def Let_def fun_upd_twist)

lemma start_stream_inv:
  assumes i: "log_inv w"
  shows "log_inv (log_start_stream s iv src w)"
proof -
  define w1 where "w1 = killAndDelete s w"
  have i1: "log_inv w1" unfolding w1_def by (rule killAndDelete_inv [OF i])
  have n: "lg_next w1 = lg_next w" "fmlookup (lg_sess w1) s = None" "fmlookup (lg_sess w) s \<noteq> Some (lg_next w)"
    using log_inv_lt [OF i, of s "lg_next w"] by (auto simp: w1_def killAndDelete_def log_kill_def Let_def split: option.split)
  define r where "r = lg_next w"
  define w2 where "w2 = w1\<lparr>lg_objs := (lg_objs w1)(r := \<lparr>ls_callerID = inv_Caller iv, ls_stopped = False\<rparr>),
        lg_next := Suc r, lg_sess := fmupd s r (lg_sess w1), lg_streams := (r, s, inv_ptr iv, src) # lg_streams w1\<rparr>"
  have eq: "log_start_stream s iv src w = w2" using n(3) by (simp add: log_start_stream_eq [OF n(3)] w2_def w1_def r_def Let_def)
  have fresh: "q \<noteq> r" if "(q, a, b, c) \<in> set (lg_streams w1)" for q a b c using log_invD(3) [OF i1 that] n(1) by (simp add: r_def)
  have fresh2: "q \<noteq> r" if "fmlookup (lg_sess w1) a = Some q" for q a using log_inv_lt [OF i1 that] n(1) by (simp add: r_def)
  show ?thesis unfolding eq
  proof (rule log_invI)
    fix a q assume "fmlookup (lg_sess w2) a = Some q"
    then consider "a = s" "q = r" | "a \<noteq> s" "fmlookup (lg_sess w1) a = Some q" by (auto simp: w2_def split: if_splits)
    then show "\<not> ls_stopped (lg_objs w2 q) \<and> (\<exists>ptr src. (q, a, ptr, src) \<in> set (lg_streams w2))"
    proof cases
      case 1
      then show ?thesis by (auto simp: w2_def)
    next
      case 2
      then show ?thesis using log_invD(1,2) [OF i1 2(2)] fresh2 [OF 2(2)] by (auto simp: w2_def)
    qed
  next
    fix q a b c assume "(q, a, b, c) \<in> set (lg_streams w2)"
    then consider "q = r" "a = s" | "(q, a, b, c) \<in> set (lg_streams w1)" by (auto simp: w2_def)
    then show "q < lg_next w2 \<and> (\<not> ls_stopped (lg_objs w2 q) \<longrightarrow> fmlookup (lg_sess w2) a = Some q)"
    proof cases
      case 1
      then show ?thesis by (simp add: w2_def)
    next
      case 2
      have "\<not> ls_stopped (lg_objs w1 q) \<longrightarrow> fmlookup (lg_sess w1) a = Some q" using log_invD(4) [OF i1 2] by blast
      with log_invD(3) [OF i1 2] fresh [OF 2] n(1,2) show ?thesis by (auto simp: w2_def r_def)
    qed
  next
    show "distinct (map fst (lg_streams w2))" using log_invD(5) [OF i1] fresh [of r] by (auto simp: w2_def)
  qed
qed

lemma stream_ends_inv:
  assumes i: "log_inv w" and m: "(r, s, ptr, src) \<in> set (lg_streams w)"
  shows "log_inv (stream_ends r s ptr src w)"
proof -
  have inj: "y = (s, ptr, src)" if "(r, y) \<in> set (lg_streams w)" for y
    by (rule eq_key_imp_eq_value [OF log_invD(5) [OF i] that m])
  have dist: "distinct (lg_streams w)" using log_invD(5) [OF i] by (simp add: distinct_map)
  have rem: "(q, y) \<in> set (remove1 (r, s, ptr, src) (lg_streams w)) \<longleftrightarrow> (q, y) \<in> set (lg_streams w) \<and> q \<noteq> r" for q y
    unfolding set_remove1_eq [OF dist] using inj [of y] m by (cases "q = r") auto
  have u: "a = s" if "fmlookup (lg_sess w) a = Some r" for a
    using inj log_invD(2) [OF i that] by blast
  define w' where "w' = (deleteIfSame s r w)\<lparr>lg_streams := remove1 (r, s, ptr, src) (lg_streams w)\<rparr>"
  have tab: "fmlookup (lg_sess w') a = (if fmlookup (lg_sess w) a = Some r then None else fmlookup (lg_sess w) a)" for a
  proof (cases "fmlookup (lg_sess w) a = Some r")
    case True
    with u [OF True] show ?thesis by (simp add: w'_def deleteIfSame_def)
  next
    case False
    then show ?thesis by (cases "a = s") (simp_all add: w'_def deleteIfSame_def)
  qed
  have same: "lg_objs w' = lg_objs w" "lg_next w' = lg_next w" "lg_streams w' = remove1 (r, s, ptr, src) (lg_streams w)"
    by (simp_all add: w'_def deleteIfSame_def)
  have "log_inv w'"
  proof (rule log_invI)
    fix a q assume "fmlookup (lg_sess w') a = Some q"
    then have q: "fmlookup (lg_sess w) a = Some q" "q \<noteq> r" by (auto simp: tab split: if_splits)
    with log_invD(1,2) [OF i q(1)] show "\<not> ls_stopped (lg_objs w' q) \<and> (\<exists>ptr src. (q, a, ptr, src) \<in> set (lg_streams w'))"
      by (simp add: same rem)
  next
    fix q a b c assume "(q, a, b, c) \<in> set (lg_streams w')"
    then have q: "(q, a, b, c) \<in> set (lg_streams w)" "q \<noteq> r" by (simp_all add: same rem)
    with log_invD(3,4) [OF i q(1)] show "q < lg_next w' \<and> (\<not> ls_stopped (lg_objs w' q) \<longrightarrow> fmlookup (lg_sess w') a = Some q)"
      by (simp add: same tab)
  next
    show "distinct (map fst (lg_streams w'))" unfolding same
      using log_invD(5) [OF i] by (metis distinct_map distinct_remove1 inj_on_subset set_remove1_subset)
  qed
  then show ?thesis by (simp add: stream_ends_def w'_def Let_def log_send_inv)
qed

lemma handleLogs_cases:
  obtains c where "fst (handleLogs env iv w) = killAndDeleteByCaller c w" "\<not> inv_Progress iv"
  | s where "fst (handleLogs env iv w) = killAndDelete s w" "\<not> inv_Progress iv"
  | "fst (handleLogs env iv w) = w"
  | s src where "fst (handleLogs env iv w) = log_start_stream s iv src w" "inv_Progress iv"
proof (cases "inv_Progress iv")
  case False
  then show ?thesis using that(1,2) by (cases "inv_ArgUInt64 iv 0") (auto simp: handleLogs_def)
next
  case True
  define since where "since = string_arg (inv_ArgString iv 3)"
  show ?thesis
  proof (cases "if since = [] then Inr 0 else le_ParseDuration env since")
    case (Inl e)
    with True that(3) show ?thesis by (simp add: handleLogs_def Let_def Inl [unfolded since_def])
  next
    case (Inr d)
    with True that(4) show ?thesis by (simp add: handleLogs_def Let_def Inr [unfolded since_def])
  qed
qed

lemma log_reachable_inv: "log_reachable env w \<Longrightarrow> log_inv w"
proof (induction rule: log_reachable.induct)
  case log_start_state
  show ?case by (simp add: log_inv_def newLogSessions_def)
next
  case (log_more w w')
  from log_more.hyps(2) log_more.IH show ?case
  proof cases
    case (step_logs iv)
    have "log_inv (fst (handleLogs env iv w))"
    proof (cases rule: handleLogs_cases [of env iv w])
      case (1 c)
      show ?thesis unfolding 1(1) by (rule killAndDeleteByCaller_inv [OF log_more.IH])
    next
      case (2 s)
      show ?thesis unfolding 2(1) by (rule killAndDelete_inv [OF log_more.IH])
    next
      case 3
      show ?thesis unfolding 3 by (rule log_more.IH)
    next
      case (4 s src)
      show ?thesis unfolding 4(1) by (rule start_stream_inv [OF log_more.IH])
    qed
    then show ?thesis by (simp only: step_logs)
  next
    case (step_line r s ptr src b)
    show ?thesis unfolding step_line log_send_inv by (rule log_more.IH)
  next
    case (step_ends r s ptr src)
    show ?thesis unfolding step_ends(1) by (rule stream_ends_inv [OF log_more.IH step_ends(2)])
  next
    case (step_leave c)
    show ?thesis unfolding step_leave by (rule killAndDeleteByCaller_inv [OF log_more.IH])
  qed
qed

section \<open>Properties\<close>

text \<open>
  Property C8 (tail_is_last_lines): for a file that does not change, \<open>nthLineFromEnd\<close> with
  \<open>n >= 1\<close> gives the offset at which the last \<open>n\<close> lines of the file begin (the whole file when it
  has fewer), though it reads the file backwards in blocks of 4096 bytes; with \<open>n = 0\<close> it gives 0,
  the whole file.
\<close>

theorem tail_is_last_lines:
  assumes "0 \<le> n"
  shows "\<exists>off. nthLineFromEnd None (Inr (length c)) (static_read c) n = Inr off \<and>
    drop off c = (if n = 0 then c else concat (drop (length (lines_of c) - nat n) (lines_of c)))"
proof (cases "n = 0")
  case True
  then show ?thesis by (cases "c = []") (simp_all add: nthLineFromEnd_def last_lines_zero)
next
  case False
  then show ?thesis using last_lines [of n c] assms by auto
qed

theorem tail_is_last_lines_witness:
  "\<exists>off. nthLineFromEnd None (Inr (length (''a'' @ [newline] @ ''b'' @ [newline]))) (static_read (''a'' @ [newline] @ ''b'' @ [newline])) 1 = Inr off \<and>
     drop off (''a'' @ [newline] @ ''b'' @ [newline]) = ''b'' @ [newline]"
  using tail_is_last_lines [of 1 "''a'' @ [newline] @ ''b'' @ [newline]"] by simp

text \<open>
  Property C32 (file_log_exact): streaming a file without \<open>follow\<close> that nobody stops ends after at most
  as many reads as the file has bytes, and one; what it sent is the last \<open>tailN\<close> lines (ten for a
  negative \<open>tailN\<close>), or the text for no entries if the file is empty.
\<close>

theorem file_log_exact:
  assumes "tailN \<noteq> 0" and "length c < k"
  shows "\<exists>out. streamFileLogs (static_file c) False tailN (replicate k (static_round c)) = (out, True) \<and>
    concat out = (if c = [] then no_entries
      else concat (drop (length (lines_of c) - nat (if tailN < 0 then 10 else tailN)) (lines_of c)))"
  by (rule plain_stream) (use assms in auto)

theorem file_log_exact_witness:
  "\<exists>out. streamFileLogs (static_file (''a'' @ [newline] @ ''b'')) False 1 (replicate 4 (static_round (''a'' @ [newline] @ ''b''))) = (out, True) \<and>
     concat out = ''b''"
  using file_log_exact [of 1 "''a'' @ [newline] @ ''b''" 4] by simp

text \<open>
  Property C15 (log_streams_listed): in every reachable state every running stream that nobody stopped is
  the one listed under its ID, and every listed one runs; when a caller's session ends, all its
  running streams are stopped and no other caller's.
\<close>

theorem log_streams_listed:
  assumes "log_reachable env w"
  shows "log_inv w \<and> (\<forall>(r, s, ptr, src) \<in> set (lg_streams w).
    ls_stopped (lg_objs (killAndDeleteByCaller c w) r) \<longleftrightarrow> ls_stopped (lg_objs w r) \<or> ls_callerID (lg_objs w r) = c)"
proof -
  have i: "log_inv w" by (rule log_reachable_inv [OF assms])
  have "ls_stopped (lg_objs (killAndDeleteByCaller c w) r) \<longleftrightarrow> ls_stopped (lg_objs w r) \<or> ls_callerID (lg_objs w r) = c"
    if "(r, s, ptr, src) \<in> set (lg_streams w)" for r s ptr src
    using log_invD(4) [OF i that] by (cases "ls_stopped (lg_objs w r)") (auto simp: killAndDeleteByCaller_objs)
  with i show ?thesis by auto
qed

definition sample_log_env :: log_env where
  "sample_log_env = \<lparr>le_Quote = (\<lambda>s. s), le_ParseDuration = (\<lambda>_. Inr 0), le_ago = (\<lambda>_. []), le_stamp = (\<lambda>_. []),
     le_Unmarshal = (\<lambda>_. Inr fmempty)\<rparr>"

text \<open>Two clients ask for logs with the stream ID \<open>1\<close>, which the proxy of each gives its first stream.\<close>

definition sample_log_call :: "nat \<Rightarrow> u64 \<Rightarrow> invocation" where
  "sample_log_call ptr caller = (sample_inv ptr caller ''u'' True [VStr ''/var/log/a''])\<lparr>inv_ArgUInt64 := (\<lambda>_. Inr 1)\<rparr>"

theorem log_streams_listed_witness:
  "log_inv (fst (handleLogs sample_log_env (sample_log_call 1 7) newLogSessions))"
  by (rule log_streams_listed [THEN conjunct1]) (rule log_more [OF log_start_state step_logs])

text \<open>
  A call with the stream ID of a running stream, by any caller,
  stops that stream: its session is stopped, and when it returns it sends no end of output, so its
  own client is never told.
\<close>

theorem log_stream_ids_collide:
  assumes "log_reachable env w" and run: "(r, s, ptr, src) \<in> set (lg_streams w)" "\<not> ls_stopped (lg_objs w r)"
    and iv: "inv_Progress iv" "inv_ArgUInt64 iv 4 = Inr s" "inv_ArgString iv 3 = Inl e0"
  shows "ls_stopped (lg_objs (fst (handleLogs env iv w)) r) \<and> (r, s, ptr, src) \<in> set (lg_streams (fst (handleLogs env iv w))) \<and>
    lg_sent (stream_ends r s ptr src (fst (handleLogs env iv w))) = lg_sent (fst (handleLogs env iv w))"
proof -
  have i: "log_inv w" by (rule log_reachable_inv [OF assms(1)])
  have l: "fmlookup (lg_sess w) s = Some r" "r < lg_next w" using log_invD(3,4) [OF i run(1)] run(2) by blast+
  have ne: "fmlookup (lg_sess w) s \<noteq> Some (lg_next w)" using l by simp
  obtain src' where h: "fst (handleLogs env iv w) = log_start_stream s iv src' w"
    using iv by (simp add: handleLogs_def Let_def string_arg_def)
  have st: "ls_stopped (lg_objs (log_start_stream s iv src' w) r)"
    "(r, s, ptr, src) \<in> set (lg_streams (log_start_stream s iv src' w))"
    using l run(1) by (simp_all add: log_start_stream_eq [OF ne] killAndDelete_def log_kill_def Let_def)
  then show ?thesis by (simp add: h stream_ends_def deleteIfSame_def Let_def)
qed

theorem log_stream_ids_collide_witness:
  "ls_stopped (lg_objs (fst (handleLogs sample_log_env (sample_log_call 2 8)
     (fst (handleLogs sample_log_env (sample_log_call 1 7) newLogSessions)))) 0)"
proof -
  let ?w = "fst (handleLogs sample_log_env (sample_log_call 1 7) newLogSessions)"
  have r: "log_reachable sample_log_env ?w" by (rule log_more [OF log_start_state step_logs])
  have "(0, 1, 1, FileLogs ''/var/log/a'' False (- 1)) \<in> set (lg_streams ?w)" "\<not> ls_stopped (lg_objs ?w 0)"
    by (simp_all add: handleLogs_def sample_log_call_def sample_inv_def string_arg_def Let_def log_start_stream_def newLogSession_def
        newLogSessions_def log_replace_def)
  from log_stream_ids_collide [OF r this, of "sample_log_call 2 8" "arg_error 3"]
  show ?thesis by (simp add: sample_log_call_def sample_inv_def)
qed

text \<open>
  A journal stream that is not cancelled sends every entry it can
  parse, in order, and never ends without a message: after the entries it may report an error, and
  it does so, or says that there are none, if there was no entry.
\<close>

theorem journal_never_silent:
  assumes "jr_pipe j = None" and "jr_start j = None" and "jr_lines j = map (Pair False) ls" and "\<not> jr_cancelled j"
  shows "\<exists>after. streamJournalLogs env j = concat (map (shown env) ls) @ after \<and> length after \<le> 1 \<and> streamJournalLogs env j \<noteq> []"
proof -
  have "length (journal_end j b) \<le> 1 \<and> (\<not> b \<longrightarrow> journal_end j b \<noteq> [])" for b
    using assms(4) by (simp add: journal_end_def Let_def split: option.split)
  then show ?thesis
    by (cases "concat (map (shown env) ls) = []")
      (auto simp: streamJournalLogs_def assms(1,2,3) journal_loop_shown simp del: concat_eq_Nil_conv)
qed

theorem journal_never_silent_witness:
  "streamJournalLogs sample_log_env \<lparr>jr_pipe = None, jr_start = None, jr_lines = map (Pair False) [], jr_scanErr = None,
     jr_waitErr = None, jr_stderr = [], jr_cancelled = False\<rparr> \<noteq> []"
  using journal_never_silent [of "\<lparr>jr_pipe = None, jr_start = None, jr_lines = map (Pair False) [], jr_scanErr = None,
     jr_waitErr = None, jr_stderr = [], jr_cancelled = False\<rparr>" "[]" sample_log_env] by auto


end
