(* ===== verification/FileCat.thy ===== *)
theory FileCat
  imports FileOps
begin

text \<open>
  Streaming a file to the caller (\<open>src/filecat.go\<close>), with \<open>serverStreamKeyExchange\<close> of
  \<open>src/remotepath.go\<close>: the handler at the device, the receiver at the client, and both together.
\<close>

section \<open>The device\<close>

text \<open>The progress message, and the keys or the error to return. \<open>sendErr\<close>: sending it fails.\<close>

definition serverStreamKeyExchange ::
  "crypto \<Rightarrow> bytes result \<Rightarrow> go_error option \<Rightarrow> invocation \<Rightarrow> nat \<Rightarrow> bytes list \<times> (inv_result + encryptionKeys)" where
  "serverStreamKeyExchange cr rnd sendErr iv clientKeyArgIdx =
     (let missing = ([], Inl (InvocationError ErrInvalidArgument [VStr ''client public key is required'']))
      in case inv_ArgBytes iv clientKeyArgIdx of
        Inl _ \<Rightarrow> missing
      | Inr clientPublicKey \<Rightarrow>
          if length clientPublicKey \<noteq> 32 then missing
          else case ServerKeyExchange cr rnd clientPublicKey of
            Inl e \<Rightarrow> ([], Inl (operation_failed e))
          | Inr (serverPublicKey, sendKey, receiveKey) \<Rightarrow> (case sendErr of
              Some e \<Rightarrow> ([], Inl (operation_failed e))
            | None \<Rightarrow> ([''KEY:'' @ serverPublicKey], Inr \<lparr>ek_sendKey = sendKey, ek_receiveKey = receiveKey\<rparr>)))"

text \<open>
  One round of the reading loop: the error of the call's context, what the read gives, the nonce,
  the error of sending.
\<close>

record cat_round =
  ct_ctx :: "go_error option"
  ct_chunk :: bytes
  ct_err :: "go_error option"
  ct_nonce :: "bytes result"
  ct_send :: "go_error option"

definition cat_send :: "crypto \<Rightarrow> bytes \<Rightarrow> cat_round \<Rightarrow> bytes list result" where
  "cat_send cr sendKey r =
     (if ct_chunk r = [] then Inr []
      else try_result (EncryptPayload cr (ct_nonce r) (ct_chunk r) sendKey)
        (\<lambda>encrypted. case ct_send r of Some e \<Rightarrow> Inl e | None \<Rightarrow> Inr [encrypted]))"

text \<open>What the loop sends in the rounds given, and the result it returns with, if it does.\<close>

fun cat_loop :: "crypto \<Rightarrow> bytes \<Rightarrow> cat_round list \<Rightarrow> bytes list \<times> inv_result option" where
  "cat_loop cr sendKey [] = ([], None)"
| "cat_loop cr sendKey (r # rs) = (case ct_ctx r of
     Some e \<Rightarrow> ([], Some (operation_failed e))
   | None \<Rightarrow> (case cat_send cr sendKey r of
       Inl e \<Rightarrow> ([], Some (operation_failed e))
     | Inr ms \<Rightarrow> (case ct_err r of
         Some e \<Rightarrow> (ms, Some (if e = ErrEOF then InvocationResult [] else operation_failed e))
       | None \<Rightarrow> (let (rest, res) = cat_loop cr sendKey rs in (ms @ rest, res)))))"

definition handleFileCat ::
  "crypto \<Rightarrow> bytes result \<Rightarrow> go_error option \<Rightarrow> string result \<Rightarrow> fs \<Rightarrow> cat_round list \<Rightarrow> invocation \<Rightarrow> bytes list \<times> inv_result option" where
  "handleFileCat cr rnd sendErr home m rounds iv = (case inv_ArgString iv 0 of
     Inl e \<Rightarrow> ([], Some (invalid_argument e))
   | Inr remotePath \<Rightarrow> (case serverStreamKeyExchange cr rnd sendErr iv 1 of
       (ms, Inl r) \<Rightarrow> (ms, Some r)
     | (ms, Inr enc) \<Rightarrow> (case resolveAndStatPath home m remotePath of
         Inl r \<Rightarrow> (ms, Some r)
       | Inr (resolvedPath, info) \<Rightarrow>
           if is_dir info then (ms, Some (InvocationError ErrInvalidArgument [VStr (remotePath @ '': is a directory'')]))
           else (case stat_at True ''open'' m resolvedPath of
             Inl e \<Rightarrow> (ms, Some (operation_failed e))
           | Inr _ \<Rightarrow> (let (rest, res) = cat_loop cr (ek_sendKey enc) rounds in (ms @ rest, res))))))"

section \<open>The client\<close>

record cat_client =
  cc_privateKey :: bytes
  cc_receiveKey :: bytes
  cc_firstServerMsg :: bool
  cc_receivedData :: bool
  cc_transferErr :: "go_error option"
  cc_out :: bytes

definition cat_start :: "bytes \<Rightarrow> cat_client" where
  "cat_start privateKey = \<lparr>cc_privateKey = privateKey, cc_receiveKey = [], cc_firstServerMsg = True, cc_receivedData = False,
     cc_transferErr = None, cc_out = []\<rparr>"

definition cat_fail :: "go_error \<Rightarrow> cat_client \<Rightarrow> cat_client" where
  "cat_fail e c = c\<lparr>cc_transferErr := Some e\<rparr>"

text \<open>The progress receiver; \<open>writeErr\<close>: writing the output fails.\<close>

definition cat_receive :: "crypto \<Rightarrow> go_error option \<Rightarrow> cat_client \<Rightarrow> bytes result \<Rightarrow> cat_client" where
  "cat_receive cr writeErr c arg =
     (if cc_transferErr c \<noteq> None then c
      else if cc_firstServerMsg c then
        (let c1 = c\<lparr>cc_firstServerMsg := False\<rparr>
         in case arg of
              Inl _ \<Rightarrow> cat_fail (Errorf ''expected key exchange message from server'') c1
            | Inr data \<Rightarrow>
                if \<not> has_prefix data ''KEY:'' then cat_fail (Errorf ''expected key exchange message from server'') c1
                else (case ClientKeyExchangeKeys cr (cc_privateKey c) (drop 4 data) of
                    Inl e \<Rightarrow> cat_fail (Wrapf ''key exchange failed: '' e) c1
                  | Inr (_, receiveKey) \<Rightarrow> c1\<lparr>cc_receiveKey := receiveKey\<rparr>))
      else (case arg of
          Inl e \<Rightarrow> cat_fail (Wrapf ''invalid message format: '' e) c
        | Inr encrypted \<Rightarrow> (case DecryptPayload cr encrypted (cc_receiveKey c) of
            Inl e \<Rightarrow> cat_fail (Wrapf ''failed to decrypt chunk: '' e) c
          | Inr chunk \<Rightarrow> (case writeErr of
              Some e \<Rightarrow> cat_fail e c
            | None \<Rightarrow> c\<lparr>cc_out := cc_out c @ chunk, cc_receivedData := True\<rparr>))))"

definition cat_result :: "cat_client \<Rightarrow> go_error option \<Rightarrow> go_error option" where
  "cat_result c callErr =
     (if cc_transferErr c \<noteq> None then cc_transferErr c
      else if callErr \<noteq> None \<and> \<not> cc_receivedData c then callErr
      else None)"

text \<open>The whole call: the device's messages, received in order, and the error of the call.\<close>

definition call_error :: "inv_result \<Rightarrow> go_error option" where
  "call_error r = (case r of InvocationResult _ \<Rightarrow> None | InvocationError _ _ \<Rightarrow> Some (Errorf ''call failed''))"

definition streamCat :: "crypto \<Rightarrow> bytes \<Rightarrow> bytes list \<times> inv_result option \<Rightarrow> (bytes \<times> go_error option) option" where
  "streamCat cr privateKey answer = (case snd answer of
     None \<Rightarrow> None
   | Some r \<Rightarrow> (let c = foldl (cat_receive cr None) (cat_start privateKey) (map Inr (fst answer))
       in Some (cc_out c, cat_result c (call_error r))))"

section \<open>A file read to its end, or to an error\<close>

definition chunk_round :: "bytes result \<Rightarrow> bytes \<Rightarrow> cat_round" where
  "chunk_round rnd b = \<lparr>ct_ctx = None, ct_chunk = b, ct_err = None, ct_nonce = rnd, ct_send = None\<rparr>"

definition last_round :: "go_error \<Rightarrow> cat_round" where
  "last_round e = \<lparr>ct_ctx = None, ct_chunk = [], ct_err = Some e, ct_nonce = Inr [], ct_send = None\<rparr>"

lemma cat_loop_chunks:
  assumes cr: "aead_ok cr" "length key = 32" "nonce_drawn rnd" and ne: "\<forall>b \<in> set bs. b \<noteq> []"
  shows "\<exists>ds. cat_loop cr key (map (chunk_round rnd) bs @ [last_round e]) =
      (ds, Some (if e = ErrEOF then InvocationResult [] else operation_failed e)) \<and>
    list_all2 (\<lambda>d b. DecryptPayload cr d key = Inr b) ds bs"
  using ne
proof (induction bs)
  case Nil
  then show ?case by (simp add: last_round_def cat_send_def)
next
  case (Cons b bs)
  obtain ds where ds: "cat_loop cr key (map (chunk_round rnd) bs @ [last_round e]) =
      (ds, Some (if e = ErrEOF then InvocationResult [] else operation_failed e))"
    "list_all2 (\<lambda>d b. DecryptPayload cr d key = Inr b) ds bs" using Cons by auto
  obtain d where d: "EncryptPayload cr rnd b key = Inr d" using EncryptPayload_total [OF cr] by blast
  then have s: "cat_send cr key (chunk_round rnd b) = Inr [d]"
    using Cons.prems by (simp add: cat_send_def chunk_round_def)
  have f: "ct_ctx (chunk_round rnd b) = None" "ct_err (chunk_round rnd b) = None" by (simp_all add: chunk_round_def)
  show ?case using ds s f DecryptPayload_Encrypt [OF cr d] by (intro exI [of _ "d # ds"]) simp
qed

lemma cat_receive_chunks:
  assumes "list_all2 (\<lambda>d b. DecryptPayload cr d k = Inr b) ds bs" "cc_receiveKey c = k" "cc_transferErr c = None" "\<not> cc_firstServerMsg c"
  shows "foldl (cat_receive cr None) c (map Inr ds) = c\<lparr>cc_out := cc_out c @ concat bs, cc_receivedData := cc_receivedData c \<or> bs \<noteq> []\<rparr>"
  using assms
proof (induction ds bs arbitrary: c rule: list_all2_induct)
  case (Cons d ds b bs)
  let ?c = "c\<lparr>cc_out := cc_out c @ b, cc_receivedData := True\<rparr>"
  have "cat_receive cr None c (Inr d) = ?c" using Cons by (simp add: cat_receive_def)
  then show ?case using Cons.IH [of ?c] Cons.prems Cons.hyps by simp
qed simp

text \<open>The device sends the chunks \<open>bs\<close>, then its read answers \<open>e\<close>.\<close>

lemma cat_call:
  assumes cr: "crypto_ok cr" and keys: "CreateX25519KeyPair cr rc = Inr (pub, priv)" "length priv = 32" "length pub = 32"
      "ServerKeyExchange cr rnd pub = Inr (spk, sk, rk)"
    and iv: "inv_ArgString iv 0 = Inr path" "inv_ArgBytes iv 1 = Inr pub"
    and found: "resolveAndStatPath home m path = Inr (p, nd)" "\<not> is_dir nd" "stat_at True ''open'' m p = Inr x"
    and bs: "\<forall>b \<in> set bs. b \<noteq> []" "nonce_drawn nonce"
  shows "streamCat cr priv (handleFileCat cr rnd None home m (map (chunk_round nonce) bs @ [last_round e]) iv) =
    Some (concat bs, if e = ErrEOF \<or> bs \<noteq> [] then None else Some (Errorf ''call failed''))"
proof -
  have ok: "dh_ok cr" "hkdf_ok cr" "aead_ok cr" using cr by (simp_all add: crypto_ok_def)
  obtain spriv sec where x: "CreateX25519KeyPair cr rnd = Inr (spk, spriv)" "PerformKeyExchange cr spriv pub = Inr sec"
    "DeriveKeyHKDF cr sec ''backendToFrontend'' = Inr sk" "DeriveKeyHKDF cr sec ''frontendToBackend'' = Inr rk"
    using keys(4) unfolding ServerKeyExchange_Inr by blast
  have "PerformKeyExchange cr priv spk = Inr sec" by (rule shared_secret_agrees [OF ok(1) x(1) keys(1) x(2) keys(2)])
  then have k: "ClientKeyExchangeKeys cr priv spk = Inr (rk, sk)" by (simp add: ClientKeyExchangeKeys_def x)
  have len: "length sk = 32" using DeriveKeyHKDF_length [OF ok(2) x(3)] .
  obtain ds where ds: "cat_loop cr sk (map (chunk_round nonce) bs @ [last_round e]) =
      (ds, Some (if e = ErrEOF then InvocationResult [] else operation_failed e))"
    "list_all2 (\<lambda>d b. DecryptPayload cr d sk = Inr b) ds bs"
    using cat_loop_chunks [OF ok(3) len bs(2,1)] by blast
  have h: "handleFileCat cr rnd None home m (map (chunk_round nonce) bs @ [last_round e]) iv =
      ((''KEY:'' @ spk) # ds, Some (if e = ErrEOF then InvocationResult [] else operation_failed e))"
    using iv found keys(3,4) ds(1) by (simp add: handleFileCat_def serverStreamKeyExchange_def Let_def)
  let ?c = "(cat_start priv)\<lparr>cc_firstServerMsg := False, cc_receiveKey := sk\<rparr>"
  have "cat_receive cr None (cat_start priv) (Inr (''KEY:'' @ spk)) = ?c"
    using k by (simp add: cat_receive_def cat_start_def Let_def)
  moreover have "foldl (cat_receive cr None) ?c (map Inr ds) = ?c\<lparr>cc_out := concat bs, cc_receivedData := bs \<noteq> []\<rparr>"
    using cat_receive_chunks [of cr sk ds bs ?c] ds(2) by (simp add: cat_start_def)
  ultimately show ?thesis unfolding h
    by (simp add: streamCat_def Let_def cat_result_def cat_start_def call_error_def)
qed

section \<open>Properties\<close>

text \<open>The chunks of a file: reads of 1 MB.\<close>

abbreviation fileChunkSize :: nat where
  "fileChunkSize \<equiv> 1048576"

function chunks_of :: "nat \<Rightarrow> bytes \<Rightarrow> bytes list" where
  "chunks_of k c = (if c = [] \<or> k = 0 then [] else take k c # chunks_of k (drop k c))"
  by pat_completeness auto

termination by (relation "measure (\<lambda>(k, c). length c)") auto

declare chunks_of.simps [simp del]

lemma chunks_of_props: "0 < k \<Longrightarrow> concat (chunks_of k c) = c \<and> (\<forall>b \<in> set (chunks_of k c). b \<noteq> [] \<and> length b \<le> k)"
  by (induction k c rule: chunks_of.induct) (subst (1 2) chunks_of.simps, auto)


definition cat_fs :: fs where
  "cat_fs = \<lparr>nodes = [([''f''], \<lparr>kind = Regular ''hi'', perm = 420, mtime = 0\<rparr>)], cwd = [], umask = 0, clock = 0\<rparr>"

lemma cat_fs_file:
  "resolveAndStatPath (Inr ''/'') cat_fs ''/f'' = Inr (''/f'', \<lparr>kind = Regular ''hi'', perm = 420, mtime = 0\<rparr>)"
  "os_ReadFile cat_fs ''/f'' = Inr ''hi''"
  by code_simp+

definition sample_cat :: invocation where
  "sample_cat = sample_inv 1 7 ''u'' False [VStr ''/f'', VBytes (replicate 32 CHR ''a'')]"

lemma toy_exchange: "\<exists>spk sk rk. ServerKeyExchange toy_crypto (Inr (replicate 32 CHR ''a'')) (replicate 32 CHR ''a'') = Inr (spk, sk, rk)"
proof -
  have "\<not> AllZeros (replicate 32 (char_of (194::nat)))" by (simp add: AllZeros_def char_of_eq_iff)
  then have p: "PerformKeyExchange toy_crypto (replicate 32 CHR ''a'') (replicate 32 CHR ''a'') = Inr (replicate 32 (char_of (194::nat)))"
    by (simp add: PerformKeyExchange_def toy_crypto_def)
  have d: "DeriveKeyHKDF toy_crypto x i = Inr (replicate 32 (char_of (toy_hd x + toy_hd i)))" for x i
    by (simp add: DeriveKeyHKDF_def toy_crypto_def)
  show ?thesis by (simp add: ServerKeyExchange_def toy_public p d)
qed

lemma sample_cat_args: "inv_ArgString sample_cat 0 = Inr ''/f''" "inv_ArgBytes sample_cat 1 = Inr (replicate 32 CHR ''a'')"
  by (simp_all add: sample_cat_def sample_inv_def)

definition sample_nonce :: "bytes result" where
  "sample_nonce = Inr (replicate 12 CHR ''n'')"


text \<open>
  When reading the file fails after at least one chunk, the
  device answers the call with an error, and the client returns what came so far without one.
\<close>

theorem cat_cut_short_unnoticed:
  assumes cr: "crypto_ok cr" and keys: "CreateX25519KeyPair cr rc = Inr (pub, priv)" "length priv = 32" "length pub = 32"
      "ServerKeyExchange cr rnd pub = Inr (spk, sk, rk)"
    and iv: "inv_ArgString iv 0 = Inr path" "inv_ArgBytes iv 1 = Inr pub"
    and found: "resolveAndStatPath home m path = Inr (p, nd)" "\<not> is_dir nd" "stat_at True ''open'' m p = Inr x"
    and fails: "bs \<noteq> []" "[] \<notin> set bs" "e \<noteq> ErrEOF" and "nonce_drawn nonce"
    and answer: "answer = handleFileCat cr rnd None home m (map (chunk_round nonce) bs @ [last_round e]) iv"
  shows "snd answer = Some (operation_failed e) \<and> streamCat cr priv answer = Some (concat bs, None)"
proof
  have bs: "\<forall>b \<in> set bs. b \<noteq> []" using fails(2) by auto
  show "streamCat cr priv answer = Some (concat bs, None)"
    unfolding answer cat_call [OF cr keys iv found bs assms(14)] using fails(1) by simp
  have "length sk = 32" using keys(4) cr DeriveKeyHKDF_length unfolding ServerKeyExchange_Inr crypto_ok_def by blast
  from cat_loop_chunks [OF _ this assms(14) bs, of cr e] cr
  obtain ds where "cat_loop cr sk (map (chunk_round nonce) bs @ [last_round e]) = (ds, Some (operation_failed e))"
    using fails(3) by (auto simp: crypto_ok_def)
  then show "snd answer = Some (operation_failed e)"
    using iv found keys(3,4) by (simp add: answer handleFileCat_def serverStreamKeyExchange_def Let_def)
qed

theorem cat_cut_short_unnoticed_witness:
  "\<exists>answer. snd answer = Some (operation_failed (Errorf ''i/o error'')) \<and>
     streamCat toy_crypto (replicate 32 CHR ''a'') answer = Some (''hi'', None)"
proof -
  obtain spk sk rk where s: "ServerKeyExchange toy_crypto (Inr (replicate 32 CHR ''a'')) (replicate 32 CHR ''a'') = Inr (spk, sk, rk)"
    using toy_exchange by blast
  have d: "\<not> is_dir \<lparr>kind = Regular ''hi'', perm = 420, mtime = 0\<rparr>" by (simp add: is_dir_def)
  obtain x where x: "stat_at True ''open'' cat_fs ''/f'' = Inr x"
    using cat_fs_file(2) by (auto simp: os_ReadFile_def split: sum.splits)
  have n: "nonce_drawn sample_nonce" by (simp add: sample_nonce_def)
  have ne: "[''hi''] \<noteq> []" "[] \<notin> set [''hi'']" "Errorf ''i/o error'' \<noteq> ErrEOF" "length (replicate 32 CHR ''a'') = 32" by simp_all
  have c: "concat [''hi''] = ''hi''" by simp
  note r = cat_cut_short_unnoticed [OF toy_crypto_ok toy_public ne(4,4) s sample_cat_args cat_fs_file(1) d x ne(1,2,3) n refl, unfolded c]
  show ?thesis by (intro exI) (rule r)
qed

end
