(* ===== verification/ProxyCalls.thy ===== *)
theory ProxyCalls
  imports Prelude
begin

text \<open>
  Progressive calls through the client's daemon (\<open>ProxyCall\<close> and \<open>ProxyCalls\<close> of \<open>src/types.go\<close>; the
  handlers for \<open>exec\<close> and \<open>logs\<close> of \<open>src/helpers.go\<close>). Every message of a caller runs its own
  goroutine, so the handlers are programs of small steps, one for every critical section and
  channel operation, and interleave with each other, with the calls to the device that take the
  messages from the channels, and with the end of callers' sessions.
\<close>

section \<open>State\<close>

datatype progress = Progress "wval list" | Final "wval list"

text \<open>
  A proxy call and its channel (capacity 32) have the same number: these two handlers never switch
  the channel and set no close function.
\<close>

record ProxyCall =
  pc_closed :: bool
  pc_streamID :: u64
  pc_migrateBlobCh :: "bytes option"

record progress_chan =
  ch_queue :: "progress list"
  ch_closed :: bool

text \<open>The handlers: \<open>ProxyProgressiveInvocationHandler\<close> and \<open>ProxyLogsHandler\<close>.\<close>

datatype px_kind = ProxyExec | ProxyLogs

datatype px_next = ThenReturn inv_result | ThenClose "u64 option"

text \<open>
  Where a goroutine is. \<open>Closing\<close> has the caller whose entry is deleted afterwards, if any.
\<close>

datatype px_pc =
    Idle
  | Fetching px_kind invocation
  | Creating px_kind invocation
  | Setup px_kind nat invocation
  | Sending nat progress px_next
  | Pushing nat progress px_next
  | Closing nat "u64 option"
  | ClosingChan nat "u64 option"
  | Deleting u64
  | Leaving u64
  | Returned inv_result
  | Panicked go_panic

text \<open>
  The table, the calls and channels behind its pointers, the counter of log streams, the calls to
  the device that run, by channel, the goroutines. \<open>px_pushed\<close> and \<open>px_pulled\<close> record what went
  into the channels and out of them.
\<close>

record ProxyCalls =
  px_calls :: "(u64, nat) fmap"
  px_objs :: "nat \<Rightarrow> ProxyCall"
  px_chans :: "nat \<Rightarrow> progress_chan"
  px_fresh :: nat
  px_counter :: u64
  px_running :: "nat list"
  px_threads :: "nat \<Rightarrow> px_pc"
  px_pushed :: "nat \<Rightarrow> progress list"
  px_pulled :: "nat \<Rightarrow> progress list"

definition NewProxyCalls :: ProxyCalls where
  "NewProxyCalls = \<lparr>px_calls = fmempty, px_objs = (\<lambda>_. \<lparr>pc_closed = False, pc_streamID = 0, pc_migrateBlobCh = None\<rparr>),
     px_chans = (\<lambda>_. \<lparr>ch_queue = [], ch_closed = False\<rparr>), px_fresh = 0, px_counter = 0, px_running = [],
     px_threads = (\<lambda>_. Idle), px_pushed = (\<lambda>_. []), px_pulled = (\<lambda>_. [])\<rparr>"

definition px_Fetch :: "u64 \<Rightarrow> ProxyCalls \<Rightarrow> nat option" where
  "px_Fetch caller w = fmlookup (px_calls w) caller"

definition px_Store :: "u64 \<Rightarrow> nat \<Rightarrow> ProxyCalls \<Rightarrow> ProxyCalls" where
  "px_Store caller p w = w\<lparr>px_calls := fmupd caller p (px_calls w)\<rparr>"

definition px_Delete :: "u64 \<Rightarrow> ProxyCalls \<Rightarrow> ProxyCalls" where
  "px_Delete caller w = w\<lparr>px_calls := fmdrop caller (px_calls w)\<rparr>"

definition newProxyCall :: "u64 \<Rightarrow> ProxyCalls \<Rightarrow> ProxyCalls \<times> nat" where
  "newProxyCall streamID w = (let p = px_fresh w in
     (w\<lparr>px_objs := (px_objs w)(p := \<lparr>pc_closed = False, pc_streamID = streamID, pc_migrateBlobCh = None\<rparr>),
        px_chans := (px_chans w)(p := \<lparr>ch_queue = [], ch_closed = False\<rparr>), px_fresh := Suc p\<rparr>, p))"

definition setMigrateBlob :: "bytes \<Rightarrow> ProxyCall \<Rightarrow> ProxyCall" where
  "setMigrateBlob blob pc = (if pc_migrateBlobCh pc = None then pc\<lparr>pc_migrateBlobCh := Some blob\<rparr> else pc)"

definition ProxyShellMigrateHandler :: "invocation \<Rightarrow> ProxyCalls \<Rightarrow> ProxyCalls \<times> inv_result" where
  "ProxyShellMigrateHandler iv w = (case inv_ArgBytes iv 0 of
     Inl e \<Rightarrow> (w, invalid_argument e)
   | Inr blob \<Rightarrow> (case px_Fetch (inv_Caller iv) w of
       None \<Rightarrow> (w, InvocationResult [])
     | Some p \<Rightarrow> (w\<lparr>px_objs := (px_objs w)(p := setMigrateBlob blob (px_objs w p))\<rparr>, InvocationResult [])))"

section \<open>The handlers\<close>

definition go_on :: "nat \<Rightarrow> px_next \<Rightarrow> px_pc" where
  "go_on p k = (case k of ThenReturn r \<Rightarrow> Returned r | ThenClose d \<Rightarrow> Closing p d)"

text \<open>The last part of both handlers: the message goes to the device.\<close>

definition message_pc :: "px_kind \<Rightarrow> ProxyCall \<Rightarrow> nat \<Rightarrow> invocation \<Rightarrow> px_pc" where
  "message_pc k pc p iv = (case k of
     ProxyExec \<Rightarrow>
       if length (inv_Args iv) > 2 then Sending p (Progress (drop 1 (inv_Args iv))) (ThenReturn no_result)
       else (case inv_ArgBytes iv 1 of
          Inl e \<Rightarrow> Returned (invalid_argument e)
        | Inr payload \<Rightarrow> Sending p (Progress [VBytes payload]) (ThenReturn no_result))
   | ProxyLogs \<Rightarrow>
       if inv_Args iv = [] then Panicked IndexOutOfRange
       else Sending p (Progress (drop 1 (inv_Args iv) @ [VUInt (pc_streamID pc)])) (ThenReturn no_result))"

definition final_pc :: "px_kind \<Rightarrow> ProxyCall \<Rightarrow> nat \<Rightarrow> invocation \<Rightarrow> px_pc" where
  "final_pc k pc p iv = (case k of
     ProxyExec \<Rightarrow>
       if inv_Args iv = [] then Closing p (Some (inv_Caller iv))
       else Sending p (Final (inv_Args iv)) (ThenClose (Some (inv_Caller iv)))
   | ProxyLogs \<Rightarrow> Sending p (Final [VUInt (pc_streamID pc)]) (ThenClose (Some (inv_Caller iv))))"

definition goto :: "nat \<Rightarrow> px_pc \<Rightarrow> ProxyCalls \<Rightarrow> ProxyCalls" where
  "goto t pc w = w\<lparr>px_threads := (px_threads w)(t := pc)\<rparr>"

text \<open>
  A failed start: the handler for \<open>exec\<close> returns and leaves its entry in the table, the one for
  \<open>logs\<close> deletes it.
\<close>

definition start_failed :: "px_kind \<Rightarrow> u64 \<Rightarrow> inv_result \<Rightarrow> nat \<Rightarrow> ProxyCalls \<Rightarrow> ProxyCalls" where
  "start_failed k caller r t w = (case k of
     ProxyExec \<Rightarrow> goto t (Returned r) w
   | ProxyLogs \<Rightarrow> goto t (Returned r) (px_Delete caller w))"

text \<open>
  One step of goroutine \<open>t\<close>; \<open>None\<close>: it cannot go on. \<open>dev\<close> is what \<open>EnsureDeviceSession\<close> gives.
\<close>

definition px_run :: "unit result \<Rightarrow> nat \<Rightarrow> ProxyCalls \<Rightarrow> ProxyCalls option" where
  "px_run dev t w = (case px_threads w t of
     Fetching k iv \<Rightarrow> Some (case px_Fetch (inv_Caller iv) w of
        Some p \<Rightarrow> goto t (if inv_Progress iv then message_pc k (px_objs w p) p iv else final_pc k (px_objs w p) p iv) w
      | None \<Rightarrow> goto t (if inv_Progress iv then Creating k iv else Returned (InvocationResult [])) w)
   | Creating k iv \<Rightarrow>
       (let w0 = (if k = ProxyLogs then w\<lparr>px_counter := px_counter w + 1\<rparr> else w);
            (w1, p) = newProxyCall (if k = ProxyLogs then px_counter w0 else 0) w0
        in Some (goto t (Setup k p iv) (px_Store (inv_Caller iv) p w1)))
   | Setup k p iv \<Rightarrow> (case inv_ArgString iv 0 of
        Inl e \<Rightarrow> Some (start_failed k (inv_Caller iv) (invalid_argument e) t w)
      | Inr realm \<Rightarrow> (case dev of
          Inl e \<Rightarrow> Some (start_failed k (inv_Caller iv) (operation_failed e) t w)
        | Inr _ \<Rightarrow> Some (goto t (message_pc k (px_objs w p) p iv) (w\<lparr>px_running := p # px_running w\<rparr>))))
   | Sending p m k \<Rightarrow> Some (goto t (if pc_closed (px_objs w p) then go_on p k else Pushing p m k) w)
   | Pushing p m k \<Rightarrow>
       if ch_closed (px_chans w p) then Some (goto t (Panicked SendOnClosedChannel) w)
       else if length (ch_queue (px_chans w p)) \<ge> 32 then None
       else Some (goto t (go_on p k)
         (w\<lparr>px_chans := (px_chans w)(p := (px_chans w p)\<lparr>ch_queue := ch_queue (px_chans w p) @ [m]\<rparr>),
            px_pushed := (px_pushed w)(p := px_pushed w p @ [m])\<rparr>))
   | Closing p d \<Rightarrow>
       if pc_closed (px_objs w p) then Some (goto t (case d of None \<Rightarrow> Returned (InvocationResult []) | Some caller \<Rightarrow> Deleting caller) w)
       else Some (goto t (ClosingChan p d) (w\<lparr>px_objs := (px_objs w)(p := (px_objs w p)\<lparr>pc_closed := True\<rparr>)\<rparr>))
   | ClosingChan p d \<Rightarrow>
       if ch_closed (px_chans w p) then Some (goto t (Panicked CloseOfClosedChannel) w)
       else Some (goto t (case d of None \<Rightarrow> Returned (InvocationResult []) | Some caller \<Rightarrow> Deleting caller)
         (w\<lparr>px_chans := (px_chans w)(p := (px_chans w p)\<lparr>ch_closed := True\<rparr>)\<rparr>))
   | Deleting caller \<Rightarrow> Some (goto t (Returned (InvocationResult [])) (px_Delete caller w))
   | Leaving caller \<Rightarrow> Some (goto t (case px_Fetch caller w of None \<Rightarrow> Returned (InvocationResult []) | Some p \<Rightarrow> Closing p None)
        (px_Delete caller w))
   | _ \<Rightarrow> None)"

text \<open>
  The progress sender of a call to the device: it takes the next message, or ends the call when
  the channel is closed and empty. A final message ends it too.
\<close>

definition px_pull :: "nat \<Rightarrow> ProxyCalls \<Rightarrow> ProxyCalls option" where
  "px_pull p w = (case ch_queue (px_chans w p) of
     m # rest \<Rightarrow> Some (w\<lparr>px_chans := (px_chans w)(p := (px_chans w p)\<lparr>ch_queue := rest\<rparr>),
        px_pulled := (px_pulled w)(p := px_pulled w p @ [m]),
        px_running := (case m of Progress _ \<Rightarrow> px_running w | Final _ \<Rightarrow> removeAll p (px_running w))\<rparr>)
   | [] \<Rightarrow> if ch_closed (px_chans w p) then Some (w\<lparr>px_running := removeAll p (px_running w)\<rparr>) else None)"

text \<open>
  New goroutines: a message of a caller, and the end of a caller's session (\<open>DeleteAndClose\<close>).
  \<open>px_ends\<close>: a call to the device ends on the device's side, with a result or an error.
\<close>

inductive px_step :: "ProxyCalls \<Rightarrow> ProxyCalls \<Rightarrow> bool" where
  px_call: "px_threads w t = Idle \<Longrightarrow> px_step w (goto t (Fetching k iv) w)"
| px_leave: "px_threads w t = Idle \<Longrightarrow> px_step w (goto t (Leaving caller) w)"
| px_runs: "px_run dev t w = Some w' \<Longrightarrow> px_step w w'"
| px_pulls: "p \<in> set (px_running w) \<Longrightarrow> px_pull p w = Some w' \<Longrightarrow> px_step w w'"
| px_ends: "px_step w (w\<lparr>px_running := removeAll p (px_running w)\<rparr>)"
| px_migrates: "px_step w (fst (ProxyShellMigrateHandler iv w))"

inductive px_reachable :: "ProxyCalls \<Rightarrow> bool" where
  px_start: "px_reachable NewProxyCalls"
| px_more: "px_reachable w \<Longrightarrow> px_step w w' \<Longrightarrow> px_reachable w'"

section \<open>The invariant\<close>

text \<open>The call a goroutine holds a pointer to.\<close>

fun px_ref :: "px_pc \<Rightarrow> nat option" where
  "px_ref (Setup k p iv) = Some p"
| "px_ref (Sending p m k) = Some p"
| "px_ref (Pushing p m k) = Some p"
| "px_ref (Closing p d) = Some p"
| "px_ref (ClosingChan p d) = Some p"
| "px_ref _ = None"

text \<open>
  A channel is closed only after its call was marked closed, by the one goroutine that marked it;
  what was pulled and what is queued is what was pushed, in order.
\<close>

definition px_inv :: "ProxyCalls \<Rightarrow> bool" where
  "px_inv w \<longleftrightarrow>
     (\<forall>t p d. px_threads w t = ClosingChan p d \<longrightarrow> pc_closed (px_objs w p) \<and> \<not> ch_closed (px_chans w p) \<and>
        (\<forall>t' d'. px_threads w t' = ClosingChan p d' \<longrightarrow> t' = t)) \<and>
     (\<forall>p. ch_closed (px_chans w p) \<longrightarrow> pc_closed (px_objs w p)) \<and>
     (\<forall>p. px_pushed w p = px_pulled w p @ ch_queue (px_chans w p) \<and> length (ch_queue (px_chans w p)) \<le> 32) \<and>
     (\<forall>p. px_fresh w \<le> p \<longrightarrow> px_pushed w p = []) \<and>
     (\<forall>t p. px_ref (px_threads w t) = Some p \<longrightarrow> p < px_fresh w) \<and>
     (\<forall>c p. fmlookup (px_calls w) c = Some p \<longrightarrow> p < px_fresh w) \<and>
     (\<forall>t. px_threads w t \<noteq> Panicked CloseOfClosedChannel)"

lemma px_invD:
  assumes "px_inv w"
  shows "px_threads w t = ClosingChan p d \<Longrightarrow> pc_closed (px_objs w p)"
    "px_threads w t = ClosingChan p d \<Longrightarrow> \<not> ch_closed (px_chans w p)"
    "px_threads w t = ClosingChan p d \<Longrightarrow> px_threads w t' = ClosingChan p d' \<Longrightarrow> t' = t"
    "ch_closed (px_chans w p) \<Longrightarrow> pc_closed (px_objs w p)"
    "px_pushed w p = px_pulled w p @ ch_queue (px_chans w p)" "length (ch_queue (px_chans w p)) \<le> 32"
    "px_fresh w \<le> p \<Longrightarrow> px_pushed w p = []"
    "px_ref (px_threads w t) = Some p \<Longrightarrow> p < px_fresh w"
    "fmlookup (px_calls w) c = Some p \<Longrightarrow> p < px_fresh w"
    "px_threads w t \<noteq> Panicked CloseOfClosedChannel"
  using assms unfolding px_inv_def by blast+

lemma px_invI:
  assumes "\<And>t p d. px_threads w t = ClosingChan p d \<Longrightarrow> pc_closed (px_objs w p) \<and> \<not> ch_closed (px_chans w p)"
    "\<And>t p d t' d'. px_threads w t = ClosingChan p d \<Longrightarrow> px_threads w t' = ClosingChan p d' \<Longrightarrow> t' = t"
    "\<And>p. ch_closed (px_chans w p) \<Longrightarrow> pc_closed (px_objs w p)"
    "\<And>p. px_pushed w p = px_pulled w p @ ch_queue (px_chans w p) \<and> length (ch_queue (px_chans w p)) \<le> 32"
    "\<And>p. px_fresh w \<le> p \<Longrightarrow> px_pushed w p = []"
    "\<And>t p. px_ref (px_threads w t) = Some p \<Longrightarrow> p < px_fresh w"
    "\<And>c p. fmlookup (px_calls w) c = Some p \<Longrightarrow> p < px_fresh w"
    "\<And>t. px_threads w t \<noteq> Panicked CloseOfClosedChannel"
  shows "px_inv w"
  using assms unfolding px_inv_def by blast

lemma goto_simps [simp]:
  "px_threads (goto t pc w) t' = (if t' = t then pc else px_threads w t')"
  "px_calls (goto t pc w) = px_calls w" "px_objs (goto t pc w) = px_objs w" "px_chans (goto t pc w) = px_chans w"
  "px_fresh (goto t pc w) = px_fresh w" "px_pushed (goto t pc w) = px_pushed w" "px_pulled (goto t pc w) = px_pulled w"
  "px_running (goto t pc w) = px_running w" "px_counter (goto t pc w) = px_counter w"
  by (simp_all add: goto_def)

text \<open>A goroutine moves to a place where it closes nothing.\<close>

definition harmless :: "nat \<Rightarrow> px_pc \<Rightarrow> bool" where
  "harmless n pc \<longleftrightarrow> (\<forall>p d. pc \<noteq> ClosingChan p d) \<and> pc \<noteq> Panicked CloseOfClosedChannel \<and> (\<forall>p. px_ref pc = Some p \<longrightarrow> p < n)"

lemma goto_inv:
  assumes i: "px_inv w" and h: "harmless (px_fresh w) pc"
  shows "px_inv (goto t pc w)"
proof (rule px_invI)
  fix s p d assume "px_threads (goto t pc w) s = ClosingChan p d"
  then have s: "px_threads w s = ClosingChan p d" using h by (auto simp: harmless_def split: if_splits)
  show "pc_closed (px_objs (goto t pc w) p) \<and> \<not> ch_closed (px_chans (goto t pc w) p)" using px_invD(1,2) [OF i s] by simp
  fix s' d' assume "px_threads (goto t pc w) s' = ClosingChan p d'"
  then have "px_threads w s' = ClosingChan p d'" using h by (auto simp: harmless_def split: if_splits)
  then show "s' = s" by (rule px_invD(3) [OF i s])
next
  fix s p assume "px_ref (px_threads (goto t pc w) s) = Some p"
  then show "p < px_fresh (goto t pc w)" using h px_invD(8) [OF i, of s p] by (auto simp: harmless_def split: if_splits)
next
  fix s show "px_threads (goto t pc w) s \<noteq> Panicked CloseOfClosedChannel"
    using h px_invD(10) [OF i, of s] by (auto simp: harmless_def)
qed (use px_invD(4-7,9) [OF i] in auto)

lemma px_inv_calls:
  assumes "px_inv w" "\<And>c p. fmlookup m c = Some p \<Longrightarrow> p < px_fresh w"
  shows "px_inv (w\<lparr>px_calls := m\<rparr>)"
  by (rule px_invI) (use px_invD [OF assms(1)] assms(2) in simp_all)

lemma px_inv_counters: "px_inv w \<Longrightarrow> px_inv (w\<lparr>px_counter := n\<rparr>)" "px_inv w \<Longrightarrow> px_inv (w\<lparr>px_running := l\<rparr>)"
  by (rule px_invI; use px_invD in simp)+

lemma px_Delete_inv: "px_inv w \<Longrightarrow> px_inv (px_Delete c w)"
  unfolding px_Delete_def by (rule px_inv_calls) (auto dest: px_invD(9) split: if_splits)

lemma newProxyCall_inv:
  assumes i: "px_inv w"
  shows "px_inv (fst (newProxyCall s w))" "px_fresh (fst (newProxyCall s w)) = Suc (px_fresh w)"
    "snd (newProxyCall s w) = px_fresh w" "px_calls (fst (newProxyCall s w)) = px_calls w"
proof -
  let ?p = "px_fresh w"
  have none: "q \<noteq> ?p" if "px_threads w t = ClosingChan q d" for t q d using px_invD(8) [OF i, of t q] that by auto
  have push: "px_pushed w ?p = []" "px_pulled w ?p = []" using px_invD(5,7) [OF i, of ?p] by simp_all
  show "px_inv (fst (newProxyCall s w))"
  proof (rule px_invI)
    fix t q d assume t: "px_threads (fst (newProxyCall s w)) t = ClosingChan q d"
    then have q: "px_threads w t = ClosingChan q d" by (simp add: newProxyCall_def Let_def)
    with none [OF q] px_invD(1,2) [OF i q] show "pc_closed (px_objs (fst (newProxyCall s w)) q) \<and> \<not> ch_closed (px_chans (fst (newProxyCall s w)) q)"
      by (simp add: newProxyCall_def Let_def)
    fix t' d' assume "px_threads (fst (newProxyCall s w)) t' = ClosingChan q d'"
    then have "px_threads w t' = ClosingChan q d'" by (simp add: newProxyCall_def Let_def)
    then show "t' = t" by (rule px_invD(3) [OF i q])
  next
    fix t q assume "px_ref (px_threads (fst (newProxyCall s w)) t) = Some q"
    then show "q < px_fresh (fst (newProxyCall s w))" using px_invD(8) [OF i, of t q] by (simp add: newProxyCall_def Let_def)
  next
    fix c q assume "fmlookup (px_calls (fst (newProxyCall s w))) c = Some q"
    then show "q < px_fresh (fst (newProxyCall s w))" using px_invD(9) [OF i, of c q] by (simp add: newProxyCall_def Let_def)
  qed (use px_invD(4-7,10) [OF i] push in \<open>auto simp: newProxyCall_def Let_def\<close>)
qed (simp_all add: newProxyCall_def Let_def)

text \<open>A message goes into a channel, or out of it.\<close>

lemma px_inv_queue:
  assumes i: "px_inv w" and c: "ch_closed x = ch_closed (px_chans w p)" and q: "pushed = pulled @ ch_queue x" "length (ch_queue x) \<le> 32"
    and f: "px_fresh w \<le> p \<Longrightarrow> pushed = []"
  shows "px_inv (w\<lparr>px_chans := (px_chans w)(p := x), px_pushed := (px_pushed w)(p := pushed), px_pulled := (px_pulled w)(p := pulled)\<rparr>)"
    (is "px_inv ?w")
proof (rule px_invI)
  fix t q d assume "px_threads ?w t = ClosingChan q d"
  then have t: "px_threads w t = ClosingChan q d" by simp
  with px_invD(1,2) [OF i t] c show "pc_closed (px_objs ?w q) \<and> \<not> ch_closed (px_chans ?w q)" by (cases "q = p") simp_all
  fix t' d' assume "px_threads ?w t' = ClosingChan q d'"
  then have "px_threads w t' = ClosingChan q d'" by simp
  then show "t' = t" by (rule px_invD(3) [OF i t])
qed (use px_invD(4-10) [OF i] c q f in \<open>auto split: if_splits\<close>)

lemma push_inv:
  assumes i: "px_inv w" and p: "p < px_fresh w" "length (ch_queue (px_chans w p)) < 32"
  shows "px_inv (w\<lparr>px_chans := (px_chans w)(p := (px_chans w p)\<lparr>ch_queue := ch_queue (px_chans w p) @ [m]\<rparr>),
    px_pushed := (px_pushed w)(p := px_pushed w p @ [m])\<rparr>)"
  using px_inv_queue [OF i, of "(px_chans w p)\<lparr>ch_queue := ch_queue (px_chans w p) @ [m]\<rparr>" p "px_pushed w p @ [m]" "px_pulled w p"] p
    px_invD(5) [OF i, of p] by simp

lemma pull_inv:
  assumes i: "px_inv w" and q: "ch_queue (px_chans w p) = m # rest"
  shows "px_inv (w\<lparr>px_chans := (px_chans w)(p := (px_chans w p)\<lparr>ch_queue := rest\<rparr>), px_pulled := (px_pulled w)(p := px_pulled w p @ [m])\<rparr>)"
proof -
  have "px_inv (w\<lparr>px_chans := (px_chans w)(p := (px_chans w p)\<lparr>ch_queue := rest\<rparr>), px_pushed := (px_pushed w)(p := px_pushed w p),
      px_pulled := (px_pulled w)(p := px_pulled w p @ [m])\<rparr>)"
    by (rule px_inv_queue [OF i]) (use q px_invD(5,6,7) [OF i, of p] in simp_all)
  then show ?thesis by simp
qed

text \<open>A call is marked closed, and its channel closed.\<close>

lemma mark_inv:
  assumes i: "px_inv w" and t: "px_threads w t = Closing p d" "\<not> pc_closed (px_objs w p)"
  shows "px_inv (goto t (ClosingChan p d) (w\<lparr>px_objs := (px_objs w)(p := (px_objs w p)\<lparr>pc_closed := True\<rparr>)\<rparr>))" (is "px_inv ?w")
proof -
  have none: "px_threads w s \<noteq> ClosingChan p d'" for s d' using px_invD(1) [OF i, of s p d'] t(2) by blast
  have lt: "p < px_fresh w" using px_invD(8) [OF i, of t p] t(1) by simp
  have open_chan: "\<not> ch_closed (px_chans w p)" using px_invD(4) [OF i, of p] t(2) by blast
  show ?thesis
  proof (rule px_invI)
    fix s q e assume s: "px_threads ?w s = ClosingChan q e"
    show "pc_closed (px_objs ?w q) \<and> \<not> ch_closed (px_chans ?w q)"
      using s px_invD(1,2) [OF i, of s q e] open_chan by (auto split: if_splits)
    fix s' e' assume s': "px_threads ?w s' = ClosingChan q e'"
    show "s' = s" using s s' none px_invD(3) [OF i, of s q e s' e'] by (auto split: if_splits)
  next
    fix s q assume "px_ref (px_threads ?w s) = Some q"
    then show "q < px_fresh ?w" using lt px_invD(8) [OF i, of s q] by (auto split: if_splits)
  qed (use px_invD(4-7,9,10) [OF i] in \<open>auto split: if_splits\<close>)
qed

lemma close_inv:
  assumes i: "px_inv w" and t: "px_threads w t = ClosingChan p d" and h: "harmless (px_fresh w) pc"
  shows "px_inv (goto t pc (w\<lparr>px_chans := (px_chans w)(p := (px_chans w p)\<lparr>ch_closed := True\<rparr>)\<rparr>))" (is "px_inv ?w")
proof (rule px_invI)
  fix s q e assume s: "px_threads ?w s = ClosingChan q e"
  then have s1: "px_threads w s = ClosingChan q e" "s \<noteq> t" using h by (auto simp: harmless_def split: if_splits)
  then have "q \<noteq> p" using px_invD(3) [OF i t, of s e] by blast
  with px_invD(1,2) [OF i s1(1)] show "pc_closed (px_objs ?w q) \<and> \<not> ch_closed (px_chans ?w q)" by simp
  fix s' e' assume "px_threads ?w s' = ClosingChan q e'"
  then have "px_threads w s' = ClosingChan q e'" using h by (auto simp: harmless_def split: if_splits)
  then show "s' = s" by (rule px_invD(3) [OF i s1(1)])
next
  fix s q assume "px_ref (px_threads ?w s) = Some q"
  then show "q < px_fresh ?w" using h px_invD(8) [OF i, of s q] by (auto simp: harmless_def split: if_splits)
next
  fix s show "px_threads ?w s \<noteq> Panicked CloseOfClosedChannel" using h px_invD(10) [OF i, of s] by (auto simp: harmless_def)
qed (use px_invD(1) [OF i t] px_invD(4-7,9) [OF i] in \<open>auto split: if_splits\<close>)


lemma harmless_simps [simp]:
  "harmless n Idle" "harmless n (Fetching k iv)" "harmless n (Creating k iv)" "harmless n (Deleting c)" "harmless n (Leaving c)"
  "harmless n (Returned r)" "harmless n (Panicked x) \<longleftrightarrow> x \<noteq> CloseOfClosedChannel" "harmless n (Setup k p iv) \<longleftrightarrow> p < n"
  "harmless n (Sending p m x2) \<longleftrightarrow> p < n" "harmless n (Pushing p m x2) \<longleftrightarrow> p < n" "harmless n (Closing p d) \<longleftrightarrow> p < n"
  by (auto simp: harmless_def)

lemma harmless_go_on: "p < n \<Longrightarrow> harmless n (go_on p k)"
  by (cases k) (simp_all add: go_on_def)

lemma harmless_message: "p < n \<Longrightarrow> harmless n (message_pc k pc p iv)"
  by (simp add: message_pc_def split: px_kind.split sum.split)

lemma harmless_final: "p < n \<Longrightarrow> harmless n (final_pc k pc p iv)"
  by (simp add: final_pc_def split: px_kind.split)

lemma harmless_done: "harmless n (case d of None \<Rightarrow> Returned r | Some c \<Rightarrow> Deleting c)"
  by (simp split: option.split)

lemma start_failed_inv: "px_inv w \<Longrightarrow> px_inv (start_failed k c r t w)"
  by (simp add: start_failed_def goto_inv px_Delete_inv split: px_kind.split)

lemma px_run_inv:
  assumes i: "px_inv w" and r: "px_run dev t w = Some w'"
  shows "px_inv w'"
proof (cases "px_threads w t")
  case (Fetching k iv)
  show ?thesis
  proof (cases "px_Fetch (inv_Caller iv) w")
    case None
    have "w' = goto t (if inv_Progress iv then Creating k iv else Returned (InvocationResult [])) w"
      using r None by (simp add: px_run_def Fetching)
    then show ?thesis using goto_inv [OF i] by simp
  next
    case (Some p)
    then have "p < px_fresh w" using px_invD(9) [OF i] by (simp add: px_Fetch_def)
    then have "harmless (px_fresh w) (if inv_Progress iv then message_pc k (px_objs w p) p iv else final_pc k (px_objs w p) p iv)"
      by (simp add: harmless_message harmless_final)
    from goto_inv [OF i this, of t] r Some show ?thesis by (auto simp: px_run_def Fetching)
  qed
next
  case (Creating k iv)
  define w0 where "w0 = (if k = ProxyLogs then w\<lparr>px_counter := px_counter w + 1\<rparr> else w)"
  have i0: "px_inv w0" using px_inv_counters(1) [OF i] i by (simp add: w0_def)
  define s where "s = (if k = ProxyLogs then px_counter w0 else 0)"
  note n = newProxyCall_inv [OF i0, of s]
  let ?p = "px_fresh w0" and ?w1 = "fst (newProxyCall s w0)"
  have w': "w' = goto t (Setup k ?p iv) (px_Store (inv_Caller iv) ?p ?w1)"
    using r n(3) by (simp add: px_run_def Creating Let_def w0_def [symmetric] s_def [symmetric] split: prod.splits)
  have "px_inv (px_Store (inv_Caller iv) ?p ?w1)" unfolding px_Store_def
    by (rule px_inv_calls [OF n(1)]) (use n(2,4) px_invD(9) [OF i0] in \<open>auto split: if_splits intro: less_SucI\<close>)
  then show ?thesis unfolding w' by (rule goto_inv) (simp add: px_Store_def n(2))
next
  case (Setup k p iv)
  have p: "p < px_fresh w" using px_invD(8) [OF i, of t p] Setup by simp
  have "px_inv (goto t (message_pc k (px_objs w p) p iv) (w\<lparr>px_running := p # px_running w\<rparr>))"
    by (rule goto_inv) (simp_all add: px_inv_counters(2) [OF i] harmless_message p)
  with r start_failed_inv [OF i] show ?thesis by (auto simp: px_run_def Setup split: sum.splits)
next
  case (Sending p m k)
  have p: "p < px_fresh w" using px_invD(8) [OF i, of t p] Sending by simp
  have "harmless (px_fresh w) (if pc_closed (px_objs w p) then go_on p k else Pushing p m k)" using p by (simp add: harmless_go_on)
  from goto_inv [OF i this, of t] r show ?thesis by (simp add: px_run_def Sending)
next
  case (Pushing p m k)
  have p: "p < px_fresh w" using px_invD(8) [OF i, of t p] Pushing by simp
  show ?thesis
  proof (cases "ch_closed (px_chans w p) \<or> length (ch_queue (px_chans w p)) \<ge> 32")
    case True
    with r goto_inv [OF i, of "Panicked SendOnClosedChannel" t] show ?thesis by (simp add: px_run_def Pushing split: if_splits)
  next
    case False
    have "px_inv (w\<lparr>px_chans := (px_chans w)(p := (px_chans w p)\<lparr>ch_queue := ch_queue (px_chans w p) @ [m]\<rparr>),
        px_pushed := (px_pushed w)(p := px_pushed w p @ [m])\<rparr>)" (is "px_inv ?w")
      by (rule push_inv [OF i p]) (use False in simp)
    moreover have "w' = goto t (go_on p k) ?w" using r False by (simp add: px_run_def Pushing)
    ultimately show ?thesis using goto_inv [of ?w "go_on p k" t] harmless_go_on p by simp
  qed
next
  case (Closing p d)
  show ?thesis
  proof (cases "pc_closed (px_objs w p)")
    case True
    have "w' = goto t (case d of None \<Rightarrow> Returned (InvocationResult []) | Some c \<Rightarrow> Deleting c) w"
      using r True by (simp add: px_run_def Closing)
    then show ?thesis using goto_inv [OF i harmless_done, of t "InvocationResult []" d] by simp
  next
    case False
    from mark_inv [OF i Closing False] r False show ?thesis by (simp add: px_run_def Closing)
  qed
next
  case (ClosingChan p d)
  have "\<not> ch_closed (px_chans w p)" by (rule px_invD(2) [OF i ClosingChan])
  with close_inv [OF i ClosingChan harmless_done, of "InvocationResult []" d] r show ?thesis by (simp add: px_run_def ClosingChan)
next
  case (Deleting c)
  from goto_inv [OF px_Delete_inv [OF i], of c "Returned (InvocationResult [])" t] r show ?thesis by (simp add: px_run_def Deleting)
next
  case (Leaving c)
  have "harmless (px_fresh w) (case px_Fetch c w of None \<Rightarrow> Returned (InvocationResult []) | Some p \<Rightarrow> Closing p None)"
    using px_invD(9) [OF i, of c] by (simp add: px_Fetch_def split: option.split)
  then have "px_inv (goto t (case px_Fetch c w of None \<Rightarrow> Returned (InvocationResult []) | Some p \<Rightarrow> Closing p None) (px_Delete c w))"
    by (intro goto_inv [OF px_Delete_inv [OF i]]) (simp add: px_Delete_def)
  with r show ?thesis by (simp add: px_run_def Leaving)
qed (use r in \<open>simp_all add: px_run_def\<close>)

lemma px_pull_inv: "px_inv w \<Longrightarrow> px_pull p w = Some w' \<Longrightarrow> px_inv w'"
proof -
  assume i: "px_inv w" and r: "px_pull p w = Some w'"
  show ?thesis
  proof (cases "ch_queue (px_chans w p)")
    case Nil
    with r px_inv_counters(2) [OF i] show ?thesis by (auto simp: px_pull_def split: if_splits)
  next
    case (Cons m rest)
    from px_inv_counters(2) [OF pull_inv [OF i Cons], of "case m of Progress _ \<Rightarrow> px_running w | Final _ \<Rightarrow> removeAll p (px_running w)"] r Cons
    show ?thesis by (simp add: px_pull_def)
  qed
qed

lemma px_migrate_inv: "px_inv w \<Longrightarrow> px_inv (fst (ProxyShellMigrateHandler iv w))"
proof -
  assume i: "px_inv w"
  have "px_inv (w\<lparr>px_objs := (px_objs w)(p := setMigrateBlob b (px_objs w p))\<rparr>)" (is "px_inv ?w") for p b
  proof (rule px_invI)
    have c: "pc_closed (px_objs ?w q) = pc_closed (px_objs w q)" for q by (simp add: setMigrateBlob_def)
    fix t q d assume "px_threads ?w t = ClosingChan q d"
    then have t: "px_threads w t = ClosingChan q d" by simp
    then show "pc_closed (px_objs ?w q) \<and> \<not> ch_closed (px_chans ?w q)" using px_invD(1,2) [OF i t] unfolding c by simp
    fix t' d' assume "px_threads ?w t' = ClosingChan q d'"
    then have "px_threads w t' = ClosingChan q d'" by simp
    then show "t' = t" by (rule px_invD(3) [OF i t])
  next
    fix q assume "ch_closed (px_chans ?w q)"
    then show "pc_closed (px_objs ?w q)" using px_invD(4) [OF i, of q] by (cases "q = p") (simp_all add: setMigrateBlob_def)
  qed (use px_invD(5-10) [OF i] in auto)
  with i show ?thesis by (simp add: ProxyShellMigrateHandler_def split: sum.split option.split)
qed

lemma px_reachable_inv: "px_reachable w \<Longrightarrow> px_inv w"
proof (induction rule: px_reachable.induct)
  case px_start
  show ?case by (simp add: px_inv_def NewProxyCalls_def)
next
  case (px_more w w')
  from px_more.hyps(2) show ?case
    by cases (auto intro: goto_inv [OF px_more.IH] px_run_inv [OF px_more.IH] px_pull_inv [OF px_more.IH] px_migrate_inv [OF px_more.IH]
      px_inv_counters(2) [OF px_more.IH])
qed


section \<open>Properties\<close>

text \<open>
  However the goroutines of a daemon interleave, no channel of a proxy
  call is closed twice; the messages a call to the device takes are those pushed into its channel,
  in order and without loss, with at most 32 of them waiting.
\<close>

theorem proxy_calls_in_order:
  assumes "px_reachable w"
  shows "px_threads w t \<noteq> Panicked CloseOfClosedChannel \<and>
    px_pushed w p = px_pulled w p @ ch_queue (px_chans w p) \<and> length (ch_queue (px_chans w p)) \<le> 32 \<and>
    (ch_closed (px_chans w p) \<longrightarrow> pc_closed (px_objs w p))"
  using px_invD(4,5,6,10) [OF px_reachable_inv [OF assms]] by blast

text \<open>The steps of one goroutine, one after the other.\<close>

fun px_steps :: "nat \<Rightarrow> unit result \<Rightarrow> nat \<Rightarrow> ProxyCalls \<Rightarrow> ProxyCalls option" where
  "px_steps 0 dev t w = Some w"
| "px_steps (Suc n) dev t w = (case px_run dev t w of None \<Rightarrow> None | Some w' \<Rightarrow> px_steps n dev t w')"

lemma px_steps_reachable: "px_steps n dev t w = Some w' \<Longrightarrow> px_reachable w \<Longrightarrow> px_reachable w'"
  by (induction n arbitrary: w) (auto split: option.splits dest: px_runs intro: px_more)

lemma px_steps_last: "px_steps n dev t w = Some w' \<Longrightarrow> px_steps (Suc n) dev t w = px_run dev t w'"
proof (induction n arbitrary: w)
  case 0 then show ?case by (simp split: option.splits)
next
  case (Suc n)
  from Suc.prems obtain v where v: "px_run dev t w = Some v" "px_steps n dev t v = Some w'" by (auto split: option.splits)
  from Suc.IH [OF v(2)] v(1) show ?case by (subst px_steps.simps(2)) simp
qed

definition sample_exec :: invocation where
  "sample_exec = sample_inv 1 7 ''u'' True [VStr ''realm'', VBytes ''ls'']"

definition sample_px :: ProxyCalls where
  "sample_px = the (px_steps 5 (Inr ()) 0 (goto 0 (Fetching ProxyExec sample_exec) NewProxyCalls))"

lemma sample_px_steps:
  "\<exists>w. px_steps 5 (Inr ()) 0 (goto 0 (Fetching ProxyExec sample_exec) NewProxyCalls) = Some w \<and>
     px_pushed w 0 = [Progress [VBytes ''ls'']] \<and> px_threads w 0 = Returned no_result"
  by (simp add: numeral_nat px_run_def NewProxyCalls_def px_Fetch_def newProxyCall_def px_Store_def message_pc_def sample_exec_def
      sample_inv_def go_on_def Let_def goto_def)

theorem proxy_calls_in_order_witness:
  "px_pushed sample_px 0 = [Progress [VBytes ''ls'']] \<and> px_pulled sample_px 0 @ ch_queue (px_chans sample_px 0) = [Progress [VBytes ''ls'']]"
proof -
  obtain w where w: "px_steps 5 (Inr ()) 0 (goto 0 (Fetching ProxyExec sample_exec) NewProxyCalls) = Some w"
    "px_pushed w 0 = [Progress [VBytes ''ls'']]" using sample_px_steps by blast
  then have s: "sample_px = w" by (simp add: sample_px_def)
  have "px_reachable (goto 0 (Fetching ProxyExec sample_exec) NewProxyCalls)"
    by (rule px_more [OF px_start px_call]) (simp add: NewProxyCalls_def)
  from proxy_calls_in_order [OF px_steps_reachable [OF w(1) this], of 0 0] w(2) show ?thesis by (simp add: s)
qed

text \<open>
  When the first message of an \<open>exec\<close> call finds no device session,
  the call stays in the table with nobody to take its messages: the next 32 messages of the
  caller are accepted, and every further one blocks.
\<close>

theorem proxy_call_left_dead:
  assumes "px_threads w t = Setup ProxyExec p iv" and "inv_ArgString iv 0 = Inr realm"
    and "px_Fetch (inv_Caller iv) w = Some p" and "\<not> pc_closed (px_objs w p)" "\<not> ch_closed (px_chans w p)" "p \<notin> set (px_running w)"
    and later: "px_threads w t2 = Fetching ProxyExec iv2" "t2 \<noteq> t" "inv_Caller iv2 = inv_Caller iv" "inv_Progress iv2"
      "length (inv_Args iv2) \<le> 2" "inv_ArgBytes iv2 1 = Inr payload"
  shows "\<exists>w1. px_run (Inl e) t w = Some w1 \<and> px_threads w1 t = Returned (operation_failed e) \<and> p \<notin> set (px_running w1) \<and>
    (if length (ch_queue (px_chans w p)) < 32
     then \<exists>w2. px_steps 3 dev t2 w1 = Some w2 \<and> px_threads w2 t2 = Returned no_result \<and> p \<notin> set (px_running w2) \<and>
       px_Fetch (inv_Caller iv) w2 = Some p
     else \<exists>w2. px_steps 2 dev t2 w1 = Some w2 \<and> px_run dev t2 w2 = None)"
proof -
  define w1 where "w1 = goto t (Returned (operation_failed e)) w"
  have r: "px_run (Inl e) t w = Some w1" using assms(1,2) by (simp add: px_run_def start_failed_def w1_def)
  define w2 where "w2 = goto t2 (Pushing p (Progress [VBytes payload]) (ThenReturn no_result))
    (goto t2 (Sending p (Progress [VBytes payload]) (ThenReturn no_result)) w1)"
  have same: "px_objs w2 = px_objs w" "px_chans w2 = px_chans w" "px_calls w2 = px_calls w" "px_running w2 = px_running w"
    "px_threads w2 t2 = Pushing p (Progress [VBytes payload]) (ThenReturn no_result)"
    by (simp_all add: w2_def w1_def)
  have s2: "px_steps 2 dev t2 w1 = Some w2"
    using assms(3,4) later by (simp add: numeral_nat px_run_def w1_def w2_def px_Fetch_def message_pc_def)
  have s3: "px_steps 3 dev t2 w1 = px_run dev t2 w2"
    using px_steps_last [OF s2] by (simp add: numeral_nat)
  have p3: "px_run dev t2 w2 = (if length (ch_queue (px_chans w p)) \<ge> 32 then None
      else Some (goto t2 (Returned no_result) (w2\<lparr>px_chans := (px_chans w2)(p := (px_chans w2 p)\<lparr>ch_queue := ch_queue (px_chans w2 p) @ [Progress [VBytes payload]]\<rparr>),
        px_pushed := (px_pushed w2)(p := px_pushed w2 p @ [Progress [VBytes payload]])\<rparr>)))"
    using assms(5) by (simp add: px_run_def same go_on_def)
  show ?thesis
    using r s2 assms(3,6) by (intro exI [of _ w1]) (auto simp: s3 p3 same px_Fetch_def w1_def [symmetric] simp flip: not_le, simp_all add: w1_def)
qed

definition sample_setup :: ProxyCalls where
  "sample_setup = goto 1 (Fetching ProxyExec sample_exec) (goto 0 (Setup ProxyExec 0 sample_exec)
     (px_Store 7 0 (fst (newProxyCall 0 NewProxyCalls))))"

theorem proxy_call_left_dead_witness:
  "\<exists>w1 w2. px_run (Inl (Errorf ''no session'')) 0 sample_setup = Some w1 \<and> px_steps 3 (Inr ()) 1 w1 = Some w2 \<and>
     px_threads w2 1 = Returned no_result \<and> 0 \<notin> set (px_running w2)"
proof -
  have f: "px_threads sample_setup 0 = Setup ProxyExec 0 sample_exec" "px_threads sample_setup 1 = Fetching ProxyExec sample_exec"
    "px_Fetch (inv_Caller sample_exec) sample_setup = Some 0" "\<not> pc_closed (px_objs sample_setup 0)"
    "\<not> ch_closed (px_chans sample_setup 0)" "0 \<notin> set (px_running sample_setup)" "ch_queue (px_chans sample_setup 0) = []"
    by (simp_all add: sample_setup_def px_Store_def px_Fetch_def newProxyCall_def NewProxyCalls_def Let_def sample_exec_def sample_inv_def)
  have g: "inv_ArgString sample_exec 0 = Inr ''realm''" "inv_Progress sample_exec" "length (inv_Args sample_exec) \<le> 2"
    "inv_ArgBytes sample_exec 1 = Inr ''ls''"
    by (simp_all add: sample_exec_def sample_inv_def)
  from proxy_call_left_dead [OF f(1) g(1) f(3-6) f(2) _ refl g(2-4), where e = "Errorf ''no session''" and dev = "Inr ()"] f(7)
  show ?thesis by (simp, blast)
qed

text \<open>
  A goroutine that looked at its call before the call was closed
  sends on the closed channel and panics.
\<close>

theorem proxy_send_after_close:
  assumes "px_threads w t = Sending p m k" and "px_threads w t2 = Closing p d" and "\<not> pc_closed (px_objs w p)" "\<not> ch_closed (px_chans w p)"
  shows "\<exists>w1 w2 w3. px_run dev t w = Some w1 \<and> px_steps 2 dev t2 w1 = Some w2 \<and> px_run dev t w2 = Some w3 \<and>
    px_threads w3 t = Panicked SendOnClosedChannel"
proof -
  have ne: "t \<noteq> t2" using assms(1,2) by auto
  then show ?thesis using assms by (simp add: px_run_def numeral_nat)
qed

definition sample_race :: ProxyCalls where
  "sample_race = goto 1 (Closing 0 None) (goto 0 (Sending 0 (Progress []) (ThenReturn no_result)) sample_setup)"

theorem proxy_send_after_close_witness:
  "\<exists>w1 w2 w3. px_run (Inr ()) 0 sample_race = Some w1 \<and> px_steps 2 (Inr ()) 1 w1 = Some w2 \<and> px_run (Inr ()) 0 w2 = Some w3 \<and>
    px_threads w3 0 = Panicked SendOnClosedChannel"
  by (rule proxy_send_after_close [where p = 0 and d = None and m = "Progress []" and k = "ThenReturn no_result"])
    (simp_all add: sample_race_def sample_setup_def px_Store_def newProxyCall_def NewProxyCalls_def Let_def)


end
