(* ===== verification/AgentClient.thy ===== *)
theory AgentClient
  imports ReverseClient AgentForward
begin

text \<open>
  The client's side of agent forwarding: \<open>RunAgentForward\<close> of \<open>agentforward.go\<close>. What it does with
  announced connections, data and its readers is, line by line, what the client of reverse
  forwarding does, so it uses the definitions of \<open>ReverseClient\<close>; the dial goes to the local agent's
  socket. The first message, the realm before every message when the call goes through the local
  daemon, and the \<open>ready\<close> channel are its own.
\<close>

section \<open>The closure's variables\<close>

text \<open>
  \<open>gc_ready\<close> lists what was sent on \<open>ready\<close> (\<open>None\<close> is Go's nil; the channel has room for one
  value), \<open>gc_returned\<close> is the result of \<open>RunAgentForward\<close> once it has returned.
\<close>

record agclient =
  gc_rc :: rclient
  gc_ready :: "go_error option list"
  gc_returned :: "go_error option option"

definition gc_start :: agclient where
  "gc_start = \<lparr>gc_rc = rc_start, gc_ready = [], gc_returned = None\<rparr>"

definition signalReady :: "go_error option \<Rightarrow> agclient \<Rightarrow> agclient" where
  "signalReady err g = (if gc_ready g = [] then g\<lparr>gc_ready := [err]\<rparr> else g)"

definition gc_closeDone :: "agclient \<Rightarrow> agclient" where
  "gc_closeDone g = g\<lparr>gc_rc := rc_closeDone (gc_rc g)\<rparr>"

definition withRealmPrefix :: "string \<Rightarrow> wval list \<Rightarrow> wval list" where
  "withRealmPrefix realm args = (if realm = [] then args else VStr realm # args)"

section \<open>The progress sender and receiver\<close>

definition agc_sender :: "string \<Rightarrow> rc_branch \<Rightarrow> rclient \<Rightarrow> rclient option" where
  "agc_sender realm b c =
     (if \<not> rc_firstSent c
      then Some (c\<lparr>rc_firstSent := True, rc_calls := rc_calls c @ [withRealmPrefix realm [VStr msgConnect, VUInt 0]]\<rparr>)
      else case b of
        RcCtx \<Rightarrow> if rc_ctx c then Some ((rc_closeDone c)\<lparr>rc_ended := True\<rparr>) else None
      | RcDone \<Rightarrow> if rc_done c then Some (c\<lparr>rc_ended := True\<rparr>) else None
      | RcOut \<Rightarrow>
          (case rc_outCh c of
             [] \<Rightarrow> None
           | args # rest \<Rightarrow> Some (c\<lparr>rc_outCh := rest, rc_calls := rc_calls c @ [withRealmPrefix realm args]\<rparr>)))"

text \<open>A close message for connection 0 means that the device could not set up its socket.\<close>

definition agc_close :: "invocation \<Rightarrow> agclient \<Rightarrow> agclient" where
  "agc_close r g =
     (case inv_ArgUInt64 r 1 of
        Inl _ \<Rightarrow> g
      | Inr connID \<Rightarrow>
          if connID = 0 then gc_closeDone (signalReady (Some (Errorf ''remote device failed to start agent forwarding'')) g)
          else g\<lparr>gc_rc := rc_close r (gc_rc g)\<rparr>)"

definition agc_receive ::
    "crypto \<Rightarrow> bytes result \<Rightarrow> sock result \<Rightarrow> bool \<Rightarrow> invocation \<Rightarrow> agclient \<Rightarrow> agclient option" where
  "agc_receive cr rnd dial to_done r g =
     (if inv_Args r = [] then Some (gc_closeDone g)
      else case inv_ArgString r 0 of
        Inl _ \<Rightarrow> Some g
      | Inr msgType \<Rightarrow>
          (if msgType = msgReady then Some (signalReady None g)
           else if msgType = msgConnect then map_option (\<lambda>c. g\<lparr>gc_rc := c\<rparr>) (rc_connect cr rnd dial to_done r (gc_rc g))
           else if msgType = msgData then Some (g\<lparr>gc_rc := rc_data cr r (gc_rc g)\<rparr>)
           else if msgType = msgClose then Some (agc_close r g)
           else Some g))"

text \<open>
  After the call; \<open>ctxErr\<close> is the error of the context when it is done.
\<close>

definition agc_finish :: "go_error option \<Rightarrow> go_error \<Rightarrow> agclient \<Rightarrow> agclient" where
  "agc_finish callErr ctxErr g =
     (let ended = (if rc_ctx (gc_rc g) then Some ctxErr else None);
          g1 = signalReady (if callErr \<noteq> None then callErr
                 else if ended \<noteq> None then ended
                 else Some (Errorf ''agent forwarding call ended before becoming ready'')) (gc_closeDone g)
      in g1\<lparr>gc_rc := rc_finish (gc_rc g1), gc_returned := Some (if callErr \<noteq> None then callErr else ended)\<rparr>)"

inductive agc_step :: "crypto \<Rightarrow> string \<Rightarrow> agclient \<Rightarrow> agclient \<Rightarrow> bool" for cr :: crypto and realm :: string where
  agc_sends: "agc_sender realm b (gc_rc g) = Some c' \<Longrightarrow> agc_step cr realm g (g\<lparr>gc_rc := c'\<rparr>)"
| agc_receives: "agc_receive cr rnd dial to_done r g = Some g' \<Longrightarrow> agc_step cr realm g g'"
| agc_reads: "(p, 0, connID) \<in> set (w_readers (gc_rc g)) \<Longrightarrow>
     rc_reader cr rnd target to_done p connID chunk rerr (gc_rc g) = Some c' \<Longrightarrow> agc_step cr realm g (g\<lparr>gc_rc := c'\<rparr>)"
| agc_cancelled: "agc_step cr realm g (g\<lparr>gc_rc := (gc_rc g)\<lparr>rc_ctx := True\<rparr>\<rparr>)"
| agc_returns: "gc_returned g = None \<Longrightarrow> agc_step cr realm g (agc_finish callErr ctxErr g)"

inductive agc_reachable :: "crypto \<Rightarrow> string \<Rightarrow> agclient \<Rightarrow> bool" for cr :: crypto and realm :: string where
  agc_begin: "agc_reachable cr realm gc_start"
| agc_next: "agc_reachable cr realm g \<Longrightarrow> agc_step cr realm g g' \<Longrightarrow> agc_reachable cr realm g'"

section \<open>The invariant\<close>

abbreviation agc_pr :: "string \<Rightarrow> wval list \<times> (wval list \<Rightarrow> wval list)" where
  "agc_pr realm \<equiv> (withRealmPrefix realm [VStr msgConnect, VUInt 0], withRealmPrefix realm)"

definition agc_inv :: "string \<Rightarrow> agclient \<Rightarrow> bool" where
  "agc_inv realm g \<longleftrightarrow> rc_inv (agc_pr realm) (gc_rc g) \<and> length (gc_ready g) \<le> 1 \<and> (gc_returned g \<noteq> None \<longrightarrow> gc_ready g \<noteq> [])"

lemma agc_invD:
  assumes "agc_inv realm g"
  shows "rc_inv (agc_pr realm) (gc_rc g)" and "length (gc_ready g) \<le> 1" and "gc_returned g \<noteq> None \<Longrightarrow> gc_ready g \<noteq> []"
  using assms unfolding agc_inv_def by blast+

lemma withRealmPrefix_inj [simp]: "withRealmPrefix realm a = withRealmPrefix realm b \<longleftrightarrow> a = b"
  by (simp add: withRealmPrefix_def)

lemma agc_inv_rc: "agc_inv realm g \<Longrightarrow> rc_inv (agc_pr realm) c \<Longrightarrow> agc_inv realm (g\<lparr>gc_rc := c\<rparr>)"
  by (simp add: agc_inv_def)

lemma agc_inv_ready:
  "agc_inv realm g \<Longrightarrow> agc_inv realm (signalReady e g)" "agc_inv realm g \<Longrightarrow> agc_inv realm (gc_closeDone g)"
  by (simp_all add: agc_inv_def signalReady_def gc_closeDone_def rc_inv_flags)

lemma agc_inv_sender:
  "rc_inv (agc_pr realm) c \<Longrightarrow> agc_sender realm b c = Some c' \<Longrightarrow> rc_inv (agc_pr realm) c'"
  unfolding rc_inv_def rc_hist_def
  by (auto simp: agc_sender_def rc_closeDone_def rc_world_cong split: if_splits rc_branch.splits list.splits)

lemma agc_inv_receive: "agc_inv realm g \<Longrightarrow> agc_receive cr rnd dial to_done r g = Some g' \<Longrightarrow> agc_inv realm g'"
  using rc_inv_data [of "agc_pr realm" "gc_rc g" cr r] rc_inv_close [of "agc_pr realm" "gc_rc g" r]
    rc_inv_connect [of "agc_pr realm" "gc_rc g" cr rnd dial to_done r] agc_invD(1) [of realm g]
  by (auto simp: agc_receive_def agc_close_def intro: agc_inv_rc agc_inv_ready split: if_splits sum.splits)

lemma agc_inv_finish: "agc_inv realm g \<Longrightarrow> agc_inv realm (agc_finish callErr ctxErr g)"
  by (simp add: agc_inv_def agc_finish_def Let_def signalReady_def gc_closeDone_def rc_inv_flags rc_inv_finish)

lemma agc_reachable_inv: "agc_reachable cr realm g \<Longrightarrow> agc_inv realm g"
proof (induction rule: agc_reachable.induct)
  case agc_begin
  show ?case
    by (simp add: agc_inv_def gc_start_def rc_inv_def rc_start_def rc_hist_def conns_inv_def conns_refs_def world_wf_def)
next
  case (agc_next g g')
  note i = agc_next.IH
  from agc_next.hyps(2) show ?case
  proof cases
    case (agc_sends b c')
    then show ?thesis using agc_inv_rc [OF i agc_inv_sender [OF agc_invD(1) [OF i]]] by simp
  next
    case (agc_receives rnd dial to_done r)
    then show ?thesis using agc_inv_receive [OF i] by simp
  next
    case (agc_reads p connID rnd target to_done chunk rerr c')
    then show ?thesis using agc_inv_rc [OF i rc_inv_reader [OF agc_invD(1) [OF i]]] by blast
  next
    case agc_cancelled
    then show ?thesis using agc_inv_rc [OF i] rc_inv_flags [OF agc_invD(1) [OF i]] by simp
  next
    case (agc_returns callErr ctxErr)
    then show ?thesis using agc_inv_finish [OF i] by simp
  qed
qed

section \<open>Properties\<close>


definition sample_agc :: agclient where
  "sample_agc = agc_finish None ErrEOF (gc_start\<lparr>gc_rc := rc_start\<lparr>rc_firstSent := True, rc_calls := [[VStr ''r'', VStr msgConnect, VUInt 0]]\<rparr>\<rparr>)"


text \<open>
  Property C20 (agent_ready_means_listening): the device answers the client's first message with
  exactly one message, and when the client receives it, it reports success if and only if the
  device now has a socket for that client; otherwise it reports an error and ends the call.
\<close>

theorem agent_ready_means_listening:
  assumes "ag_reachable cr auth w" and "inv_Progress iv" and "inv_ArgString iv 0 = Inr msgConnect"
    and "inv_Caller iv = c" and "inv_CallerAuthID iv = auth c"
    and "\<And>d. ae_mkdir env = Inr d \<Longrightarrow> d \<notin> ag_dirs w" and "ae_send env = (\<lambda>_. None)" and "gc_ready g = []"
  shows "\<exists>m g'. w_sent (fst (handleAgentForward cr env iv w)) = w_sent w @ [(c, m)] \<and>
    agc_receive cr rnd dial to_done (sample_inv 0 0 [] True m) g = Some g' \<and>
    (if ag_socketPath (fst (handleAgentForward cr env iv w)) c \<noteq> None then gc_ready g' = [None]
     else \<exists>e. gc_ready g' = [Some e] \<and> rc_done (gc_rc g'))"
proof -
  let ?w' = "fst (handleAgentForward cr env iv w)"
  note inv = ag_reachable_inv [OF assms(1)]
  have "ag_reachable cr auth ?w'" by (rule ag_next [OF assms(1) ag_handles]) (use assms(4-6) in auto)
  note inv' = ag_reachable_inv [OF this]
  have path: "ag_socketPath ?w' c \<noteq> None \<longleftrightarrow> ag_owns ?w' c (auth c)"
    by (simp add: ag_socketPath_def find_owner [OF inv'] ag_owns_def split: option.splits)
  have h: "?w' = ag_connect env iv w" using assms(2,3) by (simp add: handleAgentForward_def)
  have ready: "agc_receive cr rnd dial to_done (sample_inv 0 0 [] True [VStr msgReady, v]) g = Some (g\<lparr>gc_ready := [None]\<rparr>)" for v
    using assms(8) by (simp add: agc_receive_def sample_inv_def signalReady_def)
  show ?thesis
  proof (cases "ag_fetch w (auth c)")
    case (Some s)
    have s: "ag_sessions w (auth c) = Some s" using Some by (simp add: ag_fetch_def)
    have eq: "?w' = (ag_takeOver (ls_ln s) c w)\<lparr>w_sent := w_sent w @ [(c, [VStr msgReady, VStr (as_sockPath s)])]\<rparr>"
      using assms(4,5,7) Some unfolding h by (simp add: ag_connect_def send_progress_def ag_takeOver_def ag_upd_obj_def)
    obtain x where "ag_objs w (ls_ln s) = Some x" using ag_inv_session(5) [OF inv s] by blast
    then have "ag_owns ?w' c (auth c)" unfolding eq by (simp add: ag_owns_def ag_currentCaller_def ag_takeOver_def ag_upd_obj_def s)
    with path ready eq show ?thesis by simp
  next
    case None
    have n: "ag_sessions w (auth c) = None" using None by (simp add: ag_fetch_def)
    let ?m = "[VStr msgClose, VUInt 0]"
    have close: "\<exists>g' e. agc_receive cr rnd dial to_done (sample_inv 0 0 [] True ?m) g = Some g' \<and> gc_ready g' = [Some e] \<and> rc_done (gc_rc g')"
      using assms(8) by (simp add: agc_receive_def agc_close_def signalReady_def gc_closeDone_def rc_closeDone_def sample_inv_def)
    have s: "?w' = ag_setup env iv w" using assms(5) None unfolding h by (simp add: ag_connect_def)
    show ?thesis
    proof (cases "ae_mkdir env \<noteq> Inl (projl (ae_mkdir env)) \<and> ae_chmod_dir env = None \<and> ae_listen env = None \<and> ae_chmod_sock env = None")
      case True
      then obtain dir where d: "ae_mkdir env = Inr dir" by (cases "ae_mkdir env") auto
      have "w_sent ?w' = w_sent w @ [(c, [VStr msgReady, VStr (dir @ ''/agent.sock'')])]" "ag_owns ?w' c (auth c)"
        using True d assms(4,5,7) unfolding s
        by (simp_all add: ag_setup_def Let_def send_progress_def ag_upd_obj_def ag_store_def ag_owns_def ag_currentCaller_def)
      with path ready show ?thesis by simp
    next
      case False
      then have "w_sent ?w' = w_sent w @ [(c, ?m)] \<and> ag_sessions ?w' = ag_sessions w"
        using assms(4,7) unfolding s by (cases "ae_mkdir env") (auto simp: ag_setup_def Let_def send_progress_def)
      with path close n show ?thesis by (auto simp: ag_owns_def)
    qed
  qed
qed

theorem agent_ready_means_listening_witness:
  "\<exists>m g'. w_sent demo_agent1 = [(7, m)] \<and>
     agc_receive toy_crypto (Inr []) (Inl ErrEOF) False (sample_inv 0 0 [] True m) gc_start = Some g' \<and> gc_ready g' = [None]"
proof -
  let ?iv = "sample_inv 1 7 ''alice'' True [VStr msgConnect]"
  have a: "demo_auth 7 = ''alice''" "inv_ArgString ?iv 0 = Inr msgConnect" "gc_ready gc_start = []" "ae_send demo_agent_env = (\<lambda>_. None)"
    by (simp_all add: demo_auth_def sample_inv_def gc_start_def demo_agent_env_def)
  have "ag_socketPath demo_agent1 7 \<noteq> None"
    by (simp add: demo_agent1_eq ag_socketPath_def ag_owns_def ag_currentCaller_def)
  moreover have "w_sent ag_init = []" by (simp add: ag_init_def)
  moreover have "d \<notin> ag_dirs ag_init" for d by (simp add: ag_init_def)
  ultimately show ?thesis
    using agent_ready_means_listening [OF ag_start, of ?iv 7 demo_auth demo_agent_env gc_start toy_crypto "Inr []" "Inl ErrEOF" False] a
    by (simp add: demo_agent1_def)
qed


end
