(* ===== verification/ProxyUpgrade.thy ===== *)
theory ProxyUpgrade
  imports ProxyCalls
begin

text \<open>
  A proxied shell or agent call that moves to a better device session while it runs:
  \<open>ProxyShellHandler\<close> of \<open>src/helpers.go\<close> and \<open>ProxyAgentForwardHandler\<close> of \<open>src/agentforward.go\<close>,
  from the moment the first session stands. The first call is served by two goroutines, one with
  the call on the first session (over QUIC) and one that waits for the second session and then
  repeats the call there; every further message of the caller is a goroutine of its own. They
  share the proxy call, two channels and a few flags. As in \<open>ProxyCalls\<close> every critical section and
  every channel operation is one step.
\<close>

section \<open>State\<close>

datatype up_kind = UpShell | UpAgent

datatype up_chan = CloudCh | NewCh

datatype up_next = UpReturn inv_result | UpClose | UpResult

text \<open>
  A handler's goroutine. \<open>UpClosingChan\<close> is \<open>closeChannel\<close> after its critical section, with the close
  function and the channel it read there.
\<close>

datatype up_pc =
    UpIdle
  | UpSending progress up_next
  | UpPushing up_chan progress up_next
  | UpClosing
  | UpClosingChan bool up_chan
  | UpWaiting
  | UpReturned inv_result
  | UpPanicked go_panic

datatype up_quic = QuicCalling | QuicReturned "go_error option" | QuicPutting "go_error option" | QuicGone

datatype up_mig = MigUpgrade | MigMark | MigBlob | MigCalling | MigClose "go_error option" | MigPut "go_error option" | MigGone

text \<open>The progress receiver of the second call, between its steps.\<close>

datatype up_cb = CbIdle | CbSwitch "wval list" | CbUnfunc "wval list" | CbClose "wval list" | CbSend "wval list" | CbPanicked "wval list"

text \<open>
  \<open>u_closeFunc\<close>: the close function is \<open>closeCloud\<close> (and not nil). \<open>u_pending\<close> holds the progress that
  the first call's receiver has decided to pass on. The last five fields are histories.
\<close>

record upcall =
  u_closed :: bool
  u_chan :: up_chan
  u_closeFunc :: bool
  u_blob :: "bytes option"
  u_chans :: "up_chan \<Rightarrow> progress_chan"
  u_cloudOnce :: bool
  u_migrated :: bool
  u_started :: bool
  u_switched :: bool
  u_cancelled :: bool
  u_result :: "inv_result option"
  u_quic :: up_quic
  u_mig :: up_mig
  u_cb :: up_cb
  u_pending :: "wval list list"
  u_pcs :: "nat \<Rightarrow> up_pc"
  u_pushed :: "up_chan \<Rightarrow> progress list"
  u_taken :: "up_chan \<Rightarrow> progress list"
  u_quicIn :: "wval list list"
  u_rtcIn :: "wval list list"
  u_toClient :: "(up_chan \<times> wval list) list"

section \<open>The handler's goroutines\<close>

definition up_goto :: "nat \<Rightarrow> up_pc \<Rightarrow> upcall \<Rightarrow> upcall" where
  "up_goto t pc u = u\<lparr>u_pcs := (u_pcs u)(t := pc)\<rparr>"

definition close_chan :: "up_chan \<Rightarrow> upcall \<Rightarrow> upcall" where
  "close_chan ch u = u\<lparr>u_chans := (u_chans u)(ch := (u_chans u ch)\<lparr>ch_closed := True\<rparr>)\<rparr>"

text \<open>\<open>closeCloud\<close>; it panics when it closes a channel that is closed.\<close>

definition closeCloud :: "upcall \<Rightarrow> go_panic option \<times> upcall" where
  "closeCloud u =
     (if u_cloudOnce u then (None, u)
      else if ch_closed (u_chans u CloudCh) then (Some CloseOfClosedChannel, u\<lparr>u_cloudOnce := True\<rparr>)
      else (None, close_chan CloudCh (u\<lparr>u_cloudOnce := True\<rparr>)))"

definition up_go_on :: "up_next \<Rightarrow> up_pc" where
  "up_go_on k = (case k of UpReturn r \<Rightarrow> UpReturned r | UpClose \<Rightarrow> UpClosing | UpResult \<Rightarrow> UpWaiting)"

text \<open>
  A message of the caller. The goroutine of the first one (\<open>first\<close>) waits for the result; when it
  returns, its migration context is cancelled.
\<close>

definition up_message :: "bool \<Rightarrow> invocation \<Rightarrow> up_pc" where
  "up_message first iv =
     (let k = (if first then UpResult else UpReturn no_result)
      in if length (inv_Args iv) > 2 then UpSending (Progress (drop 1 (inv_Args iv))) k
         else (case inv_ArgBytes iv 1 of
            Inl e \<Rightarrow> UpReturned (invalid_argument e)
          | Inr payload \<Rightarrow> UpSending (Progress [VBytes payload]) k))"

definition up_final :: "invocation \<Rightarrow> up_pc" where
  "up_final iv = (if inv_Args iv = [] then UpClosing else UpSending (Final (inv_Args iv)) UpClose)"

definition up_run :: "nat \<Rightarrow> upcall \<Rightarrow> upcall option" where
  "up_run t u = (case u_pcs u t of
     UpSending m k \<Rightarrow> Some (up_goto t (if u_closed u then up_go_on k else UpPushing (u_chan u) m k) u)
   | UpPushing ch m k \<Rightarrow>
       if ch_closed (u_chans u ch) then Some (up_goto t (UpPanicked SendOnClosedChannel) u)
       else if length (ch_queue (u_chans u ch)) \<ge> 32 then None
       else Some (up_goto t (up_go_on k)
         (u\<lparr>u_chans := (u_chans u)(ch := (u_chans u ch)\<lparr>ch_queue := ch_queue (u_chans u ch) @ [m]\<rparr>),
            u_pushed := (u_pushed u)(ch := u_pushed u ch @ [m])\<rparr>))
   | UpClosing \<Rightarrow>
       if u_closed u then Some (up_goto t (UpReturned (InvocationResult [])) u)
       else Some (up_goto t (UpClosingChan (u_closeFunc u) (u_chan u)) (u\<lparr>u_closed := True\<rparr>))
   | UpClosingChan True ch \<Rightarrow> Some (case closeCloud u of
         (Some x, u1) \<Rightarrow> up_goto t (UpPanicked x) u1
       | (None, u1) \<Rightarrow> up_goto t (UpReturned (InvocationResult [])) u1)
   | UpClosingChan False ch \<Rightarrow>
       if ch_closed (u_chans u ch) then Some (up_goto t (UpPanicked CloseOfClosedChannel) u)
       else Some (up_goto t (UpReturned (InvocationResult [])) (close_chan ch u))
   | UpWaiting \<Rightarrow> (case u_result u of
         None \<Rightarrow> None
       | Some r \<Rightarrow> Some (up_goto t (UpReturned r) (u\<lparr>u_cancelled := True\<rparr>)))
   | _ \<Rightarrow> None)"

section \<open>The call on the first session\<close>

definition put_result :: "inv_result \<Rightarrow> upcall \<Rightarrow> upcall" where
  "put_result r u = (if u_result u = None then u\<lparr>u_result := Some r\<rparr> else u)"

definition call_result :: "go_error option \<Rightarrow> inv_result" where
  "call_result err = (case err of None \<Rightarrow> InvocationResult [] | Some e \<Rightarrow> operation_failed e)"

text \<open>
  The progress sender takes the next message; with an empty, closed channel it ends the call. The
  receiver looks at the flags, then passes the progress on.
\<close>

datatype quic_event = QuicTake | QuicProgress "wval list" | QuicPass | QuicReturn "go_error option" | QuicLook | QuicResult

definition take_chan :: "up_chan \<Rightarrow> upcall \<Rightarrow> upcall option" where
  "take_chan ch u = (case ch_queue (u_chans u ch) of
     [] \<Rightarrow> None
   | m # rest \<Rightarrow> Some (u\<lparr>u_chans := (u_chans u)(ch := (u_chans u ch)\<lparr>ch_queue := rest\<rparr>),
       u_taken := (u_taken u)(ch := u_taken u ch @ [m])\<rparr>))"

definition up_quic_run :: "quic_event \<Rightarrow> upcall \<Rightarrow> upcall option" where
  "up_quic_run e u = (case (e, u_quic u) of
     (QuicTake, QuicCalling) \<Rightarrow> take_chan CloudCh u
   | (QuicProgress args, QuicCalling) \<Rightarrow>
       Some (u\<lparr>u_quicIn := u_quicIn u @ [args],
         u_pending := (if \<not> u_migrated u \<and> \<not> u_started u then u_pending u @ [args] else u_pending u)\<rparr>)
   | (QuicPass, _) \<Rightarrow> (case u_pending u of
         [] \<Rightarrow> None
       | args # rest \<Rightarrow> Some (u\<lparr>u_pending := rest, u_toClient := u_toClient u @ [(CloudCh, args)]\<rparr>))
   | (QuicReturn err, QuicCalling) \<Rightarrow> Some (u\<lparr>u_quic := QuicReturned err\<rparr>)
   | (QuicLook, QuicReturned err) \<Rightarrow> Some (u\<lparr>u_quic := (if u_migrated u then QuicGone else QuicPutting err)\<rparr>)
   | (QuicResult, QuicPutting err) \<Rightarrow> Some ((put_result (call_result err) u)\<lparr>u_quic := QuicGone\<rparr>)
   | _ \<Rightarrow> None)"

section \<open>The migration\<close>

text \<open>
  The goroutine waits for the second session (\<open>MigSession False\<close>: there will be none), for a shell
  also for the token the caller relays, and repeats the call there.
\<close>

datatype mig_event = MigSession bool | MigCancel | MigGo | MigTake | MigProgress "wval list" | MigReturn "go_error option"

definition up_mig_run :: "up_kind \<Rightarrow> mig_event \<Rightarrow> upcall \<Rightarrow> upcall option" where
  "up_mig_run kind e u = (case (u_mig u, e) of
     (MigUpgrade, MigSession ok) \<Rightarrow> Some (u\<lparr>u_mig := (if ok then MigMark else MigGone)\<rparr>)
   | (MigUpgrade, MigCancel) \<Rightarrow> if u_cancelled u then Some (u\<lparr>u_mig := MigGone\<rparr>) else None
   | (MigMark, MigGo) \<Rightarrow> Some (u\<lparr>u_started := True, u_mig := (case kind of UpShell \<Rightarrow> MigBlob | UpAgent \<Rightarrow> MigCalling)\<rparr>)
   | (MigBlob, MigGo) \<Rightarrow> (case u_blob u of None \<Rightarrow> None | Some _ \<Rightarrow> Some (u\<lparr>u_blob := None, u_mig := MigCalling\<rparr>))
   | (MigBlob, MigCancel) \<Rightarrow> if u_cancelled u then Some (u\<lparr>u_mig := MigGone\<rparr>) else None
   | (MigCalling, MigTake) \<Rightarrow> if u_switched u then take_chan NewCh u else Some (u\<lparr>u_switched := True\<rparr>)
   | (MigCalling, MigProgress args) \<Rightarrow>
       if u_cb u \<noteq> CbIdle then None
       else Some (u\<lparr>u_rtcIn := u_rtcIn u @ [args], u_cb := (if u_migrated u then CbSend args else CbSwitch args), u_migrated := True\<rparr>)
   | (MigCalling, MigReturn err) \<Rightarrow> Some (u\<lparr>u_mig := MigClose err\<rparr>)
   | (MigClose err, MigGo) \<Rightarrow> (case closeCloud u of
         (Some _, u1) \<Rightarrow> Some (u1\<lparr>u_mig := MigGone\<rparr>)
       | (None, u1) \<Rightarrow> Some (u1\<lparr>u_mig := MigPut err\<rparr>))
   | (MigPut err, MigGo) \<Rightarrow> Some ((put_result (call_result err) u)\<lparr>u_mig := MigGone\<rparr>)
   | _ \<Rightarrow> None)"

text \<open>The receiver's further steps: the switch takes three critical sections.\<close>

definition up_cb_run :: "upcall \<Rightarrow> upcall option" where
  "up_cb_run u = (case u_cb u of
     CbIdle \<Rightarrow> None
   | CbPanicked _ \<Rightarrow> None
   | CbSwitch args \<Rightarrow> Some (u\<lparr>u_chan := NewCh, u_cb := CbUnfunc args\<rparr>)
   | CbUnfunc args \<Rightarrow> Some (u\<lparr>u_closeFunc := False, u_cb := CbClose args\<rparr>)
   | CbClose args \<Rightarrow> (case closeCloud u of
         (Some _, u1) \<Rightarrow> Some (u1\<lparr>u_cb := CbPanicked args\<rparr>)
       | (None, u1) \<Rightarrow> Some (u1\<lparr>u_cb := CbSend args\<rparr>))
   | CbSend args \<Rightarrow> Some (u\<lparr>u_cb := CbIdle, u_toClient := u_toClient u @ [(NewCh, args)]\<rparr>))"

definition up_migrate :: "bytes \<Rightarrow> upcall \<Rightarrow> upcall" where
  "up_migrate blob u = (if u_blob u = None then u\<lparr>u_blob := Some blob\<rparr> else u)"

text \<open>
  The state when the first session stands and the close function is set. \<open>left\<close>: the caller's
  session ended meanwhile, so its proxy call was closed while it had no close function.
\<close>

definition up_begin :: "bool \<Rightarrow> invocation \<Rightarrow> upcall" where
  "up_begin left iv = \<lparr>u_closed = left, u_chan = CloudCh, u_closeFunc = True, u_blob = None,
     u_chans = (\<lambda>ch. \<lparr>ch_queue = [], ch_closed = (left \<and> ch = CloudCh)\<rparr>), u_cloudOnce = False, u_migrated = False,
     u_started = False, u_switched = False, u_cancelled = False, u_result = None, u_quic = QuicCalling, u_mig = MigUpgrade,
     u_cb = CbIdle, u_pending = [], u_pcs = (\<lambda>_. UpIdle)(0 := up_message True iv), u_pushed = (\<lambda>_. []), u_taken = (\<lambda>_. []),
     u_quicIn = [], u_rtcIn = [], u_toClient = []\<rparr>"

inductive up_step :: "up_kind \<Rightarrow> upcall \<Rightarrow> upcall \<Rightarrow> bool" for kind :: up_kind where
  up_call: "u_pcs u t = UpIdle \<Longrightarrow> up_step kind u (up_goto t (if inv_Progress iv then up_message False iv else up_final iv) u)"
| up_leave: "u_pcs u t = UpIdle \<Longrightarrow> up_step kind u (up_goto t UpClosing u)"
| up_refused: "u_pcs u 0 = UpReturned r \<Longrightarrow> up_step kind u (u\<lparr>u_cancelled := True\<rparr>)"
| up_runs: "up_run t u = Some u' \<Longrightarrow> up_step kind u u'"
| up_quics: "up_quic_run qe u = Some u' \<Longrightarrow> up_step kind u u'"
| up_migs: "up_mig_run kind me u = Some u' \<Longrightarrow> up_step kind u u'"
| up_cbs: "up_cb_run u = Some u' \<Longrightarrow> up_step kind u u'"
| up_blob: "up_step kind u (up_migrate blob u)"

inductive up_reachable :: "up_kind \<Rightarrow> bool \<Rightarrow> upcall \<Rightarrow> bool" for kind :: up_kind and left :: bool where
  up_start: "up_reachable kind left (up_begin left iv)"
| up_more: "up_reachable kind left u \<Longrightarrow> up_step kind u u' \<Longrightarrow> up_reachable kind left u'"

section \<open>The invariant\<close>

text \<open>What the channels carry.\<close>

definition inv_carry :: "upcall \<Rightarrow> bool" where
  "inv_carry u \<longleftrightarrow> (\<forall>ch. u_pushed u ch = u_taken u ch @ ch_queue (u_chans u ch) \<and> length (ch_queue (u_chans u ch)) \<le> 32)"

text \<open>Who closes the channels: the first one under \<open>closeCloudOnce\<close>, the second one whoever closes the call.\<close>

definition inv_close :: "upcall \<Rightarrow> bool" where
  "inv_close u \<longleftrightarrow>
     (ch_closed (u_chans u CloudCh) \<longrightarrow> u_cloudOnce u) \<and> (ch_closed (u_chans u NewCh) \<longrightarrow> u_closed u) \<and>
     (\<not> u_closeFunc u \<longrightarrow> u_chan u = NewCh) \<and> (\<forall>args. u_cb u = CbUnfunc args \<longrightarrow> u_chan u = NewCh) \<and>
     (\<forall>t b ch. u_pcs u t = UpClosingChan b ch \<longrightarrow> u_closed u \<and> \<not> ch_closed (u_chans u NewCh) \<and> (b \<or> ch = NewCh)) \<and>
     (\<forall>t b ch t' b' ch'. u_pcs u t = UpClosingChan b ch \<longrightarrow> u_pcs u t' = UpClosingChan b' ch' \<longrightarrow> t = t') \<and>
     (\<forall>t. u_pcs u t \<noteq> UpPanicked CloseOfClosedChannel) \<and> (\<forall>args. u_cb u \<noteq> CbPanicked args)"

text \<open>Who gives the result.\<close>

definition inv_result :: "upcall \<Rightarrow> bool" where
  "inv_result u \<longleftrightarrow>
     (u_migrated u \<longrightarrow> u_mig u \<notin> {MigUpgrade, MigMark, MigBlob}) \<and>
     (u_quic u = QuicGone \<longrightarrow> u_migrated u \<or> u_result u \<noteq> None) \<and>
     (u_mig u = MigGone \<longrightarrow> u_migrated u \<longrightarrow> u_result u \<noteq> None)"

text \<open>What reaches the caller.\<close>

definition from_chan :: "up_chan \<Rightarrow> (up_chan \<times> wval list) list \<Rightarrow> wval list list" where
  "from_chan ch l = map snd (filter (\<lambda>m. fst m = ch) l)"

primrec cb_args :: "up_cb \<Rightarrow> wval list list" where
  "cb_args CbIdle = []"
| "cb_args (CbSwitch args) = [args]"
| "cb_args (CbUnfunc args) = [args]"
| "cb_args (CbClose args) = [args]"
| "cb_args (CbSend args) = [args]"
| "cb_args (CbPanicked args) = [args]"

definition inv_relay :: "upcall \<Rightarrow> bool" where
  "inv_relay u \<longleftrightarrow>
     (u_migrated u \<longrightarrow> u_started u) \<and> (\<not> u_started u \<longrightarrow> u_mig u \<in> {MigUpgrade, MigMark, MigGone}) \<and>
     (\<exists>lost. u_quicIn u = from_chan CloudCh (u_toClient u) @ u_pending u @ lost \<and> (u_started u \<or> lost = [])) \<and>
     u_rtcIn u = from_chan NewCh (u_toClient u) @ cb_args (u_cb u)"

lemma from_chan_simps [simp]:
  "from_chan ch [] = []" "from_chan ch (l @ [m]) = from_chan ch l @ (if fst m = ch then [snd m] else [])"
  by (simp_all add: from_chan_def)

lemma up_goto_simps [simp]:
  "u_pcs (up_goto t pc u) t' = (if t' = t then pc else u_pcs u t')"
  "u_closed (up_goto t pc u) = u_closed u" "u_chan (up_goto t pc u) = u_chan u" "u_closeFunc (up_goto t pc u) = u_closeFunc u"
  "u_blob (up_goto t pc u) = u_blob u" "u_chans (up_goto t pc u) = u_chans u" "u_cloudOnce (up_goto t pc u) = u_cloudOnce u"
  "u_migrated (up_goto t pc u) = u_migrated u" "u_started (up_goto t pc u) = u_started u" "u_cancelled (up_goto t pc u) = u_cancelled u"
  "u_result (up_goto t pc u) = u_result u" "u_quic (up_goto t pc u) = u_quic u" "u_mig (up_goto t pc u) = u_mig u"
  "u_cb (up_goto t pc u) = u_cb u" "u_pending (up_goto t pc u) = u_pending u" "u_pushed (up_goto t pc u) = u_pushed u"
  "u_taken (up_goto t pc u) = u_taken u" "u_quicIn (up_goto t pc u) = u_quicIn u" "u_rtcIn (up_goto t pc u) = u_rtcIn u"
  "u_toClient (up_goto t pc u) = u_toClient u"
  by (simp_all add: up_goto_def)

text \<open>A handler's goroutine changes neither the calls nor what reaches the caller.\<close>

lemma closeCloud_frame:
  assumes "closeCloud u = (x, u')"
  shows "u_quic u' = u_quic u" "u_mig u' = u_mig u" "u_result u' = u_result u" "u_migrated u' = u_migrated u" "u_started u' = u_started u"
    "u_toClient u' = u_toClient u" "u_pending u' = u_pending u" "u_quicIn u' = u_quicIn u" "u_rtcIn u' = u_rtcIn u" "u_cb u' = u_cb u"
    "u_pushed u' = u_pushed u" "u_taken u' = u_taken u" "ch_queue (u_chans u' ch) = ch_queue (u_chans u ch)" "u_pcs u' = u_pcs u"
    "u_chan u' = u_chan u" "u_closeFunc u' = u_closeFunc u" "u_closed u' = u_closed u" "u_cancelled u' = u_cancelled u"
    "u_cloudOnce u'" "ch_closed (u_chans u' NewCh) = ch_closed (u_chans u NewCh)"
  using assms by (auto simp: closeCloud_def close_chan_def split: if_splits)

lemma closeCloud_ok: "inv_close u \<Longrightarrow> closeCloud u = (x, u') \<Longrightarrow> x = None"
  by (auto simp: closeCloud_def inv_close_def split: if_splits)

lemma up_run_frame:
  assumes "up_run t u = Some u'"
  shows "u_quic u' = u_quic u" "u_mig u' = u_mig u" "u_result u' = u_result u" "u_migrated u' = u_migrated u" "u_started u' = u_started u"
    "u_toClient u' = u_toClient u" "u_pending u' = u_pending u" "u_quicIn u' = u_quicIn u" "u_rtcIn u' = u_rtcIn u" "u_cb u' = u_cb u"
  using assms by (auto simp: up_run_def close_chan_def closeCloud_frame split: up_pc.splits bool.splits if_splits option.splits prod.splits)

lemma take_chan_frame:
  assumes "take_chan ch u = Some u'"
  shows "u_quic u' = u_quic u" "u_mig u' = u_mig u" "u_result u' = u_result u" "u_migrated u' = u_migrated u" "u_started u' = u_started u"
    "u_toClient u' = u_toClient u" "u_pending u' = u_pending u" "u_quicIn u' = u_quicIn u" "u_rtcIn u' = u_rtcIn u" "u_cb u' = u_cb u"
    "u_pcs u' = u_pcs u" "u_closed u' = u_closed u" "u_chan u' = u_chan u" "u_closeFunc u' = u_closeFunc u" "u_cloudOnce u' = u_cloudOnce u"
    "ch_closed (u_chans u' c) = ch_closed (u_chans u c)"
  using assms by (auto simp: take_chan_def split: list.splits if_splits)

text \<open>The moves of the goroutines, one by one.\<close>

lemma up_mig_cases:
  assumes "up_mig_run kind e u = Some u'"
  obtains (session) ok where "u_mig u = MigUpgrade" "u' = u\<lparr>u_mig := (if ok then MigMark else MigGone)\<rparr>"
  | (cancel) "u_cancelled u" "u_mig u \<in> {MigUpgrade, MigBlob}" "u' = u\<lparr>u_mig := MigGone\<rparr>"
  | (mark) "u_mig u = MigMark" "u' = u\<lparr>u_started := True, u_mig := (case kind of UpShell \<Rightarrow> MigBlob | UpAgent \<Rightarrow> MigCalling)\<rparr>"
  | (blob) b where "u_mig u = MigBlob" "u_blob u = Some b" "u' = u\<lparr>u_blob := None, u_mig := MigCalling\<rparr>"
  | (take) "u_mig u = MigCalling" "take_chan NewCh u = Some u'"
  | (switched) "u_mig u = MigCalling" "u' = u\<lparr>u_switched := True\<rparr>"
  | (progress) args where "u_mig u = MigCalling" "u_cb u = CbIdle"
      "u' = u\<lparr>u_rtcIn := u_rtcIn u @ [args], u_cb := (if u_migrated u then CbSend args else CbSwitch args), u_migrated := True\<rparr>"
  | (returns) err where "u_mig u = MigCalling" "u' = u\<lparr>u_mig := MigClose err\<rparr>"
  | (closes) err x u1 where "u_mig u = MigClose err" "closeCloud u = (x, u1)" "u' = u1\<lparr>u_mig := (if x = None then MigPut err else MigGone)\<rparr>"
  | (puts) err where "u_mig u = MigPut err" "u' = (put_result (call_result err) u)\<lparr>u_mig := MigGone\<rparr>"
proof (cases "u_mig u")
  case MigUpgrade
  show thesis
  proof (cases e)
    case (MigSession ok)
    show thesis by (rule session [of ok]) (use assms MigUpgrade MigSession in \<open>simp_all add: up_mig_run_def\<close>)
  qed (use assms MigUpgrade cancel in \<open>auto simp: up_mig_run_def split: if_splits\<close>)
next
  case MigMark
  with assms mark show thesis by (cases e) (auto simp: up_mig_run_def)
next
  case MigBlob
  with assms blob cancel show thesis by (cases e; cases "u_blob u") (auto simp: up_mig_run_def split: if_splits)
next
  case MigCalling
  show thesis
  proof (cases e)
    case MigTake
    show thesis
      by (cases "u_switched u"; rule take switched) (use assms MigCalling MigTake in \<open>simp_all add: up_mig_run_def\<close>)
  next
    case (MigProgress args)
    show thesis by (rule progress [of args]) (use assms MigCalling MigProgress in \<open>simp_all add: up_mig_run_def split: if_splits\<close>)
  next
    case (MigReturn err)
    show thesis by (rule returns [of err]) (use assms MigCalling MigReturn in \<open>simp_all add: up_mig_run_def\<close>)
  qed (use assms MigCalling in \<open>simp_all add: up_mig_run_def\<close>)
next
  case (MigClose err)
  with assms closes show thesis by (cases e) (auto simp: up_mig_run_def split: option.splits prod.splits)
next
  case (MigPut err)
  with assms puts show thesis by (cases e) (auto simp: up_mig_run_def)
next
  case MigGone
  with assms show thesis by (cases e) (auto simp: up_mig_run_def)
qed

lemma up_quic_cases:
  assumes "up_quic_run e u = Some u'"
  obtains (take) "u_quic u = QuicCalling" "take_chan CloudCh u = Some u'"
  | (progress) args where "u_quic u = QuicCalling" "u' = u\<lparr>u_quicIn := u_quicIn u @ [args],
         u_pending := (if \<not> u_migrated u \<and> \<not> u_started u then u_pending u @ [args] else u_pending u)\<rparr>"
  | (passes) args rest where "u_pending u = args # rest" "u' = u\<lparr>u_pending := rest, u_toClient := u_toClient u @ [(CloudCh, args)]\<rparr>"
  | (returns) err where "u_quic u = QuicCalling" "u' = u\<lparr>u_quic := QuicReturned err\<rparr>"
  | (looks) err where "u_quic u = QuicReturned err" "u' = u\<lparr>u_quic := (if u_migrated u then QuicGone else QuicPutting err)\<rparr>"
  | (puts) err where "u_quic u = QuicPutting err" "u' = (put_result (call_result err) u)\<lparr>u_quic := QuicGone\<rparr>"
proof (cases e)
  case QuicTake
  with assms take show thesis by (cases "u_quic u") (auto simp: up_quic_run_def)
next
  case (QuicProgress args)
  with assms progress show thesis by (cases "u_quic u") (auto simp: up_quic_run_def)
next
  case QuicPass
  with assms passes show thesis by (cases "u_quic u"; cases "u_pending u") (auto simp: up_quic_run_def)
next
  case (QuicReturn err)
  with assms returns show thesis by (cases "u_quic u") (auto simp: up_quic_run_def)
next
  case QuicLook
  with assms looks show thesis by (cases "u_quic u") (auto simp: up_quic_run_def)
next
  case QuicResult
  with assms puts show thesis by (cases "u_quic u") (auto simp: up_quic_run_def)
qed

lemma up_cb_cases:
  assumes "up_cb_run u = Some u'"
  obtains (switch) args where "u_cb u = CbSwitch args" "u' = u\<lparr>u_chan := NewCh, u_cb := CbUnfunc args\<rparr>"
  | (unfunc) args where "u_cb u = CbUnfunc args" "u' = u\<lparr>u_closeFunc := False, u_cb := CbClose args\<rparr>"
  | (closes) args x u1 where "u_cb u = CbClose args" "closeCloud u = (x, u1)" "u' = u1\<lparr>u_cb := (if x = None then CbSend args else CbPanicked args)\<rparr>"
  | (sends) args where "u_cb u = CbSend args" "u' = u\<lparr>u_cb := CbIdle, u_toClient := u_toClient u @ [(NewCh, args)]\<rparr>"
  using assms by (cases "u_cb u") (auto simp: up_cb_run_def split: prod.splits option.splits)

text \<open>The carried messages.\<close>

lemma inv_carryD:
  assumes "inv_carry u"
  shows "u_pushed u ch = u_taken u ch @ ch_queue (u_chans u ch)" and "length (ch_queue (u_chans u ch)) \<le> 32"
  using assms unfolding inv_carry_def by blast+

lemma inv_carry_cong:
  "inv_carry u \<Longrightarrow> u_pushed u' = u_pushed u \<Longrightarrow> u_taken u' = u_taken u \<Longrightarrow> (\<And>ch. ch_queue (u_chans u' ch) = ch_queue (u_chans u ch)) \<Longrightarrow> inv_carry u'"
  by (simp add: inv_carry_def)

lemma inv_carry_closeCloud: "inv_carry u \<Longrightarrow> closeCloud u = (x, u') \<Longrightarrow> inv_carry u'"
  by (rule inv_carry_cong) (simp_all add: closeCloud_frame)

lemma inv_carry_take: "inv_carry u \<Longrightarrow> take_chan ch u = Some u' \<Longrightarrow> inv_carry u'"
proof -
  assume i: "inv_carry u" and r: "take_chan ch u = Some u'"
  obtain m rest where q: "ch_queue (u_chans u ch) = m # rest" using r by (cases "ch_queue (u_chans u ch)") (simp_all add: take_chan_def)
  with inv_carryD(2) [OF i, of ch] have "length rest \<le> 32" by simp
  with i r q show ?thesis by (auto simp: take_chan_def inv_carry_def)
qed

lemma inv_carry_goto [simp]: "inv_carry (up_goto t pc u) = inv_carry u"
  by (simp add: inv_carry_def)

lemma inv_carry_close: "inv_carry u \<Longrightarrow> inv_carry (close_chan ch u)"
  by (rule inv_carry_cong [of u]) (simp_all add: close_chan_def)

lemma inv_carry_push:
  "inv_carry u \<Longrightarrow> length (ch_queue (u_chans u ch)) < 32 \<Longrightarrow>
   inv_carry (u\<lparr>u_chans := (u_chans u)(ch := (u_chans u ch)\<lparr>ch_queue := ch_queue (u_chans u ch) @ [m]\<rparr>),
     u_pushed := (u_pushed u)(ch := u_pushed u ch @ [m])\<rparr>)"
  by (simp add: inv_carry_def)

lemma inv_carry_run:
  assumes i: "inv_carry u" and r: "up_run t u = Some u'"
  shows "inv_carry u'"
proof (cases "u_pcs u t")
  case (UpClosingChan b ch)
  obtain x u1 where c: "closeCloud u = (x, u1)" by (cases "closeCloud u")
  from r UpClosingChan c inv_carry_closeCloud [OF i c] inv_carry_close [OF i] i show ?thesis
    by (cases b; cases x) (auto simp: up_run_def split: if_splits)
next
  case (UpClosing)
  then show ?thesis using r i by (auto simp: up_run_def split: if_splits intro: inv_carry_cong)
next
  case UpWaiting
  then show ?thesis using r i by (auto simp: up_run_def split: option.splits intro: inv_carry_cong)
next
  case (UpPushing ch m k)
  then show ?thesis using r i inv_carry_push [OF i] by (auto simp: up_run_def split: if_splits)
qed (use r i in \<open>auto simp: up_run_def\<close>)

lemma inv_carry_put: "inv_carry (put_result r u) = inv_carry u"
  by (simp add: put_result_def inv_carry_def)

lemma inv_carry_quic: "inv_carry u \<Longrightarrow> up_quic_run e u = Some u' \<Longrightarrow> inv_carry u'"
proof -
  assume i: "inv_carry u" and r: "up_quic_run e u = Some u'"
  from r show ?thesis
  proof (cases rule: up_quic_cases)
    case (puts err)
    show ?thesis unfolding puts(2) by (rule inv_carry_cong [of "put_result (call_result err) u"]) (simp_all add: inv_carry_put i)
  qed (auto intro: inv_carry_take [OF i] inv_carry_cong [OF i])
qed

lemma inv_carry_mig: "inv_carry u \<Longrightarrow> up_mig_run kind e u = Some u' \<Longrightarrow> inv_carry u'"
proof -
  assume i: "inv_carry u" and r: "up_mig_run kind e u = Some u'"
  from r show ?thesis
  proof (cases rule: up_mig_cases)
    case (puts err)
    show ?thesis unfolding puts(2) by (rule inv_carry_cong [of "put_result (call_result err) u"]) (simp_all add: inv_carry_put i)
  next
    case (closes err x u1)
    show ?thesis unfolding closes(3) by (rule inv_carry_cong [OF inv_carry_closeCloud [OF i closes(2)]]) simp_all
  qed (auto intro: inv_carry_take [OF i] inv_carry_cong [OF i])
qed

lemma inv_carry_cb: "inv_carry u \<Longrightarrow> up_cb_run u = Some u' \<Longrightarrow> inv_carry u'"
proof -
  assume i: "inv_carry u" and r: "up_cb_run u = Some u'"
  from r show ?thesis
  proof (cases rule: up_cb_cases)
    case (closes args x u1)
    show ?thesis unfolding closes(3) by (rule inv_carry_cong [OF inv_carry_closeCloud [OF i closes(2)]]) simp_all
  qed (auto intro: inv_carry_cong [OF i])
qed

lemma inv_carry_step: "inv_carry u \<Longrightarrow> up_step kind u u' \<Longrightarrow> inv_carry u'"
proof -
  assume i: "inv_carry u" and st: "up_step kind u u'"
  from st show ?thesis
  proof cases
    case (up_runs t) then show ?thesis by (rule inv_carry_run [OF i])
  next
    case (up_quics qe) then show ?thesis by (rule inv_carry_quic [OF i])
  next
    case (up_migs me) then show ?thesis by (rule inv_carry_mig [OF i])
  next
    case up_cbs then show ?thesis by (rule inv_carry_cb [OF i])
  qed (use i in \<open>simp_all add: up_migrate_def inv_carry_def\<close>)
qed

text \<open>The result and the relayed messages.\<close>

lemma inv_result_quic: "inv_result u \<Longrightarrow> up_quic_run e u = Some u' \<Longrightarrow> inv_result u'"
proof -
  assume i: "inv_result u" and r: "up_quic_run e u = Some u'"
  from r show ?thesis
    by (cases rule: up_quic_cases) (use i in \<open>auto simp: inv_result_def put_result_def take_chan_frame\<close>)
qed

lemma inv_result_mig:
  assumes c: "inv_close u" and i: "inv_result u" and r: "up_mig_run kind e u = Some u'"
  shows "inv_result u'"
  using r
proof (cases rule: up_mig_cases)
  case (closes err x u1)
  with i closeCloud_ok [OF c closes(2)] show ?thesis by (simp add: inv_result_def closeCloud_frame [OF closes(2)])
qed (use i in \<open>auto simp: inv_result_def put_result_def take_chan_frame split: up_kind.split\<close>)

lemma inv_result_cb: "inv_result u \<Longrightarrow> up_cb_run u = Some u' \<Longrightarrow> inv_result u'"
proof -
  assume i: "inv_result u" and r: "up_cb_run u = Some u'"
  from r show ?thesis
    by (cases rule: up_cb_cases) (use i in \<open>auto simp: inv_result_def closeCloud_frame\<close>)
qed

lemma inv_result_step:
  assumes c: "inv_close u" and i: "inv_result u" and st: "up_step kind u u'"
  shows "inv_result u'"
  using st
proof cases
  case (up_runs t)
  then show ?thesis using i by (simp add: inv_result_def up_run_frame)
next
  case (up_quics qe) then show ?thesis by (rule inv_result_quic [OF i])
next
  case (up_migs me) then show ?thesis by (rule inv_result_mig [OF c i])
next
  case up_cbs then show ?thesis by (rule inv_result_cb [OF i])
qed (use i in \<open>simp_all add: up_migrate_def inv_result_def\<close>)

lemma inv_relay_quic: "inv_relay u \<Longrightarrow> up_quic_run e u = Some u' \<Longrightarrow> inv_relay u'"
proof -
  assume i: "inv_relay u" and r: "up_quic_run e u = Some u'"
  from r show ?thesis
    by (cases rule: up_quic_cases) (use i in \<open>auto simp: inv_relay_def put_result_def take_chan_frame\<close>)
qed

lemma inv_relay_mig: "inv_relay u \<Longrightarrow> up_mig_run kind e u = Some u' \<Longrightarrow> inv_relay u'"
proof -
  assume i: "inv_relay u" and r: "up_mig_run kind e u = Some u'"
  from r show ?thesis
    by (cases rule: up_mig_cases) (use i in \<open>auto simp: inv_relay_def put_result_def take_chan_frame closeCloud_frame\<close>)
qed

lemma inv_relay_cb: "inv_relay u \<Longrightarrow> up_cb_run u = Some u' \<Longrightarrow> inv_relay u'"
proof -
  assume i: "inv_relay u" and r: "up_cb_run u = Some u'"
  from r show ?thesis
    by (cases rule: up_cb_cases) (use i in \<open>auto simp: inv_relay_def closeCloud_frame\<close>)
qed

lemma inv_relay_step:
  assumes i: "inv_relay u" and st: "up_step kind u u'"
  shows "inv_relay u'"
  using st
proof cases
  case (up_runs t)
  then show ?thesis using i by (simp add: inv_relay_def up_run_frame)
next
  case (up_quics qe) then show ?thesis by (rule inv_relay_quic [OF i])
next
  case (up_migs me) then show ?thesis by (rule inv_relay_mig [OF i])
next
  case up_cbs then show ?thesis by (rule inv_relay_cb [OF i])
qed (use i in \<open>simp_all add: up_migrate_def inv_relay_def\<close>)

text \<open>The closings.\<close>

lemma inv_closeI:
  assumes "ch_closed (u_chans u CloudCh) \<Longrightarrow> u_cloudOnce u" "ch_closed (u_chans u NewCh) \<Longrightarrow> u_closed u"
    "\<not> u_closeFunc u \<Longrightarrow> u_chan u = NewCh" "\<And>args. u_cb u = CbUnfunc args \<Longrightarrow> u_chan u = NewCh"
    "\<And>t b ch. u_pcs u t = UpClosingChan b ch \<Longrightarrow> u_closed u \<and> \<not> ch_closed (u_chans u NewCh) \<and> (b \<or> ch = NewCh)"
    "\<And>t b ch t' b' ch'. u_pcs u t = UpClosingChan b ch \<Longrightarrow> u_pcs u t' = UpClosingChan b' ch' \<Longrightarrow> t = t'"
    "\<And>t. u_pcs u t \<noteq> UpPanicked CloseOfClosedChannel" "\<And>args. u_cb u \<noteq> CbPanicked args"
  shows "inv_close u"
  using assms unfolding inv_close_def by blast

lemma inv_closeD:
  assumes "inv_close u"
  shows "ch_closed (u_chans u CloudCh) \<Longrightarrow> u_cloudOnce u" "ch_closed (u_chans u NewCh) \<Longrightarrow> u_closed u"
    "\<not> u_closeFunc u \<Longrightarrow> u_chan u = NewCh" "u_cb u = CbUnfunc args \<Longrightarrow> u_chan u = NewCh"
    "u_pcs u t = UpClosingChan b ch \<Longrightarrow> u_closed u \<and> \<not> ch_closed (u_chans u NewCh) \<and> (b \<or> ch = NewCh)"
    "u_pcs u t = UpClosingChan b ch \<Longrightarrow> u_pcs u t' = UpClosingChan b' ch' \<Longrightarrow> t = t'"
    "u_pcs u t \<noteq> UpPanicked CloseOfClosedChannel" "u_cb u \<noteq> CbPanicked args"
  using assms unfolding inv_close_def by blast+

text \<open>A step that leaves the closing alone.\<close>

lemma inv_close_frame:
  assumes "inv_close u" and "\<And>ch. ch_closed (u_chans u' ch) = ch_closed (u_chans u ch)" "u_cloudOnce u' = u_cloudOnce u"
    "u_closed u' = u_closed u" "u_closeFunc u' = u_closeFunc u" "u_chan u' = u_chan u" "u_pcs u' = u_pcs u"
    "\<And>args. u_cb u' = CbUnfunc args \<Longrightarrow> u_cb u = CbUnfunc args" "\<And>args. u_cb u' \<noteq> CbPanicked args"
  shows "inv_close u'"
  by (rule inv_closeI) (use assms(2-) inv_closeD [OF assms(1)] in \<open>simp; blast\<close>)+

lemma inv_close_closeCloud:
  assumes i: "inv_close u" and c: "closeCloud u = (x, u')"
  shows "inv_close u'"
proof -
  have "ch_closed (u_chans u' CloudCh) \<Longrightarrow> u_cloudOnce u'" by (simp add: closeCloud_frame [OF c])
  then show ?thesis
    by (intro inv_closeI) (use inv_closeD [OF i] in \<open>simp add: closeCloud_frame [OF c]; blast\<close>)+
qed

text \<open>A goroutine moves to a place where it does not close.\<close>

definition mild :: "up_pc \<Rightarrow> bool" where
  "mild pc \<longleftrightarrow> (\<forall>b ch. pc \<noteq> UpClosingChan b ch) \<and> pc \<noteq> UpPanicked CloseOfClosedChannel"

lemma mild_simps [simp]:
  "mild UpIdle" "mild (UpSending m k)" "mild (UpPushing ch m k)" "mild UpClosing" "mild UpWaiting" "mild (UpReturned r)"
  "mild (UpPanicked x) \<longleftrightarrow> x \<noteq> CloseOfClosedChannel" "mild (up_go_on k)" "mild (up_message first iv)" "mild (up_final iv)"
  by (auto simp: mild_def up_go_on_def up_message_def up_final_def Let_def split: up_next.split sum.split)

lemma inv_close_goto:
  assumes i: "inv_close u" and m: "mild pc"
  shows "inv_close (up_goto t pc u)"
proof (rule inv_closeI)
  fix s b ch assume "u_pcs (up_goto t pc u) s = UpClosingChan b ch"
  then have s: "u_pcs u s = UpClosingChan b ch" using m by (auto simp: mild_def split: if_splits)
  from inv_closeD(5) [OF i s] show "u_closed (up_goto t pc u) \<and> \<not> ch_closed (u_chans (up_goto t pc u) NewCh) \<and> (b \<or> ch = NewCh)" by simp
  fix s' b' ch' assume "u_pcs (up_goto t pc u) s' = UpClosingChan b' ch'"
  then have "u_pcs u s' = UpClosingChan b' ch'" using m by (auto simp: mild_def split: if_splits)
  with s show "s = s'" by (rule inv_closeD(6) [OF i])
next
  fix s show "u_pcs (up_goto t pc u) s \<noteq> UpPanicked CloseOfClosedChannel"
    using m inv_closeD(7) [OF i, of s] by (auto simp: mild_def)
qed (use inv_closeD(1-4,8) [OF i] in simp_all)

lemma inv_close_chans:
  "inv_close u \<Longrightarrow> inv_close (u\<lparr>u_chans := (u_chans u)(ch := (u_chans u ch)\<lparr>ch_queue := q\<rparr>), u_pushed := p\<rparr>)"
  by (rule inv_close_frame [of u]) (simp_all add: inv_closeD)

text \<open>The goroutine that closes the call, and the one that then closes its channel.\<close>

lemma inv_close_mark:
  assumes i: "inv_close u" and n: "\<not> u_closed u"
  shows "inv_close (up_goto t (UpClosingChan (u_closeFunc u) (u_chan u)) (u\<lparr>u_closed := True\<rparr>))" (is "inv_close ?u")
proof (rule inv_closeI)
  have none: "u_pcs u s \<noteq> UpClosingChan b ch" for s b ch using inv_closeD(5) [OF i, of s b ch] n by blast
  fix s b ch assume s: "u_pcs ?u s = UpClosingChan b ch"
  then have st: "s = t" "b = u_closeFunc u" "ch = u_chan u" using none by (auto split: if_splits)
  show "u_closed ?u \<and> \<not> ch_closed (u_chans ?u NewCh) \<and> (b \<or> ch = NewCh)"
    using inv_closeD(2,3) [OF i] n by (auto simp: st)
  fix s' b' ch' assume "u_pcs ?u s' = UpClosingChan b' ch'"
  with none st(1) show "s = s'" by (auto split: if_splits)
next
  fix s show "u_pcs ?u s \<noteq> UpPanicked CloseOfClosedChannel" using inv_closeD(7) [OF i, of s] by simp
qed (use inv_closeD(1-4,8) [OF i] in simp_all)

lemma inv_close_new:
  assumes i: "inv_close u" and t: "u_pcs u t = UpClosingChan False ch"
  shows "inv_close (up_goto t (UpReturned r) (close_chan ch u))" (is "inv_close ?u")
proof (rule inv_closeI)
  have c: "u_closed u" "ch = NewCh" using inv_closeD(5) [OF i t] by auto
  have none: "u_pcs ?u s \<noteq> UpClosingChan b c'" for s b c'
    using inv_closeD(6) [OF i, of s b c' t False ch] t by (auto simp: close_chan_def split: if_splits)
  show "u_closed ?u \<and> \<not> ch_closed (u_chans ?u NewCh) \<and> (b \<or> c' = NewCh)" if "u_pcs ?u s = UpClosingChan b c'" for s b c'
    using none that by blast
  show "s = s'" if "u_pcs ?u s = UpClosingChan b c'" for s b c' s' b' c''
    using none that by blast
  show "u_pcs ?u s \<noteq> UpPanicked CloseOfClosedChannel" for s
    using inv_closeD(7) [OF i, of s] by (simp add: close_chan_def)
  show "ch_closed (u_chans ?u NewCh) \<Longrightarrow> u_closed ?u" using c by (simp add: close_chan_def)
  show "ch_closed (u_chans ?u CloudCh) \<Longrightarrow> u_cloudOnce ?u" using c inv_closeD(1) [OF i] by (simp add: close_chan_def)
qed (use inv_closeD(3,4,8) [OF i] in \<open>simp_all add: close_chan_def\<close>)

lemma inv_close_run:
  assumes i: "inv_close u" and r: "up_run t u = Some u'"
  shows "inv_close u'"
proof (cases "u_pcs u t")
  case (UpSending m k)
  then have "u' = up_goto t (if u_closed u then up_go_on k else UpPushing (u_chan u) m k) u" using r by (simp add: up_run_def)
  then show ?thesis using inv_close_goto [OF i] by simp
next
  case (UpPushing ch m k)
  then show ?thesis using r inv_close_goto [OF inv_close_chans [OF i]] inv_close_goto [OF i]
    by (auto simp: up_run_def split: if_splits)
next
  case UpClosing
  then show ?thesis using r inv_close_goto [OF i] inv_close_mark [OF i] by (auto simp: up_run_def split: if_splits)
next
  case (UpClosingChan b ch)
  show ?thesis
  proof (cases b)
    case True
    obtain x u1 where c: "closeCloud u = (x, u1)" by (cases "closeCloud u")
    from r UpClosingChan True c closeCloud_ok [OF i c] have "u' = up_goto t (UpReturned (InvocationResult [])) u1"
      by (simp add: up_run_def)
    then show ?thesis using inv_close_goto [OF inv_close_closeCloud [OF i c]] by simp
  next
    case False
    with UpClosingChan have t: "u_pcs u t = UpClosingChan False ch" by simp
    with inv_closeD(5) [OF i t] r have "u' = up_goto t (UpReturned (InvocationResult [])) (close_chan ch u)" by (simp add: up_run_def split: if_splits)
    then show ?thesis using inv_close_new [OF i t] by simp
  qed
next
  case UpWaiting
  then obtain r' where "u' = up_goto t (UpReturned r') (u\<lparr>u_cancelled := True\<rparr>)" using r by (auto simp: up_run_def split: option.splits)
  moreover have "inv_close (u\<lparr>u_cancelled := True\<rparr>)" by (rule inv_close_frame [OF i]) (simp_all add: inv_closeD [OF i])
  ultimately show ?thesis using inv_close_goto by simp
qed (use r in \<open>simp_all add: up_run_def\<close>)

lemma inv_close_put [simp]: "inv_close (put_result r u) = inv_close u"
  by (simp add: put_result_def inv_close_def)

lemma inv_close_take: "inv_close u \<Longrightarrow> take_chan ch u = Some u' \<Longrightarrow> inv_close u'"
  by (rule inv_close_frame [of u]) (simp_all add: take_chan_frame inv_closeD)

lemma inv_close_quic: "inv_close u \<Longrightarrow> up_quic_run e u = Some u' \<Longrightarrow> inv_close u'"
proof -
  assume i: "inv_close u" and r: "up_quic_run e u = Some u'"
  from r show ?thesis
  proof (cases rule: up_quic_cases)
    case take
    show ?thesis by (rule inv_close_take [OF i take(2)])
  next
    case (puts err)
    have j: "inv_close (put_result (call_result err) u)" using i by simp
    show ?thesis unfolding puts(2) by (rule inv_close_frame [OF j]) (simp_all add: inv_closeD [OF j])
  qed (auto intro!: inv_close_frame [OF i] simp: inv_closeD [OF i])
qed

lemma inv_close_mig: "inv_close u \<Longrightarrow> up_mig_run kind e u = Some u' \<Longrightarrow> inv_close u'"
proof -
  assume i: "inv_close u" and r: "up_mig_run kind e u = Some u'"
  from r show ?thesis
  proof (cases rule: up_mig_cases)
    case take
    show ?thesis by (rule inv_close_take [OF i take(2)])
  next
    case (puts err)
    have j: "inv_close (put_result (call_result err) u)" using i by simp
    show ?thesis unfolding puts(2) by (rule inv_close_frame [OF j]) (simp_all add: inv_closeD [OF j])
  next
    case (closes err x u1)
    note j = inv_close_closeCloud [OF i closes(2)]
    show ?thesis unfolding closes(3) by (rule inv_close_frame [OF j]) (simp_all add: inv_closeD [OF j])
  next
    case (progress args)
    show ?thesis unfolding progress(3) by (rule inv_close_frame [OF i]) (simp_all split: if_splits)
  qed (auto intro!: inv_close_frame [OF i] simp: inv_closeD [OF i])
qed

lemma inv_close_cb:
  assumes i: "inv_close u" and r: "up_cb_run u = Some u'"
  shows "inv_close u'"
  using r
proof (cases rule: up_cb_cases)
  case (switch args)
  show ?thesis by (rule inv_closeI) (use inv_closeD [OF i] in \<open>auto simp: switch\<close>)
next
  case (unfunc args)
  show ?thesis by (rule inv_closeI) (use inv_closeD [OF i] in \<open>auto simp: unfunc\<close>)
next
  case (closes args x u1)
  note j = inv_close_closeCloud [OF i closes(2)]
  have "x = None" by (rule closeCloud_ok [OF i closes(2)])
  then show ?thesis unfolding closes(3) by (intro inv_close_frame [OF j]) simp_all
next
  case (sends args)
  show ?thesis unfolding sends(2) by (rule inv_close_frame [OF i]) simp_all
qed

lemma inv_close_step:
  assumes i: "inv_close u" and st: "up_step kind u u'"
  shows "inv_close u'"
  using st
proof cases
  case (up_call t iv) then show ?thesis using inv_close_goto [OF i] by simp
next
  case (up_leave t) then show ?thesis using inv_close_goto [OF i] by simp
next
  case (up_runs t) then show ?thesis by (rule inv_close_run [OF i])
next
  case (up_quics qe) then show ?thesis by (rule inv_close_quic [OF i])
next
  case (up_migs me) then show ?thesis by (rule inv_close_mig [OF i])
next
  case up_cbs then show ?thesis by (rule inv_close_cb [OF i])
qed (auto intro!: inv_close_frame [OF i] simp: up_migrate_def inv_closeD [OF i])

lemma up_reachable_inv: "up_reachable kind left u \<Longrightarrow> inv_carry u \<and> inv_relay u"
proof (induction rule: up_reachable.induct)
  case (up_start iv)
  show ?case by (simp add: up_begin_def inv_carry_def inv_relay_def)
next
  case (up_more u u')
  then show ?case using inv_carry_step inv_relay_step by blast
qed

lemma up_reachable_closes: "up_reachable kind False u \<Longrightarrow> inv_close u \<and> inv_result u"
proof (induction rule: up_reachable.induct)
  case (up_start iv)
  have m: "mild (up_message True iv)" by simp
  show ?case using m by (auto simp: up_begin_def inv_close_def inv_result_def mild_def)
next
  case (up_more u u')
  then show ?case using inv_close_step inv_result_step by blast
qed


section \<open>Properties\<close>


definition demo_up :: upcall where
  "demo_up = up_begin False (sample_inv 1 7 ''u'' True [VStr ''realm'', VBytes ''k''])"

definition demo_up1 :: upcall where
  "demo_up1 = demo_up\<lparr>u_quicIn := [[VBytes ''out'']], u_pending := [[VBytes ''out'']]\<rparr>"

lemma demo_up_reachable: "up_reachable kind False demo_up" "up_reachable kind False demo_up1"
proof -
  show r: "up_reachable kind False demo_up" unfolding demo_up_def by (rule up_start)
  have "up_quic_run (QuicProgress [VBytes ''out'']) demo_up = Some demo_up1"
    by (simp add: up_quic_run_def demo_up_def demo_up1_def up_begin_def)
  then show "up_reachable kind False demo_up1" by (rule up_more [OF r up_quics])
qed



text \<open>The first message is sent, the first call ends, and there is no second session.\<close>

definition demo_ends :: "upcall option" where
  "demo_ends = Option.bind (up_run 0 demo_up) (\<lambda>u1. Option.bind (up_run 0 u1) (\<lambda>u2. Option.bind (up_quic_run (QuicReturn None) u2)
     (\<lambda>u3. Option.bind (up_quic_run QuicLook u3) (\<lambda>u4. Option.bind (up_quic_run QuicResult u4)
     (\<lambda>u5. up_mig_run UpShell (MigSession False) u5)))))"

lemma demo_ends_reachable: "demo_ends = Some u \<Longrightarrow> up_reachable UpShell False u"
proof -
  assume "demo_ends = Some u"
  then obtain u1 u2 u3 u4 u5 where c: "up_run 0 demo_up = Some u1" "up_run 0 u1 = Some u2" "up_quic_run (QuicReturn None) u2 = Some u3"
    "up_quic_run QuicLook u3 = Some u4" "up_quic_run QuicResult u4 = Some u5" "up_mig_run UpShell (MigSession False) u5 = Some u"
    unfolding demo_ends_def by (auto simp: Option.bind_eq_Some_conv)
  note r1 = up_more [OF demo_up_reachable(1) up_runs [OF c(1)]]
  note r2 = up_more [OF up_more [OF r1 up_runs [OF c(2)]] up_quics [OF c(3)]]
  show ?thesis by (rule up_more [OF up_more [OF up_more [OF r2 up_quics [OF c(4)]] up_quics [OF c(5)]] up_migs [OF c(6)]])
qed

lemma demo_ends_state:
  "\<exists>u. demo_ends = Some u \<and> u_quic u = QuicGone \<and> u_mig u = MigGone \<and> u_pcs u 0 = UpWaiting \<and> u_result u = Some (InvocationResult [])"
  by (simp add: demo_ends_def demo_up_def up_begin_def up_message_def sample_inv_def up_run_def up_goto_def up_go_on_def
      up_quic_run_def up_mig_run_def put_result_def call_result_def Let_def)


text \<open>A migration under way without the token, and steps that bring none.\<close>

definition muted :: "upcall \<Rightarrow> bool" where
  "muted u \<longleftrightarrow> u_started u \<and> \<not> u_migrated u \<and> u_mig u \<in> {MigBlob, MigGone} \<and> u_blob u = None \<and> u_pending u = [] \<and> u_cb u = CbIdle"

definition tokenless :: "upcall \<Rightarrow> upcall \<Rightarrow> bool" where
  "tokenless u u' \<longleftrightarrow> up_step UpShell u u' \<and> u_blob u' = None"

lemma up_run_blob: "up_run t u = Some u' \<Longrightarrow> u_blob u' = u_blob u"
  by (auto simp: up_run_def closeCloud_def close_chan_def split: up_pc.splits bool.splits if_splits option.splits prod.splits)

lemma muted_step:
  assumes m: "muted u" and st: "tokenless u u'"
  shows "muted u' \<and> u_toClient u' = u_toClient u"
proof -
  from st have s: "up_step UpShell u u'" and b: "u_blob u' = None" by (simp_all add: tokenless_def)
  from s show ?thesis
  proof cases
    case (up_runs t)
    then show ?thesis using m by (simp add: muted_def up_run_frame up_run_blob)
  next
    case (up_quics qe)
    then show ?thesis
      by (cases rule: up_quic_cases) (use m b in \<open>auto simp: muted_def put_result_def take_chan_frame\<close>)
  next
    case (up_migs me)
    then show ?thesis
      by (cases rule: up_mig_cases) (use m in \<open>auto simp: muted_def\<close>)
  next
    case up_cbs
    then show ?thesis using m by (simp add: muted_def up_cb_run_def)
  qed (use m b in \<open>simp_all add: muted_def up_migrate_def\<close>)
qed

text \<open>
  Property C40 (token_lost_mutes_shell): a shell's migration that starts before the caller has
  relayed its token waits for it and drops everything the first call sends, the token among it: as
  long as no token comes nothing reaches the caller any more.
\<close>

theorem token_lost_mutes_shell:
  assumes "tokenless\<^sup>*\<^sup>* u u'" and "muted u"
  shows "u_toClient u' = u_toClient u \<and> (\<forall>args u''. up_quic_run (QuicProgress args) u' = Some u'' \<longrightarrow> u_pending u'' = [])"
proof -
  from assms have m: "muted u' \<and> u_toClient u' = u_toClient u"
    by (induction rule: rtranclp_induct) (auto dest: muted_step)
  have "u_pending u'' = []" if "up_quic_run (QuicProgress args) u' = Some u''" for args u''
    using that m by (auto simp: muted_def up_quic_run_def split: up_quic.splits)
  with m show ?thesis by blast
qed

text \<open>The session is there before the device's first answer, the token \<open>MIGRATE:\<close>, arrives.\<close>

definition demo_token :: "wval list" where
  "demo_token = [VBytes ''MIGRATE:t'']"

definition demo_muted0 :: upcall where
  "demo_muted0 = demo_up\<lparr>u_started := True, u_mig := MigBlob\<rparr>"

definition demo_muted :: upcall where
  "demo_muted = demo_muted0\<lparr>u_quicIn := [demo_token]\<rparr>"

lemma demo_muted_reachable: "up_reachable UpShell False demo_muted0"
proof -
  have "up_mig_run UpShell (MigSession True) demo_up = Some (demo_up\<lparr>u_mig := MigMark\<rparr>)"
    by (simp add: up_mig_run_def demo_up_def up_begin_def)
  then have r: "up_reachable UpShell False (demo_up\<lparr>u_mig := MigMark\<rparr>)" by (rule up_more [OF demo_up_reachable(1) up_migs])
  have "up_mig_run UpShell MigGo (demo_up\<lparr>u_mig := MigMark\<rparr>) = Some demo_muted0"
    by (simp add: up_mig_run_def demo_muted0_def demo_up_def up_begin_def)
  then show ?thesis by (rule up_more [OF r up_migs])
qed

theorem token_lost_mutes_shell_witness:
  "up_reachable UpShell False demo_muted0 \<and> u_quicIn demo_muted = [demo_token] \<and> u_toClient demo_muted = []"
proof -
  have "up_quic_run (QuicProgress demo_token) demo_muted0 = Some demo_muted"
    by (simp add: up_quic_run_def demo_muted_def demo_muted0_def demo_up_def up_begin_def)
  then have "tokenless demo_muted0 demo_muted"
    unfolding tokenless_def by (intro conjI up_quics) (simp_all add: demo_muted_def demo_muted0_def demo_up_def up_begin_def)
  moreover have "muted demo_muted0" by (simp add: muted_def demo_muted0_def demo_up_def up_begin_def)
  ultimately have "u_toClient demo_muted = u_toClient demo_muted0"
    using token_lost_mutes_shell [OF r_into_rtranclp] by blast
  with demo_muted_reachable show ?thesis by (simp add: demo_muted_def demo_muted0_def demo_up_def up_begin_def)
qed

text \<open>
  A message on its way while the second call gives its first progress: the handler read the first
  channel, which is then closed, and sends on it.
\<close>

lemma input_at_switch_panics:
  assumes "u_pcs u t = UpSending m k" "\<not> u_closed u" "u_chan u = CloudCh" "u_cb u = CbSwitch args" "\<not> u_cloudOnce u"
    "\<not> ch_closed (u_chans u CloudCh)"
  shows "\<exists>u1 u2 u3 u4 u5. up_run t u = Some u1 \<and> up_cb_run u1 = Some u2 \<and> up_cb_run u2 = Some u3 \<and> up_cb_run u3 = Some u4 \<and>
    up_run t u4 = Some u5 \<and> u_pcs u5 t = UpPanicked SendOnClosedChannel"
  using assms by (simp add: up_run_def up_cb_run_def closeCloud_def close_chan_def up_goto_def)

end
