(* ===== verification/FileCall.thy ===== *)
theory FileCall
  imports FileOps FileCat
begin

text \<open>
  Encrypted calls of file operations: \<open>CallFileOp\<close> and the client daemon's handlers of
  \<open>src/helpers.go\<close> that pass a caller's request on to a device, against the device's dispatch
  (\<open>Register\<close> of \<open>src/deskconn.go\<close>) and its session keys.
\<close>

section \<open>Calls\<close>

text \<open>
  A call on a device session: the procedure, its arguments, and what comes back. \<open>call\<close> stands for the
  session and everything behind it, with a state of its own.
\<close>

type_synonym 's wamp_call = "string \<Rightarrow> wval list \<Rightarrow> 's \<Rightarrow> 's \<times> wval list result"

definition result_ArgBytes :: "wval list \<Rightarrow> nat \<Rightarrow> bytes result" where
  "result_ArgBytes args i =
     (if i < length args then (case args ! i of VBytes b \<Rightarrow> Inr b | _ \<Rightarrow> Inl (arg_error i)) else Inl (arg_error i))"

definition ProcedureKeyExchange :: string where
  "ProcedureKeyExchange = ''io.xconn.deskconn.deskconnd.key.exchange''"

definition ProcedureFileRename :: string where
  "ProcedureFileRename = ''io.xconn.deskconn.deskconnd.file.rename''"

definition ProcedureFileDelete :: string where
  "ProcedureFileDelete = ''io.xconn.deskconn.deskconnd.file.delete''"

definition ProcedureFileEdit :: string where
  "ProcedureFileEdit = ''io.xconn.deskconn.deskconnd.file.edit''"

text \<open>\<open>rnd\<close> is the private key drawn, or the nonce.\<close>

definition clientKeyExchange :: "crypto \<Rightarrow> bytes result \<Rightarrow> 's wamp_call \<Rightarrow> 's \<Rightarrow> 's \<times> encryptionKeys result" where
  "clientKeyExchange cr rnd call s = (case CreateX25519KeyPair cr rnd of
     Inl e \<Rightarrow> (s, Inl e)
   | Inr (publicKey, privateKey) \<Rightarrow> (case call ProcedureKeyExchange [VBytes publicKey] s of
       (s1, Inl e) \<Rightarrow> (s1, Inl e)
     | (s1, Inr keyResp) \<Rightarrow> (s1, try_result (result_ArgBytes keyResp 0) (\<lambda>serverPublicKey.
         try_result (ClientKeyExchangeKeys cr privateKey serverPublicKey) (\<lambda>(sendKey, receiveKey).
         Inr \<lparr>ek_sendKey = sendKey, ek_receiveKey = receiveKey\<rparr>)))))"

definition encryptedCall ::
  "crypto \<Rightarrow> bytes result \<Rightarrow> 's wamp_call \<Rightarrow> string \<Rightarrow> bytes \<Rightarrow> encryptionKeys \<Rightarrow> 's \<Rightarrow> 's \<times> bytes result" where
  "encryptedCall cr rnd call procedure payload enc s = (case EncryptPayload cr rnd payload (ek_sendKey enc) of
     Inl e \<Rightarrow> (s, Inl e)
   | Inr encrypted \<Rightarrow> (case call procedure [VBytes encrypted] s of
       (s1, Inl e) \<Rightarrow> (s1, Inl e)
     | (s1, Inr opResp) \<Rightarrow> (s1, try_result (result_ArgBytes opResp 0) (\<lambda>encResult.
         DecryptPayload cr encResult (ek_receiveKey enc)))))"

definition CallFileOp ::
  "crypto \<Rightarrow> bytes result \<Rightarrow> bytes result \<Rightarrow> 's wamp_call \<Rightarrow> string \<Rightarrow> bytes \<Rightarrow> 's \<Rightarrow> 's \<times> bytes result" where
  "CallFileOp cr rnd nonce call procedure payload s = (case clientKeyExchange cr rnd call s of
     (s1, Inl e) \<Rightarrow> (s1, Inl e)
   | (s1, Inr enc) \<Rightarrow> encryptedCall cr nonce call procedure payload enc s1)"

section \<open>The handlers of the client's daemon\<close>

text \<open>\<open>ensure\<close> is what \<open>EnsureDeviceSession\<close> gives for a realm: the ID of the session.\<close>

definition parseFileProxyArgs :: "(string \<Rightarrow> u64 result) \<Rightarrow> invocation \<Rightarrow> inv_result + (string \<times> bytes \<times> u64)" where
  "parseFileProxyArgs ensure iv = (case inv_ArgString iv 0 of
     Inl e \<Rightarrow> Inl (invalid_argument e)
   | Inr realm \<Rightarrow> (case inv_ArgString iv 1 of
       Inl e \<Rightarrow> Inl (invalid_argument e)
     | Inr strArg \<Rightarrow> (case inv_ArgBytes iv 2 of
         Inl e \<Rightarrow> Inl (invalid_argument e)
       | Inr bytesArg \<Rightarrow> (case ensure realm of
           Inl e \<Rightarrow> Inl (operation_failed e)
         | Inr sess \<Rightarrow> Inr (strArg, bytesArg, sess)))))"

definition ProxyFileOpHandler ::
  "crypto \<Rightarrow> bytes result \<Rightarrow> bytes result \<Rightarrow> (u64 \<Rightarrow> 's wamp_call) \<Rightarrow> (string \<Rightarrow> u64 result) \<Rightarrow> invocation \<Rightarrow>
   keyManager \<Rightarrow> 's \<Rightarrow> keyManager \<times> 's \<times> inv_result" where
  "ProxyFileOpHandler cr rnd nonce call ensure iv km s = (case parseFileProxyArgs ensure iv of
     Inl r \<Rightarrow> (km, s, r)
   | Inr (procedure, payload, sess) \<Rightarrow>
       (let (km1, s1, enc) = (case km_fetch km sess of
              Some enc \<Rightarrow> (km, s, Inr enc)
            | None \<Rightarrow> (case clientKeyExchange cr rnd (call sess) s of
                (s1, Inl e) \<Rightarrow> (km, s1, Inl e)
              | (s1, Inr enc) \<Rightarrow> (km_store sess enc km, s1, Inr enc)))
        in case enc of
             Inl e \<Rightarrow> (km1, s1, operation_failed e)
           | Inr enc \<Rightarrow> (case encryptedCall cr nonce (call sess) procedure payload enc s1 of
               (s2, Inl e) \<Rightarrow> (km1, s2, operation_failed e)
             | (s2, Inr res) \<Rightarrow> (km1, s2, InvocationResult [VBytes res]))))"

text \<open>\<open>ProxyCatHandler\<close>: the progress messages are passed on.\<close>

definition ProxyCatHandler ::
  "(string \<Rightarrow> u64 result) \<Rightarrow> (u64 \<Rightarrow> string \<Rightarrow> bytes \<Rightarrow> bytes list \<times> inv_result option) \<Rightarrow> invocation \<Rightarrow> bytes list \<times> inv_result option" where
  "ProxyCatHandler ensure cat iv = (case parseFileProxyArgs ensure iv of
     Inl r \<Rightarrow> ([], Some r)
   | Inr (remotePath, publicKey, sess) \<Rightarrow> (case cat sess remotePath publicKey of
       (msgs, None) \<Rightarrow> (msgs, None)
     | (msgs, Some r) \<Rightarrow> (msgs, Some (case call_error r of Some e \<Rightarrow> operation_failed e | None \<Rightarrow> InvocationResult []))))"

section \<open>The device\<close>

text \<open>
  The session keys and the files; \<open>handlers\<close> is the table of procedures. The caller of a call is the
  session it is made on.
\<close>

record 'w file_device =
  fd_keys :: keyManager
  fd_world :: 'w

type_synonym 'w file_handler = "keyManager \<Rightarrow> invocation \<Rightarrow> 'w \<Rightarrow> 'w \<times> inv_result"

definition wamp_result :: "inv_result \<Rightarrow> wval list result" where
  "wamp_result r = (case r of InvocationResult args \<Rightarrow> Inr args | InvocationError _ _ \<Rightarrow> Inl (the (call_error r)))"

definition device_call ::
  "crypto \<Rightarrow> bytes result \<Rightarrow> (string \<Rightarrow> 'w file_handler option) \<Rightarrow> u64 \<Rightarrow> 'w file_device wamp_call" where
  "device_call cr rnd handlers sess procedure args d =
     (let iv = sample_inv 0 sess [] False args
      in if procedure = ProcedureKeyExchange
         then (case handleKeyExchange cr rnd iv (fd_keys d) of (km, r) \<Rightarrow> (d\<lparr>fd_keys := km\<rparr>, wamp_result r))
         else (case handlers procedure of
             None \<Rightarrow> (d, Inl (Errorf ''wamp.error.no_such_procedure''))
           | Some h \<Rightarrow> (case h (fd_keys d) iv (fd_world d) of (w, r) \<Rightarrow> (d\<lparr>fd_world := w\<rparr>, wamp_result r))))"

definition file_handlers ::
  "crypto \<Rightarrow> bytes result \<Rightarrow> (bytes \<Rightarrow> (string \<times> string) result) \<Rightarrow> (bytes \<Rightarrow> string result) \<Rightarrow> (bytes \<Rightarrow> (string \<times> string) result) \<Rightarrow>
   (string \<Rightarrow> patch result) \<Rightarrow> string result \<Rightarrow> string \<Rightarrow> fs file_handler option" where
  "file_handlers cr nonce renameArgs deleteArgs editArgs PatchFromText home procedure =
     (if procedure = ProcedureFileRename then Some (\<lambda>km. handleFileRename cr nonce km renameArgs home)
      else if procedure = ProcedureFileDelete then Some (\<lambda>km. handleFileDelete cr nonce km deleteArgs home)
      else if procedure = ProcedureFileEdit then Some (\<lambda>km. handleFileEdit cr nonce km editArgs PatchFromText home)
      else None)"

section \<open>Encrypted procedures as an interface\<close>

text \<open>
  What a client relies on: without keys the call is refused, with keys the operation \<open>answer\<close> is run
  on the decrypted request and its reply is sealed.
\<close>

locale encrypted_procedure =
  fixes cr :: crypto
    and nonce :: "bytes result"
    and handle :: "'w file_handler"
    and answer :: "bytes \<Rightarrow> 'w \<Rightarrow> 'w \<times> (inv_result + bytes)"
  assumes refuses: "km_fetch km (inv_Caller iv) = None \<Longrightarrow> handle km iv w = (w, no_keys_result)"
    and serves: "km_fetch km (inv_Caller iv) = Some enc \<Longrightarrow> inv_ArgBytes iv 0 = Inr d \<Longrightarrow>
      DecryptPayload cr d (ek_receiveKey enc) = Inr p \<Longrightarrow>
      handle km iv w = (fst (answer p w), case snd (answer p w) of Inl r \<Rightarrow> r | Inr plain \<Rightarrow> seal_result cr nonce enc plain)"
begin

text \<open>A sealed request with the right keys gets the operation's reply.\<close>

lemma call_answers:
  assumes ok: "aead_ok cr" and n: "nonce_drawn nonce" "nonce_drawn rnd"
    and keys: "km_fetch (fd_keys d) sess = Some \<lparr>ek_sendKey = rk, ek_receiveKey = sk\<rparr>" "length sk = 32" "length rk = 32"
    and h: "handlers procedure = Some handle" "procedure \<noteq> ProcedureKeyExchange"
    and a: "answer payload (fd_world d) = (w', Inr plain)"
  shows "encryptedCall cr rnd (device_call cr key handlers sess) procedure payload \<lparr>ek_sendKey = sk, ek_receiveKey = rk\<rparr> d =
    (d\<lparr>fd_world := w'\<rparr>, Inr plain)"
proof -
  obtain c where c: "EncryptPayload cr rnd payload sk = Inr c" using EncryptPayload_total [OF ok keys(2) n(2)] by blast
  have dc: "DecryptPayload cr c sk = Inr payload" by (rule DecryptPayload_Encrypt [OF ok keys(2) n(2) c])
  obtain r where r: "EncryptPayload cr nonce plain rk = Inr r" using EncryptPayload_total [OF ok keys(3) n(1)] by blast
  have dr: "DecryptPayload cr r rk = Inr plain" by (rule DecryptPayload_Encrypt [OF ok keys(3) n(1) r])
  let ?iv = "sample_inv 0 sess [] False [VBytes c]"
  have "handle (fd_keys d) ?iv (fd_world d) = (w', InvocationResult [VBytes r])"
    using serves [of "fd_keys d" ?iv "\<lparr>ek_sendKey = rk, ek_receiveKey = sk\<rparr>" c payload "fd_world d"] keys(1) dc a r
    by (simp add: sample_inv_def seal_result_def)
  then show ?thesis
    using c dr h by (simp add: encryptedCall_def device_call_def wamp_result_def result_ArgBytes_def Let_def)
qed

text \<open>Without keys at the device every call fails and changes nothing.\<close>

lemma call_refused:
  assumes "km_fetch (fd_keys d) sess = None" and h: "handlers procedure = Some handle" "procedure \<noteq> ProcedureKeyExchange"
    and c: "EncryptPayload cr rnd payload (ek_sendKey enc) = Inr c"
  shows "encryptedCall cr rnd (device_call cr key handlers sess) procedure payload enc d = (d, Inl (the (call_error no_keys_result)))"
  using refuses [of "fd_keys d" "sample_inv 0 sess [] False [VBytes c]"] assms
  by (simp add: encryptedCall_def device_call_def wamp_result_def no_keys_result_def Let_def)

end

section \<open>The file operations\<close>

definition op_answer :: "(bytes \<Rightarrow> 'a result) \<Rightarrow> ('a \<Rightarrow> 'w \<Rightarrow> 'w \<times> go_error option) \<Rightarrow> bytes \<Rightarrow> 'w \<Rightarrow> 'w \<times> (inv_result + bytes)" where
  "op_answer unmarshal run p w = (case unmarshal p of
     Inl e \<Rightarrow> (w, Inl (invalid_argument e))
   | Inr args \<Rightarrow> (case run args w of
       (w', Some e) \<Rightarrow> (w', Inl (file_error e))
     | (w', None) \<Rightarrow> (w', Inr ok_json)))"

lemmas op_handler_defs = op_answer_def open_request_def file_reply_def

interpretation rename: encrypted_procedure cr nonce "\<lambda>km. handleFileRename cr nonce km unmarshal home"
  "op_answer unmarshal (\<lambda>(a, b) m. fs_Rename home m a b)"
  for cr nonce unmarshal home
  by unfold_locales (auto simp: handleFileRename_def op_handler_defs split: sum.split prod.split option.split)

interpretation delete: encrypted_procedure cr nonce "\<lambda>km. handleFileDelete cr nonce km unmarshal home"
  "op_answer unmarshal (\<lambda>p m. fs_Delete home m p)"
  for cr nonce unmarshal home
  by unfold_locales (auto simp: handleFileDelete_def op_handler_defs split: sum.split prod.split option.split)

interpretation edit: encrypted_procedure cr nonce "\<lambda>km. handleFileEdit cr nonce km unmarshal pft home"
  "op_answer unmarshal (\<lambda>(a, b) m. fs_Edit pft home m a b)"
  for cr nonce unmarshal pft home
  by unfold_locales (auto simp: handleFileEdit_def op_handler_defs split: sum.split prod.split option.split)

text \<open>What each of the procedures does to the files, keys and encryption left out.\<close>

definition file_answer ::
  "(bytes \<Rightarrow> (string \<times> string) result) \<Rightarrow> (bytes \<Rightarrow> string result) \<Rightarrow> (bytes \<Rightarrow> (string \<times> string) result) \<Rightarrow>
   (string \<Rightarrow> patch result) \<Rightarrow> string result \<Rightarrow> string \<Rightarrow> bytes \<Rightarrow> fs \<Rightarrow> fs \<times> (inv_result + bytes)" where
  "file_answer renameArgs deleteArgs editArgs PatchFromText home procedure =
     (if procedure = ProcedureFileRename then op_answer renameArgs (\<lambda>(a, b) m. fs_Rename home m a b)
      else if procedure = ProcedureFileDelete then op_answer deleteArgs (\<lambda>p m. fs_Delete home m p)
      else op_answer editArgs (\<lambda>(a, b) m. fs_Edit PatchFromText home m a b))"

definition file_procedures :: "string set" where
  "file_procedures = {ProcedureFileRename, ProcedureFileDelete, ProcedureFileEdit}"

lemma file_procedures_distinct [simp]:
  "ProcedureFileRename \<noteq> ProcedureKeyExchange" "ProcedureFileDelete \<noteq> ProcedureKeyExchange" "ProcedureFileEdit \<noteq> ProcedureKeyExchange"
  "ProcedureFileDelete \<noteq> ProcedureFileRename" "ProcedureFileEdit \<noteq> ProcedureFileRename" "ProcedureFileEdit \<noteq> ProcedureFileDelete"
  by (simp_all add: ProcedureFileRename_def ProcedureFileDelete_def ProcedureFileEdit_def ProcedureKeyExchange_def)

lemma file_call_answers:
  assumes "aead_ok cr" "nonce_drawn nonce" "nonce_drawn rnd" and "procedure \<in> file_procedures"
    and "km_fetch (fd_keys d) sess = Some \<lparr>ek_sendKey = rk, ek_receiveKey = sk\<rparr>" "length sk = 32" "length rk = 32"
    and "file_answer ra da ea pft home procedure payload (fd_world d) = (w', Inr plain)"
  shows "encryptedCall cr rnd (device_call cr key (file_handlers cr nonce ra da ea pft home) sess) procedure payload
      \<lparr>ek_sendKey = sk, ek_receiveKey = rk\<rparr> d = (d\<lparr>fd_world := w'\<rparr>, Inr plain)"
proof -
  consider "procedure = ProcedureFileRename" | "procedure = ProcedureFileDelete" | "procedure = ProcedureFileEdit"
    using assms(4) unfolding file_procedures_def by blast
  then show ?thesis
  proof cases
    case 1
    with assms(8) show ?thesis
      by (intro rename.call_answers [OF assms(1-3,5-7)]) (simp_all add: file_handlers_def file_answer_def)
  next
    case 2
    with assms(8) show ?thesis
      by (intro delete.call_answers [OF assms(1-3,5-7)]) (simp_all add: file_handlers_def file_answer_def)
  next
    case 3
    with assms(8) show ?thesis
      by (intro edit.call_answers [OF assms(1-3,5-7)]) (simp_all add: file_handlers_def file_answer_def)
  qed
qed

lemma file_call_refused:
  assumes "procedure \<in> file_procedures" and "km_fetch (fd_keys d) sess = None" and "EncryptPayload cr rnd payload (ek_sendKey enc) = Inr c"
  shows "encryptedCall cr rnd (device_call cr key (file_handlers cr nonce ra da ea pft home) sess) procedure payload enc d =
    (d, Inl (the (call_error no_keys_result)))"
proof -
  consider "procedure = ProcedureFileRename" | "procedure = ProcedureFileDelete" | "procedure = ProcedureFileEdit"
    using assms(1) unfolding file_procedures_def by blast
  then show ?thesis
  proof cases
    case 1
    then show ?thesis by (intro rename.call_refused [OF assms(2) _ _ assms(3)]) (simp_all add: file_handlers_def)
  next
    case 2
    then show ?thesis by (intro delete.call_refused [OF assms(2) _ _ assms(3)]) (simp_all add: file_handlers_def)
  next
    case 3
    then show ?thesis by (intro edit.call_refused [OF assms(2) _ _ assms(3)]) (simp_all add: file_handlers_def)
  qed
qed

section \<open>Keys of the two sides\<close>

text \<open>A cached key pair is the device's pair for the session, crossed.\<close>

definition keys_cross :: "keyManager \<Rightarrow> 'w file_device \<Rightarrow> u64 \<Rightarrow> bool" where
  "keys_cross km d sess \<longleftrightarrow> (\<forall>enc. km_fetch km sess = Some enc \<longrightarrow>
     km_fetch (fd_keys d) sess = Some \<lparr>ek_sendKey = ek_receiveKey enc, ek_receiveKey = ek_sendKey enc\<rparr> \<and>
     length (ek_sendKey enc) = 32 \<and> length (ek_receiveKey enc) = 32)"

text \<open>A key exchange that the device answers leaves crossed keys.\<close>

lemma clientKeyExchange_device:
  assumes cr: "crypto_ok cr" and client: "CreateX25519KeyPair cr rnd = Inr (cpub, cpriv)" "length cpriv = 32"
    and device: "CreateX25519KeyPair cr key = Inr (spub, spriv)" "PerformKeyExchange cr spriv cpub = Inr s"
  shows "\<exists>enc km. clientKeyExchange cr rnd (device_call cr key handlers sess) d = (d\<lparr>fd_keys := km\<rparr>, Inr enc) \<and>
    km_fetch km sess = Some \<lparr>ek_sendKey = ek_receiveKey enc, ek_receiveKey = ek_sendKey enc\<rparr> \<and>
    length (ek_sendKey enc) = 32 \<and> length (ek_receiveKey enc) = 32"
proof -
  let ?iv = "sample_inv 0 sess [] False [VBytes cpub]"
  have h: "hkdf_ok cr" using cr by (simp add: crypto_ok_def)
  obtain sk rk where k: "DeriveKeyHKDF cr s ''backendToFrontend'' = Inr sk" "DeriveKeyHKDF cr s ''frontendToBackend'' = Inr rk"
    using DeriveKeyHKDF_total [OF h] by blast
  have arg: "inv_ArgBytes ?iv 0 = Inr cpub" by (simp add: sample_inv_def)
  have a: "handleKeyExchange cr key ?iv (fd_keys d) =
      (km_store sess \<lparr>ek_sendKey = sk, ek_receiveKey = rk\<rparr> (fd_keys d), InvocationResult [VBytes spub])" (is "_ = (?km, _)")
    using device k by (simp add: handleKeyExchange_def arg)
  obtain e where e: "km_fetch ?km (inv_Caller ?iv) = Some e" "ClientKeyExchangeKeys cr cpriv spub = Inr (ek_receiveKey e, ek_sendKey e)"
    "length (ek_sendKey e) = 32" "length (ek_receiveKey e) = 32"
    using key_exchange_agrees [OF cr client arg a] by blast
  have "clientKeyExchange cr rnd (device_call cr key handlers sess) d =
      (d\<lparr>fd_keys := ?km\<rparr>, Inr \<lparr>ek_sendKey = ek_receiveKey e, ek_receiveKey = ek_sendKey e\<rparr>)"
    using client(1) a e(2) by (simp add: clientKeyExchange_def device_call_def Let_def wamp_result_def call_error_def result_ArgBytes_def)
  then show ?thesis using e by (intro exI conjI) (assumption, simp_all)
qed


section \<open>Properties\<close>


definition demo_device :: "fs file_device" where
  "demo_device = \<lparr>fd_keys = newKeyManager, fd_world = demo_fs\<rparr>"

definition delete_args :: "bytes \<Rightarrow> string result" where
  "delete_args p = (if p = ''del'' then Inr ''d/../a'' else Inl (Errorf ''bad json''))"

definition no_args :: "bytes \<Rightarrow> (string \<times> string) result" where
  "no_args p = Inl (Errorf ''bad json'')"

definition no_patch :: "string \<Rightarrow> patch result" where
  "no_patch p = Inl (Errorf ''bad patch'')"

definition sample_delete :: invocation where
  "sample_delete = sample_inv 0 3 [] False [VStr ''realm'', VStr ProcedureFileDelete, VBytes ''del'']"

abbreviation demo_files :: "string \<Rightarrow> fs file_handler option" where
  "demo_files \<equiv> file_handlers toy_crypto (Inr (replicate 12 CHR ''m'')) no_args delete_args no_args no_patch (Inr ''/h'')"

lemma sample_delete_args: "parseFileProxyArgs (\<lambda>_. Inr 7) sample_delete = Inr (ProcedureFileDelete, ''del'', 7)"
  by (simp add: parseFileProxyArgs_def sample_delete_def sample_inv_def)


text \<open>
  Property C39 (stale_keys_stay): when the device has lost the keys of a session the daemon has
  cached keys for, as after a restart of the device's daemon, every file operation through the
  daemon fails and nothing makes it exchange keys again: the state is the same after any number of
  requests.
\<close>

fun proxy_requests ::
  "crypto \<Rightarrow> (u64 \<Rightarrow> 's wamp_call) \<Rightarrow> (string \<Rightarrow> u64 result) \<Rightarrow> (bytes \<times> bytes \<times> invocation) list \<Rightarrow> keyManager \<Rightarrow> 's \<Rightarrow>
   keyManager \<times> 's \<times> inv_result list" where
  "proxy_requests cr call ensure [] km s = (km, s, [])"
| "proxy_requests cr call ensure ((rnd, nonce, iv) # reqs) km s =
     (case ProxyFileOpHandler cr (Inr rnd) (Inr nonce) call ensure iv km s of
        (km1, s1, r) \<Rightarrow> (case proxy_requests cr call ensure reqs km1 s1 of (km2, s2, rs) \<Rightarrow> (km2, s2, r # rs)))"

definition stale_result :: inv_result where
  "stale_result = operation_failed (the (call_error no_keys_result))"


definition cached_keys :: keyManager where
  "cached_keys = km_store 7 \<lparr>ek_sendKey = replicate 32 CHR ''x'', ek_receiveKey = replicate 32 CHR ''y''\<rparr> newKeyManager"


text \<open>
  A file streamed through the caller's daemon gives the caller the same output, and an error in the
  same cases, as streamed by a direct call.
\<close>

lemma proxied_cat_same:
  assumes "parseFileProxyArgs ensure iv = Inr (remotePath, publicKey, sess)"
  shows "streamCat cr privateKey (ProxyCatHandler ensure cat iv) = streamCat cr privateKey (cat sess remotePath publicKey)"
proof -
  have e: "call_error (operation_failed x) = Some (Errorf ''call failed'')" "call_error r = Some x \<Longrightarrow> x = Errorf ''call failed''" for x r
    by (auto simp: call_error_def split: inv_result.splits)
  obtain msgs r where c: "cat sess remotePath publicKey = (msgs, r)" by (cases "cat sess remotePath publicKey")
  show ?thesis
    using assms c e(2) by (cases r) (auto simp: ProxyCatHandler_def streamCat_def call_error_def split: option.splits inv_result.splits)
qed

end

