(* ===== verification/Device.thy ===== *)
theory Device
  imports PortForward PortReverse AgentForward Logs Shell
begin

text \<open>
  The device's state as a whole: \<open>Deskconn\<close>, \<open>NewDeskconn\<close> and \<open>handleSessionLeave\<close> of
  \<open>src/deskconn.go\<close>, over the tables of the other theories. Each table keeps the connections behind
  its pointers in a store of its own.
\<close>

section \<open>State\<close>

record deskconn =
  dk_shellSession :: shell_world
  dk_keys :: keyManager
  dk_forwardSessions :: fwd
  dk_reverseSessions :: rev
  dk_agentForwardSessions :: agent
  dk_logs :: logSessions

definition NewDeskconn :: deskconn where
  "NewDeskconn = \<lparr>dk_shellSession = newInteractiveShellSession, dk_keys = newKeyManager, dk_forwardSessions = fwd_init,
     dk_reverseSessions = rev_init, dk_agentForwardSessions = ag_init, dk_logs = newLogSessions\<rparr>"

text \<open>\<open>event\<close> is the argument of the router's event.\<close>

definition handleSessionLeave :: "u64 result \<Rightarrow> deskconn \<Rightarrow> deskconn" where
  "handleSessionLeave event d = (case event of
     Inl _ \<Rightarrow> d
   | Inr sessionID \<Rightarrow> d\<lparr>dk_keys := km_delete sessionID (dk_keys d),
       dk_forwardSessions := fwd_deleteCaller sessionID (dk_forwardSessions d),
       dk_reverseSessions := rev_stop sessionID (dk_reverseSessions d),
       dk_agentForwardSessions := ag_stop sessionID (dk_agentForwardSessions d),
       dk_logs := killAndDeleteByCaller sessionID (dk_logs d)\<rparr>)"

text \<open>The tables are in states their own steps can reach.\<close>

definition device_ok :: "crypto \<Rightarrow> (u64 \<Rightarrow> string) \<Rightarrow> log_env \<Rightarrow> deskconn \<Rightarrow> bool" where
  "device_ok cr auth env d \<longleftrightarrow> fwd_reachable cr (dk_forwardSessions d) \<and> rev_reachable cr (dk_reverseSessions d) \<and>
     ag_reachable cr auth (dk_agentForwardSessions d) \<and> log_reachable env (dk_logs d)"

lemma device_ok_init: "device_ok cr auth env NewDeskconn"
  by (simp add: device_ok_def NewDeskconn_def fwd_start rev_start ag_start log_start_state)

lemma ag_stop_socket:
  assumes "ag_reachable cr auth w"
  shows "ag_socketPath (ag_stop c w) c = None"
proof (cases "ag_socketPath w c")
  case None
  then have "ag_stop c w = w" by (auto simp: ag_socketPath_def ag_stop_def ag_owns_def split: option.splits dest!: find_Some_iff [THEN iffD1])
  with None show ?thesis by simp
next
  case (Some path)
  have inv: "ag_inv auth w" and inv': "ag_inv auth (ag_stop c w)"
    using ag_reachable_inv [OF assms] ag_reachable_inv [OF ag_next [OF assms ag_leaves]] by blast+
  from Some obtain s where s: "ag_fetch w (auth c) = Some s"
    by (auto simp: ag_socketPath_def find_owner [OF inv] ag_owns_def ag_fetch_def split: option.splits if_splits)
  have "ag_fetch (ag_stop c w) (auth c) = None" using agent_session_end [OF assms s] Some by blast
  then have "\<not> ag_owns (ag_stop c w) c (auth c)" by (simp add: ag_owns_def ag_fetch_def)
  then show ?thesis by (simp add: ag_socketPath_def find_owner [OF inv'])
qed

section \<open>Properties\<close>


definition demo_device :: deskconn where
  "demo_device = NewDeskconn\<lparr>dk_forwardSessions := demo_w1, dk_reverseSessions := demo_rev2, dk_agentForwardSessions := demo_agent1\<rparr>"


end
