(* ===== verification/ProxyHandlers.thy ===== *)
theory ProxyHandlers
  imports Sessions
begin

text \<open>
  The client daemon's handlers that make one call on a device session (device information, ping,
  printers) and those that run a port forwarding: \<open>src/helpers.go\<close>. They work on the table of
  \<open>Sessions\<close>.
\<close>

section \<open>The handlers\<close>

text \<open>
  \<open>ensure\<close> is \<open>EnsureDeviceSession\<close> and \<open>call\<close> a call on a session; while they run, others change the
  table, so both give the state at their end.
\<close>

type_synonym ensure_session = "string \<Rightarrow> clientSessions \<Rightarrow> clientSessions \<times> nat result"
type_synonym session_call = "string \<Rightarrow> nat \<Rightarrow> wval list \<Rightarrow> clientSessions \<Rightarrow> clientSessions \<times> wval list result"

text \<open>What the four handlers do with the result of the call; \<open>f\<close> makes their own result.\<close>

definition finish_call :: "string \<Rightarrow> nat \<Rightarrow> (wval list \<Rightarrow> wval list) \<Rightarrow> clientSessions \<times> wval list result \<Rightarrow> clientSessions \<times> inv_result" where
  "finish_call realm sess f r = (case r of
     (cs, Inl e) \<Rightarrow> (DeleteDeviceSession realm (leave sess cs), operation_failed e)
   | (cs, Inr args) \<Rightarrow> (cs, InvocationResult (f args)))"

definition with_session ::
  "ensure_session \<Rightarrow> string \<Rightarrow> clientSessions \<Rightarrow> (nat \<Rightarrow> clientSessions \<Rightarrow> clientSessions \<times> inv_result) \<Rightarrow> clientSessions \<times> inv_result" where
  "with_session ensure realm cs k = (case ensure realm cs of
     (cs1, Inl e) \<Rightarrow> (cs1, operation_failed e)
   | (cs1, Inr sess) \<Rightarrow> k sess cs1)"

definition with_string ::
  "invocation \<Rightarrow> nat \<Rightarrow> clientSessions \<Rightarrow> (string \<Rightarrow> clientSessions \<times> inv_result) \<Rightarrow> clientSessions \<times> inv_result" where
  "with_string iv i cs k = (case inv_ArgString iv i of Inl e \<Rightarrow> (cs, invalid_argument e) | Inr s \<Rightarrow> k s)"

definition ProxyDeviceInfoHandler ::
  "ensure_session \<Rightarrow> session_call \<Rightarrow> invocation \<Rightarrow> clientSessions \<Rightarrow> clientSessions \<times> inv_result" where
  "ProxyDeviceInfoHandler ensure call iv cs = with_string iv 0 cs (\<lambda>realm. with_session ensure realm cs (\<lambda>sess cs1.
     finish_call realm sess (\<lambda>args. args) (call ''io.xconn.deskconn.deskconnd.device.info'' sess [] cs1)))"

text \<open>\<open>elapsed\<close>: the milliseconds the call took.\<close>

definition ProxyPingHandler ::
  "int \<Rightarrow> ensure_session \<Rightarrow> session_call \<Rightarrow> invocation \<Rightarrow> clientSessions \<Rightarrow> clientSessions \<times> inv_result" where
  "ProxyPingHandler elapsed ensure call iv cs = with_string iv 0 cs (\<lambda>realm. with_session ensure realm cs (\<lambda>sess cs1.
     finish_call realm sess (\<lambda>args. [VInt elapsed]) (call ''io.xconn.deskconn.deskconnd.ping'' sess [] cs1)))"

definition ProxyPrinterListHandler ::
  "ensure_session \<Rightarrow> session_call \<Rightarrow> invocation \<Rightarrow> clientSessions \<Rightarrow> clientSessions \<times> inv_result" where
  "ProxyPrinterListHandler ensure call iv cs = with_string iv 0 cs (\<lambda>realm. with_session ensure realm cs (\<lambda>sess cs1.
     finish_call realm sess (\<lambda>args. args) (call ''io.xconn.deskconn.deskconnd.printer.list'' sess [] cs1)))"

definition ProxyPrinterPrintHandler ::
  "ensure_session \<Rightarrow> session_call \<Rightarrow> invocation \<Rightarrow> clientSessions \<Rightarrow> clientSessions \<times> inv_result" where
  "ProxyPrinterPrintHandler ensure call iv cs = with_string iv 0 cs (\<lambda>realm. with_string iv 1 cs (\<lambda>printer. with_string iv 2 cs (\<lambda>filename.
     case inv_ArgBytes iv 3 of
       Inl e \<Rightarrow> (cs, invalid_argument e)
     | Inr data \<Rightarrow> with_session ensure realm cs (\<lambda>sess cs1. finish_call realm sess (\<lambda>args. args)
         (call ''io.xconn.deskconn.deskconnd.printer.print'' sess [VStr printer, VStr filename, VBytes data] cs1)))))"

text \<open>
  The two port handlers: \<open>forward\<close> is \<open>ForwardLocalPort\<close>, which returns only with an error;
  \<open>reverse\<close> is \<open>ReverseLocalPort\<close>.
\<close>

definition ProxyPortForwardHandler ::
  "ensure_session \<Rightarrow> (nat \<Rightarrow> string \<Rightarrow> string \<Rightarrow> clientSessions \<Rightarrow> clientSessions \<times> go_error) \<Rightarrow> invocation \<Rightarrow> clientSessions \<Rightarrow>
   clientSessions \<times> inv_result" where
  "ProxyPortForwardHandler ensure forward iv cs = with_string iv 0 cs (\<lambda>realm. with_string iv 1 cs (\<lambda>remotePort. with_string iv 2 cs (\<lambda>localPort.
     with_session ensure realm cs (\<lambda>sess cs1. case forward sess remotePort localPort cs1 of (cs2, e) \<Rightarrow> (cs2, operation_failed e)))))"

definition ProxyPortReverseHandler ::
  "ensure_session \<Rightarrow> (nat \<Rightarrow> string \<Rightarrow> string \<Rightarrow> clientSessions \<Rightarrow> clientSessions \<times> go_error option) \<Rightarrow> invocation \<Rightarrow> clientSessions \<Rightarrow>
   clientSessions \<times> inv_result" where
  "ProxyPortReverseHandler ensure reverse iv cs = with_string iv 0 cs (\<lambda>realm. with_string iv 1 cs (\<lambda>remotePort. with_string iv 2 cs (\<lambda>localPort.
     with_session ensure realm cs (\<lambda>sess cs1. case reverse sess remotePort localPort cs1 of
       (cs2, Some e) \<Rightarrow> (cs2, operation_failed e)
     | (cs2, None) \<Rightarrow> (cs2, InvocationResult [])))))"

section \<open>What a failed call does to the table\<close>

lemma DeleteDeviceSession_gone:
  "fmlookup (cs_sessions (DeleteDeviceSession realm cs)) realm = None"
  "fmlookup (cs_sessions cs) realm = Some e \<Longrightarrow> ds_cancelled (cs_entries (DeleteDeviceSession realm cs) e)"
  "r \<noteq> realm \<Longrightarrow> fmlookup (cs_sessions (DeleteDeviceSession realm cs)) r = fmlookup (cs_sessions cs) r"
  by (auto simp: DeleteDeviceSession_def cancel_def split: option.splits)

lemma leave_frame [simp]: "cs_sessions (leave q cs) = cs_sessions cs" "cs_entries (leave q cs) = cs_entries cs"
  by (simp_all add: leave_def)

text \<open>
  A failed ping ends whatever session the table has for
  the realm by then, also one that has replaced the session the ping failed on: its entry is gone
  and its context cancelled, so calls that run on it are cancelled, and the next request connects
  anew.
\<close>

theorem failed_ping_ends_replacement:
  assumes "inv_ArgString iv 0 = Inr realm" and "ensure realm cs = (cs1, Inr sess)"
    and "call ''io.xconn.deskconn.deskconnd.ping'' sess [] cs1 = (cs2, Inl err)" and "fmlookup (cs_sessions cs2) realm = Some e"
  shows "\<exists>cs'. ProxyPingHandler elapsed ensure call iv cs = (cs', operation_failed err) \<and>
    fmlookup (cs_sessions cs') realm = None \<and> ds_cancelled (cs_entries cs' e) \<and>
    snd (snd (ensureDeviceSession connected realm sub cs')) = [Connecting realm None sub] \<and>
    (\<forall>r. r = realm \<or> fmlookup (cs_sessions cs') r = fmlookup (cs_sessions cs2) r)"
proof -
  let ?cs' = "DeleteDeviceSession realm (leave sess cs2)"
  have "ProxyPingHandler elapsed ensure call iv cs = (?cs', operation_failed err)"
    using assms(1-3) by (simp add: ProxyPingHandler_def with_string_def with_session_def finish_call_def)
  moreover have "snd (snd (ensureDeviceSession connected realm sub ?cs')) = [Connecting realm None sub]"
    by (simp add: ensureDeviceSession_def DeleteDeviceSession_gone)
  ultimately show ?thesis
    using DeleteDeviceSession_gone [where realm = realm and cs = "leave sess cs2"] assms(4) by (intro exI [of _ ?cs']) auto
qed

text \<open>The ping began on session 0; while it ran the table got session 1.\<close>

definition sample_replaced :: clientSessions where
  "sample_replaced = NewClientSessions\<lparr>cs_sessions := fmupd ''r'' 0 fmempty, cs_entries := (\<lambda>_. no_entry\<lparr>ds_session := 1, ds_cancelled := False\<rparr>),
     cs_nextEntry := 1\<rparr>"

theorem failed_ping_ends_replacement_witness:
  "\<exists>cs'. ProxyPingHandler 1 (\<lambda>_ cs. (cs, Inr 0)) (\<lambda>_ _ _ _. (sample_replaced, Inl ErrEOF)) (sample_inv 0 3 [] False [VStr ''r'']) NewClientSessions =
     (cs', operation_failed ErrEOF) \<and> ds_session (cs_entries sample_replaced 0) = 1 \<and> ds_cancelled (cs_entries cs' 0)"
proof -
  have "inv_ArgString (sample_inv 0 3 [] False [VStr ''r'']) 0 = Inr ''r''" by (simp add: sample_inv_def)
  from failed_ping_ends_replacement [where cs = NewClientSessions and ensure = "\<lambda>_ cs. (cs, Inr 0)" and
      call = "\<lambda>_ _ _ _. (sample_replaced, Inl ErrEOF)" and e = 0 and elapsed = 1, OF this refl refl]
  show ?thesis by (simp add: sample_replaced_def NewClientSessions_def, blast)
qed

end
