(* ===== verification/NetTools.thy ===== *)
theory NetTools
  imports GoPath
begin

text \<open>
  The network tools of the IP tunnel: \<open>src/iptun/nettools.go\<close> and \<open>src/iptun/tun.go\<close>. They run \<open>ip\<close> and
  \<open>iptables\<close> and write \<open>/proc/sys\<close>; the machine and its commands are the parameter \<open>netsys\<close>, over a
  state \<open>'n\<close> of the network.
\<close>

section \<open>The machine\<close>

text \<open>
  \<open>ns_exec\<close> runs a command; the error holds its output. \<open>ns_output\<close> gives what a command prints.
  \<open>ns_tun\<close> opens the TUN device of a name and gives the interface's name.
\<close>

record 'n netsys =
  ns_exec :: "string \<Rightarrow> string list \<Rightarrow> 'n \<Rightarrow> 'n \<times> go_error option"
  ns_output :: "string \<Rightarrow> string list \<Rightarrow> 'n \<Rightarrow> string result"
  ns_read :: "string \<Rightarrow> 'n \<Rightarrow> string result"
  ns_write :: "string \<Rightarrow> string \<Rightarrow> 'n \<Rightarrow> 'n \<times> go_error option"
  ns_tun :: "string \<Rightarrow> 'n \<Rightarrow> 'n \<times> string result"

section \<open>Strings\<close>

text \<open>\<open>strings.Fields\<close>; \<open>strings.ReplaceAll\<close> of a character.\<close>

function fields_from :: "string \<Rightarrow> string \<Rightarrow> string list" where
  "fields_from cur s = (case find (\<lambda>p. p \<noteq> [] \<and> has_prefix s p) utf8_spaces of
     Some p \<Rightarrow> (if cur = [] then [] else [cur]) @ fields_from [] (drop (length p) s)
   | None \<Rightarrow> (case s of [] \<Rightarrow> if cur = [] then [] else [cur] | x # xs \<Rightarrow> fields_from (cur @ [x]) xs))"
  by pat_completeness auto
termination fields_from
  by (relation "measure (length \<circ> snd)") (auto simp: find_Some_iff has_prefix_iff)

declare fields_from.simps [simp del]

definition Fields :: "string \<Rightarrow> string list" where
  "Fields s = fields_from [] s"

definition replace_char :: "char \<Rightarrow> char \<Rightarrow> string \<Rightarrow> string" where
  "replace_char a b s = map (\<lambda>c. if c = a then b else c) s"

section \<open>Commands\<close>

definition runNetCmd :: "'n netsys \<Rightarrow> string \<Rightarrow> string list \<Rightarrow> 'n \<Rightarrow> 'n \<times> go_error option" where
  "runNetCmd sys name args n = (case ns_exec sys name args n of
     (n', None) \<Rightarrow> (n', None)
   | (n', Some e) \<Rightarrow> (n', Some (Wrapf (name @ '' '' @ join_with CHR '' '' args @ '': '') e)))"

record DefaultRoute =
  dr_Iface :: string
  dr_Gateway :: string

definition ip_flag :: "int \<Rightarrow> string" where
  "ip_flag ipVersion = (if ipVersion = 6 then ''-6'' else ''-4'')"

text \<open>
  The loop over the words of the line; a later \<open>via\<close> or \<open>dev\<close> replaces an earlier one.
  (\<open>%q\<close> of the last error also escapes special characters, which is left out.)
\<close>

fun route_words :: "string list \<Rightarrow> DefaultRoute \<Rightarrow> DefaultRoute" where
  "route_words (f # g # fs) r = route_words (g # fs)
     (if f = ''via'' then r\<lparr>dr_Gateway := g\<rparr> else if f = ''dev'' then r\<lparr>dr_Iface := g\<rparr> else r)"
| "route_words _ r = r"

definition parse_default_route :: "int \<Rightarrow> string \<Rightarrow> DefaultRoute result" where
  "parse_default_route ipVersion out =
     (let line = TrimSpace (hd (split_on CHR 0x0A out))
      in if line = [] then Inl (Errorf (''no ipv'' @ dec_int ipVersion @ '' default route found''))
         else (let route = route_words (Fields line) \<lparr>dr_Iface = [], dr_Gateway = []\<rparr>
           in if dr_Iface route = [] then Inl (Errorf (''could not parse default route: '' @ CHR 0x22 # line @ [CHR 0x22])) else Inr route))"

definition GetDefaultRoute :: "'n netsys \<Rightarrow> int \<Rightarrow> 'n \<Rightarrow> DefaultRoute result" where
  "GetDefaultRoute sys ipVersion n = (case ns_output sys ''ip'' [ip_flag ipVersion, ''route'', ''show'', ''default''] n of
     Inl e \<Rightarrow> Inl (Wrapf (''ip '' @ ip_flag ipVersion @ '' route show default: '') e)
   | Inr out \<Rightarrow> parse_default_route ipVersion out)"

definition via_words :: "string \<Rightarrow> string list" where
  "via_words gateway = (if gateway = [] then [] else [''via'', gateway])"

definition AddHostRoute :: "'n netsys \<Rightarrow> string \<Rightarrow> string \<Rightarrow> string \<Rightarrow> 'n \<Rightarrow> 'n \<times> go_error option" where
  "AddHostRoute sys ip gateway iface n =
     (case runNetCmd sys ''ip'' ([''route'', ''add'', ip @ ''/32''] @ via_words gateway @ [''dev'', iface]) n of
        (n', None) \<Rightarrow> (n', None)
      | (n', Some e) \<Rightarrow> (n', if contains (err_text e) ''File exists'' then None else Some e))"

definition DelHostRoute :: "'n netsys \<Rightarrow> string \<Rightarrow> 'n \<Rightarrow> 'n \<times> go_error option" where
  "DelHostRoute sys ip n = runNetCmd sys ''ip'' [''route'', ''del'', ip @ ''/32''] n"

definition ReplaceDefaultRoute :: "'n netsys \<Rightarrow> int \<Rightarrow> string \<Rightarrow> 'n \<Rightarrow> 'n \<times> DefaultRoute option result" where
  "ReplaceDefaultRoute sys ipVersion iface n =
     (let prev = (case GetDefaultRoute sys ipVersion n of Inl _ \<Rightarrow> None | Inr r \<Rightarrow> Some r)
      in case runNetCmd sys ''ip'' [ip_flag ipVersion, ''route'', ''replace'', ''default'', ''dev'', iface] n of
           (n', Some e) \<Rightarrow> (n', Inl e)
         | (n', None) \<Rightarrow> (n', Inr prev))"

definition RestoreDefaultRoute :: "'n netsys \<Rightarrow> int \<Rightarrow> DefaultRoute option \<Rightarrow> 'n \<Rightarrow> 'n \<times> go_error option" where
  "RestoreDefaultRoute sys ipVersion prev n =
     (case prev of
        None \<Rightarrow> runNetCmd sys ''ip'' [ip_flag ipVersion, ''route'', ''del'', ''default''] n
      | Some r \<Rightarrow>
          if dr_Iface r = [] then runNetCmd sys ''ip'' [ip_flag ipVersion, ''route'', ''del'', ''default''] n
          else runNetCmd sys ''ip'' ([ip_flag ipVersion, ''route'', ''replace'', ''default''] @ via_words (dr_Gateway r) @ [''dev'', dr_Iface r]) n)"

definition BlockIPv6Default :: "'n netsys \<Rightarrow> 'n \<Rightarrow> 'n \<times> (bool \<times> DefaultRoute option) result" where
  "BlockIPv6Default sys n =
     (let g = GetDefaultRoute sys 6 n;
          prev = (case g of Inl _ \<Rightarrow> None | Inr r \<Rightarrow> Some r)
      in case runNetCmd sys ''ip'' [''-6'', ''route'', ''replace'', ''unreachable'', ''default'', ''metric'', ''1''] n of
           (n', Some e) \<Rightarrow> (n', Inl e)
         | (n', None) \<Rightarrow> (n', Inr (prev \<noteq> None, prev)))"

definition RestoreIPv6Default :: "'n netsys \<Rightarrow> bool \<Rightarrow> DefaultRoute option \<Rightarrow> 'n \<Rightarrow> 'n \<times> go_error option" where
  "RestoreIPv6Default sys hadDefault prev n =
     (if \<not> hadDefault then runNetCmd sys ''ip'' [''-6'', ''route'', ''del'', ''unreachable'', ''default'', ''metric'', ''1''] n
      else RestoreDefaultRoute sys 6 prev n)"

definition sysctl_path :: "string \<Rightarrow> string" where
  "sysctl_path key = ''/proc/sys/'' @ replace_char CHR ''.'' CHR ''/'' key"

definition SetSysctl :: "'n netsys \<Rightarrow> string \<Rightarrow> string \<Rightarrow> 'n \<Rightarrow> 'n \<times> string result" where
  "SetSysctl sys key val n =
     (let path = sysctl_path key
      in case ns_read sys path n of
           Inl e \<Rightarrow> (n, Inl (Wrapf (''read '' @ path @ '': '') e))
         | Inr data \<Rightarrow> (case ns_write sys path val n of
             (n', Some e) \<Rightarrow> (n', Inl (Wrapf (''write '' @ path @ '': '') e))
           | (n', None) \<Rightarrow> (n', Inr (TrimSpace data))))"

definition masquerade_args :: "string \<Rightarrow> string \<Rightarrow> string \<Rightarrow> string list" where
  "masquerade_args act subnet oif = [''-t'', ''nat'', act, ''POSTROUTING'', ''-s'', subnet, ''-o'', oif, ''-j'', ''MASQUERADE'']"

definition AddMasquerade :: "'n netsys \<Rightarrow> string \<Rightarrow> string \<Rightarrow> 'n \<Rightarrow> 'n \<times> go_error option" where
  "AddMasquerade sys subnet oif n = runNetCmd sys ''iptables'' (masquerade_args ''-A'' subnet oif) n"

definition DelMasquerade :: "'n netsys \<Rightarrow> string \<Rightarrow> string \<Rightarrow> 'n \<Rightarrow> 'n \<times> go_error option" where
  "DelMasquerade sys subnet oif n = runNetCmd sys ''iptables'' (masquerade_args ''-D'' subnet oif) n"

definition forward_args :: "string \<Rightarrow> string \<Rightarrow> string \<Rightarrow> string list" where
  "forward_args act inIface outIface = [act, ''FORWARD'', ''-i'', inIface, ''-o'', outIface, ''-j'', ''ACCEPT'']"

definition AddForwardAccept :: "'n netsys \<Rightarrow> string \<Rightarrow> string \<Rightarrow> 'n \<Rightarrow> 'n \<times> go_error option" where
  "AddForwardAccept sys inIface outIface n = runNetCmd sys ''iptables'' (forward_args ''-I'' inIface outIface) n"

definition DelForwardAccept :: "'n netsys \<Rightarrow> string \<Rightarrow> string \<Rightarrow> 'n \<Rightarrow> 'n \<times> go_error option" where
  "DelForwardAccept sys inIface outIface n = runNetCmd sys ''iptables'' (forward_args ''-D'' inIface outIface) n"

definition established_args :: "string \<Rightarrow> string \<Rightarrow> string \<Rightarrow> string list" where
  "established_args act inIface outIface = [act, ''FORWARD'', ''-i'', inIface, ''-o'', outIface,
     ''-m'', ''state'', ''--state'', ''ESTABLISHED,RELATED'', ''-j'', ''ACCEPT'']"

definition AddForwardEstablished :: "'n netsys \<Rightarrow> string \<Rightarrow> string \<Rightarrow> 'n \<Rightarrow> 'n \<times> go_error option" where
  "AddForwardEstablished sys inIface outIface n = runNetCmd sys ''iptables'' (established_args ''-I'' inIface outIface) n"

definition DelForwardEstablished :: "'n netsys \<Rightarrow> string \<Rightarrow> string \<Rightarrow> 'n \<Rightarrow> 'n \<times> go_error option" where
  "DelForwardEstablished sys inIface outIface n = runNetCmd sys ''iptables'' (established_args ''-D'' inIface outIface) n"

text \<open>\<open>src/iptun/tun.go\<close>: three commands, the first that fails ends them.\<close>

definition ConfigureTUNAddress :: "'n netsys \<Rightarrow> string \<Rightarrow> string \<Rightarrow> int \<Rightarrow> 'n \<Rightarrow> 'n \<times> go_error option" where
  "ConfigureTUNAddress sys iface cidr mtu n =
     (case runNetCmd sys ''ip'' [''addr'', ''add'', cidr, ''dev'', iface] n of
        (n1, Some e) \<Rightarrow> (n1, Some (Wrapf (''assign '' @ cidr @ '' to '' @ iface @ '': '') e))
      | (n1, None) \<Rightarrow> (case runNetCmd sys ''ip'' [''link'', ''set'', ''dev'', iface, ''mtu'', dec_int mtu] n1 of
          (n2, Some e) \<Rightarrow> (n2, Some (Wrapf (''set '' @ iface @ '' mtu: '') e))
        | (n2, None) \<Rightarrow> (case runNetCmd sys ''ip'' [''link'', ''set'', ''dev'', iface, ''up''] n2 of
            (n3, Some e) \<Rightarrow> (n3, Some (Wrapf (''bring up '' @ iface @ '': '') e))
          | (n3, None) \<Rightarrow> (n3, None))))"

section \<open>Evaluation of the string functions\<close>

lemma utf8_spaces_chars: "utf8_spaces = [[CHR 0x09], [CHR 0x0A], [CHR 0x0B], [CHR 0x0C], [CHR 0x0D], [CHR 0x20],
 [CHR 0xC2, CHR 0x85], [CHR 0xC2, CHR 0xA0], [CHR 0xE1, CHR 0x9A, CHR 0x80],
       [CHR 0xE2, CHR 0x80, CHR 0x80], [CHR 0xE2, CHR 0x80, CHR 0x81], [CHR 0xE2, CHR 0x80, CHR 0x82], [CHR 0xE2, CHR 0x80, CHR 0x83], [CHR 0xE2, CHR 0x80, CHR 0x84],
       [CHR 0xE2, CHR 0x80, CHR 0x85], [CHR 0xE2, CHR 0x80, CHR 0x86], [CHR 0xE2, CHR 0x80, CHR 0x87], [CHR 0xE2, CHR 0x80, CHR 0x88], [CHR 0xE2, CHR 0x80, CHR 0x89],
       [CHR 0xE2, CHR 0x80, CHR 0x8A], [CHR 0xE2, CHR 0x80, CHR 0xA8], [CHR 0xE2, CHR 0x80, CHR 0xA9], [CHR 0xE2, CHR 0x80, CHR 0xAF], [CHR 0xE2, CHR 0x81, CHR 0x9F],
       [CHR 0xE3, CHR 0x80, CHR 0x80]]"
  by (simp add: utf8_spaces_def char_of_def bit_0)

end
