(* ===== verification/TunnelHelper.thy ===== *)
theory TunnelHelper
  imports NetTools
begin

text \<open>
  The privileged helper of the IP tunnel: the server of \<open>src/iptun/server.go\<close> with its undo stack and the client
  of \<open>src/iptun/client.go\<close>, over the requests of \<open>src/iptun/rpc.go\<close>. JSON is left out: a request and a
  response are values, and a datagram that does not decode is one of its own.
\<close>

section \<open>The undo stack\<close>

text \<open>The functions pushed on the stack differ in what they close over; \<open>run_undo\<close> is their body.\<close>

datatype undo =
    UndoHostRoute string
  | UndoDefaultRoute int "DefaultRoute option"
  | UndoIPv6 bool "DefaultRoute option"
  | UndoSysctl string string
  | UndoMasquerade string string
  | UndoForwardAccept string string
  | UndoForwardEstablished string string

primrec run_undo :: "'n netsys \<Rightarrow> undo \<Rightarrow> 'n \<Rightarrow> 'n \<times> go_error option" where
  "run_undo sys (UndoHostRoute ip) n = DelHostRoute sys ip n"
| "run_undo sys (UndoDefaultRoute v prev) n = RestoreDefaultRoute sys v prev n"
| "run_undo sys (UndoIPv6 had prev) n = RestoreIPv6Default sys had prev n"
| "run_undo sys (UndoSysctl key prev) n = (case SetSysctl sys key prev n of
     (n', Inl e) \<Rightarrow> (n', Some e)
   | (n', Inr _) \<Rightarrow> (n', None))"
| "run_undo sys (UndoMasquerade subnet oif) n = DelMasquerade sys subnet oif n"
| "run_undo sys (UndoForwardAccept inI outI) n = DelForwardAccept sys inI outI n"
| "run_undo sys (UndoForwardEstablished inI outI) n = DelForwardEstablished sys inI outI n"

primrec undo_kind :: "undo \<Rightarrow> string" where
  "undo_kind (UndoHostRoute ip) = ''host_route:'' @ ip"
| "undo_kind (UndoDefaultRoute v prev) = ''default_route''"
| "undo_kind (UndoIPv6 had prev) = ''ipv6_block''"
| "undo_kind (UndoSysctl key prev) = ''sysctl:'' @ key"
| "undo_kind (UndoMasquerade subnet oif) = ''masquerade:'' @ subnet @ ''|'' @ oif"
| "undo_kind (UndoForwardAccept inI outI) = ''forward_accept:'' @ inI @ ''|'' @ outI"
| "undo_kind (UndoForwardEstablished inI outI) = ''forward_established:'' @ inI @ ''|'' @ outI"

text \<open>The stack of a server, newest entry first; \<open>sv_net\<close> is the machine the server runs on.\<close>

record 'n server =
  sv_undo :: "(string \<times> undo) list"
  sv_net :: 'n

definition undo_push :: "undo \<Rightarrow> 'n server \<Rightarrow> 'n server" where
  "undo_push u s = s\<lparr>sv_undo := (undo_kind u, u) # sv_undo s\<rparr>"

fun pop_entry :: "string \<Rightarrow> (string \<times> undo) list \<Rightarrow> (string \<times> undo) list" where
  "pop_entry kind [] = []"
| "pop_entry kind (e # es) = (if fst e = kind then es else e # pop_entry kind es)"

definition undo_pop :: "string \<Rightarrow> 'n server \<Rightarrow> 'n server" where
  "undo_pop kind s = s\<lparr>sv_undo := pop_entry kind (sv_undo s)\<rparr>"

fun unwind :: "'n netsys \<Rightarrow> (string \<times> undo) list \<Rightarrow> 'n \<Rightarrow> 'n" where
  "unwind sys [] n = n"
| "unwind sys (e # es) n = unwind sys es (fst (run_undo sys (snd e) n))"

definition unwindAll :: "'n netsys \<Rightarrow> 'n server \<Rightarrow> 'n server" where
  "unwindAll sys s = \<lparr>sv_undo = [], sv_net = unwind sys (sv_undo s) (sv_net s)\<rparr>"

section \<open>Requests and handlers\<close>

datatype rpcRequest =
    opOpenTUN string
  | opConfigureTUN string string int
  | opAddHostRoute string string string
  | opDelHostRoute string
  | opReplaceDefaultRoute int string
  | opRestoreDefaultRoute int "DefaultRoute option"
  | opBlockIPv6Default
  | opRestoreIPv6Default bool "DefaultRoute option"
  | opSetSysctl string string
  | opRestoreSysctl string string
  | opAddMasquerade string string
  | opDelMasquerade string string
  | opAddForwardAccept string string
  | opDelForwardAccept string string
  | opAddForwardEstablished string string
  | opDelForwardEstablished string string
  | opBadArgs go_error
  | opUnknown string

datatype rpcResponse =
    RespError string
  | RespOK
  | RespTUN string
  | RespPrev "DefaultRoute option"
  | RespIPv6 bool "DefaultRoute option"
  | RespPrevious string

definition errResponse :: "go_error \<Rightarrow> rpcResponse" where
  "errResponse e = RespError (err_text e)"

definition handleOpenTUN :: "'n netsys \<Rightarrow> string \<Rightarrow> 'n server \<Rightarrow> 'n server \<times> rpcResponse" where
  "handleOpenTUN sys name s = (case ns_tun sys name (sv_net s) of
     (n, Inl e) \<Rightarrow> (s\<lparr>sv_net := n\<rparr>, errResponse e)
   | (n, Inr ifaceName) \<Rightarrow> (s\<lparr>sv_net := n\<rparr>, RespTUN ifaceName))"

definition handleConfigureTUN :: "'n netsys \<Rightarrow> string \<Rightarrow> string \<Rightarrow> int \<Rightarrow> 'n server \<Rightarrow> 'n server \<times> rpcResponse" where
  "handleConfigureTUN sys iface cidr mtu s = (case ConfigureTUNAddress sys iface cidr mtu (sv_net s) of
     (n, Some e) \<Rightarrow> (s\<lparr>sv_net := n\<rparr>, errResponse e)
   | (n, None) \<Rightarrow> (s\<lparr>sv_net := n\<rparr>, RespOK))"

definition handleAddHostRoute :: "'n netsys \<Rightarrow> string \<Rightarrow> string \<Rightarrow> string \<Rightarrow> 'n server \<Rightarrow> 'n server \<times> rpcResponse" where
  "handleAddHostRoute sys ip gateway iface s = (case AddHostRoute sys ip gateway iface (sv_net s) of
     (n, Some e) \<Rightarrow> (s\<lparr>sv_net := n\<rparr>, errResponse e)
   | (n, None) \<Rightarrow> (undo_push (UndoHostRoute ip) (s\<lparr>sv_net := n\<rparr>), RespOK))"

definition handleDelHostRoute :: "'n netsys \<Rightarrow> string \<Rightarrow> 'n server \<Rightarrow> 'n server \<times> rpcResponse" where
  "handleDelHostRoute sys ip s = (case DelHostRoute sys ip (sv_net s) of
     (n, Some e) \<Rightarrow> (s\<lparr>sv_net := n\<rparr>, errResponse e)
   | (n, None) \<Rightarrow> (undo_pop (''host_route:'' @ ip) (s\<lparr>sv_net := n\<rparr>), RespOK))"

definition handleReplaceDefaultRoute :: "'n netsys \<Rightarrow> int \<Rightarrow> string \<Rightarrow> 'n server \<Rightarrow> 'n server \<times> rpcResponse" where
  "handleReplaceDefaultRoute sys v iface s = (case ReplaceDefaultRoute sys v iface (sv_net s) of
     (n, Inl e) \<Rightarrow> (s\<lparr>sv_net := n\<rparr>, errResponse e)
   | (n, Inr prev) \<Rightarrow> (undo_push (UndoDefaultRoute v prev) (s\<lparr>sv_net := n\<rparr>), RespPrev prev))"

definition handleRestoreDefaultRoute :: "'n netsys \<Rightarrow> int \<Rightarrow> DefaultRoute option \<Rightarrow> 'n server \<Rightarrow> 'n server \<times> rpcResponse" where
  "handleRestoreDefaultRoute sys v prev s = (case RestoreDefaultRoute sys v prev (sv_net s) of
     (n, Some e) \<Rightarrow> (s\<lparr>sv_net := n\<rparr>, errResponse e)
   | (n, None) \<Rightarrow> (undo_pop ''default_route'' (s\<lparr>sv_net := n\<rparr>), RespOK))"

definition handleBlockIPv6Default :: "'n netsys \<Rightarrow> 'n server \<Rightarrow> 'n server \<times> rpcResponse" where
  "handleBlockIPv6Default sys s = (case BlockIPv6Default sys (sv_net s) of
     (n, Inl e) \<Rightarrow> (s\<lparr>sv_net := n\<rparr>, errResponse e)
   | (n, Inr (hadDefault, prev)) \<Rightarrow>
       (undo_push (UndoIPv6 hadDefault prev) (s\<lparr>sv_net := n\<rparr>), RespIPv6 hadDefault prev))"

definition handleRestoreIPv6Default :: "'n netsys \<Rightarrow> bool \<Rightarrow> DefaultRoute option \<Rightarrow> 'n server \<Rightarrow> 'n server \<times> rpcResponse" where
  "handleRestoreIPv6Default sys had prev s = (case RestoreIPv6Default sys had prev (sv_net s) of
     (n, Some e) \<Rightarrow> (s\<lparr>sv_net := n\<rparr>, errResponse e)
   | (n, None) \<Rightarrow> (undo_pop ''ipv6_block'' (s\<lparr>sv_net := n\<rparr>), RespOK))"

definition handleSetSysctl :: "'n netsys \<Rightarrow> string \<Rightarrow> string \<Rightarrow> 'n server \<Rightarrow> 'n server \<times> rpcResponse" where
  "handleSetSysctl sys key val s = (case SetSysctl sys key val (sv_net s) of
     (n, Inl e) \<Rightarrow> (s\<lparr>sv_net := n\<rparr>, errResponse e)
   | (n, Inr previous) \<Rightarrow> (undo_push (UndoSysctl key previous) (s\<lparr>sv_net := n\<rparr>), RespPrevious previous))"

definition handleRestoreSysctl :: "'n netsys \<Rightarrow> string \<Rightarrow> string \<Rightarrow> 'n server \<Rightarrow> 'n server \<times> rpcResponse" where
  "handleRestoreSysctl sys key val s = (case SetSysctl sys key val (sv_net s) of
     (n, Inl e) \<Rightarrow> (s\<lparr>sv_net := n\<rparr>, errResponse e)
   | (n, Inr _) \<Rightarrow> (undo_pop (''sysctl:'' @ key) (s\<lparr>sv_net := n\<rparr>), RespOK))"

definition handleAddMasquerade :: "'n netsys \<Rightarrow> string \<Rightarrow> string \<Rightarrow> 'n server \<Rightarrow> 'n server \<times> rpcResponse" where
  "handleAddMasquerade sys subnet oif s = (case AddMasquerade sys subnet oif (sv_net s) of
     (n, Some e) \<Rightarrow> (s\<lparr>sv_net := n\<rparr>, errResponse e)
   | (n, None) \<Rightarrow> (undo_push (UndoMasquerade subnet oif) (s\<lparr>sv_net := n\<rparr>), RespOK))"

definition handleDelMasquerade :: "'n netsys \<Rightarrow> string \<Rightarrow> string \<Rightarrow> 'n server \<Rightarrow> 'n server \<times> rpcResponse" where
  "handleDelMasquerade sys subnet oif s = (case DelMasquerade sys subnet oif (sv_net s) of
     (n, Some e) \<Rightarrow> (s\<lparr>sv_net := n\<rparr>, errResponse e)
   | (n, None) \<Rightarrow> (undo_pop (''masquerade:'' @ subnet @ ''|'' @ oif) (s\<lparr>sv_net := n\<rparr>), RespOK))"

definition handleAddForwardAccept :: "'n netsys \<Rightarrow> string \<Rightarrow> string \<Rightarrow> 'n server \<Rightarrow> 'n server \<times> rpcResponse" where
  "handleAddForwardAccept sys inI outI s = (case AddForwardAccept sys inI outI (sv_net s) of
     (n, Some e) \<Rightarrow> (s\<lparr>sv_net := n\<rparr>, errResponse e)
   | (n, None) \<Rightarrow> (undo_push (UndoForwardAccept inI outI) (s\<lparr>sv_net := n\<rparr>), RespOK))"

definition handleDelForwardAccept :: "'n netsys \<Rightarrow> string \<Rightarrow> string \<Rightarrow> 'n server \<Rightarrow> 'n server \<times> rpcResponse" where
  "handleDelForwardAccept sys inI outI s = (case DelForwardAccept sys inI outI (sv_net s) of
     (n, Some e) \<Rightarrow> (s\<lparr>sv_net := n\<rparr>, errResponse e)
   | (n, None) \<Rightarrow> (undo_pop (''forward_accept:'' @ inI @ ''|'' @ outI) (s\<lparr>sv_net := n\<rparr>), RespOK))"

definition handleAddForwardEstablished :: "'n netsys \<Rightarrow> string \<Rightarrow> string \<Rightarrow> 'n server \<Rightarrow> 'n server \<times> rpcResponse" where
  "handleAddForwardEstablished sys inI outI s = (case AddForwardEstablished sys inI outI (sv_net s) of
     (n, Some e) \<Rightarrow> (s\<lparr>sv_net := n\<rparr>, errResponse e)
   | (n, None) \<Rightarrow> (undo_push (UndoForwardEstablished inI outI) (s\<lparr>sv_net := n\<rparr>), RespOK))"

definition handleDelForwardEstablished :: "'n netsys \<Rightarrow> string \<Rightarrow> string \<Rightarrow> 'n server \<Rightarrow> 'n server \<times> rpcResponse" where
  "handleDelForwardEstablished sys inI outI s = (case DelForwardEstablished sys inI outI (sv_net s) of
     (n, Some e) \<Rightarrow> (s\<lparr>sv_net := n\<rparr>, errResponse e)
   | (n, None) \<Rightarrow> (undo_pop (''forward_established:'' @ inI @ ''|'' @ outI) (s\<lparr>sv_net := n\<rparr>), RespOK))"

primrec serve_request :: "'n netsys \<Rightarrow> 'n server \<Rightarrow> rpcRequest \<Rightarrow> 'n server \<times> rpcResponse" where
  "serve_request sys s (opOpenTUN name) = handleOpenTUN sys name s"
| "serve_request sys s (opConfigureTUN iface cidr mtu) = handleConfigureTUN sys iface cidr mtu s"
| "serve_request sys s (opAddHostRoute ip gateway iface) = handleAddHostRoute sys ip gateway iface s"
| "serve_request sys s (opDelHostRoute ip) = handleDelHostRoute sys ip s"
| "serve_request sys s (opReplaceDefaultRoute v iface) = handleReplaceDefaultRoute sys v iface s"
| "serve_request sys s (opRestoreDefaultRoute v prev) = handleRestoreDefaultRoute sys v prev s"
| "serve_request sys s opBlockIPv6Default = handleBlockIPv6Default sys s"
| "serve_request sys s (opRestoreIPv6Default had prev) = handleRestoreIPv6Default sys had prev s"
| "serve_request sys s (opSetSysctl key val) = handleSetSysctl sys key val s"
| "serve_request sys s (opRestoreSysctl key val) = handleRestoreSysctl sys key val s"
| "serve_request sys s (opAddMasquerade subnet oif) = handleAddMasquerade sys subnet oif s"
| "serve_request sys s (opDelMasquerade subnet oif) = handleDelMasquerade sys subnet oif s"
| "serve_request sys s (opAddForwardAccept inI outI) = handleAddForwardAccept sys inI outI s"
| "serve_request sys s (opDelForwardAccept inI outI) = handleDelForwardAccept sys inI outI s"
| "serve_request sys s (opAddForwardEstablished inI outI) = handleAddForwardEstablished sys inI outI s"
| "serve_request sys s (opDelForwardEstablished inI outI) = handleDelForwardEstablished sys inI outI s"
| "serve_request sys s (opBadArgs e) = (s, errResponse e)"
| "serve_request sys s (opUnknown opn) = (s, RespError (''unknown op '' @ CHR 0x22 # opn @ [CHR 0x22]))"

text \<open>
  \<open>Serve\<close> on the datagrams that arrive until a read fails: the responses it writes and the server after it has
  unwound.
\<close>

datatype datagram = EmptyDatagram | MalformedDatagram go_error | Request rpcRequest

fun serve_loop :: "'n netsys \<Rightarrow> datagram list \<Rightarrow> 'n server \<Rightarrow> 'n server \<times> rpcResponse list" where
  "serve_loop sys [] s = (s, [])"
| "serve_loop sys (EmptyDatagram # ds) s = serve_loop sys ds s"
| "serve_loop sys (MalformedDatagram e # ds) s =
     (let (s', rs) = serve_loop sys ds s in (s', RespError (''malformed request: '' @ err_text e) # rs))"
| "serve_loop sys (Request r # ds) s =
     (let (s1, resp) = serve_request sys s r; (s', rs) = serve_loop sys ds s1 in (s', resp # rs))"

definition Serve :: "'n netsys \<Rightarrow> datagram list \<Rightarrow> 'n \<Rightarrow> 'n server \<times> rpcResponse list" where
  "Serve sys ds n = (let (s, rs) = serve_loop sys ds \<lparr>sv_undo = [], sv_net = n\<rparr> in (unwindAll sys s, rs))"

section \<open>What the commands promise\<close>

text \<open>
  \<open>view\<close> is what has to survive the helper: routes, rules and kernel settings, without the TUN interfaces
  themselves. \<open>undo_target\<close> is the part of it an undo writes.
\<close>

primrec undo_target :: "undo \<Rightarrow> string list" where
  "undo_target (UndoHostRoute ip) = [''host'', ip]"
| "undo_target (UndoDefaultRoute v prev) = [''default'', ip_flag v]"
| "undo_target (UndoIPv6 had prev) = [''default'', ''-6'']"
| "undo_target (UndoSysctl key prev) = [sysctl_path key]"
| "undo_target (UndoMasquerade subnet oif) = masquerade_args ''-D'' subnet oif"
| "undo_target (UndoForwardAccept inI outI) = forward_args ''-D'' inI outI"
| "undo_target (UndoForwardEstablished inI outI) = established_args ''-D'' inI outI"

definition undone :: "'n netsys \<Rightarrow> undo \<Rightarrow> 'n \<Rightarrow> 'n" where
  "undone sys u n = fst (run_undo sys u n)"

text \<open>An undo reads nothing but the view; undos of different parts do not disturb each other.\<close>

definition undos_follow_view :: "'n netsys \<Rightarrow> ('n \<Rightarrow> 'v) \<Rightarrow> bool" where
  "undos_follow_view sys view \<longleftrightarrow> (\<forall>u n m. view n = view m \<longrightarrow> view (undone sys u n) = view (undone sys u m))"

definition undos_commute :: "'n netsys \<Rightarrow> ('n \<Rightarrow> 'v) \<Rightarrow> bool" where
  "undos_commute sys view \<longleftrightarrow> (\<forall>u w n. undo_target u \<noteq> undo_target w \<longrightarrow>
     view (undone sys u (undone sys w n)) = view (undone sys w (undone sys u n)))"

text \<open>A command or a write that fails changes nothing; the commands on the interface leave the view.\<close>

definition failures_harmless :: "'n netsys \<Rightarrow> ('n \<Rightarrow> 'v) \<Rightarrow> bool" where
  "failures_harmless sys view \<longleftrightarrow>
     (\<forall>c a n n' e. ns_exec sys c a n = (n', Some e) \<longrightarrow> view n' = view n) \<and>
     (\<forall>p x n n' e. ns_write sys p x n = (n', Some e) \<longrightarrow> view n' = view n)"

definition interface_apart :: "'n netsys \<Rightarrow> ('n \<Rightarrow> 'v) \<Rightarrow> bool" where
  "interface_apart sys view \<longleftrightarrow>
     (\<forall>name n. view (fst (ns_tun sys name n)) = view n) \<and>
     (\<forall>a n. view (fst (ns_exec sys ''ip'' (''addr'' # a) n)) = view n) \<and>
     (\<forall>a n. view (fst (ns_exec sys ''ip'' (''link'' # a) n)) = view n)"

text \<open>The deletion or replacement that answers to each change that was carried out.\<close>

definition default_before :: "'n netsys \<Rightarrow> int \<Rightarrow> 'n \<Rightarrow> DefaultRoute option" where
  "default_before sys v n = (case GetDefaultRoute sys v n of Inl _ \<Rightarrow> None | Inr r \<Rightarrow> Some r)"

definition routes_undone :: "'n netsys \<Rightarrow> ('n \<Rightarrow> 'v) \<Rightarrow> bool" where
  "routes_undone sys view \<longleftrightarrow>
     (\<forall>ip gw i n n'. ns_exec sys ''ip'' ([''route'', ''add'', ip @ ''/32''] @ via_words gw @ [''dev'', i]) n = (n', None) \<longrightarrow>
        view (undone sys (UndoHostRoute ip) n') = view n) \<and>
     (\<forall>v i n n'. ns_exec sys ''ip'' [ip_flag v, ''route'', ''replace'', ''default'', ''dev'', i] n = (n', None) \<longrightarrow>
        view (undone sys (UndoDefaultRoute v (default_before sys v n)) n') = view n) \<and>
     (\<forall>n n'. ns_exec sys ''ip'' [''-6'', ''route'', ''replace'', ''unreachable'', ''default'', ''metric'', ''1''] n = (n', None) \<longrightarrow>
        default_before sys 6 n = None \<longrightarrow> view (undone sys (UndoIPv6 False None) n') = view n)"

definition sysctls_undone :: "'n netsys \<Rightarrow> ('n \<Rightarrow> 'v) \<Rightarrow> bool" where
  "sysctls_undone sys view \<longleftrightarrow>
     (\<forall>key x n n' prev. SetSysctl sys key x n = (n', Inr prev) \<longrightarrow> view (undone sys (UndoSysctl key prev) n') = view n)"

definition rules_undone :: "'n netsys \<Rightarrow> ('n \<Rightarrow> 'v) \<Rightarrow> bool" where
  "rules_undone sys view \<longleftrightarrow>
     (\<forall>s i n n'. ns_exec sys ''iptables'' (masquerade_args ''-A'' s i) n = (n', None) \<longrightarrow>
        view (undone sys (UndoMasquerade s i) n') = view n) \<and>
     (\<forall>i j n n'. ns_exec sys ''iptables'' (forward_args ''-I'' i j) n = (n', None) \<longrightarrow>
        view (undone sys (UndoForwardAccept i j) n') = view n) \<and>
     (\<forall>i j n n'. ns_exec sys ''iptables'' (established_args ''-I'' i j) n = (n', None) \<longrightarrow>
        view (undone sys (UndoForwardEstablished i j) n') = view n)"

definition lawful_net :: "'n netsys \<Rightarrow> ('n \<Rightarrow> 'v) \<Rightarrow> bool" where
  "lawful_net sys view \<longleftrightarrow> undos_follow_view sys view \<and> undos_commute sys view \<and> failures_harmless sys view \<and>
     interface_apart sys view \<and> routes_undone sys view \<and> sysctls_undone sys view \<and> rules_undone sys view"

section \<open>Clean clients\<close>

text \<open>
  A request is clean when the helper can take it back: a host route that was not there before, an IPv6 block where
  there was no default route, and an explicit undo only of something outstanding, with the values it had.
\<close>

fun undo_ready :: "undo \<Rightarrow> (string \<times> undo) list \<Rightarrow> bool" where
  "undo_ready u [] \<longleftrightarrow> False"
| "undo_ready u ((k, w) # es) \<longleftrightarrow>
     (if k = undo_kind u then w = u else undo_target w \<noteq> undo_target u \<and> undo_ready u es)"

definition route_fresh :: "'n netsys \<Rightarrow> string \<Rightarrow> string \<Rightarrow> string \<Rightarrow> 'n \<Rightarrow> bool" where
  "route_fresh sys ip gw i n =
     (case snd (runNetCmd sys ''ip'' ([''route'', ''add'', ip @ ''/32''] @ via_words gw @ [''dev'', i]) n) of
        None \<Rightarrow> True
      | Some e \<Rightarrow> \<not> contains (err_text e) ''File exists'')"

fun clean_request :: "'n netsys \<Rightarrow> 'n server \<Rightarrow> rpcRequest \<Rightarrow> bool" where
  "clean_request sys s (opAddHostRoute ip gw i) \<longleftrightarrow> route_fresh sys ip gw i (sv_net s)"
| "clean_request sys s (opDelHostRoute ip) \<longleftrightarrow> undo_ready (UndoHostRoute ip) (sv_undo s)"
| "clean_request sys s (opRestoreDefaultRoute v prev) \<longleftrightarrow> undo_ready (UndoDefaultRoute v prev) (sv_undo s)"
| "clean_request sys s opBlockIPv6Default \<longleftrightarrow> default_before sys 6 (sv_net s) = None"
| "clean_request sys s (opRestoreIPv6Default had prev) \<longleftrightarrow> undo_ready (UndoIPv6 had prev) (sv_undo s)"
| "clean_request sys s (opRestoreSysctl key prev) \<longleftrightarrow> undo_ready (UndoSysctl key prev) (sv_undo s)"
| "clean_request sys s (opDelMasquerade s' i) \<longleftrightarrow> undo_ready (UndoMasquerade s' i) (sv_undo s)"
| "clean_request sys s (opDelForwardAccept i j) \<longleftrightarrow> undo_ready (UndoForwardAccept i j) (sv_undo s)"
| "clean_request sys s (opDelForwardEstablished i j) \<longleftrightarrow> undo_ready (UndoForwardEstablished i j) (sv_undo s)"
| "clean_request sys s _ \<longleftrightarrow> True"

fun clean_client :: "'n netsys \<Rightarrow> 'n server \<Rightarrow> datagram list \<Rightarrow> bool" where
  "clean_client sys s [] \<longleftrightarrow> True"
| "clean_client sys s (Request r # ds) \<longleftrightarrow>
     clean_request sys s r \<and> clean_client sys (fst (serve_request sys s r)) ds"
| "clean_client sys s (_ # ds) \<longleftrightarrow> clean_client sys s ds"

lemma lawful_parts:
  assumes "lawful_net sys view"
  shows "undos_follow_view sys view" "undos_commute sys view" "failures_harmless sys view" "interface_apart sys view"
    "routes_undone sys view" "sysctls_undone sys view" "rules_undone sys view"
  using assms by (simp_all add: lawful_net_def)

lemma undone_view: "undos_follow_view sys view \<Longrightarrow> view n = view m \<Longrightarrow> view (undone sys u n) = view (undone sys u m)"
  unfolding undos_follow_view_def by blast

lemma undone_commute: "undos_commute sys view \<Longrightarrow> undo_target u \<noteq> undo_target w \<Longrightarrow>
    view (undone sys u (undone sys w n)) = view (undone sys w (undone sys u n))"
  unfolding undos_commute_def by blast

section \<open>What a request does to the stack\<close>

text \<open>Three kinds of steps: nothing of the view changed, a change with its undo pushed, an undo carried out.\<close>

inductive helper_step :: "'n netsys \<Rightarrow> ('n \<Rightarrow> 'v) \<Rightarrow> 'n server \<Rightarrow> 'n server \<Rightarrow> bool"
  for sys :: "'n netsys" and view :: "'n \<Rightarrow> 'v" where
  keeps: "sv_undo s' = sv_undo s \<Longrightarrow> view (sv_net s') = view (sv_net s) \<Longrightarrow> helper_step sys view s s'"
| pushes: "sv_undo s' = (undo_kind u, u) # sv_undo s \<Longrightarrow> view (undone sys u (sv_net s')) = view (sv_net s)
    \<Longrightarrow> helper_step sys view s s'"
| undoes: "undo_ready u (sv_undo s) \<Longrightarrow> sv_undo s' = pop_entry (undo_kind u) (sv_undo s)
    \<Longrightarrow> sv_net s' = undone sys u (sv_net s) \<Longrightarrow> helper_step sys view s s'"

lemma exec_fails: "failures_harmless sys view \<Longrightarrow> ns_exec sys c a n = (n', Some e) \<Longrightarrow> view n' = view n"
  unfolding failures_harmless_def by blast

lemma write_fails: "failures_harmless sys view \<Longrightarrow> ns_write sys p x n = (n', Some e) \<Longrightarrow> view n' = view n"
  unfolding failures_harmless_def by blast

lemma runNetCmd_fails:
  assumes "failures_harmless sys view" "runNetCmd sys c a n = (n', Some e)"
  shows "view n' = view n"
  using assms(2) exec_fails [OF assms(1)] unfolding runNetCmd_def
  by (cases "ns_exec sys c a n") (auto split: option.splits)

lemma runNetCmd_ok: "runNetCmd sys c a n = (n', None) \<longleftrightarrow> ns_exec sys c a n = (n', None)"
  unfolding runNetCmd_def by (auto split: option.splits prod.splits)

lemma runNetCmd_fst: "fst (runNetCmd sys c a n) = fst (ns_exec sys c a n)"
  unfolding runNetCmd_def by (auto split: option.splits prod.splits)

lemma SetSysctl_fails:
  assumes "failures_harmless sys view" "SetSysctl sys key x n = (n', Inl e)"
  shows "view n' = view n"
  using assms(2) write_fails [OF assms(1)] unfolding SetSysctl_def Let_def
  by (auto split: sum.splits option.splits prod.splits)

lemma run_undo_fails:
  assumes F: "failures_harmless sys view" and R: "run_undo sys u n = (n', Some e)"
  shows "view n' = view n"
proof (cases u)
  case (UndoDefaultRoute v prev)
  then show ?thesis using R runNetCmd_fails [OF F]
    by (auto simp: RestoreDefaultRoute_def split: option.splits if_splits)
next
  case (UndoIPv6 had prev)
  then show ?thesis using R runNetCmd_fails [OF F]
    by (auto simp: RestoreIPv6Default_def RestoreDefaultRoute_def split: option.splits if_splits)
next
  case (UndoSysctl key prev)
  then show ?thesis using R SetSysctl_fails [OF F] by (auto split: prod.splits sum.splits)
qed (use R runNetCmd_fails [OF F] in
    \<open>auto simp: DelHostRoute_def DelMasquerade_def DelForwardAccept_def DelForwardEstablished_def\<close>)


text \<open>An explicit undo request, whatever its kind, is one scheme.\<close>

definition undo_request :: "'n netsys \<Rightarrow> undo \<Rightarrow> 'n server \<Rightarrow> 'n server \<times> rpcResponse" where
  "undo_request sys u s = (case run_undo sys u (sv_net s) of
     (n, Some e) \<Rightarrow> (s\<lparr>sv_net := n\<rparr>, errResponse e)
   | (n, None) \<Rightarrow> (undo_pop (undo_kind u) (s\<lparr>sv_net := n\<rparr>), RespOK))"

lemma undo_requests:
  "handleDelHostRoute sys ip s = undo_request sys (UndoHostRoute ip) s"
  "handleRestoreDefaultRoute sys v prev s = undo_request sys (UndoDefaultRoute v prev) s"
  "handleRestoreIPv6Default sys had prev s = undo_request sys (UndoIPv6 had prev) s"
  "handleRestoreSysctl sys key val s = undo_request sys (UndoSysctl key val) s"
  "handleDelMasquerade sys subnet oif s = undo_request sys (UndoMasquerade subnet oif) s"
  "handleDelForwardAccept sys inI outI s = undo_request sys (UndoForwardAccept inI outI) s"
  "handleDelForwardEstablished sys inI outI s = undo_request sys (UndoForwardEstablished inI outI) s"
  by (simp_all add: undo_request_def handleDelHostRoute_def handleRestoreDefaultRoute_def handleRestoreIPv6Default_def
      handleRestoreSysctl_def handleDelMasquerade_def handleDelForwardAccept_def handleDelForwardEstablished_def
      split: prod.splits sum.splits option.splits)

lemma undo_request_step:
  assumes F: "failures_harmless sys view" and R: "undo_ready u (sv_undo s)"
  shows "helper_step sys view s (fst (undo_request sys u s))"
proof (cases "run_undo sys u (sv_net s)")
  case (Pair n r)
  show ?thesis
  proof (cases r)
    case None
    have "fst (undo_request sys u s) = undo_pop (undo_kind u) (s\<lparr>sv_net := n\<rparr>)"
      using Pair None by (simp add: undo_request_def)
    then show ?thesis using R Pair by (auto simp: undo_pop_def undone_def intro: helper_step.undoes)
  next
    case (Some e)
    have "view n = view (sv_net s)" by (rule run_undo_fails [OF F]) (use Pair Some in simp)
    then show ?thesis using Pair Some by (auto simp: undo_request_def intro: helper_step.keeps)
  qed
qed

lemma push_step:
  assumes "view (undone sys u n) = view (sv_net s)"
  shows "helper_step sys view s (undo_push u (s\<lparr>sv_net := n\<rparr>))"
  using assms by (auto simp: undo_push_def intro: helper_step.pushes)

lemma net_step: "view n = view (sv_net s) \<Longrightarrow> helper_step sys view s (s\<lparr>sv_net := n\<rparr>)"
  by (auto intro: helper_step.keeps)


lemma clean_step_commands:
  assumes L: "lawful_net sys view"
  shows "helper_step sys view s (fst (handleOpenTUN sys name s))"
    and "helper_step sys view s (fst (handleConfigureTUN sys iface cidr mtu s))"
proof -
  have I: "\<And>n. view (fst (ns_tun sys name n)) = view n"
    "\<And>a n. view (fst (ns_exec sys ''ip'' (''addr'' # a) n)) = view n"
    "\<And>a n. view (fst (ns_exec sys ''ip'' (''link'' # a) n)) = view n"
    using L unfolding lawful_net_def interface_apart_def by blast+
  show "helper_step sys view s (fst (handleOpenTUN sys name s))"
    using I(1) [of "sv_net s"] by (auto simp: handleOpenTUN_def split: prod.splits sum.splits intro: net_step)
  have "view (fst (ConfigureTUNAddress sys iface cidr mtu n)) = view n" for n
  proof -
    define n1 where "n1 = fst (runNetCmd sys ''ip'' [''addr'', ''add'', cidr, ''dev'', iface] n)"
    define n2 where "n2 = fst (runNetCmd sys ''ip'' [''link'', ''set'', ''dev'', iface, ''mtu'', dec_int mtu] n1)"
    define n3 where "n3 = fst (runNetCmd sys ''ip'' [''link'', ''set'', ''dev'', iface, ''up''] n2)"
    have v: "view n1 = view n" "view n2 = view n" "view n3 = view n"
      unfolding n3_def n2_def n1_def runNetCmd_fst by (simp_all add: I)
    have "fst (ConfigureTUNAddress sys iface cidr mtu n) \<in> {n1, n2, n3}"
      unfolding ConfigureTUNAddress_def n1_def n2_def n3_def by (auto split: prod.splits option.splits)
    then show ?thesis using v by auto
  qed
  then show "helper_step sys view s (fst (handleConfigureTUN sys iface cidr mtu s))"
    by (auto simp: handleConfigureTUN_def split: prod.splits option.splits intro!: net_step) (metis fst_conv)+
qed

text \<open>A change: when it fails the view stands, when it succeeds its undo is pushed.\<close>

lemma change_step:
  assumes F: "failures_harmless sys view"
    and C: "runNetCmd sys c a (sv_net s) = r"
    and ok: "\<And>n. r = (n, None) \<Longrightarrow> view (undone sys u n) = view (sv_net s)"
  shows "helper_step sys view s (fst (case r of
     (n, Some e) \<Rightarrow> (s\<lparr>sv_net := n\<rparr>, errResponse e)
   | (n, None) \<Rightarrow> (undo_push u (s\<lparr>sv_net := n\<rparr>), RespOK)))"
proof (cases r)
  case (Pair n x)
  show ?thesis
  proof (cases x)
    case None
    then show ?thesis using Pair ok by (auto intro: push_step)
  next
    case (Some e)
    then have "view n = view (sv_net s)" using runNetCmd_fails [OF F] C Pair by simp
    then show ?thesis using Pair Some by (auto intro: net_step)
  qed
qed

lemma clean_step_rules:
  assumes L: "lawful_net sys view"
  shows "helper_step sys view s (fst (handleAddMasquerade sys subnet oif s))"
    and "helper_step sys view s (fst (handleAddForwardAccept sys inI outI s))"
    and "helper_step sys view s (fst (handleAddForwardEstablished sys inI outI s))"
proof -
  have F: "failures_harmless sys view" using L unfolding lawful_net_def by blast
  have R: "\<And>s i n n'. ns_exec sys ''iptables'' (masquerade_args ''-A'' s i) n = (n', None) \<Longrightarrow>
        view (undone sys (UndoMasquerade s i) n') = view n"
    "\<And>i j n n'. ns_exec sys ''iptables'' (forward_args ''-I'' i j) n = (n', None) \<Longrightarrow>
        view (undone sys (UndoForwardAccept i j) n') = view n"
    "\<And>i j n n'. ns_exec sys ''iptables'' (established_args ''-I'' i j) n = (n', None) \<Longrightarrow>
        view (undone sys (UndoForwardEstablished i j) n') = view n"
    using L unfolding lawful_net_def rules_undone_def by blast+
  show "helper_step sys view s (fst (handleAddMasquerade sys subnet oif s))"
    unfolding handleAddMasquerade_def AddMasquerade_def by (rule change_step [OF F refl]) (simp add: runNetCmd_ok R(1))
  show "helper_step sys view s (fst (handleAddForwardAccept sys inI outI s))"
    unfolding handleAddForwardAccept_def AddForwardAccept_def by (rule change_step [OF F refl]) (simp add: runNetCmd_ok R(2))
  show "helper_step sys view s (fst (handleAddForwardEstablished sys inI outI s))"
    unfolding handleAddForwardEstablished_def AddForwardEstablished_def
    by (rule change_step [OF F refl]) (simp add: runNetCmd_ok R(3))
qed

lemma clean_step_routes:
  assumes L: "lawful_net sys view"
  shows "route_fresh sys ip gw i (sv_net s) \<Longrightarrow> helper_step sys view s (fst (handleAddHostRoute sys ip gw i s))"
    and "helper_step sys view s (fst (handleReplaceDefaultRoute sys v iface s))"
    and "default_before sys 6 (sv_net s) = None \<Longrightarrow> helper_step sys view s (fst (handleBlockIPv6Default sys s))"
    and "helper_step sys view s (fst (handleSetSysctl sys key val s))"
proof -
  have F: "failures_harmless sys view" using L unfolding lawful_net_def by blast
  note fails = runNetCmd_fails [OF F]
  have H: "view (undone sys (UndoHostRoute ip) n') = view n"
    if "ns_exec sys ''ip'' ([''route'', ''add'', ip @ ''/32''] @ via_words gw @ [''dev'', i]) n = (n', None)" for n n'
    using L that unfolding lawful_net_def routes_undone_def by blast
  have D: "view (undone sys (UndoDefaultRoute v (default_before sys v n)) n') = view n"
    if "ns_exec sys ''ip'' [ip_flag v, ''route'', ''replace'', ''default'', ''dev'', iface] n = (n', None)" for n n'
    using L that unfolding lawful_net_def routes_undone_def by blast
  have B: "view (undone sys (UndoIPv6 False None) n') = view n"
    if "ns_exec sys ''ip'' [''-6'', ''route'', ''replace'', ''unreachable'', ''default'', ''metric'', ''1''] n = (n', None)"
      "default_before sys 6 n = None" for n n'
    using L that unfolding lawful_net_def routes_undone_def by blast
  have S: "view (undone sys (UndoSysctl key prev) n') = view n" if "SetSysctl sys key val n = (n', Inr prev)" for n n' prev
    using L that unfolding lawful_net_def sysctls_undone_def by blast
  { assume fresh: "route_fresh sys ip gw i (sv_net s)"
    have "AddHostRoute sys ip gw i (sv_net s) =
        runNetCmd sys ''ip'' ([''route'', ''add'', ip @ ''/32''] @ via_words gw @ [''dev'', i]) (sv_net s)"
      using fresh unfolding AddHostRoute_def route_fresh_def by (auto split: prod.splits option.splits)
    then show "helper_step sys view s (fst (handleAddHostRoute sys ip gw i s))"
      unfolding handleAddHostRoute_def using change_step [OF F, where u = "UndoHostRoute ip" and s = s] H
      by (simp add: runNetCmd_ok) }
  show "helper_step sys view s (fst (handleReplaceDefaultRoute sys v iface s))"
    using D [of "sv_net s"] fails
    by (auto simp: handleReplaceDefaultRoute_def ReplaceDefaultRoute_def Let_def runNetCmd_ok default_before_def
        split: prod.splits option.splits sum.splits intro: net_step push_step)
  show "helper_step sys view s (fst (handleBlockIPv6Default sys s))" if "default_before sys 6 (sv_net s) = None"
    using B [of "sv_net s"] that fails
    by (auto simp: handleBlockIPv6Default_def BlockIPv6Default_def Let_def runNetCmd_ok default_before_def
        split: prod.splits option.splits sum.splits intro: net_step push_step)
  show "helper_step sys view s (fst (handleSetSysctl sys key val s))"
    using S [of "sv_net s"] SetSysctl_fails [OF F]
    by (auto simp: handleSetSysctl_def split: prod.splits sum.splits intro: net_step push_step)
qed

lemma clean_request_step:
  assumes L: "lawful_net sys view" and C: "clean_request sys s r"
  shows "helper_step sys view s (fst (serve_request sys s r))"
proof -
  have F: "failures_harmless sys view" using L unfolding lawful_net_def by blast
  show ?thesis
    using C by (cases r)
      (auto simp: undo_requests intro: helper_step.keeps undo_request_step [OF F] clean_step_commands [OF L]
        clean_step_rules [OF L] clean_step_routes [OF L])
qed

text \<open>Every step keeps what the network would be after unwinding.\<close>

lemma unwind_view:
  assumes "undos_follow_view sys view" "view n = view m"
  shows "view (unwind sys es n) = view (unwind sys es m)"
  using assms(2)
proof (induction es arbitrary: n m)
  case (Cons e es)
  have "view (undone sys (snd e) n) = view (undone sys (snd e) m)"
    by (rule undone_view [OF assms(1) Cons.prems])
  then have "view (unwind sys es (undone sys (snd e) n)) = view (unwind sys es (undone sys (snd e) m))" by (rule Cons.IH)
  then show ?case by (simp add: undone_def)
qed simp

lemma unwind_pop:
  assumes L: "lawful_net sys view" and R: "undo_ready u es"
  shows "view (unwind sys (pop_entry (undo_kind u) es) (undone sys u n)) = view (unwind sys es n)"
  using R
proof (induction es arbitrary: n)
  case (Cons e es)
  obtain k w where e: "e = (k, w)" by (cases e)
  show ?case
  proof (cases "k = undo_kind u")
    case True
    then show ?thesis using Cons.prems e by (simp add: undone_def)
  next
    case False
    have d: "undo_target w \<noteq> undo_target u" and ready: "undo_ready u es" using Cons.prems e False by auto
    have "view (undone sys w (undone sys u n)) = view (undone sys u (undone sys w n))"
      by (rule undone_commute [OF lawful_parts(2) [OF L] d])
    then have "view (unwind sys (pop_entry (undo_kind u) es) (undone sys w (undone sys u n))) =
        view (unwind sys (pop_entry (undo_kind u) es) (undone sys u (undone sys w n)))"
      by (rule unwind_view [OF lawful_parts(1) [OF L]])
    also have "\<dots> = view (unwind sys es (undone sys w n))" by (rule Cons.IH [OF ready])
    finally show ?thesis using e False by (simp add: undone_def)
  qed
qed simp

lemma helper_step_unwound:
  assumes L: "lawful_net sys view" and S: "helper_step sys view s s'"
  shows "view (unwind sys (sv_undo s') (sv_net s')) = view (unwind sys (sv_undo s) (sv_net s))"
  using S
proof cases
  case keeps
  then show ?thesis using unwind_view [OF lawful_parts(1) [OF L] keeps(2)] by simp
next
  case (pushes u)
  have "view (unwind sys (sv_undo s) (undone sys u (sv_net s'))) = view (unwind sys (sv_undo s) (sv_net s))"
    by (rule unwind_view [OF lawful_parts(1) [OF L] pushes(2)])
  then show ?thesis using pushes(1) by (simp add: undone_def)
next
  case (undoes u)
  then show ?thesis using unwind_pop [OF L] by simp
qed

lemma serve_loop_unwound:
  assumes L: "lawful_net sys view" and C: "clean_client sys s ds"
  shows "view (sv_net (unwindAll sys (fst (serve_loop sys ds s)))) = view (unwind sys (sv_undo s) (sv_net s))"
  using C
proof (induction ds arbitrary: s)
  case (Cons d ds)
  show ?case
  proof (cases d)
    case (Request r)
    have "view (unwind sys (sv_undo (fst (serve_request sys s r))) (sv_net (fst (serve_request sys s r)))) =
        view (unwind sys (sv_undo s) (sv_net s))"
      by (rule helper_step_unwound [OF L clean_request_step [OF L]]) (use Cons.prems Request in simp)
    then show ?thesis using Cons Request by (simp add: split_beta Let_def)
  qed (use Cons in \<open>simp_all add: split_beta Let_def\<close>)
qed (simp add: unwindAll_def)


lemma clean_client_take: "clean_client sys s ds \<Longrightarrow> clean_client sys s (take k ds)"
proof (induction ds arbitrary: s k)
  case (Cons d ds)
  then show ?case by (cases k; cases d) auto
qed simp

section \<open>The helper leaves the network as it found it\<close>


text \<open>A machine on which the laws hold: what is set is a number per target.\<close>

type_synonym small_net = "string list \<Rightarrow> nat"

definition small_inc :: "string list \<Rightarrow> small_net \<Rightarrow> small_net \<times> go_error option" where
  "small_inc k n = (n(k := Suc (n k)), None)"

definition small_dec :: "string list \<Rightarrow> small_net \<Rightarrow> small_net \<times> go_error option" where
  "small_dec k n = (if n k = 0 then (n, Some (Errorf ''not found'')) else (n(k := n k - 1), None))"

definition small_host :: "string \<Rightarrow> string list" where
  "small_host p = [''host'', take (length p - 3) p]"

fun small_exec :: "string \<Rightarrow> string list \<Rightarrow> small_net \<Rightarrow> small_net \<times> go_error option" where
  "small_exec c (a # b # d # r) n =
     (if c = ''iptables'' then
        (if a = ''-t'' then if d = ''-A'' then small_inc (a # b # ''-D'' # r) n else small_dec (a # b # d # r) n
         else if a = ''-I'' then small_inc (''-D'' # b # d # r) n
         else small_dec (a # b # d # r) n)
      else if a = ''route'' \<and> b = ''add'' then
        (if n (small_host d) = 0 then small_inc (small_host d) n else (n, Some (Errorf ''File exists'')))
      else if a = ''route'' \<and> b = ''del'' then small_dec (small_host d) n
      else if a = ''addr'' \<or> a = ''link'' then (n, None)
      else (n, Some (Errorf ''not permitted'')))"
| "small_exec c _ n = (n, Some (Errorf ''usage''))"

definition small_read :: "string \<Rightarrow> small_net \<Rightarrow> string result" where
  "small_read p n = (if n [p] = 0 then Inr (''0'' @ [CHR 0x0A]) else if n [p] = 1 then Inr (''1'' @ [CHR 0x0A])
     else Inl (Errorf ''no such file''))"

definition small_write :: "string \<Rightarrow> string \<Rightarrow> small_net \<Rightarrow> small_net \<times> go_error option" where
  "small_write p x n = (if x = ''0'' then (n([p] := 0), None) else if x = ''1'' then (n([p] := 1), None)
     else (n, Some (Errorf ''invalid argument'')))"

definition small_output :: "string \<Rightarrow> string list \<Rightarrow> small_net \<Rightarrow> string result" where
  "small_output c args n = (if hd args = ''-4'' then Inr (''default via 10.0.0.1 dev eth0'' @ [CHR 0x0A])
     else Inl (Errorf ''no route''))"

definition small_sys :: "small_net netsys" where
  "small_sys = \<lparr>ns_exec = small_exec, ns_output = small_output, ns_read = small_read, ns_write = small_write,
     ns_tun = \<lambda>name n. (n, Inr name)\<rparr>"


lemma small_sel [simp]: "ns_exec small_sys = small_exec" "ns_output small_sys = small_output" "ns_read small_sys = small_read"
  "ns_write small_sys = small_write" "ns_tun small_sys = (\<lambda>name n. (n, Inr name))"
  by (simp_all add: small_sys_def)

lemma small_host_ip [simp]: "small_host (ip @ ''/32'') = [''host'', ip]"
  by (simp add: small_host_def)

lemma small_trim [simp]: "TrimSpace ''0'' = ''0''" "TrimSpace ''1'' = ''1''"
    "TrimSpace [CHR ''0'', CHR 0x0A] = ''0''" "TrimSpace [CHR ''1'', CHR 0x0A] = ''1''"
  by (simp_all add: TrimSpace_def utf8_spaces_chars trim_left.simps)

lemma ip_flag_cases: "ip_flag v = ''-4'' \<or> ip_flag v = ''-6''"
  by (simp add: ip_flag_def)

lemma small_default [simp]:
  "small_exec ''ip'' (ip_flag v # b # d # r) n = (n, Some (Errorf ''not permitted''))"
  using ip_flag_cases [of v] by auto

lemma small_undone_rules:
  "undone small_sys (UndoHostRoute ip) n = fst (small_dec [''host'', ip] n)"
  "undone small_sys (UndoMasquerade subnet oif) n = fst (small_dec (masquerade_args ''-D'' subnet oif) n)"
  "undone small_sys (UndoForwardAccept i j) n = fst (small_dec (forward_args ''-D'' i j) n)"
  "undone small_sys (UndoForwardEstablished i j) n = fst (small_dec (established_args ''-D'' i j) n)"
     apply (simp add: undone_def DelHostRoute_def runNetCmd_fst del: append.simps)
    apply (simp_all add: undone_def DelMasquerade_def DelForwardAccept_def DelForwardEstablished_def runNetCmd_fst
      masquerade_args_def forward_args_def established_args_def)
  done

lemma small_undone_default: "undone small_sys (UndoDefaultRoute v prev) n = n"
  by (cases prev) (simp_all add: undone_def RestoreDefaultRoute_def runNetCmd_fst)

lemma small_undone_IPv6: "undone small_sys (UndoIPv6 had prev) n = n"
  using small_undone_default [of 6 prev n]
  by (simp add: undone_def RestoreIPv6Default_def runNetCmd_fst)

lemma small_undone_sysctl: "undone small_sys (UndoSysctl key prev) n =
  (if n [sysctl_path key] \<le> 1 \<and> prev \<in> {''0'', ''1''} then n([sysctl_path key] := if prev = ''0'' then 0 else 1) else n)"
  by (simp add: undone_def SetSysctl_def small_read_def small_write_def Let_def)


lemmas small_undone = small_undone_rules small_undone_default small_undone_IPv6 small_undone_sysctl

text \<open>Every undo writes its target only, from what was there.\<close>

lemma small_undone_local: "\<exists>f. \<forall>n. undone small_sys u n = n(undo_target u := f (n (undo_target u)))"
proof -
  have dec: "\<exists>f. \<forall>n. fst (small_dec k n) = n(k := f (n k))" for k
    by (rule exI [of _ "\<lambda>x. x - 1"]) (simp add: small_dec_def fun_upd_idem)
  show ?thesis
  proof (cases u)
    case (UndoSysctl key prev)
    show ?thesis unfolding UndoSysctl small_undone_sysctl undo_target.simps
      by (rule exI [of _ "\<lambda>x. if x \<le> 1 \<and> prev \<in> {''0'', ''1''} then if prev = ''0'' then 0 else 1 else x"]) (simp add: fun_upd_idem)
  next
    case (UndoDefaultRoute v prev)
    show ?thesis unfolding UndoDefaultRoute small_undone by (rule exI [of _ "\<lambda>x. x"]) simp
  next
    case (UndoIPv6 had prev)
    show ?thesis unfolding UndoIPv6 small_undone by (rule exI [of _ "\<lambda>x. x"]) simp
  qed (simp_all only: small_undone undo_target.simps dec)
qed

lemma small_commute:
  assumes "undo_target u \<noteq> undo_target w"
  shows "undone small_sys u (undone small_sys w n) = undone small_sys w (undone small_sys u n)"
proof -
  obtain f where f: "\<And>n. undone small_sys u n = n(undo_target u := f (n (undo_target u)))" using small_undone_local by blast
  obtain g where g: "\<And>n. undone small_sys w n = n(undo_target w := g (n (undo_target w)))" using small_undone_local by blast
  show ?thesis unfolding f g using assms by (simp add: fun_upd_twist)
qed

lemma small_dec_inc: "fst (small_dec k (fst (small_inc k n))) = n"
  by (simp add: small_dec_def small_inc_def)

lemma small_inc_ok: "small_inc k n = (n', None) \<Longrightarrow> fst (small_dec k n') = n"
  using small_dec_inc [of k n] by simp

lemma small_exec_fails: "small_exec c a n = (n', Some e) \<Longrightarrow> n' = n"
  by (induction c a n rule: small_exec.induct) (auto simp: small_dec_def small_inc_def split: if_splits)

lemma small_rules: "small_exec ''iptables'' (masquerade_args ''-A'' s i) n = small_inc (masquerade_args ''-D'' s i) n"
  "small_exec ''iptables'' (forward_args ''-I'' s i) n = small_inc (forward_args ''-D'' s i) n"
  "small_exec ''iptables'' (established_args ''-I'' s i) n = small_inc (established_args ''-D'' s i) n"
  by (simp_all add: masquerade_args_def forward_args_def established_args_def)

lemma small_route: "small_exec ''ip'' ([''route'', ''add'', ip @ ''/32''] @ via_words gw @ [''dev'', i]) n =
  (if n [''host'', ip] = 0 then small_inc [''host'', ip] n else (n, Some (Errorf ''File exists'')))"
  by (simp del: small_host_def)

lemma small_SetSysctl: "SetSysctl small_sys key x n = (n', Inr prev) \<Longrightarrow> undone small_sys (UndoSysctl key prev) n' = n"
  unfolding small_undone_sysctl SetSysctl_def
  by (auto simp: small_read_def small_write_def Let_def split: if_splits)

lemma small_lawful: "lawful_net small_sys (\<lambda>n. n)"
proof -
  have "undos_follow_view small_sys (\<lambda>n. n)" by (simp add: undos_follow_view_def)
  moreover have "undos_commute small_sys (\<lambda>n. n)" by (simp add: undos_commute_def small_commute)
  moreover have "failures_harmless small_sys (\<lambda>n. n)"
    unfolding failures_harmless_def
    by (auto dest: small_exec_fails simp: small_write_def split: if_splits)
  moreover have "interface_apart small_sys (\<lambda>n. n)"
  proof -
    have "fst (small_exec ''ip'' (''addr'' # a) n) = n" "fst (small_exec ''ip'' (''link'' # a) n) = n" for a n
      by (cases a rule: remdups_adj.cases; simp)+
    then show ?thesis by (simp add: interface_apart_def)
  qed
  moreover have "routes_undone small_sys (\<lambda>n. n)"
    unfolding routes_undone_def small_sel small_route small_default small_undone
    by (auto dest: small_inc_ok split: if_splits)
  moreover have "sysctls_undone small_sys (\<lambda>n. n)" by (auto simp: sysctls_undone_def dest: small_SetSysctl)
  moreover have "rules_undone small_sys (\<lambda>n. n)"
    unfolding rules_undone_def small_sel small_rules small_undone by (auto dest: small_inc_ok)
  ultimately show ?thesis by (simp add: lawful_net_def)
qed


definition helper_requests :: "datagram list" where
  "helper_requests = [Request (opAddHostRoute ''9.9.9.9'' [] ''eth0''), EmptyDatagram, Request (opAddMasquerade ''10.66.0.0/24'' ''eth0''),
     Request (opAddForwardAccept ''tun0'' ''eth0''), Request (opDelMasquerade ''10.66.0.0/24'' ''eth0'')]"

lemma helper_requests_clean: "clean_client small_sys \<lparr>sv_undo = [], sv_net = \<lambda>_. 0\<rparr> helper_requests"
  by (simp add: helper_requests_def route_fresh_def runNetCmd_def handleAddHostRoute_def AddHostRoute_def undo_push_def
      undo_pop_def handleAddMasquerade_def AddMasquerade_def handleAddForwardAccept_def AddForwardAccept_def
      handleDelMasquerade_def DelMasquerade_def small_inc_def small_host_def masquerade_args_def forward_args_def via_words_def)

lemma helper_requests_run:
  "map fst (sv_undo (fst (serve_loop small_sys helper_requests \<lparr>sv_undo = [], sv_net = \<lambda>_. 0\<rparr>)))
     = [''forward_accept:tun0|eth0'', ''host_route:9.9.9.9'']"
  by (simp add: helper_requests_def runNetCmd_def handleAddHostRoute_def AddHostRoute_def undo_push_def
      undo_pop_def handleAddMasquerade_def AddMasquerade_def handleAddForwardAccept_def AddForwardAccept_def
      handleDelMasquerade_def DelMasquerade_def small_inc_def small_dec_def small_host_def masquerade_args_def
      forward_args_def via_words_def)


section \<open>What the undo stack gets wrong\<close>

text \<open>
  A host route that was there already counts as added: the helper deletes it when it unwinds. A restored default
  route of one IP version takes the entry of the other one, whichever is newer.
\<close>

lemma preexisting_route_deleted:
  assumes "runNetCmd sys ''ip'' ([''route'', ''add'', ip @ ''/32''] @ via_words gw @ [''dev'', i]) n = (n, Some e)"
    and "contains (err_text e) ''File exists''"
  shows "Serve sys [Request (opAddHostRoute ip gw i)] n = (\<lparr>sv_undo = [], sv_net = fst (DelHostRoute sys ip n)\<rparr>, [RespOK])"
  using assms by (simp add: Serve_def handleAddHostRoute_def AddHostRoute_def undo_push_def unwindAll_def)

lemma default_routes_confused:
  assumes "sv_undo s = [(undo_kind (UndoDefaultRoute 6 p6), UndoDefaultRoute 6 p6), (undo_kind (UndoDefaultRoute 4 p4), UndoDefaultRoute 4 p4)]"
    and "RestoreDefaultRoute sys 4 p4 (sv_net s) = (n, None)"
  shows "sv_undo (fst (serve_request sys s (opRestoreDefaultRoute 4 p4))) = [(''default_route'', UndoDefaultRoute 4 p4)]"
  using assms by (simp add: handleRestoreDefaultRoute_def undo_pop_def)

end
