(* ===== verification/Tunnel.thy ===== *)
theory Tunnel
  imports TunnelHelper
begin

text \<open>
  The IP tunnel (\<open>src/iptunnel.go\<close>): the client of the helper (\<open>src/iptun/client.go\<close>), the exit node's set-up of
  a tunnel with its rollback, and the slot of the one tunnel a machine serves (\<open>vpnServer\<close>).
\<close>

section \<open>Calls to the helper\<close>

text \<open>
  \<open>vc_left\<close> is how many more calls get their response before the connection breaks; with \<open>vc_late\<close> the call
  after them still reaches the helper, only its response is lost.
\<close>

record 'n vpnHelper =
  vc_server :: "'n server"
  vc_left :: nat
  vc_late :: bool

primrec op_name :: "rpcRequest \<Rightarrow> string" where
  "op_name (opOpenTUN name) = ''open_tun''"
| "op_name (opConfigureTUN iface cidr mtu) = ''configure_tun''"
| "op_name (opAddHostRoute ip gateway iface) = ''add_host_route''"
| "op_name (opDelHostRoute ip) = ''del_host_route''"
| "op_name (opReplaceDefaultRoute v iface) = ''replace_default_route''"
| "op_name (opRestoreDefaultRoute v prev) = ''restore_default_route''"
| "op_name opBlockIPv6Default = ''block_ipv6_default''"
| "op_name (opRestoreIPv6Default had prev) = ''restore_ipv6_default''"
| "op_name (opSetSysctl key val) = ''set_sysctl''"
| "op_name (opRestoreSysctl key val) = ''restore_sysctl''"
| "op_name (opAddMasquerade subnet oif) = ''add_masquerade''"
| "op_name (opDelMasquerade subnet oif) = ''del_masquerade''"
| "op_name (opAddForwardAccept inI outI) = ''add_forward_accept''"
| "op_name (opDelForwardAccept inI outI) = ''del_forward_accept''"
| "op_name (opAddForwardEstablished inI outI) = ''add_forward_established''"
| "op_name (opDelForwardEstablished inI outI) = ''del_forward_established''"
| "op_name (opBadArgs e) = []"
| "op_name (opUnknown opn) = opn"

definition vpn_call :: "'n netsys \<Rightarrow> rpcRequest \<Rightarrow> 'n vpnHelper \<Rightarrow> 'n vpnHelper \<times> rpcResponse result" where
  "vpn_call sys req c = (let (s, resp) = serve_request sys (vc_server c) req in
     if vc_left c = 0 then
       (if vc_late c then c\<lparr>vc_server := s, vc_late := False\<rparr> else c,
        Inl (Wrapf (''read '' @ op_name req @ '' response: '') ErrClosedPipe))
     else (c\<lparr>vc_server := s, vc_left := vc_left c - 1\<rparr>,
       case resp of
         RespError msg \<Rightarrow> Inl (Errorf (op_name req @ '': '' @ (if msg = [] then ''unknown error'' else msg)))
       | _ \<Rightarrow> Inr resp))"

definition vpn_do :: "'n netsys \<Rightarrow> rpcRequest \<Rightarrow> 'n vpnHelper \<Rightarrow> 'n vpnHelper \<times> go_error option" where
  "vpn_do sys req c = (case vpn_call sys req c of (c', Inl e) \<Rightarrow> (c', Some e) | (c', Inr _) \<Rightarrow> (c', None))"

definition vpn_OpenTUN :: "'n netsys \<Rightarrow> string \<Rightarrow> 'n vpnHelper \<Rightarrow> 'n vpnHelper \<times> string result" where
  "vpn_OpenTUN sys name c = (case vpn_call sys (opOpenTUN name) c of
     (c', Inl e) \<Rightarrow> (c', Inl e)
   | (c', Inr resp) \<Rightarrow> (c', case resp of
        RespTUN iface \<Rightarrow> Inr iface
      | _ \<Rightarrow> Inl (Errorf ''open_tun: helper did not return a file descriptor'')))"

definition vpn_SetSysctl :: "'n netsys \<Rightarrow> string \<Rightarrow> string \<Rightarrow> 'n vpnHelper \<Rightarrow> 'n vpnHelper \<times> string result" where
  "vpn_SetSysctl sys key val c = (case vpn_call sys (opSetSysctl key val) c of
     (c', Inl e) \<Rightarrow> (c', Inl e)
   | (c', Inr resp) \<Rightarrow> (c', case resp of
        RespPrevious previous \<Rightarrow> Inr previous
      | _ \<Rightarrow> Inl (Errorf ''set_sysctl: malformed response'')))"

text \<open>\<open>Client.Close\<close>: the connection ends and the helper unwinds.\<close>

definition vpn_Close :: "'n netsys \<Rightarrow> 'n vpnHelper \<Rightarrow> 'n vpnHelper" where
  "vpn_Close sys c = c\<lparr>vc_server := unwindAll sys (vc_server c), vc_left := 0, vc_late := False\<rparr>"

section \<open>The exit node\<close>

definition VPNServerTUNName :: string where "VPNServerTUNName = ''dtun0''"
definition VPNServerCIDR :: string where "VPNServerCIDR = ''10.66.0.1/24''"
definition VPNSubnetCIDR :: string where "VPNSubnetCIDR = ''10.66.0.0/24''"
definition VPNMTU :: int where "VPNMTU = 1200"

text \<open>The cleanup functions in the order they run, newest first; their errors are only logged.\<close>

definition run_cleanup :: "'n netsys \<Rightarrow> rpcRequest list \<Rightarrow> 'n vpnHelper \<Rightarrow> 'n vpnHelper" where
  "run_cleanup sys fns c = fold (\<lambda>r c. fst (vpn_do sys r c)) fns c"


text \<open>
  \<open>startVPNTunnelServer\<close>: what the session needs to clean up, or the error after a rollback. \<open>sendErr\<close> is the
  outcome of sending the ready frame.
\<close>

definition startVPNTunnelServer ::
  "'n netsys \<Rightarrow> go_error option \<Rightarrow> 'n vpnHelper \<Rightarrow> 'n vpnHelper \<times> rpcRequest list result" where
  "startVPNTunnelServer sys sendErr c =
     (case vpn_OpenTUN sys VPNServerTUNName c of
        (c1, Inl e) \<Rightarrow> (c1, Inl (Wrapf ''open tun: '' e))
      | (c1, Inr ifaceName) \<Rightarrow>
     (case vpn_do sys (opConfigureTUN ifaceName VPNServerCIDR VPNMTU) c1 of
        (c2, Some e) \<Rightarrow> (run_cleanup sys [] c2, Inl e)
      | (c2, None) \<Rightarrow>
     (case vpn_SetSysctl sys ''net.ipv4.ip_forward'' ''1'' c2 of
        (c3, Inl e) \<Rightarrow> (run_cleanup sys [] c3, Inl (Wrapf ''enable ip forwarding: '' e))
      | (c3, Inr prevForward) \<Rightarrow>
     (let f1 = [opRestoreSysctl ''net.ipv4.ip_forward'' prevForward] in
      case GetDefaultRoute sys 4 (sv_net (vc_server c3)) of
        Inl e \<Rightarrow> (run_cleanup sys f1 c3, Inl (Wrapf ''determine internet-facing interface: '' e))
      | Inr egress \<Rightarrow>
     (case vpn_do sys (opAddMasquerade VPNSubnetCIDR (dr_Iface egress)) c3 of
        (c4, Some e) \<Rightarrow> (run_cleanup sys f1 c4, Inl e)
      | (c4, None) \<Rightarrow>
     (let f2 = opDelMasquerade VPNSubnetCIDR (dr_Iface egress) # f1 in
      case vpn_do sys (opAddForwardAccept ifaceName (dr_Iface egress)) c4 of
        (c5, Some e) \<Rightarrow> (run_cleanup sys f2 c5, Inl e)
      | (c5, None) \<Rightarrow>
     (let f3 = opDelForwardAccept ifaceName (dr_Iface egress) # f2 in
      case vpn_do sys (opAddForwardEstablished (dr_Iface egress) ifaceName) c5 of
        (c6, Some e) \<Rightarrow> (run_cleanup sys f3 c6, Inl e)
      | (c6, None) \<Rightarrow>
     (let f4 = opDelForwardEstablished (dr_Iface egress) ifaceName # f3 in
      case sendErr of
        Some e \<Rightarrow> (run_cleanup sys f4 c6, Inl e)
      | None \<Rightarrow> (c6, Inr f4)))))))))"

text \<open>\<open>vpnTunnelSession.close\<close> runs the cleanup once.\<close>

definition vpn_session_close :: "'n netsys \<Rightarrow> rpcRequest list \<Rightarrow> 'n vpnHelper \<Rightarrow> 'n vpnHelper" where
  "vpn_session_close sys cleanup c = run_cleanup sys cleanup c"

text \<open>One tunnel from its channel to its end, and the tunnels of one armed helper one after another.\<close>

definition serve_tunnel :: "'n netsys \<Rightarrow> go_error option \<Rightarrow> 'n vpnHelper \<Rightarrow> 'n vpnHelper" where
  "serve_tunnel sys sendErr c = (case startVPNTunnelServer sys sendErr c of
     (c', Inl e) \<Rightarrow> c'
   | (c', Inr cleanup) \<Rightarrow> vpn_session_close sys cleanup c')"

definition serve_tunnels :: "'n netsys \<Rightarrow> go_error option list \<Rightarrow> 'n vpnHelper \<Rightarrow> 'n vpnHelper" where
  "serve_tunnels sys ends c = fold (serve_tunnel sys) ends c"

section \<open>What a call keeps\<close>

definition entry :: "undo \<Rightarrow> string \<times> undo" where
  "entry u = (undo_kind u, u)"

definition vpn_gone :: "'n vpnHelper \<Rightarrow> bool" where
  "vpn_gone c \<longleftrightarrow> vc_left c = 0 \<and> \<not> vc_late c"

text \<open>The network the helper would leave if it had to unwind now.\<close>

definition left_behind :: "'n netsys \<Rightarrow> ('n \<Rightarrow> 'v) \<Rightarrow> 'n vpnHelper \<Rightarrow> 'v" where
  "left_behind sys view c = view (unwind sys (sv_undo (vc_server c)) (sv_net (vc_server c)))"

text \<open>
  The helper's stack holds the client's own changes \<open>ws\<close> above what was there before (\<open>base\<close>), or no call reaches
  it any more.
\<close>

definition tracked :: "(string \<times> undo) list \<Rightarrow> undo list \<Rightarrow> 'n vpnHelper \<Rightarrow> bool" where
  "tracked base ws c \<longleftrightarrow> vpn_gone c \<or> sv_undo (vc_server c) = map entry ws @ base"

definition apart :: "undo list \<Rightarrow> bool" where
  "apart ws \<longleftrightarrow> distinct (map undo_kind ws) \<and> distinct (map undo_target ws)"

lemma apart_ready: "apart ws \<Longrightarrow> u \<in> set ws \<Longrightarrow> undo_ready u (map entry ws @ base)"
  by (induction ws) (auto simp: apart_def entry_def)

lemma apart_pop:
  "apart ws \<Longrightarrow> u \<in> set ws \<Longrightarrow> pop_entry (undo_kind u) (map entry ws @ base) = map entry (remove1 u ws) @ base"
  by (induction ws) (auto simp: apart_def entry_def)

lemma apart_remove: "apart ws \<Longrightarrow> apart (remove1 u ws) \<and> distinct ws"
  by (auto simp: apart_def distinct_map intro: inj_on_diff)

text \<open>A clean call keeps what would be left behind; a call that does not answer with success pushed nothing.\<close>

lemma vpn_call_left:
  assumes L: "lawful_net sys view" and C: "vpn_gone c \<or> clean_request sys (vc_server c) r"
  shows "left_behind sys view (fst (vpn_call sys r c)) = left_behind sys view c"
  using C helper_step_unwound [OF L clean_request_step [OF L, of "vc_server c" r]]
  by (auto simp: left_behind_def vpn_call_def vpn_gone_def split_beta Let_def)

lemma vpn_do_fst: "fst (vpn_do sys r c) = fst (vpn_call sys r c)"
  by (simp add: vpn_do_def split: prod.splits sum.splits)

lemma vpn_call_gone: "vpn_gone c \<Longrightarrow> vpn_call sys r c = (c, Inl (Wrapf (''read '' @ op_name r @ '' response: '') ErrClosedPipe))"
  by (simp add: vpn_call_def vpn_gone_def split_beta Let_def)


lemma vpn_call_cases:
  obtains (gone) "vpn_gone c" "vpn_call sys r c = (c, Inl (Wrapf (''read '' @ op_name r @ '' response: '') ErrClosedPipe))"
  | (late) "vpn_gone (fst (vpn_call sys r c))" "isl (snd (vpn_call sys r c))"
  | (failed) s' m e where "serve_request sys (vc_server c) r = (s', RespError m)"
      "vpn_call sys r c = (c\<lparr>vc_server := s', vc_left := vc_left c - 1\<rparr>, Inl e)"
  | (answered) s' resp where "serve_request sys (vc_server c) r = (s', resp)" "\<forall>m. resp \<noteq> RespError m"
      "vpn_call sys r c = (c\<lparr>vc_server := s', vc_left := vc_left c - 1\<rparr>, Inr resp)"
proof (cases "vpn_gone c")
  case True
  then show thesis by (rule that(1)) (rule vpn_call_gone [OF True])
next
  case False
  obtain s' resp where S: "serve_request sys (vc_server c) r = (s', resp)" by fastforce
  show thesis
  proof (cases "vc_left c = 0")
    case True
    then show thesis using False S by (intro that(2)) (simp_all add: vpn_call_def vpn_gone_def)
  next
    case left: False
    show thesis
    proof (cases "\<exists>m. resp = RespError m")
      case True
      then obtain m where m: "resp = RespError m" by blast
      show thesis by (rule that(3)) (use S left m in \<open>simp_all add: vpn_call_def\<close>)
    next
      case False
      then show thesis using S left by (intro that(4)) (auto simp: vpn_call_def split: rpcResponse.splits)
    qed
  qed
qed

lemma tracked_gone: "vpn_gone c \<Longrightarrow> tracked base ws c"
  by (simp add: tracked_def)

lemma tracked_failed:
  assumes T: "tracked base ws c" and C: "vpn_call sys r c = (c', Inl e)"
    and E: "\<And>s s' m. serve_request sys s r = (s', RespError m) \<Longrightarrow> sv_undo s' = sv_undo s"
  shows "tracked base ws c'"
  using vpn_call_cases [of c sys r]
proof cases
  case (failed s' m e')
  then show ?thesis using T C E [OF failed(1)] by (auto simp: tracked_def vpn_gone_def)
next
  case gone
  then show ?thesis using C by (simp add: tracked_gone)
next
  case late
  then show ?thesis using C by (simp add: tracked_gone)
next
  case answered
  then show ?thesis using C by simp
qed

lemma tracked_done:
  assumes T: "tracked base ws c" and C: "vpn_call sys r c = (c', Inr resp)"
    and O: "\<And>s s'. serve_request sys s r = (s', resp) \<Longrightarrow> sv_undo s' = map entry vs @ sv_undo s"
  shows "tracked base (vs @ ws) c'"
  using vpn_call_cases [of c sys r]
proof cases
  case (answered s' resp')
  then show ?thesis using T C O [of "vc_server c" s'] by (auto simp: tracked_def vpn_gone_def)
qed (use C in auto)

text \<open>The request that undoes a change.\<close>

primrec undo_op :: "undo \<Rightarrow> rpcRequest" where
  "undo_op (UndoHostRoute ip) = opDelHostRoute ip"
| "undo_op (UndoDefaultRoute v prev) = opRestoreDefaultRoute v prev"
| "undo_op (UndoIPv6 had prev) = opRestoreIPv6Default had prev"
| "undo_op (UndoSysctl key prev) = opRestoreSysctl key prev"
| "undo_op (UndoMasquerade subnet oif) = opDelMasquerade subnet oif"
| "undo_op (UndoForwardAccept inI outI) = opDelForwardAccept inI outI"
| "undo_op (UndoForwardEstablished inI outI) = opDelForwardEstablished inI outI"

lemma serve_undo_op: "serve_request sys s (undo_op u) = undo_request sys u s"
  by (cases u) (simp_all add: undo_requests)

lemma clean_undo_op: "clean_request sys s (undo_op u) \<longleftrightarrow> undo_ready u (sv_undo s)"
  by (cases u) simp_all

lemma undo_request_undo:
  "sv_undo (fst (undo_request sys u s)) =
     (if snd (undo_request sys u s) = RespOK then pop_entry (undo_kind u) (sv_undo s) else sv_undo s)"
  by (simp add: undo_request_def undo_pop_def errResponse_def split: prod.splits option.splits)

lemma undo_call_tracked:
  assumes T: "tracked base ws c" and A: "apart ws" "u \<in> set ws"
  shows "\<exists>vs. set ws - {u} \<subseteq> set vs \<and> apart vs \<and> tracked base vs (fst (vpn_call sys (undo_op u) c))"
  using vpn_call_cases [of c sys "undo_op u"]
proof cases
  case gone
  then show ?thesis using T A by auto
next
  case late
  then show ?thesis using A tracked_gone by blast
next
  case (failed s' m e)
  then have "sv_undo s' = sv_undo (vc_server c)"
    using undo_request_undo [of sys u "vc_server c"] by (simp add: serve_undo_op)
  then show ?thesis using T A failed(2) by (intro exI [of _ ws]) (auto simp: tracked_def vpn_gone_def)
next
  case (answered s' resp)
  have "resp = RespOK" using answered(1,2) by (auto simp: serve_undo_op undo_request_def errResponse_def split: prod.splits option.splits)
  then have s': "sv_undo s' = pop_entry (undo_kind u) (sv_undo (vc_server c))"
    using undo_request_undo [of sys u "vc_server c"] answered(1) by (simp add: serve_undo_op)
  have "tracked base (remove1 u ws) (fst (vpn_call sys (undo_op u) c))"
    using T s' answered(3) apart_pop [OF A, of base] by (auto simp: tracked_def vpn_gone_def)
  moreover have "set ws - {u} \<subseteq> set (remove1 u ws)" by (simp add: set_remove1_eq [OF conjunct2 [OF apart_remove [OF A(1)]]])
  ultimately show ?thesis using apart_remove [OF A(1)] by blast
qed

lemma cleanup_left:
  assumes L: "lawful_net sys view" and T: "tracked base ws c" "apart ws" "set us \<subseteq> set ws" "distinct us"
  shows "left_behind sys view (run_cleanup sys (map undo_op us) c) = left_behind sys view c"
  using T
proof (induction us arbitrary: ws c)
  case (Cons u us)
  let ?c = "fst (vpn_call sys (undo_op u) c)"
  have ready: "vpn_gone c \<or> clean_request sys (vc_server c) (undo_op u)"
    using Cons.prems apart_ready [of ws u base] by (auto simp: tracked_def clean_undo_op)
  obtain vs where vs: "set ws - {u} \<subseteq> set vs" "apart vs" "tracked base vs ?c"
    using undo_call_tracked [OF Cons.prems(1,2), of u sys] Cons.prems(3) by auto
  have "set us \<subseteq> set vs" using Cons.prems(3,4) vs(1) by auto
  then have "left_behind sys view (run_cleanup sys (map undo_op us) ?c) = left_behind sys view ?c"
    using Cons.IH [OF vs(3,2)] Cons.prems(4) by simp
  also have "\<dots> = left_behind sys view c" by (rule vpn_call_left [OF L ready])
  finally show ?case by (simp add: run_cleanup_def vpn_do_fst)
qed (simp add: run_cleanup_def)


section \<open>Tunnels leave the network as it was\<close>

lemma keeps_stack:
  "sv_undo (fst (handleOpenTUN sys name s)) = sv_undo s"
  "sv_undo (fst (handleConfigureTUN sys iface cidr mtu s)) = sv_undo s"
  by (simp_all add: handleOpenTUN_def handleConfigureTUN_def split: prod.splits sum.splits option.splits)

lemma change_pushes:
  "serve_request sys s r = (s', resp) \<Longrightarrow> r = opAddMasquerade x y \<and> u = UndoMasquerade x y \<or>
     r = opAddForwardAccept x y \<and> u = UndoForwardAccept x y \<or>
     r = opAddForwardEstablished x y \<and> u = UndoForwardEstablished x y \<Longrightarrow>
   sv_undo s' = (if resp = RespOK then map entry [u] else []) @ sv_undo s \<and> (resp = RespOK \<or> (\<exists>m. resp = RespError m))"
  by (auto simp: handleAddMasquerade_def handleAddForwardAccept_def handleAddForwardEstablished_def undo_push_def
      entry_def errResponse_def split: prod.splits option.splits)

lemma sysctl_pushes:
  "serve_request sys s (opSetSysctl key val) = (s', resp) \<Longrightarrow>
   (\<exists>prev. resp = RespPrevious prev \<and> sv_undo s' = map entry [UndoSysctl key prev] @ sv_undo s) \<or>
   (\<exists>m. resp = RespError m) \<and> sv_undo s' = sv_undo s"
  by (auto simp: handleSetSysctl_def undo_push_def entry_def errResponse_def split: prod.splits sum.splits)

text \<open>The state of a set-up: what it has done, and what would be left behind.\<close>

definition setup_at :: "'n netsys \<Rightarrow> ('n \<Rightarrow> 'v) \<Rightarrow> (string \<times> undo) list \<Rightarrow> 'v \<Rightarrow> undo list \<Rightarrow> 'n vpnHelper \<Rightarrow> bool" where
  "setup_at sys view base v ws c \<longleftrightarrow> tracked base ws c \<and> left_behind sys view c = v"

lemma setup_failed:
  assumes L: "lawful_net sys view" and S: "setup_at sys view base v ws c" and Q: "vpn_call sys r c = (c', Inl e)"
    and C: "clean_request sys (vc_server c) r"
    and E: "\<And>s s' m. serve_request sys s r = (s', RespError m) \<Longrightarrow> sv_undo s' = sv_undo s"
  shows "setup_at sys view base v ws c'"
proof -
  have "tracked base ws c'" by (rule tracked_failed [OF _ Q E]) (use S in \<open>simp_all add: setup_at_def\<close>)
  then show ?thesis using vpn_call_left [OF L, of c r] C Q S by (simp add: setup_at_def)
qed

lemma setup_done:
  assumes L: "lawful_net sys view" and S: "setup_at sys view base v ws c" and Q: "vpn_call sys r c = (c', Inr resp)"
    and C: "clean_request sys (vc_server c) r"
    and O: "\<And>s s'. serve_request sys s r = (s', resp) \<Longrightarrow> sv_undo s' = map entry vs @ sv_undo s"
  shows "setup_at sys view base v (vs @ ws) c'"
proof -
  have "tracked base (vs @ ws) c'" by (rule tracked_done [OF _ Q O]) (use S in \<open>simp_all add: setup_at_def\<close>)
  then show ?thesis using vpn_call_left [OF L, of c r] C Q S by (simp add: setup_at_def)
qed

text \<open>The calls of the set-up: the interface, the kernel setting, the rules.\<close>

lemma setup_quiet:
  assumes L: "lawful_net sys view" and S: "setup_at sys view base v ws c" and Q: "vpn_call sys r c = (c', q)"
    and r: "r = opOpenTUN name \<or> r = opConfigureTUN iface cidr mtu"
  shows "setup_at sys view base v ws c'"
proof -
  have k: "sv_undo s' = sv_undo s" if "serve_request sys s r = (s', resp)" for s s' resp
    using that r keeps_stack(1) [of sys name s] keeps_stack(2) [of sys iface cidr mtu s] by auto
  have C: "clean_request sys (vc_server c) r" using r by auto
  show ?thesis
  proof (cases q)
    case (Inl e)
    show ?thesis by (rule setup_failed [OF L S Q [unfolded Inl] C k])
  next
    case (Inr resp)
    have "setup_at sys view base v ([] @ ws) c'" by (rule setup_done [OF L S Q [unfolded Inr] C]) (simp add: k)
    then show ?thesis by simp
  qed
qed

lemma setup_OpenTUN:
  assumes L: "lawful_net sys view" and S: "setup_at sys view base v ws c" and C: "vpn_OpenTUN sys name c = (c', r)"
  shows "setup_at sys view base v ws c'"
  using C setup_quiet [OF L S, of "opOpenTUN name"] by (auto simp: vpn_OpenTUN_def split: prod.splits sum.splits)

lemma setup_Configure:
  assumes L: "lawful_net sys view" and S: "setup_at sys view base v ws c"
    and C: "vpn_do sys (opConfigureTUN iface cidr mtu) c = (c', r)"
  shows "setup_at sys view base v ws c'"
  using C setup_quiet [OF L S, of "opConfigureTUN iface cidr mtu"] by (auto simp: vpn_do_def split: prod.splits sum.splits)

lemma setup_SetSysctl:
  assumes L: "lawful_net sys view" and S: "setup_at sys view base v ws c" and C: "vpn_SetSysctl sys key val c = (c', r)"
  shows "setup_at sys view base v (case r of Inl _ \<Rightarrow> ws | Inr prev \<Rightarrow> UndoSysctl key prev # ws) c'"
proof -
  let ?r = "opSetSysctl key val"
  obtain q where q: "vpn_call sys ?r c = (c', q)" and r: "r = (case q of Inl e \<Rightarrow> Inl e
      | Inr (RespPrevious p) \<Rightarrow> Inr p | Inr _ \<Rightarrow> Inl (Errorf ''set_sysctl: malformed response''))"
    using C by (auto simp: vpn_SetSysctl_def split: prod.splits sum.splits)
  show ?thesis
  proof (cases q)
    case (Inl e)
    have "setup_at sys view base v ws c'"
      by (rule setup_failed [OF L S q [unfolded Inl]]) (use sysctl_pushes in \<open>force+\<close>)
    then show ?thesis using r Inl by simp
  next
    case (Inr resp)
    from vpn_call_cases [of c sys ?r] obtain s' where s': "serve_request sys (vc_server c) ?r = (s', resp)" "\<forall>m. resp \<noteq> RespError m"
      by cases (use q Inr in auto)
    obtain prev where p: "resp = RespPrevious prev" using sysctl_pushes [OF s'(1)] s'(2) by auto
    have "setup_at sys view base v ([UndoSysctl key prev] @ ws) c'"
      by (rule setup_done [OF L S q [unfolded Inr]]) (use sysctl_pushes p in \<open>force+\<close>)
    then show ?thesis using r Inr p by simp
  qed
qed

lemma setup_rule:
  assumes L: "lawful_net sys view" and S: "setup_at sys view base v ws c" and C: "vpn_do sys r c = (c', e)"
    and r: "r = opAddMasquerade x y \<and> u = UndoMasquerade x y \<or> r = opAddForwardAccept x y \<and> u = UndoForwardAccept x y \<or>
     r = opAddForwardEstablished x y \<and> u = UndoForwardEstablished x y"
  shows "setup_at sys view base v (if e = None then u # ws else ws) c'"
proof -
  have cl: "clean_request sys (vc_server c) r" using r by auto
  obtain q where q: "vpn_call sys r c = (c', q)" and e: "e = (case q of Inl e \<Rightarrow> Some e | Inr _ \<Rightarrow> None)"
    using C by (auto simp: vpn_do_def split: prod.splits sum.splits)
  show ?thesis
  proof (cases q)
    case (Inl x')
    have "setup_at sys view base v ws c'"
    proof (rule setup_failed [OF L S q [unfolded Inl] cl])
      show "sv_undo s' = sv_undo s" if "serve_request sys s r = (s', RespError m)" for s s' m
        using change_pushes [OF that r] by simp
    qed
    then show ?thesis using e Inl by simp
  next
    case (Inr resp)
    from vpn_call_cases [of c sys r] obtain s' where s': "serve_request sys (vc_server c) r = (s', resp)" "\<forall>m. resp \<noteq> RespError m"
      by cases (use q Inr in auto)
    have ok: "resp = RespOK" using change_pushes [OF s'(1) r] s'(2) by auto
    have "setup_at sys view base v ([u] @ ws) c'"
    proof (rule setup_done [OF L S q [unfolded Inr] cl])
      show "sv_undo s' = map entry [u] @ sv_undo s" if "serve_request sys s r = (s', resp)" for s s'
        using change_pushes [OF that r] ok by simp
    qed
    then show ?thesis using e Inr by simp
  qed
qed


lemma setup_cleanup:
  assumes L: "lawful_net sys view" and S: "setup_at sys view base v ws c" and A: "apart ws"
  shows "left_behind sys view (run_cleanup sys (map undo_op ws) c) = v"
proof -
  have "distinct ws" using A apart_remove by blast
  then show ?thesis using cleanup_left [OF L _ A, of base c ws] S by (simp add: setup_at_def)
qed

text \<open>What an outcome of the set-up leaves to do.\<close>

definition setup_outcome :: "'n netsys \<Rightarrow> ('n \<Rightarrow> 'v) \<Rightarrow> (string \<times> undo) list \<Rightarrow> 'v \<Rightarrow> 'n vpnHelper \<times> rpcRequest list result \<Rightarrow> bool" where
  "setup_outcome sys view base v p \<longleftrightarrow> (case p of
     (c', Inl e) \<Rightarrow> left_behind sys view c' = v
   | (c', Inr cleanup) \<Rightarrow> \<exists>ws. cleanup = map undo_op ws \<and> apart ws \<and> setup_at sys view base v ws c')"

lemma outcome_fail:
  assumes "lawful_net sys view" "setup_at sys view base v ws c" "apart ws" "fns = map undo_op ws"
  shows "setup_outcome sys view base v (run_cleanup sys fns c, Inl e)"
  using setup_cleanup [OF assms(1-3)] assms(4) by (simp add: setup_outcome_def)

lemma outcome_done:
  "setup_at sys view base v ws c \<Longrightarrow> apart ws \<Longrightarrow> setup_outcome sys view base v (c, Inr (map undo_op ws))"
  by (auto simp: setup_outcome_def)

lemma exit_node_apart:
  "apart [UndoForwardEstablished i t, UndoForwardAccept t i, UndoMasquerade s i, UndoSysctl key prev]"
  "apart [UndoForwardAccept t i, UndoMasquerade s i, UndoSysctl key prev]"
  "apart [UndoMasquerade s i, UndoSysctl key prev]" "apart [UndoSysctl key prev]" "apart []"
  by (simp_all add: apart_def masquerade_args_def forward_args_def established_args_def)

lemma start_outcome:
  assumes L: "lawful_net sys view"
  shows "setup_outcome sys view (sv_undo (vc_server c)) (left_behind sys view c) (startVPNTunnelServer sys sendErr c)"
proof -
  let ?base = "sv_undo (vc_server c)" and ?v = "left_behind sys view c"
  let ?at = "setup_at sys view ?base ?v" and ?out = "setup_outcome sys view ?base ?v (startVPNTunnelServer sys sendErr c)"
  note fail = outcome_fail [OF L] and ap = exit_node_apart
  have s0: "?at [] c" by (simp add: setup_at_def tracked_def)
  obtain c1 r1 where e1: "vpn_OpenTUN sys VPNServerTUNName c = (c1, r1)" by fastforce
  have s1: "?at [] c1" by (rule setup_OpenTUN [OF L s0 e1])
  show ?out
  proof (cases r1)
    case (Inl e)
    then show ?thesis using s1 e1 by (simp add: startVPNTunnelServer_def setup_outcome_def setup_at_def)
  next
    case 1: (Inr t)
    obtain c2 r2 where e2: "vpn_do sys (opConfigureTUN t VPNServerCIDR VPNMTU) c1 = (c2, r2)" by fastforce
    have s2: "?at [] c2" by (rule setup_Configure [OF L s1 e2])
    obtain c3 r3 where e3: "vpn_SetSysctl sys ''net.ipv4.ip_forward'' ''1'' c2 = (c3, r3)" by fastforce
    have s3: "?at (case r3 of Inl _ \<Rightarrow> [] | Inr prev \<Rightarrow> [UndoSysctl ''net.ipv4.ip_forward'' prev]) c3"
      using setup_SetSysctl [OF L s2 e3] .
    show ?thesis
    proof (cases "r2 = None \<and> \<not> isl r3 \<and> \<not> isl (GetDefaultRoute sys 4 (sv_net (vc_server c3)))")
      case False
      then show ?thesis using e1 1 e2 e3 fail [OF s2 ap(5)] fail [OF s3]
        by (cases "GetDefaultRoute sys 4 (sv_net (vc_server c3))")
          (auto simp: startVPNTunnelServer_def Let_def ap split: option.splits sum.splits)
    next
      case True
      then obtain p g where r3: "r3 = Inr p" and g: "GetDefaultRoute sys 4 (sv_net (vc_server c3)) = Inr g" by (auto elim!: notE simp: isl_def) (metis sum.exhaust)
      let ?i = "dr_Iface g" and ?u1 = "UndoSysctl ''net.ipv4.ip_forward'' p"
      let ?u2 = "UndoMasquerade VPNSubnetCIDR ?i" and ?u3 = "UndoForwardAccept t ?i" and ?u4 = "UndoForwardEstablished ?i t"
      obtain c4 r4 where e4: "vpn_do sys (opAddMasquerade VPNSubnetCIDR ?i) c3 = (c4, r4)" by fastforce
      have s4: "?at (if r4 = None then [?u2, ?u1] else [?u1]) c4"
        by (rule setup_rule [OF L _ e4]) (use s3 r3 in auto)
      show ?thesis
      proof (cases r4)
        case (Some e)
        then show ?thesis using True e1 1 e2 e3 r3 g e4 fail [OF s4] ap by (simp add: startVPNTunnelServer_def Let_def)
      next
        case 4: None
        obtain c5 r5 where e5: "vpn_do sys (opAddForwardAccept t ?i) c4 = (c5, r5)" by fastforce
        have s5: "?at (if r5 = None then [?u3, ?u2, ?u1] else [?u2, ?u1]) c5"
          by (rule setup_rule [OF L _ e5]) (use s4 4 in auto)
        show ?thesis
        proof (cases r5)
          case (Some e)
          then show ?thesis using True e1 1 e2 e3 r3 g e4 4 e5 fail [OF s5] ap by (simp add: startVPNTunnelServer_def Let_def)
        next
          case 5: None
          obtain c6 r6 where e6: "vpn_do sys (opAddForwardEstablished ?i t) c5 = (c6, r6)" by fastforce
          have s6: "?at (if r6 = None then [?u4, ?u3, ?u2, ?u1] else [?u3, ?u2, ?u1]) c6"
            by (rule setup_rule [OF L _ e6]) (use s5 5 in auto)
          note eqs = True e1 1 e2 e3 r3 g e4 4 e5 5 e6
          show ?thesis
          proof (cases r6)
            case (Some e)
            then show ?thesis using eqs fail [OF s6] ap by (simp add: startVPNTunnelServer_def Let_def)
          next
            case 6: None
            have out: "setup_outcome sys view ?base ?v (c6, Inr (map undo_op [?u4, ?u3, ?u2, ?u1]))"
              by (rule outcome_done [OF _ ap(1)]) (use s6 6 in simp)
            show ?thesis using eqs 6 fail [OF s6] ap out
              by (cases sendErr) (simp_all add: startVPNTunnelServer_def Let_def)
          qed
        qed
      qed
    qed
  qed
qed


lemma serve_tunnel_left:
  assumes L: "lawful_net sys view"
  shows "left_behind sys view (serve_tunnel sys sendErr c) = left_behind sys view c"
proof -
  obtain c' r where e: "startVPNTunnelServer sys sendErr c = (c', r)" by fastforce
  have o: "setup_outcome sys view (sv_undo (vc_server c)) (left_behind sys view c) (c', r)"
    using start_outcome [OF L, of c sendErr] e by simp
  show ?thesis
  proof (cases r)
    case (Inl x)
    then show ?thesis using o e by (simp add: serve_tunnel_def setup_outcome_def)
  next
    case (Inr cleanup)
    then obtain ws where ws: "cleanup = map undo_op ws" "apart ws"
        "setup_at sys view (sv_undo (vc_server c)) (left_behind sys view c) ws c'"
      using o by (auto simp: setup_outcome_def)
    show ?thesis using setup_cleanup [OF L ws(3,2)] e Inr ws(1) by (simp add: serve_tunnel_def vpn_session_close_def)
  qed
qed

lemma serve_tunnels_left:
  "lawful_net sys view \<Longrightarrow> left_behind sys view (serve_tunnels sys ends c) = left_behind sys view c"
  by (induction ends arbitrary: c) (simp_all add: serve_tunnels_def serve_tunnel_left)



definition small_conn :: "nat \<Rightarrow> small_net vpnHelper" where
  "small_conn k = \<lparr>vc_server = \<lparr>sv_undo = [], sv_net = \<lambda>_. 0\<rparr>, vc_left = k, vc_late = True\<rparr>"

lemma small_default_route: "GetDefaultRoute small_sys 4 n = Inr \<lparr>dr_Iface = ''eth0'', dr_Gateway = ''10.0.0.1''\<rparr>"
  by (simp add: GetDefaultRoute_def ip_flag_def small_output_def parse_default_route_def TrimSpace_def Fields_def
      utf8_spaces_chars trim_left.simps fields_from.simps)

lemma small_broken:
  "map fst (sv_undo (vc_server (serve_tunnel small_sys None (small_conn 5)))) =
     [''forward_established:eth0|dtun0'', ''forward_accept:dtun0|eth0'', ''masquerade:10.66.0.0/24|eth0'', ''sysctl:net.ipv4.ip_forward'']"
  by (simp add: serve_tunnel_def startVPNTunnelServer_def small_conn_def vpn_OpenTUN_def vpn_call_def vpn_do_def
      vpn_SetSysctl_def handleOpenTUN_def handleConfigureTUN_def ConfigureTUNAddress_def runNetCmd_def handleSetSysctl_def
      SetSysctl_def small_read_def small_write_def sysctl_path_def replace_char_def undo_push_def small_default_route
      handleAddMasquerade_def AddMasquerade_def small_rules small_inc_def handleAddForwardAccept_def AddForwardAccept_def
      handleAddForwardEstablished_def AddForwardEstablished_def run_cleanup_def VPNServerTUNName_def VPNSubnetCIDR_def Let_def)



section \<open>The one tunnel a machine serves\<close>

text \<open>
  Helpers and sessions are numbered. \<open>vw_setups\<close> are the set-ups under way with the helper they took,
  \<open>vw_open\<close> the sessions that are set up and not closed, with their helper; \<open>vw_closing\<close> are the sessions
  somebody is about to close after giving up the lock, \<open>vw_gone\<close> the helpers closed.
\<close>

record vpnServer =
  vpn_helper :: "nat option"
  vpn_active :: "nat option"
  vpn_starting :: bool
  vpn_closed :: bool

definition newVPNServer :: vpnServer where
  "newVPNServer = \<lparr>vpn_helper = None, vpn_active = None, vpn_starting = False, vpn_closed = False\<rparr>"

record vpnWorld =
  vw_vpn :: vpnServer
  vw_setups :: "(nat \<times> nat) list"
  vw_open :: "(nat \<times> nat) list"
  vw_closing :: "nat list"
  vw_gone :: "nat list"

definition vpnWorld_start :: vpnWorld where
  "vpnWorld_start = \<lparr>vw_vpn = newVPNServer, vw_setups = [], vw_open = [], vw_closing = [], vw_gone = []\<rparr>"

definition drop_open :: "nat \<Rightarrow> vpnWorld \<Rightarrow> vpnWorld" where
  "drop_open s w = w\<lparr>vw_open := filter (\<lambda>p. fst p \<noteq> s) (vw_open w), vw_closing := filter (\<lambda>x. x \<noteq> s) (vw_closing w)\<rparr>"

text \<open>\<open>handleVPNChannel\<close> up to the set-up, and after it; \<open>ok\<close> is whether the set-up succeeded.\<close>

definition vpn_claim :: "nat \<Rightarrow> vpnWorld \<Rightarrow> vpnWorld" where
  "vpn_claim s w = (let v = vw_vpn w in
     case vpn_helper v of
       None \<Rightarrow> w
     | Some h \<Rightarrow>
         if vpn_closed v then w
         else if vpn_active v \<noteq> None \<or> vpn_starting v then w
         else w\<lparr>vw_vpn := v\<lparr>vpn_starting := True\<rparr>, vw_setups := (s, h) # vw_setups w\<rparr>)"

definition vpn_activate :: "nat \<Rightarrow> nat \<Rightarrow> bool \<Rightarrow> vpnWorld \<Rightarrow> vpnWorld" where
  "vpn_activate s h ok w = (let v = (vw_vpn w)\<lparr>vpn_starting := False\<rparr>;
       w' = w\<lparr>vw_vpn := v, vw_setups := remove1 (s, h) (vw_setups w)\<rparr> in
     if \<not> ok then w'
     else if vpn_closed v \<or> vpn_helper v = None \<or> vpn_active v \<noteq> None
     then w'\<lparr>vw_open := (s, h) # vw_open w, vw_closing := s # vw_closing w\<rparr>
     else w'\<lparr>vw_vpn := v\<lparr>vpn_active := Some s\<rparr>, vw_open := (s, h) # vw_open w\<rparr>)"

text \<open>\<open>closeVPNSession\<close> closes the session (\<open>drop_open\<close>); \<open>vpn_settle\<close> is what it does under the lock after that.\<close>

definition vpn_settle :: "nat \<Rightarrow> vpnWorld \<Rightarrow> vpnWorld" where
  "vpn_settle s w = (let v = vw_vpn w in if vpn_active v = Some s then w\<lparr>vw_vpn := v\<lparr>vpn_active := None\<rparr>\<rparr> else w)"

definition closing_of :: "vpnServer \<Rightarrow> nat list" where
  "closing_of v = (case vpn_active v of None \<Rightarrow> [] | Some s \<Rightarrow> [s])"

definition gone_of :: "vpnServer \<Rightarrow> nat list" where
  "gone_of v = (case vpn_helper v of None \<Rightarrow> [] | Some h \<Rightarrow> [h])"

definition CloseVPNTunnel :: "vpnWorld \<Rightarrow> vpnWorld" where
  "CloseVPNTunnel w = (let v = vw_vpn w in
     w\<lparr>vw_vpn := v\<lparr>vpn_active := None, vpn_helper := None, vpn_closed := True\<rparr>,
       vw_closing := closing_of v @ vw_closing w, vw_gone := gone_of v @ vw_gone w\<rparr>)"

definition ArmVPNServing :: "nat \<Rightarrow> vpnWorld \<Rightarrow> vpnWorld \<times> go_error option" where
  "ArmVPNServing h w = (let v = vw_vpn w in
     if vpn_closed v \<or> vpn_helper v \<noteq> None then (w, Some (Errorf ''already serving, or shutting down''))
     else (w\<lparr>vw_vpn := v\<lparr>vpn_helper := Some h\<rparr>\<rparr>, None))"

definition DisarmVPNServing :: "vpnWorld \<Rightarrow> vpnWorld \<times> bool" where
  "DisarmVPNServing w = (let v = vw_vpn w; w' = w\<lparr>vw_vpn := v\<lparr>vpn_helper := None, vpn_active := None\<rparr>\<rparr> in
     if vpn_helper v = None then (w', False)
     else (w'\<lparr>vw_closing := closing_of v @ vw_closing w, vw_gone := gone_of v @ vw_gone w\<rparr>, True))"

inductive vpn_step :: "vpnWorld \<Rightarrow> vpnWorld \<Rightarrow> bool" where
  claim: "s \<notin> fst ` set (vw_setups w) \<union> fst ` set (vw_open w) \<Longrightarrow> vpn_step w (vpn_claim s w)"
| activate: "(s, h) \<in> set (vw_setups w) \<Longrightarrow> vpn_step w (vpn_activate s h ok w)"
| close_session: "vpn_step w (drop_open s w)"
| settle: "s \<notin> fst ` set (vw_open w) \<Longrightarrow> vpn_step w (vpn_settle s w)"
| shut: "vpn_step w (CloseVPNTunnel w)"
| arm: "vpn_step w (fst (ArmVPNServing h w))"
| disarm: "vpn_step w (fst (DisarmVPNServing w))"

definition vpn_reachable :: "vpnWorld \<Rightarrow> bool" where
  "vpn_reachable w \<longleftrightarrow> vpn_step\<^sup>*\<^sup>* vpnWorld_start w"

definition vpn_inv :: "vpnWorld \<Rightarrow> bool" where
  "vpn_inv w \<longleftrightarrow> (let v = vw_vpn w in
     length (vw_setups w) \<le> 1 \<and> (vpn_starting v \<longleftrightarrow> vw_setups w \<noteq> []) \<and>
     (vpn_active v \<noteq> None \<longrightarrow> vpn_helper v \<noteq> None \<and> vw_setups w = []) \<and>
     (vpn_helper v \<noteq> None \<longrightarrow> \<not> vpn_closed v) \<and>
     (\<forall>p \<in> set (vw_open w). vpn_active v = Some (fst p) \<or> fst p \<in> set (vw_closing w)))"

lemma vpn_step_inv: "vpn_step w w' \<Longrightarrow> vpn_inv w \<Longrightarrow> vpn_inv w'"
proof (induction rule: vpn_step.induct)
  case (claim s w)
  then show ?case by (auto simp: vpn_inv_def vpn_claim_def Let_def split: option.splits)
next
  case (activate s h w ok)
  then have "vw_setups w = [(s, h)]" by (cases "vw_setups w") (auto simp: vpn_inv_def Let_def)
  then show ?case using activate by (auto simp: vpn_inv_def vpn_activate_def Let_def)
next
  case (close_session w s)
  then show ?case by (auto simp: vpn_inv_def drop_open_def Let_def)
next
  case (settle s w)
  then show ?case by (force simp: vpn_inv_def vpn_settle_def Let_def)
next
  case (shut w)
  then show ?case by (auto simp: vpn_inv_def CloseVPNTunnel_def closing_of_def Let_def split: option.splits)
next
  case (arm w h)
  then show ?case by (auto simp: vpn_inv_def ArmVPNServing_def Let_def)
next
  case (disarm w)
  then show ?case by (auto simp: vpn_inv_def DisarmVPNServing_def closing_of_def Let_def split: option.splits)
qed


lemma vpn_reachable_step: "vpn_reachable w \<Longrightarrow> vpn_step w w' \<Longrightarrow> vpn_reachable w'"
  unfolding vpn_reachable_def by (rule rtranclp.rtrancl_into_rtrancl)

lemma vpn_reachable_inv: "vpn_reachable w \<Longrightarrow> vpn_inv w"
  unfolding vpn_reachable_def
proof (induction rule: rtranclp_induct)
  case base
  show ?case by (simp add: vpn_inv_def vpnWorld_start_def newVPNServer_def)
next
  case (step w w')
  then show ?case using vpn_step_inv by blast
qed

text \<open>
  Property C16 (vpn_one_tunnel): at any time at most one tunnel is being set up, none while one is active, an active
  tunnel has an armed helper, and every session that is set up is the active one or about to be closed, so no
  session keeps its rules after disarming or shutdown.
\<close>

theorem vpn_one_tunnel:
  assumes "vpn_reachable w"
  shows "length (vw_setups w) \<le> 1 \<and> (vpn_starting (vw_vpn w) \<longleftrightarrow> vw_setups w \<noteq> []) \<and>
    (vpn_active (vw_vpn w) \<noteq> None \<longrightarrow> vpn_helper (vw_vpn w) \<noteq> None \<and> \<not> vpn_closed (vw_vpn w) \<and> vw_setups w = []) \<and>
    (\<forall>p \<in> set (vw_open w). vpn_active (vw_vpn w) = Some (fst p) \<or> fst p \<in> set (vw_closing w))"
  using vpn_reachable_inv [OF assms] by (auto simp: vpn_inv_def Let_def)

definition vpn_stale :: vpnWorld where
  "vpn_stale = vpn_activate 7 1 True (fst (ArmVPNServing 2 (fst (DisarmVPNServing (vpn_claim 7
     (fst (ArmVPNServing 1 vpnWorld_start)))))))"

lemma vpn_stale_is: "vpn_stale = \<lparr>vw_vpn = \<lparr>vpn_helper = Some 2, vpn_active = Some 7, vpn_starting = False, vpn_closed = False\<rparr>,
    vw_setups = [], vw_open = [(7, 1)], vw_closing = [], vw_gone = [1]\<rparr>"
  by (simp add: vpn_stale_def vpnWorld_start_def newVPNServer_def ArmVPNServing_def DisarmVPNServing_def vpn_claim_def
      vpn_activate_def closing_of_def gone_of_def Let_def)

lemma vpn_stale_reachable: "vpn_reachable vpn_stale"
proof -
  have "vpn_reachable vpnWorld_start" by (simp add: vpn_reachable_def)
  then have "vpn_reachable (fst (ArmVPNServing 1 vpnWorld_start))" by (rule vpn_reachable_step) (rule vpn_step.arm)
  then have "vpn_reachable (vpn_claim 7 (fst (ArmVPNServing 1 vpnWorld_start)))"
    by (rule vpn_reachable_step) (rule vpn_step.claim, simp add: vpnWorld_start_def newVPNServer_def ArmVPNServing_def Let_def)
  then have "vpn_reachable (fst (ArmVPNServing 2 (fst (DisarmVPNServing (vpn_claim 7 (fst (ArmVPNServing 1 vpnWorld_start)))))))"
    by (rule vpn_reachable_step [OF vpn_reachable_step]) (rule vpn_step.disarm vpn_step.arm)+
  then show ?thesis unfolding vpn_stale_def
    by (rule vpn_reachable_step) (rule vpn_step.activate, simp add: vpnWorld_start_def newVPNServer_def ArmVPNServing_def
      DisarmVPNServing_def vpn_claim_def Let_def)
qed

theorem vpn_one_tunnel_witness:
  "vpn_reachable vpn_stale \<and> vw_setups vpn_stale = [] \<and> vpn_helper (vw_vpn vpn_stale) = Some 2 \<and>
   vw_open vpn_stale = [(7, 1)] \<and> vw_closing vpn_stale = [] \<and> vpn_active (vw_vpn vpn_stale) = Some 7"
  using vpn_one_tunnel [OF vpn_stale_reachable] vpn_stale_reachable by (simp add: vpn_stale_is)

text \<open>
  A machine that is disarmed and armed again while a tunnel is being set up ends up serving a tunnel whose helper is
  closed and has unwound: no rule forwards its packets, and it keeps every other tunnel out.
\<close>

lemma stale_helper_activated:
  "\<exists>w s h. vpn_reachable w \<and> vpn_active (vw_vpn w) = Some s \<and> (s, h) \<in> set (vw_open w) \<and> h \<in> set (vw_gone w) \<and>
     vpn_helper (vw_vpn w) \<noteq> Some h \<and> vpn_claim s' w = w"
  by (rule exI [of _ vpn_stale], rule exI [of _ 7], rule exI [of _ 1]) (simp add: vpn_stale_reachable, simp add: vpn_stale_is vpn_claim_def)

section \<open>Packets\<close>

text \<open>\<open>ValidateIPv4Source\<close>, and the server's handler for the messages of the channel.\<close>

definition ValidateIPv4Source :: "bytes \<Rightarrow> bytes \<Rightarrow> bool" where
  "ValidateIPv4Source pkt expected \<longleftrightarrow> length pkt \<ge> 20 \<and> (of_char (pkt ! 0) :: nat) div 16 = 4 \<and> take 4 (drop 12 pkt) = expected"

definition VPNClientIP :: "bytes" where "VPNClientIP = map char_of [10, 66, 0, 2 :: nat]"

fun vpn_received :: "(bool \<times> bytes) list \<Rightarrow> bytes list" where
  "vpn_received [] = []"
| "vpn_received ((isString, pkt) # ms) =
     (if isString then vpn_received ms
      else if \<not> ValidateIPv4Source pkt VPNClientIP then vpn_received ms
      else pkt # vpn_received ms)"

text \<open>
  \<open>PumpTUNToChannel\<close> over what the reads of the device give: \<open>readings k\<close> are the buffered amounts it sees before
  the k-th packet until the tunnel is done (and it gives up), \<open>sent k\<close> is whether that send works.
\<close>

definition vpnSendBufferHigh :: nat where "vpnSendBufferHigh = 512 * 1024"

datatype tun_read = TunPacket "bytes" | TunError

definition buffer_room :: "nat list \<Rightarrow> bytes \<Rightarrow> bool" where
  "buffer_room readings pkt \<longleftrightarrow> list_ex (\<lambda>b. b + length pkt \<le> vpnSendBufferHigh) readings"

fun PumpTUNToChannel :: "(nat \<Rightarrow> nat list) \<Rightarrow> (nat \<Rightarrow> bool) \<Rightarrow> nat \<Rightarrow> tun_read list \<Rightarrow> bytes list" where
  "PumpTUNToChannel readings sent k [] = []"
| "PumpTUNToChannel readings sent k (TunError # rs) = []"
| "PumpTUNToChannel readings sent k (TunPacket pkt # rs) =
     (if pkt = [] then PumpTUNToChannel readings sent k rs
      else if \<not> buffer_room (readings k) pkt then []
      else if \<not> sent k then []
      else pkt # PumpTUNToChannel readings sent (Suc k) rs)"

text \<open>Only packets with the client's own address reach the machine's network, in the order they came.\<close>

lemma vpn_received_exact: "vpn_received ms = filter (\<lambda>p. ValidateIPv4Source p VPNClientIP) (map snd (filter (\<lambda>m. \<not> fst m) ms))"
  by (induction ms rule: vpn_received.induct) auto

primrec tun_packets :: "tun_read list \<Rightarrow> bytes list" where
  "tun_packets [] = []"
| "tun_packets (r # rs) = (case r of TunPacket p \<Rightarrow> if p = [] then tun_packets rs else p # tun_packets rs | TunError \<Rightarrow> [])"

lemma pump_prefix: "\<exists>rest. tun_packets rs = PumpTUNToChannel readings sent k rs @ rest"
  by (induction readings sent k rs rule: PumpTUNToChannel.induct) auto

lemma pump_all:
  "\<forall>k p. sent k \<and> (TunPacket p \<in> set rs \<longrightarrow> buffer_room (readings k) p) \<Longrightarrow> PumpTUNToChannel readings sent k rs = tun_packets rs"
  by (induction readings sent k rs rule: PumpTUNToChannel.induct) auto


section \<open>The client's side\<close>

definition VPNClientTUNName :: string where "VPNClientTUNName = ''dtun1''"
definition VPNClientCIDR :: string where "VPNClientCIDR = ''10.66.0.2/24''"

definition vpn_ReplaceDefaultRoute :: "'n netsys \<Rightarrow> int \<Rightarrow> string \<Rightarrow> 'n vpnHelper \<Rightarrow> 'n vpnHelper \<times> DefaultRoute option result" where
  "vpn_ReplaceDefaultRoute sys v iface c = (case vpn_call sys (opReplaceDefaultRoute v iface) c of
     (c', Inl e) \<Rightarrow> (c', Inl e)
   | (c', Inr resp) \<Rightarrow> (c', case resp of
        RespPrev prev \<Rightarrow> Inr prev
      | _ \<Rightarrow> Inl (Errorf ''replace_default_route: malformed response'')))"

definition vpn_BlockIPv6Default :: "'n netsys \<Rightarrow> 'n vpnHelper \<Rightarrow> 'n vpnHelper \<times> (bool \<times> DefaultRoute option) result" where
  "vpn_BlockIPv6Default sys c = (case vpn_call sys opBlockIPv6Default c of
     (c', Inl e) \<Rightarrow> (c', Inl e)
   | (c', Inr resp) \<Rightarrow> (c', case resp of
        RespIPv6 had prev \<Rightarrow> Inr (had, prev)
      | _ \<Rightarrow> Inl (Errorf ''block_ipv6_default: malformed response'')))"

text \<open>The loop that pins the peers' addresses, the routes of the tunnel, and the call as a whole with its teardown.\<close>

fun vpn_pin :: "'n netsys \<Rightarrow> DefaultRoute \<Rightarrow> string list \<Rightarrow> rpcRequest list \<Rightarrow> 'n vpnHelper \<Rightarrow> 'n vpnHelper \<times> rpcRequest list" where
  "vpn_pin sys rt [] teardown c = (c, teardown)"
| "vpn_pin sys rt (ip # ips) teardown c =
     (case vpn_do sys (opAddHostRoute ip (dr_Gateway rt) (dr_Iface rt)) c of
        (c', None) \<Rightarrow> vpn_pin sys rt ips (opDelHostRoute ip # teardown) c'
      | (c', Some e) \<Rightarrow> vpn_pin sys rt ips teardown c')"

definition vpn_pin_all :: "'n netsys \<Rightarrow> string list \<Rightarrow> 'n vpnHelper \<Rightarrow> 'n vpnHelper \<times> rpcRequest list" where
  "vpn_pin_all sys pins c = (case GetDefaultRoute sys 4 (sv_net (vc_server c)) of
     Inl e \<Rightarrow> (c, [])
   | Inr rt \<Rightarrow> vpn_pin sys rt pins [] c)"

definition vpn_routes :: "'n netsys \<Rightarrow> string list \<Rightarrow> string \<Rightarrow> 'n vpnHelper \<Rightarrow> 'n vpnHelper \<times> rpcRequest list \<times> go_error option" where
  "vpn_routes sys pins ifaceName c = (case vpn_pin_all sys pins c of (c1, t1) \<Rightarrow>
     (case vpn_ReplaceDefaultRoute sys 4 ifaceName c1 of
        (c2, Inl e) \<Rightarrow> (c2, t1, Some (Wrapf ''failed to change default route: '' e))
      | (c2, Inr prevDefault) \<Rightarrow> (let t2 = opRestoreDefaultRoute 4 prevDefault # t1 in
          case vpn_BlockIPv6Default sys c2 of
            (c3, Inr (hadV6, prevV6)) \<Rightarrow> (c3, opRestoreIPv6Default hadV6 prevV6 # t2, None)
          | (c3, Inl e) \<Rightarrow> (c3, t2, None))))"

definition ConnectVPNClient :: "'n netsys \<Rightarrow> go_error option \<Rightarrow> string list \<Rightarrow> 'n vpnHelper \<Rightarrow> 'n vpnHelper \<times> go_error option" where
  "ConnectVPNClient sys handshake pins c =
     (case vpn_OpenTUN sys VPNClientTUNName c of
        (c1, Inl e) \<Rightarrow> (c1, Some (Wrapf ''failed to create tun device via deskconn-vpnd: '' e))
      | (c1, Inr ifaceName) \<Rightarrow>
     (case vpn_do sys (opConfigureTUN ifaceName VPNClientCIDR VPNMTU) c1 of
        (c2, Some e) \<Rightarrow> (c2, Some e)
      | (c2, None) \<Rightarrow>
     (case handshake of
        Some e \<Rightarrow> (c2, Some e)
      | None \<Rightarrow> (case vpn_routes sys pins ifaceName c2 of (c3, teardown, r) \<Rightarrow> (run_cleanup sys teardown c3, r)))))"

text \<open>Clean routes: no pinned address had a route of its own, and there was no IPv6 default route.\<close>

fun pins_clean :: "'n netsys \<Rightarrow> DefaultRoute \<Rightarrow> string list \<Rightarrow> 'n vpnHelper \<Rightarrow> bool" where
  "pins_clean sys rt [] c \<longleftrightarrow> True"
| "pins_clean sys rt (ip # ips) c \<longleftrightarrow> route_fresh sys ip (dr_Gateway rt) (dr_Iface rt) (sv_net (vc_server c)) \<and>
     pins_clean sys rt ips (fst (vpn_do sys (opAddHostRoute ip (dr_Gateway rt) (dr_Iface rt)) c))"

definition routes_clean :: "'n netsys \<Rightarrow> string list \<Rightarrow> string \<Rightarrow> 'n vpnHelper \<Rightarrow> bool" where
  "routes_clean sys pins ifaceName c \<longleftrightarrow>
     (case GetDefaultRoute sys 4 (sv_net (vc_server c)) of Inl e \<Rightarrow> True | Inr rt \<Rightarrow> pins_clean sys rt pins c) \<and>
     default_before sys 6 (sv_net (vc_server (fst (vpn_ReplaceDefaultRoute sys 4 ifaceName (fst (vpn_pin_all sys pins c)))))) = None"

definition client_clean :: "'n netsys \<Rightarrow> string list \<Rightarrow> 'n vpnHelper \<Rightarrow> bool" where
  "client_clean sys pins c \<longleftrightarrow> (case vpn_OpenTUN sys VPNClientTUNName c of
     (c1, Inl e) \<Rightarrow> True
   | (c1, Inr ifaceName) \<Rightarrow>
       routes_clean sys pins ifaceName (fst (vpn_do sys (opConfigureTUN ifaceName VPNClientCIDR VPNMTU) c1)))"

lemma vpn_call_answer:
  assumes "vpn_call sys r c = (c', Inr resp)"
  shows "\<exists>s'. serve_request sys (vc_server c) r = (s', resp) \<and> (\<forall>m. resp \<noteq> RespError m)"
  using vpn_call_cases [of c sys r] by cases (use assms in auto)

text \<open>A call whose change is \<open>u\<close> whenever it answers.\<close>

lemma setup_change:
  assumes L: "lawful_net sys view" and S: "setup_at sys view base v ws c" and Q: "vpn_call sys r c = (c', q)"
    and C: "clean_request sys (vc_server c) r"
    and E: "\<And>s s' m. serve_request sys s r = (s', RespError m) \<Longrightarrow> sv_undo s' = sv_undo s"
    and O: "\<And>s s' resp. serve_request sys s r = (s', resp) \<Longrightarrow> q = Inr resp \<Longrightarrow> (\<forall>m. resp \<noteq> RespError m) \<Longrightarrow>
      sv_undo s' = entry u # sv_undo s"
  shows "setup_at sys view base v (if isl q then ws else u # ws) c'"
proof (cases q)
  case (Inl e)
  show ?thesis using setup_failed [OF L S Q [unfolded Inl] C E] Inl by simp
next
  case (Inr resp)
  have ne: "\<forall>m. resp \<noteq> RespError m" using vpn_call_answer [OF Q [unfolded Inr]] by blast
  have "setup_at sys view base v ([u] @ ws) c'"
  proof (rule setup_done [OF L S Q [unfolded Inr] C])
    show "sv_undo s' = map entry [u] @ sv_undo s" if "serve_request sys s r = (s', resp)" for s s'
      using O [OF that Inr ne] by simp
  qed
  then show ?thesis using Inr by simp
qed


lemma route_pushes:
  "serve_request sys s (opAddHostRoute ip gw i) = (s', resp) \<Longrightarrow>
    resp = RespOK \<and> sv_undo s' = entry (UndoHostRoute ip) # sv_undo s \<or> (\<exists>m. resp = RespError m) \<and> sv_undo s' = sv_undo s"
  "serve_request sys s (opReplaceDefaultRoute v i) = (s', resp) \<Longrightarrow>
    (\<exists>prev. resp = RespPrev prev \<and> sv_undo s' = entry (UndoDefaultRoute v prev) # sv_undo s) \<or>
    (\<exists>m. resp = RespError m) \<and> sv_undo s' = sv_undo s"
  "serve_request sys s opBlockIPv6Default = (s', resp) \<Longrightarrow>
    (\<exists>had prev. resp = RespIPv6 had prev \<and> sv_undo s' = entry (UndoIPv6 had prev) # sv_undo s) \<or>
    (\<exists>m. resp = RespError m) \<and> sv_undo s' = sv_undo s"
  by (auto simp: handleAddHostRoute_def handleReplaceDefaultRoute_def handleBlockIPv6Default_def undo_push_def entry_def
      errResponse_def split: prod.splits option.splits sum.splits)

lemma setup_host:
  assumes L: "lawful_net sys view" and S: "setup_at sys view base v ws c" and C: "vpn_do sys (opAddHostRoute ip gw i) c = (c', e)"
    and F: "route_fresh sys ip gw i (sv_net (vc_server c))"
  shows "setup_at sys view base v (if e = None then UndoHostRoute ip # ws else ws) c'"
proof -
  let ?r = "opAddHostRoute ip gw i"
  obtain q where q: "vpn_call sys ?r c = (c', q)" and e: "e = None \<longleftrightarrow> \<not> isl q"
    using C by (auto simp: vpn_do_def split: prod.splits sum.splits)
  have "setup_at sys view base v (if isl q then ws else UndoHostRoute ip # ws) c'"
  proof (rule setup_change [OF L S q])
    show "sv_undo s' = sv_undo s" if "serve_request sys s ?r = (s', RespError m)" for s s' m
      using route_pushes(1) [OF that] by simp
    show "sv_undo s' = entry (UndoHostRoute ip) # sv_undo s"
      if "serve_request sys s ?r = (s', resp)" "\<forall>m. resp \<noteq> RespError m" for s s' resp
      using route_pushes(1) [OF that(1)] that(2) by blast
  qed (use F in simp)
  then show ?thesis using e by auto
qed

lemma setup_replace:
  assumes L: "lawful_net sys view" and S: "setup_at sys view base v ws c" and C: "vpn_ReplaceDefaultRoute sys ver i c = (c', r)"
  shows "setup_at sys view base v (case r of Inl _ \<Rightarrow> ws | Inr prev \<Rightarrow> UndoDefaultRoute ver prev # ws) c'"
proof -
  let ?r = "opReplaceDefaultRoute ver i"
  obtain q where q: "vpn_call sys ?r c = (c', q)" and r: "r = (case q of Inl e \<Rightarrow> Inl e
      | Inr (RespPrev p) \<Rightarrow> Inr p | Inr _ \<Rightarrow> Inl (Errorf ''replace_default_route: malformed response''))"
    using C by (auto simp: vpn_ReplaceDefaultRoute_def split: prod.splits sum.splits)
  have E: "sv_undo s' = sv_undo s" if "serve_request sys s ?r = (s', RespError m)" for s s' m
    using route_pushes(2) [OF that] by simp
  show ?thesis
  proof (cases q)
    case (Inl e)
    have "setup_at sys view base v ws c'" by (rule setup_failed [OF L S q [unfolded Inl] _ E]) simp
    then show ?thesis using r Inl by simp
  next
    case (Inr resp)
    obtain prev where p: "resp = RespPrev prev" using vpn_call_answer [OF q [unfolded Inr]] route_pushes(2) by blast
    have "setup_at sys view base v ([UndoDefaultRoute ver prev] @ ws) c'"
    proof (rule setup_done [OF L S q [unfolded Inr]])
      show "sv_undo s' = map entry [UndoDefaultRoute ver prev] @ sv_undo s" if "serve_request sys s ?r = (s', resp)" for s s'
        using route_pushes(2) [OF that] p by auto
    qed simp
    then show ?thesis using r Inr p by simp
  qed
qed

lemma setup_block:
  assumes L: "lawful_net sys view" and S: "setup_at sys view base v ws c" and C: "vpn_BlockIPv6Default sys c = (c', r)"
    and N: "default_before sys 6 (sv_net (vc_server c)) = None"
  shows "setup_at sys view base v (case r of Inl _ \<Rightarrow> ws | Inr (had, prev) \<Rightarrow> UndoIPv6 had prev # ws) c'"
proof -
  let ?r = "opBlockIPv6Default"
  obtain q where q: "vpn_call sys ?r c = (c', q)" and r: "r = (case q of Inl e \<Rightarrow> Inl e
      | Inr (RespIPv6 h p) \<Rightarrow> Inr (h, p) | Inr _ \<Rightarrow> Inl (Errorf ''block_ipv6_default: malformed response''))"
    using C by (auto simp: vpn_BlockIPv6Default_def split: prod.splits sum.splits)
  have E: "sv_undo s' = sv_undo s" if "serve_request sys s ?r = (s', RespError m)" for s s' m
    using route_pushes(3) [OF that] by simp
  show ?thesis
  proof (cases q)
    case (Inl e)
    have "setup_at sys view base v ws c'" by (rule setup_failed [OF L S q [unfolded Inl] _ E]) (simp add: N)
    then show ?thesis using r Inl by simp
  next
    case (Inr resp)
    obtain had prev where p: "resp = RespIPv6 had prev" using vpn_call_answer [OF q [unfolded Inr]] route_pushes(3) by blast
    have "setup_at sys view base v ([UndoIPv6 had prev] @ ws) c'"
    proof (rule setup_done [OF L S q [unfolded Inr]])
      show "sv_undo s' = map entry [UndoIPv6 had prev] @ sv_undo s" if "serve_request sys s ?r = (s', resp)" for s s'
        using route_pushes(3) [OF that] p by auto
    qed (simp add: N)
    then show ?thesis using r Inr p by simp
  qed
qed

lemma setup_pins:
  assumes L: "lawful_net sys view"
  shows "setup_at sys view base v (map UndoHostRoute hs) c \<Longrightarrow> pins_clean sys rt ips c \<Longrightarrow> distinct (ips @ hs) \<Longrightarrow>
    vpn_pin sys rt ips (map opDelHostRoute hs) c = (c', t) \<Longrightarrow>
    \<exists>gs. t = map opDelHostRoute gs \<and> distinct gs \<and> setup_at sys view base v (map UndoHostRoute gs) c'"
proof (induction ips arbitrary: hs c)
  case (Cons ip ips)
  obtain c1 e where e: "vpn_do sys (opAddHostRoute ip (dr_Gateway rt) (dr_Iface rt)) c = (c1, e)" by fastforce
  have S: "setup_at sys view base v (if e = None then UndoHostRoute ip # map UndoHostRoute hs else map UndoHostRoute hs) c1"
    by (rule setup_host [OF L Cons.prems(1) e]) (use Cons.prems(2) in simp)
  have P: "pins_clean sys rt ips c1" using Cons.prems(2) e by simp
  show ?case
  proof (cases e)
    case None
    show ?thesis using Cons.IH [of "ip # hs" c1] S P Cons.prems(3,4) e None by simp
  next
    case (Some x)
    show ?thesis using Cons.IH [of hs c1] S P Cons.prems(3,4) e Some by simp
  qed
qed auto

lemma client_apart:
  assumes "distinct gs"
  shows "apart (map UndoHostRoute gs)" "apart (UndoDefaultRoute 4 prev # map UndoHostRoute gs)"
    "apart (UndoIPv6 had p # UndoDefaultRoute 4 prev # map UndoHostRoute gs)"
proof -
  have "distinct (map undo_kind (map UndoHostRoute gs))" "distinct (map undo_target (map UndoHostRoute gs))"
    using assms by (simp_all add: distinct_map inj_on_def)
  then show "apart (map UndoHostRoute gs)" "apart (UndoDefaultRoute 4 prev # map UndoHostRoute gs)"
    "apart (UndoIPv6 had p # UndoDefaultRoute 4 prev # map UndoHostRoute gs)"
    by (auto simp: apart_def ip_flag_def)
qed

lemma undo_op_hosts: "map undo_op (map UndoHostRoute gs) = map opDelHostRoute gs"
  by simp


lemma routes_left:
  assumes L: "lawful_net sys view" and S: "setup_at sys view base v [] c" and R: "routes_clean sys pins i c" "distinct pins"
    and Q: "vpn_routes sys pins i c = (c', t, r)"
  shows "left_behind sys view (run_cleanup sys t c') = v"
proof -
  obtain c1 t1 where p: "vpn_pin_all sys pins c = (c1, t1)" by fastforce
  have "\<exists>gs. t1 = map opDelHostRoute gs \<and> distinct gs \<and> setup_at sys view base v (map UndoHostRoute gs) c1"
  proof (cases "GetDefaultRoute sys 4 (sv_net (vc_server c))")
    case (Inl e)
    then show ?thesis using p S by (simp add: vpn_pin_all_def)
  next
    case (Inr rt)
    then show ?thesis using setup_pins [OF L, of base v "[]" c rt pins c1 t1] p S R
      by (simp add: vpn_pin_all_def routes_clean_def)
  qed
  then obtain gs where gs: "t1 = map opDelHostRoute gs" "distinct gs" "setup_at sys view base v (map UndoHostRoute gs) c1" by blast
  obtain c2 r2 where e2: "vpn_ReplaceDefaultRoute sys 4 i c1 = (c2, r2)" by fastforce
  note s2 = setup_replace [OF L gs(3) e2]
  show ?thesis
  proof (cases r2)
    case (Inl e)
    then show ?thesis using Q p e2 setup_cleanup [OF L s2] client_apart(1) [OF gs(2)] gs(1)
      by (auto simp: vpn_routes_def comp_def)
  next
    case (Inr prev)
    obtain c3 r3 where e3: "vpn_BlockIPv6Default sys c2 = (c3, r3)" by fastforce
    have n: "default_before sys 6 (sv_net (vc_server c2)) = None" using R(1) p e2 by (simp add: routes_clean_def)
    have s2': "setup_at sys view base v (UndoDefaultRoute 4 prev # map UndoHostRoute gs) c2" using s2 Inr by simp
    note s3 = setup_block [OF L s2' e3 n]
    show ?thesis
    proof (cases r3)
      case (Inl e)
      then show ?thesis using Q p e2 Inr e3 setup_cleanup [OF L s3] client_apart(2) [OF gs(2)] gs(1)
        by (auto simp: vpn_routes_def Let_def comp_def)
    next
      case r3: (Inr hp)
      obtain had pv where hp: "hp = (had, pv)" by fastforce
      show ?thesis using Q p e2 Inr e3 r3 hp setup_cleanup [OF L s3] client_apart(3) [OF gs(2)] gs(1)
        by (auto simp: vpn_routes_def Let_def comp_def)
    qed
  qed
qed

lemma client_left:
  assumes L: "lawful_net sys view" and C: "client_clean sys pins c" "distinct pins"
  shows "left_behind sys view (fst (ConnectVPNClient sys handshake pins c)) = left_behind sys view c"
proof -
  let ?at = "setup_at sys view (sv_undo (vc_server c)) (left_behind sys view c)"
  have s0: "?at [] c" by (simp add: setup_at_def tracked_def)
  obtain c1 r1 where e1: "vpn_OpenTUN sys VPNClientTUNName c = (c1, r1)" by fastforce
  have s1: "?at [] c1" by (rule setup_OpenTUN [OF L s0 e1])
  show ?thesis
  proof (cases r1)
    case (Inl e)
    then show ?thesis using e1 s1 by (simp add: ConnectVPNClient_def setup_at_def)
  next
    case (Inr i)
    obtain c2 r2 where e2: "vpn_do sys (opConfigureTUN i VPNClientCIDR VPNMTU) c1 = (c2, r2)" by fastforce
    have s2: "?at [] c2" by (rule setup_Configure [OF L s1 e2])
    have R: "routes_clean sys pins i c2" using C(1) e1 Inr e2 by (simp add: client_clean_def)
    obtain c3 t r where e3: "vpn_routes sys pins i c2 = (c3, t, r)" by (metis prod_cases3)
    have "left_behind sys view (run_cleanup sys t c3) = left_behind sys view c" by (rule routes_left [OF L s2 R C(2) e3])
    then show ?thesis using e1 Inr e2 e3 s2
      by (cases r2; cases handshake) (simp_all add: ConnectVPNClient_def setup_at_def)
  qed
qed


lemma small_no_ipv6: "default_before small_sys 6 n = None"
  by (simp add: default_before_def GetDefaultRoute_def ip_flag_def small_output_def)

lemma small_client_clean: "client_clean small_sys [''8.8.8.8'', ''9.9.9.9''] (small_conn 4)"
  by (simp add: client_clean_def routes_clean_def small_no_ipv6 small_conn_def vpn_OpenTUN_def vpn_call_def vpn_do_def
      handleOpenTUN_def handleConfigureTUN_def ConfigureTUNAddress_def runNetCmd_def small_default_route route_fresh_def
      via_words_def small_host_def handleAddHostRoute_def AddHostRoute_def small_inc_def undo_push_def VPNClientTUNName_def Let_def)

lemma small_client_pins:
  "map fst (sv_undo (vc_server (fst (vpn_routes small_sys [''8.8.8.8'', ''9.9.9.9''] ''dtun1'' (small_conn 2)))))
     = [''host_route:9.9.9.9'', ''host_route:8.8.8.8'']"
  by (simp add: vpn_routes_def vpn_pin_all_def small_conn_def vpn_ReplaceDefaultRoute_def vpn_call_def vpn_do_def
      runNetCmd_def small_default_route via_words_def small_host_def handleAddHostRoute_def AddHostRoute_def
      small_inc_def undo_push_def handleReplaceDefaultRoute_def ReplaceDefaultRoute_def errResponse_def ip_flag_def Let_def)


end
