(* ===== verification/Spec2Isabelle.thy ===== *)
theory Spec2Isabelle
  imports ForwardClient ReverseClient AgentForward Auth FileOps FileCopy Browse Frames FileTransfer QuicTransfer P2PTransfer Layout TreeTransfer Sessions IndexService ShellClient Logs FileCat ProxyCalls AgentClient ProxyUpgrade FileCall Device ProxyHandlers NetTools TunnelHelper Tunnel
begin

text \<open>
  A model of deskconn's device daemon and command-line client.

  The program. \<open>deskconnd\<close> runs on a desktop, joins a WAMP realm and registers procedures: port
  forwarding in both directions, forwarding of an SSH agent, file browsing and file operations,
  file transfer over QUIC streams or WebRTC data channels, and others. The client \<open>deskconn\<close> calls
  them. Every payload is encrypted with keys that the two sides agree on by X25519 and HKDF; who
  may join is decided by a table of keys that events from the cloud keep up to date. Calls that
  carry a stream are progressive: the call's arguments and its progress results are messages in
  the two directions.

  Theories and code.

  \<^item> \<open>Prelude\<close>: Go's errors and results, WAMP values (\<open>wval\<close>), byte strings, lemmas on lists and
    finite maps.
  \<^item> \<open>Encryption\<close>: \<open>encryption.go\<close>, \<open>keymanager.go\<close> and the key exchange handler of \<open>deskconn.go\<close>.
    The primitives are the fields of the parameter \<open>crypto\<close>; what the proofs rely on
    (Diffie-Hellman commutes, opening a sealed text gives it back, lengths) is \<open>crypto_ok\<close>.
  \<^item> \<open>Conn\<close>: \<open>portForwardConn\<close> of \<open>portforward.go\<close>: closing, 64-bit sequence numbers, the reordering
    buffer and the reader goroutine. Connections are shared by pointer in the code, so they live
    in stores indexed by references (\<open>world\<close>). \<open>ConnTable\<close>: what the three tables of connections
    have in common, as locales that \<open>PortForward\<close>, \<open>PortReverse\<close> and \<open>AgentForward\<close> interpret.
  \<^item> \<open>PortForward\<close>, \<open>ForwardClient\<close>: \<open>portforward.go\<close>, the handler at the device and
    \<open>forwardConnection\<close> at the client, with end-to-end delivery. \<open>Listeners\<close>, \<open>PortReverse\<close>,
    \<open>ReverseClient\<close>: \<open>portreverse.go\<close>. \<open>AgentForward\<close>: \<open>handleAgentForward\<close> and the sessions of
    \<open>agentforward.go\<close>.
  \<^item> \<open>Auth\<close>: \<open>auth.go\<close> with the principals file of \<open>helpers.go\<close>; the table refines an abstract
    access list.
  \<^item> \<open>GoPath\<close>: \<open>path/filepath\<close> on slash-separated names. \<open>FileSystem\<close>: directories, files, symbolic
    links and the \<open>os\<close> calls the code makes. \<open>FileOps\<close>, \<open>FileCopy\<close>, \<open>Browse\<close>: \<open>fileexplorer.go\<close> and
    \<open>remotepath.go\<close>.
  \<^item> \<open>Frames\<close>, \<open>QuicTransfer\<close>: \<open>quictransfer.go\<close>. \<open>FileTransfer\<close>, \<open>Layout\<close>: \<open>filetransfer.go\<close>
    (manifest, chunks, worker pool as a step relation, destinations). \<open>P2PTransfer\<close>:
    \<open>filestreamchannel.go\<close>, \<open>filestreamencryption.go\<close>, \<open>filetransferp2p.go\<close>. \<open>TreeTransfer\<close>: the
    download of a whole directory, from the walk at the device to the tree at the client; \<open>Trees\<close>
    holds what the walks share.
  \<^item> \<open>Base64\<close>: \<open>encoding/base64\<close> as the code uses it. \<open>IndexDB\<close>: \<open>indexdb.go\<close> and \<open>Query\<close> of
    \<open>fileindex.go\<close> over the parameter \<open>bolt\<close>, which is what bbolt's buckets answer; \<open>Index\<close>: the
    invariant \<open>index_ok\<close> and the abstract map \<open>contents\<close>; \<open>IndexQuery\<close>: the merge of the order
    buckets and the pages; \<open>IndexService\<close>: the rest of \<open>fileindex.go\<close>.
  \<^item> \<open>Shell\<close>: the handlers of \<open>shell.go\<close> with the tables of shells, the migration of a shell to
    another session and the output readers; \<open>ShellClient\<close>: \<open>StartInteractiveCommand\<close> and both ends
    together.
  \<^item> \<open>Sessions\<close>: \<open>ClientSessions\<close> of \<open>types.go\<close>, the client's table of device sessions, with the
    goroutines that upgrade a session and reconnect as steps of a relation.

  Correspondence. A struct is a record with the code's fields, a map a finite map or a function to
  options, a \<open>uint64\<close> a \<open>64 word\<close>; Go's \<open>int\<close> and \<open>int64\<close> are integers with \<open>wrap64\<close> where a sum may
  overflow. A handler is a function from the state, the invocation and what the environment
  answers (dialling, listening, sending, random bytes) to the new state and the result; errors are
  values of \<open>go_error\<close>, a panic is a value of its own where the code can panic. A critical section
  under a mutex is one step; goroutines interleave as steps of an inductive relation
  (\<open>PortForward\<close>, \<open>PortReverse\<close>, \<open>AgentForward\<close>, the worker pool) or as arbitrary orders of
  messages.

  What is proved. For tunnels: both ends agree on keys; data follows the announcement of its
  connection in every reachable state; what arrives is what was sent, in order, whatever order the
  messages take; the end of a session closes and forgets its connections and no others; one caller
  cannot touch another's. For files: operations stay below the home directory when it holds no
  symbolic links; copies and renames are exact; pages of a listing are complete. For transfers:
  planned chunks tile a file; the pool hands out every chunk once and always finishes; frames
  round-trip; a file or a whole directory arrives exactly. For the index: its order buckets always
  list its entries, a query gives the newest, pages of one category are complete, and the
  synchronisation agrees with the disk. For sessions: contexts follow the table and subscribers are
  told once. For shells: a message reaches only the shell whose key it was encrypted with, only an
  authorised call moves a shell, the tables agree, and what is typed and printed arrives. For access: the table implements the
  event history. The theorems of kind error show where the code behaves differently from its intent;
  the manifest lists them as findings.

  Bounds. Path resolution follows at most 40 symbolic links, as the system does. \<open>copyDir\<close> and the
  manifest walk take the height of the tree as fuel; the theorems give a height that suffices and
  a result for it. \<open>chunk_loop\<close> is a partial function whose value \<open>None\<close> is a loop that never ends;
  it has a value for every size up to \<open>max_plannable\<close> and none above. The walk of the index takes
  the height of the five folders, \<open>pages\<close> the number of pages asked for. The other loops shrink a finite
  map or a list.

  Not modelled. The cryptographic primitives, \<open>encoding/json\<close> and image scaling kernels are
  parameters. Opening QUIC and WebRTC sessions, flow control on data channels, timeouts, file
  permissions and a worker that panics are left out. Not yet modelled: \<open>filecat.go\<close>, file search,
  \<open>logs.go\<close>, the proxy calls of \<open>types.go\<close>, the client side of agent forwarding and the proxy handlers of \<open>helpers.go\<close>. The
  remaining files call the operating system or desktop services and hold little logic of their
  own: \<open>iptun\<close>, \<open>info\<close>, \<open>ai\<close>, \<open>filegit.go\<close>, \<open>printer.go\<close>, \<open>screen.go\<close>, \<open>screenshot.go\<close>,
  \<open>wallpaper.go\<close>, \<open>mpris.go\<close>, \<open>audio.go\<close>, \<open>mdns.go\<close>, \<open>attach.go\<close> and the commands under \<open>cmd\<close>.
\<close>

end
